(* ===== verification/Prelude.thy ===== *)
theory Prelude
  imports Main "HOL-Library.Word" "HOL-Library.Multiset"
begin

text \<open>
  Shared vocabulary of the development.

  A component whose operations interleave is an executable partial step function
  \<open>step :: 'e \<Rightarrow> 's \<Rightarrow> 's option\<close>: the event \<open>'e\<close> names the thread that moves and resolves
  whatever the code leaves open (which sleeper a notification picks, a spurious failure of a
  weak compare-exchange); \<^term>\<open>None\<close> means the event is not enabled in the state.
  \<open>runs\<close> executes a list of events.  The locale \<open>safety_system\<close> is the interface between a
  component and its invariant: it is interpreted once per component and yields that the
  invariant holds after every run.

  The second half collects facts on 64-bit words (\<open>std::size_t\<close>), on index arithmetic with
  power-of-two masks, and on multisets of lists, which several components use.
\<close>

section \<open>Types shared by the components\<close>

type_synonym size_t = "64 word"
type_synonym tid = nat

named_theorems word_nat \<open>transfer of size_t arithmetic to natural numbers\<close>

section \<open>Runs of a step function\<close>

primrec runs :: "('e \<Rightarrow> 's \<Rightarrow> 's option) \<Rightarrow> 'e list \<Rightarrow> 's \<Rightarrow> 's option" where
  "runs step [] s = Some s"
| "runs step (e # es) s = (case step e s of None \<Rightarrow> None | Some s' \<Rightarrow> runs step es s')"

lemma runs_append:
  "runs step (es @ fs) s = (case runs step es s of None \<Rightarrow> None | Some s' \<Rightarrow> runs step fs s')"
  by (induction es arbitrary: s) (auto split: option.splits)

lemma runs_keeps: "(\<And>e s s'. step e s = Some s' \<Longrightarrow> f s' = f s) \<Longrightarrow> runs step es s = Some s' \<Longrightarrow> f s' = f s"
  by (induction es arbitrary: s) (auto split: option.splits)

lemma runs_snoc_Some:
  "runs step (es @ [e]) s = Some t \<longleftrightarrow> (\<exists>u. runs step es s = Some u \<and> step e u = Some t)"
  by (auto simp: runs_append split: option.splits)

locale safety_system =
  fixes step :: "'e \<Rightarrow> 's \<Rightarrow> 's option"
    and init :: 's
    and inv :: "'s \<Rightarrow> bool"
  assumes inv_init: "inv init"
    and inv_step: "inv s \<Longrightarrow> step e s = Some s' \<Longrightarrow> inv s'"
begin

lemma inv_runs: "runs step es s = Some s' \<Longrightarrow> inv s \<Longrightarrow> inv s'"
  by (induction es arbitrary: s) (auto split: option.splits intro: inv_step)

lemma inv_reachable: "runs step es init = Some s \<Longrightarrow> inv s"
  using inv_runs inv_init by blast

lemma inv_at_prefix:
  assumes "runs step (es @ fs) init = Some s"
  obtains u where "runs step es init = Some u" "inv u" "runs step fs u = Some s"
  using assms inv_reachable by (auto simp: runs_append split: option.splits)

end

text \<open>A system in which every step uses up part of a finite budget cannot run for ever.\<close>

locale terminating_system = safety_system step init inv
  for step :: "'e \<Rightarrow> 's \<Rightarrow> 's option" and init :: 's and inv :: "'s \<Rightarrow> bool" +
  fixes budget :: "'s \<Rightarrow> nat"
  assumes budget_step: "inv s \<Longrightarrow> step e s = Some s' \<Longrightarrow> budget s' < budget s"
begin

lemma runs_bounded: "runs step es s = Some s' \<Longrightarrow> inv s \<Longrightarrow> length es + budget s' \<le> budget s"
proof (induction es arbitrary: s)
  case Nil
  then show ?case by simp
next
  case (Cons e es)
  then obtain u where u: "step e s = Some u" "runs step es u = Some s'"
    by (auto split: option.splits)
  from u(1) Cons.prems(2) have "inv u" "budget u < budget s"
    by (auto intro: inv_step budget_step)
  with Cons.IH [OF u(2)] show ?case by simp
qed

lemma reachable_bounded: "runs step es init = Some s \<Longrightarrow> length es \<le> budget init"
  using runs_bounded inv_init by fastforce

end

section \<open>One thread at a program point\<close>

text \<open>
  \<open>held_by f a h\<close>: \<open>h\<close> is the one thread whose program counter \<open>f\<close> is at the point \<open>a\<close>, if any.
\<close>

definition held_by :: "(tid \<Rightarrow> 'p) \<Rightarrow> 'p \<Rightarrow> tid option \<Rightarrow> bool" where
  "held_by f a h \<longleftrightarrow> (\<forall>t. f t = a \<longrightarrow> h = Some t) \<and> (\<forall>t. h = Some t \<longrightarrow> f t = a)"

lemma held_by_at: "held_by f a h \<Longrightarrow> f t = a \<Longrightarrow> h = Some t"
  unfolding held_by_def by blast

lemma held_by_holds: "held_by f a (Some t) \<Longrightarrow> f t = a"
  unfolding held_by_def by blast

lemma held_byI: "(\<And>t. f t = a \<Longrightarrow> h = Some t) \<Longrightarrow> (\<And>t. h = Some t \<Longrightarrow> f t = a) \<Longrightarrow> held_by f a h"
  unfolding held_by_def by blast

lemma held_by_unique: "held_by f a h \<Longrightarrow> f t = a \<Longrightarrow> f u = a \<Longrightarrow> t = u"
  using held_by_at option.inject by metis

lemma held_by_ex: "held_by f a h \<Longrightarrow> (\<exists>t. f t = a) \<longleftrightarrow> h \<noteq> None"
  using held_by_at held_by_holds not_None_eq by metis

lemma held_by_None: "held_by (\<lambda>_. b) a None \<longleftrightarrow> b \<noteq> a"
  by (auto simp: held_by_def)

lemma held_by_other:
  assumes "held_by f a h" "f u \<noteq> a" "b \<noteq> a"
  shows "held_by (f(u := b)) a h"
proof (rule held_byI)
  fix t
  show "h = Some t" if "(f(u := b)) t = a"
    using that assms held_by_at[OF assms(1)] by (cases "t = u") simp_all
  show "(f(u := b)) t = a" if "h = Some t"
    using that assms held_by_holds[of f a t] by (cases "t = u") auto
qed

lemma held_by_enter: "held_by f a None \<Longrightarrow> held_by (f(u := a)) a (Some u)"
  using held_by_at[of f a None] by (intro held_byI) (auto split: if_splits)

lemma held_by_leave: "held_by f a h \<Longrightarrow> f u = a \<Longrightarrow> b \<noteq> a \<Longrightarrow> held_by (f(u := b)) a None"
  using held_by_unique[of f a h] by (intro held_byI) (auto split: if_splits)

lemmas held_by_intros = held_by_other held_by_enter held_by_leave

section \<open>Counting threads\<close>

text \<open>
  \<open>number P ps\<close>: how many of the threads with the program counters \<open>ps\<close> satisfy \<open>P\<close>.  When one thread
  moves, every such number changes by what that thread contributed before and contributes now.
\<close>

definition number :: "('p \<Rightarrow> bool) \<Rightarrow> 'p list \<Rightarrow> nat" where
  "number P ps = length (filter P ps)"

lemma number_simps [simp]: "number P [] = 0" "number P (p # ps) = of_bool (P p) + number P ps"
  by (simp_all add: number_def)

lemma number_move:
  "i < length ps \<Longrightarrow> number P (ps[i := q]) + of_bool (P (ps ! i)) = number P ps + of_bool (P q)"
proof (induction ps arbitrary: i)
  case (Cons p ps)
  then show ?case by (cases i) (auto simp: add.assoc)
qed simp

lemma number_move_same: "i < length ps \<Longrightarrow> P q = P (ps ! i) \<Longrightarrow> number P (ps[i := q]) = number P ps"
  using number_move[of i ps P q] by simp

lemma number_move_in: "i < length ps \<Longrightarrow> P q \<Longrightarrow> \<not> P (ps ! i) \<Longrightarrow> number P (ps[i := q]) = Suc (number P ps)"
  using number_move[of i ps P q] by simp

lemma number_move_out: "i < length ps \<Longrightarrow> \<not> P q \<Longrightarrow> P (ps ! i) \<Longrightarrow> Suc (number P (ps[i := q])) = number P ps"
  using number_move[of i ps P q] by simp

lemma number_zero: "number P ps = 0 \<longleftrightarrow> (\<forall>i < length ps. \<not> P (ps ! i))"
  by (simp add: number_def filter_empty_conv all_set_conv_all_nth)

lemma number_pos: "i < length ps \<Longrightarrow> P (ps ! i) \<Longrightarrow> 0 < number P ps"
  using number_zero[of P ps] by auto

lemma number_le: "number P ps \<le> length ps"
  by (simp add: number_def)

lemma number_replicate: "number P (replicate n p) = (if P p then n else 0)"
  by (simp add: number_def)

lemma number_unique:
  assumes "number P ps \<le> 1" "i < length ps" "P (ps ! i)" "j < length ps" "P (ps ! j)"
  shows "i = j"
proof (rule ccontr)
  assume "i \<noteq> j"
  have "card {i, j} \<le> card {k. k < length ps \<and> P (ps ! k)}"
    using assms by (intro card_mono) auto
  also have "\<dots> = number P ps" by (simp add: number_def length_filter_conv_card)
  finally show False using \<open>i \<noteq> j\<close> assms(1) by simp
qed

section \<open>Words as array indices\<close>

unbundle bit_operations_syntax

lemma unat_and_mask [word_nat]: "unat (w AND (2 ^ k - 1) :: size_t) = unat w mod 2 ^ k"
proof -
  have "w AND (2 ^ k - 1) = take_bit k w"
    by (simp add: take_bit_eq_mask mask_eq_exp_minus_1)
  moreover have "unat (take_bit k w) = unat w mod 2 ^ k"
    by (metis unsigned_take_bit_eq take_bit_eq_mod)
  ultimately show ?thesis by metis
qed

lemma unat_of_nat_small [word_nat]: "n < 2 ^ 64 \<Longrightarrow> unat (of_nat n :: size_t) = n"
  by (simp add: unat_of_nat)

lemma unat_pow2 [word_nat]: "k < 64 \<Longrightarrow> unat (2 ^ k :: size_t) = 2 ^ k"
  using unat_of_nat_small [of "2 ^ k"] power_strict_increasing_iff [of "2::nat" k 64] by simp

lemma unat_lt_64: "unat (a :: size_t) < 2 ^ 64"
  using unsigned_less [of a] by simp

lemma unat_plus_small: "unat (a :: size_t) + unat b < 2 ^ 64 \<Longrightarrow> unat (a + b) = unat a + unat b"
  by (simp add: unat_word_ariths)

lemma unat_minus_small: "unat (b :: size_t) \<le> unat a \<Longrightarrow> unat (a - b) = unat a - unat b"
  by (simp add: unat_sub_if_size)

lemma unat_minus_wrap: "unat (a :: size_t) < unat b \<Longrightarrow> unat (a - b) = unat a + 2 ^ 64 - unat b"
  using unat_lt_64[of b] by (simp add: unat_sub_if_size word_size)

lemma pow2_dvd_64: "k \<le> 64 \<Longrightarrow> (2::nat) ^ k dvd 2 ^ 64"
  by (rule le_imp_power_dvd)

lemma mod_mod_pow2 [simp]: "k \<le> 64 \<Longrightarrow> (m mod 2 ^ 64) mod 2 ^ k = m mod (2::nat) ^ k"
  by (rule mod_mod_cancel) (rule pow2_dvd_64)

text \<open>Masked sums and differences of indices are sums and differences modulo the capacity.\<close>

lemma unat_plus_mask [word_nat]:
  "k \<le> 64 \<Longrightarrow> unat ((a + b) AND (2 ^ k - 1) :: size_t) = (unat a + unat b) mod 2 ^ k"
  using mod_mod_pow2 [of k "unat a + unat b"]
  by (simp add: unat_and_mask unat_word_ariths del: mod_mod_pow2)

lemma unat_minus_mask [word_nat]:
  assumes "k \<le> 64" "unat b < 2 ^ k" "unat a < 2 ^ k"
  shows "unat ((a - b) AND (2 ^ k - 1) :: size_t) = (unat a + 2 ^ k - unat b) mod 2 ^ k"
proof (cases "unat b \<le> unat a")
  case True
  then have "unat (a - b) = unat a - unat b" by (rule unat_minus_small)
  then have "unat ((a - b) AND (2 ^ k - 1)) = (unat a - unat b) mod 2 ^ k"
    by (simp add: unat_and_mask)
  also have "\<dots> = (unat a - unat b + 2 ^ k) mod 2 ^ k" by simp
  also have "unat a - unat b + 2 ^ k = unat a + 2 ^ k - unat b" using True by simp
  finally show ?thesis .
next
  case False
  obtain c where c: "(2::nat) ^ 64 = 2 ^ k * c" using pow2_dvd_64[OF assms(1)] by (auto elim: dvdE)
  then have "c > 0" by (metis gr0I mult_0_right power_not_zero zero_neq_numeral)
  then obtain d where d: "c = Suc d" by (cases c) auto
  from False have "unat (a - b) = unat a + 2 ^ 64 - unat b" by (simp add: unat_minus_wrap)
  also have "\<dots> = (unat a + 2 ^ k - unat b) + 2 ^ k * d"
    using c d assms(2) by simp
  finally show ?thesis by (simp add: unat_and_mask)
qed

lemma mod_add_cancel:
  assumes "(a + d) mod m = (b + d) mod (m :: nat)"
  shows "a mod m = b mod m"
proof -
  have "a mod m = b mod m" if "a \<le> b" "(a + d) mod m = (b + d) mod m" for a b
  proof -
    have "m dvd (b + d) - (a + d)" using that by (intro mod_eq_dvd_iff_nat[THEN iffD1]) auto
    then show ?thesis using that(1) by (metis add_diff_cancel_right mod_eq_dvd_iff_nat)
  qed
  from this[of a b] this[of b a] show ?thesis using assms by (metis nat_le_linear)
qed


end
