(* ===== verification/Spin_Mutex.thy ===== *)
theory Spin_Mutex
  imports Prelude
begin

text \<open>
  The two spin locks of \<open>src/SpinMutex.h\<close> and \<open>src/SpinMutex.cpp\<close>.

  \<open>SpinMutex\<close> is an \<open>atomic_flag\<close>; \<open>lock\<close> repeats \<open>test_and_set\<close> until the old value was clear.
  \<open>SpinMutexAdvanced\<close> is an \<open>atomic<int>\<close>; \<open>lock\<close> first waits for a relaxed load of 0, then
  tries a weak compare-exchange, which may fail spuriously, and starts over.  Threads are
  numbered; each atomic access of a thread is one event.  Only the thread that is inside the
  critical section calls \<open>unlock\<close>, as a \<open>std::unique_lock\<close> does.
\<close>

section \<open>SpinMutex\<close>

datatype spin_pc = Spin_outside | Spin_locking | Spin_inside

record spin_mutex =
  spin_lock :: bool
  spin_pcs :: "tid \<Rightarrow> spin_pc"

definition SpinMutex :: spin_mutex where
  "SpinMutex = \<lparr>spin_lock = False, spin_pcs = (\<lambda>_. Spin_outside)\<rparr>"

text \<open>\<open>atomic_flag::test_and_set\<close> returns the old value and leaves the flag set.\<close>

definition test_and_set :: "spin_mutex \<Rightarrow> bool \<times> spin_mutex" where
  "test_and_set s = (spin_lock s, s\<lparr>spin_lock := True\<rparr>)"

definition spin_goto :: "tid \<Rightarrow> spin_pc \<Rightarrow> spin_mutex \<Rightarrow> spin_mutex" where
  "spin_goto t p s = s\<lparr>spin_pcs := (spin_pcs s)(t := p)\<rparr>"

text \<open>One iteration of \<open>while (_lock.test_and_set(acquire));\<close>\<close>

definition SpinMutex_lock :: "tid \<Rightarrow> spin_mutex \<Rightarrow> spin_mutex" where
  "SpinMutex_lock t s =
     (let (old, s') = test_and_set s in if old then s' else spin_goto t Spin_inside s')"

definition SpinMutex_unlock :: "spin_mutex \<Rightarrow> spin_mutex" where
  "SpinMutex_unlock s = s\<lparr>spin_lock := False\<rparr>"

definition SpinMutex_destroy :: "spin_mutex \<Rightarrow> spin_mutex" where
  "SpinMutex_destroy s = SpinMutex_unlock s"

datatype spin_event = Spin_call tid | Spin_try tid | Spin_unlock tid

fun spin_step :: "spin_event \<Rightarrow> spin_mutex \<Rightarrow> spin_mutex option" where
  "spin_step (Spin_call t) s =
     (if spin_pcs s t = Spin_outside then Some (spin_goto t Spin_locking s) else None)"
| "spin_step (Spin_try t) s =
     (if spin_pcs s t = Spin_locking then Some (SpinMutex_lock t s) else None)"
| "spin_step (Spin_unlock t) s =
     (if spin_pcs s t = Spin_inside then Some (spin_goto t Spin_outside (SpinMutex_unlock s))
      else None)"

section \<open>SpinMutexAdvanced\<close>

datatype adv_pc =
    Adv_outside
  | Adv_reading   \<comment> \<open>in \<open>while (_state.load(relaxed) != 0) {}\<close>\<close>
  | Adv_cas       \<comment> \<open>about to execute \<open>compare_exchange_weak(expected, 1)\<close> of \<open>lock\<close>\<close>
  | Adv_inside

record spin_advanced =
  adv_state :: int
  adv_pcs :: "tid \<Rightarrow> adv_pc"

definition SpinMutexAdvanced :: spin_advanced where
  "SpinMutexAdvanced = \<lparr>adv_state = 0, adv_pcs = (\<lambda>_. Adv_outside)\<rparr>"

text \<open>The assertion of the destructor.\<close>

definition SpinMutexAdvanced_destroy_ok :: "spin_advanced \<Rightarrow> bool" where
  "SpinMutexAdvanced_destroy_ok s \<longleftrightarrow> adv_state s = 0"

definition adv_goto :: "tid \<Rightarrow> adv_pc \<Rightarrow> spin_advanced \<Rightarrow> spin_advanced" where
  "adv_goto t p s = s\<lparr>adv_pcs := (adv_pcs s)(t := p)\<rparr>"

text \<open>\<open>compare_exchange_weak\<close>; \<open>spurious\<close> says that this attempt fails whatever the value.\<close>

definition adv_cas :: "bool \<Rightarrow> int \<Rightarrow> int \<Rightarrow> spin_advanced \<Rightarrow> bool \<times> spin_advanced" where
  "adv_cas spurious expected desired s =
     (if adv_state s = expected \<and> \<not> spurious then (True, s\<lparr>adv_state := desired\<rparr>) else (False, s))"

text \<open>The two atomic accesses of one round of \<open>lock\<close>.\<close>

definition SpinMutexAdvanced_lock_load :: "tid \<Rightarrow> spin_advanced \<Rightarrow> spin_advanced" where
  "SpinMutexAdvanced_lock_load t s = (if adv_state s \<noteq> 0 then s else adv_goto t Adv_cas s)"

definition SpinMutexAdvanced_lock_cas :: "bool \<Rightarrow> tid \<Rightarrow> spin_advanced \<Rightarrow> spin_advanced" where
  "SpinMutexAdvanced_lock_cas spurious t s =
     (let (ok, s') = adv_cas spurious 0 1 s
      in if ok then adv_goto t Adv_inside s' else adv_goto t Adv_reading s')"

definition SpinMutexAdvanced_try_lock :: "bool \<Rightarrow> tid \<Rightarrow> spin_advanced \<Rightarrow> bool \<times> spin_advanced" where
  "SpinMutexAdvanced_try_lock spurious t s =
     (let (ok, s') = adv_cas spurious 0 1 s in (ok, if ok then adv_goto t Adv_inside s' else s'))"

definition SpinMutexAdvanced_unlock :: "spin_advanced \<Rightarrow> spin_advanced" where
  "SpinMutexAdvanced_unlock s = s\<lparr>adv_state := 0\<rparr>"

datatype adv_event =
    Adv_call tid | Adv_load tid | Adv_try_cas bool tid | Adv_try_lock bool tid | Adv_unlock tid

fun adv_step :: "adv_event \<Rightarrow> spin_advanced \<Rightarrow> spin_advanced option" where
  "adv_step (Adv_call t) s =
     (if adv_pcs s t = Adv_outside then Some (adv_goto t Adv_reading s) else None)"
| "adv_step (Adv_load t) s =
     (if adv_pcs s t = Adv_reading then Some (SpinMutexAdvanced_lock_load t s) else None)"
| "adv_step (Adv_try_cas spurious t) s =
     (if adv_pcs s t = Adv_cas then Some (SpinMutexAdvanced_lock_cas spurious t s) else None)"
| "adv_step (Adv_try_lock spurious t) s =
     (if adv_pcs s t = Adv_outside then Some (snd (SpinMutexAdvanced_try_lock spurious t s))
      else None)"
| "adv_step (Adv_unlock t) s =
     (if adv_pcs s t = Adv_inside then Some (adv_goto t Adv_outside (SpinMutexAdvanced_unlock s))
      else None)"

section \<open>The contract of a lock\<close>

text \<open>
  A lock is a system with a notion of being inside and of being taken: whoever is inside took
  the lock, and no two threads are inside.  Both classes provide it.
\<close>

locale mutex_system = safety_system step init inv
  for step :: "'e \<Rightarrow> 's \<Rightarrow> 's option" and init :: 's and inv :: "'s \<Rightarrow> bool" +
  fixes inside :: "'s \<Rightarrow> tid \<Rightarrow> bool"
    and taken :: "'s \<Rightarrow> bool"
  assumes inv_unique: "inv s \<Longrightarrow> inside s t \<Longrightarrow> inside s u \<Longrightarrow> t = u"
    and inv_taken: "inv s \<Longrightarrow> taken s \<longleftrightarrow> (\<exists>t. inside s t)"
begin

lemma mutual_exclusion:
  "runs step es init = Some s \<Longrightarrow> inside s t \<Longrightarrow> inside s u \<Longrightarrow> t = u"
  using inv_reachable inv_unique by blast

lemma taken_iff_holder:
  "runs step es init = Some s \<Longrightarrow> taken s \<longleftrightarrow> (\<exists>!t. inside s t)"
  using inv_reachable inv_unique inv_taken by metis

end

definition spin_inv :: "spin_mutex \<Rightarrow> bool" where
  "spin_inv s \<longleftrightarrow> (\<exists>h. held_by (spin_pcs s) Spin_inside h \<and> (spin_lock s \<longleftrightarrow> h \<noteq> None))"

lemmas spin_defs = spin_goto_def SpinMutex_lock_def SpinMutex_unlock_def test_and_set_def

lemma spin_inv_step:
  assumes "spin_inv s" and "spin_step e s = Some s'"
  shows "spin_inv s'"
proof -
  obtain h where h: "held_by (spin_pcs s) Spin_inside h" "spin_lock s \<longleftrightarrow> h \<noteq> None"
    using assms(1) by (auto simp: spin_inv_def)
  have other: "spin_inv (spin_goto t p s)" if "spin_pcs s t \<noteq> Spin_inside" "p \<noteq> Spin_inside" for t p
    using held_by_other[OF h(1) that] h(2) by (auto simp: spin_inv_def spin_goto_def)
  have enter: "spin_inv (spin_goto t Spin_inside (s\<lparr>spin_lock := True\<rparr>))" if "\<not> spin_lock s" for t
    using h that
    by (auto simp: spin_inv_def spin_goto_def intro!: exI[of _ "Some t"] held_by_enter)
  have leave: "spin_inv (spin_goto t Spin_outside (s\<lparr>spin_lock := False\<rparr>))"
    if "spin_pcs s t = Spin_inside" for t
    using h that
    by (auto simp: spin_inv_def spin_goto_def intro!: exI[of _ None] held_by_leave)
  have same: "spin_inv (s\<lparr>spin_lock := True\<rparr>)" if "spin_lock s"
    using assms(1) that by (simp add: spin_inv_def)
  show ?thesis
    using assms other enter leave same
    by (cases e) (auto simp: SpinMutex_lock_def SpinMutex_unlock_def test_and_set_def split: if_splits)
qed

lemma spin_inv_taken: "spin_inv s \<Longrightarrow> spin_lock s \<longleftrightarrow> (\<exists>t. spin_pcs s t = Spin_inside)"
  unfolding spin_inv_def using held_by_ex by metis

interpretation spin_mutex: mutex_system spin_step SpinMutex spin_inv
  "\<lambda>s t. spin_pcs s t = Spin_inside" spin_lock
proof
  show "spin_inv SpinMutex"
    by (auto simp: spin_inv_def SpinMutex_def held_by_None intro!: exI[of _ None])
next
  show "spin_inv s \<Longrightarrow> spin_step e s = Some s' \<Longrightarrow> spin_inv s'" for s e s'
    by (rule spin_inv_step)
next
  show "spin_inv s \<Longrightarrow> spin_pcs s t = Spin_inside \<Longrightarrow> spin_pcs s u = Spin_inside \<Longrightarrow> t = u" for s t u
    by (metis held_by_unique spin_inv_def)
qed (rule spin_inv_taken)

definition adv_inv :: "spin_advanced \<Rightarrow> bool" where
  "adv_inv s \<longleftrightarrow>
     (\<exists>h. held_by (adv_pcs s) Adv_inside h \<and> adv_state s = (if h = None then 0 else 1))"

lemmas adv_defs = adv_goto_def SpinMutexAdvanced_lock_load_def SpinMutexAdvanced_lock_cas_def
  SpinMutexAdvanced_try_lock_def SpinMutexAdvanced_unlock_def adv_cas_def

lemma adv_inv_step:
  assumes "adv_inv s" and "adv_step e s = Some s'"
  shows "adv_inv s'"
proof -
  obtain h where h: "held_by (adv_pcs s) Adv_inside h" "adv_state s = (if h = None then 0 else 1)"
    using assms(1) by (auto simp: adv_inv_def)
  have other: "adv_inv (adv_goto t p s)" if "adv_pcs s t \<noteq> Adv_inside" "p \<noteq> Adv_inside" for t p
    using held_by_other[OF h(1) that] h(2) by (auto simp: adv_inv_def adv_goto_def)
  have enter: "adv_inv (adv_goto t Adv_inside (s\<lparr>adv_state := 1\<rparr>))" if "adv_state s = 0" for t
    using h that
    by (auto simp: adv_inv_def adv_goto_def split: if_splits intro!: exI[of _ "Some t"] held_by_enter)
  have leave: "adv_inv (adv_goto t Adv_outside (s\<lparr>adv_state := 0\<rparr>))" if "adv_pcs s t = Adv_inside" for t
    using h that
    by (auto simp: adv_inv_def adv_goto_def intro!: exI[of _ None] held_by_leave)
  show ?thesis
    using assms(2) other enter leave assms(1)
    by (cases e) (auto simp: SpinMutexAdvanced_lock_load_def SpinMutexAdvanced_lock_cas_def
      SpinMutexAdvanced_try_lock_def SpinMutexAdvanced_unlock_def adv_cas_def split: if_splits)
qed

lemma adv_inv_taken: "adv_inv s \<Longrightarrow> adv_state s \<noteq> 0 \<longleftrightarrow> (\<exists>t. adv_pcs s t = Adv_inside)"
  unfolding adv_inv_def using held_by_ex by (metis zero_neq_one)

interpretation spin_advanced: mutex_system adv_step SpinMutexAdvanced adv_inv
  "\<lambda>s t. adv_pcs s t = Adv_inside" "\<lambda>s. adv_state s \<noteq> 0"
proof
  show "adv_inv SpinMutexAdvanced"
    by (auto simp: adv_inv_def SpinMutexAdvanced_def held_by_None intro!: exI[of _ None])
next
  show "adv_inv s \<Longrightarrow> adv_step e s = Some s' \<Longrightarrow> adv_inv s'" for s e s'
    by (rule adv_inv_step)
next
  show "adv_inv s \<Longrightarrow> adv_pcs s t = Adv_inside \<Longrightarrow> adv_pcs s u = Adv_inside \<Longrightarrow> t = u" for s t u
    by (metis held_by_unique adv_inv_def)
qed (rule adv_inv_taken)

section \<open>Properties\<close>

text \<open>
  C38. Whatever the interleaving of the threads that call \<open>SpinMutexAdvanced::lock\<close>,
  \<open>try_lock\<close> and \<open>unlock\<close>, and however often the weak compare-exchange fails spuriously, at
  most one thread is between a successful acquisition and its release, and the destructor's
  assertion holds exactly when no thread is.
\<close>

theorem SpinMutexAdvanced_exclusive:
  assumes "runs adv_step es SpinMutexAdvanced = Some s"
  shows "(\<forall>t u. adv_pcs s t = Adv_inside \<longrightarrow> adv_pcs s u = Adv_inside \<longrightarrow> t = u)
    \<and> (SpinMutexAdvanced_destroy_ok s \<longleftrightarrow> (\<forall>t. adv_pcs s t \<noteq> Adv_inside))"
  using spin_advanced.mutual_exclusion [OF assms] spin_advanced.taken_iff_holder [OF assms]
  by (auto simp: SpinMutexAdvanced_destroy_ok_def)

definition adv_example :: "adv_event list" where
  "adv_example = [Adv_call 0, Adv_call 1, Adv_load 0, Adv_load 1, Adv_try_cas True 0, Adv_load 0,
     Adv_try_cas False 1, Adv_try_cas False 0, Adv_load 0, Adv_try_lock False 2]"

theorem SpinMutexAdvanced_exclusive_witness:
  "\<exists>s. runs adv_step adv_example SpinMutexAdvanced = Some s \<and> adv_pcs s 1 = Adv_inside
     \<and> adv_pcs s 0 = Adv_reading \<and> \<not> SpinMutexAdvanced_destroy_ok s"
proof -
  obtain s where s: "runs adv_step adv_example SpinMutexAdvanced = Some s"
      "adv_pcs s 1 = Adv_inside" "adv_pcs s 0 = Adv_reading"
    by (simp add: adv_example_def SpinMutexAdvanced_def adv_defs)
  with SpinMutexAdvanced_exclusive [OF s(1)] show ?thesis by auto
qed

text \<open>
  The same for \<open>SpinMutex\<close>; and its \<open>lock\<close> makes progress: when the flag is clear, the next
  \<open>test_and_set\<close> of any thread in \<open>lock\<close> enters, and when it is set the attempt changes nothing.
\<close>

theorem SpinMutex_exclusive_progress:
  assumes "runs spin_step es SpinMutex = Some s"
  shows "(\<forall>t u. spin_pcs s t = Spin_inside \<longrightarrow> spin_pcs s u = Spin_inside \<longrightarrow> t = u)
    \<and> (\<forall>t. spin_pcs s t = Spin_locking \<longrightarrow> spin_step (Spin_try t) s =
        Some (if \<exists>u. spin_pcs s u = Spin_inside then s
              else s\<lparr>spin_lock := True, spin_pcs := (spin_pcs s)(t := Spin_inside)\<rparr>))"
proof -
  have "spin_lock s \<longleftrightarrow> (\<exists>u. spin_pcs s u = Spin_inside)"
    using spin_mutex.inv_reachable [OF assms] spin_mutex.inv_taken by blast
  then show ?thesis
    using spin_mutex.mutual_exclusion [OF assms] by (auto simp: spin_defs)
qed

theorem SpinMutex_exclusive_progress_witness:
  "\<exists>s. runs spin_step [Spin_call 0, Spin_call 1, Spin_try 1, Spin_try 0, Spin_unlock 1] SpinMutex
       = Some s \<and> (\<exists>s'. spin_step (Spin_try 0) s = Some s' \<and> spin_pcs s' 0 = Spin_inside)"
proof -
  obtain s where s: "runs spin_step [Spin_call 0, Spin_call 1, Spin_try 1, Spin_try 0, Spin_unlock 1]
      SpinMutex = Some s" "spin_pcs s 0 = Spin_locking" "\<forall>u. spin_pcs s u \<noteq> Spin_inside"
    by (simp add: SpinMutex_def spin_defs)
  with SpinMutex_exclusive_progress [OF s(1)] show ?thesis by auto
qed

end
