(* ===== verification/Wait_Event.thy ===== *)
theory Wait_Event
  imports Prelude
begin

text \<open>
  \<open>libs/asyncplusplus/src/task_wait_event.h\<close>: the event object on which a thread sleeps until a
  task finishes or work becomes available, and the cancellation token of
  \<open>libs/asyncplusplus/include/async++/cancel.h\<close>.

  \<open>signal\<close>, \<open>try_wait\<close> and the critical sections of \<open>wait\<close> hold the mutex \<open>m\<close>, so each is one
  atomic event.  The condition variable is modelled by the program counter of the one thread
  that owns the event: asleep inside \<open>c.wait\<close>, or woken up (by \<open>notify_one\<close> or spuriously) and
  about to test \<open>event_mask\<close> again.  The mask is a C++ \<open>int\<close>, a 32-bit word.
\<close>

unbundle bit_operations_syntax

section \<open>task_wait_event\<close>

definition task_finished :: "32 word" where "task_finished = 1"
definition task_available :: "32 word" where "task_available = 2"

lemmas wait_type_defs = task_finished_def task_available_def

datatype wait_pc =
    Wait_running              \<comment> \<open>the owner is not inside \<open>wait\<close>\<close>
  | Wait_asleep               \<comment> \<open>blocked in \<open>c.wait(lock)\<close>\<close>
  | Wait_woken                \<comment> \<open>woken, about to reacquire the mutex and test the mask\<close>
  | Wait_returned "32 word"   \<comment> \<open>\<open>wait\<close> has returned this value\<close>

record task_wait_event =
  event_mask :: "32 word"
  wait_pc :: wait_pc

definition task_wait_event :: task_wait_event where
  "task_wait_event = \<lparr>event_mask = 0, wait_pc = Wait_running\<rparr>"

text \<open>\<open>event_mask |= event; c.notify_one();\<close>\<close>

definition signal :: "32 word \<Rightarrow> task_wait_event \<Rightarrow> task_wait_event" where
  "signal event s = s\<lparr>event_mask := event_mask s OR event,
     wait_pc := (if wait_pc s = Wait_asleep then Wait_woken else wait_pc s)\<rparr>"

definition try_wait :: "32 word \<Rightarrow> task_wait_event \<Rightarrow> bool \<times> task_wait_event" where
  "try_wait event s =
     (event_mask s AND event \<noteq> 0, s\<lparr>event_mask := event_mask s AND NOT event\<rparr>)"

text \<open>
  One pass of \<open>while (event_mask == 0) c.wait(lock);\<close> and, when the loop is left, the rest of the
  body.  The source returns the comparison \<open>result != 0\<close>, converted to \<open>int\<close>.
\<close>

definition wait_check :: "task_wait_event \<Rightarrow> task_wait_event" where
  "wait_check s =
     (if event_mask s = 0 then s\<lparr>wait_pc := Wait_asleep\<rparr>
      else let result = event_mask s
           in s\<lparr>event_mask := 0, wait_pc := Wait_returned (if result \<noteq> 0 then 1 else 0)\<rparr>)"

datatype wait_step_event =
    Ev_signal "32 word" | Ev_try_wait "32 word" | Ev_wait | Ev_spurious | Ev_recheck | Ev_resume

fun wait_event_step :: "wait_step_event \<Rightarrow> task_wait_event \<Rightarrow> task_wait_event option" where
  "wait_event_step (Ev_signal ev) s = Some (signal ev s)"
| "wait_event_step (Ev_try_wait ev) s =
     (if wait_pc s = Wait_running then Some (snd (try_wait ev s)) else None)"
| "wait_event_step Ev_wait s = (if wait_pc s = Wait_running then Some (wait_check s) else None)"
| "wait_event_step Ev_spurious s =
     (if wait_pc s = Wait_asleep then Some (s\<lparr>wait_pc := Wait_woken\<rparr>) else None)"
| "wait_event_step Ev_recheck s = (if wait_pc s = Wait_woken then Some (wait_check s) else None)"
| "wait_event_step Ev_resume s =
     (case wait_pc s of Wait_returned r \<Rightarrow> Some (s\<lparr>wait_pc := Wait_running\<rparr>) | _ \<Rightarrow> None)"

definition wait_event_inv :: "task_wait_event \<Rightarrow> bool" where
  "wait_event_inv s \<longleftrightarrow> (wait_pc s = Wait_asleep \<longrightarrow> event_mask s = 0)
     \<and> (\<forall>r. wait_pc s = Wait_returned r \<longrightarrow> r = 1)"

lemma signal_pending: "ev \<noteq> 0 \<Longrightarrow> event_mask (signal ev s) \<noteq> 0"
  by (simp add: signal_def) (metis bit_or_iff bit_eq_iff bit_0_eq bot_apply bot_bool_def)

lemma wait_event_inv_step: "wait_event_inv s \<Longrightarrow> wait_event_step e s = Some s' \<Longrightarrow> wait_event_inv s'"
  by (cases e) (auto simp: wait_event_inv_def signal_def try_wait_def wait_check_def Let_def
      split: if_splits wait_pc.splits)

interpretation wait_event: safety_system wait_event_step task_wait_event wait_event_inv
proof
  show "wait_event_inv task_wait_event"
    by (simp add: wait_event_inv_def task_wait_event_def)
qed (rule wait_event_inv_step)

lemma try_wait_result: "fst (try_wait ev s) \<longleftrightarrow> event_mask s AND ev \<noteq> 0"
  by (simp add: try_wait_def)

lemma try_wait_clears: "event_mask (snd (try_wait ev s)) AND ev = 0"
  by (simp add: try_wait_def and.assoc)

lemma try_wait_keeps:
  assumes "ev AND ev' = 0"
  shows "event_mask (snd (try_wait ev s)) AND ev' = event_mask s AND ev'"
proof -
  have "ev' = NOT ev AND ev'"
  proof (rule bit_word_eqI)
    fix n assume n: "n < LENGTH(32)"
    have "bit (ev AND ev') n = bit (0 :: 32 word) n" using assms by simp
    then have "\<not> (bit ev n \<and> bit ev' n)" by (simp add: bit_and_iff)
    then show "bit ev' n \<longleftrightarrow> bit (NOT ev AND ev') n"
      using n by (auto simp: bit_and_iff bit_not_iff)
  qed
  then have "(event_mask s AND NOT ev) AND ev' = event_mask s AND ev'"
    by (metis and.assoc)
  then show ?thesis by (simp add: try_wait_def)
qed

text \<open>
  C36. \<open>task_wait_event::wait\<close> never sleeps on a pending event: in every reachable state a sleeping
  owner has an empty mask, and a signal with a non-empty mask wakes it.  But the value \<open>wait\<close>
  returns says nothing about which event occurred: it is always 1, which is the bit of
  \<open>task_finished\<close>, also when only \<open>task_available\<close> was ever signalled.
\<close>

theorem wait_no_lost_wakeup_constant_result:
  assumes "runs wait_event_step es task_wait_event = Some s"
  shows "(wait_pc s = Wait_asleep \<longrightarrow> event_mask s = 0)
    \<and> (\<forall>ev. ev \<noteq> 0 \<longrightarrow> wait_pc (signal ev s) \<noteq> Wait_asleep \<and> event_mask (signal ev s) \<noteq> 0)
    \<and> (\<forall>r. wait_pc s = Wait_returned r \<longrightarrow> r = task_finished)"
  using wait_event.inv_reachable [OF assms] signal_pending
  by (auto simp: wait_event_inv_def signal_def task_finished_def)

theorem wait_no_lost_wakeup_constant_result_witness:
  "\<exists>s. runs wait_event_step [Ev_wait, Ev_spurious, Ev_recheck, Ev_signal task_available, Ev_recheck]
       task_wait_event = Some s \<and> wait_pc s = Wait_returned task_finished"
proof -
  obtain s r where s: "runs wait_event_step
      [Ev_wait, Ev_spurious, Ev_recheck, Ev_signal task_available, Ev_recheck] task_wait_event = Some s"
      "wait_pc s = Wait_returned r"
    by (simp add: task_wait_event_def wait_check_def signal_def wait_type_defs)
  with wait_no_lost_wakeup_constant_result [OF s(1)] show ?thesis by auto
qed

section \<open>cancellation_token\<close>

record cancellation_token = token_state :: bool

datatype task_canceled = task_canceled

definition cancellation_token :: cancellation_token where
  "cancellation_token = \<lparr>token_state = False\<rparr>"

definition is_canceled :: "cancellation_token \<Rightarrow> bool" where
  "is_canceled c = token_state c"

definition cancel_token :: "cancellation_token \<Rightarrow> cancellation_token" where
  "cancel_token c = c\<lparr>token_state := True\<rparr>"

definition reset_token :: "cancellation_token \<Rightarrow> cancellation_token" where
  "reset_token c = c\<lparr>token_state := False\<rparr>"

text \<open>\<open>interruption_point\<close> throws \<open>task_canceled\<close> when the token is set.\<close>

definition interruption_point :: "cancellation_token \<Rightarrow> task_canceled + unit" where
  "interruption_point c = (if is_canceled c then Inl task_canceled else Inr ())"

lemma interruption_point_cancel [simp]: "interruption_point (cancel_token c) = Inl task_canceled"
  by (simp add: interruption_point_def is_canceled_def cancel_token_def)

lemma interruption_point_reset [simp]: "interruption_point (reset_token c) = Inr ()"
  by (simp add: interruption_point_def is_canceled_def reset_token_def)

end
