(* ===== verification/Aligned_Array.thy ===== *)
theory Aligned_Array
  imports Prelude
begin

text \<open>
  \<open>libs/asyncplusplus/include/async++/aligned_alloc.h\<close>: \<open>aligned_array\<close>, the owning array under
  the queues and the per-thread data of the thread pool.

  An element slot is raw memory or a live object.  Running a destructor on a raw slot is
  undefined behaviour, the error \<open>Destroy_raw\<close>.  The element constructor is a parameter: it
  yields an object for an index or throws.  The allocator is a parameter too, a predicate that
  says which byte counts it grants.
\<close>

datatype 'a slot = Raw | Live 'a

datatype 'e array_error =
    Bad_alloc
  | Rethrow 'e "nat"   \<comment> \<open>the element exception, and how many live elements were not destroyed\<close>
  | Destroy_raw nat    \<comment> \<open>destructor called on the raw slot with this index\<close>

record 'a aligned_array =
  arr_length :: nat
  arr_ptr :: "'a slot list"   \<comment> \<open>empty list for \<open>nullptr\<close>\<close>

definition null_array :: "'a aligned_array" where
  "null_array = \<lparr>arr_length = 0, arr_ptr = []\<rparr>"

text \<open>
  \<open>for (i = 0; i < length; i++) new(ptr + i) T;\<close>  The result is the filled memory, or the index
  at which the constructor threw with the memory at that moment.
\<close>

function construct_loop ::
  "(nat \<Rightarrow> 'e + 'a) \<Rightarrow> nat \<Rightarrow> nat \<Rightarrow> 'a slot list \<Rightarrow> (nat \<times> 'e \<times> 'a slot list) + 'a slot list" where
  "construct_loop ctor len i ptr =
     (if i < len then
        (case ctor i of
           Inl e \<Rightarrow> Inl (i, e, ptr)
         | Inr a \<Rightarrow> construct_loop ctor len (Suc i) (ptr[i := Live a]))
      else Inr ptr)"
  by pat_completeness auto
termination by (relation "measure (\<lambda>(_, len, i, _). len - i)") auto

declare construct_loop.simps [simp del]

text \<open>
  The handler: \<open>for (j = 0; j < i; j++) ptr[i].~T();\<close>  The subscript is \<open>i\<close>, as in the source.
\<close>

primrec cleanup_loop :: "nat \<Rightarrow> nat \<Rightarrow> 'a slot list \<Rightarrow> 'e array_error + 'a slot list" where
  "cleanup_loop i 0 ptr = Inr ptr"
| "cleanup_loop i (Suc j) ptr =
     (case ptr ! i of Raw \<Rightarrow> Inl (Destroy_raw i) | Live _ \<Rightarrow> cleanup_loop i j (ptr[i := Raw]))"

definition live_count :: "'a slot list \<Rightarrow> nat" where
  "live_count ptr = length (filter (\<lambda>x. x \<noteq> Raw) ptr)"

definition aligned_array ::
  "(nat \<Rightarrow> bool) \<Rightarrow> nat \<Rightarrow> (nat \<Rightarrow> 'e + 'a) \<Rightarrow> nat \<Rightarrow> 'e array_error + 'a aligned_array" where
  "aligned_array alloc_ok elem_size ctor len =
     (if \<not> alloc_ok (len * elem_size) then Inl Bad_alloc
      else case construct_loop ctor len 0 (replicate len Raw) of
        Inr ptr \<Rightarrow> Inr \<lparr>arr_length = len, arr_ptr = ptr\<rparr>
      | Inl (i, e, ptr) \<Rightarrow>
          (case cleanup_loop i i ptr of
             Inl u \<Rightarrow> Inl u
           | Inr ptr' \<Rightarrow> Inl (Rethrow e (live_count ptr'))))"

text \<open>The destructor runs the element destructors in index order and frees the memory.\<close>

fun destroy_loop :: "nat \<Rightarrow> 'a slot list \<Rightarrow> 'e array_error + 'a list" where
  "destroy_loop i [] = Inr []"
| "destroy_loop i (Raw # ptr) = Inl (Destroy_raw i)"
| "destroy_loop i (Live a # ptr) =
     (case destroy_loop (Suc i) ptr of Inl u \<Rightarrow> Inl u | Inr as \<Rightarrow> Inr (a # as))"

definition aligned_array_destroy :: "'a aligned_array \<Rightarrow> 'e array_error + 'a list" where
  "aligned_array_destroy a = destroy_loop 0 (take (arr_length a) (arr_ptr a))"

text \<open>Move constructor: the new array and what is left of \<open>other\<close>.\<close>

definition aligned_array_move :: "'a aligned_array \<Rightarrow> 'a aligned_array \<times> 'a aligned_array" where
  "aligned_array_move other = (other, other\<lparr>arr_ptr := [], arr_length := 0\<rparr>)"

text \<open>
  Move assignment \<open>*this = std::move(other)\<close>, for distinct objects: a temporary takes the old
  contents of \<open>*this\<close> and destroys them, then the pointers and lengths are exchanged.
\<close>

definition aligned_array_move_assign ::
  "'a aligned_array \<Rightarrow> 'a aligned_array
     \<Rightarrow> 'e array_error + ('a aligned_array \<times> 'a aligned_array \<times> 'a list)" where
  "aligned_array_move_assign this other =
     (let (temp, this') = aligned_array_move this in
      case aligned_array_destroy temp of
        Inl u \<Rightarrow> Inl u
      | Inr destroyed \<Rightarrow>
          Inr (\<lparr>arr_length = arr_length other, arr_ptr = arr_ptr other\<rparr>,
               \<lparr>arr_length = arr_length this', arr_ptr = arr_ptr this'\<rparr>, destroyed))"

definition array_get :: "'a aligned_array \<Rightarrow> nat \<Rightarrow> 'a option" where
  "array_get a i =
     (if i < arr_length a then (case arr_ptr a ! i of Live x \<Rightarrow> Some x | Raw \<Rightarrow> None) else None)"

definition array_size :: "'a aligned_array \<Rightarrow> nat" where
  "array_size a = arr_length a"

section \<open>Construction\<close>

definition array_ok :: "'a aligned_array \<Rightarrow> 'a list \<Rightarrow> bool" where
  "array_ok a xs \<longleftrightarrow> arr_length a = length xs \<and> arr_ptr a = map Live xs"

lemma construct_loop_ok:
  "\<lbrakk>i \<le> len; \<forall>j. i \<le> j \<longrightarrow> j < len \<longrightarrow> ctor j = Inr (f j)\<rbrakk>
   \<Longrightarrow> construct_loop ctor len i (map Live (map f [0..<i]) @ replicate (len - i) Raw)
       = Inr (map Live (map f [0..<len]))"
proof (induction "len - i" arbitrary: i)
  case 0
  then show ?case by (subst construct_loop.simps) simp
next
  case (Suc d)
  then have i: "i < len" by simp
  have upd: "(map Live (map f [0..<i]) @ replicate (len - i) Raw)[i := Live (f i)]
      = map Live (map f [0..<Suc i]) @ replicate (len - Suc i) Raw"
    using i by (simp add: list_update_append Suc_diff_Suc [symmetric])
  show ?case
    using Suc.hyps(1) [of "Suc i"] Suc.hyps(2) Suc.prems i upd
    by (subst construct_loop.simps) (simp del: upt_Suc)
qed

lemma construct_loop_throws:
  "\<lbrakk>i \<le> k; k < len; \<forall>j. i \<le> j \<longrightarrow> j < k \<longrightarrow> ctor j = Inr (f j); ctor k = Inl e\<rbrakk>
   \<Longrightarrow> construct_loop ctor len i (map Live (map f [0..<i]) @ replicate (len - i) Raw)
       = Inl (k, e, map Live (map f [0..<k]) @ replicate (len - k) Raw)"
proof (induction "k - i" arbitrary: i)
  case 0
  then show ?case by (subst construct_loop.simps) simp
next
  case (Suc d)
  then have i: "i < k" by simp
  have upd: "(map Live (map f [0..<i]) @ replicate (len - i) Raw)[i := Live (f i)]
      = map Live (map f [0..<Suc i]) @ replicate (len - Suc i) Raw"
    using i Suc.prems by (simp add: list_update_append Suc_diff_Suc [symmetric])
  show ?case
    using Suc.hyps(1) [of "Suc i"] Suc.hyps(2) Suc.prems i upd
    by (subst construct_loop.simps) (simp del: upt_Suc)
qed

lemma destroy_loop_live: "destroy_loop i (map Live xs) = Inr xs"
  by (induction xs arbitrary: i) auto

lemma destroy_ok: "array_ok a xs \<Longrightarrow> aligned_array_destroy a = Inr xs"
  by (simp add: aligned_array_destroy_def array_ok_def destroy_loop_live)

lemma array_get_ok: "array_ok a xs \<Longrightarrow> array_get a i = (if i < length xs then Some (xs ! i) else None)"
  by (simp add: array_get_def array_ok_def)

text \<open>
  If every element constructor succeeds, the array holds exactly the constructed elements
  and its destructor destroys each of them once, in order.  If the constructor of element \<open>k\<close>
  throws, the handler is correct only for \<open>k = 0\<close>: for every later element it runs a destructor
  on the raw slot \<open>k\<close>, because it indexes with \<open>i\<close> instead of \<open>j\<close>.
\<close>

theorem aligned_array_construction:
  assumes "alloc_ok (len * sz)"
  shows "((\<forall>j<len. ctor j = Inr (f j)) \<longrightarrow>
           (\<exists>a. aligned_array alloc_ok sz ctor len = Inr a \<and> array_ok a (map f [0..<len])
             \<and> (aligned_array_destroy a :: 'e array_error + 'a list) = Inr (map f [0..<len])))
    \<and> (\<forall>k e. k < len \<and> (\<forall>j<k. ctor j = Inr (f j)) \<and> ctor k = Inl e \<longrightarrow>
         aligned_array alloc_ok sz ctor len = Inl (if k = 0 then Rethrow e 0 else Destroy_raw k))"
proof (intro conjI impI allI)
  assume "\<forall>j<len. ctor j = Inr (f j)"
  then have "construct_loop ctor len 0 (replicate len Raw) = Inr (map Live (map f [0..<len]))"
    using construct_loop_ok [of 0 len ctor f] by simp
  then have "aligned_array alloc_ok sz ctor len
      = Inr \<lparr>arr_length = len, arr_ptr = map Live (map f [0..<len])\<rparr>"
    using assms by (simp add: aligned_array_def)
  moreover have "array_ok \<lparr>arr_length = len, arr_ptr = map Live (map f [0..<len])\<rparr> (map f [0..<len])"
    by (simp add: array_ok_def)
  ultimately show "\<exists>a. aligned_array alloc_ok sz ctor len = Inr a \<and> array_ok a (map f [0..<len])
      \<and> (aligned_array_destroy a :: 'e array_error + 'a list) = Inr (map f [0..<len])"
    using destroy_ok by blast
next
  fix k e
  assume k: "k < len \<and> (\<forall>j<k. ctor j = Inr (f j)) \<and> ctor k = Inl e"
  then have c: "construct_loop ctor len 0 (replicate len Raw)
      = Inl (k, e, map Live (map f [0..<k]) @ replicate (len - k) Raw)"
    using construct_loop_throws [of 0 k len ctor f e] by simp
  have raw: "(map Live (map f [0..<k]) @ replicate (len - k) Raw) ! k = Raw"
    using k by (simp add: nth_append)
  show "aligned_array alloc_ok sz ctor len = Inl (if k = 0 then Rethrow e 0 else Destroy_raw k)"
    using assms c raw
    by (cases k) (auto simp: aligned_array_def live_count_def)
qed

definition throw_at_2 :: "nat \<Rightarrow> string + nat" where
  "throw_at_2 i = (if i = 2 then Inl ''ctor'' else Inr (10 * i))"

theorem aligned_array_construction_witness:
  "aligned_array (\<lambda>bytes. bytes < 100) 8 throw_at_2 4 = Inl (Destroy_raw 2)
   \<and> (\<exists>a. aligned_array (\<lambda>bytes. bytes < 100) 8 throw_at_2 2 = Inr a \<and> array_ok a [0, 10])"
proof -
  have ok: "(4::nat) * 8 < 100" "(2::nat) * 8 < 100" by simp_all
  have upt: "[0..<2] = [0, 1::nat]" by (simp add: upt_rec)
  have "(2::nat) < 4 \<and> (\<forall>j<2. throw_at_2 j = Inr (10 * j)) \<and> throw_at_2 2 = Inl ''ctor''"
    by (simp add: throw_at_2_def)
  then have bad: "aligned_array (\<lambda>bytes. bytes < 100) 8 throw_at_2 4 = Inl (Destroy_raw 2)"
    using aligned_array_construction [of "\<lambda>bytes. bytes < 100", OF ok(1), of throw_at_2 "\<lambda>i. 10 * i"]
    by fastforce
  have "\<forall>j<2. throw_at_2 j = Inr (10 * j)" by (simp add: throw_at_2_def)
  then have "\<exists>a. aligned_array (\<lambda>bytes. bytes < 100) 8 throw_at_2 2 = Inr a \<and> array_ok a [0, 10]"
    using aligned_array_construction [of "\<lambda>bytes. bytes < 100", OF ok(2), of throw_at_2 "\<lambda>i. 10 * i"]
    by (auto simp: upt)
  with bad show ?thesis by blast
qed

end
