(* ===== verification/Fifo_Queue.thy ===== *)
theory Fifo_Queue
  imports Prelude
begin

text \<open>
  \<open>libs/asyncplusplus/src/fifo_queue.h\<close>: the circular FIFO queue of task handles, and the contract
  of a FIFO queue that the schedulers rely on.

  The array holds \<open>void*\<close>, here values of the type \<open>'a\<close>; cells never written hold an arbitrary
  value \<open>junk\<close>, a parameter of the allocation.  \<open>head\<close> and \<open>tail\<close> are \<open>std::size_t\<close> and every index
  is reduced with the mask \<open>items.size() - 1\<close>, as in the source.  An empty \<open>task_run_handle\<close> is
  \<^term>\<open>None\<close>.
\<close>

section \<open>The contract of a FIFO queue\<close>

text \<open>
  \<open>room q\<close> is the provider's condition under which \<open>push\<close> does not run out of memory.
\<close>

locale task_queue =
  fixes push :: "'a \<Rightarrow> 'q \<Rightarrow> 'q"
    and pop :: "'q \<Rightarrow> 'a option \<times> 'q"
    and contents :: "'q \<Rightarrow> 'a list"
    and invar :: "'q \<Rightarrow> bool"
    and room :: "'q \<Rightarrow> bool"
  assumes invar_push: "invar q \<Longrightarrow> room q \<Longrightarrow> invar (push x q)"
    and contents_push: "invar q \<Longrightarrow> room q \<Longrightarrow> contents (push x q) = contents q @ [x]"
    and invar_pop: "invar q \<Longrightarrow> invar (snd (pop q))"
    and pop_result: "invar q \<Longrightarrow>
          fst (pop q) = (case contents q of [] \<Rightarrow> None | x # _ \<Rightarrow> Some x)"
    and contents_pop: "invar q \<Longrightarrow> contents (snd (pop q)) = tl (contents q)"
begin

lemma pop_None_iff: "invar q \<Longrightarrow> fst (pop q) = None \<longleftrightarrow> contents q = []"
  by (simp add: pop_result split: list.splits)

lemma pop_Some:
  assumes "invar q" "pop q = (Some x, q')"
  shows "invar q'" "contents q = x # contents q'"
  using assms invar_pop[of q] pop_result[of q] contents_pop[of q]
  by (auto split: list.splits)

lemma pop_None: "invar q \<Longrightarrow> pop q = (None, q') \<Longrightarrow> contents q = [] \<and> contents q' = [] \<and> invar q'"
  using invar_pop[of q] pop_result[of q] contents_pop[of q] by (auto split: list.splits)

end

text \<open>\<open>n\<close> pops in a row.\<close>

primrec pop_many :: "('q \<Rightarrow> 'a option \<times> 'q) \<Rightarrow> nat \<Rightarrow> 'q \<Rightarrow> 'a option list \<times> 'q" where
  "pop_many pop 0 q = ([], q)"
| "pop_many pop (Suc n) q =
     (let (x, q') = pop q; (xs, q'') = pop_many pop n q' in (x # xs, q''))"

context task_queue
begin

text \<open>First in, first out, for any sequence of pushes followed by pops.\<close>

lemma pop_many_contents:
  "invar q \<Longrightarrow> pop_many pop (length (contents q)) q = (xs, q') \<Longrightarrow>
   xs = map Some (contents q) \<and> contents q' = [] \<and> invar q'"
proof (induction "contents q" arbitrary: q xs)
  case Nil
  then show ?case by simp
next
  case (Cons y ys)
  obtain x q1 where p: "pop q = (x, q1)" by (cases "pop q")
  then have x: "x = Some y" using pop_result[of q] Cons.hyps(2) Cons.prems(1) by (simp split: list.splits)
  have q1: "invar q1" "contents q = y # contents q1"
    using pop_Some[of q y q1] p x Cons.prems(1) by auto
  then have ys: "ys = contents q1" using Cons.hyps(2) by simp
  obtain zs q2 where r: "pop_many pop (length (contents q1)) q1 = (zs, q2)"
    by (cases "pop_many pop (length (contents q1)) q1")
  then have "xs = x # zs" "q' = q2"
    using Cons.prems(2) p by (auto simp: q1(2))
  with Cons.hyps(1)[OF ys q1(1), of zs] r q1(2) x show ?case by simp
qed

end

text \<open>\<open>std::queue\<close>, the queue of the schedulers in \<open>src/\<close>: \<open>push\<close>, and \<open>front\<close> followed by \<open>pop\<close>.\<close>

definition std_push :: "'a \<Rightarrow> 'a list \<Rightarrow> 'a list" where
  "std_push x q = q @ [x]"

definition std_pop :: "'a list \<Rightarrow> 'a option \<times> 'a list" where
  "std_pop q = (case q of [] \<Rightarrow> (None, []) | x # q' \<Rightarrow> (Some x, q'))"

interpretation std_queue: task_queue std_push std_pop "\<lambda>q. q" "\<lambda>_. True" "\<lambda>_. True"
  by unfold_locales (auto simp: std_push_def std_pop_def split: list.splits)

section \<open>fifo_queue\<close>

record 'a fifo_queue =
  items :: "'a list"
  head :: size_t
  tail :: size_t

definition fifo_queue :: "'a \<Rightarrow> 'a fifo_queue" where
  "fifo_queue junk = \<lparr>items = replicate 32 junk, head = 0, tail = 0\<rparr>"

definition fifo_mask :: "'a fifo_queue \<Rightarrow> size_t" where
  "fifo_mask q = of_nat (length (items q)) - 1"

text \<open>
  The resize branch of \<open>push\<close>: the loop copies \<open>items[(i + head) & mask]\<close> to \<open>new_items[i]\<close> for every
  \<open>i\<close> below the old size; the rest of the new array is not written.
\<close>

definition fifo_resize :: "'a \<Rightarrow> 'a fifo_queue \<Rightarrow> 'a fifo_queue" where
  "fifo_resize junk q =
     \<lparr>items = map (\<lambda>i. items q ! unat ((of_nat i + head q) AND fifo_mask q)) [0..<length (items q)]
        @ replicate (length (items q)) junk,
      head = 0, tail = of_nat (length (items q)) - 1\<rparr>"

definition fifo_is_full :: "'a fifo_queue \<Rightarrow> bool" where
  "fifo_is_full q \<longleftrightarrow> head q = (tail q + 1) AND fifo_mask q"

definition fifo_push :: "'a \<Rightarrow> 'a \<Rightarrow> 'a fifo_queue \<Rightarrow> 'a fifo_queue" where
  "fifo_push junk t q =
     (let q1 = (if fifo_is_full q then fifo_resize junk q else q)
      in q1\<lparr>items := (items q1)[unat (tail q1) := t],
            tail := (tail q1 + 1) AND fifo_mask q1\<rparr>)"

definition fifo_pop :: "'a fifo_queue \<Rightarrow> 'a option \<times> 'a fifo_queue" where
  "fifo_pop q =
     (if head q = tail q then (None, q)
      else (Some (items q ! unat (head q)), q\<lparr>head := (head q + 1) AND fifo_mask q\<rparr>))"

text \<open>
  The destructor: \<open>for (i = head; i != tail; i = (i + 1) & mask)\<close> makes a handle of \<open>items[i]\<close> and drops
  it.  The result lists the dropped tasks; \<^term>\<open>None\<close> would be a loop that does not end.
\<close>

partial_function (option) fifo_destroy_loop :: "'a fifo_queue \<Rightarrow> size_t \<Rightarrow> 'a list option" where
  "fifo_destroy_loop q i =
     (if i = tail q then Some []
      else Option.bind (fifo_destroy_loop q ((i + 1) AND fifo_mask q))
       (\<lambda>rest. Some (items q ! unat i # rest)))"

definition fifo_destroy :: "'a fifo_queue \<Rightarrow> 'a list option" where
  "fifo_destroy q = fifo_destroy_loop q (head q)"

section \<open>Correctness\<close>

text \<open>
  The capacity is a power of two and both indices are below it; the queued tasks are the cells
  from \<open>head\<close> up to \<open>tail\<close>, going round.
\<close>

definition fifo_inv :: "'a fifo_queue \<Rightarrow> bool" where
  "fifo_inv q \<longleftrightarrow> (\<exists>k. 0 < k \<and> k < 64 \<and> length (items q) = 2 ^ k
     \<and> unat (head q) < 2 ^ k \<and> unat (tail q) < 2 ^ k)"

definition fifo_count :: "'a fifo_queue \<Rightarrow> nat" where
  "fifo_count q = (unat (tail q) + length (items q) - unat (head q)) mod length (items q)"

definition fifo_cell :: "'a fifo_queue \<Rightarrow> nat \<Rightarrow> 'a" where
  "fifo_cell q i = items q ! ((unat (head q) + i) mod length (items q))"

definition fifo_contents :: "'a fifo_queue \<Rightarrow> 'a list" where
  "fifo_contents q = map (fifo_cell q) [0..<fifo_count q]"

text \<open>Doubling the array must not exceed the address space: at most \<open>2 ^ 62\<close> cells.\<close>

definition fifo_room :: "'a fifo_queue \<Rightarrow> bool" where
  "fifo_room q \<longleftrightarrow> length (items q) \<le> 2 ^ 62"

text \<open>Ring arithmetic on natural numbers.\<close>

lemma ring_count: "h < n \<Longrightarrow> t < n \<Longrightarrow> (t + n - h) mod n = (if h \<le> t then t - h else t + n - h)"
  for h t n :: nat
  by (auto simp: mod_if)

lemma ring_pos: "h < n \<Longrightarrow> i < n \<Longrightarrow> (h + i) mod n = (if h + i < n then h + i else h + i - n)"
  for h i n :: nat
  by (auto simp: mod_if)

lemma ring_succ: "t < n \<Longrightarrow> Suc t mod n = (if Suc t = n then 0 else Suc t)"
  for t n :: nat
  by (auto simp: mod_if)

lemma fifo_mask_pow: "length (items q) = 2 ^ k \<Longrightarrow> fifo_mask q = 2 ^ k - 1"
  by (simp add: fifo_mask_def)

lemma fifo_succ:
  assumes "length (items q) = 2 ^ k" "k < 64" "0 < k"
  shows "unat ((i + 1) AND fifo_mask q) = Suc (unat i) mod 2 ^ k"
  using assms by (simp add: fifo_mask_pow unat_plus_mask)

lemma fifo_count_eq:
  assumes "length (items q) = 2 ^ k" "unat (head q) < 2 ^ k" "unat (tail q) < 2 ^ k"
  shows "fifo_count q = (if unat (head q) \<le> unat (tail q) then unat (tail q) - unat (head q)
     else unat (tail q) + 2 ^ k - unat (head q))"
  using assms by (simp add: fifo_count_def ring_count)

lemma fifo_count_less: "fifo_inv q \<Longrightarrow> fifo_count q < length (items q)"
  by (auto simp: fifo_inv_def fifo_count_def)

lemma fifo_full_iff:
  assumes "fifo_inv q"
  shows "fifo_is_full q \<longleftrightarrow> fifo_count q = length (items q) - 1"
proof -
  from assms obtain k where k: "0 < k" "k < 64" "length (items q) = 2 ^ k"
      "unat (head q) < 2 ^ k" "unat (tail q) < 2 ^ k"
    by (auto simp: fifo_inv_def)
  have "2 \<le> (2::nat) ^ k" using k(1) by (cases k) auto
  moreover have "fifo_is_full q \<longleftrightarrow> unat (head q) = Suc (unat (tail q)) mod 2 ^ k"
    unfolding fifo_is_full_def word_unat_eq_iff fifo_succ[OF k(3,2,1)] by (rule refl)
  ultimately show ?thesis
    using k(3-5) by (auto simp: fifo_count_eq[OF k(3-5)] ring_succ split: if_splits)
qed

lemma fifo_count_zero: "fifo_inv q \<Longrightarrow> fifo_count q = 0 \<longleftrightarrow> head q = tail q"
  by (auto simp: fifo_inv_def fifo_count_eq word_unat_eq_iff split: if_splits)

subsection \<open>Resize\<close>

lemma fifo_resize_facts:
  assumes "fifo_inv q" "fifo_is_full q" "fifo_room q"
  shows "fifo_inv (fifo_resize junk q)"
    and "fifo_contents (fifo_resize junk q) = fifo_contents q"
    and "\<not> fifo_is_full (fifo_resize junk q)"
proof -
  from assms(1) obtain k where k: "0 < k" "k < 64" "length (items q) = 2 ^ k"
      "unat (head q) < 2 ^ k" "unat (tail q) < 2 ^ k"
    by (auto simp: fifo_inv_def)
  let ?n = "(2::nat) ^ k" and ?r = "fifo_resize junk q"
  have n2: "2 \<le> ?n" using k(1) by (cases k) auto
  have k62: "k \<le> 62"
    using assms(3) k(3) power_le_imp_le_exp[of "2::nat" k 62] by (simp add: fifo_room_def)
  have n62: "?n \<le> 2 ^ 62" using assms(3) k(3) by (simp add: fifo_room_def)
  have len: "length (items ?r) = 2 ^ Suc k" by (simp add: fifo_resize_def k(3))
  have hd: "unat (head ?r) = 0" by (simp add: fifo_resize_def)
  have "unat (2 ^ k :: size_t) = ?n" using k(2) by (rule unat_pow2)
  moreover have "unat (1 :: size_t) \<le> unat (2 ^ k :: size_t)" using calculation n2 by simp
  ultimately have tl: "unat (tail ?r) = ?n - 1"
    by (simp add: fifo_resize_def k(3) unat_minus_small)
  have "Suc k < 64" using k62 by simp
  then show inv: "fifo_inv ?r"
    unfolding fifo_inv_def using len hd tl n2 by (intro exI[of _ "Suc k"]) auto
  have cnt: "fifo_count ?r = ?n - 1"
    using n2 fifo_count_eq[OF len] by (simp add: hd tl)
  have "fifo_count q = ?n - 1" using fifo_full_iff[OF assms(1)] assms(2) k(3) by simp
  moreover have "fifo_cell ?r i = fifo_cell q i" if "i < ?n - 1" for i
  proof -
    have i: "i < ?n" "i < 2 ^ 64" using that n62 by auto
    have "fifo_cell ?r i = items ?r ! i"
      using i by (simp add: fifo_cell_def len hd)
    also have "\<dots> = items q ! unat ((of_nat i + head q) AND fifo_mask q)"
      using i by (simp add: fifo_resize_def nth_append k(3))
    also have "unat ((of_nat i + head q) AND fifo_mask q) = (i + unat (head q)) mod ?n"
      using i k(2) by (simp add: fifo_mask_pow[OF k(3)] unat_plus_mask unat_of_nat_small)
    finally show ?thesis by (simp add: fifo_cell_def k(3) add.commute)
  qed
  ultimately show "fifo_contents ?r = fifo_contents q"
    by (simp add: fifo_contents_def cnt)
  show "\<not> fifo_is_full ?r" using fifo_full_iff[OF inv] cnt len n2 by simp
qed

subsection \<open>Push and pop\<close>

lemma fifo_push_not_full:
  assumes "fifo_inv q" "\<not> fifo_is_full q"
  shows "fifo_inv (fifo_push junk t q) \<and> fifo_contents (fifo_push junk t q) = fifo_contents q @ [t]"
proof -
  from assms(1) obtain k where k: "0 < k" "k < 64" "length (items q) = 2 ^ k"
      "unat (head q) < 2 ^ k" "unat (tail q) < 2 ^ k"
    by (auto simp: fifo_inv_def)
  let ?n = "(2::nat) ^ k" and ?p = "fifo_push junk t q"
  have n2: "2 \<le> ?n" using k(1) by (cases k) auto
  have p: "items ?p = (items q)[unat (tail q) := t]" "head ?p = head q"
      "unat (tail ?p) = Suc (unat (tail q)) mod ?n"
    using assms(2) fifo_succ[OF k(3,2,1)] by (simp_all add: fifo_push_def)
  have inv: "fifo_inv ?p"
    unfolding fifo_inv_def using k p by (intro exI[of _ k]) auto
  have room: "fifo_count q < ?n - 1"
    using assms fifo_full_iff[OF assms(1)] fifo_count_less[OF assms(1)] k(3) by simp
  have lim: "Suc (unat (tail q)) mod ?n < ?n" by simp
  have kp: "length (items ?p) = ?n" "unat (head ?p) < ?n" "unat (tail ?p) < ?n"
    using k p lim by simp_all
  have cnt: "fifo_count ?p = Suc (fifo_count q)"
    using room k p n2
    by (auto simp: fifo_count_eq[OF kp] fifo_count_eq[OF k(3-5)] ring_succ split: if_splits)
  have "fifo_cell ?p i = fifo_cell q i" if "i < fifo_count q" for i
  proof -
    have "(unat (head q) + i) mod ?n \<noteq> unat (tail q)"
      using that room k by (auto simp: fifo_count_eq[OF k(3-5)] ring_pos split: if_splits)
    then show ?thesis by (simp add: fifo_cell_def p k(3))
  qed
  moreover have "fifo_cell ?p (fifo_count q) = t"
  proof -
    have "(unat (head q) + fifo_count q) mod ?n = unat (tail q)"
      using k by (auto simp: fifo_count_eq[OF k(3-5)] mod_if)
    then show ?thesis using k by (simp add: fifo_cell_def p)
  qed
  ultimately have "fifo_contents ?p = fifo_contents q @ [t]"
    by (simp add: fifo_contents_def cnt)
  with inv show ?thesis by simp
qed

lemma fifo_push_eq_resized:
  "fifo_is_full q \<Longrightarrow> \<not> fifo_is_full (fifo_resize junk q) \<Longrightarrow>
   fifo_push junk t q = fifo_push junk t (fifo_resize junk q)"
  by (simp add: fifo_push_def Let_def)

lemma fifo_push_correct:
  assumes "fifo_inv q" "fifo_room q"
  shows "fifo_inv (fifo_push junk t q)" "fifo_contents (fifo_push junk t q) = fifo_contents q @ [t]"
proof -
  have "fifo_inv (fifo_push junk t q) \<and> fifo_contents (fifo_push junk t q) = fifo_contents q @ [t]"
  proof (cases "fifo_is_full q")
    case True
    then show ?thesis
      using assms fifo_resize_facts[of q junk] fifo_push_not_full[of "fifo_resize junk q" junk t]
      by (simp add: fifo_push_eq_resized)
  next
    case False
    with assms show ?thesis by (simp add: fifo_push_not_full)
  qed
  then show "fifo_inv (fifo_push junk t q)" "fifo_contents (fifo_push junk t q) = fifo_contents q @ [t]"
    by simp_all
qed

lemma fifo_pop_nonempty:
  assumes "fifo_inv q" "head q \<noteq> tail q"
  shows "fifo_inv (snd (fifo_pop q))"
    and "fifo_contents q = items q ! unat (head q) # fifo_contents (snd (fifo_pop q))"
proof -
  from assms(1) obtain k where k: "0 < k" "k < 64" "length (items q) = 2 ^ k"
      "unat (head q) < 2 ^ k" "unat (tail q) < 2 ^ k"
    by (auto simp: fifo_inv_def)
  let ?n = "(2::nat) ^ k" and ?p = "snd (fifo_pop q)"
  have p: "items ?p = items q" "tail ?p = tail q" "unat (head ?p) = Suc (unat (head q)) mod ?n"
    using assms(2) fifo_succ[OF k(3,2,1)] by (simp_all add: fifo_pop_def)
  show "fifo_inv ?p"
    unfolding fifo_inv_def using k p by (intro exI[of _ k]) auto
  have ne: "unat (head q) \<noteq> unat (tail q)" using assms(2) by (simp add: word_unat_eq_iff)
  have lim: "Suc (unat (head q)) mod ?n < ?n" by simp
  have kp: "length (items ?p) = ?n" "unat (head ?p) < ?n" "unat (tail ?p) < ?n"
    using k p lim by simp_all
  have cnt: "fifo_count q = Suc (fifo_count ?p)"
    using k p ne
    by (auto simp: fifo_count_eq[OF kp] fifo_count_eq[OF k(3-5)] ring_succ split: if_splits)
  have "fifo_cell q (Suc i) = fifo_cell ?p i" for i
    by (simp add: fifo_cell_def p k(3) mod_simps)
  moreover have "fifo_cell q 0 = items q ! unat (head q)"
    using k by (simp add: fifo_cell_def)
  ultimately show "fifo_contents q = items q ! unat (head q) # fifo_contents ?p"
    by (simp add: fifo_contents_def cnt upt_conv_Cons map_Suc_upt [symmetric] del: upt_Suc)
qed

lemma fifo_contents_empty: "fifo_inv q \<Longrightarrow> fifo_contents q = [] \<longleftrightarrow> head q = tail q"
  using fifo_count_zero[of q] by (simp add: fifo_contents_def)

interpretation fifo: task_queue "fifo_push junk" fifo_pop fifo_contents fifo_inv fifo_room
  for junk :: 'a
proof
  fix q :: "'a fifo_queue"
  assume inv: "fifo_inv q"
  have e: "fifo_contents q = []" if "head q = tail q" using that fifo_contents_empty[OF inv] by simp
  show "fifo_inv (snd (fifo_pop q))"
    using inv fifo_pop_nonempty[OF inv] by (cases "head q = tail q") (simp_all add: fifo_pop_def)
  show "fst (fifo_pop q) = (case fifo_contents q of [] \<Rightarrow> None | x # _ \<Rightarrow> Some x)"
    using e fifo_pop_nonempty(2)[OF inv] by (cases "head q = tail q") (simp_all add: fifo_pop_def)
  show "fifo_contents (snd (fifo_pop q)) = tl (fifo_contents q)"
    using e fifo_pop_nonempty(2)[OF inv] by (cases "head q = tail q") (simp_all add: fifo_pop_def)
qed (auto intro: fifo_push_correct)

lemma fifo_empty [simp]: "fifo_inv (fifo_queue junk)" "fifo_contents (fifo_queue junk) = []"
  by (auto simp: fifo_inv_def fifo_contents_def fifo_count_def fifo_queue_def intro!: exI[of _ 5])

subsection \<open>Destruction\<close>

lemma fifo_destroy_loop_from:
  assumes "fifo_inv q"
  shows "j \<le> fifo_count q \<Longrightarrow> unat i = (unat (head q) + j) mod length (items q) \<Longrightarrow>
    fifo_destroy_loop q i = Some (map (fifo_cell q) [j..<fifo_count q])"
proof (induction "fifo_count q - j" arbitrary: i j)
  case (0 j i)
  from assms obtain k where k: "0 < k" "k < 64" "length (items q) = 2 ^ k"
      "unat (head q) < 2 ^ k" "unat (tail q) < 2 ^ k"
    by (auto simp: fifo_inv_def)
  have "(unat (head q) + fifo_count q) mod 2 ^ k = unat (tail q)"
    using k by (auto simp: fifo_count_eq[OF k(3-5)] mod_if)
  then have "i = tail q" using 0 k(3) by (simp add: word_unat_eq_iff)
  then show ?case using 0 by (subst fifo_destroy_loop.simps) simp
next
  case (Suc m j i)
  from assms obtain k where k: "0 < k" "k < 64" "length (items q) = 2 ^ k"
      "unat (head q) < 2 ^ k" "unat (tail q) < 2 ^ k"
    by (auto simp: fifo_inv_def)
  have j: "j < fifo_count q" using Suc.hyps(2) by simp
  have "(unat (head q) + j) mod 2 ^ k \<noteq> unat (tail q)"
    using j k fifo_count_less[OF assms]
    by (auto simp: fifo_count_eq[OF k(3-5)] ring_pos split: if_splits)
  then have ne: "i \<noteq> tail q" using Suc.prems(2) k(3) by auto
  have "unat ((i + 1) AND fifo_mask q) = (unat (head q) + Suc j) mod length (items q)"
    unfolding fifo_succ[OF k(3,2,1)] Suc.prems(2) k(3) by (simp add: mod_simps)
  then have "fifo_destroy_loop q ((i + 1) AND fifo_mask q)
      = Some (map (fifo_cell q) [Suc j..<fifo_count q])"
    using Suc.hyps(1)[of "Suc j"] Suc.hyps(2) j by simp
  then show ?case
    using ne j Suc.prems(2)
    by (subst fifo_destroy_loop.simps) (simp add: fifo_cell_def upt_conv_Cons)
qed

lemma fifo_destroy_contents: "fifo_inv q \<Longrightarrow> fifo_destroy q = Some (fifo_contents q)"
  using fifo_destroy_loop_from[of q 0 "head q"]
  by (simp add: fifo_destroy_def fifo_contents_def) (auto simp: fifo_inv_def)

section \<open>Properties\<close>

text \<open>
  C26. \<open>fifo_queue\<close> implements a FIFO queue on every reachable shape of its ring, also when it has
  wrapped round or must be resized: \<open>push\<close> appends, \<open>pop\<close> returns and removes the oldest task or
  gives an empty handle exactly when there is none, and the destructor drops exactly the queued
  tasks, in order, and terminates.
\<close>

theorem fifo_queue_correct:
  assumes "fifo_inv q" and "fifo_room q"
  shows "fifo_inv (fifo_push junk t q) \<and> fifo_contents (fifo_push junk t q) = fifo_contents q @ [t]
    \<and> fifo_inv (snd (fifo_pop q)) \<and> fifo_contents (snd (fifo_pop q)) = tl (fifo_contents q)
    \<and> fst (fifo_pop q) = (case fifo_contents q of [] \<Rightarrow> None | x # _ \<Rightarrow> Some x)
    \<and> fifo_destroy q = Some (fifo_contents q)"
  using fifo.invar_push fifo.contents_push fifo.invar_pop fifo.contents_pop fifo.pop_result
    fifo_destroy_contents assms by metis

text \<open>A full queue of the initial capacity, wrapped round: the push resizes.\<close>

definition full_ring :: "nat fifo_queue" where
  "full_ring = \<lparr>items = [0..<32], head = 5, tail = 4\<rparr>"

theorem fifo_queue_correct_witness:
  "fifo_is_full full_ring
   \<and> fifo_contents (fifo_push 0 99 full_ring) = [5..<32] @ [0..<4] @ [99]
   \<and> length (items (fifo_push 0 99 full_ring)) = 64"
proof -
  have inv: "fifo_inv full_ring" "fifo_room full_ring"
    by (auto simp: fifo_inv_def fifo_room_def full_ring_def intro!: exI[of _ 5])
  have c: "fifo_contents full_ring = [5..<32] @ [0..<4]"
    by (simp add: fifo_contents_def fifo_count_def fifo_cell_def full_ring_def upt_rec)
  have full: "fifo_is_full full_ring"
    by (simp add: fifo_is_full_def full_ring_def fifo_mask_def)
  have "length (items (fifo_push 0 99 full_ring)) = 64"
    using full by (simp add: fifo_push_def fifo_resize_def) (simp add: full_ring_def)
  with fifo_queue_correct[OF inv, of 0 99] c full show ?thesis by simp
qed

end
