(* ===== verification/Ref_Count.thy ===== *)
theory Ref_Count
  imports Prelude
begin

text \<open>
  \<open>libs/asyncplusplus/include/async++/ref_count.h\<close>: intrusive reference counting.

  Objects and \<open>ref_count_ptr\<close> variables are numbered.  The state holds the counter of every
  object, the object every pointer variable refers to, and the log of the objects passed to
  \<open>Deleter::do_delete\<close>.  Two ghost fields: \<open>made\<close> lists the objects constructed so far, and \<open>raw\<close> says how many references are owned by code that holds
  a plain pointer (a new object before it is adopted, the result of \<open>release\<close>, an explicit
  \<open>add_ref\<close>).  Each operation of the two classes is one atomic event.
\<close>

section \<open>ref_count_base\<close>

record rc_state =
  ref_count :: "nat \<Rightarrow> size_t"
  ptrs :: "nat \<Rightarrow> nat option"
  deleted :: "nat list"
  made :: "nat list"
  raw :: "nat \<Rightarrow> nat"

definition rc_init :: rc_state where
  "rc_init = \<lparr>ref_count = (\<lambda>_. 0), ptrs = (\<lambda>_. None), deleted = [], made = [], raw = (\<lambda>_. 0)\<rparr>"

text \<open>\<open>explicit ref_count_base(std::size_t count = 1)\<close>\<close>

definition ref_count_base :: "nat \<Rightarrow> size_t \<Rightarrow> rc_state \<Rightarrow> rc_state" where
  "ref_count_base ob n s = s\<lparr>ref_count := (ref_count s)(ob := n), made := made s @ [ob]\<rparr>"

definition add_ref :: "nat \<Rightarrow> size_t \<Rightarrow> rc_state \<Rightarrow> rc_state" where
  "add_ref ob n s = s\<lparr>ref_count := (ref_count s)(ob := ref_count s ob + n)\<rparr>"

text \<open>\<open>if (ref_count.fetch_sub(count) == count) Deleter::do_delete(this);\<close>\<close>

definition remove_ref :: "nat \<Rightarrow> size_t \<Rightarrow> rc_state \<Rightarrow> rc_state" where
  "remove_ref ob n s =
     s\<lparr>ref_count := (ref_count s)(ob := ref_count s ob - n),
       deleted := (if ref_count s ob = n then deleted s @ [ob] else deleted s)\<rparr>"

definition add_ref_unlocked :: "nat \<Rightarrow> rc_state \<Rightarrow> rc_state" where
  "add_ref_unlocked ob s = s\<lparr>ref_count := (ref_count s)(ob := ref_count s ob + 1)\<rparr>"

definition is_unique_ref :: "nat \<Rightarrow> rc_state \<Rightarrow> bool" where
  "is_unique_ref ob s \<longleftrightarrow> ref_count s ob = 1"

section \<open>ref_count_ptr\<close>

definition set_ptr :: "nat \<Rightarrow> nat option \<Rightarrow> rc_state \<Rightarrow> rc_state" where
  "set_ptr v p s = s\<lparr>ptrs := (ptrs s)(v := p)\<rparr>"

text \<open>\<open>explicit ref_count_ptr(T* t)\<close> takes over a reference the caller owns.\<close>

definition ptr_adopt :: "nat \<Rightarrow> nat \<Rightarrow> rc_state \<Rightarrow> rc_state" where
  "ptr_adopt v ob s = set_ptr v (Some ob) s"

text \<open>Copy and move constructors of the variable \<open>v\<close> from \<open>other\<close>.\<close>

definition ptr_copy :: "nat \<Rightarrow> nat \<Rightarrow> rc_state \<Rightarrow> rc_state" where
  "ptr_copy v other s =
     (let s1 = set_ptr v (ptrs s other) s in
      case ptrs s1 v of None \<Rightarrow> s1 | Some ob \<Rightarrow> add_ref ob 1 s1)"

definition ptr_move :: "nat \<Rightarrow> nat \<Rightarrow> rc_state \<Rightarrow> rc_state" where
  "ptr_move v other s = set_ptr other None (set_ptr v (ptrs s other) s)"

text \<open>\<open>if (p) { p->remove_ref(); p = nullptr; }\<close>, the first half of every assignment.\<close>

definition ptr_drop :: "nat \<Rightarrow> rc_state \<Rightarrow> rc_state" where
  "ptr_drop v s = (case ptrs s v of None \<Rightarrow> s | Some ob \<Rightarrow> set_ptr v None (remove_ref ob 1 s))"

definition ptr_assign_null :: "nat \<Rightarrow> rc_state \<Rightarrow> rc_state" where
  "ptr_assign_null v s = ptr_drop v s"

text \<open>The second halves read \<open>other.p\<close> after the first half has run.\<close>

definition ptr_assign_copy :: "nat \<Rightarrow> nat \<Rightarrow> rc_state \<Rightarrow> rc_state" where
  "ptr_assign_copy v other s = ptr_copy v other (ptr_drop v s)"

definition ptr_assign_move :: "nat \<Rightarrow> nat \<Rightarrow> rc_state \<Rightarrow> rc_state" where
  "ptr_assign_move v other s = ptr_move v other (ptr_drop v s)"

definition ptr_destroy :: "nat \<Rightarrow> rc_state \<Rightarrow> rc_state" where
  "ptr_destroy v s = ptr_drop v s"

definition ptr_release :: "nat \<Rightarrow> rc_state \<Rightarrow> nat option \<times> rc_state" where
  "ptr_release v s = (ptrs s v, set_ptr v None s)"

definition ptr_equal :: "nat \<Rightarrow> nat \<Rightarrow> rc_state \<Rightarrow> bool" where
  "ptr_equal a b s \<longleftrightarrow> ptrs s a = ptrs s b"

definition ptr_bool :: "nat \<Rightarrow> rc_state \<Rightarrow> bool" where
  "ptr_bool v s \<longleftrightarrow> ptrs s v \<noteq> None"

section \<open>Events\<close>

datatype rc_event =
    Rc_new nat nat          \<comment> \<open>construct the object with this many initial references\<close>
  | Rc_adopt nat nat
  | Rc_copy nat nat
  | Rc_move nat nat
  | Rc_assign_null nat
  | Rc_assign_copy nat nat
  | Rc_assign_move nat nat
  | Rc_destroy nat
  | Rc_release nat
  | Rc_add_ref nat nat
  | Rc_add_ref_unlocked nat
  | Rc_remove_ref nat nat

definition give_raw :: "nat \<Rightarrow> nat \<Rightarrow> rc_state \<Rightarrow> rc_state" where
  "give_raw ob n s = s\<lparr>raw := (raw s)(ob := raw s ob + n)\<rparr>"

definition take_raw :: "nat \<Rightarrow> nat \<Rightarrow> rc_state \<Rightarrow> rc_state" where
  "take_raw ob n s = s\<lparr>raw := (raw s)(ob := raw s ob - n)\<rparr>"

text \<open>The counter does not overflow: fewer than \<open>2 ^ 64\<close> references exist at a time.\<close>

definition rc_room :: "nat \<Rightarrow> nat \<Rightarrow> rc_state \<Rightarrow> bool" where
  "rc_room ob n s \<longleftrightarrow> unat (ref_count s ob) + n < 2 ^ 64"

text \<open>
  The guards are the clients' obligations: constructors run on null variables, a reference is
  adopted or removed only by code that owns it, and an object is constructed with at least one
  reference at an address not in use.
\<close>

definition ptr_room :: "nat \<Rightarrow> rc_state \<Rightarrow> bool" where
  "ptr_room v s \<longleftrightarrow> (case ptrs s v of None \<Rightarrow> True | Some ob \<Rightarrow> rc_room ob 1 s)"

fun rc_step :: "rc_event \<Rightarrow> rc_state \<Rightarrow> rc_state option" where
  "rc_step (Rc_new ob n) s =
     (if ob \<notin> set (made s) \<and> 0 < n \<and> n < 2 ^ 64
      then Some (give_raw ob n (ref_count_base ob (of_nat n) s)) else None)"
| "rc_step (Rc_adopt v ob) s =
     (if ptrs s v = None \<and> 0 < raw s ob then Some (ptr_adopt v ob (take_raw ob 1 s)) else None)"
| "rc_step (Rc_copy v w) s =
     (if ptrs s v = None \<and> ptr_room w s then Some (ptr_copy v w s) else None)"
| "rc_step (Rc_move v w) s = (if ptrs s v = None then Some (ptr_move v w s) else None)"
| "rc_step (Rc_assign_null v) s = Some (ptr_assign_null v s)"
| "rc_step (Rc_assign_copy v w) s =
     (if ptr_room w (ptr_drop v s) then Some (ptr_assign_copy v w s) else None)"
| "rc_step (Rc_assign_move v w) s = Some (ptr_assign_move v w s)"
| "rc_step (Rc_destroy v) s = Some (ptr_destroy v s)"
| "rc_step (Rc_release v) s =
     (case ptr_release v s of (None, s') \<Rightarrow> Some s' | (Some ob, s') \<Rightarrow> Some (give_raw ob 1 s'))"
| "rc_step (Rc_add_ref ob n) s =
     (if ref_count s ob \<noteq> 0 \<and> rc_room ob n s then Some (give_raw ob n (add_ref ob (of_nat n) s))
      else None)"
| "rc_step (Rc_add_ref_unlocked ob) s =
     (if ref_count s ob \<noteq> 0 \<and> rc_room ob 1 s then Some (give_raw ob 1 (add_ref_unlocked ob s))
      else None)"
| "rc_step (Rc_remove_ref ob n) s =
     (if 0 < n \<and> n \<le> raw s ob then Some (take_raw ob n (remove_ref ob (of_nat n) s)) else None)"

section \<open>The invariant\<close>

definition ptr_refs :: "(nat \<Rightarrow> nat option) \<Rightarrow> nat \<Rightarrow> nat" where
  "ptr_refs f ob = card {v. f v = Some ob}"

text \<open>
  The counter of every object is the number of references to it; a deleted object has none, and
  an object with none is deleted or was never constructed.
\<close>

definition rc_inv :: "rc_state \<Rightarrow> bool" where
  "rc_inv s \<longleftrightarrow> finite (dom (ptrs s)) \<and> distinct (deleted s)
     \<and> (\<forall>ob. unat (ref_count s ob) = ptr_refs (ptrs s) ob + raw s ob)
     \<and> set (deleted s) = {ob \<in> set (made s). ref_count s ob = 0}
     \<and> (\<forall>ob. ob \<notin> set (made s) \<longrightarrow> ref_count s ob = 0)"

lemma ptr_refs_upd:
  assumes "finite (dom f)"
  shows "ptr_refs (f(v := p)) ob + (if f v = Some ob then 1 else 0)
       = ptr_refs f ob + (if p = Some ob then 1 else 0)"
proof -
  obtain A where A: "A = {u. f u = Some ob} - {v}" by blast
  then have "A \<subseteq> dom f" by auto
  then have fin: "finite A" "v \<notin> A" using assms A by (auto dest: finite_subset)
  have "{u. (f(v := p)) u = Some ob} = (if p = Some ob then insert v A else A)"
    using A by (auto split: if_splits)
  moreover have "{u. f u = Some ob} = (if f v = Some ob then insert v A else A)"
    using A by (auto split: if_splits)
  ultimately show ?thesis using fin by (simp add: ptr_refs_def)
qed

lemma finite_dom_upd: "finite (dom f) \<Longrightarrow> finite (dom (f(v := p)))"
  by (cases p) (auto simp: dom_fun_upd)

lemma rc_inv_count: "rc_inv s \<Longrightarrow> unat (ref_count s ob) = ptr_refs (ptrs s) ob + raw s ob"
  by (simp add: rc_inv_def)

lemma ptr_refs_pos:
  assumes "rc_inv s" "ptrs s v = Some ob"
  shows "0 < ptr_refs (ptrs s) ob"
  using assms by (auto simp: rc_inv_def ptr_refs_def card_gt_0_iff intro: finite_subset[of _ "dom (ptrs s)"])

lemma rc_inv_live:
  assumes "rc_inv s" "ptrs s v = Some ob"
  shows "ref_count s ob \<noteq> 0" "ob \<notin> set (deleted s)"
proof -
  have "0 < unat (ref_count s ob)"
    using ptr_refs_pos[OF assms] rc_inv_count[OF assms(1)] by simp
  then show "ref_count s ob \<noteq> 0" by auto
  then show "ob \<notin> set (deleted s)" using assms(1) by (auto simp: rc_inv_def)
qed

text \<open>The three elementary moves of a reference that every operation is made of.\<close>

lemma rc_inv_null_copy:
  assumes "rc_inv s" "ptrs s v = None" "ptr_room w s"
  shows "rc_inv (ptr_copy v w s)"
proof (cases "ptrs s w")
  case None
  then have "(ptrs s)(v := None) = ptrs s" using assms(2) by auto
  then show ?thesis using assms(1,2) None by (simp add: ptr_copy_def set_ptr_def)
next
  case (Some ob)
  have c: "unat (ref_count s ob + 1) = unat (ref_count s ob) + 1"
    using assms(3) Some by (simp add: ptr_room_def rc_room_def unat_plus_small)
  have "ptr_refs ((ptrs s)(v := Some ob)) x = ptr_refs (ptrs s) x + (if x = ob then 1 else 0)" for x
    using ptr_refs_upd[of "ptrs s" v "Some ob" x] assms(1,2) by (auto simp: rc_inv_def)
  then show ?thesis
    using assms(1) Some c rc_inv_live[OF assms(1) Some]
    by (auto simp: rc_inv_def ptr_copy_def set_ptr_def add_ref_def finite_dom_upd)
qed

lemma rc_inv_remove:
  assumes inv: "rc_inv s" and n: "0 < n"
    and s': "s' = s\<lparr>ref_count := (ref_count s)(ob := ref_count s ob - of_nat n),
        deleted := (if ref_count s ob = of_nat n then deleted s @ [ob] else deleted s),
        ptrs := f, raw := r\<rparr>"
    and fin: "finite (dom f)"
    and refs: "\<And>x. ptr_refs f x + r x + (if x = ob then n else 0) = ptr_refs (ptrs s) x + raw s x"
  shows "rc_inv s'"
proof -
  have le: "n \<le> unat (ref_count s ob)"
    using refs[of ob] rc_inv_count[OF inv, of ob] by simp
  then have small: "n < 2 ^ 64" using unat_lt_64[of "ref_count s ob"] by simp
  then have un: "unat (of_nat n :: size_t) = n" by (rule unat_of_nat_small)
  have sub: "unat (ref_count s ob - of_nat n) = unat (ref_count s ob) - n"
    using le un by (simp add: unat_minus_small)
  have eq: "ref_count s ob = of_nat n \<longleftrightarrow> unat (ref_count s ob) = n"
    using un by (metis unat_of_nat_small word_unat_eq_iff)
  have nz: "ref_count s ob \<noteq> 0"
  proof
    assume "ref_count s ob = 0"
    then have "unat (ref_count s ob) = 0" by simp
    with le n show False by simp
  qed
  then have live: "ob \<notin> set (deleted s)" using inv unfolding rc_inv_def by blast
  have cnt: "unat (ref_count s' x) = ptr_refs f x + r x" for x
    using refs[of x] rc_inv_count[OF inv, of x] sub by (auto simp: s' split: if_splits)
  have made: "ob \<in> set (made s)" using inv nz unfolding rc_inv_def by blast
  have "set (deleted s') = {x \<in> set (made s'). ref_count s' x = 0}"
    using inv made live eq by (auto simp: s' rc_inv_def split: if_splits)
  then show ?thesis using inv cnt fin live made by (auto simp: rc_inv_def s')
qed

lemma rc_inv_drop: "rc_inv s \<Longrightarrow> rc_inv (ptr_drop v s) \<and> ptrs (ptr_drop v s) v = None"
proof (cases "ptrs s v")
  case None
  then show "rc_inv s \<Longrightarrow> rc_inv (ptr_drop v s) \<and> ptrs (ptr_drop v s) v = None"
    by (simp add: ptr_drop_def)
next
  case (Some ob)
  assume inv: "rc_inv s"
  have fin: "finite (dom (ptrs s))" using inv by (simp add: rc_inv_def)
  have "rc_inv (ptr_drop v s)"
  proof (rule rc_inv_remove[OF inv, where n = 1 and ob = ob and f = "(ptrs s)(v := None)" and r = "raw s"])
    show "ptr_drop v s = s\<lparr>ref_count := (ref_count s)(ob := ref_count s ob - of_nat 1),
        deleted := (if ref_count s ob = of_nat 1 then deleted s @ [ob] else deleted s),
        ptrs := (ptrs s)(v := None), raw := raw s\<rparr>"
      using Some by (simp add: ptr_drop_def remove_ref_def set_ptr_def)
    show "ptr_refs ((ptrs s)(v := None)) x + raw s x + (if x = ob then 1 else 0)
        = ptr_refs (ptrs s) x + raw s x" for x
      using ptr_refs_upd[OF fin, of v None x] Some by auto
  qed (use fin in \<open>auto simp: finite_dom_upd\<close>)
  then show ?thesis using Some by (simp add: ptr_drop_def set_ptr_def remove_ref_def)
qed

lemma rc_inv_null_move:
  assumes "rc_inv s" "ptrs s v = None"
  shows "rc_inv (ptr_move v w s)"
proof -
  have fin: "finite (dom (ptrs s))" "finite (dom ((ptrs s)(v := ptrs s w)))"
    using assms(1) by (auto simp: rc_inv_def finite_dom_upd)
  have "ptr_refs ((ptrs s)(v := ptrs s w, w := None)) x = ptr_refs (ptrs s) x" for x
    using ptr_refs_upd[OF fin(1), of v "ptrs s w" x] ptr_refs_upd[OF fin(2), of w None x] assms(2)
    by (auto split: if_splits)
  then show ?thesis
    using assms(1) fin by (auto simp: rc_inv_def ptr_move_def set_ptr_def finite_dom_upd)
qed

lemma rc_inv_give:
  assumes inv: "rc_inv s" and s': "s' = s\<lparr>ref_count := (ref_count s)(ob := c),
      raw := (raw s)(ob := raw s ob + n), made := made s @ m\<rparr>"
    and c: "unat c = unat (ref_count s ob) + n" and live: "ob \<notin> set (deleted s)"
    and made: "ob \<in> set (made s @ m)" "set m \<subseteq> {ob}" "c \<noteq> 0"
  shows "rc_inv s'"
  using inv c live made by (auto simp: rc_inv_def s')

lemma rc_inv_adopt:
  assumes inv: "rc_inv s" and "ptrs s v = None" "0 < raw s ob"
  shows "rc_inv (ptr_adopt v ob (take_raw ob (Suc 0) s))"
proof -
  have fin: "finite (dom (ptrs s))" using inv by (simp add: rc_inv_def)
  show ?thesis
    using assms ptr_refs_upd[OF fin, of v "Some ob"]
    by (auto simp: rc_inv_def ptr_adopt_def take_raw_def set_ptr_def finite_dom_upd)
qed

lemma rc_inv_release:
  assumes inv: "rc_inv s" and v: "ptrs s v = Some ob"
  shows "rc_inv (give_raw ob 1 (set_ptr v None s))"
proof -
  let ?f = "(ptrs s)(v := None)" and ?r = "(raw s)(ob := raw s ob + 1)"
  have fin: "finite (dom (ptrs s))" using inv by (simp add: rc_inv_def)
  have "unat (ref_count s x) = ptr_refs ?f x + ?r x" for x
    using ptr_refs_upd[OF fin, of v None x] v rc_inv_count[OF inv, of x]
    by (cases "x = ob") simp_all
  moreover have "finite (dom ?f)" using fin by (rule finite_dom_upd)
  ultimately show ?thesis
    using inv by (simp only: rc_inv_def give_raw_def set_ptr_def) simp
qed

lemma of_nat_nonzero: "0 < n \<Longrightarrow> n < 2 ^ 64 \<Longrightarrow> (of_nat n :: size_t) \<noteq> 0"
proof
  assume "0 < n" "n < 2 ^ 64" "(of_nat n :: size_t) = 0"
  then show False using unat_of_nat_small[of n] by simp
qed

lemma rc_inv_new:
  assumes "rc_inv s" "ob \<notin> set (made s)" "0 < n" "n < 2 ^ 64"
  shows "rc_inv (give_raw ob n (ref_count_base ob (of_nat n) s))"
proof -
  have inv: "set (deleted s) = {x \<in> set (made s). ref_count s x = 0}"
      "\<forall>x. x \<notin> set (made s) \<longrightarrow> ref_count s x = 0"
    using assms(1) by (simp_all add: rc_inv_def)
  have z: "ref_count s ob = 0" using inv(2) assms(2) by blast
  have live: "ob \<notin> set (deleted s)" unfolding inv(1) using assms(2) by simp
  show ?thesis
  proof (rule rc_inv_give[where s = s and ob = ob and c = "of_nat n" and n = n and m = "[ob]"])
    show "unat (of_nat n :: size_t) = unat (ref_count s ob) + n"
      using z assms(4) by (simp add: unat_of_nat_small)
    show "(of_nat n :: size_t) \<noteq> 0" using assms(3,4) by (rule of_nat_nonzero)
  qed (use assms live in \<open>simp_all add: give_raw_def ref_count_base_def\<close>)
qed

lemma rc_inv_add:
  assumes "rc_inv s" "ref_count s ob \<noteq> 0" "rc_room ob n s"
  shows "rc_inv (give_raw ob n (add_ref ob (of_nat n) s))"
proof (rule rc_inv_give[where s = s and ob = ob and c = "ref_count s ob + of_nat n" and n = n and m = "[]"])
  have "n < 2 ^ 64" using assms(3) by (simp add: rc_room_def)
  then show c: "unat (ref_count s ob + of_nat n) = unat (ref_count s ob) + n"
    using assms(3) by (simp add: rc_room_def unat_of_nat_small unat_plus_small)
  show "ref_count s ob + of_nat n \<noteq> 0"
  proof
    assume "ref_count s ob + of_nat n = 0"
    then have "unat (ref_count s ob) = 0" using c by simp
    then show False using assms(2) by (simp add: unat_eq_0)
  qed
qed (use assms in \<open>auto simp: give_raw_def add_ref_def rc_inv_def\<close>)

lemma add_ref_unlocked_eq: "add_ref_unlocked ob s = add_ref ob (of_nat (Suc 0)) s"
  by (simp add: add_ref_unlocked_def add_ref_def)

lemma rc_inv_remove_raw:
  assumes "rc_inv s" "0 < n" "n \<le> raw s ob"
  shows "rc_inv (take_raw ob n (remove_ref ob (of_nat n) s))"
  by (rule rc_inv_remove[where s = s and n = n and ob = ob and f = "ptrs s"
        and r = "(raw s)(ob := raw s ob - n)"])
    (use assms in \<open>auto simp: take_raw_def remove_ref_def rc_inv_def\<close>)

lemma rc_inv_release_step:
  "rc_inv s \<Longrightarrow> rc_step (Rc_release v) s = Some s' \<Longrightarrow> rc_inv s'"
proof (cases "ptrs s v")
  case None
  assume a: "rc_inv s" "rc_step (Rc_release v) s = Some s'"
  from None have "(ptrs s)(v := None) = ptrs s" by auto
  with a None show ?thesis by (simp add: ptr_release_def set_ptr_def)
next
  case (Some ob)
  assume "rc_inv s" "rc_step (Rc_release v) s = Some s'"
  with Some show ?thesis using rc_inv_release by (auto simp: ptr_release_def)
qed

lemma rc_inv_step:
  assumes "rc_inv s" "rc_step e s = Some s'"
  shows "rc_inv s'"
proof (cases e)
  case (Rc_release v)
  with assms show ?thesis by (simp only: rc_inv_release_step)
qed (use assms in \<open>auto simp: ptr_assign_null_def ptr_destroy_def ptr_assign_move_def
    ptr_assign_copy_def add_ref_unlocked_eq rc_inv_drop
    simp del: of_nat_1 of_nat_Suc intro!: rc_inv_new rc_inv_add rc_inv_remove_raw rc_inv_adopt
      rc_inv_null_copy rc_inv_null_move split: if_splits\<close>)

interpretation rc: safety_system rc_step rc_init rc_inv
proof
  show "rc_inv rc_init" by (simp add: rc_inv_def rc_init_def ptr_refs_def)
qed (rule rc_inv_step)

section \<open>Properties\<close>

text \<open>
  C28. After any sequence of operations, with the copies, moves, assignments and releases of any
  number of pointer variables and explicit reference changes mixed in any order: the counter of
  every object is the number of references to it, an object has been deleted exactly when it was
  constructed and its last reference is gone, it is deleted at most once, and no pointer
  refers to a deleted object.
\<close>

theorem ref_count_safe:
  assumes "runs rc_step es rc_init = Some s"
  shows "unat (ref_count s ob) = ptr_refs (ptrs s) ob + raw s ob
    \<and> (ob \<in> set (deleted s) \<longleftrightarrow> ob \<in> set (made s) \<and> ptr_refs (ptrs s) ob + raw s ob = 0)
    \<and> distinct (deleted s) \<and> (\<forall>v. ptrs s v = Some ob \<longrightarrow> ob \<notin> set (deleted s))"
proof -
  have inv: "rc_inv s" using assms by (rule rc.inv_reachable)
  have z: "ref_count s ob = 0 \<longleftrightarrow> ptr_refs (ptrs s) ob + raw s ob = 0"
    by (simp only: rc_inv_count[OF inv, of ob, symmetric] unat_eq_0)
  have "set (deleted s) = {ob \<in> set (made s). ref_count s ob = 0}" "distinct (deleted s)"
    using inv by (simp_all add: rc_inv_def)
  with z rc_inv_count[OF inv, of ob] rc_inv_live(2)[OF inv] show ?thesis by auto
qed

definition rc_example :: "rc_event list" where
  "rc_example = [Rc_new 7 1, Rc_adopt 0 7, Rc_copy 1 0, Rc_assign_move 2 0, Rc_assign_copy 1 2,
     Rc_destroy 1, Rc_release 2, Rc_remove_ref 7 1]"

theorem ref_count_safe_witness:
  "\<exists>s. runs rc_step rc_example rc_init = Some s \<and> deleted s = [7] \<and> 7 \<in> set (deleted s)
     \<and> ptr_refs (ptrs s) 7 + raw s 7 = 0"
proof -
  obtain s where s: "runs rc_step rc_example rc_init = Some s" "deleted s = [7]"
    by (simp add: rc_example_def rc_init_def ref_count_base_def give_raw_def take_raw_def
        ptr_adopt_def ptr_copy_def ptr_assign_move_def ptr_assign_copy_def ptr_drop_def ptr_move_def
        ptr_destroy_def ptr_release_def set_ptr_def add_ref_def remove_ref_def ptr_room_def rc_room_def
        Let_def)
  with ref_count_safe[OF s(1), of 7] show ?thesis by auto
qed

text \<open>
  Assigning a \<open>ref_count_ptr\<close> to itself does not leave it unchanged, as copy assignment should:
  it gives up the pointer's reference and leaves the variable null.  When that was the last
  reference the object is deleted.
\<close>

theorem self_assignment_loses_object:
  assumes "runs rc_step es rc_init = Some s" and "ptrs s v = Some ob"
  shows "ptrs (ptr_assign_copy v v s) v = None
    \<and> unat (ref_count (ptr_assign_copy v v s) ob) = unat (ref_count s ob) - 1
    \<and> (ob \<in> set (deleted (ptr_assign_copy v v s)) \<longleftrightarrow> ref_count s ob = 1)"
proof -
  have inv: "rc_inv s" using assms(1) by (rule rc.inv_reachable)
  have live: "ob \<notin> set (deleted s)" and "0 < unat (ref_count s ob)"
    using rc_inv_live[OF inv assms(2)] ptr_refs_pos[OF inv assms(2)] rc_inv_count[OF inv, of ob]
    by simp_all
  then have "unat (ref_count s ob - 1) = unat (ref_count s ob) - 1"
    by (simp add: unat_minus_small)
  then show ?thesis
    using assms(2) live
    by (auto simp: ptr_assign_copy_def ptr_copy_def ptr_drop_def set_ptr_def remove_ref_def)
qed

theorem self_assignment_loses_object_witness:
  "\<exists>s. runs rc_step [Rc_new 7 1, Rc_adopt 0 7] rc_init = Some s \<and> ptrs s 0 = Some 7
     \<and> ptrs (ptr_assign_copy 0 0 s) 0 = None \<and> 7 \<in> set (deleted (ptr_assign_copy 0 0 s))"
proof -
  obtain s where s: "runs rc_step [Rc_new 7 1, Rc_adopt 0 7] rc_init = Some s" "ptrs s 0 = Some 7"
      "ref_count s 7 = 1"
    by (simp add: rc_init_def ref_count_base_def give_raw_def take_raw_def ptr_adopt_def set_ptr_def)
  with self_assignment_loses_object[OF s(1,2)] show ?thesis by auto
qed

end
