(* ===== verification/Work_Steal_Queue.thy ===== *)
theory Work_Steal_Queue
  imports Prelude
begin

text \<open>
  \<open>libs/asyncplusplus/src/work_steal_queue.h\<close>: the Chase-Lev work-stealing deque of a pool thread.

  One owner thread pushes and pops at the bottom, any number of thieves steal at the top.  Every
  access to a shared atomic (\<open>top\<close>, \<open>bottom\<close>, \<open>array\<close>) and to an array cell is one event, and the
  events of the owner and the thieves interleave freely; this is the sequentially consistent
  reading of the code, whose fences and orderings are there to establish it.  \<open>bottom\<close>, \<open>array\<close>
  and the cells are written by the owner only, so its own reads of them are joined with its next
  event.

  Arrays are never freed while the queue lives (the \<open>previous\<close> chain), so an array pointer is an
  index into the list of all arrays allocated so far, and a thief may keep an outdated one.
  \<open>pushed\<close> and \<open>taken\<close> are ghost logs: the tasks whose \<open>push\<close> has published them, and the tasks that
  \<open>pop\<close> or \<open>steal\<close> has decided to return.  The model lets the owner start a \<open>push\<close> only while
  \<open>bottom\<close> is below \<open>2 ^ 62\<close>: the indices are 64-bit counters that a running program does not
  bring near that bound.
\<close>

unbundle bit_operations_syntax

section \<open>circular_array\<close>

definition ca_size :: "'a list \<Rightarrow> size_t" where
  "ca_size a = of_nat (length a)"

definition ca_get :: "'a list \<Rightarrow> size_t \<Rightarrow> 'a" where
  "ca_get a index = a ! unat (index AND (ca_size a - 1))"

definition ca_put :: "'a list \<Rightarrow> size_t \<Rightarrow> 'a \<Rightarrow> 'a list" where
  "ca_put a index x = a[unat (index AND (ca_size a - 1)) := x]"

text \<open>\<open>for (i = top; i != bottom; i++) new_array->put(i, get(i));\<close>\<close>

function ca_copy :: "'a list \<Rightarrow> size_t \<Rightarrow> size_t \<Rightarrow> 'a list \<Rightarrow> 'a list" where
  "ca_copy a i b new =
     (if i = b then new else ca_copy a (i + 1) b (ca_put new i (ca_get a i)))"
  by pat_completeness auto
termination
proof (relation "measure (\<lambda>(_, i, b, _). unat (b - i))")
  fix i b :: size_t
  fix a new :: "'a list"
  assume "i \<noteq> b"
  then have "1 \<le> unat (b - i)" by (metis One_nat_def Suc_leI right_minus_eq unat_gt_0)
  then have "unat ((b - i) - 1) < unat (b - i)" by (simp add: unat_minus_small)
  then show "((a, i + 1, b, ca_put new i (ca_get a i)), (a, i, b, new))
      \<in> measure (\<lambda>(_, i, b, _). unat (b - i))"
    by (simp add: diff_diff_eq)
qed simp

declare ca_copy.simps [simp del]

definition ca_grow :: "'a \<Rightarrow> 'a list \<Rightarrow> size_t \<Rightarrow> size_t \<Rightarrow> 'a list" where
  "ca_grow junk a t b = ca_copy a t b (replicate (2 * length a) junk)"

text \<open>
  \<open>to_signed\<close>: reading an unsigned difference as a signed one, by cases as in the source
  (\<open>PTRDIFF_MAX\<close> is \<open>2 ^ 63 - 1\<close>, \<open>PTRDIFF_MIN\<close> converts to \<open>2 ^ 63\<close>).
\<close>

definition to_signed :: "size_t \<Rightarrow> int" where
  "to_signed x = (if x > 2 ^ 63 - 1 then int (unat (x - 2 ^ 63)) + (- (2 ^ 63)) else int (unat x))"

section \<open>The shared state and the two kinds of threads\<close>

datatype 'a owner_pc =
    O_idle
  | O_push_read 'a                        \<comment> \<open>\<open>push(x)\<close> entered\<close>
  | O_push_check 'a size_t size_t         \<comment> \<open>\<open>b\<close> and \<open>t\<close> read\<close>
  | O_push_put 'a size_t                  \<comment> \<open>the array has room\<close>
  | O_push_store 'a size_t                \<comment> \<open>the cell is written, \<open>bottom\<close> not yet\<close>
  | O_pop_read                            \<comment> \<open>\<open>pop()\<close> entered\<close>
  | O_pop_dec size_t                      \<comment> \<open>about to store the decremented \<open>b\<close>\<close>
  | O_pop_top size_t                      \<comment> \<open>about to read \<open>top\<close> again\<close>
  | O_pop_cas size_t 'a                   \<comment> \<open>last element: about to compete for it\<close>
  | O_pop_restore size_t "'a option"      \<comment> \<open>about to store \<open>b + 1\<close> and return\<close>

datatype 'a thief_pc =
    T_idle
  | T_top                                 \<comment> \<open>at the head of the loop of \<open>steal()\<close>\<close>
  | T_bottom size_t                       \<comment> \<open>\<open>t\<close> read\<close>
  | T_array size_t                        \<comment> \<open>not empty\<close>
  | T_get size_t nat                      \<comment> \<open>array pointer read\<close>
  | T_cas size_t 'a                       \<comment> \<open>element read\<close>

record 'a ws_queue =
  arrays :: "'a list list"
  arr :: nat
  top_idx :: size_t
  bottom_idx :: size_t
  opc :: "'a owner_pc"
  thieves :: "tid \<Rightarrow> 'a thief_pc"
  pushed :: "'a list"
  taken :: "'a list"

definition work_steal_queue :: "'a \<Rightarrow> 'a ws_queue" where
  "work_steal_queue junk = \<lparr>arrays = [replicate 32 junk], arr = 0, top_idx = 0, bottom_idx = 0,
     opc = O_idle, thieves = (\<lambda>_. T_idle), pushed = [], taken = []\<rparr>"

definition cur :: "'a ws_queue \<Rightarrow> 'a list" where
  "cur s = arrays s ! arr s"

section \<open>push\<close>

definition ws_push_read :: "'a \<Rightarrow> 'a ws_queue \<Rightarrow> 'a ws_queue" where
  "ws_push_read x s = s\<lparr>opc := O_push_check x (bottom_idx s) (top_idx s)\<rparr>"

text \<open>\<open>if (to_signed(b - t) >= to_signed(a->size())) { a = a->grow(t, b); array.store(a); }\<close>\<close>

definition ws_push_check :: "'a \<Rightarrow> 'a \<Rightarrow> size_t \<Rightarrow> size_t \<Rightarrow> 'a ws_queue \<Rightarrow> 'a ws_queue" where
  "ws_push_check junk x b t s =
     (if to_signed (b - t) \<ge> to_signed (ca_size (cur s))
      then s\<lparr>arrays := arrays s @ [ca_grow junk (cur s) t b], arr := length (arrays s),
             opc := O_push_put x b\<rparr>
      else s\<lparr>opc := O_push_put x b\<rparr>)"

definition ws_push_put :: "'a \<Rightarrow> size_t \<Rightarrow> 'a ws_queue \<Rightarrow> 'a ws_queue" where
  "ws_push_put x b s = s\<lparr>arrays := (arrays s)[arr s := ca_put (cur s) b x], opc := O_push_store x b\<rparr>"

definition ws_push_store :: "'a \<Rightarrow> size_t \<Rightarrow> 'a ws_queue \<Rightarrow> 'a ws_queue" where
  "ws_push_store x b s = s\<lparr>bottom_idx := b + 1, opc := O_idle, pushed := pushed s @ [x]\<rparr>"

section \<open>pop\<close>

definition ws_pop_read :: "'a ws_queue \<Rightarrow> 'a ws_queue" where
  "ws_pop_read s =
     (if to_signed (bottom_idx s - top_idx s) \<le> 0 then s\<lparr>opc := O_idle\<rparr>
      else s\<lparr>opc := O_pop_dec (bottom_idx s - 1)\<rparr>)"

definition ws_pop_dec :: "size_t \<Rightarrow> 'a ws_queue \<Rightarrow> 'a ws_queue" where
  "ws_pop_dec b s = s\<lparr>bottom_idx := b, opc := O_pop_top b\<rparr>"

definition ws_pop_top :: "size_t \<Rightarrow> 'a ws_queue \<Rightarrow> 'a ws_queue" where
  "ws_pop_top b s =
     (let t = top_idx s in
      if to_signed (b - t) < 0 then s\<lparr>opc := O_pop_restore b None\<rparr>
      else let x = ca_get (cur s) b in
        if b = t then s\<lparr>opc := O_pop_cas b x\<rparr>
        else s\<lparr>opc := O_idle, taken := taken s @ [x]\<rparr>)"

text \<open>\<open>top.compare_exchange_strong(t, t + 1)\<close>, with \<open>t\<close> equal to \<open>b\<close> here.\<close>

definition ws_pop_cas :: "size_t \<Rightarrow> 'a \<Rightarrow> 'a ws_queue \<Rightarrow> 'a ws_queue" where
  "ws_pop_cas b x s =
     (if top_idx s = b
      then s\<lparr>top_idx := b + 1, opc := O_pop_restore b (Some x), taken := taken s @ [x]\<rparr>
      else s\<lparr>opc := O_pop_restore b None\<rparr>)"

definition ws_pop_restore :: "size_t \<Rightarrow> 'a ws_queue \<Rightarrow> 'a ws_queue" where
  "ws_pop_restore b s = s\<lparr>bottom_idx := b + 1, opc := O_idle\<rparr>"

definition owner_step :: "'a \<Rightarrow> 'a ws_queue \<Rightarrow> 'a ws_queue option" where
  "owner_step junk s =
     (case opc s of
        O_idle \<Rightarrow> None
      | O_push_read x \<Rightarrow> Some (ws_push_read x s)
      | O_push_check x b t \<Rightarrow> Some (ws_push_check junk x b t s)
      | O_push_put x b \<Rightarrow> Some (ws_push_put x b s)
      | O_push_store x b \<Rightarrow> Some (ws_push_store x b s)
      | O_pop_read \<Rightarrow> Some (ws_pop_read s)
      | O_pop_dec b \<Rightarrow> Some (ws_pop_dec b s)
      | O_pop_top b \<Rightarrow> Some (ws_pop_top b s)
      | O_pop_cas b x \<Rightarrow> Some (ws_pop_cas b x s)
      | O_pop_restore b r \<Rightarrow> Some (ws_pop_restore b s))"

section \<open>steal\<close>

definition thief_goto :: "tid \<Rightarrow> 'a thief_pc \<Rightarrow> 'a ws_queue \<Rightarrow> 'a ws_queue" where
  "thief_goto i p s = s\<lparr>thieves := (thieves s)(i := p)\<rparr>"

definition ws_steal_bottom :: "tid \<Rightarrow> size_t \<Rightarrow> 'a ws_queue \<Rightarrow> 'a ws_queue" where
  "ws_steal_bottom i t s =
     (if to_signed (bottom_idx s - t) \<le> 0 then thief_goto i T_idle s else thief_goto i (T_array t) s)"

text \<open>\<open>compare_exchange_weak\<close>: may fail spuriously; a failure starts the loop again.\<close>

definition ws_steal_cas :: "bool \<Rightarrow> tid \<Rightarrow> size_t \<Rightarrow> 'a \<Rightarrow> 'a ws_queue \<Rightarrow> 'a ws_queue" where
  "ws_steal_cas spurious i t x s =
     (if top_idx s = t \<and> \<not> spurious
      then thief_goto i T_idle (s\<lparr>top_idx := t + 1, taken := taken s @ [x]\<rparr>)
      else thief_goto i T_top s)"

definition thief_step :: "bool \<Rightarrow> tid \<Rightarrow> 'a ws_queue \<Rightarrow> 'a ws_queue option" where
  "thief_step spurious i s =
     (case thieves s i of
        T_idle \<Rightarrow> None
      | T_top \<Rightarrow> Some (thief_goto i (T_bottom (top_idx s)) s)
      | T_bottom t \<Rightarrow> Some (ws_steal_bottom i t s)
      | T_array t \<Rightarrow> Some (thief_goto i (T_get t (arr s)) s)
      | T_get t a \<Rightarrow> Some (thief_goto i (T_cas t (ca_get (arrays s ! a) t)) s)
      | T_cas t x \<Rightarrow> Some (ws_steal_cas spurious i t x s))"

section \<open>Events\<close>

datatype 'a ws_event =
    Ws_push 'a | Ws_pop | Ws_owner | Ws_steal tid | Ws_thief bool tid

fun ws_step :: "'a \<Rightarrow> 'a ws_event \<Rightarrow> 'a ws_queue \<Rightarrow> 'a ws_queue option" where
  "ws_step junk (Ws_push x) s =
     (if opc s = O_idle \<and> unat (bottom_idx s) < 2 ^ 62 then Some (s\<lparr>opc := O_push_read x\<rparr>) else None)"
| "ws_step junk Ws_pop s = (if opc s = O_idle then Some (s\<lparr>opc := O_pop_read\<rparr>) else None)"
| "ws_step junk Ws_owner s = owner_step junk s"
| "ws_step junk (Ws_steal i) s =
     (if thieves s i = T_idle then Some (thief_goto i T_top s) else None)"
| "ws_step junk (Ws_thief spurious i) s = thief_step spurious i s"

text \<open>
  The destructor: \<open>for (i = t; i != b; i++)\<close> drops the task in the cell of \<open>i\<close>; it runs when no
  operation is in progress.
\<close>

function ws_destroy_loop :: "'a list \<Rightarrow> size_t \<Rightarrow> size_t \<Rightarrow> 'a list" where
  "ws_destroy_loop a i b = (if i = b then [] else ca_get a i # ws_destroy_loop a (i + 1) b)"
  by pat_completeness auto
termination
proof (relation "measure (\<lambda>(_, i, b). unat (b - i))")
  fix i b :: size_t
  fix a :: "'a list"
  assume "i \<noteq> b"
  then have "1 \<le> unat (b - i)" by (metis One_nat_def Suc_leI right_minus_eq unat_gt_0)
  then have "unat ((b - i) - 1) < unat (b - i)" by (simp add: unat_minus_small)
  then show "((a, i + 1, b), (a, i, b)) \<in> measure (\<lambda>(_, i, b). unat (b - i))"
    by (simp add: diff_diff_eq)
qed simp

declare ws_destroy_loop.simps [simp del]

definition ws_destroy :: "'a ws_queue \<Rightarrow> 'a list" where
  "ws_destroy s = ws_destroy_loop (cur s) (top_idx s) (bottom_idx s)"

section \<open>Cells of a circular array\<close>

text \<open>Array lengths are powers of two, so the mask is a remainder.\<close>

definition pow2_length :: "'a list \<Rightarrow> bool" where
  "pow2_length a \<longleftrightarrow> (\<exists>k \<le> 62. length a = 2 ^ k)"

definition cell :: "'a list \<Rightarrow> nat \<Rightarrow> 'a" where
  "cell a i = a ! (i mod length a)"

lemma pow2_length_pos: "pow2_length a \<Longrightarrow> 0 < length a"
  by (auto simp: pow2_length_def)

lemma pow2_length_le: "pow2_length a \<Longrightarrow> length a \<le> 2 ^ 62"
  unfolding pow2_length_def by (metis one_le_numeral power_increasing)

lemma pow2_length_double: "pow2_length a \<Longrightarrow> length a < 2 ^ 62 \<Longrightarrow> length b = 2 * length a \<Longrightarrow> pow2_length b"
  unfolding pow2_length_def
  by (metis Suc_leI linorder_not_less order_le_less power_Suc)

lemma unat_ca_index:
  assumes "pow2_length a"
  shows "unat (index AND (ca_size a - 1)) = unat index mod length a"
proof -
  obtain k where k: "k \<le> 62" "length a = 2 ^ k" using assms by (auto simp: pow2_length_def)
  then show ?thesis by (simp add: ca_size_def unat_and_mask)
qed

lemma ca_get_cell: "pow2_length a \<Longrightarrow> ca_get a i = cell a (unat i)"
  by (simp add: ca_get_def cell_def unat_ca_index)

lemma length_ca_put [simp]: "length (ca_put a i x) = length a"
  by (simp add: ca_put_def)

lemma pow2_length_cong: "length a = length b \<Longrightarrow> pow2_length a = pow2_length b"
  by (simp add: pow2_length_def)

lemma cell_ca_put_same: "pow2_length a \<Longrightarrow> cell (ca_put a i x) (unat i) = x"
  using pow2_length_pos[of a] by (simp add: ca_put_def cell_def unat_ca_index)

lemma mod_neq_of_close:
  fixes i j n :: nat
  assumes "i < j" "j < i + n"
  shows "i mod n \<noteq> j mod n"
proof
  assume "i mod n = j mod n"
  then have "n dvd j - i" using assms(1) by (metis mod_eq_dvd_iff_nat less_imp_le)
  with assms show False by (auto dest: dvd_imp_le)
qed

lemma cell_ca_put_other:
  assumes "pow2_length a" "j \<noteq> unat i" "j < unat i + length a" "unat i < j + length a"
  shows "cell (ca_put a i x) j = cell a j"
proof -
  have "unat i mod length a \<noteq> j mod length a"
    using assms mod_neq_of_close by (metis linorder_neqE_nat)
  then show ?thesis by (simp add: ca_put_def cell_def unat_ca_index[OF assms(1)])
qed

lemma unat_Suc_word: "unat (i::size_t) < unat (b::size_t) \<Longrightarrow> unat (i + 1) = Suc (unat i)"
  using unat_lt_64[of b] unat_plus_small[of i 1] by simp

lemma length_ca_copy [simp]: "length (ca_copy a i b new) = length new"
  by (induction a i b new rule: ca_copy.induct) (subst ca_copy.simps, simp)

lemma cell_ca_copy:
  assumes "unat i \<le> unat b" "pow2_length a" "pow2_length new"
    and "j < unat b" "unat b \<le> j + length new" "unat b \<le> unat i + length new"
  shows "cell (ca_copy a i b new) j = (if unat i \<le> j then cell a j else cell new j)"
  using assms
proof (induction a i b new rule: ca_copy.induct)
  case (1 a i b new)
  show ?case
  proof (cases "i = b")
    case True
    with 1 show ?thesis by (subst ca_copy.simps) auto
  next
    case False
    with 1(2) have lt: "unat i < unat b" by (metis order_le_less unsigned_word_eqI)
    let ?new = "ca_put new i (ca_get a i)"
    have suc: "unat (i + 1) = Suc (unat i)" using lt by (rule unat_Suc_word)
    have "cell (ca_copy a (i + 1) b ?new) j
        = (if unat (i + 1) \<le> j then cell a j else cell ?new j)"
      using 1 lt suc False pow2_length_cong[of ?new new] by (intro 1(1)) auto
    moreover have "cell ?new j = cell new j" if "j < unat i"
      using that 1 lt by (intro cell_ca_put_other) auto
    moreover have "cell ?new j = cell a j" if "j = unat i"
      using that 1 by (simp add: cell_ca_put_same ca_get_cell)
    ultimately show ?thesis
      using suc False by (subst ca_copy.simps) (auto simp: not_less_eq_eq)
  qed
qed

lemma length_ca_grow [simp]: "length (ca_grow junk a t b) = 2 * length a"
  by (simp add: ca_grow_def)

lemma cell_ca_grow:
  assumes "pow2_length a" "pow2_length (ca_grow junk a t b)" "unat t \<le> j" "j < unat b"
    "unat b \<le> unat t + length a"
  shows "cell (ca_grow junk a t b) j = cell a j"
proof -
  have "pow2_length (replicate (2 * length a) junk)"
    using assms(2) by (simp add: pow2_length_def)
  then show ?thesis unfolding ca_grow_def
    using assms by (subst cell_ca_copy) auto
qed

section \<open>Signed differences\<close>

lemma to_signed_small: "unat x < 2 ^ 63 \<Longrightarrow> to_signed x = int (unat x)"
  by (simp add: to_signed_def word_less_nat_alt)

lemma to_signed_large: "2 ^ 63 \<le> unat x \<Longrightarrow> to_signed x = int (unat x) - 2 ^ 64"
  by (simp add: to_signed_def word_less_nat_alt unat_minus_small of_nat_diff)

lemma to_signed_sint: "to_signed x = sint x"
proof -
  have odd: "bit (uint x) 63 \<longleftrightarrow> 2 ^ 63 \<le> unat x"
  proof -
    have "bit (uint x) 63 \<longleftrightarrow> bit (unat x) 63" by (simp add: bit_unsigned_iff)
    moreover have "unat x div 2 ^ 63 = (if 2 ^ 63 \<le> unat x then 1 else 0)"
      using unat_lt_64[of x] by (auto intro!: div_nat_eqI)
    ultimately show ?thesis by (simp add: bit_iff_odd)
  qed
  have "sint x = take_bit 64 (uint x) - 2 ^ 64 * of_bool (bit (uint x) 63)"
    by (simp add: sint_uint signed_take_bit_eq_take_bit_minus)
  also have "take_bit 64 (uint x) = int (unat x)"
    using uint_lt2p[of x] by (simp add: take_bit_int_eq_self)
  finally have "sint x = int (unat x) - 2 ^ 64 * of_bool (2 ^ 63 \<le> unat x)"
    unfolding odd .
  then show ?thesis
    by (cases "unat x < 2 ^ 63") (simp_all add: to_signed_small to_signed_large)
qed

lemma to_signed_diff:
  assumes "unat b < 2 ^ 63" "unat t < 2 ^ 63"
  shows "to_signed (b - t) = int (unat b) - int (unat t)"
proof (cases "unat t \<le> unat b")
  case True
  with assms show ?thesis by (simp add: unat_minus_small to_signed_small of_nat_diff)
next
  case False
  then have "unat (b - t) = unat b + 2 ^ 64 - unat t" by (intro unat_minus_wrap) simp
  with False assms show ?thesis by (simp add: to_signed_large of_nat_diff)
qed

lemma to_signed_diff_cmp:
  assumes "unat b < 2 ^ 63" "unat t < 2 ^ 63"
  shows "0 < to_signed (b - t) \<longleftrightarrow> unat t < unat b"
    and "to_signed (b - t) \<le> 0 \<longleftrightarrow> unat b \<le> unat t"
    and "to_signed (b - t) < 0 \<longleftrightarrow> unat b < unat t"
  unfolding to_signed_diff[OF assms] by linarith+

section \<open>The invariant\<close>

text \<open>
  Between the store of the decremented \<open>bottom\<close> and the end of \<open>pop\<close> the deque still logically ends
  one past \<open>bottom\<close>.
\<close>

definition ws_end :: "'a ws_queue \<Rightarrow> nat" where
  "ws_end s = unat (bottom_idx s) +
     (case opc s of O_pop_top _ \<Rightarrow> 1 | O_pop_cas _ _ \<Rightarrow> 1 | O_pop_restore _ _ \<Rightarrow> 1 | _ \<Rightarrow> 0)"

definition ws_contents :: "'a ws_queue \<Rightarrow> 'a list" where
  "ws_contents s = map (cell (cur s)) [unat (top_idx s)..<ws_end s]"

definition owner_ok :: "'a ws_queue \<Rightarrow> bool" where
  "owner_ok s \<longleftrightarrow> (case opc s of
      O_push_read x \<Rightarrow> unat (bottom_idx s) < 2 ^ 62
    | O_push_check x b t \<Rightarrow> unat b < 2 ^ 62 \<and> b = bottom_idx s \<and> unat t \<le> unat (top_idx s)
        \<and> unat b \<le> unat t + length (cur s)
    | O_push_put x b \<Rightarrow> unat b < 2 ^ 62 \<and> b = bottom_idx s
        \<and> unat b < unat (top_idx s) + length (cur s)
    | O_push_store x b \<Rightarrow> unat b < 2 ^ 62 \<and> b = bottom_idx s
        \<and> unat b < unat (top_idx s) + length (cur s) \<and> cell (cur s) (unat b) = x
    | O_pop_dec b \<Rightarrow> bottom_idx s = b + 1 \<and> unat (bottom_idx s) = Suc (unat b)
    | O_pop_top b \<Rightarrow> b = bottom_idx s
    | O_pop_cas b x \<Rightarrow> b = bottom_idx s \<and> unat b \<le> unat (top_idx s)
        \<and> (top_idx s = b \<longrightarrow> x = cell (cur s) (unat b))
    | O_pop_restore b r \<Rightarrow> b = bottom_idx s \<and> unat (top_idx s) = Suc (unat b)
    | _ \<Rightarrow> True)"

definition thief_ok :: "'a ws_queue \<Rightarrow> 'a thief_pc \<Rightarrow> bool" where
  "thief_ok s p \<longleftrightarrow> (case p of
      T_bottom t \<Rightarrow> unat t \<le> unat (top_idx s)
    | T_array t \<Rightarrow> unat t \<le> unat (top_idx s) \<and> (t = top_idx s \<longrightarrow> unat t < ws_end s)
    | T_get t a \<Rightarrow> unat t \<le> unat (top_idx s) \<and> a < length (arrays s)
        \<and> (t = top_idx s \<longrightarrow> unat t < ws_end s \<and> cell (arrays s ! a) (unat t) = cell (cur s) (unat t))
    | T_cas t x \<Rightarrow> unat t \<le> unat (top_idx s)
        \<and> (t = top_idx s \<longrightarrow> unat t < ws_end s \<and> x = cell (cur s) (unat t))
    | _ \<Rightarrow> True)"

definition arrays_ok :: "'a ws_queue \<Rightarrow> bool" where
  "arrays_ok s \<longleftrightarrow> arr s < length (arrays s) \<and> (\<forall>a \<in> set (arrays s). pow2_length a)"

definition index_ok :: "'a ws_queue \<Rightarrow> bool" where
  "index_ok s \<longleftrightarrow> unat (top_idx s) \<le> ws_end s \<and> ws_end s \<le> 2 ^ 62
     \<and> ws_end s \<le> unat (top_idx s) + length (cur s)"

definition ws_inv :: "'a ws_queue \<Rightarrow> bool" where
  "ws_inv s \<longleftrightarrow> arrays_ok s \<and> index_ok s \<and> owner_ok s \<and> (\<forall>i. thief_ok s (thieves s i))"

lemma arrays_ok_cur: "arrays_ok s \<Longrightarrow> pow2_length (cur s)"
  by (auto simp: arrays_ok_def cur_def)

lemma arrays_ok_nth: "arrays_ok s \<Longrightarrow> a < length (arrays s) \<Longrightarrow> pow2_length (arrays s ! a)"
  by (auto simp: arrays_ok_def)

lemma ws_inv_top_bottom:
  assumes "ws_inv s"
  shows "unat (top_idx s) \<le> 2 ^ 62" "unat (bottom_idx s) \<le> 2 ^ 62" "unat (top_idx s) < 2 ^ 63"
    "unat (bottom_idx s) < 2 ^ 63" "unat (top_idx s) \<le> Suc (unat (bottom_idx s))"
  using assms by (auto simp: ws_inv_def index_ok_def ws_end_def split: owner_pc.splits)

text \<open>The abstract deque, and the operation that each event performs on it.\<close>

datatype 'a deque_op = Dq_none | Dq_push 'a | Dq_pop 'a | Dq_steal 'a

fun deque_step :: "'a deque_op \<Rightarrow> 'a list \<Rightarrow> 'a list option" where
  "deque_step Dq_none xs = Some xs"
| "deque_step (Dq_push x) xs = Some (xs @ [x])"
| "deque_step (Dq_pop x) xs = (if xs \<noteq> [] \<and> last xs = x then Some (butlast xs) else None)"
| "deque_step (Dq_steal x) xs = (if xs \<noteq> [] \<and> hd xs = x then Some (tl xs) else None)"

definition ws_label :: "'a ws_event \<Rightarrow> 'a ws_queue \<Rightarrow> 'a deque_op" where
  "ws_label e s =
     (case e of
        Ws_owner \<Rightarrow>
          (case opc s of
             O_push_store x b \<Rightarrow> Dq_push x
           | O_pop_top b \<Rightarrow> if 0 < to_signed (b - top_idx s) then Dq_pop (ca_get (cur s) b) else Dq_none
           | O_pop_cas b x \<Rightarrow> if top_idx s = b then Dq_pop x else Dq_none
           | _ \<Rightarrow> Dq_none)
      | Ws_thief spurious i \<Rightarrow>
          (case thieves s i of
             T_cas t x \<Rightarrow> if top_idx s = t \<and> \<not> spurious then Dq_steal x else Dq_none
           | _ \<Rightarrow> Dq_none)
      | _ \<Rightarrow> Dq_none)"

section \<open>Every event keeps the invariant and performs its abstract operation\<close>

definition ws_sim :: "'a deque_op \<Rightarrow> 'a ws_queue \<Rightarrow> 'a ws_queue \<Rightarrow> bool" where
  "ws_sim l s s' \<longleftrightarrow> ws_inv s' \<and> deque_step l (ws_contents s) = Some (ws_contents s')"

text \<open>What a thief remembers stays right when \<open>top\<close> does not move and the element there is kept.\<close>

lemma thief_ok_frame:
  assumes "thief_ok s p" "top_idx s' = top_idx s"
    and "unat (top_idx s) < ws_end s \<Longrightarrow> unat (top_idx s) < ws_end s'"
    and "length (arrays s) \<le> length (arrays s')"
    and "\<And>a. a < length (arrays s) \<Longrightarrow> unat (top_idx s) < ws_end s \<Longrightarrow>
       cell (arrays s' ! a) (unat (top_idx s)) = cell (arrays s ! a) (unat (top_idx s))"
    and "unat (top_idx s) < ws_end s \<Longrightarrow>
       cell (cur s') (unat (top_idx s)) = cell (cur s) (unat (top_idx s))"
  shows "thief_ok s' p"
  using assms by (cases p) (auto simp: thief_ok_def)

lemma thief_ok_advance:
  assumes "thief_ok s p" "unat (top_idx s') = Suc (unat (top_idx s))" "arrays s' = arrays s"
  shows "thief_ok s' p"
  using assms by (cases p) (auto simp: thief_ok_def)

text \<open>Events that move a program counter and change neither the arrays nor the logical ends.\<close>

lemma ws_sim_quiet:
  assumes "ws_inv s" "top_idx s' = top_idx s" "arrays s' = arrays s" "arr s' = arr s"
    and "ws_end s' = ws_end s" "owner_ok s'" "\<And>i. thief_ok s (thieves s' i)"
  shows "ws_sim Dq_none s s'"
proof -
  have cur: "cur s' = cur s" using assms(3,4) by (simp add: cur_def)
  have "thief_ok s' (thieves s' i)" for i
    by (rule thief_ok_frame[OF assms(7)[of i]]) (use assms cur in auto)
  then show ?thesis
    using assms cur
    by (simp add: ws_sim_def ws_inv_def arrays_ok_def index_ok_def ws_contents_def)
qed

lemma ws_inv_thief: "ws_inv s \<Longrightarrow> thief_ok s (thieves s i)"
  by (simp add: ws_inv_def)

lemma ws_start_sim:
  assumes "ws_inv s" "opc s = O_idle"
  shows "unat (bottom_idx s) < 2 ^ 62 \<Longrightarrow> ws_sim Dq_none s (s\<lparr>opc := O_push_read x\<rparr>)"
    and "ws_sim Dq_none s (s\<lparr>opc := O_pop_read\<rparr>)"
  using assms
  by (auto intro!: ws_sim_quiet simp: ws_end_def owner_ok_def ws_inv_thief)

lemma ws_push_read_sim:
  assumes "ws_inv s" "opc s = O_push_read x"
  shows "ws_sim Dq_none s (ws_push_read x s)"
proof (rule ws_sim_quiet[OF assms(1)])
  show "owner_ok (ws_push_read x s)"
    using assms
    by (auto simp: ws_push_read_def owner_ok_def ws_inv_def index_ok_def ws_end_def cur_def)
qed (use assms in \<open>auto simp: ws_push_read_def ws_end_def ws_inv_thief\<close>)

lemma ws_pop_read_sim:
  assumes "ws_inv s" "opc s = O_pop_read"
  shows "ws_sim Dq_none s (ws_pop_read s)"
proof (rule ws_sim_quiet[OF assms(1)])
  have "unat (bottom_idx s) = Suc (unat (bottom_idx s - 1))"
    if "0 < to_signed (bottom_idx s - top_idx s)"
  proof -
    have "unat (top_idx s) < unat (bottom_idx s)"
      using that ws_inv_top_bottom[OF assms(1)] by (simp add: to_signed_diff_cmp)
    then show ?thesis by (simp add: unat_minus_small)
  qed
  then show "owner_ok (ws_pop_read s)"
    by (auto simp: ws_pop_read_def owner_ok_def)
qed (use assms in \<open>auto simp: ws_pop_read_def ws_end_def ws_inv_thief\<close>)

lemma ws_pop_dec_sim:
  assumes "ws_inv s" "opc s = O_pop_dec b"
  shows "ws_sim Dq_none s (ws_pop_dec b s)"
proof (rule ws_sim_quiet[OF assms(1)])
  show "ws_end (ws_pop_dec b s) = ws_end s"
    using assms by (auto simp: ws_pop_dec_def ws_end_def ws_inv_def owner_ok_def)
qed (use assms in \<open>auto simp: ws_pop_dec_def owner_ok_def ws_inv_thief\<close>)

lemma ws_pop_restore_sim:
  assumes "ws_inv s" "opc s = O_pop_restore b r"
  shows "ws_sim Dq_none s (ws_pop_restore b s)"
proof (rule ws_sim_quiet[OF assms(1)])
  have "unat (b + 1) = Suc (unat b)"
    using assms ws_inv_top_bottom(2)[OF assms(1)] unat_plus_small[of b 1]
    by (simp add: ws_inv_def owner_ok_def)
  then show "ws_end (ws_pop_restore b s) = ws_end s"
    using assms by (auto simp: ws_pop_restore_def ws_end_def ws_inv_def owner_ok_def)
qed (use assms in \<open>auto simp: ws_pop_restore_def owner_ok_def ws_inv_thief\<close>)

lemma ws_push_check_sim:
  assumes inv: "ws_inv s" and pc: "opc s = O_push_check x b t"
  shows "ws_sim Dq_none s (ws_push_check junk x b t s)"
proof -
  let ?T = "unat (top_idx s)"
  have ok: "unat b < 2 ^ 62" "b = bottom_idx s" "unat t \<le> ?T" "unat b \<le> unat t + length (cur s)"
    and T: "?T \<le> unat b" and arrays: "arrays_ok s"
    using inv pc by (auto simp: ws_inv_def owner_ok_def index_ok_def ws_end_def)
  have "?T < 2 ^ 63" "unat b < 2 ^ 63" using ok T by simp_all
  have len: "length (cur s) \<le> 2 ^ 62"
    using arrays_ok_cur[OF arrays] by (rule pow2_length_le)
  then have "to_signed (ca_size (cur s)) = int (length (cur s))"
    by (simp add: ca_size_def to_signed_small unat_of_nat_small)
  moreover have "to_signed (b - t) = int (unat b) - int (unat t)"
    using ok T by (intro to_signed_diff) simp_all
  ultimately have full: "to_signed (b - t) \<ge> to_signed (ca_size (cur s)) \<longleftrightarrow> length (cur s) + unat t \<le> unat b"
    by linarith
  show ?thesis
  proof (cases "length (cur s) + unat t \<le> unat b")
    case False
    with full have eq: "ws_push_check junk x b t s = s\<lparr>opc := O_push_put x b\<rparr>"
      by (simp add: ws_push_check_def)
    show ?thesis unfolding eq
      by (rule ws_sim_quiet[OF inv])
        (use inv pc ok False in \<open>simp_all add: ws_end_def owner_ok_def cur_def ws_inv_thief\<close>)
  next
    case True
    let ?new = "ca_grow junk (cur s) t b"
    let ?s = "s\<lparr>arrays := arrays s @ [?new], arr := length (arrays s), opc := O_push_put x b\<rparr>"
    have eq: "ws_push_check junk x b t s = ?s"
      using True full by (simp add: ws_push_check_def)
    have pow: "pow2_length ?new"
      using True ok by (intro pow2_length_double[OF arrays_ok_cur[OF arrays]]) simp_all
    have cur: "cur ?s = ?new" by (simp add: cur_def)
    have room: "unat b < ?T + 2 * length (cur s)"
      using ok pow2_length_pos[OF arrays_ok_cur[OF arrays]] by linarith
    have cells: "cell ?new j = cell (cur s) j" if "?T \<le> j" "j < unat b" for j
      using that ok pow arrays by (intro cell_ca_grow) (auto simp: arrays_ok_cur)
    have ends: "ws_end ?s = ws_end s" "ws_end s = unat b"
      using pc ok by (simp_all add: ws_end_def)
    have thieves: "thief_ok ?s (thieves s i)" for i
      by (rule thief_ok_frame[OF ws_inv_thief[OF inv, of i]])
        (use ends cells cur in \<open>simp_all add: nth_append\<close>)
    have "map (cell (cur ?s)) [?T..<unat b] = map (cell (cur s)) [?T..<unat b]"
      using cells cur by (intro map_cong) auto
    then have "ws_contents ?s = ws_contents s"
      using ends by (simp add: ws_contents_def)
    moreover have "ws_inv ?s"
      unfolding ws_inv_def
    proof (intro conjI allI)
      show "arrays_ok ?s" using arrays pow by (auto simp: arrays_ok_def)
      show "index_ok ?s"
        using inv ends cur ok T by (simp add: ws_inv_def index_ok_def)
      show "owner_ok ?s"
        using ok cur room by (simp add: owner_ok_def)
    qed (use thieves in simp)
    ultimately show ?thesis unfolding eq by (simp add: ws_sim_def)
  qed
qed

lemma cur_put [simp]: "arr s < length (arrays s) \<Longrightarrow> cur (s\<lparr>arrays := (arrays s)[arr s := a], opc := p\<rparr>) = a"
  by (simp add: cur_def)

lemma ws_push_put_sim:
  assumes inv: "ws_inv s" and pc: "opc s = O_push_put x b"
  shows "ws_sim Dq_none s (ws_push_put x b s)"
proof -
  let ?T = "unat (top_idx s)" and ?a = "ca_put (cur s) b x"
  let ?s = "s\<lparr>arrays := (arrays s)[arr s := ?a], opc := O_push_store x b\<rparr>"
  have ok: "unat b < 2 ^ 62" "b = bottom_idx s" "unat b < ?T + length (cur s)" "?T \<le> unat b"
    and arrays: "arrays_ok s" "arr s < length (arrays s)"
    using inv pc by (auto simp: ws_inv_def owner_ok_def index_ok_def ws_end_def arrays_ok_def)
  have pow: "pow2_length (cur s)" using arrays(1) by (rule arrays_ok_cur)
  have ends: "ws_end ?s = ws_end s" "ws_end s = unat b"
    using pc ok by (simp_all add: ws_end_def)
  have cur: "cur ?s = ?a" using arrays by simp
  have cells: "cell ?a j = cell (cur s) j" if "?T \<le> j" "j < unat b" for j
    using that ok pow by (intro cell_ca_put_other) auto
  have "thief_ok ?s (thieves s i)" for i
    by (rule thief_ok_frame[OF ws_inv_thief[OF inv, of i]])
      (use ends cells cur arrays in \<open>auto simp: nth_list_update cur_def\<close>)
  moreover have "map (cell (cur ?s)) [?T..<unat b] = map (cell (cur s)) [?T..<unat b]"
    using cells cur by (intro map_cong) auto
  then have "ws_contents ?s = ws_contents s"
    using ends by (simp add: ws_contents_def)
  moreover have "arrays_ok ?s"
    using arrays pow pow2_length_cong[of ?a "cur s"]
    by (auto simp: arrays_ok_def dest!: subsetD[OF set_update_subset_insert])
  moreover have "index_ok ?s"
    using inv ends cur by (simp add: ws_inv_def index_ok_def)
  moreover have "owner_ok ?s"
    using ok cur cell_ca_put_same[OF pow] by (simp add: owner_ok_def)
  ultimately show ?thesis
    by (simp add: ws_push_put_def ws_sim_def ws_inv_def)
qed

lemma ws_push_store_sim:
  assumes inv: "ws_inv s" and pc: "opc s = O_push_store x b"
  shows "ws_sim (Dq_push x) s (ws_push_store x b s)"
proof -
  let ?T = "unat (top_idx s)"
  let ?s = "ws_push_store x b s"
  have ok: "unat b < 2 ^ 62" "b = bottom_idx s" "unat b < ?T + length (cur s)" "?T \<le> unat b"
      "cell (cur s) (unat b) = x"
    using inv pc by (auto simp: ws_inv_def owner_ok_def index_ok_def ws_end_def)
  have b: "unat (b + 1) = Suc (unat b)"
    using ok(1) unat_plus_small[of b 1] by simp
  have same: "arrays ?s = arrays s" "cur ?s = cur s" "top_idx ?s = top_idx s" "arr ?s = arr s"
    by (simp_all add: ws_push_store_def cur_def)
  have ends: "ws_end ?s = Suc (unat b)" "ws_end s = unat b"
    using pc ok b by (simp_all add: ws_end_def ws_push_store_def)
  have "thief_ok ?s (thieves s i)" for i
    by (rule thief_ok_frame[OF ws_inv_thief[OF inv, of i]]) (use ends same in auto)
  then have "ws_inv ?s"
    using inv same ends ok
    by (auto simp: ws_inv_def arrays_ok_def index_ok_def owner_ok_def ws_push_store_def)
  moreover have "ws_contents ?s = ws_contents s @ [x]"
    using same ends ok by (simp add: ws_contents_def)
  ultimately show ?thesis by (simp add: ws_sim_def)
qed

text \<open>\<open>pop\<close> finds the deque empty, takes the last element, or competes for the only one.\<close>

lemma ws_pop_top_sim:
  assumes inv: "ws_inv s" and pc: "opc s = O_pop_top b"
  shows "ws_sim (ws_label Ws_owner s) s (ws_pop_top b s)"
proof -
  let ?T = "unat (top_idx s)"
  have ok: "b = bottom_idx s" "?T \<le> Suc (unat b)" and ends: "ws_end s = Suc (unat b)"
    using inv pc by (auto simp: ws_inv_def owner_ok_def index_ok_def ws_end_def)
  have small: "unat b < 2 ^ 63" "?T < 2 ^ 63"
    using ws_inv_top_bottom[OF inv] ok by simp_all
  note cmp = to_signed_diff_cmp[OF small]
  have pow: "pow2_length (cur s)" using inv by (simp add: ws_inv_def arrays_ok_cur)
  have label: "ws_label Ws_owner s = (if ?T < unat b then Dq_pop (ca_get (cur s) b) else Dq_none)"
    using pc cmp(1) by (simp add: ws_label_def)
  consider "unat b < ?T" | "b = top_idx s" | "?T < unat b"
    by (metis linorder_neqE_nat unsigned_word_eqI)
  then show ?thesis
  proof cases
    case 1
    then have "ws_pop_top b s = s\<lparr>opc := O_pop_restore b None\<rparr>"
      using cmp by (simp add: ws_pop_top_def)
    with 1 label show ?thesis
      using inv ok ends by (auto intro!: ws_sim_quiet simp: ws_end_def owner_ok_def ws_inv_thief)
  next
    case 2
    then have "ws_pop_top b s = s\<lparr>opc := O_pop_cas b (ca_get (cur s) b)\<rparr>"
      using cmp by (simp add: ws_pop_top_def Let_def)
    moreover have "cur (s\<lparr>opc := p\<rparr>) = cur s" for p by (simp add: cur_def)
    ultimately show ?thesis
      using 2 label inv ok ends pow
      by (auto intro!: ws_sim_quiet simp: ws_end_def owner_ok_def ws_inv_thief ca_get_cell)
  next
    case 3
    let ?s = "s\<lparr>opc := O_idle, taken := taken s @ [ca_get (cur s) b]\<rparr>"
    have eq: "ws_pop_top b s = ?s"
      using 3 cmp by (auto simp: ws_pop_top_def Let_def)
    have cur: "cur ?s = cur s" by (simp add: cur_def)
    have ends': "ws_end ?s = unat b" using ok by (simp add: ws_end_def)
    have "thief_ok ?s (thieves s i)" for i
      by (rule thief_ok_frame[OF ws_inv_thief[OF inv, of i]]) (use ends' cur 3 in auto)
    then have "ws_inv ?s"
      using inv ends ends' 3 cur by (simp add: ws_inv_def arrays_ok_def index_ok_def owner_ok_def)
    moreover have "ws_contents s = ws_contents ?s @ [ca_get (cur s) b]"
      using 3 ends ends' cur pow by (simp add: ws_contents_def ca_get_cell)
    ultimately show ?thesis
      unfolding eq label using 3 by (simp add: ws_sim_def)
  qed
qed

text \<open>Taking the first element, by a thief or by the owner competing for the last one.\<close>

lemma ws_take_first:
  assumes inv: "ws_inv s" and lt: "unat (top_idx s) < ws_end s"
    and s': "top_idx s' = top_idx s + 1" "arrays s' = arrays s" "arr s' = arr s" "ws_end s' = ws_end s"
    and owner: "owner_ok s'" and thieves: "\<And>i. thief_ok s (thieves s' i)"
  shows "ws_inv s'" "ws_contents s = cell (cur s) (unat (top_idx s)) # ws_contents s'"
proof -
  have T: "unat (top_idx s') = Suc (unat (top_idx s))"
    using s'(1) ws_inv_top_bottom[OF inv] unat_plus_small[of "top_idx s" 1] by simp
  have cur: "cur s' = cur s" using s' by (simp add: cur_def)
  show "ws_inv s'"
    using inv owner s' T lt cur thief_ok_advance[OF thieves T s'(2)]
    by (auto simp: ws_inv_def arrays_ok_def index_ok_def)
  show "ws_contents s = cell (cur s) (unat (top_idx s)) # ws_contents s'"
    using lt T s' cur by (simp add: ws_contents_def upt_conv_Cons)
qed

lemma ws_pop_cas_sim:
  assumes inv: "ws_inv s" and pc: "opc s = O_pop_cas b x"
  shows "ws_sim (ws_label Ws_owner s) s (ws_pop_cas b x s)"
proof -
  let ?T = "unat (top_idx s)"
  have ok: "b = bottom_idx s" "?T \<le> Suc (unat b)" "unat b \<le> ?T"
      "top_idx s = b \<Longrightarrow> x = cell (cur s) (unat b)" and ends: "ws_end s = Suc (unat b)"
    using inv pc by (auto simp: ws_inv_def owner_ok_def index_ok_def ws_end_def)
  have label: "ws_label Ws_owner s = (if top_idx s = b then Dq_pop x else Dq_none)"
    using pc by (simp add: ws_label_def)
  show ?thesis
  proof (cases "top_idx s = b")
    case False
    then have "?T = Suc (unat b)" using ok by (metis le_SucE le_antisym unsigned_word_eqI)
    with False show ?thesis
      using inv ok ends label
      by (auto intro!: ws_sim_quiet simp: ws_pop_cas_def ws_end_def owner_ok_def ws_inv_thief)
  next
    case True
    let ?s = "s\<lparr>top_idx := b + 1, opc := O_pop_restore b (Some x), taken := taken s @ [x]\<rparr>"
    have eq: "ws_pop_cas b x s = ?s" using True by (simp add: ws_pop_cas_def)
    have b1: "unat (b + 1) = Suc (unat b)"
      using ok ws_inv_top_bottom[OF inv] unat_plus_small[of b 1] by simp
    have ends': "ws_end ?s = ws_end s" using ends ok by (simp add: ws_end_def)
    have owner: "owner_ok ?s" using ok b1 by (simp add: owner_ok_def)
    have lt: "unat (top_idx s) < ws_end s" using True ends by simp
    have inv': "ws_inv ?s" and first: "ws_contents s = cell (cur s) ?T # ws_contents ?s"
      by (rule ws_take_first[OF inv lt]; use True ends' owner ws_inv_thief[OF inv] in simp)+
    have "ws_contents ?s = []" using ends ends' b1 by (simp add: ws_contents_def)
    with first True ok have "ws_contents s = [x]" by simp
    with inv' \<open>ws_contents ?s = []\<close> show ?thesis
      unfolding eq label using True by (simp add: ws_sim_def)
  qed
qed

section \<open>Thieves\<close>

lemma cur_thieves [simp]: "cur (s\<lparr>thieves := f\<rparr>) = cur s"
  by (simp add: cur_def)

lemma owner_ok_thieves [simp]: "owner_ok (s\<lparr>thieves := f\<rparr>) = owner_ok s"
  by (cases "opc s") (simp_all add: owner_ok_def)

lemma thief_goto_sim:
  assumes "ws_inv s" "thief_ok s p"
  shows "ws_sim Dq_none s (thief_goto i p s)"
  using assms
  by (intro ws_sim_quiet)
    (auto simp: thief_goto_def ws_end_def ws_inv_thief ws_inv_def)

lemma owner_ok_advance:
  assumes inv: "ws_inv s" and lt: "unat (top_idx s) < ws_end s"
  shows "owner_ok (s\<lparr>top_idx := top_idx s + 1, taken := l\<rparr>)"
proof -
  have "unat (top_idx s + 1) = Suc (unat (top_idx s))"
    using ws_inv_top_bottom[OF inv] unat_plus_small[of "top_idx s" 1] by simp
  moreover have "cur (s\<lparr>top_idx := top_idx s + 1, taken := l\<rparr>) = cur s" by (simp add: cur_def)
  ultimately show ?thesis
    using inv lt by (cases "opc s") (auto simp: ws_inv_def owner_ok_def ws_end_def)
qed

lemma thief_step_sim:
  assumes inv: "ws_inv s" and step: "thief_step spurious i s = Some s'"
  shows "ws_sim (ws_label (Ws_thief spurious i) s) s s'"
proof (cases "thieves s i")
  case T_idle
  with step show ?thesis by (simp add: thief_step_def)
next
  case T_top
  with step inv show ?thesis
    by (auto simp: thief_step_def ws_label_def intro!: thief_goto_sim) (simp add: thief_ok_def)
next
  case (T_bottom t)
  have t: "unat t \<le> unat (top_idx s)"
    using ws_inv_thief[OF inv, of i] T_bottom by (simp add: thief_ok_def)
  have "to_signed (bottom_idx s - t) \<le> 0 \<longleftrightarrow> unat (bottom_idx s) \<le> unat t"
    using ws_inv_top_bottom[OF inv] t by (intro to_signed_diff_cmp(2)) simp_all
  moreover have "unat (bottom_idx s) \<le> ws_end s" by (simp add: ws_end_def)
  ultimately have "\<not> to_signed (bottom_idx s - t) \<le> 0 \<Longrightarrow> thief_ok s (T_array t)"
    using t by (auto simp: thief_ok_def)
  with T_bottom step inv show ?thesis
    by (auto simp: thief_step_def ws_label_def ws_steal_bottom_def thief_ok_def intro!: thief_goto_sim)
next
  case (T_array t)
  have "thief_ok s (T_get t (arr s))"
    using ws_inv_thief[OF inv, of i] T_array inv
    by (auto simp: thief_ok_def ws_inv_def arrays_ok_def cur_def)
  with T_array step inv show ?thesis
    by (auto simp: thief_step_def ws_label_def intro!: thief_goto_sim)
next
  case (T_get t a)
  have "thief_ok s (T_cas t (ca_get (arrays s ! a) t))"
    using ws_inv_thief[OF inv, of i] T_get inv
    by (auto simp: thief_ok_def ws_inv_def ca_get_cell arrays_ok_nth)
  with T_get step inv show ?thesis
    by (auto simp: thief_step_def ws_label_def intro!: thief_goto_sim)
next
  case (T_cas t x)
  have ok: "top_idx s = t \<Longrightarrow> unat t < ws_end s \<and> x = cell (cur s) (unat t)"
    using ws_inv_thief[OF inv, of i] T_cas by (auto simp: thief_ok_def)
  show ?thesis
  proof (cases "top_idx s = t \<and> \<not> spurious")
    case False
    with T_cas step inv show ?thesis
      by (auto simp: thief_step_def ws_label_def ws_steal_cas_def thief_ok_def intro!: thief_goto_sim)
  next
    case True
    have s': "s' = thief_goto i T_idle (s\<lparr>top_idx := t + 1, taken := taken s @ [x]\<rparr>)"
      using True T_cas step by (simp add: thief_step_def ws_steal_cas_def)
    have end': "ws_end s' = ws_end s" by (simp add: s' thief_goto_def ws_end_def)
    have owner: "owner_ok s'"
      using owner_ok_advance[OF inv] True ok by (simp add: s' thief_goto_def)
    have thieves: "thief_ok s (thieves s' j)" for j
      using ws_inv_thief[OF inv, of j] by (simp add: s' thief_goto_def thief_ok_def)
    have lt: "unat (top_idx s) < ws_end s" using True ok by simp
    have inv': "ws_inv s'" and first: "ws_contents s = cell (cur s) (unat (top_idx s)) # ws_contents s'"
      by (rule ws_take_first[OF inv lt]; use True end' owner thieves in \<open>simp add: s' thief_goto_def\<close>)+
    then show ?thesis
      using True T_cas ok by (simp add: ws_sim_def ws_label_def)
  qed
qed

section \<open>All events, all runs\<close>

lemma owner_step_sim:
  assumes inv: "ws_inv s" and step: "owner_step junk s = Some s'"
  shows "ws_sim (ws_label Ws_owner s) s s'"
proof (cases "opc s")
  case (O_pop_top b)
  then show ?thesis using step ws_pop_top_sim[OF inv O_pop_top] by (simp add: owner_step_def)
next
  case (O_pop_cas b x)
  then show ?thesis using step ws_pop_cas_sim[OF inv O_pop_cas] by (simp add: owner_step_def)
qed (use step inv in \<open>auto simp: owner_step_def ws_label_def intro: ws_push_read_sim
      ws_push_check_sim ws_push_put_sim ws_push_store_sim ws_pop_read_sim ws_pop_dec_sim
      ws_pop_restore_sim\<close>)

lemma ws_step_sim:
  assumes inv: "ws_inv s" and step: "ws_step junk e s = Some s'"
  shows "ws_sim (ws_label e s) s s'"
proof (cases e)
  case (Ws_push x)
  with step inv show ?thesis by (auto simp: ws_label_def ws_start_sim split: if_splits)
next
  case Ws_pop
  with step inv show ?thesis by (auto simp: ws_label_def ws_start_sim split: if_splits)
next
  case Ws_owner
  with step inv show ?thesis by (simp add: owner_step_sim)
next
  case (Ws_steal i)
  with step inv show ?thesis
    by (auto simp: ws_label_def thief_ok_def split: if_splits intro!: thief_goto_sim)
next
  case (Ws_thief spurious i)
  with step inv show ?thesis by (simp add: thief_step_sim)
qed

text \<open>The ghost logs record the labels.\<close>

lemma ws_step_pushed:
  "ws_step junk e s = Some s' \<Longrightarrow>
    pushed s' = pushed s @ (case ws_label e s of Dq_push x \<Rightarrow> [x] | _ \<Rightarrow> [])"
proof (cases e)
  case Ws_owner
  then show "ws_step junk e s = Some s' \<Longrightarrow> ?thesis"
    by (cases "opc s") (auto simp: ws_label_def owner_step_def ws_push_read_def ws_push_check_def
        ws_push_put_def ws_push_store_def ws_pop_read_def ws_pop_dec_def ws_pop_top_def Let_def
        ws_pop_cas_def ws_pop_restore_def)
next
  case (Ws_thief spurious i)
  then show "ws_step junk e s = Some s' \<Longrightarrow> ?thesis"
    by (cases "thieves s i") (auto simp: ws_label_def thief_step_def thief_goto_def
        ws_steal_bottom_def ws_steal_cas_def)
qed (auto simp: ws_label_def thief_goto_def split: if_splits)

text \<open>In \<open>pop\<close>, the difference is negative, zero or positive as the indices compare.\<close>

lemma ws_pop_top_taken:
  assumes "ws_inv s" "opc s = O_pop_top b"
  shows "taken (ws_pop_top b s)
    = taken s @ (if 0 < to_signed (b - top_idx s) then [ca_get (cur s) b] else [])"
proof -
  have b: "b = bottom_idx s" using assms by (simp add: ws_inv_def owner_ok_def)
  have "unat b < 2 ^ 63" "unat (top_idx s) < 2 ^ 63"
    using ws_inv_top_bottom[OF assms(1)] b by simp_all
  note cmp = to_signed_diff_cmp[OF this]
  have "b = top_idx s \<longleftrightarrow> unat b = unat (top_idx s)" by (rule word_unat_eq_iff)
  with cmp show ?thesis by (auto simp: ws_pop_top_def Let_def)
qed

lemma ws_step_taken:
  assumes inv: "ws_inv s" and step: "ws_step junk e s = Some s'"
  shows "taken s' = taken s @ (case ws_label e s of Dq_pop x \<Rightarrow> [x] | Dq_steal x \<Rightarrow> [x] | _ \<Rightarrow> [])"
proof (cases e)
  case Ws_owner
  with step ws_pop_top_taken[OF inv] show ?thesis
    by (cases "opc s") (auto simp: ws_label_def owner_step_def ws_push_read_def ws_push_check_def
        ws_push_put_def ws_push_store_def ws_pop_read_def ws_pop_dec_def
        ws_pop_cas_def ws_pop_restore_def)
next
  case (Ws_thief spurious i)
  with step show ?thesis
    by (cases "thieves s i") (auto simp: ws_label_def thief_step_def thief_goto_def
        ws_steal_bottom_def ws_steal_cas_def)
qed (use step in \<open>auto simp: ws_label_def thief_goto_def split: if_splits\<close>)

definition ws_balance :: "'a ws_queue \<Rightarrow> bool" where
  "ws_balance s \<longleftrightarrow> mset (pushed s) = mset (taken s) + mset (ws_contents s)"

lemma deque_step_balance:
  assumes "deque_step l xs = Some ys"
  shows "mset xs + mset (case l of Dq_push x \<Rightarrow> [x] | _ \<Rightarrow> [])
    = mset ys + mset (case l of Dq_pop x \<Rightarrow> [x] | Dq_steal x \<Rightarrow> [x] | _ \<Rightarrow> [])"
proof (cases l)
  case (Dq_pop x)
  with assms have "xs = ys @ [x]" by (auto split: if_splits)
  with Dq_pop show ?thesis by simp
next
  case (Dq_steal x)
  with assms have "xs = x # ys" by (auto split: if_splits)
  with Dq_steal show ?thesis by simp
qed (use assms in auto)

lemma ws_balance_step:
  assumes "ws_inv s" "ws_balance s" "ws_step junk e s = Some s'"
  shows "ws_balance s'"
  using deque_step_balance[of "ws_label e s" "ws_contents s" "ws_contents s'"]
    ws_step_sim[OF assms(1,3)] ws_step_pushed[OF assms(3)] ws_step_taken[OF assms(1,3)] assms(2)
  by (simp add: ws_sim_def ws_balance_def ac_simps)

lemma ws_inv_step: "ws_inv s \<Longrightarrow> ws_step junk e s = Some s' \<Longrightarrow> ws_inv s'"
  using ws_step_sim[of s junk e s'] by (simp add: ws_sim_def)

lemma ws_inv_init: "ws_inv (work_steal_queue junk)"
proof -
  have "length (replicate 32 junk) = 2 ^ 5" by simp
  then have "pow2_length (replicate 32 junk)" unfolding pow2_length_def by (intro exI[of _ 5]) simp
  then show ?thesis
    by (simp add: ws_inv_def work_steal_queue_def arrays_ok_def index_ok_def owner_ok_def
        thief_ok_def ws_end_def cur_def)
qed

lemma ws_balance_init: "ws_balance (work_steal_queue junk)"
  by (simp add: work_steal_queue_def ws_balance_def ws_contents_def ws_end_def)

interpretation ws: safety_system "ws_step junk" "work_steal_queue junk"
  "\<lambda>s. ws_inv s \<and> ws_balance s" for junk
  by unfold_locales (auto simp: ws_inv_init ws_balance_init ws_balance_step ws_inv_step)

section \<open>Quiescence and the destructor\<close>

lemma ws_destroy_loop_cells:
  assumes "pow2_length a" "unat i \<le> unat b"
  shows "ws_destroy_loop a i b = map (cell a) [unat i..<unat b]"
  using assms
proof (induction a i b rule: ws_destroy_loop.induct)
  case (1 a i b)
  show ?case
  proof (cases "i = b")
    case False
    with 1(3) have lt: "unat i < unat b" by (metis order_le_less unsigned_word_eqI)
    then show ?thesis
      using 1 False unat_Suc_word[OF lt]
      by (subst ws_destroy_loop.simps) (simp add: ca_get_cell upt_conv_Cons)
  qed (subst ws_destroy_loop.simps, simp)
qed

lemma ws_destroy_contents:
  assumes inv: "ws_inv s" and "opc s = O_idle"
  shows "ws_destroy s = ws_contents s"
proof -
  have "ws_end s = unat (bottom_idx s)" using assms by (simp add: ws_end_def)
  moreover have "unat (top_idx s) \<le> ws_end s" using inv by (simp add: ws_inv_def index_ok_def)
  moreover have "pow2_length (cur s)" using inv by (simp add: ws_inv_def arrays_ok_cur)
  ultimately show ?thesis by (simp add: ws_destroy_def ws_contents_def ws_destroy_loop_cells)
qed

lemma ws_contents_empty: "ws_end s \<le> unat (top_idx s) \<Longrightarrow> ws_contents s = []"
  by (simp add: ws_contents_def)

text \<open>
  C1. The Chase-Lev deque is linearizable: along every interleaving of the owner's pushes and pops
  with any number of thieves, each event acts on the abstract deque \<open>ws_contents\<close> as nothing, as a
  push at the back, as a pop of the last element, or as a steal of the first, and the element that
  \<open>pop\<close> or \<open>steal\<close> returns is the one removed.  Hence no task is lost or handed out twice: what was
  pushed is what was taken plus what is still in the deque, and when the queue is destroyed between
  operations the destructor drops exactly the rest.
\<close>

theorem work_steal_queue_linearizable:
  assumes "runs (ws_step junk) es (work_steal_queue junk) = Some s" "ws_step junk e s = Some s'"
  shows "deque_step (ws_label e s) (ws_contents s) = Some (ws_contents s')
    \<and> mset (pushed s') = mset (taken s') + mset (ws_contents s')
    \<and> (opc s' = O_idle \<longrightarrow> ws_destroy s' = ws_contents s')"
proof -
  have "ws_inv s" "ws_balance s" using ws.inv_reachable[OF assms(1)] by simp_all
  then have "ws_inv s'" "ws_balance s'" "ws_sim (ws_label e s) s s'"
    using assms(2) ws_inv_step ws_balance_step ws_step_sim by metis+
  then show ?thesis by (simp add: ws_sim_def ws_balance_def ws_destroy_contents)
qed

definition ws_race :: "nat ws_event list" where
  "ws_race = [Ws_push 5, Ws_owner, Ws_owner, Ws_owner, Ws_owner,
     Ws_steal 0, Ws_thief False 0, Ws_pop, Ws_owner, Ws_owner, Ws_owner,
     Ws_thief False 0]"

lemmas ws_step_defs = owner_step_def ws_push_read_def ws_push_check_def ws_push_put_def
  ws_push_store_def ws_pop_read_def ws_pop_dec_def ws_pop_top_def ws_pop_cas_def ws_pop_restore_def
  thief_step_def thief_goto_def ws_steal_bottom_def ws_steal_cas_def Let_def

theorem work_steal_queue_linearizable_witness:
  "\<exists>s. runs (ws_step 0) ws_race (work_steal_queue 0) = Some s
     \<and> deque_step (ws_label Ws_owner s) (ws_contents s) = Some []"
proof -
  obtain s s' where s: "runs (ws_step 0) ws_race (work_steal_queue 0) = Some s"
      "ws_step 0 Ws_owner s = Some s'" "top_idx s' = 1" "bottom_idx s' = 0" "opc s' = O_pop_restore 0 (Some 5)"
    by (simp add: ws_race_def work_steal_queue_def ws_step_defs to_signed_def ca_size_def cur_def
        ca_put_def ca_get_def)
  have "ws_contents s' = []" using s(3-5) by (simp add: ws_contents_def ws_end_def)
  with work_steal_queue_linearizable [OF s(1,2)] s(1) show ?thesis by auto
qed

lemma pop_read_gives_up:
  assumes inv: "ws_inv s" and "opc s = O_pop_read" "opc (ws_pop_read s) = O_idle"
  shows "ws_contents s = []"
proof -
  have "to_signed (bottom_idx s - top_idx s) \<le> 0"
    using assms(3) by (simp add: ws_pop_read_def split: if_splits)
  then have "unat (bottom_idx s) \<le> unat (top_idx s)"
    using ws_inv_top_bottom[OF inv] to_signed_diff_cmp(2) by blast
  with assms(2) show ?thesis by (intro ws_contents_empty) (simp add: ws_end_def)
qed

lemma pop_loses:
  assumes inv: "ws_inv s" and step: "owner_step junk s = Some s'" and pc: "opc s' = O_pop_restore b None"
  shows "ws_contents s = []"
proof -
  have *: "ws_inv s'" "ws_sim (ws_label Ws_owner s) s s'"
    using owner_step_sim[OF inv step] by (auto simp: ws_sim_def)
  then have "ws_contents s' = []"
    using pc by (intro ws_contents_empty) (simp add: ws_inv_def owner_ok_def ws_end_def)
  moreover have "ws_label Ws_owner s = Dq_none"
  proof (cases "opc s")
    case (O_pop_top b')
    have "unat b' < 2 ^ 63" "unat (top_idx s) < 2 ^ 63"
      using inv O_pop_top ws_inv_top_bottom[OF inv] by (auto simp: ws_inv_def owner_ok_def)
    from to_signed_diff_cmp[OF this] show ?thesis
      using step pc O_pop_top
      by (auto simp: owner_step_def ws_pop_top_def ws_label_def Let_def split: if_splits)
  qed (use step pc in \<open>auto simp: owner_step_def ws_push_read_def ws_push_check_def ws_push_put_def
      ws_push_store_def ws_pop_read_def ws_pop_dec_def ws_pop_cas_def ws_pop_restore_def
      ws_label_def split: if_splits\<close>)
  ultimately show ?thesis using * by (simp add: ws_sim_def)
qed

lemma steal_gives_up:
  assumes inv: "ws_inv s" and pc: "thieves s i = T_bottom t"
    and "thieves (ws_steal_bottom i t s) i = T_idle"
  shows "ws_contents s = [] \<or> (length (ws_contents s) = 1
    \<and> (\<exists>b x. opc s = O_pop_top b \<or> opc s = O_pop_cas b x))"
proof -
  have t: "unat t \<le> unat (top_idx s)"
    using ws_inv_thief[OF inv, of i] pc by (simp add: thief_ok_def)
  have "to_signed (bottom_idx s - t) \<le> 0"
    using assms(3) by (simp add: ws_steal_bottom_def thief_goto_def split: if_splits)
  moreover have "unat (bottom_idx s) < 2 ^ 63" "unat t < 2 ^ 63"
    using ws_inv_top_bottom[OF inv] t by simp_all
  ultimately have "unat (bottom_idx s) \<le> unat (top_idx s)"
    using to_signed_diff_cmp(2)[of "bottom_idx s" t] t by simp
  then show ?thesis
    using inv by (cases "opc s") (auto simp: ws_contents_def ws_end_def ws_inv_def owner_ok_def)
qed

text \<open>
  C30. The deque's negative answers: \<open>pop\<close> gives up, early or after losing the race, only when the
  deque is empty at that moment; \<open>steal\<close> gives up only when the deque is empty or its single element
  is the one a \<open>pop\<close> in progress is about to claim; and \<open>steal\<close> starts again after a failure of the
  compare-exchange that is not spurious only if some other thread has moved \<open>top\<close>, so that some
  thread makes progress.
\<close>

theorem work_steal_queue_negative_answers:
  assumes "runs (ws_step junk) es (work_steal_queue junk) = Some s" "ws_step junk e s = Some s'"
  shows "(e = Ws_owner \<and> opc s = O_pop_read \<and> opc s' = O_idle \<longrightarrow> ws_contents s = [])
    \<and> (\<forall>b. e = Ws_owner \<and> opc s' = O_pop_restore b None \<longrightarrow> ws_contents s = [])
    \<and> (\<forall>i t p. e = Ws_thief p i \<and> thieves s i = T_bottom t \<and> thieves s' i = T_idle \<longrightarrow>
         ws_contents s = [] \<or> (length (ws_contents s) = 1
           \<and> (\<exists>b x. opc s = O_pop_top b \<or> opc s = O_pop_cas b x)))
    \<and> (\<forall>i t x. e = Ws_thief False i \<and> thieves s i = T_cas t x \<and> thieves s' i = T_top \<longrightarrow>
         unat t < unat (top_idx s))"
proof -
  have inv: "ws_inv s" using ws.inv_reachable[OF assms(1)] by simp
  have "ws_contents s = []" if "e = Ws_owner" "opc s = O_pop_read" "opc s' = O_idle"
    using that assms(2) pop_read_gives_up[OF inv] by (simp add: owner_step_def)
  moreover have "ws_contents s = []" if "e = Ws_owner" "opc s' = O_pop_restore b None" for b
    using that assms(2) pop_loses[OF inv] by simp
  moreover have "ws_contents s = [] \<or> (length (ws_contents s) = 1
      \<and> (\<exists>b x. opc s = O_pop_top b \<or> opc s = O_pop_cas b x))"
    if "e = Ws_thief p i" "thieves s i = T_bottom t" "thieves s' i = T_idle" for p i t
    using that assms(2) steal_gives_up[OF inv that(2)] by (simp add: thief_step_def)
  moreover have "unat t < unat (top_idx s)"
    if "e = Ws_thief False i" "thieves s i = T_cas t x" "thieves s' i = T_top" for i t x
  proof -
    have "top_idx s \<noteq> t"
      using that assms(2) by (auto simp: thief_step_def ws_steal_cas_def thief_goto_def)
    moreover have "unat t \<le> unat (top_idx s)"
      using ws_inv_thief[OF inv, of i] that(2) by (simp add: thief_ok_def)
    ultimately show ?thesis by (metis order_le_less unsigned_word_eqI)
  qed
  ultimately show ?thesis by blast
qed

definition ws_lost_race :: "nat ws_event list" where
  "ws_lost_race = [Ws_push 5, Ws_owner, Ws_owner, Ws_owner, Ws_owner,
     Ws_steal 0, Ws_thief False 0, Ws_thief False 0, Ws_pop, Ws_owner, Ws_owner, Ws_owner,
     Ws_thief False 0, Ws_thief False 0, Ws_thief False 0]"

theorem work_steal_queue_negative_answers_witness:
  "\<exists>s. runs (ws_step 0) ws_lost_race (work_steal_queue 0) = Some s \<and> ws_contents s = []
     \<and> taken s = [5] \<and> opc s = O_pop_cas 0 5"
proof -
  obtain s s' where s: "runs (ws_step 0) ws_lost_race (work_steal_queue 0) = Some s"
      "ws_step 0 Ws_owner s = Some s'" "opc s' = O_pop_restore 0 None" "taken s = [5]"
      "opc s = O_pop_cas 0 5"
    by (simp add: ws_lost_race_def work_steal_queue_def ws_step_defs to_signed_def ca_size_def cur_def
        ca_put_def ca_get_def)
  with work_steal_queue_negative_answers [OF s(1,2)] show ?thesis by auto
qed

end
