(* ===== verification/Continuation_Vector.thy ===== *)
theory Continuation_Vector
  imports Prelude
begin

text \<open>
  \<open>libs/asyncplusplus/include/async++/continuation_vector.h\<close>: the pointer with two flag bits and the
  thread-safe vector of continuations of a task.

  A task pointer is a machine word; an allocation is a word chosen by the event that allocates,
  which must be aligned, not null and not in use.  Any number of threads run \<open>try_add\<close>, one thread
  runs \<open>flush_and_lock\<close>; every access to \<open>atomic_data\<close>, every lock or unlock of the mutex of a
  \<open>vector_data\<close>, every \<open>push_back\<close> and every call of the flush function is one event.  \<open>accepted\<close> and
  \<open>flushed\<close> are ghost logs: the continuations that an addition has committed to keeping, and those
  passed to the flush function.
\<close>

unbundle bit_operations_syntax

section \<open>compressed_ptr\<close>

type_synonym uintptr = "64 word"

text \<open>The fallback keeps the pointer and the flags apart.\<close>

record wide_ptr =
  wide_ptr :: uintptr
  wide_flags :: uintptr

definition wide_make :: "uintptr \<Rightarrow> uintptr \<Rightarrow> wide_ptr" where
  "wide_make ptr flags = \<lparr>wide_ptr = ptr, wide_flags = flags\<rparr>"

definition wide_set_ptr :: "uintptr \<Rightarrow> wide_ptr \<Rightarrow> wide_ptr" where
  "wide_set_ptr p w = w\<lparr>wide_ptr := p\<rparr>"

definition wide_set_flags :: "uintptr \<Rightarrow> wide_ptr \<Rightarrow> wide_ptr" where
  "wide_set_flags f w = w\<lparr>wide_flags := f\<rparr>"

text \<open>The packed form keeps the flags in the bits of the mask.\<close>

definition cp_make :: "uintptr \<Rightarrow> uintptr \<Rightarrow> uintptr" where
  "cp_make ptr flags = ptr OR flags"

definition cp_get_ptr :: "uintptr \<Rightarrow> uintptr \<Rightarrow> uintptr" where
  "cp_get_ptr m data = data AND NOT m"

definition cp_get_flags :: "uintptr \<Rightarrow> uintptr \<Rightarrow> uintptr" where
  "cp_get_flags m data = data AND m"

definition cp_set_ptr :: "uintptr \<Rightarrow> uintptr \<Rightarrow> uintptr \<Rightarrow> uintptr" where
  "cp_set_ptr m p data = p OR (data AND m)"

definition cp_set_flags :: "uintptr \<Rightarrow> uintptr \<Rightarrow> uintptr \<Rightarrow> uintptr" where
  "cp_set_flags m f data = (data AND NOT m) OR f"

text \<open>What the packed word stands for.\<close>

definition cp_unpack :: "uintptr \<Rightarrow> uintptr \<Rightarrow> wide_ptr" where
  "cp_unpack m data = wide_make (cp_get_ptr m data) (cp_get_flags m data)"

lemmas cp_defs = cp_make_def cp_get_ptr_def cp_get_flags_def cp_set_ptr_def cp_set_flags_def

lemma cp_bits:
  "bit (cp_get_ptr m d) n \<longleftrightarrow> bit d n \<and> \<not> bit m n"
  "bit (cp_get_flags m d) n \<longleftrightarrow> bit d n \<and> bit m n"
  by (auto simp: cp_defs bit_simps dest: bit_imp_le_length)

lemma aligned_bit: "p AND m = 0 \<Longrightarrow> bit m n \<Longrightarrow> \<not> bit (p :: uintptr) n"
  by (metis bit_and_iff bit_0_eq bot_apply bot_bool_def)

lemma flag_bit: "f AND NOT m = 0 \<Longrightarrow> bit f n \<Longrightarrow> bit (m :: uintptr) n"
  by (metis aligned_bit bit_imp_le_length bit_not_iff possible_bit_word)

text \<open>
  C31. \<open>compressed_ptr\<close> with the flags packed into the pointer behaves as the two-word fallback:
  for a mask, a pointer with the bits of the mask clear and flags within the mask, construction,
  \<open>set_ptr\<close> and \<open>set_flags\<close> commute with unpacking, so both variants of the class are interchangeable.
\<close>

theorem compressed_ptr_refines:
  assumes "p AND m = 0" "f AND NOT m = 0"
  shows "cp_unpack m (cp_make p f) = wide_make p f
    \<and> cp_unpack m (cp_set_ptr m p d) = wide_set_ptr p (cp_unpack m d)
    \<and> cp_unpack m (cp_set_flags m f d) = wide_set_flags f (cp_unpack m d)"
  using aligned_bit[OF assms(1)] flag_bit[OF assms(2)]
  by (auto simp: cp_unpack_def wide_make_def wide_set_ptr_def wide_set_flags_def cp_defs bit_simps
      intro!: bit_word_eqI)

theorem compressed_ptr_refines_witness:
  "wide_flags (cp_unpack 3 (cp_make 0x1000 2)) = 2 \<and> wide_ptr (cp_unpack 3 (cp_set_ptr 3 0x1000 7)) = 0x1000"
  using compressed_ptr_refines[of "0x1000" 3 2 7]
  by (simp add: wide_make_def wide_set_ptr_def)

section \<open>continuation_vector\<close>

definition is_locked :: uintptr where "is_locked = 1"
definition is_vector :: uintptr where "is_vector = 2"
definition flags_mask :: uintptr where "flags_mask = 3"

definition cv_ptr :: "uintptr \<Rightarrow> uintptr" where
  "cv_ptr d = cp_get_ptr flags_mask d"

definition cv_locked :: "uintptr \<Rightarrow> bool" where
  "cv_locked d \<longleftrightarrow> cp_get_flags flags_mask d AND is_locked \<noteq> 0"

definition cv_vector :: "uintptr \<Rightarrow> bool" where
  "cv_vector d \<longleftrightarrow> cp_get_flags flags_mask d AND is_vector \<noteq> 0"

definition cv_lock :: "uintptr \<Rightarrow> uintptr" where
  "cv_lock d = cp_set_flags flags_mask (cp_get_flags flags_mask d OR is_locked) d"

definition cv_aligned :: "uintptr \<Rightarrow> bool" where
  "cv_aligned p \<longleftrightarrow> p AND flags_mask = 0 \<and> p \<noteq> 0"

datatype cv_who = Adder tid | Flusher

record vector_data =
  vd_vector :: "uintptr list"
  vd_lock :: "cv_who option"

datatype adder_pc =
    A_idle
  | A_enter uintptr                            \<comment> \<open>\<open>try_add(t)\<close> called\<close>
  | A_loop uintptr uintptr uintptr             \<comment> \<open>\<open>t\<close>, the cached \<open>vector\<close> (or null), \<open>data\<close>\<close>
  | A_cas uintptr uintptr uintptr uintptr      \<comment> \<open>... and \<open>new_data\<close>\<close>
  | A_lock uintptr uintptr                     \<comment> \<open>about to take the mutex of this \<open>vector_data\<close>\<close>
  | A_recheck uintptr uintptr
  | A_push uintptr uintptr
  | A_unlock uintptr bool
  | A_returned bool

datatype flusher_pc =
    F_idle
  | F_load
  | F_cas uintptr
  | F_lock uintptr
  | F_each uintptr "uintptr list"              \<comment> \<open>holding the mutex, elements still to flush\<close>
  | F_unlock uintptr
  | F_inline uintptr
  | F_done

record cont_vector =
  atomic_data :: uintptr
  vecs :: "uintptr \<Rightarrow> vector_data option"
  apc :: "tid \<Rightarrow> adder_pc"
  fpc :: flusher_pc
  accepted :: "uintptr list"
  flushed :: "uintptr list"

definition continuation_vector :: cont_vector where
  "continuation_vector = \<lparr>atomic_data = cp_make 0 0, vecs = (\<lambda>_. None), apc = (\<lambda>_. A_idle),
     fpc = F_idle, accepted = [], flushed = []\<rparr>"

subsection \<open>try_add\<close>

definition a_goto :: "tid \<Rightarrow> adder_pc \<Rightarrow> cont_vector \<Rightarrow> cont_vector" where
  "a_goto i p s = s\<lparr>apc := (apc s)(i := p)\<rparr>"

text \<open>The unique pointer \<open>vector\<close> frees the cached allocation when \<open>try_add\<close> does not install it.\<close>

definition cv_free :: "uintptr \<Rightarrow> cont_vector \<Rightarrow> cont_vector" where
  "cv_free vec s = (if vec = 0 then s else s\<lparr>vecs := (vecs s)(vec := None)\<rparr>)"

definition cv_set_lock :: "uintptr \<Rightarrow> cv_who option \<Rightarrow> cont_vector \<Rightarrow> cont_vector" where
  "cv_set_lock v who s = (case vecs s v of None \<Rightarrow> s
     | Some vd \<Rightarrow> s\<lparr>vecs := (vecs s)(v \<mapsto> vd\<lparr>vd_lock := who\<rparr>)\<rparr>)"

definition cv_try_lock :: "uintptr \<Rightarrow> cv_who \<Rightarrow> cont_vector \<Rightarrow> cont_vector option" where
  "cv_try_lock v who s = (case vecs s v of None \<Rightarrow> None
     | Some vd \<Rightarrow> if vd_lock vd = None then Some (cv_set_lock v (Some who) s) else None)"

text \<open>The body of the loop, up to the compare-exchange or the mutex; \<open>addr\<close> is what \<open>new\<close> returns.\<close>

definition add_loop :: "tid \<Rightarrow> uintptr \<Rightarrow> uintptr \<Rightarrow> uintptr \<Rightarrow> uintptr \<Rightarrow> cont_vector \<Rightarrow> cont_vector option" where
  "add_loop i addr t vec d s =
     (if cv_locked d then Some (a_goto i (A_returned False) (cv_free vec s))
      else if cv_vector d then Some (a_goto i (A_lock t (cv_ptr d)) (cv_free vec s))
      else if cv_ptr d \<noteq> 0 then
        (if vec \<noteq> 0 then Some (a_goto i (A_cas t vec d (cp_make vec is_vector)) s)
         else if cv_aligned addr \<and> vecs s addr = None
         then Some (a_goto i (A_cas t addr d (cp_make addr is_vector))
                (s\<lparr>vecs := (vecs s)(addr \<mapsto> \<lparr>vd_vector = [cv_ptr d, t], vd_lock = None\<rparr>)\<rparr>))
         else None)
      else Some (a_goto i (A_cas t vec d (cp_make t 0)) s))"

text \<open>\<open>compare_exchange_weak\<close> reloads \<open>data\<close> when it fails.\<close>

definition add_cas :: "tid \<Rightarrow> bool \<Rightarrow> uintptr \<Rightarrow> uintptr \<Rightarrow> uintptr \<Rightarrow> uintptr \<Rightarrow> cont_vector \<Rightarrow> cont_vector" where
  "add_cas i spurious t vec d new s =
     (if atomic_data s = d \<and> \<not> spurious
      then a_goto i (A_returned True) (s\<lparr>atomic_data := new, accepted := accepted s @ [t]\<rparr>)
      else a_goto i (A_loop t vec (atomic_data s)) s)"

definition add_push :: "tid \<Rightarrow> uintptr \<Rightarrow> uintptr \<Rightarrow> cont_vector \<Rightarrow> cont_vector option" where
  "add_push i t v s = (case vecs s v of None \<Rightarrow> None
     | Some vd \<Rightarrow> Some (a_goto i (A_unlock v True)
         (s\<lparr>vecs := (vecs s)(v \<mapsto> vd\<lparr>vd_vector := vd_vector vd @ [t]\<rparr>), accepted := accepted s @ [t]\<rparr>)))"

definition add_step :: "tid \<Rightarrow> uintptr \<Rightarrow> bool \<Rightarrow> cont_vector \<Rightarrow> cont_vector option" where
  "add_step i addr spurious s =
     (case apc s i of
        A_idle \<Rightarrow> None
      | A_enter t \<Rightarrow> Some (a_goto i (A_loop t 0 (atomic_data s)) s)
      | A_loop t vec d \<Rightarrow> add_loop i addr t vec d s
      | A_cas t vec d new \<Rightarrow> Some (add_cas i spurious t vec d new s)
      | A_lock t v \<Rightarrow> map_option (a_goto i (A_recheck t v)) (cv_try_lock v (Adder i) s)
      | A_recheck t v \<Rightarrow>
          Some (a_goto i (if cv_locked (atomic_data s) then A_unlock v False else A_push t v) s)
      | A_push t v \<Rightarrow> add_push i t v s
      | A_unlock v r \<Rightarrow> Some (a_goto i (A_returned r) (cv_set_lock v None s))
      | A_returned r \<Rightarrow> None)"

subsection \<open>flush_and_lock\<close>

definition flush_cas :: "bool \<Rightarrow> uintptr \<Rightarrow> cont_vector \<Rightarrow> cont_vector" where
  "flush_cas spurious d s =
     (if atomic_data s = d \<and> \<not> spurious
      then s\<lparr>atomic_data := cv_lock d,
             fpc := (if cv_vector d then F_lock (cv_ptr d) else F_inline (cv_ptr d))\<rparr>
      else s\<lparr>fpc := F_cas (atomic_data s)\<rparr>)"

definition flush_each :: "uintptr \<Rightarrow> uintptr list \<Rightarrow> cont_vector \<Rightarrow> cont_vector option" where
  "flush_each v ts s =
     (case ts of
        t # ts' \<Rightarrow> Some (s\<lparr>fpc := F_each v ts', flushed := flushed s @ [t]\<rparr>)
      | [] \<Rightarrow> (case vecs s v of None \<Rightarrow> None
          | Some vd \<Rightarrow> Some (s\<lparr>vecs := (vecs s)(v \<mapsto> vd\<lparr>vd_vector := []\<rparr>), fpc := F_unlock v\<rparr>)))"

definition flush_step :: "bool \<Rightarrow> cont_vector \<Rightarrow> cont_vector option" where
  "flush_step spurious s =
     (case fpc s of
        F_idle \<Rightarrow> None
      | F_load \<Rightarrow> Some (s\<lparr>fpc := F_cas (atomic_data s)\<rparr>)
      | F_cas d \<Rightarrow> Some (flush_cas spurious d s)
      | F_lock v \<Rightarrow> (case vecs s v of None \<Rightarrow> None
          | Some vd \<Rightarrow> map_option (\<lambda>s. s\<lparr>fpc := F_each v (vd_vector vd)\<rparr>) (cv_try_lock v Flusher s))
      | F_each v ts \<Rightarrow> flush_each v ts s
      | F_unlock v \<Rightarrow> Some ((cv_set_lock v None s)\<lparr>fpc := F_done\<rparr>)
      | F_inline p \<Rightarrow> Some (s\<lparr>fpc := F_done, flushed := flushed s @ (if p \<noteq> 0 then [p] else [])\<rparr>)
      | F_done \<Rightarrow> None)"

datatype cv_event =
    Cv_try_add tid uintptr
  | Cv_adder tid uintptr bool
  | Cv_flush
  | Cv_flusher bool

text \<open>
  A task finishes once, so \<open>flush_and_lock\<close> starts once; tasks are aligned to a cache line.
\<close>

fun cv_step :: "cv_event \<Rightarrow> cont_vector \<Rightarrow> cont_vector option" where
  "cv_step (Cv_try_add i t) s =
     (if cv_aligned t \<and> (case apc s i of A_idle \<Rightarrow> True | A_returned _ \<Rightarrow> True | _ \<Rightarrow> False)
      then Some (a_goto i (A_enter t) s) else None)"
| "cv_step (Cv_adder i addr spurious) s = add_step i addr spurious s"
| "cv_step Cv_flush s = (if fpc s = F_idle then Some (s\<lparr>fpc := F_load\<rparr>) else None)"
| "cv_step (Cv_flusher spurious) s = flush_step spurious s"

text \<open>The destructor drops (cancels) what is left; it runs when no other thread is active.\<close>

definition cv_destroy :: "cont_vector \<Rightarrow> uintptr list" where
  "cv_destroy s =
     (let d = atomic_data s in
      if cv_vector d then (case vecs s (cv_ptr d) of None \<Rightarrow> [] | Some vd \<Rightarrow> vd_vector vd)
      else if \<not> cv_locked d \<and> cv_ptr d \<noteq> 0 then [cv_ptr d] else [])"

section \<open>The packed word\<close>

lemma cv_locked_bit: "cv_locked d \<longleftrightarrow> bit d 0"
proof -
  have "cp_get_flags flags_mask d AND is_locked = d AND 2 ^ 0"
    by (simp add: cp_defs flags_mask_def is_locked_def and.assoc)
  also have "\<dots> \<noteq> 0 \<longleftrightarrow> bit d 0" unfolding and_exp_eq_0_iff_not_bit by simp
  finally show ?thesis by (simp add: cv_locked_def)
qed

lemma cv_vector_bit: "cv_vector d \<longleftrightarrow> bit d 1"
proof -
  have "cp_get_flags flags_mask d AND is_vector = d AND 2 ^ 1"
    by (simp add: cp_defs flags_mask_def is_vector_def and.assoc)
  also have "\<dots> \<noteq> 0 \<longleftrightarrow> bit d 1" unfolding and_exp_eq_0_iff_not_bit by simp
  finally show ?thesis by (simp add: cv_vector_def)
qed

lemma bit_flags_mask: "bit flags_mask n \<longleftrightarrow> n = 0 \<or> n = 1"
proof -
  have "flags_mask = mask 2" by (simp add: flags_mask_def mask_eq_exp_minus_1)
  moreover have "bit (mask 2 :: uintptr) n \<longleftrightarrow> n < 2"
    by (auto simp: bit_mask_iff possible_bit_def)
  ultimately show ?thesis by (metis One_nat_def Suc_1 less_Suc0 less_antisym less_SucI zero_less_one lessI)
qed

lemma cv_ptr_bit: "bit (cv_ptr d) n \<longleftrightarrow> bit d n \<and> n \<noteq> 0 \<and> n \<noteq> 1"
  by (auto simp: cv_ptr_def cp_bits bit_flags_mask)

lemma cv_lock_bit: "bit (cv_lock d) n \<longleftrightarrow> bit d n \<or> n = 0"
proof -
  have "bit is_locked n \<longleftrightarrow> n = 0" by (simp add: is_locked_def bit_1_iff)
  then show ?thesis
    by (auto simp: cv_lock_def cp_defs bit_simps bit_flags_mask dest: bit_imp_le_length)
qed

lemma cv_lock_simps [simp]:
  "cv_locked (cv_lock d)" "cv_vector (cv_lock d) = cv_vector d" "cv_ptr (cv_lock d) = cv_ptr d"
  by (auto simp: cv_locked_bit cv_vector_bit cv_lock_bit cv_ptr_bit intro!: bit_word_eqI)

lemma cv_aligned_bit: "cv_aligned p \<Longrightarrow> bit p n \<Longrightarrow> n \<noteq> 0 \<and> n \<noteq> 1"
  unfolding cv_aligned_def by (metis aligned_bit bit_flags_mask)

lemma cp_make_simps [simp]:
  assumes "cv_aligned p"
  shows "\<not> cv_locked (cp_make p is_vector)" "cv_vector (cp_make p is_vector)"
    "cv_ptr (cp_make p is_vector) = p" "\<not> cv_locked (cp_make p 0)" "\<not> cv_vector (cp_make p 0)"
    "cv_ptr (cp_make p 0) = p"
proof -
  have v: "bit is_vector n \<longleftrightarrow> n = 1" for n
    using bit_exp_iff[of 1 n, where ?'a = uintptr] by (auto simp: is_vector_def dest: bit_imp_le_length)
  show "\<not> cv_locked (cp_make p is_vector)" "cv_vector (cp_make p is_vector)"
    "\<not> cv_locked (cp_make p 0)" "\<not> cv_vector (cp_make p 0)"
    using cv_aligned_bit[OF assms] v by (auto simp: cv_locked_bit cv_vector_bit cp_make_def bit_or_iff)
  show "cv_ptr (cp_make p is_vector) = p" "cv_ptr (cp_make p 0) = p"
    using cv_aligned_bit[OF assms] v
    by (auto simp: cv_ptr_bit cp_make_def bit_or_iff intro!: bit_word_eqI)
qed

lemma cp_make_null [simp]: "\<not> cv_locked (cp_make 0 0)" "\<not> cv_vector (cp_make 0 0)" "cv_ptr (cp_make 0 0) = 0"
  by (simp_all add: cv_locked_bit cv_vector_bit cp_make_def cv_ptr_def cp_get_ptr_def)

lemma cv_aligned_nonzero [simp]: "cv_aligned p \<Longrightarrow> p \<noteq> 0"
  by (simp add: cv_aligned_def)

section \<open>The invariant\<close>

definition lock_of :: "cont_vector \<Rightarrow> uintptr \<Rightarrow> cv_who option" where
  "lock_of s v = (case vecs s v of None \<Rightarrow> None | Some vd \<Rightarrow> vd_lock vd)"

definition elems_of :: "cont_vector \<Rightarrow> uintptr \<Rightarrow> uintptr list" where
  "elems_of s v = (case vecs s v of None \<Rightarrow> [] | Some vd \<Rightarrow> vd_vector vd)"

fun cache_of :: "adder_pc \<Rightarrow> uintptr" where
  "cache_of (A_loop t vec d) = vec"
| "cache_of (A_cas t vec d new) = vec"
| "cache_of _ = 0"

text \<open>A cached allocation is private and holds the inline element and the new one.\<close>

definition cached_ok :: "cont_vector \<Rightarrow> uintptr \<Rightarrow> uintptr \<Rightarrow> bool" where
  "cached_ok s t vec \<longleftrightarrow> vec = 0 \<or> (cv_aligned vec
     \<and> (\<exists>x. x \<noteq> 0 \<and> vecs s vec = Some \<lparr>vd_vector = [x, t], vd_lock = None\<rparr>
         \<and> (\<not> cv_vector (atomic_data s) \<longrightarrow> cv_ptr (atomic_data s) = x))
     \<and> (cv_vector (atomic_data s) \<longrightarrow> vec \<noteq> cv_ptr (atomic_data s)))"

definition at_vector :: "cont_vector \<Rightarrow> uintptr \<Rightarrow> bool" where
  "at_vector s v \<longleftrightarrow> cv_vector (atomic_data s) \<and> cv_ptr (atomic_data s) = v"

text \<open>What a value of \<open>atomic_data\<close> read earlier still says.\<close>

definition snapshot_ok :: "cont_vector \<Rightarrow> uintptr \<Rightarrow> bool" where
  "snapshot_ok s d \<longleftrightarrow> (cv_vector d \<longrightarrow> at_vector s (cv_ptr d))
     \<and> (\<not> cv_vector d \<longrightarrow> cv_ptr d \<noteq> 0 \<longrightarrow> \<not> cv_vector (atomic_data s) \<longrightarrow>
          cv_ptr (atomic_data s) = cv_ptr d)"

definition adder_ok :: "cont_vector \<Rightarrow> tid \<Rightarrow> adder_pc \<Rightarrow> bool" where
  "adder_ok s i p \<longleftrightarrow> (case p of
      A_enter t \<Rightarrow> cv_aligned t
    | A_loop t vec d \<Rightarrow> cv_aligned t \<and> cached_ok s t vec \<and> snapshot_ok s d
    | A_cas t vec d new \<Rightarrow> cv_aligned t \<and> cached_ok s t vec \<and> \<not> cv_locked d \<and> \<not> cv_vector d
        \<and> (if cv_ptr d \<noteq> 0 then vec \<noteq> 0 \<and> new = cp_make vec is_vector else new = cp_make t 0)
    | A_lock t v \<Rightarrow> at_vector s v
    | A_recheck t v \<Rightarrow> at_vector s v \<and> lock_of s v = Some (Adder i)
    | A_push t v \<Rightarrow> at_vector s v \<and> lock_of s v = Some (Adder i)
        \<and> (cv_locked (atomic_data s) \<longrightarrow> fpc s = F_lock v)
    | A_unlock v r \<Rightarrow> at_vector s v \<and> lock_of s v = Some (Adder i)
    | _ \<Rightarrow> True)"

definition flusher_ok :: "cont_vector \<Rightarrow> bool" where
  "flusher_ok s \<longleftrightarrow> (case fpc s of
      F_lock v \<Rightarrow> at_vector s v
    | F_each v ts \<Rightarrow> at_vector s v \<and> lock_of s v = Some Flusher
    | F_unlock v \<Rightarrow> at_vector s v \<and> lock_of s v = Some Flusher \<and> elems_of s v = []
    | F_inline p \<Rightarrow> \<not> cv_vector (atomic_data s) \<and> cv_ptr (atomic_data s) = p
    | F_done \<Rightarrow> cv_vector (atomic_data s) \<longrightarrow> elems_of s (cv_ptr (atomic_data s)) = []
    | _ \<Rightarrow> True)
   \<and> (cv_locked (atomic_data s) \<longleftrightarrow>
        (case fpc s of F_idle \<Rightarrow> False | F_load \<Rightarrow> False | F_cas _ \<Rightarrow> False | _ \<Rightarrow> True))"

definition cv_live :: "cont_vector \<Rightarrow> uintptr list" where
  "cv_live s = (case fpc s of
      F_each v ts \<Rightarrow> ts
    | F_unlock v \<Rightarrow> []
    | F_done \<Rightarrow> []
    | _ \<Rightarrow> (let d = atomic_data s in
        if cv_vector d then elems_of s (cv_ptr d) else if cv_ptr d \<noteq> 0 then [cv_ptr d] else []))"

definition cv_inv :: "cont_vector \<Rightarrow> bool" where
  "cv_inv s \<longleftrightarrow>
     (cv_vector (atomic_data s) \<longrightarrow> vecs s (cv_ptr (atomic_data s)) \<noteq> None)
   \<and> (\<forall>i. adder_ok s i (apc s i))
   \<and> (\<forall>i j. i \<noteq> j \<longrightarrow> cache_of (apc s i) \<noteq> 0 \<longrightarrow> cache_of (apc s i) \<noteq> cache_of (apc s j))
   \<and> flusher_ok s
   \<and> mset (accepted s) = mset (flushed s) + mset (cv_live s)"

section \<open>Every event keeps the invariant\<close>

lemma flusher_ok_frame:
  assumes "flusher_ok s" "atomic_data s' = atomic_data s" "fpc s' = fpc s"
    and "cv_vector (atomic_data s) \<Longrightarrow>
      vecs s' (cv_ptr (atomic_data s)) = vecs s (cv_ptr (atomic_data s))"
  shows "flusher_ok s'"
  using assms
  by (cases "fpc s") (auto simp: flusher_ok_def at_vector_def lock_of_def elems_of_def)

lemma cv_live_frame:
  assumes "atomic_data s' = atomic_data s" "fpc s' = fpc s"
    and "cv_vector (atomic_data s) \<Longrightarrow>
      vecs s' (cv_ptr (atomic_data s)) = vecs s (cv_ptr (atomic_data s))"
  shows "cv_live s' = cv_live s"
  using assms by (cases "fpc s") (auto simp: cv_live_def elems_of_def Let_def)

text \<open>A step of adder \<open>i\<close> that leaves the shared data and the vector in use alone.\<close>

lemma adder_private_step:
  assumes inv: "cv_inv s"
    and same: "atomic_data s' = atomic_data s" "fpc s' = fpc s" "accepted s' = accepted s"
      "flushed s' = flushed s"
    and vec: "cv_vector (atomic_data s) \<Longrightarrow>
      vecs s' (cv_ptr (atomic_data s)) = vecs s (cv_ptr (atomic_data s))"
    and pcs: "apc s' = (apc s)(i := p)"
    and p: "adder_ok s' i p"
    and others: "\<And>j. j \<noteq> i \<Longrightarrow> cache_of (apc s j) \<noteq> 0 \<Longrightarrow>
      vecs s' (cache_of (apc s j)) = vecs s (cache_of (apc s j)) \<and> cache_of p \<noteq> cache_of (apc s j)"
  shows "cv_inv s'"
proof -
  have adder: "adder_ok s j (apc s j)" for j using inv by (simp add: cv_inv_def)
  have lock: "cv_vector (atomic_data s) \<Longrightarrow>
      lock_of s' (cv_ptr (atomic_data s)) = lock_of s (cv_ptr (atomic_data s))"
    using vec by (simp add: lock_of_def)
  have "adder_ok s' j (apc s j)" if "j \<noteq> i" for j
    using adder[of j] same vec others[OF that] lock
    by (cases "apc s j") (auto simp: adder_ok_def at_vector_def cached_ok_def snapshot_ok_def split: if_splits)
  then have "\<forall>j. adder_ok s' j (apc s' j)"
    using p pcs by simp
  moreover have "flusher_ok s'" "cv_live s' = cv_live s"
    using inv same vec flusher_ok_frame[of s s'] cv_live_frame[of s' s] by (auto simp: cv_inv_def)
  moreover have "cache_of (apc s' k) \<noteq> cache_of (apc s' j)"
    if "k \<noteq> j" "cache_of (apc s' k) \<noteq> 0" for k j
  proof (cases "cache_of (apc s' j) = 0")
    case False
    have "\<forall>k j. k \<noteq> j \<longrightarrow> cache_of (apc s k) \<noteq> 0 \<longrightarrow> cache_of (apc s k) \<noteq> cache_of (apc s j)"
      using inv by (simp add: cv_inv_def)
    with that False others show ?thesis
      unfolding pcs by (auto split: if_splits) metis+
  qed (use that in simp)
  ultimately show ?thesis
    using inv same vec by (simp add: cv_inv_def)
qed

lemma adder_ok_goto [simp]: "adder_ok (a_goto i q s) j p = adder_ok s j p"
  by (cases p) (simp_all add: adder_ok_def at_vector_def cached_ok_def snapshot_ok_def lock_of_def a_goto_def)

lemma cv_inv_adder: "cv_inv s \<Longrightarrow> adder_ok s i (apc s i)"
  by (simp add: cv_inv_def)

lemma cv_inv_caches:
  "cv_inv s \<Longrightarrow> j \<noteq> i \<Longrightarrow> cache_of (apc s j) \<noteq> 0 \<Longrightarrow> cache_of (apc s j) \<noteq> cache_of (apc s i)"
  by (simp add: cv_inv_def)

lemma adder_goto:
  assumes "cv_inv s" "adder_ok s i p" "cache_of p = 0 \<or> cache_of p = cache_of (apc s i)"
  shows "cv_inv (a_goto i p s)"
proof (rule adder_private_step[OF assms(1), where i = i and p = p])
  fix j
  assume "j \<noteq> i" "cache_of (apc s j) \<noteq> 0"
  then show "vecs (a_goto i p s) (cache_of (apc s j)) = vecs s (cache_of (apc s j))
      \<and> cache_of p \<noteq> cache_of (apc s j)"
    using assms(3) cv_inv_caches[OF assms(1)] by (auto simp: a_goto_def) metis
qed (use assms(2) in \<open>simp_all add: a_goto_def[of _ _ s] adder_ok_goto[unfolded a_goto_def]\<close>)

lemma cached_ok_not_in_use:
  assumes "adder_ok s i (apc s i)" "cache_of (apc s i) \<noteq> 0" "cv_vector (atomic_data s)"
  shows "cv_ptr (atomic_data s) \<noteq> cache_of (apc s i)"
  using assms by (cases "apc s i") (auto simp: adder_ok_def cached_ok_def split: if_splits)

lemma adder_free_goto:
  assumes inv: "cv_inv s" and p: "cache_of p = 0" "adder_ok s i p"
    "(case p of A_returned _ \<Rightarrow> True | A_lock _ _ \<Rightarrow> True | _ \<Rightarrow> False)"
  shows "cv_inv (a_goto i p (cv_free (cache_of (apc s i)) s))"
proof (cases "cache_of (apc s i) = 0")
  case True
  then show ?thesis using adder_goto[OF inv p(2)] p(1) by (simp add: cv_free_def)
next
  case False
  show ?thesis
  proof (rule adder_private_step[OF inv, where i = i and p = p])
    show "adder_ok (a_goto i p (cv_free (cache_of (apc s i)) s)) i p"
      using p(2,3) False by (cases p) (auto simp: adder_ok_def at_vector_def cv_free_def a_goto_def)
  qed (use False cv_inv_caches[OF inv, where i = i] cached_ok_not_in_use[OF cv_inv_adder[OF inv], of i] p(1)
      in \<open>auto simp: cv_free_def a_goto_def\<close>)
qed

lemma add_loop_inv:
  assumes inv: "cv_inv s" and pc: "apc s i = A_loop t vec d"
    and step: "add_loop i addr t vec d s = Some s'"
  shows "cv_inv s'"
proof -
  have ok: "cv_aligned t" "cached_ok s t vec" "snapshot_ok s d"
    using cv_inv_adder[OF inv, of i] pc by (auto simp: adder_ok_def)
  consider "cv_locked d" | "\<not> cv_locked d" "cv_vector d"
    | "\<not> cv_locked d" "\<not> cv_vector d" "cv_ptr d = 0 \<or> vec \<noteq> 0"
    | "\<not> cv_locked d" "\<not> cv_vector d" "cv_ptr d \<noteq> 0" "vec = 0" by blast
  then show ?thesis
  proof cases
    case 1
    then show ?thesis
      using step adder_free_goto[OF inv, of "A_returned False" i] pc
      by (simp add: add_loop_def adder_ok_def)
  next
    case 2
    have "adder_ok s i (A_lock t (cv_ptr d))"
      using 2 ok by (simp add: adder_ok_def snapshot_ok_def)
    then show ?thesis
      using 2 step adder_free_goto[OF inv, of "A_lock t (cv_ptr d)" i] pc
      by (simp add: add_loop_def)
  next
    case 3
    have "adder_ok s i (A_cas t vec d (if cv_ptr d \<noteq> 0 then cp_make vec is_vector else cp_make t 0))"
      using 3 ok by (auto simp: adder_ok_def)
    then show ?thesis
      using 3 step pc by (auto simp: add_loop_def intro!: adder_goto[OF inv] split: if_splits)
  next
    case 4
    then have addr: "cv_aligned addr" "vecs s addr = None"
      and s': "s' = a_goto i (A_cas t addr d (cp_make addr is_vector))
                (s\<lparr>vecs := (vecs s)(addr \<mapsto> \<lparr>vd_vector = [cv_ptr d, t], vd_lock = None\<rparr>)\<rparr>)"
      using step by (auto simp: add_loop_def split: if_splits)
    have new: "cv_ptr (atomic_data s) \<noteq> addr" if "cv_vector (atomic_data s)"
      using inv addr(2) that by (auto simp: cv_inv_def)
    have old: "vecs s (cache_of (apc s j)) \<noteq> None" if "cache_of (apc s j) \<noteq> 0" for j
      using cv_inv_adder[OF inv, of j] that
      by (cases "apc s j") (auto simp: adder_ok_def cached_ok_def)
    show ?thesis
    proof (rule adder_private_step[OF inv, where i = i and p = "A_cas t addr d (cp_make addr is_vector)"])
      show "adder_ok s' i (A_cas t addr d (cp_make addr is_vector))"
        using ok 4 addr new unfolding s'
        by (auto simp: adder_ok_def cached_ok_def snapshot_ok_def a_goto_def)
    qed (use s' new old addr in \<open>force simp: a_goto_def\<close>)+
  qed
qed

text \<open>The compare-exchange of \<open>try_add\<close>.\<close>

lemma unlocked_flusher:
  assumes "flusher_ok s" "\<not> cv_locked (atomic_data s)"
  shows "(case fpc s of F_idle \<Rightarrow> True | F_load \<Rightarrow> True | F_cas _ \<Rightarrow> True | _ \<Rightarrow> False)"
  using assms by (cases "fpc s") (simp_all add: flusher_ok_def)

lemma add_cas_inv:
  assumes inv: "cv_inv s" and pc: "apc s i = A_cas t vec d new"
  shows "cv_inv (add_cas i spurious t vec d new s)"
proof (cases "atomic_data s = d \<and> \<not> spurious")
  case False
  then show ?thesis
    using cv_inv_adder[OF inv, of i] pc
    by (auto simp: add_cas_def adder_ok_def snapshot_ok_def at_vector_def intro!: adder_goto[OF inv])
next
  case True
  let ?s = "a_goto i (A_returned True) (s\<lparr>atomic_data := new, accepted := accepted s @ [t]\<rparr>)"
  have eq: "add_cas i spurious t vec d new s = ?s" using True by (simp add: add_cas_def)
  have t: "cv_aligned t" and vec: "cached_ok s t vec"
    and d: "\<not> cv_locked (atomic_data s)" "\<not> cv_vector (atomic_data s)"
    and new: "cv_ptr (atomic_data s) \<noteq> 0 \<Longrightarrow> vec \<noteq> 0 \<and> new = cp_make vec is_vector"
      "cv_ptr (atomic_data s) = 0 \<Longrightarrow> new = cp_make t 0"
    using cv_inv_adder[OF inv, of i] pc True by (auto simp: adder_ok_def split: if_splits)
  have fl: "(case fpc s of F_idle \<Rightarrow> True | F_load \<Rightarrow> True | F_cas _ \<Rightarrow> True | _ \<Rightarrow> False)"
    using inv d by (intro unlocked_flusher) (simp_all add: cv_inv_def)
  have vec': "cv_aligned vec" "vecs s vec = Some \<lparr>vd_vector = [cv_ptr (atomic_data s), t], vd_lock = None\<rparr>"
    if "cv_ptr (atomic_data s) \<noteq> 0"
    using that vec new(1) d by (auto simp: cached_ok_def)
  have new': "\<not> cv_locked new" "cv_vector new \<longleftrightarrow> cv_ptr (atomic_data s) \<noteq> 0"
    "cv_ptr new = (if cv_ptr (atomic_data s) \<noteq> 0 then vec else t)"
    using new vec' t by (cases "cv_ptr (atomic_data s) = 0"; simp)+
  have others: "adder_ok ?s j (apc s j)" if "j \<noteq> i" for j
  proof -
    have "cache_of (apc s j) \<noteq> 0 \<Longrightarrow> cache_of (apc s j) \<noteq> vec"
      using cv_inv_caches[OF inv that] pc by simp
    then show ?thesis
      using cv_inv_adder[OF inv, of j] d new' unfolding adder_ok_goto
      by (cases "apc s j") (auto simp: adder_ok_def at_vector_def cached_ok_def snapshot_ok_def)
  qed
  have "adder_ok ?s j (apc ?s j)" for j
    using others[of j] by (cases "j = i") (simp_all add: a_goto_def adder_ok_def)
  moreover have "flusher_ok ?s"
    using fl new' by (cases "fpc s") (simp_all add: flusher_ok_def a_goto_def)
  moreover have "mset (cv_live ?s) = mset (cv_live s) + {#t#}"
    using fl d new' vec' t
    by (cases "fpc s"; cases "cv_ptr (atomic_data s) = 0")
      (simp_all add: cv_live_def a_goto_def elems_of_def Let_def)
  moreover have "cv_vector new \<longrightarrow> vecs s (cv_ptr new) \<noteq> None"
    using new' vec' by simp
  ultimately show ?thesis
    unfolding eq using inv by (auto simp: cv_inv_def a_goto_def)
qed

text \<open>Steps under the mutex of the vector in use.\<close>

lemma vector_step_others:
  assumes inv: "cv_inv s" and v: "at_vector s v" "vecs s v = Some vd"
    and s': "vecs s' = (vecs s)(v \<mapsto> vd')" "atomic_data s' = atomic_data s"
    and lock: "vd_lock vd = Some (Adder j) \<Longrightarrow> vd_lock vd' = Some (Adder j) \<and> fpc s' = fpc s"
  shows "adder_ok s' j (apc s j)"
proof -
  have "cache_of (apc s j) \<noteq> 0 \<Longrightarrow> cache_of (apc s j) \<noteq> v"
    using cached_ok_not_in_use[OF cv_inv_adder[OF inv], of j] v(1) by (auto simp: at_vector_def)
  then show ?thesis
    using cv_inv_adder[OF inv, of j] v s' lock
    by (cases "apc s j")
      (auto simp: adder_ok_def at_vector_def cached_ok_def snapshot_ok_def lock_of_def)
qed

lemma adder_vector_step:
  assumes inv: "cv_inv s" and v: "at_vector s v" "vecs s v = Some vd" "cache_of p = 0"
    and s': "s' = a_goto i p (s\<lparr>vecs := (vecs s)(v \<mapsto> vd'), accepted := acc\<rparr>)"
    and lock: "vd_lock vd = None \<or> vd_lock vd = Some (Adder i)"
    and p: "adder_ok s' i p"
    and same: "vd_vector vd' = vd_vector vd \<and> acc = accepted s
      \<or> (\<exists>t. vd_vector vd' = vd_vector vd @ [t] \<and> acc = accepted s @ [t]
          \<and> (cv_locked (atomic_data s) \<longrightarrow> fpc s = F_lock v))"
  shows "cv_inv s'"
proof -
  have flusher: "flusher_ok s" using inv by (simp add: cv_inv_def)
  have "adder_ok s' j (apc s j)" if "j \<noteq> i" for j
    by (rule vector_step_others[OF inv v(1,2), of s' vd']) (use that lock s' in \<open>auto simp: a_goto_def\<close>)
  then have "adder_ok s' j (apc s' j)" for j
    using p s' by (cases "j = i") (simp_all add: a_goto_def)
  moreover have "flusher_ok s'"
    using flusher same v lock s'
    by (cases "fpc s") (auto simp: flusher_ok_def at_vector_def lock_of_def elems_of_def a_goto_def)
  moreover have "mset acc + mset (cv_live s) = mset (accepted s) + mset (cv_live s')"
    using flusher same v s'
    by (cases "fpc s")
      (auto simp: cv_live_def flusher_ok_def at_vector_def elems_of_def a_goto_def Let_def)
  moreover have "cache_of (apc s' k) \<noteq> cache_of (apc s' j)"
    if "k \<noteq> j" "cache_of (apc s' k) \<noteq> 0" for k j
    using that cv_inv_caches[OF inv] v(3) s' by (auto simp: a_goto_def split: if_splits)
  ultimately show ?thesis
    using inv v s' by (auto simp: cv_inv_def a_goto_def at_vector_def add.commute)
qed

lemma add_step_inv:
  assumes inv: "cv_inv s" and step: "add_step i addr spurious s = Some s'"
  shows "cv_inv s'"
proof (cases "apc s i")
  case (A_enter t)
  then show ?thesis
    using step cv_inv_adder[OF inv, of i]
    by (auto simp: add_step_def adder_ok_def cached_ok_def snapshot_ok_def at_vector_def
        intro!: adder_goto[OF inv])
next
  case (A_loop t vec d)
  then show ?thesis using step add_loop_inv[OF inv] by (simp add: add_step_def)
next
  case (A_cas t vec d new)
  then show ?thesis using step add_cas_inv[OF inv A_cas] by (auto simp: add_step_def)
next
  case (A_lock t v)
  have v: "at_vector s v" using cv_inv_adder[OF inv, of i] A_lock by (simp add: adder_ok_def)
  obtain vd where vd: "vecs s v = Some vd" "vd_lock vd = None"
    and s': "s' = a_goto i (A_recheck t v)
      (s\<lparr>vecs := (vecs s)(v \<mapsto> vd\<lparr>vd_lock := Some (Adder i)\<rparr>), accepted := accepted s\<rparr>)"
    using step A_lock by (auto simp: add_step_def cv_try_lock_def cv_set_lock_def split: option.splits if_splits)
  show ?thesis
    by (rule adder_vector_step[OF inv v vd(1) _ s'])
      (use v vd s' in \<open>auto simp: adder_ok_def at_vector_def lock_of_def a_goto_def\<close>)
next
  case (A_recheck t v)
  then show ?thesis
    using step cv_inv_adder[OF inv, of i]
    by (cases "cv_locked (atomic_data s)")
      (auto simp: add_step_def adder_ok_def intro!: adder_goto[OF inv])
next
  case (A_push t v)
  have ok: "at_vector s v" "lock_of s v = Some (Adder i)"
    "cv_locked (atomic_data s) \<longrightarrow> fpc s = F_lock v"
    using cv_inv_adder[OF inv, of i] A_push by (auto simp: adder_ok_def)
  then obtain vd where vd: "vecs s v = Some vd" "vd_lock vd = Some (Adder i)"
    by (auto simp: lock_of_def split: option.splits)
  with step A_push have s': "s' = a_goto i (A_unlock v True) (s\<lparr>vecs := (vecs s)(v \<mapsto>
      vd\<lparr>vd_vector := vd_vector vd @ [t]\<rparr>), accepted := accepted s @ [t]\<rparr>)"
    by (simp add: add_step_def add_push_def)
  show ?thesis
    by (rule adder_vector_step[OF inv ok(1) vd(1) _ s'])
      (use ok vd s' in \<open>auto simp: adder_ok_def at_vector_def lock_of_def a_goto_def\<close>)
next
  case (A_unlock v r)
  have ok: "at_vector s v" "lock_of s v = Some (Adder i)"
    using cv_inv_adder[OF inv, of i] A_unlock by (auto simp: adder_ok_def)
  then obtain vd where vd: "vecs s v = Some vd" "vd_lock vd = Some (Adder i)"
    by (auto simp: lock_of_def split: option.splits)
  with step A_unlock have s': "s' = a_goto i (A_returned r)
      (s\<lparr>vecs := (vecs s)(v \<mapsto> vd\<lparr>vd_lock := None\<rparr>), accepted := accepted s\<rparr>)"
    by (simp add: add_step_def cv_set_lock_def)
  show ?thesis
    by (rule adder_vector_step[OF inv ok(1) vd(1) _ s'])
      (use ok vd s' in \<open>auto simp: adder_ok_def\<close>)
qed (use step in \<open>simp_all add: add_step_def\<close>)

text \<open>The flusher.\<close>

lemma flush_cas_inv:
  assumes inv: "cv_inv s" and pc: "fpc s = F_cas d"
  shows "cv_inv (flush_cas spurious d s)"
proof (cases "atomic_data s = d \<and> \<not> spurious")
  case False
  then have eq: "flush_cas spurious d s = s\<lparr>fpc := F_cas (atomic_data s)\<rparr>" by (auto simp: flush_cas_def)
  have "adder_ok (s\<lparr>fpc := F_cas (atomic_data s)\<rparr>) j (apc s j)" for j
    using cv_inv_adder[OF inv, of j] pc
    by (cases "apc s j") (auto simp: adder_ok_def at_vector_def cached_ok_def snapshot_ok_def lock_of_def)
  then show ?thesis
    unfolding eq using inv pc by (auto simp: cv_inv_def flusher_ok_def cv_live_def elems_of_def Let_def)
next
  case True
  let ?s = "flush_cas spurious d s"
  have s': "atomic_data ?s = cv_lock (atomic_data s)" "vecs ?s = vecs s" "apc ?s = apc s"
    "accepted ?s = accepted s" "flushed ?s = flushed s"
    "fpc ?s = (if cv_vector (atomic_data s) then F_lock (cv_ptr (atomic_data s))
       else F_inline (cv_ptr (atomic_data s)))"
    using True by (auto simp: flush_cas_def)
  have unlocked: "\<not> cv_locked (atomic_data s)" using inv pc by (simp add: cv_inv_def flusher_ok_def)
  have "adder_ok ?s j (apc ?s j)" for j
    using cv_inv_adder[OF inv, of j] s' unlocked
    by (cases "apc s j") (auto simp: adder_ok_def at_vector_def cached_ok_def snapshot_ok_def lock_of_def)
  moreover have "flusher_ok ?s" using s' by (simp add: flusher_ok_def at_vector_def)
  moreover have "mset (cv_live ?s) = mset (cv_live s)"
    using s' pc by (simp add: cv_live_def elems_of_def Let_def)
  ultimately show ?thesis using inv s' by (simp add: cv_inv_def)
qed

lemma flusher_vector_step:
  assumes inv: "cv_inv s" and v: "at_vector s v" "vecs s v = Some vd"
    and s': "vecs s' = (vecs s)(v \<mapsto> vd')" "atomic_data s' = atomic_data s" "apc s' = apc s"
      "accepted s' = accepted s"
    and lock: "vd_lock vd = None \<or> vd_lock vd = Some Flusher"
    and flusher: "flusher_ok s'"
    and live: "mset (flushed s') + mset (cv_live s') = mset (flushed s) + mset (cv_live s)"
  shows "cv_inv s'"
proof -
  have "adder_ok s' j (apc s j)" for j
    by (rule vector_step_others[OF inv v s'(1,2)]) (use lock in auto)
  then show ?thesis
    using inv v s' flusher live by (auto simp: cv_inv_def at_vector_def)
qed

lemma flush_step_inv:
  assumes inv: "cv_inv s" and step: "flush_step spurious s = Some s'"
  shows "cv_inv s'"
proof -
  have ok: "flusher_ok s" using inv by (simp add: cv_inv_def)
  have locked: "vd_lock vd = Some Flusher" if "lock_of s v = Some Flusher" "vecs s v = Some vd" for v vd
    using that by (simp add: lock_of_def)
  show ?thesis
  proof (cases "fpc s")
    case F_load
    have "adder_ok (s\<lparr>fpc := F_cas (atomic_data s)\<rparr>) j (apc s j)" for j
      using cv_inv_adder[OF inv, of j] F_load
      by (cases "apc s j") (auto simp: adder_ok_def at_vector_def cached_ok_def snapshot_ok_def lock_of_def)
    then show ?thesis
      using step F_load inv
      by (auto simp: flush_step_def cv_inv_def flusher_ok_def cv_live_def elems_of_def Let_def)
  next
    case (F_cas d)
    then show ?thesis using step flush_cas_inv[OF inv F_cas] by (auto simp: flush_step_def)
  next
    case (F_lock v)
    have v: "at_vector s v" using ok F_lock by (simp add: flusher_ok_def)
    obtain vd where vd: "vecs s v = Some vd" "vd_lock vd = None"
      and s': "s' = s\<lparr>vecs := (vecs s)(v \<mapsto> vd\<lparr>vd_lock := Some Flusher\<rparr>), fpc := F_each v (vd_vector vd)\<rparr>"
      using step F_lock
      by (auto simp: flush_step_def cv_try_lock_def cv_set_lock_def split: option.splits if_splits)
    show ?thesis
      by (rule flusher_vector_step[OF inv v vd(1), of s' "vd\<lparr>vd_lock := Some Flusher\<rparr>"])
        (use ok v vd s' F_lock in \<open>auto simp: flusher_ok_def at_vector_def lock_of_def cv_live_def elems_of_def Let_def\<close>)
  next
    case (F_each v ts)
    have v: "at_vector s v" "lock_of s v = Some Flusher" using ok F_each by (simp_all add: flusher_ok_def)
    then obtain vd where vd: "vecs s v = Some vd" "vd_lock vd = Some Flusher"
      by (auto simp: lock_of_def split: option.splits)
    show ?thesis
    proof (cases ts)
      case Nil
      then have s': "s' = s\<lparr>vecs := (vecs s)(v \<mapsto> vd\<lparr>vd_vector := []\<rparr>), fpc := F_unlock v\<rparr>"
        using step F_each vd by (simp add: flush_step_def flush_each_def)
      show ?thesis
        by (rule flusher_vector_step[OF inv v(1) vd(1), of s' "vd\<lparr>vd_vector := []\<rparr>"])
          (use ok v vd s' F_each Nil in
            \<open>auto simp: flusher_ok_def at_vector_def lock_of_def cv_live_def elems_of_def Let_def\<close>)
    next
      case (Cons t ts')
      then have s': "s' = s\<lparr>fpc := F_each v ts', flushed := flushed s @ [t]\<rparr>"
        using step F_each by (simp add: flush_step_def flush_each_def)
      show ?thesis
        by (rule flusher_vector_step[OF inv v(1) vd(1), of s' vd])
          (use ok v vd s' F_each Cons in
            \<open>auto simp: flusher_ok_def at_vector_def lock_of_def cv_live_def\<close>)
    qed
  next
    case (F_unlock v)
    have v: "at_vector s v" "lock_of s v = Some Flusher" "elems_of s v = []"
      using ok F_unlock by (simp_all add: flusher_ok_def)
    then obtain vd where vd: "vecs s v = Some vd" "vd_lock vd = Some Flusher"
      by (auto simp: lock_of_def split: option.splits)
    have s': "s' = s\<lparr>vecs := (vecs s)(v \<mapsto> vd\<lparr>vd_lock := None\<rparr>), fpc := F_done\<rparr>"
      using step F_unlock vd by (simp add: flush_step_def cv_set_lock_def)
    show ?thesis
      by (rule flusher_vector_step[OF inv v(1) vd(1), of s' "vd\<lparr>vd_lock := None\<rparr>"])
        (use ok v vd s' F_unlock in
          \<open>auto simp: flusher_ok_def at_vector_def lock_of_def cv_live_def elems_of_def Let_def\<close>)
  next
    case (F_inline p)
    have s': "s' = s\<lparr>fpc := F_done, flushed := flushed s @ (if p \<noteq> 0 then [p] else [])\<rparr>"
      using step F_inline by (simp add: flush_step_def)
    have p: "\<not> cv_vector (atomic_data s)" "cv_ptr (atomic_data s) = p"
      using ok F_inline by (simp_all add: flusher_ok_def)
    have "adder_ok s' j (apc s' j)" for j
      using cv_inv_adder[OF inv, of j] F_inline p s'
      by (cases "apc s j") (auto simp: adder_ok_def at_vector_def cached_ok_def snapshot_ok_def lock_of_def)
    then show ?thesis
      using inv ok p F_inline s' by (auto simp: cv_inv_def flusher_ok_def cv_live_def)
  qed (use step in \<open>simp_all add: flush_step_def\<close>)
qed

lemma cv_step_inv:
  assumes inv: "cv_inv s" and step: "cv_step e s = Some s'"
  shows "cv_inv s'"
proof (cases e)
  case (Cv_try_add i t)
  then show ?thesis
    using step by (auto simp: adder_ok_def intro!: adder_goto[OF inv] split: if_splits)
next
  case Cv_flush
  with step have s': "s' = s\<lparr>fpc := F_load\<rparr>" and pc: "fpc s = F_idle" by (auto split: if_splits)
  have "adder_ok s' j (apc s' j)" for j
    using cv_inv_adder[OF inv, of j] pc unfolding s'
    by (cases "apc s j") (auto simp: adder_ok_def at_vector_def cached_ok_def snapshot_ok_def lock_of_def)
  then show ?thesis
    using inv pc s' by (auto simp: cv_inv_def flusher_ok_def cv_live_def elems_of_def Let_def)
qed (use step add_step_inv[OF inv] flush_step_inv[OF inv] in auto)

interpretation cv: safety_system cv_step continuation_vector cv_inv
proof
  show "cv_inv continuation_vector"
    by (simp add: cv_inv_def continuation_vector_def adder_ok_def flusher_ok_def cv_live_def Let_def)
qed (rule cv_step_inv)

section \<open>Quiescence\<close>

definition cv_quiet :: "cont_vector \<Rightarrow> bool" where
  "cv_quiet s \<longleftrightarrow> (\<forall>i. case apc s i of A_idle \<Rightarrow> True | A_returned _ \<Rightarrow> True | _ \<Rightarrow> False)
     \<and> (fpc s = F_idle \<or> fpc s = F_done)"

lemma cv_destroy_live: "cv_inv s \<Longrightarrow> cv_quiet s \<Longrightarrow> cv_destroy s = cv_live s"
  by (auto simp: cv_inv_def cv_quiet_def flusher_ok_def cv_destroy_def cv_live_def elems_of_def Let_def)

text \<open>After the flush, an addition that commits would have to hold the mutex or see an unlocked word.\<close>

lemma cv_done_no_accept:
  assumes inv: "cv_inv s" and fin: "fpc s = F_done" and step: "cv_step e s = Some s'"
  shows "accepted s' = accepted s \<and> flushed s' = flushed s \<and> fpc s' = F_done"
proof (cases e)
  case (Cv_adder i addr spurious)
  have locked: "cv_locked (atomic_data s)" using inv fin by (simp add: cv_inv_def flusher_ok_def)
  have ok: "adder_ok s i (apc s i)" using inv by (rule cv_inv_adder)
  show ?thesis
    using step Cv_adder ok locked fin
    by (cases "apc s i") (auto simp: add_step_def a_goto_def add_loop_def cv_free_def add_cas_def
        cv_try_lock_def cv_set_lock_def adder_ok_def split: if_splits option.splits)
qed (use step fin in \<open>auto simp: a_goto_def flush_step_def split: if_splits\<close>)

text \<open>
  C2. No continuation is lost or run twice: along every interleaving of \<open>try_add\<close> calls and
  \<open>flush_and_lock\<close>, the continuations accepted so far are those passed to the flush function plus
  those still held, each once.  After \<open>flush_and_lock\<close> has finished nothing is held any more, and no
  \<open>try_add\<close> is accepted from then on.  When no operation is running, the destructor drops exactly
  what is still held.
\<close>

theorem continuation_vector_conserves:
  assumes "runs cv_step es continuation_vector = Some s"
  shows "mset (accepted s) = mset (flushed s) + mset (cv_live s)
    \<and> (fpc s = F_done \<longrightarrow> mset (accepted s) = mset (flushed s))
    \<and> (fpc s = F_done \<longrightarrow> cv_step e s = Some s' \<longrightarrow> accepted s' = accepted s \<and> fpc s' = F_done)
    \<and> (cv_quiet s \<longrightarrow> cv_destroy s = cv_live s)"
proof -
  have inv: "cv_inv s" by (rule cv.inv_reachable[OF assms])
  then have "mset (accepted s) = mset (flushed s) + mset (cv_live s)" by (simp add: cv_inv_def)
  moreover have "fpc s = F_done \<Longrightarrow> cv_live s = []" by (simp add: cv_live_def)
  ultimately show ?thesis
    using cv_done_no_accept[OF inv] cv_destroy_live[OF inv] by auto
qed

text \<open>
  Two additions race for the second element, the loser goes through the mutex while the flusher
  locks the word, and a late addition is refused.
\<close>

definition cv_example :: "cv_event list" where
  "cv_example = [Cv_try_add 0 0x40, Cv_adder 0 0 False, Cv_adder 0 0 False, Cv_adder 0 0 False,
     Cv_try_add 1 0x80, Cv_try_add 2 0xC0, Cv_adder 1 0 False, Cv_adder 2 0 False,
     Cv_adder 1 0x100 False, Cv_adder 2 0x200 False, Cv_adder 1 0 False, Cv_adder 2 0 False,
     Cv_adder 2 0 False, Cv_adder 2 0 False, Cv_adder 2 0 False,
     Cv_flush, Cv_flusher False, Cv_flusher True, Cv_flusher False,
     Cv_adder 2 0 False, Cv_adder 2 0 False, Cv_flusher False, Cv_flusher False, Cv_flusher False,
     Cv_flusher False, Cv_flusher False, Cv_flusher False,
     Cv_try_add 3 0x140, Cv_adder 3 0 False, Cv_adder 3 0 False]"

theorem continuation_vector_conserves_witness:
  "\<exists>s. runs cv_step cv_example continuation_vector = Some s \<and> flushed s = [0x40, 0x80, 0xC0]
     \<and> apc s 3 = A_returned False \<and> mset (accepted s) = {#0x40, 0x80, 0xC0#}"
proof -
  have "map_option (\<lambda>s. (flushed s, apc s 3, fpc s)) (runs cv_step cv_example continuation_vector)
      = Some ([0x40, 0x80, 0xC0], A_returned False, F_done)"
    by code_simp
  then obtain s where s: "runs cv_step cv_example continuation_vector = Some s"
      "flushed s = [0x40, 0x80, 0xC0]" "apc s 3 = A_returned False" "fpc s = F_done"
    by auto
  with continuation_vector_conserves [OF s(1), of Cv_flush s] show ?thesis by auto
qed

end
