(* ===== verification/Task_Core.thy ===== *)
theory Task_Core
  imports Prelude
begin

text \<open>
  \<open>libs/asyncplusplus/include/async++/task_base.h\<close>, \<open>task.h\<close> and \<open>scheduler.h\<close>: task objects, their
  states, continuations, unwrapping, events, waiting.

  The machine.  A task object is a cell of \<open>heap\<close> and its address is the index.  Each thread has a
  stack of frames: what the library has still to do, innermost first.  A frame runs up to the next
  access to shared state (\<open>task_base::state\<close>, a continuation vector, a scheduler's queue), so
  the frames of different threads interleave at these accesses.  User code is the environment: a
  frame \<open>Fr_user t a\<close> is a call of the function of task \<open>t\<close> with argument \<open>a\<close>; while it is on top,
  the thread may perform any client operation, and it ends with any result, exception or task, as
  the event says.  A scheduler is the multiset \<open>queue\<close> of the run handles it holds, which it may run
  on any thread, or destroy; the inline scheduler runs at once.  \<open>continuation_vector\<close> is used through
  what is proved of it: an addition is refused exactly when the vector is locked, the flush
  locks it and delivers every element once.

  Types of results are erased to \<open>'v value\<close> (\<open>Fake_void\<close> for \<open>void\<close>).  Memory is not reclaimed in the
  model: reference counts are in \<open>Ref_Count\<close>, and the one place where they matter for behaviour, the
  destructor of an event, counts the references that exist (\<open>is_unique_ref\<close>).

  \<open>wait\<close> calls the wait handler of its thread: the generic one, or a custom one, which is part of the environment (the one of the
  thread pool is modelled in \<open>Threadpool\<close>): it may add functions with \<open>on_finish\<close>, run tasks, act as a client, and return at any time.
  \<open>ndebug\<close> says whether the library was compiled with \<open>NDEBUG\<close>, without its assertions.
\<close>

section \<open>Task objects\<close>

datatype task_state = Pending | Locked | Unwrapped | Completed | Canceled

fun is_finished :: "task_state \<Rightarrow> bool" where
  "is_finished Completed = True"
| "is_finished Canceled = True"
| "is_finished _ = False"

datatype 'v "value" = Fake_void | Val 'v

datatype 'v exn =
    Task_not_executed | Abandoned_event_task | Invalid_argument | Scheduler_exn | User_exn 'v

datatype sched = Inline | Pool nat

text \<open>The union in \<open>task_result_holder\<close>: result, exception or scheduler.\<close>

datatype 'v result_union = Slot_none | Slot_result "'v value" | Slot_except "'v exn" | Slot_sched sched

datatype cont_kind = By_task | By_value | By_void

text \<open>
  Function objects: \<open>root_exec_func\<close> (with or without unwrapping), \<open>continuation_exec_func\<close> with its
  parent, \<open>unwrapped_func\<close> as a continuation of the child \<open>c\<close> for the parent \<open>p\<close>, and the \<open>wait_exec_func\<close>
  that \<open>on_finish\<close> adds to a task.  \<open>Unwrap_called\<close> is an \<open>unwrapped_func\<close> after its call.
\<close>

datatype exec =
    Root_exec bool
  | Cont_exec nat cont_kind bool
  | Unwrap_exec nat nat
  | Unwrap_called nat nat
  | Wait_exec nat

record 'v task_obj =
  state :: task_state
  got_task :: bool
  conts :: "nat list"
  conts_locked :: bool
  slot :: "'v result_union"
  func :: "exec option"

datatype 'v arg = Arg_none | Arg_value "'v value" | Arg_task nat

datatype wait_handler = Generic_handler | Custom_handler

datatype 'v frame =
    Fr_run nat
  | Fr_user nat "'v arg"
  | Fr_return nat "'v value"
  | Fr_finish nat
  | Fr_cancel nat "'v exn"
  | Fr_cancel_base nat "'v exn"
  | Fr_run_continuations nat
  | Fr_schedule nat
  | Fr_run_continuation nat sched
  | Fr_add_continuation nat nat sched
  | Fr_try_add nat nat sched
  | Fr_wait nat
  | Fr_waiting nat nat
  | Fr_handler nat              \<comment> \<open>in a custom wait handler\<close>
  | Fr_restore wait_handler     \<comment> \<open>\<open>run_with_wait_handler\<close>, after \<open>run\<close>\<close>
  | Fr_catch "nat option"       \<comment> \<open>the \<open>catch\<close> block of \<open>run_continuation\<close>, with its \<open>cont\<close>\<close>
  | Fr_crash nat                \<comment> \<open>\<open>then\<close> of an empty task without assertions, unwrapping\<close>

record 'v sys =
  heap :: "'v task_obj list"
  queue :: "nat list"
  stacks :: "'v frame list list"
  events :: "nat list"        \<comment> \<open>live \<open>event_task\<close> objects, by their internal task\<close>
  handles :: "nat list"       \<comment> \<open>\<open>task\<close> and \<open>shared_task\<close> objects held by client code\<close>
  signalled :: "nat list"     \<comment> \<open>\<open>on_finish\<close> functions that have run\<close>
  freed :: "nat list"         \<comment> \<open>internal tasks deleted with their event\<close>
  null_deref :: bool
  wait_handlers :: "wait_handler list"
  ndebug :: bool

definition task_system :: "bool \<Rightarrow> nat \<Rightarrow> 'v sys" where
  "task_system ndbg threads = \<lparr>heap = [], queue = [], stacks = replicate threads [], events = [],
     handles = [], signalled = [], freed = [], null_deref = False,
     wait_handlers = replicate threads Generic_handler, ndebug = ndbg\<rparr>"

abbreviation obj :: "'v sys \<Rightarrow> nat \<Rightarrow> 'v task_obj" where
  "obj s t \<equiv> heap s ! t"

definition upd :: "nat \<Rightarrow> ('v task_obj \<Rightarrow> 'v task_obj) \<Rightarrow> 'v sys \<Rightarrow> 'v sys" where
  "upd t g s = s\<lparr>heap := (heap s)[t := g (obj s t)]\<rparr>"

definition push :: "nat \<Rightarrow> 'v frame list \<Rightarrow> 'v sys \<Rightarrow> 'v sys" where
  "push i fs s = s\<lparr>stacks := (stacks s)[i := fs @ stacks s ! i]\<rparr>"

definition pop_frame :: "nat \<Rightarrow> 'v sys \<Rightarrow> 'v sys" where
  "pop_frame i s = s\<lparr>stacks := (stacks s)[i := tl (stacks s ! i)]\<rparr>"

text \<open>A fresh task object: pending, no continuation.\<close>

definition new_task :: "'v result_union \<Rightarrow> exec option \<Rightarrow> 'v task_obj" where
  "new_task sl f = \<lparr>state = Pending, got_task = False, conts = [], conts_locked = False,
     slot = sl, func = f\<rparr>"

definition alloc :: "'v task_obj \<Rightarrow> 'v sys \<Rightarrow> 'v sys" where
  "alloc ob s = s\<lparr>heap := heap s @ [ob]\<rparr>"

section \<open>task_result, task_func and task_base\<close>

definition set_result :: "nat \<Rightarrow> 'v value \<Rightarrow> 'v sys \<Rightarrow> 'v sys" where
  "set_result t v = upd t (\<lambda>ob. ob\<lparr>slot := Slot_result v\<rparr>)"

definition set_exception :: "nat \<Rightarrow> 'v exn \<Rightarrow> 'v sys \<Rightarrow> 'v sys" where
  "set_exception t e = upd t (\<lambda>ob. ob\<lparr>slot := Slot_except e\<rparr>)"

definition set_state :: "nat \<Rightarrow> task_state \<Rightarrow> 'v sys \<Rightarrow> 'v sys" where
  "set_state t st = upd t (\<lambda>ob. ob\<lparr>state := st\<rparr>)"

definition destroy_func :: "nat \<Rightarrow> 'v sys \<Rightarrow> 'v sys" where
  "destroy_func t = upd t (\<lambda>ob. ob\<lparr>func := None\<rparr>)"

text \<open>Reading the union as a result or an exception; the other alternatives are undefined behaviour.\<close>

definition get_result :: "nat \<Rightarrow> 'v sys \<Rightarrow> 'v value option" where
  "get_result t s = (case slot (obj s t) of Slot_result v \<Rightarrow> Some v | _ \<Rightarrow> None)"

definition get_exception :: "nat \<Rightarrow> 'v sys \<Rightarrow> 'v exn option" where
  "get_exception t s = (case slot (obj s t) of Slot_except e \<Rightarrow> Some e | _ \<Rightarrow> None)"

text \<open>\<open>finish\<close> and \<open>cancel_base\<close>: store the state, then \<open>run_continuations\<close>.\<close>

definition finish :: "nat \<Rightarrow> nat \<Rightarrow> 'v sys \<Rightarrow> 'v sys" where
  "finish i t s = push i [Fr_run_continuations t] (set_state t Completed s)"

definition cancel_base :: "nat \<Rightarrow> nat \<Rightarrow> 'v exn \<Rightarrow> 'v sys \<Rightarrow> 'v sys" where
  "cancel_base i t e s = push i [Fr_run_continuations t] (set_state t Canceled (set_exception t e s))"

text \<open>\<open>task_func::cancel\<close> destroys the function object first.\<close>

definition cancel_task :: "nat \<Rightarrow> nat \<Rightarrow> 'v exn \<Rightarrow> 'v sys \<Rightarrow> 'v sys" where
  "cancel_task i t e s = push i [Fr_cancel_base t e] (destroy_func t s)"

definition run_continuations :: "nat \<Rightarrow> nat \<Rightarrow> 'v sys \<Rightarrow> 'v sys" where
  "run_continuations i t s =
     push i (map Fr_schedule (conts (obj s t))) (upd t (\<lambda>ob. ob\<lparr>conts := [], conts_locked := True\<rparr>) s)"

text \<open>\<open>task_func::schedule\<close> recovers the scheduler from the union.\<close>

definition schedule_cont :: "nat \<Rightarrow> nat \<Rightarrow> 'v sys \<Rightarrow> 'v sys option" where
  "schedule_cont i c s = (case slot (obj s c) of
     Slot_sched sd \<Rightarrow> Some (push i [Fr_run_continuation c sd] s) | _ \<Rightarrow> None)"

text \<open>
  \<open>schedule_task\<close>: the scheduler takes the run handle (the inline one runs it) or throws.  When it
  throws, the destructor of the handle cancels the task with \<open>task_not_executed\<close>.
\<close>

definition schedule_task :: "nat \<Rightarrow> nat \<Rightarrow> sched \<Rightarrow> bool \<Rightarrow> 'v sys \<Rightarrow> bool \<times> 'v sys" where
  "schedule_task i c sd accept s =
     (case sd of
        Inline \<Rightarrow> (True, push i [Fr_run c] s)
      | Pool n \<Rightarrow> if accept then (True, s\<lparr>queue := queue s @ [c]\<rparr>)
          else (False, push i [Fr_cancel c Task_not_executed] s))"

text \<open>
  \<open>run_continuation\<close>: the argument of \<open>schedule_task\<close> is moved out of \<open>cont\<close>, which is null afterwards.  When the scheduler throws, the
  destructor of the run handle comes first, then the \<open>catch\<close> block, whose frame is therefore below, dereferences \<open>cont\<close>.
\<close>

definition moved_from :: "'a option \<Rightarrow> 'a option" where
  "moved_from p = None"

definition run_continuation :: "nat \<Rightarrow> nat \<Rightarrow> sched \<Rightarrow> bool \<Rightarrow> 'v sys \<Rightarrow> 'v sys" where
  "run_continuation i c sd accept s =
     (case schedule_task i c sd accept s of
        (True, s') \<Rightarrow> s'
      | (False, _) \<Rightarrow> snd (schedule_task i c sd accept (push i [Fr_catch (moved_from (Some c))] s)))"

definition catch_block :: "nat \<Rightarrow> nat option \<Rightarrow> 'v sys \<Rightarrow> 'v sys" where
  "catch_block i cont s =
     (case cont of None \<Rightarrow> s\<lparr>null_deref := True\<rparr> | Some c \<Rightarrow> push i [Fr_cancel c Scheduler_exn] s)"

definition add_continuation :: "nat \<Rightarrow> nat \<Rightarrow> nat \<Rightarrow> sched \<Rightarrow> 'v sys \<Rightarrow> 'v sys" where
  "add_continuation i t c sd s =
     push i [if is_finished (state (obj s t)) then Fr_run_continuation c sd else Fr_try_add t c sd] s"

definition try_add :: "nat \<Rightarrow> nat \<Rightarrow> nat \<Rightarrow> sched \<Rightarrow> 'v sys \<Rightarrow> 'v sys" where
  "try_add i t c sd s =
     (if conts_locked (obj s t) then push i [Fr_run_continuation c sd] s
      else upd t (\<lambda>ob. ob\<lparr>conts := conts ob @ [c]\<rparr>) s)"

text \<open>
  \<open>task_func::run\<close> dispatches to the execution function.  A continuation by value of a canceled
  parent is canceled with the parent's exception; a value is passed only from a completed parent.
\<close>

definition continuation_exec :: "nat \<Rightarrow> nat \<Rightarrow> nat \<Rightarrow> cont_kind \<Rightarrow> 'v sys \<Rightarrow> 'v sys option" where
  "continuation_exec i t p k s =
     (case k of
        By_task \<Rightarrow> Some (push i [Fr_user t (Arg_task p)] (s\<lparr>handles := p # handles s\<rparr>))
      | _ \<Rightarrow>
        if state (obj s p) = Canceled
        then map_option (\<lambda>e. push i [Fr_cancel t e] s) (get_exception p s)
        else if k = By_void then Some (push i [Fr_user t (Arg_value Fake_void)] s)
        else map_option (\<lambda>v. push i [Fr_user t (Arg_value v)] s) (get_result p s))"

definition unwrapped_func :: "nat \<Rightarrow> nat \<Rightarrow> nat \<Rightarrow> nat \<Rightarrow> 'v sys \<Rightarrow> 'v sys option" where
  "unwrapped_func i t c p s =
     (let s' = upd t (\<lambda>ob. ob\<lparr>func := Some (Unwrap_called c p)\<rparr>) s in
      if state (obj s c) = Completed
      then map_option (\<lambda>v. push i [Fr_finish p, Fr_return t Fake_void] (set_result p v s')) (get_result c s)
      else map_option (\<lambda>e. push i [Fr_cancel_base p e, Fr_return t Fake_void] s') (get_exception c s))"

definition run_task :: "nat \<Rightarrow> nat \<Rightarrow> 'v sys \<Rightarrow> 'v sys option" where
  "run_task i t s =
     (case func (obj s t) of
        None \<Rightarrow> None
      | Some (Root_exec u) \<Rightarrow> Some (push i [Fr_user t Arg_none] s)
      | Some (Cont_exec p k u) \<Rightarrow> continuation_exec i t p k s
      | Some (Unwrap_exec c p) \<Rightarrow> unwrapped_func i t c p s
      | Some (Unwrap_called c p) \<Rightarrow> None
      | Some (Wait_exec w) \<Rightarrow> Some (s\<lparr>signalled := t # signalled s\<rparr>))"

text \<open>Without unwrapping: \<open>set_result(...)\<close>, \<open>destroy_func()\<close>, \<open>finish()\<close>.\<close>

definition exec_return :: "nat \<Rightarrow> nat \<Rightarrow> 'v value \<Rightarrow> 'v sys \<Rightarrow> 'v sys" where
  "exec_return i t v s = push i [Fr_finish t] (destroy_func t (set_result t v s))"

text \<open>
  \<open>unwrapped_finish\<close>: the function returned a task, which may be empty; then the assertion in \<open>then()\<close> throws, or, without
  assertions, a null pointer is dereferenced.
\<close>

definition unwrapped_finish :: "nat \<Rightarrow> nat \<Rightarrow> nat option \<Rightarrow> 'v sys \<Rightarrow> 'v sys" where
  "unwrapped_finish i t child s =
     (let s' = destroy_func t (set_state t Unwrapped s) in
      case child of
        None \<Rightarrow>
          if ndebug s then push i [Fr_crash t] (s'\<lparr>null_deref := True\<rparr>)
          else push i [Fr_cancel_base t Invalid_argument] s'
      | Some c \<Rightarrow> push i [Fr_add_continuation c (length (heap s)) Inline]
          (alloc (new_task (Slot_sched Inline) (Some (Unwrap_exec c t))) s'))"

section \<open>Waiting\<close>

text \<open>
  \<open>task_base::wait\<close> calls the thread's wait handler.  With \<open>generic_wait_handler\<close> a continuation on the inline scheduler signals the
  thread's event (\<open>Wait_Event\<close>).
\<close>

definition on_finish :: "nat \<Rightarrow> nat \<Rightarrow> 'v sys \<Rightarrow> 'v sys" where
  "on_finish i t s =
     push i [Fr_add_continuation t (length (heap s)) Inline]
       (alloc (new_task (Slot_sched Inline) (Some (Wait_exec t))) s)"

definition generic_wait_handler :: "nat \<Rightarrow> nat \<Rightarrow> 'v sys \<Rightarrow> 'v sys" where
  "generic_wait_handler i t s = on_finish i t (push i [Fr_waiting t (length (heap s))] s)"

definition set_thread_wait_handler :: "nat \<Rightarrow> wait_handler \<Rightarrow> 'v sys \<Rightarrow> 'v sys" where
  "set_thread_wait_handler i h s = s\<lparr>wait_handlers := (wait_handlers s)[i := h]\<rparr>"

definition wait_for_task :: "nat \<Rightarrow> nat \<Rightarrow> 'v sys \<Rightarrow> 'v sys" where
  "wait_for_task i t s =
     (case wait_handlers s ! i of
        Generic_handler \<Rightarrow> generic_wait_handler i t s
      | Custom_handler \<Rightarrow> push i [Fr_handler t] s)"

definition wait_task :: "nat \<Rightarrow> nat \<Rightarrow> 'v sys \<Rightarrow> 'v sys" where
  "wait_task i t s =
     (if is_finished (state (obj s t)) then s else wait_for_task i t s)"

text \<open>
  \<open>ready\<close>, \<open>canceled\<close>, and what \<open>get\<close> and \<open>get_exception\<close> do once the wait has returned: \<open>get\<close> rethrows
  the exception of a canceled task; otherwise it returns the result, and a \<open>task\<close> (not a
  \<open>shared_task\<close>) gives up its handle.
\<close>

definition task_ready :: "nat \<Rightarrow> 'v sys \<Rightarrow> bool" where
  "task_ready t s = is_finished (state (obj s t))"

definition task_canceled_state :: "nat \<Rightarrow> 'v sys \<Rightarrow> bool" where
  "task_canceled_state t s \<longleftrightarrow> state (obj s t) = Canceled"

definition wait_and_throw :: "nat \<Rightarrow> 'v sys \<Rightarrow> ('v exn + unit) option" where
  "wait_and_throw t s =
     (if task_canceled_state t s then map_option Inl (get_exception t s) else Some (Inr ()))"

definition task_get :: "bool \<Rightarrow> nat \<Rightarrow> 'v sys \<Rightarrow> (('v exn + 'v value) \<times> 'v sys) option" where
  "task_get shared t s =
     (case wait_and_throw t s of
        None \<Rightarrow> None
      | Some (Inl e) \<Rightarrow> Some (Inl e, s)
      | Some (Inr _) \<Rightarrow> map_option (\<lambda>v. (Inr v, if shared then s else s\<lparr>handles := remove1 t (handles s)\<rparr>))
          (get_result t s))"

definition task_get_exception :: "nat \<Rightarrow> 'v sys \<Rightarrow> 'v exn option option" where
  "task_get_exception t s =
     (if task_canceled_state t s then map_option Some (get_exception t s) else Some None)"

text \<open>One step of a library frame; \<open>accept\<close> is the answer of a scheduler asked for a run.\<close>

fun frame_step :: "nat \<Rightarrow> bool \<Rightarrow> 'v frame \<Rightarrow> 'v sys \<Rightarrow> 'v sys option" where
  "frame_step i accept (Fr_run t) s = run_task i t s"
| "frame_step i accept (Fr_user t a) s = None"
| "frame_step i accept (Fr_return t v) s = Some (exec_return i t v s)"
| "frame_step i accept (Fr_finish t) s = Some (finish i t s)"
| "frame_step i accept (Fr_cancel t e) s = Some (cancel_task i t e s)"
| "frame_step i accept (Fr_cancel_base t e) s = Some (cancel_base i t e s)"
| "frame_step i accept (Fr_run_continuations t) s = Some (run_continuations i t s)"
| "frame_step i accept (Fr_schedule c) s = schedule_cont i c s"
| "frame_step i accept (Fr_run_continuation c sd) s = Some (run_continuation i c sd accept s)"
| "frame_step i accept (Fr_add_continuation t c sd) s = Some (add_continuation i t c sd s)"
| "frame_step i accept (Fr_try_add t c sd) s = Some (try_add i t c sd s)"
| "frame_step i accept (Fr_wait t) s = Some (wait_task i t s)"
| "frame_step i accept (Fr_waiting t n) s = (if n \<in> set (signalled s) then Some s else None)"
| "frame_step i accept (Fr_handler t) s = None"
| "frame_step i accept (Fr_restore h) s = Some (set_thread_wait_handler i h s)"
| "frame_step i accept (Fr_catch cont) s = Some (catch_block i cont s)"
| "frame_step i accept (Fr_crash t) s = None"

section \<open>How a user function ends\<close>

datatype 'v outcome = Returns "'v value" | Throws "'v exn" | Returns_task "nat option"

definition unwraps :: "exec \<Rightarrow> bool" where
  "unwraps ex = (case ex of Root_exec u \<Rightarrow> u | Cont_exec p k u \<Rightarrow> u | _ \<Rightarrow> False)"

definition user_returns :: "nat \<Rightarrow> nat \<Rightarrow> 'v outcome \<Rightarrow> 'v sys \<Rightarrow> 'v sys option" where
  "user_returns i t out s =
     (case func (obj s t) of None \<Rightarrow> None | Some ex \<Rightarrow>
       (case out of
          Returns v \<Rightarrow> if unwraps ex then None else Some (push i [Fr_return t v] s)
        | Throws e \<Rightarrow> Some (push i [Fr_cancel t e] s)
        | Returns_task None \<Rightarrow> if unwraps ex then Some (unwrapped_finish i t None s) else None
        | Returns_task (Some c) \<Rightarrow>
            if unwraps ex \<and> c \<in> set (handles s)
            then Some (unwrapped_finish i t (Some c) (s\<lparr>handles := remove1 c (handles s)\<rparr>)) else None))"

section \<open>Client operations\<close>

text \<open>
  \<open>spawn\<close>: a new task object, its run handle to the scheduler, its task handle to the caller.  When
  the scheduler throws, the run handle's destructor cancels the task and the exception reaches the
  caller, who gets no task handle.
\<close>

definition spawn :: "nat \<Rightarrow> sched \<Rightarrow> bool \<Rightarrow> bool \<Rightarrow> 'v sys \<Rightarrow> 'v sys" where
  "spawn i sd unwrap accept s =
     (let n = length (heap s) in
      case schedule_task i n sd accept (alloc (new_task Slot_none (Some (Root_exec unwrap))) s) of
        (True, s') \<Rightarrow> s'\<lparr>handles := n # handles s'\<rparr>
      | (False, s') \<Rightarrow> s')"

text \<open>\<open>make_task\<close> and \<open>make_exception_task\<close>: born finished.\<close>

definition make_task :: "'v value \<Rightarrow> 'v sys \<Rightarrow> 'v sys" where
  "make_task v s = alloc ((new_task (Slot_result v) None)\<lparr>state := Completed\<rparr>)
     (s\<lparr>handles := length (heap s) # handles s\<rparr>)"

definition make_exception_task :: "'v exn \<Rightarrow> 'v sys \<Rightarrow> 'v sys" where
  "make_exception_task e s = alloc ((new_task (Slot_except e) None)\<lparr>state := Canceled\<rparr>)
     (s\<lparr>handles := length (heap s) # handles s\<rparr>)"

text \<open>\<open>event_task\<close>: constructor, \<open>get_task\<close>, \<open>set\<close>, \<open>set_exception\<close>, destructor.\<close>

definition make_event :: "'v sys \<Rightarrow> 'v sys" where
  "make_event s = alloc (new_task Slot_none None) (s\<lparr>events := length (heap s) # events s\<rparr>)"

definition get_task :: "nat \<Rightarrow> 'v sys \<Rightarrow> 'v sys" where
  "get_task t s = upd t (\<lambda>ob. ob\<lparr>got_task := True\<rparr>) (s\<lparr>handles := t # handles s\<rparr>)"

definition event_set :: "nat \<Rightarrow> nat \<Rightarrow> 'v value \<Rightarrow> 'v sys \<Rightarrow> bool \<times> 'v sys" where
  "event_set i t v s =
     (if state (obj s t) = Pending
      then (True, push i [Fr_finish t] (set_result t v (set_state t Locked s)))
      else (False, s))"

definition event_set_exception :: "nat \<Rightarrow> nat \<Rightarrow> 'v exn \<Rightarrow> 'v sys \<Rightarrow> bool \<times> 'v sys" where
  "event_set_exception i t e s =
     (if state (obj s t) = Pending
      then (True, push i [Fr_cancel_base t e] (set_state t Locked s))
      else (False, s))"

text \<open>The parent that a function object holds a reference to.\<close>

fun parent_of :: "exec \<Rightarrow> nat option" where
  "parent_of (Root_exec u) = None"
| "parent_of (Cont_exec p k u) = Some p"
| "parent_of (Unwrap_exec c p) = Some c"
| "parent_of (Unwrap_called c p) = Some c"
| "parent_of (Wait_exec w) = Some w"

definition sole_reference :: "nat \<Rightarrow> 'v sys \<Rightarrow> bool" where
  "sole_reference t s \<longleftrightarrow> t \<notin> set (handles s)
     \<and> list_all (\<lambda>ob. case func ob of None \<Rightarrow> True | Some ex \<Rightarrow> parent_of ex \<noteq> Some t) (heap s)"

text \<open>
  An event whose internal task is referenced by nobody else is deleted with it.  The client does not
  destroy an event while a \<open>set\<close> on it is in progress (its state is \<open>Locked\<close>).
\<close>

definition destroy_event :: "nat \<Rightarrow> nat \<Rightarrow> 'v sys \<Rightarrow> 'v sys" where
  "destroy_event i t s =
     (let s' = s\<lparr>events := remove1 t (events s)\<rparr> in
      if is_finished (state (obj s t)) then s'
      else if sole_reference t s then s'\<lparr>freed := t # freed s\<rparr>
      else snd (event_set_exception i t Abandoned_event_task s'))"

text \<open>\<open>then\<close>: on a \<open>task\<close> it consumes the handle, on a \<open>shared_task\<close> it copies it.\<close>

definition then_internal :: "nat \<Rightarrow> nat \<Rightarrow> bool \<Rightarrow> sched \<Rightarrow> cont_kind \<Rightarrow> bool \<Rightarrow> 'v sys \<Rightarrow> 'v sys" where
  "then_internal i t shared sd k unwrap s =
     (let n = length (heap s);
          hs = (if shared then handles s else remove1 t (handles s)) in
      push i [Fr_add_continuation t n sd]
        (alloc (new_task (Slot_sched sd) (Some (Cont_exec t k unwrap))) (s\<lparr>handles := n # hs\<rparr>)))"

datatype 'v client_op =
    Op_spawn sched bool bool
  | Op_make "'v value"
  | Op_make_exception "'v exn"
  | Op_event
  | Op_get_task nat
  | Op_set nat "'v value"
  | Op_set_exception nat "'v exn"
  | Op_destroy_event nat
  | Op_then nat bool sched cont_kind bool
  | Op_copy nat
  | Op_drop nat
  | Op_wait nat
  | Op_set_wait_handler wait_handler

definition client_step :: "nat \<Rightarrow> 'v client_op \<Rightarrow> 'v sys \<Rightarrow> 'v sys option" where
  "client_step i c s =
     (case c of
        Op_spawn sd u a \<Rightarrow> Some (spawn i sd u a s)
      | Op_make v \<Rightarrow> Some (make_task v s)
      | Op_make_exception e \<Rightarrow> Some (make_exception_task e s)
      | Op_event \<Rightarrow> Some (make_event s)
      | Op_get_task t \<Rightarrow> if t \<in> set (events s) \<and> \<not> got_task (obj s t) then Some (get_task t s) else None
      | Op_set t v \<Rightarrow> if t \<in> set (events s) then Some (snd (event_set i t v s)) else None
      | Op_set_exception t e \<Rightarrow>
          if t \<in> set (events s) then Some (snd (event_set_exception i t e s)) else None
      | Op_destroy_event t \<Rightarrow>
          if t \<in> set (events s) \<and> state (obj s t) \<noteq> Locked then Some (destroy_event i t s) else None
      | Op_then t sh sd k u \<Rightarrow>
          if t \<in> set (handles s) then Some (then_internal i t sh sd k u s) else None
      | Op_copy t \<Rightarrow> if t \<in> set (handles s) then Some (s\<lparr>handles := t # handles s\<rparr>) else None
      | Op_drop t \<Rightarrow> if t \<in> set (handles s) then Some (s\<lparr>handles := remove1 t (handles s)\<rparr>) else None
      | Op_wait t \<Rightarrow> if t \<in> set (handles s) then Some (push i [Fr_wait t] s) else None
      | Op_set_wait_handler h \<Rightarrow> Some (set_thread_wait_handler i h s))"

text \<open>
  Client code runs on a thread whose stack is empty or has a user function or a custom wait handler on top; there a
  scheduler may run tasks, too.  A thread in the generic wait handler sleeps.
\<close>

definition client_active :: "'v frame list \<Rightarrow> bool" where
  "client_active st = (case st of [] \<Rightarrow> True | Fr_user _ _ # _ \<Rightarrow> True | Fr_handler _ # _ \<Rightarrow> True | _ \<Rightarrow> False)"

definition worker_free :: "'v frame list \<Rightarrow> bool" where
  "worker_free st = (case st of [] \<Rightarrow> True | Fr_user _ _ # _ \<Rightarrow> True | Fr_handler _ # _ \<Rightarrow> True | _ \<Rightarrow> False)"

text \<open>\<open>task_run_handle::run\<close>, \<open>run_with_wait_handler\<close> and its destructor, which cancels a task that was not run.\<close>

definition remove_nth :: "nat \<Rightarrow> 'a list \<Rightarrow> 'a list" where
  "remove_nth k xs = take k xs @ drop (Suc k) xs"

definition run_handle :: "nat \<Rightarrow> nat \<Rightarrow> 'v sys \<Rightarrow> 'v sys" where
  "run_handle i k s = push i [Fr_run (queue s ! k)] (s\<lparr>queue := remove_nth k (queue s)\<rparr>)"

definition run_with_wait_handler :: "nat \<Rightarrow> nat \<Rightarrow> wait_handler \<Rightarrow> 'v sys \<Rightarrow> 'v sys" where
  "run_with_wait_handler i k h s =
     set_thread_wait_handler i h (run_handle i k (push i [Fr_restore (wait_handlers s ! i)] s))"

definition drop_handle :: "nat \<Rightarrow> nat \<Rightarrow> 'v sys \<Rightarrow> 'v sys" where
  "drop_handle i k s =
     push i [Fr_cancel (queue s ! k) Task_not_executed] (s\<lparr>queue := remove_nth k (queue s)\<rparr>)"

text \<open>What a custom wait handler for task \<open>t\<close> may do.\<close>

datatype handler_act = Handler_on_finish | Handler_return

definition handler_step :: "nat \<Rightarrow> nat \<Rightarrow> handler_act \<Rightarrow> 'v sys \<Rightarrow> 'v sys" where
  "handler_step i t act s = (case act of Handler_on_finish \<Rightarrow> on_finish i t s | Handler_return \<Rightarrow> pop_frame i s)"

datatype 'v task_event =
    Ev_step nat bool
  | Ev_user nat "'v outcome"
  | Ev_client nat "'v client_op"
  | Ev_run nat nat
  | Ev_run_with nat nat wait_handler
  | Ev_drop nat nat
  | Ev_handler nat handler_act

fun task_step :: "'v task_event \<Rightarrow> 'v sys \<Rightarrow> 'v sys option" where
  "task_step (Ev_step i accept) s =
     (if i < length (stacks s) \<and> \<not> null_deref s
      then (case stacks s ! i of [] \<Rightarrow> None | f # fs \<Rightarrow> frame_step i accept f (pop_frame i s)) else None)"
| "task_step (Ev_user i out) s =
     (if i < length (stacks s) \<and> \<not> null_deref s
      then (case stacks s ! i of
          Fr_user t a # fs \<Rightarrow> user_returns i t out (pop_frame i s) | _ \<Rightarrow> None) else None)"
| "task_step (Ev_client i c) s =
     (if i < length (stacks s) \<and> \<not> null_deref s \<and> client_active (stacks s ! i)
      then client_step i c s else None)"
| "task_step (Ev_run i k) s =
     (if i < length (stacks s) \<and> \<not> null_deref s \<and> worker_free (stacks s ! i) \<and> k < length (queue s)
      then Some (run_handle i k s) else None)"
| "task_step (Ev_drop i k) s =
     (if i < length (stacks s) \<and> \<not> null_deref s \<and> worker_free (stacks s ! i) \<and> k < length (queue s)
      then Some (drop_handle i k s) else None)"
| "task_step (Ev_run_with i k h) s =
     (if i < length (stacks s) \<and> \<not> null_deref s \<and> worker_free (stacks s ! i) \<and> k < length (queue s)
      then Some (run_with_wait_handler i k h s) else None)"
| "task_step (Ev_handler i act) s =
     (if i < length (stacks s) \<and> \<not> null_deref s
      then (case stacks s ! i of Fr_handler t # fs \<Rightarrow> Some (handler_step i t act s) | _ \<Rightarrow> None) else None)"

end
