(* ===== verification/Task_Invariant.thy ===== *)
theory Task_Invariant
  imports Task_Core
begin

text \<open>
  The invariant of the task machine of \<open>Task_Core\<close>: who is responsible for an unfinished task, and what
  every frame, queue entry and continuation may rely on.
\<close>

section \<open>Who is responsible for an unfinished task\<close>

text \<open>
  Every task that is not done has exactly one place that will take it further: a frame, a scheduler's
  queue, the continuations of another task, the \<open>unwrapped_func\<close> that will set its result, or the
  event object that has not been set.  \<open>tokens\<close> collects these places.
\<close>

definition done_task :: "'v sys \<Rightarrow> nat \<Rightarrow> bool" where
  "done_task s n \<longleftrightarrow> is_finished (state (obj s n)) \<or> n \<in> set (signalled s) \<or> n \<in> set (freed s)"

fun tok :: "'v frame \<Rightarrow> nat multiset" where
  "tok (Fr_run t) = {#t#}"
| "tok (Fr_user t a) = {#t#}"
| "tok (Fr_return t v) = {#t#}"
| "tok (Fr_finish t) = {#t#}"
| "tok (Fr_cancel t e) = {#t#}"
| "tok (Fr_cancel_base t e) = {#t#}"
| "tok (Fr_run_continuations t) = {#}"
| "tok (Fr_schedule c) = {#c#}"
| "tok (Fr_run_continuation c sd) = {#c#}"
| "tok (Fr_add_continuation t c sd) = {#c#}"
| "tok (Fr_try_add t c sd) = {#c#}"
| "tok (Fr_wait t) = {#}"
| "tok (Fr_waiting t n) = {#}"
| "tok (Fr_handler t) = {#}"
| "tok (Fr_restore h) = {#}"
| "tok (Fr_catch cont) = {#}"
| "tok (Fr_crash t) = {#t#}"

definition utok :: "exec option \<Rightarrow> nat multiset" where
  "utok f = (case f of Some (Unwrap_exec c p) \<Rightarrow> {#p#} | _ \<Rightarrow> {#})"

definition ctok :: "'v task_obj \<Rightarrow> nat multiset" where
  "ctok ob = mset (conts ob) + utok (func ob)"

definition etok :: "'v sys \<Rightarrow> nat multiset" where
  "etok s = mset (filter (\<lambda>t. state (obj s t) = Pending) (events s))"

definition ftok :: "'v sys \<Rightarrow> nat multiset" where
  "ftok s = sum_list (map (\<lambda>st. sum_list (map tok st)) (stacks s))"

definition tokens :: "'v sys \<Rightarrow> nat multiset" where
  "tokens s = mset (queue s) + sum_list (map ctok (heap s)) + ftok s + etok s"

definition undone :: "'v sys \<Rightarrow> nat multiset" where
  "undone s = mset (filter (\<lambda>n. \<not> done_task s n) [0..<length (heap s)])"

lemma count_undone: "count (undone s) n = (if n < length (heap s) \<and> \<not> done_task s n then 1 else 0)"
proof -
  have "distinct (filter (\<lambda>n. \<not> done_task s n) [0..<length (heap s)])" by simp
  then show ?thesis
    unfolding undone_def by (auto simp: distinct_count_atmost_1)
qed

lemma in_undone: "n \<in># undone s \<longleftrightarrow> n < length (heap s) \<and> \<not> done_task s n"
  by (simp add: undone_def)

lemma sum_list_update_add:
  "k < length xs \<Longrightarrow> sum_list (xs[k := y]) + xs ! k = sum_list xs + (y :: 'a :: comm_monoid_add)"
  by (induction xs arbitrary: k) (auto simp: ac_simps split: nat.splits)

section \<open>The invariant\<close>

definition frames :: "'v sys \<Rightarrow> 'v frame set" where
  "frames s = (\<Union>st \<in> set (stacks s). set st)"

definition special :: "exec \<Rightarrow> bool" where
  "special ex = (case ex of Root_exec u \<Rightarrow> False | Cont_exec p k u \<Rightarrow> False | _ \<Rightarrow> True)"

text \<open>A continuation \<open>c\<close> that waits for \<open>t\<close>; a task that may run because its parent is finished.\<close>

definition waits_for :: "'v sys \<Rightarrow> nat \<Rightarrow> nat \<Rightarrow> sched \<Rightarrow> bool" where
  "waits_for s c t sd \<longleftrightarrow> c < length (heap s) \<and> t < length (heap s) \<and> slot (obj s c) = Slot_sched sd
     \<and> (\<exists>ex. func (obj s c) = Some ex \<and> parent_of ex = Some t \<and> (special ex \<longrightarrow> sd = Inline)
         \<and> (\<forall>a b. ex \<noteq> Unwrap_called a b))"

definition runnable :: "'v sys \<Rightarrow> nat \<Rightarrow> exec \<Rightarrow> bool" where
  "runnable s t ex \<longleftrightarrow> t < length (heap s) \<and> func (obj s t) = Some ex
     \<and> (\<forall>p. parent_of ex = Some p \<longrightarrow> p < length (heap s) \<and> is_finished (state (obj s p)))
     \<and> (\<forall>a b. ex \<noteq> Unwrap_called a b)"

definition arg_ok :: "'v sys \<Rightarrow> exec \<Rightarrow> 'v arg \<Rightarrow> bool" where
  "arg_ok s ex a \<longleftrightarrow> (case ex of
      Root_exec u \<Rightarrow> a = Arg_none
    | Cont_exec p By_task u \<Rightarrow> a = Arg_task p
    | Cont_exec p By_void u \<Rightarrow> a = Arg_value Fake_void \<and> state (obj s p) = Completed
    | Cont_exec p By_value u \<Rightarrow>
        (\<exists>v. a = Arg_value v \<and> state (obj s p) = Completed \<and> slot (obj s p) = Slot_result v)
    | _ \<Rightarrow> False)"

definition unfinished :: "'v sys \<Rightarrow> nat \<Rightarrow> bool" where
  "unfinished s t \<longleftrightarrow> t < length (heap s) \<and> func (obj s t) = None \<and> \<not> is_finished (state (obj s t))"

fun frame_ok :: "'v sys \<Rightarrow> 'v frame \<Rightarrow> bool" where
  "frame_ok s (Fr_run t) = (\<exists>ex. runnable s t ex)"
| "frame_ok s (Fr_user t a) = (\<exists>ex. runnable s t ex \<and> arg_ok s ex a)"
| "frame_ok s (Fr_return t v) =
     (t < length (heap s) \<and> (\<exists>ex. func (obj s t) = Some ex \<and> utok (Some ex) = {#}
        \<and> (\<forall>w. ex \<noteq> Wait_exec w)))"
| "frame_ok s (Fr_finish t) = (unfinished s t \<and> (\<exists>v. slot (obj s t) = Slot_result v))"
| "frame_ok s (Fr_cancel t e) = (\<exists>ex. runnable s t ex \<and> \<not> special ex)"
| "frame_ok s (Fr_cancel_base t e) = unfinished s t"
| "frame_ok s (Fr_run_continuations t) = (t < length (heap s) \<and> is_finished (state (obj s t)))"
| "frame_ok s (Fr_schedule c) = (\<exists>t sd. waits_for s c t sd \<and> is_finished (state (obj s t)))"
| "frame_ok s (Fr_run_continuation c sd) = (\<exists>t. waits_for s c t sd \<and> is_finished (state (obj s t)))"
| "frame_ok s (Fr_add_continuation t c sd) = waits_for s c t sd"
| "frame_ok s (Fr_try_add t c sd) = waits_for s c t sd"
| "frame_ok s (Fr_wait t) = (t < length (heap s))"
| "frame_ok s (Fr_waiting t n) = (n < length (heap s) \<and> func (obj s n) = Some (Wait_exec t))"
| "frame_ok s (Fr_handler t) = (t < length (heap s))"
| "frame_ok s (Fr_restore h) = True"
| "frame_ok s (Fr_catch cont) = (cont = None)"
| "frame_ok s (Fr_crash t) = unfinished s t"

definition func_ok :: "'v sys \<Rightarrow> 'v task_obj \<Rightarrow> bool" where
  "func_ok s ob \<longleftrightarrow> (\<forall>ex. func ob = Some ex \<longrightarrow> state ob = Pending
     \<and> (\<forall>p. parent_of ex = Some p \<longrightarrow> p < length (heap s))
     \<and> (special ex \<longrightarrow> slot ob = Slot_sched Inline)
     \<and> (\<forall>c p. ex = Unwrap_exec c p \<longrightarrow> unfinished s p))"

definition result_ok :: "'v task_obj \<Rightarrow> bool" where
  "result_ok ob \<longleftrightarrow> (state ob = Completed \<longrightarrow> (\<exists>v. slot ob = Slot_result v))
     \<and> (state ob = Canceled \<longrightarrow> (\<exists>e. slot ob = Slot_except e))"

definition conts_ok :: "'v sys \<Rightarrow> nat \<Rightarrow> bool" where
  "conts_ok s t \<longleftrightarrow> (\<forall>c \<in> set (conts (obj s t)). \<exists>sd. waits_for s c t sd)
     \<and> (conts_locked (obj s t) \<longrightarrow> conts (obj s t) = [] \<and> is_finished (state (obj s t)))"

text \<open>
  A finished task whose vector is not locked yet is about to be flushed, or was born finished, and
  then nobody adds to it.
\<close>

definition flush_ok :: "'v sys \<Rightarrow> nat set \<Rightarrow> nat \<Rightarrow> bool" where
  "flush_ok s Y t \<longleftrightarrow> is_finished (state (obj s t)) \<longrightarrow> \<not> conts_locked (obj s t) \<longrightarrow>
     t \<in> Y \<or> Fr_run_continuations t \<in> frames s
     \<or> (conts (obj s t) = [] \<and> (\<forall>c sd. Fr_try_add t c sd \<notin> frames s))"

text \<open>
  \<open>inv_hole s X Y\<close>: the invariant, with the tasks in \<open>X\<close> in the hands of the step being taken and
  those in \<open>Y\<close> about to have their continuations run.
\<close>

definition inv_hole :: "'v sys \<Rightarrow> nat multiset \<Rightarrow> nat set \<Rightarrow> bool" where
  "inv_hole s X Y \<longleftrightarrow>
     tokens s + X = undone s
   \<and> (\<forall>t < length (heap s). func_ok s (obj s t) \<and> result_ok (obj s t) \<and> conts_ok s t \<and> flush_ok s Y t)
   \<and> (\<forall>f \<in> frames s. frame_ok s f)
   \<and> (\<forall>c \<in> set (queue s). \<exists>ex. runnable s c ex \<and> \<not> special ex)
   \<and> (\<forall>t \<in> set (events s). t < length (heap s) \<and> func (obj s t) = None \<and> state (obj s t) \<noteq> Unwrapped)
   \<and> (\<forall>t \<in> set (handles s) \<union> set (freed s). t < length (heap s))
   \<and> (\<forall>t \<in> set (freed s). func (obj s t) = None)
   \<and> (\<forall>n \<in> set (signalled s). n < length (heap s)
        \<and> (\<exists>t. t < length (heap s) \<and> func (obj s n) = Some (Wait_exec t) \<and> is_finished (state (obj s t))))"

definition task_inv :: "'v sys \<Rightarrow> bool" where
  "task_inv s \<longleftrightarrow> inv_hole s {#} {}"

section \<open>What survives a change\<close>

text \<open>
  \<open>ext s s' D\<close>: only tasks in \<open>D\<close> changed state, union or function, finished tasks did not change,
  and \<open>wait_exec_func\<close>s stay.
\<close>

definition ext :: "'v sys \<Rightarrow> 'v sys \<Rightarrow> nat set \<Rightarrow> bool" where
  "ext s s' D \<longleftrightarrow> length (heap s) \<le> length (heap s')
   \<and> (\<forall>m < length (heap s).
        (m \<notin> D \<or> is_finished (state (obj s m)) \<longrightarrow>
           state (obj s' m) = state (obj s m) \<and> slot (obj s' m) = slot (obj s m) \<and> func (obj s' m) = func (obj s m))
      \<and> (\<forall>w. func (obj s m) = Some (Wait_exec w) \<longrightarrow> func (obj s' m) = Some (Wait_exec w)))"

lemma extD:
  assumes "ext s s' D" "m < length (heap s)"
  shows "m < length (heap s')"
    and "m \<notin> D \<or> is_finished (state (obj s m)) \<Longrightarrow>
      state (obj s' m) = state (obj s m) \<and> slot (obj s' m) = slot (obj s m) \<and> func (obj s' m) = func (obj s m)"
    and "func (obj s m) = Some (Wait_exec w) \<Longrightarrow> func (obj s' m) = Some (Wait_exec w)"
  using assms by (auto simp: ext_def)

lemma waits_for_ext:
  assumes "waits_for s c t sd" "ext s s' D" "c \<notin> D"
  shows "waits_for s' c t sd"
  using assms extD(1)[OF assms(2), of t] extD[OF assms(2), of c] by (auto simp: waits_for_def)

lemma finished_ext:
  "is_finished (state (obj s t)) \<Longrightarrow> t < length (heap s) \<Longrightarrow> ext s s' D \<Longrightarrow>
    is_finished (state (obj s' t))"
  using extD(2)[of s s' D t] by simp

lemma runnable_ext:
  assumes "runnable s t ex" "ext s s' D" "t \<notin> D"
  shows "runnable s' t ex"
  using assms extD[OF assms(2), of t] finished_ext[OF _ _ assms(2)] extD(1)[OF assms(2)]
  by (auto simp: runnable_def)

lemma arg_ok_ext:
  assumes "arg_ok s ex a" "runnable s t ex" "ext s s' D"
  shows "arg_ok s' ex a"
proof (cases ex)
  case (Cont_exec p k u)
  then have p: "p < length (heap s)" using assms(2) by (simp add: runnable_def)
  show ?thesis
    using assms(1) Cont_exec extD(2)[OF assms(3) p] by (cases k) (auto simp: arg_ok_def)
qed (use assms(1) in \<open>auto simp: arg_ok_def\<close>)

lemma unfinished_ext:
  "unfinished s t \<Longrightarrow> ext s s' D \<Longrightarrow> t \<notin> D \<Longrightarrow> unfinished s' t"
  using extD[of s s' D t] by (auto simp: unfinished_def)

lemma frame_ok_ext:
  assumes "frame_ok s f" "ext s s' D" "\<forall>t \<in> D. t \<notin># tok f"
  shows "frame_ok s' f"
proof (cases f)
  case (Fr_run t)
  then show ?thesis using assms runnable_ext[OF _ assms(2), of t] by auto
next
  case (Fr_cancel t e)
  then show ?thesis using assms runnable_ext[OF _ assms(2), of t] by auto
next
  case (Fr_finish t)
  then show ?thesis
    using assms unfinished_ext[OF _ assms(2), of t] extD(2)[OF assms(2), of t]
    by (auto simp: unfinished_def[of s])
next
  case (Fr_user t a)
  then show ?thesis using assms runnable_ext arg_ok_ext by (metis frame_ok.simps(2) tok.simps(2) union_single_eq_member add_cancel_right_left multi_member_split)
next
  case (Fr_schedule c)
  then show ?thesis using assms waits_for_ext[of s c _ _ s' D] finished_ext[of s _ s' D]
    by (fastforce simp: waits_for_def[of s])
next
  case (Fr_run_continuation c sd)
  then show ?thesis using assms waits_for_ext[of s c _ sd s' D] finished_ext[of s _ s' D]
    by (fastforce simp: waits_for_def[of s])
qed (use assms extD[OF assms(2)] in
    \<open>auto simp: waits_for_ext unfinished_ext intro: finished_ext\<close>)

section \<open>Tokens\<close>

lemma in_sum_list: "x \<in># sum_list Ms \<longleftrightarrow> (\<exists>M \<in> set Ms. x \<in># M)"
  by (induction Ms) auto

lemma frame_tokens: "f \<in> frames s \<Longrightarrow> t \<in># tok f \<Longrightarrow> t \<in># tokens s"
  by (auto simp: tokens_def ftok_def frames_def in_sum_list)

lemma queue_tokens: "c \<in> set (queue s) \<Longrightarrow> c \<in># tokens s"
  by (simp add: tokens_def)

lemma conts_tokens: "m < length (heap s) \<Longrightarrow> c \<in> set (conts (obj s m)) \<Longrightarrow> c \<in># tokens s"
  by (auto simp: tokens_def ctok_def in_sum_list in_set_conv_nth intro!: bexI[of _ "obj s m"])

lemma utok_tokens: "m < length (heap s) \<Longrightarrow> func (obj s m) = Some (Unwrap_exec c p) \<Longrightarrow> p \<in># tokens s"
  by (auto simp: tokens_def ctok_def utok_def in_sum_list intro!: bexI[of _ "obj s m"])

lemma event_tokens: "t \<in> set (events s) \<Longrightarrow> state (obj s t) = Pending \<Longrightarrow> t \<in># tokens s"
  by (simp add: tokens_def etok_def)

text \<open>A task in hand is nobody else's.\<close>

lemma hand_unique:
  assumes "inv_hole s X Y" "t \<in># X"
  shows "t < length (heap s)" "\<not> done_task s t" "t \<notin># tokens s" "t \<notin># X - {#t#}"
proof -
  have eq: "count (tokens s) t + count X t = count (undone s) t"
    using assms(1) by (simp add: inv_hole_def flip: count_union)
  have pos: "count X t > 0" using assms(2) by simp
  have "count (undone s) t > 0" using eq pos by linarith
  then show l: "t < length (heap s)" and d: "\<not> done_task s t"
    by (simp_all add: count_undone split: if_splits)
  then have "count (undone s) t = 1" by (simp add: count_undone)
  with eq pos have "count (tokens s) t = 0" "count X t = 1" by linarith+
  then show "t \<notin># tokens s" "t \<notin># X - {#t#}" by (simp_all add: count_eq_zero_iff flip: count_eq_zero_iff)
qed

lemma inv_holeD:
  assumes "inv_hole s X Y"
  shows "tokens s + X = undone s"
    and "t < length (heap s) \<Longrightarrow> func_ok s (obj s t)"
    and "t < length (heap s) \<Longrightarrow> result_ok (obj s t)"
    and "t < length (heap s) \<Longrightarrow> conts_ok s t"
    and "t < length (heap s) \<Longrightarrow> flush_ok s Y t"
    and "f \<in> frames s \<Longrightarrow> frame_ok s f"
    and "c \<in> set (queue s) \<Longrightarrow> \<exists>ex. runnable s c ex \<and> \<not> special ex"
    and "t \<in> set (events s) \<Longrightarrow> t < length (heap s) \<and> func (obj s t) = None \<and> state (obj s t) \<noteq> Unwrapped"
    and "t \<in> set (handles s) \<union> set (freed s) \<Longrightarrow> t < length (heap s)"
    and "n \<in> set (signalled s) \<Longrightarrow> n < length (heap s)
        \<and> (\<exists>t. t < length (heap s) \<and> func (obj s n) = Some (Wait_exec t) \<and> is_finished (state (obj s t)))"
    and "t \<in> set (freed s) \<Longrightarrow> func (obj s t) = None"
  using assms by (simp_all add: inv_hole_def)

lemma func_ok_ext:
  assumes "func_ok s (obj s m)" "ext s s' D" "m < length (heap s)" "m \<notin> D"
    and "\<And>c p. func (obj s m) = Some (Unwrap_exec c p) \<Longrightarrow> p \<notin> D"
  shows "func_ok s' (obj s' m)"
  unfolding func_ok_def
proof (intro allI impI)
  fix ex
  assume "func (obj s' m) = Some ex"
  then have f: "func (obj s m) = Some ex" and same: "state (obj s' m) = state (obj s m)"
    "slot (obj s' m) = slot (obj s m)"
    using extD(2)[OF assms(2,3)] assms(4) by auto
  have p: "p < length (heap s')" if "parent_of ex = Some p" for p
    using that f assms(1) extD(1)[OF assms(2)] by (simp add: func_ok_def)
  have u: "unfinished s' p" if "ex = Unwrap_exec c p" for c p
    using that f assms(1,5) unfinished_ext[OF _ assms(2)] by (simp add: func_ok_def)
  show "state (obj s' m) = Pending \<and> (\<forall>p. parent_of ex = Some p \<longrightarrow> p < length (heap s'))
    \<and> (special ex \<longrightarrow> slot (obj s' m) = Slot_sched Inline)
    \<and> (\<forall>c p. ex = Unwrap_exec c p \<longrightarrow> unfinished s' p)"
    using p u f same assms(1) by (simp add: func_ok_def)
qed

text \<open>
  Changing objects in \<open>D\<close>, none of which is anybody else's, and appending new ones.
\<close>

lemma inv_hole_change:
  assumes inv: "inv_hole s X Y" and ext: "ext s s' D" and D: "\<forall>t \<in> D. t \<notin># tokens s"
    and same: "stacks s' = stacks s" "queue s' = queue s" "events s' = events s"
      "handles s' = handles s" "signalled s' = signalled s" "freed s' = freed s"
    and conts: "\<And>m. m < length (heap s) \<Longrightarrow>
      conts (obj s' m) = conts (obj s m) \<and> conts_locked (obj s' m) = conts_locked (obj s m)"
    and toks: "tokens s' + X' = undone s'"
    and cells: "\<And>m. m < length (heap s') \<Longrightarrow> m \<in> D \<or> length (heap s) \<le> m \<Longrightarrow>
      func_ok s' (obj s' m) \<and> result_ok (obj s' m) \<and> flush_ok s' Y' m
      \<and> (length (heap s) \<le> m \<longrightarrow> conts_ok s' m)
      \<and> (m \<in> set (events s) \<longrightarrow> func (obj s' m) = None \<and> state (obj s' m) \<noteq> Unwrapped)
      \<and> (m \<in> set (freed s) \<longrightarrow> func (obj s' m) = None)"
    and Y: "Y \<subseteq> Y'"
  shows "inv_hole s' X' Y'"
proof -
  have frames: "frames s' = frames s" using same(1) by (simp add: frames_def)
  have old: "func_ok s' (obj s' m) \<and> result_ok (obj s' m) \<and> flush_ok s' Y' m"
    if m: "m < length (heap s)" "m \<notin> D" for m
  proof (intro conjI)
    show "func_ok s' (obj s' m)"
      using inv_holeD(2)[OF inv m(1)] utok_tokens[OF m(1)] D by (intro func_ok_ext[OF _ ext m]) auto
    show "result_ok (obj s' m)"
      using inv_holeD(3)[OF inv m(1)] extD(2)[OF ext m(1)] m(2) by (simp add: result_ok_def)
    show "flush_ok s' Y' m"
      using inv_holeD(5)[OF inv m(1)] extD(2)[OF ext m(1)] m(2) conts[OF m(1)] frames Y
      by (auto simp: flush_ok_def)
  qed
  have contsok: "conts_ok s' m" if m: "m < length (heap s)" for m
    unfolding conts_ok_def
  proof (intro conjI ballI impI)
    fix c
    assume "c \<in> set (conts (obj s' m))"
    then have c: "c \<in> set (conts (obj s m))" using conts[OF m] by simp
    then obtain sd where "waits_for s c m sd" using inv_holeD(4)[OF inv m] by (auto simp: conts_ok_def)
    moreover have "c \<notin> D" using D conts_tokens[OF m c] by auto
    ultimately show "\<exists>sd. waits_for s' c m sd" using waits_for_ext ext by blast
  next
    assume "conts_locked (obj s' m)"
    then show "conts (obj s' m) = []" "is_finished (state (obj s' m))"
      using conts[OF m] inv_holeD(4)[OF inv m] finished_ext[OF _ m ext] by (auto simp: conts_ok_def)
  qed
  have fr: "frame_ok s' f" if "f \<in> frames s" for f
    using D frame_tokens[OF that] by (intro frame_ok_ext[OF inv_holeD(6)[OF inv that] ext]) auto
  have qu: "\<exists>ex. runnable s' c ex \<and> \<not> special ex" if "c \<in> set (queue s)" for c
    using inv_holeD(7)[OF inv that] D queue_tokens[OF that] runnable_ext[OF _ ext] by metis
  have ev: "t < length (heap s') \<and> func (obj s' t) = None \<and> state (obj s' t) \<noteq> Unwrapped"
    if "t \<in> set (events s)" for t
    using inv_holeD(8)[OF inv that] extD[OF ext] cells[of t] that by (cases "t \<in> D") auto
  have ha: "t < length (heap s')" if "t \<in> set (handles s) \<union> set (freed s)" for t
    using inv_holeD(9)[OF inv that] extD(1)[OF ext] by simp
  have fd: "func (obj s' t) = None" if "t \<in> set (freed s)" for t
  proof -
    have "t < length (heap s)" using inv_holeD(9)[OF inv, of t] that by simp
    then show ?thesis
      using inv_holeD(11)[OF inv that] extD[OF ext, of t] cells[of t] that by (cases "t \<in> D") auto
  qed
  have si: "n < length (heap s') \<and> (\<exists>t. t < length (heap s')
      \<and> func (obj s' n) = Some (Wait_exec t) \<and> is_finished (state (obj s' t)))"
    if "n \<in> set (signalled s)" for n
    using inv_holeD(10)[OF inv that] extD(1,3)[OF ext] finished_ext[OF _ _ ext] by metis
  have all: "func_ok s' (obj s' m) \<and> result_ok (obj s' m) \<and> conts_ok s' m \<and> flush_ok s' Y' m"
    if "m < length (heap s')" for m
    using old[of m] contsok[of m] cells[OF that] by (cases "m < length (heap s)"; cases "m \<in> D") auto
  show ?thesis
    unfolding inv_hole_def frames same
    by (intro conjI; (rule toks)?; intro allI ballI impI; (rule all fr qu ev ha fd si)?; assumption?)
qed

section \<open>Pushing and popping frames\<close>

lemma push_simps [simp]:
  "heap (push i fs s) = heap s" "queue (push i fs s) = queue s" "events (push i fs s) = events s"
  "handles (push i fs s) = handles s" "signalled (push i fs s) = signalled s"
  "freed (push i fs s) = freed s" "null_deref (push i fs s) = null_deref s"
  by (simp_all add: push_def)

lemma pop_simps [simp]:
  "heap (pop_frame i s) = heap s" "queue (pop_frame i s) = queue s" "events (pop_frame i s) = events s"
  "handles (pop_frame i s) = handles s" "signalled (pop_frame i s) = signalled s"
  "freed (pop_frame i s) = freed s" "null_deref (pop_frame i s) = null_deref s"
  "ndebug (pop_frame i s) = ndebug s" "wait_handlers (pop_frame i s) = wait_handlers s"
  "length (stacks (pop_frame i s)) = length (stacks s)"
  by (simp_all add: pop_frame_def)

text \<open>What is said of tasks depends on the heap only.\<close>

lemma heap_only:
  assumes "heap s' = heap s"
  shows "waits_for s' = waits_for s" "runnable s' = runnable s" "arg_ok s' = arg_ok s"
    "unfinished s' = unfinished s" "func_ok s' = func_ok s" "conts_ok s' = conts_ok s"
    "frame_ok s' = frame_ok s"
proof -
  show 1: "waits_for s' = waits_for s" "runnable s' = runnable s" "arg_ok s' = arg_ok s"
    "unfinished s' = unfinished s"
    unfolding fun_eq_iff waits_for_def runnable_def unfinished_def arg_ok_def assms by simp_all
  then show "func_ok s' = func_ok s" "conts_ok s' = conts_ok s"
    using assms by (simp_all add: fun_eq_iff func_ok_def conts_ok_def)
  show "frame_ok s' = frame_ok s"
  proof
    fix f
    show "frame_ok s' f = frame_ok s f" using assms 1 by (cases f) simp_all
  qed
qed

lemma undone_cong:
  assumes "heap s' = heap s" "signalled s' = signalled s" "freed s' = freed s"
  shows "undone s' = undone s"
  using assms by (simp add: undone_def done_task_def)

lemma etok_cong: "heap s' = heap s \<Longrightarrow> events s' = events s \<Longrightarrow> etok s' = etok s"
  by (simp add: etok_def)

lemma tokens_push:
  assumes "i < length (stacks s)"
  shows "tokens (push i fs s) = tokens s + sum_list (map tok fs)"
proof -
  let ?g = "\<lambda>st. sum_list (map tok st)"
  have "sum_list ((map ?g (stacks s))[i := ?g (fs @ stacks s ! i)]) + ?g (stacks s ! i)
      = sum_list (map ?g (stacks s)) + ?g (fs @ stacks s ! i)"
    using sum_list_update_add[of i "map ?g (stacks s)" "?g (fs @ stacks s ! i)"] assms by simp
  then have "ftok (push i fs s) = ftok s + ?g fs"
    by (simp add: ftok_def push_def map_update)
  then show ?thesis
    using etok_cong[of "push i fs s" s] by (simp add: tokens_def ac_simps)
qed

lemma tokens_pop:
  assumes "i < length (stacks s)" "stacks s ! i = f # fs"
  shows "tokens (pop_frame i s) + tok f = tokens s"
proof -
  let ?g = "\<lambda>st. sum_list (map tok st)"
  have "sum_list ((map ?g (stacks s))[i := ?g fs]) + ?g (f # fs) = sum_list (map ?g (stacks s)) + ?g fs"
    using sum_list_update_add[of i "map ?g (stacks s)" "?g fs"] assms by simp
  then have "ftok (pop_frame i s) + tok f = ftok s"
    using assms by (simp add: ftok_def pop_frame_def map_update)
  then show ?thesis
    using etok_cong[of "pop_frame i s" s] by (simp add: tokens_def ac_simps)
qed

lemma in_frames: "f \<in> frames s \<longleftrightarrow> (\<exists>j < length (stacks s). f \<in> set (stacks s ! j))"
  unfolding frames_def set_conv_nth[of "stacks s"] by auto

lemma frames_push: "i < length (stacks s) \<Longrightarrow> frames (push i fs s) = set fs \<union> frames s"
  by (auto simp: in_frames push_def nth_list_update split: if_splits)

lemma frames_pop:
  assumes "i < length (stacks s)" "stacks s ! i = f # fs"
  shows "frames (pop_frame i s) \<subseteq> frames s" "frames s \<subseteq> insert f (frames (pop_frame i s))" "f \<in> frames s"
  using assms by (auto simp: in_frames pop_frame_def nth_list_update split: if_splits)
    (metis list.set_intros(2) set_ConsD)+

text \<open>Taking the topmost frame in hand, and putting frames on a stack.\<close>

lemma inv_hole_heap_same:
  assumes inv: "inv_hole s X Y"
    and same: "heap s' = heap s" "queue s' = queue s" "events s' = events s" "handles s' = handles s"
      "signalled s' = signalled s" "freed s' = freed s"
    and toks: "tokens s' + X' = tokens s + X"
    and frames: "\<And>f. f \<in> frames s' \<Longrightarrow> frame_ok s f"
    and flush: "\<And>t. t < length (heap s) \<Longrightarrow> flush_ok s Y t \<Longrightarrow> flush_ok s' Y' t"
  shows "inv_hole s' X' Y'"
  using inv toks frames flush undone_cong[OF same(1,5,6)]
  unfolding inv_hole_def heap_only[OF same(1)] same by auto

lemma pop_inv:
  assumes inv: "inv_hole s X Y" and i: "i < length (stacks s)" and st: "stacks s ! i = f # fs"
    and Y': "Y \<subseteq> Y'" "\<And>t. f = Fr_run_continuations t \<Longrightarrow> t \<in> Y'"
  shows "inv_hole (pop_frame i s) (X + tok f) Y'"
proof (rule inv_hole_heap_same[OF inv])
  show "tokens (pop_frame i s) + (X + tok f) = tokens s + X"
    using tokens_pop[OF i st] by (metis add.assoc add.commute)
  show "frame_ok s g" if "g \<in> frames (pop_frame i s)" for g
    using that frames_pop(1)[OF i st] inv_holeD(6)[OF inv] by auto
  show "flush_ok (pop_frame i s) Y' t" if "flush_ok s Y t" for t
    using that frames_pop[OF i st] Y' by (auto simp: flush_ok_def)
qed simp_all

lemma push_inv:
  assumes inv: "inv_hole s X Y" and i: "i < length (stacks s)"
    and X: "X = sum_list (map tok fs) + X'"
    and ok: "\<And>f. f \<in> set fs \<Longrightarrow> frame_ok s f"
    and Y: "\<And>t. t \<in> Y \<Longrightarrow> t \<in> Y' \<or> Fr_run_continuations t \<in> set fs"
    and add: "\<And>t c sd. Fr_try_add t c sd \<in> set fs \<Longrightarrow> is_finished (state (obj s t)) \<Longrightarrow>
      conts_locked (obj s t) \<or> t \<in> Y' \<or> Fr_run_continuations t \<in> frames s"
  shows "inv_hole (push i fs s) X' Y'"
proof (rule inv_hole_heap_same[OF inv])
  show "tokens (push i fs s) + X' = tokens s + X"
    using tokens_push[OF i] X by (simp add: ac_simps)
  show "frame_ok s g" if "g \<in> frames (push i fs s)" for g
    using that frames_push[OF i] ok inv_holeD(6)[OF inv] by auto
  show "flush_ok (push i fs s) Y' t" if "flush_ok s Y t" for t
    using that frames_push[OF i] Y by (auto simp: flush_ok_def dest: add)
qed simp_all

section \<open>Changing the object in hand\<close>

lemma upd_simps [simp]:
  "queue (upd t g s) = queue s" "events (upd t g s) = events s" "handles (upd t g s) = handles s"
  "signalled (upd t g s) = signalled s" "freed (upd t g s) = freed s"
  "null_deref (upd t g s) = null_deref s" "stacks (upd t g s) = stacks s"
  "length (heap (upd t g s)) = length (heap s)"
  by (simp_all add: upd_def)

lemma obj_upd: "t < length (heap s) \<Longrightarrow> obj (upd t g s) m = (if m = t then g (obj s t) else obj s m)"
  by (simp add: upd_def)

lemma frames_upd [simp]: "frames (upd t g s) = frames s"
  by (simp add: frames_def)

lemma tokens_upd:
  assumes t: "t < length (heap s)"
    and conts: "conts (g (obj s t)) = conts (obj s t)"
    and event: "t \<in> set (events s) \<Longrightarrow> (state (g (obj s t)) = Pending) = (state (obj s t) = Pending)"
  shows "tokens (upd t g s) + utok (func (obj s t)) = tokens s + utok (func (g (obj s t)))"
proof -
  have "sum_list ((map ctok (heap s))[t := ctok (g (obj s t))]) + ctok (obj s t)
      = sum_list (map ctok (heap s)) + ctok (g (obj s t))"
    using sum_list_update_add[of t "map ctok (heap s)" "ctok (g (obj s t))"] t by simp
  then have 1: "sum_list (map ctok (heap (upd t g s))) + utok (func (obj s t))
      = sum_list (map ctok (heap s)) + utok (func (g (obj s t)))"
    using conts by (simp add: upd_def map_update ctok_def)
  have 2: "etok (upd t g s) = etok s"
    unfolding etok_def using event t by (intro arg_cong[of _ _ mset] filter_cong) (auto simp: obj_upd)
  have 3: "ftok (upd t g s) = ftok s" by (simp add: ftok_def)
  show ?thesis
    unfolding tokens_def 2 3 using 1 by (simp add: ac_simps)
qed

lemma undone_upd:
  assumes t: "t < length (heap s)" "\<not> done_task s t"
  shows "undone s = undone (upd t g s) + (if is_finished (state (g (obj s t))) then {#t#} else {#})"
proof (rule multiset_eqI)
  fix n
  have "done_task (upd t g s) n = (if n = t then is_finished (state (g (obj s t))) else done_task s n)"
    using t by (auto simp: done_task_def obj_upd)
  then show "count (undone s) n
      = count (undone (upd t g s) + (if is_finished (state (g (obj s t))) then {#t#} else {#})) n"
    using t by (auto simp: count_undone)
qed

text \<open>
  The object in hand changes state, union or function; when it becomes finished it leaves the hand and
  its continuations are due.
\<close>

lemma upd_hand:
  assumes inv: "inv_hole s X Y" and hand: "t \<in># X"
    and conts: "conts (g (obj s t)) = conts (obj s t)" "conts_locked (g (obj s t)) = conts_locked (obj s t)"
    and wait: "\<And>w. func (obj s t) = Some (Wait_exec w) \<Longrightarrow> func (g (obj s t)) = Some (Wait_exec w)"
    and func: "func_ok (upd t g s) (g (obj s t))" and result: "result_ok (g (obj s t))"
    and event: "func (obj s t) = None \<Longrightarrow> func (g (obj s t)) = None \<and>
      (state (obj s t) \<noteq> Pending \<longrightarrow> state (obj s t) \<noteq> Unwrapped \<longrightarrow>
         state (g (obj s t)) \<noteq> Unwrapped \<and> state (g (obj s t)) \<noteq> Pending)"
    and X': "X + utok (func (obj s t)) = X' + utok (func (g (obj s t)))
       + (if is_finished (state (g (obj s t))) then {#t#} else {#})"
    and Y': "Y \<subseteq> Y'" "is_finished (state (g (obj s t))) \<Longrightarrow> t \<in> Y'"
  shows "inv_hole (upd t g s) X' Y'"
proof -
  have t: "t < length (heap s)" "\<not> done_task s t" "t \<notin># tokens s"
    using hand_unique[OF inv hand] by simp_all
  have ext: "ext s (upd t g s) {t}"
    using t wait by (auto simp: ext_def obj_upd done_task_def)
  have ev: "func (obj s t) = None \<and> state (obj s t) \<noteq> Pending \<and> state (obj s t) \<noteq> Unwrapped"
    if "t \<in> set (events s)"
    using that event_tokens[OF that] t inv_holeD(8)[OF inv that] by auto
  have toks: "tokens (upd t g s) + utok (func (obj s t)) = tokens s + utok (func (g (obj s t)))"
    using event ev by (intro tokens_upd[where g = g, OF t(1) conts(1)]) auto
  have "tokens (upd t g s) + X' + utok (func (g (obj s t)))
      + (if is_finished (state (g (obj s t))) then {#t#} else {#})
      = (tokens (upd t g s) + utok (func (obj s t))) + X"
    using X' by (simp add: ac_simps)
  also have "\<dots> = undone s + utok (func (g (obj s t)))"
    unfolding toks using inv_holeD(1)[OF inv] by (simp add: ac_simps)
  also have "\<dots> = undone (upd t g s) + utok (func (g (obj s t)))
      + (if is_finished (state (g (obj s t))) then {#t#} else {#})"
    using undone_upd[OF t(1,2), of g] by (simp add: ac_simps)
  finally have toks': "tokens (upd t g s) + X' = undone (upd t g s)" by simp
  show ?thesis
  proof (rule inv_hole_change[OF inv ext])
    show "func_ok (upd t g s) (obj (upd t g s) m) \<and> result_ok (obj (upd t g s) m)
        \<and> flush_ok (upd t g s) Y' m \<and> (length (heap s) \<le> m \<longrightarrow> conts_ok (upd t g s) m)
        \<and> (m \<in> set (events s) \<longrightarrow> func (obj (upd t g s) m) = None \<and> state (obj (upd t g s) m) \<noteq> Unwrapped)
        \<and> (m \<in> set (freed s) \<longrightarrow> func (obj (upd t g s) m) = None)"
      if "m < length (heap (upd t g s))" "m \<in> {t} \<or> length (heap s) \<le> m" for m
    proof -
      have m: "m = t" using that by auto
      show ?thesis
        using func result Y' event ev t(1,2) unfolding m
        by (auto simp: obj_upd flush_ok_def done_task_def)
    qed
  qed (use t conts toks' Y' in \<open>auto simp: obj_upd\<close>)
qed

section \<open>Changing the continuations of a task\<close>

lemma conts_change:
  assumes inv: "inv_hole s X Y" and t: "t < length (heap s)"
    and g: "state (g (obj s t)) = state (obj s t)" "slot (g (obj s t)) = slot (obj s t)"
      "func (g (obj s t)) = func (obj s t)"
    and conts: "conts_ok (upd t g s) t" and flush: "flush_ok (upd t g s) Y' t"
    and X: "mset (conts (g (obj s t))) + X' = mset (conts (obj s t)) + X"
    and Y: "\<And>m. m \<noteq> t \<Longrightarrow> m \<in> Y \<Longrightarrow> m \<in> Y'"
  shows "inv_hole (upd t g s) X' Y'"
proof -
  have ext: "ext s (upd t g s) {}" "ext (upd t g s) s {}"
    using t g by (auto simp: ext_def obj_upd)
  have "sum_list ((map ctok (heap s))[t := ctok (g (obj s t))]) + ctok (obj s t)
      = sum_list (map ctok (heap s)) + ctok (g (obj s t))"
    using sum_list_update_add[of t "map ctok (heap s)" "ctok (g (obj s t))"] t by simp
  then have "sum_list (map ctok (heap (upd t g s))) + mset (conts (obj s t))
      = sum_list (map ctok (heap s)) + mset (conts (g (obj s t)))"
    using g by (simp add: upd_def map_update ctok_def)
  moreover have "etok (upd t g s) = etok s"
    unfolding etok_def using g t by (intro arg_cong[of _ _ mset] filter_cong) (auto simp: obj_upd)
  ultimately have eq: "tokens (upd t g s) + mset (conts (obj s t)) = tokens s + mset (conts (g (obj s t)))"
    by (simp add: tokens_def ftok_def ac_simps)
  have "(tokens (upd t g s) + mset (conts (obj s t))) + X' = tokens s + (mset (conts (g (obj s t))) + X')"
    unfolding eq by (simp add: ac_simps)
  also have "\<dots> = (tokens s + X) + mset (conts (obj s t))"
    unfolding X by (simp add: ac_simps)
  finally have "tokens (upd t g s) + X' = tokens s + X"
    by (simp add: ac_simps)
  moreover have "done_task (upd t g s) m = done_task s m" for m
    using g t by (simp add: done_task_def obj_upd)
  then have "undone (upd t g s) = undone s" by (simp add: undone_def)
  moreover have "func_ok (upd t g s) (obj (upd t g s) m)" if "m < length (heap s)" for m
    by (rule func_ok_ext[OF inv_holeD(2)[OF inv that] ext(1) that]) auto
  moreover have "result_ok (obj (upd t g s) m)" if "m < length (heap s)" for m
    using inv_holeD(3)[OF inv that] g t by (auto simp: obj_upd result_ok_def)
  moreover have "conts_ok (upd t g s) m" if "m < length (heap s)" for m
  proof (cases "m = t")
    case False
    then show ?thesis
      using inv_holeD(4)[OF inv that] t waits_for_ext[OF _ ext(1)] by (simp add: conts_ok_def obj_upd) blast
  qed (use conts in simp)
  moreover have "flush_ok (upd t g s) Y' m" if "m < length (heap s)" for m
  proof (cases "m = t")
    case False
    then show ?thesis
      using inv_holeD(5)[OF inv that] t Y by (auto simp: flush_ok_def obj_upd)
  qed (use flush in simp)
  moreover have "frame_ok (upd t g s) f" if "f \<in> frames s" for f
    by (rule frame_ok_ext[OF inv_holeD(6)[OF inv that] ext(1)]) simp
  moreover have "\<exists>ex. runnable (upd t g s) c ex \<and> \<not> special ex" if "c \<in> set (queue s)" for c
    using inv_holeD(7)[OF inv that] runnable_ext[OF _ ext(1)] by auto
  moreover have "n < length (heap s) \<and> (\<exists>u < length (heap s).
      func (obj (upd t g s) n) = Some (Wait_exec u) \<and> is_finished (state (obj (upd t g s) u)))"
    if "n \<in> set (signalled s)" for n
    using inv_holeD(10)[OF inv that] extD(3)[OF ext(1)] finished_ext[OF _ _ ext(1)] by metis
  moreover have "m < length (heap s) \<and> func (obj (upd t g s) m) = None \<and> state (obj (upd t g s) m) \<noteq> Unwrapped"
    if "m \<in> set (events s)" for m
    using inv_holeD(8)[OF inv that] g t by (auto simp: obj_upd)
  moreover have "func (obj (upd t g s) m) = None" if "m \<in> set (freed s)" for m
    using inv_holeD(11)[OF inv that] g t by (auto simp: obj_upd)
  ultimately show ?thesis
    using inv_holeD(1,9)[OF inv] unfolding inv_hole_def upd_simps frames_upd
    by (intro conjI) (simp | blast)+
qed

lemma flush_conts:
  assumes inv: "inv_hole s X Y" and t: "t < length (heap s)" "is_finished (state (obj s t))"
  shows "inv_hole (upd t (\<lambda>ob. ob\<lparr>conts := [], conts_locked := True\<rparr>) s)
    (mset (conts (obj s t)) + X) (Y - {t})"
  using t by (intro conts_change[OF inv t(1)]) (auto simp: conts_ok_def flush_ok_def obj_upd)

lemma add_cont:
  assumes inv: "inv_hole s (add_mset c X) Y" and w: "waits_for s c t sd" and "\<not> conts_locked (obj s t)"
    and flush: "is_finished (state (obj s t)) \<Longrightarrow> t \<in> Y \<or> Fr_run_continuations t \<in> frames s"
  shows "inv_hole (upd t (\<lambda>ob. ob\<lparr>conts := conts ob @ [c]\<rparr>) s) X Y"
proof -
  have t: "t < length (heap s)" using w by (simp add: waits_for_def)
  let ?s = "upd t (\<lambda>ob. ob\<lparr>conts := conts ob @ [c]\<rparr>) s"
  have ext: "ext s ?s {}" using t by (auto simp: ext_def obj_upd)
  have "conts_ok ?s t"
    using inv_holeD(4)[OF inv t] waits_for_ext[OF _ ext] w assms(3) t
    unfolding conts_ok_def by (simp add: obj_upd) blast
  then show ?thesis
    using t flush by (intro conts_change[OF inv t]) (auto simp: flush_ok_def obj_upd)
qed

section \<open>Allocation\<close>

lemma alloc_simps [simp]:
  "queue (alloc ob s) = queue s" "events (alloc ob s) = events s" "handles (alloc ob s) = handles s"
  "signalled (alloc ob s) = signalled s" "freed (alloc ob s) = freed s"
  "null_deref (alloc ob s) = null_deref s" "stacks (alloc ob s) = stacks s"
  "length (heap (alloc ob s)) = Suc (length (heap s))" "heap (alloc ob s) = heap s @ [ob]"
  "frames (alloc ob s) = frames s"
  by (simp_all add: alloc_def frames_def)

lemma alloc_inv:
  assumes inv: "inv_hole s X Y" and ob: "conts ob = []" "\<not> conts_locked ob"
    "func_ok (alloc ob s) ob" "result_ok ob"
    and X: "X = utok (func ob) + X0"
    and X': "X' = (if is_finished (state ob) then X0 else add_mset (length (heap s)) X0)"
  shows "inv_hole (alloc ob s) X' Y"
proof (rule inv_hole_change[OF inv])
  let ?s = "alloc ob s"
  show ext: "ext s ?s {}" by (auto simp: ext_def nth_append)
  have "etok ?s = etok s"
    unfolding etok_def using inv_holeD(8)[OF inv]
    by (intro arg_cong[of _ _ mset] filter_cong) (auto simp: nth_append)
  then have toks: "tokens ?s = tokens s + utok (func ob)"
    using ob(1) by (simp add: tokens_def ftok_def ctok_def ac_simps)
  have same: "done_task ?s m = done_task s m" if "m < length (heap s)" for m
    using that by (simp add: done_task_def nth_append)
  have new: "done_task ?s (length (heap s)) = is_finished (state ob)"
    using inv_holeD(9,10)[OF inv, of "length (heap s)"] by (auto simp: done_task_def)
  have "filter (\<lambda>n. \<not> done_task ?s n) [0..<length (heap s)] = filter (\<lambda>n. \<not> done_task s n) [0..<length (heap s)]"
    using same by (intro filter_cong) auto
  then have "undone ?s = undone s + (if is_finished (state ob) then {#} else {#length (heap s)#})"
    using new by (simp add: undone_def)
  then show "tokens ?s + X' = undone ?s"
    using toks X X' inv_holeD(1)[OF inv] by (simp add: ac_simps)
  show "func_ok ?s (obj ?s m) \<and> result_ok (obj ?s m) \<and> flush_ok ?s Y m
      \<and> (length (heap s) \<le> m \<longrightarrow> conts_ok ?s m)
      \<and> (m \<in> set (events s) \<longrightarrow> func (obj ?s m) = None \<and> state (obj ?s m) \<noteq> Unwrapped)
      \<and> (m \<in> set (freed s) \<longrightarrow> func (obj ?s m) = None)"
    if "m < length (heap ?s)" "m \<in> {} \<or> length (heap s) \<le> m" for m
  proof -
    have m: "m = length (heap s)" using that by auto
    have "Fr_try_add m c sd \<notin> frames s" for c sd
      using inv_holeD(6)[OF inv, of "Fr_try_add m c sd"] m by (auto simp: waits_for_def)
    then show ?thesis
      using ob inv_holeD(8,9)[OF inv, of m] unfolding m by (auto simp: flush_ok_def conts_ok_def)
  qed
qed (auto simp: nth_append)

section \<open>Queues, handles, events and signals\<close>

lemma inv_hole_fields:
  assumes inv: "inv_hole s X Y" and heap: "heap s' = heap s" and stacks: "stacks s' = stacks s"
    and toks: "tokens s' + X' = undone s'"
    and queue: "\<And>c. c \<in> set (queue s') \<Longrightarrow> \<exists>ex. runnable s c ex \<and> \<not> special ex"
    and events: "\<And>t. t \<in> set (events s') \<Longrightarrow>
      t < length (heap s) \<and> func (obj s t) = None \<and> state (obj s t) \<noteq> Unwrapped"
    and bound: "\<And>t. t \<in> set (handles s') \<union> set (freed s') \<Longrightarrow> t < length (heap s)"
    and freed: "\<And>t. t \<in> set (freed s') \<Longrightarrow> func (obj s t) = None"
    and signalled: "\<And>n. n \<in> set (signalled s') \<Longrightarrow> n < length (heap s)
      \<and> (\<exists>t. t < length (heap s) \<and> func (obj s n) = Some (Wait_exec t) \<and> is_finished (state (obj s t)))"
  shows "inv_hole s' X' Y"
proof -
  have frames: "frames s' = frames s" using stacks by (simp add: frames_def)
  have flush: "flush_ok s' Y t = flush_ok s Y t" for t by (simp add: flush_ok_def heap frames)
  show ?thesis
    using inv_holeD(2-6)[OF inv] toks queue events bound freed signalled
    unfolding inv_hole_def heap_only[OF heap] heap frames flush by simp
qed

lemma enqueue_inv:
  assumes inv: "inv_hole s (add_mset c X) Y" and "runnable s c ex" "\<not> special ex"
  shows "inv_hole (s\<lparr>queue := queue s @ [c]\<rparr>) X Y"
proof (rule inv_hole_fields[OF inv])
  show "tokens (s\<lparr>queue := queue s @ [c]\<rparr>) + X = undone (s\<lparr>queue := queue s @ [c]\<rparr>)"
    using inv_holeD(1)[OF inv] by (simp add: tokens_def ftok_def etok_def undone_def done_task_def)
qed (use assms inv_holeD(7-11)[OF inv] in auto)

lemma mset_remove_nth: "k < length xs \<Longrightarrow> add_mset (xs ! k) (mset (remove_nth k xs)) = mset xs"
  using arg_cong[OF id_take_nth_drop[of k xs], of mset] by (simp add: remove_nth_def)

lemma set_remove_nth: "set (remove_nth k xs) \<subseteq> set xs"
  by (auto simp: remove_nth_def dest: in_set_takeD in_set_dropD)

lemma dequeue_inv:
  assumes inv: "inv_hole s X Y" and k: "k < length (queue s)"
  shows "inv_hole (s\<lparr>queue := remove_nth k (queue s)\<rparr>) (add_mset (queue s ! k) X) Y"
proof (rule inv_hole_fields[OF inv])
  let ?s = "s\<lparr>queue := remove_nth k (queue s)\<rparr>"
  show "tokens ?s + add_mset (queue s ! k) X = undone ?s"
    using inv_holeD(1)[OF inv]
    by (simp add: tokens_def ftok_def etok_def undone_def done_task_def flip: mset_remove_nth[OF k])
  show "\<exists>ex. runnable s c ex \<and> \<not> special ex" if "c \<in> set (queue ?s)" for c
    using that inv_holeD(7)[OF inv, of c] set_remove_nth[of k "queue s"] by auto
qed (use inv_holeD(8-11)[OF inv] in auto)

lemma handles_inv:
  assumes inv: "inv_hole s X Y" and "\<forall>t \<in> set hs. t < length (heap s)"
  shows "inv_hole (s\<lparr>handles := hs\<rparr>) X Y"
proof (rule inv_hole_fields[OF inv])
  show "tokens (s\<lparr>handles := hs\<rparr>) + X = undone (s\<lparr>handles := hs\<rparr>)"
    using inv_holeD(1)[OF inv] by (simp add: tokens_def ftok_def etok_def undone_def done_task_def)
qed (use assms inv_holeD(7-11)[OF inv] in auto)

lemma null_deref_inv:
  assumes inv: "inv_hole s X Y"
  shows "inv_hole (s\<lparr>null_deref := b\<rparr>) X Y"
proof (rule inv_hole_fields[OF inv])
  show "tokens (s\<lparr>null_deref := b\<rparr>) + X = undone (s\<lparr>null_deref := b\<rparr>)"
    using inv_holeD(1)[OF inv] by (simp add: tokens_def ftok_def etok_def undone_def done_task_def)
qed (use assms inv_holeD(7-11)[OF inv] in auto)

lemma events_inv:
  assumes inv: "inv_hole s X Y"
    and es: "\<forall>t \<in> set es. t < length (heap s) \<and> func (obj s t) = None \<and> state (obj s t) \<noteq> Unwrapped"
    and X: "mset (filter (\<lambda>t. state (obj s t) = Pending) es) + X' = etok s + X"
  shows "inv_hole (s\<lparr>events := es\<rparr>) X' Y"
proof (rule inv_hole_fields[OF inv])
  let ?s = "s\<lparr>events := es\<rparr>"
  have "tokens ?s + X' = mset (queue s) + sum_list (map ctok (heap s)) + ftok s
      + (mset (filter (\<lambda>t. state (obj s t) = Pending) es) + X')"
    by (simp add: tokens_def ftok_def etok_def ac_simps)
  also have "\<dots> = undone s"
    unfolding X using inv_holeD(1)[OF inv] by (simp add: tokens_def ac_simps)
  finally show "tokens ?s + X' = undone ?s" by (simp add: undone_def done_task_def)
qed (use es inv_holeD(7-11)[OF inv] in auto)

lemma undone_mark:
  assumes "heap s' = heap s" "done_task s' = (\<lambda>m. m = n \<or> done_task s m)" "n < length (heap s)"
    "\<not> done_task s n"
  shows "undone s = add_mset n (undone s')"
  using assms by (intro multiset_eqI) (auto simp: count_undone)

lemma signal_inv:
  assumes inv: "inv_hole s (add_mset n X) Y" and "func (obj s n) = Some (Wait_exec t)"
    "t < length (heap s)" "is_finished (state (obj s t))"
  shows "inv_hole (s\<lparr>signalled := n # signalled s\<rparr>) X Y"
proof (rule inv_hole_fields[OF inv])
  let ?s = "s\<lparr>signalled := n # signalled s\<rparr>"
  have n: "n < length (heap s)" "\<not> done_task s n" using hand_unique[OF inv, of n] by simp_all
  have "undone s = add_mset n (undone ?s)"
    using n by (intro undone_mark) (auto simp: done_task_def)
  then show "tokens ?s + X = undone ?s"
    using inv_holeD(1)[OF inv] by (simp add: tokens_def ftok_def etok_def)
  show "m < length (heap s)
      \<and> (\<exists>t. t < length (heap s) \<and> func (obj s m) = Some (Wait_exec t) \<and> is_finished (state (obj s t)))"
    if "m \<in> set (signalled ?s)" for m
    using that inv_holeD(10)[OF inv, of m] assms(2-4) n(1) by auto
qed (use inv_holeD(7-9,11)[OF inv] in auto)

lemma free_inv:
  assumes inv: "inv_hole s (add_mset n X) Y" and "func (obj s n) = None"
  shows "inv_hole (s\<lparr>freed := n # freed s\<rparr>) X Y"
proof (rule inv_hole_fields[OF inv])
  let ?s = "s\<lparr>freed := n # freed s\<rparr>"
  have n: "n < length (heap s)" "\<not> done_task s n" using hand_unique[OF inv, of n] by simp_all
  have "undone s = add_mset n (undone ?s)"
    using n by (intro undone_mark) (auto simp: done_task_def)
  then show "tokens ?s + X = undone ?s"
    using inv_holeD(1)[OF inv] by (simp add: tokens_def ftok_def etok_def)
qed (use assms(2) inv_holeD(7-11)[OF inv] hand_unique(1)[OF inv, of n] in auto)

section \<open>Library steps\<close>

lemma upd_upd [simp]: "upd t g (upd t h s) = upd t (\<lambda>ob. g (h ob)) s"
  by (cases "t < length (heap s)") (simp_all add: upd_def list_update_beyond)

lemma func_ok_None [simp]: "func ob = None \<Longrightarrow> func_ok s ob"
  by (simp add: func_ok_def)

lemma utok_simps [simp]: "utok None = {#}" "utok (Some (Root_exec u)) = {#}"
  "utok (Some (Cont_exec p k u)) = {#}" "utok (Some (Unwrap_exec c p)) = {#p#}"
  "utok (Some (Unwrap_called c p)) = {#}" "utok (Some (Wait_exec w)) = {#}"
  by (simp_all add: utok_def)

lemma special_simps [simp]: "\<not> special (Root_exec u)" "\<not> special (Cont_exec p k u)"
  "special (Unwrap_exec c p)" "special (Unwrap_called c p)" "special (Wait_exec w)"
  by (simp_all add: special_def)

lemma utok_ordinary [simp]: "\<not> special ex \<Longrightarrow> utok (Some ex) = {#}"
  by (cases ex) simp_all

lemma exec_return_inv:
  assumes inv: "inv_hole s {#t#} {}" and i: "i < length (stacks s)" and ok: "frame_ok s (Fr_return t v)"
  shows "inv_hole (exec_return i t v s) {#} {}"
proof -
  obtain ex where t: "t < length (heap s)" and ex: "func (obj s t) = Some ex" "utok (Some ex) = {#}"
    and nw: "\<And>w. ex \<noteq> Wait_exec w"
    using ok by auto
  have pending: "state (obj s t) = Pending"
    using inv_holeD(2)[OF inv t] ex by (simp add: func_ok_def)
  let ?s = "upd t (\<lambda>ob. ob\<lparr>slot := Slot_result v, func := None\<rparr>) s"
  have "inv_hole ?s {#t#} {}"
    using ex pending nw by (intro upd_hand[OF inv]) (auto simp: result_ok_def)
  then have "inv_hole (push i [Fr_finish t] ?s) {#} {}"
    using i t pending by (intro push_inv) (auto simp: unfinished_def obj_upd)
  then show ?thesis by (simp add: exec_return_def destroy_func_def set_result_def)
qed

lemma finish_inv:
  assumes inv: "inv_hole s {#t#} {}" and i: "i < length (stacks s)" and ok: "frame_ok s (Fr_finish t)"
  shows "inv_hole (finish i t s) {#} {}"
proof -
  have t: "t < length (heap s)" "func (obj s t) = None" "\<exists>v. slot (obj s t) = Slot_result v"
    using ok by (auto simp: unfinished_def)
  have "inv_hole (set_state t Completed s) {#} {t}"
    unfolding set_state_def using t by (intro upd_hand[OF inv]) (auto simp: result_ok_def)
  then show ?thesis
    unfolding finish_def using i t by (intro push_inv) (auto simp: obj_upd set_state_def)
qed

lemma cancel_base_inv:
  assumes inv: "inv_hole s {#t#} {}" and i: "i < length (stacks s)" and ok: "frame_ok s (Fr_cancel_base t e)"
  shows "inv_hole (cancel_base i t e s) {#} {}"
proof -
  have t: "t < length (heap s)" "func (obj s t) = None"
    using ok by (auto simp: unfinished_def)
  have "inv_hole (set_state t Canceled (set_exception t e s)) {#} {t}"
    unfolding set_state_def set_exception_def upd_upd
    using t by (intro upd_hand[OF inv]) (auto simp: result_ok_def)
  then show ?thesis
    unfolding cancel_base_def using i t by (intro push_inv) (auto simp: obj_upd set_state_def set_exception_def)
qed

lemma cancel_task_inv:
  assumes inv: "inv_hole s {#t#} {}" and i: "i < length (stacks s)" and ok: "frame_ok s (Fr_cancel t e)"
  shows "inv_hole (cancel_task i t e s) {#} {}"
proof -
  obtain ex where ex: "t < length (heap s)" "func (obj s t) = Some ex" "\<not> special ex"
    using ok by (auto simp: runnable_def)
  then have pending: "state (obj s t) = Pending"
    using inv_holeD(2)[OF inv] by (simp add: func_ok_def)
  have "inv_hole (destroy_func t s) {#t#} {}"
    unfolding destroy_func_def
    using ex pending by (intro upd_hand[OF inv]) (auto simp: result_ok_def)
  then show ?thesis
    unfolding cancel_task_def
    using i ex pending by (intro push_inv) (auto simp: unfinished_def obj_upd destroy_func_def)
qed

lemma sum_tok_schedule [simp]: "sum_list (map (tok \<circ> Fr_schedule) cs) = mset cs"
  by (induction cs) simp_all

lemma run_continuations_inv:
  assumes inv: "inv_hole s {#} {t}" and i: "i < length (stacks s)"
    and ok: "frame_ok s (Fr_run_continuations t)"
  shows "inv_hole (run_continuations i t s) {#} {}"
proof -
  let ?s = "upd t (\<lambda>ob. ob\<lparr>conts := [], conts_locked := True\<rparr>) s"
  have t: "t < length (heap s)" "is_finished (state (obj s t))" using ok by simp_all
  have ext: "ext s ?s {}" using t by (auto simp: ext_def obj_upd)
  have "frame_ok ?s (Fr_schedule c)" if "c \<in> set (conts (obj s t))" for c
  proof -
    obtain sd where "waits_for s c t sd"
      using inv_holeD(4)[OF inv t(1)] \<open>c \<in> set (conts (obj s t))\<close> by (auto simp: conts_ok_def)
    then show ?thesis using waits_for_ext[OF _ ext, of c t sd] t by (auto simp: obj_upd)
  qed
  then show ?thesis
    unfolding run_continuations_def
    using i flush_conts[OF inv t] by (intro push_inv[where X = "mset (conts (obj s t))"]) auto
qed

lemma schedule_cont_inv:
  assumes inv: "inv_hole s {#c#} {}" and i: "i < length (stacks s)" and ok: "frame_ok s (Fr_schedule c)"
    and step: "schedule_cont i c s = Some s'"
  shows "inv_hole s' {#} {}"
proof -
  obtain t sd where w: "waits_for s c t sd" "is_finished (state (obj s t))" using ok by auto
  then have "s' = push i [Fr_run_continuation c sd] s"
    using step by (auto simp: schedule_cont_def waits_for_def)
  then show ?thesis using w i by (auto intro!: push_inv[OF inv])
qed

lemma waits_runnable:
  assumes "waits_for s c t sd" "is_finished (state (obj s t))"
  obtains ex where "runnable s c ex" "special ex \<longrightarrow> sd = Inline"
  using assms by (auto simp: waits_for_def runnable_def)

lemma schedule_task_inv:
  assumes inv: "inv_hole s {#c#} {}" and i: "i < length (stacks s)"
    and ex: "runnable s c ex" "special ex \<longrightarrow> sd = Inline"
  shows "inv_hole (snd (schedule_task i c sd accept s)) {#} {}"
proof (cases sd)
  case Inline
  then show ?thesis
    using ex i by (auto simp: schedule_task_def intro!: push_inv[OF inv])
next
  case (Pool n)
  have "inv_hole (push i [Fr_cancel c Task_not_executed] s) {#} {}"
    using ex i Pool by (intro push_inv[OF inv]) auto
  moreover have "inv_hole (s\<lparr>queue := queue s @ [c]\<rparr>) {#} {}"
    using ex Pool by (intro enqueue_inv[OF inv, of ex]) auto
  ultimately show ?thesis using Pool by (simp add: schedule_task_def)
qed

lemma schedule_task_fields:
  "handles (snd (schedule_task i c sd accept s)) = handles s"
  "heap (snd (schedule_task i c sd accept s)) = heap s"
  by (simp_all add: schedule_task_def split: sched.split)

lemma run_continuation_inv:
  assumes inv: "inv_hole s {#c#} {}" and i: "i < length (stacks s)"
    and ok: "frame_ok s (Fr_run_continuation c sd)"
  shows "inv_hole (run_continuation i c sd accept s) {#} {}"
proof -
  obtain ex where ex: "runnable s c ex" "special ex \<longrightarrow> sd = Inline"
    using ok waits_runnable by (metis frame_ok.simps(9))
  have "inv_hole (snd (schedule_task i c sd accept s)) {#} {}"
    by (rule schedule_task_inv[OF inv i ex])
  moreover let ?c = "push i [Fr_catch (moved_from (Some c))] s"
  have c: "inv_hole ?c {#c#} {}" using i by (intro push_inv[OF inv]) (auto simp: moved_from_def)
  have i': "i < length (stacks ?c)" using i by (simp add: push_def)
  have ex: "runnable ?c c ex" "special ex \<longrightarrow> sd = Inline" using ex heap_only(2)[of ?c s] by simp_all
  ultimately show ?thesis
    using schedule_task_inv[OF c i' ex] by (auto simp: run_continuation_def split: prod.splits bool.splits)
qed

lemma catch_block_inv:
  assumes inv: "inv_hole s {#} {}" and ok: "frame_ok s (Fr_catch cont)"
  shows "inv_hole (catch_block i cont s) {#} {}"
  using null_deref_inv[OF inv] ok by (simp add: catch_block_def)

lemma add_continuation_inv:
  assumes inv: "inv_hole s {#c#} {}" and i: "i < length (stacks s)"
    and ok: "frame_ok s (Fr_add_continuation t c sd)"
  shows "inv_hole (add_continuation i t c sd s) {#} {}"
  using ok i by (auto simp: add_continuation_def intro!: push_inv[OF inv])

lemma try_add_inv:
  assumes inv: "inv_hole s {#c#} {}" and i: "i < length (stacks s)" and ok: "frame_ok s (Fr_try_add t c sd)"
    and flush: "is_finished (state (obj s t)) \<Longrightarrow> conts_locked (obj s t) \<or> Fr_run_continuations t \<in> frames s"
  shows "inv_hole (try_add i t c sd s) {#} {}"
proof (cases "conts_locked (obj s t)")
  case True
  have w: "waits_for s c t sd" using ok by simp
  then have "is_finished (state (obj s t))"
    using True inv_holeD(4)[OF inv, of t] by (auto simp: waits_for_def conts_ok_def)
  then show ?thesis
    using True w i by (auto simp: try_add_def intro!: push_inv[OF inv])
next
  case False
  then show ?thesis
    using ok flush add_cont[OF inv] by (auto simp: try_add_def)
qed

section \<open>Running a task\<close>

lemma continuation_exec_inv:
  assumes inv: "inv_hole s {#t#} {}" and i: "i < length (stacks s)"
    and ex: "runnable s t (Cont_exec p k u)" and step: "continuation_exec i t p k s = Some s'"
  shows "inv_hole s' {#} {}"
proof -
  have p: "p < length (heap s)" "is_finished (state (obj s p))" using ex by (auto simp: runnable_def)
  have push: "inv_hole (push i [f] s0) {#} {}"
    if "inv_hole s0 {#t#} {}" "stacks s0 = stacks s" "frame_ok s0 f" "tok f = {#t#}"
      "\<And>t c sd. f \<noteq> Fr_try_add t c sd" for f s0
    using that i by (intro push_inv[OF that(1)]) auto
  show ?thesis
  proof (cases k)
    case By_task
    let ?s = "s\<lparr>handles := p # handles s\<rparr>"
    have "frame_ok ?s (Fr_user t (Arg_task p))"
      using ex By_task unfolding heap_only(7)[of ?s s, simplified] by (auto simp: arg_ok_def)
    moreover have "inv_hole ?s {#t#} {}"
      using p inv_holeD(9)[OF inv] by (intro handles_inv[OF inv]) auto
    ultimately show ?thesis
      using step By_task push by (auto simp: continuation_exec_def simp del: frame_ok.simps)
  next
    case By_value
    show ?thesis
    proof (cases "state (obj s p) = Canceled")
      case True
      then show ?thesis
        using step By_value ex by (auto simp: continuation_exec_def intro!: push[OF inv] exI[of _ "Cont_exec p k u"])
    next
      case False
      then have "state (obj s p) = Completed" using p(2) by (cases "state (obj s p)") auto
      then show ?thesis
        using step By_value ex
        by (auto simp: continuation_exec_def arg_ok_def get_result_def split: result_union.splits
            intro!: push[OF inv] exI[of _ "Cont_exec p k u"])
    qed
  next
    case By_void
    show ?thesis
    proof (cases "state (obj s p) = Canceled")
      case True
      then show ?thesis
        using step By_void ex by (auto simp: continuation_exec_def intro!: push[OF inv] exI[of _ "Cont_exec p k u"])
    next
      case False
      then have "state (obj s p) = Completed" using p(2) by (cases "state (obj s p)") auto
      then show ?thesis
        using step By_void ex
        by (auto simp: continuation_exec_def arg_ok_def intro!: push[OF inv] exI[of _ "Cont_exec p k u"])
    qed
  qed
qed

lemma unwrapped_func_inv:
  assumes inv: "inv_hole s {#t#} {}" and i: "i < length (stacks s)"
    and ex: "runnable s t (Unwrap_exec c p)" and step: "unwrapped_func i t c p s = Some s'"
  shows "inv_hole s' {#} {}"
proof -
  let ?s = "upd t (\<lambda>ob. ob\<lparr>func := Some (Unwrap_called c p)\<rparr>) s"
  have t: "t < length (heap s)" "func (obj s t) = Some (Unwrap_exec c p)"
    and c: "c < length (heap s)" "is_finished (state (obj s c))"
    using ex by (auto simp: runnable_def)
  have f: "state (obj s t) = Pending" "slot (obj s t) = Slot_sched Inline" "unfinished s p"
    using inv_holeD(2)[OF inv t(1)] t(2) by (simp_all add: func_ok_def)
  have p: "p < length (heap s)" "p \<noteq> t" using f(3) t by (auto simp: unfinished_def)
  have inv1: "inv_hole ?s {#t, p#} {}"
    using t f c by (intro upd_hand[OF inv]) (auto simp: func_ok_def result_ok_def)
  have p': "unfinished ?s p" using f(3) p t by (auto simp: unfinished_def obj_upd)
  have ret: "frame_ok ?s (Fr_return t Fake_void)" using t by (simp add: obj_upd)
  show ?thesis
  proof (cases "state (obj s c) = Completed")
    case True
    then obtain v where "get_result c s = Some v"
      using step by (auto simp: unwrapped_func_def)
    let ?s2 = "set_result p v ?s"
    have inv2: "inv_hole ?s2 {#t, p#} {}"
      unfolding set_result_def
      using p' p t by (intro upd_hand[OF inv1]) (auto simp: result_ok_def unfinished_def obj_upd)
    have "frame_ok ?s2 (Fr_return t Fake_void)" "frame_ok ?s2 (Fr_finish p)"
      using p t p' by (auto simp: set_result_def obj_upd unfinished_def)
    then have "inv_hole (push i [Fr_finish p, Fr_return t Fake_void] ?s2) {#} {}"
      using i by (intro push_inv[OF inv2]) (auto simp: set_result_def simp del: frame_ok.simps)
    then show ?thesis
      using step True \<open>get_result c s = Some v\<close> by (simp add: unwrapped_func_def)
  next
    case False
    then obtain e where e: "get_exception c s = Some e"
      using step by (auto simp: unwrapped_func_def)
    have "inv_hole (push i [Fr_cancel_base p e, Fr_return t Fake_void] ?s) {#} {}"
      using i p' ret by (intro push_inv[OF inv1]) (auto simp del: frame_ok.simps(3))
    then show ?thesis
      using step False e by (simp add: unwrapped_func_def)
  qed
qed

lemma run_task_inv:
  assumes inv: "inv_hole s {#t#} {}" and i: "i < length (stacks s)" and ok: "frame_ok s (Fr_run t)"
    and step: "run_task i t s = Some s'"
  shows "inv_hole s' {#} {}"
proof -
  obtain ex where ex: "runnable s t ex" using ok by auto
  then have f: "func (obj s t) = Some ex" by (simp add: runnable_def)
  show ?thesis
  proof (cases ex)
    case (Root_exec u)
    then have "s' = push i [Fr_user t Arg_none] s" using step f by (simp add: run_task_def)
    then show ?thesis
      using ex Root_exec i by (auto simp: arg_ok_def intro!: push_inv[OF inv] exI[of _ ex])
  next
    case (Cont_exec p k u)
    then show ?thesis using step f ex continuation_exec_inv[OF inv i] by (simp add: run_task_def)
  next
    case (Unwrap_exec c p)
    then show ?thesis using step f ex unwrapped_func_inv[OF inv i] by (simp add: run_task_def)
  next
    case (Unwrap_called c p)
    then show ?thesis using step f by (simp add: run_task_def)
  next
    case (Wait_exec w)
    then show ?thesis
      using step f ex signal_inv[OF inv, of w] by (auto simp: run_task_def runnable_def)
  qed
qed

section \<open>Waiting and unwrapping allocate a continuation\<close>

lemma new_task_simps [simp]:
  "state (new_task sl f) = Pending" "conts (new_task sl f) = []" "\<not> conts_locked (new_task sl f)"
  "slot (new_task sl f) = sl" "func (new_task sl f) = f" "result_ok (new_task sl f)"
  by (simp_all add: new_task_def result_ok_def)

lemma obj_alloc [simp]: "obj (alloc ob s) (length (heap s)) = ob"
  "m < length (heap s) \<Longrightarrow> obj (alloc ob s) m = obj s m"
  by (simp_all add: nth_append)

lemma waits_for_alloc:
  assumes "parent_of ex = Some t" "t < length (heap s)" "special ex \<longrightarrow> sd = Inline" "\<And>a b. ex \<noteq> Unwrap_called a b"
  shows "waits_for (alloc (new_task (Slot_sched sd) (Some ex)) s) (length (heap s)) t sd"
  using assms by (auto simp: waits_for_def simp del: alloc_simps(9))

lemma set_thread_wait_handler_inv: "inv_hole s X Y \<Longrightarrow> inv_hole (set_thread_wait_handler i h s) X Y"
proof -
  assume inv: "inv_hole s X Y"
  have "frames (s\<lparr>wait_handlers := hs\<rparr>) = frames s" "tokens (s\<lparr>wait_handlers := hs\<rparr>) = tokens s"
    "undone (s\<lparr>wait_handlers := hs\<rparr>) = undone s" "flush_ok (s\<lparr>wait_handlers := hs\<rparr>) = flush_ok s" for hs
    by (simp_all add: frames_def tokens_def ftok_def etok_def undone_def done_task_def flush_ok_def fun_eq_iff)
  then show ?thesis using inv heap_only[of "s\<lparr>wait_handlers := (wait_handlers s)[i := h]\<rparr>" s]
    by (simp add: set_thread_wait_handler_def inv_hole_def)
qed

lemma on_finish_inv:
  assumes inv: "inv_hole s {#} {}" and i: "i < length (stacks s)" and t: "t < length (heap s)"
  shows "inv_hole (on_finish i t s) {#} {}"
proof -
  let ?s = "alloc (new_task (Slot_sched Inline) (Some (Wait_exec t))) s"
  have "inv_hole ?s {#length (heap s)#} {}"
    using t by (intro alloc_inv[OF inv]) (auto simp: func_ok_def)
  moreover have "waits_for ?s (length (heap s)) t Inline"
    using t by (intro waits_for_alloc) auto
  ultimately show ?thesis
    using i unfolding on_finish_def by (intro push_inv) (auto simp del: alloc_simps(9) simp: alloc_simps(8))
qed

lemma wait_task_inv:
  assumes inv: "inv_hole s {#} {}" and i: "i < length (stacks s)" and ok: "frame_ok s (Fr_wait t)"
  shows "inv_hole (wait_task i t s) {#} {}"
proof (cases "is_finished (state (obj s t))")
  case False
  have t: "t < length (heap s)" using ok by simp
  let ?s = "alloc (new_task (Slot_sched Inline) (Some (Wait_exec t))) s"
  have "inv_hole ?s {#length (heap s)#} {}"
    using t by (intro alloc_inv[OF inv]) (auto simp: func_ok_def)
  moreover have "waits_for ?s (length (heap s)) t Inline"
    using t by (intro waits_for_alloc) auto
  ultimately have "inv_hole (push i [Fr_add_continuation t (length (heap s)) Inline,
      Fr_waiting t (length (heap s))] ?s) {#} {}"
    using i by (intro push_inv) (auto simp del: alloc_simps(9) simp: alloc_simps(8))
  moreover have "push i [Fr_add_continuation t (length (heap s)) Inline, Fr_waiting t (length (heap s))] ?s
      = generic_wait_handler i t s"
    using i by (simp add: generic_wait_handler_def on_finish_def push_def alloc_def)
  moreover have "inv_hole (push i [Fr_handler t] s) {#} {}" using i t by (intro push_inv[OF inv]) auto
  ultimately show ?thesis using False by (simp add: wait_task_def wait_for_task_def split: wait_handler.splits)
qed (use inv in \<open>simp add: wait_task_def\<close>)

lemma unwrapped_finish_inv:
  assumes inv: "inv_hole s {#t#} {}" and i: "i < length (stacks s)"
    and ex: "runnable s t ex" "\<not> special ex" and child: "\<And>c. child = Some c \<Longrightarrow> c < length (heap s)"
  shows "inv_hole (unwrapped_finish i t child s) {#} {}"
proof -
  let ?s = "destroy_func t (set_state t Unwrapped s)"
  have t: "t < length (heap s)" "func (obj s t) = Some ex" using ex by (auto simp: runnable_def)
  have inv1: "inv_hole ?s {#t#} {}"
    unfolding destroy_func_def set_state_def upd_upd
    using t ex by (intro upd_hand[OF inv]) (auto simp: result_ok_def)
  have unf: "unfinished ?s t"
    using t by (simp add: unfinished_def destroy_func_def set_state_def obj_upd)
  have len: "length (heap ?s) = length (heap s)" by (simp add: destroy_func_def set_state_def)
  have st: "stacks ?s = stacks s" by (simp add: destroy_func_def set_state_def)
  show ?thesis
  proof (cases child)
    case None
    have "inv_hole (push i [Fr_crash t] (?s\<lparr>null_deref := True\<rparr>)) {#} {}"
      using i unf st heap_only(4)[of "?s\<lparr>null_deref := True\<rparr>" ?s] by (intro push_inv[OF null_deref_inv[OF inv1]]) auto
    then show ?thesis
      using None i unf st push_inv[OF inv1, of i "[Fr_cancel_base t Invalid_argument]"]
      by (simp add: unwrapped_finish_def Let_def)
  next
    case (Some c)
    let ?a = "alloc (new_task (Slot_sched Inline) (Some (Unwrap_exec c t))) ?s"
    have c: "c < length (heap s)" using child Some by simp
    have "unfinished ?a t" using unf len by (simp add: unfinished_def nth_append)
    then have "inv_hole ?a {#length (heap s)#} {}"
      using c t len by (intro alloc_inv[OF inv1]) (auto simp: func_ok_def)
    moreover have "waits_for ?a (length (heap s)) c Inline"
      using c len waits_for_alloc[of "Unwrap_exec c t" c ?s Inline] by simp
    ultimately have "inv_hole (push i [Fr_add_continuation c (length (heap s)) Inline] ?a) {#} {}"
      using i st by (intro push_inv) auto
    then show ?thesis
      using Some by (simp add: unwrapped_finish_def Let_def)
  qed
qed

lemma user_returns_inv:
  assumes inv: "inv_hole s {#t#} {}" and i: "i < length (stacks s)" and ok: "frame_ok s (Fr_user t a)"
    and step: "user_returns i t out s = Some s'"
  shows "inv_hole s' {#} {}"
proof -
  obtain ex where ex: "runnable s t ex" "arg_ok s ex a" using ok by auto
  then have f: "func (obj s t) = Some ex" "t < length (heap s)" by (simp_all add: runnable_def)
  have ord: "\<not> special ex" using ex(2) by (cases ex) (simp_all add: arg_ok_def)
  show ?thesis
  proof (cases out)
    case (Returns v)
    then have "s' = push i [Fr_return t v] s" using step f by (simp add: user_returns_def split: if_splits)
    then show ?thesis
      using f ord i by (auto intro!: push_inv[OF inv])
  next
    case (Throws e)
    then have "s' = push i [Fr_cancel t e] s" using step f by (simp add: user_returns_def)
    then show ?thesis
      using ex ord i by (auto intro!: push_inv[OF inv])
  next
    case (Returns_task child)
    show ?thesis
    proof (cases child)
      case None
      then show ?thesis
        using Returns_task step f ex ord unwrapped_finish_inv[OF inv i ex(1) ord, of None]
        by (simp add: user_returns_def split: if_splits)
    next
      case (Some c)
      let ?s = "s\<lparr>handles := remove1 c (handles s)\<rparr>"
      have c: "c \<in> set (handles s)" and s': "s' = unwrapped_finish i t (Some c) ?s"
        using Returns_task Some step f by (simp_all add: user_returns_def split: if_splits)
      have "inv_hole ?s {#t#} {}"
        using inv_holeD(9)[OF inv] by (intro handles_inv[OF inv]) (auto dest: set_remove1_subset[THEN subsetD])
      moreover have "runnable ?s t ex" using ex(1) by (simp add: runnable_def)
      moreover have "c < length (heap s)" using inv_holeD(9)[OF inv, of c] c by simp
      ultimately show ?thesis
        unfolding s' using i ord by (intro unwrapped_finish_inv) auto
    qed
  qed
qed

section \<open>Client operations\<close>

lemma upd_events: "upd t g (s\<lparr>events := es\<rparr>) = (upd t g s)\<lparr>events := es\<rparr>"
  by (simp add: upd_def)

lemma set_state_simps [simp]:
  "stacks (set_state t st s) = stacks s" "length (heap (set_state t st s)) = length (heap s)"
  "handles (set_state t st s) = handles s" "events (set_state t st s) = events s"
  by (simp_all add: set_state_def)

text \<open>The winner of the compare-exchange in \<open>set\<close> and \<open>set_exception\<close> takes over from the event.\<close>

lemma remove1_filter_pending:
  assumes "t \<in> set es" "P t"
  shows "mset (filter P es) = add_mset t (mset (filter P (remove1 t es)))"
  using assms by (induction es) auto

lemma event_take_inv:
  assumes inv: "inv_hole s {#} {}" and t: "t \<in> set (events s)" and pending: "state (obj s t) = Pending"
  shows "inv_hole (set_state t Locked s) {#t#} {}"
proof -
  let ?r = "s\<lparr>events := remove1 t (events s)\<rparr>"
  have sub: "\<forall>u \<in> set (remove1 t (events s)). u < length (heap s) \<and> func (obj s u) = None \<and> state (obj s u) \<noteq> Unwrapped"
    using inv_holeD(8)[OF inv] by (auto dest: set_remove1_subset[THEN subsetD])
  have "inv_hole ?r {#t#} {}"
    using remove1_filter_pending[of t "events s" "\<lambda>t. state (obj s t) = Pending"] t pending
    by (intro events_inv[OF inv sub]) (simp add: etok_def)
  then have locked: "inv_hole (set_state t Locked ?r) {#t#} {}"
    unfolding set_state_def
    using pending inv_holeD(8)[OF inv t] by (intro upd_hand) (auto simp: result_ok_def)
  have len: "t < length (heap s)" "func (obj s t) = None" using inv_holeD(8)[OF inv t] by simp_all
  let ?l = "set_state t Locked ?r"
  have obj: "obj ?l m = (if m = t then (obj s t)\<lparr>state := Locked\<rparr> else obj s m)" for m
    using len by (simp add: set_state_def upd_events obj_upd)
  have "inv_hole (?l\<lparr>events := events s\<rparr>) {#t#} {}"
  proof (rule events_inv[OF locked])
    show "\<forall>u \<in> set (events s). u < length (heap ?l) \<and> func (obj ?l u) = None \<and> state (obj ?l u) \<noteq> Unwrapped"
      using inv_holeD(8)[OF inv] obj by auto
    have "t \<notin># etok ?l" using obj by (simp add: etok_def)
    have "mset (filter (\<lambda>u. state (obj ?l u) = Pending) (events s))
        = mset (filter (\<lambda>u. state (obj ?l u) = Pending) (remove1 t (events s)))"
      using obj[of t] by (induction "events s" arbitrary: s) (auto)
    then show "mset (filter (\<lambda>u. state (obj ?l u) = Pending) (events s)) + {#t#} = etok ?l + {#t#}"
      by (simp add: etok_def)
  qed
  moreover have "?l\<lparr>events := events s\<rparr> = set_state t Locked s"
    by (simp add: set_state_def upd_def)
  ultimately show ?thesis by simp
qed

lemma event_set_inv:
  assumes inv: "inv_hole s {#} {}" and i: "i < length (stacks s)" and t: "t \<in> set (events s)"
  shows "inv_hole (snd (event_set i t v s)) {#} {}"
proof (cases "state (obj s t) = Pending")
  case True
  let ?l = "set_state t Locked s"
  have len: "t < length (heap s)" "func (obj s t) = None" using inv_holeD(8)[OF inv t] by simp_all
  have inv1: "inv_hole ?l {#t#} {}" by (rule event_take_inv[OF inv t True])
  have inv2: "inv_hole (set_result t v ?l) {#t#} {}"
    unfolding set_result_def
    using len by (intro upd_hand[OF inv1]) (auto simp: result_ok_def set_state_def obj_upd)
  have "frame_ok (set_result t v ?l) (Fr_finish t)"
    using len by (simp add: set_result_def set_state_def obj_upd unfinished_def)
  then show ?thesis
    using True i push_inv[OF inv2, of i "[Fr_finish t]" "{#}" "{}"]
    by (simp add: event_set_def set_result_def del: frame_ok.simps)
qed (use inv in \<open>simp add: event_set_def\<close>)

lemma event_set_exception_inv:
  assumes inv: "inv_hole s {#} {}" and i: "i < length (stacks s)" and t: "t \<in> set (events s)"
  shows "inv_hole (snd (event_set_exception i t e s)) {#} {}"
proof (cases "state (obj s t) = Pending")
  case True
  have "unfinished (set_state t Locked s) t"
    using inv_holeD(8)[OF inv t] by (simp add: unfinished_def set_state_def obj_upd)
  then show ?thesis
    using True i push_inv[OF event_take_inv[OF inv t True], of i "[Fr_cancel_base t e]" "{#}" "{}"]
    by (simp add: event_set_exception_def)
qed (use inv in \<open>simp add: event_set_exception_def\<close>)

lemma drop_event_inv:
  assumes inv: "inv_hole s {#} {}" and t: "t \<in> set (events s)"
  shows "inv_hole (s\<lparr>events := remove1 t (events s)\<rparr>)
    (if state (obj s t) = Pending then {#t#} else {#}) {}"
proof (rule events_inv[OF inv])
  show "\<forall>u \<in> set (remove1 t (events s)). u < length (heap s) \<and> func (obj s u) = None \<and> state (obj s u) \<noteq> Unwrapped"
    using inv_holeD(8)[OF inv] by (auto dest: set_remove1_subset[THEN subsetD])
  have "filter P (remove1 t es) = filter P es" if "\<not> P t" for P and es :: "nat list"
    using that by (induction es) auto
  then show "mset (filter (\<lambda>u. state (obj s u) = Pending) (remove1 t (events s)))
      + (if state (obj s t) = Pending then {#t#} else {#}) = etok s + {#}"
    using remove1_filter_pending[of t "events s" "\<lambda>t. state (obj s t) = Pending"] t
    by (simp add: etok_def)
qed

lemma destroy_event_inv:
  assumes inv: "inv_hole s {#} {}" and i: "i < length (stacks s)" and t: "t \<in> set (events s)"
    and free: "state (obj s t) \<noteq> Locked"
  shows "inv_hole (destroy_event i t s) {#} {}"
proof -
  let ?r = "s\<lparr>events := remove1 t (events s)\<rparr>"
  have drop: "inv_hole ?r (if state (obj s t) = Pending then {#t#} else {#}) {}"
    by (rule drop_event_inv[OF inv t])
  consider "is_finished (state (obj s t))"
    | "sole_reference t s" "state (obj s t) = Pending"
    | "\<not> sole_reference t s" "state (obj s t) = Pending"
    using free inv_holeD(8)[OF inv t] by (cases "state (obj s t)") auto
  then show ?thesis
  proof cases
    case 1
    then have "state (obj s t) \<noteq> Pending" by auto
    with 1 drop show ?thesis by (simp add: destroy_event_def)
  next
    case 2
    then show ?thesis
      using drop free_inv[of ?r t "{#}" "{}"] inv_holeD(8)[OF inv t] by (simp add: destroy_event_def)
  next
    case 3
    let ?l = "set_state t Locked ?r"
    have len: "t < length (heap s)" "func (obj s t) = None" using inv_holeD(8)[OF inv t] by simp_all
    have r: "inv_hole ?r {#t#} {}" using drop 3 by simp
    have l: "inv_hole ?l {#t#} {}"
      unfolding set_state_def using len 3 by (intro upd_hand[OF r]) (auto simp: result_ok_def)
    have "unfinished ?l t" using len by (simp add: unfinished_def set_state_def upd_events obj_upd)
    then show ?thesis
      using 3 i push_inv[OF l, of i "[Fr_cancel_base t Abandoned_event_task]" "{#}" "{}"]
      by (simp add: destroy_event_def event_set_exception_def)
  qed
qed

lemma alloc_handles: "alloc ob (s\<lparr>handles := hs\<rparr>) = (alloc ob s)\<lparr>handles := hs\<rparr>"
  by (cases s) (simp add: alloc_def)

lemma alloc_events: "alloc ob (s\<lparr>events := es\<rparr>) = (alloc ob s)\<lparr>events := es\<rparr>"
  by (cases s) (simp add: alloc_def)

lemma then_internal_inv:
  assumes inv: "inv_hole s {#} {}" and i: "i < length (stacks s)" and t: "t \<in> set (handles s)"
  shows "inv_hole (then_internal i t shared sd k u s) {#} {}"
proof -
  let ?n = "length (heap s)"
  let ?hs = "if shared then handles s else remove1 t (handles s)"
  let ?a = "alloc (new_task (Slot_sched sd) (Some (Cont_exec t k u))) s"
  have len: "t < ?n" using inv_holeD(9)[OF inv] t by simp
  have a: "inv_hole ?a {#?n#} {}"
    using len by (intro alloc_inv[OF inv]) (auto simp: func_ok_def)
  have hs: "\<forall>m \<in> set (?n # ?hs). m < length (heap ?a)"
    using inv_holeD(9)[OF inv] by (auto dest!: set_remove1_subset[THEN subsetD] intro: less_SucI)
  have w: "waits_for ?a ?n t sd" using len by (intro waits_for_alloc) auto
  let ?b = "?a\<lparr>handles := ?n # ?hs\<rparr>"
  have "frame_ok ?b (Fr_add_continuation t ?n sd)"
    using w heap_only(7)[of ?b ?a] by simp
  then have "inv_hole (push i [Fr_add_continuation t ?n sd] ?b) {#} {}"
    using i by (intro push_inv[OF handles_inv[OF a hs]]) auto
  then show ?thesis by (simp add: then_internal_def Let_def alloc_handles)
qed

lemma spawn_inv:
  assumes inv: "inv_hole s {#} {}" and i: "i < length (stacks s)"
  shows "inv_hole (spawn i sd u accept s) {#} {}"
proof -
  let ?n = "length (heap s)"
  let ?a = "alloc (new_task Slot_none (Some (Root_exec u))) s"
  let ?c = "snd (schedule_task i ?n sd accept ?a)"
  have a: "inv_hole ?a {#?n#} {}" by (intro alloc_inv[OF inv]) (auto simp: func_ok_def)
  have run: "runnable ?a ?n (Root_exec u)" by (simp add: runnable_def)
  have c: "inv_hole ?c {#} {}" using i by (intro schedule_task_inv[OF a _ run]) simp_all
  have "\<forall>m \<in> set (?n # handles ?c). m < length (heap ?c)"
    using inv_holeD(9)[OF inv] by (auto simp: schedule_task_fields intro: less_SucI)
  from handles_inv[OF c this] c show ?thesis
    by (auto simp: spawn_def Let_def split: prod.splits bool.splits)
qed

lemma conts_ok_ext:
  assumes "conts_ok s t" "ext s s' {}" "t < length (heap s)"
    "conts (obj s' t) = conts (obj s t)" "conts_locked (obj s' t) = conts_locked (obj s t)"
  shows "conts_ok s' t"
  using assms waits_for_ext[OF _ assms(2)] extD(2)[OF assms(2,3)]
  unfolding conts_ok_def by simp blast

lemma make_task_inv:
  assumes inv: "inv_hole s {#} {}"
  shows "inv_hole (make_task v s) {#} {}" "inv_hole (make_exception_task e s) {#} {}"
proof -
  have hs: "\<forall>m \<in> set (length (heap s) # handles s). m < length (heap (alloc ob s))" for ob
    using inv_holeD(9)[OF inv] by (auto intro: less_SucI)
  have "inv_hole (alloc ((new_task (Slot_result v) None)\<lparr>state := Completed\<rparr>) s) {#} {}"
    "inv_hole (alloc ((new_task (Slot_except e) None)\<lparr>state := Canceled\<rparr>) s) {#} {}"
    by (rule alloc_inv[OF inv, where ?X0.0 = "{#}"]; simp add: result_ok_def)+
  from handles_inv[OF this(1) hs] handles_inv[OF this(2) hs]
  show "inv_hole (make_task v s) {#} {}" "inv_hole (make_exception_task e s) {#} {}"
    by (simp_all add: make_task_def make_exception_task_def alloc_handles)
qed

lemma make_event_inv:
  assumes inv: "inv_hole s {#} {}"
  shows "inv_hole (make_event s) {#} {}"
proof -
  let ?a = "alloc (new_task Slot_none None) s"
  have a: "inv_hole ?a {#length (heap s)#} {}" by (intro alloc_inv[OF inv]) auto
  have "inv_hole (?a\<lparr>events := length (heap s) # events s\<rparr>) {#} {}"
    using inv_holeD(8)[OF a] by (intro events_inv[OF a]) (auto simp: etok_def)
  then show ?thesis by (simp add: make_event_def alloc_events)
qed

lemma get_task_inv:
  assumes inv: "inv_hole s {#} {}" and t: "t \<in> set (events s)"
  shows "inv_hole (get_task t s) {#} {}"
proof -
  let ?h = "s\<lparr>handles := t # handles s\<rparr>"
  let ?g = "\<lambda>ob. ob\<lparr>got_task := True\<rparr>"
  have "t < length (heap s)" using inv_holeD(8)[OF inv t] by simp
  then have h: "inv_hole ?h {#} {}"
    using inv_holeD(9)[OF inv] by (intro handles_inv[OF inv]) auto
  have len: "t < length (heap ?h)" using \<open>t < length (heap s)\<close> by simp
  note obj = obj_upd[OF len, of ?g]
  have ext: "ext ?h (upd t ?g ?h) {}" unfolding ext_def obj by simp
  have "inv_hole (upd t ?g ?h) {#} {}"
  proof (rule conts_change[OF h len])
    show "conts_ok (upd t ?g ?h) t"
      by (rule conts_ok_ext[OF inv_holeD(4)[OF h len] ext len]) (simp_all add: obj)
    show "flush_ok (upd t ?g ?h) {} t"
      using inv_holeD(5)[OF h len] by (simp add: flush_ok_def obj)
  qed simp_all
  then show ?thesis by (simp add: get_task_def)
qed

lemma client_step_inv:
  assumes inv: "inv_hole s {#} {}" and i: "i < length (stacks s)" and step: "client_step i c s = Some s'"
  shows "inv_hole s' {#} {}"
proof (cases c)
  case (Op_wait t)
  then have "t < length (heap s)" and s': "s' = push i [Fr_wait t] s"
    using step inv_holeD(9)[OF inv, of t] by (auto simp: client_step_def split: if_splits)
  then show ?thesis using i unfolding s' by (intro push_inv[OF inv]) auto
next
  case (Op_copy t)
  then show ?thesis
    using step inv_holeD(9)[OF inv]
    by (auto simp: client_step_def split: if_splits intro!: handles_inv[OF inv])
next
  case (Op_drop t)
  then show ?thesis
    using step inv_holeD(9)[OF inv]
    by (auto simp: client_step_def split: if_splits intro!: handles_inv[OF inv]
        dest: set_remove1_subset[THEN subsetD])
qed (use step set_thread_wait_handler_inv[OF inv] spawn_inv[OF inv i] make_task_inv[OF inv] make_event_inv[OF inv] get_task_inv[OF inv]
    event_set_inv[OF inv i] event_set_exception_inv[OF inv i] destroy_event_inv[OF inv i]
    then_internal_inv[OF inv i] in \<open>auto simp: client_step_def split: if_splits\<close>)

section \<open>All events\<close>

lemma run_handle_inv:
  assumes inv: "inv_hole s {#} {}" and i: "i < length (stacks s)" and k: "k < length (queue s)"
  shows "inv_hole (run_handle i k s) {#} {}"
proof -
  let ?q = "s\<lparr>queue := remove_nth k (queue s)\<rparr>"
  have "frame_ok ?q (Fr_run (queue s ! k))"
    using inv_holeD(7)[OF inv nth_mem[OF k]] heap_only(7)[of ?q s] by auto
  then have "inv_hole (push i [Fr_run (queue s ! k)] ?q) {#} {}"
    using i by (intro push_inv[OF dequeue_inv[OF inv k]]) auto
  then show ?thesis by (simp add: run_handle_def)
qed

lemma frame_step_inv:
  assumes inv: "task_inv s" and i: "i < length (stacks s)" and st: "stacks s ! i = f # fs"
    and step: "frame_step i accept f (pop_frame i s) = Some s'"
  shows "task_inv s'"
proof -
  let ?p = "pop_frame i s"
  let ?Y = "case f of Fr_run_continuations t \<Rightarrow> {t} | _ \<Rightarrow> {}"
  have inv0: "inv_hole s {#} {}" using inv by (simp add: task_inv_def)
  have p: "inv_hole ?p (tok f) ?Y"
    using pop_inv[OF inv0 i st, of ?Y] by (cases f) auto
  have i': "i < length (stacks ?p)" using i by simp
  have f: "f \<in> frames s" by (rule frames_pop(3)[OF i st])
  then have ok: "frame_ok ?p f"
    using inv_holeD(6)[OF inv0] heap_only(7)[of ?p s] by simp
  note ops = exec_return_inv[OF _ i'] finish_inv[OF _ i'] cancel_base_inv[OF _ i'] cancel_task_inv[OF _ i']
    run_continuations_inv[OF _ i'] schedule_cont_inv[OF _ i'] run_continuation_inv[OF _ i']
    add_continuation_inv[OF _ i'] run_task_inv[OF _ i'] wait_task_inv[OF _ i']
  show ?thesis
  proof (cases f)
    case (Fr_try_add t c sd)
    have "t < length (heap s)" using ok Fr_try_add by (auto simp: waits_for_def)
    then have "flush_ok s {} t" by (rule inv_holeD(5)[OF inv0])
    then have "is_finished (state (obj s t)) \<Longrightarrow> conts_locked (obj s t) \<or> Fr_run_continuations t \<in> frames s"
      using f Fr_try_add by (auto simp: flush_ok_def)
    moreover have "Fr_run_continuations t \<in> frames s \<Longrightarrow> Fr_run_continuations t \<in> frames ?p"
      using frames_pop(2)[OF i st] Fr_try_add by auto
    ultimately show ?thesis
      using p ok step Fr_try_add try_add_inv[OF _ i', of c t sd] by (auto simp: task_inv_def)
  next
    case (Fr_waiting t n)
    then show ?thesis using p step by (simp add: task_inv_def split: if_splits)
  next
    case (Fr_restore h)
    then show ?thesis using p step set_thread_wait_handler_inv by (auto simp: task_inv_def)
  next
    case (Fr_catch cont)
    then show ?thesis using p step ok catch_block_inv by (auto simp: task_inv_def)
  qed (use p ok step ops in \<open>auto simp: task_inv_def simp del: frame_ok.simps\<close>)
qed

lemma task_step_inv:
  assumes inv: "task_inv s" and step: "task_step e s = Some s'"
  shows "task_inv s'"
proof (cases e)
  case (Ev_step i accept)
  then show ?thesis
    using step frame_step_inv[OF inv] by (auto split: if_splits list.splits)
next
  case (Ev_user i out)
  then obtain t a fs where i: "i < length (stacks s)" and st: "stacks s ! i = Fr_user t a # fs"
    and u: "user_returns i t out (pop_frame i s) = Some s'"
    using step by (auto split: if_splits list.splits frame.splits)
  have inv0: "inv_hole s {#} {}" using inv by (simp add: task_inv_def)
  have "inv_hole (pop_frame i s) {#t#} {}" using pop_inv[OF inv0 i st, of "{}"] by simp
  moreover have "frame_ok (pop_frame i s) (Fr_user t a)"
    using inv_holeD(6)[OF inv0 frames_pop(3)[OF i st]] heap_only(7)[of "pop_frame i s" s] by simp
  ultimately show ?thesis
    using user_returns_inv[OF _ _ _ u] i by (simp add: task_inv_def)
next
  case (Ev_client i c)
  then show ?thesis
    using step inv client_step_inv by (auto simp: task_inv_def split: if_splits)
next
  case (Ev_run i k)
  then show ?thesis using step inv run_handle_inv by (auto simp: task_inv_def split: if_splits)
next
  case (Ev_drop i k)
  then have i: "i < length (stacks s)" and k: "k < length (queue s)" and s': "s' = drop_handle i k s"
    using step by (auto split: if_splits)
  have inv0: "inv_hole s {#} {}" using inv by (simp add: task_inv_def)
  let ?q = "s\<lparr>queue := remove_nth k (queue s)\<rparr>"
  have "frame_ok ?q (Fr_cancel (queue s ! k) Task_not_executed)"
    using inv_holeD(7)[OF inv0 nth_mem[OF k]] heap_only(7)[of ?q s] by auto
  then have "inv_hole (push i [Fr_cancel (queue s ! k) Task_not_executed] ?q) {#} {}"
    using i by (intro push_inv[OF dequeue_inv[OF inv0 k]]) auto
  then show ?thesis by (simp add: s' drop_handle_def task_inv_def)
next
  case (Ev_run_with i k h)
  then have i: "i < length (stacks s)" and k: "k < length (queue s)" and s': "s' = run_with_wait_handler i k h s"
    using step by (auto split: if_splits)
  have "inv_hole (push i [Fr_restore (wait_handlers s ! i)] s) {#} {}"
    using inv i unfolding task_inv_def by (intro push_inv) auto
  then have "inv_hole (run_handle i k (push i [Fr_restore (wait_handlers s ! i)] s)) {#} {}" using i k by (intro run_handle_inv) (simp_all add: push_def)
  then show ?thesis by (simp add: s' run_with_wait_handler_def task_inv_def set_thread_wait_handler_inv)
next
  case (Ev_handler i act)
  then obtain t fs where i: "i < length (stacks s)" and st: "stacks s ! i = Fr_handler t # fs" and s': "s' = handler_step i t act s"
    using step by (auto split: if_splits list.splits frame.splits)
  have inv0: "inv_hole s {#} {}" using inv by (simp add: task_inv_def)
  have t: "t < length (heap s)" using inv_holeD(6)[OF inv0 frames_pop(3)[OF i st]] by simp
  have "inv_hole (pop_frame i s) {#} {}" using pop_inv[OF inv0 i st, of "{}"] by simp
  then show ?thesis using on_finish_inv[OF inv0 i t] by (cases act) (simp_all add: s' handler_step_def task_inv_def)
qed

lemma task_inv_init: "task_inv (task_system d n)"
proof -
  have "sum_list (replicate n ({#} :: nat multiset)) = {#}" by (induction n) simp_all
  then show ?thesis
    by (simp add: task_inv_def inv_hole_def task_system_def tokens_def undone_def ftok_def etok_def frames_def)
qed

interpretation tasks: safety_system task_step "task_system d n" task_inv for d n
  using task_inv_init task_step_inv by unfold_locales

end
