(* ===== verification/Task_Properties.thy ===== *)
theory Task_Properties
  imports Task_Invariant
begin

text \<open>
  What the task machine guarantees: no task is forgotten, final states never change, continuations see
  finished parents and get their values, a wait with the generic handler returns only when its task is finished, an event is
  set once, and how the library can come to dereference a null pointer.
\<close>

section \<open>States only move forward\<close>

definition forward :: "'v sys \<Rightarrow> 'v sys \<Rightarrow> bool" where
  "forward s s' \<longleftrightarrow> length (heap s) \<le> length (heap s') \<and> (\<forall>m < length (heap s).
     (is_finished (state (obj s m)) \<longrightarrow> state (obj s' m) = state (obj s m) \<and> slot (obj s' m) = slot (obj s m))
   \<and> (state (obj s m) \<noteq> Pending \<longrightarrow> state (obj s' m) \<noteq> Pending))"

lemma forward_heap: "heap s' = heap s \<Longrightarrow> forward s s'"
  by (simp add: forward_def)

lemma forward_refl [simp]: "forward s s"
  by (simp add: forward_def)

lemma forward_trans: "forward s u \<Longrightarrow> forward u s' \<Longrightarrow> forward s s'"
  unfolding forward_def by (metis order.trans order.strict_trans2)

lemma forward_upd:
  assumes "is_finished (state (obj s t)) \<Longrightarrow>
      state (g (obj s t)) = state (obj s t) \<and> slot (g (obj s t)) = slot (obj s t)"
    and "state (obj s t) \<noteq> Pending \<Longrightarrow> state (g (obj s t)) \<noteq> Pending"
  shows "forward s (upd t g s)"
proof (cases "t < length (heap s)")
  case True
  with assms show ?thesis by (auto simp: forward_def obj_upd)
next
  case False
  then have "upd t g s = s" by (simp add: upd_def list_update_beyond)
  then show ?thesis by (simp add: forward_def)
qed

lemma forward_alloc: "forward s (alloc ob s)"
  by (simp add: forward_def nth_append)

lemma forward_push: "forward s s' \<Longrightarrow> forward s (push i fs s')"
  by (simp add: forward_def)

lemma not_finished_func:
  assumes "inv_hole s X Y" "t < length (heap s)" "func (obj s t) = Some ex"
  shows "state (obj s t) = Pending"
  using inv_holeD(2)[OF assms(1,2)] assms(3) by (simp add: func_ok_def)

lemmas op_defs = exec_return_def finish_def cancel_task_def cancel_base_def run_continuations_def
  schedule_cont_def schedule_task_def run_continuation_def catch_block_def add_continuation_def try_add_def
  wait_task_def wait_for_task_def set_thread_wait_handler_def generic_wait_handler_def on_finish_def
  set_result_def set_exception_def set_state_def destroy_func_def

lemma run_task_forward:
  assumes inv: "inv_hole s {#t#} {}" and ok: "frame_ok s (Fr_run t)" and step: "run_task i t s = Some s'"
  shows "forward s s'"
proof -
  obtain ex where ex: "runnable s t ex" using ok by auto
  then have t: "t < length (heap s)" "func (obj s t) = Some ex" by (simp_all add: runnable_def)
  have pending: "state (obj s t) = Pending" by (rule not_finished_func[OF inv t])
  show ?thesis
  proof (cases ex)
    case (Cont_exec p k u)
    then show ?thesis
      using step t
      by (auto simp: run_task_def continuation_exec_def split: cont_kind.splits if_splits
          intro!: forward_push forward_heap)
  next
    case (Unwrap_exec c p)
    let ?s = "upd t (\<lambda>ob. ob\<lparr>func := Some (Unwrap_called c p)\<rparr>) s"
    have f: "forward s ?s" using pending by (intro forward_upd) simp_all
    have "unfinished s p" using inv_holeD(2)[OF inv t(1)] t(2) Unwrap_exec by (simp add: func_ok_def)
    then have "forward ?s (set_result p v ?s)" for v
      unfolding set_result_def using t by (intro forward_upd) (auto simp: unfinished_def obj_upd)
    then show ?thesis
      using step t f Unwrap_exec forward_trans[OF f]
      by (auto simp: run_task_def unwrapped_func_def Let_def split: if_splits intro!: forward_push)
  qed (use step t in \<open>auto simp: run_task_def intro!: forward_push forward_heap\<close>)
qed

lemma frame_step_forward:
  assumes inv: "task_inv s" and i: "i < length (stacks s)" and st: "stacks s ! i = f # fs"
    and step: "frame_step i accept f (pop_frame i s) = Some s'"
  shows "forward s s'"
proof -
  let ?p = "pop_frame i s"
  have inv0: "inv_hole s {#} {}" using inv by (simp add: task_inv_def)
  let ?Y = "case f of Fr_run_continuations t \<Rightarrow> {t} | _ \<Rightarrow> {}"
  have p: "inv_hole ?p (tok f) ?Y"
    using pop_inv[OF inv0 i st, of ?Y] by (cases f) auto
  have ok: "frame_ok ?p f"
    using inv_holeD(6)[OF inv0 frames_pop(3)[OF i st]] heap_only(7)[of ?p s] by simp
  have "forward ?p s'"
  proof (cases f)
    case (Fr_run t)
    then show ?thesis using p ok step run_task_forward[of ?p t i s'] by simp
  next
    case (Fr_return t v)
    then obtain ex where "t < length (heap ?p)" "func (obj ?p t) = Some ex" using ok by auto
    then have "state (obj ?p t) = Pending" by (rule not_finished_func[OF p])
    then show ?thesis
      using step Fr_return by (auto simp: op_defs intro!: forward_push forward_upd)
  next
    case (Fr_cancel t e)
    then obtain ex where "t < length (heap ?p)" "func (obj ?p t) = Some ex"
      using ok by (auto simp: runnable_def)
    then have "state (obj ?p t) = Pending" by (rule not_finished_func[OF p])
    then show ?thesis
      using step Fr_cancel by (auto simp: op_defs intro!: forward_push forward_upd)
  next
    case (Fr_finish t)
    then show ?thesis
      using step ok by (auto simp: op_defs unfinished_def intro!: forward_push forward_upd)
  next
    case (Fr_cancel_base t e)
    then show ?thesis
      using step ok by (auto simp: op_defs unfinished_def intro!: forward_push forward_upd)
  next
    case (Fr_run_continuations t)
    then show ?thesis
      using step by (auto simp: op_defs intro!: forward_push forward_upd)
  next
    case (Fr_run_continuation c sd)
    then show ?thesis
      using step by (auto simp: op_defs split: sched.splits intro!: forward_push forward_heap)
  next
    case (Fr_try_add t c sd)
    then show ?thesis
      using step by (auto simp: op_defs intro!: forward_push forward_upd)
  next
    case (Fr_wait t)
    have "forward ?p (alloc ob (push i fs ?p))" for ob fs
      by (rule forward_trans[OF forward_push[OF forward_refl] forward_alloc])
    then show ?thesis
      using step Fr_wait by (auto simp: op_defs split: wait_handler.splits intro!: forward_push)
  qed (use step in \<open>auto simp: op_defs split: result_union.splits if_splits option.splits intro!: forward_push forward_heap\<close>)
  then show ?thesis by (simp add: forward_def)
qed

lemma user_returns_forward:
  assumes inv: "inv_hole s {#t#} {}" and step: "user_returns i t out s = Some s'" and "t < length (heap s)"
  shows "forward s s'"
proof -
  obtain ex where f: "func (obj s t) = Some ex"
    using step by (auto simp: user_returns_def split: option.splits)
  have pending: "state (obj s t) = Pending" by (rule not_finished_func[OF inv assms(3) f])
  have fin: "forward r (unwrapped_finish i t child r)" if "heap r = heap s" for r child
  proof -
    have d: "forward r (destroy_func t (set_state t Unwrapped r))"
      unfolding destroy_func_def set_state_def upd_upd using pending that by (intro forward_upd) simp_all
    show ?thesis
      using forward_trans[OF d forward_alloc] d
      by (auto simp: unwrapped_finish_def Let_def split: option.splits intro!: forward_push intro: forward_trans[OF d forward_heap])
  qed
  have h: "forward s (s\<lparr>handles := hs\<rparr>)" for hs by (simp add: forward_heap)
  show ?thesis
    using step f fin[of s] forward_trans[OF h fin]
    by (auto simp: user_returns_def split: outcome.splits option.splits if_splits
        intro!: forward_push)
qed

lemma event_set_forward:
  "forward s (snd (event_set i t v s))" "forward s (snd (event_set_exception i t e s))"
  by (auto simp: event_set_def event_set_exception_def op_defs intro!: forward_push forward_upd)

lemma client_step_forward: "client_step i c s = Some s' \<Longrightarrow> forward s s'"
proof -
  have fields: "forward s (s\<lparr>events := es\<rparr>)" "forward s (s\<lparr>handles := hs\<rparr>)"
    "forward (s\<lparr>events := es\<rparr>) (s\<lparr>events := es, freed := fr\<rparr>)" for es hs fr
    by (simp_all add: forward_heap)
  have spawn: "forward s (spawn i sd u a s)" for sd u a
    by (auto simp: spawn_def schedule_task_def Let_def forward_def nth_append split: sched.splits)
  have alloc: "forward s (alloc ob (s\<lparr>handles := hs\<rparr>))" "forward s (alloc ob (s\<lparr>events := es\<rparr>))" for ob hs es
    using forward_trans[OF fields(2) forward_alloc] forward_trans[OF fields(1) forward_alloc] by blast+
  have free: "forward s (s\<lparr>events := es, freed := fr\<rparr>)" for es fr by (simp add: forward_heap)
  have destroy: "forward s (destroy_event i t s)" for t
    using forward_trans[OF fields(1) event_set_forward(2)] fields free
    by (simp add: destroy_event_def Let_def)
  have get: "forward s (get_task t s)" for t
    unfolding get_task_def by (rule forward_trans[OF fields(2)], rule forward_upd) simp_all
  show "client_step i c s = Some s' \<Longrightarrow> forward s s'"
    using event_set_forward[of s] destroy get fields alloc spawn forward_alloc[of s]
    by (auto simp: client_step_def make_task_def make_exception_task_def make_event_def
        then_internal_def set_thread_wait_handler_def Let_def split: client_op.splits sched.splits if_splits
        intro!: forward_push intro: forward_heap)
qed

lemma task_step_forward:
  assumes inv: "task_inv s" and step: "task_step e s = Some s'"
  shows "forward s s'"
proof (cases e)
  case (Ev_step i accept)
  then show ?thesis
    using step frame_step_forward[OF inv] by (auto split: if_splits list.splits)
next
  case (Ev_user i out)
  then obtain t a fs where i: "i < length (stacks s)" and st: "stacks s ! i = Fr_user t a # fs"
    and u: "user_returns i t out (pop_frame i s) = Some s'"
    using step by (auto split: if_splits list.splits frame.splits)
  have inv0: "inv_hole s {#} {}" using inv by (simp add: task_inv_def)
  have "inv_hole (pop_frame i s) {#t#} {}" using pop_inv[OF inv0 i st, of "{}"] by simp
  moreover have "t < length (heap s)"
    using inv_holeD(6)[OF inv0 frames_pop(3)[OF i st]] by (auto simp: runnable_def)
  ultimately have "forward (pop_frame i s) s'" using user_returns_forward[OF _ u] by simp
  then show ?thesis by (simp add: forward_def)
next
  case (Ev_client i c)
  then show ?thesis using step client_step_forward by (auto split: if_splits)
next
  case (Ev_handler i act)
  then obtain t where "s' = handler_step i t act s" using step by (auto split: if_splits list.splits frame.splits)
  then show ?thesis using forward_push[OF forward_alloc] forward_heap[of "pop_frame i s" s]
    by (cases act) (simp_all add: handler_step_def on_finish_def)
qed (use step in \<open>auto simp: run_handle_def drop_handle_def run_with_wait_handler_def set_thread_wait_handler_def split: if_splits
      intro!: forward_push forward_heap\<close>)

lemma runs_forward: "runs task_step es s = Some s' \<Longrightarrow> task_inv s \<Longrightarrow> forward s s'"
proof (induction es arbitrary: s)
  case Nil
  then show ?case by (simp add: forward_def)
next
  case (Cons e es)
  then obtain u where u: "task_step e s = Some u" "runs task_step es u = Some s'"
    by (auto split: option.splits)
  then show ?case
    using Cons task_step_inv[OF Cons.prems(2) u(1)] task_step_forward[OF Cons.prems(2) u(1)] forward_trans by blast
qed

section \<open>No task is forgotten\<close>

definition idle_system :: "'v sys \<Rightarrow> bool" where
  "idle_system s \<longleftrightarrow> (\<forall>st \<in> set (stacks s). st = []) \<and> queue s = []"

text \<open>What an unfinished task can be waiting for when nothing runs.\<close>

definition blocked_on :: "'v sys \<Rightarrow> nat \<Rightarrow> nat \<Rightarrow> bool" where
  "blocked_on s c u \<longleftrightarrow> u < length (heap s) \<and> c \<in> set (conts (obj s u)) \<and> (\<exists>sd. waits_for s c u sd)
     \<and> \<not> is_finished (state (obj s u))"

lemma conts_blocked:
  assumes inv: "inv_hole s {#} {}" and idle: "idle_system s" and u: "u < length (heap s)"
    and c: "c \<in> set (conts (obj s u))"
  shows "blocked_on s c u"
proof -
  have "frames s = {}" using idle by (auto simp: idle_system_def frames_def)
  then have "\<not> is_finished (state (obj s u))"
    using inv_holeD(4,5)[OF inv u] c by (auto simp: flush_ok_def conts_ok_def)
  then show ?thesis
    using inv_holeD(4)[OF inv u] u c unfolding blocked_on_def conts_ok_def by blast
qed

lemma idle_token:
  assumes inv: "inv_hole s {#} {}" and idle: "idle_system s" and t: "t < length (heap s)" "\<not> done_task s t"
  shows "(t \<in> set (events s) \<and> state (obj s t) = Pending) \<or> (\<exists>u. blocked_on s t u)
    \<or> (\<exists>m c. m < length (heap s) \<and> func (obj s m) = Some (Unwrap_exec c t))"
proof -
  have "t \<in># undone s" using t by (simp add: in_undone)
  then have "t \<in># tokens s" using inv_holeD(1)[OF inv] by simp
  moreover have "ftok s = {#}"
  proof -
    have "sum_list (map tok st) = {#}" if "st \<in> set (stacks s)" for st
      using that idle by (auto simp: idle_system_def)
    then have "sum_list (map (\<lambda>st. sum_list (map tok st)) (stacks s)) = sum_list (map (\<lambda>_. {#}) (stacks s))"
      by (intro arg_cong[of _ _ sum_list] map_cong) auto
    moreover have "sum_list (map (\<lambda>_. {#} :: nat multiset) xs) = {#}" for xs :: "'v frame list list"
      by (induction xs) simp_all
    ultimately show ?thesis by (simp add: ftok_def)
  qed
  ultimately consider "t \<in># etok s" | u where "u < length (heap s)" "t \<in># ctok (obj s u)"
    using idle by (auto simp: tokens_def idle_system_def in_sum_list in_set_conv_nth)
  then show ?thesis
  proof cases
    case 1
    then show ?thesis by (simp add: etok_def)
  next
    case (2 u)
    then show ?thesis
      using conts_blocked[OF inv idle 2(1)] by (auto simp: ctok_def utok_def split: option.splits exec.splits)
  qed
qed

text \<open>
  C9. No task is lost or stuck: in every state that any client program and any schedulers can reach,
  each task that is not done has exactly one place responsible for it, and a done task has none.  When
  nothing is running and the schedulers hold nothing, a task that is not done is an event that nobody
  has set, or a continuation of an unfinished task, or it is waiting for the unfinished task that its
  function returned.
\<close>

theorem no_task_forgotten:
  assumes "runs task_step es (task_system d n) = Some s"
  shows "\<forall>t < length (heap s). count (tokens s) t = (if done_task s t then 0 else 1)
    \<and> (idle_system s \<longrightarrow> \<not> done_task s t \<longrightarrow>
        (t \<in> set (events s) \<and> state (obj s t) = Pending)
      \<or> (\<exists>u. blocked_on s t u)
      \<or> (\<exists>m c. func (obj s m) = Some (Unwrap_exec c t) \<and> blocked_on s m c))"
proof (intro allI impI conjI)
  fix t
  assume t: "t < length (heap s)"
  have inv: "inv_hole s {#} {}" using tasks.inv_reachable[OF assms] by (simp add: task_inv_def)
  show "count (tokens s) t = (if done_task s t then 0 else 1)"
    using inv_holeD(1)[OF inv] t count_undone[of s t] by simp
  assume idle: "idle_system s" and undone: "\<not> done_task s t"
  have "\<exists>u. blocked_on s m u \<and> u = c" if m: "m < length (heap s)" "func (obj s m) = Some (Unwrap_exec c t)" for m c
  proof -
    have "\<not> done_task s m"
      using not_finished_func[OF inv m] inv_holeD(10,11)[OF inv, of m] m by (auto simp: done_task_def)
    moreover have "m \<notin> set (events s)" using inv_holeD(8)[OF inv, of m] m by auto
    moreover have "func (obj s k) \<noteq> Some (Unwrap_exec d m)" if "k < length (heap s)" for k d
      using inv_holeD(2)[OF inv that] m by (auto simp: func_ok_def unfinished_def)
    ultimately obtain u where u: "blocked_on s m u" using idle_token[OF inv idle m(1)] by blast
    then have "u = c" using m by (auto simp: blocked_on_def waits_for_def)
    with u show ?thesis by blast
  qed
  then show "(t \<in> set (events s) \<and> state (obj s t) = Pending) \<or> (\<exists>u. blocked_on s t u)
      \<or> (\<exists>m c. func (obj s m) = Some (Unwrap_exec c t) \<and> blocked_on s m c)"
    using idle_token[OF inv idle t undone] by blast
qed

text \<open>
  A client on thread 0 makes an event, chains a continuation on a pool to its task, sets it from thread
  1; the pool runs the continuation on thread 2.
\<close>

definition chain_events :: "nat task_event list" where
  "chain_events = [Ev_client 0 Op_event, Ev_client 0 (Op_get_task 0),
     Ev_client 0 (Op_then 0 False (Pool 0) By_value False),
     Ev_step 0 True, Ev_step 0 True]"

theorem no_task_forgotten_witness:
  "\<exists>s. runs task_step chain_events (task_system False 3) = Some s \<and> idle_system s \<and> count (tokens s) 1 = 1"
proof -
  have "map_option (\<lambda>s. (stacks s, queue s, length (heap s), done_task s 1))
      (runs task_step chain_events (task_system False 3)) = Some ([[], [], []], [], 2, False)"
    by code_simp
  then obtain s where s: "runs task_step chain_events (task_system False 3) = Some s" "stacks s = [[], [], []]"
      "queue s = []" "length (heap s) = 2" "\<not> done_task s 1"
    by auto
  from no_task_forgotten [OF s(1)] s(4,5) have "count (tokens s) 1 = 1" by auto
  with s show ?thesis by (auto simp: idle_system_def)
qed

text \<open>
  C20. Results are stable: whatever happens afterwards, a finished task keeps its state and its result
  or exception, and it has one of them as its state says; an event is set at most once, since a state
  that has left \<open>Pending\<close> never returns to it, so every later \<open>set\<close> or \<open>set_exception\<close> fails.
\<close>

theorem task_results_stable:
  assumes "runs task_step es (task_system d n) = Some s" "runs task_step fs s = Some s'"
  shows "\<forall>t < length (heap s).
      (state (obj s t) = Completed \<longrightarrow> (\<exists>v. get_result t s = Some v \<and> get_result t s' = Some v \<and> state (obj s' t) = Completed))
    \<and> (state (obj s t) = Canceled \<longrightarrow> (\<exists>e. get_exception t s = Some e \<and> get_exception t s' = Some e \<and> state (obj s' t) = Canceled))
    \<and> (fst (event_set i t v s) \<longrightarrow>
         \<not> fst (event_set j t w (snd (event_set i t v s))))
    \<and> (\<not> fst (event_set i t v s) \<longrightarrow> \<not> fst (event_set j t w s') \<and> \<not> fst (event_set_exception j t e s'))"
proof (intro allI impI)
  fix t
  assume t: "t < length (heap s)"
  have inv: "inv_hole s {#} {}" using tasks.inv_reachable[OF assms(1)] by (simp add: task_inv_def)
  have fwd: "forward s s'"
    using runs_forward[OF assms(2)] tasks.inv_reachable[OF assms(1)] by blast
  have res: "result_ok (obj s t)" by (rule inv_holeD(3)[OF inv t])
  have "state (obj s t) = Completed \<longrightarrow> (\<exists>v. get_result t s = Some v \<and> get_result t s' = Some v \<and> state (obj s' t) = Completed)"
    using res fwd t by (auto simp: result_ok_def get_result_def forward_def)
  moreover have "state (obj s t) = Canceled \<longrightarrow> (\<exists>e. get_exception t s = Some e \<and> get_exception t s' = Some e \<and> state (obj s' t) = Canceled)"
    using res fwd t by (auto simp: result_ok_def get_exception_def forward_def)
  moreover have "fst (event_set i t v s) \<longrightarrow> \<not> fst (event_set j t w (snd (event_set i t v s)))"
    using t by (auto simp: event_set_def op_defs obj_upd)
  moreover have "\<not> fst (event_set i t v s) \<longrightarrow> \<not> fst (event_set j t w s') \<and> \<not> fst (event_set_exception j t e s')"
    using fwd t by (auto simp: event_set_def event_set_exception_def forward_def)
  ultimately show "(state (obj s t) = Completed \<longrightarrow> (\<exists>v. get_result t s = Some v \<and> get_result t s' = Some v \<and> state (obj s' t) = Completed))
    \<and> (state (obj s t) = Canceled \<longrightarrow> (\<exists>e. get_exception t s = Some e \<and> get_exception t s' = Some e \<and> state (obj s' t) = Canceled))
    \<and> (fst (event_set i t v s) \<longrightarrow> \<not> fst (event_set j t w (snd (event_set i t v s))))
    \<and> (\<not> fst (event_set i t v s) \<longrightarrow> \<not> fst (event_set j t w s') \<and> \<not> fst (event_set_exception j t e s'))"
    by blast
qed

theorem task_results_stable_witness:
  "\<exists>s s'. runs task_step [Ev_client 0 (Op_make (Val (7::nat)))] (task_system False 1) = Some s
     \<and> runs task_step [Ev_client 0 (Op_make_exception (User_exn (3::nat)))] s = Some s'
     \<and> get_result 0 s' = Some (Val 7)"
proof -
  obtain s s' where s: "runs task_step [Ev_client 0 (Op_make (Val (7::nat)))] (task_system False 1) = Some s"
      "runs task_step [Ev_client 0 (Op_make_exception (User_exn (3::nat)))] s = Some s'"
      "state (obj s 0) = Completed" "length (heap s) = 1" "get_result 0 s = Some (Val 7)"
    by (simp add: client_step_def make_task_def make_exception_task_def task_system_def alloc_def
        new_task_def client_active_def get_result_def)
  from task_results_stable [OF s(1,2)] s(3-5) have "get_result 0 s' = Some (Val 7)" by auto
  with s show ?thesis by blast
qed

section \<open>Continuations and waits\<close>

lemma reachable_frame:
  assumes "runs task_step es (task_system d n) = Some s" "i < length (stacks s)" "f \<in> set (stacks s ! i)"
  shows "frame_ok s f"
proof -
  have "inv_hole s {#} {}" using tasks.inv_reachable[OF assms(1)] by (simp add: task_inv_def)
  moreover have "f \<in> frames s" using assms(2,3) by (auto simp: in_frames)
  ultimately show ?thesis by (rule inv_holeD(6))
qed

text \<open>
  C19. A continuation runs after its parent and gets what its kind says: whenever the function of a
  continuation is being called, or is about to be, its parent is finished; by value it was called
  with the result of a completed parent, never for a canceled one; the next step of a by-value or
  void continuation whose parent was canceled cancels it with the parent's exception.
\<close>

theorem continuation_order_and_argument:
  assumes "runs task_step es (task_system d n) = Some s" "i < length (stacks s)"
    and "func (obj s t) = Some (Cont_exec p k u)"
  shows "(\<forall>a. Fr_user t a \<in> set (stacks s ! i) \<longrightarrow> is_finished (state (obj s p))
        \<and> (k = By_task \<longrightarrow> a = Arg_task p)
        \<and> (k = By_value \<longrightarrow> state (obj s p) = Completed \<and> (\<exists>v. get_result p s = Some v \<and> a = Arg_value v))
        \<and> (k = By_void \<longrightarrow> state (obj s p) = Completed \<and> a = Arg_value Fake_void))
    \<and> (Fr_run t \<in> set (stacks s ! i) \<longrightarrow> is_finished (state (obj s p))
        \<and> (k \<noteq> By_task \<longrightarrow> state (obj s p) = Canceled \<longrightarrow>
            (\<exists>e. get_exception p s = Some e \<and> run_task i t s = Some (push i [Fr_cancel t e] s))))"
proof -
  have "inv_hole s {#} {}" using tasks.inv_reachable[OF assms(1)] by (simp add: task_inv_def)
  then have res: "p < length (heap s) \<Longrightarrow> result_ok (obj s p)" by (rule inv_holeD(3))
  have user: "is_finished (state (obj s p)) \<and> arg_ok s (Cont_exec p k u) a"
    if "Fr_user t a \<in> set (stacks s ! i)" for a
    using reachable_frame[OF assms(1,2) that] assms(3) by (auto simp: runnable_def)
  have run: "p < length (heap s) \<and> is_finished (state (obj s p))" if "Fr_run t \<in> set (stacks s ! i)"
    using reachable_frame[OF assms(1,2) that] assms(3) by (auto simp: runnable_def)
  have "\<exists>e. get_exception p s = Some e \<and> run_task i t s = Some (push i [Fr_cancel t e] s)"
    if "Fr_run t \<in> set (stacks s ! i)" "k \<noteq> By_task" "state (obj s p) = Canceled"
    using res run[OF that(1)] that assms(3)
    by (cases k) (auto simp: run_task_def continuation_exec_def get_exception_def result_ok_def)
  with user run show ?thesis
    by (cases k) (fastforce simp: arg_ok_def get_result_def)+
qed

definition value_events :: "nat task_event list" where
  "value_events = chain_events @ [Ev_client 1 (Op_set 0 (Val 7)), Ev_step 1 True, Ev_step 1 True,
     Ev_step 1 True, Ev_step 1 True, Ev_run 2 0, Ev_step 2 True]"

theorem continuation_order_and_argument_witness:
  "\<exists>s v. runs task_step value_events (task_system False 3) = Some s \<and> stacks s ! 2 = [Fr_user 1 (Arg_value v)]
     \<and> get_result 0 s = Some v \<and> state (obj s 0) = Completed"
proof -
  have "map_option (\<lambda>s. (stacks s, func (obj s 1))) (runs task_step value_events (task_system False 3))
      = Some ([[], [], [Fr_user 1 (Arg_value (Val 7))]], Some (Cont_exec 0 By_value False))"
    by code_simp
  then obtain s where s: "runs task_step value_events (task_system False 3) = Some s"
      "stacks s = [[], [], [Fr_user 1 (Arg_value (Val 7))]]" "func (obj s 1) = Some (Cont_exec 0 By_value False)"
    by auto
  from continuation_order_and_argument [OF s(1) _ s(3), of 2] s(2)
  have "get_result 0 s = Some (Val 7) \<and> state (obj s 0) = Completed" by simp
  with s(1,2) show ?thesis by auto
qed

text \<open>
  C21. Waiting, on a thread whose wait handler is the generic one: \<open>wait\<close> on a finished task returns at once; on another task it adds a
  continuation that gives the signal, and sleeps; a \<open>wait\<close> that sleeps can
  take its next step exactly when its signal has come, and then the task is finished.  So whenever a call of \<open>wait\<close> returns
  otherwise than out of a custom wait handler, its task is finished.
\<close>

theorem wait_returns_when_finished:
  assumes "runs task_step es (task_system d n) = Some s" "i < length (stacks s)" "\<not> null_deref s"
  shows "(stacks s ! i = Fr_waiting t m # fs \<longrightarrow>
       ((\<exists>s'. task_step (Ev_step i accept) s = Some s') \<longleftrightarrow> m \<in> set (signalled s))
     \<and> (m \<in> set (signalled s) \<longrightarrow> is_finished (state (obj s t))))
   \<and> (stacks s ! i = Fr_wait t # fs \<longrightarrow> is_finished (state (obj s t)) \<longrightarrow>
       task_step (Ev_step i accept) s = Some (pop_frame i s))
   \<and> (stacks s ! i = Fr_wait t # fs \<longrightarrow> \<not> is_finished (state (obj s t)) \<longrightarrow> wait_handlers s ! i = Generic_handler \<longrightarrow>
       (\<exists>s'. task_step (Ev_step i accept) s = Some s' \<and> func (obj s' (length (heap s))) = Some (Wait_exec t)
          \<and> stacks s' ! i = [Fr_add_continuation t (length (heap s)) Inline, Fr_waiting t (length (heap s))] @ fs))
   \<and> (stacks s ! i \<in> {Fr_wait t # fs, Fr_waiting t m # fs} \<longrightarrow> task_step (Ev_step i accept) s = Some u \<longrightarrow> stacks u ! i = fs \<longrightarrow>
       is_finished (state (obj s t)))"
proof (intro conjI)
  have inv: "inv_hole s {#} {}" using tasks.inv_reachable[OF assms(1)] by (simp add: task_inv_def)
  have fin: "is_finished (state (obj s t))" if "stacks s ! i = Fr_waiting t m # fs" "m \<in> set (signalled s)"
  proof -
    have "func (obj s m) = Some (Wait_exec t)"
      using reachable_frame[OF assms(1,2), of "Fr_waiting t m"] that by simp
    then show ?thesis using inv_holeD(10)[OF inv that(2)] by auto
  qed
  then show "stacks s ! i = Fr_waiting t m # fs \<longrightarrow>
       ((\<exists>s'. task_step (Ev_step i accept) s = Some s') \<longleftrightarrow> m \<in> set (signalled s))
     \<and> (m \<in> set (signalled s) \<longrightarrow> is_finished (state (obj s t)))" using assms(2,3) by auto
  show "stacks s ! i = Fr_wait t # fs \<longrightarrow> is_finished (state (obj s t)) \<longrightarrow>
       task_step (Ev_step i accept) s = Some (pop_frame i s)" using assms(2,3) by (simp add: wait_task_def)
  show "stacks s ! i = Fr_wait t # fs \<longrightarrow> \<not> is_finished (state (obj s t)) \<longrightarrow> wait_handlers s ! i = Generic_handler \<longrightarrow>
       (\<exists>s'. task_step (Ev_step i accept) s = Some s' \<and> func (obj s' (length (heap s))) = Some (Wait_exec t)
          \<and> stacks s' ! i = [Fr_add_continuation t (length (heap s)) Inline, Fr_waiting t (length (heap s))] @ fs)"
    using assms(2,3) by (simp add: wait_task_def wait_for_task_def generic_wait_handler_def on_finish_def push_def pop_frame_def alloc_def new_task_def)
  have "length fs < length (stacks u ! i)"
    if "stacks s ! i = Fr_wait t # fs" "task_step (Ev_step i accept) s = Some u" "\<not> is_finished (state (obj s t))"
    using that assms(2,3) by (auto simp: wait_task_def wait_for_task_def generic_wait_handler_def on_finish_def push_def pop_frame_def alloc_def
        split: wait_handler.splits)
  then show "stacks s ! i \<in> {Fr_wait t # fs, Fr_waiting t m # fs} \<longrightarrow> task_step (Ev_step i accept) s = Some u \<longrightarrow> stacks u ! i = fs \<longrightarrow>
       is_finished (state (obj s t))" using fin assms(2,3) by (auto split: if_splits)
qed

definition wait_events :: "nat task_event list" where
  "wait_events = [Ev_client 0 Op_event, Ev_client 0 (Op_get_task 0), Ev_client 0 (Op_wait 0),
     Ev_step 0 True, Ev_step 0 True, Ev_step 0 True, Ev_client 1 (Op_set 0 (Val 7)),
     Ev_step 1 True, Ev_step 1 True, Ev_step 1 True, Ev_step 1 True, Ev_step 1 True]"

theorem wait_returns_when_finished_witness:
  "\<exists>s. runs task_step wait_events (task_system False 2) = Some s \<and> stacks s ! 0 = [Fr_waiting 0 1]
     \<and> is_finished (state (obj s 0)) \<and> (\<exists>s'. task_step (Ev_step 0 True) s = Some s')"
proof -
  have "map_option (\<lambda>s. (stacks s, null_deref s, signalled s)) (runs task_step wait_events (task_system False 2))
      = Some ([[Fr_waiting 0 1], []], False, [1])"
    by code_simp
  then obtain s where s: "runs task_step wait_events (task_system False 2) = Some s"
      "stacks s = [[Fr_waiting 0 1], []]" "\<not> null_deref s" "signalled s = [1]"
    by auto
  from wait_returns_when_finished [OF s(1) _ s(3), of 0 0 1 "[]" True] s(2,4)
  have "is_finished (state (obj s 0)) \<and> (\<exists>s'. task_step (Ev_step 0 True) s = Some s')" by simp
  with s(1,2) show ?thesis by auto
qed

section \<open>The scheduler that throws\<close>

lemma null_deref_frame:
  assumes "frame_step i accept f s = Some s'" "null_deref s'" "\<not> null_deref s"
  shows "f = Fr_catch None"
proof (cases f)
  case (Fr_run t)
  then show ?thesis
    using assms by (auto simp: run_task_def continuation_exec_def unwrapped_func_def Let_def set_result_def
        split: option.splits exec.splits cont_kind.splits if_splits)
qed (use assms in \<open>auto simp: op_defs alloc_def split: sched.splits if_splits result_union.splits option.splits wait_handler.splits\<close>)

text \<open>
  A null pointer is dereferenced only in the \<open>catch\<close> block of \<open>run_continuation\<close> and, without assertions, when a function that is to be
  unwrapped returns an empty task.  The \<open>catch\<close> block is entered when a scheduler throws, after the continuation has been canceled by the
  destructor of its run handle.
\<close>

lemma null_dereference_causes:
  assumes "task_step e s = Some s'" "null_deref s'" "\<not> null_deref s"
  shows "(\<exists>i accept fs. e = Ev_step i accept \<and> stacks s ! i = Fr_catch None # fs) \<or> (\<exists>i. e = Ev_user i (Returns_task None) \<and> ndebug s)"
proof (cases e)
  case (Ev_step i accept)
  then obtain f fs where "stacks s ! i = f # fs" "frame_step i accept f (pop_frame i s) = Some s'"
    using assms(1) by (auto split: if_splits list.splits)
  then show ?thesis using null_deref_frame[of i accept f "pop_frame i s" s'] assms Ev_step by auto
next
  case (Ev_user i out)
  then show ?thesis
    using assms by (auto simp: user_returns_def unwrapped_finish_def Let_def destroy_func_def set_state_def
        alloc_def split: if_splits list.splits frame.splits option.splits outcome.splits)
next
  case (Ev_client i c)
  then show ?thesis
    using assms by (auto simp: client_step_def spawn_def schedule_task_def make_task_def make_exception_task_def make_event_def
        get_task_def event_set_def event_set_exception_def destroy_event_def then_internal_def alloc_def set_thread_wait_handler_def
        set_result_def set_state_def Let_def split: client_op.splits if_splits sched.splits)
next
  case (Ev_handler i act)
  then show ?thesis using assms
    by (cases act) (auto simp: handler_step_def on_finish_def alloc_def split: if_splits list.splits frame.splits)
qed (use assms in \<open>auto simp: run_handle_def drop_handle_def run_with_wait_handler_def set_thread_wait_handler_def split: if_splits\<close>)

lemma run_continuation_null_dereference:
  assumes "\<not> null_deref s" "i < length (stacks s)" "stacks s ! i = Fr_run_continuation c (Pool p) # fs"
  shows "\<exists>s'. task_step (Ev_step i False) s = Some s' \<and> stacks s' ! i = Fr_cancel c Task_not_executed # Fr_catch None # fs"
  using assms by (simp add: run_continuation_def schedule_task_def push_def pop_frame_def moved_from_def)

text \<open>
  C34. \<open>get\<close> after the wait: on a finished task \<open>get\<close> never misreads the union, it rethrows the
  exception exactly when the task was canceled, and otherwise returns the result; only then does a
  \<open>task\<close> lose its handle, and \<open>get_exception\<close> is null exactly for a completed task.
\<close>

theorem get_after_wait:
  assumes "runs task_step es (task_system d n) = Some s" "t < length (heap s)" "task_ready t s"
  shows "(state (obj s t) = Canceled \<longrightarrow>
      (\<exists>e. slot (obj s t) = Slot_except e \<and> task_get shared t s = Some (Inl e, s)
         \<and> task_get_exception t s = Some (Some e)))
    \<and> (state (obj s t) = Completed \<longrightarrow>
      (\<exists>v s'. slot (obj s t) = Slot_result v \<and> task_get shared t s = Some (Inr v, s')
         \<and> task_get_exception t s = Some None
         \<and> handles s' = (if shared then handles s else remove1 t (handles s))))
    \<and> (state (obj s t) = Canceled \<or> state (obj s t) = Completed)"
proof -
  have "inv_hole s {#} {}" using tasks.inv_reachable[OF assms(1)] by (simp add: task_inv_def)
  then have "result_ok (obj s t)" using assms(2) by (rule inv_holeD(3))
  moreover have "state (obj s t) = Canceled \<or> state (obj s t) = Completed"
    using assms(3) by (cases "state (obj s t)") (auto simp: task_ready_def)
  ultimately show ?thesis
    by (auto simp: result_ok_def task_get_def wait_and_throw_def task_canceled_state_def task_get_exception_def
        get_exception_def get_result_def)
qed

theorem get_after_wait_witness:
  "\<exists>s. runs task_step [Ev_client 0 (Op_make_exception (User_exn (3::nat)))] (task_system False 1) = Some s
     \<and> task_get False 0 s = Some (Inl (User_exn 3), s)"
proof -
  obtain s where s: "runs task_step [Ev_client 0 (Op_make_exception (User_exn (3::nat)))] (task_system False 1) = Some s"
      "obj s 0 = (new_task (Slot_except (User_exn 3)) None)\<lparr>state := Canceled\<rparr>" "length (heap s) = 1"
    by (simp add: client_step_def make_exception_task_def task_system_def alloc_def client_active_def)
  from get_after_wait [OF s(1), of 0 False] s(2,3)
  have "task_get False 0 s = Some (Inl (User_exn 3), s)" by (simp add: task_ready_def)
  with s(1) show ?thesis by blast
qed

end
