(* ===== verification/Fifo_Scheduler.thy ===== *)
theory Fifo_Scheduler
  imports Fifo_Queue
begin

text \<open>
  \<open>libs/asyncplusplus/src/scheduler.cpp\<close>: \<open>fifo_scheduler\<close>, the size of the default thread pool, and
  the wait handler of a thread.

  \<open>schedule\<close> and the inner block of \<open>try_run_one_task\<close> hold \<open>impl->lock\<close>, so each is one atomic
  operation on the queue.  Running a task is user code, a parameter: \<open>run t w\<close> gives the tasks that
  reach this scheduler until the task returns, in the order in which they take the lock (scheduled
  by the task itself or by other threads meanwhile), and the new state \<open>w\<close> of the rest of the program.
  The queue is reached through \<open>push\<close> and \<open>pop\<close>, with the contract \<open>task_queue\<close>.
\<close>

type_synonym ('a, 'w) task_body = "'a \<Rightarrow> 'w \<Rightarrow> 'a list \<times> 'w"

section \<open>try_run_one_task and run_all_tasks\<close>

definition try_run_one_task ::
  "('a \<Rightarrow> 'q \<Rightarrow> 'q) \<Rightarrow> ('q \<Rightarrow> 'a option \<times> 'q) \<Rightarrow> ('a, 'w) task_body \<Rightarrow> 'q \<Rightarrow> 'w \<Rightarrow> bool \<times> 'q \<times> 'w"
where
  "try_run_one_task push pop run q w =
     (case pop q of
        (None, q') \<Rightarrow> (False, q', w)
      | (Some t, q') \<Rightarrow> (let (new, w') = run t w in (True, fold push new q', w')))"

partial_function (option) run_all_tasks ::
  "('a \<Rightarrow> 'q \<Rightarrow> 'q) \<Rightarrow> ('q \<Rightarrow> 'a option \<times> 'q) \<Rightarrow> ('a, 'w) task_body \<Rightarrow> 'q \<Rightarrow> 'w \<Rightarrow> ('q \<times> 'w) option"
where
  "run_all_tasks push pop run q w =
     (case try_run_one_task push pop run q w of (again, q', w') \<Rightarrow>
        if again then run_all_tasks push pop run q' w' else Some (q', w'))"

text \<open>The reference: tasks run in the order in which they were scheduled.\<close>

partial_function (option) run_in_order :: "('a, 'w) task_body \<Rightarrow> 'a list \<Rightarrow> 'w \<Rightarrow> 'w option" where
  "run_in_order run ts w =
     (case ts of [] \<Rightarrow> Some w
      | t # ts' \<Rightarrow> (case run t w of (new, w') \<Rightarrow> run_in_order run (ts' @ new) w'))"

lemma run_in_order_simps [simp]:
  "run_in_order run [] w = Some w"
  "run_in_order run (t # ts) w = run_in_order run (ts @ fst (run t w)) (snd (run t w))"
  by (subst run_in_order.simps, simp add: case_prod_beta)+

subsection \<open>Over any queue that keeps its contract up to a number of tasks\<close>

locale counted_queue = task_queue push pop contents invar room
  for push :: "'a \<Rightarrow> 'q \<Rightarrow> 'q"
    and pop :: "'q \<Rightarrow> 'a option \<times> 'q"
    and contents :: "'q \<Rightarrow> 'a list"
    and invar :: "'q \<Rightarrow> bool"
    and room :: "'q \<Rightarrow> bool" +
  fixes limit :: nat
  assumes room_count: "invar q \<Longrightarrow> length (contents q) < limit \<Longrightarrow> room q"
begin

lemma push_all:
  "invar q \<Longrightarrow> length (contents q) + length ts \<le> limit \<Longrightarrow>
   invar (fold push ts q) \<and> contents (fold push ts q) = contents q @ ts"
proof (induction ts arbitrary: q)
  case Nil
  then show ?case by simp
next
  case (Cons t ts)
  then have "room q" by (intro room_count) auto
  then have "invar (push t q)" "contents (push t q) = contents q @ [t]"
    using Cons.prems by (simp_all add: invar_push contents_push)
  with Cons.IH[of "push t q"] Cons.prems(2) show ?case by simp
qed

lemma try_run_empty:
  "invar q \<Longrightarrow> contents q = [] \<Longrightarrow>
   \<exists>q'. try_run_one_task push pop run q w = (False, q', w) \<and> invar q' \<and> contents q' = []"
  using pop_None_iff[of q] pop_None[of q]
  by (cases "pop q") (auto simp: try_run_one_task_def)

lemma try_run_some:
  assumes "invar q" "contents q = t # ts" "run t w = (new, w')" "length ts + length new \<le> limit"
  shows "\<exists>q'. try_run_one_task push pop run q w = (True, q', w') \<and> invar q' \<and> contents q' = ts @ new"
proof -
  obtain q1 where q1: "pop q = (Some t, q1)"
    using pop_result[of q] assms(1,2) by (cases "pop q") auto
  with pop_Some[OF assms(1) q1] assms(2) have "invar q1" "contents q1 = ts" by auto
  with push_all[of q1 new] assms(4) q1 assms(3) show ?thesis
    by (auto simp: try_run_one_task_def)
qed

text \<open>
  When every task has a weight that exceeds the weights of the tasks it causes, the loop ends and has
  run all tasks in the order of the reference.
\<close>

lemma run_all_in_order:
  assumes weight: "\<And>t w. sum_list (map weight (fst (run t w))) < (weight t :: nat)"
    and "invar q" "sum_list (map weight (contents q)) \<le> limit"
  shows "\<exists>q' w'. run_all_tasks push pop run q w = Some (q', w') \<and> contents q' = [] \<and> invar q'
     \<and> run_in_order run (contents q) w = Some w'"
  using assms(2,3)
proof (induction "sum_list (map weight (contents q))" arbitrary: q w rule: less_induct)
  case less
  have pos: "0 < weight t" for t using weight[of t] by (metis gr_zeroI not_less_zero)
  have len: "length ts \<le> sum_list (map weight ts)" for ts
  proof (induction ts)
    case (Cons t ts)
    with pos[of t] show ?case by simp
  qed simp
  show ?case
  proof (cases "contents q")
    case Nil
    from try_run_empty[OF less.prems(1) this, of run w] Nil show ?thesis
      by (subst run_all_tasks.simps) auto
  next
    case (Cons t ts)
    obtain new w1 where r: "run t w = (new, w1)" by (cases "run t w")
    have drop: "sum_list (map weight (ts @ new)) < sum_list (map weight (contents q))"
      using weight[of t w] r Cons by simp
    then have lim: "length ts + length new \<le> limit"
      using len[of "ts @ new"] less.prems(2) by simp
    obtain q1 where q1: "try_run_one_task push pop run q w = (True, q1, w1)" "invar q1"
        "contents q1 = ts @ new"
      using try_run_some[of q t ts run w new w1] less.prems(1) Cons r lim by auto
    have step: "run_all_tasks push pop run q w = run_all_tasks push pop run q1 w1"
      by (subst run_all_tasks.simps) (simp add: q1(1))
    have ref: "run_in_order run (contents q) w = run_in_order run (contents q1) w1"
      by (simp add: Cons r q1(3))
    have "sum_list (map weight (contents q1)) < sum_list (map weight (contents q))"
      unfolding q1(3) by (rule drop)
    with less.hyps[of q1 w1] q1(2) less.prems(2) show ?thesis
      unfolding step ref by auto
  qed
qed

end

subsection \<open>The queue of the scheduler\<close>

text \<open>
  The array is doubled only when it is full, so below \<open>2 ^ 60\<close> tasks it has at most \<open>2 ^ 61\<close> cells.
\<close>

definition fifo_small :: "'a fifo_queue \<Rightarrow> bool" where
  "fifo_small q \<longleftrightarrow> fifo_inv q \<and> length (items q) \<le> 2 ^ 61"

lemma fifo_small_empty [simp]: "fifo_small (fifo_queue junk)"
  by (simp add: fifo_small_def) (simp add: fifo_queue_def)

lemma fifo_push_items:
  "length (items (fifo_push junk t q)) =
     (if fifo_is_full q then 2 * length (items q) else length (items q))"
  by (simp add: fifo_push_def fifo_resize_def Let_def)

lemma fifo_small_push:
  assumes "fifo_small q" "length (fifo_contents q) < 2 ^ 60"
  shows "fifo_small (fifo_push junk t q)"
proof -
  have "fifo_inv q" "length (items q) \<le> 2 ^ 61" using assms(1) by (simp_all add: fifo_small_def)
  then have "fifo_inv (fifo_push junk t q)" by (intro fifo_push_correct) (simp_all add: fifo_room_def)
  moreover have "length (items (fifo_push junk t q)) \<le> 2 ^ 61"
  proof (cases "fifo_is_full q")
    case True
    then have "fifo_count q = length (items q) - 1" using fifo_full_iff[OF \<open>fifo_inv q\<close>] by simp
    then have "length (items q) \<le> 2 ^ 60" using assms(2) by (simp add: fifo_contents_def)
    with True show ?thesis by (simp add: fifo_push_items)
  next
    case False
    with \<open>length (items q) \<le> 2 ^ 61\<close> show ?thesis by (simp add: fifo_push_items)
  qed
  ultimately show ?thesis by (simp add: fifo_small_def)
qed

lemma fifo_pop_items: "items (snd (fifo_pop q)) = items q"
  by (simp add: fifo_pop_def)

interpretation fifo_counted: counted_queue "fifo_push junk" fifo_pop fifo_contents fifo_small
    "\<lambda>q. length (fifo_contents q) < 2 ^ 60" "2 ^ 60" for junk :: 'a
proof
  fix q :: "'a fifo_queue" and x
  assume s: "fifo_small q"
  then have q: "fifo_inv q" "fifo_room q" by (simp_all add: fifo_small_def fifo_room_def)
  show "length (fifo_contents q) < 2 ^ 60 \<Longrightarrow> fifo_small (fifo_push junk x q)"
    using s by (rule fifo_small_push)
  show "fifo_contents (fifo_push junk x q) = fifo_contents q @ [x]"
    using q by (rule fifo_push_correct)
  show "fifo_small (snd (fifo_pop q))"
    using s q(1) fifo.invar_pop[of q] by (simp add: fifo_small_def fifo_pop_items)
  show "fst (fifo_pop q) = (case fifo_contents q of [] \<Rightarrow> None | x # _ \<Rightarrow> Some x)"
    using q(1) by (rule fifo.pop_result)
  show "fifo_contents (snd (fifo_pop q)) = tl (fifo_contents q)"
    using q(1) by (rule fifo.contents_pop)
qed

definition fifo_schedule :: "'a \<Rightarrow> 'a \<Rightarrow> 'a fifo_queue \<Rightarrow> 'a fifo_queue" where
  "fifo_schedule junk t q = fifo_push junk t q"

lemma fifo_schedule_push: "fifo_schedule junk = fifo_push junk"
  by (intro ext) (simp add: fifo_schedule_def)

text \<open>
  C32. \<open>fifo_scheduler::run_all_tasks\<close> returns with an empty queue, and has run the queued tasks and
  all that they scheduled in first-in-first-out order, as the sequential reference does, provided
  tasks do not cause each other for ever (each weighs more than the tasks it schedules together) and
  the total weight, which bounds the number of queued tasks, is at most \<open>2 ^ 60\<close>.
\<close>

theorem fifo_scheduler_runs_all_in_order:
  assumes "fifo_small q" "sum_list (map weight (fifo_contents q)) \<le> 2 ^ 60"
    and "\<And>t w. sum_list (map weight (fst (run t w))) < (weight t :: nat)"
  shows "\<exists>q' w'. run_all_tasks (fifo_schedule junk) fifo_pop run q (w :: 'w) = Some (q', w')
    \<and> fifo_contents q' = [] \<and> run_in_order run (fifo_contents q) w = Some w'"
  using fifo_counted.run_all_in_order[of weight run q junk w, OF assms(3,1,2)] by (auto simp: fifo_schedule_push)

text \<open>A task \<open>n\<close> schedules the tasks \<open>0, \<dots>, n - 1\<close>; the trace shows the order.\<close>

definition countdown_task :: "(nat, nat list) task_body" where
  "countdown_task n w = (if n < 3 then [0..<n] else [], w @ [n])"

theorem fifo_scheduler_runs_all_in_order_witness:
  "\<exists>q'. run_all_tasks (fifo_schedule 7) fifo_pop countdown_task
      (fifo_schedule 7 1 (fifo_schedule 7 2 (fifo_queue 7))) [] = Some (q', [2, 1, 0, 1, 0, 0])"
proof -
  let ?q = "fifo_schedule 7 1 (fifo_schedule 7 2 (fifo_queue (7::nat)))"
  have q: "fifo_small ?q \<and> fifo_contents ?q = [2, 1]"
    using fifo_counted.push_all[of "fifo_queue (7::nat)" "[2, 1]" 7] by (simp add: fifo_schedule_push)
  have w: "sum_list (map ((^) 2) (fst (countdown_task t w))) < (2 ^ t :: nat)" for t w
  proof -
    have "t = 0 \<or> t = 1 \<or> t = 2 \<or> 3 \<le> t" by linarith
    then show ?thesis by (auto simp: countdown_task_def numeral_2_eq_2)
  qed
  have "run_in_order countdown_task [2, 1] [] = Some [2, 1, 0, 1, 0, 0]"
    by (simp add: countdown_task_def upt_rec)
  with fifo_scheduler_runs_all_in_order[of ?q "(^) 2" countdown_task 7 "[]"] q w show ?thesis
    by (auto simp: q)
qed

end
