(* ===== verification/Default_Scheduler.thy ===== *)
theory Default_Scheduler
  imports Prelude
begin

text \<open>
  How the default scheduler comes into being: \<open>libs/asyncplusplus/src/singleton.h\<close> (the double-checked
  lock used where static initialisation is not thread-safe), \<open>hardware_concurrency\<close> and
  \<open>default_scheduler_impl::get_num_threads\<close> of \<open>libs/asyncplusplus/src/scheduler.cpp\<close>.
\<close>

section \<open>singleton::get_instance\<close>

text \<open>
  Any number of threads call \<open>get_instance\<close>.  \<open>new(ptr) T\<close> may throw: the event says whether it does;
  the lock guard then releases the mutex on the way out.
\<close>

datatype singleton_pc =
    Sg_start         \<comment> \<open>first test of \<open>init_flag\<close>\<close>
  | Sg_lock
  | Sg_recheck       \<comment> \<open>second test, under the lock\<close>
  | Sg_construct
  | Sg_store
  | Sg_unlock
  | Sg_unwind
  | Sg_returned
  | Sg_threw

record singleton =
  sg_owner :: "tid option"
  init_flag :: bool
  constructed :: nat
  sg_pcs :: "singleton_pc list"

definition singleton_init :: "nat \<Rightarrow> singleton" where
  "singleton_init n = \<lparr>sg_owner = None, init_flag = False, constructed = 0, sg_pcs = replicate n Sg_start\<rparr>"

definition sg_goto :: "tid \<Rightarrow> singleton_pc \<Rightarrow> singleton \<Rightarrow> singleton" where
  "sg_goto i p s = s\<lparr>sg_pcs := (sg_pcs s)[i := p]\<rparr>"

definition get_instance_step :: "tid \<times> bool \<Rightarrow> singleton \<Rightarrow> singleton option" where
  "get_instance_step e s = (case e of (i, ok) \<Rightarrow>
     if length (sg_pcs s) \<le> i then None
     else case sg_pcs s ! i of
       Sg_start \<Rightarrow> Some (sg_goto i (if init_flag s then Sg_returned else Sg_lock) s)
     | Sg_lock \<Rightarrow> if sg_owner s = None then Some (sg_goto i Sg_recheck (s\<lparr>sg_owner := Some i\<rparr>)) else None
     | Sg_recheck \<Rightarrow> Some (sg_goto i (if init_flag s then Sg_unlock else Sg_construct) s)
     | Sg_construct \<Rightarrow>
         if ok then Some (sg_goto i Sg_store (s\<lparr>constructed := Suc (constructed s)\<rparr>))
         else Some (sg_goto i Sg_unwind s)
     | Sg_store \<Rightarrow> Some (sg_goto i Sg_unlock (s\<lparr>init_flag := True\<rparr>))
     | Sg_unlock \<Rightarrow> Some (sg_goto i Sg_returned (s\<lparr>sg_owner := None\<rparr>))
     | Sg_unwind \<Rightarrow> Some (sg_goto i Sg_threw (s\<lparr>sg_owner := None\<rparr>))
     | Sg_returned \<Rightarrow> None
     | Sg_threw \<Rightarrow> None)"

text \<open>The destructor destroys the instance exactly when it was initialised.\<close>

definition destroy_singleton :: "singleton \<Rightarrow> nat" where
  "destroy_singleton s = (if init_flag s then constructed s - 1 else constructed s)"

fun sg_critical :: "singleton_pc \<Rightarrow> bool" where
  "sg_critical Sg_recheck = True"
| "sg_critical Sg_construct = True"
| "sg_critical Sg_store = True"
| "sg_critical Sg_unlock = True"
| "sg_critical Sg_unwind = True"
| "sg_critical _ = False"

text \<open>What holds of the flag and the number of constructions when a thread is at a point.\<close>

fun sg_at :: "singleton_pc \<Rightarrow> bool \<Rightarrow> nat \<Rightarrow> bool" where
  "sg_at Sg_construct fl c \<longleftrightarrow> \<not> fl \<and> c = 0"
| "sg_at Sg_store fl c \<longleftrightarrow> \<not> fl \<and> c = 1"
| "sg_at Sg_unlock fl c \<longleftrightarrow> fl \<and> c = 1"
| "sg_at Sg_unwind fl c \<longleftrightarrow> \<not> fl \<and> c = 0"
| "sg_at Sg_recheck fl c \<longleftrightarrow> c = of_bool fl"
| "sg_at Sg_returned fl c \<longleftrightarrow> fl \<and> c = 1"
| "sg_at _ fl c \<longleftrightarrow> True"

definition sg_inv :: "singleton \<Rightarrow> bool" where
  "sg_inv s \<longleftrightarrow>
     (\<forall>i < length (sg_pcs s). sg_critical (sg_pcs s ! i) \<longleftrightarrow> sg_owner s = Some i)
   \<and> (\<forall>i < length (sg_pcs s). sg_at (sg_pcs s ! i) (init_flag s) (constructed s))
   \<and> (case sg_owner s of None \<Rightarrow> constructed s = of_bool (init_flag s) | Some i \<Rightarrow> i < length (sg_pcs s))"

fun sg_steps_left :: "singleton_pc \<Rightarrow> nat" where
  "sg_steps_left Sg_start = 6"
| "sg_steps_left Sg_lock = 5"
| "sg_steps_left Sg_recheck = 4"
| "sg_steps_left Sg_construct = 3"
| "sg_steps_left Sg_store = 2"
| "sg_steps_left Sg_unlock = 1"
| "sg_steps_left Sg_unwind = 1"
| "sg_steps_left Sg_returned = 0"
| "sg_steps_left Sg_threw = 0"

definition sg_budget :: "singleton \<Rightarrow> nat" where
  "sg_budget s = sum_list (map sg_steps_left (sg_pcs s))"

lemma sum_list_update_less:
  "i < length xs \<Longrightarrow> f y < f (xs ! i) \<Longrightarrow> sum_list (map f (xs[i := y])) < (sum_list (map f xs) :: nat)"
  by (induction xs arbitrary: i) (auto split: nat.splits)

lemma sg_at_quiet: "\<not> sg_critical p \<Longrightarrow> p \<noteq> Sg_returned \<Longrightarrow> sg_at p fl c"
  by (cases p) auto

lemma sg_others_quiet:
  assumes "sg_inv s" "sg_owner s = Some i" "j < length (sg_pcs s)" "j \<noteq> i"
  shows "\<not> sg_critical (sg_pcs s ! j) \<and> (\<not> init_flag s \<longrightarrow> sg_pcs s ! j \<noteq> Sg_returned)"
  using assms by (auto simp: sg_inv_def)

text \<open>The owner moves on, perhaps completing the construction; and it leaves.\<close>

lemma sg_inv_inside:
  assumes "sg_inv s" "sg_owner s = Some i" "sg_critical p" "sg_at p fl c"
    and "\<not> init_flag s \<or> fl = init_flag s \<and> c = constructed s"
  shows "sg_inv (sg_goto i p (s\<lparr>init_flag := fl, constructed := c\<rparr>))"
proof -
  have i: "i < length (sg_pcs s)" using assms(1,2) by (simp add: sg_inv_def)
  have "sg_at (sg_pcs s ! j) fl c" if "j < length (sg_pcs s)" "j \<noteq> i" for j
  proof (cases "init_flag s")
    case True
    with assms(1,5) that show ?thesis by (simp add: sg_inv_def)
  next
    case False
    with sg_others_quiet[OF assms(1,2) that] show ?thesis by (intro sg_at_quiet) auto
  qed
  with sg_others_quiet[OF assms(1,2)] i assms(2-4) show ?thesis
    by (auto simp: sg_inv_def sg_goto_def nth_list_update)
qed

lemma sg_inv_outside:
  assumes "sg_inv s" "i < length (sg_pcs s)" "sg_critical (sg_pcs s ! i)"
    and "\<not> sg_critical p" "sg_at p (init_flag s) (constructed s)"
    and "constructed s = of_bool (init_flag s)"
  shows "sg_inv (sg_goto i p (s\<lparr>sg_owner := None\<rparr>))"
proof -
  have o: "sg_owner s = Some i" using assms(1-3) by (simp add: sg_inv_def)
  show ?thesis
    using sg_others_quiet[OF assms(1) o] assms
    by (auto simp: sg_inv_def sg_goto_def nth_list_update)
qed

lemma sg_inv_wait:
  assumes "sg_inv s" "i < length (sg_pcs s)" "\<not> sg_critical (sg_pcs s ! i)" "\<not> sg_critical p"
    and "sg_at p (init_flag s) (constructed s)"
  shows "sg_inv (sg_goto i p s)"
  using assms by (simp add: sg_inv_def sg_goto_def nth_list_update split: option.splits)

lemma sg_inv_step:
  assumes "sg_inv s" "get_instance_step e s = Some s'"
  shows "sg_inv s'"
proof -
  obtain i ok where e: "e = (i, ok)" by (cases e)
  have i: "i < length (sg_pcs s)" using assms(2) e by (auto simp: get_instance_step_def split: if_splits)
  let ?p = "sg_pcs s ! i"
  have here: "sg_critical ?p \<longleftrightarrow> sg_owner s = Some i" "sg_at ?p (init_flag s) (constructed s)"
    using assms(1) i by (auto simp: sg_inv_def)
  have step: "get_instance_step (i, ok) s = Some s'" using assms(2) e by simp
  have keep: "s\<lparr>init_flag := True\<rparr> = s\<lparr>init_flag := True, constructed := constructed s\<rparr>"
      "s\<lparr>constructed := c\<rparr> = s\<lparr>init_flag := init_flag s, constructed := c\<rparr>"
      "s = s\<lparr>init_flag := init_flag s, constructed := constructed s\<rparr>" for c
    by simp_all
  note inside = sg_inv_inside[OF assms(1)]
  show ?thesis
  proof (cases ?p)
    case Sg_start
    then have s': "s' = sg_goto i (if init_flag s then Sg_returned else Sg_lock) s"
      using step i by (simp add: get_instance_step_def)
    have "init_flag s \<Longrightarrow> constructed s = 1"
    proof (cases "sg_owner s")
      case (Some j)
      with assms(1) have "sg_critical (sg_pcs s ! j)" "sg_at (sg_pcs s ! j) (init_flag s) (constructed s)"
        by (auto simp: sg_inv_def)
      then show "init_flag s \<Longrightarrow> constructed s = 1" by (cases "sg_pcs s ! j") auto
    qed (use assms(1) in \<open>simp add: sg_inv_def\<close>)
    with sg_inv_wait[OF assms(1) i] Sg_start show ?thesis unfolding s' by simp
  next
    case Sg_lock
    then have s': "s' = sg_goto i Sg_recheck (s\<lparr>sg_owner := Some i\<rparr>)" "sg_owner s = None"
      using step i by (simp_all add: get_instance_step_def split: if_splits)
    with assms(1) i show ?thesis by (auto simp: sg_inv_def sg_goto_def nth_list_update)
  next
    case Sg_recheck
    then have "s' = sg_goto i (if init_flag s then Sg_unlock else Sg_construct) s"
      using step i by (simp add: get_instance_step_def)
    with inside[of i _ "init_flag s" "constructed s"] here Sg_recheck show ?thesis by simp
  next
    case Sg_construct
    then have "s' = (if ok then sg_goto i Sg_store (s\<lparr>constructed := Suc (constructed s)\<rparr>)
        else sg_goto i Sg_unwind s)"
      using step i by (simp add: get_instance_step_def split: if_splits)
    moreover have "sg_inv (sg_goto i Sg_store (s\<lparr>constructed := Suc (constructed s)\<rparr>))"
      unfolding keep(2)[of "Suc (constructed s)"] using here Sg_construct by (intro inside) auto
    moreover have "sg_inv (sg_goto i Sg_unwind s)"
    proof -
      have "sg_inv (sg_goto i Sg_unwind (s\<lparr>init_flag := init_flag s, constructed := constructed s\<rparr>))"
        using here Sg_construct by (intro inside) auto
      then show ?thesis by (simp only: keep(3)[symmetric])
    qed
    ultimately show ?thesis by simp
  next
    case Sg_store
    then have "s' = sg_goto i Sg_unlock (s\<lparr>init_flag := True\<rparr>)"
      using step i by (simp add: get_instance_step_def)
    moreover have "sg_inv (sg_goto i Sg_unlock (s\<lparr>init_flag := True, constructed := constructed s\<rparr>))"
      using here Sg_store by (intro inside) auto
    ultimately show ?thesis by (simp only: keep(1)[symmetric])
  next
    case Sg_unlock
    then have "s' = sg_goto i Sg_returned (s\<lparr>sg_owner := None\<rparr>)"
      using step i by (simp add: get_instance_step_def)
    with sg_inv_outside[OF assms(1) i] here Sg_unlock show ?thesis by simp
  next
    case Sg_unwind
    then have "s' = sg_goto i Sg_threw (s\<lparr>sg_owner := None\<rparr>)"
      using step i by (simp add: get_instance_step_def)
    with sg_inv_outside[OF assms(1) i] here Sg_unwind show ?thesis by simp
  qed (use step i in \<open>simp_all add: get_instance_step_def\<close>)
qed

lemma sg_budget_step: "get_instance_step e s = Some s' \<Longrightarrow> sg_budget s' < sg_budget s"
  unfolding get_instance_step_def sg_budget_def sg_goto_def
  by (auto split: prod.splits if_splits singleton_pc.splits intro!: sum_list_update_less)

interpretation singleton: terminating_system get_instance_step "singleton_init n" sg_inv sg_budget for n
proof
  show "sg_inv (singleton_init n)" by (auto simp: sg_inv_def singleton_init_def)
qed (auto intro: sg_inv_step sg_budget_step)

lemma sg_enabled:
  assumes "sg_inv s" "i < length (sg_pcs s)" "sg_pcs s ! i \<notin> {Sg_returned, Sg_threw}"
  shows "\<exists>e s'. get_instance_step e s = Some s'"
proof (cases "sg_pcs s ! i = Sg_lock \<and> sg_owner s \<noteq> None")
  case True
  then obtain j where j: "sg_owner s = Some j" by auto
  with assms(1) have "j < length (sg_pcs s)" "sg_critical (sg_pcs s ! j)" by (auto simp: sg_inv_def)
  then show ?thesis
    by (intro exI[of _ "(j, True)"]) (cases "sg_pcs s ! j"; simp add: get_instance_step_def)
next
  case False
  then show ?thesis using assms(2,3)
    by (intro exI[of _ "(i, True)"]) (cases "sg_pcs s ! i"; auto simp: get_instance_step_def)
qed

text \<open>
  C37. \<open>singleton::get_instance\<close>, called by \<open>n\<close> threads in any interleaving and with a constructor that may
  throw: the object is never constructed twice, a thread returns only after the one construction has
  completed, the calls never block for good and take at most six steps each, and the destructor
  leaves no object behind when no call is in progress.
\<close>

theorem singleton_constructed_once:
  assumes "runs get_instance_step es (singleton_init n) = Some s"
  shows "constructed s \<le> 1 \<and> length es \<le> 6 * n
    \<and> (Sg_returned \<in> set (sg_pcs s) \<longrightarrow> init_flag s \<and> constructed s = 1)
    \<and> ((\<forall>e. get_instance_step e s = None) \<longrightarrow> set (sg_pcs s) \<subseteq> {Sg_returned, Sg_threw})
    \<and> (set (sg_pcs s) \<subseteq> {Sg_returned, Sg_threw} \<longrightarrow> destroy_singleton s = 0)"
proof -
  note inv = singleton.inv_reachable[OF assms]
  have le: "constructed s \<le> 1"
  proof (cases "sg_owner s")
    case (Some i)
    with inv have "i < length (sg_pcs s)" "sg_critical (sg_pcs s ! i)"
        "sg_at (sg_pcs s ! i) (init_flag s) (constructed s)" by (auto simp: sg_inv_def)
    then show ?thesis by (cases "sg_pcs s ! i") auto
  qed (use inv in \<open>auto simp: sg_inv_def\<close>)
  have ret: "init_flag s \<and> constructed s = 1" if "Sg_returned \<in> set (sg_pcs s)"
    using that inv by (auto simp: sg_inv_def in_set_conv_nth)
  have stuck: "set (sg_pcs s) \<subseteq> {Sg_returned, Sg_threw}" if "\<forall>e. get_instance_step e s = None"
    using sg_enabled[OF inv] that by (fastforce simp: in_set_conv_nth)
  have free: "destroy_singleton s = 0" if fin: "set (sg_pcs s) \<subseteq> {Sg_returned, Sg_threw}"
  proof (cases "sg_owner s")
    case (Some i)
    with inv have "i < length (sg_pcs s)" "sg_critical (sg_pcs s ! i)" by (auto simp: sg_inv_def)
    with subsetD[OF fin nth_mem[of i "sg_pcs s"]] show ?thesis by auto
  qed (use inv in \<open>auto simp: sg_inv_def destroy_singleton_def\<close>)
  from singleton.reachable_bounded[OF assms] have "length es \<le> 6 * n"
    by (simp add: sg_budget_def singleton_init_def sum_list_replicate)
  with le ret stuck free show ?thesis by blast
qed

theorem singleton_constructed_once_witness:
  "\<exists>s. runs get_instance_step [(0, True), (1, True), (0, True), (0, True), (0, False), (0, True), (1, True),
        (1, True), (1, True), (1, True), (1, True)] (singleton_init 2) = Some s
     \<and> sg_pcs s = [Sg_threw, Sg_returned] \<and> constructed s = 1 \<and> destroy_singleton s = 0"
proof -
  let ?es = "[(0, True), (1, True), (0, True), (0, True), (0, False), (0, True), (1, True),
        (1, True), (1, True), (1, True), (1, True)]"
  have "map_option (\<lambda>s. sg_pcs s) (runs get_instance_step ?es (singleton_init 2)) = Some [Sg_threw, Sg_returned]"
    by code_simp
  then obtain s where s: "runs get_instance_step ?es (singleton_init 2) = Some s"
      "sg_pcs s = [Sg_threw, Sg_returned]" by auto
  with singleton_constructed_once[OF s(1)] show ?thesis by simp
qed

section \<open>The number of threads\<close>

text \<open>\<open>hardware_concurrency\<close>, from the value that \<open>std::thread::hardware_concurrency\<close> gave once.\<close>

definition hardware_concurrency :: "size_t \<Rightarrow> size_t" where
  "hardware_concurrency cached = (if cached = 0 then 1 else cached)"

text \<open>
  \<open>std::strtoul(s, nullptr, 10)\<close> on a 64-bit platform: leading white space, an optional sign, decimal
  digits; the greatest \<open>unsigned long\<close> when the number is too large, the negated number for a minus
  sign, zero when there are no digits.
\<close>

definition c_isspace :: "char \<Rightarrow> bool" where
  "c_isspace c \<longleftrightarrow> c = CHR '' '' \<or> 9 \<le> (of_char c :: nat) \<and> (of_char c :: nat) \<le> 13"

definition c_isdigit :: "char \<Rightarrow> bool" where
  "c_isdigit c \<longleftrightarrow> 48 \<le> (of_char c :: nat) \<and> (of_char c :: nat) \<le> 57"

fun digits_value :: "nat \<Rightarrow> string \<Rightarrow> nat" where
  "digits_value n [] = n"
| "digits_value n (c # cs) = (if c_isdigit c then digits_value (10 * n + (of_char c - 48)) cs else n)"

definition signed_digits :: "string \<Rightarrow> bool \<times> nat" where
  "signed_digits s = (case s of
      [] \<Rightarrow> (False, 0)
    | c # ds \<Rightarrow>
        if c = CHR ''-'' then (True, digits_value 0 ds)
        else if c = CHR ''+'' then (False, digits_value 0 ds)
        else (False, digits_value 0 s))"

definition strtoul :: "string \<Rightarrow> size_t" where
  "strtoul s = (case signed_digits (dropWhile c_isspace s) of (neg, n) \<Rightarrow>
     if 2 ^ 64 \<le> n then - 1 else if neg then - of_nat n else of_nat n)"

definition get_num_threads :: "string option \<Rightarrow> size_t \<Rightarrow> size_t" where
  "get_num_threads env cached =
     (let num_threads = (case env of Some s \<Rightarrow> strtoul s | None \<Rightarrow> hardware_concurrency cached)
      in if num_threads < 1 then 1 else num_threads)"

text \<open>Decimal notation, to state what the environment variable means.\<close>

fun decimal :: "nat \<Rightarrow> string" where
  "decimal n = (if n < 10 then [char_of (48 + n)] else decimal (n div 10) @ [char_of (48 + n mod 10)])"

declare decimal.simps [simp del]

lemma digit_char:
  assumes "d < 10"
  shows "c_isdigit (char_of (48 + d))" "(of_char (char_of (48 + d) :: char) :: nat) = 48 + d"
proof -
  show "(of_char (char_of (48 + d) :: char) :: nat) = 48 + d" using assms by (simp add: of_char_of)
  then show "c_isdigit (char_of (48 + d))" using assms by (simp add: c_isdigit_def)
qed

lemma digits_value_append:
  "(\<forall>c \<in> set ds. c_isdigit c) \<Longrightarrow> digits_value n (ds @ cs) = digits_value (digits_value n ds) cs"
  by (induction ds arbitrary: n) auto

lemma decimal_digits: "\<forall>c \<in> set (decimal n). c_isdigit c"
proof (induction n rule: decimal.induct)
  case (1 n)
  then show ?case using digit_char(1) by (subst decimal.simps) auto
qed

lemma digits_value_decimal: "digits_value 0 (decimal n) = n"
proof (induction n rule: decimal.induct)
  case (1 n)
  show ?case
  proof (cases "n < 10")
    case True
    then show ?thesis by (subst decimal.simps) (simp add: digit_char)
  next
    case False
    with 1 have ih: "digits_value 0 (decimal (n div 10)) = n div 10" by simp
    from False show ?thesis
      by (subst decimal.simps) (simp add: digits_value_append decimal_digits ih digit_char)
  qed
qed

lemma decimal_first: "\<exists>c ds. decimal n = c # ds \<and> c_isdigit c"
proof -
  have "decimal n \<noteq> []" by (subst decimal.simps) simp
  then obtain c ds where "decimal n = c # ds" by (cases "decimal n") auto
  then show ?thesis using decimal_digits[of n] by simp
qed

lemma not_digit_chars: "\<not> c_isdigit (CHR ''-'')" "\<not> c_isdigit (CHR ''+'')"
  by (simp_all add: c_isdigit_def)

lemma digit_not_space: "c_isdigit c \<Longrightarrow> \<not> c_isspace c"
  by (auto simp: c_isdigit_def c_isspace_def)

lemma signed_digits_plain:
  assumes "c_isdigit c"
  shows "signed_digits (c # ds) = (False, digits_value 0 (c # ds))"
proof -
  have "c \<noteq> CHR ''-''" "c \<noteq> CHR ''+''" using assms not_digit_chars by metis+
  then show ?thesis by (simp add: signed_digits_def)
qed

lemma strtoul_decimal: "n < 2 ^ 64 \<Longrightarrow> strtoul (decimal n) = of_nat n"
  using decimal_first[of n] digits_value_decimal[of n]
  by (auto simp: strtoul_def digit_not_space signed_digits_plain simp del: digits_value.simps)

lemma strtoul_minus: "n < 2 ^ 64 \<Longrightarrow> strtoul (CHR ''-'' # decimal n) = - of_nat n"
  using digits_value_decimal[of n] by (simp add: strtoul_def signed_digits_def c_isspace_def)

lemma unat_of_nat_1: "n < 2 ^ 64 \<Longrightarrow> (of_nat n :: size_t) < 1 \<longleftrightarrow> n = 0"
  by (simp add: word_less_nat_alt unat_of_nat_small)

text \<open>
  C40. The size of the default pool: at least one in every case; the number in
  \<open>LIBASYNC_NUM_THREADS\<close>, with zero corrected to one; the number of processors, corrected in the same
  way, when the variable is not set.  A negative number is not caught by the check that "the thread
  count is reasonable": it wraps to a huge count.
\<close>

theorem num_threads_from_environment:
  "1 \<le> get_num_threads env cached
   \<and> get_num_threads None cached = max 1 cached
   \<and> (n < 2 ^ 64 \<longrightarrow> unat (get_num_threads (Some (decimal n)) cached) = max 1 n)
   \<and> (0 < n \<and> n < 2 ^ 64 \<longrightarrow> unat (get_num_threads (Some (CHR ''-'' # decimal n)) cached) = 2 ^ 64 - n)"
proof (intro conjI impI)
  show "1 \<le> get_num_threads env cached" by (simp only: get_num_threads_def Let_def not_less order_refl split: if_split) blast
  have "cached < 1 \<longleftrightarrow> cached = 0" by (simp add: word_less_nat_alt unat_eq_0)
  then show "get_num_threads None cached = max 1 cached"
    by (auto simp: get_num_threads_def hardware_concurrency_def max_def not_le)
next
  assume n: "n < 2 ^ 64"
  show "unat (get_num_threads (Some (decimal n)) cached) = max 1 n"
    using unat_of_nat_1[OF n] unat_of_nat_small[OF n]
    unfolding get_num_threads_def Let_def option.case strtoul_decimal[OF n]
    by (cases "n = 0") (simp_all add: max_def)
next
  assume n: "0 < n \<and> n < 2 ^ 64"
  have "(of_nat n :: size_t) \<noteq> 0" using n unat_of_nat_small[of n] by (metis less_irrefl unat_0)
  then have "unat (- of_nat n :: size_t) = 2 ^ 64 - n"
    using n unat_of_nat_small[of n] unat_minus_wrap[of 0 "of_nat n"] by simp
  moreover have "\<not> (- of_nat n :: size_t) < 1" using calculation n by (simp add: word_less_nat_alt)
  ultimately show "unat (get_num_threads (Some (CHR ''-'' # decimal n)) cached) = 2 ^ 64 - n"
    using n by (simp add: get_num_threads_def strtoul_minus Let_def)
qed

theorem num_threads_from_environment_witness:
  "unat (get_num_threads (Some ''12'') 8) = 12 \<and> unat (get_num_threads (Some ''-1'') 8) = 2 ^ 64 - 1"
proof -
  have d: "decimal 12 = ''12''" "decimal 1 = ''1''" by code_simp+
  show ?thesis
    using num_threads_from_environment[of None 8 12] num_threads_from_environment[of None 8 1]
    by (simp add: d del: One_nat_def)
qed

end
