(* ===== verification/Partitioner.thy ===== *)
theory Partitioner
  imports Prelude
begin

text \<open>
  \<open>libs/asyncplusplus/include/async++/range.h\<close> and \<open>partitioner.h\<close>: ranges of iterators, ranges of
  integers, and the two partitioners that split a range for the parallel algorithms.

  A partitioner works over any random access iterator.  Its operations are arguments here:
  \<open>dist b e\<close> is \<open>std::distance\<close> as a \<open>std::size_t\<close>, \<open>adv b n\<close> is \<open>std::advance\<close>, \<open>nxt\<close> and \<open>deref\<close> are
  \<open>++\<close> and \<open>*\<close>.  The locale \<open>iterators\<close> states what they promise for a valid pair of iterators; it holds
  of the iterators of \<open>int_range\<close> and of positions in an array.
\<close>

section \<open>Ranges of integers\<close>

text \<open>
  \<open>int_range<int>\<close>: the value is a 32-bit signed integer, \<open>difference_type\<close> has 64 bits.  Where C++ leaves
  the overflow of a signed sum undefined the model wraps; the laws below only use ranges in which
  nothing overflows.
\<close>

type_synonym int32 = "32 word"
type_synonym ptrdiff_t = "64 word"

record int_iterator = current :: int32

record int_range =
  value_begin :: int32
  value_end :: int32

definition irange :: "int32 \<Rightarrow> int32 \<Rightarrow> int_range" where
  "irange b e = \<lparr>value_begin = b, value_end = e\<rparr>"

definition int_range_begin :: "int_range \<Rightarrow> int_iterator" where
  "int_range_begin r = \<lparr>current = value_begin r\<rparr>"

definition int_range_end :: "int_range \<Rightarrow> int_iterator" where
  "int_range_end r = \<lparr>current = value_end r\<rparr>"

definition iter_deref :: "int_iterator \<Rightarrow> int32" where
  "iter_deref i = current i"

definition iter_plus :: "int_iterator \<Rightarrow> ptrdiff_t \<Rightarrow> int_iterator" where
  "iter_plus i offset = \<lparr>current = current i + ucast offset\<rparr>"

definition iter_sub :: "int_iterator \<Rightarrow> ptrdiff_t \<Rightarrow> int_iterator" where
  "iter_sub i offset = \<lparr>current = current i - ucast offset\<rparr>"

definition iter_index :: "int_iterator \<Rightarrow> ptrdiff_t \<Rightarrow> int32" where
  "iter_index i offset = current i + ucast offset"

definition iter_pre_inc :: "int_iterator \<Rightarrow> int_iterator" where
  "iter_pre_inc i = i\<lparr>current := current i + 1\<rparr>"

definition iter_post_inc :: "int_iterator \<Rightarrow> int_iterator \<times> int_iterator" where
  "iter_post_inc i = (\<lparr>current = current i\<rparr>, i\<lparr>current := current i + 1\<rparr>)"

definition iter_pre_dec :: "int_iterator \<Rightarrow> int_iterator" where
  "iter_pre_dec i = i\<lparr>current := current i - 1\<rparr>"

definition iter_post_dec :: "int_iterator \<Rightarrow> int_iterator \<times> int_iterator" where
  "iter_post_dec i = (\<lparr>current = current i\<rparr>, i\<lparr>current := current i - 1\<rparr>)"

definition iter_add_assign :: "ptrdiff_t \<Rightarrow> int_iterator \<Rightarrow> int_iterator" where
  "iter_add_assign offset i = i\<lparr>current := current i + ucast offset\<rparr>"

definition iter_sub_assign :: "ptrdiff_t \<Rightarrow> int_iterator \<Rightarrow> int_iterator" where
  "iter_sub_assign offset i = i\<lparr>current := current i - ucast offset\<rparr>"

definition iter_difference :: "int_iterator \<Rightarrow> int_iterator \<Rightarrow> ptrdiff_t" where
  "iter_difference a b = scast (current a - current b)"

definition iter_less :: "int_iterator \<Rightarrow> int_iterator \<Rightarrow> bool" where
  "iter_less a b \<longleftrightarrow> sint (current a) < sint (current b)"

definition iter_less_eq :: "int_iterator \<Rightarrow> int_iterator \<Rightarrow> bool" where
  "iter_less_eq a b \<longleftrightarrow> sint (current a) \<le> sint (current b)"

section \<open>Iterators\<close>

locale iterators =
  fixes dist :: "'i \<Rightarrow> 'i \<Rightarrow> size_t"
    and adv :: "'i \<Rightarrow> size_t \<Rightarrow> 'i"
    and nxt :: "'i \<Rightarrow> 'i"
    and deref :: "'i \<Rightarrow> 'a"
    and valid :: "'i \<Rightarrow> 'i \<Rightarrow> bool"
    and elems :: "'i \<Rightarrow> 'i \<Rightarrow> 'a list"
  assumes dist_length: "valid b e \<Longrightarrow> unat (dist b e) = length (elems b e)"
    and length_small: "valid b e \<Longrightarrow> length (elems b e) < 2 ^ 63"
    and advance: "valid b e \<Longrightarrow> unat k \<le> length (elems b e) \<Longrightarrow>
        valid b (adv b k) \<and> valid (adv b k) e
        \<and> elems b (adv b k) = take (unat k) (elems b e) \<and> elems (adv b k) e = drop (unat k) (elems b e)"
    and empty_iff: "valid b e \<Longrightarrow> elems b e = [] \<longleftrightarrow> b = e"
    and next_elem: "valid b e \<Longrightarrow> elems b e = x # xs \<Longrightarrow>
        deref b = x \<and> valid (nxt b) e \<and> elems (nxt b) e = xs"
    and valid_end: "valid b e \<Longrightarrow> valid e e"

text \<open>The loop \<open>for (auto&& i : range) w = f(i, w);\<close>\<close>

partial_function (option) range_for ::
  "('i \<Rightarrow> 'i) \<Rightarrow> ('i \<Rightarrow> 'a) \<Rightarrow> ('a \<Rightarrow> 'w \<Rightarrow> 'w) \<Rightarrow> 'i \<Rightarrow> 'i \<Rightarrow> 'w \<Rightarrow> 'w option"
where
  "range_for nxt deref f b e w =
     (if b = e then Some w else range_for nxt deref f (nxt b) e (f (deref b) w))"

context iterators
begin

lemma range_for_fold: "valid b e \<Longrightarrow> range_for nxt deref f b e w = Some (fold f (elems b e) w)"
proof (induction "elems b e" arbitrary: b w)
  case Nil
  then show ?case using empty_iff[of b e] by (subst range_for.simps) simp
next
  case (Cons x xs)
  then have "b \<noteq> e" using empty_iff[of b e] by auto
  moreover have n: "deref b = x" "valid (nxt b) e" "elems (nxt b) e = xs"
    using next_elem[of b e x xs] Cons by auto
  ultimately show ?case
    using Cons.hyps(1)[of "nxt b"] Cons.hyps(2) by (subst range_for.simps) (simp flip: Cons.hyps(2))
qed

end

subsection \<open>Positions in an array\<close>

definition array_dist :: "nat \<Rightarrow> nat \<Rightarrow> size_t" where "array_dist b e = of_nat (e - b)"
definition array_advance :: "nat \<Rightarrow> size_t \<Rightarrow> nat" where "array_advance b k = b + unat k"

definition array_slice :: "'a list \<Rightarrow> nat \<Rightarrow> nat \<Rightarrow> 'a list" where
  "array_slice xs b e = take (e - b) (drop b xs)"

definition array_valid :: "'a list \<Rightarrow> nat \<Rightarrow> nat \<Rightarrow> bool" where
  "array_valid xs b e \<longleftrightarrow> b \<le> e \<and> e \<le> length xs \<and> length xs < 2 ^ 63"

lemma length_array_slice: "array_valid xs b e \<Longrightarrow> length (array_slice xs b e) = e - b"
  by (auto simp: array_valid_def array_slice_def)

interpretation array_iterators: iterators array_dist array_advance Suc "(!) xs" "array_valid xs" "array_slice xs"
  for xs :: "'a list"
proof
  fix b e k x ys
  assume v: "array_valid xs b e"
  then have be: "b \<le> e" "e \<le> length xs" "e - b < 2 ^ 63" by (auto simp: array_valid_def)
  show "unat (array_dist b e) = length (array_slice xs b e)"
    using be unat_of_nat_small[of "e - b"]
    by (simp add: array_dist_def length_array_slice[OF v] del: of_nat_diff)
  show "length (array_slice xs b e) < 2 ^ 63" using be by (simp add: length_array_slice[OF v])
  show "unat k \<le> length (array_slice xs b e) \<Longrightarrow>
    array_valid xs b (array_advance b k) \<and> array_valid xs (array_advance b k) e
    \<and> array_slice xs b (array_advance b k) = take (unat k) (array_slice xs b e)
    \<and> array_slice xs (array_advance b k) e = drop (unat k) (array_slice xs b e)"
    using v unfolding length_array_slice[OF v]
    by (auto simp: array_valid_def array_advance_def array_slice_def drop_take add.commute)
  show "array_slice xs b e = [] \<longleftrightarrow> b = e"
    using be length_array_slice[OF v] by (metis diff_is_0_eq le_antisym length_0_conv order_refl)
  show "array_slice xs b e = x # ys \<Longrightarrow>
    xs ! b = x \<and> array_valid xs (Suc b) e \<and> array_slice xs (Suc b) e = ys"
  proof -
    assume s: "array_slice xs b e = x # ys"
    then have "b < e" using length_array_slice[OF v] by (cases "b < e") auto
    then have "array_slice xs b e = xs ! b # array_slice xs (Suc b) e"
      using be by (simp add: array_slice_def Cons_nth_drop_Suc[symmetric] take_Cons' )
    with s \<open>b < e\<close> v show ?thesis by (simp add: array_valid_def)
  qed
  show "array_valid xs e e" using v by (simp add: array_valid_def)
qed

subsection \<open>Iterators of an integer range\<close>

text \<open>\<open>std::distance\<close> and \<open>std::advance\<close> for random access iterators use \<open>-\<close> and \<open>+=\<close>.\<close>

definition int_dist :: "int_iterator \<Rightarrow> int_iterator \<Rightarrow> size_t" where
  "int_dist b e = iter_difference e b"

definition int_advance :: "int_iterator \<Rightarrow> size_t \<Rightarrow> int_iterator" where
  "int_advance b k = iter_add_assign k b"

definition int_valid :: "int_iterator \<Rightarrow> int_iterator \<Rightarrow> bool" where
  "int_valid b e \<longleftrightarrow> sint (current b) \<le> sint (current e) \<and> sint (current e) - sint (current b) < 2 ^ 31"

definition int_elems :: "int_iterator \<Rightarrow> int_iterator \<Rightarrow> int32 list" where
  "int_elems b e = map (\<lambda>i. current b + of_nat i) [0..<nat (sint (current e) - sint (current b))]"

lemma sint32_bounds: "- (2 ^ 31) \<le> sint (w :: int32)" "sint (w :: int32) < 2 ^ 31"
  using sint_ge[of w] sint_lt[of w] by simp_all

lemma sint32_of_int: "- (2 ^ 31) \<le> i \<Longrightarrow> i < 2 ^ 31 \<Longrightarrow> sint (word_of_int i :: int32) = i"
  by (simp add: int_word_sint)

lemma sint32_plus:
  "sint (a :: int32) + int n < 2 ^ 31 \<Longrightarrow> sint (a + of_nat n) = sint a + int n"
proof -
  assume b: "sint a + int n < 2 ^ 31"
  have "a + of_nat n = word_of_int (sint a + int n)" by simp
  then show ?thesis using b sint32_bounds(1)[of a] sint32_of_int[of "sint a + int n"] by (simp only:)
qed

lemma unat_int_dist:
  assumes "int_valid b e"
  shows "unat (int_dist b e) = nat (sint (current e) - sint (current b))"
proof -
  let ?d = "sint (current e) - sint (current b)"
  have d: "0 \<le> ?d" "?d < 2 ^ 31" using assms by (simp_all add: int_valid_def)
  have "current e - current b = word_of_int ?d" by simp
  then have "sint (current e - current b) = ?d" using d sint32_of_int[of ?d] by (simp only:)
  then have "int_dist b e = word_of_int ?d" by (simp only: int_dist_def iter_difference_def scast_eq)
  also have "\<dots> = of_nat (nat ?d)" by (rule of_nat_nat[OF d(1), symmetric])
  finally have "unat (int_dist b e) = unat (of_nat (nat ?d) :: size_t)" by (rule arg_cong)
  also have "\<dots> = nat ?d" using d by (intro unat_of_nat_small) simp
  finally show ?thesis .
qed

interpretation int_iterators: iterators int_dist int_advance iter_pre_inc iter_deref int_valid int_elems
proof
  fix b e :: int_iterator and k x ys
  assume v: "int_valid b e"
  define d where "d = nat (sint (current e) - sint (current b))"
  have d: "sint (current e) = sint (current b) + int d" "d < 2 ^ 31"
    using v by (auto simp: int_valid_def d_def)
  have el: "int_elems b e = map (\<lambda>i. current b + of_nat i) [0..<d]" by (simp add: int_elems_def d(1))
  have pos: "sint (current b + of_nat n) = sint (current b) + int n" if "n \<le> d" for n
    using that d(1) sint32_bounds(2)[of "current e"] by (intro sint32_plus) linarith
  show "unat (int_dist b e) = length (int_elems b e)" using unat_int_dist[OF v] el d(1) by simp
  show "length (int_elems b e) < 2 ^ 63" using el d(2) by simp
  show "unat k \<le> length (int_elems b e) \<Longrightarrow>
    int_valid b (int_advance b k) \<and> int_valid (int_advance b k) e
    \<and> int_elems b (int_advance b k) = take (unat k) (int_elems b e)
    \<and> int_elems (int_advance b k) e = drop (unat k) (int_elems b e)"
  proof -
    assume k: "unat k \<le> length (int_elems b e)"
    obtain n where n: "unat k = n" by simp
    have c: "current (int_advance b k) = current b + of_nat n"
      unfolding n[symmetric] by (simp add: int_advance_def iter_add_assign_def of_nat_unat)
    have nd: "n \<le> d" using k el n by simp
    note p = pos[OF nd]
    have "[n..<d] = map (\<lambda>i. i + n) [0..<d - n]" using nd by (simp add: map_add_upt)
    then have "int_elems (int_advance b k) e = drop n (int_elems b e)"
      unfolding el int_elems_def[of "int_advance b k"] c p d(1) using nd
      by (simp add: drop_map comp_def algebra_simps of_nat_diff[symmetric] del: of_nat_diff)
    moreover have "int_elems b (int_advance b k) = take n (int_elems b e)"
      unfolding el int_elems_def[of b "int_advance b k"] c p using nd by (simp add: take_map)
    ultimately show ?thesis
      using d nd by (simp add: int_valid_def c p n)
  qed
  show "int_elems b e = [] \<longleftrightarrow> b = e"
  proof
    assume "int_elems b e = []"
    then have "sint (current b) = sint (current e)" using el d(1) by simp
    then have "current b = current e" by (rule word_eq_iff_signed[THEN iffD2])
    then show "b = e" by (cases b; cases e) simp
  qed (use el d(1) in simp)
  show "int_elems b e = x # ys \<Longrightarrow> iter_deref b = x \<and> int_valid (iter_pre_inc b) e \<and> int_elems (iter_pre_inc b) e = ys"
  proof -
    assume s: "int_elems b e = x # ys"
    then obtain n where n: "d = Suc n" using el by (cases d) auto
    then have "[0..<d] = 0 # map Suc [0..<n]" by (metis map_Suc_upt upt_conv_Cons zero_less_Suc)
    then have "int_elems b e = current b # map (\<lambda>i. current b + 1 + of_nat i) [0..<n]"
      by (simp add: el comp_def algebra_simps)
    moreover have p: "sint (current b + 1) = sint (current b) + 1" using pos[of 1] n by simp
    ultimately show ?thesis using s d n
      by (auto simp: iter_deref_def iter_pre_inc_def int_valid_def int_elems_def)
  qed
  show "int_valid e e" by (simp add: int_valid_def)
qed

section \<open>Partitioners\<close>

record 'i partition =
  iter_begin :: 'i
  iter_end :: 'i
  grain :: size_t

record 'i auto_partition = "'i partition" +
  num_threads :: size_t
  last_thread :: "tid option"

definition auto_grain_size :: "size_t \<Rightarrow> size_t \<Rightarrow> size_t" where
  "auto_grain_size hw dist =
     (let g = dist div (8 * hw); g1 = (if g < 1 then 1 else g) in if 2048 < g1 then 2048 else g1)"

text \<open>\<open>split\<close> changes the partitioner and returns the part for the child: the pair of both.\<close>

definition static_split ::
  "('i \<Rightarrow> 'i \<Rightarrow> size_t) \<Rightarrow> ('i \<Rightarrow> size_t \<Rightarrow> 'i) \<Rightarrow> 'i partition \<Rightarrow> 'i partition \<times> 'i partition" where
  "static_split dist adv p =
     (let len = dist (iter_begin p) (iter_end p);
          out = \<lparr>iter_begin = iter_end p, iter_end = iter_end p, grain = grain p\<rparr>
      in if len \<le> grain p then (p, out)
         else let mid = adv (iter_begin p) ((len + 1) div 2)
              in (p\<lparr>iter_end := mid\<rparr>, out\<lparr>iter_begin := mid\<rparr>))"

text \<open>
  The auto partitioner asks which thread it runs on; \<open>hw\<close> is \<open>hardware_concurrency()\<close>.  The constructor
  leaves \<open>num_threads\<close> uninitialised, here \<open>junk\<close>: \<open>last_thread\<close> is then "no thread", so the first
  split sets it before it is read.
\<close>

definition auto_partitioner_impl :: "size_t \<Rightarrow> 'i \<Rightarrow> 'i \<Rightarrow> size_t \<Rightarrow> 'i auto_partition" where
  "auto_partitioner_impl junk b e g =
     \<lparr>iter_begin = b, iter_end = e, grain = g, num_threads = junk, last_thread = None\<rparr>"

definition auto_split ::
  "size_t \<Rightarrow> size_t \<Rightarrow> ('i \<Rightarrow> 'i \<Rightarrow> size_t) \<Rightarrow> ('i \<Rightarrow> size_t \<Rightarrow> 'i) \<Rightarrow> tid \<Rightarrow>
   'i auto_partition \<Rightarrow> 'i auto_partition \<times> 'i auto_partition" where
  "auto_split junk hw dist adv current_thread p =
     (let len = dist (iter_begin p) (iter_end p);
          out = auto_partitioner_impl junk (iter_end p) (iter_end p) (grain p)
      in if len \<le> grain p then (p, out)
         else
           let p1 = (if last_thread p \<noteq> Some current_thread then p\<lparr>num_threads := hw\<rparr> else p)
           in if num_threads p1 \<le> 1 then (p1, out)
              else
                let mid = adv (iter_begin p) ((len + 1) div 2);
                    half = num_threads p1 div 2
                in (p1\<lparr>iter_end := mid, last_thread := Some current_thread,
                      num_threads := num_threads p1 - half\<rparr>,
                    out\<lparr>iter_begin := mid, last_thread := Some current_thread, num_threads := half\<rparr>))"

definition static_partitioner :: "'i \<Rightarrow> 'i \<Rightarrow> size_t \<Rightarrow> 'i partition" where
  "static_partitioner b e g = \<lparr>iter_begin = b, iter_end = e, grain = g\<rparr>"

definition static_partitioner_auto ::
  "size_t \<Rightarrow> ('i \<Rightarrow> 'i \<Rightarrow> size_t) \<Rightarrow> 'i \<Rightarrow> 'i \<Rightarrow> 'i partition" where
  "static_partitioner_auto hw dist b e = static_partitioner b e (auto_grain_size hw (dist b e))"

definition auto_partitioner ::
  "size_t \<Rightarrow> size_t \<Rightarrow> ('i \<Rightarrow> 'i \<Rightarrow> size_t) \<Rightarrow> 'i \<Rightarrow> 'i \<Rightarrow> 'i auto_partition" where
  "auto_partitioner junk hw dist b e = auto_partitioner_impl junk b e (auto_grain_size hw (dist b e))"

text \<open>
  The contract of a partitioner: both parts together are the old range, in order, and unless the part
  for the child is empty, which means "do not split", neither part is.
\<close>

locale partitioner = iterators dist adv nxt deref valid elems
  for dist :: "'i \<Rightarrow> 'i \<Rightarrow> size_t" and adv :: "'i \<Rightarrow> size_t \<Rightarrow> 'i" and nxt :: "'i \<Rightarrow> 'i"
    and deref :: "'i \<Rightarrow> 'a" and valid :: "'i \<Rightarrow> 'i \<Rightarrow> bool" and elems :: "'i \<Rightarrow> 'i \<Rightarrow> 'a list" +
  fixes split :: "tid \<Rightarrow> 'p \<Rightarrow> 'p \<times> 'p"
    and pbegin :: "'p \<Rightarrow> 'i"
    and pend :: "'p \<Rightarrow> 'i"
  assumes split_parts: "valid (pbegin p) (pend p) \<Longrightarrow> split th p = (p', sub) \<Longrightarrow>
      valid (pbegin p') (pend p') \<and> valid (pbegin sub) (pend sub)
      \<and> elems (pbegin p) (pend p) = elems (pbegin p') (pend p') @ elems (pbegin sub) (pend sub)
      \<and> (elems (pbegin sub) (pend sub) \<noteq> [] \<longrightarrow> elems (pbegin p') (pend p') \<noteq> [])"

context iterators
begin

lemma midpoint:
  assumes "valid b e" "unat (dist b e) \<noteq> 0"
  shows "unat ((dist b e + 1) div 2) = (length (elems b e) + 1) div 2"
proof -
  have l: "unat (dist b e) = length (elems b e)" "length (elems b e) < 2 ^ 63"
    by (rule dist_length[OF assms(1)], rule length_small[OF assms(1)])
  then have "unat (dist b e + 1) = length (elems b e) + 1"
    using unat_plus_small[of "dist b e" 1] by simp
  then show ?thesis by (simp add: unat_div)
qed

lemma halves:
  assumes "valid b e" "dist b e \<noteq> 0"
  defines "m \<equiv> adv b ((dist b e + 1) div 2)"
  shows "valid b m \<and> valid m e \<and> elems b e = elems b m @ elems m e \<and> elems b m \<noteq> []"
proof -
  have n: "length (elems b e) \<noteq> 0" using assms(2) dist_length[OF assms(1)] by (metis unat_eq_zero)
  then have k: "unat ((dist b e + 1) div 2) = (length (elems b e) + 1) div 2"
    using midpoint[OF assms(1)] dist_length[OF assms(1)] by simp
  moreover have "(length (elems b e) + 1) div 2 \<le> length (elems b e)" using n by simp
  ultimately show ?thesis
    using advance[OF assms(1), of "(dist b e + 1) div 2"] n unfolding m_def by auto
qed

lemma static_split_parts:
  assumes "valid (iter_begin p) (iter_end p)" "static_split dist adv p = (p', sub)"
  shows "valid (iter_begin p') (iter_end p') \<and> valid (iter_begin sub) (iter_end sub)
    \<and> elems (iter_begin p) (iter_end p) = elems (iter_begin p') (iter_end p') @ elems (iter_begin sub) (iter_end sub)
    \<and> (elems (iter_begin sub) (iter_end sub) \<noteq> [] \<longrightarrow> elems (iter_begin p') (iter_end p') \<noteq> [])"
proof (cases "dist (iter_begin p) (iter_end p) \<le> grain p")
  case True
  then show ?thesis
    using assms valid_end[OF assms(1)] empty_iff[OF valid_end[OF assms(1)]]
    by (auto simp: static_split_def)
next
  case False
  then have "dist (iter_begin p) (iter_end p) \<noteq> 0" by auto
  from halves[OF assms(1) this] False assms(2) show ?thesis by (auto simp: static_split_def Let_def)
qed

lemma auto_split_parts:
  assumes "valid (iter_begin p) (iter_end p)" "auto_split junk hw dist adv th p = (p', sub)"
  shows "valid (iter_begin p') (iter_end p') \<and> valid (iter_begin sub) (iter_end sub)
    \<and> elems (iter_begin p) (iter_end p) = elems (iter_begin p') (iter_end p') @ elems (iter_begin sub) (iter_end sub)
    \<and> (elems (iter_begin sub) (iter_end sub) \<noteq> [] \<longrightarrow> elems (iter_begin p') (iter_end p') \<noteq> [])"
proof -
  let ?b = "iter_begin p" and ?e = "iter_end p"
  let ?m = "adv ?b ((dist ?b ?e + 1) div 2)"
  have "iter_begin p' = ?b \<and> iter_end p' = ?e \<and> iter_begin sub = ?e \<and> iter_end sub = ?e
      \<or> dist ?b ?e \<noteq> 0 \<and> iter_begin p' = ?b \<and> iter_end p' = ?m \<and> iter_begin sub = ?m \<and> iter_end sub = ?e"
    using assms(2) by (auto simp: auto_split_def auto_partitioner_impl_def Let_def split: if_splits)
  then show ?thesis
  proof
    assume "iter_begin p' = ?b \<and> iter_end p' = ?e \<and> iter_begin sub = ?e \<and> iter_end sub = ?e"
    then show ?thesis
      using assms(1) valid_end[OF assms(1)] empty_iff[OF valid_end[OF assms(1)]] by auto
  next
    assume "dist ?b ?e \<noteq> 0 \<and> iter_begin p' = ?b \<and> iter_end p' = ?m \<and> iter_begin sub = ?m \<and> iter_end sub = ?e"
    then show ?thesis using halves[OF assms(1)] by auto
  qed
qed

end

interpretation static_array: partitioner array_dist array_advance Suc "(!) xs" "array_valid xs" "array_slice xs"
    "\<lambda>_. static_split array_dist array_advance" iter_begin iter_end for xs :: "'a list"
  by unfold_locales (rule array_iterators.static_split_parts)

interpretation auto_array: partitioner array_dist array_advance Suc "(!) xs" "array_valid xs" "array_slice xs"
    "auto_split junk hw array_dist array_advance" iter_begin iter_end
    for xs :: "'a list" and junk hw :: size_t
  by unfold_locales (rule array_iterators.auto_split_parts)

interpretation static_int: partitioner int_dist int_advance iter_pre_inc iter_deref int_valid int_elems
    "\<lambda>_. static_split int_dist int_advance" iter_begin iter_end
  by unfold_locales (rule int_iterators.static_split_parts)

interpretation auto_int: partitioner int_dist int_advance iter_pre_inc iter_deref int_valid int_elems
    "auto_split junk hw int_dist int_advance" iter_begin iter_end for junk hw :: size_t
  by unfold_locales (rule int_iterators.auto_split_parts)

end
