(* ===== verification/Parallel_Algorithms.thy ===== *)
theory Parallel_Algorithms
  imports Partitioner
begin

text \<open>
  \<open>libs/asyncplusplus/include/async++/parallel_for.h\<close>, \<open>parallel_reduce.h\<close> and \<open>parallel_invoke.h\<close>.

  \<open>local_spawn\<close> runs the child's part at the same time as the parent runs its own; the parent then
  waits for the child (\<open>t.get()\<close>, or the destructor of the local task when the parent's part throws).
  A parallel call is therefore a tree: a leaf makes calls one after the other and may end with an
  exception, a fork runs both subtrees interleaved in any way (\<^const>\<open>shuffles\<close>).  The user's function
  \<open>func\<close> gives for every element the exception it throws, if any.  Which thread executes a part, which
  the auto partitioner asks, is arbitrary: a function \<open>thr\<close> of the position in the tree.
\<close>

section \<open>Parallel calls\<close>

datatype ('a, 'e) par_run =
    Calls "'a list" "'e option"
  | Fork (child: "('a, 'e) par_run") (parent: "('a, 'e) par_run")

text \<open>The exception that leaves the call: the parent's own, else the one that \<open>t.get()\<close> rethrows.\<close>

primrec outcome :: "('a, 'e) par_run \<Rightarrow> 'e option" where
  "outcome (Calls cs r) = r"
| "outcome (Fork c p) = (case outcome p of Some e \<Rightarrow> Some e | None \<Rightarrow> outcome c)"

primrec traces :: "('a, 'e) par_run \<Rightarrow> 'a list set" where
  "traces (Calls cs r) = {cs}"
| "traces (Fork c p) = (\<Union>xs \<in> traces c. \<Union>ys \<in> traces p. shuffles xs ys)"

primrec leaves :: "('a, 'e) par_run \<Rightarrow> 'a list list" where
  "leaves (Calls cs r) = [cs]"
| "leaves (Fork c p) = leaves p @ leaves c"

text \<open>The sequential reference: call \<open>func\<close> on each element until it throws.\<close>

fun for_seq :: "('a \<Rightarrow> 'e option) \<Rightarrow> 'a list \<Rightarrow> 'a list \<times> 'e option" where
  "for_seq func [] = ([], None)"
| "for_seq func (x # xs) =
     (case func x of Some e \<Rightarrow> ([x], Some e)
      | None \<Rightarrow> (case for_seq func xs of (cs, r) \<Rightarrow> (x # cs, r)))"

text \<open>
  \<open>run_covers func xs r\<close>: the leaves of \<open>r\<close> are, in order, sequential loops over the pieces of \<open>xs\<close>.
\<close>

inductive run_covers :: "('a \<Rightarrow> 'e option) \<Rightarrow> 'a list \<Rightarrow> ('a, 'e) par_run \<Rightarrow> bool" for func where
  leaf: "for_seq func xs = (cs, r) \<Longrightarrow> run_covers func xs (Calls cs r)"
| fork: "run_covers func ys c \<Longrightarrow> run_covers func xs p \<Longrightarrow> run_covers func (xs @ ys) (Fork c p)"

inductive_cases run_covers_leafE: "run_covers func xs (Calls cs r)"
inductive_cases run_covers_forkE: "run_covers func xs (Fork c p)"

lemma for_seq_append:
  "snd (for_seq func (xs @ ys)) =
     (case snd (for_seq func xs) of Some e \<Rightarrow> Some e | None \<Rightarrow> snd (for_seq func ys))"
  by (induction xs) (auto split: option.splits prod.splits)

lemma for_seq_prefix: "\<exists>zs. xs = fst (for_seq func xs) @ zs"
  by (induction xs) (auto split: option.splits prod.splits)

lemma for_seq_all: "snd (for_seq func xs) = None \<Longrightarrow> fst (for_seq func xs) = xs"
  by (induction xs) (auto split: option.splits prod.splits)

lemma for_seq_none: "snd (for_seq func xs) = None \<longleftrightarrow> (\<forall>x \<in> set xs. func x = None)"
  by (induction xs) (auto split: option.splits prod.splits)

lemma outcome_sequential: "run_covers func xs r \<Longrightarrow> outcome r = snd (for_seq func xs)"
  by (induction rule: run_covers.induct) (auto simp: for_seq_append split: option.splits)

lemma traces_nonempty: "traces r \<noteq> {}"
proof (induction r)
  case (Fork c p)
  then obtain xs ys where "xs \<in> traces c" "ys \<in> traces p" by blast
  moreover have "xs @ ys \<in> shuffles xs ys" by (induction xs) (simp_all add: Cons_in_shuffles_leftI)
  ultimately show ?case by auto
qed simp

lemma traces_subset: "run_covers func xs r \<Longrightarrow> tr \<in> traces r \<Longrightarrow> mset tr \<subseteq># mset xs"
proof (induction arbitrary: tr rule: run_covers.induct)
  case (leaf xs cs r)
  then obtain zs where "xs = cs @ zs" "tr = cs" using for_seq_prefix[of xs func] by auto
  then show ?case by simp
next
  case (fork ys c xs p)
  then obtain us vs where t: "us \<in> traces c" "vs \<in> traces p" "tr \<in> shuffles us vs" by auto
  then have "mset tr = mset us + mset vs" by (simp add: mset_shuffles)
  with subset_mset.add_mono[OF fork.IH(1)[OF t(1)] fork.IH(2)[OF t(2)]] show ?case
    by (simp add: add.commute)
qed

lemma traces_all:
  "run_covers func xs r \<Longrightarrow> \<forall>x \<in> set xs. func x = None \<Longrightarrow> tr \<in> traces r \<Longrightarrow> mset tr = mset xs"
proof (induction arbitrary: tr rule: run_covers.induct)
  case (leaf xs cs r)
  then show ?case using for_seq_all[of func xs] for_seq_none[of func xs] by auto
next
  case (fork ys c xs p)
  then obtain us vs where t: "us \<in> traces c" "vs \<in> traces p" "tr \<in> shuffles us vs" by auto
  then have "mset tr = mset us + mset vs" by (simp add: mset_shuffles)
  with fork.IH(1)[OF _ t(1)] fork.IH(2)[OF _ t(2)] fork.prems(1) show ?case by simp
qed

lemma leaves_pieces:
  "run_covers func xs r \<Longrightarrow> \<forall>x \<in> set xs. func x = None \<Longrightarrow> concat (leaves r) = xs"
proof (induction rule: run_covers.induct)
  case (leaf xs cs r)
  then show ?case using for_seq_all[of func xs] for_seq_none[of func xs] by auto
qed auto

section \<open>parallel_for\<close>

text \<open>The loop of a leaf.\<close>

partial_function (option) leaf_for ::
  "('i \<Rightarrow> 'i) \<Rightarrow> ('i \<Rightarrow> 'a) \<Rightarrow> ('a \<Rightarrow> 'e option) \<Rightarrow> 'i \<Rightarrow> 'i \<Rightarrow> ('a list \<times> 'e option) option"
where
  "leaf_for nxt deref func b e =
     (if b = e then Some ([], None)
      else case func (deref b) of
        Some ex \<Rightarrow> Some ([deref b], Some ex)
      | None \<Rightarrow> Option.bind (leaf_for nxt deref func (nxt b) e) (\<lambda>(cs, r). Some (deref b # cs, r)))"

partial_function (option) internal_parallel_for ::
  "(tid \<Rightarrow> 'p \<Rightarrow> 'p \<times> 'p) \<Rightarrow> ('p \<Rightarrow> 'i) \<Rightarrow> ('p \<Rightarrow> 'i) \<Rightarrow> ('i \<Rightarrow> 'i) \<Rightarrow> ('i \<Rightarrow> 'a) \<Rightarrow>
   ('a \<Rightarrow> 'e option) \<Rightarrow> (bool list \<Rightarrow> tid) \<Rightarrow> bool list \<Rightarrow> 'p \<Rightarrow> ('a, 'e) par_run option"
where
  "internal_parallel_for split pbegin pend nxt deref func thr path p =
     (case split (thr path) p of (p', subpart) \<Rightarrow>
        if pbegin subpart = pend subpart
        then Option.bind (leaf_for nxt deref func (pbegin p') (pend p'))
          (\<lambda>(cs, r). Some (Calls cs r))
        else
          Option.bind (internal_parallel_for split pbegin pend nxt deref func thr (True # path) subpart)
            (\<lambda>t. Option.bind
               (internal_parallel_for split pbegin pend nxt deref func thr (False # path) p')
               (\<lambda>own. Some (Fork t own))))"

section \<open>parallel_map_reduce\<close>

partial_function (option) internal_parallel_map_reduce ::
  "(tid \<Rightarrow> 'p \<Rightarrow> 'p \<times> 'p) \<Rightarrow> ('p \<Rightarrow> 'i) \<Rightarrow> ('p \<Rightarrow> 'i) \<Rightarrow> ('i \<Rightarrow> 'i) \<Rightarrow> ('i \<Rightarrow> 'a) \<Rightarrow>
   'r \<Rightarrow> ('a \<Rightarrow> 'r) \<Rightarrow> ('r \<Rightarrow> 'r \<Rightarrow> 'r) \<Rightarrow> (bool list \<Rightarrow> tid) \<Rightarrow> bool list \<Rightarrow> 'p \<Rightarrow> 'r option"
where
  "internal_parallel_map_reduce split pbegin pend nxt deref init mapf reduce thr path p =
     (case split (thr path) p of (p', subpart) \<Rightarrow>
        if pbegin subpart = pend subpart
        then range_for nxt deref (\<lambda>i out. reduce out (mapf i)) (pbegin p') (pend p') init
        else
          Option.bind (internal_parallel_map_reduce split pbegin pend nxt deref init mapf reduce thr (True # path) subpart)
            (\<lambda>t. Option.bind
               (internal_parallel_map_reduce split pbegin pend nxt deref init mapf reduce thr (False # path) p')
               (\<lambda>out. Some (reduce out t))))"

text \<open>
  The reference is a left fold.  A part starts from \<open>init\<close> again, so \<open>reduce\<close> has to treat \<open>init\<close> as
  neutral, and has to be associative.
\<close>

definition reduce_seq :: "'r \<Rightarrow> ('a \<Rightarrow> 'r) \<Rightarrow> ('r \<Rightarrow> 'r \<Rightarrow> 'r) \<Rightarrow> 'a list \<Rightarrow> 'r" where
  "reduce_seq init mapf reduce xs = foldl (\<lambda>out i. reduce out (mapf i)) init xs"

lemma reduce_fold:
  assumes "\<And>x y z. reduce x (reduce y z) = reduce (reduce x y) z"
  shows "reduce x (foldl (\<lambda>out i. reduce out (mapf i)) y xs) =
    foldl (\<lambda>out i. reduce out (mapf i)) (reduce x y) xs"
  by (induction xs arbitrary: y) (simp_all add: assms)

context iterators
begin

lemma leaf_for_seq: "valid b e \<Longrightarrow> leaf_for nxt deref func b e = Some (for_seq func (elems b e))"
proof (induction "elems b e" arbitrary: b)
  case Nil
  then have "b = e" "for_seq func (elems b e) = ([], None)" using empty_iff[of b e] by simp_all
  then show ?case by (subst leaf_for.simps) simp
next
  case (Cons x xs)
  then have "b \<noteq> e" using empty_iff[of b e] by auto
  moreover have n: "deref b = x" "valid (nxt b) e" "elems (nxt b) e = xs"
    using next_elem[of b e x xs] Cons by auto
  ultimately show ?case
    using Cons.hyps(1)[of "nxt b"]
    by (subst leaf_for.simps) (auto simp flip: Cons.hyps(2) split: option.splits prod.splits)
qed

end

context partitioner
begin

text \<open>The induction that every parallel algorithm uses: over the length of the range.\<close>

lemma split_induct [consumes 1, case_names leaf fork]:
  assumes "valid (pbegin p) (pend p)"
    and leaf: "\<And>p p' sub path. valid (pbegin p) (pend p) \<Longrightarrow> valid (pbegin p') (pend p') \<Longrightarrow> split (thr path) p = (p', sub) \<Longrightarrow>
      pbegin sub = pend sub \<Longrightarrow> elems (pbegin p) (pend p) = elems (pbegin p') (pend p') \<Longrightarrow> P path p"
    and fork: "\<And>p p' sub path. split (thr path) p = (p', sub) \<Longrightarrow> pbegin sub \<noteq> pend sub \<Longrightarrow>
      valid (pbegin p') (pend p') \<Longrightarrow> valid (pbegin sub) (pend sub) \<Longrightarrow>
      elems (pbegin p) (pend p) = elems (pbegin p') (pend p') @ elems (pbegin sub) (pend sub) \<Longrightarrow>
      P (True # path) sub \<Longrightarrow> P (False # path) p' \<Longrightarrow> P path p"
  shows "P path p"
  using assms(1)
proof (induction "length (elems (pbegin p) (pend p))" arbitrary: p path rule: less_induct)
  case less
  obtain p' sub where s: "split (thr path) p = (p', sub)" by (cases "split (thr path) p")
  note parts = split_parts[OF less.prems s]
  show ?case
  proof (cases "pbegin sub = pend sub")
    case True
    then have "elems (pbegin sub) (pend sub) = []" using parts empty_iff by metis
    with leaf[OF less.prems _ s True] parts show ?thesis by simp
  next
    case False
    then have ne: "elems (pbegin sub) (pend sub) \<noteq> []" using parts empty_iff by metis
    then have ne': "elems (pbegin p') (pend p') \<noteq> []" using parts by simp
    have "P (True # path) sub" using less.hyps[of sub] parts ne' by simp
    moreover have "P (False # path) p'" using less.hyps[of p'] parts ne by simp
    ultimately show ?thesis using fork[OF s False] parts by simp
  qed
qed

lemma parallel_for_covers:
  assumes "valid (pbegin p) (pend p)"
  shows "\<exists>r. internal_parallel_for split pbegin pend nxt deref func thr path p = Some r
    \<and> run_covers func (elems (pbegin p) (pend p)) r"
  using assms
proof (induction rule: split_induct[where thr = thr])
  case (leaf p p' sub path)
  obtain cs r where c: "for_seq func (elems (pbegin p') (pend p')) = (cs, r)" by fastforce
  with leaf show ?case
    by (subst internal_parallel_for.simps) (auto simp: leaf_for_seq intro: run_covers.leaf)
next
  case (fork p p' sub path)
  then show ?case
    by (subst internal_parallel_for.simps) (auto intro: run_covers.fork)
qed

lemma parallel_reduce_fold:
  assumes "valid (pbegin p) (pend p)"
    and assoc: "\<And>x y z. reduce x (reduce y z) = reduce (reduce x y) z"
    and neutral: "\<And>x. reduce x init = x"
  shows "internal_parallel_map_reduce split pbegin pend nxt deref init mapf reduce thr path p =
    Some (reduce_seq init mapf reduce (elems (pbegin p) (pend p)))"
  using assms(1)
proof (induction rule: split_induct[where thr = thr])
  case (leaf p p' sub path)
  then show ?case
    by (subst internal_parallel_map_reduce.simps) (simp add: range_for_fold reduce_seq_def foldl_conv_fold)
next
  case (fork p p' sub path)
  then show ?case
    by (subst internal_parallel_map_reduce.simps) (simp add: reduce_seq_def reduce_fold[OF assoc] neutral)
qed

end

section \<open>The overloads for ranges\<close>

definition default_map :: "'a \<Rightarrow> 'a" where "default_map x = x"

text \<open>\<open>to_partitioner\<close> wraps a range in an auto partitioner; a partitioner is used as it is.\<close>

definition parallel_for ::
  "size_t \<Rightarrow> size_t \<Rightarrow> ('i \<Rightarrow> 'i \<Rightarrow> size_t) \<Rightarrow> ('i \<Rightarrow> size_t \<Rightarrow> 'i) \<Rightarrow> ('i \<Rightarrow> 'i) \<Rightarrow> ('i \<Rightarrow> 'a) \<Rightarrow>
   ('a \<Rightarrow> 'e option) \<Rightarrow> (bool list \<Rightarrow> tid) \<Rightarrow> 'i \<Rightarrow> 'i \<Rightarrow> ('a, 'e) par_run option"
where
  "parallel_for junk hw dist adv nxt deref func thr b e =
     internal_parallel_for (auto_split junk hw dist adv) iter_begin iter_end nxt deref func thr []
       (auto_partitioner junk hw dist b e)"

definition parallel_map_reduce ::
  "size_t \<Rightarrow> size_t \<Rightarrow> ('i \<Rightarrow> 'i \<Rightarrow> size_t) \<Rightarrow> ('i \<Rightarrow> size_t \<Rightarrow> 'i) \<Rightarrow> ('i \<Rightarrow> 'i) \<Rightarrow> ('i \<Rightarrow> 'a) \<Rightarrow>
   'r \<Rightarrow> ('a \<Rightarrow> 'r) \<Rightarrow> ('r \<Rightarrow> 'r \<Rightarrow> 'r) \<Rightarrow> (bool list \<Rightarrow> tid) \<Rightarrow> 'i \<Rightarrow> 'i \<Rightarrow> 'r option"
where
  "parallel_map_reduce junk hw dist adv nxt deref init mapf reduce thr b e =
     internal_parallel_map_reduce (auto_split junk hw dist adv) iter_begin iter_end nxt deref init mapf reduce
       thr [] (auto_partitioner junk hw dist b e)"

definition parallel_reduce ::
  "size_t \<Rightarrow> size_t \<Rightarrow> ('i \<Rightarrow> 'i \<Rightarrow> size_t) \<Rightarrow> ('i \<Rightarrow> size_t \<Rightarrow> 'i) \<Rightarrow> ('i \<Rightarrow> 'i) \<Rightarrow> ('i \<Rightarrow> 'r) \<Rightarrow>
   'r \<Rightarrow> ('r \<Rightarrow> 'r \<Rightarrow> 'r) \<Rightarrow> (bool list \<Rightarrow> tid) \<Rightarrow> 'i \<Rightarrow> 'i \<Rightarrow> 'r option"
where
  "parallel_reduce junk hw dist adv nxt deref init reduce thr b e =
     parallel_map_reduce junk hw dist adv nxt deref init default_map reduce thr b e"

section \<open>parallel_invoke\<close>

text \<open>\<open>func i\<close> is the exception that the \<open>i\<close>th argument throws when it is called.\<close>

fun parallel_invoke_internal :: "(nat \<Rightarrow> 'e option) \<Rightarrow> nat \<Rightarrow> nat \<Rightarrow> (nat, 'e) par_run" where
  "parallel_invoke_internal func start cnt =
     (if cnt = 0 then Calls [] None
      else if cnt = 1 then Calls [start] (func start)
      else Fork (parallel_invoke_internal func (start + cnt div 2) (cnt - cnt div 2))
             (parallel_invoke_internal func start (cnt div 2)))"

declare parallel_invoke_internal.simps [simp del]

definition parallel_invoke :: "(nat \<Rightarrow> 'e option) \<Rightarrow> nat \<Rightarrow> (nat, 'e) par_run" where
  "parallel_invoke func args = parallel_invoke_internal func 0 args"

lemma parallel_invoke_covers:
  "run_covers func [start..<start + cnt] (parallel_invoke_internal func start cnt)"
proof (induction func start cnt rule: parallel_invoke_internal.induct)
  case (1 func start cnt)
  consider "cnt = 0" | "cnt = 1" | "1 < cnt" by linarith
  then show ?case
  proof cases
    case 3
    then have "[start..<start + cnt] = [start..<start + cnt div 2]
        @ [start + cnt div 2..<start + cnt div 2 + (cnt - cnt div 2)]"
      using upt_add_eq_append[of start "start + cnt div 2" "cnt - cnt div 2"] by simp
    with 1 3 show ?thesis
      by (subst parallel_invoke_internal.simps) (simp add: run_covers.fork)
  qed (subst parallel_invoke_internal.simps; auto intro!: run_covers.leaf split: option.splits)+
qed

section \<open>Properties\<close>

lemma run_covers_correct:
  assumes "run_covers func xs r"
  shows "outcome r = snd (for_seq func xs) \<and> traces r \<noteq> {}
    \<and> (\<forall>tr. tr \<in> traces r \<longrightarrow> mset tr \<subseteq># mset xs \<and> (outcome r = None \<longrightarrow> mset tr = mset xs))"
proof -
  have "\<forall>x \<in> set xs. func x = None" if "outcome r = None"
    using that outcome_sequential[OF assms] by (simp add: for_seq_none)
  with outcome_sequential[OF assms] traces_nonempty[of r] traces_subset[OF assms] traces_all[OF assms]
  show ?thesis by blast
qed

text \<open>
  C25. \<open>parallel_for\<close> over a range of an array returns, for every assignment of threads to parts and every
  interleaving: without exceptions the function is called exactly once for every element, never more
  than once in any case, and the exception that leaves the call is the one of the sequential loop.
\<close>

theorem parallel_for_sequential:
  assumes "array_valid xs b e"
  shows "\<exists>r. parallel_for junk hw array_dist array_advance Suc ((!) xs) func thr b e = Some r
    \<and> outcome r = snd (for_seq func (array_slice xs b e)) \<and> traces r \<noteq> {}
    \<and> (\<forall>tr. tr \<in> traces r \<longrightarrow> mset tr \<subseteq># mset (array_slice xs b e)
          \<and> (outcome r = None \<longrightarrow> mset tr = mset (array_slice xs b e)))"
proof -
  let ?p = "auto_partitioner junk hw array_dist b e"
  have "iter_begin ?p = b" "iter_end ?p = e" by (simp_all add: auto_partitioner_def auto_partitioner_impl_def)
  with auto_array.parallel_for_covers[of xs ?p junk hw func thr "[]"] assms
  obtain r where "parallel_for junk hw array_dist array_advance Suc ((!) xs) func thr b e = Some r"
      "run_covers func (array_slice xs b e) r" by (auto simp: parallel_for_def)
  with run_covers_correct[of func _ r] show ?thesis by blast
qed

theorem parallel_for_sequential_witness:
  "\<exists>r. parallel_for 0 2 array_dist array_advance Suc ((!) [7, 3, 9, 4 :: nat])
        (\<lambda>x. if x = 9 then Some ''nine'' else None) (\<lambda>_. 0) 0 4 = Some r \<and> outcome r = Some ''nine''"
  using parallel_for_sequential[of "[7, 3, 9, 4 :: nat]" 0 4 0 2
      "\<lambda>x. if x = 9 then Some ''nine'' else None" "\<lambda>_. 0"]
  by (auto simp: array_valid_def array_slice_def)

subsection \<open>The sizes of the parts\<close>

text \<open>Where the static partitioner stops splitting, the part is small.\<close>

context iterators
begin

lemma static_leaf_small:
  assumes v: "valid (iter_begin p) (iter_end p)" and "static_split dist adv p = (p', sub)"
    and "iter_begin sub = iter_end sub"
  shows "length (elems (iter_begin p) (iter_end p)) \<le> max 1 (unat (grain p))"
proof (cases "dist (iter_begin p) (iter_end p) \<le> grain p")
  case True
  then show ?thesis using dist_length[OF v] by (simp add: word_le_nat_alt)
next
  case False
  let ?m = "adv (iter_begin p) ((dist (iter_begin p) (iter_end p) + 1) div 2)"
  let ?l = "length (elems (iter_begin p) (iter_end p))"
  have "unat (dist (iter_begin p) (iter_end p)) \<noteq> 0" using False by (auto simp: unat_eq_zero)
  note k = midpoint[OF v this]
  have m: "?m = iter_end p" using False assms(2,3) by (auto simp: static_split_def Let_def)
  have "valid (iter_end p) (iter_end p)" using valid_end[OF v] .
  then have "elems ?m (iter_end p) = []" using m empty_iff by simp
  moreover have "elems ?m (iter_end p) = drop ((?l + 1) div 2) (elems (iter_begin p) (iter_end p))"
    using advance[OF v, of "(dist (iter_begin p) (iter_end p) + 1) div 2"] k by auto
  ultimately have "?l \<le> (?l + 1) div 2" by simp
  then show ?thesis by linarith
qed

end







lemma auto_split_threads:
  assumes "auto_split junk hw dist adv th p = (p', sub)" "iter_begin sub \<noteq> iter_end sub"
  defines "n \<equiv> (if last_thread p = Some th then num_threads p else hw)"
  shows "last_thread p' = Some th \<and> last_thread sub = Some th
    \<and> unat (num_threads p') + unat (num_threads sub) = unat n \<and> 0 < unat (num_threads sub)
    \<and> 0 < unat (num_threads p')"
proof -
  have n1: "\<not> n \<le> 1"
    using assms by (auto simp: auto_split_def Let_def auto_partitioner_impl_def split: if_splits)
  then have n: "2 \<le> unat n" by (simp add: word_le_nat_alt)
  have r: "last_thread p' = Some th \<and> last_thread sub = Some th
      \<and> num_threads p' = n - n div 2 \<and> num_threads sub = n div 2"
    using assms by (auto simp: auto_split_def Let_def auto_partitioner_impl_def split: if_splits)
  have "unat (n div 2) = unat n div 2" by (simp add: unat_div)
  moreover have "unat (n - n div 2) = unat n - unat n div 2"
    using calculation by (subst unat_minus_small) simp_all
  ultimately show ?thesis using r n by simp
qed

lemma auto_chunks:
  assumes "array_valid xs (iter_begin p) (iter_end p)"
  shows "\<forall>r. internal_parallel_for (auto_split junk hw array_dist array_advance) iter_begin iter_end Suc
       ((!) xs) (\<lambda>_. None :: 'e option) (\<lambda>_. th) path p = Some r
    \<longrightarrow> length (leaves r) \<le> max 1 (unat (if last_thread p = Some th then num_threads p else hw))"
  using assms
proof (induction rule: auto_array.split_induct[where thr = "\<lambda>_. th" and junk = junk and hw = hw])
  case (leaf p p' sub path)
  then show ?case
    by (subst internal_parallel_for.simps) (auto split: prod.splits simp: bind_eq_Some_conv)
next
  case (fork p p' sub path)
  from auto_split_threads[OF fork(1,2)] fork(1,2,6,7) show ?case
    by (subst internal_parallel_for.simps) (fastforce simp: bind_eq_Some_conv)
qed

text \<open>
  C35. The auto partitioner "initially divides the range into one chunk for each available thread": as
  long as no part is executed by another thread, \<open>parallel_for\<close> makes at most \<open>hardware_concurrency()\<close>
  chunks; together they are the range.
\<close>

theorem auto_partitioner_chunks:
  assumes "array_valid xs b e" "0 < hw"
  shows "\<exists>r. parallel_for junk hw array_dist array_advance Suc ((!) xs) (\<lambda>_. None :: unit option) (\<lambda>_. th) b e
       = Some r
    \<and> concat (leaves r) = array_slice xs b e \<and> length (leaves r) \<le> unat hw"
proof -
  let ?p = "auto_partitioner junk hw array_dist b e"
  have p: "iter_begin ?p = b" "iter_end ?p = e" "last_thread ?p = None"
    by (simp_all add: auto_partitioner_def auto_partitioner_impl_def)
  obtain r where r: "parallel_for junk hw array_dist array_advance Suc ((!) xs) (\<lambda>_. None :: unit option)
        (\<lambda>_. th) b e = Some r" "run_covers (\<lambda>_. None :: unit option) (array_slice xs b e) r"
    using auto_array.parallel_for_covers[of xs ?p junk hw "\<lambda>_. None :: unit option" "\<lambda>_. th" "[]"] p assms(1)
    by (auto simp: parallel_for_def)
  have "length (leaves r) \<le> max 1 (unat hw)"
    using auto_chunks[of xs ?p junk hw th "[]"] r(1) assms(1) p by (auto simp: parallel_for_def)
  moreover have "0 < unat hw" using assms(2) by (simp add: word_less_nat_alt)
  ultimately show ?thesis using r leaves_pieces[OF r(2)] by auto
qed

theorem auto_partitioner_chunks_witness:
  "\<exists>r. parallel_for 77 4 array_dist array_advance Suc ((!) [0..<100]) (\<lambda>_. None :: unit option) (\<lambda>_. 5) 0 100
       = Some r \<and> concat (leaves r) = [0..<100] \<and> length (leaves r) \<le> 4"
  using auto_partitioner_chunks[of "[0..<100]" 0 100 4 77 5]
  by (auto simp: array_valid_def array_slice_def)

subsection \<open>parallel_map_reduce and parallel_invoke\<close>

text \<open>
  C29. \<open>parallel_map_reduce\<close> and \<open>parallel_reduce\<close> give the result of the sequential left fold, in the order
  of the range, whenever \<open>reduce\<close> is associative and \<open>init\<close> is neutral on the right; commutativity is not
  needed.
\<close>

theorem parallel_reduce_sequential:
  assumes "array_valid xs b e"
    and "\<And>x y z. reduce x (reduce y z) = reduce (reduce x y) z" and "\<And>x. reduce x init = x"
  shows "parallel_map_reduce junk hw array_dist array_advance Suc ((!) xs) init mapf reduce thr b e =
      Some (foldl reduce init (map mapf (array_slice xs b e)))
    \<and> parallel_reduce junk hw array_dist array_advance Suc ((!) ys) init reduce thr b e =
      parallel_map_reduce junk hw array_dist array_advance Suc ((!) ys) init (\<lambda>x. x) reduce thr b e"
proof -
  let ?p = "auto_partitioner junk hw array_dist b e"
  have "iter_begin ?p = b" "iter_end ?p = e" by (simp_all add: auto_partitioner_def auto_partitioner_impl_def)
  with auto_array.parallel_reduce_fold[of xs ?p reduce init junk hw mapf thr "[]"] assms
  have "parallel_map_reduce junk hw array_dist array_advance Suc ((!) xs) init mapf reduce thr b e =
      Some (foldl reduce init (map mapf (array_slice xs b e)))"
    by (simp add: parallel_map_reduce_def reduce_seq_def foldl_map)
  moreover have "(default_map :: 'b \<Rightarrow> 'b) = (\<lambda>x. x)" by (intro ext) (simp add: default_map_def)
  ultimately show ?thesis by (simp add: parallel_reduce_def)
qed

theorem parallel_reduce_sequential_witness:
  "parallel_map_reduce 0 2 array_dist array_advance Suc ((!) [7, 3, 9, 4 :: nat]) [] (\<lambda>x. [x, x]) (@) (\<lambda>_. 0) 0 4
   = Some [7, 7, 3, 3, 9, 9, 4, 4]"
  using parallel_reduce_sequential[of "[7, 3, 9, 4 :: nat]" 0 4 "(@)" "[]" 0 2 "\<lambda>x. [x, x]" "\<lambda>_. 0"]
  by (simp add: array_valid_def array_slice_def)

text \<open>
  \<open>parallel_invoke\<close> calls every argument exactly once when none throws, never more than once, and
  fails with the exception of the first throwing argument in the order of the arguments.
\<close>

theorem parallel_invoke_each_once:
  "outcome (parallel_invoke func n) = snd (for_seq func [0..<n]) \<and> traces (parallel_invoke func n) \<noteq> {}
   \<and> (\<forall>tr. tr \<in> traces (parallel_invoke func n) \<longrightarrow> mset tr \<subseteq># mset [0..<n]
        \<and> (outcome (parallel_invoke func n) = None \<longrightarrow> mset tr = mset [0..<n]))"
  using run_covers_correct[OF parallel_invoke_covers[of func 0 n]] by (simp add: parallel_invoke_def)

theorem parallel_invoke_each_once_witness:
  "outcome (parallel_invoke (\<lambda>i. if i < 2 then None else Some i) 5) = Some 2"
  using parallel_invoke_each_once[of "\<lambda>i. if i < 2 then None else Some i" 5]
  by (simp add: upt_rec)

end
