(* ===== verification/When_All_Any.thy ===== *)
theory When_All_Any
  imports Prelude
begin

text \<open>
  \<open>libs/asyncplusplus/include/async++/when_all_any.h\<close>: \<open>when_all\<close> and \<open>when_any\<close>, for ranges and for
  argument lists.

  The input tasks are numbered \<open>0, \<dots>, n - 1\<close>; they finish at any time.  The caller registers a
  continuation on each of them; \<open>then()\<close> may throw.  A registered continuation runs on the inline
  scheduler once its task has finished (at once, inside \<open>then()\<close>, if it already has), and is destroyed
  afterwards, which drops its reference to the shared state.  The loop over a range and the recursion
  over an argument list take the same steps; they differ in what is left of \<open>result\<close> after
  \<open>std::move(result)\<close>: an empty vector, or a tuple of empty tasks.
\<close>

section \<open>State\<close>

datatype combinator_kind = All | Any_range | Any_tuple

datatype caller_pc =
    Ca_store nat    \<comment> \<open>\<open>when_any\<close>: about to copy the task into \<open>state->result[i]\<close>\<close>
  | Ca_then nat     \<comment> \<open>about to call \<open>then()\<close> on the task\<close>
  | Ca_catch nat    \<comment> \<open>\<open>then()\<close> threw; the function object and its reference are gone\<close>
  | Ca_returned
  | Ca_threw nat

datatype cont_state =
    Co_none | Co_waiting
  | Co_called       \<comment> \<open>the function has run and is not yet destroyed\<close>
  | Co_done

record combinator =
  tasks_finished :: "bool list"
  caller :: caller_pc
  conts :: "cont_state list"
  refs :: size_t
  result :: "nat option list"
  all_event :: "nat option list option"
  any_event :: "(nat \<times> nat option list) option"
  abandoned :: bool
  state_deleted :: bool
  double_delete :: bool
  out_of_range :: bool

text \<open>
  The start of the four functions: an empty range or argument list gives a finished task, otherwise
  the state is created with a reference for each of the tasks.
\<close>

definition when_all_start :: "nat \<Rightarrow> combinator" where
  "when_all_start n =
     \<lparr>tasks_finished = replicate n False, caller = (if n = 0 then Ca_returned else Ca_then 0),
      conts = replicate n Co_none, refs = of_nat n, result = replicate n None,
      all_event = (if n = 0 then Some [] else None), any_event = None, abandoned = False,
      state_deleted = (n = 0), double_delete = False, out_of_range = False\<rparr>"

definition when_any_start :: "nat \<Rightarrow> combinator" where
  "when_any_start n =
     \<lparr>tasks_finished = replicate n False, caller = (if n = 0 then Ca_returned else Ca_store 0),
      conts = replicate n Co_none, refs = of_nat n, result = replicate n None,
      all_event = None, any_event = (if n = 0 then Some (0, []) else None), abandoned = False,
      state_deleted = (n = 0), double_delete = False, out_of_range = False\<rparr>"

section \<open>Operations\<close>

text \<open>
  \<open>~when_all_state\<close> sets the event; in \<open>when_any_state\<close> the event is destroyed, and abandoned if it was
  never set.
\<close>

definition destroy_state :: "combinator_kind \<Rightarrow> combinator \<Rightarrow> combinator" where
  "destroy_state kind s =
     (case kind of
        All \<Rightarrow> s\<lparr>state_deleted := True, all_event := Some (result s)\<rparr>
      | _ \<Rightarrow> s\<lparr>state_deleted := True, abandoned := (any_event s = None)\<rparr>)"

text \<open>
  \<open>remove_ref(k)\<close>: \<open>if (ref_count.fetch_sub(k) == k) delete this\<close>.  On a deleted state, whose count is 0,
  the only call there can be has \<open>k = 0\<close>, and deletes it again.
\<close>

definition remove_refs :: "combinator_kind \<Rightarrow> nat \<Rightarrow> combinator \<Rightarrow> combinator" where
  "remove_refs kind k s =
     (if state_deleted s then s\<lparr>double_delete := True\<rparr>
      else
        let s' = s\<lparr>refs := refs s - of_nat k\<rparr>
        in if refs s = of_nat k then destroy_state kind s' else s')"

definition when_all_func :: "nat \<Rightarrow> combinator \<Rightarrow> combinator" where
  "when_all_func i s = s\<lparr>result := (result s)[i := Some i]\<rparr>"

text \<open>\<open>event.set({i, std::move(result)})\<close>: the result is moved out also when the event is already set.\<close>

definition when_any_set :: "combinator_kind \<Rightarrow> nat \<Rightarrow> combinator \<Rightarrow> combinator" where
  "when_any_set kind i s =
     s\<lparr>any_event := (case any_event s of None \<Rightarrow> Some (i, result s) | Some r \<Rightarrow> Some r),
       result := (if kind = Any_range then [] else replicate (length (result s)) None)\<rparr>"

definition run_func :: "combinator_kind \<Rightarrow> nat \<Rightarrow> combinator \<Rightarrow> combinator" where
  "run_func kind i s = (if kind = All then when_all_func i s else when_any_set kind i s)"

text \<open>\<open>set_internal_task(state->result[i], task_ptr(t))\<close>\<close>

definition store_copy :: "nat \<Rightarrow> combinator \<Rightarrow> combinator" where
  "store_copy i s =
     (if i < length (result s) then s\<lparr>result := (result s)[i := Some i]\<rparr> else s\<lparr>out_of_range := True\<rparr>)"

text \<open>The next iteration of the loop, or the next instance of the recursive template.\<close>

definition next_task :: "combinator_kind \<Rightarrow> nat \<Rightarrow> nat \<Rightarrow> caller_pc" where
  "next_task kind n i =
     (if Suc i = n then Ca_returned else if kind = All then Ca_then (Suc i) else Ca_store (Suc i))"

definition caller_step :: "combinator_kind \<Rightarrow> nat \<Rightarrow> bool \<Rightarrow> combinator \<Rightarrow> combinator option" where
  "caller_step kind n throws s =
     (case caller s of
        Ca_store i \<Rightarrow> Some (store_copy i (s\<lparr>caller := Ca_then i\<rparr>))
      | Ca_then i \<Rightarrow>
          if throws then Some (remove_refs kind 1 (s\<lparr>caller := Ca_catch i\<rparr>))
          else Some (s\<lparr>conts := (conts s)[i := Co_waiting], caller := next_task kind n i\<rparr>)
      | Ca_catch i \<Rightarrow> Some (remove_refs kind (n - i - 1) (s\<lparr>caller := Ca_threw i\<rparr>))
      | Ca_returned \<Rightarrow> None
      | Ca_threw i \<Rightarrow> None)"

datatype combinator_event =
    Ce_finish nat | Ce_caller bool | Ce_run nat | Ce_destroy nat

fun combinator_step :: "combinator_kind \<Rightarrow> nat \<Rightarrow> combinator_event \<Rightarrow> combinator \<Rightarrow> combinator option" where
  "combinator_step kind n (Ce_finish i) s =
     (if i < n then Some (s\<lparr>tasks_finished := (tasks_finished s)[i := True]\<rparr>) else None)"
| "combinator_step kind n (Ce_caller throws) s = caller_step kind n throws s"
| "combinator_step kind n (Ce_run i) s =
     (if i < n \<and> conts s ! i = Co_waiting \<and> tasks_finished s ! i
      then Some (run_func kind i (s\<lparr>conts := (conts s)[i := Co_called]\<rparr>)) else None)"
| "combinator_step kind n (Ce_destroy i) s =
     (if i < n \<and> conts s ! i = Co_called
      then Some (remove_refs kind 1 (s\<lparr>conts := (conts s)[i := Co_done]\<rparr>)) else None)"

section \<open>References\<close>

fun holds_ref :: "cont_state \<Rightarrow> nat" where
  "holds_ref Co_waiting = 1"
| "holds_ref Co_called = 1"
| "holds_ref _ = 0"

fun caller_refs :: "nat \<Rightarrow> caller_pc \<Rightarrow> nat" where
  "caller_refs n (Ca_store i) = n - i"
| "caller_refs n (Ca_then i) = n - i"
| "caller_refs n (Ca_catch i) = n - Suc i"
| "caller_refs n Ca_returned = 0"
| "caller_refs n (Ca_threw i) = 0"

fun caller_ok :: "nat \<Rightarrow> caller_pc \<Rightarrow> cont_state list \<Rightarrow> bool" where
  "caller_ok n (Ca_store i) cs \<longleftrightarrow> i < n \<and> (\<forall>j < n. cs ! j = Co_none \<longleftrightarrow> i \<le> j)"
| "caller_ok n (Ca_then i) cs \<longleftrightarrow> i < n \<and> (\<forall>j < n. cs ! j = Co_none \<longleftrightarrow> i \<le> j)"
| "caller_ok n (Ca_catch i) cs \<longleftrightarrow> i < n \<and> (\<forall>j < n. cs ! j = Co_none \<longleftrightarrow> i \<le> j)"
| "caller_ok n Ca_returned cs \<longleftrightarrow> (\<forall>j < n. cs ! j \<noteq> Co_none)"
| "caller_ok n (Ca_threw i) cs \<longleftrightarrow> i < n \<and> (\<forall>j < n. cs ! j = Co_none \<longleftrightarrow> i \<le> j)"

definition live_refs :: "nat \<Rightarrow> combinator \<Rightarrow> nat" where
  "live_refs n s = sum_list (map holds_ref (conts s)) + caller_refs n (caller s)"

text \<open>
  The count is the number of references; the state is deleted when there is none left; and it is
  deleted a second time only by a \<open>catch\<close> block for the last task, where no reference is left to remove.
\<close>

definition refs_inv :: "nat \<Rightarrow> combinator \<Rightarrow> bool" where
  "refs_inv n s \<longleftrightarrow> length (tasks_finished s) = n \<and> length (conts s) = n
     \<and> caller_ok n (caller s) (conts s)
     \<and> refs s = of_nat (live_refs n s) \<and> (state_deleted s \<longleftrightarrow> live_refs n s = 0)
     \<and> (double_delete s \<longrightarrow> caller s = Ca_threw (n - 1))"

lemma sum_list_update_nat:
  "i < length xs \<Longrightarrow> sum_list (map f (xs[i := y])) + f (xs ! i) = sum_list (map f xs) + (f y :: nat)"
  by (induction xs arbitrary: i) (auto split: nat.splits)

lemma conts_bound: "sum_list (map holds_ref cs) \<le> length cs"
proof (induction cs)
  case (Cons c cs)
  then show ?case by (cases c) auto
qed simp

lemma remove_refs_fields [simp]:
  "tasks_finished (remove_refs kind k s) = tasks_finished s"
  "conts (remove_refs kind k s) = conts s"
  "caller (remove_refs kind k s) = caller s"
  "result (remove_refs kind k s) = result s"
  "any_event (remove_refs kind k s) = any_event s"
  "out_of_range (remove_refs kind k s) = out_of_range s"
  by (simp_all add: remove_refs_def destroy_state_def Let_def split: combinator_kind.splits)

lemma run_func_fields [simp]:
  "tasks_finished (run_func kind i s) = tasks_finished s"
  "conts (run_func kind i s) = conts s"
  "caller (run_func kind i s) = caller s"
  "refs (run_func kind i s) = refs s"
  "state_deleted (run_func kind i s) = state_deleted s"
  "double_delete (run_func kind i s) = double_delete s"
  "all_event (run_func kind i s) = all_event s"
  "out_of_range (run_func kind i s) = out_of_range s"
  by (simp_all add: run_func_def when_all_func_def when_any_set_def)

lemma store_copy_fields [simp]:
  "tasks_finished (store_copy i s) = tasks_finished s"
  "conts (store_copy i s) = conts s"
  "caller (store_copy i s) = caller s"
  "refs (store_copy i s) = refs s"
  "state_deleted (store_copy i s) = state_deleted s"
  "double_delete (store_copy i s) = double_delete s"
  "all_event (store_copy i s) = all_event s"
  "any_event (store_copy i s) = any_event s"
  by (simp_all add: store_copy_def)

text \<open>Dropping \<open>k\<close> of the references that are accounted for.\<close>

lemma remove_refs_count:
  assumes "refs s = of_nat (l + k)" "l + k < 2 ^ 64" "state_deleted s \<longleftrightarrow> l + k = 0"
  shows "refs (remove_refs kind k s) = of_nat l" "state_deleted (remove_refs kind k s) \<longleftrightarrow> l = 0"
    and "double_delete (remove_refs kind k s) \<longleftrightarrow> double_delete s \<or> l + k = 0"
proof -
  have "refs s = of_nat k \<longleftrightarrow> l = 0"
  proof
    assume "refs s = of_nat k"
    then have "unat (of_nat (l + k) :: size_t) = unat (of_nat k :: size_t)" using assms(1) by simp
    then show "l = 0" using assms(2) unat_of_nat_small[of "l + k"] unat_of_nat_small[of k] by simp
  qed (simp add: assms(1))
  then show "refs (remove_refs kind k s) = of_nat l" "state_deleted (remove_refs kind k s) \<longleftrightarrow> l = 0"
    and "double_delete (remove_refs kind k s) \<longleftrightarrow> double_delete s \<or> l + k = 0"
    using assms(1,3)
    by (auto simp: remove_refs_def destroy_state_def Let_def split: combinator_kind.splits)
qed

lemma live_refs_bound:
  "refs_inv n s \<Longrightarrow> live_refs n s \<le> 2 * n"
  using conts_bound[of "conts s"] by (cases "caller s") (auto simp: refs_inv_def live_refs_def)

lemma refs_inv_finish:
  "refs_inv n s \<Longrightarrow> refs_inv n (s\<lparr>tasks_finished := (tasks_finished s)[i := True]\<rparr>)"
  by (simp add: refs_inv_def live_refs_def)

lemma refs_inv_call:
  assumes "refs_inv n s" "i < n" "conts s ! i = Co_waiting"
  shows "refs_inv n (run_func kind i (s\<lparr>conts := (conts s)[i := Co_called]\<rparr>))"
proof -
  let ?s = "s\<lparr>conts := (conts s)[i := Co_called]\<rparr>"
  have "live_refs n ?s = live_refs n s"
    using sum_list_update_nat[of i "conts s" holds_ref Co_called] assms by (simp add: live_refs_def refs_inv_def)
  moreover have "live_refs n (run_func kind i ?s) = live_refs n ?s" by (simp add: live_refs_def)
  moreover have "caller_ok n (caller s) ((conts s)[i := Co_called])"
    using assms by (cases "caller s") (auto simp: refs_inv_def nth_list_update)
  ultimately show ?thesis using assms by (simp add: refs_inv_def)
qed

lemma refs_inv_destroy:
  assumes "refs_inv n s" "2 * n < 2 ^ 64" "i < n" "conts s ! i = Co_called"
  shows "refs_inv n (remove_refs kind 1 (s\<lparr>conts := (conts s)[i := Co_done]\<rparr>))"
proof -
  let ?s = "s\<lparr>conts := (conts s)[i := Co_done]\<rparr>"
  have l: "live_refs n ?s + 1 = live_refs n s"
    using sum_list_update_nat[of i "conts s" holds_ref Co_done] assms by (simp add: live_refs_def refs_inv_def)
  then have "refs ?s = of_nat (live_refs n ?s + 1)" "live_refs n ?s + 1 < 2 ^ 64"
      "state_deleted ?s \<longleftrightarrow> live_refs n ?s + 1 = 0"
    using assms(1,2) live_refs_bound[OF assms(1)] by (simp_all add: refs_inv_def del: of_nat_add)
  note r = remove_refs_count[OF this]
  have "caller_ok n (caller s) ((conts s)[i := Co_done])"
    using assms by (cases "caller s") (auto simp: refs_inv_def nth_list_update)
  moreover have "live_refs n (remove_refs kind 1 ?s) = live_refs n ?s" by (simp add: live_refs_def)
  ultimately show ?thesis using assms(1) r l by (simp add: refs_inv_def)
qed

lemma next_task_refs: "i < n \<Longrightarrow> caller_refs n (next_task kind n i) = n - Suc i"
  by (auto simp: next_task_def)

lemma refs_inv_caller:
  assumes "refs_inv n s" "2 * n < 2 ^ 64" "caller_step kind n throws s = Some s'"
  shows "refs_inv n s'"
proof (cases "caller s")
  case (Ca_store i)
  then show ?thesis using assms(1,3) by (auto simp: caller_step_def refs_inv_def live_refs_def)
next
  case (Ca_then i)
  then have i: "i < n" "conts s ! i = Co_none" using assms(1) by (auto simp: refs_inv_def)
  show ?thesis
  proof (cases throws)
    case True
    let ?s = "s\<lparr>caller := Ca_catch i\<rparr>"
    have l: "live_refs n ?s + 1 = live_refs n s" using Ca_then i by (simp add: live_refs_def)
    then have "refs ?s = of_nat (live_refs n ?s + 1)" "live_refs n ?s + 1 < 2 ^ 64"
        "state_deleted ?s \<longleftrightarrow> live_refs n ?s + 1 = 0"
      using assms(1,2) live_refs_bound[OF assms(1)] by (simp_all add: refs_inv_def del: of_nat_add)
    note r = remove_refs_count[OF this]
    have "live_refs n (remove_refs kind 1 ?s) = live_refs n ?s" by (simp add: live_refs_def)
    with assms(1,3) Ca_then True r l show ?thesis by (auto simp: caller_step_def refs_inv_def)
  next
    case False
    then have s': "s' = s\<lparr>conts := (conts s)[i := Co_waiting], caller := next_task kind n i\<rparr>"
      using assms(3) Ca_then by (simp add: caller_step_def)
    have "sum_list (map holds_ref ((conts s)[i := Co_waiting])) = Suc (sum_list (map holds_ref (conts s)))"
      using sum_list_update_nat[of i "conts s" holds_ref Co_waiting] i assms(1) by (simp add: refs_inv_def)
    then have "live_refs n s' = live_refs n s"
      using Ca_then i by (simp add: live_refs_def s' next_task_refs)
    moreover have "caller_ok n (next_task kind n i) ((conts s)[i := Co_waiting])"
      using assms(1) Ca_then by (auto simp: next_task_def refs_inv_def nth_list_update)
    ultimately show ?thesis using assms(1) Ca_then by (simp add: refs_inv_def s')
  qed
next
  case (Ca_catch i)
  let ?s = "s\<lparr>caller := Ca_threw i\<rparr>"
  have i: "i < n" using Ca_catch assms(1) by (simp add: refs_inv_def)
  have l: "live_refs n ?s + (n - i - 1) = live_refs n s" using Ca_catch by (simp add: live_refs_def)
  then have "refs ?s = of_nat (live_refs n ?s + (n - i - 1))" "live_refs n ?s + (n - i - 1) < 2 ^ 64"
      "state_deleted ?s \<longleftrightarrow> live_refs n ?s + (n - i - 1) = 0"
    using assms(1,2) live_refs_bound[OF assms(1)] by (simp_all add: refs_inv_def del: of_nat_add)
  note r = remove_refs_count[OF this]
  have "live_refs n (remove_refs kind (n - i - 1) ?s) = live_refs n ?s" by (simp add: live_refs_def)
  moreover have "\<not> double_delete s" using assms(1) Ca_catch by (auto simp: refs_inv_def)
  ultimately show ?thesis
    using assms(1,3) Ca_catch r l i by (auto simp: caller_step_def refs_inv_def)
qed (use assms(3) in \<open>simp_all add: caller_step_def\<close>)

lemma refs_inv_step:
  assumes "refs_inv n s" "2 * n < 2 ^ 64" "combinator_step kind n e s = Some s'"
  shows "refs_inv n s'"
  using assms refs_inv_finish refs_inv_call refs_inv_destroy refs_inv_caller
  by (cases e) (auto split: if_splits)

lemma refs_inv_start:
  "refs_inv n (when_all_start n)" "refs_inv n (when_any_start n)"
  by (auto simp: refs_inv_def when_all_start_def when_any_start_def live_refs_def sum_list_replicate)

text \<open>While a continuation waits or the caller has tasks to register, the state is alive.\<close>

lemma refs_inv_alive:
  assumes "refs_inv n s" "i < n" "holds_ref (conts s ! i) = 1"
  shows "\<not> state_deleted s"
proof -
  have "holds_ref (conts s ! i) \<le> sum_list (map holds_ref (conts s))"
    using assms(1,2) by (intro member_le_sum_list) (auto simp: refs_inv_def)
  then have "live_refs n s \<noteq> 0" using assms(3) unfolding live_refs_def by linarith
  with assms(1) show ?thesis by (simp add: refs_inv_def)
qed

lemma refs_inv_alive_caller:
  "refs_inv n s \<Longrightarrow> caller s = Ca_store i \<or> caller s = Ca_then i \<Longrightarrow> i < n \<and> \<not> state_deleted s"
  by (auto simp: refs_inv_def live_refs_def)

definition has_run :: "cont_state \<Rightarrow> bool" where
  "has_run c \<longleftrightarrow> c = Co_called \<or> c = Co_done"

lemma has_run_simps [simp]:
  "has_run Co_called" "has_run Co_done" "\<not> has_run Co_none" "\<not> has_run Co_waiting"
  by (simp_all add: has_run_def)

section \<open>when_all\<close>

definition all_inv :: "nat \<Rightarrow> combinator \<Rightarrow> bool" where
  "all_inv n s \<longleftrightarrow> refs_inv n s \<and> (\<forall>i. caller s \<noteq> Ca_store i) \<and> length (result s) = n
     \<and> (\<forall>j < n. result s ! j = (if has_run (conts s ! j) then Some j else None))
     \<and> (\<forall>j < n. has_run (conts s ! j) \<longrightarrow> tasks_finished s ! j)
     \<and> all_event s = (if state_deleted s then Some (result s) else None)"

lemma all_event_remove_refs:
  "all_event s = (if state_deleted s then Some (result s) else None) \<Longrightarrow>
   all_event (remove_refs All k s) = (if state_deleted (remove_refs All k s) then Some (result s) else None)"
  by (simp add: remove_refs_def destroy_state_def Let_def)

lemma all_inv_caller:
  assumes "all_inv n s" "2 * n < 2 ^ 64" "caller_step All n throws s = Some s'"
  shows "all_inv n s'"
proof -
  note inv = assms(1)[unfolded all_inv_def]
  have r: "refs_inv n s'" using refs_inv_caller inv assms(2,3) by blast
  show ?thesis
  proof (cases "caller s")
    case (Ca_then i)
    with inv have i: "i < n" "conts s ! i = Co_none" by (auto simp: refs_inv_def)
    have nx: "next_task All n i \<noteq> Ca_store j" for j by (simp add: next_task_def)
    show ?thesis
    proof (cases throws)
      case True
      then have "s' = remove_refs All 1 (s\<lparr>caller := Ca_catch i\<rparr>)"
        using Ca_then assms(3) by (simp add: caller_step_def)
      with inv r all_event_remove_refs[of "s\<lparr>caller := Ca_catch i\<rparr>" 1] show ?thesis
        by (simp add: all_inv_def)
    next
      case False
      then have s': "s' = s\<lparr>conts := (conts s)[i := Co_waiting], caller := next_task All n i\<rparr>"
        using Ca_then assms(3) by (simp add: caller_step_def)
      have "has_run ((conts s)[i := Co_waiting] ! j) \<longleftrightarrow> has_run (conts s ! j)" if "j < n" for j
        using i inv that by (cases "j = i") (auto simp: refs_inv_def)
      with inv r nx show ?thesis by (simp add: all_inv_def s')
    qed
  next
    case (Ca_catch i)
    then have "s' = remove_refs All (n - i - 1) (s\<lparr>caller := Ca_threw i\<rparr>)"
      using assms(3) by (simp add: caller_step_def)
    with inv r all_event_remove_refs[of "s\<lparr>caller := Ca_threw i\<rparr>" "n - i - 1"] show ?thesis
      by (simp add: all_inv_def)
  qed (use inv assms(3) in \<open>simp_all add: caller_step_def\<close>)
qed

lemma all_inv_step:
  assumes "all_inv n s" "2 * n < 2 ^ 64" "combinator_step All n e s = Some s'"
  shows "all_inv n s'"
proof -
  note inv = assms(1)[unfolded all_inv_def]
  have r: "refs_inv n s'" using refs_inv_step inv assms(2,3) by blast
  have len: "length (conts s) = n" "length (tasks_finished s) = n" using inv by (simp_all add: refs_inv_def)
  show ?thesis
  proof (cases e)
    case (Ce_finish i)
    with inv assms(3) r len show ?thesis by (auto simp: all_inv_def nth_list_update split: if_splits)
  next
    case (Ce_caller throws)
    with all_inv_caller[OF assms(1,2)] assms(3) show ?thesis by simp
  next
    case (Ce_run i)
    with assms(3) have i: "i < n" "conts s ! i = Co_waiting" "tasks_finished s ! i"
        "s' = when_all_func i (s\<lparr>conts := (conts s)[i := Co_called]\<rparr>)"
      by (auto simp: run_func_def split: if_splits)
    with refs_inv_alive[of n s i] inv have "\<not> state_deleted s" by auto
    with i inv r len show ?thesis by (auto simp: all_inv_def when_all_func_def nth_list_update)
  next
    case (Ce_destroy i)
    with assms(3) have i: "i < n" "conts s ! i = Co_called"
        "s' = remove_refs All 1 (s\<lparr>conts := (conts s)[i := Co_done]\<rparr>)"
      by (auto split: if_splits)
    with inv r len all_event_remove_refs[of "s\<lparr>conts := (conts s)[i := Co_done]\<rparr>" 1] show ?thesis
      by (auto simp: all_inv_def nth_list_update)
  qed
qed

lemma all_inv_start: "all_inv n (when_all_start n)"
  using refs_inv_start(1)[of n] by (auto simp: all_inv_def when_all_start_def)

text \<open>Up to \<open>2 ^ 62\<close> tasks the count cannot overflow: a smaller number stands for an impossible one.\<close>

interpretation when_all: safety_system "combinator_step All (min n (2 ^ 62))" "when_all_start (min n (2 ^ 62))"
    "all_inv (min n (2 ^ 62))" for n
  by unfold_locales (auto intro: all_inv_start all_inv_step)

text \<open>
  C14. \<open>when_all\<close> of \<open>n\<close> tasks: when it has returned, its task is set exactly when every continuation has run
  and been destroyed, and then it holds all \<open>n\<close> tasks in their order, all of them finished; before
  that it is not set.  The shared state is deleted twice only if \<open>then()\<close> threw for the last task.
\<close>

theorem when_all_complete:
  assumes "runs (combinator_step All n) es (when_all_start n) = Some s" "n \<le> 2 ^ 62"
  shows "(caller s = Ca_returned \<longrightarrow>
       all_event s = (if \<forall>i < n. conts s ! i = Co_done then Some (map Some [0..<n]) else None))
    \<and> (caller s = Ca_returned \<and> all_event s \<noteq> None \<longrightarrow> (\<forall>i < n. tasks_finished s ! i))
    \<and> (double_delete s \<longrightarrow> caller s = Ca_threw (n - 1))"
proof -
  have inv: "all_inv n s" using when_all.inv_reachable[of n es s] assms by (simp add: min_absorb1)
  then have len: "length (conts s) = n" "caller_ok n (caller s) (conts s)" by (simp_all add: all_inv_def refs_inv_def)
  have del: "state_deleted s \<longleftrightarrow> (\<forall>i < n. conts s ! i = Co_done)" if "caller s = Ca_returned"
  proof -
    have "state_deleted s \<longleftrightarrow> (\<forall>i < n. holds_ref (conts s ! i) = 0)"
      using inv that len(1) by (simp add: all_inv_def refs_inv_def live_refs_def all_set_conv_all_nth)
    also have "\<dots> \<longleftrightarrow> (\<forall>i < n. conts s ! i = Co_done)"
    proof (intro all_cong1 imp_cong refl)
      fix i assume "i < n"
      with len(2) that have "conts s ! i \<noteq> Co_none" by simp
      then show "holds_ref (conts s ! i) = 0 \<longleftrightarrow> conts s ! i = Co_done" by (cases "conts s ! i") auto
    qed
    finally show ?thesis .
  qed
  have full: "result s = map Some [0..<n]" if "\<forall>i < n. conts s ! i = Co_done"
    using inv that by (intro nth_equalityI) (auto simp: all_inv_def)
  have fin: "\<forall>i < n. tasks_finished s ! i" if "\<forall>i < n. conts s ! i = Co_done"
    using inv that by (auto simp: all_inv_def)
  have ev: "all_event s = (if state_deleted s then Some (result s) else None)"
      "double_delete s \<longrightarrow> caller s = Ca_threw (n - 1)"
    using inv by (simp_all add: all_inv_def refs_inv_def)
  from ev del full fin show ?thesis by auto
qed

theorem when_all_complete_witness:
  "\<exists>s. runs (combinator_step All 2) [Ce_finish 1, Ce_caller False, Ce_caller False, Ce_run 1, Ce_destroy 1,
       Ce_finish 0, Ce_run 0, Ce_destroy 0] (when_all_start 2) = Some s
     \<and> all_event s = Some [Some 0, Some 1]"
proof -
  let ?es = "[Ce_finish 1, Ce_caller False, Ce_caller False, Ce_run 1, Ce_destroy 1,
       Ce_finish 0, Ce_run 0, Ce_destroy 0]"
  have "map_option (\<lambda>s. (caller s, conts s)) (runs (combinator_step All 2) ?es (when_all_start 2))
      = Some (Ca_returned, [Co_done, Co_done])"
    by code_simp
  then obtain s where s: "runs (combinator_step All 2) ?es (when_all_start 2) = Some s"
      "caller s = Ca_returned" "conts s = [Co_done, Co_done]" by auto
  have "\<forall>i < 2. conts s ! i = Co_done" using s(3) by (simp add: less_2_cases_iff)
  with when_all_complete[OF s(1)] s show ?thesis by (simp add: upt_rec)
qed

text \<open>
  The \<open>catch\<close> block "make sure we don't leak memory if then() throws" calls \<open>remove_ref(0)\<close> when the
  last task's \<open>then()\<close> threw.  If the continuations of the other tasks are done by then (in particular
  for a single task), the shared state has just been deleted by the unwinding, and is deleted again.
\<close>

theorem when_all_last_then_throws:
  assumes "runs (combinator_step All n) es (when_all_start n) = Some s" "n \<le> 2 ^ 62"
    and "caller s = Ca_then (n - 1)" "\<forall>i < n - 1. conts s ! i = Co_done"
  shows "\<exists>s'. runs (combinator_step All n) [Ce_caller True, Ce_caller True] s = Some s' \<and> double_delete s'"
proof -
  have inv: "refs_inv n s"
    using when_all.inv_reachable[of n es s] assms(1,2) by (simp add: min_absorb1 all_inv_def)
  then have n: "0 < n" "conts s ! (n - 1) = Co_none" "length (conts s) = n"
    using assms(3) by (auto simp: refs_inv_def)
  have "holds_ref (conts s ! i) = 0" if "i < n" for i
    using that assms(4) n by (cases "i = n - 1") auto
  then have "live_refs n s = 1" using assms(3) n by (simp add: live_refs_def all_set_conv_all_nth)
  then have "refs s = 1" "\<not> state_deleted s" using inv by (auto simp: refs_inv_def)
  then show ?thesis
    using assms(3) by (simp add: caller_step_def remove_refs_def destroy_state_def Let_def)
qed

theorem when_all_last_then_throws_witness:
  "\<exists>s s'. runs (combinator_step All 2) [Ce_finish 0, Ce_caller False, Ce_run 0, Ce_destroy 0] (when_all_start 2) = Some s
     \<and> runs (combinator_step All 2) [Ce_caller True, Ce_caller True] s = Some s' \<and> double_delete s'"
proof -
  let ?es = "[Ce_finish 0, Ce_caller False, Ce_run 0, Ce_destroy 0]"
  have "map_option (\<lambda>s. (caller s, conts s)) (runs (combinator_step All 2) ?es (when_all_start 2))
      = Some (Ca_then 1, [Co_done, Co_none])"
    by code_simp
  then obtain s where s: "runs (combinator_step All 2) ?es (when_all_start 2) = Some s"
      "caller s = Ca_then 1" "conts s = [Co_done, Co_none]" by auto
  with when_all_last_then_throws[OF s(1)] show ?thesis by auto
qed

section \<open>when_any\<close>

text \<open>\<open>stored n c\<close>: how many tasks the caller has copied into \<open>result\<close>; \<open>copies n k\<close>: the result then.\<close>

fun stored :: "nat \<Rightarrow> caller_pc \<Rightarrow> nat" where
  "stored n (Ca_store i) = i"
| "stored n (Ca_then i) = Suc i"
| "stored n (Ca_catch i) = Suc i"
| "stored n Ca_returned = n"
| "stored n (Ca_threw i) = Suc i"

definition copies :: "nat \<Rightarrow> nat \<Rightarrow> nat option list" where
  "copies n k = map Some [0..<k] @ replicate (n - k) None"

lemma length_copies: "k \<le> n \<Longrightarrow> length (copies n k) = n"
  by (simp add: copies_def)

lemma copies_store: "k < n \<Longrightarrow> (copies n k)[k := Some k] = copies n (Suc k)"
  by (cases "n - k") (auto simp: copies_def list_update_append Suc_diff_Suc[symmetric])

lemma copies_missing: "k \<le> j \<Longrightarrow> j < n \<Longrightarrow> copies n k ! j = None"
  by (simp add: copies_def nth_append)

definition any_inv :: "combinator_kind \<Rightarrow> nat \<Rightarrow> combinator \<Rightarrow> bool" where
  "any_inv kind n s \<longleftrightarrow> refs_inv n s \<and> stored n (caller s) \<le> n
     \<and> (\<forall>j < n. has_run (conts s ! j) \<longrightarrow> tasks_finished s ! j)
     \<and> (any_event s = None \<longrightarrow>
          0 < n \<and> result s = copies n (stored n (caller s)) \<and> (\<forall>j < n. \<not> has_run (conts s ! j)))
     \<and> (\<forall>i r. any_event s = Some (i, r) \<longrightarrow> n = 0 \<or>
          i < n \<and> tasks_finished s ! i \<and> has_run (conts s ! i)
          \<and> (\<exists>k. i < k \<and> k \<le> stored n (caller s) \<and> r = copies n k))
     \<and> (any_event s \<noteq> None \<longrightarrow> (if kind = Any_range then result s = [] else length (result s) = n))
     \<and> (out_of_range s \<longrightarrow> kind = Any_range \<and> any_event s \<noteq> None)"

lemma refs_inv_stored: "refs_inv n s \<Longrightarrow> stored n (caller s) \<le> n"
  by (cases "caller s") (auto simp: refs_inv_def)

lemma stored_next: "kind \<noteq> All \<Longrightarrow> i < n \<Longrightarrow> stored n (next_task kind n i) = Suc i"
  by (simp add: next_task_def)

lemma any_inv_caller:
  assumes "any_inv kind n s" "kind \<noteq> All" "2 * n < 2 ^ 64" "caller_step kind n throws s = Some s'"
  shows "any_inv kind n s'"
proof -
  note inv = assms(1)[unfolded any_inv_def]
  have r: "refs_inv n s'" using refs_inv_caller inv assms(3,4) by blast
  note st = refs_inv_stored[OF r]
  show ?thesis
  proof (cases "caller s")
    case (Ca_store i)
    then have s': "s' = store_copy i (s\<lparr>caller := Ca_then i\<rparr>)" using assms(4) by (simp add: caller_step_def)
    have i: "i < n" using Ca_store inv by (simp add: refs_inv_def)
    show ?thesis
    proof (cases "any_event s")
      case None
      with inv Ca_store have res: "result s = copies n i" by simp
      then have "result s' = copies n (Suc i)" "out_of_range s' = out_of_range s"
        using i by (simp_all add: s' store_copy_def length_copies copies_store)
      with inv r st None s' show ?thesis by (simp add: any_inv_def)
    next
      case (Some ev)
      then have "if kind = Any_range then result s' = [] else length (result s') = n"
        using inv by (auto simp: s' store_copy_def)
      moreover have "out_of_range s' \<longrightarrow> kind = Any_range"
        using inv Some i by (auto simp: s' store_copy_def split: if_splits)
      moreover have "k \<le> i \<longrightarrow> k \<le> Suc i" for k by simp
      ultimately show ?thesis using inv r st Some s' Ca_store
        unfolding any_inv_def by (cases ev) (auto 0 3)
    qed
  next
    case (Ca_then i)
    with inv have i: "i < n" "conts s ! i = Co_none" by (auto simp: refs_inv_def)
    show ?thesis
    proof (cases throws)
      case True
      then have "s' = remove_refs kind 1 (s\<lparr>caller := Ca_catch i\<rparr>)"
        using Ca_then assms(4) by (simp add: caller_step_def)
      moreover have "n \<noteq> 0" using i by simp
      ultimately show ?thesis using inv r Ca_then by (simp add: any_inv_def)
    next
      case False
      then have s': "s' = s\<lparr>conts := (conts s)[i := Co_waiting], caller := next_task kind n i\<rparr>"
        using Ca_then assms(4) by (simp add: caller_step_def)
      have "has_run ((conts s)[i := Co_waiting] ! j) \<longleftrightarrow> has_run (conts s ! j)" if "j < n" for j
        using i inv that by (cases "j = i") (auto simp: refs_inv_def)
      with inv r Ca_then stored_next[OF assms(2) i(1)] show ?thesis by (auto simp: any_inv_def s')
    qed
  next
    case (Ca_catch i)
    then have "s' = remove_refs kind (n - i - 1) (s\<lparr>caller := Ca_threw i\<rparr>)"
      using assms(4) by (simp add: caller_step_def)
    moreover have "n \<noteq> 0" using Ca_catch inv by (auto simp: refs_inv_def)
    ultimately show ?thesis using inv r Ca_catch by (simp add: any_inv_def)
  qed (use inv assms(4) in \<open>simp_all add: caller_step_def\<close>)
qed

lemma any_inv_run:
  assumes "any_inv kind n s" "kind \<noteq> All" "i < n" "conts s ! i = Co_waiting" "tasks_finished s ! i"
    and "refs_inv n (when_any_set kind i (s\<lparr>conts := (conts s)[i := Co_called]\<rparr>))"
  shows "any_inv kind n (when_any_set kind i (s\<lparr>conts := (conts s)[i := Co_called]\<rparr>))"
proof -
  note inv = assms(1)[unfolded any_inv_def]
  have len: "length (conts s) = n" "caller_ok n (caller s) (conts s)" using inv by (simp_all add: refs_inv_def)
  have i: "i < stored n (caller s)" using len(2) assms(3,4) by (cases "caller s") (auto simp: not_le[symmetric])
  have run: "has_run ((conts s)[i := Co_called] ! j) \<longleftrightarrow> j = i \<or> has_run (conts s ! j)" if "j < n" for j
    using that len(1) by (cases "j = i") auto
  show ?thesis
  proof (cases "any_event s")
    case None
    with inv assms(3,5,6) i run show ?thesis
      by (auto simp: any_inv_def when_any_set_def length_copies)
  next
    case (Some ev)
    with inv assms(3,5,6) run show ?thesis
      by (cases ev) (auto 0 3 simp: any_inv_def when_any_set_def)
  qed
qed

lemma any_inv_step:
  assumes "any_inv kind n s" "kind \<noteq> All" "2 * n < 2 ^ 64" "combinator_step kind n e s = Some s'"
  shows "any_inv kind n s'"
proof -
  note inv = assms(1)[unfolded any_inv_def]
  have r: "refs_inv n s'" using refs_inv_step inv assms(3,4) by blast
  have len: "length (conts s) = n" "length (tasks_finished s) = n" using inv by (simp_all add: refs_inv_def)
  show ?thesis
  proof (cases e)
    case (Ce_finish i)
    then have s': "s' = s\<lparr>tasks_finished := (tasks_finished s)[i := True]\<rparr>"
      using assms(4) by (simp split: if_splits)
    have "(tasks_finished s)[i := True] ! j" if "tasks_finished s ! j" "j < n" for j
      using that len by (cases "j = i") auto
    with inv r show ?thesis unfolding any_inv_def s' by (auto 0 3)
  next
    case (Ce_caller throws)
    with any_inv_caller[OF assms(1,2,3)] assms(4) show ?thesis by simp
  next
    case (Ce_run i)
    with assms(4) have i: "i < n" "conts s ! i = Co_waiting" "tasks_finished s ! i"
        "s' = when_any_set kind i (s\<lparr>conts := (conts s)[i := Co_called]\<rparr>)"
      using assms(2) by (auto simp: run_func_def split: if_splits)
    with any_inv_run[OF assms(1,2)] r show ?thesis by simp
  next
    case (Ce_destroy i)
    with assms(4) have i: "i < n" "conts s ! i = Co_called"
        "s' = remove_refs kind 1 (s\<lparr>conts := (conts s)[i := Co_done]\<rparr>)"
      by (auto split: if_splits)
    have "has_run ((conts s)[i := Co_done] ! j) \<longleftrightarrow> has_run (conts s ! j)" if "j < n" for j
      using that i len by (cases "j = i") auto
    with i inv r show ?thesis unfolding any_inv_def by (auto 0 3)
  qed
qed

lemma any_inv_start: "any_inv kind n (when_any_start n)"
  using refs_inv_start(2)[of n] by (auto simp: any_inv_def when_any_start_def copies_def)

interpretation when_any: safety_system "combinator_step (if v then Any_range else Any_tuple) (min n (2 ^ 62))"
    "when_any_start (min n (2 ^ 62))" "any_inv (if v then Any_range else Any_tuple) (min n (2 ^ 62))" for v n
proof
  fix s e s'
  assume "any_inv (if v then Any_range else Any_tuple) (min n (2 ^ 62)) s"
    "combinator_step (if v then Any_range else Any_tuple) (min n (2 ^ 62)) e s = Some s'"
  moreover have "(if v then Any_range else Any_tuple) \<noteq> All" "2 * min n (2 ^ 62) < 2 ^ 64" by auto
  ultimately show "any_inv (if v then Any_range else Any_tuple) (min n (2 ^ 62)) s'"
    using any_inv_step by blast
qed (rule any_inv_start)

lemma any_inv_reachable:
  assumes "runs (combinator_step kind n) es (when_any_start n) = Some s" "n \<le> 2 ^ 62" "kind \<noteq> All"
  shows "any_inv kind n s"
  using when_any.inv_reachable[of "kind = Any_range" n es s] assms
  by (cases kind) (simp_all add: min_absorb1)

text \<open>
  C27. \<open>when_any\<close> of \<open>n > 0\<close> tasks: its task is set by the first continuation that runs, to the index of a
  finished task and the list of the tasks copied until then, and it is set as soon as any continuation
  has run.  So the list is complete if no continuation runs before the last task is registered; the
  access to \<open>state->result\<close> stays in range then, and always for an argument list.
\<close>

theorem when_any_first_wins:
  assumes "runs (combinator_step kind n) es (when_any_start n) = Some s" "n \<le> 2 ^ 62" "0 < n"
    and "kind \<noteq> All"
  shows "(\<forall>i r. any_event s = Some (i, r) \<longrightarrow> i < n \<and> tasks_finished s ! i
       \<and> (\<exists>k. i < k \<and> k \<le> stored n (caller s) \<and> r = copies n k))
    \<and> (any_event s = None \<longleftrightarrow> (\<forall>i < n. \<not> has_run (conts s ! i)))
    \<and> (any_event s = None \<and> caller s = Ca_returned \<longrightarrow> result s = map Some [0..<n])
    \<and> (out_of_range s \<longrightarrow> kind = Any_range \<and> any_event s \<noteq> None)"
proof -
  note inv = any_inv_reachable[OF assms(1,2,4), unfolded any_inv_def]
  have "any_event s = None" if "\<forall>i < n. \<not> has_run (conts s ! i)"
    using inv that assms(3) by (cases "any_event s") auto
  moreover have "\<forall>i < n. \<not> has_run (conts s ! i)" if "any_event s = None" using inv that by simp
  moreover have "result s = map Some [0..<n]" if "any_event s = None" "caller s = Ca_returned"
    using inv that by (simp add: copies_def)
  moreover have "out_of_range s \<longrightarrow> kind = Any_range \<and> any_event s \<noteq> None" using inv by simp
  moreover have "i < n \<and> tasks_finished s ! i \<and> (\<exists>k. i < k \<and> k \<le> stored n (caller s) \<and> r = copies n k)"
    if "any_event s = Some (i, r)" for i r
    using inv that assms(3) by simp
  ultimately show ?thesis by blast
qed

theorem when_any_first_wins_witness:
  "\<exists>s. runs (combinator_step Any_range 2) [Ce_caller False, Ce_caller False, Ce_caller False, Ce_caller False,
       Ce_finish 1, Ce_run 1] (when_any_start 2) = Some s \<and> any_event s = Some (1, [Some 0, Some 1])"
proof -
  let ?es = "[Ce_caller False, Ce_caller False, Ce_caller False, Ce_caller False, Ce_finish 1, Ce_run 1]"
  have "map_option (\<lambda>s. (caller s, map_option fst (any_event s))) (runs (combinator_step Any_range 2) ?es (when_any_start 2))
      = Some (Ca_returned, Some 1)"
    by code_simp
  then obtain s r where s: "runs (combinator_step Any_range 2) ?es (when_any_start 2) = Some s"
      "caller s = Ca_returned" "any_event s = Some (1, r)" by auto
  with when_any_first_wins[OF s(1)] obtain k where "1 < k" "k \<le> 2" "r = copies 2 k" by auto
  then have "r = [Some 0, Some 1]" by (cases "k = 2") (auto simp: copies_def upt_rec)
  with s show ?thesis by auto
qed

text \<open>
  A task that finishes while \<open>when_any\<close> still registers the others (a finished task passed as an
  argument always does, because its continuation runs inside \<open>then()\<close>): \<open>std::move(result)\<close> has emptied the
  vector, so the next \<open>state->result[i]\<close> of the loop over a range is out of range; for an argument list
  nothing is out of range, but the result lacks the tasks that were not yet registered, although it
  is documented as the "list of tasks that were passed in".
\<close>

theorem when_any_early_completion:
  assumes "runs (combinator_step kind n) es (when_any_start n) = Some s" "n \<le> 2 ^ 62" "0 < n"
    and "kind \<noteq> All" "caller s = Ca_store k" "any_event s = Some (i, r)"
  shows "k < n \<and> length r = n \<and> (\<forall>j. k \<le> j \<and> j < n \<longrightarrow> r ! j = None)
    \<and> (\<exists>s'. combinator_step kind n (Ce_caller False) s = Some s'
          \<and> (kind = Any_range \<longrightarrow> out_of_range s') \<and> any_event s' = Some (i, r))"
proof -
  note inv = any_inv_reachable[OF assms(1,2,4), unfolded any_inv_def]
  then obtain m where m: "m \<le> k" "r = copies n m" using assms(3,5,6) by auto
  have k: "k < n" using inv assms(5) by (simp add: refs_inv_def)
  have "kind = Any_range \<longrightarrow> result s = []" using inv assms(6) by auto
  with m k assms(5,6) show ?thesis
    by (auto simp: length_copies copies_missing caller_step_def store_copy_def)
qed

theorem when_any_early_completion_witness:
  "\<exists>s s'. runs (combinator_step Any_range 2) [Ce_finish 0, Ce_caller False, Ce_caller False, Ce_run 0]
        (when_any_start 2) = Some s
     \<and> combinator_step Any_range 2 (Ce_caller False) s = Some s' \<and> out_of_range s'"
proof -
  let ?es = "[Ce_finish 0, Ce_caller False, Ce_caller False, Ce_run 0]"
  have "map_option (\<lambda>s. (caller s, map_option fst (any_event s))) (runs (combinator_step Any_range 2) ?es (when_any_start 2))
      = Some (Ca_store 1, Some 0)"
    by code_simp
  then obtain s r where s: "runs (combinator_step Any_range 2) ?es (when_any_start 2) = Some s"
      "caller s = Ca_store 1" "any_event s = Some (0, r)" by auto
  with when_any_early_completion[OF s(1) _ _ _ s(2,3)] show ?thesis by auto
qed

end
