(* ===== verification/Channel.thy ===== *)
theory Channel
  imports Prelude
begin

text \<open>
  \<open>libs/cpp-channel/include/channel.h\<close>: a Go-style channel with a queue of size \<open>N\<close>, and \<open>select\<close>.

  Every critical section on \<open>m_mutex\<close> is one event; a call to \<open>notify_one\<close> after the unlock is another.
  A thread that waits on a condition variable is asleep until it is notified or wakes spuriously, and
  then tests its predicate again.  The event of a notification names the sleeper that it wakes.
  Threads are numbered; any of them may call any operation when it is idle.

  \<open>enqueued\<close> and \<open>dequeued\<close> record what was put into the queue and taken out of it, in order; \<open>failed\<close>
  records the assertions that did not hold (without \<open>NDEBUG\<close> the program stops there).
\<close>

section \<open>State\<close>

datatype 'v ch_pc =
    Ch_idle
  | Sd_wait 'v           \<comment> \<open>asleep on \<open>m_send_begin_cv\<close>\<close>
  | Sd_woken 'v
  | Sd_enqueued nat      \<comment> \<open>lock released, about to notify \<open>m_recv_cv\<close>\<close>
  | Sd_check nat         \<comment> \<open>about to test \<open>!is_full()\<close>\<close>
  | Sd_end_wait nat      \<comment> \<open>asleep on \<open>m_send_end_cv\<close>\<close>
  | Sd_finish nat        \<comment> \<open>about to notify \<open>m_send_begin_cv\<close>\<close>
  | Rc_wait              \<comment> \<open>asleep on \<open>m_recv_cv\<close>\<close>
  | Rc_woken
  | De_notify bool 'v    \<comment> \<open>dequeued a value; about to notify the begin or the end of a send\<close>
  | Ts_notify            \<comment> \<open>\<open>try_send\<close> has enqueued, about to notify \<open>m_recv_cv\<close>\<close>

text \<open>The assertions of the source, by what they assert.\<close>

datatype ch_assertion =
    Not_try_ready | Not_own_element
  | Full_has_sender | One_kind_of_send | Not_full_after_pop | Send_enabled | Receiver_exists

record 'v channel =
  m_queue :: "(tid \<times> 'v) list"
  m_is_send_done :: bool
  m_is_try_send_done :: bool
  m_is_recv_ready :: bool
  m_is_try_send_ready :: bool
  m_is_try_recv_ready :: bool
  ch_pcs :: "'v ch_pc list"
  enqueued :: "(tid \<times> 'v) list"
  dequeued :: "(tid \<times> 'v) list"
  failed :: "ch_assertion list"

definition channel_init :: "nat \<Rightarrow> 'v channel" where
  "channel_init threads = \<lparr>m_queue = [], m_is_send_done = True, m_is_try_send_done = True,
     m_is_recv_ready = False, m_is_try_send_ready = False, m_is_try_recv_ready = False,
     ch_pcs = replicate threads Ch_idle, enqueued = [], dequeued = [], failed = []\<rparr>"

definition ch_goto :: "tid \<Rightarrow> 'v ch_pc \<Rightarrow> 'v channel \<Rightarrow> 'v channel" where
  "ch_goto t p s = s\<lparr>ch_pcs := (ch_pcs s)[t := p]\<rparr>"

definition ch_assert :: "ch_assertion \<Rightarrow> bool \<Rightarrow> 'v channel \<Rightarrow> 'v channel" where
  "ch_assert a b s = (if b then s else s\<lparr>failed := a # failed s\<rparr>)"

section \<open>Operations\<close>

definition is_full :: "nat \<Rightarrow> 'v channel \<Rightarrow> bool" where
  "is_full N s \<longleftrightarrow> N < length (m_queue s)"

definition is_try_ready :: "'v channel \<Rightarrow> bool" where
  "is_try_ready s \<longleftrightarrow> m_is_try_recv_ready s \<and> m_is_try_send_ready s"

definition enqueue :: "tid \<Rightarrow> 'v \<Rightarrow> 'v channel \<Rightarrow> 'v channel" where
  "enqueue t v s = s\<lparr>m_queue := m_queue s @ [(t, v)], enqueued := enqueued s @ [(t, v)]\<rparr>"

definition dequeue :: "'v channel \<Rightarrow> 'v channel" where
  "dequeue s = s\<lparr>m_queue := tl (m_queue s), dequeued := dequeued s @ [hd (m_queue s)]\<rparr>"

text \<open>The first block of \<open>_send\<close>, up to the release of the lock or to sleep.\<close>

definition send_guard :: "nat \<Rightarrow> 'v channel \<Rightarrow> bool" where
  "send_guard N s \<longleftrightarrow> m_is_send_done s \<and> m_is_try_send_done s \<and> \<not> is_full N s"

definition send_begin :: "nat \<Rightarrow> tid \<Rightarrow> 'v \<Rightarrow> 'v channel \<Rightarrow> 'v channel" where
  "send_begin N t v s =
     (if send_guard N s
      then (let s1 = ch_assert Not_try_ready (\<not> is_try_ready s) s;
                s2 = (enqueue t v s1)\<lparr>m_is_send_done := False\<rparr>
            in ch_goto t (Sd_enqueued (length (enqueued s2))) s2)
      else ch_goto t (Sd_wait v) s)"

text \<open>The second block of \<open>_send\<close>.\<close>

definition send_end :: "nat \<Rightarrow> tid \<Rightarrow> nat \<Rightarrow> 'v channel \<Rightarrow> 'v channel" where
  "send_end N t k s =
     (if is_full N s then ch_goto t (Sd_end_wait k) s
      else ch_goto t (Sd_finish k) (s\<lparr>m_is_send_done := True\<rparr>))"

text \<open>
  Taking the front element, after the tests that \<open>recv\<close> and \<open>try_recv_ptr\<close> share; the element's
  sender is compared with the calling thread.
\<close>

definition take_front :: "nat \<Rightarrow> tid \<Rightarrow> 'v channel \<Rightarrow> 'v channel" where
  "take_front N t s =
     (let s1 = ch_assert Full_has_sender (\<not> is_full N s \<or> \<not> m_is_send_done s \<or> \<not> m_is_try_send_done s) s;
          s2 = ch_assert One_kind_of_send (m_is_try_send_done s \<or> m_is_send_done s) s1;
          s3 = ch_assert Not_own_element (\<not> is_full N s \<or> t \<noteq> fst (hd (m_queue s))) s2;
          s4 = dequeue s3
      in ch_assert Not_full_after_pop (\<not> is_full N s4) s4)"

definition post_blocking_recv :: "nat \<Rightarrow> tid \<Rightarrow> 'v channel \<Rightarrow> 'v channel" where
  "post_blocking_recv N t s =
     (let s1 = (take_front N t s)\<lparr>m_is_try_send_done := True, m_is_recv_ready := False,
                 m_is_try_recv_ready := False, m_is_try_send_ready := False\<rparr>
      in ch_goto t (De_notify (m_is_send_done s) (snd (hd (m_queue s)))) s1)"

text \<open>
  \<open>recv\<close>: the test of the wait predicate in \<open>_pre_blocking_recv\<close> and the rest of the call; the first test
  follows \<open>m_is_recv_ready = true\<close>.
\<close>

definition recv_test :: "nat \<Rightarrow> tid \<Rightarrow> 'v channel \<Rightarrow> 'v channel" where
  "recv_test N t s =
     (if m_queue s = [] then ch_goto t Rc_wait s
      else post_blocking_recv N t (ch_assert Not_try_ready (\<not> is_try_ready s) s))"

definition pre_blocking_recv :: "nat \<Rightarrow> tid \<Rightarrow> 'v channel \<Rightarrow> 'v channel" where
  "pre_blocking_recv N t s = recv_test N t (s\<lparr>m_is_recv_ready := True\<rparr>)"

definition try_send :: "nat \<Rightarrow> tid \<Rightarrow> 'v \<Rightarrow> 'v channel \<Rightarrow> bool \<times> 'v channel" where
  "try_send N t v s =
     (let s1 = s\<lparr>m_is_try_send_ready := True\<rparr>;
          s2 = ch_assert Not_try_ready (\<not> is_try_ready s1) s1
      in if \<not> m_is_send_done s2 \<or> \<not> m_is_try_send_done s2 \<or> is_full N s2
            \<or> (0 = N - length (m_queue s2) \<and> \<not> m_is_recv_ready s2)
         then (False, s2)
         else
           let s3 = ch_assert Send_enabled (m_is_send_done s2 \<and> m_is_try_send_done s2 \<and> \<not> is_full N s2) s2;
               s4 = s3\<lparr>m_is_try_send_done := 0 < N - length (m_queue s3)\<rparr>;
               s5 = ch_assert Receiver_exists (m_is_try_send_done s4 \<or> m_is_recv_ready s4) s4
           in (True, ch_goto t Ts_notify (enqueue t v s5)))"

definition try_recv :: "nat \<Rightarrow> tid \<Rightarrow> 'v channel \<Rightarrow> 'v option \<times> 'v channel" where
  "try_recv N t s =
     (let s1 = s\<lparr>m_is_try_recv_ready := True\<rparr>
      in if m_queue s1 = [] then (None, s1)
         else
           let s2 = (take_front N t s1)\<lparr>m_is_try_send_done := True, m_is_try_recv_ready := False,
                      m_is_try_send_ready := False\<rparr>
           in (Some (snd (hd (m_queue s1))), ch_goto t (De_notify (m_is_send_done s1) (snd (hd (m_queue s1)))) s2))"

section \<open>Condition variables\<close>

datatype ch_cv = Send_begin | Send_end | Recv

fun asleep_on :: "ch_cv \<Rightarrow> 'v ch_pc \<Rightarrow> bool" where
  "asleep_on Send_begin (Sd_wait v) = True"
| "asleep_on Send_end (Sd_end_wait k) = True"
| "asleep_on Recv Rc_wait = True"
| "asleep_on _ _ = False"

definition asleep :: "'v ch_pc \<Rightarrow> bool" where
  "asleep p \<longleftrightarrow> asleep_on Send_begin p \<or> asleep_on Send_end p \<or> asleep_on Recv p"

fun wake :: "'v ch_pc \<Rightarrow> 'v ch_pc" where
  "wake (Sd_wait v) = Sd_woken v"
| "wake (Sd_end_wait k) = Sd_check k"
| "wake Rc_wait = Rc_woken"
| "wake p = p"

text \<open>\<open>notify_one\<close> wakes one of the sleepers, if there is any.\<close>

definition ch_notify :: "ch_cv \<Rightarrow> tid option \<Rightarrow> 'v channel \<Rightarrow> 'v channel option" where
  "ch_notify c w s =
     (case w of
        None \<Rightarrow> if number (asleep_on c) (ch_pcs s) = 0 then Some s else None
      | Some u \<Rightarrow> if u < length (ch_pcs s) \<and> asleep_on c (ch_pcs s ! u)
                  then Some (ch_goto u (wake (ch_pcs s ! u)) s) else None)"

datatype 'v ch_event =
    Ch_send tid 'v | Ch_recv tid | Ch_try_send tid 'v | Ch_try_recv tid
  | Ch_retest tid | Ch_notify tid "tid option" | Ch_spurious tid

fun channel_step :: "nat \<Rightarrow> 'v ch_event \<Rightarrow> 'v channel \<Rightarrow> 'v channel option" where
  "channel_step N (Ch_send t v) s =
     (if t < length (ch_pcs s) \<and> ch_pcs s ! t = Ch_idle then Some (send_begin N t v s) else None)"
| "channel_step N (Ch_recv t) s =
     (if t < length (ch_pcs s) \<and> ch_pcs s ! t = Ch_idle then Some (pre_blocking_recv N t s) else None)"
| "channel_step N (Ch_try_send t v) s =
     (if t < length (ch_pcs s) \<and> ch_pcs s ! t = Ch_idle then Some (snd (try_send N t v s)) else None)"
| "channel_step N (Ch_try_recv t) s =
     (if t < length (ch_pcs s) \<and> ch_pcs s ! t = Ch_idle then Some (snd (try_recv N t s)) else None)"
| "channel_step N (Ch_retest t) s =
     (if t < length (ch_pcs s)
      then (case ch_pcs s ! t of
          Sd_woken v \<Rightarrow> Some (send_begin N t v s)
        | Sd_check k \<Rightarrow> Some (send_end N t k s)
        | Rc_woken \<Rightarrow> Some (recv_test N t s)
        | _ \<Rightarrow> None)
      else None)"
| "channel_step N (Ch_notify t w) s =
     (if t < length (ch_pcs s)
      then (case ch_pcs s ! t of
          Sd_enqueued k \<Rightarrow> ch_notify Recv w (ch_goto t (Sd_check k) s)
        | Sd_finish k \<Rightarrow> ch_notify Send_begin w (ch_goto t Ch_idle s)
        | De_notify b v \<Rightarrow> ch_notify (if b then Send_begin else Send_end) w (ch_goto t Ch_idle s)
        | Ts_notify \<Rightarrow> ch_notify Recv w (ch_goto t Ch_idle s)
        | _ \<Rightarrow> None)
      else None)"
| "channel_step N (Ch_spurious t) s =
     (if t < length (ch_pcs s) \<and> asleep (ch_pcs s ! t)
      then Some (ch_goto t (wake (ch_pcs s ! t)) s) else None)"

section \<open>Invariant\<close>

text \<open>Points at which a thread has still something to do for others.\<close>

fun sending :: "'v ch_pc \<Rightarrow> bool" where
  "sending (Sd_enqueued k) = True"
| "sending (Sd_check k) = True"
| "sending (Sd_end_wait k) = True"
| "sending _ = False"

fun receiving :: "'v ch_pc \<Rightarrow> bool" where
  "receiving Rc_wait = True"
| "receiving Rc_woken = True"
| "receiving _ = False"

text \<open>Will notify the condition variable, or has just been woken on it.\<close>

fun active_on :: "ch_cv \<Rightarrow> 'v ch_pc \<Rightarrow> bool" where
  "active_on Recv (Sd_enqueued k) = True"
| "active_on Recv Ts_notify = True"
| "active_on Recv Rc_woken = True"
| "active_on Send_begin (Sd_finish k) = True"
| "active_on Send_begin (De_notify b v) = b"
| "active_on Send_begin (Sd_woken v) = True"
| "active_on Send_end (De_notify b v) = (\<not> b)"
| "active_on _ _ = False"

text \<open>The position of a sender's element: how many elements had been enqueued with it.\<close>

fun pos_ok :: "nat \<Rightarrow> nat \<Rightarrow> nat \<Rightarrow> 'v ch_pc \<Rightarrow> bool" where
  "pos_ok N e d (Sd_enqueued k) \<longleftrightarrow> k \<le> e"
| "pos_ok N e d (Sd_check k) \<longleftrightarrow> k \<le> e"
| "pos_ok N e d (Sd_end_wait k) \<longleftrightarrow> k \<le> e"
| "pos_ok N e d (Sd_finish k) \<longleftrightarrow> k \<le> d + N"
| "pos_ok N e d _ \<longleftrightarrow> True"

abbreviation sleepers :: "ch_cv \<Rightarrow> 'v channel \<Rightarrow> nat" where
  "sleepers c s \<equiv> number (asleep_on c) (ch_pcs s)"

abbreviation actives :: "ch_cv \<Rightarrow> 'v channel \<Rightarrow> nat" where
  "actives c s \<equiv> number (active_on c) (ch_pcs s)"

definition data_inv :: "nat \<Rightarrow> 'v channel \<Rightarrow> bool" where
  "data_inv N s \<longleftrightarrow> enqueued s = dequeued s @ m_queue s
     \<and> length (m_queue s) \<le> Suc N
     \<and> (\<not> m_is_try_send_done s \<longrightarrow> is_full N s)
     \<and> (is_full N s \<longrightarrow> \<not> m_is_send_done s \<or> \<not> m_is_try_send_done s)
     \<and> (m_is_send_done s \<or> m_is_try_send_done s)
     \<and> set (failed s) \<subseteq> {Not_try_ready, Not_own_element}"

definition thread_inv :: "nat \<Rightarrow> 'v channel \<Rightarrow> bool" where
  "thread_inv N s \<longleftrightarrow> number sending (ch_pcs s) = of_bool (\<not> m_is_send_done s)
     \<and> (m_is_recv_ready s \<longrightarrow> 0 < number receiving (ch_pcs s))
     \<and> (\<forall>t < length (ch_pcs s). pos_ok N (length (enqueued s)) (length (dequeued s)) (ch_pcs s ! t))"

definition wake_inv :: "nat \<Rightarrow> 'v channel \<Rightarrow> bool" where
  "wake_inv N s \<longleftrightarrow>
     (sleepers Recv s = 0 \<or> length (m_queue s) \<le> actives Recv s)
     \<and> (sleepers Send_begin s = 0 \<or> \<not> send_guard N s \<or> 0 < actives Send_begin s)
     \<and> (sleepers Send_end s = 0 \<or> is_full N s \<or> 0 < actives Send_end s)"

definition channel_inv :: "nat \<Rightarrow> 'v channel \<Rightarrow> bool" where
  "channel_inv N s \<longleftrightarrow> data_inv N s \<and> thread_inv N s \<and> wake_inv N s"

lemma channel_inv_init: "channel_inv N (channel_init n)"
  by (simp add: channel_inv_def data_inv_def thread_inv_def wake_inv_def channel_init_def
      number_replicate is_full_def)

lemma ch_assert_fields [simp]:
  "m_queue (ch_assert a b s) = m_queue s" "m_is_send_done (ch_assert a b s) = m_is_send_done s"
  "m_is_try_send_done (ch_assert a b s) = m_is_try_send_done s"
  "m_is_recv_ready (ch_assert a b s) = m_is_recv_ready s"
  "m_is_try_send_ready (ch_assert a b s) = m_is_try_send_ready s"
  "m_is_try_recv_ready (ch_assert a b s) = m_is_try_recv_ready s"
  "ch_pcs (ch_assert a b s) = ch_pcs s"
  "enqueued (ch_assert a b s) = enqueued s" "dequeued (ch_assert a b s) = dequeued s"
  "failed (ch_assert a b s) = (if b then failed s else a # failed s)"
  by (simp_all add: ch_assert_def)

lemma ch_goto_fields [simp]:
  "m_queue (ch_goto t p s) = m_queue s" "m_is_send_done (ch_goto t p s) = m_is_send_done s"
  "m_is_try_send_done (ch_goto t p s) = m_is_try_send_done s"
  "m_is_recv_ready (ch_goto t p s) = m_is_recv_ready s"
  "ch_pcs (ch_goto t p s) = (ch_pcs s)[t := p]"
  "enqueued (ch_goto t p s) = enqueued s" "dequeued (ch_goto t p s) = dequeued s"
  "failed (ch_goto t p s) = failed s"
  by (simp_all add: ch_goto_def)

lemma enqueue_fields [simp]:
  "m_queue (enqueue t v s) = m_queue s @ [(t, v)]" "enqueued (enqueue t v s) = enqueued s @ [(t, v)]"
  "m_is_send_done (enqueue t v s) = m_is_send_done s"
  "m_is_try_send_done (enqueue t v s) = m_is_try_send_done s"
  "m_is_recv_ready (enqueue t v s) = m_is_recv_ready s"
  "ch_pcs (enqueue t v s) = ch_pcs s" "dequeued (enqueue t v s) = dequeued s" "failed (enqueue t v s) = failed s"
  by (simp_all add: enqueue_def)

text \<open>How every count changes when thread \<open>t\<close> goes from \<open>p\<close> to \<open>q\<close>.\<close>

lemma ch_counts:
  assumes "t < length ps" "ps ! t = p"
  shows "number sending (ps[t := q]) + of_bool (sending p) = number sending ps + of_bool (sending q)"
    "number receiving (ps[t := q]) + of_bool (receiving p) = number receiving ps + of_bool (receiving q)"
    "number (asleep_on c) (ps[t := q]) + of_bool (asleep_on c p) = number (asleep_on c) ps + of_bool (asleep_on c q)"
    "number (active_on c) (ps[t := q]) + of_bool (active_on c p) = number (active_on c) ps + of_bool (active_on c q)"
  unfolding assms(2)[symmetric] by (rule number_move[OF assms(1)])+

lemma pos_ok_mono: "pos_ok N e d p \<Longrightarrow> e \<le> e' \<Longrightarrow> d \<le> d' \<Longrightarrow> pos_ok N e' d' p"
  by (cases p) auto

lemma pos_ok_move:
  assumes "\<forall>t < length ps. pos_ok N e d (ps ! t)" "e \<le> e'" "d \<le> d'" "pos_ok N e' d' q"
  shows "\<forall>u < length (ps[t := q]). pos_ok N e' d' (ps[t := q] ! u)"
proof (intro allI impI)
  fix u assume "u < length (ps[t := q])"
  with assms pos_ok_mono[of N e d "ps ! u" e' d'] show "pos_ok N e' d' (ps[t := q] ! u)"
    by (cases "u = t") auto
qed

lemma wake_invD:
  assumes "channel_inv N s"
  shows "sleepers Recv s = 0 \<or> length (m_queue s) \<le> actives Recv s"
    "sleepers Send_begin s = 0 \<or> \<not> send_guard N s \<or> 0 < actives Send_begin s"
    "sleepers Send_end s = 0 \<or> is_full N s \<or> 0 < actives Send_end s"
  using assms by (simp_all add: channel_inv_def wake_inv_def)

lemma channel_inv_same:
  assumes "channel_inv N s"
    and "m_queue s' = m_queue s" "enqueued s' = enqueued s" "dequeued s' = dequeued s"
      "m_is_send_done s' = m_is_send_done s" "m_is_try_send_done s' = m_is_try_send_done s"
      "m_is_recv_ready s' = m_is_recv_ready s" "ch_pcs s' = ch_pcs s"
      "set (failed s') \<subseteq> insert Not_try_ready (set (failed s))"
  shows "channel_inv N s'"
proof -
  have f: "is_full N s' = is_full N s" by (simp add: is_full_def assms)
  have "data_inv N s'" using assms(1,9) by (auto simp: channel_inv_def data_inv_def assms(2-7) f)
  moreover have "thread_inv N s'" using assms(1) unfolding channel_inv_def thread_inv_def assms(2-8) by blast
  moreover have "wake_inv N s'"
    using assms(1) unfolding channel_inv_def wake_inv_def send_guard_def assms(2-8) f
    by (elim conjE, intro conjI)
  ultimately show ?thesis by (simp add: channel_inv_def)
qed

subsection \<open>Send\<close>

lemma send_begin_inv:
  assumes inv: "channel_inv N s" and t: "t < length (ch_pcs s)" "ch_pcs s ! t = p" "p = Ch_idle \<or> p = Sd_woken v"
  shows "channel_inv N (send_begin N t v s)"
proof (cases "send_guard N s")
  case True
  let ?k = "Suc (length (enqueued s))"
  let ?s = "send_begin N t v s"
  have s: "m_queue ?s = m_queue s @ [(t, v)]" "enqueued ?s = enqueued s @ [(t, v)]" "dequeued ?s = dequeued s"
      "\<not> m_is_send_done ?s" "m_is_try_send_done ?s = m_is_try_send_done s" "m_is_recv_ready ?s = m_is_recv_ready s"
      "ch_pcs ?s = (ch_pcs s)[t := Sd_enqueued ?k]" "set (failed ?s) \<subseteq> insert Not_try_ready (set (failed s))"
    using True by (auto simp: send_begin_def Let_def)
  note c = ch_counts[OF t(1,2), where q = "Sd_enqueued ?k"]
  have g: "m_is_send_done s" "m_is_try_send_done s" "length (m_queue s) \<le> N"
    using True by (auto simp: send_guard_def is_full_def)
  have "data_inv N ?s" using inv g s by (auto simp: channel_inv_def data_inv_def)
  moreover have "thread_inv N ?s"
    using inv g t(3) c(1,2) pos_ok_move[of "ch_pcs s" N "length (enqueued s)" "length (dequeued s)" ?k
        "length (dequeued s)" "Sd_enqueued ?k" t]
    unfolding channel_inv_def thread_inv_def s by (auto simp: s)
  moreover have "wake_inv N ?s"
    using inv t(3) c(3,4)[of Recv] c(3,4)[of Send_end] number_zero[of "asleep_on Send_end" "ch_pcs s"]
    unfolding channel_inv_def wake_inv_def s send_guard_def is_full_def by (auto simp: s)
  ultimately show ?thesis by (simp add: channel_inv_def)
next
  case False
  then have s: "send_begin N t v s = ch_goto t (Sd_wait v) s" by (simp add: send_begin_def)
  note c = ch_counts[OF t(1,2), where q = "Sd_wait v"]
  have "wake_inv N (ch_goto t (Sd_wait v) s)"
    using inv t(3) False c(3,4)[of Recv] c(3,4)[of Send_end]
    unfolding channel_inv_def wake_inv_def by (auto simp: send_guard_def is_full_def)
  moreover have "thread_inv N (ch_goto t (Sd_wait v) s)"
    using inv t(3) c(1,2) pos_ok_move[of "ch_pcs s" N _ _ _ _ "Sd_wait v" t]
    unfolding channel_inv_def thread_inv_def by auto
  ultimately show ?thesis using inv unfolding s channel_inv_def by (simp add: data_inv_def is_full_def)
qed

lemma send_end_inv:
  assumes inv: "channel_inv N s" and t: "t < length (ch_pcs s)" "ch_pcs s ! t = Sd_check k"
  shows "channel_inv N (send_end N t k s)"
proof -
  have sd: "\<not> m_is_send_done s"
    using inv number_pos[of t "ch_pcs s" sending] t by (auto simp: channel_inv_def thread_inv_def)
  have k: "k \<le> length (enqueued s)" using inv t by (auto simp: channel_inv_def thread_inv_def)
  show ?thesis
  proof (cases "is_full N s")
    case True
    then have s: "send_end N t k s = ch_goto t (Sd_end_wait k) s" by (simp add: send_end_def)
    note c = ch_counts[OF t, where q = "Sd_end_wait k"]
    have "wake_inv N (ch_goto t (Sd_end_wait k) s)"
      using inv True c(3,4)[of Recv] c(3,4)[of Send_begin]
      unfolding channel_inv_def wake_inv_def by (auto simp: send_guard_def is_full_def)
    moreover have "thread_inv N (ch_goto t (Sd_end_wait k) s)"
      using inv k c(1,2) pos_ok_move[of "ch_pcs s" N _ _ _ _ "Sd_end_wait k" t]
      unfolding channel_inv_def thread_inv_def by auto
    ultimately show ?thesis using inv unfolding s channel_inv_def by (simp add: data_inv_def is_full_def)
  next
    case False
    let ?s = "send_end N t k s"
    have s: "m_queue ?s = m_queue s" "enqueued ?s = enqueued s" "dequeued ?s = dequeued s" "m_is_send_done ?s"
        "m_is_try_send_done ?s = m_is_try_send_done s" "m_is_recv_ready ?s = m_is_recv_ready s"
        "ch_pcs ?s = (ch_pcs s)[t := Sd_finish k]" "failed ?s = failed s"
      using False by (simp_all add: send_end_def)
    note c = ch_counts[OF t, where q = "Sd_finish k"]
    have "data_inv N ?s" using inv False s sd by (auto simp: channel_inv_def data_inv_def is_full_def)
    moreover have "k \<le> length (dequeued s) + N"
      using inv False k by (simp add: channel_inv_def data_inv_def is_full_def)
    then have "thread_inv N ?s"
      using inv sd c(1,2) pos_ok_move[of "ch_pcs s" N _ _ _ _ "Sd_finish k" t]
      unfolding channel_inv_def thread_inv_def s by (auto simp: s)
    moreover have "wake_inv N ?s"
      using inv c(3,4)[of Recv] c(3,4)[of Send_begin] c(3,4)[of Send_end]
      unfolding channel_inv_def wake_inv_def s by (auto simp: s is_full_def)
    ultimately show ?thesis by (simp add: channel_inv_def)
  qed
qed

subsection \<open>Receive\<close>

lemma take_front_fields:
  assumes "data_inv N s" "m_queue s \<noteq> []"
  shows "m_queue (take_front N t s) = tl (m_queue s)" "enqueued (take_front N t s) = enqueued s"
    "dequeued (take_front N t s) = dequeued s @ [hd (m_queue s)]"
    "m_is_send_done (take_front N t s) = m_is_send_done s"
    "m_is_recv_ready (take_front N t s) = m_is_recv_ready s" "ch_pcs (take_front N t s) = ch_pcs s"
    "set (failed (take_front N t s)) \<subseteq> insert Not_own_element (set (failed s))"
proof -
  show "m_queue (take_front N t s) = tl (m_queue s)" "enqueued (take_front N t s) = enqueued s"
    "dequeued (take_front N t s) = dequeued s @ [hd (m_queue s)]"
    "m_is_send_done (take_front N t s) = m_is_send_done s"
    "m_is_recv_ready (take_front N t s) = m_is_recv_ready s" "ch_pcs (take_front N t s) = ch_pcs s"
    by (simp_all add: take_front_def Let_def dequeue_def)
  have "\<not> is_full N (dequeue s')" if "m_queue s' = m_queue s" for s' :: "'a channel"
    using assms that by (auto simp: is_full_def dequeue_def data_inv_def)
  then show "set (failed (take_front N t s)) \<subseteq> insert Not_own_element (set (failed s))"
    using assms(1) by (auto simp: take_front_def Let_def data_inv_def) (auto simp: dequeue_def split: if_splits)
qed

lemma sleep_sending: "asleep_on Send_end p \<Longrightarrow> sending p"
  by (cases p) auto

text \<open>What both ways of receiving do to the queue, the flags and the threads.\<close>

lemma received_inv:
  assumes inv: "channel_inv N s" and ne: "m_queue s \<noteq> []"
    and t: "t < length (ch_pcs s)" "ch_pcs s ! t = p" "p = Ch_idle \<or> p = Rc_woken"
    and s': "m_queue s' = tl (m_queue s)" "enqueued s' = enqueued s" "dequeued s' = dequeued s @ [hd (m_queue s)]"
      "m_is_send_done s' = m_is_send_done s" "m_is_try_send_done s'"
      "m_is_recv_ready s' \<longrightarrow> m_is_recv_ready s \<and> p = Ch_idle"
      "ch_pcs s' = (ch_pcs s)[t := De_notify (m_is_send_done s) v]"
      "set (failed s') \<subseteq> {Not_own_element, Not_try_ready} \<union> set (failed s)"
  shows "channel_inv N s'"
proof -
  let ?q = "De_notify (m_is_send_done s) v"
  note c = ch_counts[OF t(1,2), where q = ?q]
  have l: "length (m_queue s) = Suc (length (m_queue s'))" using ne s'(1) by simp
  obtain x xs where x: "m_queue s = x # xs" using ne by (cases "m_queue s") auto
  have d: "data_inv N s" using inv by (simp add: channel_inv_def)
  have "data_inv N s'"
    unfolding data_inv_def is_full_def
  proof (intro conjI)
    show "enqueued s' = dequeued s' @ m_queue s'" using d by (simp add: data_inv_def s' x)
    show "set (failed s') \<subseteq> {Not_try_ready, Not_own_element}" using d s'(8) by (auto simp: data_inv_def)
  qed (use d l s'(4,5) in \<open>auto simp: data_inv_def is_full_def\<close>)
  moreover have "thread_inv N s'"
    unfolding thread_inv_def
  proof (intro conjI)
    have i: "thread_inv N s" using inv by (simp add: channel_inv_def)
    show "number sending (ch_pcs s') = of_bool (\<not> m_is_send_done s')"
      using i t(3) c(1) unfolding s'(4,7) by (auto simp: thread_inv_def)
    show "m_is_recv_ready s' \<longrightarrow> 0 < number receiving (ch_pcs s')"
      using i s'(6) c(2) unfolding s'(7) by (auto simp: thread_inv_def)
    have "\<forall>t < length (ch_pcs s). pos_ok N (length (enqueued s)) (length (dequeued s)) (ch_pcs s ! t)"
      using i by (simp add: thread_inv_def)
    from pos_ok_move[OF this, of "length (enqueued s)" "Suc (length (dequeued s))" ?q t]
    show "\<forall>t < length (ch_pcs s'). pos_ok N (length (enqueued s')) (length (dequeued s')) (ch_pcs s' ! t)"
      unfolding s'(2,3,7) by simp
  qed
  moreover have "wake_inv N s'"
    unfolding wake_inv_def
  proof (intro conjI)
    show "sleepers Recv s' = 0 \<or> length (m_queue s') \<le> actives Recv s'"
      using wake_invD(1)[OF inv] c(3,4)[of Recv] t(3) l unfolding s'(7) by auto
    show "sleepers Send_begin s' = 0 \<or> \<not> send_guard N s' \<or> 0 < actives Send_begin s'"
      using c(4)[of Send_begin] t(3) unfolding s'(7) by (auto simp: send_guard_def s'(4))
    show "sleepers Send_end s' = 0 \<or> is_full N s' \<or> 0 < actives Send_end s'"
    proof (cases "m_is_send_done s")
      case True
      then have "number sending (ch_pcs s) = 0" using inv by (simp add: channel_inv_def thread_inv_def)
      then have "sleepers Send_end s = 0"
        using sleep_sending unfolding number_zero by blast
      with c(3)[of Send_end] show ?thesis unfolding s'(7) by auto
    next
      case False
      with c(4)[of Send_end] t(3) show ?thesis unfolding s'(7) by auto
    qed
  qed
  ultimately show ?thesis by (simp add: channel_inv_def)
qed

lemma recv_sleep_inv:
  assumes inv: "channel_inv N s" and ne: "m_queue s = []"
    and t: "t < length (ch_pcs s)" "ch_pcs s ! t = p" "p = Ch_idle \<or> p = Rc_woken"
  shows "channel_inv N (ch_goto t Rc_wait (s\<lparr>m_is_recv_ready := r\<rparr>))"
proof -
  let ?s = "ch_goto t Rc_wait (s\<lparr>m_is_recv_ready := r\<rparr>)"
  note c = ch_counts[OF t(1,2), where q = Rc_wait]
  have "wake_inv N ?s"
    using inv t(3) ne c(3,4)[of Send_begin] c(3,4)[of Send_end]
    unfolding channel_inv_def wake_inv_def by (auto simp: send_guard_def is_full_def)
  moreover have "0 < number receiving ((ch_pcs s)[t := Rc_wait])"
    using number_pos[of t "(ch_pcs s)[t := Rc_wait]" receiving] t(1) by simp
  then have "thread_inv N ?s"
    using inv t(3) c(1) pos_ok_move[of "ch_pcs s" N _ _ _ _ Rc_wait t]
    unfolding channel_inv_def thread_inv_def by auto
  ultimately show ?thesis using inv unfolding channel_inv_def by (simp add: data_inv_def is_full_def)
qed

lemma recv_test_inv:
  assumes inv: "channel_inv N s" and t: "t < length (ch_pcs s)" "ch_pcs s ! t = p" "p = Ch_idle \<or> p = Rc_woken"
  shows "channel_inv N (recv_test N t (s\<lparr>m_is_recv_ready := r\<rparr>))"
proof (cases "m_queue s = []")
  case True
  with recv_sleep_inv[OF inv True t, of r] show ?thesis by (simp add: recv_test_def)
next
  case False
  let ?a = "ch_assert Not_try_ready (\<not> is_try_ready (s\<lparr>m_is_recv_ready := r\<rparr>)) (s\<lparr>m_is_recv_ready := r\<rparr>)"
  have "data_inv N ?a" using inv by (auto simp: channel_inv_def data_inv_def is_full_def)
  note f = take_front_fields[OF this, of t]
  have "channel_inv N (post_blocking_recv N t ?a)"
    using False f by (intro received_inv[OF inv False t, of _ "snd (hd (m_queue s))"])
      (auto simp: post_blocking_recv_def Let_def split: if_splits)
  with False show ?thesis by (simp add: recv_test_def)
qed

subsection \<open>The calls of select\<close>

lemma try_recv_inv:
  assumes inv: "channel_inv N s" and t: "t < length (ch_pcs s)" "ch_pcs s ! t = Ch_idle"
  shows "channel_inv N (snd (try_recv N t s))"
proof (cases "m_queue s = []")
  case True
  have "channel_inv N (s\<lparr>m_is_try_recv_ready := True\<rparr>)" by (rule channel_inv_same[OF inv]) auto
  with True show ?thesis by (simp add: try_recv_def Let_def)
next
  case False
  let ?a = "s\<lparr>m_is_try_recv_ready := True\<rparr>"
  have "data_inv N ?a" using inv by (auto simp: channel_inv_def data_inv_def is_full_def)
  note f = take_front_fields[OF this, of t]
  show ?thesis
    using False f by (intro received_inv[OF inv False t(1,2), of _ "snd (hd (m_queue s))"])
      (auto simp: try_recv_def Let_def)
qed

lemma try_send_inv:
  assumes inv: "channel_inv N s" and t: "t < length (ch_pcs s)" "ch_pcs s ! t = Ch_idle"
  shows "channel_inv N (snd (try_send N t v s))"
proof (cases "\<not> m_is_send_done s \<or> \<not> m_is_try_send_done s \<or> is_full N s
    \<or> (0 = N - length (m_queue s) \<and> \<not> m_is_recv_ready s)")
  case True
  let ?s = "snd (try_send N t v s)"
  have c: "?s = ch_assert Not_try_ready (\<not> is_try_ready (s\<lparr>m_is_try_send_ready := True\<rparr>))
      (s\<lparr>m_is_try_send_ready := True\<rparr>)"
    using True by (auto simp: try_send_def Let_def is_full_def)
  show ?thesis unfolding c by (rule channel_inv_same[OF inv]) auto
next
  case False
  let ?s = "snd (try_send N t v s)"
  have s: "m_queue ?s = m_queue s @ [(t, v)]" "enqueued ?s = enqueued s @ [(t, v)]" "dequeued ?s = dequeued s"
      "m_is_send_done ?s" "m_is_try_send_done ?s \<longleftrightarrow> length (m_queue s) < N"
      "m_is_recv_ready ?s = m_is_recv_ready s" "ch_pcs ?s = (ch_pcs s)[t := Ts_notify]"
      "set (failed ?s) \<subseteq> insert Not_try_ready (set (failed s))"
    using False by (auto simp: try_send_def Let_def is_full_def)
  note c = ch_counts[OF t, where q = Ts_notify]
  have g: "m_is_send_done s" "m_is_try_send_done s" "length (m_queue s) \<le> N"
    using False by (auto simp: is_full_def)
  have "data_inv N ?s" using inv g s by (auto simp: channel_inv_def data_inv_def is_full_def)
  moreover have "thread_inv N ?s"
    using inv g s(4) c(1,2) pos_ok_move[of "ch_pcs s" N "length (enqueued s)" "length (dequeued s)"
        "Suc (length (enqueued s))" "length (dequeued s)" Ts_notify t]
    unfolding channel_inv_def thread_inv_def s by (auto simp: s)
  moreover have "wake_inv N ?s"
    unfolding wake_inv_def
  proof (intro conjI)
    show "sleepers Recv ?s = 0 \<or> length (m_queue ?s) \<le> actives Recv ?s"
      using wake_invD(1)[OF inv] c(3,4)[of Recv] unfolding s(1,7) by auto
    show "sleepers Send_begin ?s = 0 \<or> \<not> send_guard N ?s \<or> 0 < actives Send_begin ?s"
      using wake_invD(2)[OF inv] g c(3,4)[of Send_begin] unfolding s(7)
      by (auto simp: send_guard_def is_full_def)
    have "number sending (ch_pcs s) = 0" using inv g by (simp add: channel_inv_def thread_inv_def)
    then have "sleepers Send_end s = 0" using sleep_sending unfolding number_zero by blast
    with c(3)[of Send_end] show "sleepers Send_end ?s = 0 \<or> is_full N ?s \<or> 0 < actives Send_end ?s"
      unfolding s(7) by auto
  qed
  ultimately show ?thesis by (simp add: channel_inv_def)
qed

subsection \<open>Waking up\<close>

lemma wake_facts:
  assumes "asleep_on c p"
  shows "sending (wake p) = sending p" "receiving (wake p) = receiving p" "\<not> asleep_on c' (wake p)"
    "asleep_on c' p \<longleftrightarrow> c' = c" "\<not> active_on c' p" "active_on c' (wake p) \<longleftrightarrow> c' = c \<and> c \<noteq> Send_end"
    "pos_ok N e d (wake p) = pos_ok N e d p"
  using assms by (cases c; cases p; cases c'; simp)+

lemma number_mono: "(\<And>p. P p \<Longrightarrow> Q p) \<Longrightarrow> number P ps \<le> number Q ps"
  by (induction ps) auto

lemma sleepers_end_le: "sleepers Send_end s \<le> number sending (ch_pcs s)"
  using sleep_sending by (rule number_mono)

text \<open>A sleeper is woken: nothing gets lost.\<close>

lemma wake_inv_wake:
  assumes inv: "thread_inv N s" and u: "u < length (ch_pcs s)" "asleep_on c (ch_pcs s ! u)"
    and others: "\<And>c'. c' \<noteq> c \<Longrightarrow> P c' s"
    and P: "P = (\<lambda>c s. case c of
        Recv \<Rightarrow> sleepers Recv s = 0 \<or> length (m_queue s) \<le> actives Recv s
      | Send_begin \<Rightarrow> sleepers Send_begin s = 0 \<or> \<not> send_guard N s \<or> 0 < actives Send_begin s
      | Send_end \<Rightarrow> sleepers Send_end s = 0 \<or> is_full N s \<or> 0 < actives Send_end s)"
    and most: "c = Recv \<Longrightarrow> length (m_queue s) \<le> Suc (actives Recv s)"
  shows "wake_inv N (ch_goto u (wake (ch_pcs s ! u)) s) \<and> thread_inv N (ch_goto u (wake (ch_pcs s ! u)) s)"
proof -
  let ?q = "wake (ch_pcs s ! u)" and ?s = "ch_goto u (wake (ch_pcs s ! u)) s"
  note f = wake_facts[OF u(2)]
  note n = ch_counts[OF u(1) refl, where q = ?q]
  have thr: "thread_inv N ?s"
    using inv n(1,2) pos_ok_move[of "ch_pcs s" N _ _ _ _ ?q u] u(1) f(1,2,7)
    unfolding thread_inv_def by auto
  have flags: "send_guard N ?s = send_guard N s" "is_full N ?s = is_full N s"
    by (simp_all add: send_guard_def is_full_def)
  have "P c' ?s" for c'
  proof (cases "c' = c")
    case False
    then have "sleepers c' ?s = sleepers c' s" "actives c' ?s = actives c' s"
      using n(3)[of c'] n(4)[of c'] False by (simp_all add: f)
    with others[OF False] show ?thesis unfolding P flags by (cases c') simp_all
  next
    case True
    show ?thesis
    proof (cases c)
      case Send_end
      have "Suc (sleepers Send_end ?s) = sleepers Send_end s" using n(3)[of Send_end] Send_end by (simp add: f)
      moreover have "sleepers Send_end s \<le> 1"
        using sleepers_end_le[of s] inv by (cases "m_is_send_done s") (simp_all add: thread_inv_def)
      ultimately show ?thesis using True Send_end unfolding P by simp
    next
      case Recv
      then have "actives Recv ?s = Suc (actives Recv s)" using n(4)[of Recv] by (simp add: f)
      with most[OF Recv] True Recv show ?thesis unfolding P by simp
    next
      case Send_begin
      then have "0 < actives Send_begin ?s" using n(4)[of Send_begin] by (simp add: f)
      with True Send_begin show ?thesis unfolding P by simp
    qed
  qed
  from this[of Recv] this[of Send_begin] this[of Send_end] thr show ?thesis unfolding P wake_inv_def by simp
qed

lemma channel_inv_thread:
  assumes "channel_inv N s" "thread_inv N (s\<lparr>ch_pcs := ps\<rparr>)" "wake_inv N (s\<lparr>ch_pcs := ps\<rparr>)"
  shows "channel_inv N (s\<lparr>ch_pcs := ps\<rparr>)"
  using assms by (simp add: channel_inv_def data_inv_def is_full_def)

lemma notify_inv:
  fixes s :: "'v channel"
  assumes inv: "channel_inv N s" and t: "t < length (ch_pcs s)" "ch_pcs s ! t = p"
    and q: "sending q = sending p" "receiving q = receiving p" "\<And>c'. \<not> asleep_on c' p" "\<And>c'. \<not> asleep_on c' q"
      "active_on c p" "\<not> active_on c q" "\<And>c'. c' \<noteq> c \<Longrightarrow> active_on c' q = active_on c' p"
      "\<And>e d. pos_ok N e d p \<Longrightarrow> pos_ok N e d q"
    and s': "ch_notify c w (ch_goto t q s) = Some s'"
  shows "channel_inv N s'"
proof -
  let ?g = "ch_goto t q s"
  note n = ch_counts[OF t, where q = q]
  have thr: "thread_inv N ?g"
    using inv n(1,2) q(1,2,8) t pos_ok_move[of "ch_pcs s" N _ _ _ _ q t]
    unfolding channel_inv_def thread_inv_def by auto
  have same: "sleepers c' ?g = sleepers c' s" "c' \<noteq> c \<Longrightarrow> actives c' ?g = actives c' s" for c'
    using n(3)[of c'] n(4)[of c'] q(3,4)[of c'] q(7)[of c'] by simp_all
  have less: "Suc (actives c ?g) = actives c s" using n(4)[of c] q(5,6) by simp
  have flags: "send_guard N ?g = send_guard N s" "is_full N ?g = is_full N s"
    by (simp_all add: send_guard_def is_full_def)
  define P where "P = (\<lambda>c (s :: 'v channel). case c of
        Recv \<Rightarrow> sleepers Recv s = 0 \<or> length (m_queue s) \<le> actives Recv s
      | Send_begin \<Rightarrow> sleepers Send_begin s = 0 \<or> \<not> send_guard N s \<or> 0 < actives Send_begin s
      | Send_end \<Rightarrow> sleepers Send_end s = 0 \<or> is_full N s \<or> 0 < actives Send_end s)"
  have others: "P c' ?g" if "c' \<noteq> c" for c'
    using wake_invD[OF inv] same(1)[of c'] same(2)[OF that] unfolding P_def flags by (cases c') simp_all
  show ?thesis
  proof (cases w)
    case None
    then have "sleepers c ?g = 0" "s' = ?g" using s' by (auto simp: ch_notify_def split: if_splits)
    then have "P c' ?g" for c' using others by (cases "c' = c") (auto simp: P_def split: ch_cv.splits)
    from this[of Recv] this[of Send_begin] this[of Send_end]
    have "wake_inv N ?g" unfolding P_def wake_inv_def by simp
    with thr inv \<open>s' = ?g\<close> show ?thesis by (simp add: channel_inv_def data_inv_def is_full_def)
  next
    case (Some u)
    then have u: "u < length (ch_pcs ?g)" "asleep_on c (ch_pcs ?g ! u)"
        "s' = ch_goto u (wake (ch_pcs ?g ! u)) ?g"
      using s' by (auto simp: ch_notify_def split: if_splits)
    have "length (m_queue ?g) \<le> Suc (actives Recv ?g)" if "c = Recv"
    proof -
      have "0 < sleepers Recv s" using number_pos[of u "ch_pcs ?g" "asleep_on c"] u(1,2) same(1)[of c] that by simp
      then show ?thesis using wake_invD(1)[OF inv] less that by simp
    qed
    from wake_inv_wake[OF thr u(1,2) others P_def this]
    have "wake_inv N s' \<and> thread_inv N s'" unfolding u(3) by blast
    moreover have "data_inv N s'" using inv unfolding u(3) by (simp add: channel_inv_def data_inv_def is_full_def)
    ultimately show ?thesis by (simp add: channel_inv_def)
  qed
qed

lemma spurious_inv:
  assumes inv: "channel_inv N s" and t: "t < length (ch_pcs s)" "asleep_on c (ch_pcs s ! t)"
  shows "channel_inv N (ch_goto t (wake (ch_pcs s ! t)) s)"
proof -
  have thr: "thread_inv N s" using inv by (simp add: channel_inv_def)
  have "c = Recv \<Longrightarrow> length (m_queue s) \<le> Suc (actives Recv s)"
    using wake_invD(1)[OF inv] number_pos[of t "ch_pcs s" "asleep_on c"] t by auto
  moreover have "(case c' of
        Recv \<Rightarrow> sleepers Recv s = 0 \<or> length (m_queue s) \<le> actives Recv s
      | Send_begin \<Rightarrow> sleepers Send_begin s = 0 \<or> \<not> send_guard N s \<or> 0 < actives Send_begin s
      | Send_end \<Rightarrow> sleepers Send_end s = 0 \<or> is_full N s \<or> 0 < actives Send_end s)" for c'
    using wake_invD[OF inv] by (cases c') simp_all
  ultimately have "wake_inv N (ch_goto t (wake (ch_pcs s ! t)) s) \<and> thread_inv N (ch_goto t (wake (ch_pcs s ! t)) s)"
    using wake_inv_wake[OF thr t _ refl] by blast
  with inv show ?thesis by (simp add: channel_inv_def data_inv_def is_full_def)
qed

lemma channel_inv_step:
  assumes "channel_inv N s" "channel_step N e s = Some s'"
  shows "channel_inv N s'"
proof (cases e)
  case (Ch_retest t)
  with assms(2) have t: "t < length (ch_pcs s)" by (auto split: if_splits)
  have "channel_inv N (recv_test N t s)" if "ch_pcs s ! t = Rc_woken"
    using recv_test_inv[OF assms(1) t that, of "m_is_recv_ready s"] by simp
  with Ch_retest assms t send_begin_inv[OF assms(1) t] send_end_inv[OF assms(1) t] show ?thesis
    by (auto split: ch_pc.splits)
next
  case (Ch_notify t w)
  with assms(2) have t: "t < length (ch_pcs s)" by (auto split: if_splits)
  note step = notify_inv[OF assms(1) t refl]
  show ?thesis
  proof (cases "ch_pcs s ! t")
    case (Sd_enqueued k)
    with Ch_notify assms(2) t show ?thesis by (intro step[of "Sd_check k" Recv w]) (auto elim: active_on.elims)
  next
    case (Sd_finish k)
    with Ch_notify assms(2) t show ?thesis by (intro step[of Ch_idle Send_begin w]) (auto elim: active_on.elims)
  next
    case (De_notify b v)
    with Ch_notify assms(2) t show ?thesis
      by (intro step[of Ch_idle "if b then Send_begin else Send_end" w]) (auto elim: active_on.elims split: if_splits)
  next
    case Ts_notify
    with Ch_notify assms(2) t show ?thesis by (intro step[of Ch_idle Recv w]) (auto elim: active_on.elims)
  qed (use Ch_notify assms(2) t in auto)
next
  case (Ch_spurious t)
  with assms show ?thesis using spurious_inv by (auto simp: asleep_def split: if_splits)
next
  case (Ch_recv t)
  with assms recv_test_inv[OF assms(1), of t Ch_idle True] show ?thesis
    by (auto simp: pre_blocking_recv_def split: if_splits)
next
  case (Ch_send t v)
  with assms send_begin_inv[OF assms(1), of t Ch_idle v] show ?thesis by (auto split: if_splits)
qed (use assms try_send_inv try_recv_inv in \<open>auto split: if_splits\<close>)

interpretation channel: safety_system "channel_step N" "channel_init threads" "channel_inv N" for N threads
  by unfold_locales (auto intro: channel_inv_init channel_inv_step)

section \<open>Properties of the channel\<close>

text \<open>
  C12. A channel of size \<open>N\<close> is a FIFO queue: the elements received are a prefix of the elements sent, in
  order; the queue never holds more than \<open>N + 1\<close> elements; when the \<open>k\<close>th \<open>send\<close> is about to return, at least
  \<open>k - N\<close> elements have been received, so on a synchronous channel (\<open>N = 0\<close>) its own element has; and the
  only assertions that can ever fail are the two that concern both ends used by \<open>select\<close> and a thread
  that receives its own element.
\<close>

theorem channel_fifo_bounded:
  assumes "runs (channel_step N) es (channel_init threads) = Some s"
  shows "enqueued s = dequeued s @ m_queue s \<and> length (m_queue s) \<le> N + 1
    \<and> (\<forall>t k. t < length (ch_pcs s) \<and> ch_pcs s ! t = Sd_finish k \<longrightarrow>
          take (k - N) (dequeued s) = take (k - N) (enqueued s) \<and> k - N \<le> length (dequeued s))
    \<and> set (failed s) \<subseteq> {Not_try_ready, Not_own_element}"
proof -
  note inv = channel.inv_reachable[OF assms]
  then have d: "enqueued s = dequeued s @ m_queue s" "length (m_queue s) \<le> N + 1"
      "set (failed s) \<subseteq> {Not_try_ready, Not_own_element}"
    by (simp_all add: channel_inv_def data_inv_def)
  have "k \<le> length (dequeued s) + N" if "t < length (ch_pcs s)" "ch_pcs s ! t = Sd_finish k" for t k
  proof -
    have "pos_ok N (length (enqueued s)) (length (dequeued s)) (ch_pcs s ! t)"
      using inv that(1) by (simp add: channel_inv_def thread_inv_def)
    with that(2) show ?thesis by simp
  qed
  with d show ?thesis by fastforce
qed

theorem channel_fifo_bounded_witness:
  "\<exists>s. runs (channel_step 0) [Ch_send 0 (7::nat), Ch_notify 0 None, Ch_recv 1, Ch_notify 1 None, Ch_retest 0]
        (channel_init 2) = Some s \<and> ch_pcs s ! 0 = Sd_finish 1 \<and> length (dequeued s) \<ge> 1"
proof -
  let ?es = "[Ch_send 0 (7::nat), Ch_notify 0 None, Ch_recv 1, Ch_notify 1 None, Ch_retest 0]"
  have "map_option ch_pcs (runs (channel_step 0) ?es (channel_init 2)) = Some [Sd_finish 1, Ch_idle]"
    by code_simp
  then obtain s where s: "runs (channel_step 0) ?es (channel_init 2) = Some s"
      "ch_pcs s = [Sd_finish 1, Ch_idle]" by auto
  have "0 < length (ch_pcs s) \<and> ch_pcs s ! 0 = Sd_finish 1" using s(2) by simp
  with channel_fifo_bounded[OF s(1)] have "1 - 0 \<le> length (dequeued s)" by blast
  with s show ?thesis by auto
qed

text \<open>Nothing happens any more unless somebody makes a new call.\<close>

definition ch_quiescent :: "'v channel \<Rightarrow> bool" where
  "ch_quiescent s \<longleftrightarrow> list_all (\<lambda>p. p = Ch_idle \<or> asleep p) (ch_pcs s)"

lemma quiescent_actives: "ch_quiescent s \<Longrightarrow> actives c s = 0"
proof -
  assume q: "ch_quiescent s"
  have "\<not> active_on c p" if "p = Ch_idle \<or> asleep p" for p :: "'a ch_pc"
    using that by (cases c; cases p) (auto simp: asleep_def)
  with q show "actives c s = 0" unfolding number_zero ch_quiescent_def list_all_length by blast
qed

text \<open>
  C13. No wake-up is lost on any of the three condition variables: when every thread is idle or asleep,
  receivers sleep only on an empty queue, senders sleep only on a full one, and so a sender and a
  receiver never block at the same time.
\<close>

theorem channel_no_lost_wakeup:
  assumes "runs (channel_step N) es (channel_init threads) = Some s" "ch_quiescent s"
  shows "(0 < number (asleep_on Recv) (ch_pcs s) \<longrightarrow> m_queue s = [])
    \<and> (0 < number (asleep_on Send_begin) (ch_pcs s) + number (asleep_on Send_end) (ch_pcs s) \<longrightarrow> is_full N s)
    \<and> (number (asleep_on Recv) (ch_pcs s) = 0
        \<or> number (asleep_on Send_begin) (ch_pcs s) + number (asleep_on Send_end) (ch_pcs s) = 0)"
proof -
  note inv = channel.inv_reachable[OF assms(1)]
  note act = quiescent_actives[OF assms(2)] and w = wake_invD[OF inv]
  have recv: "m_queue s = []" if "0 < sleepers Recv s" using w(1) act[of Recv] that by simp
  have end_full: "is_full N s" if "0 < sleepers Send_end s" using w(3) act[of Send_end] that by simp
  have begin_full: "is_full N s" if "0 < sleepers Send_begin s"
  proof (cases "m_is_send_done s")
    case True
    then have "\<not> m_is_try_send_done s \<or> is_full N s"
      using w(2) act[of Send_begin] that by (auto simp: send_guard_def)
    then show ?thesis using inv unfolding channel_inv_def data_inv_def by blast
  next
    case False
    then have "0 < number sending (ch_pcs s)" using inv by (simp add: channel_inv_def thread_inv_def)
    then obtain t where t: "t < length (ch_pcs s)" "sending (ch_pcs s ! t)"
      using number_zero[of sending "ch_pcs s"] by auto
    with assms(2) have "asleep_on Send_end (ch_pcs s ! t)"
      by (cases "ch_pcs s ! t") (auto simp: ch_quiescent_def list_all_length asleep_def)
    with number_pos[of t "ch_pcs s" "asleep_on Send_end"] t(1) end_full show ?thesis by simp
  qed
  have "\<not> is_full N s" if "m_queue s = []" using that by (simp add: is_full_def)
  then have one: "sleepers Recv s = 0 \<or> sleepers Send_begin s + sleepers Send_end s = 0"
    using recv end_full begin_full by (cases "sleepers Recv s = 0") auto
  have "is_full N s" if "0 < sleepers Send_begin s + sleepers Send_end s"
    using that end_full begin_full by (cases "sleepers Send_begin s = 0") simp_all
  with recv one show ?thesis by blast
qed

theorem channel_no_lost_wakeup_witness:
  "\<exists>s. runs (channel_step 0) [Ch_recv 0, Ch_recv 1] (channel_init 3) = Some (s :: nat channel)
     \<and> number (asleep_on Recv) (ch_pcs s) = 2 \<and> m_queue s = []"
proof -
  let ?es = "[Ch_recv 0, Ch_recv 1] :: nat ch_event list"
  have "map_option ch_pcs (runs (channel_step 0) ?es (channel_init 3)) = Some [Rc_wait, Rc_wait, Ch_idle]"
    by code_simp
  then obtain s where s: "runs (channel_step 0) ?es (channel_init 3) = Some s"
      "ch_pcs s = [Rc_wait, Rc_wait, Ch_idle]" by auto
  then have "ch_quiescent s" by (simp add: ch_quiescent_def asleep_def)
  with channel_no_lost_wakeup[OF s(1)] s show ?thesis by simp
qed

text \<open>
  \<open>m_is_recv_ready\<close> is one flag for all receivers.  Two receivers block on a synchronous channel and
  one of them is served: the flag is reset although the other still waits.  If only a \<open>select\<close> with a send case follows, each of its
  \<open>try_send\<close> is refused, any number of times and with any value, with an empty queue and a receiver waiting
  for it.  (On a channel with a buffer the \<open>try_send\<close> would succeed.)
\<close>

theorem try_send_ignores_waiting_receiver:
  "\<exists>s. runs (channel_step 0) ([Ch_recv 0, Ch_recv 1, Ch_send 2 (7::nat), Ch_notify 2 (Some 0), Ch_retest 0,
          Ch_notify 0 None, Ch_retest 2, Ch_notify 2 None] @ map (Ch_try_send 3) vs) (channel_init 4) = Some s
     \<and> ch_quiescent s \<and> ch_pcs s ! 1 = Rc_wait \<and> m_queue s = [] \<and> enqueued s = [(2, 7)]"
proof -
  let ?es = "[Ch_recv 0, Ch_recv 1, Ch_send 2 (7::nat), Ch_notify 2 (Some 0), Ch_retest 0,
          Ch_notify 0 None, Ch_retest 2, Ch_notify 2 None]"
  let ?ok = "\<lambda>s. ch_pcs s = [Ch_idle, Rc_wait, Ch_idle, Ch_idle] \<and> m_queue s = [] \<and> enqueued s = [(2, 7::nat)]
      \<and> \<not> m_is_recv_ready s"
  have "map_option (\<lambda>s. (ch_pcs s, m_queue s, enqueued s, m_is_recv_ready s)) (runs (channel_step 0) ?es (channel_init 4))
      = Some ([Ch_idle, Rc_wait, Ch_idle, Ch_idle], [], [(2, 7)], False)"
    by code_simp
  then obtain s0 where s0: "runs (channel_step 0) ?es (channel_init 4) = Some s0" "?ok s0" by auto
  have "\<exists>s. runs (channel_step 0) (map (Ch_try_send 3) vs) s0 = Some s \<and> ?ok s"
    using s0(2)
  proof (induction vs arbitrary: s0)
    case (Cons v vs)
    have "snd (try_send 0 3 v s0) = ch_assert Not_try_ready (\<not> is_try_ready (s0\<lparr>m_is_try_send_ready := True\<rparr>))
        (s0\<lparr>m_is_try_send_ready := True\<rparr>)"
      using Cons.prems by (simp add: try_send_def Let_def)
    then have "?ok (snd (try_send 0 3 v s0))" using Cons.prems by simp
    with Cons.IH[OF this] Cons.prems show ?case by simp
  qed simp
  then obtain s where s: "runs (channel_step 0) (map (Ch_try_send 3) vs) s0 = Some s" "?ok s" by blast
  have "runs (channel_step 0) (?es @ map (Ch_try_send 3) vs) (channel_init 4) = Some s"
    unfolding runs_append s0(1) using s(1) by (simp only: option.case)
  moreover have "ch_quiescent s" "ch_pcs s ! 1 = Rc_wait" using s(2) by (simp_all add: ch_quiescent_def asleep_def)
  ultimately show ?thesis using s(2) by blast
qed

text \<open>
  The flags of the nonblocking calls outlive them.  A \<open>select\<close> whose receive case fails leaves
  \<open>m_is_try_recv_ready\<close> set; a later \<open>select\<close> of the same thread that tries to send fails the assertion
  \<open>!is_try_ready()\<close>, although both ends are never inside a \<open>select\<close> at the same time, the only case that
  the comment excludes.
\<close>

theorem try_flags_outlive_the_call:
  "\<exists>s. runs (channel_step N) [Ch_try_recv t, Ch_try_send t v] (channel_init (Suc t)) = Some s
     \<and> failed s = [Not_try_ready]"
proof -
  have "runs (channel_step N) [Ch_try_recv t, Ch_try_send t v] (channel_init (Suc t))
      = Some (snd (try_send N t v (snd (try_recv N t (channel_init (Suc t))))))"
    by (simp add: channel_init_def try_recv_def Let_def del: replicate_Suc)
  moreover have "failed (snd (try_send N t v (snd (try_recv N t (channel_init (Suc t)))))) = [Not_try_ready]"
    by (simp add: channel_init_def try_recv_def try_send_def is_try_ready_def is_full_def Let_def)
  ultimately show ?thesis by blast
qed

section \<open>select\<close>

text \<open>
  A case of a \<open>select\<close> is a function that tries an operation: its answer and the new state.  \<open>random_gen()\<close>
  gives the first index, below \<open>2 ^ 32\<close>, so that no sum of indices wraps.
\<close>

type_synonym 's try_function = "'s \<Rightarrow> bool \<times> 's"

function try_once_loop :: "'s try_function list \<Rightarrow> nat \<Rightarrow> nat \<Rightarrow> 's \<Rightarrow> bool \<times> 's" where
  "try_once_loop fs i j s =
     (if j < length fs
      then (case (fs ! ((i + j) mod length fs)) s of (ok, s') \<Rightarrow>
        if ok then (True, s') else try_once_loop fs i (Suc j) s')
      else (False, s))"
  by pat_completeness auto
termination by (relation "measure (\<lambda>(fs, i, j, s). length fs - j)") auto

definition try_once :: "nat \<Rightarrow> 's try_function list \<Rightarrow> 's \<Rightarrow> bool \<times> 's" where
  "try_once random fs s = try_once_loop fs random 0 s"

text \<open>\<open>wait\<close>: \<^term>\<open>None\<close> is a call that does not return, or divides by zero because there is no case.\<close>

partial_function (option) select_wait :: "'s try_function list \<Rightarrow> nat \<Rightarrow> 's \<Rightarrow> (nat \<times> 's) option" where
  "select_wait fs i s =
     (if length fs = 0 then None
      else let i' = Suc i mod length fs in
           case (fs ! i') s of (ok, s') \<Rightarrow> if ok then Some (i', s') else select_wait fs i' s')"

text \<open>The reference: try the cases of a list one after the other.\<close>

fun first_success :: "'s try_function list \<Rightarrow> 's \<Rightarrow> bool \<times> 's" where
  "first_success [] s = (False, s)"
| "first_success (f # fs) s = (case f s of (ok, s') \<Rightarrow> if ok then (True, s') else first_success fs s')"

lemma try_once_loop_rotate:
  "j \<le> length fs \<Longrightarrow> try_once_loop fs i j s = first_success (drop j (rotate i fs)) s"
proof (induction fs i j s rule: try_once_loop.induct)
  case (1 fs i j s)
  show ?case
  proof (cases "j < length fs")
    case True
    then have "drop j (rotate i fs) = fs ! ((i + j) mod length fs) # drop (Suc j) (rotate i fs)"
      by (simp add: Cons_nth_drop_Suc[symmetric] nth_rotate)
    with 1 True show ?thesis by (subst try_once_loop.simps) (auto split: prod.splits)
  next
    case False
    then show ?thesis by (subst try_once_loop.simps) simp
  qed
qed

primrec after_attempts :: "'s try_function list \<Rightarrow> nat \<Rightarrow> 's \<Rightarrow> nat \<Rightarrow> 's" where
  "after_attempts fs i s 0 = s"
| "after_attempts fs i s (Suc k) = snd ((fs ! ((Suc i + k) mod length fs)) (after_attempts fs i s k))"

lemma after_attempts_shift:
  "fs \<noteq> [] \<Longrightarrow> after_attempts fs i s (Suc k) =
     after_attempts fs (Suc i mod length fs) (snd ((fs ! (Suc i mod length fs)) s)) k"
proof (induction k)
  case (Suc k)
  have "(Suc (Suc i mod length fs) + k) mod length fs = (Suc i + Suc k) mod length fs"
    using mod_add_left_eq[of "Suc i" "length fs" "Suc k"] by simp
  with Suc show ?case by simp
qed simp

lemma select_wait_at:
  assumes "fs \<noteq> []"
  shows "\<forall>j < k. \<not> fst ((fs ! ((Suc i + j) mod length fs)) (after_attempts fs i s j)) \<Longrightarrow>
    fst ((fs ! ((Suc i + k) mod length fs)) (after_attempts fs i s k)) \<Longrightarrow>
    select_wait fs i s = Some ((Suc i + k) mod length fs, after_attempts fs i s (Suc k))"
proof (induction k arbitrary: i s)
  case 0
  then show ?case using assms
    by (subst select_wait.simps) (cases "(fs ! (Suc i mod length fs)) s", simp add: Let_def)
next
  case (Suc k)
  let ?i = "Suc i mod length fs" and ?s = "snd ((fs ! (Suc i mod length fs)) s)"
  have m: "(Suc ?i + j) mod length fs = (Suc i + Suc j) mod length fs" for j
    using mod_add_left_eq[of "Suc i" "length fs" "Suc j"] by simp
  have "\<not> fst ((fs ! ((Suc ?i + j) mod length fs)) (after_attempts fs ?i ?s j))" if "j < k" for j
  proof -
    have "\<not> fst ((fs ! ((Suc i + Suc j) mod length fs)) (after_attempts fs i s (Suc j)))"
      using Suc.prems(1) that by blast
    then show ?thesis unfolding m after_attempts_shift[OF assms] .
  qed
  moreover have "fst ((fs ! ((Suc ?i + k) mod length fs)) (after_attempts fs ?i ?s k))"
    using Suc.prems(2) unfolding m after_attempts_shift[OF assms] .
  ultimately have "select_wait fs ?i ?s = Some ((Suc ?i + k) mod length fs, after_attempts fs ?i ?s (Suc k))"
    by (intro Suc.IH) blast+
  moreover have "\<not> fst ((fs ! ?i) s)" using Suc.prems(1) by auto
  then have "select_wait fs i s = select_wait fs ?i ?s"
    using assms by (subst select_wait.simps) (cases "(fs ! (Suc i mod length fs)) s", simp add: Let_def)
  ultimately show ?case unfolding m after_attempts_shift[OF assms, of i s "Suc k"] by simp
qed

text \<open>
  \<open>select::try_once\<close> tries every case at most once, in cyclic order from a random one, and stops at the
  first success.  \<open>select::wait\<close> goes round the cases until the first success: if the \<open>k\<close>th attempt is
  the first to succeed, it returns after exactly that attempt.
\<close>

theorem select_goes_round:
  "try_once random fs s = first_success (rotate random fs) s
   \<and> (fs \<noteq> [] \<and> (\<forall>j < k. \<not> fst ((fs ! ((Suc i + j) mod length fs)) (after_attempts fs i s j)))
        \<and> fst ((fs ! ((Suc i + k) mod length fs)) (after_attempts fs i s k))
      \<longrightarrow> select_wait fs i s = Some ((Suc i + k) mod length fs, after_attempts fs i s (Suc k)))"
  using try_once_loop_rotate[of 0 fs random s] select_wait_at[of fs k i s] by (auto simp: try_once_def)

text \<open>Two cases that count the attempts; the second succeeds at the fourth attempt.\<close>

theorem select_goes_round_witness:
  "select_wait [\<lambda>n. (False, Suc n), \<lambda>n. (3 \<le> n, Suc n)] 0 (0::nat) = Some (1, 5)"
proof -
  let ?fs = "[\<lambda>n. (False, Suc n), \<lambda>n. (3 \<le> n, Suc (n::nat))]"
  have "after_attempts ?fs 0 0 k = k" for k
  proof (induction k)
    case (Suc k)
    have "(Suc k) mod 2 = 0 \<or> (Suc k) mod 2 = 1" by linarith
    with Suc show ?case by (auto simp: numeral_2_eq_2)
  qed simp
  note a = this
  have l: "length ?fs = 2" by simp
  have "\<forall>j < 4. \<not> fst ((?fs ! ((Suc 0 + j) mod length ?fs)) (after_attempts ?fs 0 0 j))"
  proof (intro allI impI)
    fix j :: nat assume "j < 4"
    then have "j = 0 \<or> j = 1 \<or> j = 2 \<or> j = 3" by linarith
    then show "\<not> fst ((?fs ! ((Suc 0 + j) mod length ?fs)) (after_attempts ?fs 0 0 j))"
      unfolding a l by (elim disjE) simp_all
  qed
  moreover have "fst ((?fs ! ((Suc 0 + 4) mod length ?fs)) (after_attempts ?fs 0 0 4))" unfolding a l by simp
  moreover have "(5::nat) mod Suc (Suc 0) = 1" by code_simp
  ultimately show ?thesis using select_goes_round[of 0 ?fs 0 4 0] unfolding a by simp
qed

end
