(* ===== verification/Threadpool.thy ===== *)
theory Threadpool
  imports Wait_Event
begin

text \<open>
  \<open>libs/asyncplusplus/src/threadpool_scheduler.cpp\<close>: the work-stealing thread pool.

  Each worker has a stack of activations of \<open>thread_task_loop\<close>, innermost first: the bottom one is the
  main loop of \<open>worker_thread\<close>, and each further one was started by the wait handler, when a task that
  the worker runs waits for another task.  The critical sections on \<open>lock\<close> are single events; so are
  operations on the queues, whose contracts are proved in \<open>Work_Steal_Queue\<close> and \<open>Fifo_Queue\<close>
  (a local queue is a list with its bottom, the owner's end, at the right; \<open>steal\<close> may also fail when it
  loses a race).  The event of a worker is the \<open>task_wait_event\<close> of \<open>Wait_Event\<close>.

  Running a task is user code: while a worker runs a task it may schedule tasks, wait for a task, or
  return.  A task finishes at any time; then the continuations that \<open>on_finish\<close> added signal the
  events of their workers, each at some later time.  Threads outside the pool schedule tasks at any
  time, and one of them may destroy the pool.
\<close>

section \<open>State\<close>

datatype loop_pc =
    Lp_check                   \<comment> \<open>has the task finished?\<close>
  | Lp_pop
  | Lp_shuffle
  | Lp_steal "nat list"        \<comment> \<open>victims still to be tried\<close>
  | Lp_public                  \<comment> \<open>the critical section of the stealing loop\<close>
  | Lp_wait                    \<comment> \<open>inside \<open>event.wait()\<close>\<close>
  | Lp_woken "32 word"         \<comment> \<open>\<open>wait\<close> has returned this value\<close>
  | Lp_run nat                 \<comment> \<open>running a task\<close>
  | Lp_sched nat               \<comment> \<open>in \<open>schedule\<close>, after the push, in a task\<close>
  | Lp_notify nat              \<comment> \<open>in \<open>schedule\<close>, before the lock\<close>

record task_loop =
  loop_wait_task :: "nat option"
  added_continuation :: bool
  loop_pc :: loop_pc

record threadpool_data =
  thread_queues :: "nat list list"
  thread_events :: "task_wait_event list"
  thread_loops :: "task_loop list list"
  public_queue :: "nat list"
  shutdown :: bool
  num_waiters :: nat
  waiters :: "nat list"
  tp_finished :: "nat list"
  tp_conts :: "(nat \<times> nat) list"
  tp_scheduled :: "nat list"
  tp_started :: "nat list"

definition task_loop :: "nat option \<Rightarrow> task_loop" where
  "task_loop w = \<lparr>loop_wait_task = w, added_continuation = False, loop_pc = Lp_check\<rparr>"

text \<open>The pool when its \<open>n\<close> workers have been spawned; \<open>junk\<close> is the array allocated for \<open>waiters\<close>.\<close>

definition threadpool_data :: "nat \<Rightarrow> nat list \<Rightarrow> threadpool_data" where
  "threadpool_data n junk =
     \<lparr>thread_queues = replicate n [], thread_events = replicate n task_wait_event,
      thread_loops = replicate n [task_loop None], public_queue = [], shutdown = False, num_waiters = 0,
      waiters = take n (junk @ replicate n 0), tp_finished = [], tp_conts = [], tp_scheduled = [], tp_started = []\<rparr>"

definition set_loops :: "nat \<Rightarrow> task_loop list \<Rightarrow> threadpool_data \<Rightarrow> threadpool_data" where
  "set_loops i ls s = s\<lparr>thread_loops := (thread_loops s)[i := ls]\<rparr>"

definition loop_goto :: "nat \<Rightarrow> loop_pc \<Rightarrow> threadpool_data \<Rightarrow> threadpool_data" where
  "loop_goto i p s =
     (case thread_loops s ! i of [] \<Rightarrow> s | l # ls \<Rightarrow> set_loops i (l\<lparr>loop_pc := p\<rparr> # ls) s)"

definition loop_return :: "nat \<Rightarrow> threadpool_data \<Rightarrow> threadpool_data" where
  "loop_return i s = set_loops i (tl (thread_loops s ! i)) s"

definition signal_event :: "nat \<Rightarrow> 32 word \<Rightarrow> threadpool_data \<Rightarrow> threadpool_data" where
  "signal_event i ev s = s\<lparr>thread_events := (thread_events s)[i := signal ev (thread_events s ! i)]\<rparr>"

definition start_task :: "nat \<Rightarrow> nat \<Rightarrow> threadpool_data \<Rightarrow> threadpool_data" where
  "start_task i t s = loop_goto i (Lp_run t) (s\<lparr>tp_started := t # tp_started s\<rparr>)"

section \<open>The waiters\<close>

text \<open>Add to the list; take the last one and signal it.\<close>

definition add_waiter :: "nat \<Rightarrow> threadpool_data \<Rightarrow> threadpool_data" where
  "add_waiter i s =
     s\<lparr>waiters := (waiters s)[num_waiters s := i], num_waiters := Suc (num_waiters s)\<rparr>"

definition wake_waiter :: "threadpool_data \<Rightarrow> threadpool_data" where
  "wake_waiter s =
     (if num_waiters s = 0 then s
      else (signal_event (waiters s ! (num_waiters s - 1)) task_available s)
             \<lparr>num_waiters := num_waiters s - 1\<rparr>)"

text \<open>
  The loop that removes the calling thread: the first entry that is its event is swapped with the last
  one, unless it is the last one.
\<close>

definition remove_waiter :: "nat \<Rightarrow> threadpool_data \<Rightarrow> threadpool_data" where
  "remove_waiter me s =
     (let n = num_waiters s in
      case find (\<lambda>i. waiters s ! i = me) [0..<n] of
        None \<Rightarrow> s
      | Some i \<Rightarrow>
          s\<lparr>waiters := (if i \<noteq> n - 1 then (waiters s)[i := waiters s ! (n - 1), n - 1 := waiters s ! i] else waiters s),
            num_waiters := n - 1\<rparr>)"

section \<open>thread_task_loop\<close>

text \<open>The first test of the loop.\<close>

definition loop_check :: "nat \<Rightarrow> threadpool_data \<Rightarrow> threadpool_data" where
  "loop_check i s =
     (let l = hd (thread_loops s ! i) in
      case loop_wait_task l of
        None \<Rightarrow> loop_goto i Lp_pop s
      | Some t \<Rightarrow>
          if added_continuation l
          then (case try_wait task_finished (thread_events s ! i) of (ready, ev) \<Rightarrow>
              let s' = s\<lparr>thread_events := (thread_events s)[i := ev]\<rparr>
              in if ready then loop_return i s' else loop_goto i Lp_pop s')
          else if t \<in> set (tp_finished s) then loop_return i s else loop_goto i Lp_pop s)"

text \<open>The owner pops at the bottom; a thief steals at the top.\<close>

definition pop_local :: "nat \<Rightarrow> threadpool_data \<Rightarrow> threadpool_data" where
  "pop_local i s =
     (let q = thread_queues s ! i in
      if q = [] then loop_goto i Lp_shuffle s
      else start_task i (last q) (s\<lparr>thread_queues := (thread_queues s)[i := butlast q]\<rparr>))"

text \<open>\<open>steal_task\<close>: try the victims in a random order, but not the thread itself.\<close>

definition steal_task :: "nat \<Rightarrow> bool \<Rightarrow> nat list \<Rightarrow> threadpool_data \<Rightarrow> threadpool_data" where
  "steal_task i fails victims s =
     (case victims of
        [] \<Rightarrow> loop_goto i Lp_public s
      | v # vs \<Rightarrow>
          if v = i \<or> fails \<or> thread_queues s ! v = [] then loop_goto i (Lp_steal vs) s
          else start_task i (hd (thread_queues s ! v))
                 (s\<lparr>thread_queues := (thread_queues s)[v := tl (thread_queues s ! v)]\<rparr>))"

text \<open>
  The critical section: the public queue, shutdown, the continuation on the task that is waited for, and
  the list of waiters.
\<close>

definition public_section :: "nat \<Rightarrow> threadpool_data \<Rightarrow> threadpool_data" where
  "public_section i s =
     (case public_queue s of
        t # ts \<Rightarrow> start_task i t (s\<lparr>public_queue := ts\<rparr>)
      | [] \<Rightarrow>
        let l = hd (thread_loops s ! i) in
        if loop_wait_task l = None \<and> shutdown s then loop_return i s
        else
          let s1 = (case loop_wait_task l of
                None \<Rightarrow> s
              | Some t \<Rightarrow>
                  if added_continuation l then s
                  else set_loops i (l\<lparr>added_continuation := True\<rparr> # tl (thread_loops s ! i))
                         (s\<lparr>tp_conts := (t, i) # tp_conts s\<rparr>))
          in loop_goto i Lp_wait (add_waiter i s1))"

text \<open>After \<open>wait\<close>, again under the lock; the value it returned decides whether the loop returns.\<close>

definition after_wait :: "nat \<Rightarrow> 32 word \<Rightarrow> threadpool_data \<Rightarrow> threadpool_data" where
  "after_wait i evs s =
     (let l = hd (thread_loops s ! i); s1 = remove_waiter i s
      in if loop_wait_task l \<noteq> None \<and> evs AND task_finished \<noteq> 0 then loop_return i s1
         else loop_goto i Lp_shuffle s1)"

section \<open>schedule and the destructor\<close>

definition schedule_local :: "nat \<Rightarrow> nat \<Rightarrow> threadpool_data \<Rightarrow> threadpool_data" where
  "schedule_local i t s =
     s\<lparr>thread_queues := (thread_queues s)[i := thread_queues s ! i @ [t]],
       tp_scheduled := t # tp_scheduled s\<rparr>"

definition schedule_public :: "nat \<Rightarrow> threadpool_data \<Rightarrow> threadpool_data" where
  "schedule_public t s =
     wake_waiter (s\<lparr>public_queue := public_queue s @ [t], tp_scheduled := t # tp_scheduled s\<rparr>)"

text \<open>The locked block of the destructor.\<close>

definition shutdown_pool :: "threadpool_data \<Rightarrow> threadpool_data" where
  "shutdown_pool s =
     (fold (\<lambda>i. signal_event i task_available) (take (num_waiters s) (waiters s)) (s\<lparr>shutdown := True\<rparr>))
       \<lparr>num_waiters := 0\<rparr>"

section \<open>Steps\<close>

text \<open>
  \<open>Tp_step i vs fails\<close>: the next step of worker \<open>i\<close>, with the shuffled victims and the answer to a race.
\<close>

datatype tp_event =
    Tp_step nat "nat list" bool
  | Tp_wait nat wait_step_event
  | Tp_schedule nat nat
  | Tp_wait_for nat nat
  | Tp_return nat
  | Tp_external nat
  | Tp_finish nat
  | Tp_signal nat
  | Tp_shutdown

definition top_pc :: "nat \<Rightarrow> threadpool_data \<Rightarrow> loop_pc option" where
  "top_pc i s = (case thread_loops s ! i of [] \<Rightarrow> None | l # ls \<Rightarrow> Some (loop_pc l))"

definition worker_step :: "nat \<Rightarrow> nat list \<Rightarrow> bool \<Rightarrow> loop_pc \<Rightarrow> threadpool_data \<Rightarrow> threadpool_data option" where
  "worker_step i vs fails p s =
     (case p of
        Lp_check \<Rightarrow> Some (loop_check i s)
      | Lp_pop \<Rightarrow> Some (pop_local i s)
      | Lp_shuffle \<Rightarrow>
          if sort vs = [0..<length (thread_loops s)] then Some (loop_goto i (Lp_steal vs) s) else None
      | Lp_steal victims \<Rightarrow> Some (steal_task i fails victims s)
      | Lp_public \<Rightarrow> Some (public_section i s)
      | Lp_woken evs \<Rightarrow> Some (after_wait i evs s)
      | Lp_sched t \<Rightarrow> Some (loop_goto i (if num_waiters s = 0 then Lp_run t else Lp_notify t) s)
      | Lp_notify t \<Rightarrow> Some (loop_goto i (Lp_run t) (wake_waiter s))
      | Lp_wait \<Rightarrow> None
      | Lp_run t \<Rightarrow> None)"

text \<open>Inside \<open>wait\<close> the worker's event moves; when \<open>wait\<close> has returned the worker goes on.\<close>

definition worker_wait :: "nat \<Rightarrow> wait_step_event \<Rightarrow> threadpool_data \<Rightarrow> threadpool_data option" where
  "worker_wait i e s =
     (if e \<in> {Ev_wait, Ev_spurious, Ev_recheck, Ev_resume}
      then (case wait_event_step e (thread_events s ! i) of
          None \<Rightarrow> None
        | Some ev \<Rightarrow>
            let s' = s\<lparr>thread_events := (thread_events s)[i := ev]\<rparr>
            in (case Wait_Event.wait_pc (thread_events s ! i) of
                  Wait_returned r \<Rightarrow> Some (loop_goto i (Lp_woken r) s')
                | _ \<Rightarrow> Some s'))
      else None)"

fun threadpool_step :: "nat \<Rightarrow> tp_event \<Rightarrow> threadpool_data \<Rightarrow> threadpool_data option" where
  "threadpool_step n (Tp_step i vs fails) s =
     (if i < n then (case top_pc i s of None \<Rightarrow> None | Some p \<Rightarrow> worker_step i vs fails p s) else None)"
| "threadpool_step n (Tp_wait i e) s =
     (if i < n \<and> top_pc i s = Some Lp_wait then worker_wait i e s else None)"
| "threadpool_step n (Tp_schedule i t) s =
     (if i < n then
        (case top_pc i s of
           Some (Lp_run c) \<Rightarrow> Some (loop_goto i (Lp_sched c) (schedule_local i t s))
         | _ \<Rightarrow> None)
      else None)"
| "threadpool_step n (Tp_wait_for i t) s =
     (if i < n then
        (case top_pc i s of
           Some (Lp_run c) \<Rightarrow> Some (set_loops i (task_loop (Some t) # thread_loops s ! i) s)
         | _ \<Rightarrow> None)
      else None)"
| "threadpool_step n (Tp_return i) s =
     (if i < n then
        (case top_pc i s of Some (Lp_run c) \<Rightarrow> Some (loop_goto i Lp_check s) | _ \<Rightarrow> None)
      else None)"
| "threadpool_step n (Tp_external t) s = Some (schedule_public t s)"
| "threadpool_step n (Tp_finish t) s = Some (s\<lparr>tp_finished := t # tp_finished s\<rparr>)"
| "threadpool_step n (Tp_signal k) s =
     (if k < length (tp_conts s) \<and> fst (tp_conts s ! k) \<in> set (tp_finished s)
      then Some (signal_event (snd (tp_conts s ! k)) task_finished
             (s\<lparr>tp_conts := take k (tp_conts s) @ drop (Suc k) (tp_conts s)\<rparr>))
      else None)"
| "threadpool_step n Tp_shutdown s = (if shutdown s then None else Some (shutdown_pool s))"

section \<open>Starting the workers\<close>

text \<open>
  \<open>recursive_spawn_worker_thread\<close>: the workers that end up in \<open>worker_thread\<close>, by their index, and the
  entries of \<open>thread_data\<close> whose \<open>handle\<close> is assigned.  \<^term>\<open>None\<close> is an endless recursion.
\<close>

partial_function (option) recursive_spawn_worker_thread :: "nat \<Rightarrow> nat \<Rightarrow> (nat list \<times> nat list) option" where
  "recursive_spawn_worker_thread index threads =
     (if threads = 1 then Some ([index], [])
      else
        let mid = index + threads div 2 in
        Option.bind (recursive_spawn_worker_thread mid (threads - threads div 2)) (\<lambda>(ws, hs).
          Option.bind (recursive_spawn_worker_thread index (threads div 2)) (\<lambda>(ws', hs').
            Some (ws' @ ws, mid # hs' @ hs))))"

text \<open>The constructor spawns thread 0, which spawns the others.\<close>

definition threadpool_scheduler :: "nat \<Rightarrow> (nat list \<times> nat list) option" where
  "threadpool_scheduler num_threads =
     map_option (\<lambda>(ws, hs). (ws, 0 # hs)) (recursive_spawn_worker_thread 0 num_threads)"

section \<open>Invariant\<close>

fun searching :: "loop_pc \<Rightarrow> bool" where
  "searching Lp_shuffle = True"
| "searching (Lp_steal vs) = True"
| "searching Lp_public = True"
| "searching Lp_wait = True"
| "searching (Lp_woken e) = True"
| "searching _ = False"

fun sleeping_pc :: "loop_pc \<Rightarrow> bool" where
  "sleeping_pc Lp_wait = True"
| "sleeping_pc (Lp_woken e) = True"
| "sleeping_pc _ = False"

fun running_pc :: "loop_pc \<Rightarrow> bool" where
  "running_pc (Lp_run t) = True"
| "running_pc _ = False"

definition returned :: "wait_pc \<Rightarrow> bool" where
  "returned w \<longleftrightarrow> (case w of Wait_returned r \<Rightarrow> True | _ \<Rightarrow> False)"

text \<open>A parked worker sleeps, or is about to, with nothing to wake it up.\<close>

definition parked_in :: "task_loop list \<Rightarrow> task_wait_event \<Rightarrow> bool" where
  "parked_in ls ev \<longleftrightarrow>
     ls \<noteq> [] \<and> loop_pc (hd ls) = Lp_wait \<and> event_mask ev = 0 \<and> \<not> returned (wait_pc ev)"

definition parked :: "nat \<Rightarrow> threadpool_data \<Rightarrow> bool" where
  "parked i s = parked_in (thread_loops s ! i) (thread_events s ! i)"

text \<open>The innermost activation, its queue and its event; the outer activations are inside a task.\<close>

definition top_ok :: "bool \<Rightarrow> bool \<Rightarrow> (nat \<Rightarrow> bool) \<Rightarrow> task_loop \<Rightarrow> nat list \<Rightarrow> task_wait_event \<Rightarrow> bool" where
  "top_ok sh in_list cont l q ev \<longleftrightarrow>
     (searching (loop_pc l) \<longrightarrow> q = [])
   \<and> (wait_pc ev \<noteq> Wait_running \<longrightarrow> loop_pc l = Lp_wait)
   \<and> (in_list \<longrightarrow> sleeping_pc (loop_pc l))
   \<and> (added_continuation l \<longrightarrow> sleeping_pc (loop_pc l) \<and> loop_wait_task l \<noteq> None)
   \<and> (\<forall>r. loop_pc l = Lp_woken r \<longrightarrow> r = task_finished)
   \<and> (\<forall>r. wait_pc ev = Wait_returned r \<longrightarrow> r = task_finished)
   \<and> (parked_in [l] ev \<longrightarrow> in_list \<and> (sh \<longrightarrow> loop_wait_task l \<noteq> None)
        \<and> (\<forall>t. loop_wait_task l = Some t \<longrightarrow> cont t))"

fun outer_ok :: "task_loop list \<Rightarrow> bool" where
  "outer_ok [] = True"
| "outer_ok (l # ls) \<longleftrightarrow> running_pc (loop_pc l) \<and> \<not> added_continuation l
     \<and> (loop_wait_task l = None \<longleftrightarrow> ls = []) \<and> outer_ok ls"

definition stack_ok :: "task_loop list \<Rightarrow> bool" where
  "stack_ok ls = (case ls of [] \<Rightarrow> True
     | l # ls' \<Rightarrow> (loop_wait_task l = None \<longleftrightarrow> ls' = []) \<and> outer_ok ls')"

definition thr_ok :: "bool \<Rightarrow> bool \<Rightarrow> (nat \<Rightarrow> bool) \<Rightarrow> task_loop list \<Rightarrow> nat list \<Rightarrow> task_wait_event \<Rightarrow> bool" where
  "thr_ok sh in_list cont ls q ev \<longleftrightarrow> stack_ok ls
     \<and> (case ls of [] \<Rightarrow> sh \<and> q = [] \<and> \<not> in_list \<and> wait_pc ev = Wait_running
        | l # _ \<Rightarrow> top_ok sh in_list cont l q ev)"

definition waiting_threads :: "threadpool_data \<Rightarrow> nat list" where
  "waiting_threads s = take (num_waiters s) (waiters s)"

definition waiters_ok :: "nat \<Rightarrow> threadpool_data \<Rightarrow> bool" where
  "waiters_ok n s \<longleftrightarrow> length (waiters s) = n \<and> num_waiters s \<le> n
     \<and> distinct (waiting_threads s) \<and> set (waiting_threads s) \<subseteq> {..<n}"

definition thread_ok :: "threadpool_data \<Rightarrow> nat \<Rightarrow> bool" where
  "thread_ok s i = thr_ok (shutdown s) (i \<in> set (waiting_threads s)) (\<lambda>t. (t, i) \<in> set (tp_conts s))
     (thread_loops s ! i) (thread_queues s ! i) (thread_events s ! i)"

definition balance :: "threadpool_data \<Rightarrow> bool" where
  "balance s \<longleftrightarrow> mset (tp_scheduled s) =
     mset (tp_started s) + sum_list (map mset (thread_queues s)) + mset (public_queue s)"

definition tp_inv :: "nat \<Rightarrow> threadpool_data \<Rightarrow> bool" where
  "tp_inv n s \<longleftrightarrow> 0 < n \<and>
     length (thread_loops s) = n \<and> length (thread_queues s) = n \<and> length (thread_events s) = n
   \<and> waiters_ok n s \<and> (\<forall>i < n. thread_ok s i) \<and> balance s
   \<and> (public_queue s \<noteq> [] \<and> \<not> shutdown s \<longrightarrow> (\<exists>i < n. \<not> parked i s))"

lemma not_parked_signal [simp]: "k \<noteq> 0 \<Longrightarrow> \<not> parked_in ls (signal k ev)"
  using signal_pending[of k ev] by (simp add: parked_in_def)

lemma thr_ok_signal:
  assumes "thr_ok sh b c ls q ev" "k \<noteq> 0" "b' \<longrightarrow> b" "sh \<longrightarrow> sh'"
  shows "thr_ok sh' b' c' ls q (signal k ev)"
proof -
  have "wait_pc (signal k ev) = (if wait_pc ev = Wait_asleep then Wait_woken else wait_pc ev)"
    by (simp add: signal_def)
  with assms show ?thesis
    by (cases ls) (auto simp: thr_ok_def top_ok_def)
qed

lemma thr_ok_less: "thr_ok sh b c ls q ev \<Longrightarrow> (b' \<longrightarrow> b) \<Longrightarrow> \<not> parked_in ls ev \<Longrightarrow> thr_ok sh b' c' ls q ev"
  by (cases ls) (auto simp: thr_ok_def top_ok_def parked_in_def)

lemma thr_ok_cont: "thr_ok sh b c ls q ev \<Longrightarrow> (\<And>t. c t \<Longrightarrow> c' t) \<Longrightarrow> thr_ok sh b c' ls q ev"
  by (cases ls) (auto simp: thr_ok_def top_ok_def)

lemma thr_ok_tl: "thr_ok sh b c ls q ev \<Longrightarrow> thr_ok sh b c ls (tl q) ev"
  by (cases ls) (auto simp: thr_ok_def top_ok_def)

lemma thread_okD:
  assumes "tp_inv n s" "i < n"
  shows "thr_ok (shutdown s) (i \<in> set (waiting_threads s)) (\<lambda>t. (t, i) \<in> set (tp_conts s))
     (thread_loops s ! i) (thread_queues s ! i) (thread_events s ! i)"
  using assms by (simp add: tp_inv_def thread_ok_def)

text \<open>A step that concerns one worker only.\<close>

lemma tp_inv_local:
  assumes inv: "tp_inv n s" and i: "i < n"
    and others: "thread_loops s' = (thread_loops s)[i := ls]" "thread_events s' = (thread_events s)[i := ev]"
      "\<And>j. j \<noteq> i \<Longrightarrow> thread_queues s' ! j \<in> {thread_queues s ! j, tl (thread_queues s ! j)}" "length (thread_queues s') = n"
    and same: "shutdown s' = shutdown s" "waiters s' = waiters s" "num_waiters s' = num_waiters s"
      "tp_conts s' = tp_conts s" "mset (public_queue s') \<subseteq># mset (public_queue s)"
    and bal: "balance s'"
    and ok: "thr_ok (shutdown s) (i \<in> set (waiting_threads s)) (\<lambda>t. (t, i) \<in> set (tp_conts s)) ls
        (thread_queues s' ! i) ev"
    and park: "parked_in ls ev \<Longrightarrow> parked i s"
  shows "tp_inv n s'"
proof -
  have len: "length (thread_loops s) = n" "length (thread_queues s) = n" "length (thread_events s) = n"
    using inv by (simp_all add: tp_inv_def)
  have w: "waiting_threads s' = waiting_threads s" by (simp add: waiting_threads_def same)
  have "thread_ok s' j" if "j < n" for j
    using that ok thread_okD[OF inv that] thr_ok_tl[OF thread_okD[OF inv that]] len i others(3)[of j]
    by (cases "j = i") (auto simp: thread_ok_def others(1,2) same w)
  moreover have "waiters_ok n s'" using inv by (simp add: tp_inv_def waiters_ok_def w same)
  moreover have "\<exists>j < n. \<not> parked j s'" if p: "public_queue s' \<noteq> []" "\<not> shutdown s'"
  proof -
    have "public_queue s \<noteq> []" using p(1) same(5) by auto
    then obtain j where j: "j < n" "\<not> parked j s" using inv p(2) same(1) by (auto simp: tp_inv_def)
    then have "\<not> parked j s'"
      using park len i by (cases "j = i") (auto simp: parked_def others(1,2))
    with j(1) show ?thesis by blast
  qed
  moreover have "0 < n" using i by simp
  ultimately show ?thesis using len bal by (simp add: tp_inv_def others)
qed

subsection \<open>Steps of one worker\<close>

lemma thr_ok_Cons: "thr_ok sh b c (l # ls) q ev \<longleftrightarrow>
    (loop_wait_task l = None \<longleftrightarrow> ls = []) \<and> outer_ok ls \<and> top_ok sh b c l q ev"
  by (simp add: thr_ok_def stack_ok_def)

lemma thr_ok_quiet:
  assumes "thr_ok sh b c (l # ls) q ev" "\<not> sleeping_pc (loop_pc l)"
  shows "\<not> b" "\<not> added_continuation l" "wait_pc ev = Wait_running"
  using assms by (cases "loop_pc l"; simp add: thr_ok_Cons top_ok_def)+

lemma thr_ok_goto:
  assumes "thr_ok sh b c (l # ls) q ev" "\<not> sleeping_pc (loop_pc l)" "\<not> sleeping_pc p" "searching p \<longrightarrow> q' = []"
  shows "thr_ok sh b c (l\<lparr>loop_pc := p\<rparr> # ls) q' ev"
proof -
  have "top_ok sh b c (l\<lparr>loop_pc := p\<rparr>) q' ev"
    using thr_ok_quiet[OF assms(1,2)] assms(3,4) by (cases p) (simp_all add: top_ok_def parked_in_def)
  with assms(1) show ?thesis by (simp add: thr_ok_Cons)
qed

lemma thr_ok_push:
  assumes "thr_ok sh b c (l # ls) q ev" "running_pc (loop_pc l)"
  shows "thr_ok sh b c (task_loop (Some t) # l # ls) q ev"
proof -
  have "\<not> sleeping_pc (loop_pc l)" using assms(2) by (cases "loop_pc l") auto
  note quiet = thr_ok_quiet[OF assms(1) this]
  then show ?thesis using assms by (simp add: thr_ok_Cons top_ok_def parked_in_def task_loop_def)
qed

lemma thr_ok_pop:
  assumes "thr_ok sh b c (l # ls) q ev" "loop_wait_task l \<noteq> None" "wait_pc ev = Wait_running"
  shows "thr_ok sh False c ls q ev" "ls \<noteq> []" "running_pc (loop_pc (hd ls))"
proof -
  show "ls \<noteq> []" using assms(1,2) by (simp add: thr_ok_Cons)
  then obtain m ms where m: "ls = m # ms" by (cases ls) auto
  then have o: "outer_ok (m # ms)" using assms(1) by (simp add: thr_ok_Cons)
  then show "running_pc (loop_pc (hd ls))" using m by simp
  from o have "top_ok sh False c m q ev"
    using assms(3) by (cases "loop_pc m") (simp_all add: top_ok_def parked_in_def)
  with o show "thr_ok sh False c ls q ev" by (simp add: m thr_ok_Cons)
qed

lemma not_parked_running: "ls = [] \<or> loop_pc (hd ls) \<noteq> Lp_wait \<Longrightarrow> \<not> parked_in ls ev"
  by (auto simp: parked_in_def)

lemma top_pcE:
  assumes "top_pc i s = Some p"
  obtains l ls where "thread_loops s ! i = l # ls" "loop_pc l = p"
  using assms by (auto simp: top_pc_def split: list.splits)

lemma loop_goto_eq:
  "thread_loops s ! i = l # ls \<Longrightarrow>
   loop_goto i p s = s\<lparr>thread_loops := (thread_loops s)[i := l\<lparr>loop_pc := p\<rparr> # ls]\<rparr>"
  by (simp add: loop_goto_def set_loops_def)

lemma start_task_fields:
  "thread_events (start_task i t s) = thread_events s" "thread_queues (start_task i t s) = thread_queues s"
  "shutdown (start_task i t s) = shutdown s" "waiters (start_task i t s) = waiters s"
  "num_waiters (start_task i t s) = num_waiters s" "tp_conts (start_task i t s) = tp_conts s"
  "public_queue (start_task i t s) = public_queue s" "tp_scheduled (start_task i t s) = tp_scheduled s"
  "tp_started (start_task i t s) = t # tp_started s"
  by (simp_all add: start_task_def loop_goto_def set_loops_def split: list.splits)

lemma start_task_loops:
  "thread_loops s ! i = l # ls \<Longrightarrow>
   thread_loops (start_task i t s) = (thread_loops s)[i := l\<lparr>loop_pc := Lp_run t\<rparr> # ls]"
  by (simp add: start_task_def loop_goto_def set_loops_def)

text \<open>Going from one point to another that is not a sleeping one, perhaps taking or adding a task.\<close>

lemma tp_inv_move:
  assumes inv: "tp_inv n s" and i: "i < n" and l: "thread_loops s ! i = l # ls"
    and pc: "\<not> sleeping_pc (loop_pc l)" "\<not> sleeping_pc p" "searching p \<longrightarrow> thread_queues s' ! i = []"
    and s': "thread_loops s' = (thread_loops s)[i := l\<lparr>loop_pc := p\<rparr> # ls]" "thread_events s' = thread_events s"
      "\<And>j. j \<noteq> i \<Longrightarrow> thread_queues s' ! j \<in> {thread_queues s ! j, tl (thread_queues s ! j)}"
      "length (thread_queues s') = n" "shutdown s' = shutdown s" "waiters s' = waiters s"
      "num_waiters s' = num_waiters s" "tp_conts s' = tp_conts s" "mset (public_queue s') \<subseteq># mset (public_queue s)"
      "balance s'"
  shows "tp_inv n s'"
proof (rule tp_inv_local[OF inv i s'(1) _ s'(3,4,5,6,7,8,9,10)])
  show "thread_events s' = (thread_events s)[i := thread_events s ! i]" by (simp add: s'(2))
  show "thr_ok (shutdown s) (i \<in> set (waiting_threads s)) (\<lambda>t. (t, i) \<in> set (tp_conts s))
      (l\<lparr>loop_pc := p\<rparr> # ls) (thread_queues s' ! i) (thread_events s ! i)"
    using thread_okD[OF inv i] pc unfolding l by (rule thr_ok_goto)
  show "parked_in (l\<lparr>loop_pc := p\<rparr> # ls) (thread_events s ! i) \<Longrightarrow> parked i s"
    using pc(2) by (auto simp: parked_in_def)
qed

lemma sum_list_mset_update:
  "i < length qs \<Longrightarrow> sum_list (map mset (qs[i := q])) + mset (qs ! i) = sum_list (map mset qs) + mset q"
proof (induction qs arbitrary: i)
  case (Cons x qs)
  then show ?case by (cases i) (auto simp: ac_simps)
qed simp

lemma balance_take:
  assumes "balance s" "i < length (thread_queues s)" "mset (thread_queues s ! i) = add_mset t (mset q)"
    and "thread_queues s' = (thread_queues s)[i := q]" "tp_started s' = t # tp_started s"
      "tp_scheduled s' = tp_scheduled s" "public_queue s' = public_queue s"
  shows "balance s'"
proof -
  have "sum_list (map mset (thread_queues s')) + add_mset t (mset q) = sum_list (map mset (thread_queues s)) + mset q"
    using sum_list_mset_update[OF assms(2), of q] assms(3,4) by simp
  then have "add_mset t (sum_list (map mset (thread_queues s'))) = sum_list (map mset (thread_queues s))"
    by simp
  with assms(1) show ?thesis unfolding balance_def assms(5-7) by (metis add_mset_add_single mset.simps(2) union_assoc union_commute)
qed

lemma loop_check_inv:
  assumes "tp_inv n s" "i < n" "top_pc i s = Some Lp_check"
  shows "tp_inv n (loop_check i s)"
proof -
  obtain l ls where l: "thread_loops s ! i = l # ls" "loop_pc l = Lp_check" using assms(3) by (rule top_pcE)
  have t: "thr_ok (shutdown s) (i \<in> set (waiting_threads s)) (\<lambda>t. (t, i) \<in> set (tp_conts s))
      (l # ls) (thread_queues s ! i) (thread_events s ! i)"
    using thread_okD[OF assms(1,2)] l(1) by simp
  then have na: "\<not> added_continuation l" "wait_pc (thread_events s ! i) = Wait_running"
      "i \<notin> set (waiting_threads s)"
    using l(2) by (auto simp: thr_ok_def top_ok_def)
  have pop: "tp_inv n (loop_goto i Lp_pop s)"
    using assms(1) l(2) by (intro tp_inv_move[OF assms(1,2) l(1), of Lp_pop])
      (auto simp: loop_goto_eq[OF l(1)] tp_inv_def balance_def)
  have ret: "tp_inv n (loop_return i s)" if "loop_wait_task l \<noteq> None"
  proof -
    note p = thr_ok_pop[OF t that na(2)]
    from p(3) have np: "\<not> parked_in ls (thread_events s ! i)" by (auto simp: parked_in_def)
    show ?thesis
    proof (rule tp_inv_local[OF assms(1,2)])
      show "thread_loops (loop_return i s) = (thread_loops s)[i := ls]"
        by (simp add: loop_return_def set_loops_def l(1))
      show "thread_events (loop_return i s) = (thread_events s)[i := thread_events s ! i]"
        by (simp add: loop_return_def set_loops_def)
      show "balance (loop_return i s)" using assms(1) by (simp add: tp_inv_def balance_def loop_return_def set_loops_def)
      show "thr_ok (shutdown s) (i \<in> set (waiting_threads s)) (\<lambda>t. (t, i) \<in> set (tp_conts s)) ls
          (thread_queues (loop_return i s) ! i) (thread_events s ! i)"
        using p(1) na(3) by (simp add: loop_return_def set_loops_def)
    qed (use assms(1) np in \<open>simp_all add: loop_return_def set_loops_def tp_inv_def\<close>)
  qed
  show ?thesis using pop ret na(1) l(1) by (auto simp: loop_check_def Let_def split: option.splits)
qed

lemma mset_last: "xs \<noteq> [] \<Longrightarrow> mset xs = add_mset (last xs) (mset (butlast xs))"
  by (cases xs rule: rev_cases) simp_all

lemma pop_local_inv:
  assumes "tp_inv n s" "i < n" "top_pc i s = Some Lp_pop"
  shows "tp_inv n (pop_local i s)"
proof -
  obtain l ls where l: "thread_loops s ! i = l # ls" "loop_pc l = Lp_pop" using assms(3) by (rule top_pcE)
  have len: "length (thread_queues s) = n" "balance s" using assms(1) by (simp_all add: tp_inv_def)
  show ?thesis
  proof (cases "thread_queues s ! i = []")
    case True
    with l(2) assms(1) show ?thesis
      by (intro tp_inv_move[OF assms(1,2) l(1), of Lp_shuffle])
        (auto simp: pop_local_def Let_def loop_goto_eq[OF l(1)] tp_inv_def balance_def)
  next
    case False
    let ?q = "thread_queues s ! i" and ?s = "pop_local i s"
    have s: "?s = start_task i (last ?q) (s\<lparr>thread_queues := (thread_queues s)[i := butlast ?q]\<rparr>)"
      using False by (simp add: pop_local_def Let_def)
    have "i < length (thread_queues s)" using len(1) assms(2) by simp
    then have "balance ?s"
      by (rule balance_take[OF len(2) _ mset_last[OF False]]) (simp_all add: s start_task_fields)
    with l(2) len(1) show ?thesis
      by (intro tp_inv_move[OF assms(1,2) l(1), of "Lp_run (last ?q)"]) (simp_all add: s start_task_fields start_task_loops l(1))
  qed
qed

lemma steal_task_inv:
  assumes "tp_inv n s" "i < n" "top_pc i s = Some (Lp_steal vs)" "set vs \<subseteq> {..<n}"
  shows "tp_inv n (steal_task i fails vs s)"
proof -
  obtain l ls where l: "thread_loops s ! i = l # ls" "loop_pc l = Lp_steal vs" using assms(3) by (rule top_pcE)
  have q: "thread_queues s ! i = []" using thread_okD[OF assms(1,2)] l by (simp add: thr_ok_Cons top_ok_def)
  have len: "length (thread_queues s) = n" "balance s" using assms(1) by (simp_all add: tp_inv_def)
  have goto: "tp_inv n (loop_goto i p s)" if "p = Lp_public \<or> p = Lp_steal us" for p us
  proof -
    have "\<not> sleeping_pc p" using that by auto
    with l(2) q len show ?thesis
      by (intro tp_inv_move[OF assms(1,2) l(1), of p]) (simp_all add: loop_goto_eq[OF l(1)] balance_def)
  qed
  show ?thesis
  proof (cases vs)
    case Nil
    with goto[of Lp_public] show ?thesis by (simp add: steal_task_def)
  next
    case (Cons v us)
    show ?thesis
    proof (cases "v = i \<or> fails \<or> thread_queues s ! v = []")
      case True
      with goto[of "Lp_steal us" us] Cons show ?thesis by (simp add: steal_task_def)
    next
      case False
      let ?q = "thread_queues s ! v" and ?s = "steal_task i fails vs s"
      have s: "?s = start_task i (hd ?q) (s\<lparr>thread_queues := (thread_queues s)[v := tl ?q]\<rparr>)"
        using False Cons by (simp add: steal_task_def)
      have "v < n" using assms(4) Cons by simp
      then have v: "v < length (thread_queues s)" using len(1) by simp
      have "mset ?q = add_mset (hd ?q) (mset (tl ?q))" using False by (cases ?q) simp_all
      then have "balance ?s" by (rule balance_take[OF len(2) v]) (simp_all add: s start_task_fields)
      moreover have "(thread_queues s)[v := tl ?q] ! j \<in> {thread_queues s ! j, tl (thread_queues s ! j)}" for j
        using \<open>v < n\<close> len by (cases "j = v") simp_all
      ultimately show ?thesis using l(2) len(1)
        by (intro tp_inv_move[OF assms(1,2) l(1), of "Lp_run (hd ?q)"])
          (simp_all add: s start_task_fields start_task_loops l(1))
    qed
  qed
qed

subsection \<open>The critical section and the list of waiters\<close>

lemma waiting_add:
  assumes "waiters_ok n s" "num_waiters s < n"
  shows "waiting_threads (add_waiter i s) = waiting_threads s @ [i]"
  using assms by (simp add: waiting_threads_def add_waiter_def waiters_ok_def take_Suc_conv_app_nth)

lemma waiters_ok_add:
  assumes "waiters_ok n s" "i < n" "i \<notin> set (waiting_threads s)"
  shows "num_waiters s < n" "waiters_ok n (add_waiter i s)"
proof -
  have "length (waiting_threads s) = num_waiters s" using assms(1) by (simp add: waiting_threads_def waiters_ok_def)
  moreover have "distinct (i # waiting_threads s)" "set (i # waiting_threads s) \<subseteq> {..<n}"
    using assms by (simp_all add: waiters_ok_def)
  then have "length (i # waiting_threads s) \<le> n"
    using card_mono[of "{..<n}" "set (i # waiting_threads s)"] by (simp only: distinct_card) simp
  ultimately show l: "num_waiters s < n" by simp
  show "waiters_ok n (add_waiter i s)"
    using assms l waiting_add[OF assms(1) l, of i] by (simp add: waiters_ok_def add_waiter_def)
qed

text \<open>A worker that goes to sleep: registers its continuation and itself.\<close>

lemma sleep_inv:
  assumes inv: "tp_inv n s" and i: "i < n" and l: "thread_loops s ! i = l # ls" "loop_pc l = Lp_public"
    and pub: "public_queue s = []" and no: "\<not> (loop_wait_task l = None \<and> shutdown s)"
    and s': "s' = (add_waiter i s)\<lparr>tp_conts := cs, thread_loops := (thread_loops s)[i := l' # ls]\<rparr>"
    and l': "l' = l\<lparr>added_continuation := a, loop_pc := Lp_wait\<rparr>" "a \<longrightarrow> loop_wait_task l \<noteq> None"
    and cs: "set (tp_conts s) \<subseteq> set cs" "\<And>t. loop_wait_task l = Some t \<Longrightarrow> (t, i) \<in> set cs"
  shows "tp_inv n s'"
proof -
  have t: "thr_ok (shutdown s) (i \<in> set (waiting_threads s)) (\<lambda>t. (t, i) \<in> set (tp_conts s))
      (l # ls) (thread_queues s ! i) (thread_events s ! i)"
    using thread_okD[OF inv i] l(1) by simp
  have ni: "i \<notin> set (waiting_threads s)" using thr_ok_quiet(1)[OF t] l(2) by simp
  have w: "waiters_ok n s" using inv by (simp add: tp_inv_def)
  note add = waiters_ok_add[OF w i ni]
  have len: "length (thread_loops s) = n" "length (thread_queues s) = n" "length (thread_events s) = n" "balance s"
    using inv by (simp_all add: tp_inv_def)
  have wt: "waiting_threads s' = waiting_threads s @ [i]"
    using waiting_add[OF w add(1), of i] by (simp add: s' waiting_threads_def)
  have "thr_ok (shutdown s) True (\<lambda>t. (t, i) \<in> set cs) (l' # ls) (thread_queues s ! i) (thread_events s ! i)"
    using t thr_ok_quiet[OF t] l(2) no cs(2) by (auto simp: thr_ok_Cons top_ok_def l' parked_in_def)
  moreover have "thr_ok (shutdown s) (j \<in> set (waiting_threads s)) (\<lambda>t. (t, j) \<in> set cs)
      (thread_loops s ! j) (thread_queues s ! j) (thread_events s ! j)" if "j < n" for j
    using thread_okD[OF inv that] by (rule thr_ok_cont) (use cs(1) in auto)
  ultimately have "thread_ok s' j" if "j < n" for j
    using that i len wt by (cases "j = i") (simp_all add: thread_ok_def s' add_waiter_def)
  moreover have "waiters_ok n s'" using add(2) by (simp add: s' waiters_ok_def waiting_threads_def)
  moreover have "balance s'" using len(4) by (simp add: s' balance_def add_waiter_def)
  ultimately show ?thesis using i len pub by (simp add: tp_inv_def s' add_waiter_def)
qed

lemma public_section_inv:
  assumes "tp_inv n s" "i < n" "top_pc i s = Some Lp_public"
  shows "tp_inv n (public_section i s)"
proof -
  obtain l ls where l: "thread_loops s ! i = l # ls" "loop_pc l = Lp_public" using assms(3) by (rule top_pcE)
  have t: "thr_ok (shutdown s) (i \<in> set (waiting_threads s)) (\<lambda>t. (t, i) \<in> set (tp_conts s))
      (l # ls) (thread_queues s ! i) (thread_events s ! i)"
    using thread_okD[OF assms(1,2)] l(1) by simp
  note quiet = thr_ok_quiet[OF t]
  have q: "thread_queues s ! i = []" using t l(2) by (simp add: thr_ok_Cons top_ok_def)
  have len: "length (thread_queues s) = n" "balance s" using assms(1) by (simp_all add: tp_inv_def)
  show ?thesis
  proof (cases "public_queue s")
    case (Cons x xs)
    then show ?thesis using len l(2)
      by (intro tp_inv_move[OF assms(1,2) l(1), of "Lp_run x"])
        (simp_all add: public_section_def start_task_fields start_task_loops l(1) balance_def)
  next
    case Nil
    show ?thesis
    proof (cases "loop_wait_task l = None \<and> shutdown s")
      case True
      have "tp_inv n (loop_return i s)"
      proof (rule tp_inv_local[OF assms(1,2), of _ "[]" "thread_events s ! i"])
        show "thread_loops (loop_return i s) = (thread_loops s)[i := []]"
          using True t by (simp add: loop_return_def set_loops_def l(1) thr_ok_Cons)
        show "thr_ok (shutdown s) (i \<in> set (waiting_threads s)) (\<lambda>t. (t, i) \<in> set (tp_conts s)) []
            (thread_queues (loop_return i s) ! i) (thread_events s ! i)"
          using True q quiet l(2) by (simp add: thr_ok_def stack_ok_def loop_return_def set_loops_def)
      qed (use len in \<open>simp_all add: loop_return_def set_loops_def balance_def parked_in_def\<close>)
      then show ?thesis using True Nil by (simp add: public_section_def l(1))
    next
      case False
      have i: "i < length (thread_loops s)" using assms(1,2) by (simp add: tp_inv_def)
      show ?thesis
      proof (cases "loop_wait_task l")
        case None
        show ?thesis
          by (rule sleep_inv[where cs = "tp_conts s" and l' = "l\<lparr>loop_pc := Lp_wait\<rparr>" and a = "added_continuation l", OF assms(1,2) l Nil False])
            (use False None Nil quiet(2) l i in \<open>simp_all add: public_section_def loop_goto_def set_loops_def add_waiter_def\<close>)
      next
        case (Some x)
        show ?thesis
          by (rule sleep_inv[where cs = "(x, i) # tp_conts s" and l' = "l\<lparr>added_continuation := True, loop_pc := Lp_wait\<rparr>" and a = True,
                OF assms(1,2) l Nil False])
            (use False Some Nil quiet(2) l i in \<open>auto simp: public_section_def loop_goto_def set_loops_def add_waiter_def
                intro!: threadpool_data.equality\<close>)
      qed
    qed
  qed
qed

lemma swap_last_removes:
  assumes "distinct ws" "k < length ws"
  shows "set (butlast (ws[k := last ws])) = set ws - {ws ! k}" "distinct (butlast (ws[k := last ws]))"
proof -
  obtain us u where ws: "ws = us @ [u]" using assms(2) by (cases ws rule: rev_cases) auto
  have "set (butlast (ws[k := last ws])) = set ws - {ws ! k} \<and> distinct (butlast (ws[k := last ws]))"
  proof (cases "k < length us")
    case True
    then have "butlast (ws[k := last ws]) = us[k := u]" by (simp add: ws list_update_append)
    moreover have "us ! k \<in> set us" using True by simp
    ultimately show ?thesis using True assms(1)
      by (auto simp: ws nth_append set_update_distinct intro: distinct_list_update)
  next
    case False
    then have "k = length us" using assms(2) by (simp add: ws)
    then show ?thesis using assms(1) by (auto simp: ws)
  qed
  then show "set (butlast (ws[k := last ws])) = set ws - {ws ! k}" "distinct (butlast (ws[k := last ws]))"
    by simp_all
qed

lemma remove_waiter_fields [simp]:
  "thread_loops (remove_waiter i s) = thread_loops s" "thread_events (remove_waiter i s) = thread_events s"
  "thread_queues (remove_waiter i s) = thread_queues s" "shutdown (remove_waiter i s) = shutdown s"
  "tp_conts (remove_waiter i s) = tp_conts s" "public_queue (remove_waiter i s) = public_queue s"
  "tp_scheduled (remove_waiter i s) = tp_scheduled s" "tp_started (remove_waiter i s) = tp_started s"
  by (simp_all add: remove_waiter_def Let_def split: option.splits)

lemma remove_waiter_ok:
  assumes "waiters_ok n s"
  shows "waiters_ok n (remove_waiter i s)"
    "set (waiting_threads (remove_waiter i s)) = set (waiting_threads s) - {i}"
proof -
  let ?m = "num_waiters s" and ?ws = "waiting_threads s"
  have len: "length ?ws = ?m" "length (waiters s) = n" "?m \<le> n" "distinct ?ws" "set ?ws \<subseteq> {..<n}"
    using assms by (simp_all add: waiting_threads_def waiters_ok_def)
  have nth: "waiters s ! k = ?ws ! k" if "k < ?m" for k using that by (simp add: waiting_threads_def)
  have "waiters_ok n (remove_waiter i s) \<and> set (waiting_threads (remove_waiter i s)) = set ?ws - {i}"
  proof (cases "find (\<lambda>k. waiters s ! k = i) [0..<?m]")
    case None
    then have "i \<notin> set ?ws" using len(1) nth by (auto simp: find_None_iff in_set_conv_nth)
    then show ?thesis using None assms by (simp add: remove_waiter_def Let_def)
  next
    case (Some k)
    then have k: "k < ?m" "?ws ! k = i" using nth by (auto simp: find_Some_iff)
    have "?ws \<noteq> []" using k(1) len(1) by auto
    then have "last ?ws = waiters s ! (?m - 1)" using k(1) len(1) nth[of "?m - 1"] by (simp add: last_conv_nth)
    then have "take (?m - 1) (waiters (remove_waiter i s)) = butlast (?ws[k := last ?ws])"
      using Some k(1) len(1-3)
      by (auto simp: remove_waiter_def Let_def waiting_threads_def butlast_take
          take_update_swap butlast_list_update list_update_beyond)
    then have w: "waiting_threads (remove_waiter i s) = butlast (?ws[k := last ?ws])"
      using Some by (simp add: remove_waiter_def Let_def waiting_threads_def)
    have "k < length ?ws" using k(1) len(1) by simp
    note sw = swap_last_removes[OF len(4) this]
    have "length (waiters (remove_waiter i s)) = n" "num_waiters (remove_waiter i s) \<le> n"
      using Some len by (auto simp: remove_waiter_def Let_def)
    then show ?thesis using sw len(5) k(2) by (auto simp: waiters_ok_def w)
  qed
  then show "waiters_ok n (remove_waiter i s)"
    "set (waiting_threads (remove_waiter i s)) = set ?ws - {i}" by simp_all
qed

text \<open>A change of the list of waiters together with a step of one worker.\<close>

lemma after_wait_inv:
  assumes inv: "tp_inv n s" and i: "i < n" and p: "top_pc i s = Some (Lp_woken r)"
  shows "tp_inv n (after_wait i r s)"
proof -
  obtain l ls where l: "thread_loops s ! i = l # ls" "loop_pc l = Lp_woken r" using p by (rule top_pcE)
  have len: "length (thread_loops s) = n" "length (thread_queues s) = n" "length (thread_events s) = n"
      "waiters_ok n s" "balance s"
    using inv by (simp_all add: tp_inv_def)
  note rm = remove_waiter_ok[OF len(4), of i]
  have t: "thr_ok (shutdown s) (i \<in> set (waiting_threads s)) (\<lambda>t. (t, i) \<in> set (tp_conts s))
      (l # ls) (thread_queues s ! i) (thread_events s ! i)"
    using thread_okD[OF inv i] l(1) by simp
  have w: "wait_pc (thread_events s ! i) = Wait_running" "r = task_finished"
      "added_continuation l \<longrightarrow> loop_wait_task l \<noteq> None"
    using t l(2) by (auto simp: thr_ok_Cons top_ok_def)
  define ls' where "ls' = (if loop_wait_task l \<noteq> None then ls else l\<lparr>loop_pc := Lp_shuffle\<rparr> # ls)"
  have s': "after_wait i r s = (remove_waiter i s)\<lparr>thread_loops := (thread_loops s)[i := ls']\<rparr>"
    using l(1) w(2) by (simp add: after_wait_def Let_def loop_return_def loop_goto_def set_loops_def ls'_def wait_type_defs)
  have ok: "thr_ok (shutdown s) False (\<lambda>t. (t, i) \<in> set (tp_conts s)) ls' (thread_queues s ! i) (thread_events s ! i)"
  proof (cases "loop_wait_task l")
    case None
    then show ?thesis using t w l(2) by (auto simp: ls'_def thr_ok_Cons top_ok_def parked_in_def)
  qed (use thr_ok_pop(1)[OF t _ w(1)] in \<open>simp add: ls'_def\<close>)
  have np: "\<not> parked_in ls' (thread_events s ! i)"
  proof (cases "loop_wait_task l")
    case (Some x)
    then show ?thesis using thr_ok_pop(3)[OF t _ w(1)] by (auto simp: ls'_def parked_in_def)
  qed (simp add: ls'_def parked_in_def)
  have "thread_ok (after_wait i r s) j" if "j < n" for j
    using ok thread_okD[OF inv that] i len that rm(2)
    by (cases "j = i") (simp_all add: thread_ok_def s' waiting_threads_def)
  moreover have "waiters_ok n (after_wait i r s)"
    using rm(1) by (simp add: s' waiters_ok_def waiting_threads_def)
  moreover have "balance (after_wait i r s)" using len(5) by (simp add: s' balance_def)
  moreover have "\<not> parked i (after_wait i r s)" using np i len by (simp add: parked_def s')
  ultimately show ?thesis using i len by (auto simp: tp_inv_def s')
qed

subsection \<open>Signals\<close>

lemma signal_event_fields [simp]:
  "thread_loops (signal_event i e s) = thread_loops s" "thread_queues (signal_event i e s) = thread_queues s"
  "length (thread_events (signal_event i e s)) = length (thread_events s)"
  "shutdown (signal_event i e s) = shutdown s" "waiters (signal_event i e s) = waiters s"
  "num_waiters (signal_event i e s) = num_waiters s" "tp_conts (signal_event i e s) = tp_conts s"
  "public_queue (signal_event i e s) = public_queue s" "tp_scheduled (signal_event i e s) = tp_scheduled s"
  "tp_started (signal_event i e s) = tp_started s" "tp_finished (signal_event i e s) = tp_finished s"
  by (simp_all add: signal_event_def)

lemma signal_event_nth:
  "j < length (thread_events s) \<Longrightarrow>
   thread_events (signal_event i e s) ! j = (if j = i then signal e (thread_events s ! j) else thread_events s ! j)"
  by (simp add: signal_event_def)

lemma signals_nonzero [simp]: "task_available \<noteq> 0" "task_finished \<noteq> 0"
  by (simp_all add: wait_type_defs)

text \<open>What is left of the invariant while a task has just been put into the public queue.\<close>

lemma wake_waiter_inv:
  assumes n: "0 < n"
    and len: "length (thread_loops s) = n" "length (thread_queues s) = n" "length (thread_events s) = n"
    and w: "waiters_ok n s" and ok: "\<And>i. i < n \<Longrightarrow> thread_ok s i" and bal: "balance s"
  shows "tp_inv n (wake_waiter s)"
proof (cases "num_waiters s = 0")
  case True
  then have "waiting_threads s = []" by (simp add: waiting_threads_def)
  then have "\<not> parked 0 s" using ok[OF n]
    by (cases "thread_loops s ! 0")
      (auto simp: thread_ok_def thr_ok_def top_ok_def parked_def parked_in_def)
  then show ?thesis using True assms by (auto simp: tp_inv_def wake_waiter_def)
next
  case False
  let ?ws = "waiting_threads s" and ?s = "wake_waiter s"
  have lw: "length ?ws = num_waiters s" "distinct ?ws" "set ?ws \<subseteq> {..<n}"
    using w by (simp_all add: waiting_threads_def waiters_ok_def)
  then have ne: "?ws \<noteq> []" using False by auto
  define u where "u = last ?ws"
  have u: "waiters s ! (num_waiters s - 1) = u" "u \<in> set ?ws"
    using False ne lw(1) by (simp_all add: u_def last_conv_nth) (simp add: waiting_threads_def)
  have un: "u < n" using u(2) lw(3) by auto
  have wt: "waiting_threads ?s = butlast ?ws" and nw: "num_waiters ?s = num_waiters s - 1"
      "waiters ?s = waiters s"
    using False w by (simp_all add: wake_waiter_def waiting_threads_def butlast_take waiters_ok_def)
  have split: "?ws = butlast ?ws @ [u]" using ne by (simp add: u_def)
  have set: "set (butlast ?ws) = set ?ws - {u}" and "distinct (butlast ?ws)"
    using lw(2) by (subst (asm) split, subst (2) split, auto)
      (metis split distinct_append lw(2))
  have f: "thread_loops ?s = thread_loops s" "thread_queues ?s = thread_queues s" "shutdown ?s = shutdown s"
      "tp_conts ?s = tp_conts s" "public_queue ?s = public_queue s" "balance ?s"
    using bal by (simp_all add: wake_waiter_def balance_def)
  have ev: "thread_events ?s ! j = (if j = u then signal task_available (thread_events s ! j) else thread_events s ! j)"
    if "j < n" for j using False that len u(1) by (simp add: wake_waiter_def signal_event_nth)
  have "thread_ok ?s j" if "j < n" for j
    using ok[OF that] that thr_ok_signal[OF _ signals_nonzero(1), of "shutdown s" _ _ _ _ _ False]
    by (cases "j = u") (auto simp: thread_ok_def f ev wt set)
  moreover have "waiters_ok n ?s"
    using w set \<open>distinct (butlast ?ws)\<close> by (auto simp: waiters_ok_def wt nw)
  moreover have "\<not> parked u ?s" using un by (simp add: parked_def ev)
  ultimately show ?thesis using n un len f by (auto simp: tp_inv_def wake_waiter_def)
qed

lemma fold_signal:
  assumes "distinct ws" "set ws \<subseteq> {..<length (thread_events s)}"
  shows "thread_events (fold (\<lambda>i. signal_event i e) ws s) = map (\<lambda>j. if j \<in> set ws
      then signal e (thread_events s ! j) else thread_events s ! j) [0..<length (thread_events s)]"
  using assms
proof (induction ws arbitrary: s)
  case Nil
  then show ?case by (simp add: map_nth)
next
  case (Cons w ws)
  then have "w \<notin> set ws" "w < length (thread_events s)" by simp_all
  with Cons.IH[of "signal_event w e s"] Cons.prems show ?case
    by (auto simp: signal_event_nth)
qed

lemma fold_signal_fields [simp]:
  "thread_loops (fold (\<lambda>i. signal_event i e) ws s) = thread_loops s"
  "thread_queues (fold (\<lambda>i. signal_event i e) ws s) = thread_queues s"
  "shutdown (fold (\<lambda>i. signal_event i e) ws s) = shutdown s"
  "waiters (fold (\<lambda>i. signal_event i e) ws s) = waiters s"
  "tp_conts (fold (\<lambda>i. signal_event i e) ws s) = tp_conts s"
  "public_queue (fold (\<lambda>i. signal_event i e) ws s) = public_queue s"
  "tp_scheduled (fold (\<lambda>i. signal_event i e) ws s) = tp_scheduled s"
  "tp_started (fold (\<lambda>i. signal_event i e) ws s) = tp_started s"
  by (induction ws arbitrary: s) simp_all

lemma shutdown_pool_inv:
  assumes inv: "tp_inv n s"
  shows "tp_inv n (shutdown_pool s)"
proof -
  let ?s = "shutdown_pool s" and ?ws = "waiting_threads s"
  have len: "length (thread_events s) = n" "distinct ?ws" "set ?ws \<subseteq> {..<n}"
    using inv by (simp_all add: tp_inv_def waiters_ok_def)
  have eq: "?s = (fold (\<lambda>i. signal_event i task_available) ?ws (s\<lparr>shutdown := True\<rparr>))\<lparr>num_waiters := 0\<rparr>"
    by (simp add: shutdown_pool_def waiting_threads_def)
  then have f: "thread_loops ?s = thread_loops s" "thread_queues ?s = thread_queues s" "shutdown ?s"
      "tp_conts ?s = tp_conts s" "public_queue ?s = public_queue s" "waiters ?s = waiters s" "num_waiters ?s = 0"
      "balance ?s = balance s"
    by (simp_all add: balance_def)
  have ev: "thread_events ?s = map (\<lambda>j. if j \<in> set ?ws then signal task_available (thread_events s ! j)
      else thread_events s ! j) [0..<n]"
    unfolding eq using fold_signal[of ?ws "s\<lparr>shutdown := True\<rparr>" task_available] len by simp
  have wt: "waiting_threads ?s = []" by (simp add: waiting_threads_def f)
  have "thread_ok ?s j" if j: "j < n" for j
  proof (cases "j \<in> set ?ws")
    case True
    then show ?thesis using thr_ok_signal[OF thread_okD[OF inv j] signals_nonzero(1), of False True] j
      by (simp add: thread_ok_def wt ev f)
  next
    case False
    then show ?thesis using thread_okD[OF inv j] j
      by (cases "thread_loops s ! j")
        (auto simp: thread_ok_def wt ev thr_ok_def top_ok_def parked_in_def f)
  qed
  moreover have "waiters_ok n ?s" using inv by (simp add: waiters_ok_def tp_inv_def wt f)
  ultimately show ?thesis using inv by (simp add: tp_inv_def ev f)
qed

lemma tp_signal_inv:
  assumes inv: "tp_inv n s"
    and k: "k < length (tp_conts s)" "snd (tp_conts s ! k) < n"
  shows "tp_inv n (signal_event (snd (tp_conts s ! k)) task_finished
             (s\<lparr>tp_conts := take k (tp_conts s) @ drop (Suc k) (tp_conts s)\<rparr>))" (is "tp_inv n ?s")
proof -
  define u where "u = snd (tp_conts s ! k)"
  define cs where "cs = take k (tp_conts s) @ drop (Suc k) (tp_conts s)"
  have len: "length (thread_events s) = n" "balance s" using inv by (simp_all add: tp_inv_def)
  have mem: "(t, j) \<in> set cs" if "(t, j) \<in> set (tp_conts s)" "j \<noteq> u" for t j
  proof -
    have "set (tp_conts s) = insert (tp_conts s ! k) (set cs)"
      using arg_cong[OF id_take_nth_drop[OF k(1)], of set] by (simp add: cs_def)
    then show ?thesis using that by (auto simp: u_def) (metis snd_conv)
  qed
  have s: "?s = signal_event u task_finished (s\<lparr>tp_conts := cs\<rparr>)" by (simp add: u_def cs_def)
  have wt: "waiting_threads ?s = waiting_threads s" by (simp add: waiting_threads_def)
  have "thread_ok ?s j" if j: "j < n" for j
  proof (cases "j = u")
    case True
    then show ?thesis unfolding thread_ok_def wt using thr_ok_signal[OF thread_okD[OF inv j] signals_nonzero(2)] j len
      by (simp add: s signal_event_nth)
  next
    case False
    then show ?thesis unfolding thread_ok_def wt using thr_ok_cont[OF thread_okD[OF inv j], of "\<lambda>t. (t, j) \<in> set cs"] mem j len
      by (simp add: s signal_event_nth)
  qed
  moreover have "\<not> parked j ?s" if "\<not> parked j s" "j < n" for j
    using that len by (cases "j = u") (simp_all add: parked_def s signal_event_nth)
  moreover have "waiters_ok n ?s" "balance ?s" using inv wt by (simp_all add: waiters_ok_def tp_inv_def balance_def)
  ultimately show ?thesis using inv len(1) unfolding tp_inv_def by (simp add: s) blast
qed

subsection \<open>Waiting, scheduling and nesting\<close>

lemma thr_ok_wait:
  assumes t: "thr_ok sh b c (l # ls) q ev" and l: "loop_pc l = Lp_wait"
    and e: "e \<in> {Ev_wait, Ev_spurious, Ev_recheck, Ev_resume}" "wait_event_step e ev = Some ev'"
  shows "\<And>r. wait_pc ev = Wait_returned r \<Longrightarrow> thr_ok sh b c (l\<lparr>loop_pc := Lp_woken r\<rparr> # ls) q ev'"
    "\<not> returned (wait_pc ev) \<Longrightarrow> thr_ok sh b c (l # ls) q ev'"
    "\<not> returned (wait_pc ev) \<Longrightarrow> parked_in (l # ls) ev' \<Longrightarrow> parked_in (l # ls) ev"
proof -
  show "thr_ok sh b c (l\<lparr>loop_pc := Lp_woken r\<rparr> # ls) q ev'" if "wait_pc ev = Wait_returned r" for r
    using t l e that by (auto simp: thr_ok_Cons top_ok_def parked_in_def)
  assume r: "\<not> returned (wait_pc ev)"
  have pk: "parked_in [l] ev'  \<Longrightarrow> parked_in [l] ev" and "\<And>r. wait_pc ev' = Wait_returned r \<Longrightarrow> r = task_finished"
    using l e r by (auto simp: parked_in_def wait_check_def returned_def Let_def wait_type_defs
        split: if_splits wait_pc.splits)
  then show "thr_ok sh b c (l # ls) q ev'" using t l by (auto simp: thr_ok_Cons top_ok_def)
  show "parked_in (l # ls) ev' \<Longrightarrow> parked_in (l # ls) ev" using pk by (simp add: parked_in_def)
qed

lemma worker_wait_inv:
  assumes inv: "tp_inv n s" and i: "i < n" and p: "top_pc i s = Some Lp_wait" and st: "worker_wait i e s = Some s'"
  shows "tp_inv n s'"
proof -
  obtain l ls where l: "thread_loops s ! i = l # ls" "loop_pc l = Lp_wait" using p by (rule top_pcE)
  obtain ev' where e: "e \<in> {Ev_wait, Ev_spurious, Ev_recheck, Ev_resume}"
      "wait_event_step e (thread_events s ! i) = Some ev'"
    using st by (auto simp: worker_wait_def split: if_splits option.splits)
  have t: "thr_ok (shutdown s) (i \<in> set (waiting_threads s)) (\<lambda>t. (t, i) \<in> set (tp_conts s))
      (l # ls) (thread_queues s ! i) (thread_events s ! i)"
    using thread_okD[OF inv i] l(1) by simp
  have bal: "balance s" "length (thread_queues s) = n" using inv by (simp_all add: tp_inv_def)
  note ok = thr_ok_wait[OF t l(2) e]
  have go: "tp_inv n s'" if r: "\<not> returned (wait_pc (thread_events s ! i))"
  proof -
    have s': "s' = s\<lparr>thread_events := (thread_events s)[i := ev']\<rparr>"
      using st e r by (simp add: worker_wait_def returned_def split: wait_pc.splits)
    show ?thesis
      by (rule tp_inv_local[OF inv i, of _ "thread_loops s ! i" ev'])
        (use ok(2,3)[OF r] bal in \<open>simp_all add: s' l(1)[symmetric] balance_def parked_def\<close>)
  qed
  show ?thesis
  proof (cases "wait_pc (thread_events s ! i)")
    case (Wait_returned r)
    then have s': "s' = loop_goto i (Lp_woken r) (s\<lparr>thread_events := (thread_events s)[i := ev']\<rparr>)"
      using st e by (simp add: worker_wait_def)
    show ?thesis
      by (rule tp_inv_local[OF inv i, of _ "l\<lparr>loop_pc := Lp_woken r\<rparr> # ls" ev'])
        (use ok(1)[OF Wait_returned] bal in \<open>simp_all add: s' loop_goto_eq l(1) balance_def parked_in_def\<close>)
  next
    case other: Wait_running
    show ?thesis by (rule go) (simp add: other returned_def)
  next
    case other: Wait_asleep
    show ?thesis by (rule go) (simp add: other returned_def)
  next
    case other: Wait_woken
    show ?thesis by (rule go) (simp add: other returned_def)
  qed
qed

lemma push_balance:
  assumes "balance s" "i < length (thread_queues s)"
  shows "balance (schedule_local i t s)"
  using assms sum_list_mset_update[OF assms(2), of "thread_queues s ! i @ [t]"]
  by (simp add: balance_def schedule_local_def ac_simps)

lemma tp_inv_balance: "tp_inv n s \<Longrightarrow> balance s" "tp_inv n s \<Longrightarrow> length (thread_queues s) = n"
  by (simp_all add: tp_inv_def)

lemma plain_goto_inv:
  assumes "tp_inv n s" "i < n" "top_pc i s = Some p'" "\<not> sleeping_pc p'" "\<not> sleeping_pc p" "searching p \<longrightarrow> searching p'"
  shows "tp_inv n (loop_goto i p s)"
proof -
  obtain l ls where l: "thread_loops s ! i = l # ls" "loop_pc l = p'" using assms(3) by (rule top_pcE)
  have "searching p \<longrightarrow> thread_queues s ! i = []"
    using thread_okD[OF assms(1,2)] l assms(6) by (auto simp: thr_ok_Cons top_ok_def)
  with assms(4,5) tp_inv_balance[OF assms(1)] show ?thesis
    by (intro tp_inv_move[OF assms(1,2) l(1), of p]) (simp_all add: loop_goto_eq[OF l(1)] l(2) balance_def)
qed

lemma schedule_local_inv:
  assumes "tp_inv n s" "i < n" "top_pc i s = Some (Lp_run c)"
  shows "tp_inv n (loop_goto i (Lp_sched c) (schedule_local i t s))"
proof -
  obtain l ls where l: "thread_loops s ! i = l # ls" "loop_pc l = Lp_run c" using assms(3) by (rule top_pcE)
  have l': "thread_loops (schedule_local i t s) ! i = l # ls" using l(1) by (simp add: schedule_local_def)
  have "balance (schedule_local i t s)"
    using tp_inv_balance[OF assms(1)] assms(2) by (intro push_balance) simp_all
  then show ?thesis using l(2) tp_inv_balance[OF assms(1)]
    by (intro tp_inv_move[OF assms(1,2) l(1), of "Lp_sched c"])
      (simp_all add: loop_goto_eq[OF l'] balance_def, simp_all add: schedule_local_def)
qed

lemma wait_for_inv:
  assumes "tp_inv n s" "i < n" "top_pc i s = Some (Lp_run c)"
  shows "tp_inv n (set_loops i (task_loop (Some t) # thread_loops s ! i) s)"
proof -
  obtain l ls where l: "thread_loops s ! i = l # ls" "loop_pc l = Lp_run c" using assms(3) by (rule top_pcE)
  have "thr_ok (shutdown s) (i \<in> set (waiting_threads s)) (\<lambda>t. (t, i) \<in> set (tp_conts s))
      (task_loop (Some t) # l # ls) (thread_queues s ! i) (thread_events s ! i)"
    using thread_okD[OF assms(1,2)] l by (intro thr_ok_push) simp_all
  then show ?thesis using tp_inv_balance[OF assms(1)]
    by (intro tp_inv_local[OF assms(1,2), of _ "task_loop (Some t) # l # ls" "thread_events s ! i"])
      (simp_all add: set_loops_def l(1) balance_def parked_in_def task_loop_def)
qed

lemma schedule_public_inv:
  assumes inv: "tp_inv n s"
  shows "tp_inv n (schedule_public t s)"
proof -
  let ?s = "s\<lparr>public_queue := public_queue s @ [t], tp_scheduled := t # tp_scheduled s\<rparr>"
  have "thread_ok ?s i = thread_ok s i" for i by (simp add: thread_ok_def waiting_threads_def)
  moreover have "waiters_ok n ?s = waiters_ok n s" by (simp add: waiters_ok_def waiting_threads_def)
  ultimately have "tp_inv n (wake_waiter ?s)"
    using inv by (intro wake_waiter_inv) (simp_all add: tp_inv_def balance_def ac_simps)
  then show ?thesis by (simp add: schedule_public_def)
qed

lemma tp_notify_inv:
  assumes "tp_inv n s" "i < n" "top_pc i s = Some (Lp_notify c)"
  shows "tp_inv n (loop_goto i (Lp_run c) (wake_waiter s))"
proof -
  have "tp_inv n (wake_waiter s)" using assms(1) by (intro wake_waiter_inv) (simp_all add: tp_inv_def)
  moreover have "top_pc i (wake_waiter s) = Some (Lp_notify c)"
    using assms(3) by (simp add: top_pc_def wake_waiter_def)
  ultimately show ?thesis using assms(2) by (intro plain_goto_inv[of n _ i "Lp_notify c"]) simp_all
qed

lemma tp_finish_inv:
  assumes inv: "tp_inv n s"
  shows "tp_inv n (s\<lparr>tp_finished := t # tp_finished s\<rparr>)"
proof -
  let ?s = "s\<lparr>tp_finished := t # tp_finished s\<rparr>"
  have "thread_ok ?s i = thread_ok s i" "waiters_ok n ?s = waiters_ok n s" "balance ?s = balance s"
      "parked i ?s = parked i s" for i
    by (simp_all add: thread_ok_def waiting_threads_def waiters_ok_def balance_def parked_def)
  with inv show ?thesis by (simp add: tp_inv_def)
qed

subsection \<open>Indices\<close>

text \<open>The victims of a thief and the threads that continuations signal are threads of the pool.\<close>

fun pc_ok :: "nat \<Rightarrow> loop_pc \<Rightarrow> bool" where
  "pc_ok n (Lp_steal vs) \<longleftrightarrow> set vs \<subseteq> {..<n}"
| "pc_ok n _ \<longleftrightarrow> True"

definition indices_ok :: "nat \<Rightarrow> threadpool_data \<Rightarrow> bool" where
  "indices_ok n s \<longleftrightarrow> length (thread_loops s) = n
     \<and> (\<forall>ls \<in> set (thread_loops s). \<forall>l \<in> set ls. pc_ok n (loop_pc l)) \<and> (\<forall>c \<in> set (tp_conts s). snd c < n)"

lemma indices_set_loops:
  assumes "indices_ok n s" "\<forall>l \<in> set ls. pc_ok n (loop_pc l)"
  shows "indices_ok n (set_loops i ls s)"
  using assms set_update_subset_insert[of "thread_loops s" i ls] by (auto simp: indices_ok_def set_loops_def)

lemma indices_same:
  "indices_ok n s \<Longrightarrow> thread_loops s' = thread_loops s \<Longrightarrow> set (tp_conts s') \<subseteq> set (tp_conts s) \<Longrightarrow> indices_ok n s'"
  by (auto simp: indices_ok_def)

lemma indices_stack: "indices_ok n s \<Longrightarrow> i < n \<Longrightarrow> l \<in> set (thread_loops s ! i) \<Longrightarrow> pc_ok n (loop_pc l)"
  unfolding indices_ok_def by (meson nth_mem)

lemma indices_goto: "indices_ok n s \<Longrightarrow> i < n \<Longrightarrow> pc_ok n p \<Longrightarrow> indices_ok n (loop_goto i p s)"
  using indices_stack[of n s i]
  by (auto simp: loop_goto_def split: list.splits intro!: indices_set_loops)

lemma indices_return: "indices_ok n s \<Longrightarrow> i < n \<Longrightarrow> indices_ok n (loop_return i s)"
  unfolding loop_return_def using indices_stack[of n s i] list.set_sel(2)[of "thread_loops s ! i"]
  by (intro indices_set_loops) (cases "thread_loops s ! i"; force)+

lemma indices_start: "indices_ok n s \<Longrightarrow> i < n \<Longrightarrow> indices_ok n (start_task i t s)"
  unfolding start_task_def by (rule indices_goto) (auto intro: indices_same)

lemma wake_waiter_fields [simp]:
  "thread_loops (wake_waiter s) = thread_loops s" "tp_conts (wake_waiter s) = tp_conts s"
  "thread_queues (wake_waiter s) = thread_queues s" "public_queue (wake_waiter s) = public_queue s"
  "shutdown (wake_waiter s) = shutdown s"
  by (simp_all add: wake_waiter_def)


lemma indices_public:
  assumes "indices_ok n s" "i < n" and l: "thread_loops s ! i = l # ls"
  shows "indices_ok n (public_section i s)"
proof (cases "public_queue s")
  case (Cons t ts)
  have "indices_ok n (s\<lparr>public_queue := ts\<rparr>)" using assms(1) by (rule indices_same) simp_all
  with assms(2) show ?thesis by (simp add: public_section_def Cons indices_start)
next
  case Nil
  define s1 where "s1 = (case loop_wait_task l of None \<Rightarrow> s
      | Some t \<Rightarrow> if added_continuation l then s
          else set_loops i (l\<lparr>added_continuation := True\<rparr> # ls) (s\<lparr>tp_conts := (t, i) # tp_conts s\<rparr>))"
  have cont: "indices_ok n (s\<lparr>tp_conts := (t, i) # tp_conts s\<rparr>)" for t
    using assms(1,2) by (simp add: indices_ok_def)
  have "\<forall>m \<in> set (l # ls). pc_ok n (loop_pc m)" using indices_stack[OF assms(1,2)] l by auto
  then have "indices_ok n s1"
    using assms(1) indices_set_loops[OF cont] by (auto simp: s1_def split: option.split)
  then have "indices_ok n (add_waiter i s1)" by (rule indices_same) (simp_all add: add_waiter_def)
  then have "indices_ok n (loop_goto i Lp_wait (add_waiter i s1))" using assms(2) by (simp add: indices_goto)
  moreover have "public_section i s = (if loop_wait_task l = None \<and> shutdown s then loop_return i s
      else loop_goto i Lp_wait (add_waiter i s1))"
    unfolding public_section_def Nil s1_def Let_def l list.sel list.case by (rule refl)
  ultimately show ?thesis using assms(1,2) by (simp add: indices_return)
qed

lemma indices_worker:
  assumes ok: "indices_ok n s" "i < n" and p: "top_pc i s = Some p" and st: "worker_step i vs fails p s = Some s'"
  shows "indices_ok n s'"
proof -
  obtain l ls where l: "thread_loops s ! i = l # ls" "loop_pc l = p" using p by (rule top_pcE)
  have pc: "pc_ok n p" using indices_stack[OF ok, of l] l by simp
  have n: "length (thread_loops s) = n" using ok(1) by (simp add: indices_ok_def)
  have upd: "indices_ok n (s\<lparr>thread_events := evs\<rparr>)" "indices_ok n (s\<lparr>thread_queues := qs\<rparr>)"
      "indices_ok n (remove_waiter i s)" "indices_ok n (wake_waiter s)" for evs qs
    by (rule indices_same[OF ok(1)], simp_all)+
  note rules = indices_goto indices_return indices_start
  show ?thesis
  proof (cases p)
    case Lp_check
    then show ?thesis using st ok upd
      by (auto simp: worker_step_def loop_check_def Let_def try_wait_def rules split: option.split if_splits)
  next
    case Lp_pop
    then show ?thesis using st ok upd by (auto simp: worker_step_def pop_local_def Let_def rules split: if_splits)
  next
    case Lp_shuffle
    have "sort vs = [0..<n] \<Longrightarrow> set vs \<subseteq> {..<n}" by (metis atLeast_upt lessThan_atLeast0 order_refl set_sort set_upt)
    then show ?thesis using Lp_shuffle st ok n by (auto simp: worker_step_def split: if_splits intro!: indices_goto)
  next
    case (Lp_steal us)
    then show ?thesis using st ok upd pc
      by (cases us) (auto simp: worker_step_def steal_task_def rules split: if_splits)
  next
    case Lp_public
    then show ?thesis using st ok l(1) by (auto simp: worker_step_def indices_public)
  next
    case (Lp_woken evs)
    then show ?thesis using st ok upd by (auto simp: worker_step_def after_wait_def Let_def rules)
  qed (use st ok upd in \<open>auto simp: worker_step_def rules\<close>)
qed

lemma indices_step:
  assumes ok: "indices_ok n s" and st: "threadpool_step n e s = Some s'"
  shows "indices_ok n s'"
proof -
  have upd: "indices_ok n (s\<lparr>thread_events := evs\<rparr>)" "indices_ok n (s\<lparr>tp_finished := ts\<rparr>)"
      "indices_ok n (schedule_public t s)" "indices_ok n (schedule_local i t s)" for evs ts t i
    by (rule indices_same[OF ok], simp_all add: schedule_public_def schedule_local_def)+
  show ?thesis
  proof (cases e)
    case (Tp_step i vs fails)
    then show ?thesis using st ok by (auto split: if_splits option.splits intro: indices_worker)
  next
    case (Tp_wait i w)
    then show ?thesis using st ok upd
      by (auto simp: worker_wait_def Let_def indices_goto split: if_splits option.splits wait_pc.splits)
  next
    case (Tp_wait_for i t)
    have "\<forall>l \<in> set (task_loop (Some t) # thread_loops s ! i). pc_ok n (loop_pc l)" if "i < n"
      using indices_stack[OF ok that] by (auto simp: task_loop_def)
    then show ?thesis using Tp_wait_for st ok
      by (auto split: if_splits option.splits loop_pc.splits intro!: indices_set_loops)
  next
    case (Tp_signal k)
    have "set (take k (tp_conts s) @ drop (Suc k) (tp_conts s)) \<subseteq> set (tp_conts s)"
      by (auto dest: in_set_takeD in_set_dropD)
    then have "indices_ok n (signal_event (snd (tp_conts s ! k)) task_finished
        (s\<lparr>tp_conts := take k (tp_conts s) @ drop (Suc k) (tp_conts s)\<rparr>))"
      by (intro indices_same[OF ok]) simp_all
    then show ?thesis using Tp_signal st by (simp split: if_splits)
  next
    case Tp_shutdown
    have "indices_ok n (shutdown_pool s)" by (rule indices_same[OF ok]) (simp_all add: shutdown_pool_def)
    then show ?thesis using Tp_shutdown st by (auto split: if_splits)
  qed (use st ok upd in \<open>auto simp: indices_goto split: if_splits option.splits loop_pc.splits\<close>)
qed

subsection \<open>Every reachable state\<close>

definition pool_inv :: "nat \<Rightarrow> threadpool_data \<Rightarrow> bool" where
  "pool_inv n s \<longleftrightarrow> tp_inv n s \<and> indices_ok n s"

lemma worker_step_inv:
  assumes inv: "pool_inv n s" and i: "i < n" and p: "top_pc i s = Some p"
    and st: "worker_step i vs fails p s = Some s'"
  shows "tp_inv n s'"
proof -
  have tp: "tp_inv n s" and ok: "indices_ok n s" using inv by (simp_all add: pool_inv_def)
  note go = plain_goto_inv[OF tp i p]
  show ?thesis
  proof (cases p)
    case (Lp_steal us)
    obtain l ls where l: "thread_loops s ! i = l # ls" "loop_pc l = p" using p by (rule top_pcE)
    have "set us \<subseteq> {..<n}" using indices_stack[OF ok i, of l] l Lp_steal by simp
    then show ?thesis using st p Lp_steal steal_task_inv[OF tp i] by (auto simp: worker_step_def)
  qed (use st p loop_check_inv[OF tp i] pop_local_inv[OF tp i] public_section_inv[OF tp i] after_wait_inv[OF tp i]
      tp_notify_inv[OF tp i] go in \<open>auto simp: worker_step_def split: if_splits\<close>)
qed

lemma pool_inv_step:
  assumes inv: "pool_inv n s" and st: "threadpool_step n e s = Some s'"
  shows "pool_inv n s'"
proof -
  have tp: "tp_inv n s" and ok: "indices_ok n s" using inv by (simp_all add: pool_inv_def)
  have "tp_inv n s'"
  proof (cases e)
    case (Tp_step i vs fails)
    then show ?thesis using st inv by (auto split: if_splits option.splits intro: worker_step_inv)
  next
    case (Tp_return i)
    then show ?thesis using st
      by (auto split: if_splits option.splits loop_pc.splits intro!: plain_goto_inv[OF tp])
  next
    case (Tp_signal k)
    then have "k < length (tp_conts s)" using st by (simp split: if_splits)
    moreover from this have "snd (tp_conts s ! k) < n" using ok unfolding indices_ok_def by (meson nth_mem)
    ultimately have "tp_inv n (signal_event (snd (tp_conts s ! k)) task_finished
             (s\<lparr>tp_conts := take k (tp_conts s) @ drop (Suc k) (tp_conts s)\<rparr>))" by (rule tp_signal_inv[OF tp])
    then show ?thesis using Tp_signal st by (simp split: if_splits)
  qed (use st worker_wait_inv[OF tp] schedule_local_inv[OF tp] wait_for_inv[OF tp] schedule_public_inv[OF tp]
      tp_finish_inv[OF tp] shutdown_pool_inv[OF tp] in \<open>auto split: if_splits option.splits loop_pc.splits\<close>)
  then show ?thesis using indices_step[OF ok st] by (simp add: pool_inv_def)
qed

lemma pool_inv_init: "0 < n \<Longrightarrow> pool_inv n (threadpool_data n junk)"
proof -
  assume n: "0 < n"
  let ?s = "threadpool_data n junk"
  have "thread_ok ?s i \<and> \<not> parked i ?s" if "i < n" for i
    using that by (simp add: thread_ok_def threadpool_data_def thr_ok_Cons task_loop_def top_ok_def parked_in_def parked_def
        waiting_threads_def task_wait_event_def)
  moreover have "sum_list (replicate n {#}) = ({#} :: nat multiset)" by (induction n) simp_all
  then have "balance ?s" "waiters_ok n ?s"
    by (simp_all add: balance_def threadpool_data_def waiters_ok_def waiting_threads_def)
  ultimately have "tp_inv n ?s" using n by (auto simp: tp_inv_def) (auto simp: threadpool_data_def)
  moreover have "indices_ok n ?s" by (simp add: indices_ok_def threadpool_data_def task_loop_def)
  ultimately show ?thesis by (simp add: pool_inv_def)
qed

interpretation threadpool: safety_system "threadpool_step n" "threadpool_data n junk" "\<lambda>s. 0 < n \<longrightarrow> pool_inv n s"
  for n junk
  by unfold_locales (auto intro: pool_inv_init pool_inv_step)

lemma threadpool_reachable:
  assumes "runs (threadpool_step n) es (threadpool_data n junk) = Some s" "0 < n"
  shows "tp_inv n s"
  using threadpool.inv_reachable[OF assms(1)] assms(2) by (simp add: pool_inv_def)

text \<open>
  C10. The thread pool's bookkeeping: in every reachable state the list of waiting threads holds at most
  \<open>n\<close> entries, each thread of the pool at most once, so the array of \<open>n\<close> pointers never overflows; and
  every task that was scheduled is in exactly one queue or has been started, exactly as often as it was
  scheduled.
\<close>

theorem threadpool_conserves_tasks:
  assumes "runs (threadpool_step n) es (threadpool_data n junk) = Some s" "0 < n"
  shows "num_waiters s \<le> n \<and> length (waiters s) = n
    \<and> distinct (take (num_waiters s) (waiters s)) \<and> set (take (num_waiters s) (waiters s)) \<subseteq> {..<n}
    \<and> mset (tp_scheduled s) =
        mset (tp_started s) + sum_list (map mset (thread_queues s)) + mset (public_queue s)"
  using threadpool_reachable[OF assms] by (simp add: tp_inv_def waiters_ok_def waiting_threads_def balance_def)

definition tp_example :: "tp_event list" where
  "tp_example =
     [Tp_external 5, Tp_step 0 [] False, Tp_step 0 [] False, Tp_step 0 [1, 0] False, Tp_step 0 [] False,
      Tp_step 0 [] False, Tp_step 0 [] False, Tp_step 0 [] False, Tp_schedule 0 6, Tp_step 0 [] False,
      Tp_step 1 [] False, Tp_step 1 [] False, Tp_step 1 [0, 1] False, Tp_step 1 [] False,
      Tp_wait_for 0 6, Tp_step 0 [] False, Tp_step 0 [] False, Tp_step 0 [1, 0] False, Tp_step 0 [] False,
      Tp_step 0 [] False, Tp_step 0 [] False, Tp_step 0 [] False, Tp_wait 0 Ev_wait]"

theorem threadpool_conserves_tasks_witness:
  "\<exists>s. runs (threadpool_step 2) tp_example (threadpool_data 2 []) = Some s
     \<and> num_waiters s = 1 \<and> waiters s ! 0 = 0 \<and> distinct (take (num_waiters s) (waiters s))
     \<and> mset (tp_scheduled s) = {#5, 6#}"
proof -
  have "map_option (\<lambda>s. (num_waiters s, waiters s, tp_scheduled s))
      (runs (threadpool_step 2) tp_example (threadpool_data 2 [])) = Some (1, [0, 0], [6, 5])"
    by code_simp
  then obtain s where "runs (threadpool_step 2) tp_example (threadpool_data 2 []) = Some s"
      "num_waiters s = 1" "waiters s = [0, 0]" "tp_scheduled s = [6, 5]" by auto
  with threadpool_conserves_tasks[of 2 tp_example "[]" s] show ?thesis by (simp add: add_mset_commute)
qed

text \<open>
  C11. No task is forgotten: when every worker of a running pool is parked, all queues are empty.  A worker
  that is parked while a task waits for another one has a continuation on that task that will signal it;
  once the pool is shut down no worker's main loop is parked; and a worker exits only after the shutdown,
  with an empty queue.
\<close>

theorem threadpool_no_lost_task:
  assumes "runs (threadpool_step n) es (threadpool_data n junk) = Some s" "0 < n"
  shows "((\<forall>i < n. parked i s) \<and> \<not> shutdown s \<longrightarrow>
        public_queue s = [] \<and> (\<forall>i < n. thread_queues s ! i = []))
    \<and> (\<forall>i < n. parked i s \<and> loop_wait_task (hd (thread_loops s ! i)) = Some t \<longrightarrow> (t, i) \<in> set (tp_conts s))
    \<and> (\<forall>i < n. parked i s \<and> shutdown s \<longrightarrow> loop_wait_task (hd (thread_loops s ! i)) \<noteq> None)
    \<and> (\<forall>i < n. thread_loops s ! i = [] \<longrightarrow> shutdown s \<and> thread_queues s ! i = [])"
proof -
  have inv: "tp_inv n s" by (rule threadpool_reachable[OF assms])
  have th: "(parked i s \<longrightarrow> thread_queues s ! i = []
        \<and> (shutdown s \<longrightarrow> loop_wait_task (hd (thread_loops s ! i)) \<noteq> None)
        \<and> (loop_wait_task (hd (thread_loops s ! i)) = Some t \<longrightarrow> (t, i) \<in> set (tp_conts s)))
      \<and> (thread_loops s ! i = [] \<longrightarrow> shutdown s \<and> thread_queues s ! i = [])" if "i < n" for i
    using thread_okD[OF inv that]
    by (cases "thread_loops s ! i") (auto simp: thr_ok_def top_ok_def parked_def parked_in_def)
  moreover have "public_queue s = []" if "\<forall>i < n. parked i s" "\<not> shutdown s"
    using inv that by (auto simp: tp_inv_def)
  ultimately show ?thesis by simp
qed

definition tp_parked :: "tp_event list" where
  "tp_parked =
     [Tp_external 5, Tp_step 0 [] False, Tp_step 0 [] False, Tp_step 0 [1, 0] False, Tp_step 0 [] False,
      Tp_step 0 [] False, Tp_step 0 [] False, Tp_step 0 [] False, Tp_wait_for 0 6, Tp_step 0 [] False, Tp_step 0 [] False,
      Tp_step 0 [1, 0] False, Tp_step 0 [] False, Tp_step 0 [] False, Tp_step 0 [] False, Tp_step 0 [] False,
      Tp_wait 0 Ev_wait]"

theorem threadpool_no_lost_task_witness:
  "\<exists>s. runs (threadpool_step 1) [Tp_step 0 [] False, Tp_step 0 [] False, Tp_step 0 [0] False, Tp_step 0 [] False,
       Tp_step 0 [] False, Tp_step 0 [] False, Tp_wait 0 Ev_wait] (threadpool_data 1 []) = Some s
     \<and> parked 0 s \<and> public_queue s = [] \<and> thread_queues s ! 0 = []"
proof -
  let ?es = "[Tp_step 0 [] False, Tp_step 0 [] False, Tp_step 0 [0] False, Tp_step 0 [] False,
       Tp_step 0 [] False, Tp_step 0 [] False, Tp_wait 0 Ev_wait]"
  have "map_option (\<lambda>s. (parked 0 s, shutdown s)) (runs (threadpool_step 1) ?es (threadpool_data 1 [])) = Some (True, False)"
    by code_simp
  then obtain s where s: "runs (threadpool_step 1) ?es (threadpool_data 1 []) = Some s" "parked 0 s" "\<not> shutdown s" by auto
  with threadpool_no_lost_task[OF s(1)] show ?thesis by auto
qed

text \<open>
  C22. The value of \<open>event.wait()\<close> does not tell what happened, so the wait handler returns at the first
  wake-up: whenever the event of a worker that waits for a task inside the pool has been signalled, by
  whatever it was, the next step of the worker leaves the handler.
\<close>

theorem nested_wait_returns_at_any_wakeup:
  assumes "runs (threadpool_step n) es (threadpool_data n junk) = Some s" "i < n"
    and "top_pc i s = Some (Lp_woken r)" "loop_wait_task (hd (thread_loops s ! i)) \<noteq> None"
  shows "threadpool_step n (Tp_step i vs fails) s = Some (loop_return i (remove_waiter i s))"
proof -
  have n: "0 < n" using assms(2) by simp
  obtain l ls where l: "thread_loops s ! i = l # ls" "loop_pc l = Lp_woken r" using assms(3) by (rule top_pcE)
  have "r = task_finished"
    using thread_okD[OF threadpool_reachable[OF assms(1) n] assms(2)] l by (simp add: thr_ok_Cons top_ok_def)
  then show ?thesis using assms(2-4) by (simp add: worker_step_def after_wait_def Let_def wait_type_defs)
qed

text \<open>In this run worker 0 waits for task 6, which never finishes, and is woken up because task 7 arrives.\<close>

theorem nested_wait_returns_at_any_wakeup_witness:
  "\<exists>s s'. runs (threadpool_step 2) (tp_parked @ [Tp_external 7, Tp_wait 0 Ev_recheck, Tp_wait 0 Ev_resume])
      (threadpool_data 2 []) = Some s
     \<and> threadpool_step 2 (Tp_step 0 [] False) s = Some s'
     \<and> map loop_pc (thread_loops s' ! 0) = [Lp_run 5] \<and> 6 \<notin> set (tp_finished s')"
proof -
  let ?es = "tp_parked @ [Tp_external 7, Tp_wait 0 Ev_recheck, Tp_wait 0 Ev_resume]"
  have "map_option (\<lambda>s. (top_pc 0 s, map loop_wait_task (thread_loops s ! 0), map loop_pc (thread_loops (loop_return 0 (remove_waiter 0 s)) ! 0),
        tp_finished s)) (runs (threadpool_step 2) ?es (threadpool_data 2 [])) =
      Some (Some (Lp_woken 1), [Some 6, None], [Lp_run 5], [])"
    by code_simp
  then obtain s where s: "runs (threadpool_step 2) ?es (threadpool_data 2 []) = Some s"
      "top_pc 0 s = Some (Lp_woken 1)" "map loop_wait_task (thread_loops s ! 0) = [Some 6, None]"
      "map loop_pc (thread_loops (loop_return 0 (remove_waiter 0 s)) ! 0) = [Lp_run 5]" "tp_finished s = []" by auto
  have w: "loop_wait_task (hd (thread_loops s ! 0)) \<noteq> None" using s(3) by (cases "thread_loops s ! 0") auto
  have f: "tp_finished (loop_return 0 (remove_waiter 0 s)) = []"
    using s(5) by (simp add: loop_return_def set_loops_def remove_waiter_def Let_def split: option.split)
  show ?thesis using nested_wait_returns_at_any_wakeup[OF s(1) _ s(2) w, of "[]" False] s(1,4) f by auto
qed

subsection \<open>Starting the workers\<close>

lemma spawn_all:
  "0 < threads \<Longrightarrow> \<exists>hs. recursive_spawn_worker_thread index threads = Some ([index..<index + threads], hs)
     \<and> mset hs = mset [Suc index..<index + threads]"
proof (induction threads arbitrary: index rule: less_induct)
  case (less threads)
  show ?case
  proof (cases "threads = 1")
    case True
    then show ?thesis by (subst recursive_spawn_worker_thread.simps) simp
  next
    case False
    define h where "h = threads div 2"
    have h: "0 < h" "h < threads" "0 < threads - h" "threads - h < threads"
      using less.prems False by (simp_all add: h_def)
    define mid where "mid = index + h"
    obtain a where a: "recursive_spawn_worker_thread mid (threads - h) = Some ([mid..<index + threads], a)"
        "mset a = mset [Suc mid..<index + threads]"
      using less.IH[OF h(4,3), of mid] h(2) by (auto simp: mid_def)
    obtain b where b: "recursive_spawn_worker_thread index h = Some ([index..<mid], b)"
        "mset b = mset [Suc index..<mid]"
      using less.IH[OF h(2,1), of index] by (auto simp: mid_def)
    have "recursive_spawn_worker_thread index threads = Some ([index..<mid] @ [mid..<index + threads], mid # b @ a)"
      using False a(1) b(1) by (subst recursive_spawn_worker_thread.simps) (simp add: Let_def flip: h_def mid_def)
    moreover have "[index..<mid] @ [mid..<index + threads] = [index..<index + threads]"
      using h upt_add_eq_append[of index mid "threads - h"] by (simp add: mid_def)
    moreover have "mset (mid # b @ a) = mset [Suc index..<index + threads]"
    proof -
      have "[Suc index..<index + threads] = [Suc index..<mid] @ mid # [Suc mid..<index + threads]"
        using h upt_add_eq_append[of "Suc index" mid "threads - h"] upt_conv_Cons[of mid "index + threads"]
        by (simp add: mid_def)
      then show ?thesis using a(2) b(2) by simp
    qed
    ultimately show ?thesis by auto
  qed
qed

lemma spawn_terminates_nonzero:
  assumes "recursive_spawn_worker_thread index threads = Some r"
  shows "threads \<noteq> 0"
proof (rule recursive_spawn_worker_thread.raw_induct[where P = "\<lambda>index threads r. threads \<noteq> 0", OF _ assms])
  fix f index threads and y :: "nat list \<times> nat list"
  assume ih: "\<And>index threads y. f index threads = Some y \<Longrightarrow> threads \<noteq> (0::nat)"
    and st: "(if threads = 1 then Some ([index], [])
      else let mid = index + threads div 2 in
        Option.bind (f mid (threads - threads div 2)) (\<lambda>(ws, hs).
          Option.bind (f index (threads div 2)) (\<lambda>(ws', hs'). Some (ws' @ ws, mid # hs' @ hs)))) = Some y"
  show "threads \<noteq> 0"
  proof
    assume "threads = 0"
    with st obtain x where "f index 0 = Some x" by (auto simp: Let_def Option.bind_eq_Some_conv)
    from ih[OF this] show False by simp
  qed
qed

text \<open>
  The constructor of the pool starts every worker: for \<open>n\<close> threads, \<open>n > 0\<close>, each index below \<open>n\<close>
  enters \<open>worker_thread\<close> exactly once, and each entry of \<open>thread_data\<close> gets exactly one thread handle.
  With no threads the recursion never ends.
\<close>

theorem threadpool_starts_each_worker:
  "(0 < n \<longrightarrow> (\<exists>hs. threadpool_scheduler n = Some ([0..<n], hs) \<and> mset hs = mset [0..<n]))
   \<and> threadpool_scheduler 0 = None"
proof -
  have "threadpool_scheduler 0 = None"
    using spawn_terminates_nonzero[of 0 0] by (cases "recursive_spawn_worker_thread 0 0") (auto simp: threadpool_scheduler_def)
  moreover have "\<exists>hs. threadpool_scheduler n = Some ([0..<n], hs) \<and> mset hs = mset [0..<n]" if "0 < n"
    using spawn_all[OF that, of 0] upt_conv_Cons[OF that] by (auto simp: threadpool_scheduler_def)
  ultimately show ?thesis by simp
qed

theorem threadpool_starts_each_worker_witness:
  "\<exists>hs. threadpool_scheduler 5 = Some ([0, 1, 2, 3, 4], hs) \<and> mset hs = {#0, 1, 2, 3, 4#}"
  using threadpool_starts_each_worker[of 5] by (simp add: upt_rec numeral_eq_Suc)

end
