(* ===== verification/Wait_Queue_Scheduler.thy ===== *)
theory Wait_Queue_Scheduler
  imports Prelude
begin

text \<open>
  \<open>src/CustomSchedulerWaitQueue.h\<close> and \<open>.cpp\<close>: a scheduler whose tasks are run by the threads that call
  \<open>waitAndPerformAllTasks\<close>.

  The mutex is held by the consumer that is at one of the points \<^term>\<open>holds\<close> below; the producer's
  critical section is one event.  \<open>_condVar.wait(lock, pred)\<close> is its loop: test the predicate with the
  mutex held, release it and fall asleep, wake up, take the mutex again.  \<open>_stopWaiting\<close> is an atomic
  flag that is written without the mutex.  A task that arrives after the stop is destroyed by \<open>schedule\<close>.
\<close>

section \<open>State and operations\<close>

datatype consumer_pc =
    Cs_idle              \<comment> \<open>not inside \<open>waitAndPerformAllTasks\<close>\<close>
  | Cs_entry             \<comment> \<open>about to lock the mutex\<close>
  | Cs_predicate         \<comment> \<open>mutex held, about to test the predicate\<close>
  | Cs_blocking          \<comment> \<open>mutex held, the predicate was false\<close>
  | Cs_asleep
  | Cs_woken             \<comment> \<open>about to lock the mutex again\<close>
  | Cs_loop              \<comment> \<open>mutex held, at the head of the loop over the queue\<close>
  | Cs_run nat           \<comment> \<open>running a task\<close>
  | Cs_relock            \<comment> \<open>about to lock the mutex after a task\<close>

record wait_queue =
  stop_waiting :: bool
  wq_queue :: "nat list"
  consumers :: "consumer_pc list"
  wq_checked :: "nat list"        \<comment> \<open>calls of \<open>schedule\<close> that are past their test of the flag\<close>
  wq_notifying :: nat             \<comment> \<open>calls that have yet to call \<open>notify_all\<close>\<close>
  wq_accepted :: "nat list"
  wq_started :: "nat list"
  wq_dropped :: "nat list"

definition wait_queue :: "nat \<Rightarrow> wait_queue" where
  "wait_queue n = \<lparr>stop_waiting = False, wq_queue = [], consumers = replicate n Cs_idle, wq_checked = [],
     wq_notifying = 0, wq_accepted = [], wq_started = [], wq_dropped = []\<rparr>"

fun holds :: "consumer_pc \<Rightarrow> bool" where
  "holds Cs_predicate = True"
| "holds Cs_blocking = True"
| "holds Cs_loop = True"
| "holds _ = False"

definition mutex_free :: "wait_queue \<Rightarrow> bool" where
  "mutex_free s = (\<forall>p \<in> set (consumers s). \<not> holds p)"

definition consumer_goto :: "nat \<Rightarrow> consumer_pc \<Rightarrow> wait_queue \<Rightarrow> wait_queue" where
  "consumer_goto i p s = s\<lparr>consumers := (consumers s)[i := p]\<rparr>"

text \<open>The predicate of the condition variable.\<close>

definition work_or_exit :: "wait_queue \<Rightarrow> bool" where
  "work_or_exit s \<longleftrightarrow> wq_queue s \<noteq> [] \<or> stop_waiting s"

text \<open>One step of \<open>waitAndPerformAllTasks\<close>.\<close>

fun perform_step :: "nat \<Rightarrow> consumer_pc \<Rightarrow> wait_queue \<Rightarrow> wait_queue option" where
  "perform_step i Cs_idle s = Some (consumer_goto i Cs_entry s)"
| "perform_step i Cs_entry s = (if mutex_free s then Some (consumer_goto i Cs_predicate s) else None)"
| "perform_step i Cs_predicate s = Some (consumer_goto i (if work_or_exit s then Cs_loop else Cs_blocking) s)"
| "perform_step i Cs_blocking s = Some (consumer_goto i Cs_asleep s)"
| "perform_step i Cs_asleep s = Some (consumer_goto i Cs_woken s)"
| "perform_step i Cs_woken s = (if mutex_free s then Some (consumer_goto i Cs_predicate s) else None)"
| "perform_step i Cs_loop s =
     (case wq_queue s of
        [] \<Rightarrow> Some (consumer_goto i Cs_idle s)
      | t # ts \<Rightarrow> Some (consumer_goto i (Cs_run t) (s\<lparr>wq_queue := ts, wq_started := wq_started s @ [t]\<rparr>)))"
| "perform_step i (Cs_run t) s = Some (consumer_goto i Cs_relock s)"
| "perform_step i Cs_relock s = (if mutex_free s then Some (consumer_goto i Cs_loop s) else None)"

text \<open>\<open>schedule\<close>: test the flag; push under the mutex; notify.\<close>

definition schedule_test :: "nat \<Rightarrow> wait_queue \<Rightarrow> wait_queue" where
  "schedule_test t s =
     (if stop_waiting s then s\<lparr>wq_dropped := t # wq_dropped s\<rparr> else s\<lparr>wq_checked := t # wq_checked s\<rparr>)"

definition schedule_push :: "nat \<Rightarrow> wait_queue \<Rightarrow> wait_queue option" where
  "schedule_push t s =
     (if t \<in> set (wq_checked s) \<and> mutex_free s
      then Some (s\<lparr>wq_checked := remove1 t (wq_checked s), wq_queue := wq_queue s @ [t],
                   wq_accepted := wq_accepted s @ [t], wq_notifying := Suc (wq_notifying s)\<rparr>)
      else None)"

definition notify_consumers :: "wait_queue \<Rightarrow> wait_queue option" where
  "notify_consumers s =
     (if wq_notifying s = 0 then None
      else Some (s\<lparr>wq_notifying := wq_notifying s - 1,
        consumers := map (\<lambda>p. if p = Cs_asleep then Cs_woken else p) (consumers s)\<rparr>))"

text \<open>\<open>stopWaiting\<close> sets the flag; the notification is a later step.\<close>

definition stopWaiting :: "wait_queue \<Rightarrow> wait_queue" where
  "stopWaiting s = s\<lparr>stop_waiting := True, wq_notifying := Suc (wq_notifying s)\<rparr>"

definition isStopRequested :: "wait_queue \<Rightarrow> bool" where
  "isStopRequested s = stop_waiting s"

text \<open>
  \<open>Wq_step\<close> is a step of a consumer that is not asleep, \<open>Wq_spurious\<close> a wake-up that nobody caused.
\<close>

datatype wait_queue_event =
  Wq_step nat | Wq_spurious nat | Wq_test nat | Wq_push nat | Wq_notify | Wq_stop

fun wait_queue_step :: "wait_queue_event \<Rightarrow> wait_queue \<Rightarrow> wait_queue option" where
  "wait_queue_step (Wq_step i) s =
     (if i < length (consumers s) \<and> consumers s ! i \<noteq> Cs_asleep then perform_step i (consumers s ! i) s else None)"
| "wait_queue_step (Wq_spurious i) s =
     (if i < length (consumers s) \<and> consumers s ! i = Cs_asleep then perform_step i Cs_asleep s else None)"
| "wait_queue_step (Wq_test t) s = Some (schedule_test t s)"
| "wait_queue_step (Wq_push t) s = schedule_push t s"
| "wait_queue_step Wq_notify s = notify_consumers s"
| "wait_queue_step Wq_stop s = Some (stopWaiting s)"

section \<open>Invariant\<close>

definition wait_queue_inv :: "wait_queue \<Rightarrow> bool" where
  "wait_queue_inv s \<longleftrightarrow> number holds (consumers s) \<le> 1
     \<and> wq_accepted s = wq_started s @ wq_queue s
     \<and> (Cs_blocking \<in> set (consumers s) \<longrightarrow> wq_queue s = [])
     \<and> (Cs_asleep \<in> set (consumers s) \<and> wq_queue s \<noteq> [] \<longrightarrow> 0 < wq_notifying s)"

lemma mutex_free_number: "mutex_free s \<longleftrightarrow> number holds (consumers s) = 0"
  by (auto simp: mutex_free_def number_def filter_empty_conv)

lemma in_set_update: "x \<in> set (xs[i := y]) \<Longrightarrow> x = y \<or> x \<in> set xs"
  using set_update_subset_insert[of xs i y] by auto

text \<open>A step of a consumer that leaves the queue alone.\<close>

lemma consumer_goto_inv:
  assumes "wait_queue_inv s" "i < length (consumers s)"
    and "holds p \<longrightarrow> holds (consumers s ! i) \<or> mutex_free s"
    and "p = Cs_blocking \<or> p = Cs_asleep \<longrightarrow> wq_queue s = []"
  shows "wait_queue_inv (consumer_goto i p s)"
proof -
  have "number holds ((consumers s)[i := p]) \<le> 1"
    using number_move[OF assms(2), of holds p] assms(1,3)
    by (cases "holds p"; cases "holds (consumers s ! i)") (auto simp: wait_queue_inv_def mutex_free_number)
  then show ?thesis using assms(1,4)
    by (auto simp: wait_queue_inv_def consumer_goto_def dest!: in_set_update)
qed

lemma perform_step_inv:
  assumes inv: "wait_queue_inv s" and i: "i < length (consumers s)"
    and st: "perform_step i (consumers s ! i) s = Some s'"
  shows "wait_queue_inv s'"
proof (cases "consumers s ! i")
  case Cs_loop
  show ?thesis
  proof (cases "wq_queue s")
    case (Cons t ts)
    let ?s = "s\<lparr>wq_queue := ts, wq_started := wq_started s @ [t]\<rparr>"
    have "wait_queue_inv ?s" using inv Cons by (auto simp: wait_queue_inv_def)
    then have "wait_queue_inv (consumer_goto i (Cs_run t) ?s)"
      by (rule consumer_goto_inv) (use i in simp_all)
    then show ?thesis using st Cs_loop Cons by simp
  qed (use Cs_loop st consumer_goto_inv[OF inv i] in auto)
next
  case Cs_blocking
  then have "Cs_blocking \<in> set (consumers s)" using i by (metis nth_mem)
  then have "wq_queue s = []" using inv by (simp add: wait_queue_inv_def)
  then show ?thesis using st Cs_blocking consumer_goto_inv[OF inv i] by auto
qed (use st consumer_goto_inv[OF inv i] in \<open>auto simp: work_or_exit_def split: if_splits\<close>)

lemma wait_queue_inv_step:
  assumes inv: "wait_queue_inv s" and st: "wait_queue_step e s = Some s'"
  shows "wait_queue_inv s'"
proof (cases e)
  case (Wq_push t)
  then have "mutex_free s" using st by (simp add: schedule_push_def split: if_splits)
  then have "Cs_blocking \<notin> set (consumers s)" by (auto simp: mutex_free_def)
  then show ?thesis using Wq_push st inv
    by (auto simp: schedule_push_def wait_queue_inv_def split: if_splits)
next
  case Wq_notify
  have "number holds (map (\<lambda>p. if p = Cs_asleep then Cs_woken else p) ps) = number holds ps" for ps
    by (induction ps) auto
  then show ?thesis using st inv Wq_notify
    by (auto simp: notify_consumers_def wait_queue_inv_def image_iff split: if_splits)
next
  case (Wq_test t)
  then show ?thesis using st inv by (auto simp: schedule_test_def wait_queue_inv_def split: if_splits)
next
  case Wq_stop
  then show ?thesis using st inv by (auto simp: stopWaiting_def wait_queue_inv_def)
next
  case (Wq_step i)
  then show ?thesis using st by (auto intro: perform_step_inv[OF inv] split: if_splits)
next
  case (Wq_spurious i)
  then have "i < length (consumers s)" "perform_step i (consumers s ! i) s = Some s'"
    using st by (simp_all split: if_splits)
  then show ?thesis by (rule perform_step_inv[OF inv])
qed

interpretation wait_queue: safety_system wait_queue_step "wait_queue n" wait_queue_inv for n
proof
  show "wait_queue_inv (wait_queue n)" by (simp add: wait_queue_inv_def wait_queue_def number_replicate)
qed (rule wait_queue_inv_step)

section \<open>Properties\<close>

text \<open>
  C23. The queue of \<open>CustomSchedulerWaitQueue\<close>, under every interleaving of producers and consumers: the
  tasks are started in the order in which they were pushed, none twice, and those not started are in the
  queue; at most one consumer is inside the mutex; a consumer leaves \<open>waitAndPerformAllTasks\<close> only when
  the queue is empty; and no wake-up for a task is lost: when a task is queued and no notification is
  outstanding, no consumer sleeps.
\<close>

theorem wait_queue_fifo_no_lost_task:
  assumes "runs wait_queue_step es (wait_queue n) = Some s"
  shows "wq_accepted s = wq_started s @ wq_queue s
    \<and> length (filter holds (consumers s)) \<le> 1
    \<and> (wq_queue s \<noteq> [] \<and> wq_notifying s = 0 \<longrightarrow> Cs_asleep \<notin> set (consumers s))
    \<and> (\<forall>i s'. wait_queue_step (Wq_step i) s = Some s' \<and> consumers s ! i \<noteq> Cs_idle \<and> consumers s' ! i = Cs_idle
        \<longrightarrow> wq_queue s' = [])"
proof -
  have inv: "wait_queue_inv s" by (rule wait_queue.inv_reachable[OF assms])
  have "wq_queue s' = []"
    if "wait_queue_step (Wq_step i) s = Some s'" "consumers s ! i \<noteq> Cs_idle" "consumers s' ! i = Cs_idle" for i s'
    using that by (cases "consumers s ! i") (auto simp: consumer_goto_def split: if_splits list.splits)
  then have "\<forall>i s'. wait_queue_step (Wq_step i) s = Some s' \<and> consumers s ! i \<noteq> Cs_idle \<and> consumers s' ! i = Cs_idle
      \<longrightarrow> wq_queue s' = []" by blast
  moreover have "Cs_asleep \<notin> set (consumers s)" if "wq_queue s \<noteq> []" "wq_notifying s = 0"
    using inv that by (auto simp: wait_queue_inv_def)
  ultimately show ?thesis using inv by (simp add: wait_queue_inv_def number_def)
qed

theorem wait_queue_fifo_no_lost_task_witness:
  "\<exists>s. runs wait_queue_step [Wq_step 0, Wq_step 0, Wq_step 0, Wq_step 0, Wq_test 7, Wq_test 8, Wq_push 7, Wq_push 8,
       Wq_notify, Wq_notify, Wq_step 0, Wq_step 0, Wq_step 0] (wait_queue 1) = Some s
     \<and> wq_started s = [7] \<and> wq_queue s = [8] \<and> Cs_asleep \<notin> set (consumers s)"
proof -
  let ?es = "[Wq_step 0, Wq_step 0, Wq_step 0, Wq_step 0, Wq_test 7, Wq_test 8, Wq_push 7, Wq_push 8,
       Wq_notify, Wq_notify, Wq_step 0, Wq_step 0, Wq_step 0]"
  have "map_option (\<lambda>s. (wq_started s, wq_queue s, wq_notifying s)) (runs wait_queue_step ?es (wait_queue 1)) = Some ([7], [8], 0)"
    by code_simp
  then obtain s where s: "runs wait_queue_step ?es (wait_queue 1) = Some s" "wq_started s = [7]" "wq_queue s = [8]"
      "wq_notifying s = 0" by auto
  then show ?thesis using wait_queue_fifo_no_lost_task[OF s(1)] by (intro exI[of _ s]) simp
qed

text \<open>
  A stop request can be lost: \<open>stopWaiting\<close> sets its flag and notifies without holding the mutex, so
  both may fall between a consumer's test of the predicate and its going to sleep.  In the final state of
  this run the flag is set, the notification was given, and the only consumer sleeps; a task that
  is scheduled now is destroyed, so nothing but a spurious wake-up ever wakes the consumer.
\<close>

theorem stop_waiting_can_be_lost:
  "\<exists>s. runs wait_queue_step [Wq_step 0, Wq_step 0, Wq_step 0, Wq_stop, Wq_notify, Wq_step 0] (wait_queue 1) = Some s
     \<and> isStopRequested s \<and> consumers s = [Cs_asleep] \<and> wq_notifying s = 0 \<and> wq_checked s = []
     \<and> wait_queue_step (Wq_step 0) s = None \<and> wait_queue_step Wq_notify s = None
     \<and> consumers (schedule_test t s) = [Cs_asleep] \<and> wait_queue_step (Wq_push t) (schedule_test t s) = None"
proof -
  let ?es = "[Wq_step 0, Wq_step 0, Wq_step 0, Wq_stop, Wq_notify, Wq_step 0]"
  have "map_option (\<lambda>s. (stop_waiting s, consumers s, wq_notifying s, wq_checked s))
      (runs wait_queue_step ?es (wait_queue 1)) = Some (True, [Cs_asleep], 0, [])"
    by code_simp
  then obtain s where "runs wait_queue_step ?es (wait_queue 1) = Some s" "stop_waiting s" "consumers s = [Cs_asleep]"
      "wq_notifying s = 0" "wq_checked s = []" by auto
  then show ?thesis by (auto simp: isStopRequested_def schedule_test_def schedule_push_def notify_consumers_def)
qed

end
