(* ===== verification/Balancer_Scheduler.thy ===== *)
theory Balancer_Scheduler
  imports Prelude
begin

text \<open>
  \<open>src/CustomSchedulerBalancer.h\<close> and \<open>.cpp\<close>: a scheduler with one worker thread, and the choice of the
  least loaded of several such schedulers.

  The mutex is held by the worker at the points \<^term>\<open>balancer_locked\<close> or by the destructor at the points
  \<^term>\<open>destructor_locked\<close>; the producer's critical section is one event.  \<open>_stopThread\<close>, \<open>_taskIsInWork\<close> and
  \<open>_threadExitSuccess\<close> are atomics that are accessed without the mutex.  In the worker's loop over the
  queue the argument of a program point says whether the \<open>unique_lock\<close> owns the mutex: the source locks it
  after a task only when it sees the stop flag, and then tests the flag again.
\<close>

section \<open>State\<close>

datatype balancer_pc =
    Bw_while            \<comment> \<open>\<open>while (_stopThread == false)\<close>\<close>
  | Bw_entry
  | Bw_predicate
  | Bw_blocking
  | Bw_asleep
  | Bw_woken
  | Bw_if               \<comment> \<open>mutex held, before \<open>if (_queue.size() > 0)\<close>\<close>
  | Bw_body bool        \<comment> \<open>at the start of the loop's body\<close>
  | Bw_start nat        \<comment> \<open>mutex unlocked, before \<open>_taskIsInWork = true\<close>\<close>
  | Bw_run nat
  | Bw_after            \<comment> \<open>after the task, before the flag is tested\<close>
  | Bw_relock
  | Bw_cond bool        \<comment> \<open>at the loop's condition\<close>
  | Bw_exit             \<comment> \<open>out of the loop, before \<open>_threadExitSuccess = true\<close>\<close>
  | Bw_exit_notify      \<comment> \<open>before \<open>_condVarExit.notify_all\<close>\<close>
  | Bw_exited
  | Bw_terminated       \<comment> \<open>\<open>unlock\<close> of a mutex that is not owned has thrown: \<open>std::terminate\<close>\<close>

datatype destructor_pc =
    Bd_none | Bd_notify | Bd_entry | Bd_predicate | Bd_blocking | Bd_asleep | Bd_woken | Bd_done

record balancer =
  stop_thread :: bool
  task_in_work :: bool
  thread_exit_success :: bool
  bal_queue :: "nat list"
  bal_worker :: balancer_pc
  bal_destructor :: destructor_pc
  bal_checked :: "nat list"      \<comment> \<open>calls of \<open>schedule\<close> that are past their test of the flag\<close>
  bal_notifying :: nat           \<comment> \<open>calls of \<open>schedule\<close> that have yet to notify\<close>
  bal_accepted :: "nat list"
  bal_started :: "nat list"
  bal_dropped :: "nat list"

definition CustomSchedulerBalancer :: balancer where
  "CustomSchedulerBalancer = \<lparr>stop_thread = False, task_in_work = False, thread_exit_success = False,
     bal_queue = [], bal_worker = Bw_while, bal_destructor = Bd_none, bal_checked = [], bal_notifying = 0,
     bal_accepted = [], bal_started = [], bal_dropped = []\<rparr>"

fun balancer_locked :: "balancer_pc \<Rightarrow> bool" where
  "balancer_locked Bw_predicate = True"
| "balancer_locked Bw_blocking = True"
| "balancer_locked Bw_if = True"
| "balancer_locked (Bw_body b) = b"
| "balancer_locked (Bw_cond b) = b"
| "balancer_locked _ = False"

fun destructor_locked :: "destructor_pc \<Rightarrow> bool" where
  "destructor_locked Bd_predicate = True"
| "destructor_locked Bd_blocking = True"
| "destructor_locked _ = False"

definition bal_mutex_free :: "balancer \<Rightarrow> bool" where
  "bal_mutex_free s \<longleftrightarrow> \<not> balancer_locked (bal_worker s) \<and> \<not> destructor_locked (bal_destructor s)"

section \<open>Operations\<close>

text \<open>The thread function.\<close>

definition worker_body :: "bool \<Rightarrow> balancer \<Rightarrow> balancer option" where
  "worker_body owned s =
     (case bal_queue s of
        [] \<Rightarrow> None
      | t # ts \<Rightarrow>
        let s' = s\<lparr>bal_queue := ts\<rparr>
        in Some (if owned then s'\<lparr>bal_worker := Bw_start t, bal_started := bal_started s @ [t]\<rparr>
           else s'\<lparr>bal_worker := Bw_terminated\<rparr>))"

fun worker_thread_step :: "balancer_pc \<Rightarrow> balancer \<Rightarrow> balancer option" where
  "worker_thread_step Bw_while s =
     Some (s\<lparr>bal_worker := (if stop_thread s then Bw_exit else Bw_entry)\<rparr>)"
| "worker_thread_step Bw_entry s = (if bal_mutex_free s then Some (s\<lparr>bal_worker := Bw_predicate\<rparr>) else None)"
| "worker_thread_step Bw_predicate s =
     Some (s\<lparr>bal_worker := (if bal_queue s \<noteq> [] \<or> stop_thread s then Bw_if else Bw_blocking)\<rparr>)"
| "worker_thread_step Bw_blocking s = Some (s\<lparr>bal_worker := Bw_asleep\<rparr>)"
| "worker_thread_step Bw_asleep s = None"
| "worker_thread_step Bw_woken s = (if bal_mutex_free s then Some (s\<lparr>bal_worker := Bw_predicate\<rparr>) else None)"
| "worker_thread_step Bw_if s = Some (s\<lparr>bal_worker := (if bal_queue s \<noteq> [] then Bw_body True else Bw_while)\<rparr>)"
| "worker_thread_step (Bw_body owned) s = worker_body owned s"
| "worker_thread_step (Bw_start t) s = Some (s\<lparr>bal_worker := Bw_run t, task_in_work := True\<rparr>)"
| "worker_thread_step (Bw_run t) s = Some (s\<lparr>bal_worker := Bw_after, task_in_work := False\<rparr>)"
| "worker_thread_step Bw_after s = Some (s\<lparr>bal_worker := (if stop_thread s then Bw_relock else Bw_cond False)\<rparr>)"
| "worker_thread_step Bw_relock s = (if bal_mutex_free s then Some (s\<lparr>bal_worker := Bw_cond True\<rparr>) else None)"
| "worker_thread_step (Bw_cond owned) s =
     Some (s\<lparr>bal_worker := (if stop_thread s \<and> bal_queue s \<noteq> [] then Bw_body owned else Bw_while)\<rparr>)"
| "worker_thread_step Bw_exit s = Some (s\<lparr>bal_worker := Bw_exit_notify, thread_exit_success := True\<rparr>)"
| "worker_thread_step Bw_exit_notify s =
     Some (s\<lparr>bal_worker := Bw_exited, bal_destructor := (if bal_destructor s = Bd_asleep then Bd_woken else bal_destructor s)\<rparr>)"
| "worker_thread_step Bw_exited s = None"
| "worker_thread_step Bw_terminated s = None"

text \<open>The destructor.\<close>

fun destructor_step :: "destructor_pc \<Rightarrow> balancer \<Rightarrow> balancer option" where
  "destructor_step Bd_none s = Some (s\<lparr>stop_thread := True, bal_destructor := Bd_notify\<rparr>)"
| "destructor_step Bd_notify s =
     Some (s\<lparr>bal_worker := (if bal_worker s = Bw_asleep then Bw_woken else bal_worker s), bal_destructor := Bd_entry\<rparr>)"
| "destructor_step Bd_entry s = (if bal_mutex_free s then Some (s\<lparr>bal_destructor := Bd_predicate\<rparr>) else None)"
| "destructor_step Bd_predicate s =
     Some (s\<lparr>bal_destructor := (if thread_exit_success s then Bd_done else Bd_blocking)\<rparr>)"
| "destructor_step Bd_blocking s = Some (s\<lparr>bal_destructor := Bd_asleep\<rparr>)"
| "destructor_step Bd_asleep s = None"
| "destructor_step Bd_woken s = (if bal_mutex_free s then Some (s\<lparr>bal_destructor := Bd_predicate\<rparr>) else None)"
| "destructor_step Bd_done s = None"

text \<open>\<open>schedule\<close>.\<close>

definition bal_schedule_test :: "nat \<Rightarrow> balancer \<Rightarrow> balancer" where
  "bal_schedule_test t s =
     (if stop_thread s then s\<lparr>bal_dropped := t # bal_dropped s\<rparr> else s\<lparr>bal_checked := t # bal_checked s\<rparr>)"

definition bal_schedule_push :: "nat \<Rightarrow> balancer \<Rightarrow> balancer option" where
  "bal_schedule_push t s =
     (if t \<in> set (bal_checked s) \<and> bal_mutex_free s
      then Some (s\<lparr>bal_checked := remove1 t (bal_checked s), bal_queue := bal_queue s @ [t],
                   bal_accepted := bal_accepted s @ [t], bal_notifying := Suc (bal_notifying s)\<rparr>)
      else None)"

definition bal_schedule_notify :: "balancer \<Rightarrow> balancer option" where
  "bal_schedule_notify s =
     (if bal_notifying s = 0 then None
      else Some (s\<lparr>bal_notifying := bal_notifying s - 1,
        bal_worker := (if bal_worker s = Bw_asleep then Bw_woken else bal_worker s)\<rparr>))"

datatype balancer_event =
  Bal_worker | Bal_spurious | Bal_destroy | Bal_test nat | Bal_push nat | Bal_notify

fun balancer_step :: "balancer_event \<Rightarrow> balancer \<Rightarrow> balancer option" where
  "balancer_step Bal_worker s = worker_thread_step (bal_worker s) s"
| "balancer_step Bal_spurious s =
     (if bal_worker s = Bw_asleep then Some (s\<lparr>bal_worker := Bw_woken\<rparr>)
      else if bal_destructor s = Bd_asleep then Some (s\<lparr>bal_destructor := Bd_woken\<rparr>) else None)"
| "balancer_step Bal_destroy s = destructor_step (bal_destructor s) s"
| "balancer_step (Bal_test t) s = Some (bal_schedule_test t s)"
| "balancer_step (Bal_push t) s = bal_schedule_push t s"
| "balancer_step Bal_notify s = bal_schedule_notify s"

definition getQueueSize :: "balancer \<Rightarrow> nat" where
  "getQueueSize s = length (bal_queue s)"

definition taskIsInWork :: "balancer \<Rightarrow> bool" where
  "taskIsInWork s = task_in_work s"

section \<open>Choosing a scheduler\<close>

text \<open>
  An entry of \<open>schedulersInfo\<close>, with its address in the vector.  The comparison's second test reads
  \<open>s1\<close> twice, as in the source.
\<close>

record sort_struct =
  sort_addr :: nat
  sort_size :: nat
  sort_in_work :: bool

definition sort_func :: "sort_struct \<Rightarrow> sort_struct \<Rightarrow> bool" where
  "sort_func s1 s2 =
     (if sort_size s1 < sort_size s2 then True
      else if \<not> sort_in_work s1 \<and> sort_in_work s1 then True
      else if sort_addr s1 < sort_addr s2 then True
      else False)"

definition schedulers_info :: "balancer list \<Rightarrow> sort_struct list" where
  "schedulers_info bs = map (\<lambda>i. \<lparr>sort_addr = i, sort_size = getQueueSize (bs ! i),
     sort_in_work = taskIsInWork (bs ! i)\<rparr>) [0..<length bs]"

section \<open>Invariant\<close>

definition balancer_inv :: "balancer \<Rightarrow> bool" where
  "balancer_inv s \<longleftrightarrow>
     (bal_destructor s = Bd_none \<longleftrightarrow> \<not> stop_thread s)
   \<and> \<not> (balancer_locked (bal_worker s) \<and> destructor_locked (bal_destructor s))
   \<and> (\<not> stop_thread s \<longrightarrow>
        bal_worker s \<notin> {Bw_exit, Bw_exit_notify, Bw_exited, Bw_terminated, Bw_relock, Bw_cond True, Bw_body False}
      \<and> bal_accepted s = bal_started s @ bal_queue s
      \<and> (bal_worker s = Bw_asleep \<and> bal_queue s \<noteq> [] \<longrightarrow> 0 < bal_notifying s))
   \<and> (bal_worker s = Bw_blocking \<longrightarrow> bal_queue s = [])
   \<and> (bal_worker s = Bw_body True \<longrightarrow> bal_queue s \<noteq> [])
   \<and> (thread_exit_success s \<longleftrightarrow> bal_worker s \<in> {Bw_exit_notify, Bw_exited})
   \<and> (bal_destructor s = Bd_done \<longrightarrow> thread_exit_success s)"

lemmas balancer_inv_simps = balancer_inv_def bal_mutex_free_def

lemma worker_thread_step_inv:
  assumes "balancer_inv s" "worker_thread_step (bal_worker s) s = Some s'"
  shows "balancer_inv s'"
  using assms
  by (cases "bal_worker s"; simp add: balancer_inv_simps worker_body_def Let_def split: if_splits list.splits; force)

lemma destructor_step_inv:
  assumes "balancer_inv s" "destructor_step (bal_destructor s) s = Some s'"
  shows "balancer_inv s'"
  using assms
  by (cases "bal_destructor s"; simp add: balancer_inv_simps split: if_splits; force)

lemma balancer_step_inv:
  assumes inv: "balancer_inv s" and st: "balancer_step e s = Some s'"
  shows "balancer_inv s'"
proof (cases e)
  case Bal_worker
  then show ?thesis using worker_thread_step_inv[OF inv] st by simp
next
  case Bal_destroy
  then show ?thesis using destructor_step_inv[OF inv] st by simp
next
  case Bal_spurious
  then show ?thesis using inv st by (simp add: balancer_inv_simps split: if_splits; force)
next
  case (Bal_test t)
  then show ?thesis using inv st by (simp add: balancer_inv_simps bal_schedule_test_def split: if_splits; force)
next
  case (Bal_push t)
  then show ?thesis using inv st by (simp add: balancer_inv_simps bal_schedule_push_def split: if_splits; force)
next
  case Bal_notify
  then show ?thesis using inv st by (simp add: balancer_inv_simps bal_schedule_notify_def split: if_splits; force)
qed

interpretation balancer: safety_system balancer_step CustomSchedulerBalancer balancer_inv
proof
  show "balancer_inv CustomSchedulerBalancer" by (simp add: balancer_inv_def CustomSchedulerBalancer_def)
qed (rule balancer_step_inv)

section \<open>Properties\<close>

text \<open>
  C33. While it is not being destroyed, a \<open>CustomSchedulerBalancer\<close> starts the tasks in the order in which
  they were pushed, each once; its worker never exits and never unlocks a mutex it does not own; and no
  wake-up is lost.  The destructor returns only when the worker has left its loop and set \<open>_threadExitSuccess\<close>; it may still have to notify.
\<close>

theorem balancer_fifo_until_destroyed:
  assumes "runs balancer_step es CustomSchedulerBalancer = Some s"
  shows "(bal_destructor s = Bd_none \<longrightarrow>
        bal_accepted s = bal_started s @ bal_queue s
      \<and> bal_worker s \<noteq> Bw_exited \<and> bal_worker s \<noteq> Bw_terminated
      \<and> (bal_queue s \<noteq> [] \<and> bal_notifying s = 0 \<longrightarrow> bal_worker s \<noteq> Bw_asleep))
    \<and> (bal_destructor s = Bd_done \<longrightarrow> bal_worker s = Bw_exit_notify \<or> bal_worker s = Bw_exited)"
  using balancer.inv_reachable[OF assms] by (simp add: balancer_inv_def; force)

theorem balancer_fifo_until_destroyed_witness:
  "\<exists>s. runs balancer_step (replicate 4 Bal_worker @ [Bal_test 5, Bal_test 6, Bal_push 5, Bal_push 6, Bal_notify, Bal_notify]
       @ replicate 4 Bal_worker) CustomSchedulerBalancer = Some s
     \<and> bal_started s = [5] \<and> bal_queue s = [6] \<and> bal_accepted s = [5] @ [6]"
proof -
  let ?es = "replicate 4 Bal_worker @ [Bal_test 5, Bal_test 6, Bal_push 5, Bal_push 6, Bal_notify, Bal_notify] @ replicate 4 Bal_worker"
  have "map_option (\<lambda>s. (bal_started s, bal_queue s, bal_destructor s)) (runs balancer_step ?es CustomSchedulerBalancer)
      = Some ([5], [6], Bd_none)" by code_simp
  then obtain s where s: "runs balancer_step ?es CustomSchedulerBalancer = Some s" "bal_started s = [5]" "bal_queue s = [6]"
      "bal_destructor s = Bd_none" by auto
  then show ?thesis using balancer_fifo_until_destroyed[OF s(1)] by (intro exI[of _ s]) simp
qed

text \<open>
  The destruction is not safe.  The flag may be set between the worker's two tests of it: then the worker
  enters the loop's body without the mutex and \<open>unlock\<close> terminates the program.  The flag and the
  notification may both come between the worker's test of the predicate and its sleep: then the worker and
  the destructor wait for ever.  And the worker leaves its loop with tasks in the queue when the flag was set
  after the loop's condition.  Last, the destructor can see \<open>_threadExitSuccess\<close> before the worker notifies \<open>_condVarExit\<close>: it
  returns, and the worker then uses a condition variable that has been destroyed.
\<close>

theorem balancer_destruction_races:
  "(\<exists>s. runs balancer_step ([Bal_test 5, Bal_test 6, Bal_push 5, Bal_push 6] @ replicate 8 Bal_worker
       @ [Bal_destroy] @ replicate 2 Bal_worker) CustomSchedulerBalancer = Some s \<and> bal_worker s = Bw_terminated)
   \<and> (\<exists>s. runs balancer_step (replicate 3 Bal_worker @ [Bal_destroy, Bal_destroy, Bal_worker] @ replicate 3 Bal_destroy)
       CustomSchedulerBalancer = Some s \<and> bal_worker s = Bw_asleep \<and> bal_destructor s = Bd_asleep \<and> bal_notifying s = 0)
   \<and> (\<exists>s. runs balancer_step ([Bal_test 5, Bal_test 6, Bal_push 5, Bal_push 6] @ replicate 9 Bal_worker
       @ [Bal_destroy, Bal_worker]) CustomSchedulerBalancer = Some s \<and> bal_worker s = Bw_exit \<and> bal_queue s = [6])
   \<and> (\<exists>s. runs balancer_step ([Bal_destroy] @ replicate 2 Bal_worker @ replicate 3 Bal_destroy) CustomSchedulerBalancer = Some s
       \<and> bal_destructor s = Bd_done \<and> bal_worker s = Bw_exit_notify)"
proof (intro conjI)
  have "map_option bal_worker (runs balancer_step ([Bal_test 5, Bal_test 6, Bal_push 5, Bal_push 6] @ replicate 8 Bal_worker
       @ [Bal_destroy] @ replicate 2 Bal_worker) CustomSchedulerBalancer) = Some Bw_terminated" by code_simp
  then show "\<exists>s. runs balancer_step ([Bal_test 5, Bal_test 6, Bal_push 5, Bal_push 6] @ replicate 8 Bal_worker
       @ [Bal_destroy] @ replicate 2 Bal_worker) CustomSchedulerBalancer = Some s \<and> bal_worker s = Bw_terminated" by auto
  have "map_option (\<lambda>s. (bal_worker s, bal_destructor s, bal_notifying s)) (runs balancer_step
      (replicate 3 Bal_worker @ [Bal_destroy, Bal_destroy, Bal_worker] @ replicate 3 Bal_destroy) CustomSchedulerBalancer)
      = Some (Bw_asleep, Bd_asleep, 0)" by code_simp
  then show "\<exists>s. runs balancer_step (replicate 3 Bal_worker @ [Bal_destroy, Bal_destroy, Bal_worker] @ replicate 3 Bal_destroy)
       CustomSchedulerBalancer = Some s \<and> bal_worker s = Bw_asleep \<and> bal_destructor s = Bd_asleep \<and> bal_notifying s = 0" by auto
  have "map_option (\<lambda>s. (bal_worker s, bal_queue s)) (runs balancer_step ([Bal_test 5, Bal_test 6, Bal_push 5, Bal_push 6]
      @ replicate 9 Bal_worker @ [Bal_destroy, Bal_worker]) CustomSchedulerBalancer) = Some (Bw_exit, [6])" by code_simp
  then show "\<exists>s. runs balancer_step ([Bal_test 5, Bal_test 6, Bal_push 5, Bal_push 6] @ replicate 9 Bal_worker
       @ [Bal_destroy, Bal_worker]) CustomSchedulerBalancer = Some s \<and> bal_worker s = Bw_exit \<and> bal_queue s = [6]" by auto
  have "map_option (\<lambda>s. (bal_destructor s, bal_worker s)) (runs balancer_step ([Bal_destroy] @ replicate 2 Bal_worker @ replicate 3 Bal_destroy)
      CustomSchedulerBalancer) = Some (Bd_done, Bw_exit_notify)" by code_simp
  then show "\<exists>s. runs balancer_step ([Bal_destroy] @ replicate 2 Bal_worker @ replicate 3 Bal_destroy) CustomSchedulerBalancer = Some s
       \<and> bal_destructor s = Bd_done \<and> bal_worker s = Bw_exit_notify" by auto
qed

text \<open>
  The comparison that \<open>selectTheBestScheduler\<close> gives to \<open>std::sort\<close> is not a strict weak order as soon
  as an earlier scheduler has the longer queue, and it ignores whether a task is in work.
\<close>

theorem sort_func_not_asymmetric:
  assumes "i < j" "j < length bs" "getQueueSize (bs ! j) < getQueueSize (bs ! i)"
  shows "sort_func (schedulers_info bs ! i) (schedulers_info bs ! j) \<and> sort_func (schedulers_info bs ! j) (schedulers_info bs ! i)"
    "sort_func (s1\<lparr>sort_in_work := w\<rparr>) (s2\<lparr>sort_in_work := v\<rparr>) = sort_func s1 s2"
  using assms by (simp_all add: sort_func_def schedulers_info_def)

end
