(* ===== verification/Context_Pool.thy ===== *)
theory Context_Pool
  imports Prelude
begin

text \<open>
  \<open>src/CustomSchedulerContextInPool.h\<close> and \<open>.cpp\<close>: a thread pool that runs the tasks of several contexts,
  those of one context one after the other.

  Contexts are named by their position in \<open>contexts\<close>, the heap of all contexts ever made.  A context
  lives while the pool's list, a thread that executes it, a call of \<open>schedule\<close> or another caller holds a
  \<open>shared_ptr\<close> to it; when the last one goes, its destructor clears its tasks.  \<open>expired\<close> and \<open>lock\<close> of a \<open>weak_ptr\<close> are two events:
  a caller may drop its pointer in between.  The pool's mutex is held
  by the thread that is at one of the points \<^term>\<open>pool_holds\<close> below; critical sections that do not wait
  are single events, as are those on a context's own \<open>_taskQueueMutex\<close>.  \<open>_needStop\<close> and
  \<open>_executionInProgress\<close> are atomics that are accessed without the mutex.
\<close>

section \<open>State\<close>

datatype pool_pc =
    Pl_while             \<comment> \<open>at the head of the outer loop\<close>
  | Pl_entry             \<comment> \<open>about to lock the pool's mutex\<close>
  | Pl_predicate         \<comment> \<open>mutex held, about to test the predicate\<close>
  | Pl_blocking          \<comment> \<open>mutex held, the predicate was false\<close>
  | Pl_asleep
  | Pl_woken
  | Pl_inner             \<comment> \<open>mutex held, at the head of the inner loop\<close>
  | Pl_expired nat       \<comment> \<open>mutex held, a context was taken from the queue, before \<open>context.expired\<close>\<close>
  | Pl_lock nat          \<comment> \<open>mutex held, it had not expired, before \<open>context.lock\<close>\<close>
  | Pl_null              \<comment> \<open>\<open>contextShared\<close> is null, and is dereferenced\<close>
  | Pl_claim nat         \<comment> \<open>in \<open>performOneTask\<close>, before the compare-exchange\<close>
  | Pl_take nat          \<comment> \<open>before the critical section on the context's queue\<close>
  | Pl_run nat nat       \<comment> \<open>running a task of a context\<close>
  | Pl_reset nat bool    \<comment> \<open>before the flag is reset; was a task executed?\<close>
  | Pl_relock nat bool   \<comment> \<open>\<open>performOneTask\<close> has returned\<close>
  | Pl_exit              \<comment> \<open>out of the outer loop\<close>
  | Pl_exited            \<comment> \<open>has counted itself\<close>

text \<open>A call of \<open>stopAll\<close>; the flag says whether it was the one that set \<open>_needStop\<close>.\<close>

datatype stop_pc =
    St_notify            \<comment> \<open>before \<open>notify_all\<close>\<close>
  | St_wait              \<comment> \<open>waiting on \<open>_exitCondVar\<close>\<close>
  | St_returned bool

record pool_context =
  ctx_queue :: "nat list"
  ctx_in_progress :: bool
  ctx_pushed :: "nat list"               \<comment> \<open>all tasks ever scheduled\<close>
  ctx_taken :: "(nat \<times> bool) list"       \<comment> \<open>tasks taken out: to be run, or cleared\<close>

record context_pool =
  pool_contexts :: "nat list"
  execution_queue :: "nat list"
  need_stop :: bool
  pool_threads :: "pool_pc list"
  contexts :: "pool_context list"
  pool_wakers :: "nat list"              \<comment> \<open>calls of \<open>schedule\<close> before \<open>wakeUpForContext\<close>\<close>
  pool_holders :: "nat list"             \<comment> \<open>other pointers that callers hold\<close>
  pool_makers :: nat                     \<comment> \<open>calls of \<open>makeNewContext\<close> that have tested the flag\<close>
  pool_notifying :: nat                  \<comment> \<open>calls of \<open>notify_one\<close> to come\<close>
  pool_stops :: "stop_pc list"           \<comment> \<open>calls of \<open>stopAll\<close>\<close>
  threads_completed :: nat

definition new_context :: pool_context where
  "new_context = \<lparr>ctx_queue = [], ctx_in_progress = False, ctx_pushed = [], ctx_taken = []\<rparr>"

definition context_pool :: "nat \<Rightarrow> context_pool" where
  "context_pool n = \<lparr>pool_contexts = [], execution_queue = [], need_stop = False,
     pool_threads = replicate n Pl_while, contexts = [], pool_wakers = [],
     pool_holders = [], pool_makers = 0, pool_notifying = 0, pool_stops = [], threads_completed = 0\<rparr>"

fun pool_holds :: "pool_pc \<Rightarrow> bool" where
  "pool_holds Pl_predicate = True"
| "pool_holds Pl_blocking = True"
| "pool_holds Pl_inner = True"
| "pool_holds (Pl_expired c) = True"
| "pool_holds (Pl_lock c) = True"
| "pool_holds _ = False"

text \<open>The context to which a thread has a \<open>shared_ptr\<close>.\<close>

fun pc_context :: "pool_pc \<Rightarrow> nat option" where
  "pc_context (Pl_claim c) = Some c"
| "pc_context (Pl_take c) = Some c"
| "pc_context (Pl_run c t) = Some c"
| "pc_context (Pl_reset c e) = Some c"
| "pc_context (Pl_relock c e) = Some c"
| "pc_context _ = None"

definition pool_mutex_free :: "context_pool \<Rightarrow> bool" where
  "pool_mutex_free s = (\<forall>p \<in> set (pool_threads s). \<not> pool_holds p)"

definition expired :: "nat \<Rightarrow> context_pool \<Rightarrow> bool" where
  "expired c s \<longleftrightarrow> c \<notin> set (pool_contexts s) \<and> c \<notin> set (pool_wakers s) \<and> c \<notin> set (pool_holders s)
     \<and> Some c \<notin> pc_context ` set (pool_threads s)"

definition pool_goto :: "nat \<Rightarrow> pool_pc \<Rightarrow> context_pool \<Rightarrow> context_pool" where
  "pool_goto i p s = s\<lparr>pool_threads := (pool_threads s)[i := p]\<rparr>"

definition on_context :: "nat \<Rightarrow> (pool_context \<Rightarrow> pool_context) \<Rightarrow> context_pool \<Rightarrow> context_pool" where
  "on_context c f s = s\<lparr>contexts := (contexts s)[c := f (contexts s ! c)]\<rparr>"

section \<open>Operations\<close>

definition clearAllTasks :: "pool_context \<Rightarrow> pool_context" where
  "clearAllTasks x = x\<lparr>ctx_taken := ctx_taken x @ map (\<lambda>t. (t, False)) (ctx_queue x), ctx_queue := []\<rparr>"

text \<open>A \<open>shared_ptr\<close> to \<open>c\<close> has gone: when it was the last one, the context is destroyed.\<close>

definition drop_context :: "nat \<Rightarrow> context_pool \<Rightarrow> context_pool" where
  "drop_context c s = (if expired c s then on_context c clearAllTasks s else s)"

definition ctx_push :: "nat \<Rightarrow> pool_context \<Rightarrow> pool_context" where
  "ctx_push t x = x\<lparr>ctx_queue := ctx_queue x @ [t], ctx_pushed := ctx_pushed x @ [t]\<rparr>"

text \<open>\<open>performOneTask\<close>.\<close>

definition claim_context :: "nat \<Rightarrow> nat \<Rightarrow> context_pool \<Rightarrow> context_pool" where
  "claim_context i c s =
     (if ctx_in_progress (contexts s ! c) then pool_goto i (Pl_relock c False) s
      else pool_goto i (Pl_take c) (on_context c (\<lambda>x. x\<lparr>ctx_in_progress := True\<rparr>) s))"

definition take_task :: "nat \<Rightarrow> nat \<Rightarrow> context_pool \<Rightarrow> context_pool" where
  "take_task i c s =
     (case ctx_queue (contexts s ! c) of
        [] \<Rightarrow> pool_goto i (Pl_reset c False) s
      | t # ts \<Rightarrow> pool_goto i (Pl_run c t)
          (on_context c (\<lambda>x. x\<lparr>ctx_queue := ts, ctx_taken := ctx_taken x @ [(t, True)]\<rparr>) s))"

definition reset_progress :: "nat \<Rightarrow> nat \<Rightarrow> bool \<Rightarrow> context_pool \<Rightarrow> context_pool" where
  "reset_progress i c executed s =
     pool_goto i (Pl_relock c executed) (on_context c (\<lambda>x. x\<lparr>ctx_in_progress := False\<rparr>) s)"

text \<open>The thread function.\<close>

definition inner_loop :: "nat \<Rightarrow> context_pool \<Rightarrow> context_pool" where
  "inner_loop i s =
     (if need_stop s then pool_goto i Pl_while s
      else case execution_queue s of
          [] \<Rightarrow> pool_goto i Pl_while s
        | c # cs \<Rightarrow> pool_goto i (Pl_expired c) (s\<lparr>execution_queue := cs\<rparr>))"

definition lock_context :: "nat \<Rightarrow> nat \<Rightarrow> context_pool \<Rightarrow> context_pool" where
  "lock_context i c s = pool_goto i (if expired c s then Pl_null else Pl_claim c) s"

definition after_perform :: "nat \<Rightarrow> nat \<Rightarrow> bool \<Rightarrow> context_pool \<Rightarrow> context_pool" where
  "after_perform i c executed s =
     drop_context c (pool_goto i Pl_inner
       (if executed then s\<lparr>execution_queue := execution_queue s @ [c]\<rparr> else s))"

fun pool_step :: "nat \<Rightarrow> pool_pc \<Rightarrow> context_pool \<Rightarrow> context_pool option" where
  "pool_step i Pl_while s =
     Some (pool_goto i (if need_stop s then Pl_exit else Pl_entry) s)"
| "pool_step i Pl_entry s = (if pool_mutex_free s then Some (pool_goto i Pl_predicate s) else None)"
| "pool_step i Pl_predicate s =
     Some (pool_goto i (if execution_queue s \<noteq> [] \<or> need_stop s then Pl_inner else Pl_blocking) s)"
| "pool_step i Pl_blocking s = Some (pool_goto i Pl_asleep s)"
| "pool_step i Pl_asleep s = None"
| "pool_step i Pl_woken s = (if pool_mutex_free s then Some (pool_goto i Pl_predicate s) else None)"
| "pool_step i Pl_inner s = Some (inner_loop i s)"
| "pool_step i (Pl_expired c) s = Some (pool_goto i (if expired c s then Pl_inner else Pl_lock c) s)"
| "pool_step i (Pl_lock c) s = Some (lock_context i c s)"
| "pool_step i Pl_null s = None"
| "pool_step i (Pl_claim c) s = Some (claim_context i c s)"
| "pool_step i (Pl_take c) s = Some (take_task i c s)"
| "pool_step i (Pl_run c t) s = Some (pool_goto i (Pl_reset c True) s)"
| "pool_step i (Pl_reset c e) s = Some (reset_progress i c e s)"
| "pool_step i (Pl_relock c e) s = (if pool_mutex_free s then Some (after_perform i c e s) else None)"
| "pool_step i Pl_exit s = Some (pool_goto i Pl_exited (s\<lparr>threads_completed := Suc (threads_completed s)\<rparr>))"
| "pool_step i Pl_exited s = None"

text \<open>\<open>makeNewContext\<close>: the test of the flag, and the critical section; the caller's own pointer goes later.\<close>

definition makeNewContext :: "context_pool \<Rightarrow> context_pool" where
  "makeNewContext s = (if need_stop s then s else s\<lparr>pool_makers := Suc (pool_makers s)\<rparr>)"

definition insert_context :: "context_pool \<Rightarrow> context_pool option" where
  "insert_context s =
     (if pool_makers s = 0 then None
      else Some (s\<lparr>pool_makers := pool_makers s - 1, contexts := contexts s @ [new_context],
         pool_contexts := pool_contexts s @ [length (contexts s)], pool_holders := length (contexts s) # pool_holders s,
         pool_notifying := Suc (pool_notifying s)\<rparr>))"

text \<open>\<open>removeContext\<close>; if the pointer goes between \<open>expired\<close> and \<open>lock\<close>, the null pointer is not found in the list.\<close>

definition removeContext :: "nat \<Rightarrow> context_pool \<Rightarrow> context_pool" where
  "removeContext c s =
     (let s' = (if expired c s then s
          else drop_context c (s\<lparr>pool_contexts := filter (\<lambda>d. d \<noteq> c) (pool_contexts s)\<rparr>))
      in s'\<lparr>pool_notifying := Suc (pool_notifying s')\<rparr>)"

text \<open>\<open>schedule\<close> by a caller that holds a \<open>shared_ptr\<close>: the push, and later \<open>wakeUpForContext\<close>.\<close>

definition ctx_schedule :: "nat \<Rightarrow> nat \<Rightarrow> context_pool \<Rightarrow> context_pool" where
  "ctx_schedule c t s = on_context c (ctx_push t) (s\<lparr>pool_wakers := c # pool_wakers s\<rparr>)"

definition wakeUpForContext :: "nat \<Rightarrow> context_pool \<Rightarrow> context_pool" where
  "wakeUpForContext c s =
     s\<lparr>execution_queue := execution_queue s @ [c], pool_wakers := remove1 c (pool_wakers s),
       pool_holders := c # pool_holders s, pool_notifying := Suc (pool_notifying s)\<rparr>"

text \<open>A caller makes a \<open>shared_ptr\<close> from a \<open>weak_ptr\<close>, and drops one.\<close>

definition hold_context :: "nat \<Rightarrow> context_pool \<Rightarrow> context_pool" where
  "hold_context c s = (if expired c s then s else s\<lparr>pool_holders := c # pool_holders s\<rparr>)"

definition release_context :: "nat \<Rightarrow> context_pool \<Rightarrow> context_pool option" where
  "release_context c s =
     (if c \<in> set (pool_holders s) then Some (drop_context c (s\<lparr>pool_holders := remove1 c (pool_holders s)\<rparr>)) else None)"

text \<open>\<open>notify_one\<close> wakes one of the sleeping threads, \<open>i\<close>, if there is one.\<close>

definition pool_notify_one :: "nat \<Rightarrow> context_pool \<Rightarrow> context_pool option" where
  "pool_notify_one i s =
     (if pool_notifying s = 0 then None
      else if Pl_asleep \<in> set (pool_threads s)
      then if i < length (pool_threads s) \<and> pool_threads s ! i = Pl_asleep
        then Some (pool_goto i Pl_woken (s\<lparr>pool_notifying := pool_notifying s - 1\<rparr>)) else None
      else Some (s\<lparr>pool_notifying := pool_notifying s - 1\<rparr>))"

text \<open>
  \<open>stopAll\<close>: the call whose compare-exchange fails returns at once; the other one notifies the threads, then waits until
  every thread has counted itself (under \<open>_exitMutex\<close>, so that it cannot miss the notification).
\<close>

definition stopAll :: "context_pool \<Rightarrow> context_pool" where
  "stopAll s =
     (if need_stop s then s\<lparr>pool_stops := pool_stops s @ [St_returned False]\<rparr>
      else s\<lparr>need_stop := True, pool_stops := pool_stops s @ [St_notify]\<rparr>)"

definition pool_notify_all :: "context_pool \<Rightarrow> context_pool" where
  "pool_notify_all s = s\<lparr>pool_threads := map (\<lambda>p. if p = Pl_asleep then Pl_woken else p) (pool_threads s)\<rparr>"

definition stop_step :: "nat \<Rightarrow> context_pool \<Rightarrow> context_pool option" where
  "stop_step k s =
     (case pool_stops s ! k of
        St_notify \<Rightarrow> Some (pool_notify_all (s\<lparr>pool_stops := (pool_stops s)[k := St_wait]\<rparr>))
      | St_wait \<Rightarrow> if threads_completed s = length (pool_threads s)
          then Some (s\<lparr>pool_stops := (pool_stops s)[k := St_returned True]\<rparr>) else None
      | St_returned b \<Rightarrow> None)"

datatype pool_event =
    Cp_step nat | Cp_spurious nat | Cp_new | Cp_insert | Cp_remove nat | Cp_schedule nat nat | Cp_wake nat
  | Cp_hold nat | Cp_release nat | Cp_clear nat | Cp_notify nat | Cp_stop | Cp_stop_step nat

fun context_pool_step :: "pool_event \<Rightarrow> context_pool \<Rightarrow> context_pool option" where
  "context_pool_step (Cp_step i) s =
     (if i < length (pool_threads s) then pool_step i (pool_threads s ! i) s else None)"
| "context_pool_step (Cp_spurious i) s =
     (if i < length (pool_threads s) \<and> pool_threads s ! i = Pl_asleep then Some (pool_goto i Pl_woken s) else None)"
| "context_pool_step Cp_new s = Some (makeNewContext s)"
| "context_pool_step Cp_insert s = (if pool_mutex_free s then insert_context s else None)"
| "context_pool_step (Cp_remove c) s = (if pool_mutex_free s then Some (removeContext c s) else None)"
| "context_pool_step (Cp_schedule c t) s = (if expired c s then None else Some (ctx_schedule c t s))"
| "context_pool_step (Cp_wake c) s =
     (if c \<in> set (pool_wakers s) \<and> pool_mutex_free s then Some (wakeUpForContext c s) else None)"
| "context_pool_step (Cp_hold c) s = Some (hold_context c s)"
| "context_pool_step (Cp_release c) s = release_context c s"
| "context_pool_step (Cp_clear c) s = (if expired c s then None else Some (on_context c clearAllTasks s))"
| "context_pool_step (Cp_notify i) s = pool_notify_one i s"
| "context_pool_step Cp_stop s = Some (stopAll s)"
| "context_pool_step (Cp_stop_step k) s = (if k < length (pool_stops s) then stop_step k s else None)"

section \<open>Invariant\<close>

fun pc_name :: "pool_pc \<Rightarrow> nat option" where
  "pc_name (Pl_expired c) = Some c"
| "pc_name (Pl_lock c) = Some c"
| "pc_name p = pc_context p"

fun in_execution :: "nat \<Rightarrow> pool_pc \<Rightarrow> bool" where
  "in_execution c (Pl_take d) \<longleftrightarrow> d = c"
| "in_execution c (Pl_run d t) \<longleftrightarrow> d = c"
| "in_execution c (Pl_reset d e) \<longleftrightarrow> d = c"
| "in_execution c _ \<longleftrightarrow> False"

definition context_ok :: "pool_context \<Rightarrow> bool" where
  "context_ok x \<longleftrightarrow> ctx_pushed x = map fst (ctx_taken x) @ ctx_queue x"

definition contexts_ok :: "pool_pc list \<Rightarrow> pool_context list \<Rightarrow> bool" where
  "contexts_ok ps xs \<longleftrightarrow> (\<forall>c < length xs. number (in_execution c) ps = of_bool (ctx_in_progress (xs ! c)) \<and> context_ok (xs ! c))"

definition names_ok :: "context_pool \<Rightarrow> bool" where
  "names_ok s \<longleftrightarrow> (\<forall>p \<in> set (pool_threads s). \<forall>c. pc_name p = Some c \<longrightarrow> c < length (contexts s))
     \<and> set (pool_contexts s) \<union> set (pool_wakers s) \<union> set (pool_holders s) \<union> set (execution_queue s) \<subseteq> {..<length (contexts s)}"

definition wakeups_ok :: "context_pool \<Rightarrow> bool" where
  "wakeups_ok s \<longleftrightarrow> number pool_holds (pool_threads s) \<le> 1
     \<and> (Pl_blocking \<in> set (pool_threads s) \<longrightarrow> execution_queue s = [])
     \<and> (execution_queue s \<noteq> [] \<and> pool_notifying s = 0 \<and> pool_threads s \<noteq> [] \<longrightarrow>
          (\<exists>p \<in> set (pool_threads s). p \<noteq> Pl_asleep))"

definition exits_ok :: "context_pool \<Rightarrow> bool" where
  "exits_ok s \<longleftrightarrow> threads_completed s = number (\<lambda>p. p = Pl_exited) (pool_threads s)
     \<and> (\<forall>p \<in> set (pool_threads s). p = Pl_exit \<or> p = Pl_exited \<longrightarrow> need_stop s)
     \<and> (St_returned True \<in> set (pool_stops s) \<longrightarrow> threads_completed s = length (pool_threads s))"

definition context_pool_inv :: "context_pool \<Rightarrow> bool" where
  "context_pool_inv s \<longleftrightarrow> contexts_ok (pool_threads s) (contexts s) \<and> names_ok s \<and> wakeups_ok s \<and> exits_ok s"

lemma drop_context_fields [simp]:
  "pool_threads (drop_context c s) = pool_threads s" "pool_contexts (drop_context c s) = pool_contexts s"
  "execution_queue (drop_context c s) = execution_queue s" "need_stop (drop_context c s) = need_stop s"
  "pool_wakers (drop_context c s) = pool_wakers s" "pool_holders (drop_context c s) = pool_holders s"
  "pool_stops (drop_context c s) = pool_stops s" "pool_notifying (drop_context c s) = pool_notifying s"
  "threads_completed (drop_context c s) = threads_completed s"
  "length (contexts (drop_context c s)) = length (contexts s)"
  by (simp_all add: drop_context_def on_context_def)

lemma on_context_fields [simp]:
  "pool_threads (on_context c f s) = pool_threads s" "pool_contexts (on_context c f s) = pool_contexts s"
  "execution_queue (on_context c f s) = execution_queue s" "need_stop (on_context c f s) = need_stop s"
  "pool_wakers (on_context c f s) = pool_wakers s" "pool_holders (on_context c f s) = pool_holders s"
  "pool_stops (on_context c f s) = pool_stops s" "pool_notifying (on_context c f s) = pool_notifying s"
  "threads_completed (on_context c f s) = threads_completed s"
  "length (contexts (on_context c f s)) = length (contexts s)"
  by (simp_all add: on_context_def)

lemma pool_goto_fields [simp]:
  "pool_threads (pool_goto i p s) = (pool_threads s)[i := p]" "pool_contexts (pool_goto i p s) = pool_contexts s"
  "execution_queue (pool_goto i p s) = execution_queue s" "need_stop (pool_goto i p s) = need_stop s"
  "pool_wakers (pool_goto i p s) = pool_wakers s" "pool_holders (pool_goto i p s) = pool_holders s"
  "pool_stops (pool_goto i p s) = pool_stops s" "pool_notifying (pool_goto i p s) = pool_notifying s"
  "threads_completed (pool_goto i p s) = threads_completed s"
  "contexts (pool_goto i p s) = contexts s"
  by (simp_all add: pool_goto_def)

lemma pc_context_name: "Some c = pc_context p \<Longrightarrow> pc_name p = Some c"
  by (cases p) auto

subsection \<open>The contexts\<close>

lemma contexts_ok_move:
  "contexts_ok ps xs \<Longrightarrow> i < length ps \<Longrightarrow> (\<And>c. in_execution c p = in_execution c (ps ! i)) \<Longrightarrow> contexts_ok (ps[i := p]) xs"
  by (simp add: contexts_ok_def number_move_same)

lemma contexts_ok_change:
  assumes "contexts_ok ps xs" "ctx_in_progress (f (xs ! c)) = ctx_in_progress (xs ! c)" "context_ok (xs ! c) \<Longrightarrow> context_ok (f (xs ! c))"
  shows "contexts_ok ps (xs[c := f (xs ! c)])"
  unfolding contexts_ok_def
proof (intro allI impI)
  fix d assume "d < length (xs[c := f (xs ! c)])"
  then show "number (in_execution d) ps = of_bool (ctx_in_progress (xs[c := f (xs ! c)] ! d)) \<and> context_ok (xs[c := f (xs ! c)] ! d)"
    using assms by (cases "d = c") (simp_all add: contexts_ok_def)
qed

lemma contexts_ok_flag:
  assumes ok: "contexts_ok ps xs" and i: "i < length ps" and c: "c < length xs"
    and p: "\<And>d. d \<noteq> c \<Longrightarrow> in_execution d p = in_execution d (ps ! i)"
    and b: "ctx_in_progress (xs ! c) \<noteq> b" "in_execution c (ps ! i) \<noteq> b" "in_execution c p = b"
  shows "contexts_ok (ps[i := p]) (xs[c := (xs ! c)\<lparr>ctx_in_progress := b\<rparr>])"
  unfolding contexts_ok_def
proof (intro allI impI)
  fix d assume d: "d < length (xs[c := (xs ! c)\<lparr>ctx_in_progress := b\<rparr>])"
  have n: "number (in_execution d) (ps[i := p]) + of_bool (in_execution d (ps ! i)) = number (in_execution d) ps + of_bool (in_execution d p)"
    by (rule number_move[OF i])
  show "number (in_execution d) (ps[i := p]) = of_bool (ctx_in_progress (xs[c := (xs ! c)\<lparr>ctx_in_progress := b\<rparr>] ! d))
      \<and> context_ok (xs[c := (xs ! c)\<lparr>ctx_in_progress := b\<rparr>] ! d)"
    using ok d c n p[of d] b by (cases "d = c"; cases b) (auto simp: contexts_ok_def context_ok_def)
qed

lemma context_ok_simps:
  "context_ok x \<Longrightarrow> context_ok (clearAllTasks x)" "context_ok x \<Longrightarrow> context_ok (ctx_push t x)"
  "context_ok x \<Longrightarrow> ctx_queue x = t # ts \<Longrightarrow> context_ok (x\<lparr>ctx_queue := ts, ctx_taken := ctx_taken x @ [(t, True)]\<rparr>)"
  by (simp_all add: context_ok_def clearAllTasks_def ctx_push_def comp_def)

lemma contexts_ok_on:
  "contexts_ok (pool_threads s) (contexts s) \<Longrightarrow>
   (\<And>x. ctx_in_progress (f x) = ctx_in_progress x) \<Longrightarrow> (\<And>x. context_ok x \<Longrightarrow> context_ok (f x)) \<Longrightarrow>
   contexts_ok (pool_threads (on_context c f s)) (contexts (on_context c f s))"
  using contexts_ok_change[of "pool_threads s" "contexts s" f c] by (simp add: on_context_def)

lemma contexts_ok_drop:
  "contexts_ok (pool_threads s) (contexts s) \<Longrightarrow> contexts_ok (pool_threads s) (contexts (drop_context c s))"
  using contexts_ok_on[of s clearAllTasks c] context_ok_simps(1)
  by (simp add: drop_context_def clearAllTasks_def)

lemma pool_step_contexts:
  assumes ok: "contexts_ok (pool_threads s) (contexts s)" and nm: "names_ok s" and i: "i < length (pool_threads s)"
    and st: "pool_step i (pool_threads s ! i) s = Some s'"
  shows "contexts_ok (pool_threads s') (contexts s')"
proof -
  note move = contexts_ok_move[OF ok i]
  have c: "c < length (contexts s)" if "pc_name (pool_threads s ! i) = Some c" for c
    using nm that nth_mem[OF i] by (auto simp: names_ok_def)
  show ?thesis
  proof (cases "pool_threads s ! i")
    case (Pl_claim c)
    then show ?thesis using st c contexts_ok_flag[OF ok i, of c "Pl_take c" True]
      by (auto simp: claim_context_def on_context_def intro!: move)
  next
    case (Pl_take c)
    show ?thesis
    proof (cases "ctx_queue (contexts s ! c)")
      case Nil
      with Pl_take st show ?thesis by (auto simp: take_task_def intro!: move)
    next
      case (Cons t ts)
      let ?f = "\<lambda>x. x\<lparr>ctx_queue := ts, ctx_taken := ctx_taken x @ [(t, True)]\<rparr>"
      have "contexts_ok ((pool_threads s)[i := Pl_run c t]) (contexts s)" using Pl_take by (intro move) simp
      then have "contexts_ok ((pool_threads s)[i := Pl_run c t]) ((contexts s)[c := ?f (contexts s ! c)])"
        by (rule contexts_ok_change) (use Cons context_ok_simps(3) in auto)
      then show ?thesis using Pl_take Cons st by (auto simp: take_task_def on_context_def)
    qed
  next
    case (Pl_reset c e)
    have "0 < number (in_execution c) (pool_threads s)" using Pl_reset by (intro number_pos[OF i]) simp
    then have "ctx_in_progress (contexts s ! c)" using ok c[of c] Pl_reset by (simp add: contexts_ok_def)
    then show ?thesis using Pl_reset st c contexts_ok_flag[OF ok i, of c "Pl_relock c e" False]
      by (auto simp: reset_progress_def on_context_def)
  next
    case (Pl_lock c)
    then show ?thesis using st move by (auto simp: lock_context_def)
  next
    case (Pl_relock c e)
    then have "contexts_ok ((pool_threads s)[i := Pl_inner]) (contexts s)" by (intro move) simp
    then show ?thesis using Pl_relock st contexts_ok_drop[of "pool_goto i Pl_inner s" c]
        contexts_ok_drop[of "pool_goto i Pl_inner (s\<lparr>execution_queue := execution_queue s @ [c]\<rparr>)" c]
      by (auto simp: after_perform_def split: if_splits)
  qed (use st in \<open>auto simp: inner_loop_def lock_context_def intro!: move split: if_splits list.splits\<close>)
qed

lemma step_contexts:
  assumes ok: "contexts_ok (pool_threads s) (contexts s)" and nm: "names_ok s"
    and st: "context_pool_step e s = Some s'"
  shows "contexts_ok (pool_threads s') (contexts s')"
proof (cases e)
  case (Cp_step i)
  then show ?thesis using st by (auto intro: pool_step_contexts[OF ok nm] split: if_splits)
next
  case (Cp_spurious i)
  then show ?thesis using st by (auto intro!: contexts_ok_move[OF ok] split: if_splits)
next
  case Cp_insert
  have "number (in_execution (length (contexts s))) (pool_threads s) = 0"
    unfolding number_zero
  proof (intro allI impI notI)
    fix j assume j: "j < length (pool_threads s)" "in_execution (length (contexts s)) (pool_threads s ! j)"
    then have "pc_name (pool_threads s ! j) = Some (length (contexts s))" by (cases "pool_threads s ! j") auto
    then show False using nm nth_mem[OF j(1)] by (fastforce simp: names_ok_def)
  qed
  then have "contexts_ok (pool_threads s) (contexts s @ [new_context])"
    using ok by (auto simp: contexts_ok_def nth_append less_Suc_eq new_context_def context_ok_def)
  then show ?thesis using st Cp_insert ok by (auto simp: insert_context_def split: if_splits)
next
  case (Cp_remove c)
  then show ?thesis using st ok contexts_ok_drop[of "s\<lparr>pool_contexts := filter (\<lambda>d. d \<noteq> c) (pool_contexts s)\<rparr>" c]
    by (auto simp: removeContext_def Let_def split: if_splits)
next
  case (Cp_schedule c t)
  then show ?thesis using st ok contexts_ok_on[of "s\<lparr>pool_wakers := c # pool_wakers s\<rparr>" "ctx_push t" c] context_ok_simps(2)
    by (auto simp: ctx_schedule_def ctx_push_def split: if_splits)
next
  case (Cp_wake c)
  then show ?thesis using st ok by (auto simp: wakeUpForContext_def split: if_splits)
next
  case (Cp_release c)
  then show ?thesis using st ok contexts_ok_drop[of "s\<lparr>pool_holders := remove1 c (pool_holders s)\<rparr>" c]
    by (auto simp: release_context_def split: if_splits)
next
  case (Cp_clear c)
  then show ?thesis using st contexts_ok_on[OF ok, of clearAllTasks c] context_ok_simps(1)
    by (auto simp: clearAllTasks_def split: if_splits)
next
  case (Cp_notify i)
  then show ?thesis using st ok by (auto simp: pool_notify_one_def intro!: contexts_ok_move[OF ok] split: if_splits)
next
  case (Cp_stop_step k)
  have "number (in_execution c) (map (\<lambda>p. if p = Pl_asleep then Pl_woken else p) ps) = number (in_execution c) ps" for c ps
    by (induction ps) auto
  then show ?thesis using st ok Cp_stop_step
    by (auto simp: stop_step_def pool_notify_all_def contexts_ok_def split: if_splits stop_pc.splits)
qed (use st ok in \<open>auto simp: stopAll_def makeNewContext_def hold_context_def split: if_splits\<close>)

subsection \<open>Names and wake-ups\<close>

text \<open>What a step of a thread does to the names it can reach.\<close>

lemma pool_step_reach:
  assumes i: "i < length (pool_threads s)" and st: "pool_step i (pool_threads s ! i) s = Some s'"
  shows "pool_threads s' = (pool_threads s)[i := pool_threads s' ! i]"
    "pc_name (pool_threads s' ! i) \<in> {None, pc_name (pool_threads s ! i)} \<union> Some ` set (execution_queue s)"
    "Some ` set (execution_queue s') \<subseteq> insert (pc_name (pool_threads s ! i)) (Some ` set (execution_queue s))"
    "pool_contexts s' = pool_contexts s" "pool_wakers s' = pool_wakers s" "pool_holders s' = pool_holders s" "length (contexts s') = length (contexts s)"
  using assms
  by (cases "pool_threads s ! i"; auto simp: claim_context_def take_task_def reset_progress_def inner_loop_def lock_context_def
      after_perform_def split: if_splits list.splits)+

lemma names_ok_move:
  assumes nm: "names_ok s" and i: "i < length (pool_threads s)"
    and s': "pool_threads s' = (pool_threads s)[i := p]"
      "pc_name p \<in> {None, pc_name (pool_threads s ! i)} \<union> Some ` set (execution_queue s)"
      "Some ` set (execution_queue s') \<subseteq> insert (pc_name (pool_threads s ! i)) (Some ` set (execution_queue s))"
      "pool_contexts s' = pool_contexts s" "pool_wakers s' = pool_wakers s" "pool_holders s' = pool_holders s" "length (contexts s') = length (contexts s)"
  shows "names_ok s'"
proof -
  let ?N = "{..<length (contexts s)}"
  have old: "pc_name q = Some c \<Longrightarrow> c \<in> ?N" if "q \<in> set (pool_threads s)" for q c
    using nm that by (auto simp: names_ok_def)
  have q: "set (execution_queue s) \<subseteq> ?N" using nm by (simp add: names_ok_def)
  have new: "pc_name p = Some c \<Longrightarrow> c \<in> ?N" for c using s'(2) old[OF nth_mem[OF i]] q by auto
  have "c \<in> ?N" if "c \<in> set (execution_queue s')" for c using that s'(3) old[OF nth_mem[OF i], of c] q by auto
  moreover have "pc_name r = Some c \<Longrightarrow> c \<in> ?N" if "r \<in> set (pool_threads s')" for r c
    using that s'(1) old[of r c] new[of c] set_update_subset_insert[of "pool_threads s" i p] by auto
  ultimately show ?thesis using nm s'(4-7) by (auto simp: names_ok_def)
qed

lemma pool_step_names:
  assumes "names_ok s" "i < length (pool_threads s)" "pool_step i (pool_threads s ! i) s = Some s'"
  shows "names_ok s'"
  by (rule names_ok_move[OF assms(1,2) pool_step_reach[OF assms(2,3)]])

lemma step_names:
  assumes nm: "names_ok s" and st: "context_pool_step e s = Some s'"
  shows "names_ok s'"
proof (cases e)
  case (Cp_step i)
  then show ?thesis using st by (auto intro: pool_step_names[OF nm] split: if_splits)
next
  case (Cp_spurious i)
  then show ?thesis using st names_ok_move[OF nm, of i s' Pl_woken] by (auto simp: subset_insertI split: if_splits)
next
  case (Cp_notify i)
  then consider "s' = s\<lparr>pool_notifying := pool_notifying s - 1\<rparr>"
    | "i < length (pool_threads s)" "s' = pool_goto i Pl_woken (s\<lparr>pool_notifying := pool_notifying s - 1\<rparr>)"
    using st by (auto simp: pool_notify_one_def split: if_splits)
  then show ?thesis
  proof cases
    case 1
    then show ?thesis using nm by (simp add: names_ok_def)
  next
    case 2
    then show ?thesis using names_ok_move[OF nm 2(1), of s' Pl_woken] by (simp add: subset_insertI)
  qed
next
  case Cp_insert
  have "names_ok s'" if "insert_context s = Some s'" using that nm by (fastforce simp: names_ok_def insert_context_def split: if_splits)
  then show ?thesis using st Cp_insert by (simp split: if_splits)
next
  case (Cp_schedule c t)
  then have "\<not> expired c s" using st by (simp split: if_splits)
  then have "c < length (contexts s)" using nm by (auto simp: expired_def names_ok_def dest: pc_context_name)
  then show ?thesis using st nm Cp_schedule by (auto simp: ctx_schedule_def names_ok_def split: if_splits)
next
  case (Cp_wake c)
  have "set (remove1 c (pool_wakers s)) \<subseteq> {..<length (contexts s)}"
    using nm set_remove1_subset[of c "pool_wakers s"] unfolding names_ok_def by blast
  then show ?thesis using Cp_wake st nm by (auto simp: wakeUpForContext_def names_ok_def split: if_splits)
next
  case (Cp_hold c)
  have "c < length (contexts s)" if "\<not> expired c s" using that nm by (auto simp: expired_def names_ok_def dest: pc_context_name)
  then show ?thesis using st nm Cp_hold by (auto simp: hold_context_def names_ok_def split: if_splits)
next
  case (Cp_release c)
  have "set (remove1 c (pool_holders s)) \<subseteq> {..<length (contexts s)}"
    using nm set_remove1_subset[of c "pool_holders s"] unfolding names_ok_def by blast
  then show ?thesis using Cp_release st nm by (auto simp: release_context_def names_ok_def split: if_splits)
next
  case (Cp_remove c)
  then show ?thesis using st nm by (auto simp: removeContext_def names_ok_def Let_def split: if_splits)
qed (use st nm in \<open>auto simp: stopAll_def makeNewContext_def stop_step_def pool_notify_all_def names_ok_def split: if_splits stop_pc.splits\<close>)

lemma wakeups_move:
  assumes "wakeups_ok s" "i < length (pool_threads s)" "pool_threads s' = (pool_threads s)[i := p]"
    and "pool_holds p \<longrightarrow> pool_holds (pool_threads s ! i) \<or> pool_mutex_free s"
    and "p = Pl_blocking \<longrightarrow> execution_queue s' = []" "Pl_blocking \<in> set (pool_threads s) \<longrightarrow> execution_queue s' = []"
    and "p = Pl_asleep \<longrightarrow> execution_queue s' = []"
  shows "wakeups_ok s'"
proof -
  have "number pool_holds ((pool_threads s)[i := p]) \<le> 1"
    using number_move[OF assms(2), of pool_holds p] assms(1,4) number_zero[of pool_holds "pool_threads s"]
    by (cases "pool_holds p"; cases "pool_holds (pool_threads s ! i)")
      (auto simp: wakeups_ok_def pool_mutex_free_def)
  moreover have "p \<in> set ((pool_threads s)[i := p])" using assms(2) by (rule set_update_memI)
  ultimately show ?thesis using assms(3,5-7) set_update_subset_insert[of "pool_threads s" i p]
    by (auto simp: wakeups_ok_def)
qed

lemma wakeups_cong:
  "wakeups_ok s \<Longrightarrow> pool_threads s' = pool_threads s \<Longrightarrow> execution_queue s' = execution_queue s \<Longrightarrow>
   pool_notifying s \<le> pool_notifying s' \<Longrightarrow> wakeups_ok s'"
  by (auto simp: wakeups_ok_def)

lemma mutex_free_blocking: "pool_mutex_free s \<Longrightarrow> Pl_blocking \<notin> set (pool_threads s)"
  by (auto simp: pool_mutex_free_def)

lemma pool_step_wakeups:
  assumes ok: "wakeups_ok s" and i: "i < length (pool_threads s)"
    and st: "pool_step i (pool_threads s ! i) s = Some s'"
  shows "wakeups_ok s'"
proof -
  have blk: "Pl_blocking \<in> set (pool_threads s) \<Longrightarrow> execution_queue s = []" using ok by (simp add: wakeups_ok_def)
  have q: "execution_queue s' = []" if b: "Pl_blocking \<in> set (pool_threads s)"
  proof -
    have m: "\<not> pool_mutex_free s" using b mutex_free_blocking by blast
    from blk[OF b] have e: "execution_queue s = []" .
    from st m e show ?thesis
      by (cases "pool_threads s ! i") (auto simp: claim_context_def take_task_def reset_progress_def inner_loop_def lock_context_def
          split: if_splits list.splits)
  qed
  have own: "pool_threads s ! i = Pl_blocking \<Longrightarrow> execution_queue s = []" using blk nth_mem[OF i] by simp
  have h: "pool_holds (pool_threads s' ! i) \<longrightarrow> pool_holds (pool_threads s ! i) \<or> pool_mutex_free s"
    and b: "pool_threads s' ! i = Pl_blocking \<longrightarrow> execution_queue s' = []"
    using i st by (cases "pool_threads s ! i"; auto simp: claim_context_def take_task_def reset_progress_def
        inner_loop_def lock_context_def after_perform_def split: if_splits list.splits)+
  have a: "pool_threads s' ! i = Pl_asleep \<longrightarrow> execution_queue s' = []"
    using i st own by (cases "pool_threads s ! i"; auto simp: claim_context_def take_task_def reset_progress_def
        inner_loop_def lock_context_def after_perform_def split: if_splits list.splits)
  show ?thesis by (rule wakeups_move[OF ok i pool_step_reach(1)[OF i st] h b _ a]) (blast intro: q)
qed

lemma step_wakeups:
  assumes ok: "wakeups_ok s" and st: "context_pool_step e s = Some s'"
  shows "wakeups_ok s'"
proof (cases e)
  case (Cp_step i)
  then show ?thesis using st by (auto intro: pool_step_wakeups[OF ok] split: if_splits)
next
  case (Cp_spurious i)
  then have i: "i < length (pool_threads s)" "s' = pool_goto i Pl_woken s" using st by (simp_all split: if_splits)
  have "Pl_blocking \<in> set (pool_threads s) \<longrightarrow> execution_queue s = []" using ok by (simp add: wakeups_ok_def)
  then show ?thesis using wakeups_move[OF ok i(1), of s' Pl_woken] by (simp add: i(2))
next
  case (Cp_notify i)
  show ?thesis
  proof (cases "Pl_asleep \<in> set (pool_threads s)")
    case True
    then have i: "i < length (pool_threads s)" "s' = pool_goto i Pl_woken (s\<lparr>pool_notifying := pool_notifying s - 1\<rparr>)"
      using st Cp_notify by (auto simp: pool_notify_one_def split: if_splits)
    have "Pl_blocking \<in> set (pool_threads s) \<longrightarrow> execution_queue s = []" using ok by (simp add: wakeups_ok_def)
    then show ?thesis using wakeups_move[OF ok i(1), of s' Pl_woken] by (simp add: i(2))
  next
    case False
    then have s': "s' = s\<lparr>pool_notifying := pool_notifying s - 1\<rparr>"
      using st Cp_notify by (simp add: pool_notify_one_def split: if_splits)
    from False have "pool_threads s \<noteq> [] \<longrightarrow> (\<exists>p \<in> set (pool_threads s). p \<noteq> Pl_asleep)"
      by (cases "pool_threads s") auto
    with ok show ?thesis unfolding wakeups_ok_def s' by simp
  qed
next
  case (Cp_stop_step k)
  have "number pool_holds (map (\<lambda>p. if p = Pl_asleep then Pl_woken else p) ps) = number pool_holds ps" for ps
    by (induction ps) auto
  then show ?thesis using st ok Cp_stop_step
    by (auto simp: stop_step_def pool_notify_all_def wakeups_ok_def image_iff split: if_splits stop_pc.splits)
next
  case (Cp_wake c)
  then show ?thesis using st ok
    by (auto simp: wakeUpForContext_def wakeups_ok_def dest: mutex_free_blocking split: if_splits)
qed (use st in \<open>auto intro!: wakeups_cong[OF ok] simp: makeNewContext_def insert_context_def hold_context_def release_context_def
    removeContext_def Let_def ctx_schedule_def stopAll_def split: if_splits\<close>)

lemma all_exited:
  "number (\<lambda>p. p = Pl_exited) ps = length ps \<Longrightarrow> p \<in> set ps \<Longrightarrow> p = Pl_exited"
  using length_filter_less[of p ps "\<lambda>p. p = Pl_exited"] by (auto simp: number_def)

lemma exits_cong:
  "exits_ok s \<Longrightarrow> pool_threads s' = pool_threads s \<Longrightarrow> threads_completed s' = threads_completed s \<Longrightarrow>
   need_stop s' = need_stop s \<Longrightarrow> pool_stops s' = pool_stops s \<Longrightarrow> exits_ok s'"
  by (auto simp: exits_ok_def)

lemma exits_move:
  assumes ok: "exits_ok s" and i: "i < length (pool_threads s)" "pool_threads s ! i \<noteq> Pl_exited"
    and s': "pool_threads s' = (pool_threads s)[i := p]" "pool_stops s' = pool_stops s" "need_stop s' = need_stop s"
      "threads_completed s' = threads_completed s + of_bool (p = Pl_exited)" "p = Pl_exit \<or> p = Pl_exited \<longrightarrow> need_stop s"
  shows "exits_ok s'"
proof -
  have "St_returned True \<notin> set (pool_stops s)"
    using ok i(2) all_exited[OF _ nth_mem[OF i(1)]] unfolding exits_ok_def by metis
  moreover have "number (\<lambda>p. p = Pl_exited) (pool_threads s') = number (\<lambda>p. p = Pl_exited) (pool_threads s) + of_bool (p = Pl_exited)"
    using number_move[OF i(1), of "\<lambda>p. p = Pl_exited" p] i(2) by (simp add: s'(1))
  moreover have "q = Pl_exit \<or> q = Pl_exited \<longrightarrow> need_stop s'" if "q \<in> set (pool_threads s')" for q
    using that ok s' set_update_subset_insert[of "pool_threads s" i p] by (auto simp: exits_ok_def)
  ultimately show ?thesis using ok s' by (simp add: exits_ok_def)
qed

lemma pool_step_completed:
  assumes "i < length (pool_threads s)" "pool_step i (pool_threads s ! i) s = Some s'"
  shows "pool_threads s ! i \<noteq> Pl_exited \<and> pool_stops s' = pool_stops s \<and> need_stop s' = need_stop s
    \<and> threads_completed s' = threads_completed s + of_bool (pool_threads s' ! i = Pl_exited)
    \<and> (pool_threads s' ! i = Pl_exit \<or> pool_threads s' ! i = Pl_exited \<longrightarrow> need_stop s \<or> pool_threads s ! i = Pl_exit)"
  using assms
  by (cases "pool_threads s ! i") (auto simp: claim_context_def take_task_def reset_progress_def inner_loop_def lock_context_def
      after_perform_def split: if_splits list.splits)

lemma pool_step_exits:
  assumes ok: "exits_ok s" and i: "i < length (pool_threads s)" and st: "pool_step i (pool_threads s ! i) s = Some s'"
  shows "exits_ok s'"
proof -
  have "pool_threads s ! i = Pl_exit \<longrightarrow> need_stop s" using ok nth_mem[OF i] by (auto simp: exits_ok_def)
  then show ?thesis using pool_step_completed[OF i st] by (intro exits_move[OF ok i _ pool_step_reach(1)[OF i st]]) blast+
qed

lemma stop_step_exits:
  assumes ok: "exits_ok s" and k: "k < length (pool_stops s)" and st: "stop_step k s = Some s'"
  shows "exits_ok s'"
proof (cases "pool_stops s ! k")
  case St_notify
  have n: "number (\<lambda>p. p = Pl_exited) (map (\<lambda>p. if p = Pl_asleep then Pl_woken else p) ps) = number (\<lambda>p. p = Pl_exited) ps" for ps
    by (induction ps) auto
  have "St_returned True \<in> set (pool_stops s)" if "St_returned True \<in> set ((pool_stops s)[k := St_wait])"
    using that set_update_subset_insert[of "pool_stops s" k St_wait] by auto
  then show ?thesis using St_notify st ok n by (auto simp: stop_step_def pool_notify_all_def exits_ok_def)
next
  case St_wait
  then show ?thesis using st ok by (auto simp: stop_step_def exits_ok_def split: if_splits)
qed (use st in \<open>simp add: stop_step_def\<close>)

lemma step_exits:
  assumes ok: "exits_ok s" and st: "context_pool_step e s = Some s'"
  shows "exits_ok s'"
proof (cases e)
  case (Cp_step i)
  then show ?thesis using st by (auto intro: pool_step_exits[OF ok] split: if_splits)
next
  case (Cp_stop_step k)
  then show ?thesis using st by (auto intro: stop_step_exits[OF ok] split: if_splits)
next
  case (Cp_spurious i)
  then show ?thesis using st exits_move[OF ok, of i s' Pl_woken] by (auto split: if_splits)
next
  case (Cp_notify i)
  then consider "s' = s\<lparr>pool_notifying := pool_notifying s - 1\<rparr>"
    | "i < length (pool_threads s)" "pool_threads s ! i = Pl_asleep" "s' = pool_goto i Pl_woken (s\<lparr>pool_notifying := pool_notifying s - 1\<rparr>)"
    using st by (auto simp: pool_notify_one_def split: if_splits)
  then show ?thesis
  proof cases
    case 1
    then show ?thesis using ok by (auto simp: exits_ok_def)
  next
    case 2
    then show ?thesis using exits_move[OF ok, of i s' Pl_woken] by simp
  qed
next
  case Cp_stop
  then show ?thesis using st ok by (auto simp: stopAll_def exits_ok_def split: if_splits)
qed (use st in \<open>auto intro!: exits_cong[OF ok] simp: makeNewContext_def insert_context_def hold_context_def release_context_def
    removeContext_def Let_def ctx_schedule_def wakeUpForContext_def split: if_splits\<close>)

interpretation context_pool: safety_system context_pool_step "context_pool n" context_pool_inv for n
proof
  show "context_pool_inv (context_pool n)"
    by (simp add: context_pool_inv_def contexts_ok_def names_ok_def wakeups_ok_def exits_ok_def context_pool_def number_replicate)
  show "context_pool_inv s'" if "context_pool_inv s" "context_pool_step e s = Some s'" for s e s'
    using that step_contexts[of s e s'] step_names[of s e s'] step_wakeups[of s e s'] step_exits[of s e s'] by (simp add: context_pool_inv_def)
qed

section \<open>Properties\<close>

text \<open>
  C24. The contexts of the pool, under every interleaving of schedulers, pool threads, removals and the
  stop: at most one thread is inside \<open>performOneTask\<close>'s exclusive part for a context, so its tasks never
  overlap; they are taken out in the order in which they were scheduled, each once; and as long as
  contexts are queued for execution, no notification is outstanding, no stop was requested and no thread has dereferenced a null pointer,
  some thread of the pool is neither asleep nor out of its loop.
  The call of \<open>stopAll\<close> that sets the flag returns only when every thread has counted itself out (any other call returns at once).
\<close>

theorem context_pool_serial_fifo:
  assumes "runs context_pool_step es (context_pool n) = Some s" "c < length (contexts s)"
  shows "length (filter (in_execution c) (pool_threads s)) \<le> 1
    \<and> ctx_pushed (contexts s ! c) = map fst (ctx_taken (contexts s ! c)) @ ctx_queue (contexts s ! c)
    \<and> (execution_queue s \<noteq> [] \<and> pool_notifying s = 0 \<and> pool_threads s \<noteq> [] \<and> \<not> need_stop s \<and> Pl_null \<notin> set (pool_threads s) \<longrightarrow>
        (\<exists>p \<in> set (pool_threads s). p \<notin> {Pl_asleep, Pl_null, Pl_exit, Pl_exited}))
    \<and> (St_returned True \<in> set (pool_stops s) \<longrightarrow> (\<forall>p \<in> set (pool_threads s). p = Pl_exited))"
proof -
  have inv: "context_pool_inv s" by (rule context_pool.inv_reachable[OF assms(1)])
  then have ok: "contexts_ok (pool_threads s) (contexts s)" "wakeups_ok s" "exits_ok s" by (simp_all add: context_pool_inv_def)
  have "St_returned True \<in> set (pool_stops s) \<longrightarrow> (\<forall>p \<in> set (pool_threads s). p = Pl_exited)"
    using ok(3) all_exited[of "pool_threads s"] unfolding exits_ok_def by metis
  moreover have "\<exists>p \<in> set (pool_threads s). p \<notin> {Pl_asleep, Pl_null, Pl_exit, Pl_exited}"
    if q: "execution_queue s \<noteq> []" "pool_notifying s = 0" "pool_threads s \<noteq> []" "\<not> need_stop s" "Pl_null \<notin> set (pool_threads s)"
  proof -
    obtain p where "p \<in> set (pool_threads s)" "p \<noteq> Pl_asleep" using ok(2) q(1-3) unfolding wakeups_ok_def by blast
    then show ?thesis using ok(3) q(4,5) unfolding exits_ok_def by blast
  qed
  ultimately show ?thesis using ok(1) assms(2) unfolding contexts_ok_def context_ok_def number_def by simp
qed

definition pool_to_sleep :: "nat \<Rightarrow> pool_event list" where
  "pool_to_sleep i = replicate 4 (Cp_step i)"

definition pool_race :: "pool_event list" where
  "pool_race = [Cp_new, Cp_insert, Cp_notify 0] @ pool_to_sleep 0 @ pool_to_sleep 1
     @ [Cp_schedule 0 7, Cp_wake 0, Cp_notify 0] @ replicate 15 (Cp_step 0)
     @ [Cp_schedule 0 8, Cp_wake 0, Cp_notify 1] @ replicate 8 (Cp_step 1)
     @ pool_to_sleep 1 @ replicate 3 (Cp_step 0) @ pool_to_sleep 0"

theorem context_pool_serial_fifo_witness:
  "\<exists>s. runs context_pool_step (take 30 pool_race) (context_pool 2) = Some s
     \<and> ctx_pushed (contexts s ! 0) = [7, 8]
     \<and> map fst (ctx_taken (contexts s ! 0)) @ ctx_queue (contexts s ! 0) = [7, 8]"
proof -
  have "map_option (\<lambda>s. (length (contexts s), ctx_pushed (contexts s ! 0)))
      (runs context_pool_step (take 30 pool_race) (context_pool 2)) = Some (1, [7, 8])"
    by code_simp
  then obtain s where s: "runs context_pool_step (take 30 pool_race) (context_pool 2) = Some s"
      "length (contexts s) = 1" "ctx_pushed (contexts s ! 0) = [7, 8]" by auto
  then show ?thesis using context_pool_serial_fifo[OF s(1), of 0] by auto
qed

text \<open>
  An example in which the pool leaves a task behind.  Thread 0 has run task 7 and then found the context's queue empty, but has
  not reset the flag yet; now task 8 is scheduled, and thread 1, which takes the context for it, gives up
  because the flag is still set.  In the final state every thread sleeps, no notification is outstanding,
  the context is alive and not in progress, and task 8 stays in its queue until something else is
  scheduled.
\<close>

theorem context_pool_loses_task:
  "\<exists>s. runs context_pool_step pool_race (context_pool 2) = Some s
     \<and> ctx_queue (contexts s ! 0) = [8] \<and> \<not> ctx_in_progress (contexts s ! 0) \<and> pool_contexts s = [0]
     \<and> pool_threads s = [Pl_asleep, Pl_asleep] \<and> execution_queue s = []
     \<and> pool_notifying s = 0 \<and> pool_wakers s = [] \<and> \<not> need_stop s"
proof -
  have "map_option (\<lambda>s. (ctx_queue (contexts s ! 0), ctx_in_progress (contexts s ! 0), pool_contexts s, pool_threads s,
      execution_queue s, pool_notifying s, pool_wakers s, need_stop s))
      (runs context_pool_step pool_race (context_pool 2)) = Some ([8], False, [0], [Pl_asleep, Pl_asleep], [], 0, [], False)"
    by code_simp
  then show ?thesis by auto
qed

text \<open>
  A run in which a pool thread dereferences a null pointer: the context was removed while a caller still held a pointer to it, and the
  caller drops this pointer after the thread has seen that the context had not expired and before it locks it.
\<close>

definition expiry_race :: "pool_event list" where
  "expiry_race = [Cp_new, Cp_insert, Cp_notify 0, Cp_schedule 0 7, Cp_wake 0, Cp_notify 0, Cp_release 0, Cp_remove 0]
     @ replicate 5 (Cp_step 0) @ [Cp_release 0, Cp_step 0]"

lemma context_expires_after_test:
  "\<exists>s. runs context_pool_step expiry_race (context_pool 1) = Some s \<and> pool_threads s = [Pl_null]"
proof -
  have "map_option pool_threads (runs context_pool_step expiry_race (context_pool 1)) = Some [Pl_null]" by code_simp
  then show ?thesis by auto
qed

end
