(* ===== verification/Lightweight_Semaphore.thy ===== *)
theory Lightweight_Semaphore
  imports Prelude
begin

text \<open>
  \<open>libs/concurrentqueue/blockingconcurrentqueue.h\<close>, \<open>details::mpmc_sema\<close>: a semaphore whose count is an
  atomic integer and which uses the operating system's semaphore only when a caller has to sleep.

  Every access to \<open>m_count\<close> and every operation on \<open>m_sema\<close> is one event; any number of callers and
  signallers interleave.  \<open>m_sema\<close> is a counter: \<open>wait\<close> is possible when it is positive, \<open>timed_wait\<close>
  may also time out at any moment, \<open>try_wait\<close> fails exactly when it is zero.  \<open>m_count\<close> is an \<open>ssize_t\<close>: its value
  is an integer between \<open>-2 ^ 63\<close> and \<open>2 ^ 63 - 1\<close>, and \<open>fetch_add\<close> and \<open>fetch_sub\<close> wrap around; the number of callers to release is
  converted to \<open>int\<close>, of 32 bits.  The number of
  spins, 10000 in the source, is a field of the state.  A compare-exchange may fail spuriously.  An event that violates an
  assertion of the source has no result.
\<close>

text \<open>Conversions to \<open>ssize_t\<close> and to \<open>int\<close>.\<close>

definition ssize_t :: "int \<Rightarrow> int" where
  "ssize_t x = signed_take_bit 63 x"

definition int_cast :: "int \<Rightarrow> int" where
  "int_cast x = signed_take_bit 31 x"

lemma ssize_t_id: "- (2 ^ 63) \<le> x \<Longrightarrow> x < 2 ^ 63 \<Longrightarrow> ssize_t x = x"
  unfolding ssize_t_def by (rule signed_take_bit_int_eq_self)

lemma int_cast_id: "- (2 ^ 31) \<le> x \<Longrightarrow> x < 2 ^ 31 \<Longrightarrow> int_cast x = x"
  unfolding int_cast_def by (rule signed_take_bit_int_eq_self)

section \<open>State\<close>

text \<open>
  The public operations; a flag says whether there is a timeout, that is, \<open>timeout_usecs \<ge> 0\<close>. \<open>WaitManySome\<close> is \<open>waitMany\<close>
  without a timeout argument, which asserts that its result is positive.
\<close>

datatype sem_call =
    TryWait
  | Wait bool
  | TryWaitMany int
  | WaitMany int bool
  | WaitManySome int

text \<open>The second argument is what the call has acquired so far.\<close>

datatype sem_pc =
    Sp_idle
  | Sp_load sem_call int            \<comment> \<open>\<open>tryWait\<close>, \<open>tryWaitMany\<close>: before the load\<close>
  | Sp_cas sem_call int int         \<comment> \<open>with the loaded count\<close>
  | Sp_spin sem_call nat            \<comment> \<open>the spins that are left\<close>
  | Sp_spin_cas sem_call nat int
  | Sp_sub sem_call                 \<comment> \<open>before \<open>fetch_sub\<close>\<close>
  | Sp_sema sem_call                \<comment> \<open>in \<open>m_sema.wait\<close> or \<open>m_sema.timed_wait\<close>\<close>
  | Sp_timeout sem_call             \<comment> \<open>timed out, before the load\<close>
  | Sp_adjust sem_call int          \<comment> \<open>with the loaded count\<close>
  | Sp_done sem_call int            \<comment> \<open>returned\<close>

record semaphore =
  m_count :: int
  m_sema :: nat
  sem_spins :: nat
  sem_callers :: "sem_pc list"
  sem_posting :: nat              \<comment> \<open>calls of \<open>sem_post\<close> that signallers have yet to make\<close>
  sem_signalled :: int            \<comment> \<open>permits put in so far, the initial count included\<close>
  sem_acquired :: int             \<comment> \<open>permits taken so far\<close>

definition LightweightSemaphore :: "nat \<Rightarrow> nat \<Rightarrow> nat \<Rightarrow> semaphore" where
  "LightweightSemaphore initialCount spins callers =
     \<lparr>m_count = ssize_t (int initialCount), m_sema = 0, sem_spins = spins, sem_callers = replicate callers Sp_idle,
      sem_posting = 0, sem_signalled = int initialCount, sem_acquired = 0\<rparr>"

fun call_max :: "sem_call \<Rightarrow> int" where
  "call_max TryWait = 1"
| "call_max (Wait b) = 1"
| "call_max (TryWaitMany m) = m"
| "call_max (WaitMany m b) = m"
| "call_max (WaitManySome m) = m"

fun call_blocks :: "sem_call \<Rightarrow> bool" where
  "call_blocks TryWait = False"
| "call_blocks (Wait b) = True"
| "call_blocks (TryWaitMany m) = False"
| "call_blocks (WaitMany m b) = (m > 0)"
| "call_blocks (WaitManySome m) = (m > 0)"

fun call_timed :: "sem_call \<Rightarrow> bool" where
  "call_timed (Wait b) = b"
| "call_timed (WaitMany m b) = b"
| "call_timed _ = False"

definition sem_goto :: "nat \<Rightarrow> sem_pc \<Rightarrow> semaphore \<Rightarrow> semaphore" where
  "sem_goto i p s = s\<lparr>sem_callers := (sem_callers s)[i := p]\<rparr>"

text \<open>Take \<open>k\<close> permits from the count.\<close>

definition sem_take :: "int \<Rightarrow> semaphore \<Rightarrow> semaphore" where
  "sem_take k s = s\<lparr>m_count := m_count s - k, sem_acquired := sem_acquired s + k\<rparr>"

section \<open>Operations\<close>

text \<open>\<open>newCount\<close>: \<open>oldCount - 1\<close>, or what is left after taking at most \<open>max\<close>.\<close>

definition new_count :: "sem_call \<Rightarrow> int \<Rightarrow> int \<Rightarrow> int" where
  "new_count c acc old =
     (case c of
        TryWait \<Rightarrow> old - 1
      | Wait b \<Rightarrow> old - 1
      | _ \<Rightarrow> let max = call_max c - acc in if old > max then old - max else 0)"

text \<open>\<open>tryWait\<close> and \<open>tryWaitMany\<close>; \<open>fails\<close> is a spurious failure of \<open>compare_exchange_weak\<close>.\<close>

definition try_wait_cas :: "nat \<Rightarrow> bool \<Rightarrow> sem_call \<Rightarrow> int \<Rightarrow> int \<Rightarrow> semaphore \<Rightarrow> semaphore" where
  "try_wait_cas i fails c acc old s =
     (if old > 0
      then if m_count s = old \<and> \<not> fails
        then let k = old - new_count c acc old
             in sem_goto i (Sp_done c (acc + k)) (sem_take k s)
        else sem_goto i (Sp_cas c acc (m_count s)) s
      else if acc = 0 \<and> call_blocks c then sem_goto i (Sp_spin c (sem_spins s)) s
      else sem_goto i (Sp_done c acc) s)"

text \<open>The spinning loop of \<open>waitWithPartialSpinning\<close> and \<open>waitManyWithPartialSpinning\<close>.\<close>

definition spin_load :: "nat \<Rightarrow> sem_call \<Rightarrow> nat \<Rightarrow> semaphore \<Rightarrow> semaphore" where
  "spin_load i c k s =
     (if k = 0 then sem_goto i (Sp_sub c) s
      else if m_count s > 0 then sem_goto i (Sp_spin_cas c (k - 1) (m_count s)) s
      else sem_goto i (Sp_spin c (k - 1)) s)"

definition spin_cas :: "nat \<Rightarrow> sem_call \<Rightarrow> nat \<Rightarrow> int \<Rightarrow> semaphore \<Rightarrow> semaphore" where
  "spin_cas i c k old s =
     (if m_count s = old
      then let d = old - new_count c 0 old in sem_goto i (Sp_done c d) (sem_take d s)
      else sem_goto i (Sp_spin c k) s)"

text \<open>One permit is there; \<open>waitMany\<close> then tries to get more.\<close>

definition got_one :: "nat \<Rightarrow> sem_call \<Rightarrow> semaphore \<Rightarrow> semaphore" where
  "got_one i c s = sem_goto i (if call_max c > 1 then Sp_load c 1 else Sp_done c 1) s"

definition count_sub :: "nat \<Rightarrow> sem_call \<Rightarrow> semaphore \<Rightarrow> semaphore" where
  "count_sub i c s =
     (if m_count s > 0 then got_one i c (sem_take 1 s)
      else sem_goto i (Sp_sema c) (s\<lparr>m_count := ssize_t (m_count s - 1)\<rparr>))"

definition sema_get :: "nat \<Rightarrow> sem_call \<Rightarrow> semaphore \<Rightarrow> semaphore" where
  "sema_get i c s = got_one i c (s\<lparr>m_sema := m_sema s - 1, sem_acquired := sem_acquired s + 1\<rparr>)"

text \<open>Blocked in \<open>m_sema\<close>: \<open>timeout\<close> tells whether the timeout passes.\<close>

definition sema_wait :: "nat \<Rightarrow> bool \<Rightarrow> sem_call \<Rightarrow> semaphore \<Rightarrow> semaphore option" where
  "sema_wait i timeout c s =
     (if timeout \<and> call_timed c then Some (sem_goto i (Sp_timeout c) s)
      else if \<not> timeout \<and> m_sema s > 0 then Some (sema_get i c s)
      else None)"

text \<open>After a timeout: undo the decrement, unless a signaller has already counted this caller.\<close>

definition adjust_count :: "nat \<Rightarrow> sem_call \<Rightarrow> int \<Rightarrow> semaphore \<Rightarrow> semaphore" where
  "adjust_count i c old s =
     (if old \<ge> 0 then
        if m_sema s > 0 then sema_get i c s else sem_goto i (Sp_timeout c) s
      else if m_count s = old then sem_goto i (Sp_done c 0) (s\<lparr>m_count := old + 1\<rparr>)
      else sem_goto i (Sp_timeout c) s)"

fun sem_caller_step :: "nat \<Rightarrow> bool \<Rightarrow> sem_pc \<Rightarrow> semaphore \<Rightarrow> semaphore option" where
  "sem_caller_step i b (Sp_load c acc) s = Some (sem_goto i (Sp_cas c acc (m_count s)) s)"
| "sem_caller_step i b (Sp_cas c acc old) s = Some (try_wait_cas i b c acc old s)"
| "sem_caller_step i b (Sp_spin c k) s = Some (spin_load i c k s)"
| "sem_caller_step i b (Sp_spin_cas c k old) s = Some (spin_cas i c k old s)"
| "sem_caller_step i b (Sp_sub c) s = Some (count_sub i c s)"
| "sem_caller_step i b (Sp_sema c) s = sema_wait i b c s"
| "sem_caller_step i b (Sp_timeout c) s = Some (sem_goto i (Sp_adjust c (m_count s)) s)"
| "sem_caller_step i b (Sp_adjust c old) s = Some (adjust_count i c old s)"
| "sem_caller_step i b Sp_idle s = None"
| "sem_caller_step i b (Sp_done (WaitManySome m) r) s = (if r > 0 then Some (sem_goto i Sp_idle s) else None)"
| "sem_caller_step i b (Sp_done c r) s = Some (sem_goto i Sp_idle s)"

text \<open>\<open>signal\<close>: the count is increased, then the sleeping callers it accounts for are released one by one.\<close>

definition sem_signal :: "int \<Rightarrow> semaphore \<Rightarrow> semaphore" where
  "sem_signal k s =
     (let oldCount = m_count s; toRelease = (if ssize_t (- oldCount) < k then ssize_t (- oldCount) else k)
      in s\<lparr>m_count := ssize_t (oldCount + k), sem_signalled := sem_signalled s + k,
           sem_posting := sem_posting s + (if toRelease > 0 then nat (int_cast toRelease) else 0)\<rparr>)"

definition sem_post :: "semaphore \<Rightarrow> semaphore option" where
  "sem_post s = (if sem_posting s = 0 then None
     else Some (s\<lparr>sem_posting := sem_posting s - 1, m_sema := m_sema s + 1\<rparr>))"

definition availableApprox :: "semaphore \<Rightarrow> int" where
  "availableApprox s = (if m_count s > 0 then m_count s else 0)"

datatype sem_event = Sem_call nat sem_call | Sem_step nat bool | Sem_signal int | Sem_post

fun semaphore_step :: "sem_event \<Rightarrow> semaphore \<Rightarrow> semaphore option" where
  "semaphore_step (Sem_call i c) s =
     (if i < length (sem_callers s) \<and> sem_callers s ! i = Sp_idle \<and> 0 \<le> call_max c \<and> call_max c < 2 ^ 63
      then Some (sem_goto i (Sp_load c 0) s) else None)"
| "semaphore_step (Sem_step i b) s =
     (if i < length (sem_callers s) then sem_caller_step i b (sem_callers s ! i) s else None)"
| "semaphore_step (Sem_signal k) s = (if 0 \<le> k \<and> k < 2 ^ 63 then Some (sem_signal k s) else None)"
| "semaphore_step Sem_post s = sem_post s"

section \<open>Invariant\<close>

text \<open>Callers that have decremented the count and not yet got a permit.\<close>

fun sem_waiting :: "sem_pc \<Rightarrow> bool" where
  "sem_waiting (Sp_sema c) = True"
| "sem_waiting (Sp_timeout c) = True"
| "sem_waiting (Sp_adjust c old) = True"
| "sem_waiting _ = False"

fun sem_pc_ok :: "sem_pc \<Rightarrow> bool" where
  "sem_pc_ok Sp_idle = True"
| "sem_pc_ok (Sp_load c acc) \<longleftrightarrow> 0 \<le> acc \<and> acc \<le> call_max c \<and> (0 < acc \<longrightarrow> call_blocks c \<and> 1 < call_max c)"
| "sem_pc_ok (Sp_cas c acc old) \<longleftrightarrow> 0 \<le> acc \<and> acc \<le> call_max c \<and> (0 < acc \<longrightarrow> call_blocks c \<and> 1 < call_max c)"
| "sem_pc_ok (Sp_spin c k) \<longleftrightarrow> call_blocks c"
| "sem_pc_ok (Sp_spin_cas c k old) \<longleftrightarrow> call_blocks c \<and> old > 0"
| "sem_pc_ok (Sp_sub c) \<longleftrightarrow> call_blocks c"
| "sem_pc_ok (Sp_sema c) \<longleftrightarrow> call_blocks c"
| "sem_pc_ok (Sp_timeout c) \<longleftrightarrow> call_blocks c \<and> call_timed c"
| "sem_pc_ok (Sp_adjust c old) \<longleftrightarrow> call_blocks c \<and> call_timed c"
| "sem_pc_ok (Sp_done c r) \<longleftrightarrow> 0 \<le> r \<and> r \<le> call_max c \<and> (call_blocks c \<and> \<not> call_timed c \<longrightarrow> 1 \<le> r)"

definition semaphore_inv :: "semaphore \<Rightarrow> bool" where
  "semaphore_inv s \<longleftrightarrow>
     int (number sem_waiting (sem_callers s)) = int (m_sema s) + int (sem_posting s) + max 0 (- m_count s)
   \<and> sem_acquired s + int (m_sema s) + int (sem_posting s) + max 0 (m_count s) = sem_signalled s
   \<and> 0 \<le> sem_acquired s \<and> (\<forall>p \<in> set (sem_callers s). sem_pc_ok p)"

text \<open>
  The invariant holds as long as fewer than \<open>2 ^ 63\<close> permits have been signalled, the initial ones included, and there are fewer
  than \<open>2 ^ 31\<close> callers; then nothing wraps around.
\<close>

definition sem_bounded :: "semaphore \<Rightarrow> bool" where
  "sem_bounded s \<longleftrightarrow> sem_signalled s < 2 ^ 63 \<and> length (sem_callers s) < 2 ^ 31"

definition semaphore_safe :: "semaphore \<Rightarrow> bool" where
  "semaphore_safe s \<longleftrightarrow> (sem_bounded s \<longrightarrow> semaphore_inv s)"

lemma m_count_range:
  assumes "semaphore_inv s" "sem_bounded s"
  shows "- (2 ^ 31) < m_count s" "m_count s \<le> sem_signalled s" "0 \<le> sem_signalled s"
proof -
  have "int (number sem_waiting (sem_callers s)) < 2 ^ 31"
    using number_le[of sem_waiting "sem_callers s"] assms(2) by (simp add: sem_bounded_def)
  then show "- (2 ^ 31) < m_count s" "m_count s \<le> sem_signalled s" "0 \<le> sem_signalled s"
    using assms(1) unfolding semaphore_inv_def by linarith+
qed

text \<open>What one step of a caller does, as far as the invariant is concerned.\<close>

lemma semaphore_inv_caller:
  assumes inv: "semaphore_inv s" and i: "i < length (sem_callers s)"
    and s': "sem_callers s' = (sem_callers s)[i := p]" "sem_posting s' = sem_posting s" "sem_signalled s' = sem_signalled s"
    and ok: "sem_pc_ok p"
    and bal: "of_bool (sem_waiting p) - of_bool (sem_waiting (sem_callers s ! i))
        = int (m_sema s') - int (m_sema s) + max 0 (- m_count s') - max 0 (- m_count s)"
      "sem_acquired s' - sem_acquired s + (int (m_sema s') - int (m_sema s)) + max 0 (m_count s') - max 0 (m_count s) = 0"
      "sem_acquired s \<le> sem_acquired s'"
  shows "semaphore_inv s'"
proof -
  have "int (number sem_waiting (sem_callers s')) + of_bool (sem_waiting (sem_callers s ! i))
      = int (number sem_waiting (sem_callers s)) + of_bool (sem_waiting p)"
    using number_move[OF i, of sem_waiting p] unfolding s'(1) by (metis of_nat_add of_nat_of_bool)
  moreover have "\<forall>q \<in> set (sem_callers s'). sem_pc_ok q"
    using inv ok s'(1) set_update_subset_insert[of "sem_callers s" i p] by (auto simp: semaphore_inv_def)
  ultimately show ?thesis using inv bal s'(2,3) by (simp add: semaphore_inv_def)
qed

lemma new_count_bounds:
  assumes "0 < old" "0 \<le> acc" "acc \<le> call_max c" "acc = 0 \<or> 1 < call_max c"
  shows "0 \<le> new_count c acc old" "new_count c acc old \<le> old" "acc + (old - new_count c acc old) \<le> call_max c"
    "acc < call_max c \<Longrightarrow> new_count c acc old < old"
  using assms by (cases c; auto simp: new_count_def Let_def)+

lemmas sem_step_defs = try_wait_cas_def spin_load_def spin_cas_def count_sub_def sema_wait_def sema_get_def got_one_def
  adjust_count_def sem_goto_def sem_take_def Let_def

lemma call_blocks_max: "call_blocks c \<Longrightarrow> 1 \<le> call_max c"
  by (cases c) auto

lemma try_wait_cas_inv:
  assumes inv: "semaphore_inv s" and i: "i < length (sem_callers s)" and p: "sem_callers s ! i = Sp_cas c acc old"
  shows "semaphore_inv (try_wait_cas i b c acc old s)"
proof -
  have ok: "sem_pc_ok (Sp_cas c acc old)" using inv nth_mem[OF i] p by (metis semaphore_inv_def)
  then have c: "0 \<le> acc" "acc \<le> call_max c" by simp_all
  then have "acc = 0 \<or> 1 < call_max c" using ok by (cases "acc = 0") auto
  note c = c this
  note move = semaphore_inv_caller[OF inv i]
  show ?thesis
  proof (cases "old > 0 \<and> m_count s = old \<and> \<not> b")
    case True
    then have old: "0 < old" by simp
    note n = new_count_bounds[OF old c]
    let ?k = "old - new_count c acc old"
    have "1 \<le> acc + ?k" if "call_blocks c"
      using n(2,4) c(1) call_blocks_max[OF that] by (cases "acc = 0") auto
    then have "sem_pc_ok (Sp_done c (acc + ?k))" using n(2,3) c(1) by simp
    then show ?thesis using True p n(1,2)
      by (intro move[of _ "Sp_done c (acc + ?k)"]) (simp_all add: sem_step_defs)
  next
    case False
    have "acc = 0 \<or> call_blocks c \<and> 1 < call_max c" using ok by auto
    then consider "old > 0" | "old \<le> 0" "acc = 0" "call_blocks c" | "old \<le> 0" "acc = 0 \<longrightarrow> \<not> call_blocks c" by force
    then show ?thesis
    proof cases
      case 1
      then show ?thesis using False ok p
        by (intro move[of _ "Sp_cas c acc (m_count s)"]) (auto simp: sem_step_defs)
    next
      case 2
      then show ?thesis using p
        by (intro move[of _ "Sp_spin c (sem_spins s)"]) (simp_all add: sem_step_defs)
    next
      case 3
      then show ?thesis using p ok
        by (intro move[of _ "Sp_done c acc"]) (auto simp: sem_step_defs)
    qed
  qed
qed

lemma got_one_inv:
  assumes inv: "semaphore_inv s" and i: "i < length (sem_callers s)" and c: "call_blocks c"
    and s': "sem_callers s' = sem_callers s" "sem_posting s' = sem_posting s" "sem_signalled s' = sem_signalled s"
    and bal: "- of_bool (sem_waiting (sem_callers s ! i))
        = int (m_sema s') - int (m_sema s) + max 0 (- m_count s') - max 0 (- m_count s)"
      "sem_acquired s' - sem_acquired s + (int (m_sema s') - int (m_sema s)) + max 0 (m_count s') - max 0 (m_count s) = 0"
      "sem_acquired s \<le> sem_acquired s'"
  shows "semaphore_inv (got_one i c s')"
proof -
  have "sem_pc_ok (if call_max c > 1 then Sp_load c 1 else Sp_done c 1)" using c call_blocks_max[OF c] by auto
  then show ?thesis using s' bal
    by (intro semaphore_inv_caller[OF inv i, of _ "if call_max c > 1 then Sp_load c 1 else Sp_done c 1"])
      (simp_all add: got_one_def sem_goto_def)
qed

lemma sem_caller_step_inv:
  assumes inv: "semaphore_inv s" and bd: "sem_bounded s" and i: "i < length (sem_callers s)"
    and st: "sem_caller_step i b (sem_callers s ! i) s = Some s'"
  shows "semaphore_inv s'"
proof -
  have ok: "sem_pc_ok (sem_callers s ! i)" using inv nth_mem[OF i] by (simp add: semaphore_inv_def)
  note move = semaphore_inv_caller[OF inv i]
  have get: "semaphore_inv (sema_get i c s)" if "m_sema s > 0" "call_blocks c" "sem_waiting (sem_callers s ! i)" for c
    unfolding sema_get_def using that by (intro got_one_inv[OF inv i]) (simp_all add: of_nat_diff)
  show ?thesis
  proof (cases "sem_callers s ! i")
    case (Sp_load c acc)
    then show ?thesis using st ok by (intro move[of _ "Sp_cas c acc (m_count s)"]) (auto simp: sem_goto_def)
  next
    case (Sp_cas c acc old)
    then show ?thesis using st try_wait_cas_inv[OF inv i Sp_cas, of b] by simp
  next
    case (Sp_spin c k)
    define p where "p = (if k = 0 then Sp_sub c else if m_count s > 0 then Sp_spin_cas c (k - 1) (m_count s) else Sp_spin c (k - 1))"
    have "s' = sem_goto i p s" using Sp_spin st by (auto simp: spin_load_def p_def)
    then show ?thesis using Sp_spin ok by (intro move[of _ p]) (auto simp: sem_goto_def p_def)
  next
    case (Sp_spin_cas c k old)
    then have c: "call_blocks c" "0 < old" using ok by simp_all
    have n: "0 \<le> new_count c 0 old" "new_count c 0 old < old" "old - new_count c 0 old \<le> call_max c"
      using new_count_bounds[OF c(2), of 0 c] call_blocks_max[OF c(1)] by auto
    show ?thesis
    proof (cases "m_count s = old")
      case True
      then show ?thesis using Sp_spin_cas st n
        by (intro move[of _ "Sp_done c (old - new_count c 0 old)"]) (auto simp: sem_step_defs)
    next
      case False
      then show ?thesis using Sp_spin_cas st c by (intro move[of _ "Sp_spin c k"]) (auto simp: sem_step_defs)
    qed
  next
    case (Sp_sub c)
    then have c: "call_blocks c" using ok by simp
    show ?thesis
    proof (cases "m_count s > 0")
      case True
      then have "semaphore_inv (got_one i c (sem_take 1 s))" using Sp_sub c
        by (intro got_one_inv[OF inv i]) (simp_all add: sem_take_def)
      then show ?thesis using True Sp_sub st by (simp add: count_sub_def)
    next
      case False
      have "ssize_t (m_count s - 1) = m_count s - 1" using m_count_range[OF inv bd] False by (intro ssize_t_id) simp_all
      then show ?thesis using False Sp_sub st c by (intro move[of _ "Sp_sema c"]) (auto simp: count_sub_def sem_goto_def)
    qed
  next
    case (Sp_sema c)
    then show ?thesis using st ok get[of c] move[of s' "Sp_timeout c"]
      by (auto simp: sema_wait_def sem_goto_def split: if_splits)
  next
    case (Sp_timeout c)
    then show ?thesis using st ok by (intro move[of _ "Sp_adjust c (m_count s)"]) (auto simp: sem_goto_def)
  next
    case (Sp_adjust c old)
    then have c: "call_blocks c" "call_timed c" using ok by simp_all
    have retry: "semaphore_inv (sem_goto i (Sp_timeout c) s)"
      using Sp_adjust c by (intro move[of _ "Sp_timeout c"]) (auto simp: sem_goto_def)
    have readjust: "semaphore_inv (sem_goto i (Sp_done c 0) (s\<lparr>m_count := old + 1\<rparr>))" if "old < 0" "m_count s = old"
      using Sp_adjust c that call_blocks_max[OF c(1)] by (intro move[of _ "Sp_done c 0"]) (auto simp: sem_goto_def)
    show ?thesis using st Sp_adjust retry readjust get[OF _ c(1)]
      by (auto simp: adjust_count_def split: if_splits)
  next
    case Sp_idle
    then show ?thesis using st by simp
  next
    case (Sp_done c r)
    then have "s' = sem_goto i Sp_idle s" using st by (cases c) (auto split: if_splits)
    then show ?thesis using Sp_done by (intro move[of _ Sp_idle]) (auto simp: sem_goto_def)
  qed
qed

lemma sem_signal_inv:
  assumes inv: "semaphore_inv s" and k: "0 \<le> k" "sem_bounded (sem_signal k s)"
  shows "semaphore_inv (sem_signal k s)"
proof -
  have "sem_bounded s" using k by (simp add: sem_bounded_def sem_signal_def Let_def)
  note r = m_count_range[OF inv this]
  have kb: "sem_signalled s + k < 2 ^ 63" using k(2) by (simp add: sem_bounded_def sem_signal_def Let_def)
  have c: "ssize_t (m_count s + k) = m_count s + k" "ssize_t (- m_count s) = - m_count s"
    using r k(1) kb by (intro ssize_t_id; simp)+
  have "int_cast x = x" if "0 < x" "x \<le> - m_count s" for x using that r by (intro int_cast_id) simp_all
  then show ?thesis using inv k(1) unfolding sem_signal_def c Let_def
    by (auto simp: semaphore_inv_def max_def split: if_splits)
qed

lemma semaphore_step_grows:
  assumes "semaphore_step e s = Some s'"
  shows "sem_signalled s \<le> sem_signalled s'" "length (sem_callers s') = length (sem_callers s)"
proof -
  have "sem_signalled s \<le> sem_signalled s' \<and> length (sem_callers s') = length (sem_callers s)"
  proof (cases e)
    case (Sem_step i b)
    define p where "p = sem_callers s ! i"
    have "sem_caller_step i b p s = Some s'" using assms Sem_step by (simp add: p_def split: if_splits)
    then show ?thesis by (induction i b p s rule: sem_caller_step.induct) (auto simp: sem_step_defs split: if_splits)
  qed (use assms in \<open>auto simp: sem_goto_def sem_signal_def sem_post_def Let_def split: if_splits\<close>)
  then show "sem_signalled s \<le> sem_signalled s'" "length (sem_callers s') = length (sem_callers s)" by simp_all
qed

lemma sem_bounded_step: "semaphore_step e s = Some s' \<Longrightarrow> sem_bounded s' \<Longrightarrow> sem_bounded s"
  using semaphore_step_grows[of e s s'] by (simp add: sem_bounded_def)

lemma semaphore_inv_step:
  assumes inv: "semaphore_inv s" and st: "semaphore_step e s = Some s'" and bd: "sem_bounded s'"
  shows "semaphore_inv s'"
proof (cases e)
  case (Sem_call i c)
  then have "i < length (sem_callers s)" "s' = sem_goto i (Sp_load c 0) s" "sem_callers s ! i = Sp_idle" "0 \<le> call_max c"
    using st by (auto split: if_splits)
  then show ?thesis by (intro semaphore_inv_caller[OF inv, of i _ "Sp_load c 0"]) (auto simp: sem_goto_def)
next
  case (Sem_step i b)
  then show ?thesis using st by (auto intro: sem_caller_step_inv[OF inv sem_bounded_step[OF st bd]] split: if_splits)
next
  case (Sem_signal k)
  then show ?thesis using st bd sem_signal_inv[OF inv, of k] by (auto split: if_splits)
next
  case Sem_post
  then show ?thesis using st inv by (auto simp: sem_post_def semaphore_inv_def split: if_splits)
qed

interpretation semaphore: safety_system semaphore_step "LightweightSemaphore k spins n" semaphore_safe for k spins n
proof
  show "semaphore_safe (LightweightSemaphore k spins n)"
    by (auto simp: semaphore_safe_def sem_bounded_def semaphore_inv_def LightweightSemaphore_def number_replicate ssize_t_id)
  show "semaphore_safe s'" if "semaphore_safe s" "semaphore_step e s = Some s'" for s e s'
    using that semaphore_inv_step[OF _ that(2)] sem_bounded_step[OF that(2)] by (auto simp: semaphore_safe_def)
qed

section \<open>Properties\<close>

text \<open>Permits that are there, or on their way to a caller that is accounted for.\<close>

definition sem_available :: "semaphore \<Rightarrow> int" where
  "sem_available s = int (m_sema s) + int (sem_posting s) + max 0 (m_count s)"

text \<open>
  C15. \<open>LightweightSemaphore\<close>, with fewer than two to the 31st callers and any number of signallers, as long as fewer
  than two to the 63rd permits have been signalled in all: permits are neither lost nor
  invented, by timeouts and by acquisitions of several permits neither, so never more are acquired than
  were signalled; a caller that is blocked while the kernel's semaphore is empty and no release is under way
  is blocked rightly, all permits are taken; and a call returns between zero and as many permits as it
  asked for, and at least one if it is to wait and has no timeout.
\<close>

theorem semaphore_conserves_permits:
  assumes "runs semaphore_step es (LightweightSemaphore k spins n) = Some s" "sem_signalled s < 2 ^ 63" "n < 2 ^ 31"
  shows "sem_acquired s + sem_available s = sem_signalled s \<and> sem_acquired s \<le> sem_signalled s
    \<and> (Sp_sema c \<in> set (sem_callers s) \<and> m_sema s = 0 \<and> sem_posting s = 0 \<longrightarrow> sem_acquired s = sem_signalled s)
    \<and> (Sp_done c r \<in> set (sem_callers s) \<longrightarrow> 0 \<le> r \<and> r \<le> call_max c \<and> (call_blocks c \<and> \<not> call_timed c \<longrightarrow> 1 \<le> r))"
proof -
  have "length (sem_callers s) = n"
    using runs_keeps[of semaphore_step "\<lambda>s. length (sem_callers s)", OF semaphore_step_grows(2) assms(1)] by (simp add: LightweightSemaphore_def)
  then have inv: "semaphore_inv s" using semaphore.inv_reachable[OF assms(1)] assms(2,3) by (simp add: semaphore_safe_def sem_bounded_def)
  have "0 < number sem_waiting (sem_callers s)" if w: "Sp_sema c \<in> set (sem_callers s)"
  proof -
    obtain i where "i < length (sem_callers s)" "sem_callers s ! i = Sp_sema c" using w by (auto simp: in_set_conv_nth)
    then show ?thesis by (intro number_pos[of i]) simp_all
  qed
  then have "Sp_sema c \<in> set (sem_callers s) \<and> m_sema s = 0 \<and> sem_posting s = 0 \<longrightarrow> sem_acquired s = sem_signalled s"
    using inv by (auto simp: semaphore_inv_def max_def split: if_splits)
  moreover have "sem_pc_ok (Sp_done c r)" if "Sp_done c r \<in> set (sem_callers s)"
    using inv that unfolding semaphore_inv_def by blast
  then have "Sp_done c r \<in> set (sem_callers s) \<longrightarrow> 0 \<le> r \<and> r \<le> call_max c \<and> (call_blocks c \<and> \<not> call_timed c \<longrightarrow> 1 \<le> r)" by simp
  moreover have "sem_acquired s + sem_available s = sem_signalled s" "0 \<le> sem_available s"
    using inv by (simp_all add: semaphore_inv_def sem_available_def)
  ultimately show ?thesis by linarith
qed

theorem semaphore_conserves_permits_witness:
  "\<exists>s. runs semaphore_step ([Sem_call 0 (Wait False), Sem_call 1 (Wait True)] @ replicate 5 (Sem_step 0 False)
       @ replicate 5 (Sem_step 1 False) @ [Sem_step 1 True, Sem_signal 3, Sem_step 1 False]
       @ [Sem_step 1 False, Sem_post, Sem_post, Sem_step 0 False])
       (LightweightSemaphore 0 1 2) = Some s
     \<and> sem_acquired s = 1 \<and> sem_acquired s + sem_available s = 3 \<and> sem_callers s = [Sp_done (Wait False) 1, Sp_timeout (Wait True)]"
proof -
  let ?es = "[Sem_call 0 (Wait False), Sem_call 1 (Wait True)] @ replicate 5 (Sem_step 0 False)
       @ replicate 5 (Sem_step 1 False) @ [Sem_step 1 True, Sem_signal 3, Sem_step 1 False]
       @ [Sem_step 1 False, Sem_post, Sem_post, Sem_step 0 False]"
  have "map_option (\<lambda>s. (sem_acquired s, sem_signalled s, sem_callers s)) (runs semaphore_step ?es (LightweightSemaphore 0 1 2))
      = Some (1, 3, [Sp_done (Wait False) 1, Sp_timeout (Wait True)])" by code_simp
  then obtain s where s: "runs semaphore_step ?es (LightweightSemaphore 0 1 2) = Some s" "sem_acquired s = 1"
      "sem_signalled s = 3" "sem_callers s = [Sp_done (Wait False) 1, Sp_timeout (Wait True)]" by auto
  then show ?thesis using semaphore_conserves_permits[OF s(1)] by auto
qed

end
