(* ===== verification/Blocking_Queue.thy ===== *)
theory Blocking_Queue
  imports Lightweight_Semaphore
begin

text \<open>
  \<open>libs/concurrentqueue/blockingconcurrentqueue.h\<close>: \<open>BlockingConcurrentQueue\<close>, a concurrent queue with a
  semaphore that counts its elements.

  The state is composed of the semaphore of \<open>Lightweight_Semaphore\<close> and of the inner queue, which is
  used only through its contract: it holds a bag of elements, \<open>enqueue\<close> adds its elements or fails, and
  \<open>try_dequeue\<close> or \<open>try_dequeue_bulk\<close> removes some of them, at most as many as it was asked for, and
  possibly none.  What it answers is part of the event.  Caller \<open>i\<close> of a dequeue operation is caller
  \<open>i\<close> of the semaphore.  The overloads with tokens and for constant and movable elements have the same
  bodies.
\<close>

section \<open>State\<close>

datatype dequeue_pc =
    Dq_idle
  | Dq_sem           \<comment> \<open>inside the semaphore\<close>
  | Dq_loop nat      \<comment> \<open>in the loop over the inner queue: \<open>max - count\<close>\<close>

record blocking_queue =
  bq_sem :: semaphore
  bq_inner :: "nat list"
  bq_signalling :: "nat list"       \<comment> \<open>enqueue operations that have yet to signal, with their counts\<close>
  bq_callers :: "dequeue_pc list"
  bq_enqueued :: "nat list"
  bq_dequeued :: "nat list"

definition BlockingConcurrentQueue :: "nat \<Rightarrow> nat \<Rightarrow> blocking_queue" where
  "BlockingConcurrentQueue spins callers =
     \<lparr>bq_sem = LightweightSemaphore 0 spins callers, bq_inner = [], bq_signalling = [],
      bq_callers = replicate callers Dq_idle, bq_enqueued = [], bq_dequeued = []\<rparr>"

section \<open>Enqueue operations\<close>

text \<open>The element or the elements, and the inner queue's answer; the signal is a later event.\<close>

definition bq_add :: "nat list \<Rightarrow> bool \<Rightarrow> blocking_queue \<Rightarrow> blocking_queue" where
  "bq_add xs ok s =
     (if ok then s\<lparr>bq_inner := bq_inner s @ xs, bq_enqueued := bq_enqueued s @ xs,
                   bq_signalling := length xs # bq_signalling s\<rparr>
      else s)"

definition bq_enqueue :: "nat \<Rightarrow> bool \<Rightarrow> blocking_queue \<Rightarrow> blocking_queue" where
  "bq_enqueue x inner_ok s = bq_add [x] inner_ok s"

definition bq_enqueue_bulk :: "nat list \<Rightarrow> bool \<Rightarrow> blocking_queue \<Rightarrow> blocking_queue" where
  "bq_enqueue_bulk xs inner_ok s = bq_add xs inner_ok s"

definition bq_try_enqueue :: "nat \<Rightarrow> bool \<Rightarrow> blocking_queue \<Rightarrow> blocking_queue" where
  "bq_try_enqueue x inner_ok s = bq_add [x] inner_ok s"

definition bq_try_enqueue_bulk :: "nat list \<Rightarrow> bool \<Rightarrow> blocking_queue \<Rightarrow> blocking_queue" where
  "bq_try_enqueue_bulk xs inner_ok s = bq_add xs inner_ok s"

definition bq_signal :: "nat \<Rightarrow> blocking_queue \<Rightarrow> blocking_queue option" where
  "bq_signal k s =
     (if k < length (bq_signalling s)
      then map_option (\<lambda>sm. s\<lparr>bq_sem := sm, bq_signalling := take k (bq_signalling s) @ drop (Suc k) (bq_signalling s)\<rparr>)
             (semaphore_step (Sem_signal (ssize_t (int (bq_signalling s ! k)))) (bq_sem s))
      else None)"

section \<open>Dequeue operations\<close>

text \<open>
  Which operation of the semaphore each of them starts with; a negative timeout is no timeout. The number of elements is converted
  from \<open>size_t\<close> to \<open>ssize_t\<close>: from \<open>2 ^ 63\<close> on it is negative, and the assertion of the semaphore fails.
\<close>

definition bq_try_dequeue :: sem_call where
  "bq_try_dequeue = TryWait"

definition bq_try_dequeue_bulk :: "size_t \<Rightarrow> sem_call" where
  "bq_try_dequeue_bulk m = TryWaitMany (sint m)"

definition bq_wait_dequeue :: sem_call where
  "bq_wait_dequeue = Wait False"

definition bq_wait_dequeue_timed :: "int \<Rightarrow> sem_call" where
  "bq_wait_dequeue_timed timeout_usecs = Wait (timeout_usecs \<ge> 0)"

definition bq_wait_dequeue_bulk :: "size_t \<Rightarrow> sem_call" where
  "bq_wait_dequeue_bulk m = WaitManySome (sint m)"

definition bq_wait_dequeue_bulk_timed :: "size_t \<Rightarrow> int \<Rightarrow> sem_call" where
  "bq_wait_dequeue_bulk_timed m timeout_usecs = WaitMany (sint m) (timeout_usecs \<ge> 0)"

datatype dequeue_op =
    Try_dequeue | Try_dequeue_bulk size_t | Wait_dequeue | Wait_dequeue_timed int
  | Wait_dequeue_bulk size_t | Wait_dequeue_bulk_timed size_t int

fun dequeue_call :: "dequeue_op \<Rightarrow> sem_call" where
  "dequeue_call Try_dequeue = bq_try_dequeue"
| "dequeue_call (Try_dequeue_bulk m) = bq_try_dequeue_bulk m"
| "dequeue_call Wait_dequeue = bq_wait_dequeue"
| "dequeue_call (Wait_dequeue_timed timeout_usecs) = bq_wait_dequeue_timed timeout_usecs"
| "dequeue_call (Wait_dequeue_bulk m) = bq_wait_dequeue_bulk m"
| "dequeue_call (Wait_dequeue_bulk_timed m timeout_usecs) = bq_wait_dequeue_bulk_timed m timeout_usecs"

definition bq_goto :: "nat \<Rightarrow> dequeue_pc \<Rightarrow> blocking_queue \<Rightarrow> blocking_queue" where
  "bq_goto i p s = s\<lparr>bq_callers := (bq_callers s)[i := p]\<rparr>"

definition bq_start :: "nat \<Rightarrow> dequeue_op \<Rightarrow> blocking_queue \<Rightarrow> blocking_queue option" where
  "bq_start i op s =
     (case semaphore_step (Sem_call i (dequeue_call op)) (bq_sem s) of
        None \<Rightarrow> None
      | Some sm \<Rightarrow> Some (bq_goto i Dq_sem (s\<lparr>bq_sem := sm\<rparr>)))"

text \<open>A step inside the semaphore; when it has returned \<open>r\<close> permits, the loop starts.\<close>

definition bq_sem_step :: "nat \<Rightarrow> bool \<Rightarrow> blocking_queue \<Rightarrow> blocking_queue option" where
  "bq_sem_step i b s =
     (case semaphore_step (Sem_step i b) (bq_sem s) of
        None \<Rightarrow> None
      | Some sm \<Rightarrow>
        Some (case sem_callers (bq_sem s) ! i of
            Sp_done c r \<Rightarrow> bq_goto i (Dq_loop (nat r)) (s\<lparr>bq_sem := sm\<rparr>)
          | _ \<Rightarrow> s\<lparr>bq_sem := sm\<rparr>))"

text \<open>\<open>while (!inner.try_dequeue(item))\<close>, \<open>while (count != max) count += inner.try_dequeue_bulk(...)\<close>.\<close>

definition bq_loop :: "nat \<Rightarrow> nat list \<Rightarrow> blocking_queue \<Rightarrow> blocking_queue option" where
  "bq_loop i xs s =
     (case bq_callers s ! i of
        Dq_loop k \<Rightarrow>
          if k = 0 then Some (bq_goto i Dq_idle s)
          else if length xs \<le> k \<and> mset xs \<subseteq># mset (bq_inner s)
          then Some (bq_goto i (Dq_loop (k - length xs))
            (s\<lparr>bq_inner := fold remove1 xs (bq_inner s), bq_dequeued := bq_dequeued s @ xs\<rparr>))
          else None
      | _ \<Rightarrow> None)"

definition bq_size_approx :: "blocking_queue \<Rightarrow> int" where
  "bq_size_approx s = availableApprox (bq_sem s)"

datatype bq_event =
    Bq_enqueue nat bool | Bq_enqueue_bulk "nat list" bool | Bq_try_enqueue nat bool | Bq_try_enqueue_bulk "nat list" bool
  | Bq_signal nat | Bq_post | Bq_start nat dequeue_op | Bq_sem nat bool | Bq_loop nat "nat list"

fun blocking_queue_step :: "bq_event \<Rightarrow> blocking_queue \<Rightarrow> blocking_queue option" where
  "blocking_queue_step (Bq_enqueue x ok) s = Some (bq_enqueue x ok s)"
| "blocking_queue_step (Bq_enqueue_bulk xs ok) s = Some (bq_enqueue_bulk xs ok s)"
| "blocking_queue_step (Bq_try_enqueue x ok) s = Some (bq_try_enqueue x ok s)"
| "blocking_queue_step (Bq_try_enqueue_bulk xs ok) s = Some (bq_try_enqueue_bulk xs ok s)"
| "blocking_queue_step (Bq_signal k) s = bq_signal k s"
| "blocking_queue_step Bq_post s = map_option (\<lambda>sm. s\<lparr>bq_sem := sm\<rparr>) (sem_post (bq_sem s))"
| "blocking_queue_step (Bq_start i c) s =
     (if i < length (bq_callers s) \<and> bq_callers s ! i = Dq_idle then bq_start i c s else None)"
| "blocking_queue_step (Bq_sem i b) s =
     (if i < length (bq_callers s) \<and> bq_callers s ! i = Dq_sem then bq_sem_step i b s else None)"
| "blocking_queue_step (Bq_loop i xs) s = (if i < length (bq_callers s) then bq_loop i xs s else None)"

section \<open>Invariant\<close>

text \<open>Permits that a caller has acquired inside the semaphore, and those it has yet to turn into elements.\<close>

fun sem_held :: "sem_pc \<Rightarrow> int" where
  "sem_held (Sp_load c acc) = acc"
| "sem_held (Sp_cas c acc old) = acc"
| "sem_held (Sp_done c r) = r"
| "sem_held _ = 0"

fun outstanding :: "dequeue_pc \<Rightarrow> int" where
  "outstanding (Dq_loop k) = int k"
| "outstanding _ = 0"

definition sum_over :: "('a \<Rightarrow> int) \<Rightarrow> 'a list \<Rightarrow> int" where
  "sum_over f xs = sum_list (map f xs)"

lemma sum_over_update: "i < length xs \<Longrightarrow> sum_over f (xs[i := x]) = sum_over f xs + f x - f (xs ! i)"
proof (induction xs arbitrary: i)
  case (Cons y ys)
  then show ?case by (cases i) (simp_all add: sum_over_def)
qed simp

lemma sum_over_replicate: "f x = 0 \<Longrightarrow> sum_over f (replicate n x) = 0"
  by (induction n) (simp_all add: sum_over_def)

lemma sum_over_nonneg: "(\<And>x. x \<in> set xs \<Longrightarrow> 0 \<le> f x) \<Longrightarrow> 0 \<le> sum_over f xs"
proof (induction xs)
  case (Cons y ys)
  then have "0 \<le> f y" "0 \<le> sum_over f ys" by simp_all
  then show ?case by (simp add: sum_over_def)
qed (simp add: sum_over_def)

lemma sum_over_member:
  assumes "\<And>x. x \<in> set xs \<Longrightarrow> 0 \<le> f x" "x \<in> set xs"
  shows "f x \<le> sum_over f xs"
  using assms
proof (induction xs)
  case (Cons y ys)
  have "0 \<le> sum_over f ys" using Cons.prems(1) by (intro sum_over_nonneg) simp
  moreover have "0 \<le> f y" "x \<noteq> y \<Longrightarrow> f x \<le> sum_over f ys" using Cons by simp_all
  ultimately show ?case by (cases "x = y") (simp_all add: sum_over_def)
qed simp

definition blocking_queue_inv :: "blocking_queue \<Rightarrow> bool" where
  "blocking_queue_inv s \<longleftrightarrow>
     semaphore_inv (bq_sem s) \<and> length (bq_callers s) = length (sem_callers (bq_sem s))
   \<and> sem_acquired (bq_sem s) = int (length (bq_dequeued s)) + sum_over sem_held (sem_callers (bq_sem s)) + sum_over outstanding (bq_callers s)
   \<and> sem_signalled (bq_sem s) + sum_over int (bq_signalling s) = int (length (bq_enqueued s))
   \<and> mset (bq_enqueued s) = mset (bq_inner s) + mset (bq_dequeued s)"

definition bq_bounded :: "blocking_queue \<Rightarrow> bool" where
  "bq_bounded s \<longleftrightarrow> length (bq_enqueued s) < 2 ^ 63 \<and> length (bq_callers s) < 2 ^ 31"

definition blocking_queue_safe :: "blocking_queue \<Rightarrow> bool" where
  "blocking_queue_safe s \<longleftrightarrow> (bq_bounded s \<longrightarrow> blocking_queue_inv s)"

text \<open>A step inside the semaphore takes exactly the permits that its caller holds afterwards.\<close>

lemma sem_caller_step_held:
  assumes i: "i < length (sem_callers s)" and st: "sem_caller_step i b (sem_callers s ! i) s = Some s'"
  shows "length (sem_callers s') = length (sem_callers s)" "sem_signalled s' = sem_signalled s"
    "sem_acquired s' - sum_over sem_held (sem_callers s') = sem_acquired s - sum_over sem_held (sem_callers s)
       + (case sem_callers s ! i of Sp_done c r \<Rightarrow> r | _ \<Rightarrow> 0)"
proof -
  have "\<exists>p. sem_callers s' = (sem_callers s)[i := p] \<and> sem_signalled s' = sem_signalled s
      \<and> sem_acquired s' - sem_held p = sem_acquired s - sem_held (sem_callers s ! i)
         + (case sem_callers s ! i of Sp_done c r \<Rightarrow> r | _ \<Rightarrow> 0)"
  proof (cases "sem_callers s ! i")
    case (Sp_done c r)
    then show ?thesis using st by (cases c) (auto simp: sem_goto_def split: if_splits)
  qed (use st in \<open>auto simp: sem_step_defs split: if_splits\<close>)
  then obtain p where p: "sem_callers s' = (sem_callers s)[i := p]" "sem_signalled s' = sem_signalled s"
      "sem_acquired s' - sem_held p = sem_acquired s - sem_held (sem_callers s ! i)
         + (case sem_callers s ! i of Sp_done c r \<Rightarrow> r | _ \<Rightarrow> 0)" by blast
  show "length (sem_callers s') = length (sem_callers s)" "sem_signalled s' = sem_signalled s" using p by simp_all
  show "sem_acquired s' - sum_over sem_held (sem_callers s') = sem_acquired s - sum_over sem_held (sem_callers s)
       + (case sem_callers s ! i of Sp_done c r \<Rightarrow> r | _ \<Rightarrow> 0)"
    using p(3) unfolding p(1) sum_over_update[OF i] by simp
qed

lemma sum_over_remove: "k < length xs \<Longrightarrow> sum_over f (take k xs @ drop (Suc k) xs) = sum_over f xs - f (xs ! k)"
  using arg_cong[OF id_take_nth_drop[of k xs], of "sum_over f"] by (simp add: sum_over_def)

lemma mset_fold_remove1: "mset (fold remove1 xs ys) = mset ys - mset xs"
  by (induction xs arbitrary: ys) (simp_all add: diff_diff_add ac_simps)

lemma signalling_bounds:
  assumes "blocking_queue_inv s" "bq_bounded s"
  shows "sem_bounded (bq_sem s)"
    and "k < length (bq_signalling s) \<Longrightarrow> sem_signalled (bq_sem s) + int (bq_signalling s ! k) < 2 ^ 63"
    and "k < length (bq_signalling s) \<Longrightarrow> int (bq_signalling s ! k) < 2 ^ 63"
proof -
  have l: "int (length (bq_enqueued s)) < 2 ^ 63" "length (sem_callers (bq_sem s)) < 2 ^ 31"
    using assms by (simp_all add: bq_bounded_def blocking_queue_inv_def)
  have e: "sem_signalled (bq_sem s) + sum_over int (bq_signalling s) = int (length (bq_enqueued s))"
    using assms(1) by (simp add: blocking_queue_inv_def)
  have "0 \<le> sum_over int (bq_signalling s)" by (rule sum_over_nonneg) simp
  then show b: "sem_bounded (bq_sem s)" using e l by (simp add: sem_bounded_def)
  have "semaphore_inv (bq_sem s)" using assms(1) by (simp add: blocking_queue_inv_def)
  note p = m_count_range(3)[OF this b]
  assume "k < length (bq_signalling s)"
  then have "int (bq_signalling s ! k) \<le> sum_over int (bq_signalling s)" by (intro sum_over_member) simp_all
  then show "sem_signalled (bq_sem s) + int (bq_signalling s ! k) < 2 ^ 63" "int (bq_signalling s ! k) < 2 ^ 63" using e l p by linarith+
qed

lemma bq_add_inv: "blocking_queue_inv s \<Longrightarrow> blocking_queue_inv (bq_add xs ok s)"
  by (simp add: blocking_queue_inv_def bq_add_def sum_over_def ac_simps)

lemma bq_sem_step_inv:
  assumes inv: "blocking_queue_inv s" and bd: "bq_bounded s" and i: "i < length (bq_callers s)" "bq_callers s ! i = Dq_sem"
    and st: "bq_sem_step i b s = Some s'"
  shows "blocking_queue_inv s'"
proof -
  let ?p = "sem_callers (bq_sem s) ! i"
  obtain sm where sm: "semaphore_step (Sem_step i b) (bq_sem s) = Some sm"
      "s' = (case ?p of Sp_done c r \<Rightarrow> bq_goto i (Dq_loop (nat r)) (s\<lparr>bq_sem := sm\<rparr>) | _ \<Rightarrow> s\<lparr>bq_sem := sm\<rparr>)"
    using st by (auto simp: bq_sem_step_def split: option.splits)
  have j: "i < length (sem_callers (bq_sem s))" using inv i(1) by (simp add: blocking_queue_inv_def)
  then have c: "sem_caller_step i b ?p (bq_sem s) = Some sm" using sm(1) by simp
  have "sem_bounded sm"
    using signalling_bounds(1)[OF inv bd] sem_caller_step_held[OF j c] by (simp add: sem_bounded_def)
  then have si: "semaphore_inv sm" using inv semaphore_inv_step[OF _ sm(1)] by (simp add: blocking_queue_inv_def)
  note held = sem_caller_step_held[OF j c]
  show ?thesis
  proof (cases "\<exists>c r. ?p = Sp_done c r")
    case True
    then obtain c r where p: "?p = Sp_done c r" by blast
    have "sem_pc_ok ?p" using inv nth_mem[OF j] unfolding blocking_queue_inv_def semaphore_inv_def by blast
    then have "0 \<le> r" using p by simp
    then show ?thesis using inv held si i p
      by (simp add: sm(2) blocking_queue_inv_def bq_goto_def sum_over_update)
  next
    case False
    then have "s' = s\<lparr>bq_sem := sm\<rparr>" "(case ?p of Sp_done c r \<Rightarrow> r | _ \<Rightarrow> 0) = 0"
      using sm(2) by (simp_all split: sem_pc.splits)
    then show ?thesis using inv held si by (simp add: blocking_queue_inv_def)
  qed
qed

lemma bq_loop_inv:
  assumes inv: "blocking_queue_inv s" and i: "i < length (bq_callers s)" and st: "bq_loop i xs s = Some s'"
  shows "blocking_queue_inv s'"
proof (cases "bq_callers s ! i")
  case (Dq_loop k)
  show ?thesis
  proof (cases "k = 0")
    case True
    then show ?thesis using inv st Dq_loop i
      by (auto simp: bq_loop_def bq_goto_def blocking_queue_inv_def sum_over_update)
  next
    case False
    then have x: "length xs \<le> k" "mset xs \<subseteq># mset (bq_inner s)"
        "s' = bq_goto i (Dq_loop (k - length xs)) (s\<lparr>bq_inner := fold remove1 xs (bq_inner s), bq_dequeued := bq_dequeued s @ xs\<rparr>)"
      using st Dq_loop by (auto simp: bq_loop_def split: if_splits)
    obtain R where R: "mset (bq_inner s) = mset xs + R" using x(2) by (auto simp: mset_subset_eq_exists_conv)
    show ?thesis using inv x(1) Dq_loop i
      by (simp add: x(3) blocking_queue_inv_def bq_goto_def sum_over_update mset_fold_remove1 of_nat_diff R)
  qed
qed (use st in \<open>auto simp: bq_loop_def\<close>)

lemma bq_signal_inv:
  assumes inv: "blocking_queue_inv s" and bd: "bq_bounded s" and st: "bq_signal k s = Some s'"
  shows "blocking_queue_inv s'"
proof -
  obtain sm where k: "k < length (bq_signalling s)" and sm: "semaphore_step (Sem_signal (ssize_t (int (bq_signalling s ! k)))) (bq_sem s) = Some sm"
      "s' = s\<lparr>bq_sem := sm, bq_signalling := take k (bq_signalling s) @ drop (Suc k) (bq_signalling s)\<rparr>"
    using st by (auto simp: bq_signal_def simp del: semaphore_step.simps split: if_splits)
  note b = signalling_bounds[OF inv bd]
  have c: "ssize_t (int (bq_signalling s ! k)) = int (bq_signalling s ! k)" using b(3)[OF k] by (intro ssize_t_id) simp_all
  have m: "sm = sem_signal (int (bq_signalling s ! k)) (bq_sem s)" using sm(1) unfolding c by (simp split: if_splits)
  have "sem_bounded sm" using b(1) b(2)[OF k] by (simp add: m sem_bounded_def sem_signal_def Let_def)
  then have "semaphore_inv sm" using inv semaphore_inv_step[OF _ sm(1)] by (simp add: blocking_queue_inv_def)
  moreover have "sem_callers sm = sem_callers (bq_sem s)" "sem_acquired sm = sem_acquired (bq_sem s)"
      "sem_signalled sm = sem_signalled (bq_sem s) + int (bq_signalling s ! k)" by (simp_all add: m sem_signal_def Let_def)
  ultimately show ?thesis using inv k by (simp add: sm(2) blocking_queue_inv_def sum_over_remove)
qed

lemma blocking_queue_inv_step:
  assumes inv: "blocking_queue_inv s" and bd: "bq_bounded s" and st: "blocking_queue_step e s = Some s'"
  shows "blocking_queue_inv s'"
proof (cases e)
  case (Bq_signal k)
  then show ?thesis using st bq_signal_inv[OF inv bd] by simp
next
  case Bq_post
  then obtain sm where sm: "sem_post (bq_sem s) = Some sm" "s' = s\<lparr>bq_sem := sm\<rparr>" using st by auto
  then have "sem_bounded sm" using signalling_bounds(1)[OF inv bd] by (auto simp: sem_bounded_def sem_post_def split: if_splits)
  then have "semaphore_inv sm" using inv semaphore_inv_step[of "bq_sem s" Sem_post sm] sm(1) by (simp add: blocking_queue_inv_def)
  then show ?thesis using inv sm by (auto simp: blocking_queue_inv_def sem_post_def split: if_splits)
next
  case (Bq_start i op)
  then obtain sm where i: "i < length (bq_callers s)" "bq_callers s ! i = Dq_idle"
    and sm: "semaphore_step (Sem_call i (dequeue_call op)) (bq_sem s) = Some sm" "s' = bq_goto i Dq_sem (s\<lparr>bq_sem := sm\<rparr>)"
    using st by (auto simp: bq_start_def split: if_splits option.splits)
  have m: "i < length (sem_callers (bq_sem s))" "sem_callers (bq_sem s) ! i = Sp_idle" "sm = sem_goto i (Sp_load (dequeue_call op) 0) (bq_sem s)"
    using sm(1) by (auto split: if_splits)
  have "sem_bounded sm" using signalling_bounds(1)[OF inv bd] by (simp add: m(3) sem_bounded_def sem_goto_def)
  then have "semaphore_inv sm" using inv semaphore_inv_step[OF _ sm(1)] by (simp add: blocking_queue_inv_def)
  then show ?thesis using inv i m
    by (simp add: sm(2) blocking_queue_inv_def bq_goto_def sem_goto_def sum_over_update)
next
  case (Bq_sem i b)
  then show ?thesis using st by (auto intro: bq_sem_step_inv[OF inv bd] split: if_splits)
next
  case (Bq_loop i xs)
  then show ?thesis using st by (auto intro: bq_loop_inv[OF inv] split: if_splits)
qed (use st bq_add_inv[OF inv] in \<open>auto simp: bq_enqueue_def bq_enqueue_bulk_def bq_try_enqueue_def bq_try_enqueue_bulk_def\<close>)

lemma blocking_queue_step_grows:
  assumes "blocking_queue_step e s = Some s'"
  shows "length (bq_enqueued s) \<le> length (bq_enqueued s')" "length (bq_callers s') = length (bq_callers s)"
  using assms
  by (cases e; auto simp: bq_enqueue_def bq_enqueue_bulk_def bq_try_enqueue_def bq_try_enqueue_bulk_def bq_add_def bq_signal_def
      bq_start_def bq_sem_step_def bq_loop_def bq_goto_def simp del: semaphore_step.simps
      split: if_splits option.splits dequeue_pc.splits sem_pc.splits)+

interpretation blocking_queue: safety_system blocking_queue_step "BlockingConcurrentQueue spins n" blocking_queue_safe for spins n
proof
  show "blocking_queue_safe (BlockingConcurrentQueue spins n)"
    using semaphore.inv_init[of 0 spins n]
    by (auto simp: blocking_queue_safe_def bq_bounded_def semaphore_safe_def sem_bounded_def blocking_queue_inv_def BlockingConcurrentQueue_def
        LightweightSemaphore_def sum_over_replicate) (simp_all add: sum_over_def)
  fix e s s'
  assume safe: "blocking_queue_safe s" and st: "blocking_queue_step e s = Some s'"
  have "bq_bounded s" if "bq_bounded s'" using that blocking_queue_step_grows[OF st] by (simp add: bq_bounded_def)
  then show "blocking_queue_safe s'" using safe blocking_queue_inv_step[OF _ _ st] by (auto simp: blocking_queue_safe_def)
qed

section \<open>Properties\<close>

text \<open>
  C16. \<open>BlockingConcurrentQueue\<close> composed with its semaphore, with fewer than two to the 31st callers of dequeue operations and as long as fewer
  than two to the 63rd elements have been enqueued in all: no element is lost or duplicated; whoever has
  passed the semaphore finds an element for each of its permits, so the loops over the inner queue never
  wait for an element that is not there; and when all signals have been given and the kernel's semaphore
  is empty, a caller that sleeps in it sleeps rightly: each element in the queue belongs to a
  permit that another caller has.
\<close>

theorem blocking_queue_permits:
  assumes "runs blocking_queue_step es (BlockingConcurrentQueue spins n) = Some s" "length (bq_enqueued s) < 2 ^ 63" "n < 2 ^ 31"
  shows "mset (bq_enqueued s) = mset (bq_inner s) + mset (bq_dequeued s)
    \<and> (Dq_loop k \<in> set (bq_callers s) \<longrightarrow> k \<le> length (bq_inner s))
    \<and> (bq_signalling s = [] \<and> sem_posting (bq_sem s) = 0 \<and> m_sema (bq_sem s) = 0 \<and> Sp_sema c \<in> set (sem_callers (bq_sem s))
        \<longrightarrow> int (length (bq_inner s)) = sum_over sem_held (sem_callers (bq_sem s)) + sum_over outstanding (bq_callers s))"
proof -
  have "length (bq_callers s) = n"
    using runs_keeps[of blocking_queue_step "\<lambda>s. length (bq_callers s)", OF blocking_queue_step_grows(2) assms(1)]
    by (simp add: BlockingConcurrentQueue_def)
  then have inv: "blocking_queue_inv s"
    using blocking_queue.inv_reachable[OF assms(1)] assms(2,3) by (simp add: blocking_queue_safe_def bq_bounded_def)
  then have si: "semaphore_inv (bq_sem s)" by (simp add: blocking_queue_inv_def)
  have len: "int (length (bq_enqueued s)) = int (length (bq_inner s)) + int (length (bq_dequeued s))"
  proof -
    have "size (mset (bq_enqueued s)) = size (mset (bq_inner s) + mset (bq_dequeued s))"
      using inv unfolding blocking_queue_inv_def by metis
    then show ?thesis by simp
  qed
  have nn: "0 \<le> sem_held p" if "p \<in> set (sem_callers (bq_sem s))" for p
  proof -
    have "sem_pc_ok p" using si that by (simp add: semaphore_inv_def)
    then show ?thesis by (cases p) simp_all
  qed
  have on: "0 \<le> outstanding q" for q by (cases q) simp_all
  have held: "0 \<le> sum_over sem_held (sem_callers (bq_sem s))" by (rule sum_over_nonneg) (rule nn)
  have sig: "0 \<le> sum_over int (bq_signalling s)" by (rule sum_over_nonneg) simp
  have acq: "sem_acquired (bq_sem s) \<le> sem_signalled (bq_sem s)" using si by (auto simp: semaphore_inv_def max_def split: if_splits)
  have "sum_over outstanding (bq_callers s) + sum_over sem_held (sem_callers (bq_sem s)) \<le> int (length (bq_inner s))"
    using inv len acq sig by (simp add: blocking_queue_inv_def)
  moreover have "int k \<le> sum_over outstanding (bq_callers s)" if "Dq_loop k \<in> set (bq_callers s)"
    using sum_over_member[of "bq_callers s" outstanding "Dq_loop k"] on that by simp
  ultimately have "Dq_loop k \<in> set (bq_callers s) \<longrightarrow> k \<le> length (bq_inner s)" using held by force
  moreover have "int (length (bq_inner s)) = sum_over sem_held (sem_callers (bq_sem s)) + sum_over outstanding (bq_callers s)"
    if q: "bq_signalling s = []" "sem_posting (bq_sem s) = 0" "m_sema (bq_sem s) = 0" "Sp_sema c \<in> set (sem_callers (bq_sem s))"
  proof -
    obtain i where "i < length (sem_callers (bq_sem s))" "sem_callers (bq_sem s) ! i = Sp_sema c"
      using q(4) by (auto simp: in_set_conv_nth)
    then have "0 < number sem_waiting (sem_callers (bq_sem s))" by (intro number_pos[of i]) simp_all
    then have "sem_acquired (bq_sem s) = sem_signalled (bq_sem s)"
      using si q(2,3) by (auto simp: semaphore_inv_def max_def split: if_splits)
    then show ?thesis using inv len q(1) by (simp add: blocking_queue_inv_def sum_over_def)
  qed
  ultimately show ?thesis using inv by (auto simp: blocking_queue_inv_def)
qed

definition bq_example :: "bq_event list" where
  "bq_example =
     [Bq_start 0 Wait_dequeue] @ replicate 5 (Bq_sem 0 False)
     @ [Bq_enqueue_bulk [7, 8, 9] True, Bq_enqueue 4 False, Bq_signal 0, Bq_start 1 (Try_dequeue_bulk 5)]
     @ replicate 3 (Bq_sem 1 False) @ [Bq_loop 1 [], Bq_loop 1 [8]]"

theorem blocking_queue_permits_witness:
  "\<exists>s. runs blocking_queue_step bq_example (BlockingConcurrentQueue 1 2) = Some s
     \<and> bq_inner s = [7, 9] \<and> bq_callers s = [Dq_sem, Dq_loop 1] \<and> 1 \<le> length (bq_inner s)
     \<and> mset (bq_enqueued s) = {#7, 8, 9#}"
proof -
  have "map_option (\<lambda>s. (bq_inner s, bq_callers s, bq_enqueued s)) (runs blocking_queue_step bq_example (BlockingConcurrentQueue 1 2))
      = Some ([7, 9], [Dq_sem, Dq_loop 1], [7, 8, 9])" by code_simp
  then obtain s where s: "runs blocking_queue_step bq_example (BlockingConcurrentQueue 1 2) = Some s"
      "bq_inner s = [7, 9]" "bq_callers s = [Dq_sem, Dq_loop 1]" "bq_enqueued s = [7, 8, 9]" by auto
  then have "1 \<le> length (bq_inner s)" using blocking_queue_permits[OF s(1), of 1] by simp
  then show ?thesis using s by auto
qed

end
