(* ===== verification/Cq_Details.thy ===== *)
theory Cq_Details
  imports Prelude
begin

text \<open>
  \<open>libs/concurrentqueue/concurrentqueue.h\<close>, namespace \<open>details\<close>: the hash of thread ids, comparison of
  indices that wrap around, alignment, rounding up to a power of two.
\<close>

section \<open>Hashing\<close>

definition hash32 :: "32 word \<Rightarrow> 32 word" where
  "hash32 h =
     (let h = h XOR drop_bit 16 h;
          h = h * 0x85ebca6b;
          h = h XOR drop_bit 13 h;
          h = h * 0xc2b2ae35
      in h XOR drop_bit 16 h)"

definition hash64 :: "64 word \<Rightarrow> 64 word" where
  "hash64 h =
     (let h = h XOR drop_bit 33 h;
          h = h * 0xff51afd7ed558ccd;
          h = h XOR drop_bit 33 h;
          h = h * 0xc4ceb9fe1a85ec53
      in h XOR drop_bit 33 h)"

text \<open>\<open>hash_thread_id\<close> with 64-bit thread ids, whose \<open>prehash\<close> is the identity.\<close>

definition hash_thread_id :: "64 word \<Rightarrow> size_t" where
  "hash_thread_id tid = hash64 tid"

text \<open>The inverses: the multipliers are odd, and a shift by at least half the width is its own inverse.\<close>

definition unhash32 :: "32 word \<Rightarrow> 32 word" where
  "unhash32 h =
     (let h = h XOR drop_bit 16 h;
          h = h * 0x7ed1b41d;
          h = h XOR drop_bit 13 h XOR drop_bit 26 h;
          h = h * 0xa5cb9243
      in h XOR drop_bit 16 h)"

definition unhash64 :: "64 word \<Rightarrow> 64 word" where
  "unhash64 h =
     (let h = h XOR drop_bit 33 h;
          h = h * 0x9cb4b2f8129337db;
          h = h XOR drop_bit 33 h;
          h = h * 0x4f74430c22a54005
      in h XOR drop_bit 33 h)"

lemma xor_shift_involution:
  fixes h :: "'a::len word"
  assumes "LENGTH('a) \<le> 2 * n"
  shows "(h XOR drop_bit n h) XOR drop_bit n (h XOR drop_bit n h) = h"
proof (rule bit_word_eqI)
  fix i assume "i < LENGTH('a)"
  have "\<not> bit h (2 * n + i)" using assms bit_imp_le_length[of h "2 * n + i"] by auto
  then show "bit ((h XOR drop_bit n h) XOR drop_bit n (h XOR drop_bit n h)) i = bit h i"
    by (simp add: bit_xor_iff bit_drop_bit_eq add.assoc[symmetric] mult_2) (auto simp: ac_simps)
qed

lemma xor_shift_13:
  "(h XOR drop_bit 13 h) XOR drop_bit 13 (h XOR drop_bit 13 h) XOR drop_bit 26 (h XOR drop_bit 13 h) = (h :: 32 word)"
proof (rule bit_word_eqI)
  fix i assume "i < LENGTH(32)"
  have "\<not> bit h (39 + i)" using bit_imp_le_length[of h "39 + i"] by auto
  then show "bit ((h XOR drop_bit 13 h) XOR drop_bit 13 (h XOR drop_bit 13 h) XOR drop_bit 26 (h XOR drop_bit 13 h)) i = bit h i"
    by (simp add: bit_xor_iff bit_drop_bit_eq) auto
qed

lemma mult_inverse:
  fixes h :: "'a::len word"
  assumes "c * d = 1"
  shows "h * c * d = h"
  using assms by (simp add: mult.assoc)

lemma unhash32_hash32: "unhash32 (hash32 h) = h"
proof -
  define a where "a = h XOR drop_bit 16 h"
  define b where "b = a * 0x85ebca6b"
  define c where "c = b XOR drop_bit 13 b"
  define d where "d = c * 0xc2b2ae35"
  define e where "e = d XOR drop_bit 16 d"
  have d: "e XOR drop_bit 16 e = d" unfolding e_def by (rule xor_shift_involution) simp
  have c: "d * 0x7ed1b41d = c" unfolding d_def by (rule mult_inverse) simp
  have b: "c XOR drop_bit 13 c XOR drop_bit 26 c = b" unfolding c_def by (rule xor_shift_13)
  have a: "b * 0xa5cb9243 = a" unfolding b_def by (rule mult_inverse) simp
  have h: "a XOR drop_bit 16 a = h" unfolding a_def by (rule xor_shift_involution) simp
  have "hash32 h = e" unfolding hash32_def Let_def a_def b_def c_def d_def e_def by (rule refl)
  then show ?thesis unfolding unhash32_def Let_def by (simp only: d c b a h)
qed

lemma unhash64_hash64: "unhash64 (hash64 h) = h"
proof -
  define a where "a = h XOR drop_bit 33 h"
  define b where "b = a * 0xff51afd7ed558ccd"
  define c where "c = b XOR drop_bit 33 b"
  define d where "d = c * 0xc4ceb9fe1a85ec53"
  define e where "e = d XOR drop_bit 33 d"
  have d: "e XOR drop_bit 33 e = d" unfolding e_def by (rule xor_shift_involution) simp
  have c: "d * 0x9cb4b2f8129337db = c" unfolding d_def by (rule mult_inverse) simp
  have b: "c XOR drop_bit 33 c = b" unfolding c_def by (rule xor_shift_involution) simp
  have a: "b * 0x4f74430c22a54005 = a" unfolding b_def by (rule mult_inverse) simp
  have h: "a XOR drop_bit 33 a = h" unfolding a_def by (rule xor_shift_involution) simp
  have "hash64 h = e" unfolding hash64_def Let_def a_def b_def c_def d_def e_def by (rule refl)
  then show ?thesis unfolding unhash64_def Let_def by (simp only: d c b a h)
qed

text \<open>
  The hash of thread ids is a bijection, in both widths: \<open>unhash32\<close> and \<open>unhash64\<close> give the id back,
  so distinct threads never have the same hash, only the same slot.
\<close>
theorem hash_thread_id_injective:
  "unhash32 (hash32 h) = h \<and> unhash64 (hash64 g) = g \<and> (hash_thread_id a = hash_thread_id b \<longleftrightarrow> a = b)"
proof -
  have "inj hash64" by (rule inj_on_inverseI[of _ unhash64]) (rule unhash64_hash64)
  then show ?thesis by (simp add: hash_thread_id_def unhash32_hash32 unhash64_hash64 inj_eq)
qed

section \<open>Indices that wrap around\<close>

definition circular_less_than :: "64 word \<Rightarrow> 64 word \<Rightarrow> bool" where
  "circular_less_than a b \<longleftrightarrow> a - b > push_bit 63 1"

definition align_for :: "nat \<Rightarrow> 64 word \<Rightarrow> 64 word" where
  "align_for alignment ptr = ptr + (of_nat alignment - ptr mod of_nat alignment) mod of_nat alignment"

text \<open>The loop of \<open>ceil_to_pow_2\<close> runs for \<open>i = 1, 2, 4\<close>, with \<open>sizeof(T) = 8\<close>.\<close>

definition smear :: "nat \<Rightarrow> 64 word \<Rightarrow> 64 word" where
  "smear n x = x OR drop_bit n x"

definition ceil_to_pow_2 :: "64 word \<Rightarrow> 64 word" where
  "ceil_to_pow_2 x =
     (let x = x - 1;
          x = smear 1 x;
          x = smear 2 x;
          x = smear 4 x;
          x = fold (\<lambda>i x. smear (push_bit 3 i) x) [1, 2, 4] x
      in x + 1)"

text \<open>\<open>circular_less_than\<close> compares by the distance: \<open>b\<close> is ahead of \<open>a\<close> by less than half the range.\<close>

lemma circular_less_than_ahead:
  assumes "0 < d" "d < 2 ^ 63"
  shows "circular_less_than a (a + of_nat d)" "\<not> circular_less_than (a + of_nat d) a" "\<not> circular_less_than a a"
proof -
  have u: "unat (of_nat d :: 64 word) = d" using assms by (intro unat_of_nat_small) simp
  then have n: "(of_nat d :: 64 word) \<noteq> 0" using assms by (metis gr_implies_not0 unat_0)
  have "unat (- (of_nat d :: 64 word)) = 2 ^ 64 - d"
    using u n unat_minus_wrap[of "0 :: 64 word" "of_nat d"] by (simp add: word_neq_0_conv word_less_nat_alt)
  then show "circular_less_than a (a + of_nat d)"
    using assms by (simp add: circular_less_than_def word_less_nat_alt)
  show "\<not> circular_less_than (a + of_nat d) a" "\<not> circular_less_than a a"
    using assms u by (simp_all add: circular_less_than_def word_less_nat_alt)
qed

text \<open>
  Smearing by \<open>n\<close> doubles the run of set bits below the highest one: after the shifts 1, 2, 4, 8, 16, 32
  every bit below it is set.
\<close>

definition smeared :: "nat \<Rightarrow> nat \<Rightarrow> 64 word \<Rightarrow> bool" where
  "smeared k w z \<longleftrightarrow> (\<forall>i. bit z i \<longrightarrow> i \<le> k) \<and> (\<forall>i\<le>k. k < i + w \<longrightarrow> bit z i)"

lemma smeared_smear:
  assumes "smeared k w z" "n \<le> w"
  shows "smeared k (w + n) (smear n z)"
proof -
  have "bit z (n + i)" if "i \<le> k" "\<not> bit z i" "k < i + (w + n)" for i
  proof -
    have "i + w \<le> k" using assms(1) that by (meson not_le_imp_less smeared_def)
    then show ?thesis using assms that by (simp add: smeared_def)
  qed
  then show ?thesis using assms(1) by (auto simp: smeared_def smear_def bit_or_iff bit_drop_bit_eq)
qed

lemma bit_unat: "bit (unat z) i = bit (z :: 64 word) i"
  by (simp add: bit_unsigned_iff)

lemma highest_bit:
  fixes y :: "64 word"
  assumes "y \<noteq> 0"
  obtains k where "k < 64" "smeared k 1 y" "2 ^ k \<le> unat y" "unat y < 2 ^ Suc k"
proof -
  obtain k where k: "2 ^ k \<le> unat y" "unat y < 2 ^ Suc k"
    using ex_power_ivl1[of 2 "unat y"] assms by (auto simp: Suc_le_eq unat_gt_0)
  have "k < 64"
  proof (rule ccontr)
    assume "\<not> k < 64"
    then have "(2::nat) ^ 64 \<le> 2 ^ k" by (intro power_increasing) auto
    then show False using k(1) unat_lt_64[of y] by simp
  qed
  moreover have "bit y k"
  proof -
    have "unat y div 2 ^ k = 1" using k by (intro div_nat_eqI) auto
    then show ?thesis by (simp add: bit_unat[symmetric] bit_iff_odd)
  qed
  moreover have "i \<le> k" if "bit y i" for i
  proof (rule ccontr)
    assume "\<not> i \<le> k"
    then have "(2::nat) ^ Suc k \<le> 2 ^ i" by (intro power_increasing) auto
    then have "unat y div 2 ^ i = 0" using k(2) by simp
    moreover have "odd (unat y div 2 ^ i)" using that by (simp add: bit_unat[symmetric] bit_iff_odd)
    ultimately show False by simp
  qed
  ultimately show thesis using k by (intro that[of k]) (auto simp: smeared_def less_Suc_eq_le le_antisym)
qed

lemma smeared_full:
  assumes "smeared k 64 z" "k < 64"
  shows "z = mask (Suc k)"
  using assms by (intro bit_word_eqI) (auto simp: smeared_def bit_mask_iff less_Suc_eq_le)

lemma ceil_smears: "ceil_to_pow_2 x = smear 32 (smear 16 (smear 8 (smear 4 (smear 2 (smear 1 (x - 1)))))) + 1"
  by (simp add: ceil_to_pow_2_def push_bit_eq_mult Let_def)

lemma ceil_highest:
  assumes "x - 1 \<noteq> 0"
  obtains k where "k < 64" "2 ^ k \<le> unat (x - 1)" "unat (x - 1) < 2 ^ Suc k" "ceil_to_pow_2 x = 2 ^ Suc k"
proof -
  obtain k where k: "k < 64" "smeared k 1 (x - 1)" "2 ^ k \<le> unat (x - 1)" "unat (x - 1) < 2 ^ Suc k"
    using highest_bit[OF assms] .
  have "smeared k 2 (smear 1 (x - 1))" using smeared_smear[OF k(2), of 1] by (simp add: numeral_2_eq_2)
  then have "smeared k 4 (smear 2 (smear 1 (x - 1)))" using smeared_smear[of k 2 _ 2] by simp
  then have "smeared k 8 (smear 4 (smear 2 (smear 1 (x - 1))))" using smeared_smear[of k 4 _ 4] by simp
  then have "smeared k 16 (smear 8 (smear 4 (smear 2 (smear 1 (x - 1)))))" using smeared_smear[of k 8 _ 8] by simp
  then have "smeared k 32 (smear 16 (smear 8 (smear 4 (smear 2 (smear 1 (x - 1))))))"
    using smeared_smear[of k 16 _ 16] by simp
  then have "smeared k 64 (smear 32 (smear 16 (smear 8 (smear 4 (smear 2 (smear 1 (x - 1)))))))"
    using smeared_smear[of k 32 _ 32] by simp
  from smeared_full[OF this k(1)] have "ceil_to_pow_2 x = mask (Suc k) + 1" by (simp only: ceil_smears)
  also have "\<dots> = 2 ^ Suc k" by (simp add: mask_eq_exp_minus_1)
  finally show thesis using k by (intro that) auto
qed

text \<open>
  C17. \<open>ceil_to_pow_2\<close> gives the smallest power of two that is not below its argument, up to \<open>2 ^ 63\<close>; beyond
  that, and for 0, it wraps around to 0.
\<close>

theorem ceil_to_pow_2_least:
  "ceil_to_pow_2 x = (if 0 < unat x \<and> unat x \<le> 2 ^ 63 then 2 ^ (LEAST j. unat x \<le> 2 ^ j) else 0)"
proof -
  consider "x = 0" | "x = 1" | "x \<noteq> 0" "x - 1 \<noteq> 0" by auto
  then show ?thesis
  proof cases
    case 1
    then show ?thesis by (simp add: ceil_smears smear_def)
  next
    case 2
    then show ?thesis by (simp add: ceil_smears smear_def)
  next
    case 3
    then have u: "unat (x - 1) = unat x - 1" by (simp add: unat_minus_one)
    have pos: "0 < unat x" using 3 by (simp add: unat_gt_0)
    obtain k where k: "k < 64" "2 ^ k \<le> unat (x - 1)" "unat (x - 1) < 2 ^ Suc k" "ceil_to_pow_2 x = 2 ^ Suc k"
      using ceil_highest[OF 3(2)] .
    show ?thesis
    proof (cases "k = 63")
      case True
      then have "ceil_to_pow_2 x = 0" using k(4) by simp
      moreover have "\<not> unat x \<le> 2 ^ 63" using k(2) u pos True by simp
      ultimately show ?thesis by simp
    next
      case False
      then have "Suc k \<le> 63" using k(1) by simp
      then have p: "(2::nat) ^ Suc k \<le> 2 ^ 63" by (intro power_increasing) auto
      have u2: "unat x \<le> 2 ^ Suc k" using k(3) u pos by simp
      have "Suc k \<le> j" if "unat x \<le> 2 ^ j" for j
      proof (rule ccontr)
        assume "\<not> Suc k \<le> j"
        then have "(2::nat) ^ j \<le> 2 ^ k" by (intro power_increasing) auto
        then show False using that k(2) u pos by linarith
      qed
      then have "(LEAST j. unat x \<le> 2 ^ j) = Suc k" using u2 by (intro Least_equality)
      moreover have "unat x \<le> 2 ^ 63" using u2 p by linarith
      ultimately show ?thesis using k(4) pos by simp
    qed
  qed
qed

end
