(* ===== verification/Cq_Block.thy ===== *)
theory Cq_Block
  imports Cq_Details
begin

text \<open>
  \<open>libs/concurrentqueue/concurrentqueue.h\<close>: the traits of a queue and its \<open>Block\<close>, the unit in which
  elements are stored. A block counts the elements that have been dequeued from it in one of two ways, by one
  flag per element or by a counter, depending on the context and the traits; \<open>dequeued_from\<close> is what both
  represent.
\<close>

type_synonym index_t = "64 word"

section \<open>Traits\<close>

record traits =
  BLOCK_SIZE :: size_t
  EXPLICIT_BLOCK_EMPTY_COUNTER_THRESHOLD :: size_t
  EXPLICIT_INITIAL_INDEX_SIZE :: size_t
  IMPLICIT_INITIAL_INDEX_SIZE :: size_t
  TRAITS_MAX_SUBQUEUE_SIZE :: size_t

abbreviation const_numeric_max :: size_t where
  "const_numeric_max \<equiv> - 1"

definition ConcurrentQueueDefaultTraits :: traits where
  "ConcurrentQueueDefaultTraits =
     \<lparr> BLOCK_SIZE = 32, EXPLICIT_BLOCK_EMPTY_COUNTER_THRESHOLD = 32, EXPLICIT_INITIAL_INDEX_SIZE = 32,
       IMPLICIT_INITIAL_INDEX_SIZE = 32, TRAITS_MAX_SUBQUEUE_SIZE = const_numeric_max \<rparr>"

definition MAX_SUBQUEUE_SIZE :: "traits \<Rightarrow> size_t" where
  "MAX_SUBQUEUE_SIZE t =
     (if const_numeric_max - TRAITS_MAX_SUBQUEUE_SIZE t < BLOCK_SIZE t then const_numeric_max
      else (TRAITS_MAX_SUBQUEUE_SIZE t + (BLOCK_SIZE t - 1)) div BLOCK_SIZE t * BLOCK_SIZE t)"

text \<open>The static assertions on the traits: powers of two, greater than 1.\<close>

definition power_of_two :: "size_t \<Rightarrow> bool" where
  "power_of_two x \<longleftrightarrow> 1 < x \<and> x AND (x - 1) = 0"

definition traits_ok :: "traits \<Rightarrow> bool" where
  "traits_ok t \<longleftrightarrow>
     power_of_two (BLOCK_SIZE t) \<and> power_of_two (EXPLICIT_BLOCK_EMPTY_COUNTER_THRESHOLD t) \<and>
     power_of_two (EXPLICIT_INITIAL_INDEX_SIZE t) \<and> power_of_two (IMPLICIT_INITIAL_INDEX_SIZE t)"

section \<open>Blocks\<close>

text \<open>
  A block is named by its address, a number. An element that is not constructed is \<open>None\<close>.
\<close>

record 'a block =
  elements :: "'a option list"
  blockNext :: "nat option"
  elementsCompletelyDequeued :: size_t
  emptyFlags :: "bool list"
  dynamicallyAllocated :: bool

datatype InnerQueueContext = explicit_context | implicit_context

definition use_flags :: "traits \<Rightarrow> InnerQueueContext \<Rightarrow> bool" where
  "use_flags t c \<longleftrightarrow> c = explicit_context \<and> BLOCK_SIZE t \<le> EXPLICIT_BLOCK_EMPTY_COUNTER_THRESHOLD t"

definition new_block :: "traits \<Rightarrow> 'a block" where
  "new_block t =
     \<lparr> elements = replicate (unat (BLOCK_SIZE t)) None, blockNext = None, elementsCompletelyDequeued = 0,
       emptyFlags = replicate (if BLOCK_SIZE t \<le> EXPLICIT_BLOCK_EMPTY_COUNTER_THRESHOLD t then unat (BLOCK_SIZE t) else 1) False,
       dynamicallyAllocated = True \<rparr>"

text \<open>The operations give \<open>None\<close> when an assertion of the code fails.\<close>

definition is_empty :: "traits \<Rightarrow> InnerQueueContext \<Rightarrow> 'a block \<Rightarrow> bool option" where
  "is_empty t c b =
     (if use_flags t c then Some (list_all (\<lambda>i. emptyFlags b ! i) [0..<unat (BLOCK_SIZE t)])
      else if elementsCompletelyDequeued b = BLOCK_SIZE t then Some True
      else if elementsCompletelyDequeued b \<le> BLOCK_SIZE t then Some False
      else None)"

definition flag_index :: "traits \<Rightarrow> index_t \<Rightarrow> nat" where
  "flag_index t i = unat (BLOCK_SIZE t - 1 - (i AND (BLOCK_SIZE t - 1)))"

definition set_empty :: "traits \<Rightarrow> InnerQueueContext \<Rightarrow> index_t \<Rightarrow> 'a block \<Rightarrow> (bool \<times> 'a block) option" where
  "set_empty t c i b =
     (if use_flags t c then
        if emptyFlags b ! flag_index t i then None
        else Some (False, b \<lparr> emptyFlags := (emptyFlags b)[flag_index t i := True] \<rparr>)
      else let prevVal = elementsCompletelyDequeued b in
        if prevVal < BLOCK_SIZE t
        then Some (prevVal = BLOCK_SIZE t - 1, b \<lparr> elementsCompletelyDequeued := prevVal + 1 \<rparr>)
        else None)"

primrec set_flags :: "nat \<Rightarrow> nat \<Rightarrow> bool list \<Rightarrow> bool list option" where
  "set_flags i 0 fs = Some fs"
| "set_flags i (Suc n) fs = (if fs ! i then None else set_flags (Suc i) n (fs[i := True]))"

definition set_many_empty :: "traits \<Rightarrow> InnerQueueContext \<Rightarrow> index_t \<Rightarrow> size_t \<Rightarrow> 'a block \<Rightarrow> (bool \<times> 'a block) option" where
  "set_many_empty t c i n b =
     (if use_flags t c then
        let i = BLOCK_SIZE t - 1 - (i AND (BLOCK_SIZE t - 1)) - n + 1 in
        case set_flags (unat i) (unat n) (emptyFlags b) of
          None \<Rightarrow> None
        | Some fs \<Rightarrow> Some (False, b \<lparr> emptyFlags := fs \<rparr>)
      else let prevVal = elementsCompletelyDequeued b in
        if prevVal + n \<le> BLOCK_SIZE t
        then Some (prevVal + n = BLOCK_SIZE t, b \<lparr> elementsCompletelyDequeued := prevVal + n \<rparr>)
        else None)"

definition set_all_empty :: "traits \<Rightarrow> InnerQueueContext \<Rightarrow> 'a block \<Rightarrow> 'a block" where
  "set_all_empty t c b =
     (if use_flags t c then b \<lparr> emptyFlags := map (\<lambda>_. True) [0..<unat (BLOCK_SIZE t)] \<rparr>
      else b \<lparr> elementsCompletelyDequeued := BLOCK_SIZE t \<rparr>)"

definition reset_empty :: "traits \<Rightarrow> InnerQueueContext \<Rightarrow> 'a block \<Rightarrow> 'a block" where
  "reset_empty t c b =
     (if use_flags t c then b \<lparr> emptyFlags := map (\<lambda>_. False) [0..<unat (BLOCK_SIZE t)] \<rparr>
      else b \<lparr> elementsCompletelyDequeued := 0 \<rparr>)"

text \<open>The slot of an index, \<open>operator[]\<close>.\<close>

definition block_slot :: "traits \<Rightarrow> index_t \<Rightarrow> nat" where
  "block_slot t i = unat (i AND (BLOCK_SIZE t - 1))"

section \<open>Sizes that are powers of two\<close>

lemma power_of_two_exp:
  assumes "power_of_two x"
  obtains k where "1 \<le> k" "k < 64" "x = 2 ^ k" "unat x = 2 ^ k"
proof -
  from assms have x: "1 < unat x" "x \<noteq> 0" by (auto simp: power_of_two_def word_less_nat_alt)
  obtain k where k: "k < 64" "smeared k 1 x" "2 ^ k \<le> unat x" "unat x < 2 ^ Suc k"
    using highest_bit[OF x(2)] .
  have "unat x = 2 ^ k"
  proof (rule ccontr)
    assume "unat x \<noteq> 2 ^ k"
    then have "2 ^ k \<le> unat (x - 1)" "unat (x - 1) < 2 ^ Suc k"
      using k x by (simp_all add: unat_minus_one)
    then have "unat (x - 1) div 2 ^ k = 1" by (intro div_nat_eqI) auto
    then have "bit (x - 1) k" by (simp add: bit_unat[symmetric] bit_iff_odd)
    moreover have "bit x k" using k(2) by (simp add: smeared_def)
    ultimately have "bit (x AND (x - 1)) k" by (simp add: bit_and_iff)
    then show False using assms by (simp add: power_of_two_def)
  qed
  moreover from this have "x = 2 ^ k" using unat_pow2[OF k(1)] by (metis word_unat_eq_iff)
  moreover have "1 \<le> k" using x(1) \<open>unat x = 2 ^ k\<close> by (cases k) auto
  ultimately show thesis using k(1) that by blast
qed

lemma traits_block_size:
  assumes "traits_ok t"
  obtains k where "1 \<le> k" "k < 64" "BLOCK_SIZE t = 2 ^ k" "unat (BLOCK_SIZE t) = 2 ^ k"
  using assms power_of_two_exp by (auto simp: traits_ok_def)

lemma block_slot_mod:
  assumes "traits_ok t"
  shows "block_slot t i = unat i mod unat (BLOCK_SIZE t)"
  using assms by (rule traits_block_size) (simp add: block_slot_def unat_and_mask)

lemma block_slot_less: "traits_ok t \<Longrightarrow> block_slot t i < unat (BLOCK_SIZE t)"
  by (erule traits_block_size) (simp add: block_slot_def unat_and_mask)

lemma BLOCK_SIZE_pos: "traits_ok t \<Longrightarrow> 0 < unat (BLOCK_SIZE t)"
  by (erule traits_block_size) simp

lemma unat_BLOCK_SIZE_1: "traits_ok t \<Longrightarrow> unat (BLOCK_SIZE t - 1) = unat (BLOCK_SIZE t) - 1"
  using BLOCK_SIZE_pos[of t] by (simp add: unat_minus_small Suc_le_eq)

lemma flag_index_slot:
  assumes "traits_ok t"
  shows "flag_index t i = unat (BLOCK_SIZE t) - 1 - block_slot t i"
  using block_slot_less[OF assms, of i] unat_BLOCK_SIZE_1[OF assms]
  by (simp add: flag_index_def block_slot_def unat_minus_small less_Suc_eq_le Suc_le_eq)

section \<open>What a block remembers\<close>

text \<open>\<open>D\<close> is the set of the slots whose element has been dequeued.\<close>

definition dequeued_from :: "traits \<Rightarrow> InnerQueueContext \<Rightarrow> 'a block \<Rightarrow> nat set \<Rightarrow> bool" where
  "dequeued_from t c b D \<longleftrightarrow> D \<subseteq> {..<unat (BLOCK_SIZE t)} \<and>
     (if use_flags t c
      then length (emptyFlags b) = unat (BLOCK_SIZE t) \<and>
           (\<forall>p<unat (BLOCK_SIZE t). emptyFlags b ! (unat (BLOCK_SIZE t) - 1 - p) \<longleftrightarrow> p \<in> D)
      else unat (elementsCompletelyDequeued b) = card D)"

lemma dequeued_from_card:
  assumes "D \<subseteq> {..<n :: nat}"
  shows "card D \<le> n" "card D = n \<longleftrightarrow> D = {..<n}" "finite D"
proof -
  show f: "finite D" using assms finite_subset by blast
  show "card D \<le> n" using card_mono[OF _ assms] by simp
  show "card D = n \<longleftrightarrow> D = {..<n}" using card_subset_eq[OF _ assms] by auto
qed

lemma is_empty_iff:
  assumes "dequeued_from t c b D"
  shows "is_empty t c b = Some (D = {..<unat (BLOCK_SIZE t)})"
proof (cases "use_flags t c")
  case True
  let ?n = "unat (BLOCK_SIZE t)"
  have D: "D \<subseteq> {..<?n}" "\<forall>p<?n. emptyFlags b ! (?n - 1 - p) \<longleftrightarrow> p \<in> D"
    using assms True by (auto simp: dequeued_from_def)
  have "(\<forall>i<?n. emptyFlags b ! i) \<longleftrightarrow> (\<forall>p<?n. emptyFlags b ! (?n - 1 - p))"
  proof (intro iffI allI impI)
    fix i assume *: "\<forall>p<?n. emptyFlags b ! (?n - 1 - p)" "i < ?n"
    have "?n - 1 - i < ?n" "?n - 1 - (?n - 1 - i) = i" using *(2) by auto
    then show "emptyFlags b ! i" using *(1) by metis
  qed simp
  then have "(\<forall>i<?n. emptyFlags b ! i) \<longleftrightarrow> D = {..<?n}" using D by auto
  then show ?thesis using True by (simp add: is_empty_def list_all_iff atLeast0LessThan Ball_def)
next
  case False
  then have D: "D \<subseteq> {..<unat (BLOCK_SIZE t)}" "unat (elementsCompletelyDequeued b) = card D"
    using assms by (auto simp: dequeued_from_def)
  then have "elementsCompletelyDequeued b = BLOCK_SIZE t \<longleftrightarrow> D = {..<unat (BLOCK_SIZE t)}"
    using dequeued_from_card(2)[OF D(1)] by (simp add: word_unat_eq_iff)
  moreover have "elementsCompletelyDequeued b \<le> BLOCK_SIZE t"
    using D dequeued_from_card(1)[OF D(1)] by (simp add: word_le_nat_alt)
  ultimately show ?thesis using False by (simp add: is_empty_def)
qed

lemma set_empty_slot:
  assumes t: "traits_ok t" and d: "dequeued_from t c b D" and p: "block_slot t i \<notin> D"
  obtains b' where "set_empty t c i b = Some (\<not> use_flags t c \<and> insert (block_slot t i) D = {..<unat (BLOCK_SIZE t)}, b')"
    "dequeued_from t c b' (insert (block_slot t i) D)" "elements b' = elements b" "blockNext b' = blockNext b"
    "dynamicallyAllocated b' = dynamicallyAllocated b"
proof (cases "use_flags t c")
  case True
  let ?n = "unat (BLOCK_SIZE t)" and ?p = "block_slot t i"
  have D: "D \<subseteq> {..<?n}" "length (emptyFlags b) = ?n" "\<forall>p<?n. emptyFlags b ! (?n - 1 - p) \<longleftrightarrow> p \<in> D"
    using d True by (auto simp: dequeued_from_def)
  have l: "?p < ?n" by (rule block_slot_less[OF t])
  let ?b = "b \<lparr> emptyFlags := (emptyFlags b)[flag_index t i := True] \<rparr>"
  have "\<not> emptyFlags b ! flag_index t i" using D l p by (simp add: flag_index_slot[OF t])
  then have "set_empty t c i b = Some (False, ?b)" using True by (simp add: set_empty_def)
  moreover have "dequeued_from t c ?b (insert ?p D)"
  proof -
    have "emptyFlags ?b ! (?n - 1 - q) \<longleftrightarrow> q \<in> insert ?p D" if q: "q < ?n" for q
    proof -
      have "?n - 1 - ?p = ?n - 1 - q \<longleftrightarrow> q = ?p" using q l by linarith
      then show ?thesis using D q l by (auto simp: flag_index_slot[OF t] nth_list_update)
    qed
    then show ?thesis using True D l by (simp add: dequeued_from_def)
  qed
  ultimately show thesis using True by (intro that[of ?b]) auto
next
  case False
  let ?n = "unat (BLOCK_SIZE t)" and ?p = "block_slot t i"
  let ?b = "b \<lparr> elementsCompletelyDequeued := elementsCompletelyDequeued b + 1 \<rparr>"
  have D: "D \<subseteq> {..<?n}" "unat (elementsCompletelyDequeued b) = card D"
    using d False by (auto simp: dequeued_from_def)
  have l: "?p < ?n" by (rule block_slot_less[OF t])
  have i: "insert ?p D \<subseteq> {..<?n}" using D(1) l by simp
  have c: "card (insert ?p D) = Suc (card D)" using dequeued_from_card(3)[OF D(1)] p by simp
  then have less: "card D < ?n" using dequeued_from_card(1)[OF i] by simp
  have "unat (elementsCompletelyDequeued b + 1) = Suc (card D)"
    using D(2) less unat_lt_64[of "BLOCK_SIZE t"] by (subst unat_plus_small) auto
  then have "dequeued_from t c ?b (insert ?p D)" using False i c by (simp add: dequeued_from_def)
  moreover have "elementsCompletelyDequeued b = BLOCK_SIZE t - 1 \<longleftrightarrow> insert ?p D = {..<?n}"
  proof -
    have "elementsCompletelyDequeued b = BLOCK_SIZE t - 1 \<longleftrightarrow> card D = ?n - 1"
      using D(2) unat_BLOCK_SIZE_1[OF t] by (simp add: word_unat_eq_iff)
    also have "\<dots> \<longleftrightarrow> card (insert ?p D) = ?n" using c BLOCK_SIZE_pos[OF t] by linarith
    finally show ?thesis using dequeued_from_card(2)[OF i] by simp
  qed
  moreover have "elementsCompletelyDequeued b < BLOCK_SIZE t" using D(2) less by (simp add: word_less_nat_alt)
  ultimately show thesis using False by (intro that[of ?b]) (auto simp: set_empty_def Let_def)
qed

lemma dequeued_from_reset: "dequeued_from t c (reset_empty t c b) {}"
  by (simp add: dequeued_from_def reset_empty_def)

lemma dequeued_from_set_all: "dequeued_from t c (set_all_empty t c b) {..<unat (BLOCK_SIZE t)}"
  by (simp add: dequeued_from_def set_all_empty_def)

lemma reset_empty_keeps [simp]:
  "elements (reset_empty t c b) = elements b" "blockNext (reset_empty t c b) = blockNext b"
  "dynamicallyAllocated (reset_empty t c b) = dynamicallyAllocated b"
  by (simp_all add: reset_empty_def)

lemma set_all_empty_keeps [simp]:
  "elements (set_all_empty t c b) = elements b" "blockNext (set_all_empty t c b) = blockNext b"
  "dynamicallyAllocated (set_all_empty t c b) = dynamicallyAllocated b"
  by (simp_all add: set_all_empty_def)

lemma set_flags_sets:
  assumes "\<forall>k. i \<le> k \<and> k < i + n \<longrightarrow> \<not> fs ! k" "i + n \<le> length fs"
  shows "\<exists>fs'. set_flags i n fs = Some fs' \<and> length fs' = length fs \<and>
           (\<forall>k<length fs. fs' ! k \<longleftrightarrow> fs ! k \<or> (i \<le> k \<and> k < i + n))"
  using assms
proof (induction n arbitrary: i fs)
  case (Suc n)
  have "\<exists>fs'. set_flags (Suc i) n (fs[i := True]) = Some fs' \<and> length fs' = length (fs[i := True]) \<and>
           (\<forall>k<length (fs[i := True]). fs' ! k \<longleftrightarrow> fs[i := True] ! k \<or> (Suc i \<le> k \<and> k < Suc i + n))"
    using Suc.prems by (intro Suc.IH) auto
  then obtain fs' where fs': "set_flags (Suc i) n (fs[i := True]) = Some fs'" "length fs' = length fs"
      "\<forall>k<length fs. fs' ! k \<longleftrightarrow> fs[i := True] ! k \<or> (Suc i \<le> k \<and> k < Suc i + n)" by auto
  moreover have "\<not> fs ! i" using Suc.prems by simp
  moreover have "fs' ! k \<longleftrightarrow> fs ! k \<or> (i \<le> k \<and> k < i + Suc n)" if "k < length fs" for k
    using fs'(3) that Suc.prems(2) by (cases "k = i") (auto simp: nth_list_update)
  ultimately show ?case by auto
qed auto

lemma set_many_empty_slots:
  assumes t: "traits_ok t" and d: "dequeued_from t c b D"
    and s: "block_slot t i + unat n \<le> unat (BLOCK_SIZE t)"
    and p: "{block_slot t i..<block_slot t i + unat n} \<inter> D = {}"
  obtains b' where
    "set_many_empty t c i n b =
       Some (\<not> use_flags t c \<and> D \<union> {block_slot t i..<block_slot t i + unat n} = {..<unat (BLOCK_SIZE t)}, b')"
    "dequeued_from t c b' (D \<union> {block_slot t i..<block_slot t i + unat n})"
    "elements b' = elements b" "blockNext b' = blockNext b" "dynamicallyAllocated b' = dynamicallyAllocated b"
proof (cases "use_flags t c")
  case True
  let ?n = "unat (BLOCK_SIZE t)" and ?p = "block_slot t i" and ?m = "unat n"
  have D: "D \<subseteq> {..<?n}" "length (emptyFlags b) = ?n" "\<forall>p<?n. emptyFlags b ! (?n - 1 - p) \<longleftrightarrow> p \<in> D"
    using d True by (auto simp: dequeued_from_def)
  let ?i = "BLOCK_SIZE t - 1 - (i AND (BLOCK_SIZE t - 1)) - n + 1"
  have "unat (BLOCK_SIZE t - (i AND (BLOCK_SIZE t - 1))) = ?n - ?p"
    using s unat_minus_small[of "i AND (BLOCK_SIZE t - 1)" "BLOCK_SIZE t"] by (simp add: block_slot_def)
  then have "unat (BLOCK_SIZE t - (i AND (BLOCK_SIZE t - 1)) - n) = ?n - ?p - ?m"
    using s unat_minus_small[of n "BLOCK_SIZE t - (i AND (BLOCK_SIZE t - 1))"] by simp
  moreover have "?i = BLOCK_SIZE t - (i AND (BLOCK_SIZE t - 1)) - n" by simp
  ultimately have i: "unat ?i = ?n - ?p - ?m" by (simp only:)
  have n: "\<not> emptyFlags b ! k" if "?n - ?p - ?m \<le> k" "k < ?n - ?p - ?m + ?m" for k
  proof -
    have "?n - 1 - k < ?n" "?n - 1 - (?n - 1 - k) = k" "?n - 1 - k \<in> {?p..<?p + ?m}" using that s by auto
    then show ?thesis using D(3) p by (metis disjoint_iff)
  qed
  then obtain fs where fs: "set_flags (unat ?i) ?m (emptyFlags b) = Some fs" "length fs = ?n"
      "\<forall>k<?n. fs ! k \<longleftrightarrow> emptyFlags b ! k \<or> (?n - ?p - ?m \<le> k \<and> k < ?n - ?p - ?m + ?m)"
    using set_flags_sets[of "unat ?i" ?m "emptyFlags b"] D(2) s i by auto
  have "dequeued_from t c (b \<lparr> emptyFlags := fs \<rparr>) (D \<union> {?p..<?p + ?m})"
  proof -
    have "fs ! (?n - 1 - q) \<longleftrightarrow> q \<in> D \<union> {?p..<?p + ?m}" if "q < ?n" for q
    proof -
      have "?n - 1 - q < ?n" using that by simp
      moreover have "(?n - ?p - ?m \<le> ?n - 1 - q \<and> ?n - 1 - q < ?n - ?p - ?m + ?m) \<longleftrightarrow> q \<in> {?p..<?p + ?m}"
        using that s by auto
      ultimately show ?thesis using fs(3) D(3) that by blast
    qed
    then show ?thesis using True D(1) s fs(2) by (auto simp: dequeued_from_def)
  qed
  moreover have "set_many_empty t c i n b = Some (False, b \<lparr> emptyFlags := fs \<rparr>)"
    using True fs(1) by (simp add: set_many_empty_def)
  ultimately show thesis using True by (intro that[of "b \<lparr> emptyFlags := fs \<rparr>"]) auto
next
  case False
  let ?n = "unat (BLOCK_SIZE t)" and ?p = "block_slot t i" and ?m = "unat n"
  let ?b = "b \<lparr> elementsCompletelyDequeued := elementsCompletelyDequeued b + n \<rparr>"
  let ?D = "D \<union> {?p..<?p + ?m}"
  have D: "D \<subseteq> {..<?n}" "unat (elementsCompletelyDequeued b) = card D"
    using d False by (auto simp: dequeued_from_def)
  have i: "?D \<subseteq> {..<?n}" using D(1) s by auto
  have c: "card ?D = card D + ?m"
    using dequeued_from_card(3)[OF D(1)] p by (subst card_Un_disjoint) auto
  then have le: "card D + ?m \<le> ?n" using dequeued_from_card(1)[OF i] by simp
  have u: "unat (elementsCompletelyDequeued b + n) = card D + ?m"
    using D(2) le unat_lt_64[of "BLOCK_SIZE t"] by (subst unat_plus_small) auto
  then have "dequeued_from t c ?b ?D" using False i c by (simp add: dequeued_from_def)
  moreover have "elementsCompletelyDequeued b + n = BLOCK_SIZE t \<longleftrightarrow> ?D = {..<?n}"
    using dequeued_from_card(2)[OF i] c u by (simp add: word_unat_eq_iff)
  moreover have "elementsCompletelyDequeued b + n \<le> BLOCK_SIZE t" using u le by (simp add: word_le_nat_alt)
  ultimately show thesis using False by (intro that[of ?b]) (auto simp: set_many_empty_def Let_def)
qed

text \<open>
  C18. A block is empty exactly when every element stored in it has been dequeued, whether it keeps one flag per
  element or a counter: \<open>set_empty\<close> and \<open>set_many_empty\<close> record the slots of the given indices (no assertion
  fails when they were not dequeued before), \<open>reset_empty\<close> and \<open>set_all_empty\<close> start afresh, and only
  the counter variant reports the block that has just become empty.
\<close>

theorem block_emptiness:
  assumes "traits_ok t" "dequeued_from t c b D" "0 < unat n"
    "block_slot t i + unat n \<le> unat (BLOCK_SIZE t)" "\<forall>p\<in>D. p < block_slot t i \<or> block_slot t i + unat n \<le> p"
  shows "is_empty t c b = Some (D = {..<unat (BLOCK_SIZE t)}) \<and>
    (\<exists>b'. set_empty t c i b = Some (\<not> use_flags t c \<and> is_empty t c b' = Some True, b') \<and>
          dequeued_from t c b' (insert (block_slot t i) D)) \<and>
    (\<exists>b'. set_many_empty t c i n b = Some (\<not> use_flags t c \<and> is_empty t c b' = Some True, b') \<and>
          dequeued_from t c b' (D \<union> {block_slot t i..<block_slot t i + unat n})) \<and>
    is_empty t c (reset_empty t c b) = Some False \<and> is_empty t c (set_all_empty t c b) = Some True"
proof (intro conjI)
  show "is_empty t c b = Some (D = {..<unat (BLOCK_SIZE t)})" by (rule is_empty_iff) (rule assms)
  have "block_slot t i \<notin> D" using assms(3,5) by fastforce
  from set_empty_slot[OF assms(1,2) this] obtain b1 where b1:
    "set_empty t c i b = Some (\<not> use_flags t c \<and> insert (block_slot t i) D = {..<unat (BLOCK_SIZE t)}, b1)"
    "dequeued_from t c b1 (insert (block_slot t i) D)" .
  then show "\<exists>b'. set_empty t c i b = Some (\<not> use_flags t c \<and> is_empty t c b' = Some True, b') \<and>
      dequeued_from t c b' (insert (block_slot t i) D)"
    using is_empty_iff[OF b1(2)] by (intro exI[of _ b1]) simp
  have "{block_slot t i..<block_slot t i + unat n} \<inter> D = {}" using assms(5) by fastforce
  from set_many_empty_slots[OF assms(1,2,4) this] obtain b' where b:
    "set_many_empty t c i n b =
       Some (\<not> use_flags t c \<and> D \<union> {block_slot t i..<block_slot t i + unat n} = {..<unat (BLOCK_SIZE t)}, b')"
    "dequeued_from t c b' (D \<union> {block_slot t i..<block_slot t i + unat n})" .
  then show "\<exists>b'. set_many_empty t c i n b = Some (\<not> use_flags t c \<and> is_empty t c b' = Some True, b') \<and>
      dequeued_from t c b' (D \<union> {block_slot t i..<block_slot t i + unat n})"
    using is_empty_iff[OF b(2)] by (intro exI[of _ b']) simp
  show "is_empty t c (reset_empty t c b) = Some False"
    using is_empty_iff[OF dequeued_from_reset] BLOCK_SIZE_pos[OF assms(1)] by (metis (full_types) equals0D lessThan_iff)
  show "is_empty t c (set_all_empty t c b) = Some True"
    using is_empty_iff[OF dequeued_from_set_all] by simp
qed

lemma block_emptiness_witness:
  "\<exists>b'. set_many_empty ConcurrentQueueDefaultTraits explicit_context 37 4
          (reset_empty ConcurrentQueueDefaultTraits explicit_context (new_block ConcurrentQueueDefaultTraits :: nat block)) =
        Some (False, b') \<and> dequeued_from ConcurrentQueueDefaultTraits explicit_context b' {5, 6, 7, 8}"
proof -
  let ?t = ConcurrentQueueDefaultTraits
  have t: "traits_ok ?t" by code_simp
  have s: "block_slot ?t 37 = 5" by code_simp
  have n: "unat (4 :: size_t) = 4" "unat (BLOCK_SIZE ?t) = 32" by (simp_all add: ConcurrentQueueDefaultTraits_def)
  have u: "use_flags ?t explicit_context" by code_simp
  have "{5..<5 + 4} = {5, 6, 7, 8 :: nat}" by auto
  then show ?thesis
    using block_emptiness[OF t dequeued_from_reset[of ?t explicit_context "new_block ?t"], of "4" 37] s n u by auto
qed

end
