(* ===== verification/Cq_Block_Pool.thy ===== *)
theory Cq_Block_Pool
  imports Cq_Block
begin

text \<open>
  \<open>libs/concurrentqueue/concurrentqueue.h\<close>, block pool manipulation: where the producers of a queue get their
  blocks from, one call at a time. A block is an address; \<open>freeList\<close> is the list of the free blocks, last
  returned first, and \<open>mallocs\<close> are the coming answers of \<open>Traits::malloc\<close> in \<open>create<Block>\<close>.
\<close>

datatype AllocationMode = CanAlloc | CannotAlloc

record block_pool =
  initialBlockPool :: "nat list"
  initialBlockPoolIndex :: size_t
  freeList :: "nat list"
  mallocs :: "nat option list"

text \<open>\<open>array\<close> is the answer of \<open>create_array\<close>, the addresses of an array of blocks.\<close>

definition populate_initial_block_list :: "nat list option \<Rightarrow> nat option list \<Rightarrow> block_pool" where
  "populate_initial_block_list array allocs =
     \<lparr> initialBlockPool = (case array of None \<Rightarrow> [] | Some as \<Rightarrow> as), initialBlockPoolIndex = 0, freeList = [], mallocs = allocs \<rparr>"

definition try_get_block_from_initial_pool :: "block_pool \<Rightarrow> nat option \<times> block_pool" where
  "try_get_block_from_initial_pool bp =
     (if unat (initialBlockPoolIndex bp) \<ge> length (initialBlockPool bp) then (None, bp)
      else let index = initialBlockPoolIndex bp in
        (if unat index < length (initialBlockPool bp) then Some (initialBlockPool bp ! unat index) else None,
         bp \<lparr> initialBlockPoolIndex := index + 1 \<rparr>))"

definition add_block_to_free_list :: "nat \<Rightarrow> block_pool \<Rightarrow> block_pool" where
  "add_block_to_free_list a bp = bp \<lparr> freeList := a # freeList bp \<rparr>"

text \<open>The chain of blocks starts at \<open>block\<close>; \<open>next\<close> gives the links.\<close>

fun add_blocks_to_free_list :: "nat \<Rightarrow> (nat \<Rightarrow> nat option) \<Rightarrow> nat option \<Rightarrow> block_pool \<Rightarrow> block_pool option" where
  "add_blocks_to_free_list fuel links None bp = Some bp"
| "add_blocks_to_free_list 0 links (Some a) bp = None"
| "add_blocks_to_free_list (Suc fuel) links (Some a) bp =
     add_blocks_to_free_list fuel links (links a) (add_block_to_free_list a bp)"

definition try_get_block_from_free_list :: "block_pool \<Rightarrow> nat option \<times> block_pool" where
  "try_get_block_from_free_list bp =
     (case freeList bp of [] \<Rightarrow> (None, bp) | a # as \<Rightarrow> (Some a, bp \<lparr> freeList := as \<rparr>))"

definition create_block :: "block_pool \<Rightarrow> nat option \<times> block_pool" where
  "create_block bp = (case mallocs bp of [] \<Rightarrow> (None, bp) | a # as \<Rightarrow> (a, bp \<lparr> mallocs := as \<rparr>))"

definition requisition_block :: "AllocationMode \<Rightarrow> block_pool \<Rightarrow> nat option \<times> block_pool" where
  "requisition_block canAlloc bp =
     (case try_get_block_from_initial_pool bp of
        (Some a, bp) \<Rightarrow> (Some a, bp)
      | (None, bp) \<Rightarrow>
          (case try_get_block_from_free_list bp of
             (Some a, bp) \<Rightarrow> (Some a, bp)
           | (None, bp) \<Rightarrow> if canAlloc = CanAlloc then create_block bp else (None, bp)))"

text \<open>The blocks that the pool can still give, in order: a requisition takes the first one, or none.\<close>

definition pool_left :: "block_pool \<Rightarrow> nat list" where
  "pool_left bp = drop (unat (initialBlockPoolIndex bp)) (initialBlockPool bp) @ freeList bp @ List.map_filter id (mallocs bp)"

definition pool_ok :: "block_pool \<Rightarrow> bool" where
  "pool_ok bp \<longleftrightarrow> length (initialBlockPool bp) < 2 ^ 64"

lemma requisition_block_first:
  assumes "requisition_block m bp = (x, bp')" "pool_ok bp"
  shows "pool_left bp = (case x of None \<Rightarrow> [] | Some a \<Rightarrow> [a]) @ pool_left bp' \<and> pool_ok bp'"
proof (cases "unat (initialBlockPoolIndex bp) < length (initialBlockPool bp)")
  case True
  have "unat (initialBlockPoolIndex bp + 1) = Suc (unat (initialBlockPoolIndex bp))"
    using True assms(2) by (subst unat_plus_small) (auto simp: pool_ok_def)
  then show ?thesis using True assms
    by (auto simp: requisition_block_def try_get_block_from_initial_pool_def pool_left_def pool_ok_def Cons_nth_drop_Suc Let_def)
next
  case False
  then have i: "try_get_block_from_initial_pool bp = (None, bp)" "drop (unat (initialBlockPoolIndex bp)) (initialBlockPool bp) = []"
    by (auto simp: try_get_block_from_initial_pool_def)
  show ?thesis
  proof (cases "freeList bp")
    case Nil
    then show ?thesis using i assms
      by (auto simp: requisition_block_def try_get_block_from_free_list_def create_block_def pool_left_def pool_ok_def map_filter_simps
          split: list.splits if_splits option.splits)
  next
    case (Cons a as)
    then show ?thesis using i assms
      by (auto simp: requisition_block_def try_get_block_from_free_list_def pool_left_def pool_ok_def)
  qed
qed

end
