(* ===== verification/Cq_Explicit.thy ===== *)
theory Cq_Explicit
  imports Cq_Block_Pool "HOL-Library.Monad_Syntax"
begin

text \<open>
  \<open>libs/concurrentqueue/concurrentqueue.h\<close>: \<open>ProducerBase\<close> and \<open>ExplicitProducer\<close>, the sub-queue of a
  producer that holds a token, with its ring of blocks and its circular index of the blocks, as its operations
  run one at a time. The heap holds the blocks by address, \<open>pool\<close> is the block pool of the parent
  and \<open>index_allocs\<close> lists the coming answers of \<open>Traits::malloc\<close> for a block index. An operation gives \<open>None\<close>
  when an assertion of the code fails or when it uses a null pointer, an index outside of an array or an element that
  is not constructed.
\<close>

section \<open>The state of a producer\<close>

record 'a producer =
  tailIndex :: index_t
  headIndex :: index_t
  dequeueOptimisticCount :: index_t
  dequeueOvercommit :: index_t
  tailBlock :: "nat option"
  heap :: "nat \<Rightarrow> 'a block"
  pool :: block_pool
  index_allocs :: "bool list"

record index_entry =
  base :: index_t
  entry_block :: "nat option"

record index_header =
  header_size :: size_t
  header_front :: size_t
  entries :: "index_entry list"

text \<open>The current block index comes first, the older ones it links to behind it.\<close>

record 'a explicit_producer = "'a producer" +
  blockIndex :: "index_header list"
  pr_blockIndexSlotsUsed :: size_t
  pr_blockIndexSize :: size_t
  pr_blockIndexFront :: size_t

text \<open>What the construction of an element from the argument may do, and what one call did.\<close>

datatype ctor = noexcept_ctor | throwing_ctor bool

datatype outcome = Return bool | Rethrow

datatype 'a dequeued = Dequeued 'a | Assignment_Threw 'a | Nothing_Dequeued

definition size_approx :: "('a, 'z) producer_scheme \<Rightarrow> size_t" where
  "size_approx p = (if circular_less_than (headIndex p) (tailIndex p) then tailIndex p - headIndex p else 0)"

definition getTail :: "('a, 'z) producer_scheme \<Rightarrow> index_t" where
  "getTail p = tailIndex p"

definition ensure :: "bool \<Rightarrow> unit option" where
  "ensure b = (if b then Some () else None)"

definition write_block :: "nat \<Rightarrow> 'a block \<Rightarrow> ('a, 'z) producer_scheme \<Rightarrow> ('a, 'z) producer_scheme" where
  "write_block a b p = p \<lparr> heap := (heap p)(a := b) \<rparr>"

text \<open>\<open>new ((*this->tailBlock)[i]) T(x)\<close> and \<open>(*block)[i]->~T()\<close>.\<close>

definition construct_at :: "traits \<Rightarrow> nat \<Rightarrow> index_t \<Rightarrow> 'a \<Rightarrow> ('a, 'z) producer_scheme \<Rightarrow> ('a, 'z) producer_scheme option" where
  "construct_at t a i x p =
     do { ensure (block_slot t i < length (elements (heap p a)));
          Some (write_block a ((heap p a) \<lparr> elements := (elements (heap p a))[block_slot t i := Some x] \<rparr>) p) }"

definition construct_tail :: "traits \<Rightarrow> index_t \<Rightarrow> 'a \<Rightarrow> ('a, 'z) producer_scheme \<Rightarrow> ('a, 'z) producer_scheme option" where
  "construct_tail t i x p = do { a \<leftarrow> tailBlock p; construct_at t a i x p }"

definition destroy_at :: "traits \<Rightarrow> nat \<Rightarrow> index_t \<Rightarrow> ('a, 'z) producer_scheme \<Rightarrow> ('a \<times> ('a, 'z) producer_scheme) option" where
  "destroy_at t a i p =
     do { ensure (block_slot t i < length (elements (heap p a)));
          x \<leftarrow> elements (heap p a) ! block_slot t i;
          Some (x, write_block a ((heap p a) \<lparr> elements := (elements (heap p a))[block_slot t i := None] \<rparr>) p) }"

section \<open>The block index\<close>

text \<open>The do-while loop of \<open>new_block_index\<close>, from slot \<open>i\<close> of the old index up to \<open>pr_blockIndexFront\<close>.\<close>

fun copy_entries :: "nat \<Rightarrow> index_entry list \<Rightarrow> size_t \<Rightarrow> size_t \<Rightarrow> size_t \<Rightarrow> nat \<Rightarrow> index_entry list \<Rightarrow> (nat \<times> index_entry list) option" where
  "copy_entries 0 old m front i j new = None"
| "copy_entries (Suc fuel) old m front i j new =
     do { ensure (unat i < length old \<and> j < length new);
          let new = new[j := old ! unat i]; i = (i + 1) AND m; j = Suc j in
          if i = front then Some (j, new) else copy_entries fuel old m front i j new }"

definition null_entry :: index_entry where
  "null_entry = \<lparr> base = 0, entry_block = None \<rparr>"

definition copied_entries :: "'a explicit_producer \<Rightarrow> index_entry list \<Rightarrow> (nat \<times> index_entry list) option" where
  "copied_entries p new =
     (let prevBlockSizeMask = pr_blockIndexSize p - 1 in
      if pr_blockIndexSlotsUsed p \<noteq> 0
      then case blockIndex p of [] \<Rightarrow> None | h # _ \<Rightarrow>
        copy_entries (unat (pr_blockIndexSize p)) (entries h) prevBlockSizeMask (pr_blockIndexFront p)
          ((pr_blockIndexFront p - pr_blockIndexSlotsUsed p) AND prevBlockSizeMask) 0 new
      else Some (0, new))"

definition explicit_new_block_index :: "size_t \<Rightarrow> 'a explicit_producer \<Rightarrow> (bool \<times> 'a explicit_producer) option" where
  "explicit_new_block_index numberOfFilledSlotsToExpose p =
     (let newSize = push_bit 1 (pr_blockIndexSize p);
          allocated = (case index_allocs p of [] \<Rightarrow> False | a # _ \<Rightarrow> a) in
      if \<not> allocated then Some (False, p \<lparr> index_allocs := tl (index_allocs p) \<rparr>)
      else do {
        (j, new) \<leftarrow> copied_entries p (replicate (unat newSize) null_entry);
        Some (True, p \<lparr> index_allocs := tl (index_allocs p),
                blockIndex :=
                  \<lparr> header_size = newSize, header_front = numberOfFilledSlotsToExpose - 1, entries = new \<rparr> # blockIndex p,
                pr_blockIndexSize := newSize, pr_blockIndexFront := of_nat j \<rparr>) })"

definition write_entry :: "index_t \<Rightarrow> 'a explicit_producer \<Rightarrow> 'a explicit_producer option" where
  "write_entry b p =
     (case blockIndex p of
        [] \<Rightarrow> None
      | h # hs \<Rightarrow>
          do { ensure (unat (pr_blockIndexFront p) < length (entries h));
               Some (p \<lparr> blockIndex := h \<lparr> entries := (entries h)[unat (pr_blockIndexFront p) :=
                  \<lparr> base = b, entry_block = tailBlock p \<rparr>] \<rparr> # hs \<rparr>) })"

definition advance_front :: "'a explicit_producer \<Rightarrow> 'a explicit_producer" where
  "advance_front p = p \<lparr> pr_blockIndexFront := (pr_blockIndexFront p + 1) AND (pr_blockIndexSize p - 1) \<rparr>"

definition publish_front :: "size_t \<Rightarrow> 'a explicit_producer \<Rightarrow> 'a explicit_producer option" where
  "publish_front f p =
     (case blockIndex p of
        [] \<Rightarrow> None
      | h # hs \<Rightarrow> Some (p \<lparr> blockIndex := h \<lparr> header_front := f \<rparr> # hs \<rparr>))"

section \<open>Construction\<close>

definition ExplicitProducer :: "traits \<Rightarrow> (nat \<Rightarrow> 'a block) \<Rightarrow> block_pool \<Rightarrow> bool list \<Rightarrow> 'a explicit_producer option" where
  "ExplicitProducer t hp bp allocs =
     (let size0 = drop_bit 1 (EXPLICIT_INITIAL_INDEX_SIZE t);
          poolBasedIndexSize = drop_bit 1 (ceil_to_pow_2 (of_nat (length (initialBlockPool bp))));
          p = \<lparr> tailIndex = 0, headIndex = 0, dequeueOptimisticCount = 0, dequeueOvercommit = 0, tailBlock = None,
                heap = hp, pool = bp, index_allocs = allocs, blockIndex = [], pr_blockIndexSlotsUsed = 0,
                pr_blockIndexSize = (if poolBasedIndexSize > size0 then poolBasedIndexSize else size0),
                pr_blockIndexFront = 0 \<rparr>
      in map_option snd (explicit_new_block_index 0 p))"

section \<open>Enqueueing one element\<close>

definition subqueue_full :: "traits \<Rightarrow> index_t \<Rightarrow> index_t \<Rightarrow> bool" where
  "subqueue_full t head cur \<longleftrightarrow>
     \<not> circular_less_than head (cur + BLOCK_SIZE t) \<or>
     (MAX_SUBQUEUE_SIZE t \<noteq> const_numeric_max \<and>
      (MAX_SUBQUEUE_SIZE t = 0 \<or> MAX_SUBQUEUE_SIZE t - BLOCK_SIZE t < cur - head))"

text \<open>A new block is linked in behind the tail block of the ring and becomes the tail block.\<close>

definition link_block :: "nat \<Rightarrow> ('a, 'z) producer_scheme \<Rightarrow> ('a, 'z) producer_scheme" where
  "link_block a p =
     (case tailBlock p of
        None \<Rightarrow> write_block a ((heap p a) \<lparr> blockNext := Some a \<rparr>) p
      | Some tb \<Rightarrow>
          let p = write_block a ((heap p a) \<lparr> blockNext := blockNext (heap p tb) \<rparr>) p
          in write_block tb ((heap p tb) \<lparr> blockNext := Some a \<rparr>) p) \<lparr> tailBlock := Some a \<rparr>"

definition ensure_index_room :: "AllocationMode \<Rightarrow> size_t \<Rightarrow> 'a explicit_producer \<Rightarrow> (bool \<times> 'a explicit_producer) option" where
  "ensure_index_room m exposed p =
     (if blockIndex p = [] \<or> pr_blockIndexSlotsUsed p = pr_blockIndexSize p
      then if m = CannotAlloc then Some (False, p) else explicit_new_block_index exposed p
      else Some (True, p))"

definition explicit_fresh_block :: "traits \<Rightarrow> AllocationMode \<Rightarrow> 'a explicit_producer \<Rightarrow> (bool \<times> 'a explicit_producer) option" where
  "explicit_fresh_block t m p =
     do { ensure (\<not> circular_less_than (tailIndex p) (headIndex p));
          if subqueue_full t (headIndex p) (tailIndex p) then Some (False, p)
          else do {
            (room, p) \<leftarrow> ensure_index_room m (pr_blockIndexSlotsUsed p) p;
            if \<not> room then Some (False, p)
            else case requisition_block m (pool p) of
                (None, bp) \<Rightarrow> Some (False, p \<lparr> pool := bp \<rparr>)
              | (Some a, bp) \<Rightarrow>
                  let p = p \<lparr> pool := bp \<rparr>; p = link_block a (write_block a (reset_empty t explicit_context (heap p a)) p)
                  in Some (True, p \<lparr> pr_blockIndexSlotsUsed := pr_blockIndexSlotsUsed p + 1 \<rparr>) } }"

definition explicit_start_block :: "traits \<Rightarrow> AllocationMode \<Rightarrow> 'a explicit_producer \<Rightarrow> (bool \<times> 'a explicit_producer) option" where
  "explicit_start_block t m p =
     (case tailBlock p of
        None \<Rightarrow> explicit_fresh_block t m p
      | Some tb \<Rightarrow>
          do { a \<leftarrow> blockNext (heap p tb);
               e \<leftarrow> is_empty t explicit_context (heap p a);
               if e
               then Some (True, write_block a (reset_empty t explicit_context (heap p a)) (p \<lparr> tailBlock := Some a \<rparr>))
               else explicit_fresh_block t m p })"

definition explicit_enqueue :: "traits \<Rightarrow> AllocationMode \<Rightarrow> ctor \<Rightarrow> 'a \<Rightarrow> 'a explicit_producer \<Rightarrow> (outcome \<times> 'a explicit_producer) option" where
  "explicit_enqueue t m c x p =
     (let currentTailIndex = tailIndex p; newTailIndex = 1 + currentTailIndex in
      if currentTailIndex AND (BLOCK_SIZE t - 1) = 0 then
        do { let startBlock = tailBlock p; let originalBlockIndexSlotsUsed = pr_blockIndexSlotsUsed p;
             (ok, p) \<leftarrow> explicit_start_block t m p;
             if \<not> ok then Some (Return False, p)
             else if c = throwing_ctor True then
               Some (Rethrow, p \<lparr> pr_blockIndexSlotsUsed := originalBlockIndexSlotsUsed,
                                  tailBlock := (if startBlock = None then tailBlock p else startBlock) \<rparr>)
             else do {
               p \<leftarrow> (if c = noexcept_ctor then Some p else construct_tail t currentTailIndex x p);
               p \<leftarrow> write_entry currentTailIndex p;
               p \<leftarrow> publish_front (pr_blockIndexFront p) p;
               let p = advance_front p;
               p \<leftarrow> (if c = noexcept_ctor then construct_tail t currentTailIndex x p else Some p);
               Some (Return True, p \<lparr> tailIndex := newTailIndex \<rparr>) } }
      else if c = throwing_ctor True then Some (Rethrow, p)
      else do { p \<leftarrow> construct_tail t currentTailIndex x p;
                Some (Return True, p \<lparr> tailIndex := newTailIndex \<rparr>) })"

section \<open>Dequeueing one element\<close>

text \<open>The division of the block offset is unsigned, as \<open>BLOCK_SIZE\<close> is a \<open>size_t\<close>.\<close>

definition index_offset :: "traits \<Rightarrow> index_t \<Rightarrow> index_t \<Rightarrow> size_t" where
  "index_offset t i headBase = ((i AND NOT (BLOCK_SIZE t - 1)) - headBase) div BLOCK_SIZE t"

definition explicit_index_of :: "traits \<Rightarrow> index_t \<Rightarrow> 'a explicit_producer \<Rightarrow> (index_header \<times> size_t) option" where
  "explicit_index_of t i p =
     (case blockIndex p of
        [] \<Rightarrow> None
      | h # _ \<Rightarrow>
          do { ensure (unat (header_front h) < length (entries h));
               Some (h, (header_front h + index_offset t i (base (entries h ! unat (header_front h)))) AND (header_size h - 1)) })"

definition entry_at :: "index_header \<Rightarrow> size_t \<Rightarrow> nat option" where
  "entry_at h k = do { ensure (unat k < length (entries h)); entry_block (entries h ! unat k) }"

definition explicit_take :: "traits \<Rightarrow> index_t \<Rightarrow> 'a explicit_producer \<Rightarrow> ('a \<times> 'a explicit_producer) option" where
  "explicit_take t i p =
     do { (h, k) \<leftarrow> explicit_index_of t i p;
          a \<leftarrow> entry_at h k;
          (x, p) \<leftarrow> destroy_at t a i p;
          (_, b) \<leftarrow> set_empty t explicit_context i (heap p a);
          Some (x, write_block a b p) }"

definition explicit_dequeue :: "traits \<Rightarrow> bool \<Rightarrow> 'a explicit_producer \<Rightarrow> ('a dequeued \<times> 'a explicit_producer) option" where
  "explicit_dequeue t assignmentThrows p =
     (let overcommit = dequeueOvercommit p in
      if circular_less_than (dequeueOptimisticCount p - overcommit) (tailIndex p) then
        let myDequeueCount = dequeueOptimisticCount p;
            p = p \<lparr> dequeueOptimisticCount := myDequeueCount + 1 \<rparr> in
        if circular_less_than (myDequeueCount - overcommit) (tailIndex p) then
          do { let index = headIndex p;
               (x, p) \<leftarrow> explicit_take t index (p \<lparr> headIndex := index + 1 \<rparr>);
               Some (if assignmentThrows then Assignment_Threw x else Dequeued x, p) }
        else Some (Nothing_Dequeued, p \<lparr> dequeueOvercommit := dequeueOvercommit p + 1 \<rparr>)
      else Some (Nothing_Dequeued, p))"

section \<open>The destructor\<close>

text \<open>
  The loops of the destructor run with fuel. The result lists the destroyed elements, the blocks that are deleted and
  those that go back to the free list, each in order.
\<close>

fun half_dequeued :: "nat \<Rightarrow> traits \<Rightarrow> index_header \<Rightarrow> size_t \<Rightarrow> index_t \<Rightarrow> size_t \<Rightarrow> nat option option" where
  "half_dequeued 0 t h m head i = None"
| "half_dequeued (Suc fuel) t h m head i =
     do { ensure (unat i < length (entries h));
          let e = entries h ! unat i;
          if circular_less_than (base e + BLOCK_SIZE t) head
          then half_dequeued fuel t h m head ((i + 1) AND m)
          else do { ensure (circular_less_than (base e) head); Some (entry_block e) } }"

primrec destroy_slots :: "nat \<Rightarrow> traits \<Rightarrow> nat \<Rightarrow> bool \<Rightarrow> nat \<Rightarrow> nat \<Rightarrow> ('a, 'z) producer_scheme \<Rightarrow> ('a list \<times> ('a, 'z) producer_scheme) option" where
  "destroy_slots 0 t a isTail lastValid i p = Some ([], p)"
| "destroy_slots (Suc n) t a isTail lastValid i p =
     (if isTail \<and> i = lastValid then Some ([], p)
      else do { (x, p) \<leftarrow> destroy_at t a (of_nat i) p;
                (xs, p) \<leftarrow> destroy_slots n t a isTail lastValid (Suc i) p;
                Some (x # xs, p) })"

definition destroy_elements :: "traits \<Rightarrow> nat option \<Rightarrow> nat \<Rightarrow> nat \<Rightarrow> ('a, 'z) producer_scheme \<Rightarrow> ('a list \<times> ('a, 'z) producer_scheme) option" where
  "destroy_elements t half tb a p =
     do { e \<leftarrow> is_empty t explicit_context (heap p a);
          if e then Some ([], p)
          else let i = (if half = Some a then block_slot t (headIndex p) else 0);
                   lastValid = (if block_slot t (tailIndex p) = 0 then unat (BLOCK_SIZE t) else block_slot t (tailIndex p))
               in destroy_slots (unat (BLOCK_SIZE t) - i) t a (a = tb) lastValid i p }"

fun destroy_ring :: "nat \<Rightarrow> traits \<Rightarrow> nat option \<Rightarrow> nat \<Rightarrow> nat \<Rightarrow> ('a, 'z) producer_scheme \<Rightarrow> ('a list \<times> ('a, 'z) producer_scheme) option" where
  "destroy_ring 0 t half tb a p = None"
| "destroy_ring (Suc fuel) t half tb a p =
     do { a \<leftarrow> blockNext (heap p a);
          (xs, p) \<leftarrow> destroy_elements t half tb a p;
          if a = tb then Some (xs, p)
          else do { (ys, p) \<leftarrow> destroy_ring fuel t half tb a p; Some (xs @ ys, p) } }"

fun release_ring :: "nat \<Rightarrow> (nat \<Rightarrow> 'a block) \<Rightarrow> nat \<Rightarrow> nat \<Rightarrow> (nat list \<times> nat list) option" where
  "release_ring 0 hp tb a = None"
| "release_ring (Suc fuel) hp tb a =
     do { b \<leftarrow> blockNext (hp a);
          (deleted, freed) \<leftarrow> (if b = tb then Some ([], []) else release_ring fuel hp tb b);
          Some (if dynamicallyAllocated (hp a) then (a # deleted, freed) else (deleted, a # freed)) }"

definition explicit_destroy :: "nat \<Rightarrow> traits \<Rightarrow> 'a explicit_producer \<Rightarrow> ('a list \<times> nat list \<times> nat list) option" where
  "explicit_destroy fuel t p =
     (case tailBlock p of
        None \<Rightarrow> Some ([], [], [])
      | Some tb \<Rightarrow>
          do { half \<leftarrow>
                 (if headIndex p AND (BLOCK_SIZE t - 1) \<noteq> 0
                  then case blockIndex p of [] \<Rightarrow> None | h # _ \<Rightarrow>
                    half_dequeued fuel t h (pr_blockIndexSize p - 1) (headIndex p)
                      ((pr_blockIndexFront p - pr_blockIndexSlotsUsed p) AND (pr_blockIndexSize p - 1))
                  else Some None);
               (xs, p) \<leftarrow> destroy_ring fuel t half tb tb p;
               (deleted, freed) \<leftarrow> release_ring fuel (heap p) tb tb;
               Some (xs, deleted, freed) })"

section \<open>Enqueueing in bulk\<close>

text \<open>
  An item is an element and whether its construction throws; \<open>nothrow\<close> says that the constructor is \<open>noexcept\<close>.
  The first loop moves the tail block over the empty blocks ahead, the second one requisitions the missing blocks.
\<close>

definition block_base :: "traits \<Rightarrow> index_t \<Rightarrow> index_t" where
  "block_base t i = i AND NOT (BLOCK_SIZE t - 1)"

fun reuse_ahead :: "nat \<Rightarrow> traits \<Rightarrow> size_t \<Rightarrow> index_t \<Rightarrow> nat option \<Rightarrow> 'a explicit_producer \<Rightarrow>
    (size_t \<times> index_t \<times> nat option \<times> 'a explicit_producer) option" where
  "reuse_ahead 0 t diff cur first p = None"
| "reuse_ahead (Suc fuel) t diff cur first p =
     (case tailBlock p of
        None \<Rightarrow> Some (diff, cur, first, p)
      | Some tb \<Rightarrow>
          if diff = 0 then Some (diff, cur, first, p)
          else do {
            a \<leftarrow> blockNext (heap p tb);
            e \<leftarrow> (if Some a = first then Some False else is_empty t explicit_context (heap p a));
            if e then do {
              let cur = cur + BLOCK_SIZE t;
              p \<leftarrow> write_entry cur (p \<lparr> tailBlock := Some a \<rparr>);
              reuse_ahead fuel t (diff - BLOCK_SIZE t) cur (if first = None then Some a else first) (advance_front p) }
            else Some (diff, cur, first, p) })"

definition undo_bulk :: "nat option \<Rightarrow> nat option \<Rightarrow> size_t \<Rightarrow> size_t \<Rightarrow> 'a explicit_producer \<Rightarrow> 'a explicit_producer" where
  "undo_bulk startBlock first originalFront originalSlotsUsed p =
     p \<lparr> pr_blockIndexFront := originalFront, pr_blockIndexSlotsUsed := originalSlotsUsed,
         tailBlock := (if startBlock = None then first else startBlock) \<rparr>"

fun allocate_ahead :: "nat \<Rightarrow> traits \<Rightarrow> AllocationMode \<Rightarrow> nat option \<Rightarrow> size_t \<Rightarrow> size_t \<Rightarrow> index_t \<Rightarrow> nat option \<Rightarrow> size_t \<Rightarrow>
    'a explicit_producer \<Rightarrow> (bool \<times> nat option \<times> size_t \<times> 'a explicit_producer) option" where
  "allocate_ahead 0 t m startBlock originalSlotsUsed diff cur first originalFront p = None"
| "allocate_ahead (Suc fuel) t m startBlock originalSlotsUsed diff cur first originalFront p =
     (if diff = 0 then Some (True, first, originalFront, p)
      else do {
        let cur = cur + BLOCK_SIZE t;
        ensure (\<not> circular_less_than cur (headIndex p));
        if subqueue_full t (headIndex p) cur
        then Some (False, first, originalFront, undo_bulk startBlock first originalFront originalSlotsUsed p)
        else do {
          let newIndex = (blockIndex p = [] \<or> pr_blockIndexSlotsUsed p = pr_blockIndexSize p);
          (room, p) \<leftarrow> ensure_index_room m originalSlotsUsed p;
          if \<not> room
          then Some (False, first, originalFront, undo_bulk startBlock first originalFront originalSlotsUsed p)
          else do {
            let originalFront = (if newIndex then originalSlotsUsed else originalFront);
            case requisition_block m (pool p) of
              (None, bp) \<Rightarrow>
                Some (False, first, originalFront, undo_bulk startBlock first originalFront originalSlotsUsed (p \<lparr> pool := bp \<rparr>))
            | (Some a, bp) \<Rightarrow>
                let p = p \<lparr> pool := bp \<rparr>; p = link_block a (write_block a (set_all_empty t explicit_context (heap p a)) p)
                in do {
                  p \<leftarrow> write_entry cur (p \<lparr> pr_blockIndexSlotsUsed := pr_blockIndexSlotsUsed p + 1 \<rparr>);
                  allocate_ahead fuel t m startBlock originalSlotsUsed (diff - BLOCK_SIZE t) cur
                    (if first = None then Some a else first) originalFront (advance_front p) } } } })"

fun reset_blocks :: "nat \<Rightarrow> traits \<Rightarrow> nat \<Rightarrow> ('a, 'z) producer_scheme \<Rightarrow> ('a, 'z) producer_scheme option" where
  "reset_blocks 0 t a p = None"
| "reset_blocks (Suc fuel) t a p =
     (let p = write_block a (reset_empty t explicit_context (heap p a)) p in
      if tailBlock p = Some a then Some p
      else do { b \<leftarrow> blockNext (heap p a); reset_blocks fuel t b p })"

text \<open>Filling one block: the index reached, the items left, and whether a constructor threw.\<close>

fun fill_block :: "traits \<Rightarrow> index_t \<Rightarrow> index_t \<Rightarrow> ('a \<times> bool) list \<Rightarrow> ('a, 'z) producer_scheme \<Rightarrow>
    (bool \<times> index_t \<times> ('a \<times> bool) list \<times> ('a, 'z) producer_scheme) option" where
  "fill_block t stop cur items p =
     (if cur = stop then Some (False, cur, items, p)
      else case items of
        [] \<Rightarrow> None
      | (x, throws) # rest \<Rightarrow>
          if throws then Some (True, cur, items, p)
          else do { p \<leftarrow> construct_tail t cur x p; fill_block t stop (cur + 1) rest p })"

declare fill_block.simps [simp del]

definition stop_index :: "traits \<Rightarrow> index_t \<Rightarrow> index_t \<Rightarrow> index_t" where
  "stop_index t cur limit =
     (let stop = block_base t cur + BLOCK_SIZE t in if circular_less_than limit stop then limit else stop)"

fun fill_blocks :: "nat \<Rightarrow> traits \<Rightarrow> index_t \<Rightarrow> nat option \<Rightarrow> index_t \<Rightarrow> ('a \<times> bool) list \<Rightarrow> ('a, 'z) producer_scheme \<Rightarrow>
    (bool \<times> index_t \<times> ('a, 'z) producer_scheme) option" where
  "fill_blocks 0 t newTail endBlock cur items p = None"
| "fill_blocks (Suc fuel) t newTail endBlock cur items p =
     do { (threw, cur, items, p) \<leftarrow> fill_block t (stop_index t cur newTail) cur items p;
          if threw then Some (True, cur, p)
          else if tailBlock p = endBlock then do { ensure (cur = newTail); Some (False, cur, p) }
          else do { tb \<leftarrow> tailBlock p;
                    b \<leftarrow> blockNext (heap p tb);
                    fill_blocks fuel t newTail endBlock cur items (p \<lparr> tailBlock := Some b \<rparr>) } }"

fun destroy_span :: "nat \<Rightarrow> traits \<Rightarrow> nat \<Rightarrow> index_t \<Rightarrow> index_t \<Rightarrow> ('a, 'z) producer_scheme \<Rightarrow> ('a list \<times> ('a, 'z) producer_scheme) option" where
  "destroy_span 0 t a cur stop p = (if cur = stop then Some ([], p) else None)"
| "destroy_span (Suc fuel) t a cur stop p =
     (if cur = stop then Some ([], p)
      else do { (x, p) \<leftarrow> destroy_at t a cur p;
                (xs, p) \<leftarrow> destroy_span fuel t a (cur + 1) stop p;
                Some (x # xs, p) })"

fun destroy_constructed :: "nat \<Rightarrow> traits \<Rightarrow> index_t \<Rightarrow> nat option \<Rightarrow> nat option \<Rightarrow> index_t \<Rightarrow> ('a, 'z) producer_scheme \<Rightarrow> ('a, 'z) producer_scheme option" where
  "destroy_constructed 0 t constructedStop lastBlock block cur p = None"
| "destroy_constructed (Suc fuel) t constructedStop lastBlock block cur p =
     do { a \<leftarrow> block;
          let stop = stop_index t cur constructedStop;
          (_, p) \<leftarrow> destroy_span (unat (BLOCK_SIZE t)) t a cur stop p;
          if block = lastBlock then Some p
          else destroy_constructed fuel t constructedStop lastBlock (blockNext (heap p a)) stop p }"

definition explicit_enqueue_bulk :: "traits \<Rightarrow> AllocationMode \<Rightarrow> bool \<Rightarrow> bool \<Rightarrow> ('a \<times> bool) list \<Rightarrow> 'a explicit_producer \<Rightarrow>
    (outcome \<times> 'a explicit_producer) option" where
  "explicit_enqueue_bulk t m nothrow triviallyDestructible items p =
     (let n = of_nat (length items) :: size_t; fuel = length items + 2; startTailIndex = tailIndex p;
          startBlock = tailBlock p; originalSlotsUsed = pr_blockIndexSlotsUsed p;
          blockBaseDiff = block_base t (startTailIndex + n - 1) - block_base t (startTailIndex - 1) in
      do {
        (ok, first, originalFront, p) \<leftarrow>
          (if blockBaseDiff = 0 then Some (True, None, pr_blockIndexFront p, p)
           else do {
             (diff, cur, first, q) \<leftarrow> reuse_ahead fuel t blockBaseDiff (block_base t (startTailIndex - 1)) None p;
             (ok, first, originalFront, q) \<leftarrow>
               allocate_ahead fuel t m startBlock originalSlotsUsed diff cur first (pr_blockIndexFront p) q;
             if \<not> ok then Some (False, first, originalFront, q)
             else do { a \<leftarrow> first;
                       q \<leftarrow> reset_blocks fuel t a q;
                       q \<leftarrow> (if nothrow then publish_front ((pr_blockIndexFront q - 1) AND (pr_blockIndexSize q - 1)) q else Some q);
                       Some (True, first, originalFront, q) } });
        if \<not> ok then Some (Return False, p)
        else do {
          let endBlock = tailBlock p;
          let atBoundary = (startTailIndex AND (BLOCK_SIZE t - 1) = 0);
          ensure (\<not> atBoundary \<or> first \<noteq> None \<or> n = 0);
          (threw, cur, p) \<leftarrow>
            fill_blocks fuel t (startTailIndex + n) endBlock startTailIndex items
              (p \<lparr> tailBlock := (if atBoundary \<and> first \<noteq> None then first else startBlock) \<rparr>);
          if threw then do {
            let lastBlockEnqueued = tailBlock p;
            let p = undo_bulk startBlock first originalFront originalSlotsUsed p;
            p \<leftarrow> (if triviallyDestructible then Some p
                  else destroy_constructed fuel t cur lastBlockEnqueued (if atBoundary then first else startBlock) startTailIndex p);
            Some (Rethrow, p) }
          else do {
            p \<leftarrow> (if \<not> nothrow \<and> first \<noteq> None
                  then publish_front ((pr_blockIndexFront p - 1) AND (pr_blockIndexSize p - 1)) p else Some p);
            Some (Return True, p \<lparr> tailIndex := startTailIndex + n \<rparr>) } } })"

section \<open>Dequeueing in bulk\<close>

text \<open>
  \<open>throwsAt\<close> is the number of the element whose assignment throws: the rest of the claimed elements are then destroyed.
  The result lists the elements that have been handed over.
\<close>

fun explicit_take_blocks :: "nat \<Rightarrow> traits \<Rightarrow> index_header \<Rightarrow> size_t \<Rightarrow> index_t \<Rightarrow> index_t \<Rightarrow> 'a explicit_producer \<Rightarrow> ('a list \<times> 'a explicit_producer) option" where
  "explicit_take_blocks 0 t h k index limit p = None"
| "explicit_take_blocks (Suc fuel) t h k index limit p =
     do { let endIndex = stop_index t index limit;
          a \<leftarrow> entry_at h k;
          (xs, p) \<leftarrow> destroy_span (unat (BLOCK_SIZE t)) t a index endIndex p;
          (_, b) \<leftarrow> set_many_empty t explicit_context index (endIndex - index) (heap p a);
          let p = write_block a b p;
          if endIndex = limit then Some (xs, p)
          else do { (ys, p) \<leftarrow> explicit_take_blocks fuel t h ((k + 1) AND (header_size h - 1)) endIndex limit p; Some (xs @ ys, p) } }"

definition explicit_dequeue_bulk :: "traits \<Rightarrow> nat option \<Rightarrow> size_t \<Rightarrow> 'a explicit_producer \<Rightarrow>
    (bool \<times> 'a list \<times> 'a explicit_producer) option" where
  "explicit_dequeue_bulk t throwsAt most p =
     (let overcommit = dequeueOvercommit p;
          desiredCount = tailIndex p - (dequeueOptimisticCount p - overcommit) in
      if circular_less_than 0 desiredCount then
        let desiredCount = min desiredCount most; myDequeueCount = dequeueOptimisticCount p;
            p = p \<lparr> dequeueOptimisticCount := myDequeueCount + desiredCount \<rparr>;
            actualCount = tailIndex p - (myDequeueCount - overcommit) in
        if circular_less_than 0 actualCount then do {
          let actualCount = min desiredCount actualCount;
          let p = (if actualCount < desiredCount
                   then p \<lparr> dequeueOvercommit := dequeueOvercommit p + (desiredCount - actualCount) \<rparr> else p);
          let firstIndex = headIndex p;
          let p = p \<lparr> headIndex := firstIndex + actualCount \<rparr>;
          (h, k) \<leftarrow> explicit_index_of t firstIndex p;
          (xs, p) \<leftarrow> explicit_take_blocks (Suc (unat actualCount)) t h k firstIndex (firstIndex + actualCount) p;
          case throwsAt of
            None \<Rightarrow> Some (False, xs, p)
          | Some n \<Rightarrow> Some (n < length xs, take n xs, p) }
        else Some (False, [], p \<lparr> dequeueOvercommit := dequeueOvercommit p + desiredCount \<rparr>)
      else Some (False, [], p))"

end
