(* ===== verification/Cq_Tokens.thy ===== *)
theory Cq_Tokens
  imports Prelude
begin

text \<open>
  \<open>libs/concurrentqueue/concurrentqueue.h\<close>: producer tokens and the list of producers. Making a token (\<open>ProducerToken\<close>,
  \<open>recycle_or_create_producer\<close>, \<open>add_producer\<close>) and destroying one take several steps, and those of different tokens
  interleave; a token is moved or swapped by whoever has it. A producer is numbered by its place in the list, the
  oldest is 0 and has no next one: \<open>add_producer\<close> pushes at the tail.
\<close>

section \<open>State\<close>

record listed_producer =
  inactive :: bool
  isExplicit :: bool
  back_token :: "nat option"      \<comment> \<open>\<open>ConcurrentQueueProducerTypelessBase::token\<close>\<close>

datatype token_state =
    Tk_none                    \<comment> \<open>no object\<close>
  | Tk_scan "nat option"       \<comment> \<open>\<open>recycle_or_create_producer(true)\<close>: the producer to look at\<close>
  | Tk_cas nat                 \<comment> \<open>it was inactive: before the \<open>compare_exchange_strong\<close>\<close>
  | Tk_create
  | Tk_push                    \<comment> \<open>\<open>add_producer\<close>: before the push\<close>
  | Tk_got "nat option"        \<comment> \<open>before \<open>producer->token = this\<close>\<close>
  | Tk_token "nat option"      \<comment> \<open>constructed; the member \<open>producer\<close>\<close>
  | Tk_dying nat               \<comment> \<open>\<open>~ProducerToken\<close>: before the store of \<open>inactive\<close>\<close>

record token_system =
  producer_list :: "listed_producer list"
  producerCount :: "32 word"
  token_states :: "token_state list"

definition token_system :: "nat \<Rightarrow> token_system" where
  "token_system n = \<lparr> producer_list = [], producerCount = 0, token_states = replicate n Tk_none \<rparr>"

section \<open>Operations\<close>

definition producerListTail :: "'a list \<Rightarrow> nat option" where
  "producerListTail ps = (if ps = [] then None else Some (length ps - 1))"

definition next_prod :: "nat \<Rightarrow> nat option" where
  "next_prod k = (if k = 0 then None else Some (k - 1))"

definition set_token :: "nat \<Rightarrow> token_state \<Rightarrow> token_system \<Rightarrow> token_system" where
  "set_token j x s = s \<lparr> token_states := (token_states s)[j := x] \<rparr>"

definition set_producer :: "nat \<Rightarrow> (listed_producer \<Rightarrow> listed_producer) \<Rightarrow> token_system \<Rightarrow> token_system" where
  "set_producer k f s = s \<lparr> producer_list := (producer_list s)[k := f (producer_list s ! k)] \<rparr>"

definition set_back :: "nat option \<Rightarrow> nat option \<Rightarrow> token_system \<Rightarrow> token_system" where
  "set_back p b s = (case p of None \<Rightarrow> s | Some k \<Rightarrow> set_producer k (back_token_update (\<lambda>_. b)) s)"

text \<open>\<open>ok\<close>: the allocation of a new producer succeeds.\<close>

fun token_step :: "nat \<Rightarrow> bool \<Rightarrow> token_state \<Rightarrow> token_system \<Rightarrow> token_system" where
  "token_step j ok (Tk_scan None) s = set_token j Tk_create s"
| "token_step j ok (Tk_scan (Some k)) s =
     set_token j (if inactive (producer_list s ! k) \<and> isExplicit (producer_list s ! k) then Tk_cas k else Tk_scan (next_prod k)) s"
| "token_step j ok (Tk_cas k) s =
     (if inactive (producer_list s ! k)
      then set_token j (Tk_got (Some k)) (set_producer k (inactive_update (\<lambda>_. False)) s)
      else set_token j (Tk_scan (next_prod k)) s)"
| "token_step j ok Tk_create s =
     (if ok then set_token j Tk_push (s \<lparr> producerCount := producerCount s + 1 \<rparr>) else set_token j (Tk_got None) s)"
| "token_step j ok Tk_push s =
     set_token j (Tk_got (Some (length (producer_list s))))
       (s \<lparr> producer_list := producer_list s @ [\<lparr> inactive = False, isExplicit = True, back_token = None \<rparr>] \<rparr>)"
| "token_step j ok (Tk_got p) s = set_token j (Tk_token p) (set_back p (Some j) s)"
| "token_step j ok (Tk_dying k) s = set_token j Tk_none (set_producer k (inactive_update (\<lambda>_. True)) s)"
| "token_step j ok _ s = s"

definition destroy_token :: "nat \<Rightarrow> nat option \<Rightarrow> token_system \<Rightarrow> token_system" where
  "destroy_token j p s =
     (case p of None \<Rightarrow> set_token j Tk_none s | Some k \<Rightarrow> set_token j (Tk_dying k) (set_back (Some k) None s))"

text \<open>The move constructor makes \<open>j'\<close> from \<open>j\<close>; assignment is \<open>swap\<close>.\<close>

definition move_token :: "nat \<Rightarrow> nat option \<Rightarrow> nat \<Rightarrow> token_system \<Rightarrow> token_system" where
  "move_token j p j' s = set_back p (Some j') (set_token j (Tk_token None) (set_token j' (Tk_token p) s))"

definition swap_tokens :: "nat \<Rightarrow> nat option \<Rightarrow> nat \<Rightarrow> nat option \<Rightarrow> token_system \<Rightarrow> token_system" where
  "swap_tokens j p j' p' s =
     set_back p (Some j') (set_back p' (Some j) (set_token j' (Tk_token p) (set_token j (Tk_token p') s)))"

definition valid :: "nat \<Rightarrow> token_system \<Rightarrow> bool" where
  "valid j s \<longleftrightarrow> (\<exists>k. token_states s ! j = Tk_token (Some k))"

text \<open>The part of the queue's destructor that concerns tokens.\<close>

definition invalidate_tokens :: "token_system \<Rightarrow> token_state list" where
  "invalidate_tokens s =
     fold (\<lambda>p ts. case back_token p of None \<Rightarrow> ts | Some j \<Rightarrow> ts[j := Tk_token None]) (rev (producer_list s)) (token_states s)"

datatype token_event =
    Make_token nat
  | Token_step nat bool
  | Destroy_token nat
  | Move_token nat nat
  | Swap_tokens nat nat
  | Add_implicit_producer

fun token_exec :: "token_event \<Rightarrow> token_system \<Rightarrow> token_system option" where
  "token_exec (Make_token j) s =
     (if j < length (token_states s) \<and> token_states s ! j = Tk_none
      then Some (set_token j (Tk_scan (producerListTail (producer_list s))) s) else None)"
| "token_exec (Token_step j ok) s =
     (if j < length (token_states s) then Some (token_step j ok (token_states s ! j) s) else None)"
| "token_exec (Destroy_token j) s =
     (if j < length (token_states s)
      then (case token_states s ! j of Tk_token p \<Rightarrow> Some (destroy_token j p s) | _ \<Rightarrow> None) else None)"
| "token_exec (Move_token j j') s =
     (if j < length (token_states s) \<and> j' < length (token_states s) \<and> token_states s ! j' = Tk_none
      then (case token_states s ! j of Tk_token p \<Rightarrow> Some (move_token j p j' s) | _ \<Rightarrow> None) else None)"
| "token_exec (Swap_tokens j j') s =
     (if j < length (token_states s) \<and> j' < length (token_states s)
      then (case (token_states s ! j, token_states s ! j') of
              (Tk_token p, Tk_token p') \<Rightarrow> Some (swap_tokens j p j' p' s) | _ \<Rightarrow> None) else None)"
| "token_exec Add_implicit_producer s =
     Some (s \<lparr> producerCount := producerCount s + 1,
              producer_list := producer_list s @ [\<lparr> inactive = False, isExplicit = False, back_token = None \<rparr>] \<rparr>)"

section \<open>The invariant\<close>

fun holds_producer :: "token_state \<Rightarrow> nat option" where
  "holds_producer (Tk_got p) = p"
| "holds_producer (Tk_token p) = p"
| "holds_producer (Tk_dying k) = Some k"
| "holds_producer _ = None"

fun looks_at :: "token_state \<Rightarrow> nat set" where
  "looks_at (Tk_scan p) = set_option p"
| "looks_at (Tk_cas k) = {k}"
| "looks_at _ = {}"

text \<open>The producer \<open>k\<close>, seen from the states of all tokens.\<close>

definition producer_ok :: "token_state list \<Rightarrow> nat \<Rightarrow> listed_producer \<Rightarrow> bool" where
  "producer_ok ts k p \<longleftrightarrow>
     (\<forall>j<length ts. \<forall>j'<length ts. holds_producer (ts ! j) = Some k \<and> holds_producer (ts ! j') = Some k \<longrightarrow> j = j') \<and>
     ((\<exists>j<length ts. holds_producer (ts ! j) = Some k) \<longleftrightarrow> isExplicit p \<and> \<not> inactive p) \<and>
     (\<forall>j. back_token p = Some j \<longleftrightarrow> j < length ts \<and> ts ! j = Tk_token (Some k)) \<and> (\<not> isExplicit p \<longrightarrow> \<not> inactive p)"

definition token_ok :: "nat \<Rightarrow> token_state \<Rightarrow> bool" where
  "token_ok n x \<longleftrightarrow> set_option (holds_producer x) \<subseteq> {..<n} \<and> looks_at x \<subseteq> {..<n}"

definition tokens_inv :: "token_system \<Rightarrow> bool" where
  "tokens_inv s \<longleftrightarrow>
     (\<forall>k<length (producer_list s). producer_ok (token_states s) k (producer_list s ! k)) \<and>
     (\<forall>j<length (token_states s). token_ok (length (producer_list s)) (token_states s ! j)) \<and>
     (\<forall>j<length (token_states s). \<forall>k. token_states s ! j = Tk_cas k \<longrightarrow> isExplicit (producer_list s ! k)) \<and>
     producerCount s = of_nat (length (producer_list s) + number ((=) Tk_push) (token_states s))"

lemma holds_token [simp]: "holds_producer x \<noteq> Some k \<Longrightarrow> x \<noteq> Tk_token (Some k)" by auto

lemma producer_ok_other:
  assumes "producer_ok ts k p" "holds_producer (ts ! j) \<noteq> Some k" "holds_producer x \<noteq> Some k"
  shows "producer_ok (ts[j := x]) k p"
proof (cases "j < length ts")
  case True
  have h: "holds_producer (ts[j := x] ! i) = Some k \<longleftrightarrow> holds_producer (ts ! i) = Some k" for i
    using True assms(2,3) by (cases "i = j") auto
  have b: "ts[j := x] ! i = Tk_token (Some k) \<longleftrightarrow> ts ! i = Tk_token (Some k)" for i
    using True assms(2,3) by (cases "i = j") auto
  show ?thesis using assms(1) unfolding producer_ok_def h b by simp
qed (use assms(1) in \<open>simp add: list_update_beyond\<close>)

lemma producer_ok_keep:
  assumes "producer_ok ts k p" "j < length ts" "holds_producer (ts ! j) = Some k" "holds_producer x = Some k"
    and "b = (if x = Tk_token (Some k) then Some j else None)"
  shows "producer_ok (ts[j := x]) k (p \<lparr> back_token := b \<rparr>)"
proof -
  have h: "holds_producer (ts[j := x] ! i) = Some k \<longleftrightarrow> holds_producer (ts ! i) = Some k" for i
    using assms(2-4) by (cases "i = j") auto
  have u: "i < length ts \<Longrightarrow> holds_producer (ts ! i) = Some k \<Longrightarrow> i = j" for i
    using assms(1-3) unfolding producer_ok_def by blast
  have "i < length ts \<and> ts[j := x] ! i = Tk_token (Some k) \<longleftrightarrow> i = j \<and> x = Tk_token (Some k)" for i
    using u[of i] assms(2) by (cases "i = j") auto
  then show ?thesis using assms(1,5) unfolding producer_ok_def h by auto
qed

lemma producer_ok_take:
  assumes "producer_ok ts k p" "j < length ts" "inactive p" "isExplicit p" "holds_producer x = Some k" "x \<noteq> Tk_token (Some k)"
  shows "producer_ok (ts[j := x]) k (p \<lparr> inactive := False \<rparr>)"
proof -
  have n: "i < length ts \<Longrightarrow> holds_producer (ts ! i) \<noteq> Some k" for i using assms(1,3) unfolding producer_ok_def by blast
  then have h: "i < length ts \<Longrightarrow> holds_producer (ts[j := x] ! i) = Some k \<longleftrightarrow> i = j" for i
    using assms(5) by (cases "i = j") auto
  have "i < length ts \<and> ts[j := x] ! i = Tk_token (Some k) \<longleftrightarrow> i < length ts \<and> ts ! i = Tk_token (Some k)" for i
    using n[of i] assms(2,6) by (cases "i = j") auto
  then show ?thesis using assms(1,2,4) h unfolding producer_ok_def by auto
qed

lemma producer_ok_release:
  assumes "producer_ok ts k p" "j < length ts" "holds_producer (ts ! j) = Some k" "ts ! j \<noteq> Tk_token (Some k)" "holds_producer x \<noteq> Some k"
  shows "producer_ok (ts[j := x]) k (p \<lparr> inactive := True \<rparr>)"
proof -
  have u: "i < length ts \<Longrightarrow> holds_producer (ts ! i) = Some k \<Longrightarrow> i = j" for i
    using assms(1-3) unfolding producer_ok_def by blast
  then have h: "i < length ts \<Longrightarrow> holds_producer (ts[j := x] ! i) \<noteq> Some k" for i
    using assms(5) by (cases "i = j") auto
  have "i < length ts \<and> ts[j := x] ! i = Tk_token (Some k) \<longleftrightarrow> i < length ts \<and> ts ! i = Tk_token (Some k)" for i
    using assms(2,4,5) by (cases "i = j") auto
  moreover have "isExplicit p" using assms(1-3) unfolding producer_ok_def by blast
  ultimately show ?thesis using assms(1) h unfolding producer_ok_def by auto
qed

text \<open>Token \<open>j'\<close> takes the producer of token \<open>j\<close> over.\<close>

lemma producer_ok_transfer:
  assumes "producer_ok ts k p" "j < length ts" "j' < length ts" "j \<noteq> j'" "holds_producer (ts ! j) = Some k" "holds_producer x \<noteq> Some k"
  shows "producer_ok (ts[j := x, j' := Tk_token (Some k)]) k (p \<lparr> back_token := Some j' \<rparr>)"
proof -
  let ?ts = "ts[j := x, j' := Tk_token (Some k)]"
  have u: "i < length ts \<Longrightarrow> holds_producer (ts ! i) = Some k \<Longrightarrow> i = j" for i
    using assms(1,2,5) unfolding producer_ok_def by blast
  have h: "i < length ts \<Longrightarrow> holds_producer (?ts ! i) = Some k \<longleftrightarrow> i = j'" for i
    using assms(2-4,6) u[of i] by (auto simp: nth_list_update)
  have b: "i < length ts \<and> ?ts ! i = Tk_token (Some k) \<longleftrightarrow> i = j'" for i
    using assms(2-4,6) u[of i] by (auto simp: nth_list_update)
  have "isExplicit p \<and> \<not> inactive p" using assms(1,2,5) unfolding producer_ok_def by blast
  then show ?thesis using assms(3) unfolding producer_ok_def length_list_update b
    by (auto simp: h simp del: nth_list_update)
qed

lemma tokens_invD:
  assumes "tokens_inv s"
  shows tokens_producer: "k < length (producer_list s) \<Longrightarrow> producer_ok (token_states s) k (producer_list s ! k)"
    and tokens_token: "j < length (token_states s) \<Longrightarrow> token_ok (length (producer_list s)) (token_states s ! j)"
    and tokens_cas: "j < length (token_states s) \<Longrightarrow> token_states s ! j = Tk_cas k \<Longrightarrow> isExplicit (producer_list s ! k)"
    and tokens_count: "producerCount s = of_nat (length (producer_list s) + number ((=) Tk_push) (token_states s))"
  using assms unfolding tokens_inv_def by blast+

lemma tokens_inv_init: "tokens_inv (token_system n)"
  by (simp add: tokens_inv_def token_system_def token_ok_def number_replicate)

text \<open>One token changes, and one producer may.\<close>

lemma tokens_inv_move:
  assumes v: "tokens_inv s" and j: "j < length (token_states s)"
    and s': "token_states s' = (token_states s)[j := x]" "length (producer_list s') = length (producer_list s)"
      "\<And>k. isExplicit (producer_list s' ! k) = isExplicit (producer_list s ! k)"
    and p: "\<And>k. k < length (producer_list s) \<Longrightarrow> producer_ok ((token_states s)[j := x]) k (producer_list s' ! k)"
    and x: "token_ok (length (producer_list s)) x" "\<And>k. x = Tk_cas k \<Longrightarrow> isExplicit (producer_list s ! k)"
    and c: "producerCount s' = of_nat (length (producer_list s) + number ((=) Tk_push) ((token_states s)[j := x]))"
  shows "tokens_inv s'"
proof -
  have "token_ok (length (producer_list s)) ((token_states s)[j := x] ! i)" if "i < length (token_states s)" for i
    using that tokens_token[OF v that] x(1) j by (cases "i = j") auto
  moreover have "isExplicit (producer_list s ! k)" if "i < length (token_states s)" "(token_states s)[j := x] ! i = Tk_cas k" for i k
    using that tokens_cas[OF v that(1)] x(2) j by (cases "i = j") auto
  ultimately show ?thesis using p c unfolding tokens_inv_def s' by simp
qed

lemma set_simps [simp]:
  "producer_list (set_token j x s) = producer_list s" "token_states (set_token j x s) = (token_states s)[j := x]"
  "producerCount (set_token j x s) = producerCount s"
  "producer_list (set_producer k f s) = (producer_list s)[k := f (producer_list s ! k)]"
  "token_states (set_producer k f s) = token_states s" "producerCount (set_producer k f s) = producerCount s"
  by (simp_all add: set_token_def set_producer_def)

lemma set_back_simps [simp]:
  "producer_list (set_back p b s) = (case p of None \<Rightarrow> producer_list s
     | Some k \<Rightarrow> (producer_list s)[k := (producer_list s ! k) \<lparr> back_token := b \<rparr>])"
  "token_states (set_back p b s) = token_states s" "producerCount (set_back p b s) = producerCount s"
  by (cases p; simp add: set_back_def)+

lemma scan_ok:
  "k < n \<Longrightarrow> token_ok n (Tk_scan (next_prod k))" "token_ok (length ps) (Tk_scan (producerListTail ps))"
  by (auto simp: token_ok_def next_prod_def producerListTail_def)

text \<open>The token moves on without changing any producer.\<close>

lemma tokens_inv_goto:
  assumes v: "tokens_inv s" and j: "j < length (token_states s)"
    and x: "holds_producer (token_states s ! j) = None" "holds_producer x = None" "token_ok (length (producer_list s)) x"
      "\<And>k. x = Tk_cas k \<Longrightarrow> isExplicit (producer_list s ! k)"
    and c: "(Tk_push = x) = (Tk_push = token_states s ! j)"
  shows "tokens_inv (set_token j x s)"
proof (rule tokens_inv_move[OF v j])
  show "producerCount (set_token j x s) = of_nat (length (producer_list s) + number ((=) Tk_push) ((token_states s)[j := x]))"
    using tokens_count[OF v] number_move_same[OF j, of "(=) Tk_push" x] c by simp
  show "producer_ok ((token_states s)[j := x]) k (producer_list (set_token j x s) ! k)" if "k < length (producer_list s)" for k
    using producer_ok_other[OF tokens_producer[OF v that]] x by simp
qed (use x in auto)

text \<open>The token moves on with the producer \<open>k\<close> in its hands.\<close>

lemma tokens_inv_hold:
  assumes v: "tokens_inv s" and j: "j < length (token_states s)"
    and h: "holds_producer (token_states s ! j) = None \<or> holds_producer (token_states s ! j) = Some k"
      "holds_producer x = None \<or> holds_producer x = Some k" "k < length (producer_list s)"
    and x: "token_ok (length (producer_list s)) x" "looks_at x = {}" "x \<noteq> Tk_push" "token_states s ! j \<noteq> Tk_push"
    and f: "producer_ok ((token_states s)[j := x]) k (f (producer_list s ! k))" "isExplicit (f (producer_list s ! k)) = isExplicit (producer_list s ! k)"
  shows "tokens_inv (set_token j x (set_producer k f s))"
proof (rule tokens_inv_move[OF v j])
  show "producerCount (set_token j x (set_producer k f s)) = of_nat (length (producer_list s) + number ((=) Tk_push) ((token_states s)[j := x]))"
    using tokens_count[OF v] number_move_same[OF j, of "(=) Tk_push" x] x by auto
  show "producer_ok ((token_states s)[j := x]) i (producer_list (set_token j x (set_producer k f s)) ! i)"
    if i: "i < length (producer_list s)" for i
  proof (cases "i = k")
    case False
    then have "producer_ok ((token_states s)[j := x]) i (producer_list s ! i)"
      using h(1,2) by (intro producer_ok_other[OF tokens_producer[OF v i]]) auto
    then show ?thesis using False by simp
  qed (use f(1) h(3) in simp)
  show "isExplicit (producer_list (set_token j x (set_producer k f s)) ! i) = isExplicit (producer_list s ! i)" for i
    using f(2) by (cases "i = k"; cases "k < length (producer_list s)") (auto simp: list_update_beyond)
qed (use x in auto)

lemma tokens_inv_append:
  assumes v: "tokens_inv s" and e: "e = (case t of None \<Rightarrow> False | Some j \<Rightarrow> True)"
    and t: "\<And>j. t = Some j \<Longrightarrow> j < length (token_states s) \<and> token_states s ! j = Tk_push"
    and p: "producer_list s' = producer_list s @ [\<lparr> inactive = False, isExplicit = e, back_token = None \<rparr>]"
      "token_states s' = (case t of None \<Rightarrow> token_states s | Some j \<Rightarrow> (token_states s)[j := Tk_got (Some (length (producer_list s)))])"
      "producerCount s' = (case t of None \<Rightarrow> producerCount s + 1 | Some j \<Rightarrow> producerCount s)"
  shows "tokens_inv s'"
proof -
  let ?n = "length (producer_list s)" and ?ts = "token_states s"
  have hn: "holds_producer (?ts ! i) \<noteq> Some ?n" "?ts ! i \<noteq> Tk_token (Some ?n)" "?ts ! i \<noteq> Tk_cas ?n" if "i < length ?ts" for i
    using tokens_token[OF v that] by (auto simp: token_ok_def)
  have tk: "token_ok (Suc ?n) (?ts ! i)" if "i < length ?ts" for i
    using tokens_token[OF v that] by (auto simp: token_ok_def)
  show ?thesis
  proof (cases t)
    case None
    have new: "producer_ok ?ts ?n \<lparr> inactive = False, isExplicit = False, back_token = None \<rparr>"
      using hn by (auto simp: producer_ok_def)
    have cs: "k < ?n \<and> isExplicit (producer_list s ! k)" if "i < length ?ts" "?ts ! i = Tk_cas k" for i k
      using tokens_cas[OF v that] tokens_token[OF v that(1)] that by (auto simp: token_ok_def)
    show ?thesis unfolding tokens_inv_def p
      using tokens_producer[OF v] cs tokens_count[OF v] new tk None e
      by (auto simp: nth_append less_Suc_eq)
  next
    case (Some j)
    let ?us = "?ts[j := Tk_got (Some ?n)]"
    have j: "j < length ?ts" "?ts ! j = Tk_push" using t[OF Some] by auto
    have new: "producer_ok ?us ?n \<lparr> inactive = False, isExplicit = True, back_token = None \<rparr>"
      using hn j by (auto simp: producer_ok_def nth_list_update)
    have old: "producer_ok ?us k (producer_list s ! k)" if "k < ?n" for k
      using producer_ok_other[OF tokens_producer[OF v that], of j "Tk_got (Some ?n)"] j that by simp
    have tu: "token_ok (Suc ?n) (?us ! i)" if "i < length ?ts" for i
      using tk[OF that] j that by (cases "i = j") (auto simp: token_ok_def)
    have cs: "k < ?n \<and> isExplicit (producer_list s ! k)" if "i < length ?ts" "?us ! i = Tk_cas k" for i k
      using tokens_cas[OF v that(1)] tokens_token[OF v that(1)] that j by (cases "i = j") (auto simp: token_ok_def)
    have "Suc (number ((=) Tk_push) ?us) = number ((=) Tk_push) ?ts"
      using number_move_out[OF j(1), of "(=) Tk_push"] j(2) by simp
    then have cnt: "producerCount s = of_nat (Suc ?n + number ((=) Tk_push) ?us)" using tokens_count[OF v] by (metis add_Suc add_Suc_right)
    show ?thesis unfolding tokens_inv_def p
      using new old tu cs cnt Some e by (auto simp: nth_append less_Suc_eq)
  qed
qed

lemma token_step_inv:
  assumes v: "tokens_inv s" and j: "j < length (token_states s)"
  shows "tokens_inv (token_step j ok (token_states s ! j) s)"
proof (cases "token_states s ! j")
  case (Tk_scan p)
  show ?thesis
  proof (cases p)
    case None
    then show ?thesis using tokens_inv_goto[OF v j, of Tk_create] Tk_scan by (simp add: token_ok_def)
  next
    case (Some k)
    then have k: "k < length (producer_list s)" using tokens_token[OF v j] Tk_scan by (simp add: token_ok_def)
    have "token_ok (length (producer_list s)) (Tk_cas k)" using k by (simp add: token_ok_def)
    then show ?thesis
      using tokens_inv_goto[OF v j, of "Tk_cas k"] tokens_inv_goto[OF v j, of "Tk_scan (next_prod k)"] scan_ok(1)[OF k] Tk_scan Some by auto
  qed
next
  case (Tk_cas k)
  then have k: "k < length (producer_list s)" "isExplicit (producer_list s ! k)"
    using tokens_token[OF v j] tokens_cas[OF v j] by (auto simp: token_ok_def)
  show ?thesis
  proof (cases "inactive (producer_list s ! k)")
    case True
    have "tokens_inv (set_token j (Tk_got (Some k)) (set_producer k (inactive_update (\<lambda>_. False)) s))"
      by (rule tokens_inv_hold[OF v j])
        (use True k Tk_cas producer_ok_take[OF tokens_producer[OF v k(1)] j True k(2), of "Tk_got (Some k)"] in \<open>auto simp: token_ok_def\<close>)
    then show ?thesis using True Tk_cas by simp
  next
    case False
    then show ?thesis using tokens_inv_goto[OF v j, of "Tk_scan (next_prod k)"] scan_ok(1)[OF k(1)] Tk_cas by auto
  qed
next
  case Tk_create
  show ?thesis
  proof (cases ok)
    case True
    let ?s = "set_token j Tk_push (s \<lparr> producerCount := producerCount s + 1 \<rparr>)"
    have "number ((=) Tk_push) ((token_states s)[j := Tk_push]) = Suc (number ((=) Tk_push) (token_states s))"
      by (rule number_move_in[OF j]) (use Tk_create in auto)
    then have "tokens_inv ?s"
      by (intro tokens_inv_move[OF v j, where x = Tk_push])
        (use tokens_count[OF v] producer_ok_other[OF tokens_producer[OF v]] Tk_create in \<open>auto simp: token_ok_def\<close>)
    then show ?thesis using True Tk_create by simp
  next
    case False
    then show ?thesis using tokens_inv_goto[OF v j, of "Tk_got None"] Tk_create by (simp add: token_ok_def)
  qed
next
  case Tk_push
  then show ?thesis by (intro tokens_inv_append[OF v, where t = "Some j"]) (use j Tk_push in auto)
next
  case (Tk_got p)
  show ?thesis
  proof (cases p)
    case None
    then show ?thesis using tokens_inv_goto[OF v j, of "Tk_token None"] Tk_got by (simp add: token_ok_def set_back_def)
  next
    case (Some k)
    then have k: "k < length (producer_list s)" using tokens_token[OF v j] Tk_got by (simp add: token_ok_def)
    have "tokens_inv (set_token j (Tk_token (Some k)) (set_producer k (back_token_update (\<lambda>_. Some j)) s))"
      by (rule tokens_inv_hold[OF v j])
        (use k Tk_got Some producer_ok_keep[OF tokens_producer[OF v k] j, of "Tk_token (Some k)"] in \<open>auto simp: token_ok_def\<close>)
    then show ?thesis using Tk_got Some by (simp add: set_back_def)
  qed
next
  case (Tk_dying k)
  then have k: "k < length (producer_list s)" using tokens_token[OF v j] by (simp add: token_ok_def)
  have "tokens_inv (set_token j Tk_none (set_producer k (inactive_update (\<lambda>_. True)) s))"
    by (rule tokens_inv_hold[OF v j])
      (use k Tk_dying producer_ok_release[OF tokens_producer[OF v k] j, of Tk_none] in \<open>auto simp: token_ok_def\<close>)
  then show ?thesis using Tk_dying by simp
qed (use v in auto)

lemma destroy_token_inv:
  assumes v: "tokens_inv s" and j: "j < length (token_states s)" and p: "token_states s ! j = Tk_token p"
  shows "tokens_inv (destroy_token j p s)"
proof (cases p)
  case None
  then show ?thesis using tokens_inv_goto[OF v j, of Tk_none] p by (simp add: token_ok_def destroy_token_def)
next
  case (Some k)
  then have k: "k < length (producer_list s)" using tokens_token[OF v j] p by (simp add: token_ok_def)
  have "tokens_inv (set_token j (Tk_dying k) (set_producer k (back_token_update (\<lambda>_. None)) s))"
    by (rule tokens_inv_hold[OF v j])
      (use k p Some producer_ok_keep[OF tokens_producer[OF v k] j, of "Tk_dying k"] in \<open>auto simp: token_ok_def\<close>)
  then show ?thesis using Some by (simp add: destroy_token_def set_back_def)
qed

text \<open>Tokens \<open>j\<close> and \<open>j'\<close> exchange their producers; \<open>j'\<close> may be a new object.\<close>

lemma tokens_inv_exchange:
  assumes v: "tokens_inv s" and j: "j < length (token_states s)" "j' < length (token_states s)" "j \<noteq> j'"
    and p: "token_states s ! j = Tk_token p" "token_states s ! j' = Tk_token p' \<or> token_states s ! j' = Tk_none \<and> p' = None"
  shows "tokens_inv (set_back p (Some j') (set_back p' (Some j) (set_token j' (Tk_token p) (set_token j (Tk_token p') s))))"
    (is "tokens_inv ?s")
proof -
  let ?ts = "token_states s" and ?n = "length (producer_list s)"
  have hj: "holds_producer (?ts ! j) = p" "holds_producer (?ts ! j') = p'" using p by auto
  have us: "token_states ?s = ?ts[j := Tk_token p', j' := Tk_token p]" by simp
  have range: "set_option p \<subseteq> {..<?n}" "set_option p' \<subseteq> {..<?n}"
    using tokens_token[OF v j(1)] tokens_token[OF v j(2)] hj by (auto simp: token_ok_def)
  have diff: "p = Some k \<Longrightarrow> p' \<noteq> Some k" for k
  proof
    assume "p = Some k" "p' = Some k"
    then have "producer_ok ?ts k (producer_list s ! k)" using tokens_producer[OF v, of k] range by auto
    then show False using j hj \<open>p = Some k\<close> \<open>p' = Some k\<close> unfolding producer_ok_def by blast
  qed
  have swap: "?ts[j := Tk_token p', j' := Tk_token p] = ?ts[j' := Tk_token p, j := Tk_token p']" using j(3) by (rule list_update_swap)
  have len: "length (producer_list ?s) = ?n" by (cases p; cases p') auto
  have prod: "producer_ok (token_states ?s) k (producer_list ?s ! k)" if k: "k < ?n" for k
  proof -
    note ok = tokens_producer[OF v k]
    consider "p = Some k" | "p' = Some k" | "p \<noteq> Some k" "p' \<noteq> Some k" by blast
    then show ?thesis
    proof cases
      case 1
      then have "producer_list ?s ! k = (producer_list s ! k) \<lparr> back_token := Some j' \<rparr>" using diff[OF 1] k by (cases p') auto
      then show ?thesis
        using producer_ok_transfer[OF ok j, of "Tk_token p'"] hj(1) 1 diff[OF 1] unfolding us by simp
    next
      case 2
      then have "p \<noteq> Some k" using diff by blast
      then have "producer_list ?s ! k = (producer_list s ! k) \<lparr> back_token := Some j \<rparr>" using 2 k by (cases p) auto
      then show ?thesis
        using producer_ok_transfer[OF ok j(2,1), of "Tk_token p"] j(3) hj(2) 2 \<open>p \<noteq> Some k\<close> unfolding us swap by simp
    next
      case 3
      then have "producer_list ?s ! k = producer_list s ! k" by (cases p; cases p') auto
      moreover have "producer_ok (?ts[j := Tk_token p']) k (producer_list s ! k)"
        using 3 hj by (intro producer_ok_other[OF ok]) auto
      then have "producer_ok (?ts[j := Tk_token p', j' := Tk_token p]) k (producer_list s ! k)"
        by (rule producer_ok_other) (use 3 hj j(3) in auto)
      ultimately show ?thesis unfolding us by simp
    qed
  qed
  have tok: "token_ok ?n (token_states ?s ! i)" if "i < length ?ts" for i
    using tokens_token[OF v that] range that unfolding us by (cases "i = j'"; cases "i = j") (auto simp: token_ok_def)
  have cas: "isExplicit (producer_list ?s ! k)" if "i < length ?ts" "token_states ?s ! i = Tk_cas k" for i k
  proof -
    have i: "?ts ! i = Tk_cas k" using that unfolding us by (cases "i = j'"; cases "i = j") auto
    have "isExplicit (producer_list ?s ! k) = isExplicit (producer_list s ! k)"
      using range by (cases p; cases p') (auto simp: nth_list_update)
    then show ?thesis using tokens_cas[OF v that(1) i] by simp
  qed
  have "number ((=) Tk_push) (?ts[j := Tk_token p']) = number ((=) Tk_push) ?ts"
    by (rule number_move_same[OF j(1)]) (use p in auto)
  moreover have "number ((=) Tk_push) (?ts[j := Tk_token p', j' := Tk_token p]) = number ((=) Tk_push) (?ts[j := Tk_token p'])"
    by (rule number_move_same) (use p j in auto)
  ultimately have "number ((=) Tk_push) (token_states ?s) = number ((=) Tk_push) ?ts" unfolding us by simp
  then show ?thesis using prod tok cas tokens_count[OF v] len unfolding tokens_inv_def by simp
qed

lemma tokens_exec_inv:
  assumes v: "tokens_inv s" and e: "token_exec e s = Some s'"
  shows "tokens_inv s'"
proof (cases e)
  case (Make_token j)
  then show ?thesis
    using tokens_inv_goto[OF v, of j "Tk_scan (producerListTail (producer_list s))"] scan_ok(2) e by (auto split: if_splits)
next
  case (Token_step j ok)
  then show ?thesis using token_step_inv[OF v, of j ok] e by (auto split: if_splits)
next
  case (Destroy_token j)
  then show ?thesis using destroy_token_inv[OF v, of j] e by (auto split: if_splits token_state.splits)
next
  case (Move_token j j')
  then obtain p where m: "j < length (token_states s)" "j' < length (token_states s)" "token_states s ! j' = Tk_none"
      "token_states s ! j = Tk_token p" "s' = move_token j p j' s"
    using e by (auto split: if_splits token_state.splits)
  then have "j \<noteq> j'" by auto
  then have "move_token j p j' s = set_back p (Some j') (set_back None (Some j) (set_token j' (Tk_token p) (set_token j (Tk_token None) s)))"
    by (simp add: move_token_def set_back_def set_token_def list_update_swap)
  then show ?thesis using tokens_inv_exchange[OF v m(1,2) \<open>j \<noteq> j'\<close> m(4), of None] m(3,5) by simp
next
  case (Swap_tokens j j')
  then obtain p p' where m: "j < length (token_states s)" "j' < length (token_states s)"
      "token_states s ! j = Tk_token p" "token_states s ! j' = Tk_token p'" "s' = swap_tokens j p j' p' s"
    using e by (auto split: if_splits token_state.splits)
  show ?thesis
  proof (cases "j = j'")
    case False
    then show ?thesis using tokens_inv_exchange[OF v m(1,2) False m(3), of p'] m(4,5) by (simp add: swap_tokens_def)
  next
    case True
    have self: "set_back p (Some j) s = s"
    proof (cases p)
      case (Some k)
      then have k: "k < length (producer_list s)" using tokens_token[OF v m(1)] m(3) by (simp add: token_ok_def)
      then have "back_token (producer_list s ! k) = Some j"
        using tokens_producer[OF v k] m(1,3) Some unfolding producer_ok_def by blast
      then have "(producer_list s ! k) \<lparr> back_token := Some j \<rparr> = producer_list s ! k" by (metis listed_producer.surjective listed_producer.update_convs(3) listed_producer.select_convs(3))
      then show ?thesis using Some by (simp add: set_back_def set_producer_def)
    qed (simp add: set_back_def)
    have "set_token j (Tk_token p) (set_token j (Tk_token p) s) = s" using m(3) by (simp add: set_token_def list_update_same_conv flip: m(3))
    then have "s' = s" using m True self by (simp add: swap_tokens_def)
    then show ?thesis using v by simp
  qed
next
  case Add_implicit_producer
  then show ?thesis by (intro tokens_inv_append[OF v, where t = None]) (use e in auto)
qed

lemma tokens_exec_length: "token_exec e s = Some s' \<Longrightarrow> length (token_states s') = length (token_states s)"
proof (cases e)
  case (Token_step j ok)
  assume "token_exec e s = Some s'"
  then show ?thesis using Token_step by (cases "(j, ok, token_states s ! j, s)" rule: token_step.cases) (auto split: if_splits)
qed (auto simp: destroy_token_def move_token_def swap_tokens_def split: if_splits token_state.splits option.splits)

interpretation tokens: safety_system token_exec "token_system n" "\<lambda>s. tokens_inv s \<and> length (token_states s) = n" for n
proof
  show "tokens_inv (token_system n) \<and> length (token_states (token_system n)) = n"
    using tokens_inv_init by (simp add: token_system_def)
qed (use tokens_exec_inv tokens_exec_length in auto)

lemma invalidate_fold:
  "j < length ts \<Longrightarrow>
   fold (\<lambda>p ts. case back_token p of None \<Rightarrow> ts | Some j \<Rightarrow> ts[j := Tk_token None]) ps ts ! j =
     (if \<exists>p\<in>set ps. back_token p = Some j then Tk_token None else ts ! j)"
proof (induction ps arbitrary: ts)
  case (Cons p ps)
  let ?ts = "case back_token p of None \<Rightarrow> ts | Some j \<Rightarrow> ts[j := Tk_token None]"
  have "j < length ?ts" using Cons.prems by (simp split: option.split)
  from Cons.IH[OF this] show ?case using Cons.prems by (auto simp: nth_list_update split: option.splits)
qed simp

lemma invalidate_length:
  "length (fold (\<lambda>p ts. case back_token p of None \<Rightarrow> ts | Some j \<Rightarrow> ts[j := Tk_token None]) ps ts) = length ts"
  by (induction ps arbitrary: ts) (auto split: option.split)

lemma invalidate_tokens_invalid:
  assumes "tokens_inv s"
  shows "Tk_token (Some k) \<notin> set (invalidate_tokens s)"
proof
  assume "Tk_token (Some k) \<in> set (invalidate_tokens s)"
  then obtain j where j: "j < length (token_states s)" "invalidate_tokens s ! j = Tk_token (Some k)"
    by (auto simp: in_set_conv_nth invalidate_tokens_def invalidate_length)
  then have t: "token_states s ! j = Tk_token (Some k)" and n: "\<forall>p\<in>set (producer_list s). back_token p \<noteq> Some j"
    using invalidate_fold[OF j(1), of "rev (producer_list s)"] by (auto simp: invalidate_tokens_def split: if_splits)
  have k: "k < length (producer_list s)" using tokens_token[OF assms j(1)] t by (simp add: token_ok_def)
  then have "back_token (producer_list s ! k) = Some j" using tokens_producer[OF assms k] j(1) t unfolding producer_ok_def by blast
  then show False using n k nth_mem by blast
qed

text \<open>
  C8. Whatever producer tokens are made, moved, swapped and destroyed, in any interleaving, an explicit producer that is in
  use belongs to exactly one token (or to the one being made or destroyed), and one that is inactive to none: no two tokens
  ever enqueue to the same sub-queue. The producer's pointer back to its token is right whenever the token is constructed,
  so the destructor of the queue invalidates every valid token; \<open>producerCount\<close> counts the listed producers and those about
  to be.
\<close>

theorem producer_tokens_exclusive:
  assumes "runs token_exec es (token_system n) = Some s" "k < length (producer_list s)"
  shows "(\<forall>j<n. \<forall>j'<n. holds_producer (token_states s ! j) = Some k \<and> holds_producer (token_states s ! j') = Some k \<longrightarrow> j = j') \<and>
    ((\<exists>j<n. holds_producer (token_states s ! j) = Some k) \<longleftrightarrow> isExplicit (producer_list s ! k) \<and> \<not> inactive (producer_list s ! k)) \<and>
    (\<forall>j. back_token (producer_list s ! k) = Some j \<longleftrightarrow> j < n \<and> token_states s ! j = Tk_token (Some k)) \<and>
    Tk_token (Some k) \<notin> set (invalidate_tokens s) \<and>
    producerCount s = of_nat (length (producer_list s) + number ((=) Tk_push) (token_states s))"
proof -
  have v: "tokens_inv s" "length (token_states s) = n" using tokens.inv_reachable[OF assms(1)] by auto
  show ?thesis
    using tokens_producer[OF v(1) assms(2)] invalidate_tokens_invalid[OF v(1)] tokens_count[OF v(1)]
    unfolding producer_ok_def v(2) by blast
qed

lemma producer_tokens_exclusive_witness:
  "\<exists>s. runs token_exec [Make_token 0, Token_step 0 True, Token_step 0 True, Token_step 0 True, Token_step 0 True, Destroy_token 0,
      Token_step 0 True, Make_token 1, Token_step 1 True, Make_token 0, Token_step 0 True, Token_step 0 True, Token_step 1 True,
      Token_step 0 True, Move_token 0 2] (token_system 3) = Some s \<and> back_token (producer_list s ! 0) = Some 2"
proof -
  let ?es = "[Make_token 0, Token_step 0 True, Token_step 0 True, Token_step 0 True, Token_step 0 True, Destroy_token 0,
      Token_step 0 True, Make_token 1, Token_step 1 True, Make_token 0, Token_step 0 True, Token_step 0 True, Token_step 1 True,
      Token_step 0 True, Move_token 0 2]"
  have "map_option (\<lambda>s. (length (producer_list s), token_states s)) (runs token_exec ?es (token_system 3)) =
      Some (1, [Tk_token None, Tk_scan None, Tk_token (Some 0)])" by code_simp
  then obtain s where s: "runs token_exec ?es (token_system 3) = Some s" "length (producer_list s) = 1"
      "token_states s = [Tk_token None, Tk_scan None, Tk_token (Some 0)]" by (auto simp del: runs.simps)
  have "0 < length (producer_list s)" using s(2) by simp
  from producer_tokens_exclusive[OF s(1) this] have "back_token (producer_list s ! 0) = Some 2" using s(3) by simp
  then show ?thesis using s(1) by blast
qed

end
