(* ===== verification/Cq_Queue.thy ===== *)
theory Cq_Queue
  imports Cq_Explicit Cq_Tokens
begin

text \<open>
  \<open>libs/concurrentqueue/concurrentqueue.h\<close>: the dequeue operations of the queue, which look for a sub-queue with elements: the
  heuristic of \<open>try_dequeue\<close>, the traversals of the list of producers, and consumer tokens with their rotation; one
  call at a time. The operations of the sub-queues are parameters of the definitions, and a locale states
  what the queue relies on; its laws are proved for explicit and implicit producers in \<open>Cq_Queue_Properties\<close>.
\<close>

section \<open>State\<close>

record consumer_token =
  initialOffset :: "32 word"
  lastKnownGlobalOffset :: "32 word"
  itemsConsumedFromCurrent :: "32 word"
  currentProducer :: "nat option"
  desiredProducer :: "nat option"

text \<open>The sub-queues in the order of their creation, so the tail of the list of producers is the last.\<close>

record 'p conc_queue =
  sub_queues :: "'p list"
  globalExplicitConsumerOffset :: "32 word"
  nextExplicitConsumerId :: "32 word"

definition ConsumerToken :: "'p conc_queue \<Rightarrow> consumer_token \<times> 'p conc_queue" where
  "ConsumerToken q =
     (\<lparr> initialOffset = nextExplicitConsumerId q, lastKnownGlobalOffset = - 1, itemsConsumedFromCurrent = 0,
        currentProducer = None, desiredProducer = None \<rparr>,
      q \<lparr> nextExplicitConsumerId := nextExplicitConsumerId q + 1 \<rparr>)"

section \<open>Traversals\<close>

definition from_tail :: "nat \<Rightarrow> nat list" where
  "from_tail n = rev [0..<n]"

text \<open>\<open>ptr = ptr->next_prod(); if (ptr == nullptr) ptr = tail;\<close>\<close>

definition next_or_tail :: "nat \<Rightarrow> nat \<Rightarrow> nat" where
  "next_or_tail n k = (case next_prod k of None \<Rightarrow> n - 1 | Some k \<Rightarrow> k)"

primrec advance :: "nat \<Rightarrow> nat \<Rightarrow> nat \<Rightarrow> nat" where
  "advance n 0 k = k"
| "advance n (Suc m) k = next_or_tail n (advance n m k)"

definition take_from :: "('p \<Rightarrow> ('r \<times> 'p) option) \<Rightarrow> nat \<Rightarrow> 'p list \<Rightarrow> ('r \<times> 'p list) option" where
  "take_from f k qs = do { (r, p) \<leftarrow> f (qs ! k); Some (r, qs[k := p]) }"

fun try_each :: "('p \<Rightarrow> ('a option \<times> 'p) option) \<Rightarrow> nat list \<Rightarrow> 'p list \<Rightarrow> ('a option \<times> 'p list) option" where
  "try_each deq [] qs = Some (None, qs)"
| "try_each deq (k # ks) qs =
     do { (r, qs) \<leftarrow> take_from deq k qs;
          case r of Some x \<Rightarrow> Some (Some x, qs) | None \<Rightarrow> try_each deq ks qs }"

section \<open>Without a token\<close>

text \<open>\<open>nonEmptyCount\<close>, \<open>best\<close>, \<open>bestSize\<close>.\<close>

fun score_producers :: "('p \<Rightarrow> size_t) \<Rightarrow> 'p list \<Rightarrow> nat list \<Rightarrow> nat \<Rightarrow> nat option \<Rightarrow> size_t \<Rightarrow> nat \<times> nat option" where
  "score_producers approx qs [] nonEmpty best bestSize = (nonEmpty, best)"
| "score_producers approx qs (k # ks) nonEmpty best bestSize =
     (if nonEmpty < 3
      then let size = approx (qs ! k) in
        if size > 0
        then if size > bestSize then score_producers approx qs ks (nonEmpty + 1) (Some k) size
             else score_producers approx qs ks (nonEmpty + 1) best bestSize
        else score_producers approx qs ks nonEmpty best bestSize
      else (nonEmpty, best))"

definition try_dequeue :: "('p \<Rightarrow> size_t) \<Rightarrow> ('p \<Rightarrow> ('a option \<times> 'p) option) \<Rightarrow> 'p list \<Rightarrow> ('a option \<times> 'p list) option" where
  "try_dequeue approx deq qs =
     (let n = length qs; (nonEmpty, best) = score_producers approx qs (from_tail n) 0 None 0 in
      if nonEmpty > 0
      then do { k \<leftarrow> best;
                (r, qs) \<leftarrow> take_from deq k qs;
                case r of Some x \<Rightarrow> Some (Some x, qs) | None \<Rightarrow> try_each deq (filter (\<lambda>i. i \<noteq> k) (from_tail n)) qs }
      else Some (None, qs))"

definition try_dequeue_non_interleaved :: "('p \<Rightarrow> ('a option \<times> 'p) option) \<Rightarrow> 'p list \<Rightarrow> ('a option \<times> 'p list) option" where
  "try_dequeue_non_interleaved deq qs = try_each deq (from_tail (length qs)) qs"

fun bulk_each :: "(size_t \<Rightarrow> 'p \<Rightarrow> ('a list \<times> 'p) option) \<Rightarrow> nat list \<Rightarrow> size_t \<Rightarrow> size_t \<Rightarrow> 'p list \<Rightarrow> ('a list \<times> 'p list) option" where
  "bulk_each bulk [] most got qs = Some ([], qs)"
| "bulk_each bulk (k # ks) most got qs =
     do { (xs, qs) \<leftarrow> take_from (bulk (most - got)) k qs;
          let got = got + of_nat (length xs);
          if got = most then Some (xs, qs)
          else do { (ys, qs) \<leftarrow> bulk_each bulk ks most got qs; Some (xs @ ys, qs) } }"

definition try_dequeue_bulk :: "(size_t \<Rightarrow> 'p \<Rightarrow> ('a list \<times> 'p) option) \<Rightarrow> size_t \<Rightarrow> 'p list \<Rightarrow> ('a list \<times> 'p list) option" where
  "try_dequeue_bulk bulk most qs = bulk_each bulk (from_tail (length qs)) most 0 qs"

definition queue_size_approx :: "('p \<Rightarrow> size_t) \<Rightarrow> 'p list \<Rightarrow> size_t" where
  "queue_size_approx approx qs = fold (\<lambda>k size. size + approx (qs ! k)) (from_tail (length qs)) 0"

section \<open>With a consumer token\<close>

text \<open>\<open>None\<close> is the division by a count of producers that has wrapped around to zero.\<close>

definition update_current_producer_after_rotation :: "'p conc_queue \<Rightarrow> consumer_token \<Rightarrow> (bool \<times> consumer_token) option" where
  "update_current_producer_after_rotation q t =
     (let n = length (sub_queues q) in
      case (desiredProducer t, producerListTail (sub_queues q)) of
        (None, None) \<Rightarrow> Some (False, t)
      | (d, tail) \<Rightarrow>
          let prodCount = of_nat n :: 32 word in
          if prodCount = 0 then None else
          let desired = (case d of
                  None \<Rightarrow> advance n (unat (prodCount - 1 - (initialOffset t mod prodCount))) (the tail)
                | Some k \<Rightarrow> k);
              delta = globalExplicitConsumerOffset q - lastKnownGlobalOffset t;
              delta = (if delta \<ge> prodCount then delta mod prodCount else delta);
              desired = advance n (unat delta) desired
          in Some (True, t \<lparr> desiredProducer := Some desired, lastKnownGlobalOffset := globalExplicitConsumerOffset q,
                        currentProducer := Some desired, itemsConsumedFromCurrent := 0 \<rparr>))"

definition find_position :: "'p conc_queue \<Rightarrow> consumer_token \<Rightarrow> (bool \<times> consumer_token) option" where
  "find_position q t =
     (if desiredProducer t = None \<or> lastKnownGlobalOffset t \<noteq> globalExplicitConsumerOffset q
      then update_current_producer_after_rotation q t else Some (True, t))"

fun token_round :: "nat \<Rightarrow> ('p \<Rightarrow> ('a option \<times> 'p) option) \<Rightarrow> nat \<Rightarrow> nat \<Rightarrow> 'p list \<Rightarrow> ((nat \<times> 'a) option \<times> 'p list) option" where
  "token_round 0 deq cur ptr qs = None"
| "token_round (Suc fuel) deq cur ptr qs =
     (if ptr = cur then Some (None, qs)
      else do { (r, qs) \<leftarrow> take_from deq ptr qs;
                case r of Some x \<Rightarrow> Some (Some (ptr, x), qs)
                | None \<Rightarrow> token_round fuel deq cur (next_or_tail (length qs) ptr) qs })"

definition try_dequeue_token :: "('p \<Rightarrow> ('a option \<times> 'p) option) \<Rightarrow> 32 word \<Rightarrow> consumer_token \<Rightarrow> 'p conc_queue \<Rightarrow>
    ('a option \<times> consumer_token \<times> 'p conc_queue) option" where
  "try_dequeue_token deq quota t q =
     do { (ok, t) \<leftarrow> find_position q t;
          let n = length (sub_queues q);
          if \<not> ok then Some (None, t, q)
          else do {
                cur \<leftarrow> currentProducer t;
                (r, qs) \<leftarrow> take_from deq cur (sub_queues q);
                let q = q \<lparr> sub_queues := qs \<rparr>;
                case r of
                  Some x \<Rightarrow>
                    let t = t \<lparr> itemsConsumedFromCurrent := itemsConsumedFromCurrent t + 1 \<rparr> in
                    Some (Some x, t, if itemsConsumedFromCurrent t = quota
                      then q \<lparr> globalExplicitConsumerOffset := globalExplicitConsumerOffset q + 1 \<rparr> else q)
                | None \<Rightarrow> do {
                    (r, qs) \<leftarrow> token_round (n + 1) deq cur (next_or_tail n cur) qs;
                    let q = q \<lparr> sub_queues := qs \<rparr>;
                    case r of None \<Rightarrow> Some (None, t, q)
                    | Some (ptr, x) \<Rightarrow> Some (Some x, t \<lparr> currentProducer := Some ptr, itemsConsumedFromCurrent := 1 \<rparr>, q) } } }"

text \<open>The loop compares with \<open>token.currentProducer\<close>, which it changes.\<close>

fun bulk_round :: "nat \<Rightarrow> (size_t \<Rightarrow> 'p \<Rightarrow> ('a list \<times> 'p) option) \<Rightarrow> nat \<Rightarrow> size_t \<Rightarrow> consumer_token \<Rightarrow> 'p list \<Rightarrow>
    ('a list \<times> consumer_token \<times> 'p list) option" where
  "bulk_round 0 bulk ptr most t qs = None"
| "bulk_round (Suc fuel) bulk ptr most t qs =
     (if currentProducer t = Some ptr then Some ([], t, qs)
      else do { (xs, qs) \<leftarrow> take_from (bulk most) ptr qs;
                let t = (if xs \<noteq> [] then t \<lparr> currentProducer := Some ptr, itemsConsumedFromCurrent := of_nat (length xs) \<rparr> else t);
                if of_nat (length xs) = most then Some (xs, t, qs)
                else do { (ys, t, qs) \<leftarrow> bulk_round fuel bulk (next_or_tail (length qs) ptr) (most - of_nat (length xs)) t qs;
                          Some (xs @ ys, t, qs) } })"

definition try_dequeue_bulk_token :: "(size_t \<Rightarrow> 'p \<Rightarrow> ('a list \<times> 'p) option) \<Rightarrow> 32 word \<Rightarrow> size_t \<Rightarrow> consumer_token \<Rightarrow> 'p conc_queue \<Rightarrow>
    ('a list \<times> consumer_token \<times> 'p conc_queue) option" where
  "try_dequeue_bulk_token bulk quota most t q =
     do { (ok, t) \<leftarrow> find_position q t;
          let n = length (sub_queues q);
          if \<not> ok then Some ([], t, q)
          else do {
                cur \<leftarrow> currentProducer t;
                (xs, qs) \<leftarrow> take_from (bulk most) cur (sub_queues q);
                let q = q \<lparr> sub_queues := qs \<rparr>;
                if of_nat (length xs) = most then
                  let t = t \<lparr> itemsConsumedFromCurrent := itemsConsumedFromCurrent t + ucast most \<rparr> in
                  Some (xs, t, if itemsConsumedFromCurrent t \<ge> quota
                    then q \<lparr> globalExplicitConsumerOffset := globalExplicitConsumerOffset q + 1 \<rparr> else q)
                else do {
                  let t = t \<lparr> itemsConsumedFromCurrent := itemsConsumedFromCurrent t + of_nat (length xs) \<rparr>;
                  (ys, t, qs) \<leftarrow> bulk_round (Suc (Suc n * Suc n)) bulk (next_or_tail n cur) (most - of_nat (length xs)) t qs;
                  Some (xs @ ys, t, q \<lparr> sub_queues := qs \<rparr>) } } }"

section \<open>What the queue relies on\<close>

text \<open>The elements \<open>ys\<close> are taken one by one from the fronts of sub-queues with the contents \<open>xss\<close>.\<close>

primrec takes :: "'a list \<Rightarrow> 'a list list \<Rightarrow> 'a list list \<Rightarrow> bool" where
  "takes [] xss xss' \<longleftrightarrow> xss' = xss"
| "takes (y # ys) xss xss' \<longleftrightarrow> (\<exists>k\<in>{..<length xss}. xss ! k \<noteq> [] \<and> hd (xss ! k) = y \<and> takes ys (xss[k := tl (xss ! k)]) xss')"

lemma takes_Cons [simp]: "takes (y # ys) xss xss' \<longleftrightarrow> (\<exists>k zs. k < length xss \<and> xss ! k = y # zs \<and> takes ys (xss[k := zs]) xss')"
  by (auto simp: neq_Nil_conv) force

declare takes.simps(2) [simp del]

abbreviation total_size :: "'a list list \<Rightarrow> nat" where
  "total_size xss \<equiv> sum_list (map length xss)"

lemma takes_append: "takes ys xss u \<Longrightarrow> takes zs u v \<Longrightarrow> takes (ys @ zs) xss v"
  by (induction ys arbitrary: xss) auto

lemma takes_length: "takes ys xss xss' \<Longrightarrow> length xss' = length xss"
  by (induction ys arbitrary: xss) auto

lemma total_size_update: "k < length xss \<Longrightarrow> total_size (xss[k := ys]) + length (xss ! k) = total_size xss + length ys"
  by (induction xss arbitrary: k) (auto simp: nth_Cons split: nat.splits)

lemma takes_total: "takes ys xss xss' \<Longrightarrow> total_size xss' + length ys = total_size xss"
proof (induction ys arbitrary: xss)
  case (Cons y ys)
  then obtain k zs where k: "k < length xss" "xss ! k = y # zs" "takes ys (xss[k := zs]) xss'" by auto
  show ?case using Cons.IH[OF k(3)] total_size_update[OF k(1), of zs] k(2) by simp
qed simp

lemma takes_nonempty: "takes (x # ys) xss xss' \<Longrightarrow> total_size xss \<noteq> 0"
proof (drule takes_total)
  assume "total_size xss' + length (x # ys) = total_size xss"
  then show ?thesis by (simp only: list.size)
qed

lemma takes_prefix: "k < length xss \<Longrightarrow> takes (take m (xss ! k)) xss (xss[k := drop m (xss ! k)])"
proof (induction m arbitrary: xss)
  case (Suc m)
  show ?case
  proof (cases "xss ! k")
    case (Cons y zs)
    then show ?thesis using Suc.IH[of "xss[k := zs]"] Suc.prems by (auto intro!: exI[of _ k] exI[of _ zs])
  qed (use Suc.prems in \<open>simp add: list_update_same_conv\<close>)
qed simp

lemma takes_front:
  assumes "k < length xss" "xss ! k = x # xs"
  shows "takes [x] xss (xss[k := xs])"
  using assms by auto

lemma total_size_zero: "total_size xss = 0 \<longleftrightarrow> (\<forall>k<length xss. xss ! k = [])"
  by (simp add: all_set_conv_all_nth)

text \<open>Going round the list of producers.\<close>

lemma next_or_tail_less: "k < n \<Longrightarrow> next_or_tail n k < n"
  by (auto simp: next_or_tail_def next_prod_def)

lemma next_or_tail_mod: "k < n \<Longrightarrow> (next_or_tail n k + 1) mod n = k"
  by (auto simp: next_or_tail_def next_prod_def)

lemma advance_less: "k < n \<Longrightarrow> advance n m k < n"
  by (induction m) (auto simp: next_or_tail_less)

lemma advance_mod: "k < n \<Longrightarrow> (advance n m k + m) mod n = k"
proof (induction m)
  case (Suc m)
  have "(advance n (Suc m) k + Suc m) mod n = ((next_or_tail n (advance n m k) + 1) mod n + m) mod n"
    by (simp add: mod_simps)
  then show ?case using next_or_tail_mod[OF advance_less[OF Suc.prems], of m] Suc by simp
qed simp

lemma advance_round:
  assumes "k < n" "j \<le> n" "0 < j"
  shows "advance n j k = k \<longleftrightarrow> j = n"
proof
  assume "advance n j k = k"
  then have "(k + j) mod n = k mod n" using advance_mod[OF assms(1), of j] assms(1) by simp
  then have "j mod n = 0" by (metis add.commute add_cancel_right_right mod_add_cancel mod_0 mod_add_left_eq add_0)
  then show "j = n" using assms(2,3) by (cases "j = n") auto
next
  assume "j = n"
  then show "advance n j k = k" using advance_mod[OF assms(1), of n] advance_less[OF assms(1), of n] by simp
qed

lemma advance_once: "advance n 1 k = next_or_tail n k"
  by simp

lemma advance_all:
  assumes "k < n" "i < n"
  shows "\<exists>j<n. advance n j k = i"
proof (cases "i \<le> k")
  case True
  have "(advance n (k - i) k + (k - i)) mod n = (i + (k - i)) mod n"
    using advance_mod[OF assms(1), of "k - i"] True assms(1) by (metis le_add_diff_inverse mod_less)
  then have "advance n (k - i) k mod n = i mod n" by (rule mod_add_cancel)
  then show ?thesis using advance_less[OF assms(1)] assms by (intro exI[of _ "k - i"]) auto
next
  case False
  let ?j = "k + n - i"
  have "i + ?j = k + n" using assms(2) by simp
  then have "(advance n ?j k + ?j) mod n = (i + ?j) mod n" using advance_mod[OF assms(1), of ?j] assms(1) by simp
  then have "advance n ?j k mod n = i mod n" by (rule mod_add_cancel)
  then show ?thesis using advance_less[OF assms(1)] assms False by (intro exI[of _ ?j]) auto
qed

definition consumer_token_ok :: "nat \<Rightarrow> consumer_token \<Rightarrow> bool" where
  "consumer_token_ok n t \<longleftrightarrow> (desiredProducer t = None \<longleftrightarrow> currentProducer t = None) \<and>
     set_option (currentProducer t) \<subseteq> {..<n} \<and> set_option (desiredProducer t) \<subseteq> {..<n}"

lemma find_position_ok:
  assumes "consumer_token_ok (length (sub_queues q)) t" "length (sub_queues q) < 2 ^ 32"
  shows "\<exists>ok t'. find_position q t = Some (ok, t') \<and>
    (if ok then \<exists>k<length (sub_queues q). currentProducer t' = Some k \<and> consumer_token_ok (length (sub_queues q)) t'
     else length (sub_queues q) = 0 \<and> t' = t)"
proof (cases "desiredProducer t = None \<or> lastKnownGlobalOffset t \<noteq> globalExplicitConsumerOffset q")
  case True
  let ?n = "length (sub_queues q)"
  have u: "find_position q t = update_current_producer_after_rotation q t" using True by (simp add: find_position_def)
  show ?thesis
  proof (cases "?n = 0")
    case empty: True
    then have "desiredProducer t = None" "producerListTail (sub_queues q) = None"
      using assms(1) by (auto simp: consumer_token_ok_def producerListTail_def)
    then have "find_position q t = Some (False, t)" using u by (simp add: update_current_producer_after_rotation_def)
    then show ?thesis using empty by auto
  next
    case False
    then have tl: "producerListTail (sub_queues q) = Some (?n - 1)" by (auto simp: producerListTail_def)
    have c: "(of_nat ?n :: 32 word) \<noteq> 0" using False assms(2) by (simp add: word_unat_eq_iff unat_of_nat take_bit_eq_mod)
    have "\<exists>d<?n. update_current_producer_after_rotation q t = Some (True, t \<lparr> desiredProducer := Some d,
        lastKnownGlobalOffset := globalExplicitConsumerOffset q, currentProducer := Some d, itemsConsumedFromCurrent := 0 \<rparr>)"
    proof -
      let ?c = "of_nat ?n :: 32 word" and ?g = "globalExplicitConsumerOffset q - lastKnownGlobalOffset t"
      define k where "k = (case desiredProducer t of None \<Rightarrow> advance ?n (unat (?c - 1 - (initialOffset t mod ?c))) (?n - 1) | Some k \<Rightarrow> k)"
      define m where "m = unat (if ?g \<ge> ?c then ?g mod ?c else ?g)"
      have "k < ?n" using assms(1) False by (auto simp: k_def consumer_token_ok_def intro!: advance_less split: option.splits)
      then have "advance ?n m k < ?n" by (rule advance_less)
      moreover have "update_current_producer_after_rotation q t = Some (True, t \<lparr> desiredProducer := Some (advance ?n m k),
          lastKnownGlobalOffset := globalExplicitConsumerOffset q, currentProducer := Some (advance ?n m k), itemsConsumedFromCurrent := 0 \<rparr>)"
        unfolding update_current_producer_after_rotation_def Let_def k_def m_def using c tl by (simp split: option.split)
      ultimately show ?thesis by blast
    qed
    then obtain d where "d < ?n" "find_position q t = Some (True, t \<lparr> desiredProducer := Some d,
        lastKnownGlobalOffset := globalExplicitConsumerOffset q, currentProducer := Some d, itemsConsumedFromCurrent := 0 \<rparr>)"
      unfolding u by blast
    then show ?thesis by (intro exI conjI) (assumption, simp add: consumer_token_ok_def)
  qed
next
  case False
  then show ?thesis using assms by (auto simp: find_position_def consumer_token_ok_def)
qed

locale sub_queue =
  fixes deq :: "'p \<Rightarrow> ('a option \<times> 'p) option"
    and approx :: "'p \<Rightarrow> size_t"
    and contains :: "'p \<Rightarrow> 'a list \<Rightarrow> bool"
  assumes deq_empty: "contains p [] \<Longrightarrow> \<exists>p'. deq p = Some (None, p') \<and> contains p' []"
    and deq_front: "contains p (x # xs) \<Longrightarrow> \<exists>p'. deq p = Some (Some x, p') \<and> contains p' xs"
    and approx_length: "contains p xs \<Longrightarrow> unat (approx p) = length xs"
begin

abbreviation contain :: "'p list \<Rightarrow> 'a list list \<Rightarrow> bool" where
  "contain qs xss \<equiv> list_all2 contains qs xss"

text \<open>What a dequeue operation of the queue owes its caller: an element if there is any, and nothing else changes.\<close>

definition gives :: "('a option \<times> 'p list) option \<Rightarrow> 'a list list \<Rightarrow> bool" where
  "gives res xss \<longleftrightarrow> (\<exists>r qs' xss'. res = Some (r, qs') \<and> contain qs' xss' \<and> takes (case r of None \<Rightarrow> [] | Some x \<Rightarrow> [x]) xss xss' \<and>
     (r = None \<longleftrightarrow> total_size xss = 0))"

lemma take_from_empty:
  assumes "contain qs xss" "k < length xss" "xss ! k = []"
  shows "\<exists>qs'. take_from deq k qs = Some (None, qs') \<and> contain qs' xss"
proof -
  have "contains (qs ! k) []" using assms by (metis list_all2_nthD2)
  then obtain p' where "deq (qs ! k) = Some (None, p')" "contains p' []" using deq_empty by blast
  moreover have "contain (qs[k := p']) (xss[k := []])" using assms(1) calculation(2) by (rule list_all2_update_cong)
  ultimately show ?thesis using assms(3) by (metis list_update_id take_from_def bind.bind_lunit case_prod_conv)
qed

lemma take_from_front:
  assumes "contain qs xss" "k < length xss" "xss ! k = x # xs"
  shows "\<exists>qs'. take_from deq k qs = Some (Some x, qs') \<and> contain qs' (xss[k := xs])"
proof -
  have "contains (qs ! k) (x # xs)" using assms by (metis list_all2_nthD2)
  then obtain p' where "deq (qs ! k) = Some (Some x, p')" "contains p' xs" using deq_front by blast
  then show ?thesis using list_all2_update_cong[OF assms(1), of p' xs k] by (simp add: take_from_def)
qed

lemma try_each_gives:
  assumes "contain qs xss" "set ks \<subseteq> {..<length xss}" "\<forall>k<length xss. k \<notin> set ks \<longrightarrow> xss ! k = []"
  shows "gives (try_each deq ks qs) xss"
  using assms
proof (induction ks arbitrary: qs)
  case Nil
  then show ?case by (auto simp: gives_def all_set_conv_all_nth)
next
  case (Cons k ks)
  have k: "k < length xss" using Cons.prems(2) by simp
  show ?case
  proof (cases "xss ! k")
    case Nil
    then obtain qs' where qs': "take_from deq k qs = Some (None, qs')" "contain qs' xss"
      using take_from_empty[OF Cons.prems(1) k] by blast
    have "gives (try_each deq ks qs') xss" using Cons.prems Nil by (intro Cons.IH[OF qs'(2)]) auto
    then show ?thesis using qs'(1) by simp
  next
    case (Cons x xs)
    then obtain qs' where "take_from deq k qs = Some (Some x, qs')" "contain qs' (xss[k := xs])"
      using take_from_front[OF Cons.prems(1) k] by blast
    moreover have "\<not> (\<forall>k<length xss. xss ! k = [])" using k Cons by auto
    then have "total_size xss \<noteq> 0" by (simp only: total_size_zero not_False_eq_True)
    ultimately show ?thesis using takes_front[OF k Cons] by (auto simp: gives_def simp del: takes_Cons)
  qed
qed

lemma score_finds:
  assumes "contain qs xss" "set ks \<subseteq> {..<length xss}" "score_producers approx qs ks c b bs = (c', b')"
    and "0 < c \<longrightarrow> (\<exists>k<length xss. b = Some k \<and> xss ! k \<noteq> [])" "c = 0 \<longrightarrow> bs = 0"
  shows "c \<le> c' \<and> (0 < c' \<longrightarrow> (\<exists>k<length xss. b' = Some k \<and> xss ! k \<noteq> [])) \<and> (c' = 0 \<longrightarrow> (\<forall>k\<in>set ks. xss ! k = []))"
  using assms
proof (induction ks arbitrary: c b bs)
  case (Cons k ks)
  have k: "k < length xss" using Cons.prems(2) by simp
  have "contains (qs ! k) (xss ! k)" using Cons.prems(1) k by (metis list_all2_nthD2)
  then have "unat (approx (qs ! k)) = length (xss ! k)" by (rule approx_length)
  then have e: "approx (qs ! k) > 0 \<longleftrightarrow> xss ! k \<noteq> []" by (metis length_0_conv unat_eq_zero word_gt_0)
  have ks: "set ks \<subseteq> {..<length xss}" using Cons.prems(2) by simp
  show ?case
  proof (cases "c < 3 \<and> approx (qs ! k) > 0")
    case True
    let ?b = "if approx (qs ! k) > bs then Some k else b" and ?bs = "if approx (qs ! k) > bs then approx (qs ! k) else bs"
    have sc: "score_producers approx qs ks (c + 1) ?b ?bs = (c', b')" using Cons.prems(3) True by (simp add: Let_def split: if_splits)
    have ex: "\<exists>i<length xss. ?b = Some i \<and> xss ! i \<noteq> []"
    proof (cases "approx (qs ! k) > bs")
      case False
      then have "0 < c" using Cons.prems(5) True by auto
      then show ?thesis using Cons.prems(4) False by simp
    next
      case larger: True
      have "xss ! k \<noteq> []" using e True by blast
      then show ?thesis using larger k by (intro exI[of _ k]) simp
    qed
    have z: "c + 1 = 0 \<longrightarrow> ?bs = 0" by simp
    from Cons.IH[OF Cons.prems(1) ks sc impI[OF ex] z] show ?thesis by auto
  next
    case False
    then have n: "score_producers approx qs ks c b bs = (c', b') \<or> 3 \<le> c \<and> c' = c \<and> b' = b"
      using Cons.prems(3) by (auto simp: Let_def split: if_splits)
    show ?thesis
    proof (cases "3 \<le> c")
      case True
      then have "c' = c \<and> b' = b" using Cons.prems(3) by simp
      then show ?thesis using Cons.prems(4) True by auto
    next
      case c: False
      then have sc: "score_producers approx qs ks c b bs = (c', b')" using n by blast
      have "xss ! k = []" using c False e by (metis not_le_imp_less)
      then show ?thesis using Cons.IH[OF Cons.prems(1) ks sc Cons.prems(4,5)] by simp
    qed
  qed
qed auto

lemma givesD:
  assumes "contain qs xss" "k < length xss" "xss ! k = x # xs" "take_from deq k qs = Some (Some x, qs')" "contain qs' (xss[k := xs])"
  shows "gives (Some (Some x, qs')) xss"
proof -
  have "total_size xss \<noteq> 0" unfolding total_size_zero using assms(2,3) by auto
  then show ?thesis using assms(5) takes_front[OF assms(2,3)] by (auto simp: gives_def simp del: takes_Cons)
qed

lemma try_dequeue_gives:
  assumes "contain qs xss"
  shows "gives (try_dequeue approx deq qs) xss"
proof -
  have n: "length qs = length xss" using assms by (rule list_all2_lengthD)
  obtain c b where s: "score_producers approx qs (from_tail (length qs)) 0 None 0 = (c, b)" by fastforce
  have f: "set (from_tail (length qs)) \<subseteq> {..<length xss}" using n by (auto simp: from_tail_def)
  note sc = score_finds[OF assms f s]
  show ?thesis
  proof (cases "c = 0")
    case True
    then have "\<forall>k<length xss. xss ! k = []" using sc n by (auto simp: from_tail_def)
    then have "total_size xss = 0" unfolding total_size_zero .
    then show ?thesis using s True assms by (auto simp: try_dequeue_def gives_def)
  next
    case False
    then obtain k where k: "k < length xss" "b = Some k" "xss ! k \<noteq> []" using sc by auto
    then obtain x xs where x: "xss ! k = x # xs" by (cases "xss ! k") auto
    obtain qs' where "take_from deq k qs = Some (Some x, qs')" "contain qs' (xss[k := xs])" using take_from_front[OF assms k(1) x] by blast
    then show ?thesis using givesD[OF assms k(1) x] s False k(2) by (simp add: try_dequeue_def)
  qed
qed

lemma try_dequeue_non_interleaved_gives: "contain qs xss \<Longrightarrow> gives (try_dequeue_non_interleaved deq qs) xss"
  unfolding try_dequeue_non_interleaved_def
  using try_each_gives[of qs xss "from_tail (length qs)"] by (auto simp: from_tail_def list_all2_lengthD subset_eq)

lemma queue_size_approx_total:
  assumes "contain qs xss"
  shows "queue_size_approx approx qs = of_nat (total_size xss)"
proof -
  have a: "approx (qs ! k) = of_nat (length (xss ! k))" if "k < length xss" for k
  proof -
    have "unat (approx (qs ! k)) = length (xss ! k)" using assms that by (metis approx_length list_all2_nthD2)
    then have "of_nat (unat (approx (qs ! k))) = (of_nat (length (xss ! k)) :: size_t)" by simp
    then show ?thesis by simp
  qed
  have "fold (\<lambda>k size. size + approx (qs ! k)) ks z = z + of_nat (sum_list (map (\<lambda>k. length (xss ! k)) ks))"
    if "set ks \<subseteq> {..<length xss}" for ks z
    using that by (induction ks arbitrary: z) (auto simp: a add.assoc)
  then have "queue_size_approx approx qs = of_nat (sum_list (map (\<lambda>k. length (xss ! k)) (from_tail (length qs))))"
    using list_all2_lengthD[OF assms] by (simp add: queue_size_approx_def from_tail_def subset_eq)
  also have "sum_list (map (\<lambda>k. length (xss ! k)) (from_tail (length qs))) = total_size xss"
  proof -
    have "sum_list (map (\<lambda>k. length (xss ! k)) (from_tail (length qs))) = sum_list (map (\<lambda>k. length (xss ! k)) [0..<length xss])"
      using list_all2_lengthD[OF assms] by (simp add: from_tail_def flip: rev_map)
    also have "map (\<lambda>k. length (xss ! k)) [0..<length xss] = map length xss" by (rule nth_equalityI) auto
    finally show ?thesis .
  qed
  finally show ?thesis .
qed

lemma token_round_gives:
  assumes "contain qs xss" "cur < length xss" "0 < j" "j \<le> length xss"
    and "\<forall>i<j. xss ! advance (length xss) i cur = []" "length xss - j < fuel"
  shows "\<exists>r qs' xss'. token_round fuel deq cur (advance (length xss) j cur) qs = Some (r, qs') \<and> contain qs' xss' \<and>
    (case r of None \<Rightarrow> total_size xss = 0 \<and> xss' = xss | Some (ptr, x) \<Rightarrow> ptr < length xss \<and> takes [x] xss xss')"
  using assms
proof (induction fuel arbitrary: qs j)
  case (Suc fuel)
  let ?n = "length xss" and ?ptr = "advance (length xss) j cur"
  have n: "length qs = ?n" using Suc.prems(1) by (rule list_all2_lengthD)
  note rnd = advance_round[OF Suc.prems(2,4,3)]
  show ?case
  proof (cases "j = ?n")
    case True
    have "xss ! k = []" if k: "k < ?n" for k
      using advance_all[OF Suc.prems(2) k] Suc.prems(5) True by auto
    then have "total_size xss = 0" by (simp only: total_size_zero) blast
    moreover have "?ptr = cur" using rnd True by simp
    ultimately show ?thesis using Suc.prems(1) by auto
  next
    case False
    then have ne: "?ptr \<noteq> cur" using rnd by simp
    have k: "?ptr < ?n" by (rule advance_less[OF Suc.prems(2)])
    show ?thesis
    proof (cases "xss ! ?ptr")
      case Nil
      then obtain qs' where qs': "take_from deq ?ptr qs = Some (None, qs')" "contain qs' xss"
        using take_from_empty[OF Suc.prems(1) k] by blast
      have "\<forall>i<Suc j. xss ! advance ?n i cur = []" using Suc.prems(5) Nil by (auto simp: less_Suc_eq)
      then show ?thesis
        using Suc.IH[OF qs'(2) Suc.prems(2), of "Suc j"] Suc.prems(4,6) False ne qs'(1) list_all2_lengthD[OF qs'(2)] by auto
    next
      case (Cons x xs)
      then obtain qs' where "take_from deq ?ptr qs = Some (Some x, qs')" "contain qs' (xss[?ptr := xs])"
        using take_from_front[OF Suc.prems(1) k] by blast
      then show ?thesis using ne k takes_front[OF k Cons] by (auto simp del: takes_Cons)
    qed
  qed
qed simp

lemma try_dequeue_token_gives:
  assumes "contain (sub_queues q) xss" "consumer_token_ok (length xss) t" "length xss < 2 ^ 32"
  shows "\<exists>r t' q' xss'. try_dequeue_token deq quota t q = Some (r, t', q') \<and> contain (sub_queues q') xss' \<and>
    consumer_token_ok (length xss) t' \<and> takes (case r of None \<Rightarrow> [] | Some x \<Rightarrow> [x]) xss xss' \<and> (r = None \<longleftrightarrow> total_size xss = 0)"
proof -
  let ?n = "length xss"
  have n: "length (sub_queues q) = ?n" using assms(1) by (rule list_all2_lengthD)
  obtain ok t1 where f: "find_position q t = Some (ok, t1)"
    and fp: "if ok then \<exists>k<?n. currentProducer t1 = Some k \<and> consumer_token_ok ?n t1 else ?n = 0 \<and> t1 = t"
    using find_position_ok[of q t, unfolded n] assms(2,3) by blast
  show ?thesis
  proof (cases ok)
    case False
    then have "xss = []" "t1 = t" using fp by simp_all
    then show ?thesis using assms f False by (simp add: try_dequeue_token_def)
  next
    case True
    then obtain cur where cur: "cur < ?n" "currentProducer t1 = Some cur" and t1: "consumer_token_ok ?n t1" using fp by auto
    show ?thesis
    proof (cases "xss ! cur")
      case (Cons x xs)
      then obtain qs' where qs': "take_from deq cur (sub_queues q) = Some (Some x, qs')" "contain qs' (xss[cur := xs])"
        using take_from_front[OF assms(1) cur(1)] by blast
      have "total_size xss \<noteq> 0" unfolding total_size_zero using cur(1) Cons by auto
      then show ?thesis
        using f True cur(2) qs' t1 takes_front[OF cur(1) Cons]
        by (auto simp: try_dequeue_token_def Let_def consumer_token_ok_def simp del: takes_Cons)
    next
      case Nil
      then obtain qs' where qs': "take_from deq cur (sub_queues q) = Some (None, qs')" "contain qs' xss"
        using take_from_empty[OF assms(1) cur(1)] by blast
      obtain r qs2 xss' where r: "token_round (?n + 1) deq cur (next_or_tail ?n cur) qs' = Some (r, qs2)" "contain qs2 xss'"
          "case r of None \<Rightarrow> total_size xss = 0 \<and> xss' = xss | Some (ptr, x) \<Rightarrow> ptr < ?n \<and> takes [x] xss xss'"
        using token_round_gives[OF qs'(2) cur(1), of 1 "?n + 1"] cur(1) Nil unfolding advance_once by fastforce
      show ?thesis
      proof (cases r)
        case None
        then show ?thesis using f True cur(2) qs'(1) r t1 by (simp add: try_dequeue_token_def Let_def n)
      next
        case (Some px)
        obtain ptr x where px: "px = (ptr, x)" by fastforce
        have "takes [x] xss xss'" using r(3) Some px by (simp del: takes_Cons)
        then have "total_size xss \<noteq> 0" by (rule takes_nonempty)
        then show ?thesis using f True cur(2) qs'(1) r t1 Some px
          by (auto simp: try_dequeue_token_def Let_def n consumer_token_ok_def simp del: takes_Cons token_round.simps sum_list_eq_0_iff)
      qed
    qed
  qed
qed

end

text \<open>And what the bulk operations rely on.\<close>

locale bulk_sub_queue = sub_queue deq approx contains
  for deq :: "'p \<Rightarrow> ('a option \<times> 'p) option" and approx :: "'p \<Rightarrow> size_t" and contains :: "'p \<Rightarrow> 'a list \<Rightarrow> bool" +
  fixes bulk :: "size_t \<Rightarrow> 'p \<Rightarrow> ('a list \<times> 'p) option"
  assumes bulk_front: "contains p xs \<Longrightarrow> \<exists>p'. bulk m p = Some (take (unat m) xs, p') \<and> contains p' (drop (unat m) xs)"
begin

text \<open>As many elements as are asked for and there.\<close>

definition gives_many :: "nat \<Rightarrow> 'a list \<Rightarrow> 'a list list \<Rightarrow> 'a list list \<Rightarrow> bool" where
  "gives_many m ys xss xss' \<longleftrightarrow> takes ys xss xss' \<and> length ys = min m (total_size xss)"

lemma take_from_bulk:
  assumes "contain qs xss" "k < length xss"
  shows "\<exists>qs'. take_from (bulk m) k qs = Some (take (unat m) (xss ! k), qs') \<and> contain qs' (xss[k := drop (unat m) (xss ! k)]) \<and>
    takes (take (unat m) (xss ! k)) xss (xss[k := drop (unat m) (xss ! k)])"
proof -
  have "contains (qs ! k) (xss ! k)" using assms by (metis list_all2_nthD2)
  then obtain p' where "bulk m (qs ! k) = Some (take (unat m) (xss ! k), p')" "contains p' (drop (unat m) (xss ! k))"
    using bulk_front by blast
  then show ?thesis using list_all2_update_cong[OF assms(1), of p' _ k] takes_prefix[OF assms(2)] by (simp add: take_from_def)
qed

lemma gives_many_nothing: "total_size xss = 0 \<Longrightarrow> gives_many m [] xss xss"
  by (simp add: gives_many_def del: sum_list_eq_0_iff)

text \<open>Either the call has got what it asked for, or the sub-queue is empty now.\<close>

lemma bulk_chunk:
  assumes "k < length xss" "xs = take (unat (w :: size_t)) (xss ! k)"
  shows "of_nat (length xs) = w \<Longrightarrow> gives_many (unat w) xs xss (xss[k := drop (unat w) (xss ! k)])"
    and "of_nat (length xs) \<noteq> w \<Longrightarrow> xs = xss ! k \<and> drop (unat w) (xss ! k) = [] \<and> unat (w - of_nat (length xs)) = unat w - length xs \<and> length xs \<le> unat w"
proof -
  have "length xs < 2 ^ 64" using assms(2) unat_lt_64[of w] by simp
  then have u: "unat (of_nat (length xs) :: size_t) = length xs" by (rule unat_of_nat_small)
  then have iff: "of_nat (length xs) = w \<longleftrightarrow> length xs = unat w" by (metis word_unat_eq_iff)
  have t: "takes xs xss (xss[k := drop (unat w) (xss ! k)])" using takes_prefix[OF assms(1)] assms(2) by simp
  show "of_nat (length xs) = w \<Longrightarrow> gives_many (unat w) xs xss (xss[k := drop (unat w) (xss ! k)])"
    using iff t takes_total[OF t] by (auto simp: gives_many_def)
  assume "of_nat (length xs) \<noteq> w"
  then have l: "length (xss ! k) < unat w" using iff assms(2) by (auto simp: min_def split: if_splits)
  then show "xs = xss ! k \<and> drop (unat w) (xss ! k) = [] \<and> unat (w - of_nat (length xs)) = unat w - length xs \<and> length xs \<le> unat w"
    using assms(2) u unat_minus_small[of "of_nat (length xs)" w] by simp
qed

lemma gives_many_append:
  assumes "takes xs xss xss1" "gives_many (m - length xs) ys xss1 xss'" "length xs \<le> m"
  shows "gives_many m (xs @ ys) xss xss'"
  using assms takes_append[OF assms(1)] takes_total[OF assms(1)] by (auto simp: gives_many_def)

lemma bulk_each_gives:
  assumes "contain qs xss" "set ks \<subseteq> {..<length xss}" "\<forall>k<length xss. k \<notin> set ks \<longrightarrow> xss ! k = []"
  shows "\<exists>ys qs' xss'. bulk_each bulk ks most got qs = Some (ys, qs') \<and> contain qs' xss' \<and> gives_many (unat (most - got)) ys xss xss'"
  using assms
proof (induction ks arbitrary: qs xss got)
  case Nil
  then have "total_size xss = 0" unfolding total_size_zero by simp
  then show ?case using Nil gives_many_nothing by auto
next
  case (Cons k ks)
  have k: "k < length xss" using Cons.prems(2) by simp
  let ?w = "most - got"
  define xs where "xs = take (unat ?w) (xss ! k)"
  let ?xss = "xss[k := drop (unat ?w) (xss ! k)]"
  obtain qs1 where q: "take_from (bulk ?w) k qs = Some (xs, qs1)" "contain qs1 ?xss" "takes xs xss ?xss"
    using take_from_bulk[OF Cons.prems(1) k, of ?w] unfolding xs_def by blast
  note ch = bulk_chunk[OF k xs_def]
  have e: "got + of_nat (length xs) = most \<longleftrightarrow> of_nat (length xs) = ?w" by (auto simp: algebra_simps)
  show ?case
  proof (cases "of_nat (length xs) = ?w")
    case True
    then show ?thesis using q ch(1) e by auto
  next
    case False
    have "?xss ! i = []" if "i < length xss" "i \<notin> set ks" for i
      using that Cons.prems(3) ch(2)[OF False] k by (cases "i = k") simp_all
    then have "\<forall>i<length ?xss. i \<notin> set ks \<longrightarrow> ?xss ! i = []" by simp
    then obtain ys qs' xss' where r: "bulk_each bulk ks most (got + of_nat (length xs)) qs1 = Some (ys, qs')" "contain qs' xss'"
        "gives_many (unat (most - (got + of_nat (length xs)))) ys ?xss xss'"
      using Cons.IH[OF q(2), of "got + of_nat (length xs)"] Cons.prems(2) by auto
    have "most - (got + of_nat (length xs)) = ?w - of_nat (length xs)" by simp
    then have "gives_many (unat ?w) (xs @ ys) xss xss'"
      using gives_many_append[OF q(3), of "unat ?w" ys xss'] r(3) conjunct2[OF conjunct2[OF ch(2)[OF False]]] by metis
    then show ?thesis using q(1) r e False by auto
  qed
qed

lemma try_dequeue_bulk_gives:
  assumes "contain qs xss"
  shows "\<exists>ys qs' xss'. try_dequeue_bulk bulk most qs = Some (ys, qs') \<and> contain qs' xss' \<and> gives_many (unat most) ys xss xss'"
  using bulk_each_gives[OF assms, of "from_tail (length qs)" most 0] list_all2_lengthD[OF assms]
  unfolding try_dequeue_bulk_def by (auto simp: from_tail_def subset_eq)

lemma bulk_round_gives:
  assumes "contain qs xss" "currentProducer t = Some cur" "consumer_token_ok (length xss) t" "0 < j" "j \<le> length xss"
    and "\<forall>i<j. xss ! advance (length xss) i cur = []"
    and "number (\<lambda>xs. xs \<noteq> []) xss * Suc (length xss) + (length xss - j) < fuel"
  shows "\<exists>ys t' qs' xss'. bulk_round fuel bulk (advance (length xss) j cur) most t qs = Some (ys, t', qs') \<and> contain qs' xss' \<and>
    consumer_token_ok (length xss) t' \<and> gives_many (unat most) ys xss xss'"
  using assms
proof (induction fuel arbitrary: qs xss t cur j most)
  case (Suc fuel)
  let ?n = "length xss" and ?ptr = "advance (length xss) j cur"
  have cur: "cur < ?n" using Suc.prems(2,3) by (simp add: consumer_token_ok_def)
  note rnd = advance_round[OF cur Suc.prems(5,4)]
  show ?case
  proof (cases "j = ?n")
    case True
    have "xss ! k = []" if k: "k < ?n" for k
      using advance_all[OF cur k] Suc.prems(6) True by auto
    then have "total_size xss = 0" by (simp only: total_size_zero) blast
    moreover have "?ptr = cur" using rnd True by simp
    ultimately show ?thesis using Suc.prems(1-3) gives_many_nothing by auto
  next
    case False
    then have ne: "?ptr \<noteq> cur" using rnd by simp
    have k: "?ptr < ?n" by (rule advance_less[OF cur])
    define xs where "xs = take (unat most) (xss ! ?ptr)"
    let ?xss = "xss[?ptr := drop (unat most) (xss ! ?ptr)]"
    let ?t = "if xs \<noteq> [] then t \<lparr> currentProducer := Some ?ptr, itemsConsumedFromCurrent := of_nat (length xs) \<rparr> else t"
    obtain qs1 where q: "take_from (bulk most) ?ptr qs = Some (xs, qs1)" "contain qs1 ?xss" "takes xs xss ?xss"
      using take_from_bulk[OF Suc.prems(1) k, of most] unfolding xs_def by blast
    note ch = bulk_chunk[OF k xs_def]
    have tok: "consumer_token_ok ?n ?t" using Suc.prems(2,3) k by (auto simp: consumer_token_ok_def)
    have n1: "length qs1 = ?n" using list_all2_lengthD[OF q(2)] by simp
    show ?thesis
    proof (cases "of_nat (length xs) = most")
      case True
      then show ?thesis using q ch(1) ne tok Suc.prems(2) by (auto simp: Let_def)
    next
      case rest: False
      have emptied: "xs = xss ! ?ptr" "?xss = xss[?ptr := []]" using ch(2)[OF rest] by auto
      define cur' j' where "cur' = (if xs \<noteq> [] then ?ptr else cur)" and "j' = (if xs \<noteq> [] then 1 else Suc j)"
      have c': "currentProducer ?t = Some cur'" using Suc.prems(2) by (simp add: cur'_def)
      have j': "0 < j'" "j' \<le> ?n" using False Suc.prems(5) cur by (auto simp: j'_def)
      have ptr': "next_or_tail ?n ?ptr = advance ?n j' cur'" by (simp add: cur'_def j'_def)
      have em: "\<forall>i<j'. ?xss ! advance ?n i cur' = []"
        using Suc.prems(6) emptied k by (auto simp: cur'_def j'_def less_Suc_eq nth_list_update)
      have fuel: "number (\<lambda>xs. xs \<noteq> []) ?xss * Suc ?n + (?n - j') < fuel"
      proof (cases "xs = []")
        case True
        then have "?xss = xss" using emptied by (metis list_update_id)
        then show ?thesis using Suc.prems(5,7) True False by (simp add: j'_def)
      next
        case False
        then have "Suc (number (\<lambda>xs. xs \<noteq> []) ?xss) = number (\<lambda>xs. xs \<noteq> []) xss"
          using number_move_out[OF k, of "\<lambda>xs. xs \<noteq> []" "[]"] emptied by simp
        then have "number (\<lambda>xs. xs \<noteq> []) ?xss * Suc ?n + Suc ?n = number (\<lambda>xs. xs \<noteq> []) xss * Suc ?n" by (metis mult_Suc add.commute)
        then show ?thesis using Suc.prems(7) False by (simp add: j'_def)
      qed
      obtain ys t' qs' xss' where r:
          "bulk_round fuel bulk (next_or_tail ?n ?ptr) (most - of_nat (length xs)) ?t qs1 = Some (ys, t', qs')"
          "contain qs' xss'" "consumer_token_ok ?n t'" "gives_many (unat (most - of_nat (length xs))) ys ?xss xss'"
        using Suc.IH[OF q(2) c', of j' "most - of_nat (length xs)"] tok j' em fuel unfolding ptr' by auto
      have "gives_many (unat most) (xs @ ys) xss xss'"
        using gives_many_append[OF q(3), of "unat most" ys xss'] r(4) conjunct2[OF conjunct2[OF ch(2)[OF rest]]] by metis
      moreover have "bulk_round (Suc fuel) bulk ?ptr most t qs = Some (xs @ ys, t', qs')"
        using Suc.prems(2) ne q(1) rest r(1) n1 by (simp add: Let_def del: advance.simps)
      ultimately show ?thesis using r(2,3) by blast
    qed
  qed
qed simp

text \<open>The fuel is enough: every round that finds elements empties a sub-queue for good.\<close>

lemma try_dequeue_bulk_token_gives:
  assumes "contain (sub_queues q) xss" "consumer_token_ok (length xss) t" "length xss < 2 ^ 32"
  shows "\<exists>ys t' q' xss'. try_dequeue_bulk_token bulk quota most t q = Some (ys, t', q') \<and> contain (sub_queues q') xss' \<and>
    consumer_token_ok (length xss) t' \<and> gives_many (unat most) ys xss xss'"
proof -
  let ?n = "length xss"
  have n: "length (sub_queues q) = ?n" using assms(1) by (rule list_all2_lengthD)
  obtain ok t1 where f: "find_position q t = Some (ok, t1)"
    and fp: "if ok then \<exists>k<?n. currentProducer t1 = Some k \<and> consumer_token_ok ?n t1 else ?n = 0 \<and> t1 = t"
    using find_position_ok[of q t, unfolded n] assms(2,3) by blast
  show ?thesis
  proof (cases ok)
    case False
    then have "xss = []" "t1 = t" using fp by simp_all
    then show ?thesis using assms f False gives_many_nothing[of xss] by (simp add: try_dequeue_bulk_token_def)
  next
    case True
    then obtain cur where cur: "cur < ?n" "currentProducer t1 = Some cur" and t1: "consumer_token_ok ?n t1" using fp by auto
    define xs where "xs = take (unat most) (xss ! cur)"
    let ?xss = "xss[cur := drop (unat most) (xss ! cur)]"
    obtain qs1 where qs1: "take_from (bulk most) cur (sub_queues q) = Some (xs, qs1)" "contain qs1 ?xss" "takes xs xss ?xss"
      using take_from_bulk[OF assms(1) cur(1), of most] unfolding xs_def by blast
    note ch = bulk_chunk[OF cur(1) xs_def]
    show ?thesis
    proof (cases "of_nat (length xs) = most")
      case full: True
      then show ?thesis using ch(1) f True cur(2) qs1 t1 by (auto simp: try_dequeue_bulk_token_def Let_def consumer_token_ok_def)
    next
      case rest: False
      let ?t = "t1 \<lparr> itemsConsumedFromCurrent := itemsConsumedFromCurrent t1 + of_nat (length xs) \<rparr>"
      have empty: "\<forall>i<1. ?xss ! advance ?n i cur = []" using ch(2)[OF rest] cur(1) by simp
      have "number (\<lambda>xs. xs \<noteq> []) ?xss * Suc ?n + (?n - 1) < Suc (Suc ?n * Suc ?n)"
        using mult_le_mono1[OF number_le[of "\<lambda>xs. xs \<noteq> []" ?xss], of "Suc ?n"] by simp
      then obtain ys t' qs' xss' where r: "bulk_round (Suc (Suc ?n * Suc ?n)) bulk (next_or_tail ?n cur) (most - of_nat (length xs)) ?t qs1 =
            Some (ys, t', qs')" "contain qs' xss'" "consumer_token_ok ?n t'" "gives_many (unat (most - of_nat (length xs))) ys ?xss xss'"
        using bulk_round_gives[OF qs1(2), of ?t cur 1 "Suc (Suc ?n * Suc ?n)" "most - of_nat (length xs)"] cur t1 empty
        unfolding advance_once by (auto simp: consumer_token_ok_def simp del: bulk_round.simps)
      have "gives_many (unat most) (xs @ ys) xss xss'"
        using gives_many_append[OF qs1(3), of "unat most" ys xss'] r(4) conjunct2[OF conjunct2[OF ch(2)[OF rest]]] by metis
      then show ?thesis using f True cur(2) qs1(1) rest r(1-3)
        by (simp add: try_dequeue_bulk_token_def Let_def n del: bulk_round.simps) blast
    qed
  qed
qed

end

end
