(* ===== verification/Cq_Implicit.thy ===== *)
theory Cq_Implicit
  imports Cq_Explicit
begin

text \<open>
  \<open>libs/concurrentqueue/concurrentqueue.h\<close>: \<open>ImplicitProducer\<close>, the sub-queue of a thread that enqueues without a token, with its
  index of blocks, as its operations run one at a time. A block leaves the sub-queue for the free list when its last element
  is dequeued. The entries of the index are objects that its successive versions share: a pointer to an entry is a position
  in \<open>index_entries\<close>. \<open>None\<close> is a failed assertion, a null pointer, an access out of bounds or the use of an element that is not
  constructed, as in \<open>Cq_Explicit\<close>.
\<close>

section \<open>The state of a producer\<close>

record implicit_entry =
  key :: index_t
  ie_value :: "nat option"

record implicit_header =
  capacity :: size_t
  ih_tail :: size_t
  index :: "nat list"

text \<open>The current block index comes first, the older ones it links to behind it.\<close>

record 'a implicit_producer = "'a producer" +
  nextBlockIndexCapacity :: size_t
  implicitIndex :: "implicit_header list"
  index_entries :: "implicit_entry list"

definition INVALID_BLOCK_BASE :: index_t where
  "INVALID_BLOCK_BASE = 1"

text \<open>The value of a new entry is not initialised; it is not read before it is set, since the key is invalid.\<close>

definition invalid_entry :: implicit_entry where
  "invalid_entry = \<lparr> key = INVALID_BLOCK_BASE, ie_value = None \<rparr>"

section \<open>The block index\<close>

text \<open>The do-while loop of \<open>new_block_index\<close>: from the position behind \<open>pos\<close> up to \<open>prevTail\<close>.\<close>

fun copy_index :: "nat \<Rightarrow> nat list \<Rightarrow> size_t \<Rightarrow> size_t \<Rightarrow> size_t \<Rightarrow> nat list option" where
  "copy_index 0 old m prevTail pos = None"
| "copy_index (Suc fuel) old m prevTail pos =
     do { let pos = (pos + 1) AND m;
          ensure (unat pos < length old);
          if pos = prevTail then Some [old ! unat pos]
          else do { new \<leftarrow> copy_index fuel old m prevTail pos; Some (old ! unat pos # new) } }"

definition implicit_new_block_index :: "'a implicit_producer \<Rightarrow> (bool \<times> 'a implicit_producer) option" where
  "implicit_new_block_index p =
     (let prevCapacity = (case implicitIndex p of [] \<Rightarrow> 0 | h # _ \<Rightarrow> capacity h);
          entryCount = (case implicitIndex p of [] \<Rightarrow> nextBlockIndexCapacity p | _ # _ \<Rightarrow> prevCapacity);
          allocated = (case index_allocs p of [] \<Rightarrow> False | a # _ \<Rightarrow> a);
          n = length (index_entries p) in
      if \<not> allocated then Some (False, p \<lparr> index_allocs := tl (index_allocs p) \<rparr>)
      else do {
        copied \<leftarrow> (case implicitIndex p of
                    [] \<Rightarrow> Some []
                  | h # _ \<Rightarrow> copy_index (unat (capacity h)) (index h) (capacity h - 1) (ih_tail h) (ih_tail h));
        ensure (length copied = unat prevCapacity);
        ensure (unat prevCapacity + unat entryCount \<le> unat (nextBlockIndexCapacity p));
        Some (True, p \<lparr> index_allocs := tl (index_allocs p),
                index_entries := index_entries p @ replicate (unat entryCount) invalid_entry,
                implicitIndex :=
                  \<lparr> capacity = nextBlockIndexCapacity p, ih_tail = (prevCapacity - 1) AND (nextBlockIndexCapacity p - 1),
                    index = copied @ [n..<n + unat entryCount] \<rparr> # implicitIndex p,
                nextBlockIndexCapacity := push_bit 1 (nextBlockIndexCapacity p) \<rparr>) })"

text \<open>The slot behind the tail and the entry in it; \<open>take_slot\<close> makes it the tail.\<close>

definition next_slot :: "'a implicit_producer \<Rightarrow> (size_t \<times> nat) option" where
  "next_slot p =
     (case implicitIndex p of
        [] \<Rightarrow> None
      | h # _ \<Rightarrow>
          do { let newTail = (ih_tail h + 1) AND (capacity h - 1);
               ensure (unat newTail < length (index h));
               ensure (index h ! unat newTail < length (index_entries p));
               Some (newTail, index h ! unat newTail) })"

definition set_entry :: "nat \<Rightarrow> implicit_entry \<Rightarrow> 'a implicit_producer \<Rightarrow> 'a implicit_producer" where
  "set_entry e x p = p \<lparr> index_entries := (index_entries p)[e := x] \<rparr>"

definition set_value :: "nat \<Rightarrow> nat option \<Rightarrow> 'a implicit_producer \<Rightarrow> 'a implicit_producer" where
  "set_value e v p = set_entry e (ie_value_update (\<lambda>_. v) (index_entries p ! e)) p"

definition set_index_tail :: "size_t \<Rightarrow> 'a implicit_producer \<Rightarrow> 'a implicit_producer" where
  "set_index_tail k p = (case implicitIndex p of [] \<Rightarrow> p | h # hs \<Rightarrow> p \<lparr> implicitIndex := h \<lparr> ih_tail := k \<rparr> # hs \<rparr>)"

definition take_slot :: "size_t \<Rightarrow> nat \<Rightarrow> index_t \<Rightarrow> 'a implicit_producer \<Rightarrow> 'a implicit_producer" where
  "take_slot newTail e blockStartIndex p =
     set_index_tail newTail (set_entry e (key_update (\<lambda>_. blockStartIndex) (index_entries p ! e)) p)"

definition insert_block_index_entry :: "AllocationMode \<Rightarrow> index_t \<Rightarrow> 'a implicit_producer \<Rightarrow> (nat option \<times> 'a implicit_producer) option" where
  "insert_block_index_entry m blockStartIndex p =
     (if implicitIndex p = [] then Some (None, p)
      else do {
        (newTail, e) \<leftarrow> next_slot p;
        if key (index_entries p ! e) = INVALID_BLOCK_BASE \<or> ie_value (index_entries p ! e) = None
        then Some (Some e, take_slot newTail e blockStartIndex p)
        else if m = CannotAlloc then Some (None, p)
        else do {
          (ok, p) \<leftarrow> implicit_new_block_index p;
          if \<not> ok then Some (None, p)
          else do {
            (newTail, e) \<leftarrow> next_slot p;
            ensure (key (index_entries p ! e) = INVALID_BLOCK_BASE);
            Some (Some e, take_slot newTail e blockStartIndex p) } } })"

definition rewind_block_index_tail :: "'a implicit_producer \<Rightarrow> 'a implicit_producer option" where
  "rewind_block_index_tail p =
     (case implicitIndex p of [] \<Rightarrow> None | h # _ \<Rightarrow> Some (set_index_tail ((ih_tail h - 1) AND (capacity h - 1)) p))"

definition get_block_index_index_for_index :: "traits \<Rightarrow> index_t \<Rightarrow> 'a implicit_producer \<Rightarrow> (implicit_header \<times> size_t) option" where
  "get_block_index_index_for_index t i p =
     (case implicitIndex p of
        [] \<Rightarrow> None
      | h # _ \<Rightarrow>
          do { ensure (unat (ih_tail h) < length (index h));
               let tailBase = key (index_entries p ! (index h ! unat (ih_tail h)));
               ensure (tailBase \<noteq> INVALID_BLOCK_BASE);
               let idx = (ih_tail h + index_offset t i tailBase) AND (capacity h - 1);
               ensure (unat idx < length (index h));
               let e = index_entries p ! (index h ! unat idx);
               ensure (key e = block_base t i \<and> ie_value e \<noteq> None);
               Some (h, idx) })"

definition get_block_index_entry_for_index :: "traits \<Rightarrow> index_t \<Rightarrow> 'a implicit_producer \<Rightarrow> nat option" where
  "get_block_index_entry_for_index t i p = do { (h, idx) \<leftarrow> get_block_index_index_for_index t i p; Some (index h ! unat idx) }"

definition entry_value :: "nat \<Rightarrow> 'a implicit_producer \<Rightarrow> nat option" where
  "entry_value e p = do { ensure (e < length (index_entries p)); ie_value (index_entries p ! e) }"

definition ImplicitProducer :: "traits \<Rightarrow> (nat \<Rightarrow> 'a block) \<Rightarrow> block_pool \<Rightarrow> bool list \<Rightarrow> 'a implicit_producer option" where
  "ImplicitProducer t hp bp allocs =
     map_option snd (implicit_new_block_index
       \<lparr> tailIndex = 0, headIndex = 0, dequeueOptimisticCount = 0, dequeueOvercommit = 0, tailBlock = None,
         heap = hp, pool = bp, index_allocs = allocs, nextBlockIndexCapacity = IMPLICIT_INITIAL_INDEX_SIZE t,
         implicitIndex = [], index_entries = [] \<rparr>)"

section \<open>Enqueueing one element\<close>

definition give_back :: "nat \<Rightarrow> ('a, 'z) producer_scheme \<Rightarrow> ('a, 'z) producer_scheme" where
  "give_back a p = p \<lparr> pool := add_block_to_free_list a (pool p) \<rparr>"

text \<open>A new block for the index \<open>cur\<close>, inserted in the block index without its value; \<open>None\<close> inside is a failure.\<close>

definition implicit_fresh_block :: "traits \<Rightarrow> AllocationMode \<Rightarrow> index_t \<Rightarrow> 'a implicit_producer \<Rightarrow>
    ((nat \<times> nat) option \<times> 'a implicit_producer) option" where
  "implicit_fresh_block t m cur p =
     do { ensure (\<not> circular_less_than cur (headIndex p));
          if subqueue_full t (headIndex p) cur then Some (None, p)
          else do {
            (entry, p) \<leftarrow> insert_block_index_entry m cur p;
            case entry of None \<Rightarrow> Some (None, p)
            | Some e \<Rightarrow>
                (case requisition_block m (pool p) of
                   (None, bp) \<Rightarrow> do { p \<leftarrow> rewind_block_index_tail (p \<lparr> pool := bp \<rparr>); Some (None, set_value e None p) }
                 | (Some a, bp) \<Rightarrow>
                     let p = p \<lparr> pool := bp \<rparr> in Some (Some (e, a), write_block a (reset_empty t implicit_context (heap p a)) p)) } }"

definition implicit_enqueue :: "traits \<Rightarrow> AllocationMode \<Rightarrow> ctor \<Rightarrow> 'a \<Rightarrow> 'a implicit_producer \<Rightarrow> (outcome \<times> 'a implicit_producer) option" where
  "implicit_enqueue t m c x p =
     (let currentTailIndex = tailIndex p; newTailIndex = 1 + currentTailIndex in
      if currentTailIndex AND (BLOCK_SIZE t - 1) = 0 then
        do { (fresh, p) \<leftarrow> implicit_fresh_block t m currentTailIndex p;
             case fresh of None \<Rightarrow> Some (Return False, p)
             | Some (e, a) \<Rightarrow>
                 if c = throwing_ctor True then
                   do { p \<leftarrow> rewind_block_index_tail p; Some (Rethrow, give_back a (set_value e None p)) }
                 else do {
                   p \<leftarrow> (if c = noexcept_ctor then Some p else construct_at t a currentTailIndex x p);
                   let p = (set_value e (Some a) p) \<lparr> tailBlock := Some a \<rparr>;
                   p \<leftarrow> (if c = noexcept_ctor then construct_tail t currentTailIndex x p else Some p);
                   Some (Return True, p \<lparr> tailIndex := newTailIndex \<rparr>) } }
      else if c = throwing_ctor True then Some (Rethrow, p)
      else do { p \<leftarrow> construct_tail t currentTailIndex x p;
                Some (Return True, p \<lparr> tailIndex := newTailIndex \<rparr>) })"

section \<open>Dequeueing one element\<close>

definition release_if_empty :: "bool \<Rightarrow> nat \<Rightarrow> nat \<Rightarrow> 'a implicit_producer \<Rightarrow> 'a implicit_producer" where
  "release_if_empty emptied e a p = (if emptied then give_back a (set_value e None p) else p)"

definition implicit_take :: "traits \<Rightarrow> index_t \<Rightarrow> 'a implicit_producer \<Rightarrow> ('a \<times> 'a implicit_producer) option" where
  "implicit_take t i p =
     do { e \<leftarrow> get_block_index_entry_for_index t i p;
          a \<leftarrow> entry_value e p;
          (x, p) \<leftarrow> destroy_at t a i p;
          (emptied, b) \<leftarrow> set_empty t implicit_context i (heap p a);
          Some (x, release_if_empty emptied e a (write_block a b p)) }"

definition implicit_dequeue :: "traits \<Rightarrow> bool \<Rightarrow> 'a implicit_producer \<Rightarrow> ('a dequeued \<times> 'a implicit_producer) option" where
  "implicit_dequeue t assignmentThrows p =
     (let overcommit = dequeueOvercommit p in
      if circular_less_than (dequeueOptimisticCount p - overcommit) (tailIndex p) then
        let myDequeueCount = dequeueOptimisticCount p;
            p = p \<lparr> dequeueOptimisticCount := myDequeueCount + 1 \<rparr> in
        if circular_less_than (myDequeueCount - overcommit) (tailIndex p) then
          do { let index = headIndex p;
               (x, p) \<leftarrow> implicit_take t index (p \<lparr> headIndex := index + 1 \<rparr>);
               Some (if assignmentThrows then Assignment_Threw x else Dequeued x, p) }
        else Some (Nothing_Dequeued, p \<lparr> dequeueOvercommit := dequeueOvercommit p + 1 \<rparr>)
      else Some (Nothing_Dequeued, p))"

section \<open>The destructor\<close>

fun destroy_rest :: "nat \<Rightarrow> traits \<Rightarrow> nat option \<Rightarrow> index_t \<Rightarrow> 'a implicit_producer \<Rightarrow> ('a list \<times> 'a implicit_producer) option" where
  "destroy_rest 0 t block i p = (if i = tailIndex p then Some ([], p) else None)"
| "destroy_rest (Suc fuel) t block i p =
     (if i = tailIndex p then Some ([], p)
      else do {
        (a, p) \<leftarrow>
          (if i AND (BLOCK_SIZE t - 1) = 0 \<or> block = None
           then do { let p = (case block of None \<Rightarrow> p | Some b \<Rightarrow> give_back b p);
                     e \<leftarrow> get_block_index_entry_for_index t i p;
                     a \<leftarrow> entry_value e p;
                     Some (a, p) }
           else do { a \<leftarrow> block; Some (a, p) });
        (x, p) \<leftarrow> destroy_at t a i p;
        (xs, p) \<leftarrow> destroy_rest fuel t (Some a) (i + 1) p;
        Some (x # xs, p) })"

text \<open>The destroyed elements and the pool; freeing the versions of the block index leaves nothing to observe.\<close>

definition implicit_destroy :: "nat \<Rightarrow> traits \<Rightarrow> 'a implicit_producer \<Rightarrow> ('a list \<times> block_pool) option" where
  "implicit_destroy fuel t p =
     do { let forceFreeLastBlock = (headIndex p \<noteq> tailIndex p);
          ensure (headIndex p = tailIndex p \<or> circular_less_than (headIndex p) (tailIndex p));
          (xs, p) \<leftarrow> destroy_rest fuel t None (headIndex p) p;
          case tailBlock p of
            Some a \<Rightarrow> Some (xs, pool (if forceFreeLastBlock \<or> tailIndex p AND (BLOCK_SIZE t - 1) \<noteq> 0 then give_back a p else p))
          | None \<Rightarrow> Some (xs, pool p) }"

section \<open>Enqueueing in bulk\<close>

text \<open>The blocks from \<open>block\<close> on leave the block index again.\<close>

fun revert_entries :: "nat \<Rightarrow> traits \<Rightarrow> index_t \<Rightarrow> nat option \<Rightarrow> 'a implicit_producer \<Rightarrow> 'a implicit_producer option" where
  "revert_entries fuel t cur None p = Some p"
| "revert_entries 0 t cur (Some a) p = None"
| "revert_entries (Suc fuel) t cur (Some a) p =
     do { let cur = cur + BLOCK_SIZE t;
          e \<leftarrow> get_block_index_entry_for_index t cur p;
          p \<leftarrow> rewind_block_index_tail (set_value e None p);
          revert_entries fuel t cur (blockNext (heap p a)) p }"

definition revert_bulk :: "nat \<Rightarrow> traits \<Rightarrow> index_t \<Rightarrow> nat option \<Rightarrow> nat option \<Rightarrow> 'a implicit_producer \<Rightarrow> 'a implicit_producer option" where
  "revert_bulk fuel t startTailIndex startBlock first p =
     do { p \<leftarrow> revert_entries fuel t (block_base t (startTailIndex - 1)) first p;
          bp \<leftarrow> add_blocks_to_free_list fuel (\<lambda>a. blockNext (heap p a)) first (pool p);
          Some (p \<lparr> pool := bp, tailBlock := startBlock \<rparr>) }"

definition chain_block :: "traits \<Rightarrow> index_t \<Rightarrow> nat option \<Rightarrow> nat \<Rightarrow> 'a implicit_producer \<Rightarrow> 'a implicit_producer option" where
  "chain_block t startTailIndex first a p =
     (if startTailIndex AND (BLOCK_SIZE t - 1) \<noteq> 0 \<or> first \<noteq> None
      then do { tb \<leftarrow> tailBlock p; Some (write_block tb ((heap p tb) \<lparr> blockNext := Some a \<rparr>) p) }
      else Some p)"

fun implicit_allocate :: "nat \<Rightarrow> traits \<Rightarrow> AllocationMode \<Rightarrow> index_t \<Rightarrow> nat option \<Rightarrow> size_t \<Rightarrow> index_t \<Rightarrow> nat option \<Rightarrow>
    'a implicit_producer \<Rightarrow> (bool \<times> nat option \<times> 'a implicit_producer) option" where
  "implicit_allocate 0 t m startTailIndex startBlock diff cur first p = None"
| "implicit_allocate (Suc fuel) t m startTailIndex startBlock diff cur first p =
     do { let diff = diff - BLOCK_SIZE t; let cur = cur + BLOCK_SIZE t;
          (fresh, p) \<leftarrow> implicit_fresh_block t m cur p;
          case fresh of None \<Rightarrow> do { p \<leftarrow> revert_bulk (Suc fuel) t startTailIndex startBlock first p; Some (False, first, p) }
          | Some (e, a) \<Rightarrow> do {
              let p = set_value e (Some a) (write_block a ((heap p a) \<lparr> blockNext := None \<rparr>) p);
              p \<leftarrow> chain_block t startTailIndex first a p;
              let first = (if first = None then Some a else first);
              let p = p \<lparr> tailBlock := Some a \<rparr>;
              if diff > 0 then implicit_allocate fuel t m startTailIndex startBlock diff cur first p else Some (True, first, p) } }"

definition implicit_enqueue_bulk :: "traits \<Rightarrow> AllocationMode \<Rightarrow> bool \<Rightarrow> ('a \<times> bool) list \<Rightarrow> 'a implicit_producer \<Rightarrow>
    (outcome \<times> 'a implicit_producer) option" where
  "implicit_enqueue_bulk t m triviallyDestructible items p =
     (let n = of_nat (length items) :: size_t; fuel = length items + 2; startTailIndex = tailIndex p; startBlock = tailBlock p;
          atBoundary = (startTailIndex AND (BLOCK_SIZE t - 1) = 0);
          blockBaseDiff = block_base t (startTailIndex + n - 1) - block_base t (startTailIndex - 1) in
      do {
        (ok, first, p) \<leftarrow>
          (if blockBaseDiff > 0
           then implicit_allocate fuel t m startTailIndex startBlock blockBaseDiff (block_base t (startTailIndex - 1)) None p
           else Some (True, None, p));
        if \<not> ok then Some (Return False, p)
        else do {
          let endBlock = tailBlock p;
          ensure (\<not> atBoundary \<or> first \<noteq> None \<or> n = 0);
          (threw, cur, p) \<leftarrow>
            fill_blocks fuel t (startTailIndex + n) endBlock startTailIndex items
              (p \<lparr> tailBlock := (if atBoundary \<and> first \<noteq> None then first else startBlock) \<rparr>);
          if threw then do {
            p \<leftarrow> (if triviallyDestructible then Some p
                  else destroy_constructed fuel t cur (tailBlock p) (if atBoundary then first else startBlock) startTailIndex p);
            p \<leftarrow> revert_bulk fuel t startTailIndex startBlock first p;
            Some (Rethrow, p) }
          else Some (Return True, p \<lparr> tailIndex := startTailIndex + n \<rparr>) } })"

section \<open>Dequeueing in bulk\<close>

text \<open>\<open>throwsAt\<close> is the number of the element whose assignment throws: the rest of the claimed elements are then destroyed.\<close>

fun implicit_take_blocks :: "nat \<Rightarrow> traits \<Rightarrow> implicit_header \<Rightarrow> size_t \<Rightarrow> index_t \<Rightarrow> index_t \<Rightarrow> 'a implicit_producer \<Rightarrow>
    ('a list \<times> 'a implicit_producer) option" where
  "implicit_take_blocks 0 t h k i limit p = None"
| "implicit_take_blocks (Suc fuel) t h k i limit p =
     do { let endIndex = stop_index t i limit;
          ensure (unat k < length (index h));
          let e = index h ! unat k;
          a \<leftarrow> entry_value e p;
          (xs, p) \<leftarrow> destroy_span (unat (BLOCK_SIZE t)) t a i endIndex p;
          (emptied, b) \<leftarrow> set_many_empty t implicit_context i (endIndex - i) (heap p a);
          let p = release_if_empty emptied e a (write_block a b p);
          if endIndex = limit then Some (xs, p)
          else do { (ys, p) \<leftarrow> implicit_take_blocks fuel t h ((k + 1) AND (capacity h - 1)) endIndex limit p; Some (xs @ ys, p) } }"

definition implicit_dequeue_bulk :: "traits \<Rightarrow> nat option \<Rightarrow> size_t \<Rightarrow> 'a implicit_producer \<Rightarrow>
    (bool \<times> 'a list \<times> 'a implicit_producer) option" where
  "implicit_dequeue_bulk t throwsAt most p =
     (let overcommit = dequeueOvercommit p;
          desiredCount = tailIndex p - (dequeueOptimisticCount p - overcommit) in
      if circular_less_than 0 desiredCount then
        let desiredCount = min desiredCount most; myDequeueCount = dequeueOptimisticCount p;
            p = p \<lparr> dequeueOptimisticCount := myDequeueCount + desiredCount \<rparr>;
            actualCount = tailIndex p - (myDequeueCount - overcommit) in
        if circular_less_than 0 actualCount then do {
          let actualCount = min desiredCount actualCount;
          let p = (if actualCount < desiredCount
                   then p \<lparr> dequeueOvercommit := dequeueOvercommit p + (desiredCount - actualCount) \<rparr> else p);
          let firstIndex = headIndex p;
          let p = p \<lparr> headIndex := firstIndex + actualCount \<rparr>;
          (h, k) \<leftarrow> get_block_index_index_for_index t firstIndex p;
          (xs, p) \<leftarrow> implicit_take_blocks (Suc (unat actualCount)) t h k firstIndex (firstIndex + actualCount) p;
          case throwsAt of
            None \<Rightarrow> Some (False, xs, p)
          | Some n \<Rightarrow> Some (n < length xs, take n xs, p) }
        else Some (False, [], p \<lparr> dequeueOvercommit := dequeueOvercommit p + desiredCount \<rparr>)
      else Some (False, [], p))"

end
