(* ===== verification/Cq_Explicit_Fifo.thy ===== *)
theory Cq_Explicit_Fifo
  imports Cq_Explicit
begin

text \<open>
  The sub-queue of an explicit producer is a first-in first-out queue: \<open>explicit_rep\<close> relates the ring of blocks, the
  flags or counters of the blocks and the circular block index to the list of the elements, and every operation
  keeps it. Indices are represented by natural numbers that do not wrap: \<open>H\<close> elements have been dequeued
  and \<open>T\<close> enqueued so far, and block \<open>i\<close> of the ring holds the elements from \<open>(K + i) * BLOCK_SIZE\<close> on.
\<close>

section \<open>Indices as wrapped natural numbers\<close>

abbreviation bsz :: "traits \<Rightarrow> nat" where
  "bsz t \<equiv> unat (BLOCK_SIZE t)"

lemma bsz_exp:
  assumes "traits_ok t"
  obtains b where "1 \<le> b" "b < 64" "BLOCK_SIZE t = 2 ^ b" "bsz t = 2 ^ b"
  using assms by (rule traits_block_size)

lemma bsz_dvd: "traits_ok t \<Longrightarrow> bsz t dvd 2 ^ 64"
  by (erule bsz_exp) (simp only:, rule pow2_dvd_64, simp)

lemma unat_of_nat_mod: "unat (of_nat n :: size_t) = n mod 2 ^ 64"
  by (simp add: unat_of_nat)

lemma block_slot_of_nat:
  assumes "traits_ok t"
  shows "block_slot t (of_nat n) = n mod bsz t"
  unfolding block_slot_mod[OF assms] unat_of_nat_mod using bsz_dvd[OF assms] by (rule mod_mod_cancel)

lemma at_boundary_iff:
  assumes "traits_ok t"
  shows "of_nat n AND (BLOCK_SIZE t - 1) = 0 \<longleftrightarrow> n mod bsz t = 0"
  using block_slot_of_nat[OF assms, of n] by (simp add: block_slot_def unat_eq_zero flip: unat_eq_0)

lemma block_base_of_nat:
  assumes "traits_ok t"
  shows "block_base t (of_nat n) = of_nat (n div bsz t * bsz t)"
proof -
  let ?m = "BLOCK_SIZE t - 1" and ?w = "of_nat n :: size_t"
  have "?w - (?w AND ?m) = ?w AND NOT (?w AND ?m)"
    by (rule disjunctive_diff_eq_and_not) (simp add: bit_eq_iff bit_simps)
  also have "\<dots> = ?w AND NOT ?m" by (auto simp: bit_eq_iff bit_simps)
  finally have e: "?w AND NOT ?m = ?w - (?w AND ?m)" by (rule sym)
  have "of_nat n AND (BLOCK_SIZE t - 1) = (of_nat (n mod bsz t) :: size_t)"
  proof -
    have "of_nat (unat (of_nat n AND (BLOCK_SIZE t - 1))) = (of_nat (n mod bsz t) :: size_t)"
      using block_slot_of_nat[OF assms, of n] by (simp only: block_slot_def)
    then show ?thesis by simp
  qed
  moreover have "of_nat n = (of_nat (n div bsz t * bsz t) + of_nat (n mod bsz t) :: size_t)"
    by (simp only: of_nat_add[symmetric] div_mult_mod_eq)
  ultimately show ?thesis unfolding block_base_def e by simp
qed

lemma circular_less_than_of_nat:
  assumes "m \<le> n" "n - m < 2 ^ 63"
  shows "circular_less_than (of_nat m) (of_nat n) \<longleftrightarrow> m < n" "\<not> circular_less_than (of_nat n) (of_nat m)"
proof -
  have e: "of_nat n = (of_nat m + of_nat (n - m) :: size_t)"
    using assms(1) by (metis le_add_diff_inverse of_nat_add)
  show "circular_less_than (of_nat m) (of_nat n) \<longleftrightarrow> m < n"
  proof (cases "m < n")
    case True
    then have "circular_less_than (of_nat m) (of_nat n)" unfolding e
      using assms(2) by (intro circular_less_than_ahead) auto
    with True show ?thesis by simp
  next
    case False
    then show ?thesis using assms(1) by (simp add: circular_less_than_def)
  qed
  show "\<not> circular_less_than (of_nat n) (of_nat m)"
  proof (cases "m < n")
    case True
    then show ?thesis unfolding e using assms(2) by (intro circular_less_than_ahead) auto
  next
    case False
    then show ?thesis using assms(1) by (simp add: circular_less_than_def)
  qed
qed

text \<open>The offset of an older block is negative; the unsigned division gives it modulo the size of the index.\<close>

lemma index_offset_of_nat:
  assumes t: "traits_ok t" and i: "n div bsz t = k" "d * bsz t < 2 ^ 63" and s: "2 ^ s * bsz t \<le> 2 ^ 64"
  shows "(f + unat (index_offset t (of_nat n) (of_nat ((k + d) * bsz t))) + d) mod 2 ^ s = f mod 2 ^ s"
proof -
  obtain b where b: "1 \<le> b" "b < 64" "BLOCK_SIZE t = 2 ^ b" "bsz t = 2 ^ b" using bsz_exp[OF t] .
  have "(2::nat) ^ (s + b) \<le> 2 ^ 64" using s b(4) by (simp add: power_add)
  then have sb: "s + b \<le> 64" by (rule power_le_imp_le_exp[rotated]) simp
  let ?x = "of_nat (d * 2 ^ b) :: size_t"
  have "index_offset t (of_nat n) (of_nat ((k + d) * bsz t)) = (of_nat (k * bsz t) - of_nat (k * bsz t + d * bsz t)) div BLOCK_SIZE t"
    using block_base_of_nat[OF t, of n] i(1) by (simp only: index_offset_def block_base_def distrib_right)
  also have "of_nat (k * bsz t) - of_nat (k * bsz t + d * bsz t) = - ?x" unfolding of_nat_add b(4) by simp
  finally have o: "unat (index_offset t (of_nat n) (of_nat ((k + d) * bsz t))) = unat (- ?x) div 2 ^ b"
    by (simp only: unat_div b(4))
  have "unat (- ?x) div 2 ^ b + d = (if d = 0 then 0 else 2 ^ (64 - b))"
  proof (cases "d = 0")
    case False
    have e: "(2::nat) ^ 64 = 2 ^ (64 - b) * 2 ^ b" using b(2) by (simp flip: power_add)
    have "d * 2 ^ b < 2 ^ 63" using i(2) b(4) by simp
    then have u: "unat ?x = d * 2 ^ b" by (intro unat_of_nat_small) simp
    moreover have "0 < d * (2::nat) ^ b" using False by simp
    ultimately have "unat (- ?x) = 2 ^ 64 - d * 2 ^ b"
      using unat_minus_wrap[of 0 ?x] by (simp only: unat_0 diff_0)
    also have "\<dots> = (2 ^ (64 - b) - d) * 2 ^ b" unfolding e by (simp only: diff_mult_distrib)
    finally have "unat (- ?x) div 2 ^ b = 2 ^ (64 - b) - d" by simp
    moreover have "d \<le> 2 ^ (64 - b)"
    proof (rule ccontr)
      assume "\<not> d \<le> 2 ^ (64 - b)"
      then have "2 ^ (64 - b) * 2 ^ b \<le> d * (2::nat) ^ b" by (intro mult_right_mono) auto
      then have "(2::nat) ^ 64 \<le> d * bsz t" by (simp only: e b(4))
      then show False using i(2) by simp
    qed
    ultimately show ?thesis using False by simp
  qed simp
  then have "f + unat (index_offset t (of_nat n) (of_nat ((k + d) * bsz t))) + d = f + (if d = 0 then 0 else 2 ^ (64 - b))"
    by (simp only: o add.assoc)
  moreover have "(f + (if d = 0 then 0 else 2 ^ (64 - b))) mod 2 ^ s = f mod 2 ^ s"
  proof -
    have "(2::nat) ^ s dvd 2 ^ (64 - b)" using sb by (intro le_imp_power_dvd) simp
    then show ?thesis by (simp add: mod_add_right_eq[symmetric, of f] del: mod_add_right_eq)
  qed
  ultimately show ?thesis by (simp only:)
qed

section \<open>What the state of a producer represents\<close>

definition pool_blocks :: "('a, 'z) producer_scheme \<Rightarrow> nat list" where
  "pool_blocks p = pool_left (pool p)"

text \<open>The blocks of the ring and those still to come are distinct and of the right size; memory is finite.\<close>

definition blocks_ok :: "traits \<Rightarrow> ('a, 'z) producer_scheme \<Rightarrow> nat list \<Rightarrow> bool" where
  "blocks_ok t p R \<longleftrightarrow> pool_ok (pool p) \<and> distinct (R @ pool_blocks p) \<and> length (R @ pool_blocks p) * bsz t < 2 ^ 63 \<and>
     (\<forall>a\<in>set (R @ pool_blocks p). length (elements (heap p a)) = bsz t)"

definition ring_links :: "('a, 'z) producer_scheme \<Rightarrow> nat list \<Rightarrow> bool" where
  "ring_links p R \<longleftrightarrow> tailBlock p = (if R = [] then None else Some (last R)) \<and>
     (\<forall>i<length R. blockNext (heap p (R ! i)) = Some (R ! (Suc i mod length R)))"

text \<open>Block \<open>i\<close> of the ring \<open>R\<close> is number \<open>K + i\<close> of the sub-queue; \<open>q\<close> is the list of the elements.\<close>

definition dequeued_slots :: "traits \<Rightarrow> nat \<Rightarrow> nat \<Rightarrow> nat set" where
  "dequeued_slots t k H = {s. s < bsz t \<and> k * bsz t + s < H}"

definition block_rep :: "traits \<Rightarrow> InnerQueueContext \<Rightarrow> 'a block \<Rightarrow> nat \<Rightarrow> nat \<Rightarrow> 'a list \<Rightarrow> bool" where
  "block_rep t cx b k H q \<longleftrightarrow> dequeued_from t cx b (dequeued_slots t k H) \<and>
     (\<forall>s<bsz t. H \<le> k * bsz t + s \<and> k * bsz t + s < H + length q \<longrightarrow>
        elements b ! s = Some (q ! (k * bsz t + s - H)))"

definition blocks_rep :: "traits \<Rightarrow> InnerQueueContext \<Rightarrow> ('a, 'z) producer_scheme \<Rightarrow> nat list \<Rightarrow> nat \<Rightarrow> nat \<Rightarrow> 'a list \<Rightarrow> bool" where
  "blocks_rep t cx p R K H q \<longleftrightarrow> (\<forall>i<length R. block_rep t cx (heap p (R ! i)) (K + i) H q)"

definition header_rep :: "traits \<Rightarrow> index_header \<Rightarrow> nat \<Rightarrow> nat \<Rightarrow> nat list \<Rightarrow> nat \<Rightarrow> bool" where
  "header_rep t h s F R K \<longleftrightarrow>
     2 ^ s * bsz t \<le> 2 ^ 64 \<and> header_size h = 2 ^ s \<and> length (entries h) = 2 ^ s \<and> F < 2 ^ s \<and> length R \<le> 2 ^ s \<and>
     (\<forall>i<length R. entries h ! ((F + 2 ^ s - length R + i) mod 2 ^ s) =
        \<lparr> base = of_nat ((K + i) * bsz t), entry_block = Some (R ! i) \<rparr>) \<and>
     (R \<noteq> [] \<longrightarrow> unat (header_front h) = (F + 2 ^ s - 1) mod 2 ^ s)"

definition index_rep :: "traits \<Rightarrow> 'a explicit_producer \<Rightarrow> nat list \<Rightarrow> nat \<Rightarrow> bool" where
  "index_rep t p R K \<longleftrightarrow> (\<exists>s. pr_blockIndexSize p = 2 ^ s \<and>
     (case blockIndex p of
        [] \<Rightarrow> R = [] \<and> 2 ^ Suc s * bsz t \<le> 2 ^ 64 \<and> pr_blockIndexFront p = 0
      | h # _ \<Rightarrow> header_rep t h s (unat (pr_blockIndexFront p)) R K))"

definition counters_rep :: "('a, 'z) producer_scheme \<Rightarrow> nat \<Rightarrow> nat \<Rightarrow> bool" where
  "counters_rep p H T \<longleftrightarrow> headIndex p = of_nat H \<and> tailIndex p = of_nat T \<and>
     dequeueOptimisticCount p - dequeueOvercommit p = of_nat H"

definition explicit_rep :: "traits \<Rightarrow> 'a explicit_producer \<Rightarrow> nat list \<Rightarrow> nat \<Rightarrow> nat \<Rightarrow> 'a list \<Rightarrow> bool" where
  "explicit_rep t p R K H q \<longleftrightarrow>
     K * bsz t \<le> H \<and> H + length q \<le> (K + length R) * bsz t \<and> (R \<noteq> [] \<longrightarrow> (K + length R - 1) * bsz t < H + length q) \<and>
     counters_rep p H (H + length q) \<and> blocks_ok t p R \<and> ring_links p R \<and> blocks_rep t explicit_context p R K H q \<and>
     index_rep t p R K \<and> pr_blockIndexSlotsUsed p = of_nat (length R)"

section \<open>The block index\<close>

lemma add_mod_neq:
  assumes "i < n" "n < m" "F < (m::nat)"
  shows "(F + m - n + i) mod m \<noteq> F"
proof
  assume "(F + m - n + i) mod m = F"
  then have "(F + m - n + i) mod m = (F + m) mod m" using assms(3) by simp
  then have "m dvd (F + m) - (F + m - n + i)" using assms by (intro mod_eq_dvd_iff_nat[THEN iffD1]) auto
  moreover have "(F + m) - (F + m - n + i) = n - i" using assms by simp
  ultimately have "m \<le> n - i" using assms by (intro dvd_imp_le) auto
  then show False using assms by simp
qed

lemma header_rep_append:
  assumes h: "header_rep t h s F R K" and l: "length R < 2 ^ s" and f: "unat f = F"
  shows "header_rep t (h \<lparr> entries := (entries h)[F := \<lparr> base = of_nat ((K + length R) * bsz t), entry_block = Some a \<rparr>],
             header_front := f \<rparr>) s ((F + 1) mod 2 ^ s) (R @ [a]) K"
proof -
  let ?m = "2 ^ s :: nat" and ?n = "length R"
  have F: "F < ?m" "length (entries h) = ?m" using h by (auto simp: header_rep_def)
  have pos: "((F + 1) mod ?m + ?m - Suc ?n + i) mod ?m = (F + ?m - ?n + i) mod ?m" if "i \<le> ?n" for i
  proof (cases "F + 1 = ?m")
    case True
    then have e: "F + ?m - ?n + i = (?m - Suc ?n + i) + ?m" "(F + 1) mod ?m + ?m - Suc ?n + i = ?m - Suc ?n + i"
      using l by simp_all
    show ?thesis unfolding e by (rule mod_add_self2[symmetric])
  next
    case False
    then show ?thesis using F(1) l by (simp add: Suc_diff_le)
  qed
  let ?e = "(entries h)[F := \<lparr> base = of_nat ((K + ?n) * bsz t), entry_block = Some a \<rparr>]"
  have "?e ! (((F + 1) mod ?m + ?m - Suc ?n + i) mod ?m) =
      \<lparr> base = of_nat ((K + i) * bsz t), entry_block = Some ((R @ [a]) ! i) \<rparr>" if i: "i < Suc ?n" for i
  proof (cases "i = ?n")
    case True
    have "(F + ?m - ?n + ?n) mod ?m = F" using l F(1) by simp
    then show ?thesis using True F pos[of i] by simp
  next
    case False
    then have "(F + ?m - ?n + i) mod ?m \<noteq> F" using i l F(1) by (intro add_mod_neq) auto
    then show ?thesis using False i h pos[of i] by (auto simp: header_rep_def nth_append)
  qed
  moreover have "((F + 1) mod ?m + ?m - 1) mod ?m = F" using pos[of ?n] F(1) l
    by (cases "F + 1 = ?m") auto
  ultimately show ?thesis using h l f by (auto simp: header_rep_def)
qed

text \<open>The copy loop of \<open>new_block_index\<close> brings the live entries to the front of the new array.\<close>

lemma copy_entries_copies:
  assumes m: "unat m = 2 ^ s - 1" "m = 2 ^ s - 1" "s < 64" and f: "unat front < 2 ^ s" "length old = 2 ^ s"
    and i: "unat i < 2 ^ s" "0 < r" "r \<le> 2 ^ s" "(unat i + r) mod 2 ^ s = unat front" and fuel: "r \<le> fuel"
    and j: "j + r \<le> length new"
  shows "\<exists>new'. copy_entries fuel old m front i j new = Some (j + r, new') \<and> length new' = length new \<and>
           (\<forall>k<j. new' ! k = new ! k) \<and> (\<forall>k<r. new' ! (j + k) = old ! ((unat i + k) mod 2 ^ s))"
  using i fuel j
proof (induction fuel arbitrary: i j r new)
  case (Suc fuel)
  let ?i = "(i + 1) AND m" and ?new = "new[j := old ! unat i]"
  have ui: "unat ?i = (unat i + 1) mod 2 ^ s" using m(3) by (simp add: m(2) unat_plus_mask)
  have step: "copy_entries (Suc fuel) old m front i j new =
      (if ?i = front then Some (Suc j, ?new) else copy_entries fuel old m front ?i (Suc j) ?new)"
    using Suc.prems f by (simp add: ensure_def Let_def)
  show ?case
  proof (cases "?i = front")
    case True
    have "r = 1"
    proof (rule ccontr)
      assume "r \<noteq> 1"
      then have r: "1 < r" using Suc.prems by simp
      have "(unat i + r) mod 2 ^ s = (unat i + 1) mod 2 ^ s" using Suc.prems(4) ui True by simp
      then have "2 ^ s dvd (unat i + r) - (unat i + 1)" using r by (intro mod_eq_dvd_iff_nat[THEN iffD1]) auto
      then have "2 ^ s \<le> r - 1" using r by (intro dvd_imp_le) auto
      then show False using Suc.prems(3) r by simp
    qed
    then show ?thesis using step True Suc.prems f by auto
  next
    case False
    have r: "r \<noteq> 1"
    proof
      assume "r = 1"
      then have "unat ?i = unat front" using Suc.prems(4) ui by simp
      then show False using False by (simp add: word_unat_eq_iff)
    qed
    have "(unat ?i + (r - 1)) mod 2 ^ s = (unat i + 1 + (r - 1)) mod 2 ^ s" unfolding ui by (rule mod_add_left_eq)
    then have eq: "(unat ?i + (r - 1)) mod 2 ^ s = unat front" using Suc.prems r by simp
    have "\<exists>new'. copy_entries fuel old m front ?i (Suc j) ?new = Some (Suc j + (r - 1), new') \<and> length new' = length ?new \<and>
        (\<forall>k<Suc j. new' ! k = ?new ! k) \<and> (\<forall>k<r - 1. new' ! (Suc j + k) = old ! ((unat ?i + k) mod 2 ^ s))"
      using eq Suc.prems r by (intro Suc.IH) (auto simp: ui)
    then obtain new' where new': "copy_entries fuel old m front ?i (Suc j) ?new = Some (Suc j + (r - 1), new')"
        "length new' = length ?new" "\<forall>k<Suc j. new' ! k = ?new ! k"
        "\<forall>k<r - 1. new' ! (Suc j + k) = old ! ((unat ?i + k) mod 2 ^ s)"
      by blast
    have "new' ! (j + k) = old ! ((unat i + k) mod 2 ^ s)" if "k < r" for k
    proof (cases k)
      case 0
      then show ?thesis using new'(3) Suc.prems by simp
    next
      case (Suc k')
      have "(unat ?i + k') mod 2 ^ s = (unat i + 1 + k') mod 2 ^ s" unfolding ui by (rule mod_add_left_eq)
      then show ?thesis using new'(4) that Suc by simp
    qed
    moreover have "\<forall>k<j. new' ! k = new ! k" using new'(3) by simp
    ultimately show ?thesis using step False new' r Suc.prems by auto
  qed
qed simp

lemma pow2_words:
  assumes "traits_ok t" "2 ^ s * bsz t \<le> 2 ^ 64"
  shows "s < 64" "unat (2 ^ s :: size_t) = 2 ^ s" "unat (2 ^ s - 1 :: size_t) = 2 ^ s - 1"
proof -
  obtain b where b: "1 \<le> b" "b < 64" "bsz t = 2 ^ b" using bsz_exp[OF assms(1)] by metis
  have "(2::nat) ^ (s + b) \<le> 2 ^ 64" using assms(2) b by (simp add: power_add)
  then have "s + b \<le> 64" by (rule power_le_imp_le_exp[rotated]) simp
  then show "s < 64" using b by simp
  then show u: "unat (2 ^ s :: size_t) = 2 ^ s" by (rule unat_pow2)
  show "unat (2 ^ s - 1 :: size_t) = 2 ^ s - 1"
    using unat_minus_small[of 1 "2 ^ s"] u by (simp add: Suc_le_eq)
qed

lemma header_rep_fresh:
  assumes "traits_ok t" "2 ^ Suc s * bsz t \<le> 2 ^ 64" "length new = 2 ^ Suc s" "length R < 2 ^ Suc s"
    and "\<forall>i<length R. new ! i = \<lparr> base = of_nat ((K + i) * bsz t), entry_block = Some (R ! i) \<rparr>"
  shows "header_rep t \<lparr> header_size = 2 ^ Suc s, header_front = of_nat (length R) - 1, entries = new \<rparr> (Suc s) (length R) R K"
proof -
  have n: "length R < 2 ^ 64"
    using assms(4) power_increasing[of "Suc s" 64 "2::nat"] pow2_words(1)[OF assms(1,2)] by simp
  have "unat (of_nat (length R) - 1 :: size_t) = length R - 1" if "R \<noteq> []"
    using that n unat_minus_small[of 1 "of_nat (length R)"] by (cases R) (auto simp: unat_of_nat_small)
  moreover have "(length R + 2 ^ Suc s - 1) mod 2 ^ Suc s = length R - 1" if "R \<noteq> []"
  proof -
    have e: "length R + 2 ^ Suc s - 1 = (length R - 1) + 2 ^ Suc s" using that by (cases R) auto
    have "length R - 1 < 2 ^ Suc s" using assms(4) by simp
    then show ?thesis unfolding e by (simp only: mod_add_self2 mod_less)
  qed
  moreover have "(length R + 2 ^ Suc s - length R + i) mod 2 ^ Suc s = i" if "i < length R" for i
    using that assms(4) by simp
  ultimately show ?thesis using assms by (simp add: header_rep_def)
qed

lemma new_block_index_rep:
  assumes t: "traits_ok t" and p: "index_rep t p R K" "pr_blockIndexSlotsUsed p = of_nat (length R)"
    and full: "blockIndex p = [] \<or> pr_blockIndexSlotsUsed p = pr_blockIndexSize p" and mem: "length R * bsz t < 2 ^ 63"
  shows "\<exists>ok p'. explicit_new_block_index (of_nat (length R)) p = Some (ok, p') \<and>
    (\<exists>bi sz f. p' = p \<lparr> index_allocs := tl (index_allocs p), blockIndex := bi, pr_blockIndexSize := sz, pr_blockIndexFront := f \<rparr>) \<and>
    index_rep t p' R K \<and> (ok \<longrightarrow> length R < unat (pr_blockIndexSize p') \<and> blockIndex p' \<noteq> [])"
proof (cases "case index_allocs p of [] \<Rightarrow> False | a # _ \<Rightarrow> a")
  case False
  then have e: "explicit_new_block_index (of_nat (length R)) p = Some (False, p \<lparr> index_allocs := tl (index_allocs p) \<rparr>)"
    by (simp add: explicit_new_block_index_def Let_def)
  have "index_rep t (p \<lparr> index_allocs := tl (index_allocs p) \<rparr>) R K"
    using p(1) by (simp add: index_rep_def cong: list.case_cong)
  moreover have "p \<lparr> index_allocs := tl (index_allocs p) \<rparr> = p \<lparr> index_allocs := tl (index_allocs p), blockIndex := blockIndex p,
      pr_blockIndexSize := pr_blockIndexSize p, pr_blockIndexFront := pr_blockIndexFront p \<rparr>" by simp
  ultimately show ?thesis using e by blast
next
  case True
  let ?n = "length R"
  obtain s where s: "pr_blockIndexSize p = 2 ^ s" "case blockIndex p of
        [] \<Rightarrow> R = [] \<and> 2 ^ Suc s * bsz t \<le> 2 ^ 64 \<and> pr_blockIndexFront p = 0
      | h # _ \<Rightarrow> header_rep t h s (unat (pr_blockIndexFront p)) R K"
    using p(1) by (auto simp: index_rep_def)
  have n64: "?n < 2 ^ 63" using mem bsz_exp[OF t] by (metis BLOCK_SIZE_pos One_nat_def Suc_leI le_less_trans mult.right_neutral mult_le_mono2 t)
  have key: "\<exists>new. copied_entries p (replicate (unat (push_bit 1 (pr_blockIndexSize p))) null_entry) = Some (?n, new) \<and>
      2 ^ Suc s * bsz t \<le> 2 ^ 64 \<and> length new = 2 ^ Suc s \<and> ?n < 2 ^ Suc s \<and>
      (\<forall>i<?n. new ! i = \<lparr> base = of_nat ((K + i) * bsz t), entry_block = Some (R ! i) \<rparr>)"
  proof (cases "blockIndex p")
    case Nil
    then have R: "R = []" "2 ^ Suc s * bsz t \<le> 2 ^ 64" using s(2) by auto
    then have "unat (push_bit 1 (2 ^ s :: size_t)) = 2 ^ Suc s"
      using pow2_words(2)[OF t R(2)] by (simp add: push_bit_eq_mult mult.commute)
    then show ?thesis using R p(2) s(1) by (simp add: copied_entries_def)
  next
    case (Cons h hs)
    then have h: "header_rep t h s (unat (pr_blockIndexFront p)) R K" using s(2) by simp
    have sb: "s < 64" "unat (2 ^ s :: size_t) = 2 ^ s" "unat (2 ^ s - 1 :: size_t) = 2 ^ s - 1"
      using pow2_words[OF t] h by (auto simp: header_rep_def)
    have "(of_nat ?n :: size_t) = 2 ^ s" using full Cons p(2) s(1) by simp
    then have "unat (of_nat ?n :: size_t) = 2 ^ s" using sb(2) by (simp only:)
    then have n: "?n = 2 ^ s" using n64 by (simp add: unat_of_nat_small)
    have b2: "2 ^ Suc s * bsz t \<le> 2 ^ 64" using mem n by (simp add: mult.commute)
    then have pb: "unat (push_bit 1 (2 ^ s :: size_t)) = 2 ^ Suc s"
      using pow2_words(2)[OF t b2] by (simp add: push_bit_eq_mult mult.commute)
    let ?F = "unat (pr_blockIndexFront p)" and ?i = "(pr_blockIndexFront p - 2 ^ s) AND (2 ^ s - 1)"
    let ?new = "replicate (2 ^ Suc s) null_entry"
    have F: "?F < 2 ^ s" "length (entries h) = 2 ^ s" using h by (auto simp: header_rep_def)
    have ui: "unat ?i = ?F"
    proof -
      have "unat (pr_blockIndexFront p - 2 ^ s) = ?F + 2 ^ 64 - 2 ^ s"
        using F(1) sb(2) unat_minus_wrap[of "pr_blockIndexFront p" "2 ^ s"] by simp
      also have "\<dots> = ?F + (2 ^ 64 - 2 ^ s)" using sb(1) power_increasing[of s 64 "2::nat"] by simp
      finally have "unat ?i = (?F + (2 ^ 64 - 2 ^ s)) mod 2 ^ s" by (simp only: unat_and_mask)
      moreover have "(2::nat) ^ s dvd 2 ^ 64 - 2 ^ s" using sb(1) by (intro dvd_diff_nat pow2_dvd_64) auto
      then have "(?F + (2 ^ 64 - 2 ^ s)) mod 2 ^ s = ?F mod 2 ^ s"
        by (metis add.right_neutral dvd_imp_mod_0 mod_add_right_eq)
      ultimately show ?thesis using F(1) by simp
    qed
    have "\<exists>new'. copy_entries (2 ^ s) (entries h) (2 ^ s - 1) (pr_blockIndexFront p) ?i 0 ?new = Some (0 + 2 ^ s, new') \<and>
        length new' = length ?new \<and> (\<forall>k<0. new' ! k = ?new ! k) \<and>
        (\<forall>k<2 ^ s. new' ! (0 + k) = entries h ! ((unat ?i + k) mod 2 ^ s))"
      using sb F ui by (intro copy_entries_copies) auto
    then obtain new where new: "copy_entries (2 ^ s) (entries h) (2 ^ s - 1) (pr_blockIndexFront p) ?i 0 ?new = Some (?n, new)"
        "length new = 2 ^ Suc s" "\<forall>k<?n. new ! k = entries h ! ((?F + k) mod 2 ^ s)"
      using n ui by auto
    have "new ! i = \<lparr> base = of_nat ((K + i) * bsz t), entry_block = Some (R ! i) \<rparr>" if "i < ?n" for i
      using h new(3) that n by (simp add: header_rep_def)
    moreover have "pr_blockIndexSlotsUsed p = 2 ^ s" using full Cons s(1) by simp
    moreover have "(2 ^ s :: size_t) \<noteq> 0" using sb(2) by (metis power_not_zero unat_0 zero_neq_numeral)
    ultimately show ?thesis using new Cons s(1) sb(2) pb b2 n by (auto simp: copied_entries_def)
  qed
  then obtain new where new: "copied_entries p (replicate (unat (push_bit 1 (pr_blockIndexSize p))) null_entry) = Some (?n, new)"
      "2 ^ Suc s * bsz t \<le> 2 ^ 64" "length new = 2 ^ Suc s" "?n < 2 ^ Suc s"
      "\<forall>i<?n. new ! i = \<lparr> base = of_nat ((K + i) * bsz t), entry_block = Some (R ! i) \<rparr>" by blast
  let ?h = "\<lparr> header_size = 2 ^ Suc s, header_front = of_nat ?n - 1, entries = new \<rparr>"
  let ?p = "p \<lparr> index_allocs := tl (index_allocs p), blockIndex := ?h # blockIndex p, pr_blockIndexSize := 2 ^ Suc s, pr_blockIndexFront := of_nat ?n \<rparr>"
  have "explicit_new_block_index (of_nat ?n) p = Some (True, ?p)"
    using True new(1) s(1) by (simp add: explicit_new_block_index_def Let_def push_bit_eq_mult mult.commute)
  moreover have "unat (of_nat ?n :: size_t) = ?n" using n64 by (simp add: unat_of_nat_small)
  then have "index_rep t ?p R K" using header_rep_fresh[OF t new(2-5)]
    unfolding index_rep_def by (intro exI[of _ "Suc s"]) simp
  moreover have "?n < unat (pr_blockIndexSize ?p)" using new(4) pow2_words(2)[OF t new(2)] by simp
  ultimately show ?thesis by auto
qed

section \<open>Enqueueing\<close>

definition finish_entry :: "index_t \<Rightarrow> 'a explicit_producer \<Rightarrow> 'a explicit_producer option" where
  "finish_entry b p = do { p \<leftarrow> write_entry b p; p \<leftarrow> publish_front (pr_blockIndexFront p) p; Some (advance_front p) }"

lemma finish_entry_rep:
  assumes t: "traits_ok t" and p: "index_rep t p R K" "blockIndex p \<noteq> []" "length R < unat (pr_blockIndexSize p)" "tailBlock p = Some a"
  shows "\<exists>bi f. finish_entry (of_nat ((K + length R) * bsz t)) p = Some (p \<lparr> blockIndex := bi, pr_blockIndexFront := f \<rparr>) \<and>
    index_rep t (p \<lparr> blockIndex := bi, pr_blockIndexFront := f \<rparr>) (R @ [a]) K"
proof -
  obtain s h hs where h: "pr_blockIndexSize p = 2 ^ s" "blockIndex p = h # hs" "header_rep t h s (unat (pr_blockIndexFront p)) R K"
    using p(1,2) by (cases "blockIndex p") (auto simp: index_rep_def)
  let ?f = "pr_blockIndexFront p"
  have F: "unat ?f < 2 ^ s" "length (entries h) = 2 ^ s" and "2 ^ s * bsz t \<le> 2 ^ 64" using h(3) by (auto simp: header_rep_def)
  note sb = pow2_words[OF t this(3)]
  have l: "length R < 2 ^ s" using p(3) h(1) sb(2) by simp
  let ?h = "h \<lparr> entries := (entries h)[unat ?f := \<lparr> base = of_nat ((K + length R) * bsz t), entry_block = Some a \<rparr>], header_front := ?f \<rparr>"
  have "header_rep t ?h s ((unat ?f + 1) mod 2 ^ s) (R @ [a]) K" using header_rep_append[OF h(3) l refl] .
  moreover have "unat ((?f + 1) AND (2 ^ s - 1)) = (unat ?f + 1) mod 2 ^ s" using sb(1) by (simp add: unat_plus_mask)
  ultimately have "index_rep t (p \<lparr> blockIndex := ?h # hs, pr_blockIndexFront := (?f + 1) AND (2 ^ s - 1) \<rparr>) (R @ [a]) K"
    using h(1) unfolding index_rep_def by (intro exI[of _ s]) simp
  moreover have "finish_entry (of_nat ((K + length R) * bsz t)) p =
      Some (p \<lparr> blockIndex := ?h # hs, pr_blockIndexFront := (?f + 1) AND (2 ^ s - 1) \<rparr>)"
    using h(1,2) F p(4) by (simp add: finish_entry_def write_entry_def publish_front_def advance_front_def ensure_def)
  ultimately show ?thesis by blast
qed

lemma construct_tail_Some:
  assumes "tailBlock p = Some a" "block_slot t i < length (elements (heap p a))"
  shows "construct_tail t i x p = Some (p \<lparr> heap := (heap p)(a := (heap p a) \<lparr> elements := (elements (heap p a))[block_slot t i := Some x] \<rparr>) \<rparr>)"
  using assms by (simp add: construct_tail_def construct_at_def ensure_def write_block_def)

lemma block_pos:
  assumes "(k :: nat) * B \<le> m" "m < (k + 1) * B"
  shows "m div B = k" "m mod B = m - k * B"
proof -
  show d: "m div B = k" using assms by (intro div_nat_eqI) (auto simp: mult.commute)
  show "m mod B = m - k * B" unfolding d[symmetric] by (simp add: minus_div_mult_eq_mod)
qed

lemma block_pos_unique:
  assumes "(k :: nat) * B + s = k' * B + s'" "s < B" "s' < B"
  shows "k = k'" "s = s'"
proof -
  have "(k * B + s) div B = k" "(k' * B + s') div B = k'" using assms(2,3) by auto
  then show "k = k'" using assms(1) by metis
  then show "s = s'" using assms(1) by simp
qed

lemma dequeued_from_elements: "dequeued_from t c (b \<lparr> elements := e \<rparr>) D = dequeued_from t c b D"
  by (simp add: dequeued_from_def)

text \<open>A new element at the tail.\<close>

lemma block_rep_construct:
  assumes b: "block_rep t cx b k H q" "length (elements b) = bsz t" and T: "H + length q = k * bsz t + s" "s < bsz t"
  shows "block_rep t cx (b \<lparr> elements := (elements b)[s := Some x] \<rparr>) k H (q @ [x])"
proof -
  have "(elements b)[s := Some x] ! r = Some ((q @ [x]) ! (k * bsz t + r - H))"
    if "r < bsz t" "H \<le> k * bsz t + r" "k * bsz t + r < H + length (q @ [x])" for r
  proof (cases "r = s")
    case True
    then show ?thesis using b(2) T by (simp add: nth_append flip: T(1))
  next
    case False
    then have "k * bsz t + r < H + length q" using that(3) T(1) by simp
    then show ?thesis using b(1) that False by (auto simp: block_rep_def nth_append)
  qed
  then show ?thesis using b(1) by (simp add: block_rep_def dequeued_from_elements)
qed

lemma block_rep_longer:
  assumes "block_rep t cx b k H q" "H + length q < k * bsz t \<or> (k + 1) * bsz t \<le> H + length q"
  shows "block_rep t cx b k H (q @ [x])"
proof -
  have "elements b ! r = Some ((q @ [x]) ! (k * bsz t + r - H))"
    if "r < bsz t" "H \<le> k * bsz t + r" "k * bsz t + r < H + length (q @ [x])" for r
  proof -
    have "k * bsz t + r < H + length q" using that assms(2) by auto
    then show ?thesis using assms(1) that by (auto simp: block_rep_def nth_append)
  qed
  then show ?thesis using assms(1) by (simp add: block_rep_def)
qed

lemma blocks_rep_construct:
  assumes b: "blocks_rep t cx p R K H q" "distinct R" "R \<noteq> []" "a = last R" "length (elements (heap p a)) = bsz t"
    and T: "(K + length R - 1) * bsz t \<le> H + length q" "H + length q < (K + length R) * bsz t"
    and p': "heap p' = (heap p)(a := (heap p a) \<lparr> elements := (elements (heap p a))[(H + length q) mod bsz t := Some x] \<rparr>)"
  shows "blocks_rep t cx p' R K H (q @ [x])"
  unfolding blocks_rep_def
proof (intro allI impI)
  fix i assume i: "i < length R"
  let ?n = "length R" and ?k = "K + length R - 1"
  have k: "?k = K + (?n - 1)" "?k + 1 = K + ?n" using b(3) by (cases R; simp)+
  have m: "(H + length q) mod bsz t = H + length q - ?k * bsz t"
    using T k(2) by (intro block_pos) simp_all
  have a: "a = R ! (?n - 1)" using b(3,4) by (simp add: last_conv_nth)
  show "block_rep t cx (heap p' (R ! i)) (K + i) H (q @ [x])"
  proof (cases "i = ?n - 1")
    case True
    have "block_rep t cx (heap p (R ! i)) (K + i) H q" using b(1) i by (simp add: blocks_rep_def)
    then have "block_rep t cx (heap p a) ?k H q" using True a k by (simp only:)
    then have "block_rep t cx (heap p' a) ?k H (q @ [x])" unfolding p' fun_upd_same
      using T k(2) m b(5) by (intro block_rep_construct) (auto simp: less_diff_conv2 algebra_simps)
    then show ?thesis using True a k by (simp only:)
  next
    case False
    then have "R ! i \<noteq> a" using a b(2) i b(3) by (simp add: nth_eq_iff_index_eq)
    moreover have "(K + i + 1) * bsz t \<le> ?k * bsz t" using False i k by (intro mult_right_mono) auto
    then have "(K + i + 1) * bsz t \<le> H + length q" using T(1) by linarith
    ultimately show ?thesis using b(1) i p' by (auto simp: blocks_rep_def intro!: block_rep_longer)
  qed
qed

text \<open>The fields that only the producer uses do not matter for the blocks, the ring and the counters.\<close>

lemma rep_index_irrelevant [simp]:
  fixes p :: "'a explicit_producer"
  shows "counters_rep (p \<lparr> pr_blockIndexSlotsUsed := n \<rparr>) H T = counters_rep p H T"
    "counters_rep (p \<lparr> pr_blockIndexFront := f \<rparr>) H T = counters_rep p H T"
    "counters_rep (p \<lparr> pr_blockIndexSize := n \<rparr>) H T = counters_rep p H T"
    "counters_rep (p \<lparr> blockIndex := bi \<rparr>) H T = counters_rep p H T"
    "counters_rep (p \<lparr> index_allocs := al \<rparr>) H T = counters_rep p H T"
    "counters_rep (p \<lparr> heap := hp \<rparr>) H T = counters_rep p H T"
    "counters_rep (p \<lparr> tailBlock := tb \<rparr>) H T = counters_rep p H T"
    "counters_rep (p \<lparr> pool := bp \<rparr>) H T = counters_rep p H T"
    "pool_blocks (p \<lparr> pr_blockIndexSlotsUsed := n \<rparr>) = pool_blocks p"
    "pool_blocks (p \<lparr> pr_blockIndexFront := f \<rparr>) = pool_blocks p"
    "pool_blocks (p \<lparr> pr_blockIndexSize := n \<rparr>) = pool_blocks p"
    "pool_blocks (p \<lparr> blockIndex := bi \<rparr>) = pool_blocks p"
    "pool_blocks (p \<lparr> index_allocs := al \<rparr>) = pool_blocks p"
    "pool_blocks (p \<lparr> heap := hp \<rparr>) = pool_blocks p"
    "pool_blocks (p \<lparr> tailBlock := tb \<rparr>) = pool_blocks p"
    "pool_blocks (p \<lparr> tailIndex := i \<rparr>) = pool_blocks p"
    "blocks_ok t (p \<lparr> pr_blockIndexSlotsUsed := n \<rparr>) R = blocks_ok t p R"
    "blocks_ok t (p \<lparr> pr_blockIndexFront := f \<rparr>) R = blocks_ok t p R"
    "blocks_ok t (p \<lparr> pr_blockIndexSize := n \<rparr>) R = blocks_ok t p R"
    "blocks_ok t (p \<lparr> blockIndex := bi \<rparr>) R = blocks_ok t p R"
    "blocks_ok t (p \<lparr> index_allocs := al \<rparr>) R = blocks_ok t p R"
    "blocks_ok t (p \<lparr> tailBlock := tb \<rparr>) R = blocks_ok t p R"
    "blocks_ok t (p \<lparr> tailIndex := i \<rparr>) R = blocks_ok t p R"
    "ring_links (p \<lparr> pr_blockIndexSlotsUsed := n \<rparr>) R = ring_links p R"
    "ring_links (p \<lparr> pr_blockIndexFront := f \<rparr>) R = ring_links p R"
    "ring_links (p \<lparr> pr_blockIndexSize := n \<rparr>) R = ring_links p R"
    "ring_links (p \<lparr> blockIndex := bi \<rparr>) R = ring_links p R"
    "ring_links (p \<lparr> index_allocs := al \<rparr>) R = ring_links p R"
    "ring_links (p \<lparr> pool := bp \<rparr>) R = ring_links p R"
    "ring_links (p \<lparr> tailIndex := i \<rparr>) R = ring_links p R"
    "blocks_rep t explicit_context (p \<lparr> pr_blockIndexSlotsUsed := n \<rparr>) R K H q = blocks_rep t explicit_context p R K H q"
    "blocks_rep t explicit_context (p \<lparr> pr_blockIndexFront := f \<rparr>) R K H q = blocks_rep t explicit_context p R K H q"
    "blocks_rep t explicit_context (p \<lparr> pr_blockIndexSize := n \<rparr>) R K H q = blocks_rep t explicit_context p R K H q"
    "blocks_rep t explicit_context (p \<lparr> blockIndex := bi \<rparr>) R K H q = blocks_rep t explicit_context p R K H q"
    "blocks_rep t explicit_context (p \<lparr> index_allocs := al \<rparr>) R K H q = blocks_rep t explicit_context p R K H q"
    "blocks_rep t explicit_context (p \<lparr> pool := bp \<rparr>) R K H q = blocks_rep t explicit_context p R K H q"
    "blocks_rep t explicit_context (p \<lparr> tailBlock := tb \<rparr>) R K H q = blocks_rep t explicit_context p R K H q"
    "blocks_rep t explicit_context (p \<lparr> tailIndex := i \<rparr>) R K H q = blocks_rep t explicit_context p R K H q"
    "index_rep t (p \<lparr> pr_blockIndexSlotsUsed := n \<rparr>) R K = index_rep t p R K"
    "index_rep t (p \<lparr> heap := hp \<rparr>) R K = index_rep t p R K"
    "index_rep t (p \<lparr> pool := bp \<rparr>) R K = index_rep t p R K"
    "index_rep t (p \<lparr> tailBlock := tb \<rparr>) R K = index_rep t p R K"
    "index_rep t (p \<lparr> tailIndex := i \<rparr>) R K = index_rep t p R K"
    "index_rep t (p \<lparr> headIndex := i \<rparr>) R K = index_rep t p R K"
    "index_rep t (p \<lparr> dequeueOptimisticCount := i \<rparr>) R K = index_rep t p R K"
    "index_rep t (p \<lparr> dequeueOvercommit := i \<rparr>) R K = index_rep t p R K"
  by (simp_all add: counters_rep_def pool_blocks_def blocks_ok_def ring_links_def blocks_rep_def index_rep_def cong: list.case_cong)

text \<open>A block has been started and is the tail block, but is not in the index yet.\<close>

definition started :: "traits \<Rightarrow> 'a explicit_producer \<Rightarrow> nat list \<Rightarrow> nat \<Rightarrow> nat \<Rightarrow> nat \<Rightarrow> 'a list \<Rightarrow> bool" where
  "started t p R a K H q \<longleftrightarrow>
     K * bsz t \<le> H \<and> H + length q = (K + length R) * bsz t \<and> counters_rep p H (H + length q) \<and>
     blocks_ok t p (R @ [a]) \<and> ring_links p (R @ [a]) \<and> blocks_rep t explicit_context p (R @ [a]) K H q \<and>
     index_rep t p R K \<and> blockIndex p \<noteq> [] \<and> length R < unat (pr_blockIndexSize p) \<and>
     pr_blockIndexSlotsUsed p = of_nat (Suc (length R))"

lemma block_rep_fresh:
  assumes "dequeued_from t cx b {}" "H + length q \<le> k * bsz t"
  shows "block_rep t cx b k H q"
proof -
  have "dequeued_slots t k H = {}" using assms(2) by (auto simp: dequeued_slots_def)
  then show ?thesis using assms by (auto simp: block_rep_def)
qed

lemma dequeued_slots_all:
  assumes "traits_ok t"
  shows "dequeued_slots t k H = {..<bsz t} \<longleftrightarrow> (k + 1) * bsz t \<le> H"
proof
  assume "dequeued_slots t k H = {..<bsz t}"
  then have "bsz t - 1 \<in> dequeued_slots t k H" using BLOCK_SIZE_pos[OF assms] by simp
  then show "(k + 1) * bsz t \<le> H" using BLOCK_SIZE_pos[OF assms] by (simp add: dequeued_slots_def)
qed (auto simp: dequeued_slots_def)

lemma first_block_empty:
  assumes "traits_ok t" "block_rep t cx b k H q"
  shows "is_empty t cx b = Some ((k + 1) * bsz t \<le> H)"
  using is_empty_iff[of t cx b "dequeued_slots t k H"] assms(2) dequeued_slots_all[OF assms(1)] by (simp add: block_rep_def)

lemma T_at_boundary:
  assumes "traits_ok t" "explicit_rep t p R K H q" "(H + length q) mod bsz t = 0"
  shows "H + length q = (K + length R) * bsz t"
proof (cases "R = []")
  case False
  then have r: "(K + length R - 1) * bsz t < H + length q" "H + length q \<le> (K + length R) * bsz t"
    using assms(2) by (auto simp: explicit_rep_def)
  show ?thesis
  proof (rule ccontr)
    assume "H + length q \<noteq> (K + length R) * bsz t"
    then have "(H + length q) mod bsz t = H + length q - (K + length R - 1) * bsz t"
      using r False by (intro block_pos) (auto simp: Suc_diff_le)
    then show False using assms(3) r by simp
  qed
qed (use assms(2) in \<open>auto simp: explicit_rep_def\<close>)

lemma started_reuse:
  assumes t: "traits_ok t" and r: "explicit_rep t p R K H q" and T: "(H + length q) mod bsz t = 0"
    and R: "R = a # R'" and e: "(K + 1) * bsz t \<le> H"
  shows "started t (write_block a (reset_empty t explicit_context (heap p a)) (p \<lparr> tailBlock := Some a \<rparr>)) R' a (K + 1) H q"
proof -
  let ?p = "write_block a (reset_empty t explicit_context (heap p a)) (p \<lparr> tailBlock := Some a \<rparr>)"
  note r' = r[unfolded explicit_rep_def]
  note T2 = T_at_boundary[OF t r T]
  have d: "distinct R" "R ! 0 = a" using r' R by (auto simp: blocks_ok_def)
  have "ring_links ?p (R' @ [a])"
  proof -
    have rot: "R' @ [a] = rotate1 R" using R by simp
    have l: "blockNext (heap ?p x) = blockNext (heap p x)" for x by (simp add: write_block_def)
    have "blockNext (heap p (R ! i)) = Some (R ! (Suc i mod length R))" if "i < length R" for i
      using r' that by (simp add: ring_links_def)
    then have "blockNext (heap ?p (rotate1 R ! i)) = Some (rotate1 R ! (Suc i mod length R))" if "i < length R" for i
      using that R by (simp only: l nth_rotate1 mod_less_divisor length_greater_0_conv list.simps not_False_eq_True)
    then have "blockNext (heap ?p ((R' @ [a]) ! i)) = Some ((R' @ [a]) ! (Suc i mod length (R' @ [a])))"
      if "i < length (R' @ [a])" for i using that unfolding rot by simp
    then show ?thesis by (simp add: ring_links_def) (simp add: write_block_def)
  qed
  moreover have "blocks_ok t ?p (R' @ [a])"
    using r' R by (auto simp: blocks_ok_def write_block_def pool_blocks_def)
  moreover have "blocks_rep t explicit_context ?p (R' @ [a]) (K + 1) H q"
    unfolding blocks_rep_def
  proof (intro allI impI)
    fix i assume i: "i < length (R' @ [a])"
    show "block_rep t explicit_context (heap ?p ((R' @ [a]) ! i)) (K + 1 + i) H q"
    proof (cases "i = length R'")
      case True
      then show ?thesis using T2 R by (auto simp: write_block_def intro!: block_rep_fresh dequeued_from_reset)
    next
      case False
      then have "(R' @ [a]) ! i = R ! Suc i" "R ! Suc i \<noteq> a" "Suc i < length R"
        using i R d(1) by (auto simp: nth_append)
      moreover have "block_rep t explicit_context (heap p (R ! Suc i)) (K + Suc i) H q"
        using r'[unfolded blocks_rep_def] \<open>Suc i < length R\<close> by blast
      ultimately show ?thesis by (simp add: write_block_def)
    qed
  qed
  moreover have "index_rep t ?p R' (K + 1) \<and> length R' < unat (pr_blockIndexSize ?p) \<and> blockIndex ?p \<noteq> []"
  proof -
    obtain s h hs where h: "pr_blockIndexSize p = 2 ^ s" "blockIndex p = h # hs" "header_rep t h s (unat (pr_blockIndexFront p)) R K"
      using r' R by (cases "blockIndex p") (auto simp: index_rep_def)
    have "header_rep t h s (unat (pr_blockIndexFront p)) R' (K + 1)"
    proof -
      let ?F = "unat (pr_blockIndexFront p)"
      have l: "length R \<le> 2 ^ s" "?F < 2 ^ s" using h(3) by (auto simp: header_rep_def)
      have "entries h ! ((?F + 2 ^ s - length R' + i) mod 2 ^ s) = \<lparr> base = of_nat ((K + 1 + i) * bsz t), entry_block = Some (R' ! i) \<rparr>"
        if "i < length R'" for i
      proof -
        have "entries h ! ((?F + 2 ^ s - length R + Suc i) mod 2 ^ s) = \<lparr> base = of_nat ((K + Suc i) * bsz t), entry_block = Some (R ! Suc i) \<rparr>"
        proof -
          have "Suc i < length R" using that R by simp
          then show ?thesis using h(3)[unfolded header_rep_def] by blast
        qed
        moreover have e: "?F + 2 ^ s - length R + Suc i = ?F + 2 ^ s - length R' + i" "K + Suc i = K + 1 + i" "R ! Suc i = R' ! i"
          using R l by simp_all
        ultimately show ?thesis unfolding e by (simp only:)
      qed
      then show ?thesis using h(3) R by (simp add: header_rep_def)
    qed
    moreover have "length R' < 2 ^ s" "2 ^ s * bsz t \<le> 2 ^ 64" using h(3) R by (auto simp: header_rep_def)
    ultimately show ?thesis using h(1,2) pow2_words(2)[OF t] unfolding index_rep_def
      by (auto simp: write_block_def intro!: exI[of _ s])
  qed
  ultimately show ?thesis using r' R e T2 by (simp add: started_def write_block_def)
qed

lemma explicit_rep_memory:
  assumes "traits_ok t" "explicit_rep t p R K H q"
  shows "length R * bsz t < 2 ^ 63" "length q < 2 ^ 63"
proof -
  show m: "length R * bsz t < 2 ^ 63"
  proof -
    have "length R * bsz t \<le> length (R @ pool_blocks p) * bsz t" by (intro mult_right_mono) auto
    then show ?thesis using assms(2) unfolding explicit_rep_def blocks_ok_def by linarith
  qed
  have "length q \<le> length R * bsz t" using assms(2) by (auto simp: explicit_rep_def algebra_simps)
  then show "length q < 2 ^ 63" using m by linarith
qed

lemma explicit_rep_index_update:
  assumes "explicit_rep t p R K H q" "index_rep t p' R K"
    and "p' = p \<lparr> index_allocs := al, blockIndex := bi, pr_blockIndexSize := sz, pr_blockIndexFront := f \<rparr>"
  shows "explicit_rep t p' R K H q"
  using assms by (simp add: explicit_rep_def)

lemma ensure_index_room_rep:
  assumes t: "traits_ok t" and r: "explicit_rep t p R K H q"
  shows "\<exists>ok p'. ensure_index_room m (pr_blockIndexSlotsUsed p) p = Some (ok, p') \<and> explicit_rep t p' R K H q \<and>
    pool p' = pool p \<and> heap p' = heap p \<and> tailBlock p' = tailBlock p \<and> (ok \<longrightarrow> blockIndex p' \<noteq> [] \<and> length R < unat (pr_blockIndexSize p'))"
proof -
  note r' = r[unfolded explicit_rep_def]
  show ?thesis
  proof (cases "blockIndex p = [] \<or> pr_blockIndexSlotsUsed p = pr_blockIndexSize p")
    case False
    then obtain s h hs where h: "pr_blockIndexSize p = 2 ^ s" "blockIndex p = h # hs" "header_rep t h s (unat (pr_blockIndexFront p)) R K"
      using r' by (cases "blockIndex p") (auto simp: index_rep_def)
    then have l: "length R \<le> 2 ^ s" "2 ^ s * bsz t \<le> 2 ^ 64" by (auto simp: header_rep_def)
    moreover have "length R \<noteq> 2 ^ s"
    proof
      assume "length R = 2 ^ s"
      then have "pr_blockIndexSlotsUsed p = 2 ^ s" using r' by simp
      then show False using False h(1) by simp
    qed
    ultimately have "length R < unat (pr_blockIndexSize p)" using h(1) pow2_words(2)[OF t l(2)] by simp
    then show ?thesis using False r by (auto simp: ensure_index_room_def)
  next
    case True
    show ?thesis
    proof (cases "m = CannotAlloc")
      case True
      then show ?thesis using r \<open>blockIndex p = [] \<or> _\<close> by (auto simp: ensure_index_room_def)
    next
      case False
      have s: "pr_blockIndexSlotsUsed p = of_nat (length R)" "index_rep t p R K" using r' by auto
      obtain ok p' bi sz f where p': "explicit_new_block_index (of_nat (length R)) p = Some (ok, p')"
          "p' = p \<lparr> index_allocs := tl (index_allocs p), blockIndex := bi, pr_blockIndexSize := sz, pr_blockIndexFront := f \<rparr>"
          "index_rep t p' R K" "ok \<longrightarrow> length R < unat (pr_blockIndexSize p') \<and> blockIndex p' \<noteq> []"
        using new_block_index_rep[OF t s(2,1) True explicit_rep_memory(1)[OF t r]] by blast
      moreover have "explicit_rep t p' R K H q" using explicit_rep_index_update[OF r p'(3,2)] .
      moreover have "pool p' = pool p \<and> heap p' = heap p \<and> tailBlock p' = tailBlock p" using p'(2) by simp
      ultimately show ?thesis using True False s(1) by (simp add: ensure_index_room_def)
    qed
  qed
qed

lemma started_fresh:
  assumes t: "traits_ok t" and r: "explicit_rep t p R K H q" and T: "(H + length q) mod bsz t = 0"
    and p: "pool_left (pool p) = a # pool_left bp" "pool_ok bp" "blockIndex p \<noteq> []" "length R < unat (pr_blockIndexSize p)"
  shows "started t ((link_block a (write_block a (reset_empty t explicit_context (heap p a)) (p \<lparr> pool := bp \<rparr>)))
     \<lparr> pr_blockIndexSlotsUsed := pr_blockIndexSlotsUsed p + 1 \<rparr>) R a K H q"
proof -
  let ?b = "reset_empty t explicit_context (heap p a)"
  let ?p = "link_block a (write_block a ?b (p \<lparr> pool := bp \<rparr>))"
  note r' = r[unfolded explicit_rep_def]
  note T2 = T_at_boundary[OF t r T]
  have ok: "distinct (R @ a # pool_blocks (p \<lparr> pool := bp \<rparr>))"
      "length (R @ a # pool_blocks (p \<lparr> pool := bp \<rparr>)) * bsz t < 2 ^ 63"
      "\<forall>x\<in>set (R @ a # pool_blocks (p \<lparr> pool := bp \<rparr>)). length (elements (heap p x)) = bsz t"
    using r' p(1) by (auto simp: blocks_ok_def pool_blocks_def)
  have same: "elements (heap ?p x) = elements (heap p x)"
      "elementsCompletelyDequeued (heap ?p x) = elementsCompletelyDequeued (if x = a then ?b else heap p x)"
      "emptyFlags (heap ?p x) = emptyFlags (if x = a then ?b else heap p x)" for x
    by (auto simp: link_block_def write_block_def Let_def split: option.splits)
  have f: "tailIndex ?p = tailIndex p" "headIndex ?p = headIndex p" "dequeueOptimisticCount ?p = dequeueOptimisticCount p"
    "dequeueOvercommit ?p = dequeueOvercommit p" "pool ?p = bp" "tailBlock ?p = Some a" "blockIndex ?p = blockIndex p"
    "pr_blockIndexSize ?p = pr_blockIndexSize p" "pr_blockIndexFront ?p = pr_blockIndexFront p"
    by (auto simp: link_block_def write_block_def Let_def split: option.splits)
  have d: "dequeued_from t explicit_context (heap ?p x) D = dequeued_from t explicit_context (if x = a then ?b else heap p x) D" for x D
    by (simp add: dequeued_from_def same)
  have "ring_links ?p (R @ [a])"
  proof (cases "R = []")
    case True
    then show ?thesis using r' by (simp add: ring_links_def link_block_def write_block_def)
  next
    case False
    then have tb: "tailBlock p = Some (last R)" "blockNext (heap p (last R)) = Some (hd R)" "last R \<noteq> a"
      using r' ok(1) by (auto simp: ring_links_def last_conv_nth hd_conv_nth)
    have n: "blockNext (heap ?p x) = (if x = last R then Some a else if x = a then Some (hd R) else blockNext (heap p x))" for x
      using tb by (simp add: link_block_def write_block_def Let_def)
    have "blockNext (heap ?p ((R @ [a]) ! i)) = Some ((R @ [a]) ! (Suc i mod length (R @ [a])))" if i: "i < length (R @ [a])" for i
    proof -
      consider "i = length R" | "i = length R - 1" "i < length R" | "i < length R - 1" using i by force
      then show ?thesis
      proof cases
        case 1
        then show ?thesis using n tb(3) False by (simp add: nth_append hd_conv_nth)
      next
        case 2
        then show ?thesis using n False by (simp add: nth_append last_conv_nth)
      next
        case 3
        then have "R ! i \<noteq> last R" "R ! i \<noteq> a" using ok(1) False by (auto simp: last_conv_nth nth_eq_iff_index_eq)
        moreover have "blockNext (heap p (R ! i)) = Some (R ! Suc i)" using r' 3 by (simp add: ring_links_def)
        moreover have "Suc i < length R" "i < length R" using 3 by simp_all
        ultimately show ?thesis using n by (simp add: nth_append)
      qed
    qed
    then show ?thesis using f(6) by (simp add: ring_links_def)
  qed
  moreover have "blocks_rep t explicit_context ?p (R @ [a]) K H q"
    unfolding blocks_rep_def
  proof (intro allI impI)
    fix i assume i: "i < length (R @ [a])"
    show "block_rep t explicit_context (heap ?p ((R @ [a]) ! i)) (K + i) H q"
    proof (cases "i = length R")
      case True
      then show ?thesis using T2 by (auto simp: d intro!: block_rep_fresh dequeued_from_reset)
    next
      case False
      then have "R ! i \<noteq> a" "block_rep t explicit_context (heap p (R ! i)) (K + i) H q" using i ok(1) r' by (auto simp: blocks_rep_def)
      then show ?thesis using False i by (simp add: block_rep_def d same nth_append)
    qed
  qed
  moreover have "blocks_ok t ?p (R @ [a])" using ok f(5) p(2) by (auto simp: blocks_ok_def same pool_blocks_def)
  moreover have "index_rep t ?p R K" using r' unfolding index_rep_def f by blast
  moreover have "counters_rep ?p H (H + length q)" using r' unfolding counters_rep_def f by blast
  ultimately show ?thesis using r' T2 p f by (simp add: started_def)
qed

lemma explicit_fresh_block_rep:
  assumes t: "traits_ok t" and r: "explicit_rep t p R K H q" and T: "(H + length q) mod bsz t = 0"
  shows "\<exists>ok p'. explicit_fresh_block t m p = Some (ok, p') \<and>
    (if ok then \<exists>R' K' a. started t p' R' a K' H q else explicit_rep t p' R K H q)"
proof -
  have assert: "\<not> circular_less_than (tailIndex p) (headIndex p)"
    using r explicit_rep_memory(2)[OF t r] circular_less_than_of_nat(2)[of H "H + length q"]
    by (simp add: explicit_rep_def counters_rep_def)
  show ?thesis
  proof (cases "subqueue_full t (headIndex p) (tailIndex p)")
    case True
    then show ?thesis using assert r by (auto simp: explicit_fresh_block_def ensure_def)
  next
    case False
    obtain ok p1 where p1: "ensure_index_room m (pr_blockIndexSlotsUsed p) p = Some (ok, p1)" "explicit_rep t p1 R K H q"
        "ok \<longrightarrow> blockIndex p1 \<noteq> [] \<and> length R < unat (pr_blockIndexSize p1)"
      using ensure_index_room_rep[OF t r] by blast
    obtain x bp where x: "requisition_block m (pool p1) = (x, bp)" by force
    have left: "pool_left (pool p1) = (case x of None \<Rightarrow> [] | Some a \<Rightarrow> [a]) @ pool_left bp" "pool_ok bp"
      using requisition_block_first[OF x] p1(2) by (auto simp: explicit_rep_def blocks_ok_def)
    have ev: "explicit_fresh_block t m p =
        (if \<not> ok then Some (False, p1)
         else case x of
                None \<Rightarrow> Some (False, p1 \<lparr> pool := bp \<rparr>)
              | Some a \<Rightarrow>
                  let p = p1 \<lparr> pool := bp \<rparr>; p = link_block a (write_block a (reset_empty t explicit_context (heap p a)) p)
                  in Some (True, p \<lparr> pr_blockIndexSlotsUsed := pr_blockIndexSlotsUsed p + 1 \<rparr>))"
      using assert False p1(1) x by (simp add: explicit_fresh_block_def ensure_def)
    show ?thesis
    proof (cases ok)
      case False
      then show ?thesis using ev p1(2) by auto
    next
      case True
      show ?thesis
      proof (cases x)
        case None
        have "explicit_rep t (p1 \<lparr> pool := bp \<rparr>) R K H q"
          using p1(2) left None by (simp add: explicit_rep_def blocks_ok_def pool_blocks_def)
        then show ?thesis using ev True None by auto
      next
        case (Some a)
        have s: "pr_blockIndexSlotsUsed (link_block a (write_block a b p2)) = pr_blockIndexSlotsUsed p2" for b and p2 :: "'a explicit_producer"
          by (auto simp: link_block_def write_block_def Let_def split: option.splits)
        have "pool_left (pool p1) = a # pool_left bp" using left Some by simp
        then have "started t (link_block a (write_block a (reset_empty t explicit_context (heap p1 a)) (p1 \<lparr> pool := bp \<rparr>))
            \<lparr> pr_blockIndexSlotsUsed := pr_blockIndexSlotsUsed p1 + 1 \<rparr>) R a K H q"
          using started_fresh[OF t p1(2) T] left(2) p1(3) True by blast
        then show ?thesis using ev True Some by (auto simp: s)
      qed
    qed
  qed
qed

lemma explicit_start_block_rep:
  assumes t: "traits_ok t" and r: "explicit_rep t p R K H q" and T: "(H + length q) mod bsz t = 0"
  shows "\<exists>ok p'. explicit_start_block t m p = Some (ok, p') \<and>
    (if ok then \<exists>R' K' a. started t p' R' a K' H q else explicit_rep t p' R K H q)"
proof (cases R)
  case Nil
  then have "tailBlock p = None" using r by (simp add: explicit_rep_def ring_links_def)
  then show ?thesis using explicit_fresh_block_rep[OF assms] by (simp add: explicit_start_block_def)
next
  case (Cons a R')
  have links: "tailBlock p = Some (last R)" "blockNext (heap p (last R)) = Some a"
    using r Cons by (auto simp: explicit_rep_def ring_links_def last_conv_nth dest: spec[of _ "length R - 1"])
  have "block_rep t explicit_context (heap p (R ! 0)) (K + 0) H q"
    using r Cons unfolding explicit_rep_def blocks_rep_def by blast
  then have e: "is_empty t explicit_context (heap p a) = Some ((K + 1) * bsz t \<le> H)"
    using first_block_empty[OF t] Cons by simp
  show ?thesis
  proof (cases "(K + 1) * bsz t \<le> H")
    case True
    then show ?thesis using started_reuse[OF t r T Cons True] links e by (auto simp: explicit_start_block_def)
  next
    case False
    then show ?thesis using explicit_fresh_block_rep[OF assms] links e by (simp add: explicit_start_block_def)
  qed
qed

lemma ring_links_elements:
  assumes "heap p' = (heap p)(a := (heap p a) \<lparr> elements := e \<rparr>)" "tailBlock p' = tailBlock p"
  shows "ring_links p' R = ring_links p R"
proof -
  have "blockNext (heap p' x) = blockNext (heap p x)" for x using assms(1) by simp
  then show ?thesis using assms(2) by (simp add: ring_links_def)
qed

text \<open>The rest of an enqueue after a block has been started.\<close>

lemma started_finish:
  assumes t: "traits_ok t" and s: "started t p R a K H q"
    and f: "finish_entry (of_nat ((K + length R) * bsz t)) p = Some (p \<lparr> blockIndex := bi, pr_blockIndexFront := f \<rparr>)"
      "index_rep t (p \<lparr> blockIndex := bi, pr_blockIndexFront := f \<rparr>) (R @ [a]) K"
    and p': "p' = p \<lparr> blockIndex := bi, pr_blockIndexFront := f,
      heap := (heap p)(a := (heap p a) \<lparr> elements := (elements (heap p a))[(H + length q) mod bsz t := Some x] \<rparr>),
      tailIndex := 1 + of_nat (H + length q) \<rparr>"
  shows "explicit_rep t p' (R @ [a]) K H (q @ [x])"
proof -
  note s' = s[unfolded started_def]
  have B: "0 < bsz t" using BLOCK_SIZE_pos[OF t] .
  have l: "length (elements (heap p a)) = bsz t" "distinct (R @ [a])" using s' by (auto simp: blocks_ok_def)
  have hp: "heap p' = (heap p)(a := (heap p a) \<lparr> elements := (elements (heap p a))[(H + length q) mod bsz t := Some x] \<rparr>)"
    using p' by simp
  have "blocks_rep t explicit_context p' (R @ [a]) K H (q @ [x])"
    using s' l B by (intro blocks_rep_construct[OF _ _ _ _ _ _ _ hp]) auto
  moreover have "blocks_ok t p' (R @ [a])"
    using s' hp l by (auto simp: blocks_ok_def pool_blocks_def p')
  moreover have "ring_links p' (R @ [a])"
    using s' ring_links_elements[OF hp] p' by simp
  moreover have "index_rep t p' (R @ [a]) K" using f(2) p' by simp
  moreover have "counters_rep p' H (H + length (q @ [x]))" using s' p' by (simp add: counters_rep_def)
  moreover have "pr_blockIndexSlotsUsed p' = of_nat (length (R @ [a]))" using s' p' by simp
  moreover have "H + length (q @ [x]) \<le> (K + length (R @ [a])) * bsz t" using s' B by simp
  ultimately show ?thesis using s' by (simp add: explicit_rep_def)
qed

lemma finish_entry_heap:
  assumes "finish_entry b p = Some (p \<lparr> blockIndex := bi, pr_blockIndexFront := f \<rparr>)"
  shows "finish_entry b (p \<lparr> heap := hp \<rparr>) = Some (p \<lparr> blockIndex := bi, pr_blockIndexFront := f, heap := hp \<rparr>)"
  using assms
  by (cases p) (auto simp: finish_entry_def write_entry_def publish_front_def advance_front_def ensure_def
      split: list.splits if_splits)

lemma explicit_enqueue_rep:
  assumes t: "traits_ok t" and r: "explicit_rep t p R K H q" and c: "c \<noteq> throwing_ctor True"
  shows "\<exists>b p' R' K'. explicit_enqueue t m c x p = Some (Return b, p') \<and> explicit_rep t p' R' K' H (if b then q @ [x] else q) \<and>
    (b \<or> (H + length q) mod bsz t = 0)"
proof -
  note r' = r[unfolded explicit_rep_def]
  have tail: "tailIndex p = of_nat (H + length q)" using r' by (simp add: counters_rep_def)
  have B: "0 < bsz t" using BLOCK_SIZE_pos[OF t] .
  show ?thesis
  proof (cases "(H + length q) mod bsz t = 0")
    case False
    then have b: "tailIndex p AND (BLOCK_SIZE t - 1) \<noteq> 0" unfolding tail at_boundary_iff[OF t] .
    have R: "R \<noteq> []"
    proof
      assume "R = []"
      then have "H + length q = K * bsz t" using r' by simp
      then show False using False by simp
    qed
    have lt: "H + length q < (K + length R) * bsz t"
      using r' False by (metis le_neq_implies_less mod_mult_self2_is_0)
    have tb: "tailBlock p = Some (last R)" "length (elements (heap p (last R))) = bsz t" "distinct R"
      using r' R by (auto simp: ring_links_def blocks_ok_def)
    have slot: "block_slot t (tailIndex p) = (H + length q) mod bsz t" unfolding tail by (rule block_slot_of_nat[OF t])
    let ?p = "p \<lparr> heap := (heap p)(last R := (heap p (last R))
        \<lparr> elements := (elements (heap p (last R)))[(H + length q) mod bsz t := Some x] \<rparr>) \<rparr>"
    let ?q = "?p \<lparr> tailIndex := 1 + tailIndex p \<rparr>"
    have "construct_tail t (tailIndex p) x p = Some ?p"
      using construct_tail_Some[OF tb(1)] tb(2) slot B by simp
    then have ev: "explicit_enqueue t m c x p = Some (Return True, ?q)"
      using b c by (simp add: explicit_enqueue_def Let_def)
    have "blocks_rep t explicit_context ?q R K H (q @ [x])"
      using r' R lt tb by (intro blocks_rep_construct[of t explicit_context p R K H q "last R"]) auto
    moreover have "blocks_ok t ?q R" using r' by (auto simp: blocks_ok_def pool_blocks_def)
    moreover have "ring_links ?q R" using r' ring_links_elements[of ?p p "last R"] by simp
    moreover have "counters_rep ?q H (H + length (q @ [x]))" using r' by (simp add: counters_rep_def)
    ultimately have "explicit_rep t ?q R K H (q @ [x])" using r' lt R by (auto simp: explicit_rep_def)
    then show ?thesis using ev by (intro exI[of _ True]) auto
  next
    case True
    then have b: "tailIndex p AND (BLOCK_SIZE t - 1) = 0" unfolding tail at_boundary_iff[OF t] .
    obtain ok p1 where p1: "explicit_start_block t m p = Some (ok, p1)"
        "if ok then \<exists>R' K' a. started t p1 R' a K' H q else explicit_rep t p1 R K H q"
      using explicit_start_block_rep[OF t r True] by blast
    show ?thesis
    proof (cases ok)
      case False
      then show ?thesis using b p1 True by (auto simp: explicit_enqueue_def Let_def)
    next
      case True
      then obtain R' K' a where s: "started t p1 R' a K' H q" using p1(2) by auto
      note s' = s[unfolded started_def]
      have tb: "tailBlock p1 = Some a" "length (elements (heap p1 a)) = bsz t"
        using s' by (auto simp: ring_links_def blocks_ok_def)
      obtain bi f where f: "finish_entry (of_nat ((K' + length R') * bsz t)) p1 = Some (p1 \<lparr> blockIndex := bi, pr_blockIndexFront := f \<rparr>)"
          "index_rep t (p1 \<lparr> blockIndex := bi, pr_blockIndexFront := f \<rparr>) (R' @ [a]) K'"
        using finish_entry_rep[OF t, of p1 R' K' a] s' tb by blast
      let ?slot = "(H + length q) mod bsz t"
      let ?hp = "(heap p1)(a := (heap p1 a) \<lparr> elements := (elements (heap p1 a))[?slot := Some x] \<rparr>)"
      let ?q = "p1 \<lparr> blockIndex := bi, pr_blockIndexFront := f, heap := ?hp, tailIndex := 1 + of_nat (H + length q) \<rparr>"
      have slot: "block_slot t (of_nat (H + length q)) = ?slot" by (rule block_slot_of_nat[OF t])
      have con: "construct_tail t (of_nat (H + length q)) x p2 = Some (p2 \<lparr> heap := ?hp \<rparr>)"
        if "tailBlock p2 = Some a" "heap p2 = heap p1" for p2 :: "'a explicit_producer"
        using construct_tail_Some[OF that(1)] that(2) tb(2) slot B by simp
      have T: "(K' + length R') * bsz t = H + length q" using s' by simp
      have "explicit_enqueue t m c x p = Some (Return True, ?q)"
      proof (cases "c = noexcept_ctor")
        case True
        then have "explicit_enqueue t m c x p =
            Option.bind (finish_entry (tailIndex p) p1)
              (\<lambda>p. Option.bind (construct_tail t (tailIndex p0) x p) (\<lambda>p. Some (Return True, p \<lparr> tailIndex := 1 + tailIndex p0 \<rparr>)))"
          if "p0 = p" for p0
          using b c p1(1) \<open>ok\<close> that by (simp add: explicit_enqueue_def finish_entry_def Let_def)
        then show ?thesis using f(1)[unfolded T] con tb(1) tail by simp
      next
        case False
        then have "explicit_enqueue t m c x p =
            Option.bind (construct_tail t (tailIndex p0) x p1)
              (\<lambda>p. Option.bind (finish_entry (tailIndex p0) p) (\<lambda>p. Some (Return True, p \<lparr> tailIndex := 1 + tailIndex p0 \<rparr>)))"
          if "p0 = p" for p0
          using b c p1(1) \<open>ok\<close> that by (simp add: explicit_enqueue_def finish_entry_def Let_def)
        then show ?thesis using finish_entry_heap[OF f(1)[unfolded T]] con tb(1) tail by simp
      qed
      then show ?thesis using started_finish[OF t s f refl] by (intro exI[of _ True]) auto
    qed
  qed
qed

section \<open>Dequeueing\<close>

lemma explicit_rep_head_block:
  assumes t: "traits_ok t" and r: "explicit_rep t p R K H q" and q: "q \<noteq> []"
  obtains i where "i < length R" "H div bsz t = K + i" "H mod bsz t = H - (K + i) * bsz t" "(K + i) * bsz t \<le> H" "H < (K + i + 1) * bsz t"
proof -
  note r' = r[unfolded explicit_rep_def]
  have B: "0 < bsz t" using BLOCK_SIZE_pos[OF t] .
  have K: "K \<le> H div bsz t" using r' B by (simp add: less_eq_div_iff_mult_less_eq)
  have "H < (K + length R) * bsz t" using r' q by (cases q) auto
  then have "H div bsz t < K + length R" using B by (simp add: div_less_iff_less_mult)
  then have "H div bsz t - K < length R" using K by simp
  moreover have e: "H div bsz t = K + (H div bsz t - K)" using K by simp
  moreover have "H mod bsz t = H - (K + (H div bsz t - K)) * bsz t" unfolding e[symmetric] by (simp add: minus_div_mult_eq_mod)
  moreover have "(K + (H div bsz t - K)) * bsz t \<le> H" unfolding e[symmetric] by (rule div_times_less_eq_dividend)
  moreover have "H < (K + (H div bsz t - K) + 1) * bsz t" unfolding e[symmetric]
    using B by (metis Suc_eq_plus1 add.commute dividend_less_div_times mult_Suc)
  ultimately show thesis using that by blast
qed

text \<open>The slots of an index header hold the blocks of the ring, from slot \<open>c\<close> on, around its end.\<close>

definition header_slots :: "index_header \<Rightarrow> nat \<Rightarrow> nat \<Rightarrow> nat list \<Rightarrow> bool" where
  "header_slots h s c R \<longleftrightarrow> s < 64 \<and> header_size h = 2 ^ s \<and> length (entries h) = 2 ^ s \<and>
     (\<forall>j<length R. entry_block (entries h ! ((c + j) mod 2 ^ s)) = Some (R ! j))"

lemma header_slots_entry:
  assumes "header_slots h s c R" "j < length R" "unat k = (c + j) mod 2 ^ s"
  shows "entry_at h k = Some (R ! j)"
  using assms by (simp add: header_slots_def entry_at_def ensure_def)

lemma explicit_index_slots:
  assumes t: "traits_ok t" and r: "explicit_rep t p R K H q" and i: "i < length R" "n div bsz t = K + i"
  shows "\<exists>h k s c. explicit_index_of t (of_nat n) p = Some (h, k) \<and> header_slots h s c R \<and> unat k = (c + i) mod 2 ^ s"
proof -
  note r' = r[unfolded explicit_rep_def]
  obtain s h hs where h: "pr_blockIndexSize p = 2 ^ s" "blockIndex p = h # hs" "header_rep t h s (unat (pr_blockIndexFront p)) R K"
    using r' i(1) by (cases "blockIndex p") (auto simp: index_rep_def)
  let ?F = "unat (pr_blockIndexFront p)" and ?n = "length R"
  have hr: "2 ^ s * bsz t \<le> 2 ^ 64" "header_size h = 2 ^ s" "length (entries h) = 2 ^ s" "?F < 2 ^ s" "?n \<le> 2 ^ s"
      "unat (header_front h) = (?F + 2 ^ s - 1) mod 2 ^ s"
      "\<And>j. j < ?n \<Longrightarrow> entries h ! ((?F + 2 ^ s - ?n + j) mod 2 ^ s) = \<lparr> base = of_nat ((K + j) * bsz t), entry_block = Some (R ! j) \<rparr>"
    using h(3) i(1) unfolding header_rep_def by auto
  have "entries h ! unat (header_front h) = \<lparr> base = of_nat ((K + (?n - 1)) * bsz t), entry_block = Some (R ! (?n - 1)) \<rparr>"
  proof -
    have e: "?F + 2 ^ s - ?n + (?n - 1) = ?F + 2 ^ s - 1" "?n - 1 < ?n" using i(1) hr(5) by simp_all
    show ?thesis using hr(7)[OF e(2)] unfolding hr(6) e(1) .
  qed
  moreover define d where "d = ?n - 1 - i"
  have e: "K + (?n - 1) = K + i + d" using i(1) d_def by simp
  ultimately have b: "base (entries h ! unat (header_front h)) = of_nat ((K + i + d) * bsz t)"
    by (simp only: index_entry.simps)
  define k where "k = (header_front h + index_offset t (of_nat n) (of_nat ((K + i + d) * bsz t))) AND (2 ^ s - 1)"
  note sb = pow2_words[OF t hr(1)]
  have "unat (header_front h) < length (entries h)" using hr(3,6) by simp
  then have ev: "explicit_index_of t (of_nat n) p = Some (h, k)"
    using h(2) hr(2) b by (simp add: explicit_index_of_def ensure_def k_def)
  have uk: "unat k = (unat (header_front h) + unat (index_offset t (of_nat n) (of_nat ((K + i + d) * bsz t)))) mod 2 ^ s"
    unfolding k_def using sb(1) by (intro unat_plus_mask) simp
  have "unat k = (?F + 2 ^ s - ?n + i) mod 2 ^ s"
  proof -
    have "d * bsz t \<le> ?n * bsz t" using d_def by (intro mult_right_mono) auto
    then have "d * bsz t < 2 ^ 63" using explicit_rep_memory(1)[OF t r] by linarith
    from index_offset_of_nat[OF t i(2) this hr(1), of "unat (header_front h)"]
    have "(unat k + d) mod 2 ^ s = unat (header_front h) mod 2 ^ s" unfolding uk by (simp add: mod_simps)
    also have "\<dots> = (?F + 2 ^ s - 1) mod 2 ^ s" using hr(6) by simp
    also have "?F + 2 ^ s - 1 = (?F + 2 ^ s - ?n + i) + d" using i(1) hr(5) d_def by simp
    finally have "(unat k + d) mod 2 ^ s = ((?F + 2 ^ s - ?n + i) + d) mod 2 ^ s" .
    then have "unat k mod 2 ^ s = (?F + 2 ^ s - ?n + i) mod 2 ^ s" by (rule mod_add_cancel)
    then show ?thesis using uk by simp
  qed
  moreover have "header_slots h s (?F + 2 ^ s - ?n) R" using hr(2,3,7) sb(1) by (simp add: header_slots_def)
  ultimately show ?thesis using ev by blast
qed

lemma explicit_index_of_rep:
  assumes t: "traits_ok t" and r: "explicit_rep t p R K H q" and i: "i < length R" "n div bsz t = K + i"
  shows "\<exists>h k. explicit_index_of t (of_nat n) p = Some (h, k) \<and> entry_at h k = Some (R ! i)"
  using explicit_index_slots[OF assms] header_slots_entry[OF _ i(1)] by blast

lemma dequeued_slots_Suc:
  assumes "H = k * bsz t + s" "s < bsz t"
  shows "dequeued_slots t k (Suc H) = insert s (dequeued_slots t k H)" "s \<notin> dequeued_slots t k H"
  using assms by (auto simp: dequeued_slots_def)

lemma dequeued_slots_other:
  assumes "H div bsz t \<noteq> k" "0 < bsz t"
  shows "dequeued_slots t k (Suc H) = dequeued_slots t k H"
proof -
  have "k * bsz t + s \<noteq> H" if "s < bsz t" for s using assms that by auto
  then show ?thesis by (auto simp: dequeued_slots_def less_Suc_eq)
qed

lemma block_rep_take:
  assumes "block_rep t cx b k H (x # q)" "dequeued_from t cx b' (dequeued_slots t k (Suc H))"
    and "\<forall>s<bsz t. k * bsz t + s \<noteq> H \<longrightarrow> elements b' ! s = elements b ! s"
  shows "block_rep t cx b' k (Suc H) q"
proof -
  have "elements b' ! s = Some (q ! (k * bsz t + s - Suc H))"
    if "s < bsz t" "Suc H \<le> k * bsz t + s" "k * bsz t + s < Suc H + length q" for s
  proof -
    have "k * bsz t + s - H = Suc (k * bsz t + s - Suc H)" using that(2) by simp
    then show ?thesis using assms(1,3) that by (auto simp: block_rep_def)
  qed
  then show ?thesis using assms(2) by (simp add: block_rep_def)
qed

text \<open>Taking the first element, which is in the block with position \<open>i\<close>.\<close>

lemma take_one_rep:
  assumes t: "traits_ok t" and br: "blocks_rep t cx p R K H (x # q)" and R: "distinct R"
    and i: "i < length R" "H div bsz t = K + i" and l: "length (elements (heap p (R ! i))) = bsz t"
  shows "\<exists>p1 b. destroy_at t (R ! i) (of_nat H) p = Some (x, p1) \<and>
    set_empty t cx (of_nat H) (heap p1 (R ! i)) = Some (\<not> use_flags t cx \<and> (K + i + 1) * bsz t \<le> Suc H, b) \<and>
    write_block (R ! i) b p1 = p \<lparr> heap := (heap p)(R ! i := b) \<rparr> \<and>
    blocks_rep t cx (p \<lparr> heap := (heap p)(R ! i := b) \<rparr>) R K (Suc H) q \<and>
    blockNext b = blockNext (heap p (R ! i)) \<and> length (elements b) = bsz t"
proof -
  let ?a = "R ! i" and ?s = "H mod bsz t"
  have B: "0 < bsz t" using BLOCK_SIZE_pos[OF t] .
  have s: "?s < bsz t" "(K + i) * bsz t + ?s = H" using B i(2) by (simp, metis div_mult_mod_eq)
  let ?b = "(heap p ?a) \<lparr> elements := (elements (heap p ?a))[?s := None] \<rparr>"
  have b0: "block_rep t cx (heap p ?a) (K + i) H (x # q)" using br i(1) unfolding blocks_rep_def by blast
  have el: "elements (heap p ?a) ! ?s = Some x" using b0 s by (auto simp: block_rep_def)
  have slot: "block_slot t (of_nat H) = ?s" by (rule block_slot_of_nat[OF t])
  have d: "destroy_at t ?a (of_nat H) p = Some (x, write_block ?a ?b p)"
    using el l s(1) slot by (simp add: destroy_at_def ensure_def)
  have "dequeued_from t cx ?b (dequeued_slots t (K + i) H)" using b0 by (simp add: block_rep_def dequeued_from_elements)
  moreover have "block_slot t (of_nat H) \<notin> dequeued_slots t (K + i) H"
    using dequeued_slots_Suc(2)[OF s(2)[symmetric] s(1)] slot by simp
  ultimately obtain b where b: "set_empty t cx (of_nat H) ?b =
        Some (\<not> use_flags t cx \<and> insert ?s (dequeued_slots t (K + i) H) = {..<bsz t}, b)"
      "dequeued_from t cx b (insert ?s (dequeued_slots t (K + i) H))" "elements b = elements ?b" "blockNext b = blockNext ?b"
    using set_empty_slot[OF t] slot by metis
  note b = b(1,2)[folded dequeued_slots_Suc(1)[OF s(2)[symmetric] s(1)], unfolded dequeued_slots_all[OF t]] b(3,4)
  have "blocks_rep t cx (p \<lparr> heap := (heap p)(?a := b) \<rparr>) R K (Suc H) q"
    unfolding blocks_rep_def
  proof (intro allI impI)
    fix j assume j: "j < length R"
    have bj: "block_rep t cx (heap p (R ! j)) (K + j) H (x # q)" using br j unfolding blocks_rep_def by blast
    show "block_rep t cx (heap (p \<lparr> heap := (heap p)(?a := b) \<rparr>) (R ! j)) (K + j) (Suc H) q"
    proof (cases "j = i")
      case True
      have "block_rep t cx b (K + i) (Suc H) q" using b(2,3) s by (intro block_rep_take[OF b0]) auto
      then show ?thesis using True by simp
    next
      case False
      have "H div bsz t \<noteq> K + j" using False i(2) by simp
      then have "dequeued_slots t (K + j) (Suc H) = dequeued_slots t (K + j) H" by (rule dequeued_slots_other[OF _ B])
      then have "block_rep t cx (heap p (R ! j)) (K + j) (Suc H) q"
        using bj by (intro block_rep_take[OF bj]) (auto simp: block_rep_def)
      moreover have "R ! j \<noteq> ?a" using False R i(1) j by (simp add: nth_eq_iff_index_eq)
      ultimately show ?thesis by simp
    qed
  qed
  then show ?thesis using d b l by (intro exI[of _ "write_block ?a ?b p"] exI[of _ b]) (auto simp: write_block_def)
qed

lemma explicit_take_rep:
  assumes t: "traits_ok t" and r: "explicit_rep t p R K H (x # q)"
    and p': "p' = p \<lparr> dequeueOptimisticCount := c, headIndex := i \<rparr>"
  shows "\<exists>b a. explicit_take t (of_nat H) p' = Some (x, p' \<lparr> heap := (heap p)(a := b) \<rparr>) \<and>
    a \<in> set R \<and> blockNext b = blockNext (heap p a) \<and> length (elements b) = length (elements (heap p a)) \<and>
    blocks_rep t explicit_context (p' \<lparr> heap := (heap p)(a := b) \<rparr>) R K (Suc H) q"
proof -
  note r' = r[unfolded explicit_rep_def]
  obtain i where i: "i < length R" "H div bsz t = K + i" using explicit_rep_head_block[OF t r] by blast
  let ?a = "R ! i"
  have a: "?a \<in> set R" "length (elements (heap p ?a)) = bsz t" "distinct R" using i(1) r' by (auto simp: blocks_ok_def)
  obtain h k where hk: "explicit_index_of t (of_nat H) p = Some (h, k)" "entry_at h k = Some ?a"
    using explicit_index_of_rep[OF t r i] by blast
  have h: "heap p' = heap p" by (simp add: p')
  have "blocks_rep t explicit_context p' R K H (x # q)" using r' by (simp add: blocks_rep_def p')
  from take_one_rep[OF t this a(3) i] a(2)
  obtain p1 b e where b: "destroy_at t ?a (of_nat H) p' = Some (x, p1)" "set_empty t explicit_context (of_nat H) (heap p1 ?a) = Some (e, b)"
      "write_block ?a b p1 = p' \<lparr> heap := (heap p)(?a := b) \<rparr>" "blocks_rep t explicit_context (p' \<lparr> heap := (heap p)(?a := b) \<rparr>) R K (Suc H) q"
      "blockNext b = blockNext (heap p ?a)" "length (elements b) = bsz t"
    unfolding h by blast
  have "explicit_index_of t (of_nat H) p' = Some (h, k)" using hk(1) by (simp add: explicit_index_of_def p' cong: list.case_cong)
  then have "explicit_take t (of_nat H) p' = Some (x, p' \<lparr> heap := (heap p)(?a := b) \<rparr>)"
    using hk(2) b(1-3) by (simp add: explicit_take_def)
  then show ?thesis using a b(4-6) by (intro exI[of _ b] exI[of _ ?a]) simp
qed

lemma explicit_dequeue_rep:
  assumes t: "traits_ok t" and r: "explicit_rep t p R K H q"
  shows "\<exists>d p' H' q'. explicit_dequeue t throws p = Some (d, p') \<and> explicit_rep t p' R K H' q' \<and>
    (case q of [] \<Rightarrow> d = Nothing_Dequeued \<and> q' = [] \<and> H' = H
     | x # xs \<Rightarrow> d = (if throws then Assignment_Threw x else Dequeued x) \<and> q' = xs \<and> H' = Suc H)"
proof -
  note r' = r[unfolded explicit_rep_def]
  have c: "headIndex p = of_nat H" "tailIndex p = of_nat (H + length q)" "dequeueOptimisticCount p - dequeueOvercommit p = of_nat H"
    using r' by (auto simp: counters_rep_def)
  have lt: "circular_less_than (of_nat H) (of_nat (H + length q)) \<longleftrightarrow> q \<noteq> []"
    using circular_less_than_of_nat(1)[of H "H + length q"] explicit_rep_memory(2)[OF t r] by simp
  show ?thesis
  proof (cases q)
    case Nil
    then show ?thesis using r lt c by (auto simp: explicit_dequeue_def Let_def)
  next
    case (Cons x xs)
    define p1 where "p1 = p \<lparr> dequeueOptimisticCount := dequeueOptimisticCount p + 1, headIndex := headIndex p + 1 \<rparr>"
    obtain b a where ba: "explicit_take t (of_nat H) p1 = Some (x, p1 \<lparr> heap := (heap p)(a := b) \<rparr>)" "a \<in> set R"
        "blockNext b = blockNext (heap p a)" "length (elements b) = length (elements (heap p a))"
        "blocks_rep t explicit_context (p1 \<lparr> heap := (heap p)(a := b) \<rparr>) R K (Suc H) xs"
      using explicit_take_rep[OF t r[unfolded Cons] p1_def] by blast
    let ?p = "p1 \<lparr> heap := (heap p)(a := b) \<rparr>"
    have ev: "explicit_dequeue t throws p = Some (if throws then Assignment_Threw x else Dequeued x, ?p)"
      using lt c Cons ba(1) by (simp add: explicit_dequeue_def Let_def p1_def)
    have n: "blockNext (heap ?p y) = blockNext (heap p y)" "length (elements (heap ?p y)) = length (elements (heap p y))" for y
      using ba(3,4) by auto
    have f: "tailBlock ?p = tailBlock p" "pool ?p = pool p" by (simp_all add: p1_def)
    have "ring_links ?p R" using r' unfolding ring_links_def n f by blast
    moreover have "blocks_ok t ?p R" using r' unfolding blocks_ok_def pool_blocks_def n f by blast
    moreover have "counters_rep ?p (Suc H) (Suc H + length xs)"
      using c Cons by (simp add: counters_rep_def p1_def)
    moreover have "index_rep t ?p R K" using r' by (simp add: p1_def)
    ultimately have "explicit_rep t ?p R K (Suc H) xs" using r' Cons ba(5) by (auto simp: explicit_rep_def p1_def)
    then show ?thesis using ev Cons by (intro exI[of _ "if throws then Assignment_Threw x else Dequeued x"]) auto
  qed
qed

section \<open>The destructor\<close>

lemma destroy_slots_all:
  assumes t: "traits_ok t" and e: "\<forall>s. i \<le> s \<and> s < stop \<longrightarrow> elements (heap p a) ! s \<noteq> None"
    and l: "length (elements (heap p a)) = bsz t" and n: "i + n = bsz t" "i \<le> stop" "stop \<le> bsz t" "isTail \<and> lastValid = stop \<or> \<not> isTail \<and> stop = bsz t"
  shows "\<exists>el. destroy_slots n t a isTail lastValid i p =
    Some (map (\<lambda>s. the (elements (heap p a) ! s)) [i..<stop], write_block a ((heap p a) \<lparr> elements := el \<rparr>) p)"
  using e l n
proof (induction n arbitrary: i p)
  case 0
  have "write_block a ((heap p a) \<lparr> elements := elements (heap p a) \<rparr>) p = p" by (simp add: write_block_def)
  then show ?case using 0 by (intro exI[of _ "elements (heap p a)"]) simp
next
  case (Suc n)
  show ?case
  proof (cases "i = stop")
    case True
    have "write_block a ((heap p a) \<lparr> elements := elements (heap p a) \<rparr>) p = p" by (simp add: write_block_def)
    moreover have "isTail \<and> i = lastValid" using Suc.prems True by auto
    ultimately show ?thesis using True by (intro exI[of _ "elements (heap p a)"]) simp
  next
    case False
    then have i: "i < stop" "i < bsz t" using Suc.prems by auto
    obtain x where x: "elements (heap p a) ! i = Some x" using Suc.prems(1) i by auto
    let ?p = "write_block a ((heap p a) \<lparr> elements := (elements (heap p a))[i := None] \<rparr>) p"
    have slot: "block_slot t (of_nat i) = i" using block_slot_of_nat[OF t, of i] i by simp
    have d: "destroy_at t a (of_nat i) p = Some (x, ?p)"
      using x i Suc.prems(2) by (simp add: destroy_at_def slot ensure_def)
    have "\<exists>el. destroy_slots n t a isTail lastValid (Suc i) ?p =
        Some (map (\<lambda>s. the (elements (heap ?p a) ! s)) [Suc i..<stop], write_block a ((heap ?p a) \<lparr> elements := el \<rparr>) ?p)"
      using Suc.prems i by (intro Suc.IH) (auto simp: write_block_def)
    then obtain el where "destroy_slots n t a isTail lastValid (Suc i) ?p =
        Some (map (\<lambda>s. the (elements (heap p a) ! s)) [Suc i..<stop], write_block a ((heap p a) \<lparr> elements := el \<rparr>) p)"
      by (auto simp: write_block_def cong: map_cong)
    moreover have "\<not> (isTail \<and> i = lastValid)" using Suc.prems(6) False by auto
    moreover have "[i..<stop] = i # [Suc i..<stop]" using i(1) by (rule upt_conv_Cons)
    ultimately show ?thesis using d x by auto
  qed
qed

text \<open>The elements from the tail of the ring on, block by block.\<close>

definition block_part :: "traits \<Rightarrow> nat \<Rightarrow> nat \<Rightarrow> 'a list \<Rightarrow> 'a list" where
  "block_part t k H q = map (\<lambda>m. q ! (m - H)) [max H (k * bsz t)..<min (H + length q) ((k + 1) * bsz t)]"

lemma block_parts:
  assumes "k * bsz t \<le> H + length q"
  shows "block_part t k H q @ drop (max H ((k + 1) * bsz t) - H) q = drop (max H (k * bsz t) - H) q"
proof (cases "H + length q \<le> (k + 1) * bsz t")
  case True
  have "map (\<lambda>m. q ! (m - H)) [max H (k * bsz t)..<H + length q] = drop (max H (k * bsz t) - H) q"
    by (rule nth_equalityI) (use assms in auto)
  then show ?thesis using True by (simp add: block_part_def min_absorb1)
next
  case False
  then have "map (\<lambda>m. q ! (m - H)) [max H (k * bsz t)..<(k + 1) * bsz t] @ drop (max H ((k + 1) * bsz t) - H) q =
      drop (max H (k * bsz t) - H) q"
    by (intro nth_equalityI) (auto simp: nth_append max_def)
  then show ?thesis using False by (simp add: block_part_def min_absorb2)
qed

text \<open>One iteration of the loop over the ring.\<close>

lemma destroy_block:
  assumes t: "traits_ok t" and r: "explicit_rep t p R K H q" and j: "j < length R" "a = R ! j"
    and p': "heap p' a = heap p a" "headIndex p' = headIndex p" "tailIndex p' = tailIndex p"
    and half: "half = (if H mod bsz t = 0 then None else Some (R ! (H div bsz t - K)))"
  shows "\<exists>el. destroy_elements t half (last R) a p' =
    Some (block_part t (K + j) H q, write_block a ((heap p' a) \<lparr> elements := el \<rparr>) p')"
proof -
  note r' = r[unfolded explicit_rep_def]
  let ?k = "K + j" and ?T = "H + length q"
  have B: "0 < bsz t" using BLOCK_SIZE_pos[OF t] .
  have d: "distinct R" "length (elements (heap p a)) = bsz t" using r' j by (auto simp: blocks_ok_def)
  have br: "block_rep t explicit_context (heap p a) ?k H q" using r' j unfolding blocks_rep_def by blast
  have e: "is_empty t explicit_context (heap p' a) = Some ((?k + 1) * bsz t \<le> H)"
    using first_block_empty[OF t br] p'(1) by simp
  have idx: "block_slot t (headIndex p') = H mod bsz t" "block_slot t (tailIndex p') = ?T mod bsz t"
    using r' p' block_slot_of_nat[OF t] by (simp_all add: counters_rep_def del: of_nat_add)
  show ?thesis
  proof (cases "(?k + 1) * bsz t \<le> H")
    case True
    have "block_part t ?k H q = []" using True by (auto simp: block_part_def)
    moreover have "write_block a ((heap p' a) \<lparr> elements := elements (heap p' a) \<rparr>) p' = p'" by (simp add: write_block_def)
    ultimately show ?thesis using e True by (intro exI[of _ "elements (heap p' a)"]) (simp add: destroy_elements_def)
  next
    case False
    define i where "i = (if half = Some a then H mod bsz t else 0)"
    define lastValid where "lastValid = (if ?T mod bsz t = 0 then bsz t else ?T mod bsz t)"
    define stop where "stop = min ?T ((?k + 1) * bsz t) - ?k * bsz t"
    have tail: "a = last R \<longleftrightarrow> j = length R - 1"
    proof -
      have "last R = R ! (length R - 1)" using j(1) by (intro last_conv_nth) auto
      then show ?thesis using j d(1) by (simp add: nth_eq_iff_index_eq)
    qed
    have kT: "?k * bsz t < ?T"
    proof -
      have "?k * bsz t \<le> (K + length R - 1) * bsz t" using j by (intro mult_right_mono) auto
      moreover have "(K + length R - 1) * bsz t < ?T" using r' j by auto
      ultimately show ?thesis by linarith
    qed
    have i: "?k * bsz t + i = max H (?k * bsz t)"
    proof (cases "H \<le> ?k * bsz t")
      case True
      have "half \<noteq> Some a \<or> H mod bsz t = 0"
      proof (rule ccontr)
        assume "\<not> (half \<noteq> Some a \<or> H mod bsz t = 0)"
        then have h: "H mod bsz t \<noteq> 0" "R ! (H div bsz t - K) = R ! j" using half j(2) by auto
        have "K \<le> H div bsz t" using r' B by (simp add: less_eq_div_iff_mult_less_eq)
        moreover have "H div bsz t \<le> K + j" using True B by (metis div_le_mono div_mult_self_is_m)
        ultimately have "H div bsz t - K = j" using h(2) d(1) j(1) by (simp add: nth_eq_iff_index_eq)
        then have "H div bsz t = ?k" using \<open>K \<le> H div bsz t\<close> by simp
        then have "?k * bsz t + H mod bsz t = H" by (metis div_mult_mod_eq)
        then show False using True h(1) by linarith
      qed
      then show ?thesis using True by (auto simp: i_def)
    next
      case gt: False
      have hd: "H div bsz t = ?k" "H mod bsz t = H - ?k * bsz t" using gt False by (intro block_pos; simp)+
      then have "H mod bsz t \<noteq> 0" using gt by simp
      then have "half = Some a" using half hd(1) j(2) by simp
      then show ?thesis using gt hd(2) by (simp add: i_def)
    qed
    have st: "?k * bsz t + stop = min ?T ((?k + 1) * bsz t)" using kT by (simp add: stop_def)
    have is_le: "i \<le> stop" using i st False r' kT by auto
    have sb: "stop \<le> bsz t" using st by (simp add: min_def split: if_splits)
    have lv: "a = last R \<and> lastValid = stop \<or> a \<noteq> last R \<and> stop = bsz t"
    proof (cases "a = last R")
      case True
      then have kn: "?k + 1 = K + length R" using tail j(1) by simp
      then have T: "?T \<le> (?k + 1) * bsz t" unfolding kn using r' by blast
      then have s: "stop = ?T - ?k * bsz t" by (simp add: stop_def)
      show ?thesis
      proof (cases "?T = (?k + 1) * bsz t")
        case e: True
        then have "?T mod bsz t = 0" by simp
        moreover have "stop = bsz t" unfolding s e by simp
        ultimately show ?thesis using True by (simp add: lastValid_def)
      next
        case False
        then have "?T mod bsz t = ?T - ?k * bsz t" using T kT by (intro block_pos) auto
        then show ?thesis using True s kT by (simp add: lastValid_def)
      qed
    next
      case False
      then have "(?k + 1) * bsz t \<le> (K + length R - 1) * bsz t" using tail j(1) by (intro mult_right_mono) auto
      then have "(?k + 1) * bsz t \<le> ?T" using r' j by auto
      then show ?thesis using False by (simp add: stop_def)
    qed
    have el: "\<forall>s. i \<le> s \<and> s < stop \<longrightarrow> elements (heap p a) ! s = Some (q ! (?k * bsz t + s - H))"
    proof (intro allI impI)
      fix s assume s: "i \<le> s \<and> s < stop"
      then have "H \<le> ?k * bsz t + s" "?k * bsz t + s < ?T" "s < bsz t" using i st sb by auto
      then show "elements (heap p a) ! s = Some (q ! (?k * bsz t + s - H))" using br by (auto simp: block_rep_def)
    qed
    have "\<exists>el. destroy_slots (bsz t - i) t a (a = last R) lastValid i p' =
        Some (map (\<lambda>s. the (elements (heap p' a) ! s)) [i..<stop], write_block a ((heap p' a) \<lparr> elements := el \<rparr>) p')"
      using el is_le sb lv d(2) p'(1) by (intro destroy_slots_all[OF t]) auto
    moreover have "map (\<lambda>s. the (elements (heap p' a) ! s)) [i..<stop] = block_part t ?k H q"
    proof -
      have "block_part t ?k H q = map (\<lambda>m. q ! (m - H)) [?k * bsz t + i..<?k * bsz t + stop]"
        unfolding block_part_def i st by (simp only:)
      also have "[?k * bsz t + i..<?k * bsz t + stop] = map (\<lambda>s. ?k * bsz t + s) [i..<stop]"
        by (rule nth_equalityI) auto
      finally show ?thesis using el p'(1) by simp
    qed
    moreover have "destroy_elements t half (last R) a p' = destroy_slots (bsz t - i) t a (a = last R) lastValid i p'"
      using e False idx unfolding i_def lastValid_def by (simp add: destroy_elements_def Let_def)
    ultimately show ?thesis by simp
  qed
qed

lemma destroy_ring_rep:
  assumes t: "traits_ok t" and r: "explicit_rep t p R K H q"
    and half: "half = (if H mod bsz t = 0 then None else Some (R ! (H div bsz t - K)))"
    and j: "j < length R" "length R - j \<le> fuel" and a: "blockNext (heap p' a) = Some (R ! j)"
    and p': "\<forall>i. j \<le> i \<and> i < length R \<longrightarrow> heap p' (R ! i) = heap p (R ! i)" "headIndex p' = headIndex p" "tailIndex p' = tailIndex p"
      "\<forall>x. blockNext (heap p' x) = blockNext (heap p x) \<and> dynamicallyAllocated (heap p' x) = dynamicallyAllocated (heap p x)"
  shows "\<exists>p''. destroy_ring fuel t half (last R) a p' = Some (drop (max H ((K + j) * bsz t) - H) q, p'') \<and>
    (\<forall>x. blockNext (heap p'' x) = blockNext (heap p x) \<and> dynamicallyAllocated (heap p'' x) = dynamicallyAllocated (heap p x))"
  using j a p'
proof (induction fuel arbitrary: j a p')
  case (Suc fuel)
  let ?b = "R ! j"
  note r' = r[unfolded explicit_rep_def]
  have d: "distinct R" "R \<noteq> []" using r' Suc.prems(1) by (auto simp: blocks_ok_def)
  have hb: "heap p' ?b = heap p ?b" using Suc.prems by blast
  obtain el where step: "destroy_elements t half (last R) ?b p' =
      Some (block_part t (K + j) H q, write_block ?b ((heap p' ?b) \<lparr> elements := el \<rparr>) p')"
    using destroy_block[OF t r Suc.prems(1) refl hb Suc.prems(5,6) half] by blast
  let ?p = "write_block ?b ((heap p' ?b) \<lparr> elements := el \<rparr>) p'"
  have keep: "\<forall>x. blockNext (heap ?p x) = blockNext (heap p x) \<and> dynamicallyAllocated (heap ?p x) = dynamicallyAllocated (heap p x)"
    using Suc.prems(7) by (simp add: write_block_def)
  have unfold: "destroy_ring (Suc fuel) t half (last R) a p' =
      (if ?b = last R then Some (block_part t (K + j) H q, ?p)
       else Option.bind (destroy_ring fuel t half (last R) ?b ?p) (\<lambda>(ys, p). Some (block_part t (K + j) H q @ ys, p)))"
    using Suc.prems(3) step by simp
  have kT: "(K + j) * bsz t \<le> H + length q" 
  proof -
    have "(K + j) * bsz t \<le> (K + length R - 1) * bsz t" using Suc.prems(1) by (intro mult_right_mono) auto
    moreover have "(K + length R - 1) * bsz t < H + length q" using r' d(2) by blast
    ultimately show ?thesis by linarith
  qed
  note parts = block_parts[OF kT]
  have lst: "?b = last R \<longleftrightarrow> j = length R - 1"
    using d Suc.prems(1) by (simp add: last_conv_nth nth_eq_iff_index_eq)
  show ?case
  proof (cases "?b = last R")
    case True
    then have n: "K + j + 1 = K + length R" using lst Suc.prems(1) by simp
    have "H + length q \<le> (K + j + 1) * bsz t" unfolding n using r' by blast
    then have "drop (max H ((K + j + 1) * bsz t) - H) q = []" by simp
    then have "block_part t (K + j) H q = drop (max H ((K + j) * bsz t) - H) q" using parts by simp
    then show ?thesis using unfold True keep by (intro exI[of _ ?p]) simp
  next
    case False
    then have j: "Suc j < length R" using lst Suc.prems(1) by simp
    have links: "blockNext (heap p ?b) = Some (R ! (Suc j))" using r' Suc.prems(1) j by (simp add: ring_links_def)
    have "\<exists>p''. destroy_ring fuel t half (last R) ?b ?p = Some (drop (max H ((K + Suc j) * bsz t) - H) q, p'') \<and>
        (\<forall>x. blockNext (heap p'' x) = blockNext (heap p x) \<and> dynamicallyAllocated (heap p'' x) = dynamicallyAllocated (heap p x))"
    proof (rule Suc.IH[OF j])
      show "length R - Suc j \<le> fuel" using Suc.prems(2) by simp
      show "blockNext (heap ?p ?b) = Some (R ! Suc j)" using keep links by simp
      show "\<forall>i. Suc j \<le> i \<and> i < length R \<longrightarrow> heap ?p (R ! i) = heap p (R ! i)"
        using Suc.prems(4) d(1) Suc.prems(1) by (auto simp: write_block_def nth_eq_iff_index_eq)
      show "headIndex ?p = headIndex p" "tailIndex ?p = tailIndex p" using Suc.prems(5,6) by (simp_all add: write_block_def)
    qed (rule keep)
    then show ?thesis using unfold False parts by auto
  qed
qed simp

text \<open>The blocks are released from the tail block on, each of them once.\<close>

lemma release_ring_from:
  assumes links: "\<forall>i<length R. blockNext (hp (R ! i)) = Some (R ! (Suc i mod length R))" and d: "distinct R"
    and j: "Suc j < length R" "length R - Suc j \<le> fuel"
  shows "release_ring fuel hp (last R) (R ! j) =
    (let L = map ((!) R) [j..<length R - 1] in
      Some (filter (\<lambda>a. dynamicallyAllocated (hp a)) L, filter (\<lambda>a. \<not> dynamicallyAllocated (hp a)) L))"
  using j
proof (induction fuel arbitrary: j)
  case (Suc fuel)
  have n: "blockNext (hp (R ! j)) = Some (R ! Suc j)" using links Suc.prems(1) by simp
  have lst: "last R = R ! (length R - 1)" using Suc.prems(1) by (intro last_conv_nth) auto
  have split: "[j..<length R - 1] = j # [Suc j..<length R - 1]" using Suc.prems(1) by (intro upt_conv_Cons) simp
  show ?case
  proof (cases "Suc j = length R - 1")
    case True
    then show ?thesis using n lst split by (simp add: Let_def)
  next
    case False
    then have j: "Suc (Suc j) < length R" using Suc.prems(1) by simp
    then have "R ! Suc j \<noteq> last R" using d lst by (simp add: nth_eq_iff_index_eq)
    moreover have "length R - Suc (Suc j) \<le> fuel" using Suc.prems(2) by simp
    ultimately show ?thesis using n split Suc.IH[OF j] by (simp add: Let_def)
  qed
qed simp

lemma release_ring_rep:
  assumes links: "\<forall>i<length R. blockNext (hp (R ! i)) = Some (R ! (Suc i mod length R))" and d: "distinct R"
    and R: "R \<noteq> []" "length R \<le> fuel"
  shows "release_ring fuel hp (last R) (last R) =
    Some (filter (\<lambda>a. dynamicallyAllocated (hp a)) (last R # butlast R),
          filter (\<lambda>a. \<not> dynamicallyAllocated (hp a)) (last R # butlast R))"
proof -
  obtain f where f: "fuel = Suc f" using R by (cases fuel) auto
  have lst: "last R = R ! (length R - 1)" using R(1) by (rule last_conv_nth)
  have n: "blockNext (hp (last R)) = Some (R ! 0)" using links R(1) lst by simp
  have bl: "map ((!) R) [0..<length R - 1] = butlast R" by (rule nth_equalityI) (simp_all add: nth_butlast)
  show ?thesis
  proof (cases "length R = 1")
    case True
    then have "butlast R = []" "R ! 0 = last R" using lst by (auto simp: length_Suc_conv)
    then show ?thesis using f n by simp
  next
    case False
    then have l: "Suc 0 < length R" using R(1) by (cases R) auto
    then have "R ! 0 \<noteq> last R" using d lst nth_eq_iff_index_eq[of R 0 "length R - 1"] R(1) by simp
    moreover have "length R - Suc 0 \<le> f" using R(2) f by simp
    ultimately show ?thesis using f n release_ring_from[OF links d l, of f] bl by (simp add: Let_def)
  qed
qed

text \<open>The search for the block that is dequeued in part.\<close>

lemma half_dequeued_rep:
  assumes t: "traits_ok t" and r: "explicit_rep t p R K H q" and h: "H mod bsz t \<noteq> 0"
    and hd: "header_rep t hh s F R K" and j: "j \<le> H div bsz t - K" "H div bsz t - K - j < fuel"
    and i: "unat i = (F + 2 ^ s - length R + j) mod 2 ^ s"
  shows "half_dequeued fuel t hh (2 ^ s - 1) (headIndex p) i = Some (Some (R ! (H div bsz t - K)))"
  using j i
proof (induction fuel arbitrary: i j)
  case (Suc fuel)
  note r' = r[unfolded explicit_rep_def]
  have B: "0 < bsz t" using BLOCK_SIZE_pos[OF t] .
  let ?i = "H div bsz t - K"
  have K: "K \<le> H div bsz t" using r' B by (simp add: less_eq_div_iff_mult_less_eq)
  have Hd: "H div bsz t * bsz t < H" using h by (metis add.right_neutral div_mult_mod_eq gr0I less_add_same_cancel1)
  have Hu: "H < (H div bsz t + 1) * bsz t" using B by (simp add: dividend_less_div_times)
  have "?i < length R"
  proof -
    have "H div bsz t * bsz t < (K + length R) * bsz t" using Hd r' by linarith
    then have "H div bsz t < K + length R" by simp
    then show ?thesis using K by simp
  qed
  then have jn: "j < length R" using Suc.prems(1) by simp
  have hr: "length (entries hh) = 2 ^ s" "2 ^ s * bsz t \<le> 2 ^ 64"
      "entries hh ! unat i = \<lparr> base = of_nat ((K + j) * bsz t), entry_block = Some (R ! j) \<rparr>"
    using hd jn Suc.prems(3) by (auto simp: header_rep_def simp del: of_nat_mult of_nat_add)
  note sb = pow2_words[OF t hr(2)]
  have il: "unat i < length (entries hh)" using Suc.prems(3) hr(1) by simp
  have nb: "length R * bsz t < 2 ^ 63" using explicit_rep_memory[OF t r] by simp
  have Hn: "H < K * bsz t + length R * bsz t"
  proof -
    have "H div bsz t + 1 \<le> K + length R" using \<open>?i < length R\<close> K by simp
    then have "(H div bsz t + 1) * bsz t \<le> (K + length R) * bsz t" by (rule mult_right_mono) simp
    then show ?thesis using Hu by (simp only: distrib_right)
  qed
  have head: "headIndex p = of_nat H" using r' by (simp add: counters_rep_def)
  have nxt: "of_nat ((K + j) * bsz t) + BLOCK_SIZE t = (of_nat ((K + j + 1) * bsz t) :: size_t)" by (simp add: algebra_simps)
  have ev: "half_dequeued (Suc fuel) t hh (2 ^ s - 1) (headIndex p) i =
      (if circular_less_than (of_nat ((K + j + 1) * bsz t)) (of_nat H)
       then half_dequeued fuel t hh (2 ^ s - 1) (headIndex p) ((i + 1) AND (2 ^ s - 1))
       else Option.bind (ensure (circular_less_than (of_nat ((K + j) * bsz t)) (of_nat H))) (\<lambda>_. Some (Some (R ! j))))"
    using il hr(3) nxt head by (simp add: ensure_def Let_def del: of_nat_mult of_nat_add)
  have Kj: "(K + j) * bsz t \<le> H div bsz t * bsz t" using Suc.prems(1) K by (intro mult_right_mono) auto
  have KB: "K * bsz t \<le> (K + j) * bsz t" by (intro mult_right_mono) auto
  show ?case
  proof (cases "j = ?i")
    case True
    then have e: "K + j = H div bsz t" using K by simp
    have "\<not> circular_less_than (of_nat ((K + j + 1) * bsz t)) (of_nat H)"
    proof (rule circular_less_than_of_nat(2))
      have "1 * bsz t \<le> length R * bsz t" using \<open>?i < length R\<close> by (intro mult_right_mono) auto
      then have "bsz t < 2 ^ 63" using nb by linarith
      moreover have "(K + j + 1) * bsz t = H div bsz t * bsz t + bsz t" unfolding e[symmetric] by simp
      ultimately show "(K + j + 1) * bsz t - H < 2 ^ 63" using Hd by linarith
      show "H \<le> (K + j + 1) * bsz t" using Hu unfolding e by simp
    qed
    moreover have "H - (K + j) * bsz t < 2 ^ 63" using Hn nb KB by linarith
    then have "circular_less_than (of_nat ((K + j) * bsz t)) (of_nat H)"
      using Hd e by (subst circular_less_than_of_nat(1)) auto
    ultimately show ?thesis using ev True by (simp add: ensure_def)
  next
    case False
    then have j: "Suc j \<le> ?i" using Suc.prems(1) by simp
    have "(K + j + 1) * bsz t \<le> H div bsz t * bsz t" using j K by (intro mult_right_mono) auto
    moreover have "K * bsz t \<le> (K + j + 1) * bsz t" by (intro mult_right_mono) auto
    ultimately have "(K + j + 1) * bsz t < H" "H - (K + j + 1) * bsz t < 2 ^ 63" using Hd Hn nb by linarith+
    then have "circular_less_than (of_nat ((K + j + 1) * bsz t)) (of_nat H)"
      by (subst circular_less_than_of_nat(1)) auto
    moreover have "unat ((i + 1) AND (2 ^ s - 1)) = (F + 2 ^ s - length R + Suc j) mod 2 ^ s"
      using sb(1) Suc.prems(3) by (simp add: unat_plus_mask mod_simps)
    then have "half_dequeued fuel t hh (2 ^ s - 1) (headIndex p) ((i + 1) AND (2 ^ s - 1)) = Some (Some (R ! ?i))"
      using j Suc.prems(2) by (intro Suc.IH[of "Suc j"]) auto
    ultimately show ?thesis using ev by simp
  qed
qed simp

lemma explicit_destroy_rep:
  assumes t: "traits_ok t" and r: "explicit_rep t p R K H q" and fuel: "length R < fuel"
  shows "\<exists>deleted freed. explicit_destroy fuel t p = Some (q, deleted, freed) \<and>
    deleted = filter (\<lambda>a. dynamicallyAllocated (heap p a)) (if R = [] then [] else last R # butlast R) \<and>
    freed = filter (\<lambda>a. \<not> dynamicallyAllocated (heap p a)) (if R = [] then [] else last R # butlast R)"
proof (cases "R = []")
  case True
  have "K * bsz t \<le> H" "H + length q \<le> (K + length R) * bsz t" using r by (auto simp: explicit_rep_def)
  moreover have "(K + length R) * bsz t = K * bsz t" using True by simp
  ultimately have "length q \<le> 0" by linarith
  then have "q = []" by simp
  moreover have "tailBlock p = None" using r True by (simp add: explicit_rep_def ring_links_def)
  ultimately have "tailBlock p = None" "q = []" by simp_all
  then show ?thesis using True by (simp add: explicit_destroy_def)
next
  case False
  note r' = r[unfolded explicit_rep_def]
  have B: "0 < bsz t" using BLOCK_SIZE_pos[OF t] .
  obtain s h hs where h: "pr_blockIndexSize p = 2 ^ s" "blockIndex p = h # hs" "header_rep t h s (unat (pr_blockIndexFront p)) R K"
    using r' False by (cases "blockIndex p") (auto simp: index_rep_def)
  let ?F = "unat (pr_blockIndexFront p)"
  have hr: "2 ^ s * bsz t \<le> 2 ^ 64" "?F < 2 ^ s" "length R \<le> 2 ^ s" using h(3) by (auto simp: header_rep_def)
  note sb = pow2_words[OF t hr(1)]
  have n64: "length R < 2 ^ 64" using hr(3) sb(1) power_strict_increasing[of s 64 "2::nat"] by linarith
  let ?i = "(pr_blockIndexFront p - pr_blockIndexSlotsUsed p) AND (pr_blockIndexSize p - 1)"
  have ui: "unat ?i = (?F + 2 ^ s - length R + 0) mod 2 ^ s"
  proof -
    obtain d where d: "(2::nat) ^ 64 = 2 ^ s * Suc d"
      using pow2_dvd_64[of s] sb(1) by (metis dvdE less_imp_le not0_implies_Suc mult_0_right power_not_zero zero_neq_numeral)
    have u: "unat (of_nat (length R) :: size_t) = length R" using n64 by (rule unat_of_nat_small)
    have "unat (pr_blockIndexFront p - of_nat (length R)) mod 2 ^ s = (?F + 2 ^ s - length R) mod 2 ^ s"
    proof (cases "length R \<le> ?F")
      case True
      then have e: "?F + 2 ^ s - length R = (?F - length R) + 2 ^ s" by simp
      have "unat (pr_blockIndexFront p - of_nat (length R)) = ?F - length R" using True u by (simp add: unat_minus_small)
      then show ?thesis unfolding e by (simp only: mod_add_self2)
    next
      case False
      then have "unat (pr_blockIndexFront p - of_nat (length R)) = ?F + 2 ^ 64 - length R"
        using u unat_minus_wrap[of "pr_blockIndexFront p" "of_nat (length R)"] by simp
      also have "\<dots> = (?F + 2 ^ s - length R) + 2 ^ s * d" using d hr(3) by simp
      finally show ?thesis by simp
    qed
    then show ?thesis using r' h(1) by (simp add: unat_and_mask)
  qed
  let ?half = "if H mod bsz t = 0 then None else Some (R ! (H div bsz t - K))"
  have half: "(if headIndex p AND (BLOCK_SIZE t - 1) \<noteq> 0
      then case blockIndex p of [] \<Rightarrow> None | h # _ \<Rightarrow>
        half_dequeued fuel t h (pr_blockIndexSize p - 1) (headIndex p) ?i
      else Some None) = Some ?half"
  proof (cases "H mod bsz t = 0")
    case True
    then show ?thesis using r' at_boundary_iff[OF t, of H] by (simp add: counters_rep_def)
  next
    case hm: False
    have "H div bsz t - K - 0 < fuel"
    proof -
      have "H \<le> (K + length R) * bsz t" using r' by linarith
      then have "H div bsz t \<le> K + length R" using B by (metis div_le_mono div_mult_self_is_m)
      then show ?thesis using fuel by simp
    qed
    from half_dequeued_rep[OF t r hm h(3) _ this ui]
    show ?thesis using hm h(1,2) r' at_boundary_iff[OF t, of H] by (simp add: counters_rep_def)
  qed
  have links: "tailBlock p = Some (last R)" "\<forall>i<length R. blockNext (heap p (R ! i)) = Some (R ! (Suc i mod length R))"
    and d: "distinct R" using r' False by (auto simp: ring_links_def blocks_ok_def)
  have "last R = R ! (length R - 1)" using False by (rule last_conv_nth)
  then have first: "blockNext (heap p (last R)) = Some (R ! 0)" using links(2) False by simp
  have "\<exists>p''. destroy_ring fuel t ?half (last R) (last R) p = Some (drop (max H ((K + 0) * bsz t) - H) q, p'') \<and>
    (\<forall>x. blockNext (heap p'' x) = blockNext (heap p x) \<and> dynamicallyAllocated (heap p'' x) = dynamicallyAllocated (heap p x))"
    using False fuel by (intro destroy_ring_rep[OF t r refl _ _ first]) auto
  then obtain p'' where p'': "destroy_ring fuel t ?half (last R) (last R) p = Some (q, p'')"
      "\<forall>x. blockNext (heap p'' x) = blockNext (heap p x) \<and> dynamicallyAllocated (heap p'' x) = dynamicallyAllocated (heap p x)"
    using r' by (auto simp: max_def)
  have "release_ring fuel (heap p'') (last R) (last R) =
    Some (filter (\<lambda>a. dynamicallyAllocated (heap p a)) (last R # butlast R),
          filter (\<lambda>a. \<not> dynamicallyAllocated (heap p a)) (last R # butlast R))"
    using release_ring_rep[of R "heap p''" fuel] links(2) d False fuel p''(2) by simp
  then show ?thesis using half p''(1) links(1) False by (simp add: explicit_destroy_def del: filter.simps)
qed

end
