(* ===== verification/Cq_Implicit_Index.thy ===== *)
theory Cq_Implicit_Index
  imports Cq_Implicit Cq_Explicit_Fifo
begin

text \<open>
  The block index of an implicit producer: a ring of pointers to entries, read from its tail backwards. The first entries
  in this order are those of the live blocks, the newest first; all others are free. Insertion turns the ring by one,
  rewinding turns it back, and a new index has the entries of the old one in the same order.
\<close>

section \<open>The ring of the entries\<close>

definition index_ring :: "implicit_header \<Rightarrow> nat list" where
  "index_ring h = rev (rotate (Suc (unat (ih_tail h))) (index h))"

definition header_ok :: "traits \<Rightarrow> nat \<Rightarrow> implicit_header \<Rightarrow> bool" where
  "header_ok t s h \<longleftrightarrow> 1 \<le> s \<and> 2 ^ s * bsz t \<le> 2 ^ 64 \<and> capacity h = 2 ^ s \<and> length (index h) = 2 ^ s \<and> unat (ih_tail h) < 2 ^ s \<and> distinct (index h)"

lemma index_ring_list:
  "length (index_ring h) = length (index h)" "set (index_ring h) = set (index h)" "distinct (index_ring h) = distinct (index h)"
  by (simp_all add: index_ring_def)

lemma index_ring_nth:
  assumes "d < length (index h)"
  shows "index_ring h ! d = index h ! ((unat (ih_tail h) + length (index h) - d) mod length (index h))"
proof -
  let ?n = "length (index h)"
  have "index_ring h ! d = rotate (Suc (unat (ih_tail h))) (index h) ! (?n - Suc d)" using assms by (simp add: index_ring_def rev_nth)
  also have "\<dots> = index h ! ((Suc (unat (ih_tail h)) + (?n - Suc d)) mod ?n)" using assms by (intro nth_rotate) simp
  also have "Suc (unat (ih_tail h)) + (?n - Suc d) = unat (ih_tail h) + ?n - d" using assms by simp
  finally show ?thesis .
qed

lemma header_ok_words:
  assumes "traits_ok t" "header_ok t s h"
  shows "s < 64" "unat ((ih_tail h + x) AND (capacity h - 1)) = (unat (ih_tail h) + unat x) mod 2 ^ s"
    "unat ((ih_tail h - 1) AND (capacity h - 1)) = (unat (ih_tail h) + 2 ^ s - 1) mod 2 ^ s"
proof -
  show s: "s < 64" using assms by (auto simp: header_ok_def intro: pow2_words)
  show "unat ((ih_tail h + x) AND (capacity h - 1)) = (unat (ih_tail h) + unat x) mod 2 ^ s"
    using assms(2) s by (simp add: header_ok_def unat_plus_mask)
  show "unat ((ih_tail h - 1) AND (capacity h - 1)) = (unat (ih_tail h) + 2 ^ s - 1) mod 2 ^ s"
  proof -
    have "(1 :: nat) < 2 ^ s" using assms(2) by (intro one_less_power) (auto simp: header_ok_def)
    then show ?thesis using assms(2) s unat_minus_mask[of s 1 "ih_tail h"] by (simp add: header_ok_def)
  qed
qed

lemma index_ring_forward:
  assumes t: "traits_ok t" "header_ok t s h" and e: "index_ring h = W @ [e]"
  shows "index h ! unat ((ih_tail h + 1) AND (capacity h - 1)) = e"
    and "header_ok t s (h \<lparr> ih_tail := (ih_tail h + 1) AND (capacity h - 1) \<rparr>)"
    and "index_ring (h \<lparr> ih_tail := (ih_tail h + 1) AND (capacity h - 1) \<rparr>) = e # W"
proof -
  let ?n = "length (index h)" and ?t = "unat (ih_tail h)"
  have n: "?n = 2 ^ s" "index h \<noteq> []" "?t < 2 ^ s" using t(2) by (auto simp: header_ok_def)
  have u: "unat ((ih_tail h + 1) AND (capacity h - 1)) = Suc ?t mod 2 ^ s" using header_ok_words(2)[OF t, of 1] by simp
  have "rotate (Suc ?t) (index h) = rev (index_ring h)" by (simp only: index_ring_def rev_rev_ident)
  then have r: "rotate (Suc ?t) (index h) = e # rev W" unfolding e by simp
  have "index h ! (Suc ?t mod ?n) = hd (rotate (Suc ?t) (index h))" using hd_rotate_conv_nth[OF n(2), of "Suc ?t"] by (rule sym)
  then show "index h ! unat ((ih_tail h + 1) AND (capacity h - 1)) = e" unfolding u r by (simp add: n(1))
  show "header_ok t s (h \<lparr> ih_tail := (ih_tail h + 1) AND (capacity h - 1) \<rparr>)" using t(2) u by (simp add: header_ok_def)
  have "rotate (Suc (Suc ?t mod 2 ^ s)) (index h) = rotate1 (rotate (Suc ?t) (index h))"
  proof -
    have "rotate1 (rotate (Suc ?t) (index h)) = rotate (Suc (Suc ?t)) (index h)" by simp
    also have "\<dots> = rotate (Suc (Suc ?t) mod 2 ^ s) (index h)" using rotate_conv_mod[of "Suc (Suc ?t)" "index h"] by (simp only: n(1))
    also have "Suc (Suc ?t) mod 2 ^ s = Suc (Suc ?t mod 2 ^ s) mod 2 ^ s" by (rule mod_Suc_eq[symmetric])
    also have "rotate \<dots> (index h) = rotate (Suc (Suc ?t mod 2 ^ s)) (index h)"
      using rotate_conv_mod[of "Suc (Suc ?t mod 2 ^ s)" "index h"] by (simp only: n(1))
    finally show ?thesis by (rule sym)
  qed
  then show "index_ring (h \<lparr> ih_tail := (ih_tail h + 1) AND (capacity h - 1) \<rparr>) = e # W" unfolding index_ring_def r by (simp add: u)
qed

lemma index_ring_rewind:
  assumes t: "traits_ok t" "header_ok t s h" and e: "index_ring h = e # W"
  shows "header_ok t s (h \<lparr> ih_tail := (ih_tail h - 1) AND (capacity h - 1) \<rparr>)"
    and "index_ring (h \<lparr> ih_tail := (ih_tail h - 1) AND (capacity h - 1) \<rparr>) = W @ [e]"
proof -
  let ?n = "length (index h)" and ?t = "unat (ih_tail h)" and ?h = "h \<lparr> ih_tail := (ih_tail h - 1) AND (capacity h - 1) \<rparr>"
  have n: "?n = 2 ^ s" "?t < 2 ^ s" using t(2) by (auto simp: header_ok_def)
  have u: "unat (ih_tail ?h) = (?t + 2 ^ s - 1) mod 2 ^ s" using header_ok_words(3)[OF t] by simp
  show ok: "header_ok t s ?h" using t(2) u by (simp add: header_ok_def)
  have "(ih_tail ?h + 1) AND (capacity ?h - 1) = ih_tail h"
  proof (rule word_unat_eq_iff[THEN iffD2])
    have "unat ((ih_tail ?h + 1) AND (capacity ?h - 1)) = ((?t + 2 ^ s - 1) mod 2 ^ s + 1) mod 2 ^ s"
      using header_ok_words(2)[OF t(1) ok, of 1] u by simp
    also have "\<dots> = (?t + 2 ^ s) mod 2 ^ s" by (simp add: mod_simps)
    finally show "unat ((ih_tail ?h + 1) AND (capacity ?h - 1)) = unat (ih_tail h)" using n(2) by simp
  qed
  then have h: "?h \<lparr> ih_tail := (ih_tail ?h + 1) AND (capacity ?h - 1) \<rparr> = h" by simp
  have "index_ring ?h \<noteq> []" using n(1) index_ring_list(1)[of ?h] by auto
  then obtain W' e' where w: "index_ring ?h = W' @ [e']" by (meson rev_exhaust)
  then show "index_ring ?h = W @ [e]" using index_ring_forward(3)[OF t(1) ok w] e unfolding h by simp
qed

text \<open>The loop of \<open>new_block_index\<close> copies the entries from the oldest to the newest.\<close>

lemma copy_index_copies:
  assumes m: "m = 2 ^ s - 1" "s < 64" and l: "length old = 2 ^ s" "unat prevTail < 2 ^ s"
    and r: "0 < r" "r \<le> 2 ^ s" "(unat pos + r) mod 2 ^ s = unat prevTail" "r \<le> fuel"
  shows "copy_index fuel old m prevTail pos = Some (map (\<lambda>k. old ! ((unat pos + Suc k) mod 2 ^ s)) [0..<r])"
  using r
proof (induction fuel arbitrary: pos r)
  case (Suc fuel)
  let ?pos = "(pos + 1) AND m"
  have u: "unat ?pos = (unat pos + 1) mod 2 ^ s" using m by (simp add: unat_plus_mask)
  show ?case
  proof (cases "r = 1")
    case True
    then have "unat ?pos = unat prevTail" using Suc.prems(3) u by simp
    then have "?pos = prevTail" by (simp only: word_unat_eq_iff)
    then show ?thesis using True l u by (simp add: ensure_def)
  next
    case False
    have "?pos \<noteq> prevTail"
    proof
      assume "?pos = prevTail"
      then have "(unat pos + r) mod 2 ^ s = (unat pos + 1) mod 2 ^ s" using u Suc.prems(3) by simp
      then have "2 ^ s dvd (unat pos + r) - (unat pos + 1)" using Suc.prems(1) by (intro mod_eq_dvd_iff_nat[THEN iffD1]) auto
      then have "2 ^ s \<le> r - 1" using False Suc.prems(1) by (intro dvd_imp_le) auto
      then show False using Suc.prems(1,2) by simp
    qed
    moreover have "(unat ?pos + (r - 1)) mod 2 ^ s = unat prevTail"
    proof -
      have "((unat pos + 1) mod 2 ^ s + (r - 1)) mod 2 ^ s = (unat pos + 1 + (r - 1)) mod 2 ^ s" by (rule mod_add_left_eq)
      then show ?thesis using Suc.prems(1,3) unfolding u by simp
    qed
    then have "copy_index fuel old m prevTail ?pos = Some (map (\<lambda>k. old ! ((unat ?pos + Suc k) mod 2 ^ s)) [0..<r - 1])"
      using Suc.prems False by (intro Suc.IH) auto
    moreover have "(unat ?pos + Suc k) mod 2 ^ s = (unat pos + Suc (Suc k)) mod 2 ^ s" for k
      using mod_add_left_eq[of "unat pos + 1" "2 ^ s" "Suc k"] unfolding u by simp
    moreover have "[0..<r] = 0 # map Suc [0..<r - 1]" using Suc.prems(1) by (cases r) (auto simp: map_Suc_upt upt_conv_Cons)
    ultimately show ?thesis using l u by (simp add: ensure_def o_def)
  qed
qed simp

lemma copy_index_ring:
  assumes t: "traits_ok t" "header_ok t s h"
  shows "copy_index (unat (capacity h)) (index h) (capacity h - 1) (ih_tail h) (ih_tail h) = Some (rev (index_ring h))"
proof -
  have h: "capacity h = 2 ^ s" "length (index h) = 2 ^ s" "unat (ih_tail h) < 2 ^ s" using t(2) by (auto simp: header_ok_def)
  have s: "s < 64" by (rule header_ok_words(1)[OF t])
  have "copy_index (unat (capacity h)) (index h) (capacity h - 1) (ih_tail h) (ih_tail h) =
      Some (map (\<lambda>k. index h ! ((unat (ih_tail h) + Suc k) mod 2 ^ s)) [0..<2 ^ s])"
    using h s unat_pow2[OF s] by (intro copy_index_copies) auto
  also have "map (\<lambda>k. index h ! ((unat (ih_tail h) + Suc k) mod 2 ^ s)) [0..<2 ^ s] = rotate (Suc (unat (ih_tail h))) (index h)"
    by (rule nth_equalityI) (simp_all add: h(2) nth_rotate del: rotate_Suc)
  finally show ?thesis by (simp only: index_ring_def rev_rev_ident)
qed


section \<open>The live blocks\<close>

text \<open>\<open>L\<close> lists the live blocks, the newest first; \<open>N\<close> blocks have been started so far, so \<open>L ! d\<close> has the number \<open>N - 1 - d\<close>.\<close>

definition free_entry :: "implicit_entry \<Rightarrow> bool" where
  "free_entry x \<longleftrightarrow> key x = INVALID_BLOCK_BASE \<or> ie_value x = None"

definition live_entry :: "traits \<Rightarrow> nat \<Rightarrow> nat \<Rightarrow> implicit_entry" where
  "live_entry t k a = \<lparr> key = of_nat (k * bsz t), ie_value = Some a \<rparr>"

definition entries_rep :: "traits \<Rightarrow> implicit_entry list \<Rightarrow> nat list \<Rightarrow> nat list \<Rightarrow> nat \<Rightarrow> bool" where
  "entries_rep t es V L N \<longleftrightarrow> distinct V \<and> set V \<subseteq> {..<length es} \<and> length L \<le> length V \<and>
     (\<forall>d<length V. if d < length L then es ! (V ! d) = live_entry t (N - 1 - d) (L ! d) else free_entry (es ! (V ! d)))"

lemma entries_repI:
  assumes "distinct V" "set V \<subseteq> {..<length es}" "length L \<le> length V"
    and "\<And>d. d < length V \<Longrightarrow> if d < length L then es ! (V ! d) = live_entry t (N - 1 - d) (L ! d) else free_entry (es ! (V ! d))"
  shows "entries_rep t es V L N"
  using assms unfolding entries_rep_def by blast

lemma entries_repD:
  assumes "entries_rep t es V L N"
  shows "distinct V" "set V \<subseteq> {..<length es}" "length L \<le> length V"
    and "d < length L \<Longrightarrow> es ! (V ! d) = live_entry t (N - 1 - d) (L ! d)"
    and "d < length V \<Longrightarrow> \<not> d < length L \<Longrightarrow> free_entry (es ! (V ! d))"
  using assms unfolding entries_rep_def by (auto dest!: spec[of _ d])

definition implicit_index_rep :: "traits \<Rightarrow> 'a implicit_producer \<Rightarrow> nat list \<Rightarrow> nat \<Rightarrow> bool" where
  "implicit_index_rep t p L N \<longleftrightarrow>
     (case implicitIndex p of
        [] \<Rightarrow> L = [] \<and> N = 0
      | h # _ \<Rightarrow> length L \<le> N \<and> (\<exists>s. header_ok t s h \<and> nextBlockIndexCapacity p = 2 ^ Suc s \<and> entries_rep t (index_entries p) (index_ring h) L N))"

lemma live_not_free:
  assumes "traits_ok t"
  shows "\<not> free_entry (live_entry t k a)"
proof -
  obtain b where b: "1 \<le> b" "b < 64" "bsz t = 2 ^ b" using bsz_exp[OF assms] by metis
  have "(2 :: nat) dvd 2 ^ b" using b(1) by (simp add: dvd_power)
  then have "even (k * bsz t)" by (simp add: b(3))
  then have "even (k * bsz t mod 2 ^ 64)" by (simp add: dvd_mod)
  then have "unat (of_nat (k * bsz t) :: size_t) \<noteq> 1" unfolding unat_of_nat_mod by (metis odd_one)
  then show ?thesis by (auto simp: free_entry_def live_entry_def INVALID_BLOCK_BASE_def word_unat_eq_iff simp del: of_nat_mult)
qed

lemma entries_rep_drop:
  assumes "entries_rep t es (W @ [e]) L N" "length L \<le> length W"
  shows "entries_rep t (es[e := x]) W L N"
proof (rule entries_repI)
  note r = entries_repD[OF assms(1)]
  show "distinct W" "set W \<subseteq> {..<length (es[e := x])}" "length L \<le> length W" using r(1,2) assms(2) by auto
  fix d
  assume d: "d < length W"
  then have "W ! d \<noteq> e" using r(1) by auto
  then show "if d < length L then es[e := x] ! (W ! d) = live_entry t (N - 1 - d) (L ! d) else free_entry (es[e := x] ! (W ! d))"
    using r(4)[of d] r(5)[of d] d by (simp add: nth_append)
qed

lemma entries_rep_free:
  assumes "entries_rep t es W L N" "e \<notin> set W" "e < length es"
  shows "entries_rep t (es[e := \<lparr> key = k, ie_value = None \<rparr>]) (W @ [e]) L N"
proof (rule entries_repI)
  note r = entries_repD[OF assms(1)]
  let ?es = "es[e := \<lparr> key = k, ie_value = None \<rparr>]"
  show "distinct (W @ [e])" "set (W @ [e]) \<subseteq> {..<length ?es}" "length L \<le> length (W @ [e])" using r(1-3) assms(2,3) by auto
  fix d
  assume d: "d < length (W @ [e])"
  show "if d < length L then ?es ! ((W @ [e]) ! d) = live_entry t (N - 1 - d) (L ! d) else free_entry (?es ! ((W @ [e]) ! d))"
  proof (cases "d < length W")
    case True
    then have "W ! d \<noteq> e" using assms(2) by auto
    then show ?thesis using r(4)[of d] r(5)[of d] True by (simp add: nth_append)
  next
    case False
    then have "d = length W" using d by simp
    then show ?thesis using assms(3) r(3) by (simp add: free_entry_def)
  qed
qed

lemma entries_rep_push:
  assumes "entries_rep t es W L N" "e \<notin> set W" "e < length es" "length L \<le> length W"
  shows "entries_rep t (es[e := live_entry t N a]) (e # W) (a # L) (Suc N)"
proof (rule entries_repI)
  note r = entries_repD[OF assms(1)]
  let ?es = "es[e := live_entry t N a]"
  show "distinct (e # W)" "set (e # W) \<subseteq> {..<length ?es}" "length (a # L) \<le> length (e # W)" using r(1,2) assms(2-4) by auto
  fix d
  assume d: "d < length (e # W)"
  show "if d < length (a # L) then ?es ! ((e # W) ! d) = live_entry t (Suc N - 1 - d) ((a # L) ! d) else free_entry (?es ! ((e # W) ! d))"
  proof (cases d)
    case 0
    then show ?thesis using assms(3) by simp
  next
    case (Suc d')
    then have "W ! d' \<noteq> e" using assms(2) d by auto
    then show ?thesis using r(4)[of d'] r(5)[of d'] d Suc by simp
  qed
qed

text \<open>The oldest block leaves.\<close>

lemma entries_rep_pop:
  assumes "entries_rep t es V (L @ [a]) N"
  shows "entries_rep t (es[V ! length L := ie_value_update (\<lambda>_. None) (es ! (V ! length L))]) V L N"
proof -
  have v: "distinct V" "length L < length V" "set V \<subseteq> {..<length es}" using assms by (auto simp: entries_rep_def)
  then have "V ! length L < length es" using nth_mem[OF v(2)] by blast
  note v = v(1,2) this
  let ?es = "es[V ! length L := ie_value_update (\<lambda>_. None) (es ! (V ! length L))]"
  have "if d < length L then ?es ! (V ! d) = live_entry t (N - 1 - d) (L ! d) else free_entry (?es ! (V ! d))" if d: "d < length V" for d
  proof (cases "d = length L")
    case True
    then show ?thesis using v(3) by (simp add: free_entry_def)
  next
    case False
    then have "V ! length L \<noteq> V ! d" using v(1,2) d by (simp add: nth_eq_iff_index_eq)
    then have "?es ! (V ! d) = es ! (V ! d)" by simp
    moreover have "if d < length (L @ [a]) then es ! (V ! d) = live_entry t (N - 1 - d) ((L @ [a]) ! d) else free_entry (es ! (V ! d))"
      using assms d by (simp add: entries_rep_def)
    ultimately show ?thesis using False by (simp add: nth_append split: if_splits)
  qed
  then show ?thesis using entries_repD(1-3)[OF assms] by (intro entries_repI) simp_all
qed

lemma entries_rep_grow:
  assumes "entries_rep t es V L N" "length L = length V"
  shows "entries_rep t (es @ replicate n invalid_entry) (V @ rev [length es..<length es + n]) L N"
proof -
  have v: "set V \<subseteq> {..<length es}" using assms by (simp add: entries_rep_def)
  have "V ! d < length es" if "d < length V" for d using v that by (auto simp: subset_eq)
  moreover have "(es @ replicate n invalid_entry) ! (rev [length es..<length es + n] ! i) = invalid_entry" if "i < n" for i
    using that by (simp add: rev_nth nth_append)
  ultimately show ?thesis using assms
    by (auto simp: entries_rep_def nth_append free_entry_def invalid_entry_def subset_eq)
qed


section \<open>The operations on the index\<close>

text \<open>An operation on the index changes nothing else.\<close>

definition index_frame :: "'a implicit_producer \<Rightarrow> 'a implicit_producer \<Rightarrow> bool" where
  "index_frame p p' \<longleftrightarrow> heap p' = heap p \<and> pool p' = pool p \<and> tailBlock p' = tailBlock p \<and> headIndex p' = headIndex p \<and>
     tailIndex p' = tailIndex p \<and> dequeueOptimisticCount p' = dequeueOptimisticCount p \<and> dequeueOvercommit p' = dequeueOvercommit p"

lemma index_frame_refl [simp]: "index_frame p p"
  by (simp add: index_frame_def)

lemma index_frame_trans: "index_frame p p' \<Longrightarrow> index_frame p' p'' \<Longrightarrow> index_frame p p''"
  by (simp add: index_frame_def)

lemma index_frame_keeps:
  assumes "index_frame p p'"
  shows "heap p' = heap p" "pool p' = pool p" "tailBlock p' = tailBlock p" "headIndex p' = headIndex p" "tailIndex p' = tailIndex p"
    "dequeueOptimisticCount p' = dequeueOptimisticCount p" "dequeueOvercommit p' = dequeueOvercommit p"
  using assms by (simp_all add: index_frame_def)

lemma index_frame_sets [simp]:
  "index_frame p (set_value e v p)" "index_frame p (set_index_tail k p)" "index_frame p (take_slot k e c p)"
  by (simp_all add: index_frame_def set_value_def set_entry_def set_index_tail_def take_slot_def split: list.split)

lemma index_rep_frame:
  "implicitIndex p' = implicitIndex p \<Longrightarrow> index_entries p' = index_entries p \<Longrightarrow> nextBlockIndexCapacity p' = nextBlockIndexCapacity p \<Longrightarrow>
   implicit_index_rep t p' L N = implicit_index_rep t p L N"
  by (simp add: implicit_index_rep_def cong: list.case_cong)

lemma set_index_tail_Cons: "implicitIndex p = h # hs \<Longrightarrow> set_index_tail k p = p \<lparr> implicitIndex := h \<lparr> ih_tail := k \<rparr> # hs \<rparr>"
  by (simp add: set_index_tail_def)

lemma implicit_new_block_index_first:
  assumes t: "traits_ok t" and i: "implicitIndex p = []" "nextBlockIndexCapacity p = IMPLICIT_INITIAL_INDEX_SIZE t" "index_entries p = []"
    and mem: "unat (IMPLICIT_INITIAL_INDEX_SIZE t) * bsz t \<le> 2 ^ 64"
  shows "\<exists>ok p'. implicit_new_block_index p = Some (ok, p') \<and> implicit_index_rep t p' [] 0 \<and> index_frame p p'"
proof (cases "case index_allocs p of [] \<Rightarrow> False | a # _ \<Rightarrow> a")
  case False
  let ?q = "p \<lparr> index_allocs := tl (index_allocs p) \<rparr>"
  have e: "implicit_new_block_index p = Some (False, ?q)" using False by (simp add: implicit_new_block_index_def Let_def)
  have "index_frame p ?q" by (simp add: index_frame_def)
  moreover have "implicit_index_rep t ?q [] 0" using i(1) by (simp add: implicit_index_rep_def)
  ultimately show ?thesis using e by blast
next
  case True
  have "power_of_two (IMPLICIT_INITIAL_INDEX_SIZE t)" using t by (simp add: traits_ok_def)
  then obtain s where s: "1 \<le> s" "s < 64" "IMPLICIT_INITIAL_INDEX_SIZE t = 2 ^ s" "unat (IMPLICIT_INITIAL_INDEX_SIZE t) = 2 ^ s"
    by (rule power_of_two_exp)
  let ?h = "\<lparr> capacity = 2 ^ s :: size_t, ih_tail = (0 - 1) AND (2 ^ s - 1), index = [0..<2 ^ s] \<rparr>"
  let ?p = "p \<lparr> index_allocs := tl (index_allocs p), index_entries := replicate (2 ^ s) invalid_entry, implicitIndex := [?h],
    nextBlockIndexCapacity := push_bit 1 (2 ^ s) \<rparr>"
  have e: "implicit_new_block_index p = Some (True, ?p)"
    using True i s by (simp add: implicit_new_block_index_def Let_def ensure_def)
  have "unat (ih_tail ?h) < 2 ^ s" using s(2) by (simp only: implicit_header.simps unat_and_mask) simp
  then have "header_ok t s ?h" using s mem by (simp add: header_ok_def)
  moreover have "entries_rep t (replicate (2 ^ s) invalid_entry) (index_ring ?h) [] 0"
  proof (rule entries_repI)
    fix d
    assume d: "d < length (index_ring ?h)"
    then have "index_ring ?h ! d \<in> {0..<2 ^ s}" using index_ring_list(2)[of ?h] nth_mem[OF d] by simp
    then show "if d < length [] then replicate (2 ^ s) invalid_entry ! (index_ring ?h ! d) = live_entry t (0 - 1 - d) ([] ! d)
        else free_entry (replicate (2 ^ s) invalid_entry ! (index_ring ?h ! d))"
      by (simp add: free_entry_def invalid_entry_def)
  qed (auto simp: index_ring_list)
  ultimately have "implicit_index_rep t ?p [] 0" using s(1) by (auto simp: implicit_index_rep_def push_bit_eq_mult)
  moreover have "index_frame p ?p" by (simp add: index_frame_def)
  ultimately show ?thesis using e by blast
qed

lemma implicit_new_block_index_grows:
  assumes t: "traits_ok t" and h: "implicitIndex p = h # hs" "header_ok t s h" "nextBlockIndexCapacity p = 2 ^ Suc s"
    and es: "entries_rep t (index_entries p) (index_ring h) L N" "length L = 2 ^ s" and mem: "length L * bsz t < 2 ^ 63"
    and al: "index_allocs p = True # al"
  shows "\<exists>h'. implicit_new_block_index p = Some (True, p \<lparr> index_allocs := al,
        index_entries := index_entries p @ replicate (2 ^ s) invalid_entry, implicitIndex := h' # h # hs,
        nextBlockIndexCapacity := 2 ^ Suc (Suc s) \<rparr>) \<and> header_ok t (Suc s) h' \<and>
    index_ring h' = index_ring h @ rev [length (index_entries p)..<length (index_entries p) + 2 ^ s]"
proof -
  let ?n = "length (index_entries p)" and ?m = "2 ^ s :: nat"
  have c: "capacity h = 2 ^ s" "length (index h) = 2 ^ s" "1 \<le> s" "distinct (index h)" using h(2) by (auto simp: header_ok_def)
  have "2 ^ Suc s * bsz t = 2 * (length L * bsz t)" using es(2) by simp
  then have m: "2 ^ Suc s * bsz t \<le> 2 ^ 64" using mem by (simp only:) simp
  note w = pow2_words[OF t m]
  have s: "s < 64" using w(1) by simp
  have u: "unat (2 ^ s :: size_t) = ?m" by (rule unat_pow2[OF s])
  define h' where "h' = \<lparr> capacity = 2 ^ Suc s :: size_t, ih_tail = (2 ^ s - 1) AND (2 ^ Suc s - 1), index = rev (index_ring h) @ [?n..<?n + ?m] \<rparr>"
  have tl: "unat (ih_tail h') = ?m - 1"
  proof -
    have "unat (2 ^ s - 1 :: size_t) = ?m - 1" using unat_minus_small[of 1 "2 ^ s"] u by (simp add: Suc_le_eq)
    moreover have "unat ((2 ^ s - 1) AND (2 ^ Suc s - 1) :: size_t) = unat (2 ^ s - 1 :: size_t) mod 2 ^ Suc s" by (rule unat_and_mask)
    moreover have "?m - 1 < 2 ^ Suc s" by (rule le_less_trans[of _ ?m]) simp_all
    ultimately show ?thesis unfolding h'_def by simp
  qed
  have l: "length (index_ring h) = ?m" using c(2) index_ring_list(1)[of h] by simp
  have e: "implicit_new_block_index p = Some (True, p \<lparr> index_allocs := al,
        index_entries := index_entries p @ replicate ?m invalid_entry, implicitIndex := h' # h # hs, nextBlockIndexCapacity := 2 ^ Suc (Suc s) \<rparr>)"
    using al h copy_index_ring[OF t h(2)] c(1) l u w(2)
    by (simp add: implicit_new_block_index_def Let_def ensure_def h'_def push_bit_eq_mult del: power_Suc) (simp add: push_bit_eq_mult)
  have "index_ring h' = rev ([?n..<?n + ?m] @ rev (index_ring h))"
  proof -
    have "rotate (Suc (unat (ih_tail h'))) (index h') = rotate (length (rev (index_ring h))) (rev (index_ring h) @ [?n..<?n + ?m])"
      using tl l by (simp add: h'_def del: rotate_Suc)
    then show ?thesis unfolding index_ring_def[of h'] by (simp only: rotate_append)
  qed
  then have r: "index_ring h' = index_ring h @ rev [?n..<?n + ?m]" by simp
  have "set (index_ring h) \<inter> {?n..<?n + ?m} = {}" using entries_repD(2)[OF es(1)] by auto
  then have "distinct (index h')" using entries_repD(1)[OF es(1)] by (auto simp: h'_def)
  moreover have "length (index h') = 2 ^ Suc s" using l by (simp add: h'_def)
  moreover have "capacity h' = 2 ^ Suc s" by (simp add: h'_def)
  moreover have "unat (ih_tail h') < 2 ^ Suc s" unfolding tl by (rule le_less_trans[of _ ?m]) simp_all
  ultimately have "header_ok t (Suc s) h'" using m unfolding header_ok_def by simp
  then show ?thesis using e r by blast
qed


text \<open>The state between the insertion of an entry and the store of its value.\<close>

definition unset_entry :: "traits \<Rightarrow> 'a implicit_producer \<Rightarrow> nat \<Rightarrow> index_t \<Rightarrow> nat list \<Rightarrow> nat \<Rightarrow> bool" where
  "unset_entry t p e cur L N \<longleftrightarrow> (\<exists>h hs s W. implicitIndex p = h # hs \<and> header_ok t s h \<and> nextBlockIndexCapacity p = 2 ^ Suc s \<and>
     index_ring h = e # W \<and> entries_rep t (index_entries p) W L N \<and> e \<notin> set W \<and> e < length (index_entries p) \<and>
     length L \<le> length W \<and> length L \<le> N \<and> key (index_entries p ! e) = cur)"

lemma unset_entry_commit:
  assumes "unset_entry t p e (of_nat (N * bsz t)) L N"
  shows "implicit_index_rep t (set_value e (Some a) p) (a # L) (Suc N)"
proof -
  obtain h hs s W where h: "implicitIndex p = h # hs" "header_ok t s h" "nextBlockIndexCapacity p = 2 ^ Suc s" "index_ring h = e # W"
      and es: "entries_rep t (index_entries p) W L N" "e \<notin> set W" "e < length (index_entries p)" "length L \<le> length W"
      and n: "length L \<le> N" "key (index_entries p ! e) = of_nat (N * bsz t)"
    using assms unfolding unset_entry_def by blast
  have x: "ie_value_update (\<lambda>_. Some a) (index_entries p ! e) = live_entry t N a"
    by (rule implicit_entry.equality) (simp_all add: live_entry_def n(2) del: of_nat_mult)
  have "entries_rep t ((index_entries p)[e := live_entry t N a]) (e # W) (a # L) (Suc N)" by (rule entries_rep_push[OF es])
  then show ?thesis using h n(1) unfolding implicit_index_rep_def set_value_def set_entry_def x by auto
qed

lemma unset_entry_abort:
  assumes t: "traits_ok t" and p: "unset_entry t p e cur L N"
  shows "\<exists>p'. rewind_block_index_tail p = Some p' \<and> implicit_index_rep t (set_value e None p') L N \<and> index_frame p p'"
proof -
  obtain h hs s W where h: "implicitIndex p = h # hs" "header_ok t s h" "nextBlockIndexCapacity p = 2 ^ Suc s" "index_ring h = e # W"
      and es: "entries_rep t (index_entries p) W L N" "e \<notin> set W" "e < length (index_entries p)"
      and n: "length L \<le> N" "key (index_entries p ! e) = cur"
    using p unfolding unset_entry_def by blast
  let ?h = "h \<lparr> ih_tail := (ih_tail h - 1) AND (capacity h - 1) \<rparr>" and ?p = "set_index_tail ((ih_tail h - 1) AND (capacity h - 1)) p"
  note r = index_ring_rewind[OF t h(2,4)]
  have x: "ie_value_update (\<lambda>_. None) (index_entries p ! e) = \<lparr> key = cur, ie_value = None \<rparr>"
    by (rule implicit_entry.equality) (simp_all add: n(2))
  have "entries_rep t ((index_entries p)[e := \<lparr> key = cur, ie_value = None \<rparr>]) (W @ [e]) L N" by (rule entries_rep_free[OF es])
  then have "implicit_index_rep t (set_value e None ?p) L N"
    using h(1,3) r n(1) x by (auto simp: implicit_index_rep_def set_value_def set_entry_def set_index_tail_def)
  then show ?thesis using h(1) index_frame_sets(2)[of p] by (auto simp: rewind_block_index_tail_def)
qed

lemma next_slot_ring:
  assumes t: "traits_ok t" and h: "implicitIndex p = h # hs" "header_ok t s h" "index_ring h = W @ [e]" "e < length (index_entries p)"
  shows "next_slot p = Some ((ih_tail h + 1) AND (capacity h - 1), e)"
proof -
  note f = index_ring_forward[OF t h(2,3)]
  have "unat ((ih_tail h + 1) AND (capacity h - 1)) < length (index h)" using f(2) h(2) by (auto simp: header_ok_def)
  then show ?thesis using h(1,4) f(1) by (simp add: next_slot_def ensure_def Let_def)
qed

lemma take_slot_unset:
  assumes t: "traits_ok t" and h: "implicitIndex p = h # hs" "header_ok t s h" "nextBlockIndexCapacity p = 2 ^ Suc s"
    and r: "index_ring h = W @ [e]" "entries_rep t (index_entries p) (W @ [e]) L N" "length L \<le> length W" "length L \<le> N"
  shows "unset_entry t (take_slot ((ih_tail h + 1) AND (capacity h - 1)) e cur p) e cur L N"
proof -
  let ?p = "take_slot ((ih_tail h + 1) AND (capacity h - 1)) e cur p"
  note f = index_ring_forward[OF t h(2) r(1)] and d = entries_repD[OF r(2)]
  have "e \<notin> set W" "e < length (index_entries p)" using d(1,2) by auto
  moreover have "index_entries ?p = (index_entries p)[e := key_update (\<lambda>_. cur) (index_entries p ! e)]"
      "implicitIndex ?p = h \<lparr> ih_tail := (ih_tail h + 1) AND (capacity h - 1) \<rparr> # hs" "nextBlockIndexCapacity ?p = 2 ^ Suc s"
    using h by (simp_all add: take_slot_def set_entry_def set_index_tail_def)
  moreover have "entries_rep t ((index_entries p)[e := key_update (\<lambda>_. cur) (index_entries p ! e)]) W L N" by (rule entries_rep_drop[OF r(2,3)])
  ultimately show ?thesis using f(2,3) r(3,4) unfolding unset_entry_def by auto
qed


lemma insert_block_index_entry_rep:
  assumes t: "traits_ok t" and r: "implicit_index_rep t p L N" and mem: "length L * bsz t < 2 ^ 63"
  shows "\<exists>x p'. insert_block_index_entry m cur p = Some (x, p') \<and> index_frame p p' \<and>
    (case x of None \<Rightarrow> implicit_index_rep t p' L N | Some e \<Rightarrow> unset_entry t p' e cur L N)"
proof (cases "implicitIndex p")
  case Nil
  then show ?thesis using r by (auto simp: insert_block_index_entry_def)
next
  case (Cons h hs)
  then obtain s where h: "header_ok t s h" "nextBlockIndexCapacity p = 2 ^ Suc s" and es: "entries_rep t (index_entries p) (index_ring h) L N"
      and n: "length L \<le> N"
    using r by (auto simp: implicit_index_rep_def)
  have l: "length (index_ring h) = 2 ^ s" using h(1) index_ring_list(1)[of h] by (simp add: header_ok_def)
  then have "index_ring h \<noteq> []" by auto
  then obtain W e where w: "index_ring h = W @ [e]" by (meson rev_exhaust)
  have e: "e < length (index_entries p)" using entries_repD(2)[OF es] w by simp
  note ns = next_slot_ring[OF t Cons h(1) w e]
  show ?thesis
  proof (cases "free_entry (index_entries p ! e)")
    case True
    have "length L \<le> length W"
    proof (rule ccontr)
      assume "\<not> length L \<le> length W"
      then have "index_entries p ! e = live_entry t (N - 1 - length W) (L ! length W)" using entries_repD(4)[OF es, of "length W"] w by simp
      then show False using True live_not_free[OF t] by simp
    qed
    then have "unset_entry t (take_slot ((ih_tail h + 1) AND (capacity h - 1)) e cur p) e cur L N"
      using es w n by (intro take_slot_unset[OF t Cons h w]) auto
    then show ?thesis using True Cons ns by (simp add: insert_block_index_entry_def free_entry_def)
  next
    case False
    then have "length W < length L" using entries_repD(5)[OF es, of "length W"] w by auto
    moreover have "Suc (length W) = 2 ^ s" using w l by simp
    ultimately have L: "length L = 2 ^ s" using entries_repD(3)[OF es] l by linarith
    have nf: "\<not> (key (index_entries p ! e) = INVALID_BLOCK_BASE \<or> ie_value (index_entries p ! e) = None)"
      using False by (simp add: free_entry_def)
    show ?thesis
    proof (cases "m = CannotAlloc \<or> (case index_allocs p of [] \<Rightarrow> True | a # _ \<Rightarrow> \<not> a)")
      case True
      then have "insert_block_index_entry m cur p = Some (None, p) \<or>
          insert_block_index_entry m cur p = Some (None, p \<lparr> index_allocs := tl (index_allocs p) \<rparr>)"
        using Cons ns nf by (auto simp: insert_block_index_entry_def implicit_new_block_index_def Let_def split: list.splits)
      moreover have "implicit_index_rep t (p \<lparr> index_allocs := tl (index_allocs p) \<rparr>) L N"
        using r index_rep_frame[of "p \<lparr> index_allocs := tl (index_allocs p) \<rparr>" p] by simp
      moreover have "index_frame p (p \<lparr> index_allocs := tl (index_allocs p) \<rparr>)" by (simp add: index_frame_def)
      ultimately show ?thesis using r by fastforce
    next
      case ok: False
      then obtain al where al: "index_allocs p = True # al" by (auto split: list.splits)
      let ?n = "length (index_entries p)"
      obtain h' where g: "implicit_new_block_index p = Some (True, p \<lparr> index_allocs := al,
          index_entries := index_entries p @ replicate (2 ^ s) invalid_entry, implicitIndex := h' # h # hs,
          nextBlockIndexCapacity := 2 ^ Suc (Suc s) \<rparr>)" "header_ok t (Suc s) h'"
          "index_ring h' = index_ring h @ rev [?n..<?n + 2 ^ s]"
        using implicit_new_block_index_grows[OF t Cons h es L mem al] by blast
      let ?p = "p \<lparr> index_allocs := al, index_entries := index_entries p @ replicate (2 ^ s) invalid_entry, implicitIndex := h' # h # hs,
          nextBlockIndexCapacity := 2 ^ Suc (Suc s) \<rparr>"
      have "[?n..<?n + 2 ^ s] = ?n # [Suc ?n..<?n + 2 ^ s]" by (simp add: upt_conv_Cons)
      then have w': "index_ring h' = (index_ring h @ rev [Suc ?n..<?n + 2 ^ s]) @ [?n]" using g(3) by simp
      have es': "entries_rep t (index_entries ?p) ((index_ring h @ rev [Suc ?n..<?n + 2 ^ s]) @ [?n]) L N"
        using entries_rep_grow[OF es, of "2 ^ s"] L l g(3) w' by simp
      have i: "implicitIndex ?p = h' # h # hs" "nextBlockIndexCapacity ?p = 2 ^ Suc (Suc s)" "?n < length (index_entries ?p)" by simp_all
      have "unset_entry t (take_slot ((ih_tail h' + 1) AND (capacity h' - 1)) ?n cur ?p) ?n cur L N"
        using L l n by (intro take_slot_unset[OF t i(1) g(2) i(2) w' es']) auto
      moreover have "index_frame p (take_slot ((ih_tail h' + 1) AND (capacity h' - 1)) ?n cur ?p)"
        by (rule index_frame_trans[of _ ?p], simp add: index_frame_def) (rule index_frame_sets)
      moreover have "key (index_entries ?p ! ?n) = INVALID_BLOCK_BASE" by (simp add: nth_append invalid_entry_def)
      moreover from this have "insert_block_index_entry m cur p = Some (Some ?n, take_slot ((ih_tail h' + 1) AND (capacity h' - 1)) ?n cur ?p)"
        using Cons ns nf ok g(1) next_slot_ring[OF t i(1) g(2) w' i(3)] by (auto simp: insert_block_index_entry_def ensure_def)
      ultimately show ?thesis by auto
    qed
  qed
qed

text \<open>Looking an element up.\<close>

lemma get_block_index_rep:
  assumes t: "traits_ok t" and r: "implicit_index_rep t p L N" and mem: "length L * bsz t < 2 ^ 63"
    and d: "d < length L" "n div bsz t = N - 1 - d"
  obtains h hs s idx where "implicitIndex p = h # hs" "header_ok t s h" "entries_rep t (index_entries p) (index_ring h) L N"
    "get_block_index_index_for_index t (of_nat n) p = Some (h, idx)" "unat idx = (unat (ih_tail h) + 2 ^ s - d) mod 2 ^ s"
    "index h ! unat idx = index_ring h ! d" "unat idx < length (index h)"
    "get_block_index_entry_for_index t (of_nat n) p = Some (index_ring h ! d)" "entry_value (index_ring h ! d) p = Some (L ! d)"
proof -
  obtain h hs where i: "implicitIndex p = h # hs" using r d(1) by (cases "implicitIndex p") (auto simp: implicit_index_rep_def)
  then obtain s where h: "header_ok t s h" and es: "entries_rep t (index_entries p) (index_ring h) L N" and n: "length L \<le> N"
    using r by (auto simp: implicit_index_rep_def)
  have l: "length (index h) = 2 ^ s" "unat (ih_tail h) < 2 ^ s" "2 ^ s * bsz t \<le> 2 ^ 64" using h by (auto simp: header_ok_def)
  have dl: "d < 2 ^ s" using d(1) entries_repD(3)[OF es] index_ring_list(1)[of h] l(1) by simp
  have tail: "index_ring h ! 0 = index h ! unat (ih_tail h)" using index_ring_nth[of 0 h] l by simp
  have e0: "index_entries p ! (index_ring h ! 0) = live_entry t (N - 1) (L ! 0)" using entries_repD(4)[OF es, of 0] d(1) by (cases L) simp_all
  have ed: "index_entries p ! (index_ring h ! d) = live_entry t (N - 1 - d) (L ! d)" using entries_repD(4)[OF es d(1)] .
  let ?base = "of_nat ((N - 1) * bsz t) :: index_t"
  have nb: "key (live_entry t k a) \<noteq> INVALID_BLOCK_BASE" for k a using live_not_free[OF t, of k a] by (simp add: free_entry_def)
  define idx where "idx = (ih_tail h + index_offset t (of_nat n) ?base) AND (capacity h - 1)"
  have "d * bsz t \<le> length L * bsz t" using d(1) by (intro mult_right_mono) auto
  then have m: "d * bsz t < 2 ^ 63" using mem by (rule le_less_trans)
  have N: "N - 1 - d + d = N - 1" using d(1) n by simp
  have "unat idx = (unat (ih_tail h) + unat (index_offset t (of_nat n) ?base)) mod 2 ^ s"
    unfolding idx_def by (rule header_ok_words(2)[OF t h])
  moreover have "(unat (ih_tail h) + unat (index_offset t (of_nat n) ?base) + d) mod 2 ^ s = (unat (ih_tail h) + 2 ^ s - d + d) mod 2 ^ s"
    using index_offset_of_nat[OF t d(2) m l(3), of "unat (ih_tail h)"] dl unfolding N by simp
  ultimately have u: "unat idx = (unat (ih_tail h) + 2 ^ s - d) mod 2 ^ s" using mod_add_cancel by metis
  then have ix: "index h ! unat idx = index_ring h ! d" "unat idx < length (index h)" using index_ring_nth[of d h] dl l(1) by simp_all
  have b: "block_base t (of_nat n) = key (live_entry t (N - 1 - d) (L ! d))"
    using block_base_of_nat[OF t, of n] d(2) by (simp only: live_entry_def implicit_entry.simps)
  have g: "get_block_index_index_for_index t (of_nat n) p = Some (h, idx)"
    using i l tail e0 ed nb ix b unfolding get_block_index_index_for_index_def idx_def
    by (simp add: ensure_def Let_def live_entry_def)
  have "index_ring h ! d < length (index_entries p)" using entries_repD(2,3)[OF es] d(1) nth_mem[of d "index_ring h"] by (auto simp: subset_eq)
  then have v: "entry_value (index_ring h ! d) p = Some (L ! d)" using ed by (simp add: entry_value_def ensure_def live_entry_def)
  have "get_block_index_entry_for_index t (of_nat n) p = Some (index_ring h ! d)" using g ix by (simp add: get_block_index_entry_for_index_def)
  then show thesis using that[OF i h es g u ix _ v] by blast
qed

text \<open>The oldest block leaves the index.\<close>

lemma index_rep_pop:
  assumes i: "implicitIndex p = h # hs" "index_ring h ! length L = e" and r: "implicit_index_rep t p (L @ [a]) N"
  shows "implicit_index_rep t (set_value e None p) L N"
proof -
  obtain s where "header_ok t s h" "nextBlockIndexCapacity p = 2 ^ Suc s" "entries_rep t (index_entries p) (index_ring h) (L @ [a]) N" "length L \<le> N"
    using r i(1) by (auto simp: implicit_index_rep_def)
  then show ?thesis using i entries_rep_pop[of t "index_entries p" "index_ring h" L a N]
    by (auto simp: implicit_index_rep_def set_value_def set_entry_def)
qed

end
