(* ===== verification/Cq_Explicit_Bulk.thy ===== *)
theory Cq_Explicit_Bulk
  imports Cq_Explicit_Fifo
begin

text \<open>
  \<open>ExplicitProducer::dequeue_bulk\<close>: it hands over the oldest elements, as many as are asked for and there, block by block,
  and leaves the representation of the rest.
\<close>

section \<open>Within a block\<close>

lemma nth_append_beyond: "H + length xs \<le> m \<Longrightarrow> (xs @ q) ! (m - H) = q ! (m - (H + length xs))"
  using nth_append_right[of xs "m - H" q] by simp

lemma destroy_span_slots:
  assumes "\<forall>j<length xs. block_slot t (i + of_nat j) = s + j \<and> elements (heap p a) ! (s + j) = Some (xs ! j)"
    and "s + length xs \<le> length (elements (heap p a))" "length xs < 2 ^ 64" "length xs \<le> fuel"
  shows "\<exists>el. destroy_span fuel t a i (i + of_nat (length xs)) p = Some (xs, write_block a ((heap p a) \<lparr> elements := el \<rparr>) p) \<and>
    length el = length (elements (heap p a)) \<and> (\<forall>r. r < s \<or> s + length xs \<le> r \<longrightarrow> el ! r = elements (heap p a) ! r)"
  using assms
proof (induction xs arbitrary: i s p fuel)
  case Nil
  have "write_block a ((heap p a) \<lparr> elements := elements (heap p a) \<rparr>) p = p" by (simp add: write_block_def)
  then show ?case by (intro exI[of _ "elements (heap p a)"]) (cases fuel; simp)
next
  case (Cons x xs)
  let ?p = "write_block a ((heap p a) \<lparr> elements := (elements (heap p a))[s := None] \<rparr>) p"
  obtain f where f: "fuel = Suc f" using Cons.prems(4) by (cases fuel) auto
  have 0: "block_slot t i = s" "elements (heap p a) ! s = Some x" using Cons.prems(1)[rule_format, of 0] by auto
  have d: "destroy_at t a i p = Some (x, ?p)"
    using 0 Cons.prems(2) by (simp add: destroy_at_def ensure_def)
  have "\<forall>j<length xs. block_slot t (i + 1 + of_nat j) = Suc s + j \<and> elements (heap ?p a) ! (Suc s + j) = Some (xs ! j)"
  proof (intro allI impI)
    fix j
    assume "j < length xs"
    then show "block_slot t (i + 1 + of_nat j) = Suc s + j \<and> elements (heap ?p a) ! (Suc s + j) = Some (xs ! j)"
      using Cons.prems(1)[rule_format, of "Suc j"] by (simp add: write_block_def add.assoc)
  qed
  then obtain el where el: "destroy_span f t a (i + 1) (i + 1 + of_nat (length xs)) ?p =
        Some (xs, write_block a ((heap ?p a) \<lparr> elements := el \<rparr>) ?p)"
      "length el = length (elements (heap ?p a))"
      "\<forall>r. r < Suc s \<or> Suc s + length xs \<le> r \<longrightarrow> el ! r = elements (heap ?p a) ! r"
    using Cons.IH[of "i + 1" "Suc s" ?p f] Cons.prems f by (auto simp: write_block_def)
  have "unat (of_nat (length (x # xs)) :: size_t) = length (x # xs)" using Cons.prems(3) by (rule unat_of_nat_small)
  then have ne: "i \<noteq> i + of_nat (length (x # xs))"
    by (metis add_cancel_left_right list.size(4) nat.distinct(2) One_nat_def add_Suc_right unat_0)
  have w: "write_block a ((heap ?p a) \<lparr> elements := el \<rparr>) ?p = write_block a ((heap p a) \<lparr> elements := el \<rparr>) p"
    by (simp add: write_block_def)
  have "i + of_nat (length (x # xs)) = i + 1 + of_nat (length xs)" by (simp add: add.assoc)
  then have "destroy_span fuel t a i (i + of_nat (length (x # xs))) p = Some (x # xs, write_block a ((heap p a) \<lparr> elements := el \<rparr>) p)"
    using f ne d el(1) unfolding w by (simp add: add.assoc)
  moreover have "\<forall>r. r < s \<or> s + length (x # xs) \<le> r \<longrightarrow> el ! r = elements (heap p a) ! r"
    using el(3) by (auto simp: write_block_def)
  ultimately show ?case using el(2) by (intro exI[of _ el]) (simp add: write_block_def)
qed

lemma dequeued_slots_span:
  assumes "H div bsz t = k" "H mod bsz t + n \<le> bsz t" "0 < bsz t"
  shows "dequeued_slots t k (H + n) = dequeued_slots t k H \<union> {H mod bsz t..<H mod bsz t + n}"
    and "{H mod bsz t..<H mod bsz t + n} \<inter> dequeued_slots t k H = {}"
    and "k' \<noteq> k \<Longrightarrow> dequeued_slots t k' (H + n) = dequeued_slots t k' H"
proof -
  have e: "k * bsz t + H mod bsz t = H" using assms(1) by (metis div_mult_mod_eq)
  then show "dequeued_slots t k (H + n) = dequeued_slots t k H \<union> {H mod bsz t..<H mod bsz t + n}"
    "{H mod bsz t..<H mod bsz t + n} \<inter> dequeued_slots t k H = {}"
    using assms(2) by (auto simp: dequeued_slots_def)
  assume "k' \<noteq> k"
  have "k' * bsz t + s < H" if "s < bsz t" "k' * bsz t + s < H + n" for s
  proof (rule ccontr)
    assume "\<not> k' * bsz t + s < H"
    then have "k * bsz t \<le> k' * bsz t + s" "k' * bsz t + s < (k + 1) * bsz t" using that(2) e assms(2) by (auto simp: algebra_simps)
    then have "(k' * bsz t + s) div bsz t = k" by (rule block_pos(1))
    then show False using that(1) \<open>k' \<noteq> k\<close> by simp
  qed
  then show "dequeued_slots t k' (H + n) = dequeued_slots t k' H" by (auto simp: dequeued_slots_def)
qed

text \<open>The elements \<open>xs\<close> at the front, all in the block with position \<open>i\<close> in the ring.\<close>

lemma take_span_rep:
  assumes t: "traits_ok t" and br: "blocks_rep t cx p R K H (xs @ q)" and R: "distinct R"
    and i: "i < length R" "H div bsz t = K + i" and l: "length (elements (heap p (R ! i))) = bsz t"
    and n: "H mod bsz t + length xs \<le> bsz t"
  shows "\<exists>p1 e b. destroy_span (bsz t) t (R ! i) (of_nat H) (of_nat H + of_nat (length xs)) p = Some (xs, p1) \<and>
    set_many_empty t cx (of_nat H) (of_nat (length xs)) (heap p1 (R ! i)) = Some (e, b) \<and>
    (e \<longleftrightarrow> \<not> use_flags t cx \<and> (K + i + 1) * bsz t \<le> H + length xs) \<and>
    write_block (R ! i) b p1 = p \<lparr> heap := (heap p)(R ! i := b) \<rparr> \<and>
    blocks_rep t cx (p \<lparr> heap := (heap p)(R ! i := b) \<rparr>) R K (H + length xs) q \<and>
    blockNext b = blockNext (heap p (R ! i)) \<and> length (elements b) = bsz t"
proof -
  let ?a = "R ! i" and ?s = "H mod bsz t" and ?n = "length xs"
  have B: "0 < bsz t" "bsz t < 2 ^ 64" using BLOCK_SIZE_pos[OF t] unat_lt_64 by auto
  have e: "(K + i) * bsz t + ?s = H" using i(2) by (metis div_mult_mod_eq)
  have b0: "block_rep t cx (heap p ?a) (K + i) H (xs @ q)" using br i(1) by (simp add: blocks_rep_def)
  have sl: "block_slot t (of_nat H + of_nat j) = ?s + j" if "j < ?n" for j
  proof -
    have "block_slot t (of_nat (H + j)) = (H + j) mod bsz t" by (rule block_slot_of_nat[OF t])
    also have "\<dots> = (H + j) - (K + i) * bsz t" using e n that by (intro block_pos(2)) (auto simp: algebra_simps)
    finally show ?thesis using e by simp
  qed
  have "\<forall>j<?n. block_slot t (of_nat H + of_nat j) = ?s + j \<and> elements (heap p ?a) ! (?s + j) = Some (xs ! j)"
  proof (intro allI impI conjI sl)
    fix j
    assume j: "j < ?n"
    have "elements (heap p ?a) ! (?s + j) = Some ((xs @ q) ! ((K + i) * bsz t + (?s + j) - H))"
      using b0 n j e unfolding block_rep_def by auto
    moreover have "(K + i) * bsz t + (?s + j) - H = j" using e by simp
    ultimately show "elements (heap p ?a) ! (?s + j) = Some (xs ! j)" using j by (simp add: nth_append)
  qed
  then obtain el where el: "destroy_span (bsz t) t ?a (of_nat H) (of_nat H + of_nat ?n) p =
        Some (xs, write_block ?a ((heap p ?a) \<lparr> elements := el \<rparr>) p)"
      "length el = bsz t" "\<forall>r. r < ?s \<or> ?s + ?n \<le> r \<longrightarrow> el ! r = elements (heap p ?a) ! r"
    using destroy_span_slots[of xs t "of_nat H" ?s p ?a "bsz t"] l n B by auto
  let ?p1 = "write_block ?a ((heap p ?a) \<lparr> elements := el \<rparr>) p" and ?b1 = "(heap p ?a) \<lparr> elements := el \<rparr>"
  have h1: "heap ?p1 ?a = ?b1" by (simp add: write_block_def)
  have un: "unat (of_nat ?n :: size_t) = ?n" using n B by (intro unat_of_nat_small) simp
  note ds = dequeued_slots_span[OF i(2) n B(1)]
  have "dequeued_from t cx ?b1 (dequeued_slots t (K + i) H)"
    using b0 by (simp add: block_rep_def dequeued_from_elements)
  moreover have "block_slot t (of_nat H) = ?s" by (rule block_slot_of_nat[OF t])
  ultimately obtain b where b0': "set_many_empty t cx (of_nat H) (of_nat ?n) ?b1 =
        Some (\<not> use_flags t cx \<and> dequeued_slots t (K + i) H \<union> {?s..<?s + ?n} = {..<bsz t}, b)"
      "dequeued_from t cx b (dequeued_slots t (K + i) H \<union> {?s..<?s + ?n})" "elements b = elements ?b1" "blockNext b = blockNext ?b1"
    using set_many_empty_slots[OF t, of cx ?b1 "dequeued_slots t (K + i) H" "of_nat H" "of_nat ?n"] n ds(2)
    unfolding un by metis
  define f where "f \<longleftrightarrow> \<not> use_flags t cx \<and> (K + i + 1) * bsz t \<le> H + ?n"
  have b: "set_many_empty t cx (of_nat H) (of_nat ?n) ?b1 = Some (f, b)"
      "dequeued_from t cx b (dequeued_slots t (K + i) (H + ?n))" "elements b = el" "blockNext b = blockNext (heap p ?a)"
    using b0' unfolding ds(1)[symmetric] dequeued_slots_all[OF t] f_def by simp_all
  have "blocks_rep t cx (p \<lparr> heap := (heap p)(?a := b) \<rparr>) R K (H + ?n) q"
    unfolding blocks_rep_def
  proof (intro allI impI)
    fix j
    assume j: "j < length R"
    have bj: "block_rep t cx (heap p (R ! j)) (K + j) H (xs @ q)" using br j by (simp add: blocks_rep_def)
    show "block_rep t cx (heap (p \<lparr> heap := (heap p)(?a := b) \<rparr>) (R ! j)) (K + j) (H + ?n) q"
    proof (cases "j = i")
      case True
      have "el ! s = Some (q ! ((K + i) * bsz t + s - (H + ?n)))"
        if s: "s < bsz t" "H + ?n \<le> (K + i) * bsz t + s" "(K + i) * bsz t + s < H + ?n + length q" for s
      proof -
        have "el ! s = elements (heap p ?a) ! s" using el(3) s(2) e by auto
        also have "\<dots> = Some ((xs @ q) ! ((K + i) * bsz t + s - H))" using b0 s unfolding block_rep_def by auto
        also have "(xs @ q) ! ((K + i) * bsz t + s - H) = q ! ((K + i) * bsz t + s - (H + ?n))"
          using s(2) by (rule nth_append_beyond)
        finally show ?thesis .
      qed
      then show ?thesis using True b(2,3) by (simp add: block_rep_def)
    next
      case False
      then have "R ! j \<noteq> ?a" using R i(1) j by (simp add: nth_eq_iff_index_eq)
      moreover have "elements (heap p (R ! j)) ! s = Some (q ! ((K + j) * bsz t + s - (H + ?n)))"
        if s: "s < bsz t" "H + ?n \<le> (K + j) * bsz t + s" "(K + j) * bsz t + s < H + ?n + length q" for s
      proof -
        have "elements (heap p (R ! j)) ! s = Some ((xs @ q) ! ((K + j) * bsz t + s - H))" using bj s unfolding block_rep_def by auto
        then show ?thesis unfolding nth_append_beyond[OF s(2)] .
      qed
      ultimately show ?thesis using bj ds(3)[of "K + j"] False by (simp add: block_rep_def)
    qed
  qed
  moreover have "write_block ?a b ?p1 = p \<lparr> heap := (heap p)(?a := b) \<rparr>" by (simp add: write_block_def)
  ultimately show ?thesis using el b h1 by (intro exI[of _ ?p1] exI[of _ f] exI[of _ b]) (auto simp: f_def)
qed

section \<open>Block by block\<close>

lemma stop_index_of_nat:
  assumes t: "traits_ok t" and B: "bsz t < 2 ^ 63" and L: "H \<le> L" "L - H < 2 ^ 63"
  shows "stop_index t (of_nat H) (of_nat L) = of_nat (min L ((H div bsz t + 1) * bsz t))"
proof -
  let ?E = "(H div bsz t + 1) * bsz t"
  have b: "BLOCK_SIZE t = of_nat (bsz t)" by simp
  have "block_base t (of_nat H) + BLOCK_SIZE t = of_nat (H div bsz t * bsz t) + of_nat (bsz t)"
    by (subst b) (simp only: block_base_of_nat[OF t])
  also have "\<dots> = of_nat ?E" by (simp only: of_nat_add[symmetric] add_mult_distrib mult_1)
  finally have s: "block_base t (of_nat H) + BLOCK_SIZE t = of_nat ?E" .
  have E: "H < ?E" "?E \<le> H + bsz t"
    using BLOCK_SIZE_pos[OF t] div_mult_mod_eq[of H "bsz t"] mod_less_divisor[of "bsz t" H] by (simp_all add: add_mult_distrib, linarith+)
  show ?thesis
  proof (cases "L < ?E")
    case True
    then have "?E - L < 2 ^ 63" using E(2) L(1) B by linarith
    then have "circular_less_than (of_nat L) (of_nat ?E)" using circular_less_than_of_nat(1)[of L ?E] True by simp
    then show ?thesis using True by (simp only: stop_index_def Let_def s if_True min_def less_imp_le)
  next
    case False
    then have "L - ?E < 2 ^ 63" using E(1) L(2) by linarith
    then have "\<not> circular_less_than (of_nat L) (of_nat ?E)" using circular_less_than_of_nat(2)[of ?E L] False by simp
    then show ?thesis using False by (simp only: stop_index_def Let_def s if_False min_def) simp
  qed
qed

lemma of_nat_add_eq_iff:
  assumes "m < 2 ^ 63" "n < 2 ^ 63"
  shows "(a :: size_t) + of_nat m = a + of_nat n \<longleftrightarrow> m = n"
proof -
  have "unat (of_nat m :: size_t) = m" "unat (of_nat n :: size_t) = n" using assms by (auto intro!: unat_of_nat_small)
  then show ?thesis by (metis add_left_cancel)
qed

lemma ring_successor:
  assumes "s < 64" "unat (k :: size_t) = (c + i) mod 2 ^ s"
  shows "unat ((k + 1) AND (2 ^ s - 1)) = (c + Suc i) mod 2 ^ s"
  using assms by (simp add: unat_plus_mask mod_Suc_eq)

text \<open>The first chunk of \<open>xs\<close>, in the block of \<open>H\<close>, and whether there is more.\<close>

lemma first_chunk:
  assumes H: "H div B = K + (i :: nat)" and B: "0 < B" and xs: "H + n \<le> (K + R) * B"
    and m: "m = min n ((K + i + 1) * B - H)"
  shows "H mod B + m \<le> B" "0 < n \<Longrightarrow> 0 < m" "m \<le> n" "min (H + n) ((H div B + 1) * B) = H + m"
    and "m \<noteq> n \<Longrightarrow> (H + m) div B = K + Suc i \<and> Suc i < R"
proof -
  have e: "(K + i) * B + H mod B = H" using H by (metis div_mult_mod_eq)
  have l: "H mod B < B" using B by simp
  have E: "(K + i + 1) * B = (K + i) * B + B" by simp
  have d: "(K + i + 1) * B - H = B - H mod B" using e E by linarith
  show "H mod B + m \<le> B" "m \<le> n" "0 < n \<Longrightarrow> 0 < m" using m l unfolding d by auto
  show "min (H + n) ((H div B + 1) * B) = H + m" using m d e l E unfolding H by linarith
  assume "m \<noteq> n"
  then have mm: "H + m = (K + i + 1) * B" "m < n" using m d e l E by linarith+
  have "(H + m) div B = K + i + 1" unfolding mm(1) using B by simp
  moreover have "(K + i + 1) * B < (K + R) * B" using mm xs by linarith
  then have "K + i + 1 < K + R" by (simp only: mult_less_cancel2)
  ultimately show "(H + m) div B = K + Suc i \<and> Suc i < R" by simp
qed

lemma explicit_take_blocks_rep:
  assumes t: "traits_ok t" and R: "distinct R" and B: "bsz t < 2 ^ 63" and hs: "header_slots h s c R"
  shows "blocks_rep t explicit_context p R K H (xs @ q) \<Longrightarrow> \<forall>i<length R. length (elements (heap p (R ! i))) = bsz t \<Longrightarrow>
    H div bsz t = K + i \<Longrightarrow> i < length R \<Longrightarrow> unat k = (c + i) mod 2 ^ s \<Longrightarrow>
    H + length xs \<le> (K + length R) * bsz t \<Longrightarrow> length xs < 2 ^ 63 \<Longrightarrow> length xs < fuel \<Longrightarrow>
    \<exists>hp. explicit_take_blocks fuel t h k (of_nat H) (of_nat H + of_nat (length xs)) p = Some (xs, p \<lparr> heap := hp \<rparr>) \<and>
      blocks_rep t explicit_context (p \<lparr> heap := hp \<rparr>) R K (H + length xs) q \<and>
      (\<forall>a. blockNext (hp a) = blockNext (heap p a) \<and> length (elements (hp a)) = length (elements (heap p a)))"
proof (induction fuel arbitrary: p H xs i k)
  case 0
  then show ?case by simp
next
  case (Suc fuel)
  let ?B = "bsz t" and ?n = "length xs"
  define m where "m = min ?n ((K + i + 1) * ?B - H)"
  note fc = first_chunk[OF Suc.prems(3) BLOCK_SIZE_pos[OF t] Suc.prems(6) m_def]
  define ys zs where "ys = take m xs" and "zs = drop m xs"
  have yz: "xs = ys @ zs" "length ys = m" "length zs = ?n - m" using fc(3) by (auto simp: ys_def zs_def)
  have stop: "stop_index t (of_nat H) (of_nat H + of_nat ?n) = of_nat H + of_nat m"
    using stop_index_of_nat[OF t B, of H "H + ?n"] Suc.prems(7) unfolding fc(4) of_nat_add by simp
  have en: "entry_at h k = Some (R ! i)" by (rule header_slots_entry[OF hs Suc.prems(4,5)])
  have "blocks_rep t explicit_context p R K H (ys @ (zs @ q))" using Suc.prems(1) yz(1) by simp
  from take_span_rep[OF t this R Suc.prems(4,3)] Suc.prems(2,4) fc(1) yz(2)
  obtain p1 e b where b: "destroy_span ?B t (R ! i) (of_nat H) (of_nat H + of_nat m) p = Some (ys, p1)"
      "set_many_empty t explicit_context (of_nat H) (of_nat m) (heap p1 (R ! i)) = Some (e, b)"
      "write_block (R ! i) b p1 = p \<lparr> heap := (heap p)(R ! i := b) \<rparr>"
      "blocks_rep t explicit_context (p \<lparr> heap := (heap p)(R ! i := b) \<rparr>) R K (H + m) (zs @ q)"
      "blockNext b = blockNext (heap p (R ! i))" "length (elements b) = ?B" by auto
  define hp1 where "hp1 = (heap p)(R ! i := b)"
  have keep: "\<forall>a. blockNext (hp1 a) = blockNext (heap p a) \<and> length (elements (hp1 a)) = length (elements (heap p a))"
    using b(5,6) Suc.prems(2,4) by (simp add: hp1_def)
  note b = b[folded hp1_def]
  let ?p = "p \<lparr> heap := hp1 \<rparr>" and ?k = "(k + 1) AND (header_size h - 1)"
  have step: "explicit_take_blocks (Suc fuel) t h k (of_nat H) (of_nat H + of_nat ?n) p =
      (if (of_nat H :: size_t) + of_nat m = of_nat H + of_nat ?n then Some (ys, ?p)
       else do { (zs, p) \<leftarrow> explicit_take_blocks fuel t h ?k (of_nat H + of_nat m) (of_nat H + of_nat ?n) ?p;
                 Some (ys @ zs, p) })"
    by (simp add: stop en b(1-3))
  show ?case
  proof (cases "m = ?n")
    case True
    then have e: "zs = []" "ys = xs" "H + m = H + ?n" by (simp_all add: ys_def zs_def)
    have "explicit_take_blocks (Suc fuel) t h k (of_nat H) (of_nat H + of_nat ?n) p = Some (xs, ?p)"
      unfolding step True e(2) by simp
    moreover have "blocks_rep t explicit_context ?p R K (H + ?n) q" using b(4) unfolding e(1,3) by simp
    ultimately show ?thesis using keep by blast
  next
    case False
    have i': "(H + m) div ?B = K + Suc i" "Suc i < length R" using fc(5)[OF False] by auto
    have k': "unat ?k = (c + Suc i) mod 2 ^ s" using hs ring_successor[OF _ Suc.prems(5)] by (simp add: header_slots_def)
    have n0: "0 < ?n" using False fc(3) by auto
    have ne: "(of_nat H :: size_t) + of_nat m \<noteq> of_nat H + of_nat ?n"
      using of_nat_add_eq_iff[of m ?n "of_nat H"] False Suc.prems(7) fc(3) by simp
    have nz: "H + m + length zs = H + ?n" using yz(3) fc(3) by simp
    have lim: "(of_nat H :: size_t) + of_nat m = of_nat (H + m)" "(of_nat H :: size_t) + of_nat ?n = of_nat (H + m) + of_nat (length zs)"
      unfolding of_nat_add[symmetric] nz by simp_all
    have "\<forall>i<length R. length (elements (heap ?p (R ! i))) = ?B" using Suc.prems(2) keep by simp
    moreover have "H + m + length zs \<le> (K + length R) * ?B" using Suc.prems(6) nz by simp
    moreover have "length zs < 2 ^ 63" "length zs < fuel" using Suc.prems(7,8) yz(3) fc(2)[OF n0] fc(3) by linarith+
    ultimately obtain hp where hp:
        "explicit_take_blocks fuel t h ?k (of_nat (H + m)) (of_nat (H + m) + of_nat (length zs)) ?p = Some (zs, ?p \<lparr> heap := hp \<rparr>)"
        "blocks_rep t explicit_context (?p \<lparr> heap := hp \<rparr>) R K (H + m + length zs) q"
        "\<forall>a. blockNext (hp a) = blockNext (heap ?p a) \<and> length (elements (hp a)) = length (elements (heap ?p a))"
      using Suc.IH[OF b(4) _ i' k'] by blast
    have "explicit_take_blocks (Suc fuel) t h k (of_nat H) (of_nat H + of_nat ?n) p = Some (ys @ zs, p \<lparr> heap := hp \<rparr>)"
      using ne hp(1)[folded lim(2), folded lim(1)] unfolding step by simp
    moreover have "blocks_rep t explicit_context (p \<lparr> heap := hp \<rparr>) R K (H + ?n) q" using hp(2) unfolding nz by simp
    moreover have "\<forall>a. blockNext (hp a) = blockNext (heap p a) \<and> length (elements (hp a)) = length (elements (heap p a))"
      using hp(3) keep by simp
    ultimately show ?thesis unfolding yz(1)[symmetric] by blast
  qed
qed

section \<open>dequeue_bulk\<close>

lemma explicit_rep_block_size:
  assumes "traits_ok t" "explicit_rep t p R K H q" "q \<noteq> []"
  shows "bsz t < 2 ^ 63"
proof -
  have "R \<noteq> []" using assms(2,3) by (cases R; cases q) (auto simp: explicit_rep_def)
  then have "1 * bsz t \<le> length R * bsz t" by (intro mult_le_mono1) (cases R; simp)
  then show ?thesis using explicit_rep_memory(1)[OF assms(1,2)] by linarith
qed

text \<open>Sequentially, the answer is the first \<open>n\<close> elements: as many as are asked for and there.\<close>

definition handed_over :: "nat option \<Rightarrow> 'a list \<Rightarrow> bool \<times> 'a list" where
  "handed_over throwsAt xs = (case throwsAt of None \<Rightarrow> (False, xs) | Some j \<Rightarrow> (j < length xs, take j xs))"

lemma explicit_dequeue_bulk_rep:
  assumes t: "traits_ok t" and r: "explicit_rep t p R K H q" and n: "n = min (length q) (unat most)"
  shows "\<exists>p'. explicit_dequeue_bulk t throwsAt most p = Some (fst (handed_over throwsAt (take n q)), snd (handed_over throwsAt (take n q)), p') \<and>
    explicit_rep t p' R K (H + n) (drop n q)"
proof (cases "q = []")
  case True
  then have "tailIndex p - (dequeueOptimisticCount p - dequeueOvercommit p) = 0"
    using r by (simp add: explicit_rep_def counters_rep_def)
  then have "explicit_dequeue_bulk t throwsAt most p = Some (False, [], p)"
    by (simp add: explicit_dequeue_bulk_def Let_def circular_less_than_def)
  then show ?thesis using True r n by (cases throwsAt) (auto simp: handed_over_def)
next
  case False
  note r' = r[unfolded explicit_rep_def]
  have c: "headIndex p = of_nat H" "tailIndex p = of_nat (H + length q)" "dequeueOptimisticCount p - dequeueOvercommit p = of_nat H"
    using r' by (auto simp: counters_rep_def)
  have l: "length q < 2 ^ 63" by (rule explicit_rep_memory(2)[OF t r])
  have d: "tailIndex p - (dequeueOptimisticCount p - dequeueOvercommit p) = of_nat (length q)" unfolding c by simp
  have lt: "circular_less_than 0 (of_nat (length q))"
    using circular_less_than_of_nat(1)[of 0 "length q"] l False by simp
  have mn: "min (of_nat (length q)) most = (of_nat n :: size_t)"
    using l n by (simp add: min_def word_le_nat_alt unat_of_nat_small)
  have mn': "min (of_nat n) (of_nat (length q)) = (of_nat n :: size_t)" using mn by (metis min.left_commute min.commute min.idem)
  have un: "unat (of_nat n :: size_t) = n" using l n by (intro unat_of_nat_small) simp
  define p1 where "p1 = p \<lparr> dequeueOptimisticCount := dequeueOptimisticCount p + of_nat n, headIndex := of_nat H + of_nat n \<rparr>"
  obtain i where i: "i < length R" "H div bsz t = K + i" using explicit_rep_head_block[OF t r False] by blast
  obtain h k s u where hk: "explicit_index_of t (of_nat H) p = Some (h, k)" "header_slots h s u R" "unat k = (u + i) mod 2 ^ s"
    using explicit_index_slots[OF t r i] by blast
  have hk1: "explicit_index_of t (of_nat H) p1 = Some (h, k)" using hk(1) by (simp add: explicit_index_of_def p1_def cong: list.case_cong)
  have tk: "length (take n q) = n" using n by simp
  have "blocks_rep t explicit_context p1 R K H (take n q @ drop n q)" using r' by (simp add: blocks_rep_def p1_def)
  moreover have "\<forall>i<length R. length (elements (heap p1 (R ! i))) = bsz t" using r' by (auto simp: blocks_ok_def p1_def)
  moreover have "distinct R" using r' by (auto simp: blocks_ok_def)
  moreover have "H + length (take n q) \<le> (K + length R) * bsz t" "length (take n q) < 2 ^ 63" "length (take n q) < Suc n"
    using r' l tk n by auto
  ultimately obtain hp where hp:
      "explicit_take_blocks (Suc n) t h k (of_nat H) (of_nat H + of_nat n) p1 = Some (take n q, p1 \<lparr> heap := hp \<rparr>)"
      "blocks_rep t explicit_context (p1 \<lparr> heap := hp \<rparr>) R K (H + n) (drop n q)"
      "\<forall>a. blockNext (hp a) = blockNext (heap p1 a) \<and> length (elements (hp a)) = length (elements (heap p1 a))"
    using explicit_take_blocks_rep[OF t _ explicit_rep_block_size[OF t r False] hk(2), of p1 K H "take n q" "drop n q" i k "Suc n"]
      i hk(3) unfolding tk by blast
  let ?p = "p1 \<lparr> heap := hp \<rparr>"
  have ev: "explicit_dequeue_bulk t throwsAt most p = Some (fst (handed_over throwsAt (take n q)), snd (handed_over throwsAt (take n q)), ?p)"
    using d lt mn mn' c hk1[unfolded p1_def] hp(1)[unfolded p1_def] un tk
    by (cases throwsAt) (simp_all add: explicit_dequeue_bulk_def Let_def p1_def handed_over_def del: explicit_take_blocks.simps)
  have nn: "blockNext (heap ?p y) = blockNext (heap p y)" "length (elements (heap ?p y)) = length (elements (heap p y))" for y
    using hp(3) by (auto simp: p1_def)
  have f: "tailBlock ?p = tailBlock p" "pool ?p = pool p" by (simp_all add: p1_def)
  have "ring_links ?p R" using r' unfolding ring_links_def nn f by blast
  moreover have "blocks_ok t ?p R" using r' unfolding blocks_ok_def pool_blocks_def nn f by blast
  moreover have "dequeueOptimisticCount ?p - dequeueOvercommit ?p = of_nat (H + n)"
    using c(3) by (simp add: p1_def diff_add_eq)
  then have "counters_rep ?p (H + n) (H + n + length (drop n q))"
    using c n by (simp add: counters_rep_def p1_def)
  moreover have "index_rep t ?p R K" using r' by (simp add: p1_def)
  ultimately have "explicit_rep t ?p R K (H + n) (drop n q)" using r' hp(2) n by (auto simp: explicit_rep_def p1_def)
  then show ?thesis using ev by blast
qed

end
