(* ===== verification/Cq_Implicit_Fifo.thy ===== *)
theory Cq_Implicit_Fifo
  imports Cq_Implicit_Index Cq_Explicit_Bulk
begin

text \<open>
  The sub-queue of an implicit producer is a first-in first-out queue: \<open>implicit_rep\<close> relates the live blocks, their
  counters and the block index to the list of the elements, and every operation keeps it. \<open>H\<close> elements
  have been dequeued so far, so the first live block has the number \<open>H div BLOCK_SIZE\<close>. \<open>M\<close> is the multiset of
  all blocks, those of the sub-queue and those of the pool.
\<close>

section \<open>What the state represents\<close>

definition blocks_store :: "traits \<Rightarrow> nat multiset \<Rightarrow> 'a implicit_producer \<Rightarrow> nat list \<Rightarrow> nat \<Rightarrow> 'a list \<Rightarrow> bool" where
  "blocks_store t M p R H q \<longleftrightarrow> counters_rep p H (H + length q) \<and> blocks_ok t p R \<and> mset (R @ pool_blocks p) = M \<and>
     blocks_rep t implicit_context p R (H div bsz t) H q"

definition implicit_blocks :: "traits \<Rightarrow> nat multiset \<Rightarrow> 'a implicit_producer \<Rightarrow> nat list \<Rightarrow> nat \<Rightarrow> 'a list \<Rightarrow> bool" where
  "implicit_blocks t M p R H q \<longleftrightarrow> H + length q \<le> (H div bsz t + length R) * bsz t \<and> blocks_store t M p R H q \<and>
     implicit_index_rep t p (rev R) (H div bsz t + length R)"

definition implicit_rep :: "traits \<Rightarrow> nat multiset \<Rightarrow> 'a implicit_producer \<Rightarrow> nat list \<Rightarrow> nat \<Rightarrow> 'a list \<Rightarrow> bool" where
  "implicit_rep t M p R H q \<longleftrightarrow> implicit_blocks t M p R H q \<and>
     (R \<noteq> [] \<longrightarrow> tailBlock p = Some (last R) \<and> (H div bsz t + length R - 1) * bsz t < H + length q)"

lemma implicit_blocksD:
  assumes "implicit_blocks t M p R H q"
  shows "H + length q \<le> (H div bsz t + length R) * bsz t" "headIndex p = of_nat H" "tailIndex p = of_nat (H + length q)"
    "dequeueOptimisticCount p - dequeueOvercommit p = of_nat H" "blocks_ok t p R" "mset (R @ pool_blocks p) = M"
    "blocks_rep t implicit_context p R (H div bsz t) H q" "implicit_index_rep t p (rev R) (H div bsz t + length R)"
    "distinct R" "\<And>a. a \<in> set R \<Longrightarrow> length (elements (heap p a)) = bsz t"
  using assms by (auto simp: implicit_blocks_def blocks_store_def counters_rep_def blocks_ok_def)

lemma implicit_memory:
  assumes t: "traits_ok t" and r: "implicit_blocks t M p R H q"
  shows "length R * bsz t < 2 ^ 63" "(H div bsz t + length R) * bsz t - H < 2 ^ 63" "length q < 2 ^ 63" "H \<le> (H div bsz t + length R) * bsz t"
proof -
  have "length R * bsz t \<le> length (R @ pool_blocks p) * bsz t" by (intro mult_right_mono) auto
  then show m: "length R * bsz t < 2 ^ 63" using implicit_blocksD(5)[OF r] unfolding blocks_ok_def by linarith
  have "H div bsz t * bsz t \<le> H" by (rule div_times_less_eq_dividend)
  then show d: "(H div bsz t + length R) * bsz t - H < 2 ^ 63" using m unfolding add_mult_distrib by linarith
  show "length q < 2 ^ 63" "H \<le> (H div bsz t + length R) * bsz t" using implicit_blocksD(1)[OF r] d by linarith+
qed

lemma use_flags_implicit [simp]: "\<not> use_flags t implicit_context"
  by (simp add: use_flags_def)

lemma blocks_rep_tl:
  assumes "blocks_rep t cx p (a # R) K H q"
  shows "blocks_rep t cx p R (K + 1) H q"
  unfolding blocks_rep_def
proof (intro allI impI)
  fix i
  assume "i < length R"
  then have "block_rep t cx (heap p ((a # R) ! Suc i)) (K + Suc i) H q" using assms unfolding blocks_rep_def by (metis Suc_less_eq length_Cons)
  then show "block_rep t cx (heap p (R ! i)) (K + 1 + i) H q" by simp
qed

lemma blocks_rep_same: "blocks_rep t cx p R K H q \<Longrightarrow> (\<And>a. a \<in> set R \<Longrightarrow> heap p' a = heap p a) \<Longrightarrow> blocks_rep t cx p' R K H q"
  by (auto simp: blocks_rep_def)

text \<open>\<open>blocks_ok\<close> is about the multiset of the blocks.\<close>

lemma blocks_ok_mset:
  assumes "blocks_ok t p R" "mset (R' @ pool_blocks p') = mset (R @ pool_blocks p)" "pool_ok (pool p')"
    and "\<And>a. length (elements (heap p' a)) = length (elements (heap p a))"
  shows "blocks_ok t p' R'"
proof -
  have "distinct (R' @ pool_blocks p') = distinct (R @ pool_blocks p)" using assms(2) by (rule mset_eq_imp_distinct_iff)
  moreover have "length (R' @ pool_blocks p') = length (R @ pool_blocks p)" using assms(2) by (rule mset_eq_length)
  moreover have "set (R' @ pool_blocks p') = set (R @ pool_blocks p)" using assms(2) by (rule mset_eq_setD)
  ultimately show ?thesis using assms(1,3,4) unfolding blocks_ok_def by simp
qed

lemma give_back_pool: "mset (pool_blocks (give_back a p)) = add_mset a (mset (pool_blocks p))" "pool_ok (pool (give_back a p)) = pool_ok (pool p)"
  by (simp_all add: give_back_def pool_blocks_def pool_left_def add_block_to_free_list_def pool_ok_def)

lemma index_frame_pool: "index_frame p p' \<Longrightarrow> pool_blocks p' = pool_blocks p"
  by (simp add: pool_blocks_def index_frame_keeps)

lemma blocks_store_frame:
  assumes "blocks_store t M p R H q" "index_frame p p'"
  shows "blocks_store t M p' R H q"
  using assms(1) unfolding blocks_store_def counters_rep_def blocks_ok_def blocks_rep_def index_frame_keeps[OF assms(2)] index_frame_pool[OF assms(2)]
  by blast

lemma implicit_blocks_frame:
  assumes "implicit_blocks t M p R H q" "index_frame p p'" "implicit_index_rep t p' (rev R) (H div bsz t + length R)"
  shows "implicit_blocks t M p' R H q"
  using assms(1,3) blocks_store_frame[OF _ assms(2)] unfolding implicit_blocks_def by blast

text \<open>The last block goes back to the pool.\<close>

lemma blocks_store_give_back:
  assumes "blocks_store t M p (R @ [a]) H q"
  shows "blocks_store t M (give_back a p) R H q"
proof -
  note s = assms[unfolded blocks_store_def]
  have g: "heap (give_back a p) = heap p" by (simp add: give_back_def)
  have m: "mset (R @ pool_blocks (give_back a p)) = mset ((R @ [a]) @ pool_blocks p)" by (simp add: give_back_pool)
  have "blocks_ok t (give_back a p) R"
  proof (rule blocks_ok_mset[OF _ m])
    show "blocks_ok t p (R @ [a])" using s by blast
    then show "pool_ok (pool (give_back a p))" by (simp add: give_back_pool blocks_ok_def)
  qed (simp add: g)
  moreover have "blocks_rep t implicit_context (give_back a p) R (H div bsz t) H q"
    unfolding blocks_rep_def g
  proof (intro allI impI)
    fix i
    assume i: "i < length R"
    then have "block_rep t implicit_context (heap p ((R @ [a]) ! i)) (H div bsz t + i) H q" using s unfolding blocks_rep_def by auto
    then show "block_rep t implicit_context (heap p (R ! i)) (H div bsz t + i) H q" using i by (simp add: nth_append)
  qed
  moreover have "counters_rep (give_back a p) H (H + length q)" using s by (simp add: counters_rep_def give_back_def)
  moreover have "mset (R @ pool_blocks (give_back a p)) = M" using s m by metis
  ultimately show ?thesis unfolding blocks_store_def by blast
qed

section \<open>A new block\<close>

text \<open>A new block \<open>a\<close> has been requisitioned and has an entry \<open>e\<close> in the index, without a value.\<close>

definition fresh_block :: "traits \<Rightarrow> nat multiset \<Rightarrow> 'a implicit_producer \<Rightarrow> nat \<Rightarrow> nat \<Rightarrow> nat list \<Rightarrow> nat \<Rightarrow> 'a list \<Rightarrow> bool" where
  "fresh_block t M p e a R H q \<longleftrightarrow>
     H + length q \<le> (H div bsz t + length R) * bsz t \<and> blocks_store t M p (R @ [a]) H q \<and>
     unset_entry t p e (of_nat ((H div bsz t + length R) * bsz t)) (rev R) (H div bsz t + length R)"

lemma fresh_commit:
  assumes "fresh_block t M p e a R H q"
  shows "implicit_blocks t M (set_value e (Some a) p) (R @ [a]) H q"
proof -
  note f = assms[unfolded fresh_block_def]
  have "implicit_index_rep t (set_value e (Some a) p) (a # rev R) (Suc (H div bsz t + length R))"
    using f by (intro unset_entry_commit) blast
  then have "implicit_index_rep t (set_value e (Some a) p) (rev (R @ [a])) (H div bsz t + length (R @ [a]))" by simp
  moreover have "H + length q \<le> (H div bsz t + length (R @ [a])) * bsz t" using f by (simp add: add_mult_distrib)
  moreover have "blocks_store t M (set_value e (Some a) p) (R @ [a]) H q"
    by (rule blocks_store_frame[OF conjunct1[OF conjunct2[OF f]] index_frame_sets(1)])
  ultimately show ?thesis unfolding implicit_blocks_def by blast
qed

lemma fresh_abort:
  assumes t: "traits_ok t" and f: "fresh_block t M p e a R H q"
  shows "\<exists>p'. rewind_block_index_tail p = Some p' \<and> implicit_blocks t M (give_back a (set_value e None p')) R H q \<and> index_frame p p'"
proof -
  note f' = f[unfolded fresh_block_def]
  obtain p' where p': "rewind_block_index_tail p = Some p'" "implicit_index_rep t (set_value e None p') (rev R) (H div bsz t + length R)" "index_frame p p'"
    using unset_entry_abort[OF t] f' by blast
  have "index_frame p (set_value e None p')" by (rule index_frame_trans[OF p'(3)]) simp
  then have "blocks_store t M (give_back a (set_value e None p')) R H q"
    using f' blocks_store_frame by (intro blocks_store_give_back) blast
  moreover have "implicit_index_rep t (give_back a (set_value e None p')) (rev R) (H div bsz t + length R)"
    using p'(2) index_rep_frame[of "give_back a (set_value e None p')" "set_value e None p'"] by (simp add: give_back_def)
  ultimately show ?thesis using f' p'(1,3) unfolding implicit_blocks_def by blast
qed

lemma implicit_fresh_block_rep:
  assumes t: "traits_ok t" and r: "implicit_blocks t M p R H q"
  shows "\<exists>x p'. implicit_fresh_block t m (of_nat ((H div bsz t + length R) * bsz t)) p = Some (x, p') \<and> tailBlock p' = tailBlock p \<and>
    (case x of None \<Rightarrow> implicit_blocks t M p' R H q \<and> heap p' = heap p
     | Some (e, a) \<Rightarrow> fresh_block t M p' e a R H q \<and> (\<forall>b. blockNext (heap p' b) = blockNext (heap p b)) \<and> (\<forall>b. b \<noteq> a \<longrightarrow> heap p' b = heap p b))"
proof -
  let ?N = "H div bsz t + length R" and ?cur = "of_nat ((H div bsz t + length R) * bsz t) :: index_t"
  note d = implicit_blocksD[OF r] and mem = implicit_memory[OF t r]
  have assert: "\<not> circular_less_than ?cur (headIndex p)" unfolding d(2) by (rule circular_less_than_of_nat(2)[OF mem(4,2)])
  show ?thesis
  proof (cases "subqueue_full t (headIndex p) ?cur")
    case True
    then show ?thesis using assert r by (auto simp: implicit_fresh_block_def ensure_def)
  next
    case False
    obtain x p1 where p1: "insert_block_index_entry m ?cur p = Some (x, p1)" "index_frame p p1"
        "case x of None \<Rightarrow> implicit_index_rep t p1 (rev R) ?N | Some e \<Rightarrow> unset_entry t p1 e ?cur (rev R) ?N"
      using insert_block_index_entry_rep[OF t d(8), of m ?cur] mem(1) unfolding length_rev by blast
    note k = index_frame_keeps[OF p1(2)]
    show ?thesis
    proof (cases x)
      case None
      have "implicit_blocks t M p1 R H q" using implicit_blocks_frame[OF r p1(2)] p1(3) None by simp
      then show ?thesis using assert False p1(1) None k by (simp add: implicit_fresh_block_def ensure_def)
    next
      case (Some e)
      then have pe: "unset_entry t p1 e ?cur (rev R) ?N" using p1(3) by simp
      obtain y bp where y: "requisition_block m (pool p1) = (y, bp)" by fastforce
      have left: "pool_left (pool p) = (case y of None \<Rightarrow> [] | Some a \<Rightarrow> [a]) @ pool_left bp" "pool_ok bp"
        using requisition_block_first[OF y] d(5) by (auto simp: k(2) blocks_ok_def)
      let ?p2 = "p1 \<lparr> pool := bp \<rparr>"
      have pe2: "unset_entry t ?p2 e ?cur (rev R) ?N" using pe by (simp add: unset_entry_def)
      show ?thesis
      proof (cases y)
        case None
        obtain p3 where p3: "rewind_block_index_tail ?p2 = Some p3" "implicit_index_rep t (set_value e None p3) (rev R) ?N" "index_frame ?p2 p3"
          using unset_entry_abort[OF t pe2] by blast
        have fr: "index_frame ?p2 (set_value e None p3)" by (rule index_frame_trans[OF p3(3)]) simp
        note k3 = index_frame_keeps[OF fr]
        have pl: "pool_blocks (set_value e None p3) = pool_blocks p" "pool_ok (pool (set_value e None p3))"
          using left None k3(2) by (simp_all add: pool_blocks_def)
        have "counters_rep (set_value e None p3) H (H + length q)" using d(2-4) by (simp add: counters_rep_def k k3)
        moreover have "blocks_ok t (set_value e None p3) R" using d(5) pl(2) by (simp add: blocks_ok_def pl(1) k k3)
        moreover have "blocks_rep t implicit_context (set_value e None p3) R (H div bsz t) H q" using d(7) by (simp add: blocks_rep_def k k3)
        ultimately have "implicit_blocks t M (set_value e None p3) R H q"
          using d(1,6) p3(2) unfolding implicit_blocks_def blocks_store_def pl(1) by blast
        then show ?thesis using assert False p1(1) \<open>x = Some e\<close> y None p3(1) k k3
          by (simp add: implicit_fresh_block_def ensure_def)
      next
        case (Some a)
        define p4 where "p4 = write_block a (reset_empty t implicit_context (heap ?p2 a)) ?p2"
        have pl: "pool_blocks p = a # pool_blocks p4" "pool p4 = bp" using left Some by (simp_all add: pool_blocks_def write_block_def p4_def)
        have h: "heap p4 b = (if b = a then reset_empty t implicit_context (heap p a) else heap p b)" for b
          by (simp add: write_block_def k p4_def)
        have m: "mset ((R @ [a]) @ pool_blocks p4) = mset (R @ pool_blocks p)" by (simp add: pl)
        have bo: "blocks_ok t p4 (R @ [a])"
          using left(2) by (intro blocks_ok_mset[OF d(5) m]) (auto simp: pl(2) h)
        have "blocks_rep t implicit_context p4 (R @ [a]) (H div bsz t) H q"
          unfolding blocks_rep_def
        proof (intro allI impI)
          fix i
          assume i: "i < length (R @ [a])"
          show "block_rep t implicit_context (heap p4 ((R @ [a]) ! i)) (H div bsz t + i) H q"
          proof (cases "i = length R")
            case True
            then show ?thesis using d(1) by (simp add: h) (intro block_rep_fresh dequeued_from_reset)
          next
            case False
            then have "R ! i \<noteq> a" "i < length R" using i bo by (auto simp: blocks_ok_def)
            then show ?thesis using d(7) by (simp add: nth_append h blocks_rep_def)
          qed
        qed
        moreover have "unset_entry t p4 e ?cur (rev R) ?N" using pe2 by (simp add: unset_entry_def write_block_def p4_def)
        moreover have "counters_rep p4 H (H + length q)" using d(2-4) by (simp add: counters_rep_def write_block_def k p4_def)
        ultimately have "fresh_block t M p4 e a R H q" using d(1) d(6)[folded m] bo unfolding fresh_block_def blocks_store_def by blast
        moreover have "implicit_fresh_block t m ?cur p = Some (Some (e, a), p4)"
          using assert False p1(1) \<open>x = Some e\<close> y Some by (simp add: implicit_fresh_block_def ensure_def p4_def)
        moreover have "tailBlock p4 = tailBlock p" by (simp add: write_block_def k p4_def)
        ultimately show ?thesis by (auto simp: h)
      qed
    qed
  qed
qed


section \<open>Enqueueing\<close>

lemma implicit_repD:
  assumes "implicit_rep t M p R H q"
  shows "implicit_blocks t M p R H q" "R \<noteq> [] \<Longrightarrow> tailBlock p = Some (last R)"
    "R \<noteq> [] \<Longrightarrow> (H div bsz t + length R - 1) * bsz t < H + length q"
  using assms by (auto simp: implicit_rep_def)

lemma implicit_tail_position:
  assumes t: "traits_ok t" and r: "implicit_rep t M p R H q"
  shows "(H + length q) mod bsz t = 0 \<Longrightarrow> H + length q = (H div bsz t + length R) * bsz t"
    and "(H + length q) mod bsz t \<noteq> 0 \<Longrightarrow> R \<noteq> [] \<and> H + length q < (H div bsz t + length R) * bsz t"
proof -
  note d = implicit_blocksD(1)[OF implicit_repD(1)[OF r]]
  have e: "H + length q = (H div bsz t + length R) * bsz t" if "R = []"
  proof -
    have "H + length q \<le> H div bsz t * bsz t" using d that by simp
    then have "H + length q = H div bsz t * bsz t" using div_times_less_eq_dividend[of H "bsz t"] by linarith
    then show ?thesis using that by simp
  qed
  show "(H + length q) mod bsz t = 0 \<Longrightarrow> H + length q = (H div bsz t + length R) * bsz t"
  proof (cases "R = []")
    case False
    assume 0: "(H + length q) mod bsz t = 0"
    show ?thesis
    proof (rule ccontr)
      assume "H + length q \<noteq> (H div bsz t + length R) * bsz t"
      then have "(H + length q) mod bsz t = H + length q - (H div bsz t + length R - 1) * bsz t"
        using d implicit_repD(3)[OF r False] False by (intro block_pos) (auto simp: Suc_diff_le)
      then show False using 0 implicit_repD(3)[OF r False] by simp
    qed
  qed (rule e)
  assume "(H + length q) mod bsz t \<noteq> 0"
  then have "H + length q \<noteq> (H div bsz t + length R) * bsz t" by (metis mod_mult_self2_is_0)
  then show "R \<noteq> [] \<and> H + length q < (H div bsz t + length R) * bsz t" using e d by auto
qed

lemma blocks_store_construct:
  assumes t: "traits_ok t" and s: "blocks_store t M p R H q" and R: "R \<noteq> []"
    and T: "(H div bsz t + length R - 1) * bsz t \<le> H + length q" "H + length q < (H div bsz t + length R) * bsz t"
  shows "\<exists>hp. construct_at t (last R) (of_nat (H + length q)) x p = Some (p \<lparr> heap := hp \<rparr>) \<and>
    blocks_store t M (p \<lparr> heap := hp, tailIndex := 1 + of_nat (H + length q) \<rparr>) R H (q @ [x])"
proof -
  note s' = s[unfolded blocks_store_def]
  let ?a = "last R" and ?i = "(H + length q) mod bsz t"
  have l: "length (elements (heap p ?a)) = bsz t" "distinct R" using s' R by (auto simp: blocks_ok_def)
  let ?hp = "(heap p)(?a := (heap p ?a) \<lparr> elements := (elements (heap p ?a))[?i := Some x] \<rparr>)"
  let ?p = "p \<lparr> heap := ?hp, tailIndex := 1 + of_nat (H + length q) \<rparr>"
  have slot: "block_slot t (of_nat (H + length q)) = ?i" by (rule block_slot_of_nat[OF t])
  have "construct_at t ?a (of_nat (H + length q)) x p = Some (p \<lparr> heap := ?hp \<rparr>)"
    unfolding construct_at_def slot using l(1) BLOCK_SIZE_pos[OF t] by (simp add: ensure_def write_block_def)
  moreover have "blocks_rep t implicit_context ?p R (H div bsz t) H (q @ [x])"
    using s' R T l by (intro blocks_rep_construct[of t implicit_context p R "H div bsz t" H q ?a]) auto
  moreover have "blocks_ok t ?p R" using s' l by (auto simp: blocks_ok_def pool_blocks_def)
  moreover have "counters_rep ?p H (H + length (q @ [x]))" using s' by (simp add: counters_rep_def)
  moreover have "pool_blocks ?p = pool_blocks p" by (simp add: pool_blocks_def)
  ultimately show ?thesis using s' unfolding blocks_store_def by (intro exI[of _ ?hp]) simp
qed

lemma construct_at_heap:
  assumes "construct_at t a i x p = Some (p \<lparr> heap := hp \<rparr>)" "heap p' = heap p"
  shows "construct_at t a i x p' = Some (p' \<lparr> heap := hp \<rparr>)"
proof -
  have l: "block_slot t i < length (elements (heap p a))" using assms(1) by (auto simp: construct_at_def ensure_def split: if_splits)
  then have "p \<lparr> heap := (heap p)(a := (heap p a) \<lparr> elements := (elements (heap p a))[block_slot t i := Some x] \<rparr>) \<rparr> = p \<lparr> heap := hp \<rparr>"
    using assms(1) by (simp add: construct_at_def ensure_def write_block_def)
  from arg_cong[OF this, of heap] show ?thesis using l assms(2) by (simp add: construct_at_def ensure_def write_block_def)
qed

lemma implicit_index_rep_simps [simp]:
  "implicit_index_rep t (p \<lparr> heap := hp \<rparr>) L N = implicit_index_rep t p L N"
  "implicit_index_rep t (p \<lparr> tailIndex := i \<rparr>) L N = implicit_index_rep t p L N"
  "implicit_index_rep t (p \<lparr> headIndex := i \<rparr>) L N = implicit_index_rep t p L N"
  "implicit_index_rep t (p \<lparr> tailBlock := b \<rparr>) L N = implicit_index_rep t p L N"
  "implicit_index_rep t (p \<lparr> pool := bp \<rparr>) L N = implicit_index_rep t p L N"
  "implicit_index_rep t (p \<lparr> dequeueOptimisticCount := i \<rparr>) L N = implicit_index_rep t p L N"
  "implicit_index_rep t (p \<lparr> dequeueOvercommit := i \<rparr>) L N = implicit_index_rep t p L N"
  by (simp_all add: implicit_index_rep_def cong: list.case_cong)

lemma set_value_fields:
  "set_value e v (p \<lparr> heap := hp \<rparr>) = set_value e v p \<lparr> heap := hp \<rparr>"
  by (simp add: set_value_def set_entry_def)

text \<open>The outcome of an enqueue: nothing changes unless it succeeds.\<close>

definition enqueue_outcome :: "ctor \<Rightarrow> bool \<Rightarrow> outcome \<Rightarrow> bool" where
  "enqueue_outcome c boundary out \<longleftrightarrow>
     (case out of Rethrow \<Rightarrow> c = throwing_ctor True | Return b \<Rightarrow> if b then c \<noteq> throwing_ctor True else boundary)"

lemma implicit_enqueue_rep:
  assumes t: "traits_ok t" and r: "implicit_rep t M p R H q"
  shows "\<exists>out p' R'. implicit_enqueue t m c x p = Some (out, p') \<and> enqueue_outcome c ((H + length q) mod bsz t = 0) out \<and>
    implicit_rep t M p' R' H (if out = Return True then q @ [x] else q)"
proof -
  let ?T = "H + length q" and ?K = "H div bsz t"
  note b = implicit_repD(1)[OF r]
  have tail: "tailIndex p = of_nat ?T" by (rule implicit_blocksD(3)[OF b])
  note pos = implicit_tail_position[OF t r]
  show ?thesis
  proof (cases "?T mod bsz t = 0")
    case False
    then have nb: "tailIndex p AND (BLOCK_SIZE t - 1) \<noteq> 0" unfolding tail at_boundary_iff[OF t] .
    have R: "R \<noteq> []" "?T < (?K + length R) * bsz t" using pos(2)[OF False] by auto
    show ?thesis
    proof (cases "c = throwing_ctor True")
      case True
      then have "implicit_enqueue t m c x p = Some (Rethrow, p)" using nb by (simp add: implicit_enqueue_def)
      then show ?thesis using r True by (auto simp: enqueue_outcome_def)
    next
      case nc: False
      have st: "blocks_store t M p R H q" using b by (simp add: implicit_blocks_def)
      obtain hp where hp: "construct_at t (last R) (of_nat ?T) x p = Some (p \<lparr> heap := hp \<rparr>)"
          "blocks_store t M (p \<lparr> heap := hp, tailIndex := 1 + of_nat ?T \<rparr>) R H (q @ [x])"
        using blocks_store_construct[OF t st R(1) less_imp_le[OF implicit_repD(3)[OF r R(1)]] R(2)] by blast
      let ?p = "p \<lparr> heap := hp, tailIndex := 1 + of_nat ?T \<rparr>"
      have "implicit_enqueue t m c x p = Some (Return True, ?p)"
        using nb nc hp(1) implicit_repD(2)[OF r R(1)] by (simp add: implicit_enqueue_def construct_tail_def tail)
      moreover have "implicit_rep t M ?p R H (q @ [x])"
        using hp(2) b R implicit_repD(2,3)[OF r R(1)] by (simp add: implicit_rep_def implicit_blocks_def)
      ultimately show ?thesis using nc by (auto simp: enqueue_outcome_def)
    qed
  next
    case True
    then have ab: "tailIndex p AND (BLOCK_SIZE t - 1) = 0" unfolding tail at_boundary_iff[OF t] .
    note T = pos(1)[OF True]
    obtain y p1 where y: "implicit_fresh_block t m (of_nat ?T) p = Some (y, p1)" "tailBlock p1 = tailBlock p"
        "case y of None \<Rightarrow> implicit_blocks t M p1 R H q | Some (e, a) \<Rightarrow> fresh_block t M p1 e a R H q"
      using implicit_fresh_block_rep[OF t b, of m] unfolding T[symmetric] by (fastforce split: option.splits)
    show ?thesis
    proof (cases y)
      case None
      then have "implicit_enqueue t m c x p = Some (Return False, p1)" using y(1) ab by (simp add: implicit_enqueue_def tail)
      moreover have "implicit_rep t M p1 R H q" using y(2,3) None r by (simp add: implicit_rep_def)
      ultimately show ?thesis using True by (auto simp: enqueue_outcome_def)
    next
      case (Some ea)
      obtain e a where ea: "ea = (e, a)" by fastforce
      have f: "fresh_block t M p1 e a R H q" using y(3) Some ea by simp
      show ?thesis
      proof (cases "c = throwing_ctor True")
        case thr: True
        obtain p2 where p2: "rewind_block_index_tail p1 = Some p2" "implicit_blocks t M (give_back a (set_value e None p2)) R H q" "index_frame p1 p2"
          using fresh_abort[OF t f] by blast
        let ?p = "give_back a (set_value e None p2)"
        have "implicit_enqueue t m c x p = Some (Rethrow, ?p)" using y(1) ab thr Some ea p2(1) by (simp add: implicit_enqueue_def tail)
        moreover have "tailBlock ?p = tailBlock p"
          using index_frame_keeps(3)[OF p2(3)] index_frame_keeps(3)[OF index_frame_sets(1)[of p2 e None]] y(2) by (simp add: give_back_def)
        then have "implicit_rep t M ?p R H q" using p2(2) r by (simp add: implicit_rep_def)
        ultimately show ?thesis using thr by (auto simp: enqueue_outcome_def)
      next
        case nc: False
        let ?p2 = "(set_value e (Some a) p1) \<lparr> tailBlock := Some a \<rparr>"
        have b2: "implicit_blocks t M (set_value e (Some a) p1) (R @ [a]) H q" by (rule fresh_commit[OF f])
        then have st: "blocks_store t M ?p2 (R @ [a]) H q" by (simp add: implicit_blocks_def blocks_store_def blocks_ok_def pool_blocks_def blocks_rep_def counters_rep_def)
        have B: "0 < bsz t" by (rule BLOCK_SIZE_pos[OF t])
        then obtain hp where hp: "construct_at t a (of_nat ?T) x ?p2 = Some (?p2 \<lparr> heap := hp \<rparr>)"
            "blocks_store t M (?p2 \<lparr> heap := hp, tailIndex := 1 + of_nat ?T \<rparr>) (R @ [a]) H (q @ [x])"
          using blocks_store_construct[OF t st, of x] T by auto
        have h1: "heap ?p2 = heap p1" using index_frame_keeps(1)[OF index_frame_sets(1)[of p1 e "Some a"]] by simp
        have c1: "construct_at t a (of_nat ?T) x p1 = Some (p1 \<lparr> heap := hp \<rparr>)"
          by (rule construct_at_heap[OF hp(1) h1[symmetric]])
        let ?p = "?p2 \<lparr> heap := hp, tailIndex := 1 + of_nat ?T \<rparr>"
        have "implicit_enqueue t m c x p = Some (Return True, ?p)"
          using y(1) ab nc Some ea c1 hp(1) by (cases "c = noexcept_ctor") (simp_all add: implicit_enqueue_def tail construct_tail_def set_value_fields Let_def)
        moreover have "implicit_rep t M ?p (R @ [a]) H (q @ [x])"
          using hp(2) b2 T B by (simp add: implicit_rep_def implicit_blocks_def add_mult_distrib)
        ultimately show ?thesis using nc by (auto simp: enqueue_outcome_def)
      qed
    qed
  qed
qed


section \<open>Dequeueing\<close>

text \<open>What does not depend on the counters, and the fields that taking elements leaves alone.\<close>

definition held :: "traits \<Rightarrow> nat multiset \<Rightarrow> 'a implicit_producer \<Rightarrow> nat list \<Rightarrow> nat \<Rightarrow> 'a list \<Rightarrow> bool" where
  "held t M p R H q \<longleftrightarrow> blocks_ok t p R \<and> mset (R @ pool_blocks p) = M \<and> blocks_rep t implicit_context p R (H div bsz t) H q \<and>
     implicit_index_rep t p (rev R) (H div bsz t + length R)"

definition take_frame :: "'a implicit_producer \<Rightarrow> 'a implicit_producer \<Rightarrow> bool" where
  "take_frame p p' \<longleftrightarrow> tailBlock p' = tailBlock p \<and> headIndex p' = headIndex p \<and> tailIndex p' = tailIndex p \<and>
     dequeueOptimisticCount p' = dequeueOptimisticCount p \<and> dequeueOvercommit p' = dequeueOvercommit p \<and> implicitIndex p' = implicitIndex p"

lemma take_frame_trans: "take_frame p p' \<Longrightarrow> take_frame p' p'' \<Longrightarrow> take_frame p p''"
  by (simp add: take_frame_def)

lemma take_frame_release: "take_frame p (release_if_empty emptied e a p)" "take_frame p (p \<lparr> heap := hp \<rparr>)"
  by (simp_all add: take_frame_def release_if_empty_def give_back_def set_value_def set_entry_def)

lemma implicit_blocks_held:
  "implicit_blocks t M p R H q \<longleftrightarrow> H + length q \<le> (H div bsz t + length R) * bsz t \<and> counters_rep p H (H + length q) \<and> held t M p R H q"
  unfolding implicit_blocks_def blocks_store_def held_def by blast

lemma held_counters:
  "held t M (p \<lparr> dequeueOptimisticCount := c, headIndex := i \<rparr>) R H q = held t M p R H q"
  "held t M (p \<lparr> dequeueOptimisticCount := c, dequeueOvercommit := j, headIndex := i \<rparr>) R H q = held t M p R H q"
  by (simp_all add: held_def blocks_ok_def pool_blocks_def blocks_rep_def)

text \<open>The entry of the oldest block.\<close>

lemma oldest_entry:
  assumes i: "implicitIndex p = h # hs" and r: "implicit_index_rep t p (L @ [a]) N" and h: "header_ok t s h"
  shows "entry_value (index_ring h ! length L) p = Some a" "length L < 2 ^ s"
    "index_ring h ! length L = index h ! ((unat (ih_tail h) + 2 ^ s - length L) mod 2 ^ s)"
proof -
  have es: "entries_rep t (index_entries p) (index_ring h) (L @ [a]) N" using r i by (auto simp: implicit_index_rep_def)
  have l: "length (index h) = 2 ^ s" using h by (simp add: header_ok_def)
  have "length L < length (index_ring h)" using entries_repD(3)[OF es] by simp
  then show L: "length L < 2 ^ s" using index_ring_list(1)[of h] l by simp
  have "index_ring h ! length L \<in> set (index_ring h)" using L index_ring_list(1)[of h] l by (intro nth_mem) simp
  then have "index_ring h ! length L < length (index_entries p)" using entries_repD(2)[OF es] by blast
  then show "entry_value (index_ring h ! length L) p = Some a"
    using entries_repD(4)[OF es, of "length L"] by (simp add: entry_value_def ensure_def live_entry_def)
  show "index_ring h ! length L = index h ! ((unat (ih_tail h) + 2 ^ s - length L) mod 2 ^ s)"
    using index_ring_nth[of "length L" h] L l by simp
qed

text \<open>After elements of the oldest block have been taken, it stays or goes back to the pool.\<close>

lemma release_held:
  assumes t: "traits_ok t" and H': "H \<le> H'" "H' \<le> (H div bsz t + 1) * bsz t"
    and bo: "blocks_ok t p (a # R)" "mset ((a # R) @ pool_blocks p) = M" and br: "blocks_rep t implicit_context p (a # R) (H div bsz t) H' q"
    and ix: "implicit_index_rep t p (rev (a # R)) (H div bsz t + length (a # R))"
    and e: "implicitIndex p = h # hs" "index_ring h ! length R = e"
    and em: "emptied \<longleftrightarrow> (H div bsz t + 1) * bsz t \<le> H'"
  shows "held t M (release_if_empty emptied e a p) (if emptied then R else a # R) H' q"
    and "H' div bsz t + length (if emptied then R else a # R) = H div bsz t + length (a # R)"
proof -
  let ?K = "H div bsz t"
  have B: "0 < bsz t" by (rule BLOCK_SIZE_pos[OF t])
  have K: "H' div bsz t = (if emptied then ?K + 1 else ?K)"
  proof (cases emptied)
    case True
    then have "H' = (?K + 1) * bsz t" using em H'(2) by linarith
    then show ?thesis using True B by simp
  next
    case False
    then have "H' < (?K + 1) * bsz t" using em by linarith
    moreover have "?K * bsz t \<le> H'" using H'(1) div_times_less_eq_dividend[of H "bsz t"] by linarith
    ultimately show ?thesis using False block_pos(1) by simp
  qed
  then show "H' div bsz t + length (if emptied then R else a # R) = ?K + length (a # R)" by simp
  show "held t M (release_if_empty emptied e a p) (if emptied then R else a # R) H' q"
  proof (cases emptied)
    case False
    then show ?thesis using bo br ix K by (simp add: held_def release_if_empty_def)
  next
    case True
    let ?p = "give_back a (set_value e None p)"
    note k = index_frame_keeps[OF index_frame_sets(1)[of p e None]] index_frame_pool[OF index_frame_sets(1)[of p e None]]
    have hp: "heap ?p = heap p" using k(1) by (simp add: give_back_def)
    have m: "mset (R @ pool_blocks ?p) = mset ((a # R) @ pool_blocks p)" using k by (simp add: give_back_pool)
    have "blocks_ok t ?p R" by (rule blocks_ok_mset[OF bo(1) m]) (use bo(1) k in \<open>simp_all add: give_back_pool hp blocks_ok_def\<close>)
    moreover have "blocks_rep t implicit_context ?p R (?K + 1) H' q"
      by (rule blocks_rep_same[OF blocks_rep_tl[OF br]]) (simp add: hp)
    moreover have "implicit_index_rep t (set_value e None p) (rev R) (?K + length (a # R))"
      using ix e by (intro index_rep_pop[where a = a]) simp_all
    then have "implicit_index_rep t ?p (rev R) (?K + length (a # R))" by (simp add: give_back_def)
    ultimately show ?thesis using True K m bo(2) by (simp add: held_def release_if_empty_def)
  qed
qed

lemma live_block_of_head:
  assumes "traits_ok t" "H + length q \<le> (H div bsz t + length R) * bsz t" "q \<noteq> []"
  shows "R \<noteq> []"
proof
  assume "R = []"
  then have "H + length q \<le> H div bsz t * bsz t" using assms(2) by simp
  then show False using assms(3) div_times_less_eq_dividend[of H "bsz t"] by (cases q) auto
qed

lemma implicit_take_rep:
  assumes t: "traits_ok t" and h: "held t M p R H (x # q)" and T: "H + length (x # q) \<le> (H div bsz t + length R) * bsz t"
  shows "\<exists>p' R'. implicit_take t (of_nat H) p = Some (x, p') \<and> take_frame p p' \<and> held t M p' R' (Suc H) q \<and>
    Suc H div bsz t + length R' = H div bsz t + length R \<and> (R' \<noteq> [] \<longrightarrow> last R' = last R)"
proof -
  let ?K = "H div bsz t"
  note h' = h[unfolded held_def]
  obtain a R1 where R: "R = a # R1" using live_block_of_head[OF t T] by (cases R) auto
  have mem: "length (rev R) * bsz t < 2 ^ 63"
  proof -
    have "length (rev R) * bsz t \<le> length (R @ pool_blocks p) * bsz t" by (intro mult_right_mono) auto
    then show ?thesis using h' unfolding blocks_ok_def by linarith
  qed
  have d: "length R - 1 < length (rev R)" "H div bsz t = ?K + length R - 1 - (length R - 1)" using R by simp_all
  have ix: "implicit_index_rep t p (rev R) (?K + length R)" using h' by blast
  from get_block_index_rep[OF t ix mem d(1) d(2)]
  obtain hd hs where g: "implicitIndex p = hd # hs" "get_block_index_entry_for_index t (of_nat H) p = Some (index_ring hd ! (length R - 1))"
      "entry_value (index_ring hd ! (length R - 1)) p = Some (rev R ! (length R - 1))" by metis
  have e: "index_ring hd ! (length R - 1) = index_ring hd ! length R1" "rev R ! (length R - 1) = a" using R by (simp_all add: nth_append)
  have l: "length (elements (heap p (R ! 0))) = bsz t" "distinct R" "0 < length R" using h' R by (auto simp: blocks_ok_def)
  have K0: "H div bsz t = ?K + 0" by simp
  have br: "blocks_rep t implicit_context p R ?K H (x # q)" using h' by blast
  from take_one_rep[OF t br l(2,3) K0 l(1)]
  obtain p1 b where b: "destroy_at t a (of_nat H) p = Some (x, p1)"
      "set_empty t implicit_context (of_nat H) (heap p1 a) = Some ((?K + 1) * bsz t \<le> Suc H, b)"
      "write_block a b p1 = p \<lparr> heap := (heap p)(a := b) \<rparr>"
      "blocks_rep t implicit_context (p \<lparr> heap := (heap p)(a := b) \<rparr>) R ?K (Suc H) q" "length (elements b) = bsz t"
    using R by auto
  define p2 where "p2 = p \<lparr> heap := (heap p)(a := b) \<rparr>"
  let ?em = "(?K + 1) * bsz t \<le> Suc H" and ?e = "index_ring hd ! length R1"
  have ev: "implicit_take t (of_nat H) p = Some (x, release_if_empty ?em ?e a p2)"
    using g(2,3) e b(1-3) by (simp add: implicit_take_def p2_def)
  have bo: "blocks_ok t p2 (a # R1)" "mset ((a # R1) @ pool_blocks p2) = M"
    using h' R b(5) by (auto simp: p2_def blocks_ok_def pool_blocks_def)
  have le: "Suc H \<le> (?K + 1) * bsz t"
    using dividend_less_div_times[OF BLOCK_SIZE_pos[OF t], of H] by (simp add: Suc_le_eq add.commute)
  have br2: "blocks_rep t implicit_context p2 (a # R1) ?K (Suc H) q" using b(4) R by (simp add: p2_def)
  have ix2: "implicit_index_rep t p2 (rev (a # R1)) (?K + length (a # R1))" using ix R by (simp add: p2_def)
  have i2: "implicitIndex p2 = hd # hs" using g(1) by (simp add: p2_def)
  note rel = release_held[OF t le_SucI[OF order_refl] le bo br2 ix2 i2 refl refl]
  have f: "take_frame p (release_if_empty ?em ?e a p2)"
    by (rule take_frame_trans[OF _ take_frame_release(1)]) (simp add: p2_def take_frame_release(2))
  show ?thesis
    using ev f rel R by (intro exI[of _ "release_if_empty ?em ?e a p2"] exI[of _ "if ?em then R1 else a # R1"]) auto
qed

lemma implicit_dequeue_rep:
  assumes t: "traits_ok t" and r: "implicit_rep t M p R H q"
  shows "\<exists>d p' R' H' q'. implicit_dequeue t throws p = Some (d, p') \<and> implicit_rep t M p' R' H' q' \<and>
    (case q of [] \<Rightarrow> d = Nothing_Dequeued \<and> q' = [] \<and> H' = H
     | x # xs \<Rightarrow> d = (if throws then Assignment_Threw x else Dequeued x) \<and> q' = xs \<and> H' = Suc H)"
proof -
  note b = implicit_repD(1)[OF r]
  note c = implicit_blocksD(2-4)[OF b] and mem = implicit_memory[OF t b]
  have lt: "circular_less_than (of_nat H) (of_nat (H + length q)) \<longleftrightarrow> q \<noteq> []"
    using circular_less_than_of_nat(1)[of H "H + length q"] mem(3) by simp
  show ?thesis
  proof (cases q)
    case Nil
    then show ?thesis using r lt c by (auto simp: implicit_dequeue_def Let_def)
  next
    case (Cons x xs)
    define p1 where "p1 = p \<lparr> dequeueOptimisticCount := dequeueOptimisticCount p + 1, headIndex := headIndex p + 1 \<rparr>"
    have T: "H + length (x # xs) \<le> (H div bsz t + length R) * bsz t" using implicit_blocksD(1)[OF b] Cons by simp
    have "held t M p1 R H (x # xs)" using b Cons by (simp add: implicit_blocks_held p1_def held_counters)
    from implicit_take_rep[OF t this T]
    obtain p' R' where p': "implicit_take t (of_nat H) p1 = Some (x, p')" "take_frame p1 p'" "held t M p' R' (Suc H) xs"
        "Suc H div bsz t + length R' = H div bsz t + length R" "R' \<noteq> [] \<longrightarrow> last R' = last R" by blast
    have ev: "implicit_dequeue t throws p = Some (if throws then Assignment_Threw x else Dequeued x, p')"
      using lt c Cons p'(1) by (simp add: implicit_dequeue_def Let_def p1_def)
    have "counters_rep p' (Suc H) (Suc H + length xs)"
      using c Cons p'(2) by (simp add: counters_rep_def take_frame_def p1_def)
    then have "implicit_blocks t M p' R' (Suc H) xs" using p'(3,4) T by (simp add: implicit_blocks_held)
    moreover have "tailBlock p' = tailBlock p" using p'(2) by (simp add: take_frame_def p1_def)
    ultimately have "implicit_rep t M p' R' (Suc H) xs"
      using r p'(4,5) Cons live_block_of_head[OF t T] by (auto simp: implicit_rep_def)
    then show ?thesis using ev Cons by (intro exI[of _ "if throws then Assignment_Threw x else Dequeued x"]) auto
  qed
qed


section \<open>Dequeueing in bulk\<close>

lemma held_facts:
  assumes t: "traits_ok t" and h: "held t M p R H q"
  shows "length (rev R) * bsz t < 2 ^ 63" "distinct R" "R \<noteq> [] \<Longrightarrow> bsz t < 2 ^ 63"
    "\<And>a. a \<in> set R \<Longrightarrow> length (elements (heap p a)) = bsz t"
proof -
  note h' = h[unfolded held_def]
  have "length (rev R) * bsz t \<le> length (R @ pool_blocks p) * bsz t" by (intro mult_right_mono) auto
  then show m: "length (rev R) * bsz t < 2 ^ 63" using h' unfolding blocks_ok_def by linarith
  show "distinct R" "\<And>a. a \<in> set R \<Longrightarrow> length (elements (heap p a)) = bsz t" using h' by (auto simp: blocks_ok_def)
  assume "R \<noteq> []"
  then have "1 * bsz t \<le> length (rev R) * bsz t" by (intro mult_le_mono1) (cases R; simp)
  then show "bsz t < 2 ^ 63" using m by linarith
qed

text \<open>One chunk, in the oldest block.\<close>

lemma implicit_take_chunk:
  assumes t: "traits_ok t" and h: "held t M p (a # R1) H (xs @ q)" and n: "H mod bsz t + length xs \<le> bsz t"
    and i: "implicitIndex p = hh # hs" "index_ring hh ! length R1 = e"
  shows "\<exists>p1 emptied b. destroy_span (bsz t) t a (of_nat H) (of_nat H + of_nat (length xs)) p = Some (xs, p1) \<and>
    set_many_empty t implicit_context (of_nat H) (of_nat (length xs)) (heap p1 a) = Some (emptied, b) \<and>
    (let p' = release_if_empty emptied e a (write_block a b p1); R' = (if emptied then R1 else a # R1) in
     take_frame p p' \<and> held t M p' R' (H + length xs) q \<and> (H + length xs) div bsz t + length R' = H div bsz t + length (a # R1))"
proof -
  let ?K = "H div bsz t"
  note h' = h[unfolded held_def] and hf = held_facts[OF t h]
  have i0: "0 < length (a # R1)" "H div bsz t = ?K + 0" by simp_all
  have br: "blocks_rep t implicit_context p (a # R1) ?K H (xs @ q)" using h' by blast
  have l: "length (elements (heap p ((a # R1) ! 0))) = bsz t" using hf(4)[of a] by simp
  from take_span_rep[OF t br hf(2) i0 l n]
  obtain p1 em b where b: "destroy_span (bsz t) t a (of_nat H) (of_nat H + of_nat (length xs)) p = Some (xs, p1)"
      "set_many_empty t implicit_context (of_nat H) (of_nat (length xs)) (heap p1 a) = Some (em, b)"
      "em \<longleftrightarrow> (?K + 1) * bsz t \<le> H + length xs" "write_block a b p1 = p \<lparr> heap := (heap p)(a := b) \<rparr>"
      "blocks_rep t implicit_context (p \<lparr> heap := (heap p)(a := b) \<rparr>) (a # R1) ?K (H + length xs) q" "length (elements b) = bsz t"
    by auto
  define p2 where "p2 = p \<lparr> heap := (heap p)(a := b) \<rparr>"
  have bo: "blocks_ok t p2 (a # R1)" "mset ((a # R1) @ pool_blocks p2) = M"
    using h' b(6) by (auto simp: p2_def blocks_ok_def pool_blocks_def)
  have "H + length xs = ?K * bsz t + (H mod bsz t + length xs)" by simp
  also have "\<dots> \<le> ?K * bsz t + bsz t" using n by (intro add_left_mono)
  finally have le: "H + length xs \<le> (?K + 1) * bsz t" by simp
  have br2: "blocks_rep t implicit_context p2 (a # R1) ?K (H + length xs) q" using b(5) by (simp add: p2_def)
  have ix2: "implicit_index_rep t p2 (rev (a # R1)) (?K + length (a # R1))" using h' by (simp add: p2_def)
  have i2: "implicitIndex p2 = hh # hs" using i(1) by (simp add: p2_def)
  note rel = release_held[OF t le_add1 le bo br2 ix2 i2 i(2) b(3)]
  have "take_frame p (release_if_empty em e a p2)"
    by (rule take_frame_trans[OF _ take_frame_release(1)]) (simp add: p2_def take_frame_release(2))
  then show ?thesis using b(1,2,4) rel by (intro exI[of _ p1] exI[of _ em] exI[of _ b]) (simp add: p2_def Let_def)
qed

lemma implicit_take_blocks_rep:
  assumes t: "traits_ok t" and hh: "header_ok t s hh"
  shows "held t M p R H (xs @ q) \<Longrightarrow> R \<noteq> [] \<Longrightarrow> implicitIndex p = hh # hs \<Longrightarrow>
    unat k = (unat (ih_tail hh) + 2 ^ s - (length R - 1)) mod 2 ^ s \<Longrightarrow>
    H + length xs \<le> (H div bsz t + length R) * bsz t \<Longrightarrow> length xs < 2 ^ 63 \<Longrightarrow> length xs < fuel \<Longrightarrow>
    \<exists>p' R'. implicit_take_blocks fuel t hh k (of_nat H) (of_nat H + of_nat (length xs)) p = Some (xs, p') \<and> take_frame p p' \<and>
      held t M p' R' (H + length xs) q \<and> (H + length xs) div bsz t + length R' = H div bsz t + length R \<and> (R' \<noteq> [] \<longrightarrow> last R' = last R)"
proof (induction fuel arbitrary: p R H xs k)
  case 0
  then show ?case by simp
next
  case (Suc fuel)
  let ?B = "bsz t" and ?n = "length xs" and ?K = "H div bsz t"
  obtain a R1 where R: "R = a # R1" using Suc.prems(2) by (cases R) auto
  note B63 = held_facts(3)[OF t Suc.prems(1,2)]
  define m where "m = min ?n ((?K + 0 + 1) * ?B - H)"
  have K0: "H div ?B = ?K + 0" by simp
  note fc = first_chunk[OF K0 BLOCK_SIZE_pos[OF t] Suc.prems(5) m_def]
  define ys zs where "ys = take m xs" and "zs = drop m xs"
  have yz: "xs = ys @ zs" "length ys = m" "length zs = ?n - m" using fc(3) by (auto simp: ys_def zs_def)
  have stop: "stop_index t (of_nat H) (of_nat H + of_nat ?n) = of_nat H + of_nat m"
    using stop_index_of_nat[OF t B63, of H "H + ?n"] Suc.prems(6) unfolding fc(4) of_nat_add by simp
  have ix: "implicit_index_rep t p (rev R1 @ [a]) (?K + length R)" using Suc.prems(1) R by (simp add: held_def)
  note oe = oldest_entry[OF Suc.prems(3) ix hh]
  let ?e = "index_ring hh ! length R1"
  have en: "entry_value ?e p = Some a" "index hh ! unat k = ?e" "unat k < length (index hh)"
    using oe Suc.prems(4) R hh by (auto simp: header_ok_def)
  have "held t M p (a # R1) H (ys @ (zs @ q))" using Suc.prems(1) yz(1) R by simp
  from implicit_take_chunk[OF t this _ Suc.prems(3) refl] fc(1) yz(2)
  obtain p1 em b where b: "destroy_span ?B t a (of_nat H) (of_nat H + of_nat m) p = Some (ys, p1)"
      "set_many_empty t implicit_context (of_nat H) (of_nat m) (heap p1 a) = Some (em, b)"
      "take_frame p (release_if_empty em ?e a (write_block a b p1))"
      "held t M (release_if_empty em ?e a (write_block a b p1)) (if em then R1 else a # R1) (H + m) (zs @ q)"
      "(H + m) div ?B + length (if em then R1 else a # R1) = ?K + length (a # R1)"
    by (auto simp: Let_def)
  define p2 R2 where "p2 = release_if_empty em ?e a (write_block a b p1)" and "R2 = (if em then R1 else a # R1)"
  note b = b[folded p2_def R2_def]
  have last: "R2 \<noteq> [] \<longrightarrow> last R2 = last R" unfolding R2_def R by auto
  let ?k = "(k + 1) AND (capacity hh - 1)"
  have step: "implicit_take_blocks (Suc fuel) t hh k (of_nat H) (of_nat H + of_nat ?n) p =
      (if (of_nat H :: size_t) + of_nat m = of_nat H + of_nat ?n then Some (ys, p2)
       else do { (zs, p) \<leftarrow> implicit_take_blocks fuel t hh ?k (of_nat H + of_nat m) (of_nat H + of_nat ?n) p2;
                 Some (ys @ zs, p) })"
    by (simp add: stop en ensure_def b(1,2) Let_def flip: p2_def)
  show ?case
  proof (cases "m = ?n")
    case True
    then have e: "zs = []" "ys = xs" "H + m = H + ?n" by (simp_all add: ys_def zs_def)
    have "implicit_take_blocks (Suc fuel) t hh k (of_nat H) (of_nat H + of_nat ?n) p = Some (xs, p2)"
      unfolding step True e(2) by simp
    moreover have "held t M p2 R2 (H + ?n) q" "(H + ?n) div ?B + length R2 = ?K + length R" using b(4,5) R unfolding e(1,3) by simp_all
    ultimately show ?thesis using b(3) last by blast
  next
    case False
    have i': "(H + m) div ?B = ?K + 1" "1 < length R" using fc(5)[OF False] by auto
    then have l2: "length R2 = length R1" using b(5) by simp
    then have R2: "R2 = R1" "R1 \<noteq> []" "length R = Suc (length R1)" using i'(2) R unfolding R2_def by (auto split: if_splits)
    have s: "s < 64" "capacity hh = 2 ^ s" using header_ok_words(1)[OF t hh] hh by (auto simp: header_ok_def)
    have "unat ?k = (unat k + 1) mod 2 ^ s" unfolding s(2) using s(1) by (simp add: unat_plus_mask)
    also have "\<dots> = (unat (ih_tail hh) + 2 ^ s - length R1 + 1) mod 2 ^ s" unfolding Suc.prems(4) using R by (simp add: mod_simps)
    also have "unat (ih_tail hh) + 2 ^ s - length R1 + 1 = unat (ih_tail hh) + 2 ^ s - (length R2 - 1)"
      using R2 oe(2) by (cases R1) auto
    finally have k': "unat ?k = (unat (ih_tail hh) + 2 ^ s - (length R2 - 1)) mod 2 ^ s" .
    have n0: "0 < ?n" using False fc(3) by auto
    have ne: "(of_nat H :: size_t) + of_nat m \<noteq> of_nat H + of_nat ?n"
      using of_nat_add_eq_iff[of m ?n "of_nat H"] False Suc.prems(6) fc(3) by simp
    have nz: "H + m + length zs = H + ?n" using yz(3) fc(3) by simp
    have lim: "(of_nat H :: size_t) + of_nat m = of_nat (H + m)" "(of_nat H :: size_t) + of_nat ?n = of_nat (H + m) + of_nat (length zs)"
      unfolding of_nat_add[symmetric] nz by simp_all
    have ii: "implicitIndex p2 = hh # hs" using b(3) Suc.prems(3) by (simp add: take_frame_def)
    have le: "H + m + length zs \<le> ((H + m) div ?B + length R2) * ?B" using Suc.prems(5) R unfolding nz b(5) by simp
    have l: "length zs < 2 ^ 63" "length zs < fuel" using Suc.prems(6,7) yz(3) fc(2)[OF n0] fc(3) by linarith+
    have ne2: "R2 \<noteq> []" using R2 by simp
    from Suc.IH[OF b(4) ne2 ii k' le l] obtain p' R' where p':
        "implicit_take_blocks fuel t hh ?k (of_nat (H + m)) (of_nat (H + m) + of_nat (length zs)) p2 = Some (zs, p')"
        "take_frame p2 p'" "held t M p' R' (H + m + length zs) q"
        "(H + m + length zs) div ?B + length R' = (H + m) div ?B + length R2" "R' \<noteq> [] \<longrightarrow> last R' = last R2" by blast
    have "implicit_take_blocks (Suc fuel) t hh k (of_nat H) (of_nat H + of_nat ?n) p = Some (ys @ zs, p')"
      using ne p'(1)[folded lim(2), folded lim(1)] unfolding step by simp
    moreover have "(H + ?n) div ?B + length R' = ?K + length R" using p'(4) b(5) R unfolding nz by simp
    moreover have "R' \<noteq> [] \<longrightarrow> last R' = last R" using p'(5) last ne2 by simp
    ultimately show ?thesis using p'(3) take_frame_trans[OF b(3) p'(2)] unfolding yz(1)[symmetric] nz by blast
  qed
qed

end
