(* ===== verification/Cq_Implicit_Release.thy ===== *)
theory Cq_Implicit_Release
  imports Cq_Implicit_Fifo
begin

text \<open>
  \<open>ImplicitProducer::dequeue_bulk\<close> and the destructor keep the representation: they take elements block by block and give the
  blocks that become empty back to the pool.
\<close>

section \<open>dequeue_bulk\<close>

lemma implicit_dequeue_bulk_rep:
  assumes t: "traits_ok t" and r: "implicit_rep t M p R H q" and n: "n = min (length q) (unat most)"
  shows "\<exists>p' R'. implicit_dequeue_bulk t throwsAt most p = Some (fst (handed_over throwsAt (take n q)), snd (handed_over throwsAt (take n q)), p') \<and>
    implicit_rep t M p' R' (H + n) (drop n q)"
proof (cases "q = []")
  case True
  then have "tailIndex p - (dequeueOptimisticCount p - dequeueOvercommit p) = 0"
    using implicit_blocksD(3,4)[OF implicit_repD(1)[OF r]] by simp
  then have "implicit_dequeue_bulk t throwsAt most p = Some (False, [], p)"
    by (simp add: implicit_dequeue_bulk_def Let_def circular_less_than_def)
  then show ?thesis using True r n by (cases throwsAt) (auto simp: handed_over_def)
next
  case False
  note b = implicit_repD(1)[OF r]
  note c = implicit_blocksD(2-4)[OF b] and mem = implicit_memory[OF t b] and T = implicit_blocksD(1)[OF b]
  have R: "R \<noteq> []" by (rule live_block_of_head[OF t T False])
  have d: "tailIndex p - (dequeueOptimisticCount p - dequeueOvercommit p) = of_nat (length q)" unfolding c by simp
  have lt: "circular_less_than 0 (of_nat (length q))"
    using circular_less_than_of_nat(1)[of 0 "length q"] mem(3) False by simp
  have mn: "min (of_nat (length q)) most = (of_nat n :: size_t)"
    using mem(3) n by (simp add: min_def word_le_nat_alt unat_of_nat_small)
  have mn': "min (of_nat n) (of_nat (length q)) = (of_nat n :: size_t)" using mn by (metis min.left_commute min.commute min.idem)
  have un: "unat (of_nat n :: size_t) = n" using mem(3) n by (intro unat_of_nat_small) simp
  define p1 where "p1 = p \<lparr> dequeueOptimisticCount := dequeueOptimisticCount p + of_nat n, headIndex := of_nat H + of_nat n \<rparr>"
  have tk: "length (take n q) = n" using n by simp
  have hd1: "held t M p1 R H (take n q @ drop n q)" using b by (simp add: implicit_blocks_held p1_def held_counters)
  have ix: "implicit_index_rep t p1 (rev R) (H div bsz t + length R)" using hd1 unfolding held_def by blast
  have dd: "length R - 1 < length (rev R)" "H div bsz t = H div bsz t + length R - 1 - (length R - 1)" using R by (cases R; simp)+
  from get_block_index_rep[OF t ix _ dd] mem(1)
  obtain hh hs s k where g: "implicitIndex p1 = hh # hs" "header_ok t s hh" "get_block_index_index_for_index t (of_nat H) p1 = Some (hh, k)"
      "unat k = (unat (ih_tail hh) + 2 ^ s - (length R - 1)) mod 2 ^ s"
    by (metis length_rev)
  have m1: "H + length (take n q) \<le> (H div bsz t + length R) * bsz t" "length (take n q) < 2 ^ 63" "length (take n q) < Suc n"
    using T mem(3) tk n by linarith+
  from implicit_take_blocks_rep[OF t g(2) hd1 R g(1,4) m1, unfolded tk]
  obtain p' R' where p': "implicit_take_blocks (Suc n) t hh k (of_nat H) (of_nat H + of_nat n) p1 = Some (take n q, p')"
      "take_frame p1 p'" "held t M p' R' (H + n) (drop n q)" "(H + n) div bsz t + length R' = H div bsz t + length R"
      "R' \<noteq> [] \<longrightarrow> last R' = last R" by blast
  have ev: "implicit_dequeue_bulk t throwsAt most p = Some (fst (handed_over throwsAt (take n q)), snd (handed_over throwsAt (take n q)), p')"
    using d lt mn mn' c g(3)[unfolded p1_def] p'(1)[unfolded p1_def] un tk
    by (cases throwsAt) (simp_all add: implicit_dequeue_bulk_def Let_def p1_def handed_over_def del: implicit_take_blocks.simps)
  have len: "H + n + length (drop n q) = H + length q" using n by simp
  have "dequeueOptimisticCount p' - dequeueOvercommit p' = of_nat (H + n)"
    using c(3) p'(2) by (simp add: p1_def take_frame_def diff_add_eq)
  then have "counters_rep p' (H + n) (H + n + length (drop n q))"
    using c p'(2) unfolding len by (simp add: counters_rep_def p1_def take_frame_def)
  then have "implicit_blocks t M p' R' (H + n) (drop n q)"
    using p'(3) T unfolding implicit_blocks_held len p'(4) by blast
  moreover have "tailBlock p' = tailBlock p" using p'(2) by (simp add: take_frame_def p1_def)
  ultimately have "implicit_rep t M p' R' (H + n) (drop n q)"
    using r p'(4,5) R len unfolding implicit_rep_def by auto
  then show ?thesis using ev by blast
qed

section \<open>The destructor\<close>

text \<open>The elements from position \<open>m\<close> on, in blocks of which the first has the number \<open>K\<close>.\<close>

definition rest_at :: "traits \<Rightarrow> 'a implicit_producer \<Rightarrow> nat list \<Rightarrow> nat \<Rightarrow> nat \<Rightarrow> 'a list \<Rightarrow> bool" where
  "rest_at t p R K m ys \<longleftrightarrow> distinct R \<and> K \<le> m div bsz t \<and> m + length ys \<le> (K + length R) * bsz t \<and>
     (\<forall>a\<in>set R. length (elements (heap p a)) = bsz t) \<and>
     (\<forall>k<length ys. elements (heap p (R ! ((m + k) div bsz t - K))) ! ((m + k) mod bsz t) = Some (ys ! k))"

text \<open>Blocks with the elements \<open>q\<close>, and the rest of them as it is destroyed.\<close>

definition store_at :: "traits \<Rightarrow> 'a implicit_producer \<Rightarrow> nat list \<Rightarrow> nat \<Rightarrow> nat \<Rightarrow> 'a list \<Rightarrow> bool" where
  "store_at t p R K H q \<longleftrightarrow> blocks_rep t implicit_context p R K H q \<and> distinct R \<and> (\<forall>a\<in>set R. length (elements (heap p a)) = bsz t)"

lemma store_at_prefix: "store_at t p R K H (q @ ys) \<Longrightarrow> store_at t p R K H q"
  by (fastforce simp: store_at_def blocks_rep_def block_rep_def nth_append)

lemma store_at_rest:
  assumes t: "traits_ok t" and s: "store_at t p R K H (q @ ys)" and K: "K = H div bsz t" and T: "H + length q + length ys \<le> (K + length R) * bsz t"
  shows "rest_at t p R K (H + length q) ys"
proof -
  note s' = s[unfolded store_at_def]
  let ?B = "bsz t" and ?T = "H + length q"
  have B: "0 < ?B" by (rule BLOCK_SIZE_pos[OF t])
  have le: "K \<le> (?T + k) div ?B" for k unfolding K by (rule div_le_mono) simp
  have "elements (heap p (R ! ((?T + k) div ?B - K))) ! ((?T + k) mod ?B) = Some (ys ! k)" if k: "k < length ys" for k
  proof -
    let ?i = "(?T + k) div ?B - K"
    have "?T + k < (K + length R) * ?B" using T k by linarith
    then have "(?T + k) div ?B < K + length R" using B by (simp add: div_less_iff_less_mult)
    then have i: "?i < length R" "K + ?i = (?T + k) div ?B" using le[of k] by linarith+
    have br: "block_rep t implicit_context (heap p (R ! ?i)) ((?T + k) div ?B) H (q @ ys)" using s' i unfolding blocks_rep_def by metis
    have e: "(?T + k) div ?B * ?B + (?T + k) mod ?B = ?T + k" by (rule div_mult_mod_eq)
    have "(?T + k) mod ?B < ?B" using B by simp
    moreover have "H \<le> ?T + k" "?T + k < H + length (q @ ys)" "(q @ ys) ! (?T + k - H) = ys ! k" using k by simp_all
    ultimately show ?thesis using br unfolding block_rep_def by (metis e)
  qed
  then show ?thesis using s' T le[of 0] unfolding rest_at_def by simp
qed

lemma rest_at_destroy:
  assumes t: "traits_ok t" and r: "rest_at t p R K m (y # ys)"
  shows "\<exists>hp. destroy_at t (R ! (m div bsz t - K)) (of_nat m) p = Some (y, p \<lparr> heap := hp \<rparr>) \<and> rest_at t (p \<lparr> heap := hp \<rparr>) R K (Suc m) ys"
    and "m div bsz t - K < length R"
proof -
  let ?B = "bsz t" and ?a = "R ! (m div bsz t - K)" and ?s = "m mod bsz t"
  have B: "0 < ?B" by (rule BLOCK_SIZE_pos[OF t])
  note r' = r[unfolded rest_at_def]
  have idx: "(m + k) div ?B - K < length R" if "k < length (y # ys)" for k
  proof -
    have "m + k < (K + length R) * ?B" using r' that by linarith
    then have "(m + k) div ?B < K + length R" using B by (simp add: div_less_iff_less_mult)
    moreover have "m div ?B \<le> (m + k) div ?B" by (rule div_le_mono) simp
    ultimately show ?thesis using r' by linarith
  qed
  show j: "m div ?B - K < length R" using idx[of 0] by simp
  have l: "length (elements (heap p ?a)) = ?B" using r' j by auto
  have e: "elements (heap p ?a) ! ?s = Some y" using r' by (metis add_0_right length_greater_0_conv list.distinct(1) nth_Cons_0)
  define hp where "hp = (heap p)(?a := (heap p ?a) \<lparr> elements := (elements (heap p ?a))[?s := None] \<rparr>)"
  have slot: "block_slot t (of_nat m) = ?s" by (rule block_slot_of_nat[OF t])
  have "destroy_at t ?a (of_nat m) p = Some (y, p \<lparr> heap := hp \<rparr>)"
    unfolding destroy_at_def slot using l e B by (simp add: ensure_def write_block_def hp_def)
  moreover have "elements (hp (R ! ((Suc m + k) div ?B - K))) ! ((Suc m + k) mod ?B) = Some (ys ! k)" if k: "k < length ys" for k
  proof -
    let ?b = "R ! ((Suc m + k) div ?B - K)"
    have k': "Suc k < length (y # ys)" using k by simp
    have o: "elements (heap p ?b) ! ((Suc m + k) mod ?B) = Some (ys ! k)"
      using r' k' by (metis add_Suc_right add_Suc nth_Cons_Suc)
    show ?thesis
    proof (cases "?b = ?a")
      case False
      then show ?thesis using o by (simp add: hp_def)
    next
      case True
      then have "(m + Suc k) div ?B - K = m div ?B - K" using r' idx[OF k'] j by (simp add: nth_eq_iff_index_eq)
      moreover have "m div ?B \<le> (m + Suc k) div ?B" by (rule div_le_mono) simp
      ultimately have "(m + Suc k) div ?B = m div ?B" using r' by linarith
      then have "(m + Suc k) mod ?B \<noteq> ?s" by (metis add_cancel_left_right div_mult_mod_eq nat.distinct(1))
      then have "(Suc m + k) mod ?B \<noteq> ?s" by simp
      then show ?thesis using o True by (simp add: hp_def)
    qed
  qed
  moreover have "K \<le> Suc m div ?B" using r' div_le_mono[of m "Suc m" ?B] by linarith
  ultimately show "\<exists>hp. destroy_at t ?a (of_nat m) p = Some (y, p \<lparr> heap := hp \<rparr>) \<and> rest_at t (p \<lparr> heap := hp \<rparr>) R K (Suc m) ys"
    using r' l by (intro exI[of _ hp]) (auto simp: rest_at_def hp_def)
qed


text \<open>
  \<open>j\<close> blocks have been entered; the loop returns each of them to the pool when it enters the next one. The last block
  is left to the destructor.
\<close>

definition entered :: "nat list \<Rightarrow> nat \<Rightarrow> nat option" where
  "entered R j = (case j of 0 \<Rightarrow> None | Suc i \<Rightarrow> Some (R ! i))"

definition rest_keeps :: "'a implicit_producer \<Rightarrow> 'a implicit_producer \<Rightarrow> bool" where
  "rest_keeps p p' \<longleftrightarrow> tailBlock p' = tailBlock p \<and> tailIndex p' = tailIndex p \<and> headIndex p' = headIndex p \<and>
     implicitIndex p' = implicitIndex p \<and> index_entries p' = index_entries p \<and> nextBlockIndexCapacity p' = nextBlockIndexCapacity p"

lemma rest_keeps_trans: "rest_keeps p p' \<Longrightarrow> rest_keeps p' p'' \<Longrightarrow> rest_keeps p p''"
  by (simp add: rest_keeps_def)

lemma rest_keeps_steps: "rest_keeps p (p \<lparr> heap := hp \<rparr>)" "rest_keeps p (give_back a p)" "rest_keeps p p"
  by (simp_all add: rest_keeps_def give_back_def)

text \<open>Entering the block of the position \<open>m\<close>.\<close>

lemma enter_block:
  assumes t: "traits_ok t" and ix: "implicit_index_rep t p (rev R) (K + length R)" and mem: "length R * bsz t < 2 ^ 63"
    and j: "j < length R" "m div bsz t = K + j"
  shows "\<exists>e. get_block_index_entry_for_index t (of_nat m) p = Some e \<and> entry_value e p = Some (R ! j)"
proof -
  have d: "length R - 1 - j < length (rev R)" "m div bsz t = K + length R - 1 - (length R - 1 - j)" using j by auto
  have r: "rev R ! (length R - 1 - j) = R ! j" using j by (simp add: rev_nth)
  show ?thesis using get_block_index_rep[OF t ix _ d] mem r by (metis length_rev)
qed

lemma destroy_rest_rep:
  assumes t: "traits_ok t" and mem: "length R * bsz t < 2 ^ 63"
  shows "rest_at t p R K m ys \<Longrightarrow> implicit_index_rep t p (rev R) (K + length R) \<Longrightarrow> tailIndex p = of_nat (m + length ys) \<Longrightarrow>
    (j = 0 \<and> m div bsz t = K \<and> ys \<noteq> []) \<or> (0 < j \<and> (K + j - 1) * bsz t < m \<and> m \<le> (K + j) * bsz t) \<Longrightarrow>
    (K + length R - 1) * bsz t < m + length ys \<Longrightarrow> length ys < 2 ^ 63 \<Longrightarrow> length ys \<le> fuel \<Longrightarrow>
    \<exists>p'. destroy_rest fuel t (entered R j) (of_nat m) p = Some (ys, p') \<and> rest_keeps p p' \<and>
      mset (pool_blocks p') = mset (pool_blocks p) + mset (drop (j - 1) (butlast R))"
proof (induction ys arbitrary: p m j fuel)
  case Nil
  have "(K + length R - 1) * bsz t < m" "m \<le> (K + j) * bsz t" using Nil.prems(4,5) by auto
  then have "(K + length R - 1) * bsz t < (K + j) * bsz t" by (rule less_le_trans)
  then have "K + length R - 1 < K + j" by (simp only: mult_less_cancel2)
  then have "length R \<le> j" by linarith
  then have "drop (j - 1) (butlast R) = []" by simp
  moreover have "destroy_rest fuel t (entered R j) (of_nat m) p = Some ([], p)" using Nil.prems(3) by (cases fuel) simp_all
  ultimately show ?case using rest_keeps_steps(3) by auto
next
  case (Cons y ys)
  obtain f where f: "fuel = Suc f" using Cons.prems(7) by (cases fuel) auto
  have ne: "(of_nat m :: index_t) \<noteq> tailIndex p"
    using of_nat_add_eq_iff[of 0 "length (y # ys)" "of_nat m"] Cons.prems(3,6) by simp
  have B: "0 < bsz t" by (rule BLOCK_SIZE_pos[OF t])
  define fresh where "fresh \<longleftrightarrow> m mod bsz t = 0 \<or> j = 0"
  define p1 where "p1 = (if fresh \<and> j \<noteq> 0 then give_back (R ! (j - 1)) p else p)"
  define j' where "j' = (if fresh then Suc j else j)"
  have at: "(of_nat m AND (BLOCK_SIZE t - 1) = 0 \<or> entered R j = None) = fresh"
    unfolding at_boundary_iff[OF t] fresh_def by (simp add: entered_def split: nat.split)
  have mj: "m div bsz t = K + j' - 1" "j' \<noteq> 0"
  proof -
    show "j' \<noteq> 0" using Cons.prems(4) by (auto simp: j'_def fresh_def)
    show "m div bsz t = K + j' - 1"
    proof (cases "j = 0")
      case True
      then show ?thesis using Cons.prems(4) by (simp add: j'_def fresh_def)
    next
      case False
      then have lo: "(K + j - 1) * bsz t < m" and up: "m \<le> (K + j) * bsz t" using Cons.prems(4) by simp_all
      have e: "(K + j - 1 + 1) = K + j" using False by simp
      show ?thesis
      proof (cases "m = (K + j) * bsz t")
        case True
        then show ?thesis using B by (simp add: j'_def fresh_def)
      next
        case neq: False
        then have hi: "m < (K + j - 1 + 1) * bsz t" using up e by simp
        have "m div bsz t = K + j - 1" "m mod bsz t = m - (K + j - 1) * bsz t" using block_pos[OF less_imp_le[OF lo] hi] by auto
        then show ?thesis using lo False by (simp add: j'_def fresh_def)
      qed
    qed
  qed
  have k1: "rest_keeps p p1" "heap p1 = heap p" by (simp_all add: p1_def give_back_def rest_keeps_def)
  have r1: "rest_at t p1 R K m (y # ys)" using Cons.prems(1) by (simp add: rest_at_def k1(2))
  have J: "m div bsz t - K = j' - 1" "j' - 1 < length R" using rest_at_destroy(2)[OF t r1] mj by simp_all
  obtain hp where hp: "destroy_at t (R ! (j' - 1)) (of_nat m) p1 = Some (y, p1 \<lparr> heap := hp \<rparr>)" "rest_at t (p1 \<lparr> heap := hp \<rparr>) R K (Suc m) ys"
    using rest_at_destroy(1)[OF t r1] unfolding J(1) by blast
  have ix1: "implicit_index_rep t p1 (rev R) (K + length R)" using Cons.prems(2) by (simp add: p1_def give_back_def)
  have get: "(if fresh then do { let p = (case entered R j of None \<Rightarrow> p | Some b \<Rightarrow> give_back b p);
                     e \<leftarrow> get_block_index_entry_for_index t (of_nat m) p; a \<leftarrow> entry_value e p; Some (a, p) }
              else do { a \<leftarrow> entered R j; Some (a, p) }) = Some (R ! (j' - 1), p1)"
  proof (cases fresh)
    case True
    then have "(case entered R j of None \<Rightarrow> p | Some b \<Rightarrow> give_back b p) = p1"
      by (simp add: p1_def entered_def split: nat.split)
    moreover have "m div bsz t = K + (j' - 1)" using mj by simp
    from enter_block[OF t ix1 mem J(2) this]
    obtain e where "get_block_index_entry_for_index t (of_nat m) p1 = Some e" "entry_value e p1 = Some (R ! (j' - 1))" by blast
    ultimately show ?thesis using True by (simp only: Let_def if_True bind.bind_lunit)
  next
    case False
    then show ?thesis by (auto simp: p1_def j'_def entered_def fresh_def split: nat.split)
  qed
  let ?p = "p1 \<lparr> heap := hp \<rparr>"
  have en: "entered R j' = Some (R ! (j' - 1))" using mj(2) by (cases j') (simp_all add: entered_def)
  have step: "destroy_rest fuel t (entered R j) (of_nat m) p =
      do { (xs, p) \<leftarrow> destroy_rest f t (entered R j') (of_nat (Suc m)) ?p; Some (y # xs, p) }"
    unfolding f destroy_rest.simps(2) at get en using ne hp(1) by (simp add: add.commute)
  have k2: "rest_keeps p ?p" using k1 rest_keeps_steps(1) rest_keeps_trans by blast
  have 1: "implicit_index_rep t ?p (rev R) (K + length R)" using ix1 by simp
  have 2: "tailIndex ?p = of_nat (Suc m + length ys)" using Cons.prems(3) k2 by (simp add: rest_keeps_def)
  have md: "m = (K + j' - 1) * bsz t + m mod bsz t" unfolding mj(1)[symmetric] by simp
  have e': "(K + j') * bsz t = (K + j' - 1) * bsz t + bsz t"
    using mj(2) mult_Suc[of "K + j' - 1" "bsz t"] by (simp add: add.commute)
  have "m mod bsz t < bsz t" using B by simp
  then have 3: "Suc m \<le> (K + j') * bsz t" "(K + j' - 1) * bsz t < Suc m" using md e' by linarith+
  have 4: "(K + length R - 1) * bsz t < Suc m + length ys" "length ys < 2 ^ 63" "length ys \<le> f" using Cons.prems(5-7) f by simp_all
  obtain p' where p': "destroy_rest f t (entered R j') (of_nat (Suc m)) ?p = Some (ys, p')" "rest_keeps ?p p'"
      "mset (pool_blocks p') = mset (pool_blocks ?p) + mset (drop (j' - 1) (butlast R))"
    using Cons.IH[OF hp(2) 1 2 _ 4, of j'] 3 mj(2) by blast
  have "mset (pool_blocks ?p) + mset (drop (j' - 1) (butlast R)) = mset (pool_blocks p) + mset (drop (j - 1) (butlast R))"
  proof (cases "fresh \<and> j \<noteq> 0")
    case True
    then have "j' = Suc j" "j < length R" "Suc (j - 1) = j" using J(2) by (simp_all add: j'_def)
    then have "j - 1 < length (butlast R)" by simp
    note jj = \<open>j' = Suc j\<close> this nth_butlast[OF this] \<open>Suc (j - 1) = j\<close>
    then have "drop (j - 1) (butlast R) = R ! (j - 1) # drop j (butlast R)" by (metis Cons_nth_drop_Suc)
    moreover have "pool_blocks ?p = pool_blocks p1" by (simp add: pool_blocks_def)
    ultimately show ?thesis using True jj(1) by (simp add: p1_def give_back_pool)
  next
    case False
    then have "j' - 1 = j - 1" "p1 = p" by (auto simp: j'_def p1_def)
    then show ?thesis by (simp add: pool_blocks_def)
  qed
  then show ?case using step p' rest_keeps_trans[OF k2 p'(2)] by auto
qed


lemma implicit_blocks_rest:
  assumes t: "traits_ok t" and b: "implicit_blocks t M p R H q"
  shows "rest_at t p R (H div bsz t) H q"
proof -
  have "store_at t p R (H div bsz t) H ([] @ q)" using implicit_blocksD(7,9,10)[OF b] by (simp add: store_at_def)
  from store_at_rest[OF t this refl] show ?thesis using implicit_blocksD(1)[OF b] by simp
qed

lemma implicit_destroy_rep:
  assumes t: "traits_ok t" and r: "implicit_rep t M p R H q" and f: "length q \<le> fuel"
  shows "\<exists>bp. implicit_destroy fuel t p = Some (q, bp) \<and> mset (pool_left bp) = M"
proof -
  note b = implicit_repD(1)[OF r]
  note d = implicit_blocksD[OF b] and mem = implicit_memory[OF t b]
  let ?K = "H div bsz t"
  show ?thesis
  proof (cases "q = []")
    case True
    have e: "destroy_rest fuel t None (of_nat H) p = Some ([], p)" "headIndex p = tailIndex p" using d(2,3) True by (cases fuel; simp)+
    show ?thesis
    proof (cases "H mod bsz t = 0")
      case False
      then have R: "R \<noteq> []" using implicit_tail_position(2)[OF t r] True by simp
      moreover have "(?K + length R - 1) * bsz t < H" using implicit_repD(3)[OF r R] True by simp
      then have "?K + length R - 1 \<le> ?K" using BLOCK_SIZE_pos[OF t] by (metis div_le_mono less_imp_le nonzero_mult_div_cancel_right not_less0)
      ultimately have "R = [last R]" by (cases R rule: rev_cases) auto
      then have "mset (pool_left (pool (give_back (last R) p))) = M"
        using d(6) give_back_pool(1)[of "last R" p] by (metis add_mset_add_single mset_append mset_single_iff pool_blocks_def union_commute mset.simps(1,2))
      moreover have "implicit_destroy fuel t p = Some ([], pool (give_back (last R) p))"
        using e implicit_repD(2)[OF r R] d(2,3) True False at_boundary_iff[OF t, of H] by (simp add: implicit_destroy_def ensure_def Let_def)
      ultimately show ?thesis using True by blast
    next
      case 0: True
      then have "H = (?K + length R) * bsz t" using implicit_tail_position(1)[OF t r] True by simp
      then have "?K = ?K + length R" using BLOCK_SIZE_pos[OF t] by (metis nonzero_mult_div_cancel_right not_less0)
      then have "M = mset (pool_left (pool p))" using d(6) by (simp add: pool_blocks_def)
      moreover have "implicit_destroy fuel t p = Some ([], pool p)"
        using e d(2,3) True 0 at_boundary_iff[OF t, of H] by (auto simp: implicit_destroy_def ensure_def Let_def split: option.split)
      ultimately show ?thesis using True by blast
    qed
  next
    case False
    have R: "R \<noteq> []" by (rule live_block_of_head[OF t d(1) False])
    have lt: "circular_less_than (of_nat H) (of_nat (H + length q))"
      using circular_less_than_of_nat(1)[of H "H + length q"] mem(3) False by simp
    have ne: "headIndex p \<noteq> tailIndex p" using lt d(2,3) by (auto simp: circular_less_than_def)
    obtain p' where p': "destroy_rest fuel t None (of_nat H) p = Some (q, p')" "rest_keeps p p'"
        "mset (pool_blocks p') = mset (pool_blocks p) + mset (butlast R)"
      using destroy_rest_rep[OF t mem(1) implicit_blocks_rest[OF t b] d(8,3), of 0 fuel] implicit_repD(3)[OF r R] mem(3) f False
      by (auto simp: entered_def)
    let ?a = "last R"
    have "implicit_destroy fuel t p = Some (q, pool (give_back ?a p'))"
      using p'(1,2) ne lt d(2,3) implicit_repD(2)[OF r R] by (simp add: implicit_destroy_def ensure_def Let_def rest_keeps_def)
    moreover have "mset (pool_left (pool (give_back ?a p'))) = M"
    proof -
      have "mset R = mset (butlast R) + {#?a#}" using R by (metis append_butlast_last_id mset_append mset_single_iff mset.simps)
      then show ?thesis using d(6) p'(3) give_back_pool(1)[of ?a p'] unfolding pool_blocks_def by (simp add: union_commute)
    qed
    ultimately show ?thesis by blast
  qed
qed

end
