(* ===== verification/Cq_Implicit_Bulk.thy ===== *)
theory Cq_Implicit_Bulk
  imports Cq_Implicit_Release
begin

text \<open>
  \<open>ImplicitProducer::enqueue_bulk\<close>: it allocates the blocks that it needs, chains them and enters them in the index, then
  fills them. When an allocation fails or a constructor throws, the elements constructed so far are destroyed, the new blocks
  leave the index, which turns back, and go to the free list: the sub-queue is as it was.
\<close>

section \<open>Filling the blocks\<close>

lemma blocks_rep_construct_at:
  assumes b: "blocks_rep t cx p R K H q" "distinct R" "i < length R" "(H + length q) div bsz t = K + i"
    and l: "length (elements (heap p (R ! i))) = bsz t" "0 < bsz t"
    and p': "heap p' = (heap p)(R ! i := (heap p (R ! i)) \<lparr> elements := (elements (heap p (R ! i)))[(H + length q) mod bsz t := Some x] \<rparr>)"
  shows "blocks_rep t cx p' R K H (q @ [x])"
  unfolding blocks_rep_def
proof (intro allI impI)
  fix j
  assume j: "j < length R"
  let ?T = "H + length q"
  have T: "(K + i) * bsz t + ?T mod bsz t = ?T" using b(4) by (metis div_mult_mod_eq)
  have bj: "block_rep t cx (heap p (R ! j)) (K + j) H q" using b(1) j by (simp add: blocks_rep_def)
  have d: "dequeued_from t cx (heap p' (R ! j)) (dequeued_slots t (K + j) H)"
    using bj by (auto simp: block_rep_def p' dequeued_from_elements)
  have "elements (heap p' (R ! j)) ! s = Some ((q @ [x]) ! ((K + j) * bsz t + s - H))"
    if s: "s < bsz t" "H \<le> (K + j) * bsz t + s" "(K + j) * bsz t + s < H + length (q @ [x])" for s
  proof (cases "(K + j) * bsz t + s = ?T")
    case True
    then have "K + j = K + i" "s = ?T mod bsz t" using block_pos_unique[OF _ s(1), of "K + j" "K + i" "?T mod bsz t"] T l(2) by simp_all
    then show ?thesis using True l by (simp add: p')
  next
    case False
    then have lt: "(K + j) * bsz t + s < ?T" using s(3) by simp
    then have o: "elements (heap p (R ! j)) ! s = Some (q ! ((K + j) * bsz t + s - H))" using bj s unfolding block_rep_def by blast
    have "elements (heap p' (R ! j)) ! s = elements (heap p (R ! j)) ! s"
    proof (cases "R ! j = R ! i")
      case True
      then have "j = i" using b(2,3) j by (simp add: nth_eq_iff_index_eq)
      then have "s \<noteq> ?T mod bsz t" using False T by auto
      then show ?thesis using True by (simp add: p')
    qed (simp add: p')
    moreover have "(K + j) * bsz t + s - H < length q" using lt s(2) by linarith
    ultimately show ?thesis using o by (simp add: nth_append)
  qed
  then show "block_rep t cx (heap p' (R ! j)) (K + j) H (q @ [x])" using d unfolding block_rep_def by blast
qed

text \<open>Constructing and destroying elements keeps the links of the blocks and their sizes.\<close>

definition same_shape :: "(nat \<Rightarrow> 'a block) \<Rightarrow> (nat \<Rightarrow> 'a block) \<Rightarrow> bool" where
  "same_shape hp hp' \<longleftrightarrow> (\<forall>a. blockNext (hp' a) = blockNext (hp a) \<and> length (elements (hp' a)) = length (elements (hp a)))"

lemma same_shape_trans: "same_shape hp hp' \<Longrightarrow> same_shape hp' hp'' \<Longrightarrow> same_shape hp hp''"
  by (simp add: same_shape_def)

lemma same_shape_refl: "same_shape hp hp"
  by (simp add: same_shape_def)

lemma store_at_construct:
  assumes t: "traits_ok t" and s: "store_at t p R K H q" and i: "i < length R" "(H + length q) div bsz t = K + i"
    and tb: "tailBlock p = Some (R ! i)"
  shows "\<exists>hp. construct_tail t (of_nat (H + length q)) x p = Some (p \<lparr> heap := hp \<rparr>) \<and> store_at t (p \<lparr> heap := hp \<rparr>) R K H (q @ [x]) \<and>
    same_shape (heap p) hp"
proof -
  let ?a = "R ! i" and ?i = "(H + length q) mod bsz t"
  note s' = s[unfolded store_at_def]
  have l: "length (elements (heap p ?a)) = bsz t" using s' i(1) by simp
  have B: "0 < bsz t" by (rule BLOCK_SIZE_pos[OF t])
  define hp where "hp = (heap p)(?a := (heap p ?a) \<lparr> elements := (elements (heap p ?a))[?i := Some x] \<rparr>)"
  have slot: "block_slot t (of_nat (H + length q)) = ?i" by (rule block_slot_of_nat[OF t])
  have "construct_tail t (of_nat (H + length q)) x p = Some (p \<lparr> heap := hp \<rparr>)"
    unfolding construct_tail_def construct_at_def slot using tb l B by (simp add: ensure_def write_block_def hp_def)
  moreover have "blocks_rep t implicit_context (p \<lparr> heap := hp \<rparr>) R K H (q @ [x])"
    using s' by (intro blocks_rep_construct_at[OF _ _ i l B]) (simp_all add: hp_def)
  moreover have "same_shape (heap p) hp" by (simp add: same_shape_def hp_def)
  ultimately show ?thesis using s' by (intro exI[of _ hp]) (simp add: store_at_def same_shape_def)
qed

text \<open>The elements that are constructed: those before the first constructor that throws.\<close>

definition made :: "('a \<times> bool) list \<Rightarrow> 'a list" where
  "made items = map fst (takeWhile (\<lambda>i. \<not> snd i) items)"

lemma made_simps [simp]: "made [] = []" "made ((x, th) # items) = (if th then [] else x # made items)"
  by (simp_all add: made_def)

lemma made_length: "length (made items) \<le> length items"
  by (simp add: made_def length_takeWhile_le)

lemma made_append: "length (made xs) = length xs \<Longrightarrow> made (xs @ ys) = made xs @ made ys"
  "length (made xs) \<noteq> length xs \<Longrightarrow> made (xs @ ys) = made xs"
  by (induction xs) (auto split: if_splits)

lemma made_all: "length (made xs) = length xs \<longleftrightarrow> (\<forall>i\<in>set xs. \<not> snd i)"
  by (induction xs) (auto split: if_splits)

lemma made_fst: "length (made xs) = length xs \<Longrightarrow> made xs = map fst xs"
  by (induction xs) (auto split: if_splits)

lemma fill_block_Cons:
  "cur \<noteq> stop \<Longrightarrow> fill_block t stop cur ((x, th) # rest) p =
     (if th then Some (True, cur, (x, th) # rest, p) else do { p \<leftarrow> construct_tail t cur x p; fill_block t stop (cur + 1) rest p })"
  by (simp add: fill_block.simps[of t stop cur "(x, th) # rest"])

lemma fill_block_rep:
  assumes t: "traits_ok t" and i: "i < length R"
  shows "store_at t p R K H q \<Longrightarrow> tailBlock p = Some (R ! i) \<Longrightarrow> T = H + length q \<Longrightarrow> T mod bsz t + length xs \<le> bsz t \<Longrightarrow>
    (xs \<noteq> [] \<longrightarrow> T div bsz t = K + i) \<Longrightarrow> length xs < 2 ^ 63 \<Longrightarrow>
    \<exists>hp. fill_block t (of_nat T + of_nat (length xs)) (of_nat T) (xs @ ys) p =
        Some (length (made xs) \<noteq> length xs, of_nat T + of_nat (length (made xs)), drop (length (made xs)) (xs @ ys), p \<lparr> heap := hp \<rparr>) \<and>
      store_at t (p \<lparr> heap := hp \<rparr>) R K H (q @ made xs) \<and> same_shape (heap p) hp"
proof (induction xs arbitrary: p q T)
  case Nil
  then show ?case by (intro exI[of _ "heap p"]) (simp add: fill_block.simps same_shape_refl)
next
  case (Cons xt xs)
  obtain x th where xt: "xt = (x, th)" by fastforce
  have ne: "(of_nat T :: index_t) \<noteq> of_nat T + of_nat (length (xt # xs))"
    using of_nat_add_eq_iff[of 0 "length (xt # xs)" "of_nat T"] Cons.prems(6) by simp
  show ?case
  proof (cases th)
    case True
    then have "fill_block t (of_nat T + of_nat (length (xt # xs))) (of_nat T) ((xt # xs) @ ys) p = Some (True, of_nat T, (xt # xs) @ ys, p)"
      using ne xt by (simp add: fill_block_Cons)
    then show ?thesis using True xt Cons.prems(1) by (intro exI[of _ "heap p"]) (simp add: same_shape_refl)
  next
    case False
    have Ti: "(H + length q) div bsz t = K + i" using Cons.prems(3,5) by simp
    obtain hp where hp: "construct_tail t (of_nat T) x p = Some (p \<lparr> heap := hp \<rparr>)" "store_at t (p \<lparr> heap := hp \<rparr>) R K H (q @ [x])"
        "same_shape (heap p) hp"
      using store_at_construct[OF t Cons.prems(1) i Ti Cons.prems(2), of x] Cons.prems(3) by blast
    have m: "xs \<noteq> [] \<longrightarrow> Suc T div bsz t = K + i" "Suc T mod bsz t + length xs \<le> bsz t"
    proof -
      have B: "0 < bsz t" by (rule BLOCK_SIZE_pos[OF t])
      have sl: "Suc (T mod bsz t) \<le> bsz t" using B by (simp add: Suc_leI)
      have "Suc T mod bsz t = Suc (T mod bsz t) \<and> Suc T div bsz t = T div bsz t \<or> Suc (T mod bsz t) = bsz t \<and> Suc T mod bsz t = 0"
        using B by (simp add: mod_Suc div_Suc)
      then show "xs \<noteq> [] \<longrightarrow> Suc T div bsz t = K + i" "Suc T mod bsz t + length xs \<le> bsz t"
        using Cons.prems(4,5) by (cases xs; auto)+
    qed
    have T': "Suc T = H + length (q @ [x])" "length xs < 2 ^ 63" using Cons.prems(3,6) by simp_all
    have tb: "tailBlock (p \<lparr> heap := hp \<rparr>) = Some (R ! i)" using Cons.prems(2) by simp
    obtain hp' where hp': "fill_block t (of_nat (Suc T) + of_nat (length xs)) (of_nat (Suc T)) (xs @ ys) (p \<lparr> heap := hp \<rparr>) =
          Some (length (made xs) \<noteq> length xs, of_nat (Suc T) + of_nat (length (made xs)), drop (length (made xs)) (xs @ ys), p \<lparr> heap := hp' \<rparr>)"
        "store_at t (p \<lparr> heap := hp' \<rparr>) R K H ((q @ [x]) @ made xs)" "same_shape hp hp'"
      using Cons.IH[OF hp(2) tb T'(1) m(2,1) T'(2)] by auto
    have w: "(of_nat (Suc T) :: index_t) + of_nat n = of_nat T + of_nat (Suc n)" "(of_nat T :: index_t) + 1 = of_nat (Suc T)" for n
      by simp_all
    have "fill_block t (of_nat T + of_nat (length (xt # xs))) (of_nat T) ((xt # xs) @ ys) p =
        fill_block t (of_nat (Suc T) + of_nat (length xs)) (of_nat (Suc T)) (xs @ ys) (p \<lparr> heap := hp \<rparr>)"
      using ne xt False hp(1) unfolding w by (simp add: fill_block_Cons w)
    then show ?thesis using hp' False xt same_shape_trans[OF hp(3)] unfolding w by (intro exI[of _ hp']) simp
  qed
qed

text \<open>The blocks from number \<open>i\<close> on are linked in order.\<close>

definition linked_from :: "'a implicit_producer \<Rightarrow> nat list \<Rightarrow> nat \<Rightarrow> bool" where
  "linked_from p R i \<longleftrightarrow> (\<forall>k. i \<le> k \<and> Suc k < length R \<longrightarrow> blockNext (heap p (R ! k)) = Some (R ! Suc k))"

lemma linked_from_next: "linked_from p R i \<Longrightarrow> i \<le> k \<Longrightarrow> Suc k < length R \<Longrightarrow> blockNext (heap p (R ! k)) = Some (R ! Suc k)"
  by (simp add: linked_from_def)

lemma linked_from_shape: "linked_from p R i \<Longrightarrow> same_shape (heap p) (heap p') \<Longrightarrow> i \<le> j \<Longrightarrow> linked_from p' R j"
  by (simp add: linked_from_def same_shape_def)

lemma fill_blocks_rep:
  assumes t: "traits_ok t" and B63: "bsz t < 2 ^ 63"
  shows "store_at t p R K H q \<Longrightarrow> tailBlock p = Some (R ! i) \<Longrightarrow> i < length R \<Longrightarrow> linked_from p R i \<Longrightarrow> T = H + length q \<Longrightarrow>
    T div bsz t = K + i \<Longrightarrow> xs \<noteq> [] \<Longrightarrow> T + length xs \<le> (K + length R) * bsz t \<Longrightarrow> (K + length R - 1) * bsz t < T + length xs \<Longrightarrow>
    length xs < 2 ^ 63 \<Longrightarrow> length xs \<le> fuel \<Longrightarrow>
    \<exists>hp j. fill_blocks fuel t (of_nat T + of_nat (length xs)) (Some (last R)) (of_nat T) xs p =
        Some (length (made xs) \<noteq> length xs, of_nat T + of_nat (length (made xs)), p \<lparr> heap := hp, tailBlock := Some (R ! j) \<rparr>) \<and>
      store_at t (p \<lparr> heap := hp \<rparr>) R K H (q @ made xs) \<and> same_shape (heap p) hp \<and> i \<le> j \<and> j < length R \<and>
      (if length (made xs) = length xs then Suc j = length R else (T + length (made xs)) div bsz t = K + j)"
proof (induction fuel arbitrary: p q T xs i)
  case 0
  then show ?case by simp
next
  case (Suc fuel)
  let ?B = "bsz t" and ?n = "length xs"
  have B: "0 < ?B" by (rule BLOCK_SIZE_pos[OF t])
  define m where "m = min ?n ((K + i + 1) * ?B - T)"
  note fc = first_chunk[OF Suc.prems(6) B Suc.prems(8) m_def]
  define ys zs where "ys = take m xs" and "zs = drop m xs"
  have yz: "xs = ys @ zs" "length ys = m" "length zs = ?n - m" using fc(3) by (auto simp: ys_def zs_def)
  have m0: "0 < m" using fc(2) Suc.prems(7) by simp
  have stop: "stop_index t (of_nat T) (of_nat T + of_nat ?n) = of_nat T + of_nat m"
    using stop_index_of_nat[OF t B63, of T "T + ?n"] Suc.prems(10) unfolding fc(4) of_nat_add by simp
  have f1: "T mod ?B + length ys \<le> ?B" "length ys < 2 ^ 63" using fc(1,3) Suc.prems(10) yz(2) by linarith+
  obtain hp where hp: "fill_block t (of_nat T + of_nat m) (of_nat T) xs p =
        Some (length (made ys) \<noteq> m, of_nat T + of_nat (length (made ys)), drop (length (made ys)) xs, p \<lparr> heap := hp \<rparr>)"
      "store_at t (p \<lparr> heap := hp \<rparr>) R K H (q @ made ys)" "same_shape (heap p) hp"
    using fill_block_rep[OF t Suc.prems(3,1,2,5) f1(1) _ f1(2), of zs] Suc.prems(6) unfolding yz(2) yz(1)[symmetric] by blast
  have tb: "tailBlock (p \<lparr> heap := hp \<rparr>) = Some (R ! i)" using Suc.prems(2) by simp
  have p_eq: "p \<lparr> heap := hp \<rparr> = p \<lparr> heap := hp, tailBlock := Some (R ! i) \<rparr>" using Suc.prems(2) by simp
  have dR: "distinct R" using Suc.prems(1) by (simp add: store_at_def)
  have last: "R ! i = last R \<longleftrightarrow> Suc i = length R"
  proof -
    have "last R = R ! (length R - 1)" using Suc.prems(3) by (intro last_conv_nth) auto
    then show ?thesis using dR Suc.prems(3) by (auto simp: nth_eq_iff_index_eq)
  qed
  show ?case
  proof (cases "length (made ys) = m")
    case False
    have mx: "made xs = made ys" "length (made xs) \<noteq> ?n"
    proof -
      show mx: "made xs = made ys" using made_append(2)[of ys zs] False yz(1,2) by simp
      have "length (made ys) < m" using False made_length[of ys] yz(2) by simp
      then show "length (made xs) \<noteq> ?n" using mx fc(3) by simp
    qed
    have lt: "length (made ys) < m" using False made_length[of ys] yz(2) by simp
    have ev: "fill_blocks (Suc fuel) t (of_nat T + of_nat ?n) (Some (last R)) (of_nat T) xs p =
        Some (True, of_nat T + of_nat (length (made xs)), p \<lparr> heap := hp, tailBlock := Some (R ! i) \<rparr>)"
      unfolding p_eq[symmetric] by (simp add: stop hp(1) False mx(1))
    have "T div ?B * ?B + T mod ?B = T" by (rule div_mult_mod_eq)
    then have "(K + i) * ?B \<le> T + length (made ys)" "T + length (made ys) < (K + i + 1) * ?B"
      using lt fc(1) Suc.prems(6) by (simp_all add: add_mult_distrib)
    then have "(T + length (made xs)) div ?B = K + i" unfolding mx(1) by (rule block_pos(1))
    then show ?thesis using ev hp(2,3) mx Suc.prems(3) by (intro exI[of _ hp] exI[of _ i]) simp
  next
    case True
    have my: "made xs = made ys @ made zs" using made_append(1)[of ys zs] True yz(1,2) by simp
    show ?thesis
    proof (cases "Suc i = length R")
      case l: True
      have "T + ?n \<le> (K + i + 1) * ?B" using Suc.prems(8) l by (metis add.assoc add.commute plus_1_eq_Suc)
      then have mn: "m = ?n" unfolding m_def by linarith
      then have z: "zs = []" "ys = xs" by (simp_all add: zs_def ys_def)
      have "fill_blocks (Suc fuel) t (of_nat T + of_nat ?n) (Some (last R)) (of_nat T) xs p =
          Some (False, of_nat T + of_nat ?n, p \<lparr> heap := hp, tailBlock := Some (R ! i) \<rparr>)"
        unfolding p_eq[symmetric] using last l tb by (simp add: stop hp(1)[unfolded mn] True[unfolded mn] mn ensure_def)
      then show ?thesis using hp(2,3) True l z mn Suc.prems(3) by (intro exI[of _ hp] exI[of _ i]) simp
    next
      case nl: False
      have si: "Suc i < length R" using nl Suc.prems(3) by simp
      have "(K + i + 1) * ?B \<le> (K + length R - 1) * ?B" using si by (intro mult_right_mono) auto
      then have "(K + i + 1) * ?B < T + ?n" using Suc.prems(9) by (rule le_less_trans)
      then have "(K + i + 1) * ?B - T < ?n" using m0 fc(3) by linarith
      then have mn: "m \<noteq> ?n" unfolding m_def by simp
      note nx = fc(5)[OF mn]
      let ?p = "p \<lparr> heap := hp, tailBlock := Some (R ! Suc i) \<rparr>"
      have nb: "blockNext (hp (R ! i)) = Some (R ! Suc i)"
        using linked_from_next[OF Suc.prems(4) order_refl si] hp(3) by (simp add: same_shape_def)
      have step: "fill_blocks (Suc fuel) t (of_nat T + of_nat ?n) (Some (last R)) (of_nat T) xs p =
          fill_blocks fuel t (of_nat T + of_nat ?n) (Some (last R)) (of_nat T + of_nat m) zs ?p"
        using last nl nb Suc.prems(2) by (simp add: stop hp(1) True zs_def)
      have 1: "store_at t ?p R K H (q @ made ys)" using hp(2) by (simp add: store_at_def blocks_rep_def)
      have 2: "linked_from ?p R (Suc i)" using linked_from_shape[OF Suc.prems(4), of ?p "Suc i"] hp(3) by simp
      have nz: "T + m + length zs = T + ?n" using yz(3) fc(3) by simp
      have 3: "T + m = H + length (q @ made ys)" "(T + m) div ?B = K + Suc i" "zs \<noteq> []" using Suc.prems(5) True nx mn fc(3) yz(3) by auto
      have 4: "T + m + length zs \<le> (K + length R) * ?B" "(K + length R - 1) * ?B < T + m + length zs" using Suc.prems(8,9) nz by simp_all
      have 5: "length zs < 2 ^ 63" "length zs \<le> fuel" using Suc.prems(10,11) yz(3) m0 fc(3) by linarith+
      have tb': "tailBlock ?p = Some (R ! Suc i)" by simp
      from Suc.IH[OF 1 tb' si 2 3 4 5] obtain hp' j where hp': "fill_blocks fuel t (of_nat (T + m) + of_nat (length zs)) (Some (last R)) (of_nat (T + m)) zs ?p =
            Some (length (made zs) \<noteq> length zs, of_nat (T + m) + of_nat (length (made zs)), ?p \<lparr> heap := hp', tailBlock := Some (R ! j) \<rparr>)"
          "store_at t (?p \<lparr> heap := hp' \<rparr>) R K H ((q @ made ys) @ made zs)" "same_shape (heap ?p) hp'" "Suc i \<le> j" "j < length R"
          "if length (made zs) = length zs then Suc j = length R else (T + m + length (made zs)) div ?B = K + j" by blast
      have w: "(of_nat (T + m) :: index_t) + of_nat (length zs) = of_nat T + of_nat ?n" "(of_nat (T + m) :: index_t) = of_nat T + of_nat m"
          "(of_nat (T + m) :: index_t) + of_nat (length (made zs)) = of_nat T + of_nat (length (made xs))"
        unfolding my length_append True of_nat_add[symmetric] nz by (simp_all add: add.assoc)
      have "fill_blocks (Suc fuel) t (of_nat T + of_nat ?n) (Some (last R)) (of_nat T) xs p =
          Some (length (made xs) \<noteq> ?n, of_nat T + of_nat (length (made xs)), p \<lparr> heap := hp', tailBlock := Some (R ! j) \<rparr>)"
        using hp'(1) unfolding step w my using True yz(3) fc(3) by (simp, linarith)
      moreover have "store_at t (p \<lparr> heap := hp' \<rparr>) R K H (q @ made xs)" using hp'(2) my by (simp add: store_at_def blocks_rep_def)
      moreover have "same_shape (heap p) hp'" using same_shape_trans[OF hp(3), of hp'] hp'(3) by simp
      moreover have "if length (made xs) = ?n then Suc j = length R else (T + length (made xs)) div ?B = K + j"
        using hp'(6) my True yz(3) fc(3) by (simp add: add.assoc split: if_splits; linarith)
      ultimately show ?thesis using hp'(4,5) by (intro exI[of _ hp'] exI[of _ j]) auto
    qed
  qed
qed

section \<open>Destroying what was constructed\<close>

lemma destroy_at_effect:
  assumes "destroy_at t a i p = Some (x, p')"
  shows "p' = p \<lparr> heap := (heap p)(a := (heap p a) \<lparr> elements := (elements (heap p a))[block_slot t i := None] \<rparr>) \<rparr>"
  using assms by (auto simp: destroy_at_def ensure_def write_block_def bind_eq_Some_conv split: if_splits)

lemma block_rep_beyond:
  assumes "block_rep t cx b k H q" "s < bsz t" "H + length q \<le> k * bsz t + s"
  shows "block_rep t cx (b \<lparr> elements := (elements b)[s := y] \<rparr>) k H q"
  using assms by (auto simp: block_rep_def dequeued_from_elements nth_list_update)

text \<open>An element behind the tail is destroyed.\<close>

lemma destroy_beyond:
  assumes t: "traits_ok t" and s: "store_at t p R K H q" and r: "rest_at t p R K m (y # ys)" and m: "H + length q \<le> m"
  shows "\<exists>hp. destroy_at t (R ! (m div bsz t - K)) (of_nat m) p = Some (y, p \<lparr> heap := hp \<rparr>) \<and> rest_at t (p \<lparr> heap := hp \<rparr>) R K (Suc m) ys \<and>
    store_at t (p \<lparr> heap := hp \<rparr>) R K H q \<and> same_shape (heap p) hp"
proof -
  let ?i = "m div bsz t - K"
  obtain hp where hp: "destroy_at t (R ! ?i) (of_nat m) p = Some (y, p \<lparr> heap := hp \<rparr>)" "rest_at t (p \<lparr> heap := hp \<rparr>) R K (Suc m) ys"
    using rest_at_destroy(1)[OF t r] by blast
  have i: "?i < length R" "K + ?i = m div bsz t" using rest_at_destroy(2)[OF t r] r by (simp_all add: rest_at_def)
  have B: "0 < bsz t" by (rule BLOCK_SIZE_pos[OF t])
  note e = arg_cong[OF destroy_at_effect[OF hp(1)], of heap, unfolded block_slot_of_nat[OF t], simplified]
  note s' = s[unfolded store_at_def]
  have sh: "same_shape (heap p) hp" by (simp add: e same_shape_def)
  have "blocks_rep t implicit_context (p \<lparr> heap := hp \<rparr>) R K H q"
    unfolding blocks_rep_def
  proof (intro allI impI)
    fix j
    assume j: "j < length R"
    then have bj: "block_rep t implicit_context (heap p (R ! j)) (K + j) H q" using s' by (simp add: blocks_rep_def)
    show "block_rep t implicit_context (heap (p \<lparr> heap := hp \<rparr>) (R ! j)) (K + j) H q"
    proof (cases "j = ?i")
      case True
      have mm: "(K + j) * bsz t + m mod bsz t = m" using i(2) True by (simp only: div_mult_mod_eq)
      have "H + length q \<le> (K + j) * bsz t + m mod bsz t" unfolding mm by (rule m)
      then show ?thesis using bj True B by (simp add: e block_rep_beyond)
    next
      case False
      then have "R ! j \<noteq> R ! ?i" using s' i j by (simp add: nth_eq_iff_index_eq)
      then show ?thesis using bj by (simp add: e)
    qed
  qed
  then show ?thesis using hp sh s' by (intro exI[of _ hp]) (simp add: store_at_def same_shape_def)
qed

lemma destroy_span_beyond:
  assumes t: "traits_ok t"
  shows "store_at t p R K H q \<Longrightarrow> rest_at t p R K m (xs @ ys) \<Longrightarrow> H + length q \<le> m \<Longrightarrow> m mod bsz t + length xs \<le> bsz t \<Longrightarrow>
    (xs \<noteq> [] \<longrightarrow> m div bsz t = K + i) \<Longrightarrow> length xs < 2 ^ 63 \<Longrightarrow> length xs \<le> fuel \<Longrightarrow>
    \<exists>hp. destroy_span fuel t (R ! i) (of_nat m) (of_nat m + of_nat (length xs)) p = Some (xs, p \<lparr> heap := hp \<rparr>) \<and>
      rest_at t (p \<lparr> heap := hp \<rparr>) R K (m + length xs) ys \<and> store_at t (p \<lparr> heap := hp \<rparr>) R K H q \<and> same_shape (heap p) hp"
proof (induction xs arbitrary: p m fuel)
  case Nil
  then show ?case by (intro exI[of _ "heap p"]) (cases fuel; simp add: same_shape_refl)
next
  case (Cons x xs)
  obtain f where f: "fuel = Suc f" using Cons.prems(7) by (cases fuel) auto
  have ne: "(of_nat m :: index_t) \<noteq> of_nat m + of_nat (length (x # xs))"
    using of_nat_add_eq_iff[of 0 "length (x # xs)" "of_nat m"] Cons.prems(6) by simp
  have r: "rest_at t p R K m (x # (xs @ ys))" using Cons.prems(2) by simp
  have i: "m div bsz t - K = i" using Cons.prems(5) by simp
  obtain hp where hp: "destroy_at t (R ! i) (of_nat m) p = Some (x, p \<lparr> heap := hp \<rparr>)" "rest_at t (p \<lparr> heap := hp \<rparr>) R K (Suc m) (xs @ ys)"
      "store_at t (p \<lparr> heap := hp \<rparr>) R K H q" "same_shape (heap p) hp"
    using destroy_beyond[OF t Cons.prems(1) r Cons.prems(3)] unfolding i by blast
  have m: "xs \<noteq> [] \<longrightarrow> Suc m div bsz t = K + i" "Suc m mod bsz t + length xs \<le> bsz t"
  proof -
    have B: "0 < bsz t" by (rule BLOCK_SIZE_pos[OF t])
    have sl: "Suc (m mod bsz t) \<le> bsz t" using B by (simp add: Suc_leI)
    have "Suc m mod bsz t = Suc (m mod bsz t) \<and> Suc m div bsz t = m div bsz t \<or> Suc (m mod bsz t) = bsz t \<and> Suc m mod bsz t = 0"
      using B by (simp add: mod_Suc div_Suc)
    then show "xs \<noteq> [] \<longrightarrow> Suc m div bsz t = K + i" "Suc m mod bsz t + length xs \<le> bsz t"
      using Cons.prems(4,5) by (cases xs; auto)+
  qed
  have le: "H + length q \<le> Suc m" "length xs < 2 ^ 63" "length xs \<le> f" using Cons.prems(3,6,7) f by simp_all
  from Cons.IH[OF hp(3,2) le(1) m(2,1) le(2,3)] obtain hp' where hp':
      "destroy_span f t (R ! i) (of_nat (Suc m)) (of_nat (Suc m) + of_nat (length xs)) (p \<lparr> heap := hp \<rparr>) = Some (xs, p \<lparr> heap := hp' \<rparr>)"
      "rest_at t (p \<lparr> heap := hp' \<rparr>) R K (Suc m + length xs) ys" "store_at t (p \<lparr> heap := hp' \<rparr>) R K H q" "same_shape hp hp'"
    by auto
  have w: "(of_nat (Suc m) :: index_t) + of_nat (length xs) = of_nat m + of_nat (length (x # xs))" "(of_nat m :: index_t) + 1 = of_nat (Suc m)"
    by simp_all
  have "destroy_span fuel t (R ! i) (of_nat m) (of_nat m + of_nat (length (x # xs))) p = Some (x # xs, p \<lparr> heap := hp' \<rparr>)"
    using hp'(1) ne hp(1) unfolding f w by (simp only: destroy_span.simps if_False w bind.bind_lunit prod.case)
  then show ?case using hp'(2-4) same_shape_trans[OF hp(4)] by (intro exI[of _ hp']) simp
qed

lemma destroy_constructed_rep:
  assumes t: "traits_ok t" and B63: "bsz t < 2 ^ 63"
  shows "store_at t p R K H q \<Longrightarrow> rest_at t p R K m xs \<Longrightarrow> H + length q \<le> m \<Longrightarrow> linked_from p R i \<Longrightarrow> m div bsz t = K + i \<Longrightarrow>
    (m + length xs) div bsz t = K + j \<Longrightarrow> j < length R \<Longrightarrow> length xs < 2 ^ 63 \<Longrightarrow> j - i < fuel \<Longrightarrow>
    \<exists>hp. destroy_constructed fuel t (of_nat m + of_nat (length xs)) (Some (R ! j)) (Some (R ! i)) (of_nat m) p = Some (p \<lparr> heap := hp \<rparr>) \<and>
      store_at t (p \<lparr> heap := hp \<rparr>) R K H q \<and> same_shape (heap p) hp"
proof (induction fuel arbitrary: p m xs i)
  case 0
  then show ?case by simp
next
  case (Suc fuel)
  let ?B = "bsz t" and ?n = "length xs"
  have B: "0 < ?B" by (rule BLOCK_SIZE_pos[OF t])
  have ij: "i \<le> j" using div_le_mono[of m "m + ?n" ?B] Suc.prems(5,6) by simp
  define c where "c = min ?n ((K + i + 1) * ?B - m)"
  have T: "m + ?n \<le> (K + length R) * ?B" using Suc.prems(2) by (simp add: rest_at_def)
  note fc = first_chunk[OF Suc.prems(5) B T c_def]
  define ys zs where "ys = take c xs" and "zs = drop c xs"
  have yz: "xs = ys @ zs" "length ys = c" "length zs = ?n - c" using fc(3) by (auto simp: ys_def zs_def)
  have stop: "stop_index t (of_nat m) (of_nat m + of_nat ?n) = of_nat m + of_nat c"
    using stop_index_of_nat[OF t B63, of m "m + ?n"] Suc.prems(8) unfolding fc(4) of_nat_add by simp
  have r: "rest_at t p R K m (ys @ zs)" using Suc.prems(2) yz(1) by simp
  have c1: "m mod ?B + length ys \<le> ?B" "length ys < 2 ^ 63" "length ys \<le> ?B" using fc(1,3) Suc.prems(8) yz(2) by linarith+
  obtain hp where hp: "destroy_span ?B t (R ! i) (of_nat m) (of_nat m + of_nat c) p = Some (ys, p \<lparr> heap := hp \<rparr>)"
      "rest_at t (p \<lparr> heap := hp \<rparr>) R K (m + c) zs" "store_at t (p \<lparr> heap := hp \<rparr>) R K H q" "same_shape (heap p) hp"
    using destroy_span_beyond[OF t Suc.prems(1) r Suc.prems(3) c1(1) _ c1(2,3)] Suc.prems(5) unfolding yz(2) by blast
  have dR: "distinct R" using Suc.prems(1) by (simp add: store_at_def)
  have same: "R ! i = R ! j \<longleftrightarrow> i = j" using dR ij Suc.prems(7) by (simp add: nth_eq_iff_index_eq)
  show ?case
  proof (cases "i = j")
    case True
    then show ?thesis using hp(1,3,4) by (intro exI[of _ hp]) (simp add: stop)
  next
    case False
    then have si: "Suc i < length R" "i < j" using ij Suc.prems(7) by simp_all
    have nx: "(m + c) div ?B = K + Suc i"
    proof -
      have "(K + j) * ?B \<le> m + ?n" using Suc.prems(6) by (metis div_times_less_eq_dividend)
      moreover have "(K + i + 1) * ?B \<le> (K + j) * ?B" using si(2) by (intro mult_right_mono) auto
      moreover have "m < (K + i + 1) * ?B" using dividend_less_div_times[OF B, of m] Suc.prems(5) by (simp add: add.commute)
      ultimately have "m + c = (K + i + 1) * ?B" unfolding c_def by linarith
      then have "(m + c) div ?B = K + i + 1" using B by (simp only: nonzero_mult_div_cancel_right)
      then show ?thesis by simp
    qed
    have nb: "blockNext (hp (R ! i)) = Some (R ! Suc i)"
      using linked_from_next[OF Suc.prems(4) order_refl si(1)] hp(4) by (simp add: same_shape_def)
    let ?p = "p \<lparr> heap := hp \<rparr>"
    have step: "destroy_constructed (Suc fuel) t (of_nat m + of_nat ?n) (Some (R ! j)) (Some (R ! i)) (of_nat m) p =
        destroy_constructed fuel t (of_nat m + of_nat ?n) (Some (R ! j)) (Some (R ! Suc i)) (of_nat m + of_nat c) ?p"
      using False same nb by (simp add: stop hp(1))
    have 2: "linked_from ?p R (Suc i)" using linked_from_shape[OF Suc.prems(4), of ?p "Suc i"] hp(4) by simp
    have nz: "m + c + length zs = m + ?n" using yz(3) fc(3) by simp
    have 3: "H + length q \<le> m + c" "(m + c) div ?B = K + Suc i" "(m + c + length zs) div ?B = K + j" using Suc.prems(3,6) nx unfolding nz by simp_all
    have 4: "length zs < 2 ^ 63" "j - Suc i < fuel" using Suc.prems(8,9) yz(3) si(2) by linarith+
    from Suc.IH[OF hp(3,2) 3(1) 2 3(2,3) Suc.prems(7) 4] obtain hp' where hp':
        "destroy_constructed fuel t (of_nat (m + c) + of_nat (length zs)) (Some (R ! j)) (Some (R ! Suc i)) (of_nat (m + c)) ?p = Some (?p \<lparr> heap := hp' \<rparr>)"
        "store_at t (?p \<lparr> heap := hp' \<rparr>) R K H q" "same_shape (heap ?p) hp'" by blast
    have w: "(of_nat (m + c) :: index_t) + of_nat (length zs) = of_nat m + of_nat ?n" "(of_nat (m + c) :: index_t) = of_nat m + of_nat c"
      unfolding of_nat_add[symmetric] nz by simp_all
    show ?thesis using hp'(1)[unfolded w(1), unfolded w(2)] hp'(2,3) same_shape_trans[OF hp(4), of hp'] unfolding step by (intro exI[of _ hp']) simp
  qed
qed

section \<open>Taking blocks out of the index again\<close>

lemma index_offset_ahead:
  assumes t: "traits_ok t" and e: "e * bsz t < 2 ^ 63"
  shows "unat (index_offset t (of_nat ((k + e) * bsz t)) (of_nat (k * bsz t))) = e"
proof -
  have B: "0 < bsz t" by (rule BLOCK_SIZE_pos[OF t])
  have "block_base t (of_nat ((k + e) * bsz t)) = of_nat ((k + e) * bsz t)" using block_base_of_nat[OF t, of "(k + e) * bsz t"] B by simp
  then have "index_offset t (of_nat ((k + e) * bsz t)) (of_nat (k * bsz t)) = (of_nat (k * bsz t + e * bsz t) - of_nat (k * bsz t)) div BLOCK_SIZE t"
    by (simp only: index_offset_def block_base_def add_mult_distrib)
  also have "of_nat (k * bsz t + e * bsz t) - of_nat (k * bsz t) = (of_nat (e * bsz t) :: size_t)" unfolding of_nat_add by simp
  finally have "unat (index_offset t (of_nat ((k + e) * bsz t)) (of_nat (k * bsz t))) = unat (of_nat (e * bsz t) :: size_t) div bsz t"
    by (simp only: unat_div)
  also have "unat (of_nat (e * bsz t) :: size_t) = e * bsz t" using e by (intro unat_of_nat_small) simp
  finally show ?thesis using B by simp
qed

lemma get_entry_at:
  assumes t: "traits_ok t" and i: "implicitIndex p = h # hs" "header_ok t s h" and d: "d < 2 ^ s"
    and k: "key (index_entries p ! (index_ring h ! 0)) = of_nat (k * bsz t)"
    and e: "key (index_entries p ! (index_ring h ! d)) = of_nat (m * bsz t)" "ie_value (index_entries p ! (index_ring h ! d)) \<noteq> None"
    and o: "(unat (ih_tail h) + unat (index_offset t (of_nat (m * bsz t)) (of_nat (k * bsz t))) + d) mod 2 ^ s = unat (ih_tail h) mod 2 ^ s"
  shows "get_block_index_entry_for_index t (of_nat (m * bsz t)) p = Some (index_ring h ! d)"
proof -
  have l: "length (index h) = 2 ^ s" "unat (ih_tail h) < 2 ^ s" using i(2) by (auto simp: header_ok_def)
  have B: "0 < bsz t" by (rule BLOCK_SIZE_pos[OF t])
  have tail: "index_ring h ! 0 = index h ! unat (ih_tail h)" using index_ring_nth[of 0 h] l by simp
  let ?base = "of_nat (k * bsz t) :: index_t"
  have nb: "?base \<noteq> INVALID_BLOCK_BASE" using live_not_free[OF t, of k 0] by (auto simp: free_entry_def live_entry_def)
  define idx where "idx = (ih_tail h + index_offset t (of_nat (m * bsz t)) ?base) AND (capacity h - 1)"
  have "unat idx = (unat (ih_tail h) + unat (index_offset t (of_nat (m * bsz t)) ?base)) mod 2 ^ s"
    unfolding idx_def by (rule header_ok_words(2)[OF t i(2)])
  moreover have "(unat (ih_tail h) + unat (index_offset t (of_nat (m * bsz t)) ?base) + d) mod 2 ^ s = (unat (ih_tail h) + 2 ^ s - d + d) mod 2 ^ s"
    using o d by simp
  ultimately have u: "unat idx = (unat (ih_tail h) + 2 ^ s - d) mod 2 ^ s" using mod_add_cancel by metis
  then have ix: "index h ! unat idx = index_ring h ! d" "unat idx < length (index h)" using index_ring_nth[of d h] d l(1) by simp_all
  have b: "block_base t (of_nat (m * bsz t)) = of_nat (m * bsz t)" using block_base_of_nat[OF t, of "m * bsz t"] B by simp
  have "get_block_index_index_for_index t (of_nat (m * bsz t)) p = Some (h, idx)"
    using i(1) l tail k e nb ix b unfolding get_block_index_index_for_index_def idx_def by (simp add: ensure_def Let_def del: of_nat_mult)
  then show ?thesis using ix by (simp add: get_block_index_entry_for_index_def)
qed

text \<open>
  The blocks \<open>A\<close>, the newest ones, leave the index from the first to the last, and the tail moves back with each. After
  \<open>i\<close> of them, the ring \<open>V\<close> has turned by \<open>i\<close>.
\<close>

definition reverted_entry :: "traits \<Rightarrow> nat list \<Rightarrow> nat list \<Rightarrow> nat \<Rightarrow> nat \<Rightarrow> nat \<Rightarrow> implicit_entry \<Rightarrow> bool" where
  "reverted_entry t A L N i d x \<longleftrightarrow>
     (if d < length A then key x = of_nat ((N + length A - 1 - d) * bsz t) \<and>
        ie_value x = (if d < length A - i then Some (A ! (length A - 1 - d)) else None)
      else if d < length A + length L then x = live_entry t (N - 1 - (d - length A)) (L ! (d - length A))
      else free_entry x)"

definition reverting :: "traits \<Rightarrow> 'a implicit_producer \<Rightarrow> nat list \<Rightarrow> nat list \<Rightarrow> nat \<Rightarrow> nat \<Rightarrow> bool" where
  "reverting t p A L N i \<longleftrightarrow> (\<exists>h hs s V. implicitIndex p = h # hs \<and> header_ok t s h \<and> nextBlockIndexCapacity p = 2 ^ Suc s \<and>
     length V = 2 ^ s \<and> index_ring h = drop i V @ take i V \<and> distinct V \<and> set V \<subseteq> {..<length (index_entries p)} \<and>
     length A + length L \<le> length V \<and> length L \<le> N \<and> i \<le> length A \<and>
     (\<forall>d<length V. reverted_entry t A L N i d (index_entries p ! (V ! d))))"

lemma reverting_start:
  assumes "implicit_index_rep t p (rev A @ L) (N + length A)" "A \<noteq> []" "length L \<le> N"
  shows "reverting t p A L N 0"
proof -
  obtain h hs s where h: "implicitIndex p = h # hs" "header_ok t s h" "nextBlockIndexCapacity p = 2 ^ Suc s"
      "entries_rep t (index_entries p) (index_ring h) (rev A @ L) (N + length A)"
    using assms by (auto simp: implicit_index_rep_def split: list.splits)
  have l: "length (index_ring h) = 2 ^ s" using h(2) index_ring_list(1)[of h] by (simp add: header_ok_def)
  have "reverted_entry t A L N 0 d (index_entries p ! (index_ring h ! d))" if d: "d < length (index_ring h)" for d
  proof -
    note e = entries_repD(4)[OF h(4), of d] entries_repD(5)[OF h(4) d]
    consider "d < length A" | "\<not> d < length A" "d < length A + length L" | "\<not> d < length A + length L" by linarith
    then show ?thesis
    proof cases
      case 1
      then show ?thesis using e(1) by (simp add: reverted_entry_def live_entry_def nth_append rev_nth del: of_nat_mult)
    next
      case 2
      moreover have "N + length A - 1 - d = N - 1 - (d - length A)" using 2 by simp
      ultimately show ?thesis using e(1) by (simp add: reverted_entry_def nth_append)
    next
      case 3
      then show ?thesis using e(2) by (simp add: reverted_entry_def)
    qed
  qed
  then show ?thesis using h l entries_repD(1-3)[OF h(4)] assms(3)
    unfolding reverting_def by (intro exI[of _ h] exI[of _ hs] exI[of _ s] exI[of _ "index_ring h"]) simp
qed

lemma reverting_end:
  assumes "reverting t p A L N (length A)"
  shows "implicit_index_rep t p L N"
proof -
  obtain h hs s V where h: "implicitIndex p = h # hs" "header_ok t s h" "nextBlockIndexCapacity p = 2 ^ Suc s"
      and V: "index_ring h = drop (length A) V @ take (length A) V" "distinct V" "set V \<subseteq> {..<length (index_entries p)}"
        "length A + length L \<le> length V" "length L \<le> N"
      and e: "\<And>d. d < length V \<Longrightarrow> reverted_entry t A L N (length A) d (index_entries p ! (V ! d))"
    using assms unfolding reverting_def by blast
  have "mset (drop (length A) V @ take (length A) V) = mset V" by (metis append_take_drop_id mset_append union_commute)
  then have perm: "distinct (index_ring h)" "set (index_ring h) = set V" "length (index_ring h) = length V"
    using V(1,2) by (metis mset_eq_imp_distinct_iff, metis mset_eq_setD, metis mset_eq_length)
  have "entries_rep t (index_entries p) (index_ring h) L N"
  proof (rule entries_repI)
    show "distinct (index_ring h)" "set (index_ring h) \<subseteq> {..<length (index_entries p)}" "length L \<le> length (index_ring h)"
      using perm V(3,4) by simp_all
    fix d
    assume d: "d < length (index_ring h)"
    show "if d < length L then index_entries p ! (index_ring h ! d) = live_entry t (N - 1 - d) (L ! d)
        else free_entry (index_entries p ! (index_ring h ! d))"
    proof (cases "d < length V - length A")
      case True
      then have "index_ring h ! d = V ! (length A + d)" "length A + d < length V" using V(1,4) by (simp_all add: nth_append)
      then show ?thesis using e[of "length A + d"] by (simp add: reverted_entry_def)
    next
      case False
      define d' where "d' = d - (length V - length A)"
      have d': "d' < length A" using d perm(3) V(4) False by (simp add: d'_def)
      then have "index_ring h ! d = V ! d'" "d' < length V" using V(1,4) False by (simp_all add: nth_append d'_def)
      then show ?thesis using e[of d'] d' False V(4) by (simp add: reverted_entry_def free_entry_def)
    qed
  qed
  then show ?thesis using h V(5) by (auto simp: implicit_index_rep_def)
qed

lemma reverting_step:
  assumes t: "traits_ok t" and r: "reverting t p A L N i" and i: "i < length A" and mem: "length A * bsz t < 2 ^ 63"
  shows "\<exists>e p'. get_block_index_entry_for_index t (of_nat ((N + i) * bsz t)) p = Some e \<and>
    rewind_block_index_tail (set_value e None p) = Some p' \<and> reverting t p' A L N (Suc i) \<and> index_frame p p'"
proof -
  obtain h hs s V where h: "implicitIndex p = h # hs" "header_ok t s h" "nextBlockIndexCapacity p = 2 ^ Suc s"
      and V: "length V = 2 ^ s" "index_ring h = drop i V @ take i V" "distinct V" "set V \<subseteq> {..<length (index_entries p)}"
        "length A + length L \<le> length V" "length L \<le> N"
      and e: "\<And>d. d < length V \<Longrightarrow> reverted_entry t A L N i d (index_entries p ! (V ! d))"
    using r unfolding reverting_def by blast
  let ?n = "length A" and ?B = "bsz t"
  let ?v = "V ! (?n - 1 - i)"
  have n: "?n \<le> 2 ^ s" "?n - 1 - i < length V" "i < length V" using V(1,5) i by auto
  have ring: "index_ring h = V ! i # (drop (Suc i) V @ take i V)" using V(2) n(3) by (simp add: Cons_nth_drop_Suc)
  have k0: "key (index_entries p ! (index_ring h ! 0)) = of_nat ((N + ?n - 1 - i) * ?B)"
    using e[OF n(3)] i by (simp add: reverted_entry_def ring del: of_nat_mult)
  have "N + ?n - 1 - (?n - 1 - i) = N + i" using i by simp
  then have ev: "key (index_entries p ! ?v) = of_nat ((N + i) * ?B)" "ie_value (index_entries p ! ?v) = Some (A ! i)"
    using e[OF n(2)] i by (simp_all add: reverted_entry_def del: of_nat_mult)
  have get: "get_block_index_entry_for_index t (of_nat ((N + i) * ?B)) p = Some ?v"
  proof (cases "i \<le> ?n - 1 - i")
    case True
    define d where "d = ?n - 1 - i - i"
    have di: "i + d = ?n - 1 - i" "d < length V - i" "d < 2 ^ s" using True n V(1) by (simp_all add: d_def)
    then have v: "index_ring h ! d = ?v" "d < 2 ^ s" using V(2) n(3) by (simp_all add: nth_append)
    have k: "N + ?n - 1 - i = N + i + d" using True i by (simp add: d_def)
    have "d * ?B \<le> ?n * ?B" unfolding d_def by (intro mult_right_mono) auto
    then have m: "d * ?B < 2 ^ 63" using mem by (rule le_less_trans)
    have B: "0 < ?B" by (rule BLOCK_SIZE_pos[OF t])
    have dv: "(N + i) * ?B div ?B = N + i" using B by simp
    have "2 ^ s * ?B \<le> 2 ^ 64" using h(2) by (simp add: header_ok_def)
    from get_entry_at[OF t h(1,2) v(2) k0[unfolded k] _ _ index_offset_of_nat[OF t dv m this]] show ?thesis using ev unfolding v(1) by blast
  next
    case False
    define x where "x = i + i + 1 - ?n"
    define d where "d = 2 ^ s - x"
    have x: "0 < x" "x \<le> i" "N + i = (N + ?n - 1 - i) + x" using False i by (simp_all add: x_def)
    have "x \<le> 2 ^ s" using x(2) n(3) V(1) by simp
    then have d: "d < 2 ^ s" "x + d = 2 ^ s" using x(1) by (simp_all add: d_def)
    have "length V - i \<le> d" "d - (length V - i) = ?n - 1 - i" "?n - 1 - i < i" using x(2) n i False V(1) by (auto simp: d_def x_def)
    then have v: "index_ring h ! d = ?v" using V(2) by (simp add: nth_append)
    have "x * ?B \<le> ?n * ?B" using x(2) i by (intro mult_right_mono) auto
    then have m: "x * ?B < 2 ^ 63" using mem by (rule le_less_trans)
    have "(unat (ih_tail h) + unat (index_offset t (of_nat ((N + i) * ?B)) (of_nat ((N + ?n - 1 - i) * ?B))) + d) mod 2 ^ s = unat (ih_tail h) mod 2 ^ s"
      unfolding x(3) index_offset_ahead[OF t m] by (simp add: add.assoc d(2))
    from get_entry_at[OF t h(1,2) d(1) k0 _ _ this] show ?thesis using ev unfolding v by blast
  qed
  let ?h = "h \<lparr> ih_tail := (ih_tail h - 1) AND (capacity h - 1) \<rparr>" and ?q = "set_value ?v None p"
  let ?p = "set_index_tail ((ih_tail h - 1) AND (capacity h - 1)) ?q"
  note rw = index_ring_rewind[OF t h(2) ring]
  have q: "implicitIndex ?q = h # hs" using h(1) by (simp add: set_value_def set_entry_def)
  have rwd: "rewind_block_index_tail ?q = Some ?p" using q by (simp add: rewind_block_index_tail_def)
  have p': "implicitIndex ?p = ?h # hs" "nextBlockIndexCapacity ?p = 2 ^ Suc s"
      "index_entries ?p = (index_entries p)[?v := ie_value_update (\<lambda>_. None) (index_entries p ! ?v)]"
    using h(1,3) by (simp_all add: set_value_def set_entry_def set_index_tail_def)
  have ring': "index_ring ?h = drop (Suc i) V @ take (Suc i) V" using rw(2) n(3) by (simp add: take_Suc_conv_app_nth)
  have "reverted_entry t A L N (Suc i) d (index_entries ?p ! (V ! d))" if d: "d < length V" for d
  proof (cases "d = ?n - 1 - i")
    case True
    have "?v < length (index_entries p)" using V(4) n(2) by (auto simp: subset_eq)
    then show ?thesis using True i e[OF d] unfolding p'(3) by (auto simp: reverted_entry_def simp del: of_nat_mult)
  next
    case False
    then have "V ! d \<noteq> ?v" using V(3) d n(2) by (simp add: nth_eq_iff_index_eq)
    then show ?thesis using False i e[OF d] unfolding p'(3) by (auto simp: reverted_entry_def simp del: of_nat_mult)
  qed
  then have "reverting t ?p A L N (Suc i)"
    using p' rw(1) ring' V i unfolding reverting_def by (intro exI[of _ ?h] exI[of _ hs] exI[of _ s] exI[of _ V]) simp
  moreover have "index_frame p ?p" by (rule index_frame_trans[of _ ?q]) simp_all
  ultimately show ?thesis using get rwd by blast
qed

text \<open>The chain of the new blocks, from number \<open>i\<close> on, ends with the last one.\<close>

definition chain_at :: "nat list \<Rightarrow> nat \<Rightarrow> nat option" where
  "chain_at A i = (if i < length A then Some (A ! i) else None)"

definition chained :: "(nat \<Rightarrow> 'a block) \<Rightarrow> nat list \<Rightarrow> bool" where
  "chained hp A \<longleftrightarrow> (\<forall>i<length A. blockNext (hp (A ! i)) = chain_at A (Suc i))"

lemma revert_entries_rep:
  assumes t: "traits_ok t" and mem: "length A * bsz t < 2 ^ 63"
  shows "reverting t p A L N i \<Longrightarrow> i \<le> length A \<Longrightarrow> chained (heap p) A \<Longrightarrow> length A - i \<le> fuel \<Longrightarrow> cur = of_nat ((N + i) * bsz t) - BLOCK_SIZE t \<Longrightarrow>
    \<exists>p'. revert_entries fuel t cur (chain_at A i) p = Some p' \<and> reverting t p' A L N (length A) \<and> index_frame p p'"
proof (induction fuel arbitrary: p i cur)
  case 0
  then show ?case by (intro exI[of _ p]) (simp add: chain_at_def)
next
  case (Suc fuel)
  show ?case
  proof (cases "i < length A")
    case False
    then show ?thesis using Suc.prems(1,2) by (intro exI[of _ p]) (simp add: chain_at_def)
  next
    case True
    obtain e p1 where p1: "get_block_index_entry_for_index t (of_nat ((N + i) * bsz t)) p = Some e"
        "rewind_block_index_tail (set_value e None p) = Some p1" "reverting t p1 A L N (Suc i)" "index_frame p p1"
      using reverting_step[OF t Suc.prems(1) True mem] by blast
    have c: "cur + BLOCK_SIZE t = of_nat ((N + i) * bsz t)" using Suc.prems(5) by simp
    have "of_nat ((N + Suc i) * bsz t) = of_nat ((N + i) * bsz t) + BLOCK_SIZE t" by (simp add: algebra_simps)
    then have c': "cur + BLOCK_SIZE t = of_nat ((N + Suc i) * bsz t) - BLOCK_SIZE t" unfolding c by (simp only: add_diff_cancel_right')
    have hp: "heap p1 = heap p" using index_frame_keeps(1)[OF p1(4)] .
    have nx: "blockNext (heap p1 (A ! i)) = chain_at A (Suc i)" using Suc.prems(3) True unfolding hp by (simp add: chained_def)
    have 1: "Suc i \<le> length A" "length A - Suc i \<le> fuel" using True Suc.prems(4) by simp_all
    have 2: "chained (heap p1) A" using Suc.prems(3) hp by simp
    obtain p' where p': "revert_entries fuel t (cur + BLOCK_SIZE t) (chain_at A (Suc i)) p1 = Some p'" "reverting t p' A L N (length A)" "index_frame p1 p'"
      using Suc.IH[OF p1(3) 1(1) 2 1(2) c'] by blast
    have "revert_entries (Suc fuel) t cur (chain_at A i) p = Some p'"
      using True p1(1)[folded c] p1(2) p'(1) nx by (simp add: chain_at_def[of A i])
    then show ?thesis using p'(2) index_frame_trans[OF p1(4) p'(3)] by blast
  qed
qed

lemma add_blocks_chain:
  assumes "chained hp A"
  shows "length A - i \<le> fuel \<Longrightarrow> \<exists>bp'. add_blocks_to_free_list fuel (\<lambda>a. blockNext (hp a)) (chain_at A i) bp = Some bp' \<and>
    mset (pool_left bp') = mset (pool_left bp) + mset (drop i A) \<and> pool_ok bp' = pool_ok bp"
proof (induction fuel arbitrary: i bp)
  case (Suc fuel)
  show ?case
  proof (cases "i < length A")
    case True
    have "length A - Suc i \<le> fuel" using Suc.prems True by simp
    from Suc.IH[OF this, of "add_block_to_free_list (A ! i) bp"] obtain bp' where bp':
        "add_blocks_to_free_list fuel (\<lambda>a. blockNext (hp a)) (chain_at A (Suc i)) (add_block_to_free_list (A ! i) bp) = Some bp'"
        "mset (pool_left bp') = mset (pool_left (add_block_to_free_list (A ! i) bp)) + mset (drop (Suc i) A)"
        "pool_ok bp' = pool_ok (add_block_to_free_list (A ! i) bp)" by blast
    have "blockNext (hp (A ! i)) = chain_at A (Suc i)" using assms True by (simp add: chained_def)
    then have "add_blocks_to_free_list (Suc fuel) (\<lambda>a. blockNext (hp a)) (chain_at A i) bp = Some bp'"
      using True bp'(1) by (simp add: chain_at_def[of A i])
    moreover have "mset (drop i A) = add_mset (A ! i) (mset (drop (Suc i) A))" using True by (simp flip: Cons_nth_drop_Suc)
    ultimately show ?thesis using bp'(2,3) by (simp add: pool_left_def add_block_to_free_list_def pool_ok_def)
  qed (simp add: chain_at_def)
qed (simp add: chain_at_def)

text \<open>The index of the last block that has been started, for the tail \<open>T\<close> when \<open>k\<close> blocks have been started: also when \<open>T\<close> is 0.\<close>

lemma block_base_before:
  assumes t: "traits_ok t" and k: "T \<le> k * bsz t" "k * bsz t < T + bsz t"
  shows "block_base t (of_nat T - 1) = of_nat (k * bsz t) - BLOCK_SIZE t"
proof -
  let ?B = "bsz t"
  have B: "0 < ?B" by (rule BLOCK_SIZE_pos[OF t])
  obtain c where c: "2 ^ 64 = c * ?B" using bsz_dvd[OF t] by (metis dvd_def mult.commute)
  then have c0: "c \<noteq> 0" by (cases c) simp_all
  have w: "(of_nat (c * ?B) :: index_t) = 0" unfolding c[symmetric] by simp
  have s: "(k + c - 1) * ?B = k * ?B + c * ?B - ?B" using c0 by (simp add: diff_mult_distrib add_mult_distrib)
  have "?B \<le> c * ?B" using c0 by simp
  then have "(k + c - 1) * ?B \<le> T + c * ?B - 1" "T + c * ?B - 1 < (k + c - 1 + 1) * ?B" using k B unfolding add_mult_distrib mult_1 s by linarith+
  then have d: "(T + c * ?B - 1) div ?B = k + c - 1" by (rule block_pos(1))
  have one: "1 \<le> T + c * ?B" using B c0 by (simp add: Suc_leI)
  have "(of_nat T :: index_t) - 1 = of_nat (T + c * ?B - 1)"
    using of_nat_diff[OF one, where 'a = index_t] w by (simp only: of_nat_add of_nat_1 add_0_right)
  then have "block_base t (of_nat T - 1) = of_nat ((k + c - 1) * ?B)" using block_base_of_nat[OF t, of "T + c * ?B - 1"] d by (simp only:)
  also have "\<dots> = of_nat (k * ?B + c * ?B) - of_nat ?B" unfolding s by (rule of_nat_diff[OF trans_le_add2[OF \<open>?B \<le> c * ?B\<close>]])
  also have "\<dots> = of_nat (k * ?B) - BLOCK_SIZE t" unfolding of_nat_add w by simp
  finally show ?thesis .
qed

lemma revert_bulk_rep:
  assumes t: "traits_ok t" and b: "implicit_blocks t M p (R @ A) H q" and A: "chained (heap p) A" "length A \<le> fuel"
    and T: "H + length q \<le> (H div bsz t + length R) * bsz t" "(H div bsz t + length R) * bsz t < H + length q + bsz t"
  shows "\<exists>p'. revert_bulk fuel t (of_nat (H + length q)) sb (chain_at A 0) p = Some p' \<and> implicit_blocks t M p' R H q \<and> tailBlock p' = sb"
proof -
  let ?N = "H div bsz t + length R" and ?cur = "block_base t (of_nat (H + length q) - 1)"
  note d = implicit_blocksD[OF b]
  have mem: "length A * bsz t < 2 ^ 63"
  proof -
    have "length A * bsz t \<le> length (R @ A) * bsz t" by (intro mult_right_mono) auto
    then show ?thesis using implicit_memory(1)[OF t b] by linarith
  qed
  have ix: "implicit_index_rep t p (rev A @ rev R) (?N + length A)" using d(8) by (simp add: add.assoc)
  have "\<exists>p1. revert_entries fuel t ?cur (chain_at A 0) p = Some p1 \<and> implicit_index_rep t p1 (rev R) ?N \<and> index_frame p p1"
  proof (cases "A = []")
    case True
    then show ?thesis using ix by (intro exI[of _ p]) (simp add: chain_at_def)
  next
    case False
    have "reverting t p A (rev R) ?N 0" by (rule reverting_start[OF ix False]) simp
    from revert_entries_rep[OF t mem this _ A(1), of fuel ?cur] block_base_before[OF t T] A(2)
    show ?thesis using reverting_end[of t _ A "rev R" ?N] by fastforce
  qed
  then obtain p1 where p1: "revert_entries fuel t ?cur (chain_at A 0) p = Some p1" "implicit_index_rep t p1 (rev R) ?N" "index_frame p p1" by blast
  note k = index_frame_keeps[OF p1(3)] index_frame_pool[OF p1(3)]
  obtain bp where bp: "add_blocks_to_free_list fuel (\<lambda>a. blockNext (heap p1 a)) (chain_at A 0) (pool p1) = Some bp"
      "mset (pool_left bp) = mset (pool_left (pool p1)) + mset A" "pool_ok bp = pool_ok (pool p1)"
    using add_blocks_chain[OF A(1), of 0 fuel "pool p1"] A(2) unfolding k(1) by auto
  let ?p = "p1 \<lparr> pool := bp, tailBlock := sb \<rparr>"
  have m: "mset (R @ pool_blocks ?p) = mset ((R @ A) @ pool_blocks p)" using bp(2) k(2) by (simp add: pool_blocks_def)
  have "blocks_ok t ?p R"
    using bp(3) d(5) by (intro blocks_ok_mset[OF d(5) m]) (simp_all add: k blocks_ok_def)
  moreover have "blocks_rep t implicit_context ?p R (H div bsz t) H q"
    unfolding blocks_rep_def
  proof (intro allI impI)
    fix i
    assume i: "i < length R"
    then have "block_rep t implicit_context (heap p ((R @ A) ! i)) (H div bsz t + i) H q" using d(7) unfolding blocks_rep_def by auto
    then show "block_rep t implicit_context (heap ?p (R ! i)) (H div bsz t + i) H q" using i by (simp add: nth_append k)
  qed
  moreover have "counters_rep ?p H (H + length q)" using d(2-4) by (simp add: counters_rep_def k)
  moreover have "mset (R @ pool_blocks ?p) = M" using m d(6) by simp
  ultimately have "implicit_blocks t M ?p R H q" using T(1) p1(2) unfolding implicit_blocks_def blocks_store_def by simp
  moreover have "revert_bulk fuel t (of_nat (H + length q)) sb (chain_at A 0) p = Some ?p"
    using p1(1) bp(1) by (simp add: revert_bulk_def del: of_nat_add)
  ultimately show ?thesis by (intro exI[of _ ?p]) simp
qed

section \<open>Allocating the blocks\<close>

definition allocated :: "traits \<Rightarrow> nat multiset \<Rightarrow> nat option \<Rightarrow> 'a implicit_producer \<Rightarrow> nat list \<Rightarrow> nat list \<Rightarrow> nat \<Rightarrow> 'a list \<Rightarrow> bool" where
  "allocated t M sb p R A H q \<longleftrightarrow> implicit_blocks t M p (R @ A) H q \<and> chained (heap p) A \<and>
     tailBlock p = (if A = [] then sb else Some (last A)) \<and>
     (A \<noteq> [] \<and> (H + length q) mod bsz t \<noteq> 0 \<longrightarrow> blockNext (heap p (last R)) = Some (A ! 0))"

lemma block_rep_link [simp]: "block_rep t cx (b \<lparr> blockNext := x \<rparr>) k H q = block_rep t cx b k H q"
  by (cases cx) (auto simp: block_rep_def dequeued_from_def)

lemma implicit_blocks_link:
  assumes "implicit_blocks t M p R H q"
  shows "implicit_blocks t M (write_block b ((heap p b) \<lparr> blockNext := x \<rparr>) p) R H q"
proof -
  let ?p = "write_block b ((heap p b) \<lparr> blockNext := x \<rparr>) p"
  note d = implicit_blocksD[OF assms]
  have "blocks_rep t implicit_context ?p R (H div bsz t) H q" using d(7) by (auto simp: blocks_rep_def write_block_def)
  moreover have "blocks_ok t ?p R" using d(5) by (auto simp: blocks_ok_def pool_blocks_def write_block_def)
  moreover have "counters_rep ?p H (H + length q)" using d(2-4) by (simp add: counters_rep_def write_block_def)
  moreover have "implicit_index_rep t ?p (rev R) (H div bsz t + length R)" using d(8) by (simp add: write_block_def)
  ultimately show ?thesis using d(1,6) unfolding implicit_blocks_def blocks_store_def by (simp add: pool_blocks_def write_block_def)
qed

lemma implicit_blocks_tailBlock: "implicit_blocks t M (p \<lparr> tailBlock := b \<rparr>) R H q = implicit_blocks t M p R H q"
  by (simp add: implicit_blocks_def blocks_store_def blocks_ok_def pool_blocks_def blocks_rep_def counters_rep_def)

lemma set_value_write: "set_value e v (write_block a b p) = write_block a b (set_value e v p)"
  by (simp add: set_value_def set_entry_def write_block_def)

text \<open>The steps after a new block has been found.\<close>

lemma chained_append:
  assumes "chained hp A" "distinct (A @ [a])" "\<And>b. b \<in> set A \<Longrightarrow> b \<noteq> last A \<Longrightarrow> blockNext (hp' b) = blockNext (hp b)"
    and "A \<noteq> [] \<Longrightarrow> blockNext (hp' (last A)) = Some a" "blockNext (hp' a) = None"
  shows "chained hp' (A @ [a])"
  unfolding chained_def
proof (intro allI impI)
  fix i
  assume i: "i < length (A @ [a])"
  consider "i = length A" | "Suc i = length A" | "Suc i < length A" using i by fastforce
  then show "blockNext (hp' ((A @ [a]) ! i)) = chain_at (A @ [a]) (Suc i)"
  proof cases
    case 1
    then show ?thesis using assms(5) by (simp add: chain_at_def)
  next
    case 2
    then have ne: "A \<noteq> []" by auto
    have "i < length A" "i = length A - 1" using 2 by simp_all
    then have "(A @ [a]) ! i = last A" using ne by (simp add: nth_append last_conv_nth)
    note this ne
    then show ?thesis using assms(4) 2 by (simp add: chain_at_def)
  next
    case 3
    then have "last A = A ! (length A - 1)" by (intro last_conv_nth) auto
    then have "A ! i \<noteq> last A" "A ! i \<in> set A" using assms(2) 3 by (simp_all add: nth_eq_iff_index_eq)
    then have "blockNext (hp' (A ! i)) = blockNext (hp (A ! i))" using assms(3) by blast
    also have "\<dots> = chain_at A (Suc i)" using assms(1) 3 by (simp add: chained_def)
    finally show ?thesis using 3 by (simp add: chain_at_def nth_append)
  qed
qed

lemma allocated_step:
  assumes t: "traits_ok t" and al: "allocated t M sb p R A H q"
    and sb: "(H + length q) mod bsz t \<noteq> 0 \<Longrightarrow> R \<noteq> [] \<and> sb = Some (last R)"
    and f: "fresh_block t M p1 e a (R @ A) H q" "tailBlock p1 = tailBlock p" "\<forall>b. blockNext (heap p1 b) = blockNext (heap p b)"
  shows "\<exists>p'. chain_block t (of_nat (H + length q)) (chain_at A 0) a (set_value e (Some a) (write_block a ((heap p1 a) \<lparr> blockNext := None \<rparr>) p1)) = Some p' \<and>
    allocated t M sb (p' \<lparr> tailBlock := Some a \<rparr>) R (A @ [a]) H q"
proof -
  let ?T = "H + length q"
  note al' = al[unfolded allocated_def]
  define p2 where "p2 = write_block a ((heap p1 a) \<lparr> blockNext := None \<rparr>) (set_value e (Some a) p1)"
  note k = index_frame_keeps(1,3)[OF index_frame_sets(1)[of p1 e "Some a"]]
  have b2: "implicit_blocks t M p2 (R @ A @ [a]) H q"
    using implicit_blocks_link[OF fresh_commit[OF f(1)], of a None] unfolding p2_def k(1) by simp
  have tb2: "tailBlock p2 = tailBlock p" using k(2) f(2) by (simp add: p2_def write_block_def)
  have n2: "blockNext (heap p2 b) = (if b = a then None else blockNext (heap p b))" for b
    using f(3) k(1) by (simp add: p2_def write_block_def)
  have dist: "distinct (R @ A @ [a])" using implicit_blocksD(9)[OF b2] .
  have at: "of_nat ?T AND (BLOCK_SIZE t - 1) \<noteq> 0 \<longleftrightarrow> ?T mod bsz t \<noteq> 0" unfolding at_boundary_iff[OF t] by simp
  define linked where "linked \<longleftrightarrow> ?T mod bsz t \<noteq> 0 \<or> A \<noteq> []"
  have l: "(of_nat ?T AND (BLOCK_SIZE t - 1) \<noteq> 0 \<or> chain_at A 0 \<noteq> None) = linked" unfolding at linked_def by (simp add: chain_at_def)
  have lead: "set_value e (Some a) (write_block a ((heap p1 a) \<lparr> blockNext := None \<rparr>) p1) = p2" unfolding p2_def by (rule set_value_write)
  show ?thesis
  proof (cases linked)
    case False
    then have "A = []" "?T mod bsz t = 0" by (simp_all add: linked_def)
    moreover have "chained (heap p2) [a]" by (simp add: chained_def chain_at_def n2)
    ultimately have "allocated t M sb (p2 \<lparr> tailBlock := Some a \<rparr>) R (A @ [a]) H q"
      using b2 by (simp add: allocated_def implicit_blocks_tailBlock)
    then show ?thesis using False l unfolding lead chain_block_def by auto
  next
    case True
    define z where "z = (if A = [] then last R else last A)"
    have z: "tailBlock p2 = Some z" "z \<noteq> a"
      using True al' sb dist unfolding tb2 linked_def z_def by (auto dest: last_in_set)
    let ?p = "write_block z ((heap p2 z) \<lparr> blockNext := Some a \<rparr>) p2"
    have b3: "implicit_blocks t M ?p (R @ A @ [a]) H q" by (rule implicit_blocks_link[OF b2])
    have n3: "blockNext (heap ?p b) = (if b = z then Some a else if b = a then None else blockNext (heap p b))" for b
      using n2 by (simp add: write_block_def)
    have "chained (heap ?p) (A @ [a])"
    proof (rule chained_append)
      show "chained (heap p) A" "distinct (A @ [a])" using al' dist by auto
      show "blockNext (heap ?p a) = None" using n3 z(2) by simp
      show "A \<noteq> [] \<Longrightarrow> blockNext (heap ?p (last A)) = Some a" using n3 by (simp add: z_def)
      show "blockNext (heap ?p b) = blockNext (heap p b)" if "b \<in> set A" "b \<noteq> last A" for b
        using that n3 dist by (auto simp: z_def)
    qed
    moreover have "blockNext (heap ?p (last R)) = Some ((A @ [a]) ! 0)" if "?T mod bsz t \<noteq> 0"
    proof (cases "A = []")
      case True
      then show ?thesis using n3 by (simp add: z_def)
    next
      case False
      have "R \<noteq> []" using sb that by blast
      then have "last R \<in> set R" "last A \<in> set A" using False by auto
      then have "last R \<noteq> z" "last R \<noteq> a" using dist False by (auto simp: z_def)
      then show ?thesis using n3 al' that False by (simp add: nth_append)
    qed
    ultimately have "allocated t M sb (?p \<lparr> tailBlock := Some a \<rparr>) R (A @ [a]) H q"
      using b3 by (simp add: allocated_def implicit_blocks_tailBlock)
    moreover have "chain_block t (of_nat ?T) (chain_at A 0) a p2 = Some ?p" using True l z(1) unfolding chain_block_def by auto
    ultimately show ?thesis unfolding lead by blast
  qed
qed

lemma implicit_allocate_rep:
  assumes t: "traits_ok t"
    and T: "H + length q \<le> (H div bsz t + length R) * bsz t" "(H div bsz t + length R) * bsz t < H + length q + bsz t"
    and sb: "(H + length q) mod bsz t \<noteq> 0 \<Longrightarrow> R \<noteq> [] \<and> sb = Some (last R)"
  shows "allocated t M sb p R A H q \<Longrightarrow> 0 < d \<Longrightarrow> (d - 1) * bsz t < 2 ^ 63 \<Longrightarrow> length A + 2 * d \<le> fuel + 1 \<Longrightarrow>
    diff = of_nat (d * bsz t) \<Longrightarrow> cur = of_nat ((H div bsz t + length R + length A) * bsz t) - BLOCK_SIZE t \<Longrightarrow>
    \<exists>ok first p'. implicit_allocate fuel t m (of_nat (H + length q)) sb diff cur (chain_at A 0) p = Some (ok, first, p') \<and>
      (if ok then \<exists>A'. length A' = length A + d \<and> first = chain_at A' 0 \<and> allocated t M sb p' R A' H q
       else implicit_blocks t M p' R H q \<and> tailBlock p' = sb)"
proof (induction fuel arbitrary: p A d diff cur)
  case 0
  then show ?case by simp
next
  case (Suc fuel)
  let ?T = "H + length q" and ?N = "H div bsz t + length (R @ A)"
  note al = Suc.prems(1)[unfolded allocated_def]
  have cur: "cur + BLOCK_SIZE t = of_nat (?N * bsz t)" using Suc.prems(6) by (simp add: add.assoc)
  have "d * bsz t = (d - 1) * bsz t + bsz t" using Suc.prems(2) by (cases d) simp_all
  then have diff: "diff - BLOCK_SIZE t = of_nat ((d - 1) * bsz t)" using Suc.prems(5) by (simp only: of_nat_add) simp
  have b: "implicit_blocks t M p (R @ A) H q" using al by blast
  obtain x p1 where x: "implicit_fresh_block t m (of_nat (?N * bsz t)) p = Some (x, p1)" "tailBlock p1 = tailBlock p"
      "case x of None \<Rightarrow> implicit_blocks t M p1 (R @ A) H q \<and> heap p1 = heap p
       | Some (e, a) \<Rightarrow> fresh_block t M p1 e a (R @ A) H q \<and> (\<forall>b. blockNext (heap p1 b) = blockNext (heap p b)) \<and> (\<forall>b. b \<noteq> a \<longrightarrow> heap p1 b = heap p b)"
    using implicit_fresh_block_rep[OF t b, of m] by blast
  show ?case
  proof (cases x)
    case None
    have b1: "implicit_blocks t M p1 (R @ A) H q" "chained (heap p1) A" using x(3) None al by simp_all
    have "length A \<le> Suc fuel" using Suc.prems(2,4) by linarith
    from revert_bulk_rep[OF t b1 this T] obtain p' where
        "revert_bulk (Suc fuel) t (of_nat ?T) sb (chain_at A 0) p1 = Some p'" "implicit_blocks t M p' R H q" "tailBlock p' = sb" by blast
    then show ?thesis using x(1) None unfolding implicit_allocate.simps Let_def cur diff by auto
  next
    case (Some ea)
    obtain e a where ea: "x = Some (e, a)" using Some by (cases ea) auto
    have f: "fresh_block t M p1 e a (R @ A) H q" "\<forall>b. blockNext (heap p1 b) = blockNext (heap p b)" using x(3) ea by auto
    obtain p2 where p2: "chain_block t (of_nat ?T) (chain_at A 0) a (set_value e (Some a) (write_block a ((heap p1 a) \<lparr> blockNext := None \<rparr>) p1)) = Some p2"
        "allocated t M sb (p2 \<lparr> tailBlock := Some a \<rparr>) R (A @ [a]) H q"
      using allocated_step[OF t Suc.prems(1) sb f(1) x(2) f(2)] by blast
    have first: "(if chain_at A 0 = None then Some a else chain_at A 0) = chain_at (A @ [a]) 0"
      by (cases A) (simp_all add: chain_at_def)
    have step: "implicit_allocate (Suc fuel) t m (of_nat ?T) sb diff cur (chain_at A 0) p =
        (if (of_nat ((d - 1) * bsz t) :: size_t) > 0
         then implicit_allocate fuel t m (of_nat ?T) sb (of_nat ((d - 1) * bsz t)) (of_nat (?N * bsz t)) (chain_at (A @ [a]) 0) (p2 \<lparr> tailBlock := Some a \<rparr>)
         else Some (True, chain_at (A @ [a]) 0, p2 \<lparr> tailBlock := Some a \<rparr>))"
      unfolding implicit_allocate.simps Let_def cur diff x(1) ea by (simp add: p2(1) first del: of_nat_mult of_nat_add)
    have un: "unat (of_nat ((d - 1) * bsz t) :: size_t) = (d - 1) * bsz t" using Suc.prems(3) by (intro unat_of_nat_small) simp
    have B: "0 < bsz t" by (rule BLOCK_SIZE_pos[OF t])
    have pos: "(of_nat ((d - 1) * bsz t) :: size_t) > 0 \<longleftrightarrow> 0 < d - 1" unfolding word_less_nat_alt un using B by simp
    show ?thesis
    proof (cases "0 < d - 1")
      case False
      then have "length (A @ [a]) = length A + d" using Suc.prems(2) by simp
      then show ?thesis using p2(2) unfolding step pos if_not_P[OF False] by (metis (full_types))
    next
      case True
      have "(d - 1 - 1) * bsz t \<le> (d - 1) * bsz t" by (intro mult_right_mono) auto
      then have 1: "(d - 1 - 1) * bsz t < 2 ^ 63" using Suc.prems(3) by (rule le_less_trans)
      have 2: "length (A @ [a]) + 2 * (d - 1) \<le> fuel + 1" using Suc.prems(2,4) by simp
      have 3: "of_nat (?N * bsz t) = of_nat ((H div bsz t + length R + length (A @ [a])) * bsz t) - BLOCK_SIZE t" by (simp add: algebra_simps)
      have 4: "length (A @ [a]) + (d - 1) = length A + d" using Suc.prems(2) by simp
      from Suc.IH[OF p2(2) True 1 2 refl 3] show ?thesis unfolding step pos 4 if_P[OF True] .
    qed
  qed
qed

section \<open>enqueue_bulk\<close>

lemma implicit_blocks_fill:
  assumes b: "implicit_blocks t M p R H q" and sh: "same_shape (heap p) hp" and s: "store_at t (p \<lparr> heap := hp \<rparr>) R (H div bsz t) H q'"
    and T: "H + length q' \<le> (H div bsz t + length R) * bsz t"
  shows "implicit_blocks t M (p \<lparr> heap := hp, tailBlock := tb, tailIndex := of_nat (H + length q') \<rparr>) R H q'"
proof -
  let ?p = "p \<lparr> heap := hp, tailBlock := tb, tailIndex := of_nat (H + length q') \<rparr>"
  note d = implicit_blocksD[OF b]
  have "blocks_rep t implicit_context ?p R (H div bsz t) H q'" using s by (simp add: store_at_def blocks_rep_def)
  moreover have "blocks_ok t ?p R" using d(5) sh by (simp add: blocks_ok_def pool_blocks_def same_shape_def)
  moreover have "counters_rep ?p H (H + length q')" using d(2,4) by (simp add: counters_rep_def)
  moreover have "pool_blocks ?p = pool_blocks p" by (simp add: pool_blocks_def)
  ultimately show ?thesis using T d(6,8) unfolding implicit_blocks_def blocks_store_def by simp
qed

text \<open>The number of the blocks started, at the start and at the end.\<close>

lemma started_blocks:
  assumes t: "traits_ok t" and r: "implicit_rep t M p R H q"
  shows "H + length q \<le> (H div bsz t + length R) * bsz t" "(H div bsz t + length R) * bsz t < H + length q + bsz t"
proof -
  show T: "H + length q \<le> (H div bsz t + length R) * bsz t" by (rule implicit_blocksD(1)[OF implicit_repD(1)[OF r]])
  have B: "0 < bsz t" by (rule BLOCK_SIZE_pos[OF t])
  show "(H div bsz t + length R) * bsz t < H + length q + bsz t"
  proof (cases "R = []")
    case True
    then show ?thesis using le_less_trans[OF div_times_less_eq_dividend[of H "bsz t"], of "H + length q + bsz t"] B by simp
  next
    case False
    then have "H div bsz t + length R = Suc (H div bsz t + length R - 1)" by (cases R) simp_all
    then have "(H div bsz t + length R) * bsz t = bsz t + (H div bsz t + length R - 1) * bsz t" by (metis mult_Suc)
    then show ?thesis using implicit_repD(3)[OF r False] by linarith
  qed
qed

lemma blocks_needed:
  assumes B: "0 < (B :: nat)" and T: "T \<le> k * B" "k * B < T + B" and d: "d = (T + n + B - 1) div B - k"
  shows "T + n \<le> (k + d) * B" "(k + d) * B < T + n + B" "0 < d \<longleftrightarrow> (B - T mod B) mod B < n" "0 < d \<Longrightarrow> (d - 1) * B < n"
proof -
  let ?N = "(T + n + B - 1) div B"
  have e: "?N * B + (T + n + B - 1) mod B = T + n + B - 1" by (rule div_mult_mod_eq)
  have l: "(T + n + B - 1) mod B < B" using B by (rule mod_less_divisor)
  have N: "T + n \<le> ?N * B" "?N * B < T + n + B" using e l B by linarith+
  have "k * B < ?N * B + B" using N(1) T(2) by linarith
  then have "k * B < (?N + 1) * B" by (simp add: add_mult_distrib)
  then have "k < ?N + 1" by (simp only: mult_less_cancel2)
  then have kd: "k + d = ?N" using d by simp
  show 1: "T + n \<le> (k + d) * B" "(k + d) * B < T + n + B" unfolding kd using N by simp_all
  have free: "(B - T mod B) mod B = k * B - T"
  proof (cases "T = k * B")
    case False
    then have "0 < k" "(k - 1) * B \<le> T" "T < (k - 1 + 1) * B" using T B by (cases k; simp)+
    then have "T mod B = T - (k - 1) * B" by (intro block_pos(2))
    moreover have "k * B = (k - 1) * B + B" using \<open>0 < k\<close> by (cases k) simp_all
    ultimately show ?thesis using T False by (simp add: add.commute)
  qed (use B in simp)
  have dB: "(k + d) * B = k * B + d * B" by (rule add_mult_distrib)
  show "0 < d \<longleftrightarrow> (B - T mod B) mod B < n"
  proof
    assume "0 < d"
    then have "B \<le> d * B" by simp
    then show "(B - T mod B) mod B < n" unfolding free using 1 dB T by linarith
  next
    assume "(B - T mod B) mod B < n"
    then have "0 < d * B" unfolding free using 1 dB T by linarith
    then show "0 < d" by simp
  qed
  assume "0 < d"
  then have "d * B = (d - 1) * B + B" by (cases d) simp_all
  then show "(d - 1) * B < n" using 1 dB T by linarith
qed

definition bulk_outcome :: "nat \<Rightarrow> nat \<Rightarrow> ('a \<times> bool) list \<Rightarrow> outcome \<Rightarrow> bool" where
  "bulk_outcome B T items out \<longleftrightarrow>
     (case out of Rethrow \<Rightarrow> list_ex snd items
      | Return b \<Rightarrow> if b then \<not> list_ex snd items else (B - T mod B) mod B < length items)"

lemma linked_blocks:
  assumes A: "chained hp A" "A \<noteq> [] \<and> T mod bsz t \<noteq> 0 \<longrightarrow> blockNext (hp (last R)) = Some (A ! 0)" and hp: "heap p = hp"
    and i: "length R \<le> i \<or> (T mod bsz t \<noteq> 0 \<and> Suc i = length R)"
  shows "linked_from p (R @ A) i"
  unfolding linked_from_def
proof (intro allI impI)
  fix k
  assume k: "i \<le> k \<and> Suc k < length (R @ A)"
  show "blockNext (heap p ((R @ A) ! k)) = Some ((R @ A) ! Suc k)"
  proof (cases "length R \<le> k")
    case True
    have l: "Suc (k - length R) < length A" using k True unfolding length_append by linarith
    then have "blockNext (hp (A ! (k - length R))) = Some (A ! Suc (k - length R))" using A(1) by (simp add: chained_def chain_at_def)
    then show ?thesis using True by (simp add: hp nth_append Suc_diff_le)
  next
    case False
    then have e: "Suc k = length R" "T mod bsz t \<noteq> 0" "R \<noteq> []" using i k by auto
    then have "(R @ A) ! k = last R" "A \<noteq> []" using k by (auto simp: nth_append last_conv_nth simp flip: e(1))
    then show ?thesis using A(2) e by (simp add: hp nth_append)
  qed
qed

lemma implicit_enqueue_bulk_rep:
  assumes t: "traits_ok t" and B63: "bsz t < 2 ^ 63" and r: "implicit_rep t M p R H q" and len: "length items < 2 ^ 63"
  shows "\<exists>out p' R'. implicit_enqueue_bulk t m td items p = Some (out, p') \<and> bulk_outcome (bsz t) (H + length q) items out \<and>
    implicit_rep t M p' R' H (if out = Return True then q @ map fst items else q)"
proof -
  let ?B = "bsz t" and ?T = "H + length q" and ?n = "length items" and ?k = "H div bsz t + length R" and ?sb = "tailBlock p"
  have B: "0 < ?B" by (rule BLOCK_SIZE_pos[OF t])
  have B2: "2 \<le> ?B"
  proof -
    obtain b where b: "1 \<le> b" "?B = 2 ^ b" using bsz_exp[OF t] by metis
    have "(2::nat) ^ 1 \<le> 2 ^ b" using b(1) by (intro power_increasing) simp_all
    then show ?thesis unfolding b(2) by simp
  qed
  note sp = started_blocks[OF t r] and b = implicit_repD(1)[OF r]
  define d where "d = (?T + ?n + ?B - 1) div ?B - ?k"
  note bn = blocks_needed[OF B sp d_def]
  define F where "F = ?n + 2"
  have tail: "tailIndex p = of_nat ?T" by (rule implicit_blocksD(3)[OF b])
  have at: "of_nat ?T AND (BLOCK_SIZE t - 1) = 0 \<longleftrightarrow> ?T mod ?B = 0" by (rule at_boundary_iff[OF t])
  have sb: "?T mod ?B \<noteq> 0 \<Longrightarrow> R \<noteq> [] \<and> ?sb = Some (last R)" using implicit_tail_position(2)[OF t r] implicit_repD(2)[OF r] by blast
  define cur where "cur = block_base t (tailIndex p - 1)"
  have cur: "cur = of_nat (?k * ?B) - BLOCK_SIZE t" unfolding cur_def tail by (rule block_base_before[OF t sp])
  define diff where "diff = block_base t (tailIndex p + of_nat ?n - 1) - cur"
  have diff: "diff = of_nat (d * ?B)"
  proof -
    have "block_base t (of_nat (?T + ?n) - 1) = of_nat ((?k + d) * ?B) - BLOCK_SIZE t" using bn(1,2) by (intro block_base_before[OF t]) simp_all
    then show ?thesis unfolding diff_def cur tail of_nat_add[symmetric] by (simp add: add_mult_distrib)
  qed
  have d63: "0 < d \<Longrightarrow> (d - 1) * ?B < 2 ^ 63" using bn(4) len by (rule less_trans)
  have dpos: "diff > 0 \<longleftrightarrow> 0 < d"
  proof (cases "d = 0")
    case False
    then have "d * ?B = (d - 1) * ?B + ?B" by (cases d) simp_all
    then have "d * ?B < 2 ^ 64" using d63 B63 False by simp
    then have "unat diff = d * ?B" unfolding diff by (rule unat_of_nat_small)
    then show ?thesis using False B by (simp add: word_less_nat_alt)
  qed (simp add: diff)
  have d2: "2 * d \<le> F + 1"
  proof (cases "d = 0")
    case False
    have "(d - 1) * 2 \<le> (d - 1) * ?B" using B2 by (rule mult_left_mono) simp
    then show ?thesis using bn(4) False unfolding F_def by linarith
  qed simp
  have al0: "allocated t M ?sb p R [] H q" using b by (simp add: allocated_def chained_def)
  define alloc where "alloc = (if diff > 0 then implicit_allocate F t m (tailIndex p) ?sb diff cur None p else Some (True, None, p))"
  have "\<exists>ok first p1. alloc = Some (ok, first, p1) \<and>
      (if ok then \<exists>A. length A = d \<and> first = chain_at A 0 \<and> allocated t M ?sb p1 R A H q
       else 0 < d \<and> implicit_blocks t M p1 R H q \<and> tailBlock p1 = ?sb)"
  proof (cases "0 < d")
    case False
    then show ?thesis using al0 dpos unfolding alloc_def by (intro exI[of _ True] exI[of _ None] exI[of _ p]) (simp add: chain_at_def)
  next
    case True
    have c0: "None = chain_at ([] :: nat list) 0" by (simp add: chain_at_def)
    have cur0: "cur = of_nat ((H div ?B + length R + length ([] :: nat list)) * ?B) - BLOCK_SIZE t" using cur by simp
    have f0: "length ([] :: nat list) + 2 * d \<le> F + 1" using d2 by simp
    from implicit_allocate_rep[where sb = "tailBlock p" and m = m, OF t sp sb al0 True d63[OF True] f0 diff cur0]
    show ?thesis using True dpos unfolding alloc_def tail c0[symmetric] by (auto split: if_splits)
  qed
  then obtain ok first p1 where p1: "alloc = Some (ok, first, p1)"
      "if ok then \<exists>A. length A = d \<and> first = chain_at A 0 \<and> allocated t M ?sb p1 R A H q
       else 0 < d \<and> implicit_blocks t M p1 R H q \<and> tailBlock p1 = ?sb" by blast
  have ev: "implicit_enqueue_bulk t m td items p =
      do { (ok, first, p1) \<leftarrow> alloc;
        if \<not> ok then Some (Return False, p1)
        else do {
          let endBlock = tailBlock p1;
          ensure (\<not> (?T mod ?B = 0) \<or> first \<noteq> None \<or> (of_nat ?n :: size_t) = 0);
          (threw, cur, p2) \<leftarrow>
            fill_blocks F t (of_nat ?T + of_nat ?n) endBlock (of_nat ?T) items
              (p1 \<lparr> tailBlock := (if ?T mod ?B = 0 \<and> first \<noteq> None then first else ?sb) \<rparr>);
          if threw then do {
            p3 \<leftarrow> (if td then Some p2
                  else destroy_constructed F t cur (tailBlock p2) (if ?T mod ?B = 0 then first else ?sb) (of_nat ?T) p2);
            p4 \<leftarrow> revert_bulk F t (of_nat ?T) ?sb first p3;
            Some (Rethrow, p4) }
          else Some (Return True, p2 \<lparr> tailIndex := of_nat ?T + of_nat ?n \<rparr>) } }"
    unfolding implicit_enqueue_bulk_def alloc_def diff_def cur_def Let_def tail at F_def by (rule refl)
  show ?thesis
  proof (cases ok)
    case False
    then have "implicit_enqueue_bulk t m td items p = Some (Return False, p1)" using p1(1) unfolding ev by simp
    moreover have "implicit_rep t M p1 R H q" using p1(2) False r by (simp add: implicit_rep_def)
    ultimately show ?thesis using p1(2) False bn(3) by (auto simp: bulk_outcome_def)
  next
    case True
    then obtain A where A: "length A = d" "first = chain_at A 0" "allocated t M ?sb p1 R A H q" using p1(2) by auto
    note al = A(3)[unfolded allocated_def]
    have b1: "implicit_blocks t M p1 (R @ A) H q" "chained (heap p1) A" using al by blast+
    have tb1: "tailBlock p1 = (if A = [] then ?sb else Some (last A))" using al by blast
    have ne: "first = None \<longleftrightarrow> A = []" unfolding A(2) by (simp add: chain_at_def)
    show ?thesis
    proof (cases "items = []")
      case e: True
      then have "A = []" using bn(3) A(1) by simp
      then have f: "first = None" "tailBlock p1 = ?sb" "p1 \<lparr> tailBlock := ?sb \<rparr> = p1" using ne tb1 by simp_all
      have st: "stop_index t (of_nat ?T) (of_nat ?T) = of_nat ?T"
      proof -
        have "?T \<le> (?T div ?B + 1) * ?B" using dividend_less_div_times[OF B, of ?T] by (simp add: add.commute)
        then show ?thesis using stop_index_of_nat[OF t B63, of ?T ?T] by (simp add: min_absorb1 del: of_nat_add)
      qed
      have "implicit_enqueue_bulk t m td items p = Some (Return True, p1 \<lparr> tailIndex := of_nat ?T \<rparr>)"
        using p1(1) True e f st unfolding ev F_def by (simp add: ensure_def fill_block.simps del: of_nat_add)
      moreover have "p1 \<lparr> tailIndex := of_nat ?T \<rparr> = p1" using implicit_blocksD(3)[OF b1(1)] by simp
      moreover have "implicit_rep t M p1 R H q" using b1(1) \<open>A = []\<close> f(2) r by (simp add: implicit_rep_def)
      ultimately show ?thesis using e by (auto simp: bulk_outcome_def)
    next
      case items: False
      let ?R = "R @ A" and ?K = "H div ?B"
      have kd: "?K + length ?R = ?k + d" using A(1) by simp
      define i where "i = (if ?T mod ?B = 0 then length R else length R - 1)"
      have A0: "A \<noteq> []" if "?T mod ?B = 0" using bn(3) that items A(1) by auto
      have R0: "R \<noteq> []" if "?T mod ?B \<noteq> 0" using sb that by blast
      have "i < length ?R \<and> ?T div ?B = ?K + i \<and> (if ?T mod ?B = 0 \<and> first \<noteq> None then first else ?sb) = Some (?R ! i) \<and>
          (if ?T mod ?B = 0 then first else ?sb) = Some (?R ! i) \<and> (length R \<le> i \<or> (?T mod ?B \<noteq> 0 \<and> Suc i = length R))"
      proof (cases "?T mod ?B = 0")
        case True
        have "?T div ?B = ?k" using implicit_tail_position(1)[OF t r True] B by simp
        then show ?thesis
          using True A0[OF True] by (simp add: i_def A(2) chain_at_def nth_append)
      next
        case False
        have k1: "?k = ?k - 1 + 1" using R0[OF False] by (cases R) simp_all
        have "(?k - 1) * ?B \<le> ?T" "?T < (?k - 1 + 1) * ?B"
          using implicit_repD(3)[OF r R0[OF False]] implicit_tail_position(2)[OF t r False] k1 by simp_all
        then have "?T div ?B = ?k - 1" by (rule block_pos(1))
        then show ?thesis
          using False R0[OF False] sb[OF False] by (cases R rule: rev_cases) (simp_all add: i_def nth_append)
      qed
      then have i: "i < length ?R" "?T div ?B = ?K + i" "(if ?T mod ?B = 0 \<and> first \<noteq> None then first else ?sb) = Some (?R ! i)"
          "(if ?T mod ?B = 0 then first else ?sb) = Some (?R ! i)" "length R \<le> i \<or> (?T mod ?B \<noteq> 0 \<and> Suc i = length R)" by blast+
      define p2 where "p2 = p1 \<lparr> tailBlock := Some (?R ! i) \<rparr>"
      have st: "store_at t p2 ?R ?K H q" using implicit_blocksD(7,9,10)[OF b1(1)] by (simp add: store_at_def blocks_rep_def p2_def)
      have lk: "linked_from p2 ?R i" using al i(5) by (intro linked_blocks[of "heap p1" A ?T t R]) (simp_all add: p2_def)
      have nd: "?T + ?n \<le> (?K + length ?R) * ?B" "(?K + length ?R - 1) * ?B < ?T + ?n"
      proof -
        have "0 < ?k + d" using bn(1) items by (cases "?k + d = 0") simp_all
        then have "(?k + d) * ?B = (?k + d - 1) * ?B + ?B" by (cases "?k + d") simp_all
        then show "?T + ?n \<le> (?K + length ?R) * ?B" "(?K + length ?R - 1) * ?B < ?T + ?n" unfolding kd using bn(1,2) by linarith+
      qed
      have tb2: "tailBlock p2 = Some (?R ! i)" by (simp add: p2_def)
      have nF: "?n \<le> F" by (simp add: F_def)
      from fill_blocks_rep[OF t B63 st tb2 i(1) lk refl i(2) items nd len nF] obtain hp j where
          fl: "fill_blocks F t (of_nat ?T + of_nat ?n) (Some (last ?R)) (of_nat ?T) items p2 =
            Some (length (made items) \<noteq> ?n, of_nat ?T + of_nat (length (made items)), p2 \<lparr> heap := hp, tailBlock := Some (?R ! j) \<rparr>)"
          "store_at t (p2 \<lparr> heap := hp \<rparr>) ?R ?K H (q @ made items)" "same_shape (heap p2) hp" "i \<le> j" "j < length ?R"
          "if length (made items) = ?n then Suc j = length ?R else (?T + length (made items)) div ?B = ?K + j" by blast
      define p3 where "p3 = p2 \<lparr> heap := hp, tailBlock := Some (?R ! j) \<rparr>"
      have tb3: "tailBlock p3 = Some (?R ! j)" by (simp add: p3_def)
      have sh: "same_shape (heap p1) hp" using fl(3) by (simp add: p2_def)
      have endB: "tailBlock p1 = Some (last ?R)" using tb1 R0 A0 sb by (cases "A = []") auto
      have assert: "?T mod ?B = 0 \<longrightarrow> first \<noteq> None" using A0 by (simp add: ne)
      have en: "ensure (\<not> (?T mod ?B = 0) \<or> first \<noteq> None \<or> (of_nat ?n :: size_t) = 0) = Some ()" using assert unfolding ensure_def by (intro if_P) blast
      have ev2: "implicit_enqueue_bulk t m td items p =
          (if length (made items) \<noteq> ?n then do {
             p3 \<leftarrow> (if td then Some p3
                   else destroy_constructed F t (of_nat ?T + of_nat (length (made items))) (Some (?R ! j)) (Some (?R ! i)) (of_nat ?T) p3);
             p4 \<leftarrow> revert_bulk F t (of_nat ?T) ?sb first p3;
             Some (Rethrow, p4) }
           else Some (Return True, p3 \<lparr> tailIndex := of_nat ?T + of_nat ?n \<rparr>))"
        unfolding ev p1(1) Let_def bind.bind_lunit prod.case en endB i(3,4) p2_def[symmetric] fl(1) p3_def[symmetric] tb3
        by (simp only: True if_False not_True_eq_False)
      show ?thesis
      proof (cases "length (made items) = ?n")
        case all: True
        have mk: "made items = map fst items" "\<not> list_ex snd items" using made_fst[OF all] all made_all[of items] by (auto simp: list_ex_iff)
        have T': "H + length (q @ map fst items) \<le> (?K + length ?R) * ?B" using nd(1) by simp
        let ?p = "p3 \<lparr> tailIndex := of_nat ?T + of_nat ?n \<rparr>"
        have pe: "?p = p1 \<lparr> heap := hp, tailBlock := Some (?R ! j), tailIndex := of_nat (H + length (q @ map fst items)) \<rparr>"
          by (simp add: p3_def p2_def add.assoc)
        have "store_at t (p1 \<lparr> heap := hp \<rparr>) ?R ?K H (q @ map fst items)" using fl(2) mk(1) by (simp add: store_at_def blocks_rep_def p2_def)
        from implicit_blocks_fill[OF b1(1) sh this T'] have "implicit_blocks t M ?p ?R H (q @ map fst items)" unfolding pe .
        moreover have "tailBlock ?p = Some (last ?R)"
        proof -
          have "?R \<noteq> []" using fl(5) by (cases ?R) simp_all
          then have "last ?R = ?R ! (length ?R - 1)" by (rule last_conv_nth)
          moreover have "length ?R - 1 = j" using fl(6) all by simp
          ultimately have "last ?R = ?R ! j" by (simp only:)
          then show ?thesis by (simp add: p3_def)
        qed
        ultimately have "implicit_rep t M ?p ?R H (q @ map fst items)" using nd(2) by (simp add: implicit_rep_def add.assoc)
        moreover have "implicit_enqueue_bulk t m td items p = Some (Return True, ?p)" unfolding ev2 using all by simp
        ultimately show ?thesis using mk(2) by (intro exI[of _ "Return True"] exI[of _ ?p] exI[of _ ?R]) (simp add: bulk_outcome_def)
      next
        case thr: False
        then have le: "list_ex snd items" using made_all[of items] by (auto simp: list_ex_iff)
        have ml: "length (made items) \<le> ?n" by (rule made_length)
        have r3: "rest_at t p3 ?R ?K ?T (made items)"
        proof -
          have "?T + length (made items) \<le> (?K + length ?R) * ?B" using nd(1) ml by linarith
          from store_at_rest[OF t fl(2) refl this] show ?thesis by (simp add: rest_at_def p3_def)
        qed
        have s3: "store_at t p3 ?R ?K H q"
          using store_at_prefix[OF fl(2)] by (simp add: store_at_def blocks_rep_def p3_def)
        obtain hp' where hp': "(if td then Some p3
                   else destroy_constructed F t (of_nat ?T + of_nat (length (made items))) (Some (?R ! j)) (Some (?R ! i)) (of_nat ?T) p3) =
              Some (p3 \<lparr> heap := hp' \<rparr>)" "store_at t (p3 \<lparr> heap := hp' \<rparr>) ?R ?K H q" "same_shape hp hp'"
        proof (cases td)
          case True
          have "p3 \<lparr> heap := hp \<rparr> = p3" by (simp add: p3_def)
          then show ?thesis using that[of hp] True s3 same_shape_refl[of hp] by simp
        next
          case False
          have lk3: "linked_from p3 ?R i" using linked_from_shape[OF lk, of p3 i] fl(3) by (simp add: p3_def)
          have j: "(?T + length (made items)) div ?B = ?K + j" using fl(6) thr by simp
          have m63: "length (made items) < 2 ^ 63" using ml len by (rule le_less_trans)
          have jF: "j - i < F"
          proof -
            have "(?K + j) * ?B \<le> ?T + length (made items)" unfolding j[symmetric] by (rule div_times_less_eq_dividend)
            moreover have "?T < (?K + i + 1) * ?B" using dividend_less_div_times[OF B, of ?T] unfolding i(2) by (simp add: add.commute)
            ultimately have "(?K + j) * ?B < (?K + i + 1) * ?B + ?n" using ml by linarith
            also have "\<dots> \<le> (?K + i + 1) * ?B + ?n * ?B" using B by simp
            also have "\<dots> = (?K + i + 1 + ?n) * ?B" by (simp only: add_mult_distrib)
            finally have "?K + j < ?K + i + 1 + ?n" by (simp only: mult_less_cancel2)
            then show ?thesis unfolding F_def by linarith
          qed
          from destroy_constructed_rep[OF t B63 s3 r3 order_refl lk3 i(2) j fl(5) m63 jF] obtain hp' where
              "destroy_constructed F t (of_nat ?T + of_nat (length (made items))) (Some (?R ! j)) (Some (?R ! i)) (of_nat ?T) p3 = Some (p3 \<lparr> heap := hp' \<rparr>)"
              "store_at t (p3 \<lparr> heap := hp' \<rparr>) ?R ?K H q" "same_shape (heap p3) hp'" by blast
          then show ?thesis using that[of hp'] False by (simp add: p3_def)
        qed
        define p4 where "p4 = p3 \<lparr> heap := hp' \<rparr>"
        have b4: "implicit_blocks t M p4 ?R H q"
        proof -
          have "store_at t (p1 \<lparr> heap := hp' \<rparr>) ?R ?K H q" using hp'(2) by (simp add: store_at_def blocks_rep_def)
          from implicit_blocks_fill[OF b1(1) same_shape_trans[OF sh hp'(3)] this implicit_blocksD(1)[OF b1(1)], of "Some (?R ! j)"]
          have "implicit_blocks t M (p1 \<lparr> heap := hp', tailBlock := Some (?R ! j), tailIndex := of_nat ?T \<rparr>) ?R H q" .
          moreover have "p1 \<lparr> heap := hp', tailBlock := Some (?R ! j), tailIndex := of_nat ?T \<rparr> = p4 \<lparr> tailIndex := of_nat ?T \<rparr>"
            by (simp add: p4_def p3_def p2_def)
          ultimately have "implicit_blocks t M (p4 \<lparr> tailIndex := of_nat ?T \<rparr>) ?R H q" by (simp only:)
          moreover have "p4 \<lparr> tailIndex := of_nat ?T \<rparr> = p4" using implicit_blocksD(3)[OF b1(1)] by (simp add: p4_def p3_def p2_def)
          ultimately show ?thesis by simp
        qed
        have ch: "chained (heap p4) A" using b1(2) same_shape_trans[OF sh hp'(3)] by (simp add: chained_def same_shape_def p4_def)
        have "length A \<le> F" using d2 A(1) by linarith
        from revert_bulk_rep[OF t b4 ch this sp] obtain p' where p': "revert_bulk F t (of_nat ?T) ?sb (chain_at A 0) p4 = Some p'"
            "implicit_blocks t M p' R H q" "tailBlock p' = ?sb" by blast
        have "implicit_enqueue_bulk t m td items p = Some (Rethrow, p')"
          unfolding ev2 using thr hp'(1) p'(1) by (simp add: p4_def A(2) del: of_nat_add)
        moreover have "implicit_rep t M p' R H q" using p'(2,3) r by (simp add: implicit_rep_def)
        ultimately show ?thesis using le by (intro exI[of _ Rethrow] exI[of _ p'] exI[of _ R]) (simp add: bulk_outcome_def)
      qed
    qed
  qed
qed

end
