(* ===== verification/Cq_Explicit_Properties.thy ===== *)
theory Cq_Explicit_Properties
  imports Cq_Explicit_Bulk
begin

text \<open>
  The properties of \<open>ExplicitProducer\<close>: from its construction on, over any sequence of enqueues of one element and
  of dequeues of one element or in bulk, one call at a time, in which no constructor throws just as a new block is started, it answers as a first-in first-out queue and its destructor destroys exactly the elements that are
  left; what goes wrong when a constructor throws there, and, in a run of a small queue, when a bulk enqueue fails.
\<close>

section \<open>Construction\<close>

text \<open>The blocks that \<open>requisition_block\<close> is going to give: distinct, of the right size, in a memory of \<open>2 ^ 63\<close> elements.\<close>

definition fresh_pool :: "traits \<Rightarrow> (nat \<Rightarrow> 'a block) \<Rightarrow> block_pool \<Rightarrow> bool" where
  "fresh_pool t hp bp \<longleftrightarrow> pool_ok bp \<and> length (initialBlockPool bp) * unat (BLOCK_SIZE t) < 2 ^ 63 \<and>
     distinct (pool_left bp) \<and> length (pool_left bp) * unat (BLOCK_SIZE t) < 2 ^ 63 \<and>
     (\<forall>a\<in>set (pool_left bp). length (elements (hp a)) = unat (BLOCK_SIZE t))"

lemma ceil_to_pow_2_power:
  obtains k where "ceil_to_pow_2 x = 2 ^ k" "k \<le> 64" "x \<noteq> 0 \<Longrightarrow> x \<noteq> 1 \<Longrightarrow> 2 ^ k \<le> 2 * (unat x - 1)"
proof (cases "x = 1")
  case True
  then have "ceil_to_pow_2 x = 2 ^ 0" by (simp add: ceil_smears smear_def)
  then show thesis using that True by blast
next
  case False
  then have "x - 1 \<noteq> 0" by simp
  then obtain k where k: "k < 64" "2 ^ k \<le> unat (x - 1)" "ceil_to_pow_2 x = 2 ^ Suc k" using ceil_highest by metis
  have "2 ^ Suc k \<le> 2 * (unat x - 1)" if "x \<noteq> 0" using k(2) that by (simp add: unat_minus_one)
  then show thesis using k that[of "Suc k"] by simp
qed

lemma half_power:
  assumes "1 \<le> k" "k < 64"
  shows "drop_bit 1 (2 ^ k :: size_t) = 2 ^ (k - 1)"
proof (rule word_unat_eq_iff[THEN iffD2])
  have "unat (drop_bit 1 (2 ^ k :: size_t)) = unat (2 ^ k :: size_t) div 2 ^ 1"
    by (simp add: drop_bit_eq_div unat_div)
  then show "unat (drop_bit 1 (2 ^ k :: size_t)) = unat (2 ^ (k - 1) :: size_t)"
    using unat_pow2[of k] unat_pow2[of "k - 1"] assms by (cases k) simp_all
qed

lemma ExplicitProducer_rep:
  assumes t: "traits_ok t" and i: "unat (EXPLICIT_INITIAL_INDEX_SIZE t) * bsz t \<le> 2 ^ 64"
    and pool: "fresh_pool t hp bp"
  shows "\<exists>p. ExplicitProducer t hp bp al = Some p \<and> explicit_rep t p [] 0 0 []"
proof -
  let ?n = "of_nat (length (initialBlockPool bp)) :: size_t"
  have n: "unat ?n * bsz t < 2 ^ 63" using pool by (simp add: fresh_pool_def pool_ok_def unat_of_nat_small)
  have "power_of_two (EXPLICIT_INITIAL_INDEX_SIZE t)" using t by (simp add: traits_ok_def)
  then obtain k where k: "1 \<le> k" "k < 64" "EXPLICIT_INITIAL_INDEX_SIZE t = 2 ^ k" "unat (EXPLICIT_INITIAL_INDEX_SIZE t) = 2 ^ k"
    by (rule power_of_two_exp)
  have s0: "drop_bit 1 (EXPLICIT_INITIAL_INDEX_SIZE t) = 2 ^ (k - 1)" using k half_power by simp
  obtain c where c: "ceil_to_pow_2 ?n = 2 ^ c" "c \<le> 64" "?n \<noteq> 0 \<Longrightarrow> ?n \<noteq> 1 \<Longrightarrow> 2 ^ c \<le> 2 * (unat ?n - 1)"
    using ceil_to_pow_2_power[of ?n] by metis
  let ?size = "if drop_bit 1 (ceil_to_pow_2 ?n) > drop_bit 1 (EXPLICIT_INITIAL_INDEX_SIZE t) then drop_bit 1 (ceil_to_pow_2 ?n)
    else drop_bit 1 (EXPLICIT_INITIAL_INDEX_SIZE t)"
  have "\<exists>s. ?size = 2 ^ s \<and> 2 ^ Suc s * bsz t \<le> 2 ^ 64"
  proof (cases "drop_bit 1 (ceil_to_pow_2 ?n) > drop_bit 1 (EXPLICIT_INITIAL_INDEX_SIZE t)")
    case False
    have "Suc (k - 1) = k" using k(1) by simp
    then show ?thesis using False s0 i k(4) by (intro exI[of _ "k - 1"]) simp
  next
    case True
    have c1: "1 \<le> c \<and> c < 64"
    proof (rule ccontr)
      assume "\<not> (1 \<le> c \<and> c < 64)"
      then have "c = 0 \<or> c = 64" using c(2) by auto
      then have "drop_bit 1 (ceil_to_pow_2 ?n) = 0" using c(1) by auto
      then show False using True by simp
    qed
    then have h: "drop_bit 1 (ceil_to_pow_2 ?n) = 2 ^ (c - 1)" using c(1) half_power by simp
    have "unat (ceil_to_pow_2 ?n) = 2 ^ c" using c1 c(1) unat_pow2[of c] by simp
    moreover have "(1 :: nat) < 2 ^ c" using c1 by (intro one_less_power) auto
    ultimately have "?n \<noteq> 0" "?n \<noteq> 1" by (auto simp: ceil_smears smear_def)
    then have "2 ^ c \<le> 2 * (unat ?n - 1)" by (rule c(3))
    then have "2 ^ c \<le> 2 * unat ?n" by linarith
    then have "2 ^ c * bsz t \<le> 2 * unat ?n * bsz t" by (rule mult_right_mono) simp
    moreover have "2 * unat ?n * bsz t \<le> 2 ^ 64" using n by (simp add: mult.commute)
    ultimately have "2 ^ c * bsz t \<le> 2 ^ 64" by (rule le_trans)
    moreover have "Suc (c - 1) = c" using c1 by simp
    ultimately show ?thesis using True h by (intro exI[of _ "c - 1"]) simp
  qed
  then obtain s where s: "?size = 2 ^ s" "2 ^ Suc s * bsz t \<le> 2 ^ 64" by blast
  let ?p = "\<lparr> tailIndex = 0, headIndex = 0, dequeueOptimisticCount = 0, dequeueOvercommit = 0, tailBlock = None,
                heap = hp, pool = bp, index_allocs = al, blockIndex = [], pr_blockIndexSlotsUsed = 0,
                pr_blockIndexSize = ?size, pr_blockIndexFront = 0 \<rparr>"
  have ix: "index_rep t ?p [] 0" using s unfolding index_rep_def by (intro exI[of _ s]) simp
  have rep: "explicit_rep t ?p [] 0 0 []"
    using ix pool by (simp add: explicit_rep_def counters_rep_def blocks_ok_def ring_links_def blocks_rep_def fresh_pool_def pool_blocks_def Let_def)
  obtain ok p' bi sz f where p': "explicit_new_block_index (of_nat (length ([] :: nat list))) ?p = Some (ok, p')"
      "p' = ?p \<lparr> index_allocs := tl (index_allocs ?p), blockIndex := bi, pr_blockIndexSize := sz, pr_blockIndexFront := f \<rparr>"
      "index_rep t p' [] 0"
    using new_block_index_rep[OF t ix] by auto
  have "explicit_rep t p' [] 0 0 []" using explicit_rep_index_update[OF rep p'(3,2)] .
  then show ?thesis using p'(1) by (auto simp: ExplicitProducer_def Let_def)
qed

section \<open>A first-in first-out queue\<close>

datatype 'a explicit_op = Enqueue AllocationMode ctor 'a | Dequeue bool | Dequeue_Bulk "nat option" size_t

datatype 'a explicit_answer = Enqueued outcome | Dequeue_Result "'a dequeued" | Bulk_Result bool "'a list"

fun explicit_step :: "traits \<Rightarrow> 'a explicit_op \<Rightarrow> 'a explicit_producer \<Rightarrow> ('a explicit_answer \<times> 'a explicit_producer) option" where
  "explicit_step t (Enqueue m c x) p = map_option (\<lambda>(r, p). (Enqueued r, p)) (explicit_enqueue t m c x p)"
| "explicit_step t (Dequeue throws) p = map_option (\<lambda>(r, p). (Dequeue_Result r, p)) (explicit_dequeue t throws p)"
| "explicit_step t (Dequeue_Bulk throwsAt most) p =
     map_option (\<lambda>(threw, xs, p). (Bulk_Result threw xs, p)) (explicit_dequeue_bulk t throwsAt most p)"

primrec explicit_ops :: "traits \<Rightarrow> 'a explicit_op list \<Rightarrow> 'a explicit_producer \<Rightarrow> ('a explicit_answer list \<times> 'a explicit_producer) option" where
  "explicit_ops t [] p = Some ([], p)"
| "explicit_ops t (op # ops) p =
     (case explicit_step t op p of
        None \<Rightarrow> None
      | Some (a, p) \<Rightarrow> map_option (\<lambda>(as, p). (a # as, p)) (explicit_ops t ops p))"

text \<open>
  The specification: \<open>n\<close> elements have been enqueued so far and \<open>q\<close> are in the queue. An enqueue can fail only where a new
  block is needed, and rethrows only what the constructor of the element has thrown.
\<close>

fun fifo_answer :: "nat \<Rightarrow> 'a explicit_op \<Rightarrow> 'a explicit_answer \<Rightarrow> nat \<times> 'a list \<Rightarrow> (nat \<times> 'a list) option" where
  "fifo_answer B (Enqueue m c x) (Enqueued (Return True)) (n, q) = (if c \<noteq> throwing_ctor True then Some (Suc n, q @ [x]) else None)"
| "fifo_answer B (Enqueue m c x) (Enqueued Rethrow) (n, q) = (if c = throwing_ctor True \<and> n mod B \<noteq> 0 then Some (n, q) else None)"
| "fifo_answer B (Enqueue m c x) (Enqueued (Return False)) (n, q) = (if n mod B = 0 then Some (n, q) else None)"
| "fifo_answer B (Dequeue throws) (Dequeue_Result Nothing_Dequeued) (n, q) = (if q = [] then Some (n, []) else None)"
| "fifo_answer B (Dequeue throws) (Dequeue_Result (Dequeued x)) (n, q) =
     (if \<not> throws \<and> q \<noteq> [] \<and> hd q = x then Some (n, tl q) else None)"
| "fifo_answer B (Dequeue throws) (Dequeue_Result (Assignment_Threw x)) (n, q) =
     (if throws \<and> q \<noteq> [] \<and> hd q = x then Some (n, tl q) else None)"
| "fifo_answer B (Dequeue_Bulk throwsAt most) (Bulk_Result threw xs) (n, q) =
     (if (threw, xs) = handed_over throwsAt (take (unat most) q) then Some (n, drop (unat most) q) else None)"
| "fifo_answer B _ _ _ = None"

fun fifo_answers :: "nat \<Rightarrow> 'a explicit_op list \<Rightarrow> 'a explicit_answer list \<Rightarrow> nat \<times> 'a list \<Rightarrow> (nat \<times> 'a list) option" where
  "fifo_answers B [] [] s = Some s"
| "fifo_answers B (op # ops) (a # as) s = (case fifo_answer B op a s of None \<Rightarrow> None | Some s \<Rightarrow> fifo_answers B ops as s)"
| "fifo_answers B _ _ s = None"

text \<open>The next enqueue needs a new block; no constructor throws at that moment.\<close>

definition at_block_start :: "traits \<Rightarrow> ('a, 'z) producer_scheme \<Rightarrow> bool" where
  "at_block_start t p \<longleftrightarrow> tailIndex p AND (BLOCK_SIZE t - 1) = 0"

definition constructs :: "traits \<Rightarrow> 'a explicit_op \<Rightarrow> 'a explicit_producer \<Rightarrow> bool" where
  "constructs t op p \<longleftrightarrow> (case op of Enqueue _ c _ \<Rightarrow> c = throwing_ctor True \<longrightarrow> \<not> at_block_start t p | _ \<Rightarrow> True)"

primrec constructs_all :: "traits \<Rightarrow> 'a explicit_op list \<Rightarrow> 'a explicit_producer \<Rightarrow> bool" where
  "constructs_all t [] p \<longleftrightarrow> True"
| "constructs_all t (op # ops) p \<longleftrightarrow>
     constructs t op p \<and> (case explicit_step t op p of None \<Rightarrow> True | Some (a, p) \<Rightarrow> constructs_all t ops p)"

lemma size_approx_rep:
  assumes "traits_ok t" "explicit_rep t p R K H q"
  shows "unat (size_approx p) = length q"
proof -
  have "headIndex p = of_nat H" "tailIndex p = of_nat (H + length q)" using assms(2) by (auto simp: explicit_rep_def counters_rep_def)
  moreover have "circular_less_than (of_nat H) (of_nat (H + length q)) \<longleftrightarrow> q \<noteq> []"
    using circular_less_than_of_nat(1)[of H "H + length q"] explicit_rep_memory(2)[OF assms] by simp
  ultimately show ?thesis using explicit_rep_memory(2)[OF assms] by (simp add: size_approx_def unat_of_nat_small)
qed

lemma at_block_start_rep:
  assumes "traits_ok t" "explicit_rep t p R K H q"
  shows "at_block_start t p \<longleftrightarrow> (H + length q) mod bsz t = 0"
proof -
  have "tailIndex p = of_nat (H + length q)" using assms(2) by (simp add: explicit_rep_def counters_rep_def)
  then show ?thesis unfolding at_block_start_def by (simp only: at_boundary_iff[OF assms(1)])
qed

text \<open>A constructor that throws within a block leaves the producer as it was.\<close>

lemma explicit_enqueue_throws: "\<not> at_block_start t p \<Longrightarrow> explicit_enqueue t m (throwing_ctor True) x p = Some (Rethrow, p)"
  by (simp add: explicit_enqueue_def at_block_start_def)

lemma explicit_op_rep:
  assumes t: "traits_ok t" and r: "explicit_rep t p R K H q" and op: "constructs t op p"
  shows "\<exists>a p' R' K' H' q'. explicit_step t op p = Some (a, p') \<and> explicit_rep t p' R' K' H' q' \<and>
    fifo_answer (bsz t) op a (H + length q, q) = Some (H' + length q', q')"
proof (cases op)
  case (Enqueue m c x)
  show ?thesis
  proof (cases "c = throwing_ctor True")
  case True
  then have "\<not> at_block_start t p" using op Enqueue by (simp add: constructs_def)
  then have "explicit_step t op p = Some (Enqueued Rethrow, p)" "(H + length q) mod bsz t \<noteq> 0"
    using explicit_enqueue_throws at_block_start_rep[OF t r] True Enqueue by simp_all
  then show ?thesis using r True Enqueue by auto
  next
  case False
  from explicit_enqueue_rep[where m = m and x = x, OF t r this]
  obtain b p' R' K' where b: "explicit_enqueue t m c x p = Some (Return b, p')"
      "explicit_rep t p' R' K' H (if b then q @ [x] else q)" "b \<or> (H + length q) mod bsz t = 0"
    by (elim exE conjE) (rule that)
  let ?q = "if b then q @ [x] else q"
  have "fifo_answer (bsz t) op (Enqueued (Return b)) (H + length q, q) = Some (H + length ?q, ?q)"
    using b(3) Enqueue False by (cases b) auto
  moreover have "explicit_step t op p = Some (Enqueued (Return b), p')" using b(1) Enqueue by simp
  ultimately show ?thesis using b(2) by blast
  qed
next
  case (Dequeue throws)
  obtain d p' H' q' where d: "explicit_dequeue t throws p = Some (d, p')" "explicit_rep t p' R K H' q'"
      "case q of [] \<Rightarrow> d = Nothing_Dequeued \<and> q' = [] \<and> H' = H
       | x # xs \<Rightarrow> d = (if throws then Assignment_Threw x else Dequeued x) \<and> q' = xs \<and> H' = Suc H"
    using explicit_dequeue_rep[OF t r] by blast
  have "fifo_answer (bsz t) op (Dequeue_Result d) (H + length q, q) = Some (H' + length q', q')"
    using d(3) Dequeue by (cases q) (auto split: if_splits)
  moreover have "explicit_step t op p = Some (Dequeue_Result d, p')" using d(1) Dequeue by simp
  ultimately show ?thesis using d(2) by blast
next
  case (Dequeue_Bulk throwsAt most)
  let ?n = "min (length q) (unat most)" and ?xs = "take (min (length q) (unat most)) q"
  obtain p' where d: "explicit_dequeue_bulk t throwsAt most p = Some (fst (handed_over throwsAt ?xs), snd (handed_over throwsAt ?xs), p')"
      "explicit_rep t p' R K (H + ?n) (drop ?n q)"
    using explicit_dequeue_bulk_rep[OF t r refl] by blast
  have e: "?xs = take (unat most) q" "drop ?n q = drop (unat most) q" by (auto simp: min_def)
  let ?a = "Bulk_Result (fst (handed_over throwsAt ?xs)) (snd (handed_over throwsAt ?xs))"
  have "fifo_answer (bsz t) op ?a (H + length q, q) = Some (H + ?n + length (drop ?n q), drop ?n q)"
    using Dequeue_Bulk e by simp
  moreover have "explicit_step t op p = Some (?a, p')" using d(1) Dequeue_Bulk by simp
  ultimately show ?thesis using d(2) by blast
qed

lemma explicit_ops_rep:
  assumes t: "traits_ok t" and r: "explicit_rep t p R K H q" and ops: "constructs_all t ops p"
  shows "\<exists>as p' R' K' H' q'. explicit_ops t ops p = Some (as, p') \<and> explicit_rep t p' R' K' H' q' \<and>
    fifo_answers (bsz t) ops as (H + length q, q) = Some (H' + length q', q')"
  using r ops
proof (induction ops arbitrary: p R K H q)
  case (Cons op ops)
  obtain a p1 R1 K1 H1 q1 where s: "explicit_step t op p = Some (a, p1)" "explicit_rep t p1 R1 K1 H1 q1"
      "fifo_answer (bsz t) op a (H + length q, q) = Some (H1 + length q1, q1)"
    using explicit_op_rep[OF t Cons.prems(1), of op] Cons.prems(2) by auto
  obtain as p' R' K' H' q' where "explicit_ops t ops p1 = Some (as, p')" "explicit_rep t p' R' K' H' q'"
      "fifo_answers (bsz t) ops as (H1 + length q1, q1) = Some (H' + length q', q')"
    using Cons.IH[OF s(2)] Cons.prems(2) s(1) by auto
  then show ?case using s
    by (intro exI[of _ "a # as"] exI[of _ p'] exI[of _ R'] exI[of _ K'] exI[of _ H'] exI[of _ q']) simp
qed auto

text \<open>
  C3. The sub-queue of an explicit producer is a first-in first-out queue: constructed with any pool of distinct
  blocks, any sequence of complete enqueues of one element and of dequeues, of one element or in bulk, one at a time, in which no constructor
  throws just as a new block is started, runs without a failed
  assertion, a null pointer or the use of an element that is not constructed; every dequeue gives the oldest
  element, or the oldest ones as many as are asked for and there, or reports an empty queue rightly; an enqueue can fail only when a new block is needed,
  and leaves the queue as it was when it fails or its constructor throws; \<open>size_approx\<close> is the number of the
  elements left; and the destructor then destroys exactly these, in order.  Bulk enqueues are not among the operations.
\<close>

theorem explicit_producer_is_fifo:
  assumes "traits_ok t" "unat (EXPLICIT_INITIAL_INDEX_SIZE t) * unat (BLOCK_SIZE t) \<le> 2 ^ 64"
    "fresh_pool t hp bp" "\<forall>p0. ExplicitProducer t hp bp al = Some p0 \<longrightarrow> constructs_all t ops p0"
  shows "\<exists>p0 as p q m. ExplicitProducer t hp bp al = Some p0 \<and> explicit_ops t ops p0 = Some (as, p) \<and>
    fifo_answers (unat (BLOCK_SIZE t)) ops as (0, []) = Some (m, q) \<and> unat (size_approx p) = length q \<and>
    (\<forall>fuel>m. \<exists>deleted freed. explicit_destroy fuel t p = Some (q, deleted, freed) \<and> distinct (deleted @ freed) \<and>
       list_all (\<lambda>a. dynamicallyAllocated (heap p a)) deleted \<and> list_all (\<lambda>a. \<not> dynamicallyAllocated (heap p a)) freed)"
proof -
  note t = assms(1)
  obtain p0 where p0: "ExplicitProducer t hp bp al = Some p0" "explicit_rep t p0 [] 0 0 []"
    using ExplicitProducer_rep[OF assms(1-3)] by blast
  obtain as p R K H q where p: "explicit_ops t ops p0 = Some (as, p)" "explicit_rep t p R K H q"
      "fifo_answers (bsz t) ops as (0, []) = Some (H + length q, q)"
    using explicit_ops_rep[OF t p0(2), of ops] assms(4) p0(1) by auto
  have R: "length R < fuel" if "H + length q < fuel" for fuel
  proof (cases "R = []")
    case False
    have "(length R - 1) * 1 \<le> (K + length R - 1) * bsz t" using BLOCK_SIZE_pos[OF t] False by (intro mult_le_mono) auto
    then show ?thesis using p(2) False that by (auto simp: explicit_rep_def)
  qed (use that in simp)
  have d: "distinct (last R # butlast R)" if "R \<noteq> []"
    using that p(2) by (metis (no_types, lifting) append_butlast_last_id blocks_ok_def distinct.simps(2) distinct1_rotate
        distinct_append explicit_rep_def not_distinct_conv_prefix rotate1.simps(2))
  have "\<exists>deleted freed. explicit_destroy fuel t p = Some (q, deleted, freed) \<and> distinct (deleted @ freed) \<and>
      list_all (\<lambda>a. dynamicallyAllocated (heap p a)) deleted \<and> list_all (\<lambda>a. \<not> dynamicallyAllocated (heap p a)) freed"
    if "H + length q < fuel" for fuel
    using explicit_destroy_rep[OF t p(2) R[OF that]] d
    by (auto simp: list_all_iff intro!: distinct_filter)
  moreover have "unat (size_approx p) = length q" by (rule size_approx_rep[OF t p(2)])
  ultimately show ?thesis using p0(1) p(1,3) by blast
qed

text \<open>A queue with blocks of two elements, and what four enqueues, one of them with a constructor that throws, and three dequeues give.\<close>

definition small_traits :: traits where
  "small_traits =
     \<lparr> BLOCK_SIZE = 2, EXPLICIT_BLOCK_EMPTY_COUNTER_THRESHOLD = 2, EXPLICIT_INITIAL_INDEX_SIZE = 2,
       IMPLICIT_INITIAL_INDEX_SIZE = 2, TRAITS_MAX_SUBQUEUE_SIZE = const_numeric_max \<rparr>"

definition small_producer :: "nat option list \<Rightarrow> nat explicit_producer option" where
  "small_producer ms = ExplicitProducer small_traits (\<lambda>_. new_block small_traits)
     (populate_initial_block_list (Some [5, 6]) ms) (replicate 4 True)"

abbreviation enqueue_ok :: "nat \<Rightarrow> nat explicit_op" where
  "enqueue_ok x \<equiv> Enqueue CanAlloc noexcept_ctor x"

lemma explicit_producer_is_fifo_witness:
  "\<exists>p0 as p q m. small_producer [Some 7] = Some p0 \<and>
    explicit_ops small_traits [enqueue_ok 1, enqueue_ok 2, enqueue_ok 3, Enqueue CanAlloc (throwing_ctor True) 4, Dequeue False, Dequeue True, Dequeue_Bulk None 5] p0 = Some (as, p) \<and>
    fifo_answers 2 [enqueue_ok 1, enqueue_ok 2, enqueue_ok 3, Enqueue CanAlloc (throwing_ctor True) 4, Dequeue False, Dequeue True, Dequeue_Bulk None 5] as (0, []) = Some (m, q) \<and>
    unat (size_approx p) = length q"
proof -
  have a: "traits_ok small_traits" "unat (BLOCK_SIZE small_traits) = 2" "unat (EXPLICIT_INITIAL_INDEX_SIZE small_traits) = 2" by code_simp+
  have f: "fresh_pool small_traits (\<lambda>_. new_block small_traits :: nat block) (populate_initial_block_list (Some [5, 6]) [Some 7])"
    by (simp add: fresh_pool_def pool_ok_def pool_left_def populate_initial_block_list_def small_traits_def new_block_def map_filter_simps)
  have c: "\<forall>p0. small_producer [Some 7] = Some p0 \<longrightarrow> constructs_all small_traits [enqueue_ok 1, enqueue_ok 2, enqueue_ok 3, Enqueue CanAlloc (throwing_ctor True) 4, Dequeue False, Dequeue True, Dequeue_Bulk None 5] p0"
  proof -
    have "map_option (constructs_all small_traits [enqueue_ok 1, enqueue_ok 2, enqueue_ok 3, Enqueue CanAlloc (throwing_ctor True) 4,
        Dequeue False, Dequeue True, Dequeue_Bulk None 5]) (small_producer [Some 7]) = Some True" by code_simp
    then show ?thesis by auto
  qed
  show ?thesis
    using explicit_producer_is_fifo[OF a(1) _ f c[unfolded small_producer_def]] a(2-) unfolding small_producer_def by auto
qed

section \<open>Constructors that throw\<close>

text \<open>
  When the constructor of an element throws just as \<open>enqueue\<close> has started a new block, the block stays in
  the ring with its elements marked as not yet dequeued: with the block before it filled, the destructor
  of the producer destroys elements that were never constructed.
\<close>

theorem throw_at_block_start_breaks_destructor:
  "\<exists>p0 p. small_producer [Some 7] = Some p0 \<and>
    explicit_ops small_traits [enqueue_ok 1, enqueue_ok 2, Enqueue CanAlloc (throwing_ctor True) 3] p0 =
      Some ([Enqueued (Return True), Enqueued (Return True), Enqueued Rethrow], p) \<and>
    size_approx p = 2 \<and> explicit_destroy 10 small_traits p = None"
proof -
  have "map_option (\<lambda>(as, p). (as, size_approx p, explicit_destroy 10 small_traits p))
      (Option.bind (small_producer [Some 7])
        (explicit_ops small_traits [enqueue_ok 1, enqueue_ok 2, Enqueue CanAlloc (throwing_ctor True) 3])) =
    Some ([Enqueued (Return True), Enqueued (Return True), Enqueued Rethrow], 2, None)" by code_simp
  then show ?thesis by (auto simp: bind_eq_Some_conv)
qed

text \<open>
  An example, with a small block and index: a bulk enqueue that reuses an empty block, enlarges the block index and then fails leaves the entries of
  the reused blocks in the new index. The next enqueue succeeds, but the dequeue after it looks for its element in the
  wrong block and uses one that is not constructed.
\<close>

theorem failed_bulk_enqueue_corrupts_index:
  "\<exists>p0 as p1 p2 p3. small_producer [None] = Some p0 \<and>
    explicit_ops small_traits (map enqueue_ok [0, 1, 2, 3] @ replicate 3 (Dequeue False)) p0 = Some (as, p1) \<and>
    explicit_enqueue_bulk small_traits CanAlloc True False (map (\<lambda>x. (x, False)) [4, 5, 6, 7]) p1 = Some (Return False, p2) \<and>
    explicit_enqueue small_traits CanAlloc noexcept_ctor 8 p2 = Some (Return True, p3) \<and> size_approx p3 = 2 \<and>
    explicit_dequeue small_traits False p3 = None"
proof -
  have "map_option (\<lambda>(r, p). (r, map_option (\<lambda>(r, p). (r, size_approx p, map_option fst (explicit_dequeue small_traits False p)))
           (explicit_enqueue small_traits CanAlloc noexcept_ctor 8 p)))
      (Option.bind (small_producer [None]) (\<lambda>p.
       Option.bind (explicit_ops small_traits (map enqueue_ok [0, 1, 2, 3] @ replicate 3 (Dequeue False)) p) (\<lambda>(as, p).
        explicit_enqueue_bulk small_traits CanAlloc True False (map (\<lambda>x. (x, False)) [4, 5, 6, 7]) p))) =
    Some (Return False, Some (Return True, 2, None))" by code_simp
  then show ?thesis by (auto simp: bind_eq_Some_conv)
qed

end
