(* ===== verification/Cq_Implicit_Properties.thy ===== *)
theory Cq_Implicit_Properties
  imports Cq_Implicit_Bulk Cq_Explicit_Properties
begin

text \<open>
  The property of \<open>ImplicitProducer\<close>: from the construction on, any sequence of operations answers as a first-in first-out
  queue, and the destructor returns every block to the pool.
\<close>

section \<open>Construction, and the approximate size\<close>

lemma ImplicitProducer_rep:
  assumes t: "traits_ok t" and i: "unat (IMPLICIT_INITIAL_INDEX_SIZE t) * bsz t \<le> 2 ^ 64" and pool: "fresh_pool t hp bp"
  shows "\<exists>p. ImplicitProducer t hp bp al = Some p \<and> implicit_rep t (mset (pool_left bp)) p [] 0 []"
proof -
  let ?p = "\<lparr> tailIndex = 0, headIndex = 0, dequeueOptimisticCount = 0, dequeueOvercommit = 0, tailBlock = None,
         heap = hp, pool = bp, index_allocs = al, nextBlockIndexCapacity = IMPLICIT_INITIAL_INDEX_SIZE t,
         implicitIndex = [], index_entries = [] \<rparr>"
  obtain ok p' where p': "implicit_new_block_index ?p = Some (ok, p')" "implicit_index_rep t p' [] 0" "index_frame ?p p'"
    using implicit_new_block_index_first[OF t _ _ _ i, of ?p] by auto
  have "blocks_store t (mset (pool_left bp)) ?p [] 0 []"
    using pool by (simp add: blocks_store_def counters_rep_def blocks_ok_def blocks_rep_def fresh_pool_def pool_blocks_def)
  then have "blocks_store t (mset (pool_left bp)) p' [] 0 []" by (rule blocks_store_frame[OF _ p'(3)])
  then have "implicit_rep t (mset (pool_left bp)) p' [] 0 []" using p'(2) by (simp add: implicit_rep_def implicit_blocks_def)
  then show ?thesis using p'(1) by (simp add: ImplicitProducer_def)
qed

lemma implicit_block_size:
  assumes "traits_ok t" "unat (IMPLICIT_INITIAL_INDEX_SIZE t) * bsz t < 2 ^ 64"
  shows "bsz t < 2 ^ 63"
proof -
  have "power_of_two (IMPLICIT_INITIAL_INDEX_SIZE t)" using assms(1) by (simp add: traits_ok_def)
  then have "2 \<le> unat (IMPLICIT_INITIAL_INDEX_SIZE t)" by (simp add: power_of_two_def word_less_nat_alt)
  then have "2 * bsz t \<le> unat (IMPLICIT_INITIAL_INDEX_SIZE t) * bsz t" by (rule mult_right_mono) simp
  then have "2 * bsz t < 2 ^ 64" using assms(2) by (rule le_less_trans)
  then show ?thesis by simp
qed

lemma implicit_size_approx:
  assumes "traits_ok t" "implicit_rep t M p R H q"
  shows "unat (size_approx p) = length q"
proof -
  note b = implicit_repD(1)[OF assms(2)]
  note d = implicit_blocksD(2,3)[OF b] and l = implicit_memory(3)[OF assms(1) b]
  have "circular_less_than (of_nat H) (of_nat (H + length q)) \<longleftrightarrow> q \<noteq> []"
    using circular_less_than_of_nat(1)[of H "H + length q"] l by simp
  then show ?thesis using d l by (simp add: size_approx_def unat_of_nat_small)
qed


section \<open>A first-in first-out queue\<close>

text \<open>The operations of an explicit producer, and bulk enqueues of elements, each with whether its constructor throws.\<close>

datatype 'a implicit_op = Single "'a explicit_op" | Enqueue_Bulk AllocationMode bool "('a \<times> bool) list"

fun implicit_step :: "traits \<Rightarrow> 'a implicit_op \<Rightarrow> 'a implicit_producer \<Rightarrow> ('a explicit_answer \<times> 'a implicit_producer) option" where
  "implicit_step t (Single (Enqueue m c x)) p = map_option (\<lambda>(r, p). (Enqueued r, p)) (implicit_enqueue t m c x p)"
| "implicit_step t (Single (Dequeue throws)) p = map_option (\<lambda>(r, p). (Dequeue_Result r, p)) (implicit_dequeue t throws p)"
| "implicit_step t (Single (Dequeue_Bulk throwsAt most)) p =
     map_option (\<lambda>(threw, xs, p). (Bulk_Result threw xs, p)) (implicit_dequeue_bulk t throwsAt most p)"
| "implicit_step t (Enqueue_Bulk m triviallyDestructible items) p =
     map_option (\<lambda>(r, p). (Enqueued r, p)) (implicit_enqueue_bulk t m triviallyDestructible items p)"

primrec implicit_ops :: "traits \<Rightarrow> 'a implicit_op list \<Rightarrow> 'a implicit_producer \<Rightarrow> ('a explicit_answer list \<times> 'a implicit_producer) option" where
  "implicit_ops t [] p = Some ([], p)"
| "implicit_ops t (op # ops) p =
     (case implicit_step t op p of
        None \<Rightarrow> None
      | Some (a, p) \<Rightarrow> map_option (\<lambda>(as, p). (a # as, p)) (implicit_ops t ops p))"

text \<open>
  The specification: \<open>n\<close> elements have been enqueued so far and \<open>q\<close> are in the queue. An enqueue, of one element or in bulk, that rethrows
  or fails leaves the queue as it was; it rethrows only if a constructor throws, and fails only if a new block is needed.
\<close>

fun safe_answer :: "nat \<Rightarrow> 'a implicit_op \<Rightarrow> 'a explicit_answer \<Rightarrow> nat \<times> 'a list \<Rightarrow> (nat \<times> 'a list) option" where
  "safe_answer B (Single (Enqueue m c x)) (Enqueued Rethrow) s = (if c = throwing_ctor True then Some s else None)"
| "safe_answer B (Single (Enqueue m c x)) (Enqueued (Return True)) s =
     (if c = throwing_ctor True then None else fifo_answer B (Enqueue m c x) (Enqueued (Return True)) s)"
| "safe_answer B (Single op) a s = fifo_answer B op a s"
| "safe_answer B (Enqueue_Bulk m triviallyDestructible items) (Enqueued out) (n, q) =
     (if \<not> bulk_outcome B n items out then None
      else Some (if out = Return True then (n + length items, q @ map fst items) else (n, q)))"
| "safe_answer B (Enqueue_Bulk m triviallyDestructible items) _ s = None"

fun safe_answers :: "nat \<Rightarrow> 'a implicit_op list \<Rightarrow> 'a explicit_answer list \<Rightarrow> nat \<times> 'a list \<Rightarrow> (nat \<times> 'a list) option" where
  "safe_answers B [] [] s = Some s"
| "safe_answers B (op # ops) (a # as) s = (case safe_answer B op a s of None \<Rightarrow> None | Some s \<Rightarrow> safe_answers B ops as s)"
| "safe_answers B _ _ s = None"

definition fits :: "'a implicit_op \<Rightarrow> bool" where
  "fits op \<longleftrightarrow> (case op of Enqueue_Bulk m triviallyDestructible items \<Rightarrow> length items < 2 ^ 63 | _ \<Rightarrow> True)"

lemma implicit_op_rep:
  assumes t: "traits_ok t" and B63: "bsz t < 2 ^ 63" and r: "implicit_rep t M p R H q" and op: "fits op"
  shows "\<exists>a p' R' H' q'. implicit_step t op p = Some (a, p') \<and> implicit_rep t M p' R' H' q' \<and>
    safe_answer (bsz t) op a (H + length q, q) = Some (H' + length q', q')"
proof -
  consider (enq) m c x where "op = Single (Enqueue m c x)" | (deq) throws where "op = Single (Dequeue throws)"
    | (deq_bulk) throwsAt most where "op = Single (Dequeue_Bulk throwsAt most)" | (enq_bulk) m td items where "op = Enqueue_Bulk m td items"
    by (metis explicit_op.exhaust implicit_op.exhaust)
  then show ?thesis
  proof cases
    case enq
    from implicit_enqueue_rep[where m = m and x = x and c = c, OF t r]
    obtain out p' R' where b: "implicit_enqueue t m c x p = Some (out, p')" "enqueue_outcome c ((H + length q) mod bsz t = 0) out"
        "implicit_rep t M p' R' H (if out = Return True then q @ [x] else q)"
      by (elim exE conjE) (rule that)
    let ?q = "if out = Return True then q @ [x] else q"
    have "safe_answer (bsz t) op (Enqueued out) (H + length q, q) = Some (H + length ?q, ?q)"
    proof (cases out)
      case (Return ok)
      then show ?thesis using b(2) enq by (cases ok) (auto simp: enqueue_outcome_def)
    qed (use b(2) enq in \<open>simp add: enqueue_outcome_def\<close>)
    moreover have "implicit_step t op p = Some (Enqueued out, p')" using b(1) enq by simp
    ultimately show ?thesis using b(3) by blast
  next
    case deq
    obtain d p' R' H' q' where d: "implicit_dequeue t throws p = Some (d, p')" "implicit_rep t M p' R' H' q'"
        "case q of [] \<Rightarrow> d = Nothing_Dequeued \<and> q' = [] \<and> H' = H
         | x # xs \<Rightarrow> d = (if throws then Assignment_Threw x else Dequeued x) \<and> q' = xs \<and> H' = Suc H"
      using implicit_dequeue_rep[OF t r] by blast
    have "safe_answer (bsz t) op (Dequeue_Result d) (H + length q, q) = Some (H' + length q', q')"
      using d(3) deq by (cases q) (auto split: if_splits)
    moreover have "implicit_step t op p = Some (Dequeue_Result d, p')" using d(1) deq by simp
    ultimately show ?thesis using d(2) by blast
  next
    case deq_bulk
    let ?n = "min (length q) (unat most)" and ?xs = "take (min (length q) (unat most)) q"
    obtain p' R' where d: "implicit_dequeue_bulk t throwsAt most p = Some (fst (handed_over throwsAt ?xs), snd (handed_over throwsAt ?xs), p')"
        "implicit_rep t M p' R' (H + ?n) (drop ?n q)"
      using implicit_dequeue_bulk_rep[OF t r refl] by blast
    have e: "?xs = take (unat most) q" "drop ?n q = drop (unat most) q" by (auto simp: min_def)
    let ?a = "Bulk_Result (fst (handed_over throwsAt ?xs)) (snd (handed_over throwsAt ?xs))"
    have "safe_answer (bsz t) op ?a (H + length q, q) = Some (H + ?n + length (drop ?n q), drop ?n q)"
      using deq_bulk e by simp
    moreover have "implicit_step t op p = Some (?a, p')" using d(1) deq_bulk by simp
    ultimately show ?thesis using d(2) by blast
  next
    case enq_bulk
    have l: "length items < 2 ^ 63" using op enq_bulk by (simp add: fits_def)
    from implicit_enqueue_bulk_rep[where m = m and td = td, OF t B63 r l]
    obtain out p' R' where b: "implicit_enqueue_bulk t m td items p = Some (out, p')" "bulk_outcome (bsz t) (H + length q) items out"
        "implicit_rep t M p' R' H (if out = Return True then q @ map fst items else q)"
      by (elim exE conjE) (rule that)
    let ?q = "if out = Return True then q @ map fst items else q"
    have "safe_answer (bsz t) op (Enqueued out) (H + length q, q) = Some (H + length ?q, ?q)" using b(2) enq_bulk by simp
    moreover have "implicit_step t op p = Some (Enqueued out, p')" using b(1) enq_bulk by simp
    ultimately show ?thesis using b(3) by blast
  qed
qed

lemma implicit_ops_rep:
  assumes t: "traits_ok t" and B63: "bsz t < 2 ^ 63" and r: "implicit_rep t M p R H q" and ops: "list_all fits ops"
  shows "\<exists>as p' R' H' q'. implicit_ops t ops p = Some (as, p') \<and> implicit_rep t M p' R' H' q' \<and>
    safe_answers (bsz t) ops as (H + length q, q) = Some (H' + length q', q')"
  using r ops
proof (induction ops arbitrary: p R H q)
  case (Cons op ops)
  obtain a p1 R1 H1 q1 where s: "implicit_step t op p = Some (a, p1)" "implicit_rep t M p1 R1 H1 q1"
      "safe_answer (bsz t) op a (H + length q, q) = Some (H1 + length q1, q1)"
    using implicit_op_rep[OF t B63 Cons.prems(1), of op] Cons.prems(2) by auto
  obtain as p' R' H' q' where "implicit_ops t ops p1 = Some (as, p')" "implicit_rep t M p' R' H' q'"
      "safe_answers (bsz t) ops as (H1 + length q1, q1) = Some (H' + length q', q')"
    using Cons.IH[OF s(2)] Cons.prems(2) by auto
  then show ?case using s
    by (intro exI[of _ "a # as"] exI[of _ p'] exI[of _ R'] exI[of _ H'] exI[of _ q']) simp
qed auto

text \<open>
  C5. The sub-queue of an implicit producer is a first-in first-out queue: constructed with any pool of distinct blocks,
  any sequence of complete enqueues and dequeues, of one element or in bulk, one at a time, runs without a failed assertion, a null pointer or the use of an
  element that is not constructed, also when allocations fail and constructors or assignments throw; every dequeue gives the oldest elements,
  as many as are asked for and there; an enqueue fails only when a new block is needed, and one that fails or whose constructor throws
  leaves the queue as it was, in bulk too; \<open>size_approx\<close> is the number of the elements left; the destructor then destroys exactly these, in
  order, and returns every block to the pool, once.
\<close>

theorem implicit_producer_is_fifo:
  assumes "traits_ok t" "unat (IMPLICIT_INITIAL_INDEX_SIZE t) * unat (BLOCK_SIZE t) < 2 ^ 64" "fresh_pool t hp bp" "list_all fits ops"
  shows "\<exists>p0 as p q m. ImplicitProducer t hp bp al = Some p0 \<and> implicit_ops t ops p0 = Some (as, p) \<and>
    safe_answers (unat (BLOCK_SIZE t)) ops as (0, []) = Some (m, q) \<and> unat (size_approx p) = length q \<and>
    (\<forall>fuel\<ge>m. \<exists>bp'. implicit_destroy fuel t p = Some (q, bp') \<and> mset (pool_left bp') = mset (pool_left bp))"
proof -
  note t = assms(1)
  have B63: "bsz t < 2 ^ 63" by (rule implicit_block_size[OF assms(1,2)])
  obtain p0 where p0: "ImplicitProducer t hp bp al = Some p0" "implicit_rep t (mset (pool_left bp)) p0 [] 0 []"
    using ImplicitProducer_rep[OF t less_imp_le[OF assms(2)] assms(3)] by blast
  obtain as p R H q where p: "implicit_ops t ops p0 = Some (as, p)" "implicit_rep t (mset (pool_left bp)) p R H q"
      "safe_answers (bsz t) ops as (0, []) = Some (H + length q, q)"
    using implicit_ops_rep[OF t B63 p0(2) assms(4)] by auto
  have "\<exists>bp'. implicit_destroy fuel t p = Some (q, bp') \<and> mset (pool_left bp') = mset (pool_left bp)" if "H + length q \<le> fuel" for fuel
    using that by (intro implicit_destroy_rep[OF t p(2)]) simp
  then show ?thesis using p0(1) p(1,3) implicit_size_approx[OF t p(2)] by blast
qed

definition example_ops :: "nat implicit_op list" where
  "example_ops = [Single (enqueue_ok 1), Enqueue_Bulk CanAlloc False [(2, False), (3, False), (4, False)],
     Single (Enqueue CanAlloc (throwing_ctor True) 9), Enqueue_Bulk CanAlloc False [(5, False), (6, False), (7, True)],
     Enqueue_Bulk CanAlloc False (map (\<lambda>x. (x, False)) [5..<12]), Single (Dequeue False), Single (Dequeue_Bulk None 2)]"

lemma implicit_producer_is_fifo_witness:
  "\<exists>p0 as p q m bp'. ImplicitProducer small_traits (\<lambda>_. new_block small_traits) (populate_initial_block_list (Some [5, 6]) [Some 7]) [True] = Some p0 \<and>
    implicit_ops small_traits example_ops p0 = Some (as, p) \<and> safe_answers 2 example_ops as (0, []) = Some (m, q) \<and>
    unat (size_approx p) = length q \<and> implicit_destroy m small_traits p = Some (q, bp') \<and> mset (pool_left bp') = {# 5, 6, 7 #}"
proof -
  have a: "traits_ok small_traits" "unat (BLOCK_SIZE small_traits) = 2" "unat (IMPLICIT_INITIAL_INDEX_SIZE small_traits) = 2" by code_simp+
  have f: "fresh_pool small_traits (\<lambda>_. new_block small_traits :: nat block) (populate_initial_block_list (Some [5, 6]) [Some 7])"
    by (simp add: fresh_pool_def pool_ok_def pool_left_def populate_initial_block_list_def small_traits_def new_block_def map_filter_simps)
  have l: "mset (pool_left (populate_initial_block_list (Some [5, 6]) [Some 7])) = {# 5, 6, 7 #}"
    by (simp add: pool_left_def populate_initial_block_list_def map_filter_simps)
  have o: "list_all fits example_ops" by (simp add: example_ops_def fits_def)
  show ?thesis
    using implicit_producer_is_fifo[OF a(1) _ f o, of "[True]"] a(2-) unfolding l by auto
qed

end
