(* ===== verification/Cq_Queue_Properties.thy ===== *)
theory Cq_Queue_Properties
  imports Cq_Queue Cq_Implicit_Properties
begin

text \<open>
  The queue with explicit and implicit producers: the laws of the sub-queue interfaces hold for both kinds, so
  in every sequence of enqueues of one element, of bulk enqueues without a token and of dequeues of all kinds, each dequeue takes exactly what is
  there. Bulk enqueues with a token are not among the calls: they are not safe when they fail (\<open>Cq_Explicit_Properties\<close>). Each
  producer has its own supply of blocks: the ones that \<open>requisition_block\<close> gives it.
\<close>

section \<open>Producers as sub-queues\<close>

text \<open>\<open>ProducerBase\<close> dispatches on \<open>isExplicit\<close>; the assignment to the caller's variable does not throw.\<close>

datatype 'a any_producer = Explicit_Producer "'a explicit_producer" | Implicit_Producer "'a implicit_producer"

definition new_producer :: "traits \<Rightarrow> bool \<times> (nat \<Rightarrow> 'a block) \<times> block_pool \<times> bool list \<Rightarrow> 'a any_producer option" where
  "new_producer t mem =
     (case mem of (expl, hp, bp, al) \<Rightarrow>
        if expl then map_option Explicit_Producer (ExplicitProducer t hp bp al)
        else map_option Implicit_Producer (ImplicitProducer t hp bp al))"

definition dequeued_element :: "'a dequeued \<Rightarrow> 'a option" where
  "dequeued_element d = (case d of Dequeued x \<Rightarrow> Some x | _ \<Rightarrow> None)"

fun producer_dequeue :: "traits \<Rightarrow> 'a any_producer \<Rightarrow> ('a option \<times> 'a any_producer) option" where
  "producer_dequeue t (Explicit_Producer p) = map_option (\<lambda>(d, p). (dequeued_element d, Explicit_Producer p)) (explicit_dequeue t False p)"
| "producer_dequeue t (Implicit_Producer p) = map_option (\<lambda>(d, p). (dequeued_element d, Implicit_Producer p)) (implicit_dequeue t False p)"

fun producer_dequeue_bulk :: "traits \<Rightarrow> size_t \<Rightarrow> 'a any_producer \<Rightarrow> ('a list \<times> 'a any_producer) option" where
  "producer_dequeue_bulk t most (Explicit_Producer p) = map_option (\<lambda>(_, xs, p). (xs, Explicit_Producer p)) (explicit_dequeue_bulk t None most p)"
| "producer_dequeue_bulk t most (Implicit_Producer p) = map_option (\<lambda>(_, xs, p). (xs, Implicit_Producer p)) (implicit_dequeue_bulk t None most p)"

fun producer_size_approx :: "'a any_producer \<Rightarrow> size_t" where
  "producer_size_approx (Explicit_Producer p) = size_approx p"
| "producer_size_approx (Implicit_Producer p) = size_approx p"

fun sub_queue_holds :: "traits \<Rightarrow> 'a any_producer \<Rightarrow> 'a list \<Rightarrow> bool" where
  "sub_queue_holds t (Explicit_Producer p) q \<longleftrightarrow> traits_ok t \<and> (\<exists>R K H. explicit_rep t p R K H q)"
| "sub_queue_holds t (Implicit_Producer p) q \<longleftrightarrow> traits_ok t \<and> bsz t < 2 ^ 63 \<and> (\<exists>M R H. implicit_rep t M p R H q)"

lemma holds_explicit: "traits_ok t \<Longrightarrow> explicit_rep t p R K H q \<Longrightarrow> sub_queue_holds t (Explicit_Producer p) q"
  unfolding sub_queue_holds.simps by blast

lemma holds_implicit: "traits_ok t \<Longrightarrow> bsz t < 2 ^ 63 \<Longrightarrow> implicit_rep t M p R H q \<Longrightarrow> sub_queue_holds t (Implicit_Producer p) q"
  unfolding sub_queue_holds.simps by blast

lemma producer_dequeue_holds:
  assumes "sub_queue_holds t p q"
  shows "\<exists>p'. producer_dequeue t p = Some (case q of [] \<Rightarrow> None | x # _ \<Rightarrow> Some x, p') \<and> sub_queue_holds t p' (drop 1 q)"
proof (cases p)
  case (Explicit_Producer e)
  then obtain R K H where t: "traits_ok t" and r: "explicit_rep t e R K H q" using assms by auto
  obtain d e' H' q' where d: "explicit_dequeue t False e = Some (d, e')" "explicit_rep t e' R K H' q'"
      "case q of [] \<Rightarrow> d = Nothing_Dequeued \<and> q' = [] \<and> H' = H
       | x # xs \<Rightarrow> d = (if False then Assignment_Threw x else Dequeued x) \<and> q' = xs \<and> H' = Suc H"
    using explicit_dequeue_rep[where throws = False, OF t r] by blast
  have "sub_queue_holds t (Explicit_Producer e') (drop 1 q)" using t d(2,3) by (cases q) auto
  then show ?thesis using d(1,3) Explicit_Producer by (cases q) (auto simp: dequeued_element_def)
next
  case (Implicit_Producer e)
  then obtain M R H where t: "traits_ok t" "bsz t < 2 ^ 63" and r: "implicit_rep t M e R H q" using assms by auto
  obtain d e' R' H' q' where d: "implicit_dequeue t False e = Some (d, e')" "implicit_rep t M e' R' H' q'"
      "case q of [] \<Rightarrow> d = Nothing_Dequeued \<and> q' = [] \<and> H' = H
       | x # xs \<Rightarrow> d = (if False then Assignment_Threw x else Dequeued x) \<and> q' = xs \<and> H' = Suc H"
    using implicit_dequeue_rep[where throws = False, OF t(1) r] by blast
  have "sub_queue_holds t (Implicit_Producer e') (drop 1 q)" using t d(2,3) by (cases q) auto
  then show ?thesis using d(1,3) Implicit_Producer by (cases q) (auto simp: dequeued_element_def)
qed

lemma producer_dequeue_bulk_holds:
  assumes "sub_queue_holds t p xs"
  shows "\<exists>p'. producer_dequeue_bulk t m p = Some (take (unat m) xs, p') \<and> sub_queue_holds t p' (drop (unat m) xs)"
proof -
  let ?n = "min (length xs) (unat m)"
  have e: "take ?n xs = take (unat m) xs" "drop ?n xs = drop (unat m) xs" by (auto simp: min_def)
  show ?thesis
  proof (cases p)
    case (Explicit_Producer pe)
    then obtain R K H where t: "traits_ok t" and r: "explicit_rep t pe R K H xs" using assms by auto
    obtain p' where "explicit_dequeue_bulk t None m pe = Some (False, take (unat m) xs, p')" "explicit_rep t p' R K (H + ?n) (drop (unat m) xs)"
      using explicit_dequeue_bulk_rep[where throwsAt = None, OF t r refl, of m] unfolding e by (auto simp: handed_over_def)
    then show ?thesis using holds_explicit[OF t] Explicit_Producer by (intro exI[of _ "Explicit_Producer p'"]) simp
  next
    case (Implicit_Producer pe)
    then obtain M R H where t: "traits_ok t" "bsz t < 2 ^ 63" and r: "implicit_rep t M pe R H xs" using assms by auto
    obtain p' R' where "implicit_dequeue_bulk t None m pe = Some (False, take (unat m) xs, p')" "implicit_rep t M p' R' (H + ?n) (drop (unat m) xs)"
      using implicit_dequeue_bulk_rep[where throwsAt = None, OF t(1) r refl, of m] unfolding e by (auto simp: handed_over_def)
    then show ?thesis using holds_implicit[OF t] Implicit_Producer by (intro exI[of _ "Implicit_Producer p'"]) simp
  qed
qed

lemma producer_size_approx_holds: "sub_queue_holds t p xs \<Longrightarrow> unat (producer_size_approx p) = length xs"
  using size_approx_rep implicit_size_approx by (cases p) auto

interpretation producers: bulk_sub_queue "producer_dequeue t" producer_size_approx "sub_queue_holds t" "producer_dequeue_bulk t" for t
proof unfold_locales
  fix p :: "'a any_producer" and x xs
  show "sub_queue_holds t p [] \<Longrightarrow> \<exists>p'. producer_dequeue t p = Some (None, p') \<and> sub_queue_holds t p' []"
    using producer_dequeue_holds[of t p "[]"] by simp
  show "sub_queue_holds t p (x # xs) \<Longrightarrow> \<exists>p'. producer_dequeue t p = Some (Some x, p') \<and> sub_queue_holds t p' xs"
    using producer_dequeue_holds[of t p "x # xs"] by simp
qed (rule producer_size_approx_holds producer_dequeue_bulk_holds; assumption)+

section \<open>Calls of the queue\<close>

text \<open>
  Calls with a producer token name its producer; an enqueue without one names the implicit producer that \<open>get_or_add_implicit_producer\<close>
  has found, if any.
\<close>

datatype 'a queue_call =
  Enqueue_With nat AllocationMode ctor 'a | Enqueue_Without "nat option" AllocationMode ctor 'a
| Enqueue_Bulk_Without "nat option" AllocationMode bool "('a \<times> bool) list"
| Try_From nat | Try_Bulk_From nat size_t | Try | Try_Non_Interleaved | Try_Token nat | Try_Bulk size_t | Try_Bulk_Token nat size_t

datatype 'a queue_answer = Enqueue_Returned outcome | Taken "'a list"

fun on_explicit :: "('a explicit_producer \<Rightarrow> ('r \<times> 'a explicit_producer) option) \<Rightarrow> 'a any_producer \<Rightarrow> ('r \<times> 'a any_producer) option" where
  "on_explicit f (Explicit_Producer p) = map_option (\<lambda>(r, p). (r, Explicit_Producer p)) (f p)"
| "on_explicit f (Implicit_Producer p) = None"

fun on_implicit :: "('a implicit_producer \<Rightarrow> ('r \<times> 'a implicit_producer) option) \<Rightarrow> 'a any_producer \<Rightarrow> ('r \<times> 'a any_producer) option" where
  "on_implicit f (Implicit_Producer p) = map_option (\<lambda>(r, p). (r, Implicit_Producer p)) (f p)"
| "on_implicit f (Explicit_Producer p) = None"

definition inner_enqueue :: "traits \<Rightarrow> nat \<Rightarrow> AllocationMode \<Rightarrow> ctor \<Rightarrow> 'a \<Rightarrow> 'a any_producer list \<Rightarrow> (outcome \<times> 'a any_producer list) option" where
  "inner_enqueue t k m c x qs = take_from (on_explicit (explicit_enqueue t m c x)) k qs"

definition inner_enqueue_implicit :: "traits \<Rightarrow> nat option \<Rightarrow> AllocationMode \<Rightarrow> ctor \<Rightarrow> 'a \<Rightarrow> 'a any_producer list \<Rightarrow>
    (outcome \<times> 'a any_producer list) option" where
  "inner_enqueue_implicit t producer m c x qs =
     (case producer of None \<Rightarrow> Some (Return False, qs) | Some k \<Rightarrow> take_from (on_implicit (implicit_enqueue t m c x)) k qs)"

definition inner_enqueue_bulk_implicit :: "traits \<Rightarrow> nat option \<Rightarrow> AllocationMode \<Rightarrow> bool \<Rightarrow> ('a \<times> bool) list \<Rightarrow> 'a any_producer list \<Rightarrow>
    (outcome \<times> 'a any_producer list) option" where
  "inner_enqueue_bulk_implicit t producer m triviallyDestructible items qs =
     (case producer of None \<Rightarrow> Some (Return False, qs)
      | Some k \<Rightarrow> take_from (on_implicit (implicit_enqueue_bulk t m triviallyDestructible items)) k qs)"

definition is_explicit :: "'a any_producer \<Rightarrow> bool" where
  "is_explicit p = (case p of Explicit_Producer _ \<Rightarrow> True | Implicit_Producer _ \<Rightarrow> False)"

definition try_dequeue_from_producer :: "traits \<Rightarrow> nat \<Rightarrow> 'a any_producer list \<Rightarrow> ('a option \<times> 'a any_producer list) option" where
  "try_dequeue_from_producer t k qs = (if is_explicit (qs ! k) then take_from (producer_dequeue t) k qs else None)"

definition try_dequeue_bulk_from_producer :: "traits \<Rightarrow> nat \<Rightarrow> size_t \<Rightarrow> 'a any_producer list \<Rightarrow> ('a list \<times> 'a any_producer list) option" where
  "try_dequeue_bulk_from_producer t k most qs = (if is_explicit (qs ! k) then take_from (producer_dequeue_bulk t most) k qs else None)"

abbreviation taken :: "'a option \<Rightarrow> 'a queue_answer" where
  "taken r \<equiv> Taken (case r of None \<Rightarrow> [] | Some x \<Rightarrow> [x])"

type_synonym 'a queue_state = "consumer_token list \<times> 'a any_producer conc_queue"

fun queue_step :: "traits \<Rightarrow> 32 word \<Rightarrow> 'a queue_call \<Rightarrow> 'a queue_state \<Rightarrow> ('a queue_answer \<times> 'a queue_state) option" where
  "queue_step t quota (Enqueue_With k m c x) (ts, q) =
     do { (r, qs) \<leftarrow> inner_enqueue t k m c x (sub_queues q); Some (Enqueue_Returned r, ts, q \<lparr> sub_queues := qs \<rparr>) }"
| "queue_step t quota (Enqueue_Without producer m c x) (ts, q) =
     do { (r, qs) \<leftarrow> inner_enqueue_implicit t producer m c x (sub_queues q); Some (Enqueue_Returned r, ts, q \<lparr> sub_queues := qs \<rparr>) }"
| "queue_step t quota (Enqueue_Bulk_Without producer m td items) (ts, q) =
     do { (r, qs) \<leftarrow> inner_enqueue_bulk_implicit t producer m td items (sub_queues q); Some (Enqueue_Returned r, ts, q \<lparr> sub_queues := qs \<rparr>) }"
| "queue_step t quota (Try_From k) (ts, q) =
     do { (r, qs) \<leftarrow> try_dequeue_from_producer t k (sub_queues q); Some (taken r, ts, q \<lparr> sub_queues := qs \<rparr>) }"
| "queue_step t quota (Try_Bulk_From k most) (ts, q) =
     do { (xs, qs) \<leftarrow> try_dequeue_bulk_from_producer t k most (sub_queues q); Some (Taken xs, ts, q \<lparr> sub_queues := qs \<rparr>) }"
| "queue_step t quota Try (ts, q) =
     do { (r, qs) \<leftarrow> try_dequeue producer_size_approx (producer_dequeue t) (sub_queues q); Some (taken r, ts, q \<lparr> sub_queues := qs \<rparr>) }"
| "queue_step t quota Try_Non_Interleaved (ts, q) =
     do { (r, qs) \<leftarrow> try_dequeue_non_interleaved (producer_dequeue t) (sub_queues q); Some (taken r, ts, q \<lparr> sub_queues := qs \<rparr>) }"
| "queue_step t quota (Try_Token i) (ts, q) =
     do { (r, tok, q) \<leftarrow> try_dequeue_token (producer_dequeue t) quota (ts ! i) q; Some (taken r, ts[i := tok], q) }"
| "queue_step t quota (Try_Bulk most) (ts, q) =
     do { (xs, qs) \<leftarrow> try_dequeue_bulk (producer_dequeue_bulk t) most (sub_queues q); Some (Taken xs, ts, q \<lparr> sub_queues := qs \<rparr>) }"
| "queue_step t quota (Try_Bulk_Token i most) (ts, q) =
     do { (xs, tok, q) \<leftarrow> try_dequeue_bulk_token (producer_dequeue_bulk t) quota most (ts ! i) q; Some (Taken xs, ts[i := tok], q) }"

primrec queue_calls :: "traits \<Rightarrow> 32 word \<Rightarrow> 'a queue_call list \<Rightarrow> 'a queue_state \<Rightarrow> ('a queue_answer list \<times> 'a queue_state) option" where
  "queue_calls t quota [] s = Some ([], s)"
| "queue_calls t quota (c # cs) s = do { (a, s) \<leftarrow> queue_step t quota c s; (as, s) \<leftarrow> queue_calls t quota cs s; Some (a # as, s) }"

primrec consumer_tokens :: "nat \<Rightarrow> 'p conc_queue \<Rightarrow> consumer_token list \<times> 'p conc_queue" where
  "consumer_tokens 0 q = ([], q)"
| "consumer_tokens (Suc m) q = (let (t, q) = ConsumerToken q; (ts, q) = consumer_tokens m q in (t # ts, q))"

definition queue_of :: "'p list \<Rightarrow> 'p conc_queue" where
  "queue_of qs = \<lparr> sub_queues = qs, globalExplicitConsumerOffset = 0, nextExplicitConsumerId = 0 \<rparr>"

text \<open>
  The specification, on the contents of the sub-queues: a dequeue takes as many elements as it was asked for and there are, each from the front
  of a sub-queue; the calls on one producer work on its sub-queue; an enqueue that fails or rethrows what a constructor has thrown adds nothing.
\<close>

definition added :: "bool \<Rightarrow> nat \<Rightarrow> 'a list \<Rightarrow> outcome \<Rightarrow> 'a list list \<Rightarrow> 'a list list \<Rightarrow> bool" where
  "added throws k xs r xss xss' \<longleftrightarrow>
     (case r of Return True \<Rightarrow> \<not> throws \<and> xss' = xss[k := xss ! k @ xs] | Return False \<Rightarrow> xss' = xss | Rethrow \<Rightarrow> throws \<and> xss' = xss)"

fun queue_answer_ok :: "'a queue_call \<Rightarrow> 'a queue_answer \<Rightarrow> 'a list list \<Rightarrow> 'a list list \<Rightarrow> bool" where
  "queue_answer_ok (Enqueue_With k m c x) (Enqueue_Returned r) xss xss' \<longleftrightarrow> added (c = throwing_ctor True) k [x] r xss xss'"
| "queue_answer_ok (Enqueue_Without (Some k) m c x) (Enqueue_Returned r) xss xss' \<longleftrightarrow> added (c = throwing_ctor True) k [x] r xss xss'"
| "queue_answer_ok (Enqueue_Without None m c x) (Enqueue_Returned r) xss xss' \<longleftrightarrow> r = Return False \<and> xss' = xss"
| "queue_answer_ok (Enqueue_Bulk_Without (Some k) m td items) (Enqueue_Returned r) xss xss' \<longleftrightarrow>
     added (list_ex snd items) k (map fst items) r xss xss'"
| "queue_answer_ok (Enqueue_Bulk_Without None m td items) (Enqueue_Returned r) xss xss' \<longleftrightarrow> r = Return False \<and> xss' = xss"
| "queue_answer_ok (Try_From k) (Taken ys) xss xss' \<longleftrightarrow> ys = take 1 (xss ! k) \<and> xss' = xss[k := drop 1 (xss ! k)]"
| "queue_answer_ok (Try_Bulk_From k most) (Taken ys) xss xss' \<longleftrightarrow>
     ys = take (unat most) (xss ! k) \<and> xss' = xss[k := drop (unat most) (xss ! k)]"
| "queue_answer_ok Try (Taken ys) xss xss' \<longleftrightarrow> takes ys xss xss' \<and> length ys = min 1 (total_size xss)"
| "queue_answer_ok Try_Non_Interleaved (Taken ys) xss xss' \<longleftrightarrow> takes ys xss xss' \<and> length ys = min 1 (total_size xss)"
| "queue_answer_ok (Try_Token i) (Taken ys) xss xss' \<longleftrightarrow> takes ys xss xss' \<and> length ys = min 1 (total_size xss)"
| "queue_answer_ok (Try_Bulk most) (Taken ys) xss xss' \<longleftrightarrow> takes ys xss xss' \<and> length ys = min (unat most) (total_size xss)"
| "queue_answer_ok (Try_Bulk_Token i most) (Taken ys) xss xss' \<longleftrightarrow> takes ys xss xss' \<and> length ys = min (unat most) (total_size xss)"
| "queue_answer_ok _ _ xss xss' \<longleftrightarrow> False"

fun queue_answers_ok :: "'a queue_call list \<Rightarrow> 'a queue_answer list \<Rightarrow> 'a list list \<Rightarrow> 'a list list \<Rightarrow> bool" where
  "queue_answers_ok [] [] xss xss' \<longleftrightarrow> xss' = xss"
| "queue_answers_ok (c # cs) (a # as) xss xss' \<longleftrightarrow> (\<exists>yss. queue_answer_ok c a xss yss \<and> queue_answers_ok cs as yss xss')"
| "queue_answers_ok _ _ xss xss' \<longleftrightarrow> False"

text \<open>
  What the caller owes: the tokens exist and are of explicit producers, the others are implicit ones; and no constructor throws just as an
  enqueue with a producer token starts a new block.
\<close>

fun call_ok :: "traits \<Rightarrow> 'a queue_call \<Rightarrow> 'a queue_state \<Rightarrow> bool" where
  "call_ok t (Enqueue_With k _ c _) (ts, q) \<longleftrightarrow> k < length (sub_queues q) \<and>
     (case sub_queues q ! k of Explicit_Producer p \<Rightarrow> c = throwing_ctor True \<longrightarrow> \<not> at_block_start t p | Implicit_Producer p \<Rightarrow> False)"
| "call_ok t (Enqueue_Without (Some k) _ _ _) (ts, q) \<longleftrightarrow> k < length (sub_queues q) \<and> \<not> is_explicit (sub_queues q ! k)"
| "call_ok t (Enqueue_Bulk_Without (Some k) _ _ items) (ts, q) \<longleftrightarrow>
     k < length (sub_queues q) \<and> \<not> is_explicit (sub_queues q ! k) \<and> int (length items) < 2 ^ 63"
| "call_ok t (Try_From k) (ts, q) \<longleftrightarrow> k < length (sub_queues q) \<and> is_explicit (sub_queues q ! k)"
| "call_ok t (Try_Bulk_From k _) (ts, q) \<longleftrightarrow> k < length (sub_queues q) \<and> is_explicit (sub_queues q ! k)"
| "call_ok t (Try_Token i) (ts, q) \<longleftrightarrow> i < length ts"
| "call_ok t (Try_Bulk_Token i _) (ts, q) \<longleftrightarrow> i < length ts"
| "call_ok t _ (ts, q) \<longleftrightarrow> True"

primrec calls_ok :: "traits \<Rightarrow> 32 word \<Rightarrow> 'a queue_call list \<Rightarrow> 'a queue_state \<Rightarrow> bool" where
  "calls_ok t quota [] s \<longleftrightarrow> True"
| "calls_ok t quota (c # cs) s \<longleftrightarrow> call_ok t c s \<and> (case queue_step t quota c s of None \<Rightarrow> True | Some (a, s) \<Rightarrow> calls_ok t quota cs s)"

section \<open>Every dequeue finds what is there\<close>

abbreviation queue_rep :: "traits \<Rightarrow> 'a queue_state \<Rightarrow> 'a list list \<Rightarrow> bool" where
  "queue_rep t s xss \<equiv> list_all2 (sub_queue_holds t) (sub_queues (snd s)) xss \<and> list_all (consumer_token_ok (length xss)) (fst s)"

lemma takes_one:
  assumes "takes (case r of None \<Rightarrow> [] | Some x \<Rightarrow> [x]) xss xss'" "r = None \<longleftrightarrow> total_size xss = 0"
  shows "length (case r of None \<Rightarrow> [] | Some x \<Rightarrow> [x]) = min 1 (total_size xss)"
proof (cases r)
  case (Some x)
  then have "r \<noteq> None" by simp
  then have "total_size xss \<noteq> 0" using assms(2) by blast
  then have "min 1 (total_size xss) = 1" by (simp add: min_def del: sum_list_eq_0_iff)
  then show ?thesis using Some by simp
qed (use assms(2) in simp)

text \<open>A call on the \<open>k\<close>-th producer leaves the others alone.\<close>

lemma take_from_holds:
  assumes "list_all2 (sub_queue_holds t) qs xss" "k < length xss" "f (qs ! k) = Some (r, p')" "sub_queue_holds t p' ys"
  shows "take_from f k qs = Some (r, qs[k := p'])" "list_all2 (sub_queue_holds t) (qs[k := p']) (xss[k := ys])"
  using assms(3) list_all2_update_cong[OF assms(1,4)] by (simp_all add: take_from_def)

lemma holds_nth: "list_all2 (sub_queue_holds t) qs xss \<Longrightarrow> k < length qs \<Longrightarrow> k < length xss \<and> sub_queue_holds t (qs ! k) (xss ! k)"
  using list_all2_nthD[of "sub_queue_holds t" qs xss k] list_all2_lengthD[of "sub_queue_holds t" qs xss] by simp

lemma enqueue_with_rep:
  assumes h: "list_all2 (sub_queue_holds t) qs xss" and k: "k < length qs" "qs ! k = Explicit_Producer p"
    and c: "c = throwing_ctor True \<longrightarrow> \<not> at_block_start t p"
  shows "\<exists>r qs' xss'. inner_enqueue t k m c x qs = Some (r, qs') \<and> list_all2 (sub_queue_holds t) qs' xss' \<and>
    added (c = throwing_ctor True) k [x] r xss xss'"
proof -
  have kk: "k < length xss" "sub_queue_holds t (qs ! k) (xss ! k)" using holds_nth[OF h k(1)] by simp_all
  then obtain R K H where t: "traits_ok t" and r: "explicit_rep t p R K H (xss ! k)" using k(2) by auto
  show ?thesis
  proof (cases "c = throwing_ctor True")
    case True
    then have e: "on_explicit (explicit_enqueue t m c x) (qs ! k) = Some (Rethrow, qs ! k)"
      using c k(2) explicit_enqueue_throws[of t p m x] by simp
    have "inner_enqueue t k m c x qs = Some (Rethrow, qs[k := qs ! k])"
      unfolding inner_enqueue_def by (rule take_from_holds(1)[where f = "on_explicit (explicit_enqueue t m c x)", OF h kk(1) e kk(2)])
    then show ?thesis using h True by (intro exI[of _ Rethrow] exI[of _ qs] exI[of _ xss]) (simp add: added_def)
  next
    case False
    then obtain b p' R' K' where p': "explicit_enqueue t m c x p = Some (Return b, p')"
        "explicit_rep t p' R' K' H (if b then xss ! k @ [x] else xss ! k)"
      using explicit_enqueue_rep[where m = m and x = x, OF t r] by blast
    have e: "on_explicit (explicit_enqueue t m c x) (qs ! k) = Some (Return b, Explicit_Producer p')" using p'(1) k(2) by simp
    have "sub_queue_holds t (Explicit_Producer p') (if b then xss ! k @ [x] else xss ! k)" by (rule holds_explicit[OF t p'(2)])
    note n = take_from_holds[where f = "on_explicit (explicit_enqueue t m c x)", OF h kk(1) e this]
    show ?thesis unfolding inner_enqueue_def n(1) using n(2) False
      by (intro exI[of _ "Return b"] exI[of _ "qs[k := Explicit_Producer p']"] exI[of _ "if b then xss[k := xss ! k @ [x]] else xss"])
        (cases b; simp add: added_def)
  qed
qed

lemma implicit_added:
  assumes h: "list_all2 (sub_queue_holds t) qs xss" and k: "k < length qs" "qs ! k = Implicit_Producer p" and t: "traits_ok t" "bsz t < 2 ^ 63"
    and e: "f p = Some (out, p')" "implicit_rep t M p' R' H (if out = Return True then xss ! k @ xs else xss ! k)"
    and out: "out = Rethrow \<Longrightarrow> throws" "out = Return True \<Longrightarrow> \<not> throws"
  shows "\<exists>r qs' xss'. take_from (on_implicit f) k qs = Some (r, qs') \<and> list_all2 (sub_queue_holds t) qs' xss' \<and> added throws k xs r xss xss'"
proof -
  have kk: "k < length xss" using holds_nth[OF h k(1)] by simp
  have g: "on_implicit f (qs ! k) = Some (out, Implicit_Producer p')" using e(1) k(2) by simp
  have "sub_queue_holds t (Implicit_Producer p') (if out = Return True then xss ! k @ xs else xss ! k)"
    by (rule holds_implicit[OF t e(2)])
  note n = take_from_holds[where f = "on_implicit f", OF h kk g this]
  have "added throws k xs out xss (xss[k := if out = Return True then xss ! k @ xs else xss ! k])"
    using out by (cases out) (auto simp: added_def split: bool.split)
  then show ?thesis using n by blast
qed

lemma implicit_nth:
  assumes "list_all2 (sub_queue_holds t) qs xss" "k < length qs" "\<not> is_explicit (qs ! k)"
  obtains p M R H where "qs ! k = Implicit_Producer p" "traits_ok t" "bsz t < 2 ^ 63" "implicit_rep t M p R H (xss ! k)"
  using holds_nth[OF assms(1,2)] assms(3) that by (cases "qs ! k") (auto simp: is_explicit_def)

lemma enqueue_without_rep:
  assumes h: "list_all2 (sub_queue_holds t) qs xss" and k: "k < length qs" "\<not> is_explicit (qs ! k)"
  shows "\<exists>r qs' xss'. inner_enqueue_implicit t (Some k) m c x qs = Some (r, qs') \<and> list_all2 (sub_queue_holds t) qs' xss' \<and>
    added (c = throwing_ctor True) k [x] r xss xss'"
proof -
  obtain p M R H where p: "qs ! k = Implicit_Producer p" "traits_ok t" "bsz t < 2 ^ 63" "implicit_rep t M p R H (xss ! k)"
    by (rule implicit_nth[OF h k])
  from implicit_enqueue_rep[where m = m and x = x and c = c, OF p(2,4)]
  obtain out p' R' where e: "implicit_enqueue t m c x p = Some (out, p')" "enqueue_outcome c ((H + length (xss ! k)) mod bsz t = 0) out"
      "implicit_rep t M p' R' H (if out = Return True then xss ! k @ [x] else xss ! k)"
    by (elim exE conjE) (rule that)
  show ?thesis unfolding inner_enqueue_implicit_def option.case using e(2)
    by (intro implicit_added[where f = "implicit_enqueue t m c x" and xs = "[x]", OF h k(1) p(1-3) e(1,3)]) (auto simp: enqueue_outcome_def)
qed

lemma enqueue_bulk_without_rep:
  assumes h: "list_all2 (sub_queue_holds t) qs xss" and k: "k < length qs" "\<not> is_explicit (qs ! k)" and l: "length items < 2 ^ 63"
  shows "\<exists>r qs' xss'. inner_enqueue_bulk_implicit t (Some k) m td items qs = Some (r, qs') \<and> list_all2 (sub_queue_holds t) qs' xss' \<and>
    added (list_ex snd items) k (map fst items) r xss xss'"
proof -
  obtain p M R H where p: "qs ! k = Implicit_Producer p" "traits_ok t" "bsz t < 2 ^ 63" "implicit_rep t M p R H (xss ! k)"
    by (rule implicit_nth[OF h k])
  from implicit_enqueue_bulk_rep[where m = m and td = td, OF p(2-4) l]
  obtain out p' R' where e: "implicit_enqueue_bulk t m td items p = Some (out, p')" "bulk_outcome (bsz t) (H + length (xss ! k)) items out"
      "implicit_rep t M p' R' H (if out = Return True then xss ! k @ map fst items else xss ! k)"
    by (elim exE conjE) (rule that)
  show ?thesis unfolding inner_enqueue_bulk_implicit_def option.case using e(2)
    by (intro implicit_added[where f = "implicit_enqueue_bulk t m td items" and xs = "map fst items", OF h k(1) p(1-3) e(1,3)])
      (auto simp: bulk_outcome_def)
qed

lemma try_from_rep:
  assumes h: "list_all2 (sub_queue_holds t) qs xss" and k: "k < length qs" "is_explicit (qs ! k)"
  shows "\<exists>r qs'. try_dequeue_from_producer t k qs = Some (r, qs') \<and> list_all2 (sub_queue_holds t) qs' (xss[k := drop 1 (xss ! k)]) \<and>
    (case r of None \<Rightarrow> [] | Some x \<Rightarrow> [x]) = take 1 (xss ! k)"
proof -
  have kk: "k < length xss" "sub_queue_holds t (qs ! k) (xss ! k)" using holds_nth[OF h k(1)] by simp_all
  obtain p' where p': "producer_dequeue t (qs ! k) = Some (case xss ! k of [] \<Rightarrow> None | x # _ \<Rightarrow> Some x, p')" "sub_queue_holds t p' (drop 1 (xss ! k))"
    using producer_dequeue_holds[OF kk(2)] by blast
  note n = take_from_holds[where f = "producer_dequeue t", OF h kk(1) p']
  show ?thesis using n k(2) by (cases "xss ! k") (auto simp: try_dequeue_from_producer_def)
qed

lemma try_bulk_from_rep:
  assumes h: "list_all2 (sub_queue_holds t) qs xss" and k: "k < length qs" "is_explicit (qs ! k)"
  shows "\<exists>qs'. try_dequeue_bulk_from_producer t k most qs = Some (take (unat most) (xss ! k), qs') \<and>
    list_all2 (sub_queue_holds t) qs' (xss[k := drop (unat most) (xss ! k)])"
proof -
  have kk: "k < length xss" "sub_queue_holds t (qs ! k) (xss ! k)" using holds_nth[OF h k(1)] by simp_all
  obtain p' where p': "producer_dequeue_bulk t most (qs ! k) = Some (take (unat most) (xss ! k), p')" "sub_queue_holds t p' (drop (unat most) (xss ! k))"
    using producer_dequeue_bulk_holds[OF kk(2)] by blast
  show ?thesis using take_from_holds[where f = "producer_dequeue_bulk t most", OF h kk(1) p'] k(2) by (auto simp: try_dequeue_bulk_from_producer_def)
qed

lemma token_nth: "list_all P ts \<Longrightarrow> i < length ts \<Longrightarrow> P (ts ! i)"
  by (simp add: list_all_length)

lemma token_update: "list_all P ts \<Longrightarrow> P u \<Longrightarrow> list_all P (ts[i := u])"
  unfolding list_all_iff using set_update_subset_insert[of ts i u] by blast

lemma added_length: "added throws k xs r xss xss' \<Longrightarrow> length xss' = length xss"
  by (auto simp: added_def split: outcome.splits bool.splits)

lemma queue_step_rep:
  assumes "queue_rep t (ts, q) xss" "call_ok t c (ts, q)" "length xss < 2 ^ 32"
  shows "\<exists>a s' xss'. queue_step t quota c (ts, q) = Some (a, s') \<and> queue_rep t s' xss' \<and> length xss' = length xss \<and>
    queue_answer_ok c a xss xss'"
proof (cases c)
  case (Enqueue_With k am ct x)
  then obtain p where p: "k < length (sub_queues q)" "sub_queues q ! k = Explicit_Producer p" "ct = throwing_ctor True \<longrightarrow> \<not> at_block_start t p"
    using assms(2) by (auto split: any_producer.splits)
  obtain r qs' xss' where o: "inner_enqueue t k am ct x (sub_queues q) = Some (r, qs')" "list_all2 (sub_queue_holds t) qs' xss'"
      "added (ct = throwing_ctor True) k [x] r xss xss'"
    using enqueue_with_rep[OF _ p, of xss am x] assms(1) by auto
  then show ?thesis using assms(1) Enqueue_With added_length[OF o(3)] by (intro exI[of _ "Enqueue_Returned r"] exI[of _ "(ts, q\<lparr>sub_queues := qs'\<rparr>)"] exI[of _ xss']) auto
next
  case (Enqueue_Without producer am ct x)
  show ?thesis
  proof (cases producer)
    case None
    then show ?thesis using Enqueue_Without assms(1) by (auto simp: inner_enqueue_implicit_def)
  next
    case (Some k)
    obtain r qs' xss' where o: "inner_enqueue_implicit t (Some k) am ct x (sub_queues q) = Some (r, qs')" "list_all2 (sub_queue_holds t) qs' xss'"
        "added (ct = throwing_ctor True) k [x] r xss xss'"
      using enqueue_without_rep[of t "sub_queues q" xss k am ct x] assms(1,2) Enqueue_Without Some by auto
    then show ?thesis using assms(1) Enqueue_Without Some added_length[OF o(3)]
      by (intro exI[of _ "Enqueue_Returned r"] exI[of _ "(ts, q\<lparr>sub_queues := qs'\<rparr>)"] exI[of _ xss']) auto
  qed
next
  case (Enqueue_Bulk_Without producer am td items)
  show ?thesis
  proof (cases producer)
    case None
    then show ?thesis using Enqueue_Bulk_Without assms(1) by (auto simp: inner_enqueue_bulk_implicit_def)
  next
    case (Some k)
    obtain r qs' xss' where o: "inner_enqueue_bulk_implicit t (Some k) am td items (sub_queues q) = Some (r, qs')" "list_all2 (sub_queue_holds t) qs' xss'"
        "added (list_ex snd items) k (map fst items) r xss xss'"
      using enqueue_bulk_without_rep[of t "sub_queues q" xss k items am td] assms(1,2) Enqueue_Bulk_Without Some by auto
    then show ?thesis using assms(1) Enqueue_Bulk_Without Some added_length[OF o(3)]
      by (intro exI[of _ "Enqueue_Returned r"] exI[of _ "(ts, q\<lparr>sub_queues := qs'\<rparr>)"] exI[of _ xss']) auto
  qed
next
  case (Try_From k)
  obtain r qs' where "try_dequeue_from_producer t k (sub_queues q) = Some (r, qs')" "list_all2 (sub_queue_holds t) qs' (xss[k := drop 1 (xss ! k)])"
      "(case r of None \<Rightarrow> [] | Some x \<Rightarrow> [x]) = take 1 (xss ! k)"
    using try_from_rep[of t "sub_queues q" xss k] assms(1,2) Try_From by auto
  then show ?thesis using assms(1) Try_From by auto
next
  case (Try_Bulk_From k most)
  obtain qs' where "try_dequeue_bulk_from_producer t k most (sub_queues q) = Some (take (unat most) (xss ! k), qs')"
      "list_all2 (sub_queue_holds t) qs' (xss[k := drop (unat most) (xss ! k)])"
    using try_bulk_from_rep[of t "sub_queues q" xss k most] assms(1,2) Try_Bulk_From by auto
  then show ?thesis using assms(1) Try_Bulk_From by auto
next
  case Try
  obtain r qs' xss' where r: "try_dequeue producer_size_approx (producer_dequeue t) (sub_queues q) = Some (r, qs')" "list_all2 (sub_queue_holds t) qs' xss'"
      "takes (case r of None \<Rightarrow> [] | Some x \<Rightarrow> [x]) xss xss'" "r = None \<longleftrightarrow> total_size xss = 0"
    using producers.try_dequeue_gives[of t "sub_queues q" xss] assms(1) unfolding producers.gives_def by auto
  show ?thesis using r(1,2) takes_one[OF r(3,4)] takes_length[OF r(3)] r(3) assms(1) Try by auto
next
  case Try_Non_Interleaved
  obtain r qs' xss' where r: "try_dequeue_non_interleaved (producer_dequeue t) (sub_queues q) = Some (r, qs')" "list_all2 (sub_queue_holds t) qs' xss'"
      "takes (case r of None \<Rightarrow> [] | Some x \<Rightarrow> [x]) xss xss'" "r = None \<longleftrightarrow> total_size xss = 0"
    using producers.try_dequeue_non_interleaved_gives[of t "sub_queues q" xss] assms(1) unfolding producers.gives_def by auto
  show ?thesis using r(1,2) takes_one[OF r(3,4)] takes_length[OF r(3)] r(3) assms(1) Try_Non_Interleaved by auto
next
  case (Try_Token i)
  have tok: "consumer_token_ok (length xss) (ts ! i)" using assms(1,2) Try_Token by (auto intro: token_nth)
  have h: "list_all2 (sub_queue_holds t) (sub_queues q) xss" using assms(1) by simp
  from producers.try_dequeue_token_gives[OF h tok assms(3), of quota]
  obtain r t' q' xss' where r: "try_dequeue_token (producer_dequeue t) quota (ts ! i) q = Some (r, t', q')" "list_all2 (sub_queue_holds t) (sub_queues q') xss'"
      "consumer_token_ok (length xss) t'" "takes (case r of None \<Rightarrow> [] | Some x \<Rightarrow> [x]) xss xss'" "r = None \<longleftrightarrow> total_size xss = 0"
    by (elim exE conjE) (rule that)
  show ?thesis using r(1,2) takes_one[OF r(4,5)] takes_length[OF r(4)] r(4) token_update[of "consumer_token_ok (length xss)", OF _ r(3)] assms(1) Try_Token by auto
next
  case (Try_Bulk most)
  obtain ys qs' xss' where r: "try_dequeue_bulk (producer_dequeue_bulk t) most (sub_queues q) = Some (ys, qs')" "list_all2 (sub_queue_holds t) qs' xss'"
      "takes ys xss xss'" "length ys = min (unat most) (total_size xss)"
    using producers.try_dequeue_bulk_gives[of t "sub_queues q" xss most] assms(1) unfolding producers.gives_many_def by auto
  show ?thesis using r takes_length[OF r(3)] assms(1) Try_Bulk by auto
next
  case (Try_Bulk_Token i most)
  have tok: "consumer_token_ok (length xss) (ts ! i)" using assms(1,2) Try_Bulk_Token by (auto intro: token_nth)
  obtain ys t' q' xss' where r: "try_dequeue_bulk_token (producer_dequeue_bulk t) quota most (ts ! i) q = Some (ys, t', q')"
      "list_all2 (sub_queue_holds t) (sub_queues q') xss'" "consumer_token_ok (length xss) t'"
      "takes ys xss xss'" "length ys = min (unat most) (total_size xss)"
    using producers.try_dequeue_bulk_token_gives[of t q xss "ts ! i" quota most, OF _ tok assms(3)] assms(1)
    unfolding producers.gives_many_def by auto
  show ?thesis using r takes_length[OF r(4)] token_update[of "consumer_token_ok (length xss)", OF _ r(3)] assms(1) Try_Bulk_Token by auto
qed

lemma queue_calls_rep:
  assumes "queue_rep t s xss" "calls_ok t quota cs s" "length xss < 2 ^ 32"
  shows "\<exists>as s' xss'. queue_calls t quota cs s = Some (as, s') \<and> queue_rep t s' xss' \<and> queue_answers_ok cs as xss xss'"
  using assms
proof (induction cs arbitrary: s xss)
  case (Cons c cs)
  obtain a s1 xss1 where s1: "queue_step t quota c s = Some (a, s1)" "queue_rep t s1 xss1" "length xss1 = length xss"
      "queue_answer_ok c a xss xss1"
    using queue_step_rep[where t = t and ts = "fst s" and q = "snd s" and xss = xss and c = c and quota = quota] Cons.prems by auto
  obtain as s' xss' where "queue_calls t quota cs s1 = Some (as, s')" "queue_rep t s' xss'" "queue_answers_ok cs as xss1 xss'"
    using Cons.IH[OF s1(2)] Cons.prems(2,3) s1(1,3) by auto
  then show ?case using s1 by (intro exI[of _ "a # as"]) auto
qed auto

lemma consumer_tokens_ok:
  "consumer_tokens m q = (ts, q') \<Longrightarrow> length ts = m \<and> list_all (consumer_token_ok n) ts \<and> sub_queues q' = sub_queues q"
proof (induction m arbitrary: q ts q')
  case (Suc m)
  obtain t1 q1 where c: "ConsumerToken q = (t1, q1)" by fastforce
  obtain ts1 q2 where r: "consumer_tokens m q1 = (ts1, q2)" by fastforce
  have "consumer_token_ok n t1" "sub_queues q1 = sub_queues q" using c by (auto simp: ConsumerToken_def consumer_token_ok_def)
  then show ?case using Suc.IH[OF r] Suc.prems c r by auto
qed simp

lemma new_producers_hold:
  assumes "traits_ok t" "unat (EXPLICIT_INITIAL_INDEX_SIZE t) * unat (BLOCK_SIZE t) \<le> 2 ^ 64"
    "unat (IMPLICIT_INITIAL_INDEX_SIZE t) * unat (BLOCK_SIZE t) < 2 ^ 64" "list_all (\<lambda>(expl, hp, bp, al). fresh_pool t hp bp) mems"
  shows "\<exists>qs. those (map (new_producer t) mems) = Some qs \<and> list_all2 (sub_queue_holds t) qs (replicate (length mems) [])"
  using assms(4)
proof (induction mems)
  case (Cons mem mems)
  obtain e hp bp al where mem: "mem = (e, hp, bp, al)" by (metis prod_cases4)
  have "\<exists>p. new_producer t mem = Some p \<and> sub_queue_holds t p []"
  proof (cases e)
    case True
    then show ?thesis using ExplicitProducer_rep[OF assms(1,2), of hp bp al] Cons.prems mem holds_explicit[OF assms(1)]
      by (auto simp: new_producer_def simp del: sub_queue_holds.simps)
  next
    case False
    then show ?thesis using ImplicitProducer_rep[OF assms(1) less_imp_le[OF assms(3)], of hp bp al] Cons.prems mem
        holds_implicit[OF assms(1) implicit_block_size[OF assms(1,3)]] by (auto simp: new_producer_def simp del: sub_queue_holds.simps)
  qed
  then show ?case using Cons by auto
qed simp

text \<open>
  C4. For any number of explicit and implicit producers, fewer than two to the 32nd, and of consumer tokens, any sequence of
  calls, one at a time: enqueues of one element, with a producer token or on an implicit producer, bulk enqueues on an implicit producer, and
  dequeues, by the heuristic, in order, in bulk, from one producer, in bulk from one producer, or with a consumer
  token.  Constructors may throw, but not just as an enqueue with a producer token starts a new block; bulk enqueues with a producer token are not
  among the calls.  Then every call returns; a dequeue takes exactly as many elements as it was asked for and are
  there, each the oldest of its producer, whatever the rotation of the tokens; an enqueue adds its elements at the end of one producer or nothing; a call on one producer leaves the
  others alone; and \<open>size_approx\<close> is the number of the elements left.
\<close>

theorem queue_takes_what_is_there:
  assumes "traits_ok t" "unat (EXPLICIT_INITIAL_INDEX_SIZE t) * unat (BLOCK_SIZE t) \<le> 2 ^ 64"
    "unat (IMPLICIT_INITIAL_INDEX_SIZE t) * unat (BLOCK_SIZE t) < 2 ^ 64"
    "list_all (\<lambda>(expl, hp, bp, al). fresh_pool t hp bp) mems" "length mems < 2 ^ 32"
    "\<forall>qs. those (map (new_producer t) mems) = Some qs \<longrightarrow> calls_ok t quota calls (consumer_tokens m (queue_of qs))"
  shows "\<exists>qs as ts q xss. those (map (new_producer t) mems) = Some qs \<and>
    queue_calls t quota calls (consumer_tokens m (queue_of qs)) = Some (as, ts, q) \<and>
    queue_answers_ok calls as (replicate (length mems) []) xss \<and>
    queue_size_approx producer_size_approx (sub_queues q) = of_nat (total_size xss)"
proof -
  obtain qs where qs: "those (map (new_producer t) mems) = Some qs"
      "list_all2 (sub_queue_holds t) qs (replicate (length mems) [])"
    using new_producers_hold[OF assms(1-4)] by blast
  obtain ts q where c: "consumer_tokens m (queue_of qs) = (ts, q)" by fastforce
  have r: "queue_rep t (ts, q) (replicate (length mems) [])"
    using consumer_tokens_ok[OF c] qs(2) by (simp add: queue_of_def)
  obtain as s' xss' where s': "queue_calls t quota calls (ts, q) = Some (as, s')" "queue_rep t s' xss'"
      "queue_answers_ok calls as (replicate (length mems) []) xss'"
    using queue_calls_rep[OF r, of quota calls] assms(5,6) qs(1) c by auto
  have "queue_size_approx producer_size_approx (sub_queues (snd s')) = of_nat (total_size xss')"
    using producers.queue_size_approx_total s'(2) by blast
  then show ?thesis using qs(1) c s'(1,3) by (intro exI[of _ qs] exI[of _ as] exI[of _ "fst s'"] exI[of _ "snd s'"] exI[of _ xss']) auto
qed

definition sample_calls :: "nat queue_call list" where
  "sample_calls = [Enqueue_With 0 CanAlloc noexcept_ctor 1, Enqueue_Without (Some 1) CanAlloc noexcept_ctor 2,
     Enqueue_With 0 CanAlloc (throwing_ctor True) 9, Enqueue_Bulk_Without (Some 1) CanAlloc False [(3, False), (4, True)],
     Enqueue_Bulk_Without (Some 1) CanAlloc False [(3, False), (4, False)], Try_Token 0, Try_Bulk_Token 1 5, Try,
     Enqueue_With 0 CanAlloc noexcept_ctor 5, Enqueue_With 0 CanAlloc noexcept_ctor 6, Try_Non_Interleaved, Try_Bulk 1, Try_From 0, Try_Bulk_From 0 3]"

definition sample_memory :: "bool \<Rightarrow> bool \<times> (nat \<Rightarrow> nat block) \<times> block_pool \<times> bool list" where
  "sample_memory expl = (expl, \<lambda>_. new_block small_traits, populate_initial_block_list (Some [5, 6]) [Some 7], replicate 4 True)"

lemma queue_takes_what_is_there_witness:
  "\<exists>qs as ts q xss. those (map (new_producer small_traits) [sample_memory True, sample_memory False]) = Some qs \<and>
    queue_calls small_traits 256 sample_calls (consumer_tokens 2 (queue_of qs)) = Some (as, ts, q) \<and>
    queue_answers_ok sample_calls as [[], []] xss \<and> queue_size_approx producer_size_approx (sub_queues q) = of_nat (total_size xss)"
proof -
  let ?mems = "[sample_memory True, sample_memory False]"
  have a: "traits_ok small_traits" "unat (BLOCK_SIZE small_traits) = 2" "unat (EXPLICIT_INITIAL_INDEX_SIZE small_traits) = 2"
    "unat (IMPLICIT_INITIAL_INDEX_SIZE small_traits) = 2" by code_simp+
  have f: "fresh_pool small_traits (\<lambda>_. new_block small_traits :: nat block) (populate_initial_block_list (Some [5, 6]) [Some 7])"
    by (simp add: fresh_pool_def pool_ok_def pool_left_def populate_initial_block_list_def small_traits_def new_block_def map_filter_simps)
  have m: "list_all (\<lambda>(expl, hp, bp, al). fresh_pool small_traits hp bp) ?mems" using f by (simp add: sample_memory_def)
  have i: "unat (EXPLICIT_INITIAL_INDEX_SIZE small_traits) * unat (BLOCK_SIZE small_traits) \<le> 2 ^ 64"
    "unat (IMPLICIT_INITIAL_INDEX_SIZE small_traits) * unat (BLOCK_SIZE small_traits) < 2 ^ 64" using a by simp_all
  have n: "length ?mems < 2 ^ 32" by simp
  have "map_option (\<lambda>qs. calls_ok small_traits 256 sample_calls (consumer_tokens 2 (queue_of qs)))
      (those (map (new_producer small_traits) ?mems)) = Some True" by code_simp
  then have ok: "\<forall>qs. those (map (new_producer small_traits) ?mems) = Some qs \<longrightarrow>
      calls_ok small_traits 256 sample_calls (consumer_tokens 2 (queue_of qs))" by auto
  show ?thesis using queue_takes_what_is_there[OF a(1) i m n ok] by (simp add: numeral_2_eq_2)
qed

end
