(* ===== verification/Cq_Claims.thy ===== *)
theory Cq_Claims
  imports Cq_Details
begin

text \<open>
  \<open>libs/concurrentqueue/concurrentqueue.h\<close>: how the consumers of a producer's sub-queue, \<open>dequeue\<close> and
  \<open>dequeue_bulk\<close> of both kinds of producers, share out the elements. Any number of consumers and the one
  producer interleave; every access to \<open>tailIndex\<close>, \<open>headIndex\<close>, \<open>dequeueOptimisticCount\<close> and \<open>dequeueOvercommit\<close>,
  and the taking of every element, is one event. \<open>dequeue\<close> is \<open>dequeue_bulk\<close> of at most one element: its
  comparison of \<open>dequeueOptimisticCount - overcommit\<close> with the tail is that of the difference with 0. The cells stand
  for the blocks: cell \<open>k\<close> holds the element with index \<open>k\<close> until it is taken; taking an element that is
  not there is \<open>None\<close>. The attempts, the log and the list of all elements enqueued are history that the code does not have.
\<close>

section \<open>State\<close>

record attempt =
  amount :: nat
  granted :: nat
  given_back :: nat
  claimed :: nat

text \<open>The last number is that of the attempt.\<close>

datatype claim_pc =
    C_idle
  | C_over "64 word" "64 word"              \<comment> \<open>\<open>max\<close> and the loaded tail\<close>
  | C_opt "64 word" "64 word" "64 word"     \<comment> \<open>and the loaded overcommit\<close>
  | C_announce "64 word" "64 word"          \<comment> \<open>\<open>desiredCount\<close>, overcommit: before \<open>fetch_add\<close>\<close>
  | C_decide "64 word" "64 word" "64 word" nat  \<comment> \<open>and \<open>myDequeueCount\<close>: before the second load of the tail\<close>
  | C_return "64 word" "64 word" nat        \<comment> \<open>what to add to the overcommit, and what to claim after it\<close>
  | C_claim "64 word" nat                   \<comment> \<open>\<open>actualCount\<close>: before \<open>headIndex.fetch_add\<close>\<close>
  | C_take "64 word" "64 word"              \<comment> \<open>the next index and the end\<close>

record 'a claims =
  q_tail :: "64 word"
  q_head :: "64 word"
  q_opt :: "64 word"
  q_over :: "64 word"
  q_cells :: "'a option list"
  q_building :: "'a option"
  q_consumers :: "claim_pc list"
  q_attempts :: "attempt list"
  q_enqueued :: "'a list"
  q_log :: "(nat \<times> 'a) list"

definition claims_init :: "nat \<Rightarrow> 'a claims" where
  "claims_init n =
     \<lparr> q_tail = 0, q_head = 0, q_opt = 0, q_over = 0, q_cells = [], q_building = None,
       q_consumers = replicate n C_idle, q_attempts = [], q_enqueued = [], q_log = [] \<rparr>"

text \<open>The comparison in \<open>dequeue\<close> is the one in \<open>dequeue_bulk\<close>.\<close>

lemma circular_less_than_difference: "circular_less_than a b = circular_less_than 0 (b - a)"
  by (simp add: circular_less_than_def)

section \<open>Steps\<close>

definition goto_pc :: "nat \<Rightarrow> claim_pc \<Rightarrow> 'a claims \<Rightarrow> 'a claims" where
  "goto_pc i p s = s \<lparr> q_consumers := (q_consumers s)[i := p] \<rparr>"

definition note_attempt :: "nat \<Rightarrow> (attempt \<Rightarrow> attempt) \<Rightarrow> 'a claims \<Rightarrow> 'a claims" where
  "note_attempt j f s = s \<lparr> q_attempts := (q_attempts s)[j := f (q_attempts s ! j)] \<rparr>"

fun claim_step :: "nat \<Rightarrow> claim_pc \<Rightarrow> 'a claims \<Rightarrow> 'a claims option" where
  "claim_step i C_idle s = Some s"
| "claim_step i (C_over most tail) s = Some (goto_pc i (C_opt most tail (q_over s)) s)"
| "claim_step i (C_opt most tail overcommit) s =
     (let desiredCount = tail - (q_opt s - overcommit) in
      Some (if circular_less_than 0 desiredCount
            then goto_pc i (C_announce (if desiredCount < most then desiredCount else most) overcommit) s
            else goto_pc i C_idle s))"
| "claim_step i (C_announce desiredCount overcommit) s =
     (let myDequeueCount = q_opt s in
      Some (goto_pc i (C_decide desiredCount overcommit myDequeueCount (length (q_attempts s)))
        (s \<lparr> q_opt := myDequeueCount + desiredCount,
             q_attempts := q_attempts s @ [\<lparr> amount = unat desiredCount, granted = 0, given_back = 0, claimed = 0 \<rparr>] \<rparr>)))"
| "claim_step i (C_decide desiredCount overcommit myDequeueCount j) s =
     (let actualCount = q_tail s - (myDequeueCount - overcommit) in
      Some (if circular_less_than 0 actualCount
            then let actualCount = (if desiredCount < actualCount then desiredCount else actualCount);
                     s = note_attempt j (granted_update (\<lambda>_. unat actualCount)) s
                 in if actualCount < desiredCount
                    then goto_pc i (C_return (desiredCount - actualCount) actualCount j) s
                    else goto_pc i (C_claim actualCount j) s
            else goto_pc i (C_return desiredCount 0 j) s))"
| "claim_step i (C_return k actualCount j) s =
     Some (goto_pc i (if actualCount = 0 then C_idle else C_claim actualCount j)
       (note_attempt j (given_back_update (\<lambda>_. unat k)) (s \<lparr> q_over := q_over s + k \<rparr>)))"
| "claim_step i (C_claim actualCount j) s =
     (let firstIndex = q_head s in
      Some (goto_pc i (C_take firstIndex (firstIndex + actualCount))
        (note_attempt j (claimed_update (\<lambda>_. unat actualCount)) (s \<lparr> q_head := firstIndex + actualCount \<rparr>))))"
| "claim_step i (C_take index stop) s =
     (if index = stop then Some (goto_pc i C_idle s)
      else if unat index < length (q_cells s)
      then case q_cells s ! unat index of
          None \<Rightarrow> None
        | Some x \<Rightarrow> Some (goto_pc i (C_take (index + 1) stop)
            (s \<lparr> q_cells := (q_cells s)[unat index := None], q_log := q_log s @ [(unat index, x)] \<rparr>))
      else None)"

datatype 'a claim_event =
    Call_Dequeue nat "64 word"   \<comment> \<open>consumer \<open>i\<close> calls \<open>dequeue_bulk\<close> with \<open>max\<close>, and loads the tail\<close>
  | Dequeue_Step nat
  | Construct 'a                 \<comment> \<open>the producer constructs the next element\<close>
  | Publish                      \<comment> \<open>and stores the tail\<close>

text \<open>Events of an absent consumer, or that come out of turn, change nothing.\<close>

fun claim_exec :: "'a claim_event \<Rightarrow> 'a claims \<Rightarrow> 'a claims option" where
  "claim_exec (Call_Dequeue i most) s =
     Some (if i < length (q_consumers s) \<and> q_consumers s ! i = C_idle then goto_pc i (C_over most (q_tail s)) s else s)"
| "claim_exec (Dequeue_Step i) s =
     (if i < length (q_consumers s) then claim_step i (q_consumers s ! i) s else Some s)"
| "claim_exec (Construct x) s = Some (if q_building s = None then s \<lparr> q_building := Some x \<rparr> else s)"
| "claim_exec Publish s =
     (case q_building s of
        None \<Rightarrow> Some s
      | Some x \<Rightarrow> Some (s \<lparr> q_cells := q_cells s @ [Some x], q_enqueued := q_enqueued s @ [x], q_building := None,
                       q_tail := q_tail s + 1 \<rparr>))"

section \<open>The invariant\<close>

definition psum :: "(attempt \<Rightarrow> nat) \<Rightarrow> nat \<Rightarrow> attempt list \<Rightarrow> nat" where
  "psum f k as = sum_list (map f (take k as))"

abbreviation asum :: "(attempt \<Rightarrow> nat) \<Rightarrow> attempt list \<Rightarrow> nat" where
  "asum f as \<equiv> psum f (length as) as"

text \<open>Fewer than \<open>2 ^ 63\<close> elements have been enqueued, and asked for.\<close>

definition few :: "'a claims \<Rightarrow> bool" where
  "few s \<longleftrightarrow> asum amount (q_attempts s) < 2 ^ 63 \<and> length (q_cells s) < 2 ^ 63"

definition attempts_ok :: "'a claims \<Rightarrow> bool" where
  "attempts_ok s \<longleftrightarrow>
     (\<forall>j<length (q_attempts s).
        granted (q_attempts s ! j) + given_back (q_attempts s ! j) \<le> amount (q_attempts s ! j) \<and>
        claimed (q_attempts s ! j) \<le> granted (q_attempts s ! j) \<and>
        (granted (q_attempts s ! j) > 0 \<longrightarrow>
           psum amount j (q_attempts s) + granted (q_attempts s ! j) \<le> length (q_cells s) + psum given_back j (q_attempts s)))"

definition counters_ok :: "'a claims \<Rightarrow> bool" where
  "counters_ok s \<longleftrightarrow>
     q_tail s = of_nat (length (q_cells s)) \<and> q_opt s = of_nat (asum amount (q_attempts s)) \<and>
     q_over s = of_nat (asum given_back (q_attempts s)) \<and> q_head s = of_nat (asum claimed (q_attempts s))"

text \<open>What a consumer that has announced an attempt still has to do.\<close>

fun consumer_ok :: "'a claims \<Rightarrow> claim_pc \<Rightarrow> bool" where
  "consumer_ok s C_idle = True"
| "consumer_ok s (C_over most tail) = (unat tail \<le> length (q_cells s))"
| "consumer_ok s (C_opt most tail overcommit) = (unat tail \<le> length (q_cells s) \<and> unat overcommit \<le> asum given_back (q_attempts s))"
| "consumer_ok s (C_announce d overcommit) = (unat overcommit \<le> asum given_back (q_attempts s))"
| "consumer_ok s (C_decide d overcommit my j) =
     (j < length (q_attempts s) \<and> q_attempts s ! j = \<lparr> amount = unat d, granted = 0, given_back = 0, claimed = 0 \<rparr> \<and>
      unat my = psum amount j (q_attempts s) \<and> unat overcommit \<le> psum given_back j (q_attempts s))"
| "consumer_ok s (C_return k a j) =
     (j < length (q_attempts s) \<and> q_attempts s ! j = \<lparr> amount = unat k + unat a, granted = unat a, given_back = 0, claimed = 0 \<rparr>)"
| "consumer_ok s (C_claim a j) =
     (j < length (q_attempts s) \<and> granted (q_attempts s ! j) = unat a \<and> claimed (q_attempts s ! j) = 0 \<and>
      granted (q_attempts s ! j) + given_back (q_attempts s ! j) = amount (q_attempts s ! j))"
| "consumer_ok s (C_take index stop) = (unat index \<le> unat stop \<and> unat stop \<le> asum claimed (q_attempts s))"

fun pending :: "claim_pc \<Rightarrow> nat option" where
  "pending (C_decide d overcommit my j) = Some j"
| "pending (C_return k a j) = Some j"
| "pending (C_claim a j) = Some j"
| "pending _ = None"

fun taking :: "claim_pc \<Rightarrow> nat set" where
  "taking (C_take index stop) = {unat index..<unat stop}"
| "taking _ = {}"

definition consumers_ok :: "'a claims \<Rightarrow> bool" where
  "consumers_ok s \<longleftrightarrow>
     (\<forall>i<length (q_consumers s). consumer_ok s (q_consumers s ! i)) \<and>
     (\<forall>i<length (q_consumers s). \<forall>i'<length (q_consumers s). i \<noteq> i' \<longrightarrow>
        taking (q_consumers s ! i) \<inter> taking (q_consumers s ! i') = {} \<and>
        (pending (q_consumers s ! i) = None \<or> pending (q_consumers s ! i) \<noteq> pending (q_consumers s ! i')))"

definition settled :: "attempt \<Rightarrow> bool" where
  "settled a \<longleftrightarrow> granted a + given_back a = amount a \<and> claimed a = granted a"

definition no_attempt_lost :: "'a claims \<Rightarrow> bool" where
  "no_attempt_lost s \<longleftrightarrow>
     (\<forall>j<length (q_attempts s). settled (q_attempts s ! j) \<or> (\<exists>i<length (q_consumers s). pending (q_consumers s ! i) = Some j))"

definition cells_ok :: "'a claims \<Rightarrow> bool" where
  "cells_ok s \<longleftrightarrow> length (q_enqueued s) = length (q_cells s) \<and>
     (\<forall>k<length (q_cells s).
        (q_cells s ! k \<noteq> None \<longleftrightarrow>
           asum claimed (q_attempts s) \<le> k \<or> (\<exists>i<length (q_consumers s). k \<in> taking (q_consumers s ! i))) \<and>
        (q_cells s ! k \<noteq> None \<longrightarrow> q_cells s ! k = Some (q_enqueued s ! k)))"

definition log_ok :: "'a claims \<Rightarrow> bool" where
  "log_ok s \<longleftrightarrow> distinct (map fst (q_log s)) \<and>
     set (q_log s) = {(k, q_enqueued s ! k) | k. k < length (q_cells s) \<and> q_cells s ! k = None}"

definition claims_inv :: "'a claims \<Rightarrow> bool" where
  "claims_inv s \<longleftrightarrow> attempts_ok s \<and> counters_ok s \<and> consumers_ok s \<and> no_attempt_lost s \<and> cells_ok s \<and> log_ok s"

section \<open>Sums over attempts\<close>

lemma psum_0 [simp]: "psum f 0 as = 0"
  by (simp add: psum_def)

lemma psum_Suc: "k < length as \<Longrightarrow> psum f (Suc k) as = psum f k as + f (as ! k)"
  by (simp add: psum_def take_Suc_conv_app_nth)

lemma psum_append [simp]: "k \<le> length as \<Longrightarrow> psum f k (as @ bs) = psum f k as"
  by (simp add: psum_def)

lemma psum_snoc [simp]: "psum f (Suc (length as)) (as @ [a]) = asum f as + f a"
  by (simp add: psum_def)

lemma psum_mono: "k \<le> k' \<Longrightarrow> psum f k as \<le> psum f k' as"
  by (auto simp: psum_def le_iff_add take_add)

lemma psum_update:
  assumes "j < length as"
  shows "psum f k (as[j := a]) + (if j < k then f (as ! j) else 0) = psum f k as + (if j < k then f a else 0)"
proof (cases "j < k")
  case True
  have "sum_list (map f (xs[j := a])) + f (xs ! j) = sum_list (map f xs) + f a" if "j < length xs" for xs
    using that by (induction xs arbitrary: j) (auto split: nat.splits)
  from this[of "take k as"] show ?thesis using True assms by (simp add: psum_def take_update_swap)
next
  case False
  then show ?thesis by (simp add: psum_def take_update_swap list_update_beyond)
qed

text \<open>No more is granted than there are elements, and no more is claimed than granted.\<close>

lemma psum_le:
  assumes "\<forall>j<length as. f (as ! j) \<le> g (as ! j)"
  shows "k \<le> length as \<Longrightarrow> psum f k as \<le> psum g k as"
  by (induction k) (use assms in \<open>auto simp: psum_Suc intro: add_mono\<close>)

lemma granted_le_cells:
  assumes "attempts_ok s"
  shows "asum granted (q_attempts s) \<le> length (q_cells s)"
proof -
  let ?as = "q_attempts s"
  have "psum granted k ?as \<le> length (q_cells s)" if "k \<le> length ?as" for k
    using that
  proof (induction k)
    case (Suc k)
    then have k: "k < length ?as" by simp
    have "psum granted k ?as + psum given_back k ?as \<le> psum amount k ?as"
      using k
    proof (induction k)
      case (Suc k)
      then have "granted (?as ! k) + given_back (?as ! k) \<le> amount (?as ! k)" using assms by (simp add: attempts_ok_def)
      then show ?case using Suc by (simp add: psum_Suc)
    qed simp
    moreover have "granted (?as ! k) > 0 \<longrightarrow> psum amount k ?as + granted (?as ! k) \<le> length (q_cells s) + psum given_back k ?as"
      using assms k by (simp add: attempts_ok_def)
    ultimately show ?case using Suc k by (cases "granted (?as ! k) > 0") (auto simp: psum_Suc)
  qed simp
  then show ?thesis by simp
qed

lemma claimed_le_cells:
  assumes "attempts_ok s"
  shows "asum claimed (q_attempts s) \<le> length (q_cells s)"
proof -
  have "asum claimed (q_attempts s) \<le> asum granted (q_attempts s)"
    using assms by (intro psum_le) (auto simp: attempts_ok_def)
  then show ?thesis using granted_le_cells[OF assms] by linarith
qed

lemma given_back_le_amount:
  assumes "attempts_ok s" "k \<le> length (q_attempts s)"
  shows "psum given_back k (q_attempts s) \<le> psum amount k (q_attempts s)"
  by (rule psum_le[OF _ assms(2)]) (use assms(1) in \<open>fastforce simp: attempts_ok_def\<close>)

section \<open>Preservation\<close>

lemma claims_sel [simp]:
  "q_tail (goto_pc i p s) = q_tail s" "q_head (goto_pc i p s) = q_head s" "q_opt (goto_pc i p s) = q_opt s"
  "q_over (goto_pc i p s) = q_over s" "q_cells (goto_pc i p s) = q_cells s" "q_building (goto_pc i p s) = q_building s"
  "q_attempts (goto_pc i p s) = q_attempts s" "q_enqueued (goto_pc i p s) = q_enqueued s" "q_log (goto_pc i p s) = q_log s"
  "q_consumers (goto_pc i p s) = (q_consumers s)[i := p]"
  "q_tail (note_attempt j f s) = q_tail s" "q_head (note_attempt j f s) = q_head s" "q_opt (note_attempt j f s) = q_opt s"
  "q_over (note_attempt j f s) = q_over s" "q_cells (note_attempt j f s) = q_cells s" "q_building (note_attempt j f s) = q_building s"
  "q_attempts (note_attempt j f s) = (q_attempts s)[j := f (q_attempts s ! j)]"
  "q_enqueued (note_attempt j f s) = q_enqueued s" "q_log (note_attempt j f s) = q_log s" "q_consumers (note_attempt j f s) = q_consumers s"
  by (simp_all add: goto_pc_def note_attempt_def)

lemma consumer_ok_mono:
  assumes "consumer_ok s q" "length (q_cells s) \<le> length (q_cells s')" "length (q_attempts s) \<le> length (q_attempts s')"
    and "\<forall>j<length (q_attempts s). pending q = Some j \<longrightarrow> q_attempts s' ! j = q_attempts s ! j"
    and "\<forall>j<length (q_attempts s). psum amount j (q_attempts s') = psum amount j (q_attempts s) \<and>
          psum given_back j (q_attempts s) \<le> psum given_back j (q_attempts s')"
    and "asum given_back (q_attempts s) \<le> asum given_back (q_attempts s')" "asum claimed (q_attempts s) \<le> asum claimed (q_attempts s')"
  shows "consumer_ok s' q"
  using assms by (cases q) (auto intro: order_trans)

lemma consumers_move:
  assumes c: "consumers_ok s" and i: "i < length (q_consumers s)" and s': "q_consumers s' = (q_consumers s)[i := p]"
    and p: "consumer_ok s' p"
    and t: "taking p \<subseteq> taking (q_consumers s ! i) \<or> (\<forall>i'<length (q_consumers s). i' \<noteq> i \<longrightarrow> taking p \<inter> taking (q_consumers s ! i') = {})"
    and n: "pending p = None \<or> pending p = pending (q_consumers s ! i) \<or> (\<forall>i'<length (q_consumers s). i' \<noteq> i \<longrightarrow> pending (q_consumers s ! i') \<noteq> pending p)"
    and m: "\<And>i'. i' < length (q_consumers s) \<Longrightarrow> i' \<noteq> i \<Longrightarrow> consumer_ok s (q_consumers s ! i') \<Longrightarrow>
      (pending (q_consumers s ! i') = None \<or> pending (q_consumers s ! i') \<noteq> pending (q_consumers s ! i)) \<Longrightarrow> consumer_ok s' (q_consumers s ! i')"
  shows "consumers_ok s'"
proof -
  have ok: "consumer_ok s' (q_consumers s' ! k)" if "k < length (q_consumers s')" for k
    using that c i p m[of k] s' by (cases "k = i") (auto simp: consumers_ok_def)
  have other: "taking p \<inter> taking (q_consumers s ! k) = {}" "pending p = None \<or> pending p \<noteq> pending (q_consumers s ! k)"
    if "k < length (q_consumers s)" "k \<noteq> i" for k
  proof -
    have pair: "taking (q_consumers s ! i) \<inter> taking (q_consumers s ! k) = {}"
        "pending (q_consumers s ! i) = None \<or> pending (q_consumers s ! i) \<noteq> pending (q_consumers s ! k)"
      using c i that by (auto simp: consumers_ok_def)
    show "taking p \<inter> taking (q_consumers s ! k) = {}" using t pair(1) that by blast
    show "pending p = None \<or> pending p \<noteq> pending (q_consumers s ! k)" using n pair(2) that by metis
  qed
  have pairs: "taking (q_consumers s' ! k) \<inter> taking (q_consumers s' ! k') = {} \<and>
      (pending (q_consumers s' ! k) = None \<or> pending (q_consumers s' ! k) \<noteq> pending (q_consumers s' ! k'))"
    if k: "k < length (q_consumers s')" "k' < length (q_consumers s')" "k \<noteq> k'" for k k'
  proof -
    consider "k = i" "k' \<noteq> i" | "k \<noteq> i" "k' = i" | "k \<noteq> i" "k' \<noteq> i" using k(3) by blast
    then show ?thesis
    proof cases
      case 1
      then show ?thesis using other[of k'] i k s' by simp
    next
      case 2
      have "taking (q_consumers s ! k) \<inter> taking p = {}" using other(1)[of k] 2 k s' by (simp add: Int_commute)
      then show ?thesis using other(2)[of k] 2 i k s' by auto
    next
      case 3
      then show ?thesis using c k s' by (auto simp: consumers_ok_def)
    qed
  qed
  show ?thesis using ok pairs unfolding consumers_ok_def by blast
qed

lemma no_attempt_lost_move:
  assumes "no_attempt_lost s" "i < length (q_consumers s)" "q_consumers s' = (q_consumers s)[i := p]"
    and "\<And>j. j < length (q_attempts s) \<Longrightarrow> settled (q_attempts s ! j) \<Longrightarrow> pending (q_consumers s ! i) \<noteq> Some j \<Longrightarrow> settled (q_attempts s' ! j)"
    and "\<And>j. j < length (q_attempts s') \<Longrightarrow> j \<ge> length (q_attempts s) \<or> pending (q_consumers s ! i) = Some j \<Longrightarrow>
      settled (q_attempts s' ! j) \<or> pending p = Some j"
  shows "no_attempt_lost s'"
  unfolding no_attempt_lost_def
proof (intro allI impI)
  fix j assume j: "j < length (q_attempts s')"
  have p: "q_consumers s' ! i = p" "length (q_consumers s') = length (q_consumers s)" using assms(2,3) by auto
  consider "j \<ge> length (q_attempts s) \<or> pending (q_consumers s ! i) = Some j"
    | "j < length (q_attempts s)" "pending (q_consumers s ! i) \<noteq> Some j" by linarith
  then show "settled (q_attempts s' ! j) \<or> (\<exists>i<length (q_consumers s'). pending (q_consumers s' ! i) = Some j)"
  proof cases
    case 1
    then show ?thesis using assms(5)[OF j] p assms(2) by auto
  next
    case 2
    show ?thesis
    proof (cases "settled (q_attempts s ! j)")
      case True
      then show ?thesis using assms(4) 2 by blast
    next
      case False
      then obtain k where k: "k < length (q_consumers s)" "pending (q_consumers s ! k) = Some j"
        using assms(1) 2(1) by (auto simp: no_attempt_lost_def)
      then have "k \<noteq> i" using 2(2) by auto
      then show ?thesis using k assms(3) by (intro disjI2 exI[of _ k]) simp
    qed
  qed
qed

lemma cells_ok_move:
  assumes "cells_ok s" "i < length (q_consumers s)" "q_consumers s' = (q_consumers s)[i := p]"
    and "q_cells s' = q_cells s" "q_enqueued s' = q_enqueued s"
    and "\<And>k. k < length (q_cells s) \<Longrightarrow>
      (asum claimed (q_attempts s') \<le> k \<or> k \<in> taking p) \<longleftrightarrow> (asum claimed (q_attempts s) \<le> k \<or> k \<in> taking (q_consumers s ! i))"
  shows "cells_ok s'"
proof -
  have "(asum claimed (q_attempts s') \<le> k \<or> (\<exists>j<length (q_consumers s'). k \<in> taking (q_consumers s' ! j))) \<longleftrightarrow>
      (asum claimed (q_attempts s) \<le> k \<or> (\<exists>j<length (q_consumers s). k \<in> taking (q_consumers s ! j)))"
    if "k < length (q_cells s)" for k
  proof -
    have "(\<exists>j<length (q_consumers s'). k \<in> taking (q_consumers s' ! j)) \<longleftrightarrow>
        k \<in> taking p \<or> (\<exists>j<length (q_consumers s). j \<noteq> i \<and> k \<in> taking (q_consumers s ! j))"
      using assms(2,3) by (metis length_list_update nth_list_update_eq nth_list_update_neq)
    then show ?thesis using assms(6)[OF that] assms(2) by blast
  qed
  then show ?thesis using assms(1,4,5) by (simp add: cells_ok_def)
qed

text \<open>Steps that change nothing but where a consumer is.\<close>

lemma claims_inv_goto:
  assumes v: "claims_inv s" and i: "i < length (q_consumers s)"
    and p: "consumer_ok s p" "pending (q_consumers s ! i) = None" "pending p = None" "taking p = {}" "taking (q_consumers s ! i) = {}"
  shows "claims_inv (goto_pc i p s)"
proof -
  have "consumers_ok (goto_pc i p s)"
  proof (rule consumers_move[of s i _ p])
    show "consumer_ok (goto_pc i p s) p" by (rule consumer_ok_mono[OF p(1)]) auto
    fix i' assume "consumer_ok s (q_consumers s ! i')"
    then show "consumer_ok (goto_pc i p s) (q_consumers s ! i')" by (rule consumer_ok_mono) auto
  qed (use v i p in \<open>auto simp: claims_inv_def\<close>)
  moreover have "no_attempt_lost (goto_pc i p s)"
    by (rule no_attempt_lost_move[of s i _ p]) (use v i p in \<open>auto simp: claims_inv_def\<close>)
  moreover have "cells_ok (goto_pc i p s)"
    by (rule cells_ok_move[of s i _ p]) (use v i p in \<open>auto simp: claims_inv_def\<close>)
  ultimately show ?thesis using v by (simp add: claims_inv_def attempts_ok_def counters_ok_def log_ok_def)
qed

lemma claims_inv_announce:
  assumes v: "claims_inv s" and i: "i < length (q_consumers s)" "q_consumers s ! i = C_announce d over" and f: "few s'"
    and s': "claim_step i (C_announce d over) s = Some s'"
  shows "claims_inv s'"
proof -
  let ?a = "\<lparr> amount = unat d, granted = 0, given_back = 0, claimed = 0 \<rparr>"
  let ?p = "C_decide d over (q_opt s) (length (q_attempts s))"
  have e: "q_tail s' = q_tail s" "q_head s' = q_head s" "q_opt s' = q_opt s + d" "q_over s' = q_over s" "q_cells s' = q_cells s"
    "q_attempts s' = q_attempts s @ [?a]" "q_enqueued s' = q_enqueued s" "q_log s' = q_log s" "q_consumers s' = (q_consumers s)[i := ?p]"
    using s' by (auto simp: Let_def)
  note v' = v[unfolded claims_inv_def]
  have op: "consumer_ok s (C_announce d over)" using v' i by (metis consumers_ok_def)
  have am: "asum amount (q_attempts s) < 2 ^ 63" using f e(6) by (simp add: few_def)
  have "unat (q_opt s) = asum amount (q_attempts s)" using v' am by (simp add: counters_ok_def unat_of_nat_small)
  then have pp: "consumer_ok s' ?p" using op e by simp
  have "consumers_ok s'"
  proof (rule consumers_move[of s i s' ?p])
    show "pending ?p = None \<or> pending ?p = pending (q_consumers s ! i) \<or>
        (\<forall>i'<length (q_consumers s). i' \<noteq> i \<longrightarrow> pending (q_consumers s ! i') \<noteq> pending ?p)"
    proof (intro disjI2 allI impI)
      fix i' assume "i' < length (q_consumers s)"
      then have "consumer_ok s (q_consumers s ! i')" using v' by (simp add: consumers_ok_def)
      then show "pending (q_consumers s ! i') \<noteq> pending ?p" by (cases "q_consumers s ! i'") auto
    qed
    fix i' assume "consumer_ok s (q_consumers s ! i')"
    then show "consumer_ok s' (q_consumers s ! i')" by (rule consumer_ok_mono) (auto simp: e nth_append)
  qed (use v' i e pp in auto)
  moreover have "no_attempt_lost s'"
    by (rule no_attempt_lost_move[of s i _ ?p]) (use v' i e in \<open>auto simp: nth_append\<close>)
  moreover have "cells_ok s'" by (rule cells_ok_move[of s i _ ?p]) (use v' i e in auto)
  moreover have "attempts_ok s'" using v' e by (auto simp: attempts_ok_def nth_append less_Suc_eq)
  moreover have "counters_ok s'" using v' e by (simp add: counters_ok_def)
  moreover have "log_ok s'" using v' e by (simp add: log_ok_def)
  ultimately show ?thesis by (simp add: claims_inv_def)
qed

text \<open>The update of the own attempt leaves the others alone.\<close>

lemma psum_below [simp]: "k \<le> j \<Longrightarrow> psum f k (as[j := a]) = psum f k as"
  by (simp add: psum_def take_update_swap list_update_beyond)

lemma psum_unchanged: "j < length as \<Longrightarrow> f a = f (as ! j) \<Longrightarrow> psum f k (as[j := a]) = psum f k as"
  using psum_update[of j as f k a] by (cases "j < k") auto

lemma psum_set: "j < length as \<Longrightarrow> f (as ! j) = 0 \<Longrightarrow> psum f k (as[j := a]) = psum f k as + (if j < k then f a else 0)"
  using psum_update[of j as f k a] by (auto split: if_splits)

text \<open>The comparison with the tail is exact.\<close>

lemma ahead_of:
  assumes "unat x < 2 ^ 63" "unat y < 2 ^ 63"
  shows "circular_less_than 0 (x - y) \<longleftrightarrow> unat y < unat x" "unat y < unat x \<Longrightarrow> unat (x - y) = unat x - unat y"
proof -
  show "unat y < unat x \<Longrightarrow> unat (x - y) = unat x - unat y" by (simp add: unat_minus_small)
  have e: "0 - (x - y) = y - x" by simp
  show "circular_less_than 0 (x - y) \<longleftrightarrow> unat y < unat x"
  proof (cases "unat y < unat x")
    case True
    then have "unat (y - x) = unat y + 2 ^ 64 - unat x" by (rule unat_minus_wrap)
    then show ?thesis using True assms unfolding circular_less_than_def e by (simp add: word_less_nat_alt)
  next
    case False
    then have "unat (y - x) = unat y - unat x" by (simp add: unat_minus_small)
    then show ?thesis using False assms unfolding circular_less_than_def e by (simp add: word_less_nat_alt)
  qed
qed

lemma unat_min: "unat (if d < a then d else a) = min (unat d) (unat a)"
  by (auto simp: word_less_nat_alt min_def)

lemma claims_inv_own:
  assumes v: "claims_inv s" and i: "i < length (q_consumers s)" "pending (q_consumers s ! i) = Some j" "taking (q_consumers s ! i) = {}"
    and j: "j < length (q_attempts s)"
    and e: "q_tail s' = q_tail s" "q_opt s' = q_opt s" "q_cells s' = q_cells s" "q_enqueued s' = q_enqueued s" "q_log s' = q_log s"
      "q_consumers s' = (q_consumers s)[i := p]" "q_attempts s' = (q_attempts s)[j := a]"
    and a: "amount a = amount (q_attempts s ! j)" "given_back a \<ge> given_back (q_attempts s ! j)" "claimed a \<ge> claimed (q_attempts s ! j)"
    and p: "consumer_ok s' p" "pending p = None \<or> pending p = Some j" "settled a \<or> pending p = Some j"
      "taking p = {} \<or> (\<forall>i'<length (q_consumers s). taking p \<inter> taking (q_consumers s ! i') = {})"
    and c: "cells_ok s'" "attempts_ok s'" "counters_ok s'"
  shows "claims_inv s'"
proof -
  have g: "psum given_back k (q_attempts s) \<le> psum given_back k (q_attempts s')" "psum claimed k (q_attempts s) \<le> psum claimed k (q_attempts s')"
    "psum amount k (q_attempts s') = psum amount k (q_attempts s)" for k
    using psum_update[OF j, of given_back k a] psum_update[OF j, of claimed k a] psum_unchanged[OF j a(1)] a e(7)
    by (auto split: if_splits)
  have "consumers_ok s'"
  proof (rule consumers_move[of s i s' p])
    fix i' assume "consumer_ok s (q_consumers s ! i')"
      "pending (q_consumers s ! i') = None \<or> pending (q_consumers s ! i') \<noteq> pending (q_consumers s ! i)"
    then show "consumer_ok s' (q_consumers s ! i')"
      using g i e by (intro consumer_ok_mono[of s _ s']) auto
  qed (use v i e p in \<open>auto simp: claims_inv_def\<close>)
  moreover have "no_attempt_lost s'"
  proof (rule no_attempt_lost_move[of s i s' p])
    fix k assume "k < length (q_attempts s')" "k \<ge> length (q_attempts s) \<or> pending (q_consumers s ! i) = Some k"
    then have "k = j" using i(2) e(7) by auto
    then show "settled (q_attempts s' ! k) \<or> pending p = Some k" using p(3) e(7) j by simp
  qed (use v i e in \<open>auto simp: claims_inv_def nth_list_update\<close>)
  moreover have "log_ok s'" using v e by (simp add: claims_inv_def log_ok_def)
  ultimately show ?thesis using c by (simp add: claims_inv_def)
qed

lemma claims_inv_decide:
  assumes v: "claims_inv s" and i: "i < length (q_consumers s)" "q_consumers s ! i = C_decide d over my j" and f: "few s"
    and s': "claim_step i (C_decide d over my j) s = Some s'"
  shows "claims_inv s'"
proof -
  note v' = v[unfolded claims_inv_def]
  let ?as = "q_attempts s" and ?T = "length (q_cells s)"
  have op: "j < length ?as" "?as ! j = \<lparr> amount = unat d, granted = 0, given_back = 0, claimed = 0 \<rparr>"
      "unat my = psum amount j ?as" "unat over \<le> psum given_back j ?as"
    using v' i by (auto simp: consumers_ok_def dest!: spec[of _ i])
  have le: "psum given_back j ?as \<le> psum amount j ?as" using v' op(1) by (intro given_back_le_amount) auto
  have am: "asum amount ?as < 2 ^ 63" "?T < 2 ^ 63" using f by (auto simp: few_def)
  have "psum amount j ?as \<le> asum amount ?as" using op(1) by (intro psum_mono) simp
  then have m63: "psum amount j ?as < 2 ^ 63" using am(1) by linarith
  have uv: "unat (my - over) = psum amount j ?as - unat over" using op(3,4) le by (simp add: unat_minus_small)
  have ut: "unat (q_tail s) = ?T" using v' am(2) by (simp add: counters_ok_def unat_of_nat_small)
  let ?M = "psum amount j ?as - unat over" and ?actual = "q_tail s - (my - over)"
  have cmp: "circular_less_than 0 ?actual \<longleftrightarrow> ?M < ?T" "?M < ?T \<Longrightarrow> unat ?actual = ?T - ?M"
    using ahead_of[of "q_tail s" "my - over"] am(2) m63 uv ut by auto
  define a where "a = (if circular_less_than 0 ?actual then (if d < ?actual then d else ?actual) else 0)"
  have ua: "unat a = (if ?M < ?T then min (unat d) (?T - ?M) else 0)" using cmp by (simp add: a_def unat_min)
  have ad: "unat a \<le> unat d" by (simp add: ua)
  define p where "p = (if circular_less_than 0 ?actual \<and> \<not> a < d then C_claim a j else C_return (d - a) a j)"
  let ?b = "granted_update (\<lambda>_. unat a) (?as ! j)"
  have same: "?as[j := \<lparr> amount = unat d, granted = 0, given_back = 0, claimed = 0 \<rparr>] = ?as"
    using list_update_id[of ?as j] op(2) by simp
  have ev: "q_consumers s' = (q_consumers s)[i := p]" "q_tail s' = q_tail s" "q_head s' = q_head s" "q_opt s' = q_opt s" "q_over s' = q_over s"
      "q_cells s' = q_cells s" "q_enqueued s' = q_enqueued s" "q_log s' = q_log s" "q_attempts s' = ?as[j := ?b]"
    using s' op(1,2) same by (auto simp: Let_def p_def a_def split: if_splits)
  have nth: "q_attempts s' ! j = ?b" using ev(9) op(1) by simp
  have da: "unat (d - a) = unat d - unat a" using ad by (simp add: unat_minus_small)
  have pok: "consumer_ok s' p"
  proof (cases "circular_less_than 0 ?actual \<and> \<not> a < d")
    case True
    then have "unat a = unat d" using ad by (auto simp: word_less_nat_alt)
    then show ?thesis using True nth op ev(9) by (simp add: p_def)
  next
    case False
    then have "p = C_return (d - a) a j" by (simp add: p_def)
    then show ?thesis using nth op ev(9) da ad by simp
  qed
  have sums: "psum f k (q_attempts s') = psum f k ?as" if "f ?b = f (?as ! j)" for f k
    using psum_unchanged[where f = f and a = ?b and j = j and as = ?as, OF op(1) that] ev(9) by simp
  have len: "length (q_attempts s') = length ?as" using ev(9) by simp
  have c: "cells_ok s'"
  proof (rule cells_ok_move[of s i s' p])
    show "(asum claimed (q_attempts s') \<le> k \<or> k \<in> taking p) \<longleftrightarrow> (asum claimed ?as \<le> k \<or> k \<in> taking (q_consumers s ! i))" for k
      using i(2) sums[of claimed] len by (simp add: p_def)
  qed (use v' i ev in auto)
  have at: "attempts_ok s'"
    unfolding attempts_ok_def
  proof (intro allI impI)
    fix k assume k: "k < length (q_attempts s')"
    show "granted (q_attempts s' ! k) + given_back (q_attempts s' ! k) \<le> amount (q_attempts s' ! k) \<and>
        claimed (q_attempts s' ! k) \<le> granted (q_attempts s' ! k) \<and>
        (granted (q_attempts s' ! k) > 0 \<longrightarrow>
           psum amount k (q_attempts s') + granted (q_attempts s' ! k) \<le> length (q_cells s') + psum given_back k (q_attempts s'))"
    proof (cases "k = j")
      case True
      have "psum amount j ?as + unat a \<le> ?T + psum given_back j ?as" if "unat a > 0"
        using that ua op(4) le by (auto split: if_splits)
      then show ?thesis using True nth op(2) ad sums[of amount] sums[of given_back] ev(6) by simp
    next
      case False
      then have "q_attempts s' ! k = ?as ! k" "k < length ?as" using ev(9) k by simp_all
      then show ?thesis using v' sums[of amount] sums[of given_back] ev(6) by (simp add: attempts_ok_def)
    qed
  qed
  have co: "counters_ok s'" using v' ev sums[of amount] sums[of given_back] sums[of claimed] len by (simp add: counters_ok_def)
  show ?thesis
    by (rule claims_inv_own[OF v i(1) _ _ op(1) ev(2,4,6,7,8,1,9)]) (use i(2) op(2) pok c at co in \<open>auto simp: p_def\<close>)
qed

lemma claims_inv_return:
  assumes v: "claims_inv s" and i: "i < length (q_consumers s)" "q_consumers s ! i = C_return k a j"
    and s': "claim_step i (C_return k a j) s = Some s'"
  shows "claims_inv s'"
proof -
  note v' = v[unfolded claims_inv_def]
  let ?as = "q_attempts s" and ?p = "if a = 0 then C_idle else C_claim a j"
  have op: "j < length ?as" "?as ! j = \<lparr> amount = unat k + unat a, granted = unat a, given_back = 0, claimed = 0 \<rparr>"
    using v' i by (auto simp: consumers_ok_def dest!: spec[of _ i])
  let ?b = "given_back_update (\<lambda>_. unat k) (?as ! j)"
  have ev: "q_consumers s' = (q_consumers s)[i := ?p]" "q_tail s' = q_tail s" "q_head s' = q_head s" "q_opt s' = q_opt s" "q_over s' = q_over s + k"
      "q_cells s' = q_cells s" "q_enqueued s' = q_enqueued s" "q_log s' = q_log s" "q_attempts s' = ?as[j := ?b]"
    using s' by auto
  have nth: "q_attempts s' ! j = ?b" using ev(9) op(1) by simp
  have sums: "psum f n (q_attempts s') = psum f n ?as" if "f ?b = f (?as ! j)" for f n
    using psum_unchanged[where f = f and a = ?b and j = j and as = ?as, OF op(1) that] ev(9) by simp
  have gb: "psum given_back n (q_attempts s') = psum given_back n ?as + (if j < n then unat k else 0)" for n
    using psum_set[of j ?as given_back n ?b] op ev(9) by simp
  have len: "length (q_attempts s') = length ?as" using ev(9) by simp
  have c: "cells_ok s'"
  proof (rule cells_ok_move[of s i s' ?p])
    show "(asum claimed (q_attempts s') \<le> n \<or> n \<in> taking ?p) \<longleftrightarrow> (asum claimed ?as \<le> n \<or> n \<in> taking (q_consumers s ! i))" for n
      using i(2) sums[of claimed] len by simp
  qed (use v' i ev in auto)
  have at: "attempts_ok s'"
    unfolding attempts_ok_def
  proof (intro allI impI)
    fix n assume n: "n < length (q_attempts s')"
    have old: "granted (?as ! n) + given_back (?as ! n) \<le> amount (?as ! n)" "claimed (?as ! n) \<le> granted (?as ! n)"
        "granted (?as ! n) > 0 \<longrightarrow> psum amount n ?as + granted (?as ! n) \<le> length (q_cells s) + psum given_back n ?as"
      using v' n len by (auto simp: attempts_ok_def)
    have "granted (q_attempts s' ! n) = granted (?as ! n)" "amount (q_attempts s' ! n) = amount (?as ! n)"
        "claimed (q_attempts s' ! n) = claimed (?as ! n)"
      using ev(9) n by (cases "n = j"; simp)+
    moreover have "given_back (q_attempts s' ! n) = (if n = j then unat k else given_back (?as ! n))" using ev(9) n by simp
    ultimately show "granted (q_attempts s' ! n) + given_back (q_attempts s' ! n) \<le> amount (q_attempts s' ! n) \<and>
        claimed (q_attempts s' ! n) \<le> granted (q_attempts s' ! n) \<and>
        (granted (q_attempts s' ! n) > 0 \<longrightarrow>
           psum amount n (q_attempts s') + granted (q_attempts s' ! n) \<le> length (q_cells s') + psum given_back n (q_attempts s'))"
      using old op(2) sums[of amount] gb ev(6) by auto
  qed
  have co: "counters_ok s'" using v' ev sums[of amount] sums[of claimed] gb len op(1) by (simp add: counters_ok_def)
  show ?thesis
    by (rule claims_inv_own[OF v i(1) _ _ op(1) ev(2,4,6,7,8,1,9)])
      (use i(2) op nth ev(9) c at co in \<open>auto simp: settled_def unat_eq_zero\<close>)
qed

lemma claims_inv_claim:
  assumes v: "claims_inv s" and i: "i < length (q_consumers s)" "q_consumers s ! i = C_claim a j" and f: "few s"
    and s': "claim_step i (C_claim a j) s = Some s'"
  shows "claims_inv s'"
proof -
  note v' = v[unfolded claims_inv_def]
  let ?as = "q_attempts s" and ?p = "C_take (q_head s) (q_head s + a)" and ?H = "asum claimed (q_attempts s)"
  have op: "j < length ?as" "granted (?as ! j) = unat a" "claimed (?as ! j) = 0" "granted (?as ! j) + given_back (?as ! j) = amount (?as ! j)"
    using v' i by (auto simp: consumers_ok_def dest!: spec[of _ i])
  let ?b = "claimed_update (\<lambda>_. unat a) (?as ! j)"
  have ev: "q_consumers s' = (q_consumers s)[i := ?p]" "q_tail s' = q_tail s" "q_head s' = q_head s + a" "q_opt s' = q_opt s" "q_over s' = q_over s"
      "q_cells s' = q_cells s" "q_enqueued s' = q_enqueued s" "q_log s' = q_log s" "q_attempts s' = ?as[j := ?b]"
    using s' by (auto simp: Let_def)
  have nth: "q_attempts s' ! j = ?b" using ev(9) op(1) by simp
  have sums: "psum f n (q_attempts s') = psum f n ?as" if "f ?b = f (?as ! j)" for f n
    using psum_unchanged[where f = f and a = ?b and j = j and as = ?as, OF op(1) that] ev(9) by simp
  have len: "length (q_attempts s') = length ?as" using ev(9) by simp
  have cl: "asum claimed (q_attempts s') = ?H + unat a"
    using psum_set[of j ?as claimed "length ?as" ?b] op ev(9) by simp
  have at: "attempts_ok s'"
    unfolding attempts_ok_def
  proof (intro allI impI)
    fix n assume n: "n < length (q_attempts s')"
    have old: "granted (?as ! n) + given_back (?as ! n) \<le> amount (?as ! n)" "claimed (?as ! n) \<le> granted (?as ! n)"
        "granted (?as ! n) > 0 \<longrightarrow> psum amount n ?as + granted (?as ! n) \<le> length (q_cells s) + psum given_back n ?as"
      using v' n len by (auto simp: attempts_ok_def)
    have "granted (q_attempts s' ! n) = granted (?as ! n)" "amount (q_attempts s' ! n) = amount (?as ! n)"
        "given_back (q_attempts s' ! n) = given_back (?as ! n)" "claimed (q_attempts s' ! n) = (if n = j then unat a else claimed (?as ! n))"
      using ev(9) n by (cases "n = j"; simp)+
    then show "granted (q_attempts s' ! n) + given_back (q_attempts s' ! n) \<le> amount (q_attempts s' ! n) \<and>
        claimed (q_attempts s' ! n) \<le> granted (q_attempts s' ! n) \<and>
        (granted (q_attempts s' ! n) > 0 \<longrightarrow>
           psum amount n (q_attempts s') + granted (q_attempts s' ! n) \<le> length (q_cells s') + psum given_back n (q_attempts s'))"
      using old op(2) sums[of amount] sums[of given_back] ev(6) by auto
  qed
  have Hle: "?H + unat a \<le> length (q_cells s)" using claimed_le_cells[OF at] cl ev(6) by simp
  have T63: "length (q_cells s) < 2 ^ 63" using f by (simp add: few_def)
  have uh: "unat (q_head s) = ?H" using v' Hle T63 by (simp add: counters_ok_def unat_of_nat_small)
  have uha: "unat (q_head s + a) = ?H + unat a" using uh Hle T63 by (subst unat_plus_small) auto
  have c: "cells_ok s'"
  proof (rule cells_ok_move[of s i s' ?p])
    show "(asum claimed (q_attempts s') \<le> n \<or> n \<in> taking ?p) \<longleftrightarrow> (?H \<le> n \<or> n \<in> taking (q_consumers s ! i))" for n
      using i(2) cl uh uha by auto
  qed (use v' i ev in auto)
  have co: "counters_ok s'" using v' ev sums[of amount] sums[of given_back] cl len by (simp add: counters_ok_def)
  have tk: "taking ?p \<inter> taking (q_consumers s ! i') = {}" if "i' < length (q_consumers s)" for i'
  proof -
    have "consumer_ok s (q_consumers s ! i')" using v' that by (simp add: consumers_ok_def)
    then have "taking (q_consumers s ! i') \<subseteq> {..<?H}" by (cases "q_consumers s ! i'") auto
    then show ?thesis using uh by auto
  qed
  show ?thesis
    by (rule claims_inv_own[OF v i(1) _ _ op(1) ev(2,4,6,7,8,1,9)])
      (use i(2) op nth ev(9) c at co tk uh uha cl in \<open>auto simp: settled_def\<close>)
qed

lemma claims_take_present:
  assumes v: "claims_inv s" and i: "i < length (q_consumers s)" "q_consumers s ! i = C_take n m" "n \<noteq> m"
  shows "unat n < unat m \<and> unat n < length (q_cells s) \<and> q_cells s ! unat n = Some (q_enqueued s ! unat n)"
proof -
  note v' = v[unfolded claims_inv_def]
  have "consumer_ok s (C_take n m)" using v' i by (metis consumers_ok_def)
  then have nm: "unat n < unat m" "unat m \<le> asum claimed (q_attempts s)"
    using i(3) by (auto simp: order_le_less word_unat_eq_iff)
  have "attempts_ok s" using v' by blast
  then have l: "unat n < length (q_cells s)" using nm claimed_le_cells[of s] by linarith
  have "unat n \<in> taking (q_consumers s ! i)" using i(2) nm by simp
  then have "q_cells s ! unat n \<noteq> None" using v' l i(1) unfolding cells_ok_def by blast
  then show ?thesis using v' l nm unfolding cells_ok_def by blast
qed

lemma claims_inv_take:
  assumes v: "claims_inv s" and i: "i < length (q_consumers s)" "q_consumers s ! i = C_take n m" "n \<noteq> m"
    and s': "claim_step i (C_take n m) s = Some s'"
  shows "claims_inv s'"
proof -
  note v' = v[unfolded claims_inv_def]
  let ?p = "C_take (n + 1) m" and ?k = "unat n"
  have pr: "?k < unat m" "?k < length (q_cells s)" "q_cells s ! ?k = Some (q_enqueued s ! ?k)"
    using claims_take_present[OF v i] by auto
  have ev: "q_consumers s' = (q_consumers s)[i := ?p]" "q_tail s' = q_tail s" "q_head s' = q_head s" "q_opt s' = q_opt s" "q_over s' = q_over s"
      "q_cells s' = (q_cells s)[?k := None]" "q_enqueued s' = q_enqueued s" "q_log s' = q_log s @ [(?k, q_enqueued s ! ?k)]" "q_attempts s' = q_attempts s"
    using s' pr i(3) by auto
  have u1: "unat (n + 1) = Suc ?k" using pr(1) unat_lt_64[of m] by (subst unat_plus_small) auto
  have op: "consumer_ok s (C_take n m)" using v' i by (metis consumers_ok_def)
  have co: "consumers_ok s'"
  proof (rule consumers_move[of s i s' ?p])
    show "consumer_ok s' ?p" using op u1 pr(1) ev(9) by simp
    show "taking ?p \<subseteq> taking (q_consumers s ! i) \<or> (\<forall>i'<length (q_consumers s). i' \<noteq> i \<longrightarrow> taking ?p \<inter> taking (q_consumers s ! i') = {})"
      using i(2) u1 by auto
    fix i' assume "consumer_ok s (q_consumers s ! i')"
    then show "consumer_ok s' (q_consumers s ! i')" by (rule consumer_ok_mono) (auto simp: ev)
  qed (use v' i ev in auto)
  have na: "no_attempt_lost s'"
    by (rule no_attempt_lost_move[of s i _ ?p]) (use v' i ev in auto)
  have own: "?k \<notin> taking (q_consumers s ! j)" if "j < length (q_consumers s)" "j \<noteq> i" for j
  proof -
    have "taking (q_consumers s ! i) \<inter> taking (q_consumers s ! j) = {}" using v' that i(1) unfolding consumers_ok_def by blast
    moreover have "?k \<in> taking (q_consumers s ! i)" using i(2) pr(1) by simp
    ultimately show ?thesis by blast
  qed
  have ce: "cells_ok s'"
  proof -
    have "(q_cells s' ! k \<noteq> None \<longleftrightarrow> asum claimed (q_attempts s') \<le> k \<or> (\<exists>j<length (q_consumers s'). k \<in> taking (q_consumers s' ! j))) \<and>
        (q_cells s' ! k \<noteq> None \<longrightarrow> q_cells s' ! k = Some (q_enqueued s' ! k))" if k: "k < length (q_cells s')" for k
    proof -
      have old: "(q_cells s ! k \<noteq> None \<longleftrightarrow> asum claimed (q_attempts s) \<le> k \<or> (\<exists>j<length (q_consumers s). k \<in> taking (q_consumers s ! j)))"
          "(q_cells s ! k \<noteq> None \<longrightarrow> q_cells s ! k = Some (q_enqueued s ! k))" using v' k ev(6) by (auto simp: cells_ok_def)
      have ex: "(\<exists>j<length (q_consumers s'). k \<in> taking (q_consumers s' ! j)) \<longleftrightarrow>
          k \<in> taking ?p \<or> (\<exists>j<length (q_consumers s). j \<noteq> i \<and> k \<in> taking (q_consumers s ! j))"
        using i(1) ev(1) by (metis length_list_update nth_list_update_eq nth_list_update_neq)
      have ex0: "(\<exists>j<length (q_consumers s). k \<in> taking (q_consumers s ! j)) \<longleftrightarrow>
          k \<in> taking (q_consumers s ! i) \<or> (\<exists>j<length (q_consumers s). j \<noteq> i \<and> k \<in> taking (q_consumers s ! j))"
        using i(1) by blast
      show ?thesis
      proof (cases "k = ?k")
        case True
        have "unat m \<le> asum claimed (q_attempts s)" using op by simp
        then show ?thesis using True ex own pr(1,2) u1 ev(6,9) by auto
      next
        case False
        then have "k \<in> taking ?p \<longleftrightarrow> k \<in> taking (q_consumers s ! i)" using i(2) u1 by auto
        then show ?thesis using old ex ex0 False ev(6,7,9) by simp
      qed
    qed
    then show ?thesis using v' ev(6,7) by (simp add: cells_ok_def)
  qed
  have lo: "log_ok s'"
  proof -
    have l: "distinct (map fst (q_log s))" "set (q_log s) = {(k, q_enqueued s ! k) | k. k < length (q_cells s) \<and> q_cells s ! k = None}"
      using v' by (auto simp: log_ok_def)
    have "?k \<notin> fst ` set (q_log s)" unfolding l(2) using pr(3) by auto
    moreover have "set (q_log s') = {(k, q_enqueued s' ! k) | k. k < length (q_cells s') \<and> q_cells s' ! k = None}"
      unfolding ev using l(2) pr(2) by (auto simp: nth_list_update)
    ultimately show ?thesis using l(1) ev(8) by (simp add: log_ok_def)
  qed
  show ?thesis using v' ev co na ce lo by (simp add: claims_inv_def attempts_ok_def counters_ok_def)
qed

lemma claims_inv_publish:
  assumes v: "claims_inv s" and s': "s' = s \<lparr> q_cells := q_cells s @ [Some x], q_enqueued := q_enqueued s @ [x], q_building := None, q_tail := q_tail s + 1 \<rparr>"
  shows "claims_inv s'"
proof -
  note v' = v[unfolded claims_inv_def]
  have le: "asum claimed (q_attempts s) \<le> length (q_cells s)" using v' claimed_le_cells by blast
  have "attempts_ok s'" using v' s' by (force simp: attempts_ok_def)
  moreover have "counters_ok s'" using v' s' by (simp add: counters_ok_def)
  moreover have "consumers_ok s'"
  proof -
    have "consumer_ok s' p" if "consumer_ok s p" for p by (rule consumer_ok_mono[OF that]) (auto simp: s')
    then show ?thesis using v' s' by (simp add: consumers_ok_def)
  qed
  moreover have "no_attempt_lost s'" using v' s' by (simp add: no_attempt_lost_def)
  moreover have "cells_ok s'" using v' s' le by (auto simp: cells_ok_def nth_append less_Suc_eq)
  moreover have "log_ok s'"
  proof -
    have "{(k, q_enqueued s' ! k) | k. k < length (q_cells s') \<and> q_cells s' ! k = None} =
        {(k, q_enqueued s ! k) | k. k < length (q_cells s) \<and> q_cells s ! k = None}"
      using v' s' by (auto simp: cells_ok_def nth_append less_Suc_eq)
    then show ?thesis using v' s' by (simp add: log_ok_def)
  qed
  ultimately show ?thesis by (simp add: claims_inv_def)
qed

lemma claims_inv_build: "claims_inv (s \<lparr> q_building := b \<rparr>) = claims_inv s"
proof -
  have "consumer_ok (s \<lparr> q_building := b \<rparr>) p = consumer_ok s p" for p by (cases p) auto
  then show ?thesis
    by (simp add: claims_inv_def attempts_ok_def counters_ok_def consumers_ok_def no_attempt_lost_def cells_ok_def log_ok_def)
qed

lemma claims_inv_init: "claims_inv (claims_init n)"
  by (simp add: claims_inv_def claims_init_def attempts_ok_def counters_ok_def consumers_ok_def no_attempt_lost_def cells_ok_def log_ok_def)

lemma claims_exec_inv:
  assumes v: "claims_inv s" and f: "few s"
  shows "\<exists>s'. claim_exec e s = Some s'" and "claim_exec e s = Some s' \<Longrightarrow> few s' \<Longrightarrow> claims_inv s'"
proof -
  have pc: "consumer_ok s (q_consumers s ! i)" if "i < length (q_consumers s)" for i using v that by (simp add: claims_inv_def consumers_ok_def)
  show "\<exists>s'. claim_exec e s = Some s'"
  proof (cases e)
    case (Dequeue_Step i)
    show ?thesis
    proof (cases "i < length (q_consumers s)")
      case True
      then show ?thesis using Dequeue_Step claims_take_present[OF v True]
        by (cases "q_consumers s ! i") (auto simp: Let_def)
    qed (use Dequeue_Step in simp)
  qed (auto split: option.splits)
  assume s': "claim_exec e s = Some s'" and f': "few s'"
  show "claims_inv s'"
  proof (cases e)
    case (Call_Dequeue i most)
    have "length (q_cells s) < 2 ^ 63" using f by (simp add: few_def)
    moreover have "q_tail s = of_nat (length (q_cells s))" using v by (simp add: claims_inv_def counters_ok_def)
    ultimately have "unat (q_tail s) \<le> length (q_cells s)" by (simp add: unat_of_nat_small)
    then show ?thesis using s' v Call_Dequeue claims_inv_goto[OF v, of i "C_over most (q_tail s)"] by (auto split: if_splits)
  next
    case (Dequeue_Step i)
    show ?thesis
    proof (cases "i < length (q_consumers s)")
      case i: True
      then have st: "claim_step i (q_consumers s ! i) s = Some s'" using s' Dequeue_Step by simp
      show ?thesis
      proof (cases "q_consumers s ! i")
        case C_idle
        then show ?thesis using st v by simp
      next
        case (C_over most tail)
        have am: "asum amount (q_attempts s) < 2 ^ 63" using f by (simp add: few_def)
        have "attempts_ok s" using v by (simp add: claims_inv_def)
        then have "asum given_back (q_attempts s) < 2 ^ 63" using given_back_le_amount[of s "length (q_attempts s)"] am by simp
        then have "unat (q_over s) \<le> asum given_back (q_attempts s)" using v by (simp add: claims_inv_def counters_ok_def unat_of_nat_small)
        then show ?thesis using st v C_over pc[OF i] claims_inv_goto[OF v i, of "C_opt most tail (q_over s)"] by auto
      next
        case (C_opt most tail over)
        let ?p = "if circular_less_than 0 (tail - (q_opt s - over))
          then C_announce (if tail - (q_opt s - over) < most then tail - (q_opt s - over) else most) over else C_idle"
        have "s' = goto_pc i ?p s" using st C_opt by (auto simp: Let_def)
        moreover have "claims_inv (goto_pc i ?p s)" using pc[OF i] C_opt by (intro claims_inv_goto[OF v i]) auto
        ultimately show ?thesis by simp
      next
        case (C_announce d over)
        then show ?thesis using claims_inv_announce[OF v i C_announce f'] st by simp
      next
        case (C_decide d over my j)
        then show ?thesis using claims_inv_decide[OF v i C_decide f] st by simp
      next
        case (C_return k a j)
        then show ?thesis using claims_inv_return[OF v i C_return] st by simp
      next
        case (C_claim a j)
        then show ?thesis using claims_inv_claim[OF v i C_claim f] st by simp
      next
        case (C_take n m)
        show ?thesis
        proof (cases "n = m")
          case True
          then show ?thesis using st C_take claims_inv_goto[OF v i, of C_idle] by simp
        next
          case False
          then show ?thesis using claims_inv_take[OF v i C_take] st C_take by simp
        qed
      qed
    qed (use s' v Dequeue_Step in simp)
  next
    case (Construct x)
    then show ?thesis using s' v by (auto simp: claims_inv_build split: if_splits)
  next
    case Publish
    then show ?thesis using s' v claims_inv_publish[OF v] by (auto split: option.splits)
  qed
qed

text \<open>Elements and attempts never become fewer, so every state on the way is as small.\<close>

lemma few_before:
  assumes "claim_exec e s = Some s'" "few s'"
  shows "few s"
proof -
  have u: "psum amount (length (q_attempts s)) ((q_attempts s)[j := a]) = asum amount (q_attempts s)"
    if "amount a = amount (q_attempts s ! j)" for j a
    using psum_unchanged[of j "q_attempts s" amount] that by (cases "j < length (q_attempts s)") (simp_all add: list_update_beyond)
  show ?thesis
  proof (cases e)
    case (Dequeue_Step i)
    show ?thesis
    proof (cases "i < length (q_consumers s)")
      case True
      then show ?thesis
        using assms Dequeue_Step
        by (cases "q_consumers s ! i") (auto simp: few_def Let_def u split: if_splits option.splits)
    qed (use assms Dequeue_Step in simp)
  qed (use assms in \<open>auto simp: few_def split: if_splits option.splits\<close>)
qed

interpretation claims: safety_system claim_exec "claims_init n" "\<lambda>s. few s \<longrightarrow> claims_inv s" for n
  using claims_inv_init claims_exec_inv(2) few_before by unfold_locales blast+

text \<open>When no consumer is in a call, every attempt is settled.\<close>

lemma claims_quiescent:
  assumes v: "claims_inv s" and i: "\<forall>i<length (q_consumers s). q_consumers s ! i = C_idle" and f: "few s"
  shows "q_opt s - q_over s = q_head s" and "unat (q_head s) = length (q_log s)" and "fst ` set (q_log s) = {..<length (q_log s)}"
proof -
  note v' = v[unfolded claims_inv_def]
  let ?as = "q_attempts s"
  have st: "settled (?as ! j)" if "j < length ?as" for j
    using v' that i by (auto simp: no_attempt_lost_def)
  have "psum granted k ?as + psum given_back k ?as = psum amount k ?as \<and> psum claimed k ?as = psum granted k ?as" if "k \<le> length ?as" for k
    using that
  proof (induction k)
    case (Suc k)
    then show ?case using st[of k] by (simp add: psum_Suc settled_def)
  qed simp
  then have sum: "asum amount ?as = asum claimed ?as + asum given_back ?as" by force
  show "q_opt s - q_over s = q_head s" using v' sum by (simp add: counters_ok_def)
  have cl: "asum claimed ?as \<le> length (q_cells s)" using v' claimed_le_cells by blast
  have "asum claimed ?as < 2 ^ 63" using cl f by (simp add: few_def)
  then have uh: "unat (q_head s) = asum claimed ?as" using v' by (simp add: counters_ok_def unat_of_nat_small)
  have none: "q_cells s ! k = None \<longleftrightarrow> k < asum claimed ?as" if "k < length (q_cells s)" for k
    using v' that i by (auto simp: cells_ok_def)
  then have fs: "fst ` set (q_log s) = {..<asum claimed ?as}"
    using v' cl by (force simp: log_ok_def image_iff)
  have "card (fst ` set (q_log s)) = length (q_log s)"
    using v' by (metis distinct_card length_map list.set_map log_ok_def)
  then show "unat (q_head s) = length (q_log s)" "fst ` set (q_log s) = {..<length (q_log s)}" using fs uh by auto
qed

text \<open>
  C6. However any number of consumers and the producer interleave, as long as fewer than \<open>2 ^ 63\<close> elements have been
  enqueued and asked for, a consumer only ever takes an element that is there, every element is taken at most
  once and with its own index, and no announced attempt is lost: when no consumer is in a call, exactly the first
  \<open>headIndex\<close> elements have been taken and the optimistic count less the overcommit is \<open>headIndex\<close>, so the next
  dequeue finds the rest.
\<close>

theorem dequeue_claims_each_element_once:
  assumes "runs claim_exec es (claims_init n) = Some s" "few s"
  shows "claim_exec e s \<noteq> None \<and> distinct (map fst (q_log s)) \<and>
    (\<forall>(k, x)\<in>set (q_log s). k < length (q_enqueued s) \<and> x = q_enqueued s ! k) \<and>
    ((\<forall>i<length (q_consumers s). q_consumers s ! i = C_idle) \<longrightarrow>
       q_opt s - q_over s = q_head s \<and> unat (q_head s) = length (q_log s) \<and> fst ` set (q_log s) = {..<length (q_log s)})"
proof -
  have v: "claims_inv s" using claims.inv_reachable[OF assms(1)] assms(2) by blast
  have "claim_exec e s \<noteq> None" using claims_exec_inv(1)[OF v assms(2), of e] by auto
  moreover have "distinct (map fst (q_log s))" "\<forall>(k, x)\<in>set (q_log s). k < length (q_enqueued s) \<and> x = q_enqueued s ! k"
    using v by (auto simp: claims_inv_def log_ok_def cells_ok_def)
  ultimately show ?thesis using claims_quiescent[OF v _ assms(2)] by blast
qed

lemma dequeue_claims_each_element_once_witness:
  "\<exists>s. runs claim_exec ([Construct 7, Publish, Construct 8, Publish, Call_Dequeue 0 5, Call_Dequeue 1 1] @
      concat (replicate 8 [Dequeue_Step 0, Dequeue_Step 1])) (claims_init 2) = Some s \<and>
     unat (q_head s) = length (q_log s) \<and> q_log s = [(0, 7), (1, 8 :: nat)]"
proof -
  let ?es = "[Construct (7 :: nat), Publish, Construct 8, Publish, Call_Dequeue 0 5, Call_Dequeue 1 1] @
      concat (replicate 8 [Dequeue_Step 0, Dequeue_Step (1 :: nat)])"
  have "map_option (\<lambda>s. (q_log s, q_consumers s, asum amount (q_attempts s), length (q_cells s))) (runs claim_exec ?es (claims_init 2)) =
      Some ([(0, 7), (1, 8 :: nat)], [C_idle, C_idle], 3, 2)" by code_simp
  then obtain s where s: "runs claim_exec ?es (claims_init 2) = Some s" "q_log s = [(0, 7), (1, 8)]"
      "q_consumers s = [C_idle, C_idle]" "few s" by (auto simp: few_def)
  have "\<forall>i<length (q_consumers s). q_consumers s ! i = C_idle" using s(3) by (simp add: less_Suc_eq)
  then show ?thesis using dequeue_claims_each_element_once[OF s(1,4), of Publish] s(1,2) by blast
qed

end
