(* ===== verification/Cq_Free_List.thy ===== *)
theory Cq_Free_List
  imports Prelude
begin

text \<open>
  \<open>libs/concurrentqueue/concurrentqueue.h\<close>: \<open>FreeList\<close>, the lock-free stack of the empty blocks. Any number of
  threads add nodes and take them; every access to \<open>freeListHead\<close>, \<open>freeListRefs\<close> and \<open>freeListNext\<close> is one step
  of the thread that makes it. A node is given to \<open>add\<close> only by whoever holds it (\<open>fl_held\<close>, history that the code
  does not have); the nodes are numbered, and are never freed.
\<close>

section \<open>State\<close>

abbreviation (input) REFS_MASK :: "32 word" where "REFS_MASK \<equiv> 0x7FFFFFFF"
abbreviation (input) SHOULD_BE_ON_FREELIST :: "32 word" where "SHOULD_BE_ON_FREELIST \<equiv> 0x80000000"

text \<open>Where a thread goes after \<open>add_knowing_refcount_is_zero\<close>: back to the caller of \<open>add\<close>, or on in \<open>try_get\<close> with \<open>head\<close>.\<close>

datatype fl_after = Fl_return | Fl_retry "nat option"

datatype fl_pc =
    Fl_idle
  | Fl_add nat                                 \<comment> \<open>before \<open>freeListRefs.fetch_add(SHOULD_BE_ON_FREELIST)\<close>\<close>
  | Fl_link nat fl_after                       \<comment> \<open>\<open>add_knowing_refcount_is_zero\<close>: before the load of the head\<close>
  | Fl_store_next nat "nat option" fl_after
  | Fl_store_refs nat "nat option" fl_after
  | Fl_push_cas nat "nat option" fl_after
  | Fl_push_failed nat "nat option" fl_after   \<comment> \<open>before \<open>fetch_add(SHOULD_BE_ON_FREELIST - 1)\<close>\<close>
  | Fl_head                                    \<comment> \<open>\<open>try_get\<close>: before the load of the head\<close>
  | Fl_refs nat
  | Fl_inc nat "32 word"
  | Fl_next nat
  | Fl_pop_cas nat "nat option"
  | Fl_check nat                               \<comment> \<open>before the assertion\<close>
  | Fl_sub2 nat
  | Fl_drop nat "nat option"                   \<comment> \<open>before \<open>prevHead->freeListRefs.fetch_sub(1)\<close>\<close>

record free_list =
  freeListHead :: "nat option"
  freeListRefs :: "32 word list"
  freeListNext :: "nat option list"
  fl_threads :: "fl_pc list"
  fl_held :: "nat list"
  fl_failed :: bool

definition FreeList :: "nat \<Rightarrow> nat \<Rightarrow> free_list" where
  "FreeList threads nodes =
     \<lparr> freeListHead = None, freeListRefs = replicate nodes 0, freeListNext = replicate nodes None,
       fl_threads = replicate threads Fl_idle, fl_held = [0..<nodes], fl_failed = False \<rparr>"

section \<open>Steps\<close>

definition fl_goto :: "nat \<Rightarrow> fl_pc \<Rightarrow> free_list \<Rightarrow> free_list" where
  "fl_goto i p s = s \<lparr> fl_threads := (fl_threads s)[i := p] \<rparr>"

definition fl_set_refs :: "nat \<Rightarrow> 32 word \<Rightarrow> free_list \<Rightarrow> free_list" where
  "fl_set_refs n r s = s \<lparr> freeListRefs := (freeListRefs s)[n := r] \<rparr>"

text \<open>The test of the loop of \<open>try_get\<close>.\<close>

fun fl_loop :: "nat option \<Rightarrow> fl_pc" where
  "fl_loop None = Fl_idle"
| "fl_loop (Some h) = Fl_refs h"

fun fl_finish :: "fl_after \<Rightarrow> fl_pc" where
  "fl_finish Fl_return = Fl_idle"
| "fl_finish (Fl_retry head) = fl_loop head"

fun add_knowing_refcount_is_zero :: "nat \<Rightarrow> fl_pc \<Rightarrow> free_list \<Rightarrow> free_list" where
  "add_knowing_refcount_is_zero i (Fl_link n a) s = fl_goto i (Fl_store_next n (freeListHead s) a) s"
| "add_knowing_refcount_is_zero i (Fl_store_next n head a) s =
     fl_goto i (Fl_store_refs n head a) (s \<lparr> freeListNext := (freeListNext s)[n := head] \<rparr>)"
| "add_knowing_refcount_is_zero i (Fl_store_refs n head a) s = fl_goto i (Fl_push_cas n head a) (fl_set_refs n 1 s)"
| "add_knowing_refcount_is_zero i (Fl_push_cas n head a) s =
     (if freeListHead s = head then fl_goto i (fl_finish a) (s \<lparr> freeListHead := Some n \<rparr>)
      else fl_goto i (Fl_push_failed n (freeListHead s) a) s)"
| "add_knowing_refcount_is_zero i (Fl_push_failed n head a) s =
     (let refs = freeListRefs s ! n in
      fl_goto i (if refs = 1 then Fl_store_next n head a else fl_finish a)
        (fl_set_refs n (refs + (SHOULD_BE_ON_FREELIST - 1)) s))"
| "add_knowing_refcount_is_zero i _ s = s"

definition fl_add :: "nat \<Rightarrow> nat \<Rightarrow> free_list \<Rightarrow> free_list" where
  "fl_add i n s =
     (let refs = freeListRefs s ! n in
      fl_goto i (if refs = 0 then Fl_link n Fl_return else Fl_idle) (fl_set_refs n (refs + SHOULD_BE_ON_FREELIST) s))"

text \<open>\<open>compare_exchange_strong\<close> on the head loads it when it fails; the failing one on the references is followed by \<open>continue\<close>.\<close>

fun try_get :: "nat \<Rightarrow> fl_pc \<Rightarrow> free_list \<Rightarrow> free_list" where
  "try_get i Fl_head s = fl_goto i (fl_loop (freeListHead s)) s"
| "try_get i (Fl_refs h) s =
     (let refs = freeListRefs s ! h in fl_goto i (if refs AND REFS_MASK = 0 then Fl_head else Fl_inc h refs) s)"
| "try_get i (Fl_inc h refs) s =
     (if freeListRefs s ! h = refs then fl_goto i (Fl_next h) (fl_set_refs h (refs + 1) s) else fl_goto i Fl_head s)"
| "try_get i (Fl_next h) s = fl_goto i (Fl_pop_cas h (freeListNext s ! h)) s"
| "try_get i (Fl_pop_cas h nx) s =
     (if freeListHead s = Some h then fl_goto i (Fl_check h) (s \<lparr> freeListHead := nx \<rparr>)
      else fl_goto i (Fl_drop h (freeListHead s)) s)"
| "try_get i (Fl_check h) s =
     fl_goto i (Fl_sub2 h) (if freeListRefs s ! h AND SHOULD_BE_ON_FREELIST = 0 then s else s \<lparr> fl_failed := True \<rparr>)"
| "try_get i (Fl_sub2 h) s =
     fl_goto i Fl_idle (fl_set_refs h (freeListRefs s ! h - 2) (s \<lparr> fl_held := h # fl_held s \<rparr>))"
| "try_get i (Fl_drop h head) s =
     (let refs = freeListRefs s ! h in
      fl_goto i (if refs = SHOULD_BE_ON_FREELIST + 1 then Fl_link h (Fl_retry head) else fl_loop head)
        (fl_set_refs h (refs - 1) s))"
| "try_get i _ s = s"

fun fl_step :: "nat \<Rightarrow> fl_pc \<Rightarrow> free_list \<Rightarrow> free_list" where
  "fl_step i Fl_idle s = s"
| "fl_step i (Fl_add n) s = fl_add i n s"
| "fl_step i (Fl_link n a) s = add_knowing_refcount_is_zero i (Fl_link n a) s"
| "fl_step i (Fl_store_next n head a) s = add_knowing_refcount_is_zero i (Fl_store_next n head a) s"
| "fl_step i (Fl_store_refs n head a) s = add_knowing_refcount_is_zero i (Fl_store_refs n head a) s"
| "fl_step i (Fl_push_cas n head a) s = add_knowing_refcount_is_zero i (Fl_push_cas n head a) s"
| "fl_step i (Fl_push_failed n head a) s = add_knowing_refcount_is_zero i (Fl_push_failed n head a) s"
| "fl_step i p s = try_get i p s"

datatype fl_event =
    Fl_call_add nat nat       \<comment> \<open>thread \<open>i\<close> gives node \<open>n\<close> to \<open>add\<close>\<close>
  | Fl_call_try_get nat
  | Fl_step nat

fun fl_exec :: "fl_event \<Rightarrow> free_list \<Rightarrow> free_list option" where
  "fl_exec (Fl_call_add i n) s =
     (if i < length (fl_threads s) \<and> fl_threads s ! i = Fl_idle \<and> n \<in> set (fl_held s)
      then Some (fl_goto i (Fl_add n) (s \<lparr> fl_held := remove1 n (fl_held s) \<rparr>)) else None)"
| "fl_exec (Fl_call_try_get i) s =
     (if i < length (fl_threads s) \<and> fl_threads s ! i = Fl_idle then Some (fl_goto i Fl_head s) else None)"
| "fl_exec (Fl_step i) s =
     (if i < length (fl_threads s) \<and> fl_threads s ! i \<noteq> Fl_idle then Some (fl_step i (fl_threads s ! i) s) else None)"

section \<open>The contents\<close>

text \<open>Following \<open>freeListNext\<close> from a node, at most as many nodes as there are.\<close>

fun fl_walk :: "nat \<Rightarrow> nat option list \<Rightarrow> nat option \<Rightarrow> nat list option" where
  "fl_walk k nexts None = Some []"
| "fl_walk 0 nexts (Some h) = None"
| "fl_walk (Suc k) nexts (Some h) = map_option ((#) h) (fl_walk k nexts (nexts ! h))"

definition fl_contents :: "free_list \<Rightarrow> nat list option" where
  "fl_contents s = fl_walk (length (freeListNext s)) (freeListNext s) (freeListHead s)"

text \<open>What a step does to the contents, seen as a stack.\<close>

fun fl_effect :: "fl_pc \<Rightarrow> free_list \<Rightarrow> nat list \<Rightarrow> nat list" where
  "fl_effect (Fl_push_cas n head a) s xs = (if freeListHead s = head then n # xs else xs)"
| "fl_effect (Fl_pop_cas h nx) s xs = (if freeListHead s = Some h then tl xs else xs)"
| "fl_effect _ s xs = xs"

fun fl_exec_effect :: "fl_event \<Rightarrow> free_list \<Rightarrow> nat list \<Rightarrow> nat list" where
  "fl_exec_effect (Fl_step i) s xs = fl_effect (fl_threads s ! i) s xs"
| "fl_exec_effect _ s xs = xs"

section \<open>The invariant\<close>

text \<open>
  Where a node is: in the list, held by a client, in the hands of a thread that adds it or has just taken it, or waiting for
  the last thread with a reference to add it.
\<close>

datatype fl_place = In_list | Held | Owned nat | Pending

fun fl_owns :: "fl_pc \<Rightarrow> nat option" where
  "fl_owns (Fl_add n) = Some n"
| "fl_owns (Fl_link n a) = Some n"
| "fl_owns (Fl_store_next n head a) = Some n"
| "fl_owns (Fl_store_refs n head a) = Some n"
| "fl_owns (Fl_push_cas n head a) = Some n"
| "fl_owns (Fl_push_failed n head a) = Some n"
| "fl_owns (Fl_check n) = Some n"
| "fl_owns (Fl_sub2 n) = Some n"
| "fl_owns _ = None"

text \<open>The thread holds a reference of its own to the node.\<close>

fun fl_refers :: "nat \<Rightarrow> fl_pc \<Rightarrow> bool" where
  "fl_refers n (Fl_next h) = (h = n)"
| "fl_refers n (Fl_pop_cas h nx) = (h = n)"
| "fl_refers n (Fl_check h) = (h = n)"
| "fl_refers n (Fl_sub2 h) = (h = n)"
| "fl_refers n (Fl_drop h head) = (h = n)"
| "fl_refers n _ = False"

text \<open>The reference count \<open>r\<close>, with the bit, of a node that \<open>k\<close> threads refer to.\<close>

fun fl_owner_count :: "fl_pc \<Rightarrow> nat \<Rightarrow> nat \<Rightarrow> bool" where
  "fl_owner_count (Fl_add n) k r = (r = k)"
| "fl_owner_count (Fl_link n a) k r = (r = 2 ^ 31 \<and> k = 0)"
| "fl_owner_count (Fl_store_next n head a) k r = (r = 2 ^ 31 \<and> k = 0)"
| "fl_owner_count (Fl_store_refs n head a) k r = (r = 2 ^ 31 \<and> k = 0)"
| "fl_owner_count _ k r = (r = k + 1)"

fun fl_count_ok :: "fl_place \<Rightarrow> fl_pc list \<Rightarrow> nat \<Rightarrow> nat \<Rightarrow> bool" where
  "fl_count_ok In_list ps k r = (r = k + 1)"
| "fl_count_ok Held ps k r = (r = k)"
| "fl_count_ok (Owned t) ps k r = fl_owner_count (ps ! t) k r"
| "fl_count_ok Pending ps k r = (r = 2 ^ 31 + k \<and> 0 < k)"

fun fl_pc_ok :: "nat option list \<Rightarrow> fl_pc \<Rightarrow> bool" where
  "fl_pc_ok nexts (Fl_pop_cas h nx) = (nexts ! h = nx)"
| "fl_pc_ok nexts (Fl_store_refs n head a) = (nexts ! n = head)"
| "fl_pc_ok nexts (Fl_push_cas n head a) = (nexts ! n = head)"
| "fl_pc_ok nexts (Fl_inc h refs) = (refs AND REFS_MASK \<noteq> 0)"
| "fl_pc_ok nexts _ = True"

fun fl_after_nodes :: "fl_after \<Rightarrow> nat set" where
  "fl_after_nodes Fl_return = {}"
| "fl_after_nodes (Fl_retry head) = set_option head"

fun fl_mentions :: "fl_pc \<Rightarrow> nat set" where
  "fl_mentions (Fl_link n a) = fl_after_nodes a"
| "fl_mentions (Fl_store_next n head a) = set_option head \<union> fl_after_nodes a"
| "fl_mentions (Fl_store_refs n head a) = fl_after_nodes a"
| "fl_mentions (Fl_push_cas n head a) = fl_after_nodes a"
| "fl_mentions (Fl_push_failed n head a) = set_option head \<union> fl_after_nodes a"
| "fl_mentions (Fl_refs h) = {h}"
| "fl_mentions (Fl_inc h refs) = {h}"
| "fl_mentions (Fl_next h) = {h}"
| "fl_mentions (Fl_pop_cas h nx) = {h}"
| "fl_mentions (Fl_drop h head) = {h} \<union> set_option head"
| "fl_mentions _ = {}"

primrec fl_chain :: "nat option list \<Rightarrow> nat option \<Rightarrow> nat list \<Rightarrow> bool" where
  "fl_chain nexts h [] = (h = None)"
| "fl_chain nexts h (x # xs) = (h = Some x \<and> fl_chain nexts (nexts ! x) xs)"

definition fl_inv :: "(nat \<Rightarrow> fl_place) \<Rightarrow> nat list \<Rightarrow> free_list \<Rightarrow> bool" where
  "fl_inv pl xs s \<longleftrightarrow>
     length (freeListRefs s) = length (freeListNext s) \<and> length (fl_threads s) < 2 ^ 31 - 1 \<and>
     fl_chain (freeListNext s) (freeListHead s) xs \<and> distinct xs \<and>
     (\<forall>n. n \<in> set xs \<longleftrightarrow> n < length (freeListNext s) \<and> pl n = In_list) \<and>
     distinct (fl_held s) \<and> (\<forall>n. n \<in> set (fl_held s) \<longleftrightarrow> n < length (freeListNext s) \<and> pl n = Held) \<and>
     (\<forall>t<length (fl_threads s). \<forall>n. fl_owns (fl_threads s ! t) = Some n \<longrightarrow> n < length (freeListNext s) \<and> pl n = Owned t) \<and>
     (\<forall>n<length (freeListNext s). \<forall>t. pl n = Owned t \<longrightarrow> t < length (fl_threads s) \<and> fl_owns (fl_threads s ! t) = Some n) \<and>
     (\<forall>n<length (freeListNext s). fl_count_ok (pl n) (fl_threads s) (number (fl_refers n) (fl_threads s)) (unat (freeListRefs s ! n))) \<and>
     (\<forall>t<length (fl_threads s). fl_pc_ok (freeListNext s) (fl_threads s ! t) \<and> fl_mentions (fl_threads s ! t) \<subseteq> {..<length (freeListNext s)}) \<and>
     \<not> fl_failed s"

lemma fl_invD:
  assumes "fl_inv pl xs s"
  shows fl_lengths: "length (freeListRefs s) = length (freeListNext s)" "length (fl_threads s) < 2 ^ 31 - 1"
    and fl_inv_chain: "fl_chain (freeListNext s) (freeListHead s) xs" "distinct xs"
    and fl_in_list: "n \<in> set xs \<longleftrightarrow> n < length (freeListNext s) \<and> pl n = In_list"
    and fl_inv_held: "distinct (fl_held s)" "n \<in> set (fl_held s) \<longleftrightarrow> n < length (freeListNext s) \<and> pl n = Held"
    and fl_owner: "t < length (fl_threads s) \<Longrightarrow> fl_owns (fl_threads s ! t) = Some n \<Longrightarrow> n < length (freeListNext s) \<and> pl n = Owned t"
    and fl_owned: "n < length (freeListNext s) \<Longrightarrow> pl n = Owned t \<Longrightarrow> t < length (fl_threads s) \<and> fl_owns (fl_threads s ! t) = Some n"
    and fl_counts: "n < length (freeListNext s) \<Longrightarrow>
      fl_count_ok (pl n) (fl_threads s) (number (fl_refers n) (fl_threads s)) (unat (freeListRefs s ! n))"
    and fl_pcs: "t < length (fl_threads s) \<Longrightarrow> fl_pc_ok (freeListNext s) (fl_threads s ! t)"
      "t < length (fl_threads s) \<Longrightarrow> fl_mentions (fl_threads s ! t) \<subseteq> {..<length (freeListNext s)}"
    and fl_not_failed: "\<not> fl_failed s"
  using assms unfolding fl_inv_def by blast+

lemma fl_inv_init: "threads < 2 ^ 31 - 1 \<Longrightarrow> fl_inv (\<lambda>_. Held) [] (FreeList threads nodes)"
  by (simp add: fl_inv_def FreeList_def number_replicate)

lemma fl_chain_walk: "fl_chain nexts h xs \<Longrightarrow> length xs \<le> k \<Longrightarrow> fl_walk k nexts h = Some xs"
proof (induction xs arbitrary: h k)
  case (Cons x xs)
  then show ?case by (cases k) auto
qed auto

lemma fl_inv_contents:
  assumes "fl_inv pl xs s"
  shows "fl_contents s = Some xs"
proof -
  have "set xs \<subseteq> {..<length (freeListNext s)}" "distinct xs" using assms by (auto simp: fl_inv_def)
  then have "length xs \<le> length (freeListNext s)" by (metis card_lessThan card_mono distinct_card finite_lessThan)
  then show ?thesis using assms by (simp add: fl_contents_def fl_inv_def fl_chain_walk)
qed

lemma fl_chain_update: "fl_chain nexts h xs \<Longrightarrow> n \<notin> set xs \<Longrightarrow> fl_chain (nexts[n := y]) h xs"
  by (induction xs arbitrary: h) auto

text \<open>Thread \<open>i\<close> moves on; no node changes hands.\<close>

lemma fl_inv_goto:
  assumes v: "fl_inv pl xs s" and i: "i < length (fl_threads s)"
    and o: "fl_owns q = fl_owns (fl_threads s ! i)" "fl_owner_count q = fl_owner_count (fl_threads s ! i)"
    and r: "\<And>n. fl_refers n q = fl_refers n (fl_threads s ! i)"
    and q: "fl_pc_ok (freeListNext s) q" "fl_mentions q \<subseteq> {..<length (freeListNext s)}"
  shows "fl_inv pl xs (fl_goto i q s)"
proof -
  have k: "number (fl_refers n) ((fl_threads s)[i := q]) = number (fl_refers n) (fl_threads s)" for n
    using i r by (simp add: number_move_same)
  have c: "fl_count_ok x ((fl_threads s)[i := q]) k r = fl_count_ok x (fl_threads s) k r" for x k r
    using o i by (cases x) (auto simp: nth_list_update)
  let ?ps = "(fl_threads s)[i := q]"
  note V = v[unfolded fl_inv_def]
  have ow: "fl_owns (?ps ! t) = fl_owns (fl_threads s ! t)" for t
    using o(1) i by (cases "t = i") auto
  have cn: "\<forall>n<length (freeListNext s). fl_count_ok (pl n) ?ps (number (fl_refers n) ?ps) (unat (freeListRefs s ! n))"
    using fl_counts[OF v] by (simp only: k c) blast
  have pk: "\<forall>t<length (fl_threads s). fl_pc_ok (freeListNext s) (?ps ! t) \<and> fl_mentions (?ps ! t) \<subseteq> {..<length (freeListNext s)}"
  proof (intro allI impI)
    fix t
    assume "t < length (fl_threads s)"
    then show "fl_pc_ok (freeListNext s) (?ps ! t) \<and> fl_mentions (?ps ! t) \<subseteq> {..<length (freeListNext s)}"
      using fl_pcs[OF v] q i by (cases "t = i") auto
  qed
  have g: "freeListRefs (fl_goto i q s) = freeListRefs s" "freeListNext (fl_goto i q s) = freeListNext s"
    "freeListHead (fl_goto i q s) = freeListHead s" "fl_held (fl_goto i q s) = fl_held s"
    "fl_failed (fl_goto i q s) = fl_failed s" "fl_threads (fl_goto i q s) = ?ps"
    by (simp_all add: fl_goto_def)
  show ?thesis
    unfolding fl_inv_def g length_list_update ow using V cn pk by blast
qed

text \<open>Thread \<open>i\<close> moves on and node \<open>n\<close>, only, may change hands.\<close>

lemma fl_inv_move:
  assumes v: "fl_inv pl xs s" and i: "i < length (fl_threads s)" and n: "n < length (freeListNext s)"
    and t': "fl_threads s' = (fl_threads s)[i := q]" and r': "freeListRefs s' = (freeListRefs s)[n := r]"
    and n': "length (freeListNext s') = length (freeListNext s)"
    and f': "fl_failed s' = fl_failed s"
    and op: "\<And>m. fl_owns (fl_threads s ! i) = Some m \<Longrightarrow> m = n" and oq: "\<And>m. fl_owns q = Some m \<Longrightarrow> m = n"
    and rq: "\<And>m. m \<noteq> n \<Longrightarrow> fl_refers m q = fl_refers m (fl_threads s ! i)"
    and x: "if x = pl n then fl_owns q = fl_owns (fl_threads s ! i)
            else (\<forall>t. x = Owned t \<longrightarrow> t = i) \<and> (\<forall>t. pl n = Owned t \<longrightarrow> t = i) \<and> (fl_owns q = Some n \<longleftrightarrow> x = Owned i)"
    and l: "fl_chain (freeListNext s') (freeListHead s') xs'" "distinct xs'"
      "set xs' = (if x = In_list then insert n (set xs) else set xs - {n})"
    and h: "distinct (fl_held s')" "set (fl_held s') = (if x = Held then insert n (set (fl_held s)) else set (fl_held s) - {n})"
    and c: "fl_count_ok x (fl_threads s') (number (fl_refers n) (fl_threads s')) (unat r)"
    and p: "\<And>t. t < length (fl_threads s) \<Longrightarrow> t \<noteq> i \<Longrightarrow> fl_pc_ok (freeListNext s') (fl_threads s ! t)"
      "fl_pc_ok (freeListNext s') q" "fl_mentions q \<subseteq> {..<length (freeListNext s)}"
  shows "fl_inv (pl(n := x)) xs' s'"
proof -
  have k: "number (fl_refers m) ((fl_threads s)[i := q]) = number (fl_refers m) (fl_threads s)" if "m \<noteq> n" for m
    using i rq[OF that] by (simp add: number_move_same)
  have cnt: "fl_count_ok (pl m) ((fl_threads s)[i := q]) j u = fl_count_ok (pl m) (fl_threads s) j u"
    if "m \<noteq> n" "m < length (freeListNext s)" for m j u
  proof (cases "pl m")
    case (Owned t)
    then have "t \<noteq> i" using fl_owned[OF v that(2)] that(1) op by blast
    then show ?thesis by (simp add: Owned)
  qed auto
  have own1: "m < length (freeListNext s) \<and> (pl(n := x)) m = Owned t"
    if "t < length (fl_threads s)" "fl_owns ((fl_threads s)[i := q] ! t) = Some m" for t m
  proof (cases "t = i")
    case True
    then have m: "m = n" "fl_owns q = Some n" using that oq i by auto
    show ?thesis
    proof (cases "x = pl n")
      case True
      then have "fl_owns (fl_threads s ! i) = Some n" using m x by simp
      then show ?thesis using m True fl_owner[OF v i] \<open>t = i\<close> by auto
    next
      case False
      then show ?thesis using m x n \<open>t = i\<close> by auto
    qed
  next
    case False
    then have o: "m < length (freeListNext s)" "pl m = Owned t" using that fl_owner[OF v] by auto
    then have "m \<noteq> n \<or> x = pl n" using x False by (auto split: if_splits)
    then show ?thesis using o by auto
  qed
  have own2: "t < length (fl_threads s) \<and> fl_owns ((fl_threads s)[i := q] ! t) = Some m"
    if "m < length (freeListNext s)" "(pl(n := x)) m = Owned t" for m t
  proof (cases "m = n")
    case True
    show ?thesis
    proof (cases "x = pl n")
      case eq: True
      then have "t < length (fl_threads s)" "fl_owns (fl_threads s ! t) = Some n" using that True fl_owned[OF v n] by auto
      then show ?thesis using x eq True i by (cases "t = i") auto
    next
      case False
      then show ?thesis using that True x i by auto
    qed
  next
    case False
    then have o: "t < length (fl_threads s)" "fl_owns (fl_threads s ! t) = Some m" using that fl_owned[OF v] by auto
    then have "t \<noteq> i" using op False by blast
    then show ?thesis using o by simp
  qed
  have sx: "m \<in> set xs' \<longleftrightarrow> m < length (freeListNext s) \<and> (pl(n := x)) m = In_list" for m
    using fl_in_list[OF v] l(3) n by (cases "m = n") auto
  have sh: "m \<in> set (fl_held s') \<longleftrightarrow> m < length (freeListNext s) \<and> (pl(n := x)) m = Held" for m
    using fl_inv_held(2)[OF v] h(2) n by (cases "m = n") auto
  have cn: "fl_count_ok ((pl(n := x)) m) (fl_threads s') (number (fl_refers m) (fl_threads s')) (unat (freeListRefs s' ! m))"
    if "m < length (freeListNext s)" for m
  proof (cases "m = n")
    case True
    then show ?thesis using c r' n fl_lengths(1)[OF v] by simp
  next
    case False
    then show ?thesis using fl_counts[OF v that] k[OF False] cnt[OF False that] by (simp add: t' r')
  qed
  have pk: "fl_pc_ok (freeListNext s') (fl_threads s' ! t) \<and> fl_mentions (fl_threads s' ! t) \<subseteq> {..<length (freeListNext s)}"
    if "t < length (fl_threads s)" for t
    using that fl_pcs[OF v] p i by (cases "t = i") (auto simp: t')
  have e: "length (fl_threads s') = length (fl_threads s)" "length (freeListRefs s') = length (freeListRefs s)"
    by (simp_all add: t' r')
  have o1: "\<forall>t<length (fl_threads s). \<forall>m. fl_owns (fl_threads s' ! t) = Some m \<longrightarrow> m < length (freeListNext s) \<and> (pl(n := x)) m = Owned t"
    using own1 unfolding t' by blast
  have o2: "\<forall>m<length (freeListNext s). \<forall>t. (pl(n := x)) m = Owned t \<longrightarrow> t < length (fl_threads s) \<and> fl_owns (fl_threads s' ! t) = Some m"
    using own2 unfolding t' by blast
  have sx': "\<forall>m. m \<in> set xs' \<longleftrightarrow> m < length (freeListNext s) \<and> (pl(n := x)) m = In_list" using sx by blast
  have sh': "\<forall>m. m \<in> set (fl_held s') \<longleftrightarrow> m < length (freeListNext s) \<and> (pl(n := x)) m = Held" using sh by blast
  have cn': "\<forall>m<length (freeListNext s). fl_count_ok ((pl(n := x)) m) (fl_threads s') (number (fl_refers m) (fl_threads s')) (unat (freeListRefs s' ! m))"
    using cn by blast
  have pk': "\<forall>t<length (fl_threads s). fl_pc_ok (freeListNext s') (fl_threads s' ! t) \<and> fl_mentions (fl_threads s' ! t) \<subseteq> {..<length (freeListNext s)}"
    using pk by blast
  have ff: "\<not> fl_failed s'" using fl_not_failed[OF v] f' by simp
  show ?thesis
    unfolding fl_inv_def n' e by (intro conjI fl_lengths[OF v] l(1,2) sx' h(1) sh' o1 o2 cn' pk' ff)
qed

section \<open>Every step keeps it\<close>

lemma refs_mask_zero: "(w AND REFS_MASK = 0) = (unat (w :: 32 word) mod 2 ^ 31 = 0)"
proof -
  have "w AND REFS_MASK = take_bit 31 w" by (simp add: take_bit_eq_mask mask_eq_exp_minus_1)
  then show ?thesis by (metis unsigned_take_bit_eq take_bit_eq_mod unat_eq_zero)
qed

lemma should_bit_zero:
  assumes "unat (w :: 32 word) < 2 ^ 31"
  shows "w AND SHOULD_BE_ON_FREELIST = 0"
proof -
  have "\<not> bit (unat w) 31" using assms by (simp add: bit_iff_odd)
  then have "\<not> bit w 31" by (simp add: bit_unsigned_iff)
  then show ?thesis using and_exp_eq_0_iff_not_bit[of w 31] by simp
qed

lemma refs_plus: "unat (w :: 32 word) + unat v < 2 ^ 32 \<Longrightarrow> unat (w + v) = unat w + unat v"
  by (simp add: unat_plus_if_size word_size)

lemma refs_minus: "unat (v :: 32 word) \<le> unat w \<Longrightarrow> unat (w - v) = unat w - unat v"
  by (simp add: unat_sub word_le_nat_alt)

lemma refers_few: "fl_inv pl xs s \<Longrightarrow> number (fl_refers n) (fl_threads s) < 2 ^ 31 - 1"
  using number_le[of "fl_refers n" "fl_threads s"] fl_lengths(2)[of pl xs s] by linarith

lemma refers_pos: "i < length (fl_threads s) \<Longrightarrow> fl_refers n (fl_threads s ! i) \<Longrightarrow> 0 < number (fl_refers n) (fl_threads s)"
  by (rule number_pos)

lemma fl_loop_simps [simp]:
  "fl_owns (fl_loop h) = None" "fl_refers n (fl_loop h) = False" "fl_pc_ok nexts (fl_loop h)" "fl_mentions (fl_loop h) = set_option h"
  "fl_owner_count (fl_loop h) = (\<lambda>k r. r = k + 1)"
  by (cases h; simp add: fun_eq_iff)+

lemma fl_finish_simps [simp]:
  "fl_owns (fl_finish a) = None" "fl_refers n (fl_finish a) = False" "fl_pc_ok nexts (fl_finish a)"
  "fl_mentions (fl_finish a) = fl_after_nodes a"
  by (cases a; simp)+

lemma fl_goto_simps [simp]:
  "freeListHead (fl_goto i p s) = freeListHead s" "freeListRefs (fl_goto i p s) = freeListRefs s"
  "freeListNext (fl_goto i p s) = freeListNext s" "fl_threads (fl_goto i p s) = (fl_threads s)[i := p]"
  "fl_held (fl_goto i p s) = fl_held s" "fl_failed (fl_goto i p s) = fl_failed s"
  by (simp_all add: fl_goto_def)

lemma fl_set_refs_simps [simp]:
  "freeListHead (fl_set_refs n r s) = freeListHead s" "freeListRefs (fl_set_refs n r s) = (freeListRefs s)[n := r]"
  "freeListNext (fl_set_refs n r s) = freeListNext s" "fl_threads (fl_set_refs n r s) = fl_threads s"
  "fl_held (fl_set_refs n r s) = fl_held s" "fl_failed (fl_set_refs n r s) = fl_failed s"
  by (simp_all add: fl_set_refs_def)

lemma fl_list_unchanged:
  assumes "fl_inv pl xs s" "n < length (freeListNext s)"
  shows "x \<noteq> In_list \<Longrightarrow> pl n \<noteq> In_list \<Longrightarrow> set xs = (if x = In_list then insert n (set xs) else set xs - {n})"
    and "x \<noteq> Held \<Longrightarrow> pl n \<noteq> Held \<Longrightarrow> set (fl_held s) = (if x = Held then insert n (set (fl_held s)) else set (fl_held s) - {n})"
  using fl_in_list[OF assms(1), of n] fl_inv_held(2)[OF assms(1), of n] by auto

text \<open>A thread gives a node in its hands away, or goes on with it; the list and what clients hold stay.\<close>

lemma fl_inv_owner_move:
  assumes v: "fl_inv pl xs s" and i: "i < length (fl_threads s)" and o: "fl_owns (fl_threads s ! i) = Some n"
    and x: "x = Owned i \<and> fl_owns q = Some n \<or> x = Pending \<and> fl_owns q = None"
    and rq: "\<And>m. m \<noteq> n \<Longrightarrow> fl_refers m q = fl_refers m (fl_threads s ! i)"
    and c: "fl_count_ok x ((fl_threads s)[i := q]) (number (fl_refers n) ((fl_threads s)[i := q])) (unat r)"
    and p: "fl_pc_ok (freeListNext s) q" "fl_mentions q \<subseteq> {..<length (freeListNext s)}"
  shows "\<exists>pl'. fl_inv pl' xs (fl_goto i q (fl_set_refs n r s))"
proof -
  have n: "n < length (freeListNext s)" "pl n = Owned i" using fl_owner[OF v i o] by auto
  have "fl_inv (pl(n := x)) xs (fl_goto i q (fl_set_refs n r s))"
  proof (rule fl_inv_move[OF v i n(1)])
    show "set xs = (if x = In_list then insert n (set xs) else set xs - {n})"
      using fl_list_unchanged(1)[OF v n(1)] x n by auto
    show "set (fl_held (fl_goto i q (fl_set_refs n r s))) = (if x = Held then insert n (set (fl_held s)) else set (fl_held s) - {n})"
      using fl_list_unchanged(2)[OF v n(1)] x n by auto
  qed (use x o n rq c p fl_pcs(1)[OF v] fl_inv_chain[OF v] fl_inv_held[OF v] in \<open>auto split: if_splits\<close>)
  then show ?thesis by blast
qed

text \<open>A node in the hands of thread \<open>i\<close>, and the references to it.\<close>

lemma fl_owner_counts:
  assumes "fl_inv pl xs s" "i < length (fl_threads s)" "fl_owns (fl_threads s ! i) = Some n"
  shows "fl_owner_count (fl_threads s ! i) (number (fl_refers n) (fl_threads s)) (unat (freeListRefs s ! n))"
  using fl_owner[OF assms] fl_counts[OF assms(1), of n] by auto

lemma fl_step_add:
  assumes v: "fl_inv pl xs s" and i: "i < length (fl_threads s)" and p: "fl_threads s ! i = Fl_add n"
  shows "\<exists>pl'. fl_inv pl' xs (fl_add i n s)"
proof -
  let ?k = "number (fl_refers n) (fl_threads s)"
  have r: "unat (freeListRefs s ! n) = ?k" using fl_owner_counts[OF v i] p by simp
  then have z: "freeListRefs s ! n = 0 \<longleftrightarrow> ?k = 0" by (metis unat_eq_zero)
  have sum: "unat (freeListRefs s ! n + SHOULD_BE_ON_FREELIST) = ?k + 2 ^ 31"
    using refs_plus[of "freeListRefs s ! n" "SHOULD_BE_ON_FREELIST"] r refers_few[OF v, of n] by simp
  show ?thesis
    unfolding fl_add_def Let_def
    by (rule fl_inv_owner_move[OF v i, where x = "if ?k = 0 then Owned i else Pending"])
      (use p i z sum number_move[OF i, of "fl_refers n" "if ?k = 0 then Fl_link n Fl_return else Fl_idle"] in \<open>auto split: if_splits\<close>)
qed

lemma fl_step_link:
  assumes v: "fl_inv pl xs s" and i: "i < length (fl_threads s)" and p: "fl_threads s ! i = Fl_link n a"
  shows "fl_inv pl xs (add_knowing_refcount_is_zero i (Fl_link n a) s)"
proof -
  have "set_option (freeListHead s) \<subseteq> {..<length (freeListNext s)}"
    using fl_inv_chain(1)[OF v] fl_in_list[OF v] by (cases xs) auto
  then show ?thesis
    using fl_inv_goto[OF v i, of "Fl_store_next n (freeListHead s) a"] p fl_pcs[OF v i] by (simp add: fun_eq_iff)
qed

text \<open>Only the owner of a node whose count is 0 changes \<open>freeListNext\<close>: nobody who has read it still relies on it.\<close>

lemma fl_step_store_next:
  assumes v: "fl_inv pl xs s" and i: "i < length (fl_threads s)" and p: "fl_threads s ! i = Fl_store_next n head a"
  shows "\<exists>pl'. fl_inv pl' xs (add_knowing_refcount_is_zero i (Fl_store_next n head a) s)"
proof -
  let ?s = "add_knowing_refcount_is_zero i (Fl_store_next n head a) s"
  have o: "fl_owns (fl_threads s ! i) = Some n" using p by simp
  then have n: "n < length (freeListNext s)" "pl n = Owned i" using fl_owner[OF v i] by auto
  have c: "number (fl_refers n) (fl_threads s) = 0" "unat (freeListRefs s ! n) = 2 ^ 31"
    using fl_owner_counts[OF v i o] p by auto
  have same: "number (fl_refers n) ((fl_threads s)[i := Fl_store_refs n head a]) = 0"
    using c(1) p i by (simp add: number_move_same)
  have others: "fl_pc_ok ((freeListNext s)[n := head]) (fl_threads s ! t)" if t: "t < length (fl_threads s)" "t \<noteq> i" for t
  proof -
    have "\<not> fl_refers n (fl_threads s ! t)" using c(1) t(1) by (simp add: number_zero)
    moreover have "fl_owns (fl_threads s ! t) \<noteq> Some n" using fl_owner[OF v t(1)] n(2) t(2) by auto
    ultimately show ?thesis using fl_pcs(1)[OF v t(1)] by (cases "fl_threads s ! t") auto
  qed
  have nx: "n \<notin> set xs" using fl_in_list[OF v] n by auto
  have "fl_inv (pl(n := Owned i)) xs ?s"
  proof (rule fl_inv_move[OF v i n(1), where r = "freeListRefs s ! n" and q = "Fl_store_refs n head a"])
    show "fl_chain (freeListNext ?s) (freeListHead ?s) xs"
      using fl_chain_update[OF fl_inv_chain(1)[OF v] nx] by simp
    show "set xs = (if Owned i = In_list then insert n (set xs) else set xs - {n})" using nx by simp
    show "set (fl_held ?s) = (if Owned i = Held then insert n (set (fl_held s)) else set (fl_held s) - {n})"
      using fl_inv_held(2)[OF v, of n] n by simp
  qed (use p o n c same others i fl_pcs(2)[OF v i] fl_inv_chain[OF v] fl_inv_held(1)[OF v] in \<open>auto split: if_splits\<close>)
  then show ?thesis by blast
qed

lemma fl_step_store_refs:
  assumes v: "fl_inv pl xs s" and i: "i < length (fl_threads s)" and p: "fl_threads s ! i = Fl_store_refs n head a"
  shows "\<exists>pl'. fl_inv pl' xs (add_knowing_refcount_is_zero i (Fl_store_refs n head a) s)"
proof -
  have c: "number (fl_refers n) (fl_threads s) = 0" using fl_owner_counts[OF v i] p by simp
  show ?thesis
    unfolding add_knowing_refcount_is_zero.simps
    by (rule fl_inv_owner_move[OF v i, where x = "Owned i"])
      (use p i c fl_pcs[OF v i] number_move[OF i, of "fl_refers n" "Fl_push_cas n head a"] in auto)
qed

lemma fl_step_push_cas:
  assumes v: "fl_inv pl xs s" and i: "i < length (fl_threads s)" and p: "fl_threads s ! i = Fl_push_cas n head a"
  shows "\<exists>pl'. fl_inv pl' (fl_effect (Fl_push_cas n head a) s xs) (add_knowing_refcount_is_zero i (Fl_push_cas n head a) s)"
proof (cases "freeListHead s = head")
  case True
  let ?s = "add_knowing_refcount_is_zero i (Fl_push_cas n head a) s"
  have o: "fl_owns (fl_threads s ! i) = Some n" using p by simp
  then have n: "n < length (freeListNext s)" "pl n = Owned i" using fl_owner[OF v i] by auto
  have c: "unat (freeListRefs s ! n) = number (fl_refers n) (fl_threads s) + 1"
    using fl_owner_counts[OF v i o] p by simp
  have nx: "n \<notin> set xs" using fl_in_list[OF v] n by auto
  have af: "fl_after_nodes a \<subseteq> {..<length (freeListNext s)}" using fl_pcs(2)[OF v i] p by simp
  have "fl_inv (pl(n := In_list)) (n # xs) ?s"
  proof (rule fl_inv_move[OF v i n(1), where r = "freeListRefs s ! n" and q = "fl_finish a"])
    show "fl_chain (freeListNext ?s) (freeListHead ?s) (n # xs)"
      using fl_inv_chain(1)[OF v] fl_pcs(1)[OF v i] p True by simp
    show "set (fl_held ?s) = (if In_list = Held then insert n (set (fl_held s)) else set (fl_held s) - {n})"
      using fl_inv_held(2)[OF v, of n] n True by simp
  qed (use True p o n c nx i af fl_pcs(1)[OF v] fl_inv_chain[OF v] fl_inv_held(1)[OF v] fl_lengths(1)[OF v]
      number_move[OF i, of "fl_refers n" "fl_finish a"] in \<open>auto split: if_splits\<close>)
  then show ?thesis using True by auto
next
  case False
  have "set_option (freeListHead s) \<subseteq> {..<length (freeListNext s)}"
    using fl_inv_chain(1)[OF v] fl_in_list[OF v] by (cases xs) auto
  then have "fl_inv pl xs (fl_goto i (Fl_push_failed n (freeListHead s) a) s)"
    using fl_inv_goto[OF v i, of "Fl_push_failed n (freeListHead s) a"] p fl_pcs[OF v i] by (simp add: fun_eq_iff)
  then show ?thesis using False by auto
qed

lemma fl_step_push_failed:
  assumes v: "fl_inv pl xs s" and i: "i < length (fl_threads s)" and p: "fl_threads s ! i = Fl_push_failed n head a"
  shows "\<exists>pl'. fl_inv pl' xs (add_knowing_refcount_is_zero i (Fl_push_failed n head a) s)"
proof -
  let ?k = "number (fl_refers n) (fl_threads s)"
  have r: "unat (freeListRefs s ! n) = ?k + 1" using fl_owner_counts[OF v i] p by simp
  then have z: "freeListRefs s ! n = 1 \<longleftrightarrow> ?k = 0" by (metis add_0 add_eq_self_zero add.commute unat_1 word_unat_eq_iff)
  have sum: "unat (freeListRefs s ! n + (SHOULD_BE_ON_FREELIST - 1)) = ?k + 2 ^ 31"
    using refs_plus[of "freeListRefs s ! n" "SHOULD_BE_ON_FREELIST - 1"] r refers_few[OF v, of n] by simp
  show ?thesis
    unfolding add_knowing_refcount_is_zero.simps Let_def
    by (rule fl_inv_owner_move[OF v i, where x = "if ?k = 0 then Owned i else Pending"])
      (use p i z sum fl_pcs(2)[OF v i] number_move[OF i, of "fl_refers n" "if ?k = 0 then Fl_store_next n head a else fl_finish a"]
        in \<open>auto split: if_splits\<close>)
qed

text \<open>The references that a node's count allows.\<close>

lemma fl_count_bounds: "fl_count_ok x ps k r \<Longrightarrow> k \<le> r \<and> r \<le> 2 ^ 31 + k"
  by (cases x; cases "case x of Owned t \<Rightarrow> ps ! t | _ \<Rightarrow> Fl_idle") auto

lemma fl_count_inc: "fl_count_ok x ps k r \<Longrightarrow> r mod 2 ^ 31 \<noteq> 0 \<Longrightarrow> fl_count_ok x ps (k + 1) (r + 1)"
  by (cases x; cases "case x of Owned t \<Rightarrow> ps ! t | _ \<Rightarrow> Fl_idle") auto

lemma fl_count_dec: "fl_count_ok x ps k r \<Longrightarrow> 0 < k \<Longrightarrow> \<not> (x = Pending \<and> k = 1) \<Longrightarrow> fl_count_ok x ps (k - 1) (r - 1)"
  by (cases x; cases "case x of Owned t \<Rightarrow> ps ! t | _ \<Rightarrow> Fl_idle") auto

lemma fl_count_last:
  "fl_count_ok x ps k r \<Longrightarrow> 0 < k \<Longrightarrow> k < 2 ^ 31 - 1 \<Longrightarrow> r = 2 ^ 31 + 1 \<longleftrightarrow> x = Pending \<and> k = 1"
  by (cases x; cases "case x of Owned t \<Rightarrow> ps ! t | _ \<Rightarrow> Fl_idle") auto

text \<open>A thread that does not own a node gets or drops a reference to one; nothing changes hands.\<close>

lemma fl_inv_ref_move:
  assumes v: "fl_inv pl xs s" and i: "i < length (fl_threads s)" and n: "n < length (freeListNext s)"
    and o: "fl_owns (fl_threads s ! i) = None" "fl_owns q = None"
    and rq: "\<And>m. m \<noteq> n \<Longrightarrow> fl_refers m q = fl_refers m (fl_threads s ! i)"
    and c: "fl_count_ok (pl n) (fl_threads s) (number (fl_refers n) ((fl_threads s)[i := q])) (unat r)"
    and p: "fl_pc_ok (freeListNext s) q" "fl_mentions q \<subseteq> {..<length (freeListNext s)}"
  shows "fl_inv pl xs (fl_goto i q (fl_set_refs n r s))"
proof -
  have ni: "pl n \<noteq> Owned i" using fl_owned[OF v n, of i] o by auto
  have "fl_count_ok (pl n) ((fl_threads s)[i := q]) k u = fl_count_ok (pl n) (fl_threads s) k u" for k u
    using ni by (cases "pl n") auto
  moreover have "set xs = (if pl n = In_list then insert n (set xs) else set xs - {n})"
    using fl_in_list[OF v, of n] n by auto
  moreover have "set (fl_held s) = (if pl n = Held then insert n (set (fl_held s)) else set (fl_held s) - {n})"
    using fl_inv_held(2)[OF v, of n] n by auto
  ultimately have "fl_inv (pl(n := pl n)) xs (fl_goto i q (fl_set_refs n r s))"
    by (intro fl_inv_move[OF v i n, where q = q and r = r])
      (use o rq c p fl_pcs(1)[OF v] fl_inv_chain[OF v] fl_inv_held(1)[OF v] in auto)
  then show ?thesis by simp
qed

lemma fl_head_in_range: "fl_inv pl xs s \<Longrightarrow> set_option (freeListHead s) \<subseteq> {..<length (freeListNext s)}"
  using fl_inv_chain(1)[of pl xs s] fl_in_list[of pl xs s] by (cases xs) auto

lemma fl_step_inc:
  assumes v: "fl_inv pl xs s" and i: "i < length (fl_threads s)" and p: "fl_threads s ! i = Fl_inc h refs"
  shows "fl_inv pl xs (try_get i (Fl_inc h refs) s)"
proof (cases "freeListRefs s ! h = refs")
  case True
  let ?k = "number (fl_refers h) (fl_threads s)"
  have h: "h < length (freeListNext s)" "unat refs mod 2 ^ 31 \<noteq> 0"
    using fl_pcs[OF v i] p unfolding refs_mask_zero[symmetric] by auto
  have c: "fl_count_ok (pl h) (fl_threads s) ?k (unat refs)" using fl_counts[OF v h(1)] True by simp
  have "unat refs \<le> 2 ^ 31 + ?k"
    using fl_count_bounds[OF c] by simp
  then have sum: "unat (refs + 1) = unat refs + 1" using refs_plus[of refs 1] refers_few[OF v, of h] by simp
  have m: "number (fl_refers h) ((fl_threads s)[i := Fl_next h]) = ?k + 1"
    using number_move[OF i, of "fl_refers h" "Fl_next h"] p by simp
  have "fl_count_ok (pl h) (fl_threads s) (?k + 1) (unat refs + 1)"
    using fl_count_inc[OF c h(2)] .
  then show ?thesis
    using True fl_inv_ref_move[OF v i h(1), of "Fl_next h" "refs + 1"] p h(1) by (simp add: sum m)
next
  case False
  then show ?thesis using fl_inv_goto[OF v i, of Fl_head] p by (simp add: fun_eq_iff)
qed

lemma fl_step_drop:
  assumes v: "fl_inv pl xs s" and i: "i < length (fl_threads s)" and p: "fl_threads s ! i = Fl_drop h head"
  shows "\<exists>pl'. fl_inv pl' xs (try_get i (Fl_drop h head) s)"
proof -
  let ?k = "number (fl_refers h) (fl_threads s)" and ?r = "freeListRefs s ! h"
  have h: "h < length (freeListNext s)" "set_option head \<subseteq> {..<length (freeListNext s)}" using fl_pcs(2)[OF v i] p by auto
  have k: "0 < ?k" using refers_pos[OF i, of h] p by simp
  have c: "fl_count_ok (pl h) (fl_threads s) ?k (unat ?r)" using fl_counts[OF v h(1)] .
  have u: "unat (SHOULD_BE_ON_FREELIST + 1) = 2 ^ 31 + 1" by simp
  have last: "?r = SHOULD_BE_ON_FREELIST + 1 \<longleftrightarrow> pl h = Pending \<and> ?k = 1"
    using fl_count_last[OF c k] refers_few[OF v, of h] unfolding word_unat_eq_iff u by simp
  have "1 \<le> unat ?r"
    using fl_count_bounds[OF c] k by simp
  then have d: "unat (?r - 1) = unat ?r - 1" using refs_minus[of 1 ?r] by simp
  show ?thesis
  proof (cases "?r = SHOULD_BE_ON_FREELIST + 1")
    case True
    then have pend: "pl h = Pending" "?k = 1" using last by auto
    let ?q = "Fl_link h (Fl_retry head)"
    have m: "number (fl_refers h) ((fl_threads s)[i := ?q]) = 0"
      using number_move[OF i, of "fl_refers h" ?q] p pend by simp
    have "fl_inv (pl(h := Owned i)) xs (fl_goto i ?q (fl_set_refs h (?r - 1) s))"
      by (rule fl_inv_move[OF v i h(1), where q = ?q and r = "?r - 1"])
        (use True p pend h m i d fl_pcs(1)[OF v] fl_inv_chain[OF v] fl_inv_held(1)[OF v] fl_in_list[OF v, of h] fl_inv_held(2)[OF v, of h] in auto)
    then show ?thesis using True by auto
  next
    case False
    have m: "number (fl_refers h) ((fl_threads s)[i := fl_loop head]) = ?k - 1"
      using number_move[OF i, of "fl_refers h" "fl_loop head"] p by simp
    have "fl_count_ok (pl h) (fl_threads s) (?k - 1) (unat (?r - 1))"
      using fl_count_dec[OF c k] False last unfolding d by blast
    then have "fl_inv pl xs (fl_goto i (fl_loop head) (fl_set_refs h (?r - 1) s))"
      using fl_inv_ref_move[OF v i h(1), of "fl_loop head" "?r - 1"] p h(2) m by simp
    then show ?thesis using False by auto
  qed
qed

lemma fl_step_pop_cas:
  assumes v: "fl_inv pl xs s" and i: "i < length (fl_threads s)" and p: "fl_threads s ! i = Fl_pop_cas h nx"
  shows "\<exists>pl'. fl_inv pl' (fl_effect (Fl_pop_cas h nx) s xs) (try_get i (Fl_pop_cas h nx) s)"
proof (cases "freeListHead s = Some h")
  case True
  let ?s = "try_get i (Fl_pop_cas h nx) s"
  obtain ys where xs: "xs = h # ys" "fl_chain (freeListNext s) (freeListNext s ! h) ys"
    using fl_inv_chain(1)[OF v] True by (cases xs) auto
  have h: "h < length (freeListNext s)" "pl h = In_list" "h \<notin> set ys" "distinct ys"
    using fl_in_list[OF v, of h] fl_inv_chain(2)[OF v] xs by auto
  have nx: "freeListNext s ! h = nx" using fl_pcs(1)[OF v i] p by simp
  have c: "unat (freeListRefs s ! h) = number (fl_refers h) (fl_threads s) + 1" using fl_counts[OF v h(1)] h(2) by simp
  have m: "number (fl_refers h) ((fl_threads s)[i := Fl_check h]) = number (fl_refers h) (fl_threads s)"
    using p i by (simp add: number_move_same)
  have "fl_inv (pl(h := Owned i)) ys ?s"
  proof (rule fl_inv_move[OF v i h(1), where r = "freeListRefs s ! h" and q = "Fl_check h"])
    show "set (fl_held ?s) = (if Owned i = Held then insert h (set (fl_held s)) else set (fl_held s) - {h})"
      using fl_inv_held(2)[OF v, of h] h True by simp
  qed (use True p xs h nx c m i fl_pcs(1)[OF v] fl_inv_held(1)[OF v] in \<open>auto split: if_splits\<close>)
  then show ?thesis using True xs by auto
next
  case False
  then show ?thesis
    using fl_inv_goto[OF v i, of "Fl_drop h (freeListHead s)"] p fl_pcs(2)[OF v i] fl_head_in_range[OF v] by (auto simp: fun_eq_iff)
qed

lemma fl_step_check:
  assumes v: "fl_inv pl xs s" and i: "i < length (fl_threads s)" and p: "fl_threads s ! i = Fl_check h"
  shows "fl_inv pl xs (try_get i (Fl_check h) s)"
proof -
  have "unat (freeListRefs s ! h) < 2 ^ 31"
    using fl_owner_counts[OF v i, of h] p refers_few[OF v, of h] by simp
  then show ?thesis
    using fl_inv_goto[OF v i, of "Fl_sub2 h"] p by (simp add: should_bit_zero fun_eq_iff)
qed

lemma fl_step_sub2:
  assumes v: "fl_inv pl xs s" and i: "i < length (fl_threads s)" and p: "fl_threads s ! i = Fl_sub2 h"
  shows "\<exists>pl'. fl_inv pl' xs (try_get i (Fl_sub2 h) s)"
proof -
  let ?k = "number (fl_refers h) (fl_threads s)" and ?s = "try_get i (Fl_sub2 h) s"
  have o: "fl_owns (fl_threads s ! i) = Some h" using p by simp
  then have h: "h < length (freeListNext s)" "pl h = Owned i" using fl_owner[OF v i] by auto
  have c: "unat (freeListRefs s ! h) = ?k + 1" "0 < ?k" using fl_owner_counts[OF v i o] p refers_pos[OF i, of h] by auto
  have d: "unat (freeListRefs s ! h - 2) = ?k - 1" using refs_minus[of 2 "freeListRefs s ! h"] c by simp
  have m: "number (fl_refers h) ((fl_threads s)[i := Fl_idle]) = ?k - 1"
    using number_move[OF i, of "fl_refers h" Fl_idle] p by simp
  have hh: "h \<notin> set (fl_held s)" "h \<notin> set xs" using fl_inv_held(2)[OF v, of h] fl_in_list[OF v, of h] h by auto
  have "fl_inv (pl(h := Held)) xs ?s"
    by (rule fl_inv_move[OF v i h(1), where r = "freeListRefs s ! h - 2" and q = Fl_idle])
      (use p h c d m hh i fl_pcs(1)[OF v] fl_inv_chain[OF v] fl_inv_held(1)[OF v] in \<open>auto split: if_splits\<close>)
  then show ?thesis by blast
qed

lemma fl_step_inv:
  assumes v: "fl_inv pl xs s" and i: "i < length (fl_threads s)"
  shows "\<exists>pl'. fl_inv pl' (fl_effect (fl_threads s ! i) s xs) (fl_step i (fl_threads s ! i) s)"
proof (cases "fl_threads s ! i")
  case Fl_idle
  then show ?thesis using v by auto
next
  case Fl_head
  then have "fl_inv pl xs (fl_goto i (fl_loop (freeListHead s)) s)"
    using fl_inv_goto[OF v i, of "fl_loop (freeListHead s)"] fl_head_in_range[OF v] by (simp add: fun_eq_iff)
  then show ?thesis using Fl_head by auto
next
  case (Fl_refs h)
  let ?q = "if freeListRefs s ! h AND REFS_MASK = 0 then Fl_head else Fl_inc h (freeListRefs s ! h)"
  have "fl_inv pl xs (fl_goto i ?q s)"
    using fl_inv_goto[OF v i, of ?q] Fl_refs fl_pcs(2)[OF v i] by (simp add: fun_eq_iff)
  then show ?thesis using Fl_refs by (auto simp: Let_def)
next
  case (Fl_next h)
  then have "fl_inv pl xs (fl_goto i (Fl_pop_cas h (freeListNext s ! h)) s)"
    using fl_inv_goto[OF v i, of "Fl_pop_cas h (freeListNext s ! h)"] fl_pcs(2)[OF v i] by (simp add: fun_eq_iff)
  then show ?thesis using Fl_next by auto
next
  case (Fl_add n)
  then show ?thesis using fl_step_add[OF v i] by simp
next
  case (Fl_link n a)
  then show ?thesis using fl_step_link[OF v i] by auto
next
  case (Fl_store_next n head a)
  then show ?thesis using fl_step_store_next[OF v i] by simp
next
  case (Fl_store_refs n head a)
  then show ?thesis using fl_step_store_refs[OF v i] by simp
next
  case (Fl_push_cas n head a)
  then show ?thesis using fl_step_push_cas[OF v i] by simp
next
  case (Fl_push_failed n head a)
  then show ?thesis using fl_step_push_failed[OF v i] by simp
next
  case (Fl_inc h refs)
  then show ?thesis using fl_step_inc[OF v i Fl_inc] by (auto simp del: try_get.simps)
next
  case (Fl_pop_cas h nx)
  then show ?thesis using fl_step_pop_cas[OF v i] by simp
next
  case (Fl_check h)
  then show ?thesis using fl_step_check[OF v i] by auto
next
  case (Fl_sub2 h)
  then show ?thesis using fl_step_sub2[OF v i] by simp
next
  case (Fl_drop h head)
  then show ?thesis using fl_step_drop[OF v i] by simp
qed

lemma fl_call_add_inv:
  assumes v: "fl_inv pl xs s" and i: "i < length (fl_threads s)" and p: "fl_threads s ! i = Fl_idle" and n: "n \<in> set (fl_held s)"
  shows "\<exists>pl'. fl_inv pl' xs (fl_goto i (Fl_add n) (s \<lparr> fl_held := remove1 n (fl_held s) \<rparr>))"
proof -
  let ?s = "fl_goto i (Fl_add n) (s \<lparr> fl_held := remove1 n (fl_held s) \<rparr>)"
  have h: "n < length (freeListNext s)" "pl n = Held" using fl_inv_held(2)[OF v] n by auto
  have c: "unat (freeListRefs s ! n) = number (fl_refers n) (fl_threads s)" using fl_counts[OF v h(1)] h(2) by simp
  have m: "number (fl_refers n) ((fl_threads s)[i := Fl_add n]) = number (fl_refers n) (fl_threads s)"
    using p i by (simp add: number_move_same)
  have nx: "n \<notin> set xs" using fl_in_list[OF v, of n] h by simp
  have "fl_inv (pl(n := Owned i)) xs ?s"
    by (rule fl_inv_move[OF v i h(1), where r = "freeListRefs s ! n" and q = "Fl_add n"])
      (use p h c m nx i fl_pcs(1)[OF v] fl_inv_chain[OF v] fl_inv_held(1)[OF v] in \<open>auto split: if_splits\<close>)
  then show ?thesis by blast
qed

lemma fl_exec_inv:
  assumes v: "fl_inv pl xs s" and e: "fl_exec e s = Some s'"
  shows "\<exists>pl'. fl_inv pl' (fl_exec_effect e s xs) s'"
proof (cases e)
  case (Fl_call_add i n)
  then show ?thesis using fl_call_add_inv[OF v] e by (auto split: if_splits)
next
  case (Fl_call_try_get i)
  then have "fl_inv pl xs s'"
    using fl_inv_goto[OF v, of i Fl_head] e by (auto simp: fun_eq_iff split: if_splits)
  then show ?thesis using Fl_call_try_get by auto
next
  case (Fl_step i)
  then show ?thesis using fl_step_inv[OF v, of i] e by (auto split: if_splits)
qed

lemma fl_exec_lengths:
  assumes e: "fl_exec e s = Some s'"
  shows "length (fl_threads s') = length (fl_threads s)" "length (freeListNext s') = length (freeListNext s)"
proof -
  have "length (fl_threads (fl_step i p s)) = length (fl_threads s) \<and> length (freeListNext (fl_step i p s)) = length (freeListNext s)" for i p
    by (cases p) (auto simp: fl_add_def Let_def)
  then show "length (fl_threads s') = length (fl_threads s)" "length (freeListNext s') = length (freeListNext s)"
    using e by (cases e; auto split: if_splits)+
qed

definition fl_valid :: "nat \<Rightarrow> nat \<Rightarrow> free_list \<Rightarrow> bool" where
  "fl_valid threads nodes s \<longleftrightarrow>
     length (fl_threads s) = threads \<and> length (freeListNext s) = nodes \<and> (threads < 2 ^ 31 - 1 \<longrightarrow> (\<exists>pl xs. fl_inv pl xs s))"

lemma fl_valid_step: "fl_valid threads nodes s \<Longrightarrow> fl_exec e s = Some s' \<Longrightarrow> fl_valid threads nodes s'"
  unfolding fl_valid_def using fl_exec_inv[of _ _ s e s'] fl_exec_lengths[of e s s'] by blast

interpretation free_list: safety_system fl_exec "FreeList threads nodes" "fl_valid threads nodes" for threads nodes
proof
  show "fl_valid threads nodes (FreeList threads nodes)"
    using fl_inv_init[of threads nodes] by (auto simp: fl_valid_def) (auto simp: FreeList_def)
qed (rule fl_valid_step)

text \<open>When no thread is in a call, every node is in the list or held.\<close>

lemma fl_quiescent:
  assumes v: "fl_inv pl xs s" and idle: "\<forall>i<length (fl_threads s). fl_threads s ! i = Fl_idle"
  shows "set xs \<union> set (fl_held s) = {..<length (freeListNext s)}"
proof -
  have "pl n = In_list \<or> pl n = Held" if n: "n < length (freeListNext s)" for n
  proof (cases "pl n")
    case (Owned t)
    then show ?thesis using fl_owned[OF v n Owned] idle by auto
  next
    case Pending
    have "number (fl_refers n) (fl_threads s) = 0" using idle by (simp add: number_zero)
    then show ?thesis using fl_counts[OF v n] Pending by simp
  qed auto
  then show ?thesis using fl_in_list[OF v] fl_inv_held(2)[OF v] by blast
qed

text \<open>Thread 1 pushes while thread 0 tries to take the node that was on top.\<close>

definition fl_example :: "fl_event list" where
  "fl_example =
     [Fl_call_add 0 0, Fl_step 0, Fl_step 0, Fl_step 0, Fl_step 0, Fl_step 0,
      Fl_call_add 1 1, Fl_step 1, Fl_step 1, Fl_step 1, Fl_call_try_get 0] @ replicate 4 (Fl_step 0) @
      replicate 2 (Fl_step 1) @ replicate 8 (Fl_step 0)"

text \<open>
  C7. However any number of threads (fewer than \<open>2 ^ 31 - 1\<close>) add and take nodes, the free list is a stack without repetitions:
  every step leaves its contents alone, pushes the node that its thread adds, or pops the top node. A node is in
  the list or held by at most one client, the assertion never fails, and no node is lost: when no thread
  is in a call, every node that is not held is in the list.
\<close>

theorem free_list_is_a_stack:
  assumes "runs fl_exec es (FreeList threads nodes) = Some s" "threads < 2 ^ 31 - 1" "fl_exec e s = Some s'"
  shows "\<exists>xs. fl_contents s = Some xs \<and> fl_contents s' = Some (fl_exec_effect e s xs) \<and>
    distinct (xs @ fl_held s) \<and> set (xs @ fl_held s) \<subseteq> {..<nodes} \<and> \<not> fl_failed s \<and>
    ((\<forall>i<threads. fl_threads s ! i = Fl_idle) \<longrightarrow> set (xs @ fl_held s) = {..<nodes})"
proof -
  have "fl_valid threads nodes s" using free_list.inv_reachable[OF assms(1)] .
  then obtain pl xs where v: "fl_inv pl xs s" and l: "length (fl_threads s) = threads" "length (freeListNext s) = nodes"
    using assms(2) by (auto simp: fl_valid_def)
  obtain pl' where v': "fl_inv pl' (fl_exec_effect e s xs) s'" using fl_exec_inv[OF v assms(3)] by blast
  have "set xs \<inter> set (fl_held s) = {}"
  proof (intro equals0I)
    fix n
    assume "n \<in> set xs \<inter> set (fl_held s)"
    then have "pl n = In_list" "pl n = Held" using fl_in_list[OF v, of n] fl_inv_held(2)[OF v, of n] by blast+
    then show False by simp
  qed
  then have d: "distinct (xs @ fl_held s)" using fl_inv_held(1)[OF v] fl_inv_chain(2)[OF v] by simp
  have r: "set (xs @ fl_held s) \<subseteq> {..<nodes}"
  proof
    fix n
    assume "n \<in> set (xs @ fl_held s)"
    then show "n \<in> {..<nodes}" using fl_in_list[OF v, of n] fl_inv_held(2)[OF v, of n] l by auto
  qed
  have "(\<forall>i<threads. fl_threads s ! i = Fl_idle) \<longrightarrow> set (xs @ fl_held s) = {..<nodes}"
    using fl_quiescent[OF v] unfolding l by simp
  then show ?thesis
    using fl_inv_contents[OF v] fl_inv_contents[OF v'] d r fl_not_failed[OF v] by blast
qed

lemma free_list_is_a_stack_witness:
  "\<exists>s. runs fl_exec fl_example (FreeList 2 2) = Some s \<and> distinct (the (fl_contents s) @ fl_held s) \<and> fl_held s = [1]"
proof -
  have "map_option (\<lambda>s. (fl_threads s, fl_held s)) (runs fl_exec fl_example (FreeList 2 2)) = Some ([Fl_idle, Fl_idle], [1])" by code_simp
  then obtain s where s: "runs fl_exec fl_example (FreeList 2 2) = Some s" "fl_threads s = [Fl_idle, Fl_idle]" "fl_held s = [1]"
    by (auto simp del: runs.simps)
  have e: "fl_exec (Fl_call_try_get 0) s = Some (fl_goto 0 Fl_head s)" using s(2) by simp
  have "(2 :: nat) < 2 ^ 31 - 1" by simp
  then obtain xs where "fl_contents s = Some xs" "distinct (xs @ fl_held s)"
    using free_list_is_a_stack[OF s(1) _ e] by blast
  then show ?thesis using s(1,3) by auto
qed

end
