(* ===== verification/Spec2Isabelle.thy ===== *)
theory Spec2Isabelle
  imports Spin_Mutex Wait_Event Aligned_Array Fifo_Queue Ref_Count Work_Steal_Queue
    Continuation_Vector Task_Properties Fifo_Scheduler Default_Scheduler Parallel_Algorithms When_All_Any Channel Threadpool
    Wait_Queue_Scheduler Balancer_Scheduler Context_Pool Blocking_Queue
    Cq_Queue_Properties Cq_Claims Cq_Free_List Cq_Implicit_Properties
begin

text \<open>
  Verification development of the AsyncCpp examples: the task library Async++ (\<open>libs/asyncplusplus\<close>), the channels of
  \<open>libs/cpp-channel\<close>, the lock-free queues of \<open>libs/concurrentqueue\<close>, and the program's own schedulers and mutexes (\<open>src\<close>).

  \<^bold>\<open>The parts and how they interact.\<close> A task (\<open>task_base.h\<close>, \<open>task.h\<close>) is a reference-counted object (\<open>ref_count.h\<close>) with a
  state, a result and a list of continuations (\<open>continuation_vector.h\<close>). Spawning it gives a \<open>task_run_handle\<close> to a scheduler, which
  runs it once; finishing it hands its continuations to their schedulers; \<open>wait\<close> calls the wait handler of
  the thread: the generic one sleeps on a \<open>task_wait_event\<close>, the one of a pool thread runs other tasks meanwhile, a user may set another. The library's schedulers are the inline scheduler, the FIFO scheduler and the work-stealing thread pool, built
  on \<open>fifo_queue\<close>, \<open>work_steal_queue\<close> and \<open>aligned_array\<close>; the program adds a queue that is drained by the threads that wait
  (\<open>CustomSchedulerWaitQueue\<close>), a load balancer (\<open>CustomSchedulerBalancer\<close>) and a pool with serial contexts
  (\<open>CustomSchedulerContextInPool\<close>). Above tasks are \<open>when_all\<close> and \<open>when_any\<close> and the parallel algorithms with their partitioners.
  Channels are independent of tasks. A \<open>ConcurrentQueue\<close> is a list of sub-queues, one per producer, made of blocks from a common pool
  with a free list; \<open>BlockingConcurrentQueue\<close> adds a semaphore.

  \<^bold>\<open>How code is modelled.\<close> A sequential operation is a function on a record of the state; its result is an option or a datatype of
  errors, so that a failed assertion, a null pointer, an index out of range or the use of a destroyed object is a value. A component that
  is used by several threads is a function \<open>step\<close> from an event and a state to an optional state: one event is one access to a shared atomic,
  one critical section, or the wake-up of a sleeper, and it names the thread that moves and whatever the code leaves open. \<open>runs\<close>
  (\<open>Prelude\<close>) executes a list of events, so theorems about all event lists are about all interleavings, under sequentially
  consistent memory. Assertions (\<open>assert\<close>, \<open>LIBASYNC_ASSERT\<close>) are enabled unless said otherwise; the machine of tasks has a flag for \<open>NDEBUG\<close>,
  which decides what unwrapping an empty task does. Machine integers are words (\<open>size_t\<close> is \<open>64 word\<close>). User code, allocation and the clock are parameters
  or part of the event. Fields that only record history (ghosts) are named as such where they are declared.

  \<^bold>\<open>The theories.\<close>
  \<^item> \<open>Prelude\<close>: runs of step functions, lemmas on words, lists and counting; the interfaces \<open>safety_system\<close> (an invariant holds in
    every reachable state) and \<open>terminating_system\<close>, interpreted once per component.
  \<^item> \<open>Spin_Mutex\<close> (\<open>src/SpinMutex.h\<close>, \<open>.cpp\<close>): both locks; mutual exclusion through the interface \<open>mutex_system\<close>.
  \<^item> \<open>Wait_Event\<close> (\<open>task_wait_event.h\<close>, \<open>cancel.h\<close>): no signal is lost by a sleeping waiter.
  \<^item> \<open>Aligned_Array\<close> (\<open>aligned_alloc.h\<close>): construction, with exceptions, and destruction of an array, each object once.
  \<^item> \<open>Fifo_Queue\<close> (\<open>fifo_queue.h\<close>): the ring buffer refines a list; the interface \<open>task_queue\<close> of a queue of tasks.
  \<^item> \<open>Ref_Count\<close> (\<open>ref_count.h\<close>): the counter is the number of references and an object is deleted once, when it reaches 0.
  \<^item> \<open>Work_Steal_Queue\<close> (\<open>work_steal_queue.h\<close>): any interleaving of push, pop and steals refines a double-ended queue.
  \<^item> \<open>Continuation_Vector\<close> (\<open>continuation_vector.h\<close>): the packed pointer, and no continuation is lost or flushed twice.
  \<^item> \<open>Task_Core\<close>, \<open>Task_Invariant\<close>, \<open>Task_Properties\<close> (\<open>task_base.h\<close>, \<open>task.h\<close>, \<open>scheduler.h\<close>): the machine of tasks, whose threads
    have stacks of frames; waits go to the handler of the thread (\<open>wait_for_task\<close>), the generic one or a custom one that may
    add functions, run tasks and return at any time; who is responsible for an unfinished task; what tasks, continuations and waits guarantee.
  \<^item> \<open>Fifo_Scheduler\<close>, \<open>Default_Scheduler\<close> (\<open>scheduler.cpp\<close>, \<open>singleton.h\<close>): all tasks run, in order; the size of the default
    pool; the double-checked lock.
  \<^item> \<open>Threadpool\<close> (\<open>threadpool_scheduler.cpp\<close>): workers, their nested loops while they wait, the stack of sleeping workers; no task is
    lost and no wake-up is missed.
  \<^item> \<open>Partitioner\<close>, \<open>Parallel_Algorithms\<close> (\<open>range.h\<close>, \<open>partitioner.h\<close>, \<open>parallel_for.h\<close>, \<open>parallel_reduce.h\<close>, \<open>parallel_invoke.h\<close>): chunks
    cover the range once, and parallel results are the sequential ones; interfaces \<open>iterators\<close> and \<open>partitioner\<close>. These
    results are relative to a join that waits until the child has finished; on a pool thread the wait may return early (\<open>Threadpool\<close>).
  \<^item> \<open>When_All_Any\<close> (\<open>when_all_any.h\<close>): the result is set once, after all inputs or by the first one.
  \<^item> \<open>Channel\<close> (\<open>cpp-channel/include/channel.h\<close>): a bounded FIFO channel and \<open>select\<close>; when a thread may sleep.
  \<^item> \<open>Wait_Queue_Scheduler\<close>, \<open>Balancer_Scheduler\<close>, \<open>Context_Pool\<close> (\<open>src/CustomScheduler*.h\<close>, \<open>.cpp\<close>): order and exclusion
    of tasks, shutdown with its races, and runs in which a task is left behind.
  \<^item> \<open>Lightweight_Semaphore\<close>, \<open>Blocking_Queue\<close> (\<open>blockingconcurrentqueue.h\<close>): with the machine integers of the source, whose
    conversions and wrap-around are modelled, permits are conserved as long as callers and permits stay within bounds; the blocking operations return elements.
  \<^item> \<open>Cq_Details\<close>, \<open>Cq_Block\<close>, \<open>Cq_Block_Pool\<close>, \<open>Cq_Free_List\<close> (\<open>concurrentqueue.h\<close>): bit tricks, the two ways to count the
    elements dequeued from a block, where blocks come from, the lock-free free list under any interleaving.
  \<^item> \<open>Cq_Explicit\<close> with \<open>Cq_Explicit_Fifo\<close>, \<open>Cq_Explicit_Bulk\<close>, \<open>Cq_Explicit_Properties\<close>: \<open>ExplicitProducer\<close>, one operation at
    a time, refines a list, as long as no constructor throws at the start of a block; bulk enqueues are modelled, but left out of the
    theorem, because a failing one corrupts the index. \<open>Cq_Claims\<close>: how concurrent dequeues share the elements of a sub-queue out.
  \<^item> \<open>Cq_Tokens\<close>: producer tokens and the list of producers, under any interleaving. \<open>Cq_Queue\<close>, \<open>Cq_Queue_Properties\<close>: the
    dequeue operations of the whole queue and consumer tokens, over the interfaces \<open>sub_queue\<close> and \<open>bulk_sub_queue\<close>, which are
    interpreted on producers of both kinds.
  \<^item> \<open>Cq_Implicit\<close> with \<open>Cq_Implicit_Index\<close>, \<open>Cq_Implicit_Fifo\<close>, \<open>Cq_Implicit_Release\<close>, \<open>Cq_Implicit_Bulk\<close>,
    \<open>Cq_Implicit_Properties\<close>: \<open>ImplicitProducer\<close>, one operation at a time: its block index is a ring of entries, the sub-queue refines a
    list, also when allocations fail or constructors throw, a bulk enqueue that fails is undone, and every block is given back.

  \<^bold>\<open>What the lemmas show.\<close> Each concurrent component has an invariant (named \<open>..._inv\<close>), a lemma that each event keeps it, and an
  interpretation of \<open>safety_system\<close> from which its properties follow; each sequential one has an abstraction to lists
  (\<open>..._rep\<close>) and one lemma per operation. Properties come with witnesses: concrete runs or inputs on which the hypotheses hold.

  \<^bold>\<open>Bounds and fuel.\<close> The sub-queues of \<open>ConcurrentQueue\<close> have 64-bit indices that wrap around; the elements of a sub-queue and the
  blocks of its pool are assumed to fit in 2 to the 63rd. The semaphore has fewer than 2 to the 31st callers, and fewer than 2 to the
  63rd permits are signalled in all. Counts of producers and of consumers are 32-bit words, and a queue has
  fewer than 2 to the 32nd producers. Where a loop has fuel, a lemma shows that the fuel given is enough: one more than the number of sub-queues
  for a round of \<open>try_dequeue\<close> with a token, the square of it for the bulk operation (each new round has emptied a sub-queue), the number of
  blocks for the destructor. Spinning (the semaphore's 10000 tries, the thread pool's yields) is any number of tries.

  \<^bold>\<open>Not modelled.\<close> Memory orders weaker than sequential consistency: fences and acquire-release pairs are read as what they are there to
  establish. Compile-time type computations (\<open>traits.h\<close>). The hash from threads to implicit
  producers of \<open>ConcurrentQueue\<close>. Move, swap and statistics of
  \<open>ConcurrentQueue\<close>, which are not thread-safe and go member by member, and its thread exit listener, which is off by default. The
  experiments in \<open>src/main.cpp\<close>, \<open>ContextSwitchTest\<close>, \<open>SchedulersTest\<close>, \<open>SchedulersContextTest\<close>, \<open>TaskSpawnTest\<close> and
  \<open>ParallelAlgoTest\<close>: they time and print calls of what is modelled. Tests, benchmarks and vendored code (Boost, TBB, Relacy).
\<close>

end
